(* ===== verification/Prelude.thy ===== *)
theory Prelude
  imports Complex_Main "HOL-Library.List_Lexorder" "HOL-Library.Char_ord"
    "HOL-Library.Product_Lexorder"
begin

text \<open>
  What the component theories share: the exceptions of the sources as values, the effect
  type of a Python coroutine (a state, a raised exception or a result, and the state left
  behind), decimal text, and generic facts on lists and options.
\<close>

named_theorems io_simps \<open>running an effectful computation one step\<close>

section \<open>Exceptions as values\<close>

text \<open>
  \<open>errors.py\<close>: an \<open>RpcError\<close> carries a gRPC status and a message; its subclasses only fix
  the status. The other constructors are the exceptions that the modelled code raises or
  lets through: \<open>redis.exceptions.RedisError\<close> and its subclasses of this repository,
  \<open>ValueError\<close>, pydantic's \<open>ValidationError\<close>, \<open>SessionLeaseConflict\<close>, the errors of the
  audit trail, failures of the file system, the errors of the certificate checks, any other
  \<open>Exception\<close>, and \<open>asyncio.CancelledError\<close>.
\<close>

datatype grpc_status =
    UNAUTHENTICATED
  | PERMISSION_DENIED
  | RESOURCE_EXHAUSTED
  | INVALID_ARGUMENT
  | FAILED_PRECONDITION
  | ABORTED
  | UNAVAILABLE

datatype err =
    RpcError grpc_status string
  | RedisError string
  | RedisDurabilityError string
  | ValueError string
  | ValidationError
  | IndexError
  | SessionLeaseConflict string
  | AuditCapacityError string
  | AuditScanLimitError string
  | AuditArchiveError string
  | KeyError string
  | OSError string
  | RuntimeError string
  | VerificationError string
  | ExtensionNotFound
  | PeerValidationCapacityError string
  | OtherError string
  | CancelledError

definition UnauthenticatedError :: "string \<Rightarrow> err" where
  "UnauthenticatedError message = RpcError UNAUTHENTICATED message"

definition PermissionDeniedError :: "string \<Rightarrow> err" where
  "PermissionDeniedError message = RpcError PERMISSION_DENIED message"

definition ResourceExhaustedError :: "string \<Rightarrow> err" where
  "ResourceExhaustedError message = RpcError RESOURCE_EXHAUSTED message"

definition InvalidArgumentError :: "string \<Rightarrow> err" where
  "InvalidArgumentError message = RpcError INVALID_ARGUMENT message"

definition FailedPreconditionError :: "string \<Rightarrow> err" where
  "FailedPreconditionError message = RpcError FAILED_PRECONDITION message"

lemmas rpc_error_defs = UnauthenticatedError_def PermissionDeniedError_def
  ResourceExhaustedError_def InvalidArgumentError_def FailedPreconditionError_def

text \<open>\<open>isinstance(exc, RedisError)\<close>: the durability and audit errors are subclasses.\<close>

fun is_redis_error :: "err \<Rightarrow> bool" where
  "is_redis_error (RedisError _) = True"
| "is_redis_error (RedisDurabilityError _) = True"
| "is_redis_error (AuditCapacityError _) = True"
| "is_redis_error (AuditScanLimitError _) = True"
| "is_redis_error (AuditArchiveError _) = True"
| "is_redis_error _ = False"

section \<open>Effects\<close>

text \<open>
  A coroutine over a state \<open>'s\<close>: it raises (\<open>Inl\<close>) or returns (\<open>Inr\<close>), and leaves a
  state behind in both cases, since an exception does not undo earlier effects.
\<close>

type_synonym ('s, 'a) io = "'s \<Rightarrow> (err + 'a) \<times> 's"

definition ret :: "'a \<Rightarrow> ('s, 'a) io" where
  "ret x s = (Inr x, s)"

definition raise :: "err \<Rightarrow> ('s, 'a) io" where
  "raise e s = (Inl e, s)"

definition bindio :: "('s, 'a) io \<Rightarrow> ('a \<Rightarrow> ('s, 'b) io) \<Rightarrow> ('s, 'b) io" where
  "bindio m f s = (case m s of (Inl e, s') \<Rightarrow> (Inl e, s') | (Inr x, s') \<Rightarrow> f x s')"

definition seqio :: "('s, 'a) io \<Rightarrow> ('s, 'b) io \<Rightarrow> ('s, 'b) io" where
  "seqio m n = bindio m (\<lambda>_. n)"

text \<open>\<open>try: m except BaseException as e: h e\<close>\<close>

definition catchio :: "('s, 'a) io \<Rightarrow> (err \<Rightarrow> ('s, 'a) io) \<Rightarrow> ('s, 'a) io" where
  "catchio m h s = (case m s of (Inl e, s') \<Rightarrow> h e s' | (Inr x, s') \<Rightarrow> (Inr x, s'))"

primrec mapio :: "('a \<Rightarrow> ('s, 'b) io) \<Rightarrow> 'a list \<Rightarrow> ('s, 'b list) io" where
  "mapio f [] = ret []"
| "mapio f (x # xs) = bindio (f x) (\<lambda>y. bindio (mapio f xs) (\<lambda>ys. ret (y # ys)))"

lemma ret_apply [simp]: "ret x s = (Inr x, s)"
  by (simp add: ret_def)

lemma raise_apply [simp]: "raise e s = (Inl e, s)"
  by (simp add: raise_def)

lemma bindio_split [io_simps]:
  "bindio m f s = (case fst (m s) of Inl e \<Rightarrow> (Inl e, snd (m s)) | Inr x \<Rightarrow> f x (snd (m s)))"
  by (simp add: bindio_def split: prod.splits sum.splits)

lemma seqio_split [io_simps]:
  "seqio m n s = (case fst (m s) of Inl e \<Rightarrow> (Inl e, snd (m s)) | Inr x \<Rightarrow> n (snd (m s)))"
  by (simp add: seqio_def bindio_split)

lemma bindio_ret [simp]: "bindio (ret x) f = f x"
  by (simp add: bindio_def fun_eq_iff)

lemma bindio_raise [simp]: "bindio (raise e) f = raise e"
  by (simp add: bindio_def fun_eq_iff)

lemma bindio_assoc: "bindio (bindio m f) g = bindio m (\<lambda>x. bindio (f x) g)"
  by (auto simp: bindio_def fun_eq_iff split: prod.splits sum.splits)

lemma bindio_Inr_iff:
  "bindio m f s = (Inr y, t) \<longleftrightarrow> (\<exists>x s'. m s = (Inr x, s') \<and> f x s' = (Inr y, t))"
  by (auto simp: bindio_def split: prod.splits sum.splits)

subsection \<open>Tasks that may not finish\<close>

text \<open>
  A coroutine that waits for others may not finish under a given schedule: its result is
  then \<open>None\<close>.
\<close>

type_synonym ('s, 'a) task = "'s \<Rightarrow> ((err + 'a) \<times> 's) option"

definition bindt :: "('s, 'a) task \<Rightarrow> ('a \<Rightarrow> ('s, 'b) task) \<Rightarrow> ('s, 'b) task" where
  "bindt m f s = (case m s of None \<Rightarrow> None | Some (Inl e, s') \<Rightarrow> Some (Inl e, s') | Some (Inr x, s') \<Rightarrow> f x s')"

definition liftt :: "('s, 'a) io \<Rightarrow> ('s, 'a) task" where
  "liftt m s = Some (m s)"

definition catcht :: "('s, 'a) task \<Rightarrow> (err \<Rightarrow> ('s, 'a) task) \<Rightarrow> ('s, 'a) task" where
  "catcht m h s = (case m s of None \<Rightarrow> None | Some (Inl e, s') \<Rightarrow> h e s' | Some (Inr x, s') \<Rightarrow> Some (Inr x, s'))"

lemma bindt_Some_iff:
  "bindt m f s = Some (r, t) \<longleftrightarrow>
     (\<exists>e. m s = Some (Inl e, t) \<and> r = Inl e) \<or> (\<exists>x s'. m s = Some (Inr x, s') \<and> f x s' = Some (r, t))"
  by (auto simp: bindt_def split: option.splits prod.splits sum.splits)

lemma bindt_Inl_cases:
  assumes "bindt m f s = Some (r, t)"
  obtains (raised) e where "m s = Some (Inl e, t)" "r = Inl e"
    | (went) x s' where "m s = Some (Inr x, s')" "f x s' = Some (r, t)"
  using assms by (auto simp: bindt_Some_iff)

lemma liftt_apply [simp]: "liftt m s = Some (m s)"
  by (simp add: liftt_def)

lemma bindt_liftt_ret [simp]: "bindt (liftt (ret x)) f = f x"
  by (simp add: bindt_def fun_eq_iff)

lemma bindt_liftt_raise [simp]: "bindt (liftt (raise e)) f = liftt (raise e)"
  by (simp add: bindt_def fun_eq_iff)

section \<open>Decimal text\<close>

text \<open>\<open>str(n)\<close> of a nonnegative integer, and its inverse on nonempty runs of ASCII digits.\<close>

definition digit_char :: "nat \<Rightarrow> char" where
  "digit_char d = char_of (48 + d)"

definition is_digit :: "char \<Rightarrow> bool" where
  "is_digit c \<longleftrightarrow> 48 \<le> (of_char c :: nat) \<and> (of_char c :: nat) \<le> 57"

definition digit_val :: "char \<Rightarrow> nat" where
  "digit_val c = of_char c - 48"

fun show_nat :: "nat \<Rightarrow> string" where
  "show_nat n = (if n < 10 then [digit_char n] else show_nat (n div 10) @ [digit_char (n mod 10)])"

declare show_nat.simps [simp del]

definition show_int :: "int \<Rightarrow> string" where
  "show_int i = (if i < 0 then CHR ''-'' # show_nat (nat (- i)) else show_nat (nat i))"

definition nat_of_digits :: "string \<Rightarrow> nat" where
  "nat_of_digits s = foldl (\<lambda>a c. 10 * a + digit_val c) 0 s"

definition read_nat :: "string \<Rightarrow> nat option" where
  "read_nat s = (if s \<noteq> [] \<and> list_all is_digit s then Some (nat_of_digits s) else None)"

lemma is_digit_digit_char [simp]: "d < 10 \<Longrightarrow> is_digit (digit_char d)"
  by (simp add: is_digit_def digit_char_def)

lemma digit_val_digit_char [simp]: "d < 10 \<Longrightarrow> digit_val (digit_char d) = d"
  by (simp add: digit_val_def digit_char_def)

lemma show_nat_nonempty [simp]: "show_nat n \<noteq> []"
  by (subst show_nat.simps) simp

lemma show_nat_digits: "list_all is_digit (show_nat n)"
proof (induction n rule: show_nat.induct)
  case (1 n)
  then show ?case by (subst show_nat.simps) simp
qed

lemma nat_of_digits_show: "nat_of_digits (show_nat n) = n"
proof (induction n rule: show_nat.induct)
  case (1 n)
  then show ?case
    by (subst show_nat.simps) (simp add: nat_of_digits_def)
qed

lemma read_show_nat [simp]: "read_nat (show_nat n) = Some n"
  by (simp add: read_nat_def show_nat_digits nat_of_digits_show)

lemma show_nat_inject [simp]: "show_nat m = show_nat n \<longleftrightarrow> m = n"
  using read_show_nat by (metis option.inject)

section \<open>Lists and options\<close>

definition has_prefix :: "string \<Rightarrow> string \<Rightarrow> bool" where
  "has_prefix p s \<longleftrightarrow> take (length p) s = p"

lemma has_prefix_append [simp]: "has_prefix p (p @ s)"
  by (simp add: has_prefix_def)

text \<open>The separator argument behind unambiguous composite keys.\<close>

lemma append_sep_inject:
  assumes "c \<notin> set a" and "c \<notin> set b" and "a @ c # x = b @ c # y"
  shows "a = b \<and> x = y"
  using assms
proof (induction a arbitrary: b)
  case Nil
  then show ?case by (cases b) auto
next
  case (Cons h a)
  then show ?case by (cases b) auto
qed

lemma length_filter_mono:
  "(\<And>x. x \<in> set xs \<Longrightarrow> P x \<Longrightarrow> Q x) \<Longrightarrow> length (filter P xs) \<le> length (filter Q xs)"
  by (induction xs) (auto intro: le_SucI)

lemma floor_int_diff: "\<lfloor>real m - (1 + real n)\<rfloor> = int m - (1 + int n)"
  by (rule floor_unique) simp_all

section \<open>Dictionaries in insertion order\<close>

definition dict_pop :: "'k \<Rightarrow> ('k \<times> 'v) list \<Rightarrow> ('k \<times> 'v) list" where
  "dict_pop k d = filter (\<lambda>kv. fst kv \<noteq> k) d"

definition dict_put :: "'k \<Rightarrow> 'v \<Rightarrow> ('k \<times> 'v) list \<Rightarrow> ('k \<times> 'v) list" where
  "dict_put k v d = (if map_of d k = None then d @ [(k, v)] else map (\<lambda>kv. if fst kv = k then (k, v) else kv) d)"

lemma map_of_dict_put: "map_of (dict_put k v d) j = (if j = k then Some v else map_of d j)"
proof (cases "map_of d k = None")
  case True
  then show ?thesis by (auto simp: dict_put_def map_add_def split: option.splits)
next
  case False
  have "map_of (map (\<lambda>kv. if fst kv = k then (k, v) else kv) d) j =
      (if j = k \<and> k \<in> fst ` set d then Some v else map_of d j)" for j
    by (induction d) (auto, force)
  with False show ?thesis by (auto simp: dict_put_def map_of_eq_None_iff)
qed

lemma length_dict_put: "length (dict_put k v d) \<le> length d + 1"
  by (simp add: dict_put_def)

lemma set_dict_put: "set (dict_put k v d) \<subseteq> insert (k, v) (set d)"
  by (auto simp: dict_put_def)

end
