(* ===== verification/Redis_Api.thy ===== *)
theory Redis_Api
  imports Prelude
begin

text \<open>
  Redis is a service outside the repository, so it is a parameter: \<open>'db redis\<close> is a record
  with one field per command the sources issue, over an abstract server state \<open>'db\<close>, and
  every modelled operation takes such a record. What the code relies on is the locale
  \<open>redis_server\<close>: through an abstraction \<open>view\<close> to a \<open>keyspace\<close> each command behaves as the
  Redis command reference documents it. \<open>ks_redis\<close> is the record of those documented
  behaviours over keyspaces; it satisfies the locale (the interpretation \<open>ref\<close>) and
  evaluates concrete runs.
\<close>

section \<open>Values and keyspaces\<close>

text \<open>Stream identifiers \<open>ms-seq\<close>, ordered lexicographically.\<close>

type_synonym sid = "nat \<times> nat"

text \<open>An entry of a consumer group's pending list: owner, delivery time (ms) and count.\<close>

record pending =
  pe_consumer :: string
  pe_time :: nat
  pe_count :: nat

record group =
  gr_last :: sid
  gr_pending :: "(sid \<times> pending) list"

record stream =
  st_entries :: "(sid \<times> (string \<times> string) list) list"
  st_last :: sid
  st_groups :: "string \<rightharpoonup> group"

text \<open>A sorted set lists its members by score, then by name.\<close>

type_synonym zset = "(real \<times> string) list"

datatype rvalue =
    RString string
  | RHash "string \<rightharpoonup> string"
  | RSet "string set"
  | RZset zset
  | RStream stream

text \<open>Where a range of a stream starts: \<open>-\<close>, an identifier, or what follows one.\<close>

datatype range_start = FromFirst | FromId sid | AfterId sid

datatype rtype = TNone | TString | THash | TSet | TZset | TStream

text \<open>
  The server's clock in microseconds, the live keys, the deadlines (ms) of those that
  expire, and the acknowledgements its replicas and its append-only file give to a
  \<open>WAIT\<close> or \<open>WAITAOF\<close> on the current connection.
\<close>

record keyspace =
  ks_now :: nat
  ks_data :: "string \<rightharpoonup> rvalue"
  ks_ttl :: "string \<rightharpoonup> nat"
  ks_replica_acks :: int
  ks_aof_acks :: "int list"

definition now_ms :: "keyspace \<Rightarrow> nat" where
  "now_ms ks = ks_now ks div 1000"

fun type_of_value :: "rvalue option \<Rightarrow> rtype" where
  "type_of_value None = TNone"
| "type_of_value (Some (RString _)) = TString"
| "type_of_value (Some (RHash _)) = THash"
| "type_of_value (Some (RSet _)) = TSet"
| "type_of_value (Some (RZset _)) = TZset"
| "type_of_value (Some (RStream _)) = TStream"

section \<open>The command record\<close>

text \<open>The reply of a command or script, as the client library hands it over: \<open>object\<close> in the sources.\<close>

datatype reply =
    NilReply
  | IntReply int
  | BulkReply string
  | ArrayReply "reply list"
  | MapReply "string \<rightharpoonup> string"

record 'db redis =
  TIME :: "('db, nat \<times> nat) io"
  TYPE_OF :: "string \<Rightarrow> ('db, rtype) io"
  GET :: "string \<Rightarrow> ('db, string option) io"
  SET :: "string \<Rightarrow> string \<Rightarrow> ('db, unit) io"
  SET_PX :: "string \<Rightarrow> string \<Rightarrow> int \<Rightarrow> ('db, unit) io"
  SET_NX_PX :: "string \<Rightarrow> string \<Rightarrow> int \<Rightarrow> ('db, bool) io"
  SET_KEEPTTL :: "string \<Rightarrow> string \<Rightarrow> ('db, unit) io"
  DEL :: "string list \<Rightarrow> ('db, unit) io"
  INCR :: "string \<Rightarrow> ('db, int) io"
  PEXPIRE :: "string \<Rightarrow> int \<Rightarrow> ('db, unit) io"
  PTTL :: "string \<Rightarrow> ('db, int) io"
  HGET :: "string \<Rightarrow> string \<Rightarrow> ('db, string option) io"
  HGETALL :: "string \<Rightarrow> ('db, string \<rightharpoonup> string) io"
  HSET :: "string \<Rightarrow> (string \<times> string) list \<Rightarrow> ('db, unit) io"
  SADD :: "string \<Rightarrow> string list \<Rightarrow> ('db, unit) io"
  SREM :: "string \<Rightarrow> string \<Rightarrow> ('db, unit) io"
  SMEMBERS :: "string \<Rightarrow> ('db, string set) io"
  SISMEMBER :: "string \<Rightarrow> string \<Rightarrow> ('db, bool) io"
  ZADD :: "string \<Rightarrow> real \<Rightarrow> string \<Rightarrow> ('db, unit) io"
  ZREM :: "string \<Rightarrow> string \<Rightarrow> ('db, unit) io"
  ZCARD :: "string \<Rightarrow> ('db, nat) io"
  ZCOUNT_ABOVE :: "string \<Rightarrow> real \<Rightarrow> ('db, nat) io"
  ZFIRST :: "string \<Rightarrow> ('db, (real \<times> string) option) io"
  ZREMRANGEBYSCORE :: "string \<Rightarrow> real \<Rightarrow> ('db, unit) io"
  XADD :: "string \<Rightarrow> (string \<times> string) list \<Rightarrow> ('db, sid) io"
  XACK :: "string \<Rightarrow> string \<Rightarrow> sid \<Rightarrow> ('db, nat) io"
  XDEL :: "string \<Rightarrow> sid \<Rightarrow> ('db, nat) io"
  XPENDING1 :: "string \<Rightarrow> string \<Rightarrow> sid \<Rightarrow> ('db, string option) io"
  XREADGROUP :: "string list \<Rightarrow> string \<Rightarrow> string \<Rightarrow> int \<Rightarrow>
    ('db, (string \<times> (sid \<times> (string \<times> string) list) list) list) io"
  XAUTOCLAIM :: "string \<Rightarrow> string \<Rightarrow> string \<Rightarrow> int \<Rightarrow> sid \<Rightarrow> int \<Rightarrow>
    ('db, sid \<times> (sid \<times> (string \<times> string) list) list) io"
  XGROUP_CREATE :: "string \<Rightarrow> string \<Rightarrow> ('db, unit) io"
  XLEN :: "string \<Rightarrow> ('db, nat) io"
  XLAST :: "string \<Rightarrow> ('db, sid) io"
  XADD_ID :: "string \<Rightarrow> sid \<Rightarrow> (string \<times> string) list \<Rightarrow> ('db, unit) io"
  XRANGE :: "string \<Rightarrow> range_start \<Rightarrow> sid option \<Rightarrow> int \<Rightarrow> ('db, (sid \<times> (string \<times> string) list) list) io"
  XREVRANGE :: "string \<Rightarrow> int \<Rightarrow> ('db, (sid \<times> (string \<times> string) list) list) io"
  XTRIM_MINID :: "string \<Rightarrow> sid \<Rightarrow> ('db, unit) io"
  WAIT :: "int \<Rightarrow> int \<Rightarrow> ('db, int) io"
  WAITAOF :: "int \<Rightarrow> int \<Rightarrow> int \<Rightarrow> ('db, int list) io"
  PIPELINE :: "('db, reply) io list \<Rightarrow> ('db, (err + reply) list) io"

text \<open>\<open>EXPIRE\<close> counts in seconds.\<close>

definition EXPIRE :: "'db redis \<Rightarrow> string \<Rightarrow> int \<Rightarrow> ('db, unit) io" where
  "EXPIRE R k seconds = PEXPIRE R k (1000 * seconds)"

section \<open>Documented behaviour of the commands\<close>

subsection \<open>Keys, strings and expiry\<close>

definition wrongtype :: err where
  "wrongtype = RedisError ''WRONGTYPE''"

definition ks_put :: "string \<Rightarrow> rvalue \<Rightarrow> keyspace \<Rightarrow> keyspace" where
  "ks_put k v ks = ks\<lparr>ks_data := (ks_data ks)(k \<mapsto> v)\<rparr>"

definition ks_remove :: "string \<Rightarrow> keyspace \<Rightarrow> keyspace" where
  "ks_remove k ks = ks\<lparr>ks_data := (ks_data ks)(k := None), ks_ttl := (ks_ttl ks)(k := None)\<rparr>"

definition ks_deadline :: "string \<Rightarrow> nat option \<Rightarrow> keyspace \<Rightarrow> keyspace" where
  "ks_deadline k d ks = ks\<lparr>ks_ttl := (ks_ttl ks)(k := d)\<rparr>"

definition ks_time :: "(keyspace, nat \<times> nat) io" where
  "ks_time ks = (Inr (ks_now ks div 1000000, ks_now ks mod 1000000), ks)"

definition ks_type :: "string \<Rightarrow> (keyspace, rtype) io" where
  "ks_type k ks = (Inr (type_of_value (ks_data ks k)), ks)"

definition ks_get :: "string \<Rightarrow> (keyspace, string option) io" where
  "ks_get k ks = (case ks_data ks k of
       None \<Rightarrow> (Inr None, ks)
     | Some (RString v) \<Rightarrow> (Inr (Some v), ks)
     | Some _ \<Rightarrow> (Inl wrongtype, ks))"

definition ks_set :: "string \<Rightarrow> string \<Rightarrow> (keyspace, unit) io" where
  "ks_set k v ks = (Inr (), ks_deadline k None (ks_put k (RString v) ks))"

definition ks_set_px :: "string \<Rightarrow> string \<Rightarrow> int \<Rightarrow> (keyspace, unit) io" where
  "ks_set_px k v px ks =
     (if px \<le> 0 then (Inl (RedisError ''invalid expire time''), ks)
      else (Inr (), ks_deadline k (Some (now_ms ks + nat px)) (ks_put k (RString v) ks)))"

definition ks_set_nx_px :: "string \<Rightarrow> string \<Rightarrow> int \<Rightarrow> (keyspace, bool) io" where
  "ks_set_nx_px k v px ks =
     (if px \<le> 0 then (Inl (RedisError ''invalid expire time''), ks)
      else if ks_data ks k \<noteq> None then (Inr False, ks)
      else (Inr True, ks_deadline k (Some (now_ms ks + nat px)) (ks_put k (RString v) ks)))"

definition ks_set_keepttl :: "string \<Rightarrow> string \<Rightarrow> (keyspace, unit) io" where
  "ks_set_keepttl k v ks = (Inr (), ks_put k (RString v) ks)"

definition ks_del :: "string list \<Rightarrow> (keyspace, unit) io" where
  "ks_del keys ks = (Inr (), fold ks_remove keys ks)"

text \<open>\<open>INCR\<close> reads a canonical decimal (no sign but a leading minus, no leading zeros).\<close>

definition read_int64 :: "string \<Rightarrow> int option" where
  "read_int64 s =
     (let i = (case s of
         [] \<Rightarrow> None
       | c # cs \<Rightarrow> if c = CHR ''-'' then map_option (\<lambda>n. - int n) (read_nat cs)
                  else map_option int (read_nat s))
      in case i of
           None \<Rightarrow> None
         | Some n \<Rightarrow> if show_int n = s \<and> - (2 ^ 63) \<le> n \<and> n < 2 ^ 63 then Some n else None)"

definition ks_incr :: "string \<Rightarrow> (keyspace, int) io" where
  "ks_incr k ks =
     (case ks_data ks k of
        None \<Rightarrow> (Inr 1, ks_put k (RString ''1'') ks)
      | Some (RString v) \<Rightarrow>
          (case read_int64 v of
             None \<Rightarrow> (Inl (RedisError ''value is not an integer or out of range''), ks)
           | Some n \<Rightarrow> if n + 1 < 2 ^ 63
               then (Inr (n + 1), ks_put k (RString (show_int (n + 1))) ks)
               else (Inl (RedisError ''increment or decrement would overflow''), ks))
      | Some _ \<Rightarrow> (Inl wrongtype, ks))"

definition ks_pexpire :: "string \<Rightarrow> int \<Rightarrow> (keyspace, unit) io" where
  "ks_pexpire k px ks =
     (if ks_data ks k = None then (Inr (), ks)
      else if px \<le> 0 then (Inr (), ks_remove k ks)
      else (Inr (), ks_deadline k (Some (now_ms ks + nat px)) ks))"

definition ks_pttl :: "string \<Rightarrow> (keyspace, int) io" where
  "ks_pttl k ks = (Inr (case ks_data ks k of
       None \<Rightarrow> - 2
     | Some _ \<Rightarrow> (case ks_ttl ks k of None \<Rightarrow> - 1 | Some d \<Rightarrow> int d - int (now_ms ks))), ks)"

subsection \<open>Hashes and sets\<close>

definition ks_hget :: "string \<Rightarrow> string \<Rightarrow> (keyspace, string option) io" where
  "ks_hget k f ks = (case ks_data ks k of
       None \<Rightarrow> (Inr None, ks)
     | Some (RHash h) \<Rightarrow> (Inr (h f), ks)
     | Some _ \<Rightarrow> (Inl wrongtype, ks))"

definition ks_hgetall :: "string \<Rightarrow> (keyspace, string \<rightharpoonup> string) io" where
  "ks_hgetall k ks = (case ks_data ks k of
       None \<Rightarrow> (Inr Map.empty, ks)
     | Some (RHash h) \<Rightarrow> (Inr h, ks)
     | Some _ \<Rightarrow> (Inl wrongtype, ks))"

text \<open>\<open>HSET\<close> and \<open>SADD\<close> need at least one field or member; the client library refuses an empty list.\<close>

definition ks_hset :: "string \<Rightarrow> (string \<times> string) list \<Rightarrow> (keyspace, unit) io" where
  "ks_hset k fs ks =
     (if fs = [] then (Inl (RedisError ''wrong number of arguments''), ks)
      else case ks_data ks k of
       None \<Rightarrow> (Inr (), ks_put k (RHash (map_of (rev fs))) ks)
     | Some (RHash h) \<Rightarrow> (Inr (), ks_put k (RHash (h ++ map_of (rev fs))) ks)
     | Some _ \<Rightarrow> (Inl wrongtype, ks))"

definition ks_sadd :: "string \<Rightarrow> string list \<Rightarrow> (keyspace, unit) io" where
  "ks_sadd k ms ks =
     (if ms = [] then (Inl (RedisError ''wrong number of arguments''), ks)
      else case ks_data ks k of
       None \<Rightarrow> (Inr (), ks_put k (RSet (set ms)) ks)
     | Some (RSet S) \<Rightarrow> (Inr (), ks_put k (RSet (S \<union> set ms)) ks)
     | Some _ \<Rightarrow> (Inl wrongtype, ks))"

definition ks_srem :: "string \<Rightarrow> string \<Rightarrow> (keyspace, unit) io" where
  "ks_srem k m ks = (case ks_data ks k of
       None \<Rightarrow> (Inr (), ks)
     | Some (RSet S) \<Rightarrow>
         (Inr (), if S - {m} = {} then ks_remove k ks else ks_put k (RSet (S - {m})) ks)
     | Some _ \<Rightarrow> (Inl wrongtype, ks))"

definition ks_smembers :: "string \<Rightarrow> (keyspace, string set) io" where
  "ks_smembers k ks = (case ks_data ks k of
       None \<Rightarrow> (Inr {}, ks)
     | Some (RSet S) \<Rightarrow> (Inr S, ks)
     | Some _ \<Rightarrow> (Inl wrongtype, ks))"

definition ks_sismember :: "string \<Rightarrow> string \<Rightarrow> (keyspace, bool) io" where
  "ks_sismember k m ks = (case ks_data ks k of
       None \<Rightarrow> (Inr False, ks)
     | Some (RSet S) \<Rightarrow> (Inr (m \<in> S), ks)
     | Some _ \<Rightarrow> (Inl wrongtype, ks))"

subsection \<open>Sorted sets\<close>

definition zset_add :: "real \<Rightarrow> string \<Rightarrow> zset \<Rightarrow> zset" where
  "zset_add s m z = insort (s, m) (filter (\<lambda>x. snd x \<noteq> m) z)"

text \<open>A sorted set emptied by a removal is deleted with its key.\<close>

definition ks_put_zset :: "string \<Rightarrow> zset \<Rightarrow> keyspace \<Rightarrow> keyspace" where
  "ks_put_zset k z ks = (if z = [] then ks_remove k ks else ks_put k (RZset z) ks)"

definition ks_zadd :: "string \<Rightarrow> real \<Rightarrow> string \<Rightarrow> (keyspace, unit) io" where
  "ks_zadd k s m ks = (case ks_data ks k of
       None \<Rightarrow> (Inr (), ks_put k (RZset (zset_add s m [])) ks)
     | Some (RZset z) \<Rightarrow> (Inr (), ks_put k (RZset (zset_add s m z)) ks)
     | Some _ \<Rightarrow> (Inl wrongtype, ks))"

definition ks_zrem :: "string \<Rightarrow> string \<Rightarrow> (keyspace, unit) io" where
  "ks_zrem k m ks = (case ks_data ks k of
       None \<Rightarrow> (Inr (), ks)
     | Some (RZset z) \<Rightarrow> (Inr (), ks_put_zset k (filter (\<lambda>x. snd x \<noteq> m) z) ks)
     | Some _ \<Rightarrow> (Inl wrongtype, ks))"

definition ks_zcard :: "string \<Rightarrow> (keyspace, nat) io" where
  "ks_zcard k ks = (case ks_data ks k of
       None \<Rightarrow> (Inr 0, ks)
     | Some (RZset z) \<Rightarrow> (Inr (length z), ks)
     | Some _ \<Rightarrow> (Inl wrongtype, ks))"

text \<open>\<open>ZCOUNT k (lo +inf\<close>\<close>

definition ks_zcount_above :: "string \<Rightarrow> real \<Rightarrow> (keyspace, nat) io" where
  "ks_zcount_above k lo ks = (case ks_data ks k of
       None \<Rightarrow> (Inr 0, ks)
     | Some (RZset z) \<Rightarrow> (Inr (length (filter (\<lambda>x. lo < fst x) z)), ks)
     | Some _ \<Rightarrow> (Inl wrongtype, ks))"

text \<open>\<open>ZRANGE k 0 0 WITHSCORES\<close>\<close>

definition ks_zfirst :: "string \<Rightarrow> (keyspace, (real \<times> string) option) io" where
  "ks_zfirst k ks = (case ks_data ks k of
       None \<Rightarrow> (Inr None, ks)
     | Some (RZset z) \<Rightarrow> (Inr (case z of [] \<Rightarrow> None | x # _ \<Rightarrow> Some x), ks)
     | Some _ \<Rightarrow> (Inl wrongtype, ks))"

text \<open>\<open>ZREMRANGEBYSCORE k -inf hi\<close>\<close>

definition ks_zremrangebyscore :: "string \<Rightarrow> real \<Rightarrow> (keyspace, unit) io" where
  "ks_zremrangebyscore k hi ks = (case ks_data ks k of
       None \<Rightarrow> (Inr (), ks)
     | Some (RZset z) \<Rightarrow> (Inr (), ks_put_zset k (filter (\<lambda>x. hi < fst x) z) ks)
     | Some _ \<Rightarrow> (Inl wrongtype, ks))"


subsection \<open>Streams and consumer groups\<close>

definition empty_stream :: stream where
  "empty_stream = \<lparr>st_entries = [], st_last = (0, 0), st_groups = Map.empty\<rparr>"

definition max_part :: nat where
  "max_part = 2 ^ 64 - 1"

text \<open>The automatic identifier: the clock, or the successor of the last one if that is later.\<close>

definition next_id :: "nat \<Rightarrow> sid \<Rightarrow> sid option" where
  "next_id now lst =
     (if fst lst < now then Some (now, 0)
      else if snd lst < max_part then Some (fst lst, snd lst + 1)
      else if fst lst < max_part then Some (fst lst + 1, 0)
      else None)"

definition ks_stream :: "string \<Rightarrow> keyspace \<Rightarrow> err + stream" where
  "ks_stream k ks = (case ks_data ks k of
       None \<Rightarrow> Inr empty_stream
     | Some (RStream st) \<Rightarrow> Inr st
     | Some _ \<Rightarrow> Inl wrongtype)"

definition ks_xadd :: "string \<Rightarrow> (string \<times> string) list \<Rightarrow> (keyspace, sid) io" where
  "ks_xadd k flds ks =
     (case ks_stream k ks of
        Inl e \<Rightarrow> (Inl e, ks)
      | Inr st \<Rightarrow>
          (if flds = [] then (Inl (RedisError ''wrong number of arguments''), ks)
           else case next_id (now_ms ks) (st_last st) of
             None \<Rightarrow> (Inl (RedisError ''The stream has exhausted the last possible ID''), ks)
           | Some i \<Rightarrow>
               (Inr i, ks_put k (RStream (st\<lparr>st_entries := st_entries st @ [(i, flds)],
                                            st_last := i\<rparr>)) ks)))"

definition ks_xack :: "string \<Rightarrow> string \<Rightarrow> sid \<Rightarrow> (keyspace, nat) io" where
  "ks_xack k g i ks =
     (case ks_stream k ks of
        Inl e \<Rightarrow> (Inl e, ks)
      | Inr st \<Rightarrow>
          (case st_groups st g of
             None \<Rightarrow> (Inr 0, ks)
           | Some gr \<Rightarrow>
               if i \<in> fst ` set (gr_pending gr)
               then (Inr 1, ks_put k (RStream (st\<lparr>st_groups := (st_groups st)(g \<mapsto>
                      gr\<lparr>gr_pending := filter (\<lambda>p. fst p \<noteq> i) (gr_pending gr)\<rparr>)\<rparr>)) ks)
               else (Inr 0, ks)))"

definition ks_xdel :: "string \<Rightarrow> sid \<Rightarrow> (keyspace, nat) io" where
  "ks_xdel k i ks =
     (case ks_stream k ks of
        Inl e \<Rightarrow> (Inl e, ks)
      | Inr st \<Rightarrow>
          if i \<in> fst ` set (st_entries st)
          then (Inr 1, ks_put k (RStream (st\<lparr>st_entries :=
                  filter (\<lambda>x. fst x \<noteq> i) (st_entries st)\<rparr>)) ks)
          else (Inr 0, ks))"

definition nogroup :: err where
  "nogroup = RedisError ''NOGROUP''"

text \<open>\<open>XPENDING k g i i 1\<close>: the consumer that holds entry \<open>i\<close>, if it is pending.\<close>

definition ks_xpending1 :: "string \<Rightarrow> string \<Rightarrow> sid \<Rightarrow> (keyspace, string option) io" where
  "ks_xpending1 k g i ks =
     (case ks_stream k ks of
        Inl e \<Rightarrow> (Inl e, ks)
      | Inr st \<Rightarrow>
          (case st_groups st g of
             None \<Rightarrow> (Inl nogroup, ks)
           | Some gr \<Rightarrow> (Inr (map_option pe_consumer (map_of (gr_pending gr) i)), ks)))"

definition take_count :: "int \<Rightarrow> 'a list \<Rightarrow> 'a list" where
  "take_count n xs = (if n \<le> 0 then xs else take (nat n) xs)"

definition new_entries :: "group \<Rightarrow> int \<Rightarrow> stream \<Rightarrow> (sid \<times> (string \<times> string) list) list" where
  "new_entries gr n st = take_count n (filter (\<lambda>x. gr_last gr < fst x) (st_entries st))"

definition deliver_new :: "nat \<Rightarrow> string \<Rightarrow> (sid \<times> (string \<times> string) list) list \<Rightarrow> group \<Rightarrow> group" where
  "deliver_new now consumer es gr =
     (if es = [] then gr else
      gr\<lparr>gr_last := fst (last es),
         gr_pending := filter (\<lambda>p. fst p \<notin> fst ` set es) (gr_pending gr) @
           map (\<lambda>x. (fst x, \<lparr>pe_consumer = consumer, pe_time = now, pe_count = 1\<rparr>)) es\<rparr>)"

text \<open>\<open>XREADGROUP GROUP g c COUNT n STREAMS ... > ...\<close>; a stream without new entries is left out of the reply.\<close>

primrec ks_xreadgroup :: "string list \<Rightarrow> string \<Rightarrow> string \<Rightarrow> int \<Rightarrow>
    (keyspace, (string \<times> (sid \<times> (string \<times> string) list) list) list) io" where
  "ks_xreadgroup [] g c n = ret []"
| "ks_xreadgroup (k # keys) g c n = (\<lambda>ks.
     (case ks_stream k ks of
        Inl e \<Rightarrow> (Inl e, ks)
      | Inr st \<Rightarrow>
          (case st_groups st g of
             None \<Rightarrow> (Inl nogroup, ks)
           | Some gr \<Rightarrow>
               (let es = new_entries gr n st;
                    ks' = (if es = [] then ks else ks_put k (RStream (st\<lparr>st_groups :=
                             (st_groups st)(g \<mapsto> deliver_new (now_ms ks) c es gr)\<rparr>)) ks)
                in bindio (ks_xreadgroup keys g c n)
                     (\<lambda>rest. ret (if es = [] then rest else (k, es) # rest)) ks'))))"

text \<open>
  \<open>XAUTOCLAIM\<close> scans at most ten times \<open>COUNT\<close> pending entries from the start identifier,
  drops those whose stream entry is gone, skips those that are not idle long enough, takes
  over the others, and returns the identifier to continue from (\<open>0-0\<close> at the end).
\<close>

fun autoclaim :: "nat \<Rightarrow> nat \<Rightarrow> nat \<Rightarrow> int \<Rightarrow> string \<Rightarrow> stream \<Rightarrow> (sid \<times> pending) list \<Rightarrow>
    (sid \<times> pending) list \<times> (sid \<times> (string \<times> string) list) list \<times> sid" where
  "autoclaim attempts count now idle c st [] = ([], [], (0, 0))"
| "autoclaim 0 count now idle c st (p # ps) = (p # ps, [], fst p)"
| "autoclaim (Suc attempts) 0 now idle c st (p # ps) = (p # ps, [], fst p)"
| "autoclaim (Suc attempts) (Suc count) now idle c st ((i, p) # ps) =
     (case map_of (st_entries st) i of
        None \<Rightarrow> autoclaim attempts count now idle c st ps
      | Some flds \<Rightarrow>
          if int now - int (pe_time p) < idle then
            (let (ps', es, nxt) = autoclaim attempts (Suc count) now idle c st ps
             in ((i, p) # ps', es, nxt))
          else
            (let (ps', es, nxt) = autoclaim attempts count now idle c st ps
             in ((i, p\<lparr>pe_consumer := c, pe_time := now, pe_count := pe_count p + 1\<rparr>) # ps',
                 (i, flds) # es, nxt)))"

definition ks_xautoclaim :: "string \<Rightarrow> string \<Rightarrow> string \<Rightarrow> int \<Rightarrow> sid \<Rightarrow> int \<Rightarrow>
    (keyspace, sid \<times> (sid \<times> (string \<times> string) list) list) io" where
  "ks_xautoclaim k g c idle start count ks =
     (if count < 1 then (Inl (RedisError ''COUNT must be > 0''), ks)
      else case ks_stream k ks of
        Inl e \<Rightarrow> (Inl e, ks)
      | Inr st \<Rightarrow>
          (case st_groups st g of
             None \<Rightarrow> (Inl nogroup, ks)
           | Some gr \<Rightarrow>
               (let before = takeWhile (\<lambda>p. fst p < start) (gr_pending gr);
                    (after, es, nxt) = autoclaim (10 * nat count) (nat count) (now_ms ks) idle c st
                                         (dropWhile (\<lambda>p. fst p < start) (gr_pending gr))
                in (Inr (nxt, es),
                    ks_put k (RStream (st\<lparr>st_groups := (st_groups st)(g \<mapsto>
                      gr\<lparr>gr_pending := before @ after\<rparr>)\<rparr>)) ks))))"

text \<open>\<open>XGROUP CREATE k g 0-0 MKSTREAM\<close>\<close>

definition ks_xgroup_create :: "string \<Rightarrow> string \<Rightarrow> (keyspace, unit) io" where
  "ks_xgroup_create k g ks =
     (case ks_stream k ks of
        Inl e \<Rightarrow> (Inl e, ks)
      | Inr st \<Rightarrow>
          if st_groups st g \<noteq> None
          then (Inl (RedisError ''BUSYGROUP Consumer Group name already exists''), ks)
          else (Inr (), ks_put k (RStream (st\<lparr>st_groups := (st_groups st)(g \<mapsto>
                  \<lparr>gr_last = (0, 0), gr_pending = []\<rparr>)\<rparr>)) ks))"

definition ks_xlen :: "string \<Rightarrow> (keyspace, nat) io" where
  "ks_xlen k ks = (case ks_stream k ks of Inl e \<Rightarrow> (Inl e, ks) | Inr st \<Rightarrow> (Inr (length (st_entries st)), ks))"

text \<open>\<open>last-generated-id\<close> of \<open>XINFO STREAM\<close>\<close>

definition ks_xlast :: "string \<Rightarrow> (keyspace, sid) io" where
  "ks_xlast k ks =
     (if ks_data ks k = None then (Inl (RedisError ''no such key''), ks)
      else case ks_stream k ks of Inl e \<Rightarrow> (Inl e, ks) | Inr st \<Rightarrow> (Inr (st_last st), ks))"

definition ks_xadd_id :: "string \<Rightarrow> sid \<Rightarrow> (string \<times> string) list \<Rightarrow> (keyspace, unit) io" where
  "ks_xadd_id k i flds ks =
     (case ks_stream k ks of
        Inl e \<Rightarrow> (Inl e, ks)
      | Inr st \<Rightarrow>
          if flds = [] then (Inl (RedisError ''wrong number of arguments''), ks)
          else if \<not> st_last st < i
          then (Inl (RedisError ''The ID specified in XADD is equal or smaller than the target stream top item''), ks)
          else (Inr (), ks_put k (RStream (st\<lparr>st_entries := st_entries st @ [(i, flds)], st_last := i\<rparr>)) ks))"

fun from_start :: "range_start \<Rightarrow> sid \<Rightarrow> bool" where
  "from_start FromFirst i = True"
| "from_start (FromId j) i = (j \<le> i)"
| "from_start (AfterId j) i = (j < i)"

definition in_range :: "range_start \<Rightarrow> sid option \<Rightarrow> sid \<Rightarrow> bool" where
  "in_range lo hi i \<longleftrightarrow> from_start lo i \<and> (case hi of None \<Rightarrow> True | Some j \<Rightarrow> i \<le> j)"

definition ks_xrange :: "string \<Rightarrow> range_start \<Rightarrow> sid option \<Rightarrow> int \<Rightarrow> (keyspace, (sid \<times> (string \<times> string) list) list) io" where
  "ks_xrange k lo hi n ks =
     (case ks_stream k ks of
        Inl e \<Rightarrow> (Inl e, ks)
      | Inr st \<Rightarrow> (Inr (take (nat n) (filter (\<lambda>x. in_range lo hi (fst x)) (st_entries st))), ks))"

definition ks_xrevrange :: "string \<Rightarrow> int \<Rightarrow> (keyspace, (sid \<times> (string \<times> string) list) list) io" where
  "ks_xrevrange k n ks =
     (case ks_stream k ks of
        Inl e \<Rightarrow> (Inl e, ks)
      | Inr st \<Rightarrow> (Inr (take (nat n) (rev (st_entries st))), ks))"

definition ks_xtrim_minid :: "string \<Rightarrow> sid \<Rightarrow> (keyspace, unit) io" where
  "ks_xtrim_minid k i ks =
     (case ks_stream k ks of
        Inl e \<Rightarrow> (Inl e, ks)
      | Inr st \<Rightarrow>
          if ks_data ks k = None then (Inr (), ks)
          else (Inr (), ks_put k (RStream (st\<lparr>st_entries := filter (\<lambda>x. i \<le> fst x) (st_entries st)\<rparr>)) ks))"

definition ks_wait :: "int \<Rightarrow> int \<Rightarrow> (keyspace, int) io" where
  "ks_wait replicas timeout ks = (Inr (ks_replica_acks ks), ks)"

definition ks_waitaof :: "int \<Rightarrow> int \<Rightarrow> int \<Rightarrow> (keyspace, int list) io" where
  "ks_waitaof appended replicas timeout ks = (Inr (ks_aof_acks ks), ks)"

text \<open>
  A client pipeline sends its commands in order and collects one answer for each, an error
  being an answer.
\<close>

primrec ks_pipeline :: "(keyspace, reply) io list \<Rightarrow> (keyspace, (err + reply) list) io" where
  "ks_pipeline [] ks = (Inr [], ks)"
| "ks_pipeline (c # cs) ks =
     (case ks_pipeline cs (snd (c ks)) of (r, ks') \<Rightarrow>
       (case r of Inl e \<Rightarrow> Inl e | Inr rs \<Rightarrow> Inr (fst (c ks) # rs), ks'))"

definition ks_redis :: "keyspace redis" where
  "ks_redis = \<lparr>TIME = ks_time, TYPE_OF = ks_type, GET = ks_get, SET = ks_set,
     SET_PX = ks_set_px, SET_NX_PX = ks_set_nx_px, SET_KEEPTTL = ks_set_keepttl, DEL = ks_del,
     INCR = ks_incr, PEXPIRE = ks_pexpire, PTTL = ks_pttl, HGET = ks_hget, HGETALL = ks_hgetall,
     HSET = ks_hset, SADD = ks_sadd, SREM = ks_srem, SMEMBERS = ks_smembers,
     SISMEMBER = ks_sismember, ZADD = ks_zadd, ZREM = ks_zrem, ZCARD = ks_zcard,
     ZCOUNT_ABOVE = ks_zcount_above, ZFIRST = ks_zfirst,
     ZREMRANGEBYSCORE = ks_zremrangebyscore, XADD = ks_xadd, XACK = ks_xack, XDEL = ks_xdel,
     XPENDING1 = ks_xpending1, XREADGROUP = ks_xreadgroup, XAUTOCLAIM = ks_xautoclaim,
     XGROUP_CREATE = ks_xgroup_create, XLEN = ks_xlen, XLAST = ks_xlast, XADD_ID = ks_xadd_id,
     XRANGE = ks_xrange, XREVRANGE = ks_xrevrange, XTRIM_MINID = ks_xtrim_minid, WAIT = ks_wait, WAITAOF = ks_waitaof,
     PIPELINE = ks_pipeline\<rparr>"

lemma ks_redis_sel [simp]:
  "TIME ks_redis = ks_time" "TYPE_OF ks_redis = ks_type" "GET ks_redis = ks_get"
  "SET ks_redis = ks_set" "SET_PX ks_redis = ks_set_px" "SET_NX_PX ks_redis = ks_set_nx_px"
  "SET_KEEPTTL ks_redis = ks_set_keepttl" "DEL ks_redis = ks_del" "INCR ks_redis = ks_incr"
  "PEXPIRE ks_redis = ks_pexpire" "PTTL ks_redis = ks_pttl" "HGET ks_redis = ks_hget"
  "HGETALL ks_redis = ks_hgetall" "HSET ks_redis = ks_hset" "SADD ks_redis = ks_sadd"
  "SREM ks_redis = ks_srem" "SMEMBERS ks_redis = ks_smembers"
  "SISMEMBER ks_redis = ks_sismember" "ZADD ks_redis = ks_zadd" "ZREM ks_redis = ks_zrem"
  "ZCARD ks_redis = ks_zcard" "ZCOUNT_ABOVE ks_redis = ks_zcount_above"
  "ZFIRST ks_redis = ks_zfirst" "ZREMRANGEBYSCORE ks_redis = ks_zremrangebyscore"
  "XADD ks_redis = ks_xadd" "XACK ks_redis = ks_xack" "XDEL ks_redis = ks_xdel"
  "XPENDING1 ks_redis = ks_xpending1" "XREADGROUP ks_redis = ks_xreadgroup"
  "XAUTOCLAIM ks_redis = ks_xautoclaim" "XGROUP_CREATE ks_redis = ks_xgroup_create"
  "XLEN ks_redis = ks_xlen" "XLAST ks_redis = ks_xlast" "XADD_ID ks_redis = ks_xadd_id"
  "XRANGE ks_redis = ks_xrange" "XREVRANGE ks_redis = ks_xrevrange" "XTRIM_MINID ks_redis = ks_xtrim_minid"
  "WAIT ks_redis = ks_wait" "WAITAOF ks_redis = ks_waitaof" "PIPELINE ks_redis = ks_pipeline"
  by (simp_all add: ks_redis_def)


text \<open>What the replicas and the append-only file answer to \<open>WAIT\<close> and \<open>WAITAOF\<close>.\<close>

definition ks_acks :: "keyspace \<Rightarrow> int \<times> int list" where
  "ks_acks ks = (ks_replica_acks ks, ks_aof_acks ks)"

lemma ks_put_sel [simp]:
  "ks_data (ks_put k v ks) = (ks_data ks)(k \<mapsto> v)" "ks_ttl (ks_put k v ks) = ks_ttl ks"
  "ks_now (ks_put k v ks) = ks_now ks" "now_ms (ks_put k v ks) = now_ms ks" "ks_acks (ks_put k v ks) = ks_acks ks"
  by (simp_all add: ks_put_def now_ms_def ks_acks_def)

lemma ks_remove_sel [simp]:
  "ks_data (ks_remove k ks) = (ks_data ks)(k := None)"
  "ks_ttl (ks_remove k ks) = (ks_ttl ks)(k := None)"
  "ks_now (ks_remove k ks) = ks_now ks" "now_ms (ks_remove k ks) = now_ms ks" "ks_acks (ks_remove k ks) = ks_acks ks"
  by (simp_all add: ks_remove_def now_ms_def ks_acks_def)

lemma ks_deadline_sel [simp]:
  "ks_data (ks_deadline k d ks) = ks_data ks" "ks_ttl (ks_deadline k d ks) = (ks_ttl ks)(k := d)"
  "ks_now (ks_deadline k d ks) = ks_now ks" "now_ms (ks_deadline k d ks) = now_ms ks" "ks_acks (ks_deadline k d ks) = ks_acks ks"
  by (simp_all add: ks_deadline_def now_ms_def ks_acks_def)

lemma ks_put_zset_sel [simp]:
  "ks_now (ks_put_zset k z ks) = ks_now ks" "now_ms (ks_put_zset k z ks) = now_ms ks"
  "j \<noteq> k \<Longrightarrow> ks_data (ks_put_zset k z ks) j = ks_data ks j"
  "j \<noteq> k \<Longrightarrow> ks_ttl (ks_put_zset k z ks) j = ks_ttl ks j"
  "ks_data (ks_put_zset k z ks) k = (if z = [] then None else Some (RZset z))"
  by (simp_all add: ks_put_zset_def)

lemmas ks_read_defs = ks_time_def ks_type_def ks_get_def ks_pttl_def ks_hget_def ks_hgetall_def
  ks_smembers_def ks_sismember_def ks_zcard_def ks_zcount_above_def ks_zfirst_def
  ks_xpending1_def ks_wait_def ks_waitaof_def

lemmas ks_stream_read_defs = ks_xlen_def ks_xlast_def ks_xrange_def ks_xrevrange_def

lemma ks_pipeline_ok: "\<exists>rs. fst (ks_pipeline cs ks) = Inr rs \<and> length rs = length cs"
proof (induction cs arbitrary: ks)
  case (Cons c cs)
  obtain rs where "fst (ks_pipeline cs (snd (c ks))) = Inr rs" "length rs = length cs"
    using Cons by blast
  then show ?case by (auto split: prod.splits)
qed simp

lemmas ks_write_defs = ks_set_def ks_set_px_def ks_set_nx_px_def ks_set_keepttl_def ks_del_def
  ks_incr_def ks_pexpire_def ks_hset_def ks_sadd_def ks_srem_def ks_zadd_def ks_zrem_def
  ks_zremrangebyscore_def ks_xadd_def ks_xack_def ks_xdel_def ks_xgroup_create_def

text \<open>A server just started at the given microsecond, without replicas.\<close>

definition fresh_keyspace :: "nat \<Rightarrow> keyspace" where
  "fresh_keyspace now = \<lparr>ks_now = now, ks_data = Map.empty, ks_ttl = Map.empty,
     ks_replica_acks = 0, ks_aof_acks = []\<rparr>"

lemma fresh_keyspace_sel [simp]:
  "ks_now (fresh_keyspace n) = n" "ks_data (fresh_keyspace n) = Map.empty"
  "ks_ttl (fresh_keyspace n) = Map.empty" "ks_replica_acks (fresh_keyspace n) = 0"
  "ks_aof_acks (fresh_keyspace n) = []" "now_ms (fresh_keyspace n) = n div 1000"
  by (simp_all add: fresh_keyspace_def now_ms_def)

section \<open>The interface the sources rely on\<close>

text \<open>
  \<open>implements view m M\<close>: seen through \<open>view\<close>, the computation \<open>m\<close> on the server answers and
  changes what \<open>M\<close> answers and changes on the keyspace. It is kept by every way the sources
  compose commands, so a whole script or method implements its instance at \<open>ks_redis\<close>.
\<close>

named_theorems implements_intros \<open>composition rules for implements\<close>

definition implements :: "('db \<Rightarrow> keyspace) \<Rightarrow> ('db, 'a) io \<Rightarrow> (keyspace, 'a) io \<Rightarrow> bool" where
  "implements view m M \<longleftrightarrow>
     (\<forall>db. fst (m db) = fst (M (view db)) \<and> view (snd (m db)) = snd (M (view db)))"

lemma implements_fst: "implements view m M \<Longrightarrow> fst (m db) = fst (M (view db))"
  by (simp add: implements_def)

lemma implements_snd: "implements view m M \<Longrightarrow> view (snd (m db)) = snd (M (view db))"
  by (simp add: implements_def)

lemma implements_run:
  "implements view m M \<Longrightarrow> m db = (r, db') \<Longrightarrow> M (view db) = (r, view db')"
  by (metis fst_conv implements_fst implements_snd prod.collapse snd_conv)

lemma implements_ret [implements_intros]: "implements view (ret x) (ret x)"
  by (simp add: implements_def)

lemma implements_raise [implements_intros]: "implements view (raise e) (raise e)"
  by (simp add: implements_def)

lemma implements_bindio [implements_intros]:
  "implements view m M \<Longrightarrow> (\<And>x. implements view (f x) (F x)) \<Longrightarrow>
   implements view (bindio m f) (bindio M F)"
  by (auto simp: implements_def bindio_split split: sum.splits)

lemma implements_seqio [implements_intros]:
  "implements view m M \<Longrightarrow> implements view n N \<Longrightarrow> implements view (seqio m n) (seqio M N)"
  by (simp add: seqio_def implements_bindio)

lemma implements_catchio [implements_intros]:
  "implements view m M \<Longrightarrow> (\<And>e. implements view (h e) (H e)) \<Longrightarrow>
   implements view (catchio m h) (catchio M H)"
  by (auto simp: implements_def catchio_def split: sum.splits prod.splits)
     (metis fst_conv snd_conv sum.distinct(1) sum.inject)+

lemma implements_if [implements_intros]:
  "implements view m M \<Longrightarrow> implements view n N \<Longrightarrow>
   implements view (if b then m else n) (if b then M else N)"
  by simp

lemma implements_option [implements_intros]:
  "implements view m M \<Longrightarrow> (\<And>x. implements view (f x) (F x)) \<Longrightarrow>
   implements view (case y of None \<Rightarrow> m | Some x \<Rightarrow> f x) (case y of None \<Rightarrow> M | Some x \<Rightarrow> F x)"
  by (cases y) auto

lemma implements_sum [implements_intros]:
  "(\<And>x. implements view (f x) (F x)) \<Longrightarrow> (\<And>x. implements view (g x) (G x)) \<Longrightarrow>
   implements view (case y of Inl x \<Rightarrow> f x | Inr x \<Rightarrow> g x) (case y of Inl x \<Rightarrow> F x | Inr x \<Rightarrow> G x)"
  by (cases y) auto

lemma implements_prod [implements_intros]:
  "(\<And>x z. implements view (f x z) (F x z)) \<Longrightarrow>
   implements view (case y of (x, z) \<Rightarrow> f x z) (case y of (x, z) \<Rightarrow> F x z)"
  by (cases y) auto

lemma implements_mapio [implements_intros]:
  "(\<And>x. implements view (f x) (F x)) \<Longrightarrow> implements view (mapio f xs) (mapio F xs)"
  by (induction xs) (auto intro!: implements_intros)

locale redis_server =
  fixes R :: "'db redis" and view :: "'db \<Rightarrow> keyspace"
  assumes time [implements_intros]: "implements view (TIME R) ks_time"
    and type_of [implements_intros]: "implements view (TYPE_OF R k) (ks_type k)"
    and get [implements_intros]: "implements view (GET R k) (ks_get k)"
    and set [implements_intros]: "implements view (SET R k v) (ks_set k v)"
    and set_px [implements_intros]: "implements view (SET_PX R k v px) (ks_set_px k v px)"
    and set_nx_px [implements_intros]: "implements view (SET_NX_PX R k v px) (ks_set_nx_px k v px)"
    and set_keepttl [implements_intros]: "implements view (SET_KEEPTTL R k v) (ks_set_keepttl k v)"
    and del [implements_intros]: "implements view (DEL R keys) (ks_del keys)"
    and incr [implements_intros]: "implements view (INCR R k) (ks_incr k)"
    and pexpire [implements_intros]: "implements view (PEXPIRE R k px) (ks_pexpire k px)"
    and pttl [implements_intros]: "implements view (PTTL R k) (ks_pttl k)"
    and hget [implements_intros]: "implements view (HGET R k f) (ks_hget k f)"
    and hgetall [implements_intros]: "implements view (HGETALL R k) (ks_hgetall k)"
    and hset [implements_intros]: "implements view (HSET R k fs) (ks_hset k fs)"
    and sadd [implements_intros]: "implements view (SADD R k ms) (ks_sadd k ms)"
    and srem [implements_intros]: "implements view (SREM R k m) (ks_srem k m)"
    and smembers [implements_intros]: "implements view (SMEMBERS R k) (ks_smembers k)"
    and sismember [implements_intros]: "implements view (SISMEMBER R k m) (ks_sismember k m)"
    and zadd [implements_intros]: "implements view (ZADD R k s m) (ks_zadd k s m)"
    and zrem [implements_intros]: "implements view (ZREM R k m) (ks_zrem k m)"
    and zcard [implements_intros]: "implements view (ZCARD R k) (ks_zcard k)"
    and zcount [implements_intros]: "implements view (ZCOUNT_ABOVE R k lo) (ks_zcount_above k lo)"
    and zfirst [implements_intros]: "implements view (ZFIRST R k) (ks_zfirst k)"
    and zremrange [implements_intros]:
      "implements view (ZREMRANGEBYSCORE R k hi) (ks_zremrangebyscore k hi)"
    and xadd [implements_intros]: "implements view (XADD R k fs) (ks_xadd k fs)"
    and xack [implements_intros]: "implements view (XACK R k g i) (ks_xack k g i)"
    and xdel [implements_intros]: "implements view (XDEL R k i) (ks_xdel k i)"
    and xpending [implements_intros]: "implements view (XPENDING1 R k g i) (ks_xpending1 k g i)"
    and xreadgroup [implements_intros]:
      "implements view (XREADGROUP R keys g c n) (ks_xreadgroup keys g c n)"
    and xautoclaim [implements_intros]:
      "implements view (XAUTOCLAIM R k g c idle start n) (ks_xautoclaim k g c idle start n)"
    and xgroup_create [implements_intros]:
      "implements view (XGROUP_CREATE R k g) (ks_xgroup_create k g)"
    and xlen [implements_intros]: "implements view (XLEN R k) (ks_xlen k)"
    and xlast [implements_intros]: "implements view (XLAST R k) (ks_xlast k)"
    and xadd_id [implements_intros]: "implements view (XADD_ID R k i fs) (ks_xadd_id k i fs)"
    and xrange [implements_intros]: "implements view (XRANGE R k first bound cnt) (ks_xrange k first bound cnt)"
    and xrevrange [implements_intros]: "implements view (XREVRANGE R k cnt) (ks_xrevrange k cnt)"
    and xtrim_minid [implements_intros]: "implements view (XTRIM_MINID R k i) (ks_xtrim_minid k i)"
    and wait [implements_intros]: "implements view (WAIT R n t) (ks_wait n t)"
    and waitaof [implements_intros]: "implements view (WAITAOF R a n t) (ks_waitaof a n t)"
    and pipeline: "list_all2 (implements view) cs Cs \<Longrightarrow>
      implements view (PIPELINE R cs) (ks_pipeline Cs)"

text \<open>The documented behaviours themselves are a server.\<close>

lemma implements_id_iff [simp]: "implements (\<lambda>ks. ks) m M \<longleftrightarrow> m = M"
  by (auto simp: implements_def fun_eq_iff prod_eq_iff)

lemma list_all2_implements_id: "list_all2 (implements (\<lambda>ks. ks)) cs Cs \<Longrightarrow> cs = Cs"
  by (induction rule: list_all2_induct) auto

interpretation ref: redis_server ks_redis "\<lambda>ks. ks"
  by unfold_locales (auto dest: list_all2_implements_id)

context redis_server
begin

lemma expire_impl [implements_intros]:
  "implements view (EXPIRE R k s) (EXPIRE ks_redis k s)"
  by (simp add: EXPIRE_def pexpire)

lemma pipeline1 [implements_intros]:
  "implements view c C \<Longrightarrow> implements view (PIPELINE R [c]) (PIPELINE ks_redis [C])"
  by (simp add: pipeline)

lemma pipeline2 [implements_intros]:
  "implements view c C \<Longrightarrow> implements view d D \<Longrightarrow>
   implements view (PIPELINE R [c, d]) (PIPELINE ks_redis [C, D])"
  by (simp add: pipeline)

end


section \<open>What a computation touches\<close>

text \<open>\<open>touches K m\<close>: \<open>m\<close> changes no key outside \<open>K\<close> nor the acknowledgements, and takes no time.\<close>

named_theorems touches_intros \<open>composition rules for touches\<close>

definition touches :: "string set \<Rightarrow> (keyspace, 'a) io \<Rightarrow> bool" where
  "touches K m \<longleftrightarrow> (\<forall>ks. ks_now (snd (m ks)) = ks_now ks \<and> ks_acks (snd (m ks)) = ks_acks ks \<and>
     (\<forall>k. k \<notin> K \<longrightarrow> ks_data (snd (m ks)) k = ks_data ks k \<and> ks_ttl (snd (m ks)) k = ks_ttl ks k))"

lemma touchesD:
  assumes "touches K m"
  shows "ks_now (snd (m ks)) = ks_now ks" "now_ms (snd (m ks)) = now_ms ks"
    "k \<notin> K \<Longrightarrow> ks_data (snd (m ks)) k = ks_data ks k" "k \<notin> K \<Longrightarrow> ks_ttl (snd (m ks)) k = ks_ttl ks k"
    "ks_acks (snd (m ks)) = ks_acks ks"
  using assms by (simp_all add: touches_def now_ms_def)

lemma touches_ret [touches_intros]: "touches K (ret x)" "touches K (raise e)"
  by (simp_all add: touches_def)

lemma touches_bindio [touches_intros]:
  "touches K m \<Longrightarrow> (\<And>x. touches K (f x)) \<Longrightarrow> touches K (bindio m f)"
  by (auto simp: touches_def bindio_split split: sum.splits)

lemma touches_seqio [touches_intros]: "touches K m \<Longrightarrow> touches K n \<Longrightarrow> touches K (seqio m n)"
  by (simp add: seqio_def touches_bindio)

lemma touches_catchio [touches_intros]:
  "touches K m \<Longrightarrow> (\<And>e. touches K (h e)) \<Longrightarrow> touches K (catchio m h)"
  by (auto simp: touches_def catchio_def split: sum.splits prod.splits) (metis snd_conv)+

lemma touches_if [touches_intros]:
  "touches K m \<Longrightarrow> touches K n \<Longrightarrow> touches K (if b then m else n)"
  by simp

lemma touches_option [touches_intros]:
  "touches K m \<Longrightarrow> (\<And>x. touches K (f x)) \<Longrightarrow> touches K (case y of None \<Rightarrow> m | Some x \<Rightarrow> f x)"
  by (cases y) auto

lemma touches_sum [touches_intros]:
  "(\<And>x. touches K (f x)) \<Longrightarrow> (\<And>x. touches K (g x)) \<Longrightarrow>
   touches K (case y of Inl x \<Rightarrow> f x | Inr x \<Rightarrow> g x)"
  by (cases y) auto

lemma touches_prod [touches_intros]:
  "(\<And>x z. touches K (f x z)) \<Longrightarrow> touches K (case y of (x, z) \<Rightarrow> f x z)"
  by (cases y) auto

lemma touches_list [touches_intros]:
  "touches K m \<Longrightarrow> (\<And>x xs. touches K (f x xs)) \<Longrightarrow> touches K (case ys of [] \<Rightarrow> m | x # xs \<Rightarrow> f x xs)"
  by (cases ys) auto

lemma touches_mapio [touches_intros]: "(\<And>x. touches K (f x)) \<Longrightarrow> touches K (mapio f xs)"
proof (induction xs)
  case (Cons x xs)
  then have "touches K (mapio f xs)" by blast
  with Cons.prems show ?case unfolding mapio.simps by (intro touches_intros)
qed (simp only: mapio.simps touches_ret)

lemma touches_reads [touches_intros]:
  "touches K ks_time" "touches K (ks_type k)" "touches K (ks_get k)" "touches K (ks_pttl k)"
  "touches K (ks_hget k f)" "touches K (ks_hgetall k)" "touches K (ks_smembers k)"
  "touches K (ks_sismember k m)" "touches K (ks_zcard k)" "touches K (ks_zcount_above k lo)"
  "touches K (ks_zfirst k)" "touches K (ks_xpending1 k g i)" "touches K (ks_wait n t)"
  "touches K (ks_waitaof a n t)"
  by (auto simp: touches_def ks_read_defs split: option.splits rvalue.splits sum.splits)

lemma touches_stream_reads [touches_intros]:
  "touches K (ks_xlen k)" "touches K (ks_xlast k)" "touches K (ks_xrange k first bound n)" "touches K (ks_xrevrange k n)"
  by (auto simp: touches_def ks_stream_read_defs split: sum.splits)

lemma touches_stream_writes [touches_intros]:
  "k \<in> K \<Longrightarrow> touches K (ks_xadd_id k i fs)" "k \<in> K \<Longrightarrow> touches K (ks_xtrim_minid k i)"
  by (auto simp: touches_def ks_xadd_id_def ks_xtrim_minid_def split: sum.splits)

lemma ks_removes_sel [simp]:
  "ks_now (fold ks_remove keys ks) = ks_now ks" "ks_acks (fold ks_remove keys ks) = ks_acks ks"
  "ks_data (fold ks_remove keys ks) k = (if k \<in> set keys then None else ks_data ks k)"
  "ks_ttl (fold ks_remove keys ks) k = (if k \<in> set keys then None else ks_ttl ks k)"
  by (induction keys arbitrary: ks) auto

lemma touches_writes [touches_intros]:
  "k \<in> K \<Longrightarrow> touches K (ks_set k v)" "k \<in> K \<Longrightarrow> touches K (ks_set_px k v px)"
  "k \<in> K \<Longrightarrow> touches K (ks_set_nx_px k v px)" "k \<in> K \<Longrightarrow> touches K (ks_set_keepttl k v)"
  "set keys \<subseteq> K \<Longrightarrow> touches K (ks_del keys)" "k \<in> K \<Longrightarrow> touches K (ks_incr k)"
  "k \<in> K \<Longrightarrow> touches K (ks_pexpire k px)" "k \<in> K \<Longrightarrow> touches K (ks_hset k fs)"
  "k \<in> K \<Longrightarrow> touches K (ks_sadd k ms)" "k \<in> K \<Longrightarrow> touches K (ks_srem k m)"
  "k \<in> K \<Longrightarrow> touches K (ks_zadd k sc m)" "k \<in> K \<Longrightarrow> touches K (ks_zrem k m)"
  "k \<in> K \<Longrightarrow> touches K (ks_zremrangebyscore k hi)" "k \<in> K \<Longrightarrow> touches K (ks_xadd k fs)"
  "k \<in> K \<Longrightarrow> touches K (ks_xack k g i)" "k \<in> K \<Longrightarrow> touches K (ks_xdel k i)"
  "k \<in> K \<Longrightarrow> touches K (ks_xgroup_create k g)"
  by (auto simp: touches_def ks_write_defs ks_put_zset_def split: option.splits rvalue.splits sum.splits)

lemma touches_expire [touches_intros]: "k \<in> K \<Longrightarrow> touches K (EXPIRE ks_redis k s)"
  by (simp add: EXPIRE_def touches_writes)

lemma touches_pipeline [touches_intros]:
  "(\<And>c. c \<in> set cs \<Longrightarrow> touches K c) \<Longrightarrow> touches K (ks_pipeline cs)"
proof (induction cs)
  case (Cons c cs)
  then have "touches K c" "touches K (ks_pipeline cs)" by simp_all
  then show ?case
    by (auto simp: touches_def split: prod.splits) (metis snd_conv)+
qed (simp add: touches_def)

section \<open>Time\<close>

text \<open>
  \<open>elapse d\<close> is the server after \<open>d\<close> microseconds in which it ran no command: a key keeps
  its value until its deadline has come, and is gone once it has passed. What happens in
  the very millisecond of the deadline is left open.
\<close>

locale redis_clock = redis_server +
  fixes elapse :: "nat \<Rightarrow> 'db \<Rightarrow> 'db"
  assumes elapse_now: "ks_now (view (elapse d db)) = ks_now (view db) + d"
    and elapse_keep: "ks_ttl (view db) k = Some t \<Longrightarrow> (ks_now (view db) + d) div 1000 < t \<Longrightarrow>
      ks_data (view (elapse d db)) k = ks_data (view db) k \<and> ks_ttl (view (elapse d db)) k = Some t"
    and elapse_persist: "ks_ttl (view db) k = None \<Longrightarrow>
      ks_data (view (elapse d db)) k = ks_data (view db) k \<and> ks_ttl (view (elapse d db)) k = None"
    and elapse_drop: "ks_ttl (view db) k = Some t \<Longrightarrow> t < (ks_now (view db) + d) div 1000 \<Longrightarrow>
      ks_data (view (elapse d db)) k = None \<and> ks_ttl (view (elapse d db)) k = None"
    and elapse_either: "ks_ttl (view db) k = Some t \<Longrightarrow>
      (ks_data (view (elapse d db)) k = ks_data (view db) k \<and> ks_ttl (view (elapse d db)) k = Some t) \<or>
      (ks_data (view (elapse d db)) k = None \<and> ks_ttl (view (elapse d db)) k = None)"

definition ks_elapse :: "nat \<Rightarrow> keyspace \<Rightarrow> keyspace" where
  "ks_elapse d ks =
     (let now = (ks_now ks + d) div 1000;
          gone = (\<lambda>k. case ks_ttl ks k of None \<Rightarrow> False | Some t \<Rightarrow> t \<le> now)
      in ks\<lparr>ks_now := ks_now ks + d,
            ks_data := (\<lambda>k. if gone k then None else ks_data ks k),
            ks_ttl := (\<lambda>k. if gone k then None else ks_ttl ks k)\<rparr>)"

interpretation ref_clock: redis_clock ks_redis "\<lambda>ks. ks" ks_elapse
  by unfold_locales (auto simp: ks_elapse_def Let_def)

end
