(* ===== verification/Durability.thy ===== *)
theory Durability
  imports Redis_Api
begin

text \<open>
  \<open>packages/mas-core/src/mas_core/durability.py\<close> and \<open>redis_commit.py\<close>: confirmation of writes
  by replicas or the append-only file, and the stream appends that modules hand to each
  other for one atomic commit.
\<close>

section \<open>Settings\<close>

record durability_settings =
  replica_count :: int
  durability_timeout_ms :: int
  wait_for_aof :: bool

definition durability_post_init :: "durability_settings \<Rightarrow> err + unit" where
  "durability_post_init s =
     (if replica_count s < 0 then Inl (ValueError ''replica_count must be non-negative'')
      else if durability_timeout_ms s \<le> 0
      then Inl (ValueError ''durability timeout_ms must be positive'')
      else Inr ())"

definition default_durability :: durability_settings where
  "default_durability = \<lparr>replica_count = 0, durability_timeout_ms = 1000, wait_for_aof = False\<rparr>"

definition durability_enabled :: "durability_settings \<Rightarrow> bool" where
  "durability_enabled s \<longleftrightarrow> wait_for_aof s \<or> 0 < replica_count s"

section \<open>Confirmation\<close>

definition unconfirmed :: err where
  "unconfirmed = RedisDurabilityError ''configured_durability_unconfirmed''"

text \<open>Strict parsing of a reply as a list of integers, or as an integer.\<close>

fun int_of_reply :: "reply \<Rightarrow> int option" where
  "int_of_reply (IntReply i) = Some i"
| "int_of_reply _ = None"

fun ints_of_reply :: "reply \<Rightarrow> int list option" where
  "ints_of_reply (ArrayReply rs) =
     (if None \<in> set (map int_of_reply rs) then None else Some (map (the \<circ> int_of_reply) rs))"
| "ints_of_reply _ = None"

definition validate_confirmation :: "durability_settings \<Rightarrow> reply \<Rightarrow> err + unit" where
  "validate_confirmation s response =
     (if wait_for_aof s then
        (case ints_of_reply response of
           None \<Rightarrow> Inl ValidationError
         | Some counts \<Rightarrow>
             if length counts = 2 \<and> 1 \<le> counts ! 0 \<and> replica_count s \<le> counts ! 1
             then Inr () else Inl unconfirmed)
      else
        (case int_of_reply response of
           None \<Rightarrow> Inl ValidationError
         | Some replicas \<Rightarrow> if replica_count s \<le> replicas then Inr () else Inl unconfirmed))"

definition of_result :: "err + 'a \<Rightarrow> ('s, 'a) io" where
  "of_result r = (case r of Inl e \<Rightarrow> raise e | Inr x \<Rightarrow> ret x)"

text \<open>The barrier command, its reply as the client hands it over.\<close>

definition barrier :: "'db redis \<Rightarrow> durability_settings \<Rightarrow> ('db, reply) io" where
  "barrier R s =
     (if wait_for_aof s
      then bindio (WAITAOF R 1 (replica_count s) (durability_timeout_ms s))
             (\<lambda>counts. ret (ArrayReply (map IntReply counts)))
      else bindio (WAIT R (replica_count s) (durability_timeout_ms s)) (\<lambda>n. ret (IntReply n)))"

text \<open>\<open>except (RedisError, ValidationError)\<close>\<close>

definition confirmation_failure :: "err \<Rightarrow> bool" where
  "confirmation_failure e \<longleftrightarrow> is_redis_error e \<or> e = ValidationError"

definition confirm :: "'db redis \<Rightarrow> durability_settings \<Rightarrow> ('db, unit) io" where
  "confirm R s =
     (if \<not> durability_enabled s then ret ()
      else catchio (bindio (barrier R s) (\<lambda>response. of_result (validate_confirmation s response)))
             (\<lambda>e. if confirmation_failure e then raise unconfirmed else raise e))"

section \<open>Pipelines with a barrier\<close>

text \<open>What \<open>execute\<close> reads of a client pipeline.\<close>

record 'db pipe =
  is_transaction :: bool
  explicit_transaction :: bool
  watching :: bool
  command_stack :: "('db, reply) io list"

text \<open>\<open>Pipeline.execute()\<close> raises the first error among the answers.\<close>

fun first_error :: "(err + reply) list \<Rightarrow> err + reply list" where
  "first_error [] = Inr []"
| "first_error (Inl e # rs) = Inl e"
| "first_error (Inr r # rs) = (case first_error rs of Inl e \<Rightarrow> Inl e | Inr xs \<Rightarrow> Inr (r # xs))"

definition pipeline_execute :: "'db redis \<Rightarrow> ('db, reply) io list \<Rightarrow> ('db, reply list) io" where
  "pipeline_execute R commands = bindio (PIPELINE R commands) (\<lambda>rs. of_result (first_error rs))"

definition durable_execute :: "'db redis \<Rightarrow> durability_settings \<Rightarrow> 'db pipe \<Rightarrow> ('db, reply list) io" where
  "durable_execute R s p =
     (if is_transaction p \<or> explicit_transaction p \<or> watching p
      then raise (ValueError ''durability requires a nontransactional pipeline'')
      else if command_stack p = []
      then raise (ValueError ''durability requires queued writes'')
      else let commands = command_stack p @ (if durability_enabled s then [barrier R s] else []) in
      catchio
        (bindio (pipeline_execute R commands) (\<lambda>responses.
         if durability_enabled s then
           (if responses = [] then raise unconfirmed
            else seqio (of_result (validate_confirmation s (last responses)))
                       (ret (butlast responses)))
         else ret responses))
        (\<lambda>e. if confirmation_failure e
             then (if \<not> durability_enabled s \<and> is_redis_error e then raise e else raise unconfirmed)
             else raise e))"

section \<open>Commit targets and stream appends\<close>

text \<open>
  \<open>RedisCommitTarget\<close>: Python's \<open>is\<close> compares identities, so the pool and the durability
  policy are given by their identities.
\<close>

record commit_target =
  target_pool :: nat
  target_durability :: nat

definition compatible_with :: "commit_target \<Rightarrow> commit_target \<Rightarrow> bool" where
  "compatible_with t u \<longleftrightarrow> target_pool t = target_pool u \<and> target_durability t = target_durability u"

record stream_append =
  append_stream :: string
  append_fields :: "(string \<times> string) list"

fun append_fields_ok :: "string set \<Rightarrow> (string \<times> string) list \<Rightarrow> bool" where
  "append_fields_ok names [] = True"
| "append_fields_ok names (pair # pairs) =
     (if fst pair = [] \<or> fst pair \<in> names then False
      else append_fields_ok (insert (fst pair) names) pairs)"

definition stream_append_post_init :: "stream_append \<Rightarrow> err + unit" where
  "stream_append_post_init a =
     (if append_stream a = [] then Inl (ValueError ''stream must be a nonempty string'')
      else if \<not> (0 < length (append_fields a) \<and> length (append_fields a) \<le> 1024)
      then Inl (ValueError ''fields must contain between 1 and 1024 field pairs'')
      else if \<not> append_fields_ok {} (append_fields a)
      then Inl (ValueError ''fields require distinct nonempty names and string values'')
      else Inr ())"

section \<open>On any server\<close>

lemma implements_of_result [implements_intros]:
  "implements view (of_result r) (of_result r)"
  by (auto simp: of_result_def intro!: implements_intros)

context redis_server
begin

lemma barrier_impl [implements_intros]: "implements view (barrier R s) (barrier ks_redis s)"
  by (auto simp: barrier_def intro!: implements_intros)

lemma confirm_impl [implements_intros]: "implements view (confirm R s) (confirm ks_redis s)"
  by (auto simp: confirm_def intro!: implements_intros)

end

lemma of_result_apply [simp]: "of_result r s = (r, s)"
  by (cases r) (simp_all add: of_result_def)

lemma ints_of_int_replies [simp]: "ints_of_reply (ArrayReply (map IntReply xs)) = Some xs"
  by (auto simp: comp_def)

lemma confirm_keeps_data [simp]:
  "ks_data (snd (confirm ks_redis s ks)) = ks_data ks" "ks_ttl (snd (confirm ks_redis s ks)) = ks_ttl ks"
  "ks_now (snd (confirm ks_redis s ks)) = ks_now ks"
  by (auto simp: confirm_def barrier_def catchio_def io_simps ks_read_defs split: sum.splits)

text \<open>Enough acknowledgements for the configured policy.\<close>

definition acknowledged :: "durability_settings \<Rightarrow> keyspace \<Rightarrow> bool" where
  "acknowledged s ks \<longleftrightarrow>
     (\<not> durability_enabled s) \<or>
     (if wait_for_aof s
      then (\<exists>local replicas. ks_aof_acks ks = [local, replicas] \<and> 1 \<le> local \<and> replica_count s \<le> replicas)
      else replica_count s \<le> ks_replica_acks ks)"

lemma acknowledged_cong: "ks_acks ks' = ks_acks ks \<Longrightarrow> acknowledged s ks' = acknowledged s ks"
  by (simp add: acknowledged_def ks_acks_def)

lemma acknowledged_sel [simp]:
  "acknowledged s (ks_put k v ks) = acknowledged s ks" "acknowledged s (ks_remove k ks) = acknowledged s ks"
  "acknowledged s (ks_deadline k d ks) = acknowledged s ks"
  by (auto intro!: acknowledged_cong)

lemma length_2_conv: "length xs = 2 \<longleftrightarrow> (\<exists>a b. xs = [a, b])"
  by (auto simp: numeral_2_eq_2 length_Suc_conv)

lemma confirm_ks:
  "confirm ks_redis s ks = (if acknowledged s ks then Inr () else Inl unconfirmed, ks)"
  by (auto simp: confirm_def barrier_def catchio_def io_simps ks_read_defs acknowledged_def
        validate_confirmation_def confirmation_failure_def unconfirmed_def length_2_conv
      split: sum.splits)

lemma append_fields_ok_iff:
  "append_fields_ok names flds \<longleftrightarrow>
     distinct (map fst flds) \<and> [] \<notin> set (map fst flds) \<and> set (map fst flds) \<inter> names = {}"
  by (induction flds arbitrary: names) auto

lemma first_error_Inr: "first_error rs = Inr xs \<longleftrightarrow> rs = map Inr xs"
  by (induction rs arbitrary: xs rule: first_error.induct) (auto split: sum.splits, blast)

lemma ks_pipeline_snoc:
  "ks_pipeline (cs @ [c]) ks =
     (case ks_pipeline cs ks of
        (Inl e, mid) \<Rightarrow> (Inl e, snd (c mid))
      | (Inr rs, mid) \<Rightarrow> (Inr (rs @ [fst (c mid)]), snd (c mid)))"
  by (induction cs arbitrary: ks) (auto split: prod.splits sum.splits)

lemma map_Inr_snoc: "rs @ [r] = map Inr xs \<longleftrightarrow> xs \<noteq> [] \<and> rs = map Inr (butlast xs) \<and> r = Inr (last xs)"
proof (cases xs rule: rev_cases)
  case (snoc ys y)
  then show ?thesis by auto
qed simp

lemma barrier_ks:
  "barrier ks_redis s ks =
     (Inr (if wait_for_aof s then ArrayReply (map IntReply (ks_aof_acks ks))
           else IntReply (ks_replica_acks ks)), ks)"
  by (simp add: barrier_def io_simps ks_read_defs)

lemma validate_barrier:
  "durability_enabled s \<Longrightarrow>
   validate_confirmation s (if wait_for_aof s then ArrayReply (map IntReply (ks_aof_acks ks))
           else IntReply (ks_replica_acks ks)) = Inr () \<longleftrightarrow> acknowledged s ks"
  by (auto simp: validate_confirmation_def acknowledged_def length_2_conv
      split: if_splits option.splits)

context redis_server
begin

lemma pipeline_execute_run:
  assumes "list_all2 (implements view) cs Cs" and "pipeline_execute R cs db = (Inr rs, db')"
  shows "ks_pipeline Cs (view db) = (Inr (map Inr rs), view db')"
  using assms(2) implements_fst [OF pipeline [OF assms(1)], of db]
    implements_snd [OF pipeline [OF assms(1)], of db]
  by (auto simp: pipeline_execute_def io_simps prod_eq_iff first_error_Inr split: sum.splits)

lemma durable_execute_run:
  assumes cs: "list_all2 (implements view) (command_stack p) Cs"
    and run: "durable_execute R s p db = (Inr rs, db')"
  shows "ks_pipeline Cs (view db) = (Inr (map Inr rs), view db') \<and> acknowledged s (view db')"
proof (cases "durability_enabled s")
  case False
  with run have "pipeline_execute R (command_stack p) db = (Inr rs, db')"
    by (auto simp: durable_execute_def Let_def catchio_def io_simps prod_eq_iff
        split: if_splits sum.splits prod.splits)
  with pipeline_execute_run [OF cs] False show ?thesis by (simp add: acknowledged_def)
next
  case True
  let ?cmds = "command_stack p @ [barrier R s]" and ?Cmds = "Cs @ [barrier ks_redis s]"
  have all: "list_all2 (implements view) ?cmds ?Cmds"
    using cs by (simp add: list_all2_appendI barrier_impl)
  obtain xs where xs: "pipeline_execute R ?cmds db = (Inr xs, db')" "xs \<noteq> []" "rs = butlast xs"
      "validate_confirmation s (last xs) = Inr ()"
    using run True
    by (auto simp: durable_execute_def Let_def catchio_def io_simps prod_eq_iff
        split: if_splits sum.splits prod.splits)
  have "ks_pipeline ?Cmds (view db) = (Inr (map Inr xs), view db')"
    using pipeline_execute_run [OF all xs(1)] .
  then show ?thesis
    using xs validate_barrier [OF True, THEN iffD1]
    by (auto simp: ks_pipeline_snoc barrier_ks map_Inr_snoc split: prod.splits sum.splits)
qed

end

section \<open>Properties\<close>

text \<open>
  Confirmation succeeds exactly when the configured number of replicas, and the local
  append-only file where that is asked for, have acknowledged; otherwise it raises the
  durability error, and in no case does it change the data.
\<close>

theorem confirm_iff_acknowledged:
  assumes "redis_server R view"
  shows "fst (confirm R s db) = (if acknowledged s (view db) then Inr () else Inl unconfirmed) \<and>
    view (snd (confirm R s db)) = view db"
  using implements_fst [OF redis_server.confirm_impl [OF assms]]
    implements_snd [OF redis_server.confirm_impl [OF assms]]
  by (simp add: confirm_ks)

theorem confirm_iff_acknowledged_witness:
  "fst (confirm ks_redis \<lparr>replica_count = 1, durability_timeout_ms = 10, wait_for_aof = False\<rparr>
     (fresh_keyspace 0)) = Inl unconfirmed"
  using confirm_iff_acknowledged [OF ref.redis_server_axioms,
      of "\<lparr>replica_count = 1, durability_timeout_ms = 10, wait_for_aof = False\<rparr>" "fresh_keyspace 0"]
  by (simp add: acknowledged_def durability_enabled_def)

text \<open>
  A pipeline that is executed durably and returns has run every queued write in order, its
  result is exactly their replies (the barrier's reply is not among them), and the
  configured acknowledgements were there.
\<close>

theorem durable_execute_confirms:
  assumes "redis_server R view"
    and "list_all2 (implements view) (command_stack p) Cs"
    and "durable_execute R s p db = (Inr rs, db')"
  shows "ks_pipeline Cs (view db) = (Inr (map Inr rs), view db') \<and> acknowledged s (view db')"
  using redis_server.durable_execute_run [OF assms] .

theorem durable_execute_confirms_witness:
  "acknowledged \<lparr>replica_count = 0, durability_timeout_ms = 10, wait_for_aof = True\<rparr>
     ((fresh_keyspace 0)\<lparr>ks_aof_acks := [1, 0]\<rparr>)"
  using durable_execute_confirms [OF ref.redis_server_axioms, of
      "\<lparr>is_transaction = False, explicit_transaction = False, watching = False, command_stack = [ret NilReply]\<rparr>"
      "[ret NilReply]" "\<lparr>replica_count = 0, durability_timeout_ms = 10, wait_for_aof = True\<rparr>"
      "(fresh_keyspace 0)\<lparr>ks_aof_acks := [1, 0]\<rparr>" "[NilReply]" "(fresh_keyspace 0)\<lparr>ks_aof_acks := [1, 0]\<rparr>"]
  by (simp add: durable_execute_def durability_enabled_def pipeline_execute_def barrier_def io_simps
      ks_read_defs catchio_def validate_confirmation_def)

text \<open>
  The constructor of a stream append accepts exactly the appends with a stream name and
  between 1 and 1024 fields whose names are nonempty and pairwise distinct.
\<close>

theorem stream_append_accepted_iff:
  "stream_append_post_init a = Inr () \<longleftrightarrow>
     append_stream a \<noteq> [] \<and> append_fields a \<noteq> [] \<and> length (append_fields a) \<le> 1024 \<and>
     distinct (map fst (append_fields a)) \<and> [] \<notin> fst ` set (append_fields a)"
  by (auto simp: stream_append_post_init_def append_fields_ok_iff)

end
