(* ===== verification/Session_Lease.thy ===== *)
theory Session_Lease
  imports Redis_Api
begin

text \<open>
  \<open>packages/mas-core/src/mas_core/sessions.py\<close>: ownership of an agent instance, shared by
  every broker through Redis. The Lua scripts are the operations \<open>*_script\<close>; the methods
  of \<open>SessionLeaseStore\<close> wrap them. Readings of \<open>time.monotonic()\<close> and the drawn
  \<open>uuid4().hex\<close> are arguments.
\<close>

section \<open>Settings and leases\<close>

record lease_settings =
  ttl_ms :: int
  renewal_ms :: int

definition lease_settings_post_init :: "lease_settings \<Rightarrow> err + unit" where
  "lease_settings_post_init s =
     (if ttl_ms s \<le> 0 \<or> renewal_ms s \<le> 0
      then Inl (ValueError ''session lease intervals must be positive'')
      else if renewal_ms s * 2 \<ge> ttl_ms s
      then Inl (ValueError ''session lease renewal must be less than half its TTL'')
      else Inr ())"

record session_lease =
  lease_agent_id :: string
  lease_instance_id :: string
  lease_owner :: string
  lease_expires_at :: real

definition lease_live :: "real \<Rightarrow> session_lease \<Rightarrow> bool" where
  "lease_live monotonic l \<longleftrightarrow> monotonic < lease_expires_at l"

definition session_key :: "string \<Rightarrow> string \<Rightarrow> string" where
  "session_key agent_id instance_id = ''mas.session:'' @ agent_id @ '':'' @ instance_id"

definition sessions_key :: "string \<Rightarrow> string" where
  "sessions_key agent_id = ''mas.sessions:'' @ agent_id"

section \<open>Lua scripts\<close>

definition validate_session_keys :: "'db redis \<Rightarrow> string \<Rightarrow> string \<Rightarrow> ('db, unit) io" where
  "validate_session_keys R owner_key index_key =
     bindio (TYPE_OF R owner_key) (\<lambda>owner_type.
     bindio (TYPE_OF R index_key) (\<lambda>index_type.
     if (owner_type \<noteq> TNone \<and> owner_type \<noteq> TString) \<or> (index_type \<noteq> TNone \<and> index_type \<noteq> TZset)
     then raise (RedisError ''invalid_session_storage_type'')
     else ret ()))"

text \<open>\<open>now[1] * 1000 + math.floor(now[2] / 1000)\<close>\<close>

definition script_ms :: "nat \<times> nat \<Rightarrow> real" where
  "script_ms now = real (fst now * 1000 + snd now div 1000)"

definition index_deadline :: "'db redis \<Rightarrow> string \<Rightarrow> int \<Rightarrow> string \<Rightarrow> ('db, unit) io" where
  "index_deadline R index_key ttl instance_id =
     bindio (TIME R) (\<lambda>now.
     let deadline = script_ms now + of_int ttl in
     seqio (ZREMRANGEBYSCORE R index_key (deadline - of_int ttl))
           (ZADD R index_key deadline instance_id))"

definition acquire_script ::
  "'db redis \<Rightarrow> string \<Rightarrow> string \<Rightarrow> string \<Rightarrow> int \<Rightarrow> string \<Rightarrow> ('db, int) io" where
  "acquire_script R owner_key index_key owner ttl instance_id =
     seqio (validate_session_keys R owner_key index_key)
     (bindio (SET_NX_PX R owner_key owner ttl) (\<lambda>stored.
      if \<not> stored then ret 0
      else seqio (index_deadline R index_key ttl instance_id) (ret 1)))"

definition renew_script ::
  "'db redis \<Rightarrow> string \<Rightarrow> string \<Rightarrow> string \<Rightarrow> int \<Rightarrow> string \<Rightarrow> ('db, int) io" where
  "renew_script R owner_key index_key owner ttl instance_id =
     seqio (validate_session_keys R owner_key index_key)
     (bindio (GET R owner_key) (\<lambda>current.
      if current \<noteq> Some owner then ret 0
      else seqio (PEXPIRE R owner_key ttl)
          (seqio (index_deadline R index_key ttl instance_id) (ret 1))))"

definition release_script ::
  "'db redis \<Rightarrow> string \<Rightarrow> string \<Rightarrow> string \<Rightarrow> string \<Rightarrow> ('db, int) io" where
  "release_script R owner_key index_key owner instance_id =
     seqio (validate_session_keys R owner_key index_key)
     (bindio (GET R owner_key) (\<lambda>current.
      if current \<noteq> Some owner then ret 0
      else seqio (DEL R [owner_key]) (seqio (ZREM R index_key instance_id) (ret 1))))"

definition active_script :: "'db redis \<Rightarrow> string \<Rightarrow> ('db, nat) io" where
  "active_script R index_key =
     bindio (TIME R) (\<lambda>now. ZCOUNT_ABOVE R index_key (script_ms now))"

section \<open>SessionLeaseStore\<close>

definition lease_release :: "'db redis \<Rightarrow> session_lease \<Rightarrow> ('db, unit) io" where
  "lease_release R l =
     seqio (release_script R (session_key (lease_agent_id l) (lease_instance_id l))
              (sessions_key (lease_agent_id l)) (lease_owner l) (lease_instance_id l))
           (ret ())"

text \<open>\<open>requested\<close> is the clock when the lease is built, \<open>confirmed\<close> when its liveness is checked.\<close>

definition lease_acquire ::
  "'db redis \<Rightarrow> lease_settings \<Rightarrow> real \<Rightarrow> real \<Rightarrow> string \<Rightarrow> string \<Rightarrow> string \<Rightarrow> ('db, session_lease) io" where
  "lease_acquire R settings requested confirmed uuid agent_id instance_id =
     (let l = \<lparr>lease_agent_id = agent_id, lease_instance_id = instance_id, lease_owner = uuid,
               lease_expires_at = requested + of_int (ttl_ms settings) / 1000\<rparr> in
      bindio (acquire_script R (session_key agent_id instance_id) (sessions_key agent_id)
                uuid (ttl_ms settings) instance_id) (\<lambda>acquired.
      if acquired = 0 then raise (SessionLeaseConflict ''instance_already_connected'')
      else if \<not> lease_live confirmed l
      then seqio (lease_release R l) (raise (RedisError ''session_lease_expired_before_confirmation''))
      else ret l))"

text \<open>Three clock readings: the liveness test, the new deadline, and the test after the script.\<close>

definition lease_renew ::
  "'db redis \<Rightarrow> lease_settings \<Rightarrow> real \<Rightarrow> real \<Rightarrow> real \<Rightarrow> session_lease \<Rightarrow> ('db, session_lease option) io" where
  "lease_renew R settings checked requested confirmed l =
     (if \<not> lease_live checked l then ret None
      else let renewed = l\<lparr>lease_expires_at := requested + of_int (ttl_ms settings) / 1000\<rparr> in
      bindio (renew_script R (session_key (lease_agent_id l) (lease_instance_id l))
                (sessions_key (lease_agent_id l)) (lease_owner l) (ttl_ms settings)
                (lease_instance_id l)) (\<lambda>done.
      ret (if done \<noteq> 0 \<and> lease_live confirmed renewed then Some renewed else None)))"

definition lease_owner_of :: "'db redis \<Rightarrow> string \<Rightarrow> string \<Rightarrow> ('db, string option) io" where
  "lease_owner_of R agent_id instance_id = GET R (session_key agent_id instance_id)"

definition lease_active :: "'db redis \<Rightarrow> string \<Rightarrow> ('db, bool) io" where
  "lease_active R agent_id =
     bindio (active_script R (sessions_key agent_id)) (\<lambda>n. ret (n \<noteq> 0))"

lemmas lease_defs = validate_session_keys_def index_deadline_def acquire_script_def
  renew_script_def release_script_def active_script_def lease_release_def lease_acquire_def
  lease_renew_def lease_owner_of_def lease_active_def

definition example_settings :: lease_settings where
  "example_settings = \<lparr>ttl_ms = 6000, renewal_ms = 2000\<rparr>"

section \<open>Histories\<close>

text \<open>
  What any set of brokers may do to the shared store: call a method with some clock
  readings and tokens, or let time pass.
\<close>

datatype lease_op =
    Acquire real real string string string
  | Renew real real real session_lease
  | Release session_lease
  | Elapse nat

fun run_lease_op :: "'db redis \<Rightarrow> (nat \<Rightarrow> 'db \<Rightarrow> 'db) \<Rightarrow> lease_settings \<Rightarrow> lease_op \<Rightarrow> 'db \<Rightarrow> 'db" where
  "run_lease_op R elapse s (Acquire t t' u a i) db = snd (lease_acquire R s t t' u a i db)"
| "run_lease_op R elapse s (Renew c t t' l) db = snd (lease_renew R s c t t' l db)"
| "run_lease_op R elapse s (Release l) db = snd (lease_release R l db)"
| "run_lease_op R elapse s (Elapse d) db = elapse d db"

fun op_owner :: "lease_op \<Rightarrow> string option" where
  "op_owner (Acquire t t' u a i) = Some u"
| "op_owner (Renew c t t' l) = Some (lease_owner l)"
| "op_owner (Release l) = Some (lease_owner l)"
| "op_owner (Elapse d) = None"

fun op_time :: "lease_op \<Rightarrow> nat" where
  "op_time (Elapse d) = d"
| "op_time _ = 0"

definition run_lease_ops ::
  "'db redis \<Rightarrow> (nat \<Rightarrow> 'db \<Rightarrow> 'db) \<Rightarrow> lease_settings \<Rightarrow> lease_op list \<Rightarrow> 'db \<Rightarrow> 'db" where
  "run_lease_ops R elapse s ops db = fold (run_lease_op R elapse s) ops db"

fun op_agent_ok :: "lease_op \<Rightarrow> bool" where
  "op_agent_ok (Acquire t t' u a i) = (CHR '':'' \<notin> set a)"
| "op_agent_ok (Renew c t t' l) = (CHR '':'' \<notin> set (lease_agent_id l))"
| "op_agent_ok (Release l) = (CHR '':'' \<notin> set (lease_agent_id l))"
| "op_agent_ok (Elapse d) = True"

text \<open>Key \<open>k\<close> holds token \<open>u\<close> until \<open>d\<close> (ms).\<close>

definition owned :: "string \<Rightarrow> string \<Rightarrow> nat \<Rightarrow> keyspace \<Rightarrow> bool" where
  "owned k u d ks \<longleftrightarrow> ks_data ks k = Some (RString u) \<and> ks_ttl ks k = Some d"

text \<open>
  The index of an agent lists every instance whose lease is alive, under the lease's own
  deadline, and never expires itself.
\<close>

definition index_has :: "string \<Rightarrow> nat \<Rightarrow> string \<Rightarrow> keyspace \<Rightarrow> bool" where
  "index_has x d i ks \<longleftrightarrow> (\<exists>z. ks_data ks x = Some (RZset z) \<and> (real d, i) \<in> set z)"

definition lease_inv :: "keyspace \<Rightarrow> bool" where
  "lease_inv ks \<longleftrightarrow>
     (\<forall>a. ks_ttl ks (sessions_key a) = None) \<and>
     (\<forall>a i u d. CHR '':'' \<notin> set a \<longrightarrow> owned (session_key a i) u d ks \<longrightarrow> now_ms ks < d \<longrightarrow>
        index_has (sessions_key a) d i ks)"

section \<open>The methods on any server\<close>

context redis_server
begin

lemma validate_session_keys_impl [implements_intros]:
  "implements view (validate_session_keys R k i) (validate_session_keys ks_redis k i)"
  by (auto simp: validate_session_keys_def intro!: implements_intros)

lemma index_deadline_impl [implements_intros]:
  "implements view (index_deadline R k t i) (index_deadline ks_redis k t i)"
  by (auto simp: index_deadline_def Let_def intro!: implements_intros)

lemma acquire_script_impl [implements_intros]:
  "implements view (acquire_script R k x u t i) (acquire_script ks_redis k x u t i)"
  by (auto simp: acquire_script_def intro!: implements_intros)

lemma renew_script_impl [implements_intros]:
  "implements view (renew_script R k x u t i) (renew_script ks_redis k x u t i)"
  by (auto simp: renew_script_def intro!: implements_intros)

lemma release_script_impl [implements_intros]:
  "implements view (release_script R k x u i) (release_script ks_redis k x u i)"
  by (auto simp: release_script_def intro!: implements_intros)

lemma lease_release_impl [implements_intros]:
  "implements view (lease_release R l) (lease_release ks_redis l)"
  by (auto simp: lease_release_def intro!: implements_intros)

lemma lease_acquire_impl [implements_intros]:
  "implements view (lease_acquire R s t t' u a i) (lease_acquire ks_redis s t t' u a i)"
  by (auto simp: lease_acquire_def Let_def intro!: implements_intros)

lemma lease_renew_impl [implements_intros]:
  "implements view (lease_renew R s c t t' l) (lease_renew ks_redis s c t t' l)"
  by (auto simp: lease_renew_def Let_def intro!: implements_intros)

lemma lease_owner_of_impl [implements_intros]:
  "implements view (lease_owner_of R a i) (lease_owner_of ks_redis a i)"
  by (auto simp: lease_owner_of_def intro!: implements_intros)

lemma lease_active_impl [implements_intros]:
  "implements view (lease_active R a) (lease_active ks_redis a)"
  by (auto simp: lease_active_def active_script_def intro!: implements_intros)

end

section \<open>Ownership under foreign operations\<close>

lemma session_key_neq_index [simp]:
  "session_key a i \<noteq> sessions_key b" "sessions_key b \<noteq> session_key a i"
  by (simp_all add: session_key_def sessions_key_def)

lemma index_deadline_frame:
  "j \<noteq> idx \<Longrightarrow> ks_data (snd (index_deadline ks_redis idx t i ks)) j = ks_data ks j \<and>
    ks_ttl (snd (index_deadline ks_redis idx t i ks)) j = ks_ttl ks j \<and>
    ks_now (snd (index_deadline ks_redis idx t i ks)) = ks_now ks"
  by (auto simp: index_deadline_def io_simps ks_read_defs ks_write_defs Let_def
        split: option.splits rvalue.splits sum.splits)


lemma owned_index_deadline [simp]:
  "k \<noteq> idx \<Longrightarrow> owned k u d (snd (index_deadline ks_redis idx t i ks)) = owned k u d ks"
  by (simp add: owned_def index_deadline_frame)

lemma validate_session_keys_snd [simp]: "snd (validate_session_keys ks_redis k x ks) = ks"
  by (simp add: validate_session_keys_def io_simps ks_read_defs)

lemma acquire_script_owned:
  "owned k u d ks \<Longrightarrow> k \<noteq> x \<Longrightarrow>
   owned k u d (snd (acquire_script ks_redis k' x u' t i ks)) \<and>
   (k' = k \<longrightarrow> fst (acquire_script ks_redis k' x u' t i ks) \<noteq> Inr 1)"
  by (cases "k' = k")
     (auto simp: acquire_script_def io_simps ks_set_nx_px_def owned_def index_deadline_frame
           split: sum.splits)

lemma renew_script_owned:
  "owned k u d ks \<Longrightarrow> k \<noteq> x \<Longrightarrow> u' \<noteq> u \<Longrightarrow>
   owned k u d (snd (renew_script ks_redis k' x u' t i ks))"
  by (cases "k' = k")
     (auto simp: renew_script_def io_simps ks_get_def ks_pexpire_def owned_def index_deadline_frame
           split: sum.splits option.splits rvalue.splits)

lemma release_script_owned:
  "owned k u d ks \<Longrightarrow> k \<noteq> x \<Longrightarrow> u' \<noteq> u \<Longrightarrow>
   owned k u d (snd (release_script ks_redis k' x u' i ks))"
  by (cases "k' = k")
     (auto simp: release_script_def io_simps ks_get_def ks_del_def ks_zrem_def owned_def
           split: sum.splits option.splits rvalue.splits)


lemma lease_script_now [simp]:
  "ks_now (snd (acquire_script ks_redis k x u t i ks)) = ks_now ks"
  "ks_now (snd (renew_script ks_redis k x u t i ks)) = ks_now ks"
  "ks_now (snd (release_script ks_redis k x u i ks)) = ks_now ks"
proof -
  have idx: "ks_now (snd (index_deadline ks_redis x t i s)) = ks_now s" for s
    by (auto simp: index_deadline_def io_simps ks_read_defs ks_write_defs Let_def
        split: option.splits rvalue.splits sum.splits)
  show "ks_now (snd (acquire_script ks_redis k x u t i ks)) = ks_now ks"
    by (auto simp: acquire_script_def io_simps idx ks_set_nx_px_def split: sum.splits)
  show "ks_now (snd (renew_script ks_redis k x u t i ks)) = ks_now ks"
    by (auto simp: renew_script_def io_simps idx ks_get_def ks_pexpire_def
        split: sum.splits option.splits rvalue.splits)
  show "ks_now (snd (release_script ks_redis k x u i ks)) = ks_now ks"
    by (auto simp: release_script_def io_simps ks_get_def ks_del_def ks_zrem_def
        split: sum.splits option.splits rvalue.splits)
qed

lemma lease_method_now [simp]:
  "ks_now (snd (lease_acquire ks_redis s t t' u a i ks)) = ks_now ks"
  "ks_now (snd (lease_renew ks_redis s c t t' l ks)) = ks_now ks"
  "ks_now (snd (lease_release ks_redis l ks)) = ks_now ks"
  by (auto simp: lease_acquire_def lease_renew_def lease_release_def io_simps Let_def
      split: sum.splits)

lemma lease_method_owned:
  assumes "owned (session_key a i) u d ks"
  shows "u' \<noteq> u \<Longrightarrow> owned (session_key a i) u d (snd (lease_acquire ks_redis s t t' u' a' i' ks))"
    and "lease_owner l \<noteq> u \<Longrightarrow> owned (session_key a i) u d (snd (lease_renew ks_redis s c t t' l ks))"
    and "lease_owner l \<noteq> u \<Longrightarrow> owned (session_key a i) u d (snd (lease_release ks_redis l ks))"
  using assms
  by (auto simp: lease_acquire_def lease_renew_def lease_release_def io_simps Let_def
        acquire_script_owned renew_script_owned release_script_owned
      split: sum.splits)

lemma lease_acquire_success:
  assumes "lease_acquire ks_redis s t t' u a i ks = (Inr l, ks')"
  shows "owned (session_key a i) u (now_ms ks + nat (ttl_ms s)) ks' \<and> ks_now ks' = ks_now ks"
proof -
  have "ks_now ks' = ks_now ks"
    using lease_method_now(1) [of s t t' u a i ks] assms by simp
  moreover have "owned (session_key a i) u (now_ms ks + nat (ttl_ms s)) ks'"
    using assms
    by (auto simp: lease_acquire_def acquire_script_def io_simps Let_def ks_set_nx_px_def
          index_deadline_frame owned_def split: sum.splits if_splits)
  ultimately show ?thesis by simp
qed

lemma lease_acquire_refused:
  assumes "owned (session_key a i) u d ks"
  shows "\<exists>e. lease_acquire ks_redis s t t' u' a i ks = (Inl e, ks)"
  using assms
  by (auto simp: lease_acquire_def acquire_script_def io_simps Let_def ks_set_nx_px_def owned_def
      split: sum.splits if_splits)

context redis_clock
begin

lemma run_lease_op_now: "ks_now (view (run_lease_op R elapse s op db)) = ks_now (view db) + op_time op"
  by (cases op)
     (simp_all add: elapse_now implements_snd [OF lease_acquire_impl]
        implements_snd [OF lease_renew_impl] implements_snd [OF lease_release_impl])

lemma run_lease_op_owned:
  assumes own: "owned (session_key a i) u d (view db)" and foreign: "op_owner op \<noteq> Some u"
    and early: "(ks_now (view db) + op_time op) div 1000 < d"
  shows "owned (session_key a i) u d (view (run_lease_op R elapse s op db))"
proof (cases op)
  case (Elapse e)
  with own early elapse_keep [of db "session_key a i" d e] show ?thesis
    by (simp add: owned_def)
qed (use own foreign in \<open>simp_all add: lease_method_owned implements_snd [OF lease_acquire_impl]
       implements_snd [OF lease_renew_impl] implements_snd [OF lease_release_impl]\<close>)

lemma run_lease_ops_owned:
  assumes "owned (session_key a i) u d (view db)"
    and "\<forall>op \<in> set ops. op_owner op \<noteq> Some u"
    and "(ks_now (view db) + sum_list (map op_time ops)) div 1000 < d"
  shows "owned (session_key a i) u d (view (run_lease_ops R elapse s ops db))"
  using assms
proof (induction ops arbitrary: db)
  case Nil
  then show ?case by (simp add: run_lease_ops_def)
next
  case (Cons op ops)
  let ?db = "run_lease_op R elapse s op db"
  have "(ks_now (view db) + op_time op) div 1000
      \<le> (ks_now (view db) + sum_list (map op_time (op # ops))) div 1000"
    by (intro div_le_mono) simp
  with Cons.prems have "owned (session_key a i) u d (view ?db)"
    by (intro run_lease_op_owned) auto
  moreover have "(ks_now (view ?db) + sum_list (map op_time ops)) div 1000 < d"
    using Cons.prems(3) by (simp add: run_lease_op_now add.assoc)
  ultimately have "owned (session_key a i) u d (view (run_lease_ops R elapse s ops ?db))"
    using Cons.prems(2) by (intro Cons.IH) auto
  then show ?case by (simp add: run_lease_ops_def)
qed

lemma lease_stays_exclusive:
  assumes acq: "lease_acquire R s t t' u a i db = (Inr l, db')"
    and foreign: "\<forall>op \<in> set ops. op_owner op \<noteq> Some u"
    and early: "(ks_now (view db) + sum_list (map op_time ops)) div 1000
                  < now_ms (view db) + nat (ttl_ms s)"
  shows "fst (lease_owner_of R a i (run_lease_ops R elapse s ops db')) = Inr (Some u) \<and>
    (\<exists>e. fst (lease_acquire R s c c' w a i (run_lease_ops R elapse s ops db')) = Inl e)"
proof -
  let ?d = "now_ms (view db) + nat (ttl_ms s)" and ?fin = "run_lease_ops R elapse s ops db'"
  have "lease_acquire ks_redis s t t' u a i (view db) = (Inr l, view db')"
    using implements_run [OF lease_acquire_impl acq] .
  then have "owned (session_key a i) u ?d (view db')" and "ks_now (view db') = ks_now (view db)"
    by (simp_all add: lease_acquire_success)
  with foreign early have own: "owned (session_key a i) u ?d (view ?fin)"
    by (intro run_lease_ops_owned) auto
  then have "fst (lease_owner_of R a i ?fin) = Inr (Some u)"
    using implements_fst [OF lease_owner_of_impl, of a i ?fin]
    by (simp add: lease_owner_of_def ks_get_def owned_def)
  moreover obtain e where "lease_acquire ks_redis s c c' w a i (view ?fin) = (Inl e, view ?fin)"
    using lease_acquire_refused [OF own] by blast
  then have "fst (lease_acquire R s c c' w a i ?fin) = Inl e"
    using implements_fst [OF lease_acquire_impl, of s c c' w a i ?fin] by simp
  ultimately show ?thesis by blast
qed

end

section \<open>The activity index\<close>

lemma script_ms_time [simp]:
  "script_ms (ks_now ks div 1000000, ks_now ks mod 1000000) = real (now_ms ks)"
proof -
  have "ks_now ks div 1000000 * 1000 + ks_now ks mod 1000000 div 1000 = ks_now ks div 1000"
  proof -
    have "ks_now ks = ks_now ks mod 1000000 + (ks_now ks div 1000000 * 1000) * 1000"
      using mod_div_mult_eq [of "ks_now ks" 1000000] by (simp add: mult.assoc)
    then have "ks_now ks div 1000 = (ks_now ks mod 1000000 + (ks_now ks div 1000000 * 1000) * 1000) div 1000"
      by (rule arg_cong)
    also have "\<dots> = ks_now ks div 1000000 * 1000 + ks_now ks mod 1000000 div 1000"
      by (subst div_mult_self1) simp_all
    finally show ?thesis by simp
  qed
  then show ?thesis by (simp only: script_ms_def now_ms_def fst_conv snd_conv)
qed

lemma session_key_inject:
  "CHR '':'' \<notin> set a \<Longrightarrow> CHR '':'' \<notin> set b \<Longrightarrow>
   session_key a i = session_key b j \<longleftrightarrow> a = b \<and> i = j"
  using append_sep_inject [of "CHR '':''" a b i j] by (auto simp: session_key_def)

lemma sessions_key_inject [simp]: "sessions_key a = sessions_key b \<longleftrightarrow> a = b"
  by (simp add: sessions_key_def)

lemma set_zset_add: "set (zset_add s m z) = insert (s, m) {x \<in> set z. snd x \<noteq> m}"
  by (auto simp: zset_add_def set_insort_key)

lemma index_deadline_ks:
  assumes "type_of_value (ks_data ks x) \<in> {TNone, TZset}"
  shows "fst (index_deadline ks_redis x t i ks) = Inr ()"
    and "ks_ttl ks x = None \<Longrightarrow> ks_ttl (snd (index_deadline ks_redis x t i ks)) = ks_ttl ks"
    and "\<exists>z. ks_data (snd (index_deadline ks_redis x t i ks)) x = Some (RZset z) \<and>
           (real (now_ms ks) + of_int t, i) \<in> set z"
  using assms
  by (auto simp: index_deadline_def io_simps ks_read_defs ks_write_defs Let_def index_has_def
        ks_put_zset_def set_zset_add fun_upd_idem filter_empty_conv
      split: option.splits rvalue.splits sum.splits)


lemma index_deadline_keeps:
  assumes "index_has x d j ks" and "now_ms ks < d" and "j \<noteq> i"
  shows "index_has x d j (snd (index_deadline ks_redis x t i ks))"
proof -
  from assms obtain z where z: "ks_data ks x = Some (RZset z)" "(real d, j) \<in> set z"
    by (auto simp: index_has_def)
  then have "(real d, j) \<in> set (filter (\<lambda>y. real (now_ms ks) < fst y) z)"
    using assms(2) by simp
  moreover from this have "filter (\<lambda>y. real (now_ms ks) < fst y) z \<noteq> []"
    by (metis empty_iff empty_set)
  ultimately show ?thesis
    using z assms(3)
    by (simp add: index_deadline_def io_simps ks_read_defs ks_write_defs Let_def index_has_def
        set_zset_add)
qed

lemma lease_invI:
  assumes "lease_inv ks" and "now_ms ks' = now_ms ks"
    and "\<And>b. ks_ttl ks' (sessions_key b) = None"
    and "\<And>b j u d. CHR '':'' \<notin> set b \<Longrightarrow> owned (session_key b j) u d ks' \<Longrightarrow> now_ms ks < d \<Longrightarrow>
           index_has (sessions_key b) d j ks'"
  shows "lease_inv ks'"
  using assms by (auto simp: lease_inv_def)

text \<open>
  Indexing instance \<open>i\<close> of agent \<open>a\<close> restores the invariant after a change of that
  instance's ownership key alone.
\<close>

lemma lease_inv_index_deadline:
  assumes inv: "lease_inv ks" and a: "CHR '':'' \<notin> set a" and now: "now_ms mid = now_ms ks"
    and others: "\<And>k. k \<noteq> session_key a i \<Longrightarrow> ks_data mid k = ks_data ks k \<and> ks_ttl mid k = ks_ttl ks k"
    and mine: "\<And>u d. owned (session_key a i) u d mid \<Longrightarrow> now_ms ks < d \<Longrightarrow>
                real d = real (now_ms ks) + of_int t"
    and tp: "type_of_value (ks_data ks (sessions_key a)) \<in> {TNone, TZset}"
  shows "lease_inv (snd (index_deadline ks_redis (sessions_key a) t i mid))" (is "lease_inv ?ks'")
proof (rule lease_invI [OF inv])
  have tp1: "type_of_value (ks_data mid (sessions_key a)) \<in> {TNone, TZset}"
    using tp others [of "sessions_key a"] by simp
  have ttl1: "ks_ttl mid (sessions_key b) = None" for b
    using inv others [of "sessions_key b"] by (simp add: lease_inv_def)
  show "now_ms ?ks' = now_ms ks"
    using now index_deadline_frame [of "session_key a i" "sessions_key a" t i mid]
    by (simp add: now_ms_def)
  show "ks_ttl ?ks' (sessions_key b) = None" for b
    using index_deadline_ks(2) [OF tp1 ttl1] by (simp add: ttl1)
  fix b j u d
  assume b: "CHR '':'' \<notin> set b" and own: "owned (session_key b j) u d ?ks'" and d: "now_ms ks < d"
  show "index_has (sessions_key b) d j ?ks'"
  proof (cases "b = a \<and> j = i")
    case True
    with own d mine index_deadline_ks(3) [OF tp1, of t i] now show ?thesis
      by (auto simp: index_has_def)
  next
    case False
    with a b have "session_key b j \<noteq> session_key a i" by (simp add: session_key_inject)
    moreover from own have "owned (session_key b j) u d mid" by simp
    ultimately have "owned (session_key b j) u d ks" using others by (simp add: owned_def)
    with inv b d have has: "index_has (sessions_key b) d j mid"
      using others [of "sessions_key b"] by (simp add: lease_inv_def index_has_def)
    show ?thesis
    proof (cases "b = a")
      case True
      with False has d now index_deadline_keeps [of "sessions_key a" d j mid i t] show ?thesis
        by simp
    next
      case False
      with has show ?thesis by (simp add: index_has_def index_deadline_frame)
    qed
  qed
qed

lemma validated_index:
  "fst (validate_session_keys ks_redis k x ks) = Inr y \<Longrightarrow>
   type_of_value (ks_data ks x) \<in> {TNone, TZset}"
  by (auto simp: validate_session_keys_def io_simps ks_read_defs split: if_splits)

lemma lease_inv_acquire_script:
  assumes inv: "lease_inv ks" and a: "CHR '':'' \<notin> set a"
  shows "lease_inv (snd (acquire_script ks_redis (session_key a i) (sessions_key a) u t i ks))"
  using lease_inv_index_deadline [OF inv a, where t = t and i = i and
      mid = "ks_deadline (session_key a i) (Some (now_ms ks + nat t)) (ks_put (session_key a i) (RString u) ks)"]
  by (auto simp: acquire_script_def io_simps ks_set_nx_px_def inv owned_def
      dest: validated_index split: sum.splits)

lemma lease_inv_renew_script:
  assumes inv: "lease_inv ks" and a: "CHR '':'' \<notin> set a"
  shows "lease_inv (snd (renew_script ks_redis (session_key a i) (sessions_key a) u t i ks))"
  using lease_inv_index_deadline [OF inv a, where t = t and i = i and
      mid = "snd (ks_pexpire (session_key a i) t ks)"]
  by (auto simp: renew_script_def io_simps ks_get_def ks_pexpire_def inv owned_def
      dest: validated_index split: sum.splits option.splits rvalue.splits)

lemma lease_inv_release_script:
  assumes inv: "lease_inv ks" and a: "CHR '':'' \<notin> set a"
  shows "lease_inv (snd (release_script ks_redis (session_key a i) (sessions_key a) u i ks))"
    (is "lease_inv ?ks'")
proof (cases "?ks' = ks")
  case True
  with inv show ?thesis by simp
next
  case False
  show ?thesis
  proof (rule lease_invI [OF inv])
    show "now_ms ?ks' = now_ms ks" by (simp add: now_ms_def)
    show "ks_ttl ?ks' (sessions_key b) = None" for b
      using inv
      by (auto simp: release_script_def io_simps ks_get_def ks_del_def ks_zrem_def lease_inv_def
            ks_put_zset_def split: sum.splits option.splits rvalue.splits)
    fix b j w d
    assume b: "CHR '':'' \<notin> set b" and own: "owned (session_key b j) w d ?ks'" and d: "now_ms ks < d"
    have ne: "owned (session_key b j) w d ks \<and> (b = a \<longrightarrow> j \<noteq> i)"
      using own a b False
      by (auto simp: release_script_def io_simps ks_get_def ks_del_def ks_zrem_def owned_def
            ks_put_zset_def session_key_inject
          split: sum.splits option.splits rvalue.splits if_splits)
    with inv b d have "index_has (sessions_key b) d j ks" by (auto simp: lease_inv_def)
    with ne show "index_has (sessions_key b) d j ?ks'"
      by (auto simp: release_script_def io_simps ks_get_def ks_del_def ks_zrem_def index_has_def
            ks_put_zset_def filter_empty_conv dest: bspec [where x = "(real d, j)"]
          split: sum.splits option.splits rvalue.splits if_splits)
  qed
qed

lemma lease_inv_methods:
  assumes "lease_inv ks"
  shows "CHR '':'' \<notin> set a \<Longrightarrow> lease_inv (snd (lease_acquire ks_redis s t t' u a i ks))"
    and "CHR '':'' \<notin> set (lease_agent_id l) \<Longrightarrow> lease_inv (snd (lease_renew ks_redis s c t t' l ks))"
    and "CHR '':'' \<notin> set (lease_agent_id l) \<Longrightarrow> lease_inv (snd (lease_release ks_redis l ks))"
  using assms
  by (auto simp: lease_acquire_def lease_renew_def lease_release_def io_simps Let_def
        lease_inv_acquire_script lease_inv_renew_script lease_inv_release_script
      split: sum.splits)

lemma lease_inv_active:
  assumes "lease_inv ks" and "CHR '':'' \<notin> set a" and "owned (session_key a i) u d ks"
    and "now_ms ks < d"
  shows "fst (lease_active ks_redis a ks) = Inr True"
proof -
  from assms have "index_has (sessions_key a) d i ks" by (auto simp: lease_inv_def)
  then obtain z where "ks_data ks (sessions_key a) = Some (RZset z)" "(real d, i) \<in> set z"
    by (auto simp: index_has_def)
  moreover from this assms(4) have "filter (\<lambda>x. real (now_ms ks) < fst x) z \<noteq> []"
    by (force simp: filter_empty_conv)
  ultimately show ?thesis
    by (simp add: lease_active_def active_script_def io_simps ks_read_defs)
qed


lemma lease_acquire_index:
  assumes "lease_acquire ks_redis s t t' u a i ks = (Inr l, ks')"
  shows "0 < ttl_ms s \<and> (\<exists>z. ks_data ks' (sessions_key a) = Some (RZset z))"
proof -
  let ?k = "session_key a i" and ?x = "sessions_key a"
  define mid where "mid = ks_deadline ?k (Some (now_ms ks + nat (ttl_ms s))) (ks_put ?k (RString u) ks)"
  have "0 < ttl_ms s \<and> fst (validate_session_keys ks_redis ?k ?x ks) = Inr () \<and>
      ks' = snd (index_deadline ks_redis ?x (ttl_ms s) i mid)"
    using assms
    by (auto simp: lease_acquire_def acquire_script_def io_simps Let_def ks_set_nx_px_def mid_def
        split: sum.splits if_splits)
  moreover from this have "type_of_value (ks_data mid ?x) \<in> {TNone, TZset}"
    using validated_index [of ?k ?x ks] by (simp add: mid_def)
  ultimately show ?thesis using index_deadline_ks(3) by blast
qed

context redis_clock
begin

lemma lease_inv_elapse: "lease_inv (view db) \<Longrightarrow> lease_inv (view (elapse d db))"
proof -
  assume inv: "lease_inv (view db)"
  have idx: "ks_data (view (elapse d db)) (sessions_key a) = ks_data (view db) (sessions_key a) \<and>
      ks_ttl (view (elapse d db)) (sessions_key a) = None" for a
    using inv by (intro elapse_persist) (simp add: lease_inv_def)
  have own: "owned k u t (view db)" if "owned k u t (view (elapse d db))" for k u t
    using that elapse_persist [of db k d] elapse_either [of db k _ d]
    by (cases "ks_ttl (view db) k") (auto simp: owned_def)
  have "now_ms (view db) \<le> now_ms (view (elapse d db))"
    by (simp add: now_ms_def elapse_now div_le_mono)
  with inv idx own show ?thesis
    by (fastforce simp: lease_inv_def index_has_def)
qed


lemma lease_inv_run:
  "lease_inv (view db) \<Longrightarrow> \<forall>op \<in> set ops. op_agent_ok op \<Longrightarrow>
   lease_inv (view (run_lease_ops R elapse s ops db))"
proof (induction ops arbitrary: db)
  case Nil
  then show ?case by (simp add: run_lease_ops_def)
next
  case (Cons op ops)
  have "lease_inv (view (run_lease_op R elapse s op db))"
    using Cons.prems
    by (cases op)
       (simp_all add: lease_inv_elapse lease_inv_methods implements_snd [OF lease_acquire_impl]
          implements_snd [OF lease_renew_impl] implements_snd [OF lease_release_impl])
  with Cons show ?case by (simp add: run_lease_ops_def)
qed

lemma lease_holder_active:
  assumes "\<And>a i. ks_data (view db) (session_key a i) = None"
    and "\<And>a. ks_ttl (view db) (sessions_key a) = None"
    and "\<forall>op \<in> set ops. op_agent_ok op" and "CHR '':'' \<notin> set a"
    and "fst (lease_owner_of R a i (run_lease_ops R elapse s ops db)) = Inr (Some u)"
    and "ks_ttl (view (run_lease_ops R elapse s ops db)) (session_key a i) = Some d"
    and "now_ms (view (run_lease_ops R elapse s ops db)) < d"
  shows "fst (lease_active R a (run_lease_ops R elapse s ops db)) = Inr True"
proof -
  let ?fin = "run_lease_ops R elapse s ops db"
  have "lease_inv (view db)" using assms(1,2) by (simp add: lease_inv_def owned_def)
  then have "lease_inv (view ?fin)" using assms(3) by (rule lease_inv_run)
  moreover have "owned (session_key a i) u d (view ?fin)"
    using assms(5,6) implements_fst [OF lease_owner_of_impl, of a i ?fin]
    by (auto simp: owned_def lease_owner_of_def ks_get_def split: option.splits rvalue.splits)
  ultimately show ?thesis
    using lease_inv_active assms(4,7) implements_fst [OF lease_active_impl, of a ?fin] by metis
qed

lemma expired_lease_is_free:
  assumes acq: "lease_acquire R s t t' u a i db = (Inr l, db')"
    and late: "now_ms (view db) + nat (ttl_ms s) < (ks_now (view db) + d) div 1000"
    and alive: "c' < c + of_int (ttl_ms s) / 1000"
  shows "\<exists>l' db''. lease_acquire R s c c' w a i (elapse d db') = (Inr l', db'') \<and> lease_owner l' = w"
proof -
  let ?k = "session_key a i" and ?x = "sessions_key a" and ?ks = "view (elapse d db')"
  have acq': "lease_acquire ks_redis s t t' u a i (view db) = (Inr l, view db')"
    using implements_run [OF lease_acquire_impl acq] .
  then have "owned ?k u (now_ms (view db) + nat (ttl_ms s)) (view db')"
    and now: "ks_now (view db') = ks_now (view db)" by (simp_all add: lease_acquire_success)
  then have free: "ks_data ?ks ?k = None"
    using elapse_drop [of db' ?k] late by (simp add: owned_def)
  have ttl: "0 < ttl_ms s" and "\<exists>z. ks_data (view db') ?x = Some (RZset z)"
    using lease_acquire_index [OF acq'] by simp_all
  then have tp: "type_of_value (ks_data ?ks ?x) \<in> {TNone, TZset}"
    using elapse_persist [of db' ?x d] elapse_either [of db' ?x _ d]
    by (cases "ks_ttl (view db') ?x") auto
  have "\<exists>l'. fst (lease_acquire ks_redis s c c' w a i ?ks) = Inr l' \<and> lease_owner l' = w"
    using free ttl tp alive
    by (auto simp: lease_acquire_def acquire_script_def io_simps Let_def ks_set_nx_px_def
          validate_session_keys_def ks_read_defs index_deadline_ks(1) lease_live_def
        split: sum.splits)
  then show ?thesis
    using implements_fst [OF lease_acquire_impl, of s c c' w a i "elapse d db'"]
    by (metis prod.collapse)
qed

end

section \<open>Properties\<close>

text \<open>
  C35. A broker that acquired the lease of an instance stays its owner until the lease's time to
  live has passed, whatever other brokers do meanwhile: no sequence of acquisitions, renewals
  and releases under other tokens takes the ownership away, and every acquisition by
  another broker in that time fails.
\<close>

theorem lease_exclusive:
  assumes "redis_clock R view elapse"
    and "lease_acquire R s t t' u a i db = (Inr l, db')"
    and "\<forall>op \<in> set ops. op_owner op \<noteq> Some u"
    and "(ks_now (view db) + sum_list (map op_time ops)) div 1000
           < now_ms (view db) + nat (ttl_ms s)"
  shows "fst (lease_owner_of R a i (run_lease_ops R elapse s ops db')) = Inr (Some u) \<and>
    (\<exists>e. fst (lease_acquire R s c c' w a i (run_lease_ops R elapse s ops db')) = Inl e)"
  using redis_clock.lease_stays_exclusive [OF assms] by blast

lemma example_acquire:
  "lease_acquire ks_redis example_settings 0 0 ''u'' ''a'' ''i'' (fresh_keyspace 0) =
     (Inr \<lparr>lease_agent_id = ''a'', lease_instance_id = ''i'', lease_owner = ''u'',
           lease_expires_at = 6\<rparr>,
      snd (lease_acquire ks_redis example_settings 0 0 ''u'' ''a'' ''i'' (fresh_keyspace 0)))"
  by (rule prod_eqI)
     (simp_all add: lease_acquire_def acquire_script_def validate_session_keys_def index_deadline_def
       io_simps ks_read_defs ks_write_defs Let_def example_settings_def lease_live_def
       session_key_def sessions_key_def)

theorem lease_exclusive_witness:
  "fst (lease_owner_of ks_redis ''a'' ''i'' (run_lease_ops ks_redis ks_elapse example_settings
      [Acquire 0 0 ''w'' ''a'' ''i'', Elapse 5000000]
      (snd (lease_acquire ks_redis example_settings 0 0 ''u'' ''a'' ''i'' (fresh_keyspace 0)))))
    = Inr (Some ''u'')"
  using lease_exclusive [OF ref_clock.redis_clock_axioms example_acquire,
      of "[Acquire 0 0 ''w'' ''a'' ''i'', Elapse 5000000]"]
  by (simp add: example_settings_def)

text \<open>
  A lease that nobody renewed is no obstacle once its time to live has passed: the next
  acquisition of the same instance succeeds and its caller becomes the owner (a crashed
  broker does not lock an agent out).
\<close>

theorem lease_expiry_frees_instance:
  assumes "redis_clock R view elapse"
    and "lease_acquire R s t t' u a i db = (Inr l, db')"
    and "now_ms (view db) + nat (ttl_ms s) < (ks_now (view db) + d) div 1000"
    and "c' < c + of_int (ttl_ms s) / 1000"
  shows "\<exists>l' db''. lease_acquire R s c c' w a i (elapse d db') = (Inr l', db'') \<and> lease_owner l' = w"
  using redis_clock.expired_lease_is_free [OF assms] .

theorem lease_expiry_frees_instance_witness:
  "\<exists>l' db''. lease_acquire ks_redis example_settings 7 7 ''w'' ''a'' ''i''
      (ks_elapse 7000000 (snd (lease_acquire ks_redis example_settings 0 0 ''u'' ''a'' ''i'' (fresh_keyspace 0))))
      = (Inr l', db'') \<and> lease_owner l' = ''w''"
  using lease_expiry_frees_instance [OF ref_clock.redis_clock_axioms example_acquire,
      of 7000000 7 7 "''w''"]
  by (simp add: example_settings_def)

text \<open>
  Whatever the brokers did since the storage was empty of sessions, an agent with an
  instance whose ownership key has not reached its deadline is reported as active: the
  index of deadlines never loses an instance that is still owned.
\<close>

theorem lease_holder_is_active:
  assumes "redis_clock R view elapse"
    and "\<And>a i. ks_data (view db) (session_key a i) = None"
    and "\<And>a. ks_ttl (view db) (sessions_key a) = None"
    and "\<forall>op \<in> set ops. op_agent_ok op" and "CHR '':'' \<notin> set a"
    and "fst (lease_owner_of R a i (run_lease_ops R elapse s ops db)) = Inr (Some u)"
    and "ks_ttl (view (run_lease_ops R elapse s ops db)) (session_key a i) = Some d"
    and "now_ms (view (run_lease_ops R elapse s ops db)) < d"
  shows "fst (lease_active R a (run_lease_ops R elapse s ops db)) = Inr True"
  using redis_clock.lease_holder_active [OF assms] .

theorem lease_holder_is_active_witness:
  "fst (lease_active ks_redis ''a'' (run_lease_ops ks_redis ks_elapse example_settings
      [Acquire 0 0 ''u'' ''a'' ''i'', Elapse 2000000] (fresh_keyspace 0))) = Inr True"
proof -
  let ?fin = "run_lease_ops ks_redis ks_elapse example_settings
      [Acquire 0 0 ''u'' ''a'' ''i'', Elapse 2000000] (fresh_keyspace 0)"
  have "ks_data ?fin (session_key ''a'' ''i'') = Some (RString ''u'')"
    and "ks_ttl ?fin (session_key ''a'' ''i'') = Some 6000" and "now_ms ?fin = 2000"
    by (simp_all add: run_lease_ops_def lease_acquire_def acquire_script_def validate_session_keys_def
        index_deadline_def io_simps ks_read_defs ks_write_defs Let_def example_settings_def
        lease_live_def session_key_def sessions_key_def ks_elapse_def now_ms_def)
  then show ?thesis
    using lease_holder_is_active [OF ref_clock.redis_clock_axioms, of "fresh_keyspace 0"
        "[Acquire 0 0 ''u'' ''a'' ''i'', Elapse 2000000]" "''a''" "''i''" example_settings "''u''" 6000]
    by (simp add: lease_owner_of_def ks_get_def)
qed

text \<open>
  The storage keys of two instances are equal only for the same agent and the same
  instance, as long as agent identifiers have no colon; and an ownership key is never an
  index key.
\<close>

theorem session_keys_unambiguous:
  "(CHR '':'' \<notin> set a \<and> CHR '':'' \<notin> set b \<longrightarrow>
     (session_key a i = session_key b j \<longleftrightarrow> a = b \<and> i = j)) \<and>
   session_key a i \<noteq> sessions_key b"
  by (auto simp: session_key_inject)

theorem session_keys_unambiguous_witness:
  "session_key ''a'' ''x:y'' \<noteq> session_key ''b'' ''y''"
  using session_keys_unambiguous [of "''a''" "''b''" "''x:y''" "''y''"] by simp

end
