(* ===== verification/Authorization.thy ===== *)
theory Authorization
  imports Durability Session_Lease
begin

text \<open>
  \<open>packages/mas-gateway/src/mas_gateway/authorization.py\<close>: access-control lists and roles.
  Other clients may change the storage between two reads of the retry loops: \<open>env n\<close> is
  what they do before the read with \<open>n\<close> retries left. Redis gives the members of a set in
  no particular order and nothing here depends on it; where the code keeps them as a tuple
  the model lists them in order.
\<close>

section \<open>Permission patterns\<close>

text \<open>
  \<open>re.match("^" + re.escape(granted).replace("\*", ".*") + "$", required)\<close>: a star is any text
  without a line break, every other character is itself, and \<open>$\<close> also matches before a
  final line break.
\<close>

definition newline :: char where
  "newline = CHR 0x0A"

fun glob :: "string \<Rightarrow> string \<Rightarrow> bool" where
  "glob [] r = (r = [] \<or> r = [newline])"
| "glob (c # p) [] = (c = CHR ''*'' \<and> glob p [])"
| "glob (c # p) (x # r) =
     (if c = CHR ''*'' then glob p (x # r) \<or> (x \<noteq> newline \<and> glob (c # p) r)
      else x = c \<and> glob p r)"

definition matches_permission :: "string \<Rightarrow> string \<Rightarrow> bool" where
  "matches_permission required granted \<longleftrightarrow>
     granted = ''*'' \<or> granted = required \<or> glob granted required"

section \<open>Keys\<close>

definition allowed_key :: "string \<Rightarrow> string" where
  "allowed_key a = ''agent:'' @ a @ '':allowed_targets''"

definition blocked_key :: "string \<Rightarrow> string" where
  "blocked_key a = ''agent:'' @ a @ '':blocked_targets''"

definition roles_key :: "string \<Rightarrow> string" where
  "roles_key a = ''agent:'' @ a @ '':roles''"

definition role_key :: "string \<Rightarrow> string" where
  "role_key r = ''role:'' @ r"

definition perms_key :: "string \<Rightarrow> string" where
  "perms_key r = ''role:'' @ r @ '':permissions''"

section \<open>Scripts\<close>

record role_snapshot =
  rs_roles :: "string set"
  rs_permissions :: "string set"
  rs_unchanged :: bool

record access_snapshot =
  as_accessible :: bool
  as_acl_allowed :: bool
  as_roles :: "string set"
  as_permissions :: "string set"
  as_unchanged :: bool

text \<open>\<open>role_permissions\<close>: the roles, and what they permit if the caller named exactly their keys.\<close>

definition role_permissions ::
  "'db redis \<Rightarrow> string \<Rightarrow> string list \<Rightarrow> string list \<Rightarrow> ('db, role_snapshot) io" where
  "role_permissions R key role_keys expected =
     bindio (SMEMBERS R key) (\<lambda>roles.
     if roles = {} then ret \<lparr>rs_roles = roles, rs_permissions = {}, rs_unchanged = True\<rparr>
     else if card roles \<noteq> length role_keys
     then ret \<lparr>rs_roles = roles, rs_permissions = {}, rs_unchanged = False\<rparr>
     else if \<not> roles \<subseteq> set expected
     then ret \<lparr>rs_roles = roles, rs_permissions = {}, rs_unchanged = False\<rparr>
     else bindio (mapio (SMEMBERS R) role_keys) (\<lambda>perms.
       ret \<lparr>rs_roles = roles, rs_permissions = \<Union> (set perms), rs_unchanged = True\<rparr>))"

definition no_access :: access_snapshot where
  "no_access = \<lparr>as_accessible = False, as_acl_allowed = False, as_roles = {}, as_permissions = {}, as_unchanged = True\<rparr>"

definition access_script ::
  "'db redis \<Rightarrow> string \<Rightarrow> string \<Rightarrow> bool \<Rightarrow> string list \<Rightarrow> ('db, access_snapshot) io" where
  "access_script R sender target include_rbac roles =
     bindio (TIME R) (\<lambda>now.
     bindio (ZCOUNT_ABOVE R (sessions_key target) (script_ms now)) (\<lambda>sessions.
     if sessions = 0 then ret no_access
     else bindio (SISMEMBER R (blocked_key sender) target) (\<lambda>blocked.
     if blocked then ret no_access
     else bindio (SISMEMBER R (allowed_key sender) ''*'') (\<lambda>everyone.
     bindio (if everyone then ret True else SISMEMBER R (allowed_key sender) target) (\<lambda>allowed.
     if allowed
     then ret (no_access\<lparr>as_accessible := True, as_acl_allowed := True\<rparr>)
     else if \<not> include_rbac then ret (no_access\<lparr>as_accessible := True\<rparr>)
     else bindio (role_permissions R (roles_key sender) (map perms_key roles) roles) (\<lambda>rs.
       ret \<lparr>as_accessible = True, as_acl_allowed = False, as_roles = rs_roles rs,
            as_permissions = rs_permissions rs, as_unchanged = rs_unchanged rs\<rparr>))))))"

section \<open>Role hints\<close>

text \<open>The \<open>OrderedDict\<close> of hints, oldest entry first.\<close>

type_synonym role_hints = "(string \<times> string list) list"

definition remember_role_hint :: "string \<Rightarrow> string list \<Rightarrow> role_hints \<Rightarrow> role_hints" where
  "remember_role_hint agent_id roles hints =
     (let others = filter (\<lambda>h. fst h \<noteq> agent_id) hints in
      if length roles > 64 \<or> length agent_id + sum_list (map length roles) > 4096 then others
      else let hints' = others @ [(agent_id, roles)] in
        if length hints' > 2048 then tl hints' else hints')"

definition role_hint :: "role_hints \<Rightarrow> string \<Rightarrow> string list" where
  "role_hint hints agent_id = (case map_of hints agent_id of None \<Rightarrow> [] | Some roles \<Rightarrow> roles)"

definition changed_during_read :: err where
  "changed_during_read = RedisError ''authorization_changed_during_read''"

section \<open>Decisions\<close>

text \<open>A decision reads the hints of the module and the server, and leaves both behind.\<close>

type_synonym ('db, 'a) auth = "role_hints \<Rightarrow> 'db \<Rightarrow> (err + 'a) \<times> role_hints \<times> 'db"

primrec access_loop :: "'db redis \<Rightarrow> (nat \<Rightarrow> 'db \<Rightarrow> 'db) \<Rightarrow> string \<Rightarrow> string \<Rightarrow> bool \<Rightarrow> nat \<Rightarrow>
    string list \<Rightarrow> ('db, access_snapshot) auth" where
  "access_loop R env sender target rbac 0 roles hints db = (Inl changed_during_read, hints, db)"
| "access_loop R env sender target rbac (Suc n) roles hints db =
     (case access_script R sender target rbac roles (env n db) of
        (Inl e, db') \<Rightarrow> (Inl e, hints, db')
      | (Inr snapshot, db') \<Rightarrow>
          (let found = sorted_list_of_set (as_roles snapshot);
               hints' = remember_role_hint sender found hints in
           if as_unchanged snapshot then (Inr snapshot, hints', db')
           else access_loop R env sender target rbac n found hints' db'))"

definition read_access ::
  "'db redis \<Rightarrow> (nat \<Rightarrow> 'db \<Rightarrow> 'db) \<Rightarrow> string \<Rightarrow> string \<Rightarrow> bool \<Rightarrow> ('db, access_snapshot) auth" where
  "read_access R env sender target rbac hints =
     access_loop R env sender target rbac 4 (role_hint hints sender) hints"

definition grants :: "string \<Rightarrow> access_snapshot \<Rightarrow> bool" where
  "grants required snapshot \<longleftrightarrow>
     as_accessible snapshot \<and>
     (as_acl_allowed snapshot \<or> (\<exists>p \<in> as_permissions snapshot. matches_permission required p))"

definition authorize ::
  "'db redis \<Rightarrow> (nat \<Rightarrow> 'db \<Rightarrow> 'db) \<Rightarrow> bool \<Rightarrow> string \<Rightarrow> string \<Rightarrow> string \<Rightarrow> ('db, bool) auth" where
  "authorize R env enable_rbac sender target action hints db =
     (case read_access R env sender target enable_rbac hints db of
        (Inl e, s) \<Rightarrow> (Inl e, s)
      | (Inr snapshot, s) \<Rightarrow> (Inr (grants (action @ '':'' @ target) snapshot), s))"

definition check_acl ::
  "'db redis \<Rightarrow> (nat \<Rightarrow> 'db \<Rightarrow> 'db) \<Rightarrow> string \<Rightarrow> string \<Rightarrow> ('db, bool) auth" where
  "check_acl R env sender target hints db =
     (case read_access R env sender target False hints db of
        (Inl e, s) \<Rightarrow> (Inl e, s)
      | (Inr snapshot, s) \<Rightarrow> (Inr (as_accessible snapshot \<and> as_acl_allowed snapshot), s))"

primrec rbac_loop :: "'db redis \<Rightarrow> (nat \<Rightarrow> 'db \<Rightarrow> 'db) \<Rightarrow> string \<Rightarrow> string \<Rightarrow> nat \<Rightarrow> string list \<Rightarrow> ('db, bool) auth" where
  "rbac_loop R env agent_id permission 0 roles hints db = (Inl changed_during_read, hints, db)"
| "rbac_loop R env agent_id permission (Suc n) roles hints db =
     (case role_permissions R (roles_key agent_id) (map perms_key roles) roles (env n db) of
        (Inl e, db') \<Rightarrow> (Inl e, hints, db')
      | (Inr snapshot, db') \<Rightarrow>
          (let found = sorted_list_of_set (rs_roles snapshot);
               hints' = remember_role_hint agent_id found hints in
           if rs_unchanged snapshot
           then (Inr (\<exists>p \<in> rs_permissions snapshot. matches_permission permission p), hints', db')
           else rbac_loop R env agent_id permission n found hints' db'))"

definition check_rbac ::
  "'db redis \<Rightarrow> (nat \<Rightarrow> 'db \<Rightarrow> 'db) \<Rightarrow> string \<Rightarrow> string \<Rightarrow> ('db, bool) auth" where
  "check_rbac R env agent_id permission hints =
     rbac_loop R env agent_id permission 4 (role_hint hints agent_id) hints"

section \<open>Administration\<close>

definition quietly :: "('db, unit) io \<Rightarrow> ('db, reply) io" where
  "quietly m = bindio m (\<lambda>_. ret NilReply)"

definition replace_targets :: "'db redis \<Rightarrow> string \<Rightarrow> string list option \<Rightarrow> ('db, reply) io list" where
  "replace_targets R key targets =
     (case targets of
        None \<Rightarrow> []
      | Some ts \<Rightarrow> quietly (DEL R [key]) # (if ts \<noteq> [] then [quietly (SADD R key ts)] else []))"

definition set_permissions ::
  "'db redis \<Rightarrow> string \<Rightarrow> string list option \<Rightarrow> string list option \<Rightarrow> ('db, unit) io" where
  "set_permissions R agent_id allowed blocked =
     seqio (pipeline_execute R (replace_targets R (allowed_key agent_id) allowed @
                                replace_targets R (blocked_key agent_id) blocked))
           (ret ())"

definition add_permission :: "'db redis \<Rightarrow> string \<Rightarrow> string \<Rightarrow> ('db, unit) io" where
  "add_permission R agent_id target_id = SADD R (allowed_key agent_id) [target_id]"

definition remove_permission :: "'db redis \<Rightarrow> string \<Rightarrow> string \<Rightarrow> ('db, unit) io" where
  "remove_permission R agent_id target_id = SREM R (allowed_key agent_id) target_id"

definition set_blocked :: "'db redis \<Rightarrow> string \<Rightarrow> string \<Rightarrow> bool \<Rightarrow> ('db, unit) io" where
  "set_blocked R agent_id target_id blocked =
     (if blocked then SADD R (blocked_key agent_id) [target_id]
      else SREM R (blocked_key agent_id) target_id)"

definition block_target :: "'db redis \<Rightarrow> string \<Rightarrow> string \<Rightarrow> ('db, unit) io" where
  "block_target R agent_id target_id = set_blocked R agent_id target_id True"

definition unblock_target :: "'db redis \<Rightarrow> string \<Rightarrow> string \<Rightarrow> ('db, unit) io" where
  "unblock_target R agent_id target_id = set_blocked R agent_id target_id False"

definition get_permissions :: "'db redis \<Rightarrow> string \<Rightarrow> ('db, string list \<times> string list) io" where
  "get_permissions R agent_id =
     bindio (SMEMBERS R (allowed_key agent_id)) (\<lambda>allowed.
     bindio (SMEMBERS R (blocked_key agent_id)) (\<lambda>blocked.
     ret (sorted_list_of_set allowed, sorted_list_of_set blocked)))"

definition create_role :: "'db redis \<Rightarrow> string \<Rightarrow> string \<Rightarrow> string list \<Rightarrow> ('db, unit) io" where
  "create_role R role_name description permissions =
     seqio (HSET R (role_key role_name) [(''name'', role_name), (''description'', description)])
           (if permissions \<noteq> [] then SADD R (perms_key role_name) permissions else ret ())"

definition delete_role :: "'db redis \<Rightarrow> string \<Rightarrow> ('db, unit) io" where
  "delete_role R role_name = DEL R [role_key role_name, perms_key role_name]"

definition add_role_permission :: "'db redis \<Rightarrow> string \<Rightarrow> string \<Rightarrow> ('db, unit) io" where
  "add_role_permission R role_name permission = SADD R (perms_key role_name) [permission]"

definition remove_role_permission :: "'db redis \<Rightarrow> string \<Rightarrow> string \<Rightarrow> ('db, unit) io" where
  "remove_role_permission R role_name permission = SREM R (perms_key role_name) permission"

definition get_role_permissions :: "'db redis \<Rightarrow> string \<Rightarrow> ('db, string list) io" where
  "get_role_permissions R role_name =
     bindio (SMEMBERS R (perms_key role_name)) (\<lambda>ps. ret (sorted_list_of_set ps))"

definition assign_role :: "'db redis \<Rightarrow> string \<Rightarrow> string \<Rightarrow> ('db, unit) io" where
  "assign_role R agent_id role_name = SADD R (roles_key agent_id) [role_name]"

definition unassign_role :: "'db redis \<Rightarrow> string \<Rightarrow> string \<Rightarrow> ('db, unit) io" where
  "unassign_role R agent_id role_name = SREM R (roles_key agent_id) role_name"

definition get_agent_roles :: "'db redis \<Rightarrow> string \<Rightarrow> ('db, string list) io" where
  "get_agent_roles R agent_id =
     bindio (SMEMBERS R (roles_key agent_id)) (\<lambda>rs. ret (sorted_list_of_set rs))"

section \<open>The policy\<close>

text \<open>What a keyspace says about a sender, without scripts, hints and retries.\<close>

definition set_at :: "string \<Rightarrow> keyspace \<Rightarrow> string set" where
  "set_at k ks = (case ks_data ks k of Some (RSet S) \<Rightarrow> S | _ \<Rightarrow> {})"

definition connected :: "string \<Rightarrow> keyspace \<Rightarrow> bool" where
  "connected a ks \<longleftrightarrow>
     (\<exists>z. ks_data ks (sessions_key a) = Some (RZset z) \<and> (\<exists>x \<in> set z. real (now_ms ks) < fst x))"

definition role_grants :: "string \<Rightarrow> string \<Rightarrow> keyspace \<Rightarrow> bool" where
  "role_grants agent required ks \<longleftrightarrow>
     (\<exists>r \<in> set_at (roles_key agent) ks. \<exists>p \<in> set_at (perms_key r) ks. matches_permission required p)"

definition permitted :: "bool \<Rightarrow> string \<Rightarrow> string \<Rightarrow> string \<Rightarrow> keyspace \<Rightarrow> bool" where
  "permitted rbac sender target action ks \<longleftrightarrow>
     connected target ks \<and> target \<notin> set_at (blocked_key sender) ks \<and>
     (''*'' \<in> set_at (allowed_key sender) ks \<or> target \<in> set_at (allowed_key sender) ks \<or>
      (rbac \<and> role_grants sender (action @ '':'' @ target) ks))"

inductive expands :: "string \<Rightarrow> string \<Rightarrow> bool" where
  expands_Nil: "expands [] []"
| expands_char: "c \<noteq> CHR ''*'' \<Longrightarrow> expands p r \<Longrightarrow> expands (c # p) (c # r)"
| expands_star: "newline \<notin> set w \<Longrightarrow> expands p r \<Longrightarrow> expands (CHR ''*'' # p) (w @ r)"

inductive_cases expands_NilE: "expands [] r"
inductive_cases expands_ConsE: "expands (c # p) r"

definition hints_ok :: "role_hints \<Rightarrow> bool" where
  "hints_ok hints \<longleftrightarrow> distinct (map fst hints) \<and> length hints \<le> 2048 \<and>
     (\<forall>h \<in> set hints. length (snd h) \<le> 64 \<and> length (fst h) + sum_list (map length (snd h)) \<le> 4096)"

text \<open>Storage in which no key that a decision reads has a wrong type.\<close>

definition auth_readable :: "string \<Rightarrow> string \<Rightarrow> keyspace \<Rightarrow> bool" where
  "auth_readable sender target ks \<longleftrightarrow>
     type_of_value (ks_data ks (sessions_key target)) \<in> {TNone, TZset} \<and>
     (\<forall>k \<in> {blocked_key sender, allowed_key sender, roles_key sender} \<union> perms_key ` set_at (roles_key sender) ks.
        type_of_value (ks_data ks k) \<in> {TNone, TSet}) \<and>
     finite (set_at (roles_key sender) ks)"

section \<open>On any server\<close>

context redis_server
begin

lemma role_permissions_impl [implements_intros]:
  "implements view (role_permissions R k ks rs) (role_permissions ks_redis k ks rs)"
  by (auto simp: role_permissions_def intro!: implements_intros)

lemma access_script_impl [implements_intros]:
  "implements view (access_script R s t b rs) (access_script ks_redis s t b rs)"
  by (auto simp: access_script_def intro!: implements_intros)

lemma administration_impl [implements_intros]:
  "implements view (add_permission R a t) (add_permission ks_redis a t)"
  "implements view (remove_permission R a t) (remove_permission ks_redis a t)"
  "implements view (block_target R a t) (block_target ks_redis a t)"
  "implements view (unblock_target R a t) (unblock_target ks_redis a t)"
  "implements view (get_permissions R a) (get_permissions ks_redis a)"
  "implements view (create_role R r d ps) (create_role ks_redis r d ps)"
  "implements view (delete_role R r) (delete_role ks_redis r)"
  "implements view (add_role_permission R r p) (add_role_permission ks_redis r p)"
  "implements view (remove_role_permission R r p) (remove_role_permission ks_redis r p)"
  "implements view (assign_role R a r) (assign_role ks_redis a r)"
  "implements view (unassign_role R a r) (unassign_role ks_redis a r)"
  by (auto simp: add_permission_def remove_permission_def block_target_def unblock_target_def
      set_blocked_def get_permissions_def create_role_def delete_role_def add_role_permission_def
      remove_role_permission_def assign_role_def unassign_role_def intro!: implements_intros)

lemma replace_targets_impl:
  "list_all2 (implements view) (replace_targets R k ts) (replace_targets ks_redis k ts)"
  by (auto simp: replace_targets_def quietly_def intro!: implements_intros split: option.splits)

lemma set_permissions_impl [implements_intros]:
  "implements view (set_permissions R a al bl) (set_permissions ks_redis a al bl)"
  unfolding set_permissions_def pipeline_execute_def ks_redis_sel
  by (intro implements_intros pipeline list_all2_appendI replace_targets_impl)

end

section \<open>Patterns\<close>

lemma expands_Nil_iff: "expands [] r \<longleftrightarrow> r = []"
  by (auto elim: expands_NilE intro: expands_Nil)

lemma expands_char_iff: "c \<noteq> CHR ''*'' \<Longrightarrow> expands (c # p) r \<longleftrightarrow> (\<exists>r'. r = c # r' \<and> expands p r')"
  by (auto elim: expands_ConsE intro: expands_char)

lemma expands_star_iff:
  "expands (CHR ''*'' # p) r \<longleftrightarrow>
     expands p r \<or> (\<exists>x r'. r = x # r' \<and> x \<noteq> newline \<and> expands (CHR ''*'' # p) r')"
proof
  assume "expands (CHR ''*'' # p) r"
  then obtain w q where q: "r = w @ q" "newline \<notin> set w" "expands p q" by (auto elim: expands_ConsE)
  then show "expands p r \<or> (\<exists>x r'. r = x # r' \<and> x \<noteq> newline \<and> expands (CHR ''*'' # p) r')"
    by (cases w) (auto intro: expands_star)
next
  assume "expands p r \<or> (\<exists>x r'. r = x # r' \<and> x \<noteq> newline \<and> expands (CHR ''*'' # p) r')"
  then show "expands (CHR ''*'' # p) r"
  proof (elim disjE exE conjE)
    assume "expands p r"
    then show ?thesis using expands_star [of "[]" p r] by simp
  next
    fix x r' assume r: "r = x # r'" "x \<noteq> newline" and "expands (CHR ''*'' # p) r'"
    then obtain w q where "r' = w @ q" "newline \<notin> set w" "expands p q" by (auto elim: expands_ConsE)
    with r show ?thesis using expands_star [of "x # w" p q] by auto
  qed
qed

lemma glob_iff: "glob p r \<longleftrightarrow> expands p r \<or> (\<exists>r'. r = r' @ [newline] \<and> expands p r')"
proof (induction p r rule: glob.induct)
  case (1 r)
  then show ?case by (auto simp: expands_Nil_iff)
next
  case (2 c p)
  then show ?case by (cases "c = CHR ''*''") (auto simp: expands_char_iff expands_star_iff [of p "[]"])
next
  case (3 c p x r)
  then show ?case
    by (cases "c = CHR ''*''")
       (auto simp: expands_char_iff expands_star_iff [of p "x # r"] expands_star_iff [of p "[]"]
         expands_star_iff [of p "y # z" for y z] Cons_eq_append_conv)
qed

section \<open>The scripts decide the policy\<close>

lemma ks_smembers_Inr: "ks_smembers k ks = (Inr S, ks') \<longleftrightarrow>
    ks' = ks \<and> S = set_at k ks \<and> type_of_value (ks_data ks k) \<in> {TNone, TSet}"
  by (cases "ks_data ks k" rule: type_of_value.cases) (auto simp: ks_smembers_def set_at_def)

lemma mapio_smembers:
  "mapio ks_smembers keys ks = (Inr Ss, ks') \<longleftrightarrow>
     ks' = ks \<and> Ss = map (\<lambda>k. set_at k ks) keys \<and>
     (\<forall>k \<in> set keys. type_of_value (ks_data ks k) \<in> {TNone, TSet})"
proof (induction keys arbitrary: Ss ks')
  case (Cons k keys)
  show ?case
    unfolding mapio.simps bindio_Inr_iff ks_smembers_Inr by (auto simp: Cons.IH)
qed auto

lemma role_permissions_ks:
  assumes "role_permissions ks_redis k (map perms_key roles) roles ks = (Inr rs, ks')"
  shows "ks' = ks \<and> rs_roles rs = set_at k ks \<and>
    (rs_unchanged rs \<longrightarrow> rs_permissions rs = (\<Union>r \<in> set_at k ks. set_at (perms_key r) ks))"
proof -
  let ?S = "set_at k ks"
  have S: "fst (ks_smembers k ks) = Inr ?S" "snd (ks_smembers k ks) = ks"
    using assms ks_smembers_Inr [of k ks]
    by (auto simp: role_permissions_def io_simps ks_smembers_def set_at_def split: option.splits rvalue.splits)
  consider "?S = {}" | "?S \<noteq> {}" "card ?S \<noteq> length roles \<or> \<not> ?S \<subseteq> set roles"
    | "?S \<noteq> {}" "card ?S = length roles" "?S \<subseteq> set roles" by blast
  then show ?thesis
  proof cases
    case 3
    have "card (set roles) \<le> card ?S" using 3(2) card_length by simp
    with 3 have eq: "?S = set roles" by (meson List.finite_set card_seteq)
    from assms 3 S obtain Ss where Ss: "mapio ks_smembers (map perms_key roles) ks = (Inr Ss, ks')"
      and rs: "rs = \<lparr>rs_roles = ?S, rs_permissions = \<Union> (set Ss), rs_unchanged = True\<rparr>"
      by (auto simp: role_permissions_def bindio_split prod_eq_iff split: sum.splits)
    then show ?thesis using eq by (auto simp: mapio_smembers)
  next
    case 2
    then show ?thesis using assms S by (auto simp: role_permissions_def bindio_split split: if_splits)
  qed (use assms S in \<open>auto simp: role_permissions_def bindio_split\<close>)
qed

lemma ks_sismember_Inr: "ks_sismember k m ks = (Inr b, ks') \<longleftrightarrow>
    ks' = ks \<and> (b \<longleftrightarrow> m \<in> set_at k ks) \<and> type_of_value (ks_data ks k) \<in> {TNone, TSet}"
  by (cases "ks_data ks k" rule: type_of_value.cases) (auto simp: ks_sismember_def set_at_def)

lemma ks_time_Inr: "ks_time ks = (Inr t, ks') \<longleftrightarrow> ks' = ks \<and> t = (ks_now ks div 1000000, ks_now ks mod 1000000)"
  by (auto simp: ks_time_def)

lemma ks_zcount_connected:
  assumes "ks_zcount_above (sessions_key a) (real (now_ms ks)) ks = (Inr n, ks')"
  shows "ks' = ks" "n = 0 \<longleftrightarrow> \<not> connected a ks"
proof -
  show "ks' = ks" using assms by (auto simp: ks_zcount_above_def split: option.splits rvalue.splits)
  show "n = 0 \<longleftrightarrow> \<not> connected a ks"
    using assms
    by (cases "ks_data ks (sessions_key a)" rule: type_of_value.cases)
       (auto simp: ks_zcount_above_def connected_def filter_empty_conv, metis fst_conv)
qed

lemma permitted_simps:
  "\<not> connected t ks \<Longrightarrow> \<not> permitted b s t act ks"
  "t \<in> set_at (blocked_key s) ks \<Longrightarrow> \<not> permitted b s t act ks"
  "connected t ks \<Longrightarrow> t \<notin> set_at (blocked_key s) ks \<Longrightarrow>
     ''*'' \<in> set_at (allowed_key s) ks \<or> t \<in> set_at (allowed_key s) ks \<Longrightarrow> permitted b s t act ks"
  "connected t ks \<Longrightarrow> t \<notin> set_at (blocked_key s) ks \<Longrightarrow>
     ''*'' \<notin> set_at (allowed_key s) ks \<Longrightarrow> t \<notin> set_at (allowed_key s) ks \<Longrightarrow>
     permitted b s t act ks \<longleftrightarrow> b \<and> role_grants s (act @ '':'' @ t) ks"
  by (auto simp: permitted_def)

text \<open>Which of the five ways the script took.\<close>

lemma access_script_cases:
  assumes "access_script ks_redis s t b roles ks = (Inr sn, ks')"
  obtains (none) "ks' = ks" "sn = no_access" "\<not> connected t ks \<or> t \<in> set_at (blocked_key s) ks"
    | (acl) "ks' = ks" "sn = no_access\<lparr>as_accessible := True, as_acl_allowed := True\<rparr>" "connected t ks"
        "t \<notin> set_at (blocked_key s) ks" "''*'' \<in> set_at (allowed_key s) ks \<or> t \<in> set_at (allowed_key s) ks"
    | (no_rbac) "ks' = ks" "sn = no_access\<lparr>as_accessible := True\<rparr>" "connected t ks" "\<not> b"
        "t \<notin> set_at (blocked_key s) ks" "''*'' \<notin> set_at (allowed_key s) ks" "t \<notin> set_at (allowed_key s) ks"
    | (rbac) rs where "role_permissions ks_redis (roles_key s) (map perms_key roles) roles ks = (Inr rs, ks')"
        "sn = \<lparr>as_accessible = True, as_acl_allowed = False, as_roles = rs_roles rs,
            as_permissions = rs_permissions rs, as_unchanged = rs_unchanged rs\<rparr>" "connected t ks" "b"
        "t \<notin> set_at (blocked_key s) ks" "''*'' \<notin> set_at (allowed_key s) ks" "t \<notin> set_at (allowed_key s) ks"
proof -
  from assms obtain n mid where n: "ks_zcount_above (sessions_key t) (real (now_ms ks)) ks = (Inr n, mid)"
    and rest: "(if n = 0 then ret no_access else bindio (ks_sismember (blocked_key s) t) (\<lambda>blocked.
       if blocked then ret no_access
       else bindio (ks_sismember (allowed_key s) ''*'') (\<lambda>everyone.
       bindio (if everyone then ret True else ks_sismember (allowed_key s) t) (\<lambda>allowed.
       if allowed then ret (no_access\<lparr>as_accessible := True, as_acl_allowed := True\<rparr>)
       else if \<not> b then ret (no_access\<lparr>as_accessible := True\<rparr>)
       else bindio (role_permissions ks_redis (roles_key s) (map perms_key roles) roles) (\<lambda>rs.
         ret \<lparr>as_accessible = True, as_acl_allowed = False, as_roles = rs_roles rs,
              as_permissions = rs_permissions rs, as_unchanged = rs_unchanged rs\<rparr>))))) mid = (Inr sn, ks')"
    unfolding access_script_def ks_redis_sel bindio_Inr_iff ks_time_Inr by (auto simp: script_ms_time)
  note conn = ks_zcount_connected [OF n]
  show thesis
  proof (cases "connected t ks \<and> t \<notin> set_at (blocked_key s) ks")
    case False
    then show thesis
      using rest conn none by (auto simp: bindio_Inr_iff ks_sismember_Inr split: if_splits)
  next
    case open_: True
    show thesis
    proof (cases "''*'' \<in> set_at (allowed_key s) ks \<or> t \<in> set_at (allowed_key s) ks")
      case True
      then show thesis
        using rest conn open_ acl by (auto simp: bindio_Inr_iff ks_sismember_Inr split: if_splits)
    next
      case False
      then show thesis
        using rest conn open_ no_rbac rbac
        by (cases b) (auto simp: bindio_Inr_iff ks_sismember_Inr split: if_splits)
    qed
  qed
qed

lemma access_script_ks:
  assumes "access_script ks_redis s t b roles ks = (Inr sn, ks')"
  shows "ks' = ks"
    and "as_unchanged sn \<Longrightarrow> grants (act @ '':'' @ t) sn \<longleftrightarrow> permitted b s t act ks"
    and "as_accessible sn \<and> as_acl_allowed sn \<longleftrightarrow>
      connected t ks \<and> t \<notin> set_at (blocked_key s) ks \<and>
      (''*'' \<in> set_at (allowed_key s) ks \<or> t \<in> set_at (allowed_key s) ks)"
    and "\<not> as_unchanged sn \<Longrightarrow> as_roles sn = set_at (roles_key s) ks \<and> b"
proof -
  show "ks' = ks"
    using assms by (cases rule: access_script_cases) (auto dest: role_permissions_ks)
  show "grants (act @ '':'' @ t) sn \<longleftrightarrow> permitted b s t act ks" if "as_unchanged sn"
    using assms
  proof (cases rule: access_script_cases)
    case (rbac rs)
    with role_permissions_ks [OF rbac(1)] that show ?thesis
      by (auto simp: grants_def permitted_simps role_grants_def)
  qed (auto simp: grants_def no_access_def permitted_def)
  show "as_accessible sn \<and> as_acl_allowed sn \<longleftrightarrow>
      connected t ks \<and> t \<notin> set_at (blocked_key s) ks \<and>
      (''*'' \<in> set_at (allowed_key s) ks \<or> t \<in> set_at (allowed_key s) ks)"
    using assms by (cases rule: access_script_cases) (auto simp: no_access_def)
  show "as_roles sn = set_at (roles_key s) ks \<and> b" if "\<not> as_unchanged sn"
    using assms that by (cases rule: access_script_cases) (auto simp: no_access_def dest: role_permissions_ks)
qed

section \<open>Reads that succeed\<close>

lemma role_permissions_readable:
  assumes "auth_readable s t ks"
  shows "\<exists>rs. role_permissions ks_redis (roles_key s) (map perms_key roles) roles ks = (Inr rs, ks)"
    and "role_permissions ks_redis (roles_key s) (map perms_key (sorted_list_of_set (set_at (roles_key s) ks)))
           (sorted_list_of_set (set_at (roles_key s) ks)) ks = (Inr rs, ks') \<Longrightarrow> rs_unchanged rs"
proof -
  let ?S = "set_at (roles_key s) ks"
  have S: "ks_smembers (roles_key s) ks = (Inr ?S, ks)" and fin: "finite ?S"
    using assms by (auto simp: ks_smembers_Inr auth_readable_def)
  show "\<exists>rs. role_permissions ks_redis (roles_key s) (map perms_key roles) roles ks = (Inr rs, ks)"
  proof (cases "card ?S = length roles \<and> ?S \<subseteq> set roles")
    case True
    then have "set roles = ?S" by (metis List.finite_set card_length card_seteq)
    with assms have "mapio ks_smembers (map perms_key roles) ks = (Inr (map (\<lambda>k. set_at k ks) (map perms_key roles)), ks)"
      unfolding mapio_smembers by (auto simp: auth_readable_def)
    with S True show ?thesis by (auto simp: role_permissions_def bindio_split)
  next
    case False
    with S show ?thesis by (auto simp: role_permissions_def bindio_split)
  qed
  show "rs_unchanged rs" if "role_permissions ks_redis (roles_key s) (map perms_key (sorted_list_of_set ?S))
           (sorted_list_of_set ?S) ks = (Inr rs, ks')"
    using that S fin by (auto simp: role_permissions_def bindio_split split: if_splits sum.splits)
qed

lemma access_script_readable:
  assumes "auth_readable s t ks"
  shows "\<exists>sn. access_script ks_redis s t b roles ks = (Inr sn, ks)"
proof -
  have "\<exists>n. ks_zcount_above (sessions_key t) (real (now_ms ks)) ks = (Inr n, ks)"
    using assms
    by (cases "ks_data ks (sessions_key t)" rule: type_of_value.cases)
       (auto simp: auth_readable_def ks_zcount_above_def)
  moreover have "ks_sismember k m ks = (Inr (m \<in> set_at k ks), ks)" if "k \<in> {blocked_key s, allowed_key s}" for k m
    using assms that by (auto simp: ks_sismember_Inr auth_readable_def)
  moreover obtain rs where "role_permissions ks_redis (roles_key s) (map perms_key roles) roles ks = (Inr rs, ks)"
    using role_permissions_readable(1) [OF assms] by blast
  ultimately show ?thesis
    by (auto simp: access_script_def bindio_split ks_time_def script_ms_time)
qed

lemma access_script_settles:
  assumes "auth_readable s t ks"
    and "access_script ks_redis s t b (sorted_list_of_set (set_at (roles_key s) ks)) ks = (Inr sn, ks')"
  shows "as_unchanged sn"
  using assms(2) role_permissions_readable(2) [OF assms(1)]
  by (cases rule: access_script_cases) (auto simp: no_access_def)

section \<open>The loops\<close>

context redis_server
begin

lemma access_loop_sound:
  assumes "access_loop R env s t b n roles hints db = (Inr sn, hints', db')"
  shows "(grants (act @ '':'' @ t) sn \<longleftrightarrow> permitted b s t act (view db')) \<and>
    (as_accessible sn \<and> as_acl_allowed sn \<longleftrightarrow>
      connected t (view db') \<and> t \<notin> set_at (blocked_key s) (view db') \<and>
      (''*'' \<in> set_at (allowed_key s) (view db') \<or> t \<in> set_at (allowed_key s) (view db')))"
  using assms
proof (induction n arbitrary: roles hints db)
  case (Suc n)
  obtain r mid where run: "access_script R s t b roles (env n db) = (r, mid)" by fastforce
  with Suc.prems obtain x where x: "r = Inr x" by (cases r) auto
  note ks = implements_run [OF access_script_impl run [unfolded x]]
  show ?case
  proof (cases "as_unchanged x")
    case True
    with Suc.prems run x have "sn = x" "db' = mid" by (auto simp: Let_def)
    with access_script_ks [OF ks] True show ?thesis by simp
  next
    case False
    with Suc.prems run x show ?thesis by (intro Suc.IH) (auto simp: Let_def)
  qed
qed simp

lemma access_loop_settles:
  assumes "auth_readable s t (view db)" and "2 \<le> n"
  shows "\<exists>sn hints' db'. access_loop R (\<lambda>_ db. db) s t b n roles hints db = (Inr sn, hints', db') \<and> view db' = view db"
proof -
  have step: "\<exists>sn db'. access_script R s t b rs d = (Inr sn, db') \<and> view db' = view d \<and>
      (\<not> as_unchanged sn \<longrightarrow> as_roles sn = set_at (roles_key s) (view d)) \<and>
      (rs = sorted_list_of_set (set_at (roles_key s) (view d)) \<longrightarrow> as_unchanged sn)"
    if rd: "auth_readable s t (view d)" for rs d
  proof -
    obtain sn where ks: "access_script ks_redis s t b rs (view d) = (Inr sn, view d)"
      using access_script_readable [OF rd] by blast
    have "fst (access_script R s t b rs d) = Inr sn" "view (snd (access_script R s t b rs d)) = view d"
      using implements_fst [OF access_script_impl, of s t b rs d] implements_snd [OF access_script_impl, of s t b rs d] ks
      by simp_all
    with access_script_ks(4) [OF ks] access_script_settles [OF rd, of b sn] ks show ?thesis
      by (metis prod.collapse)
  qed
  obtain k where n: "n = Suc (Suc k)" using assms(2) by (metis Suc_le_D numeral_2_eq_2 Suc_le_mono)
  obtain sn mid where first: "access_script R s t b roles db = (Inr sn, mid)" "view mid = view db"
      "\<not> as_unchanged sn \<longrightarrow> as_roles sn = set_at (roles_key s) (view db)"
    using step [OF assms(1), of roles] by blast
  show ?thesis
  proof (cases "as_unchanged sn")
    case True
    with first n show ?thesis by (simp add: Let_def)
  next
    case False
    obtain sn' fin where "access_script R s t b (sorted_list_of_set (as_roles sn)) mid = (Inr sn', fin)"
        "view fin = view mid" "as_unchanged sn'"
      using step [of mid "sorted_list_of_set (as_roles sn)"] assms(1) first False by auto
    with first False n show ?thesis by (simp add: Let_def)
  qed
qed

lemma rbac_loop_sound:
  assumes "rbac_loop R env a p n roles hints db = (Inr x, hints', db')"
  shows "x \<longleftrightarrow> role_grants a p (view db')"
  using assms
proof (induction n arbitrary: roles hints db)
  case (Suc n)
  obtain r mid where run: "role_permissions R (roles_key a) (map perms_key roles) roles (env n db) = (r, mid)"
    by fastforce
  with Suc.prems obtain sn where sn: "r = Inr sn" by (cases r) auto
  note ks = role_permissions_ks [OF implements_run [OF role_permissions_impl run [unfolded sn]]]
  show ?case
  proof (cases "rs_unchanged sn")
    case True
    with Suc.prems run sn have "x \<longleftrightarrow> (\<exists>q \<in> rs_permissions sn. matches_permission p q)" "db' = mid"
      by (auto simp: Let_def)
    with ks True show ?thesis by (auto simp: role_grants_def)
  next
    case False
    with Suc.prems run sn show ?thesis by (intro Suc.IH) (auto simp: Let_def)
  qed
qed simp

end

lemma access_script_touches: "touches {} (access_script ks_redis s t b roles)"
  by (auto simp: access_script_def role_permissions_def intro!: touches_intros)

lemma access_script_snd:
  "set_at k (snd (access_script ks_redis s t b roles ks)) = set_at k ks"
  using touchesD(3) [OF access_script_touches] by (simp add: set_at_def)

lemma authorize_decides:
  assumes "redis_server R view" and "authorize R env rbac s t act hints db = (Inr answer, hints', db')"
  shows "answer \<longleftrightarrow> permitted rbac s t act (view db')"
  using assms redis_server.access_loop_sound [OF assms(1)]
  by (auto simp: authorize_def read_access_def split: prod.splits sum.splits)

lemma hints_ok_remember: "hints_ok hints \<Longrightarrow> hints_ok (remember_role_hint a roles hints)"
proof -
  assume ok: "hints_ok hints"
  let ?o = "filter (\<lambda>h. fst h \<noteq> a) hints"
  have "length ?o \<le> 2048" using ok by (meson hints_ok_def le_trans length_filter_le)
  with ok have o: "distinct (map fst ?o)" "length ?o \<le> 2048" "a \<notin> fst ` set ?o"
    by (auto simp: hints_ok_def distinct_map_filter)
  have sub: "set (tl xs) \<subseteq> set xs" for xs :: role_hints by (cases xs) auto
  have tl: "distinct (map fst (tl xs))" if "distinct (map fst xs)" for xs :: role_hints
    using that by (cases xs) auto
  show ?thesis
  proof (cases "length roles > 64 \<or> length a + sum_list (map length roles) > 4096")
    case True
    then show ?thesis using ok o by (auto simp: remember_role_hint_def hints_ok_def)
  next
    case False
    let ?x = "?o @ [(a, roles)]" and ?P = "\<lambda>h. length (snd h) \<le> 64 \<and> length (fst h) + sum_list (map length (snd h)) \<le> 4096"
    have all: "\<forall>h \<in> set ?x. ?P h" using ok False by (auto simp: hints_ok_def)
    then have "\<forall>h \<in> set (tl ?x). ?P h" using sub by blast
    moreover have "distinct (map fst ?x)" using o by auto
    ultimately show ?thesis
      using all False o(2) tl [of ?x] unfolding remember_role_hint_def hints_ok_def Let_def by simp
  qed
qed

lemma access_loop_hints:
  "hints_ok hints \<Longrightarrow> hints_ok (fst (snd (access_loop R env s t b n roles hints db)))"
  by (induction n arbitrary: roles hints db)
     (auto simp: Let_def hints_ok_remember split: prod.splits sum.splits)

lemma rbac_loop_hints:
  "hints_ok hints \<Longrightarrow> hints_ok (fst (snd (rbac_loop R env a p n roles hints db)))"
  by (induction n arbitrary: roles hints db)
     (auto simp: Let_def hints_ok_remember split: prod.splits sum.splits)

lemma set_at_sadd:
  "ks_sadd k [m] ks = (Inr (), ks') \<Longrightarrow> set_at k ks' = insert m (set_at k ks)"
  by (auto simp: ks_sadd_def set_at_def split: option.splits rvalue.splits)

section \<open>Properties\<close>

text \<open>
  C1. Authorization is exactly the policy: whatever hints the module holds and whatever other
  clients do between its reads, an answer it gives is the answer of the policy (the target
  connected, not blocked, and allowed by name, by \<open>*\<close> or by a permission of a role of the
  sender when roles are enabled) on the storage at the moment of its last read. Everything
  that is not allowed is denied, and a block overrides every grant.
\<close>

theorem authorize_decides_policy:
  assumes "redis_server R view"
    and "authorize R env rbac s t act hints db = (Inr answer, hints', db')"
  shows "answer \<longleftrightarrow> permitted rbac s t act (view db')"
  using authorize_decides [OF assms] .

definition example_acl :: keyspace where
  "example_acl = (fresh_keyspace 0)\<lparr>ks_data :=
     [sessions_key ''t'' \<mapsto> RZset [(5, ''i'')], roles_key ''s'' \<mapsto> RSet {''r''},
      perms_key ''r'' \<mapsto> RSet {''send:*''}]\<rparr>"

lemma example_acl_keys:
  "sessions_key ''t'' \<noteq> roles_key ''s''" "sessions_key ''t'' \<noteq> perms_key ''r''" "roles_key ''s'' \<noteq> perms_key ''r''"
  "blocked_key ''s'' \<notin> {sessions_key ''t'', roles_key ''s'', perms_key ''r''}"
  "allowed_key ''s'' \<notin> {sessions_key ''t'', roles_key ''s'', perms_key ''r''}"
  by (simp_all add: sessions_key_def roles_key_def perms_key_def blocked_key_def allowed_key_def)

lemma example_acl_sets:
  "set_at (roles_key ''s'') example_acl = {''r''}" "set_at (perms_key ''r'') example_acl = {''send:*''}"
  "set_at (blocked_key ''s'') example_acl = {}" "set_at (allowed_key ''s'') example_acl = {}"
  "connected ''t'' example_acl"
  using example_acl_keys by (auto simp: example_acl_def set_at_def connected_def now_ms_def)

lemma example_acl_readable: "auth_readable ''s'' ''t'' example_acl"
  unfolding auth_readable_def example_acl_sets
  using example_acl_keys by (auto simp: example_acl_def)

lemma example_acl_permitted: "permitted True ''s'' ''t'' ''send'' example_acl"
  by (simp add: permitted_def role_grants_def example_acl_sets matches_permission_def newline_def)

theorem authorize_decides_policy_witness:
  "\<exists>hints' db'. authorize ks_redis (\<lambda>_ db. db) True ''s'' ''t'' ''send'' [] example_acl = (Inr True, hints', db') \<and>
     permitted True ''s'' ''t'' ''send'' db'"
proof -
  obtain sn h db' where "access_loop ks_redis (\<lambda>_ db. db) ''s'' ''t'' True 4 [] [] example_acl = (Inr sn, h, db')"
      "db' = example_acl"
    using ref.access_loop_settles [OF example_acl_readable, of 4 True "[]" "[]"] by auto
  then have run: "authorize ks_redis (\<lambda>_ db. db) True ''s'' ''t'' ''send'' [] example_acl =
      (Inr (grants ''send:t'' sn), h, example_acl)"
    by (simp add: authorize_def read_access_def role_hint_def)
  from authorize_decides_policy [OF ref.redis_server_axioms run] example_acl_permitted show ?thesis
    using run by simp
qed

text \<open>
  C39. Availability of decisions: when no other client interferes and the storage has no key of a
  wrong type, authorization always answers, from any hints: the retry loop settles at its
  second read.
\<close>

theorem authorize_answers:
  assumes "redis_server R view" and "auth_readable s t (view db)"
  shows "fst (authorize R (\<lambda>_ db. db) rbac s t act hints db) = Inr (permitted rbac s t act (view db))"
proof -
  obtain sn h db' where "access_loop R (\<lambda>_ db. db) s t rbac 4 (role_hint hints s) hints db = (Inr sn, h, db')"
      "view db' = view db"
    using redis_server.access_loop_settles [OF assms, of 4 rbac "role_hint hints s" hints] by auto
  with redis_server.access_loop_sound [OF assms(1) this(1), of act] show ?thesis
    by (simp add: authorize_def read_access_def)
qed

theorem authorize_answers_witness:
  "fst (authorize ks_redis (\<lambda>_ db. db) True ''s'' ''t'' ''send'' [(''s'', [''old''])] example_acl) = Inr True"
  using authorize_answers [OF ref.redis_server_axioms example_acl_readable, of True "''send''" "[(''s'', [''old''])]"]
    example_acl_permitted by simp

text \<open>
  A block is final: once a target is blocked for a sender, no authorization of that sender
  grants it, whatever roles, lists and hints say and whatever other clients do short of
  removing the block.
\<close>

theorem blocked_never_authorized:
  assumes "redis_server R view" and "block_target R s t db = (Inr (), db1)"
    and "\<forall>n x. t \<in> set_at (blocked_key s) (view x) \<longrightarrow> t \<in> set_at (blocked_key s) (view (env n x))"
  shows "fst (authorize R env rbac s t act hints db1) \<noteq> Inr True"
proof
  assume grant: "fst (authorize R env rbac s t act hints db1) = Inr True"
  let ?B = "\<lambda>x. t \<in> set_at (blocked_key s) (view x)"
  have keep: "?B (snd (snd (access_loop R env s t rbac n roles h x)))" if "?B x" for n roles h x
    using that
  proof (induction n arbitrary: roles h x)
    case (Suc n)
    have "?B (snd (access_script R s t rbac roles (env n x)))"
      using Suc.prems assms(3) implements_snd [OF redis_server.access_script_impl [OF assms(1)], of s t rbac roles "env n x"]
        access_script_snd by simp
    then show ?case using Suc.IH by (auto simp: Let_def split: prod.splits sum.splits)
  qed simp
  have "?B db1"
    using implements_run [OF redis_server.administration_impl(3) [OF assms(1)] assms(2)]
    by (simp add: block_target_def set_blocked_def set_at_sadd)
  from keep [OF this, of 4 "role_hint hints s" hints]
  have "?B (snd (snd (authorize R env rbac s t act hints db1)))"
    by (auto simp: authorize_def read_access_def split: prod.splits sum.splits)
  moreover have "permitted rbac s t act (view (snd (snd (authorize R env rbac s t act hints db1))))"
    using authorize_decides [OF assms(1), of env rbac s t act hints db1 True] grant
    by (metis prod.collapse)
  ultimately show False by (simp add: permitted_def)
qed

theorem blocked_never_authorized_witness:
  "fst (authorize ks_redis (\<lambda>_ db. db) True ''s'' ''t'' ''send'' [] (snd (block_target ks_redis ''s'' ''t'' example_acl))) \<noteq> Inr True"
proof -
  have "block_target ks_redis ''s'' ''t'' example_acl = (Inr (), snd (block_target ks_redis ''s'' ''t'' example_acl))"
    using example_acl_keys by (simp add: prod_eq_iff block_target_def set_blocked_def ks_sadd_def example_acl_def)
  from blocked_never_authorized [OF ref.redis_server_axioms this] show ?thesis by simp
qed

text \<open>
  Role checks and list checks are the corresponding parts of the policy, on the storage at the
  last read.
\<close>

theorem partial_checks_decide_policy:
  assumes "redis_server R view"
    and "check_rbac R env a p hints db = (Inr x, hints1, db1)"
    and "check_acl R env s t hints db = (Inr y, hints2, db2)"
  shows "(x \<longleftrightarrow> role_grants a p (view db1)) \<and>
    (y \<longleftrightarrow> connected t (view db2) \<and> t \<notin> set_at (blocked_key s) (view db2) \<and>
      (''*'' \<in> set_at (allowed_key s) (view db2) \<or> t \<in> set_at (allowed_key s) (view db2)))"
proof -
  have "x \<longleftrightarrow> role_grants a p (view db1)"
    using redis_server.rbac_loop_sound [OF assms(1) assms(2) [unfolded check_rbac_def]] .
  moreover obtain sn where run: "access_loop R env s t False 4 (role_hint hints s) hints db = (Inr sn, hints2, db2)"
    and y: "y \<longleftrightarrow> as_accessible sn \<and> as_acl_allowed sn"
    using assms(3) by (auto simp: check_acl_def read_access_def split: prod.splits sum.splits)
  ultimately show ?thesis using redis_server.access_loop_sound [OF assms(1) run] by simp
qed

lemma example_role_reads:
  "role_permissions ks_redis (roles_key ''s'') [] [] example_acl =
     (Inr \<lparr>rs_roles = {''r''}, rs_permissions = {}, rs_unchanged = False\<rparr>, example_acl)"
  "role_permissions ks_redis (roles_key ''s'') [perms_key ''r''] [''r''] example_acl =
     (Inr \<lparr>rs_roles = {''r''}, rs_permissions = {''send:*''}, rs_unchanged = True\<rparr>, example_acl)"
proof -
  have "ks_smembers k example_acl = (Inr (set_at k example_acl), example_acl)"
    if "k = roles_key ''s'' \<or> k = perms_key ''r''" for k
    using that example_acl_readable unfolding ks_smembers_Inr auth_readable_def example_acl_sets by auto
  then show "role_permissions ks_redis (roles_key ''s'') [] [] example_acl =
     (Inr \<lparr>rs_roles = {''r''}, rs_permissions = {}, rs_unchanged = False\<rparr>, example_acl)"
  and "role_permissions ks_redis (roles_key ''s'') [perms_key ''r''] [''r''] example_acl =
     (Inr \<lparr>rs_roles = {''r''}, rs_permissions = {''send:*''}, rs_unchanged = True\<rparr>, example_acl)"
    by (simp_all add: role_permissions_def bindio_split example_acl_sets)
qed

theorem partial_checks_decide_policy_witness:
  "role_grants ''s'' ''send:t'' example_acl"
proof -
  have "check_rbac ks_redis (\<lambda>_ db. db) ''s'' ''send:t'' [] example_acl =
      (Inr True, snd (check_rbac ks_redis (\<lambda>_ db. db) ''s'' ''send:t'' [] example_acl))"
    and v: "snd (snd (check_rbac ks_redis (\<lambda>_ db. db) ''s'' ''send:t'' [] example_acl)) = example_acl"
    by (simp_all add: check_rbac_def role_hint_def numeral_eq_Suc example_role_reads Let_def
        matches_permission_def newline_def prod_eq_iff)
  then have "check_rbac ks_redis (\<lambda>_ db. db) ''s'' ''send:t'' [] example_acl =
      (Inr True, fst (snd (check_rbac ks_redis (\<lambda>_ db. db) ''s'' ''send:t'' [] example_acl)), example_acl)"
    by (metis prod.collapse)
  moreover obtain y h db' where "check_acl ks_redis (\<lambda>_ db. db) ''s'' ''t'' [] example_acl = (Inr y, h, db')"
    using ref.access_loop_settles [OF example_acl_readable, of 4 False "[]" "[]"]
    by (auto simp: check_acl_def read_access_def role_hint_def)
  ultimately show ?thesis
    using partial_checks_decide_policy [OF ref.redis_server_axioms] by blast
qed


text \<open>
  The cache of role hints stays bounded: at most 2048 agents, at most 64 roles and 4096
  characters for each, whatever decisions are made with whatever storage.
\<close>

theorem role_hints_bounded:
  "hints_ok [] \<and> (hints_ok hints \<longrightarrow>
     hints_ok (fst (snd (authorize R env rbac s t act hints db))) \<and>
     hints_ok (fst (snd (check_acl R env s t hints db))) \<and>
     hints_ok (fst (snd (check_rbac R env a p hints db))))"
proof -
  have "fst (snd (authorize R env rbac s t act hints db)) =
      fst (snd (access_loop R env s t rbac 4 (role_hint hints s) hints db))"
    by (simp add: authorize_def read_access_def split: prod.split sum.split)
  moreover have "fst (snd (check_acl R env s t hints db)) =
      fst (snd (access_loop R env s t False 4 (role_hint hints s) hints db))"
    by (simp add: check_acl_def read_access_def split: prod.split sum.split)
  ultimately show ?thesis
    by (simp add: check_rbac_def access_loop_hints rbac_loop_hints hints_ok_def [of "[]"])
qed

theorem role_hints_bounded_witness:
  "hints_ok (fst (snd (authorize ks_redis (\<lambda>_ db. db) True ''s'' ''t'' ''send'' [] (fresh_keyspace 0))))"
  using role_hints_bounded [of "[]" ks_redis "\<lambda>_ db. db" True "''s''" "''t''" "''send''" "fresh_keyspace 0"] by blast

end
