(* ===== verification/Wire_Text.thy ===== *)
theory Wire_Text
  imports Prelude
begin

text \<open>
  The messages of \<open>packages/mas-core/src/mas_core/protocol.py\<close>, and their text. JSON is written
  and read by pydantic, Python's \<open>json\<close> and the cjson library inside Redis, and SHA-256 by
  OpenSSL: the conversions are a parameter, the record \<open>wire\<close>, of which the code relies on
  the round trips of the locale \<open>wire_codec\<close>.
\<close>

section \<open>Messages\<close>

datatype json =
    JNull
  | JBool bool
  | JInt int
  | JFloat real
  | JStr string
  | JList "json list"
  | JObj "(string \<times> json) list"

record message_meta =
  meta_version :: int
  correlation_id :: "string option"
  expects_reply :: bool
  is_reply :: bool
  sender_instance_id :: "string option"
  reply_to_instance_id :: "string option"
  traceparent :: "string option"
  tracestate :: "string option"

definition default_meta :: message_meta where
  "default_meta = \<lparr>meta_version = 1, correlation_id = None, expects_reply = False, is_reply = False,
     sender_instance_id = None, reply_to_instance_id = None, traceparent = None, tracestate = None\<rparr>"

record envelope =
  sender_id :: string
  target_id :: string
  message_type :: string
  env_data :: "(string \<times> json) list"
  env_meta :: message_meta
  env_timestamp :: real
  message_id :: string

text \<open>\<open>not s\<close> of an optional string, and \<open>s or ""\<close>.\<close>

definition absent :: "string option \<Rightarrow> bool" where
  "absent s \<longleftrightarrow> s = None \<or> s = Some []"

definition or_empty :: "string option \<Rightarrow> string" where
  "or_empty s = (case s of None \<Rightarrow> [] | Some t \<Rightarrow> t)"

section \<open>Text\<close>

record reply_receipt =
  receipt_sender :: string
  receipt_fingerprint :: string
  receipt_message :: string

record wire =
  dump_envelope :: "envelope \<Rightarrow> string"
  load_envelope :: "string \<Rightarrow> envelope option"
  dump_receipt :: "reply_receipt \<Rightarrow> string"
  load_receipt :: "string \<Rightarrow> reply_receipt option"
  dump_strings :: "string list \<Rightarrow> string"
  load_strings :: "string \<Rightarrow> string list option"
  sha256 :: "string \<Rightarrow> string"

text \<open>
  \<open>load_receipt\<close> is the Lua side: it accepts a JSON object whose three fields are strings and
  whose message identifier is not empty. \<open>load_strings\<close> accepts an array of strings.
\<close>

locale wire_codec =
  fixes W :: wire
  assumes receipt_roundtrip: "receipt_message r \<noteq> [] \<Longrightarrow> load_receipt W (dump_receipt W r) = Some r"
    and strings_roundtrip: "load_strings W (dump_strings W xs) = Some xs"

section \<open>A JSON writer and reader for strings\<close>

definition quote_char :: char where
  "quote_char = CHR 0x22"

definition escape_char :: char where
  "escape_char = CHR 0x5C"

primrec escape :: "string \<Rightarrow> string" where
  "escape [] = []"
| "escape (c # cs) =
     (if c = quote_char \<or> c = escape_char then [escape_char, c] else [c]) @ escape cs"

definition quoted :: "string \<Rightarrow> string" where
  "quoted s = quote_char # escape s @ [quote_char]"

fun read_body :: "string \<Rightarrow> (string \<times> string) option" where
  "read_body [] = None"
| "read_body (c # cs) =
     (if c = quote_char then Some ([], cs)
      else if c = escape_char then
        (case cs of [] \<Rightarrow> None | d # ds \<Rightarrow> map_option (\<lambda>(s, r). (d # s, r)) (read_body ds))
      else map_option (\<lambda>(s, r). (c # s, r)) (read_body cs))"

fun read_quoted :: "string \<Rightarrow> (string \<times> string) option" where
  "read_quoted [] = None"
| "read_quoted (c # cs) = (if c = quote_char then read_body cs else None)"

fun write_items :: "string list \<Rightarrow> string" where
  "write_items [] = []"
| "write_items [x] = quoted x"
| "write_items (x # y # ys) = quoted x @ '','' @ write_items (y # ys)"

definition write_strings :: "string list \<Rightarrow> string" where
  "write_strings xs = ''['' @ write_items xs @ '']''"

text \<open>At most as many items as the text has characters.\<close>

primrec read_items :: "nat \<Rightarrow> string \<Rightarrow> string list option" where
  "read_items 0 s = None"
| "read_items (Suc n) s =
     (case read_quoted s of
        None \<Rightarrow> None
      | Some (x, r) \<Rightarrow>
          if r = '']'' then Some [x]
          else if take 1 r = '','' then map_option (\<lambda>xs. x # xs) (read_items n (drop 1 r))
          else None)"

definition read_strings :: "string \<Rightarrow> string list option" where
  "read_strings s =
     (if s = ''[]'' then Some []
      else if take 1 s = ''['' then read_items (length s) (drop 1 s) else None)"

definition expect :: "string \<Rightarrow> string \<Rightarrow> string option" where
  "expect p s = (if has_prefix p s then Some (drop (length p) s) else None)"

definition key_text :: "string \<Rightarrow> string" where
  "key_text k = quoted k @ '':''"

definition write_receipt :: "reply_receipt \<Rightarrow> string" where
  "write_receipt r = ''{'' @ key_text ''sender_id'' @ quoted (receipt_sender r) @ '','' @
     key_text ''fingerprint'' @ quoted (receipt_fingerprint r) @ '','' @
     key_text ''message_id'' @ quoted (receipt_message r) @ ''}''"

definition read_member :: "string \<Rightarrow> string \<Rightarrow> (string \<times> string) option" where
  "read_member k s = (case expect (key_text k) s of None \<Rightarrow> None | Some r \<Rightarrow> read_quoted r)"

definition read_receipt :: "string \<Rightarrow> reply_receipt option" where
  "read_receipt s =
     (case expect ''{'' s of None \<Rightarrow> None | Some a \<Rightarrow>
     (case read_member ''sender_id'' a of None \<Rightarrow> None | Some (sender, b) \<Rightarrow>
     (case expect '','' b of None \<Rightarrow> None | Some c \<Rightarrow>
     (case read_member ''fingerprint'' c of None \<Rightarrow> None | Some (fp, d) \<Rightarrow>
     (case expect '','' d of None \<Rightarrow> None | Some e \<Rightarrow>
     (case read_member ''message_id'' e of None \<Rightarrow> None | Some (mid, f) \<Rightarrow>
       if f = ''}'' \<and> mid \<noteq> []
       then Some \<lparr>receipt_sender = sender, receipt_fingerprint = fp, receipt_message = mid\<rparr>
       else None))))))"

text \<open>Strings and receipts as JSON; envelopes and hashes are not read back by the modelled code.\<close>

definition json_wire :: wire where
  "json_wire = \<lparr>dump_envelope = (\<lambda>m. quoted (message_id m)), load_envelope = (\<lambda>_. None),
     dump_receipt = write_receipt, load_receipt = read_receipt,
     dump_strings = write_strings, load_strings = read_strings, sha256 = (\<lambda>s. s)\<rparr>"

lemma read_body_escape: "read_body (escape s @ quote_char # r) = Some (s, r)"
  by (induction s) (auto simp: quote_char_def escape_char_def)

lemma read_quoted_quoted [simp]: "read_quoted (quoted s @ r) = Some (s, r)"
  by (simp add: quoted_def read_body_escape)

lemma expect_append [simp]: "expect p (p @ r) = Some r"
  by (simp add: expect_def)

lemma read_member_write [simp]: "read_member k (key_text k @ quoted s @ r) = Some (s, r)"
  by (simp add: read_member_def)

lemma read_receipt_write: "receipt_message r \<noteq> [] \<Longrightarrow> read_receipt (write_receipt r) = Some r"
  unfolding read_receipt_def write_receipt_def by (simp del: append_Cons)

lemma read_items_write: "xs \<noteq> [] \<Longrightarrow> length xs \<le> n \<Longrightarrow> read_items n (write_items xs @ '']'') = Some xs"
proof (induction xs arbitrary: n rule: write_items.induct)
  case (2 x)
  then show ?case by (cases n) simp_all
next
  case (3 x y ys)
  then show ?case by (cases n) simp_all
qed simp

lemma length_write_items: "length xs \<le> length (write_items xs)"
  by (induction xs rule: write_items.induct) (auto simp: quoted_def)

lemma write_items_quote: "xs \<noteq> [] \<Longrightarrow> \<exists>r. write_items xs = quote_char # r"
  by (induction xs rule: write_items.induct) (auto simp: quoted_def)

lemma read_strings_write: "read_strings (write_strings xs) = Some xs"
proof (cases "xs = []")
  case False
  then obtain r where "write_items xs = quote_char # r" using write_items_quote by blast
  then have "write_strings xs \<noteq> ''[]''" by (simp add: write_strings_def quote_char_def)
  moreover have "length xs \<le> length (write_strings xs)"
    using length_write_items [of xs] by (simp add: write_strings_def)
  ultimately show ?thesis
    using False by (simp add: read_strings_def write_strings_def read_items_write del: read_items.simps)
qed (simp add: read_strings_def write_strings_def)

interpretation json_codec: wire_codec json_wire
  by unfold_locales (simp_all add: json_wire_def read_receipt_write read_strings_write)

end
