(* ===== verification/Routing.thy ===== *)
theory Routing
  imports Durability Session_Lease Wire_Text
begin

text \<open>
  \<open>packages/mas-server/src/mas_server/routing.py\<close>: where a message is written, how a reply is
  committed once, and how a delivery ends in the dead-letter queue.
\<close>

section \<open>Data\<close>

definition is_hex64 :: "string \<Rightarrow> bool" where
  "is_hex64 s \<longleftrightarrow> length s = 64 \<and> list_all (\<lambda>c. is_digit c \<or> c \<in> set ''abcdef'') s"

definition reply_receipt_ok :: "reply_receipt \<Rightarrow> bool" where
  "reply_receipt_ok r \<longleftrightarrow> receipt_sender r \<noteq> [] \<and> is_hex64 (receipt_fingerprint r) \<and> receipt_message r \<noteq> []"

record correlation_commit =
  expected_value :: string
  commit_fingerprint :: string
  commit_expires_at :: real

record inflight_delivery =
  inf_stream :: string
  inf_group :: string
  inf_entry :: sid
  inf_envelope :: string
  inf_received_at :: real
  inf_attempt :: int
  inf_consumer :: string

record delivery_commit =
  commit_inflight :: inflight_delivery
  commit_lease :: session_lease

record router =
  router_dlq_enabled :: bool
  router_durability :: durability_settings

definition shared_stream :: "string \<Rightarrow> string" where
  "shared_stream agent_id = ''agent.stream:'' @ agent_id"

definition instance_stream :: "string \<Rightarrow> string \<Rightarrow> string" where
  "instance_stream agent_id instance_id = ''agent.stream:'' @ agent_id @ '':'' @ instance_id"

definition pending_request_key :: "string \<Rightarrow> string" where
  "pending_request_key cid = ''mas.pending_request:'' @ cid"

definition reply_receipt_key :: "string \<Rightarrow> string" where
  "reply_receipt_key cid = ''mas.reply_receipt:'' @ cid"

definition dlq_key :: string where
  "dlq_key = ''dlq:messages''"

text \<open>\<open>int(x)\<close> of a float\<close>

definition truncate_real :: "real \<Rightarrow> int" where
  "truncate_real x = (if 0 \<le> x then \<lfloor>x\<rfloor> else \<lceil>x\<rceil>)"

section \<open>Lua scripts\<close>

text \<open>The delivery is the caller's: it holds the lease and the entry is pending for it.\<close>

definition owns_delivery :: "'db redis \<Rightarrow> string \<Rightarrow> string \<Rightarrow> string \<Rightarrow> sid \<Rightarrow> string \<Rightarrow> string \<Rightarrow> ('db, bool) io" where
  "owns_delivery R stream lease_key grp entry consumer owner =
     bindio (GET R lease_key) (\<lambda>current.
     if current \<noteq> Some owner then ret False
     else bindio (XPENDING1 R stream grp entry) (\<lambda>pending. ret (pending = Some consumer)))"

definition pairs_of :: "string list \<Rightarrow> (string \<times> string) list" where
  "pairs_of xs = map (\<lambda>i. (xs ! (2 * i), xs ! (2 * i + 1))) [0 ..< length xs div 2]"

definition commit_delivery_script :: "wire \<Rightarrow> 'db redis \<Rightarrow> string \<Rightarrow> string \<Rightarrow> string \<Rightarrow> string \<Rightarrow> sid \<Rightarrow>
    string \<Rightarrow> string \<Rightarrow> bool \<Rightarrow> string \<Rightarrow> ('db, reply) io" where
  "commit_delivery_script W R stream lease_key dlq grp entry consumer owner enabled fields_json =
     bindio (owns_delivery R stream lease_key grp entry consumer owner) (\<lambda>mine.
     if \<not> mine then ret (IntReply 0)
     else
       seqio (if enabled then
           bindio (TYPE_OF R dlq) (\<lambda>kind.
           if kind \<noteq> TNone \<and> kind \<noteq> TStream then raise (RedisError ''invalid_dlq_stream_type'')
           else (case load_strings W fields_json of
               None \<Rightarrow> raise (RedisError ''invalid_dlq_fields'')
             | Some flds \<Rightarrow>
                 if flds = [] \<or> odd (length flds) then raise (RedisError ''invalid_dlq_fields'')
                 else seqio (XADD R dlq (pairs_of flds)) (ret ())))
         else ret ())
       (seqio (XACK R stream grp entry)
       (seqio (XDEL R stream entry) (ret (IntReply 1)))))"

definition string_typed :: "rtype \<Rightarrow> bool" where
  "string_typed t \<longleftrightarrow> t = TNone \<or> t = TString"

text \<open>The completed reply of a receipt, if sender and fingerprint match it; its expiry is kept.\<close>

definition replay_receipt :: "wire \<Rightarrow> 'db redis \<Rightarrow> string \<Rightarrow> string \<Rightarrow> string \<Rightarrow> string \<Rightarrow> ('db, string option) io" where
  "replay_receipt W R receipt_key completed sender fingerprint =
     (case load_receipt W completed of
        None \<Rightarrow> raise (RedisError ''invalid_reply_receipt'')
      | Some receipt \<Rightarrow>
          if receipt_sender receipt \<noteq> sender \<or> receipt_fingerprint receipt \<noteq> fingerprint then ret None
          else seqio (SET_KEEPTTL R receipt_key completed) (ret (Some (receipt_message receipt))))"

definition commit_reply_script :: "wire \<Rightarrow> 'db redis \<Rightarrow> string \<Rightarrow> string \<Rightarrow> string \<Rightarrow> string \<Rightarrow> string \<Rightarrow> string \<Rightarrow>
    string \<Rightarrow> string \<Rightarrow> int \<Rightarrow> ('db, string option) io" where
  "commit_reply_script W R pending_key stream_key receipt_key expected envelope_json receipt_json
     sender fingerprint deadline =
     bindio (TYPE_OF R receipt_key) (\<lambda>receipt_type.
     if \<not> string_typed receipt_type then raise (RedisError ''invalid_reply_receipt_type'')
     else bindio (GET R receipt_key) (\<lambda>completed.
     case completed of
       Some text \<Rightarrow> replay_receipt W R receipt_key text sender fingerprint
     | None \<Rightarrow>
         bindio (TYPE_OF R pending_key) (\<lambda>pending_type.
         if \<not> string_typed pending_type then raise (RedisError ''invalid_correlation_type'')
         else bindio (GET R pending_key) (\<lambda>current.
         if current \<noteq> Some expected then ret None
         else bindio (PTTL R pending_key) (\<lambda>ttl.
         bindio (TIME R) (\<lambda>now.
         let remaining = min ttl (deadline - int (fst now * 1000 + snd now div 1000)) in
         if remaining \<le> 0 then ret None
         else bindio (TYPE_OF R stream_key) (\<lambda>stream_type.
         if stream_type \<noteq> TNone \<and> stream_type \<noteq> TStream
         then raise (RedisError ''invalid_reply_stream_type'')
         else (case load_receipt W receipt_json of
             None \<Rightarrow> raise (RedisError ''invalid_reply_receipt'')
           | Some receipt \<Rightarrow>
               seqio (XADD R stream_key [(''envelope'', envelope_json)])
               (seqio (SET_PX R receipt_key receipt_json remaining)
               (seqio (DEL R [pending_key]) (ret (Some (receipt_message receipt)))))))))))))"

definition replay_reply_script :: "wire \<Rightarrow> 'db redis \<Rightarrow> string \<Rightarrow> string \<Rightarrow> string \<Rightarrow> ('db, string option) io" where
  "replay_reply_script W R receipt_key sender fingerprint =
     bindio (TYPE_OF R receipt_key) (\<lambda>receipt_type.
     if \<not> string_typed receipt_type then raise (RedisError ''invalid_reply_receipt_type'')
     else bindio (GET R receipt_key) (\<lambda>completed.
     case completed of
       None \<Rightarrow> ret None
     | Some text \<Rightarrow> replay_receipt W R receipt_key text sender fingerprint))"

section \<open>MessageRouter\<close>

definition make_stream_append :: "string \<Rightarrow> (string \<times> string) list \<Rightarrow> err + stream_append" where
  "make_stream_append stream flds =
     (let a = \<lparr>append_stream = stream, append_fields = flds\<rparr> in
      case stream_append_post_init a of Inl e \<Rightarrow> Inl e | Inr _ \<Rightarrow> Inr a)"

definition prepare_stream_append :: "wire \<Rightarrow> envelope \<Rightarrow> err + stream_append" where
  "prepare_stream_append W m =
     (if is_reply (env_meta m) then
        (case reply_to_instance_id (env_meta m) of
           Some (c # cs) \<Rightarrow>
             make_stream_append (instance_stream (target_id m) (c # cs)) [(''envelope'', dump_envelope W m)]
         | _ \<Rightarrow> Inl (InvalidArgumentError ''missing_reply_to_instance_id''))
      else make_stream_append (shared_stream (target_id m)) [(''envelope'', dump_envelope W m)])"

definition sid_reply :: "sid \<Rightarrow> reply" where
  "sid_reply i = BulkReply (show_nat (fst i) @ ''-'' @ show_nat (snd i))"

definition queued_xadd :: "'db redis \<Rightarrow> string \<Rightarrow> (string \<times> string) list \<Rightarrow> ('db, reply) io" where
  "queued_xadd R stream flds = bindio (XADD R stream flds) (\<lambda>i. ret (sid_reply i))"

definition one_command :: "('db, reply) io \<Rightarrow> 'db pipe" where
  "one_command cmd = \<lparr>is_transaction = False, explicit_transaction = False, watching = False, command_stack = [cmd]\<rparr>"

definition route_message :: "wire \<Rightarrow> 'db redis \<Rightarrow> router \<Rightarrow> envelope \<Rightarrow> ('db, unit) io" where
  "route_message W R rt m =
     bindio (of_result (prepare_stream_append W m)) (\<lambda>append.
     seqio (durable_execute R (router_durability rt)
              (one_command (queued_xadd R (append_stream append) (append_fields append))))
           (ret ()))"

definition commit_reply :: "wire \<Rightarrow> 'db redis \<Rightarrow> router \<Rightarrow> envelope \<Rightarrow> correlation_commit \<Rightarrow> ('db, string) io" where
  "commit_reply W R rt m c =
     (let meta = env_meta m; cid = or_empty (correlation_id meta); iid = or_empty (reply_to_instance_id meta);
          receipt = \<lparr>receipt_sender = sender_id m, receipt_fingerprint = commit_fingerprint c,
                     receipt_message = message_id m\<rparr> in
      if \<not> is_reply meta \<or> cid = [] \<or> iid = [] then raise (InvalidArgumentError ''invalid_reply_envelope'')
      else if \<not> reply_receipt_ok receipt then raise ValidationError
      else bindio (commit_reply_script W R (pending_request_key cid) (instance_stream (target_id m) iid)
               (reply_receipt_key cid) (expected_value c) (dump_envelope W m) (dump_receipt W receipt)
               (sender_id m) (commit_fingerprint c) (truncate_real (commit_expires_at c * 1000))) (\<lambda>result.
      case result of
        None \<Rightarrow> raise (InvalidArgumentError ''unknown_or_completed_correlation_id'')
      | Some mid \<Rightarrow> seqio (confirm R (router_durability rt)) (ret mid)))"

definition replay_reply :: "wire \<Rightarrow> 'db redis \<Rightarrow> router \<Rightarrow> string \<Rightarrow> string \<Rightarrow> string \<Rightarrow> ('db, string option) io" where
  "replay_reply W R rt cid sender fingerprint =
     bindio (replay_reply_script W R (reply_receipt_key cid) sender fingerprint) (\<lambda>result.
     case result of
       None \<Rightarrow> ret None
     | Some mid \<Rightarrow> seqio (confirm R (router_durability rt)) (ret (Some mid)))"

text \<open>\<open>stamp\<close> is the text of the clock.\<close>

definition dlq_fields :: "wire \<Rightarrow> string \<Rightarrow> string \<Rightarrow> string \<Rightarrow> (string \<times> string) list" where
  "dlq_fields W envelope_json reason stamp =
     (let (mid, sender, inst, target, kind) =
        (case load_envelope W envelope_json of
           None \<Rightarrow> ([], [], [], [], [])
         | Some m \<Rightarrow> (message_id m, sender_id m, or_empty (sender_instance_id (env_meta m)),
                       target_id m, message_type m)) in
      [(''message_id'', mid), (''sender_id'', sender), (''sender_instance_id'', inst),
       (''target_id'', target), (''message_type'', kind), (''decision'', ''DLQ''),
       (''reason'', reason), (''envelope_hash'', sha256 W envelope_json),
       (''timestamp'', stamp), (''envelope'', envelope_json)])"

definition flatten_pairs :: "(string \<times> string) list \<Rightarrow> string list" where
  "flatten_pairs ps = concat (map (\<lambda>p. [fst p, snd p]) ps)"

definition dlq_command :: "wire \<Rightarrow> 'db redis \<Rightarrow> router \<Rightarrow> (string \<times> string) list \<Rightarrow> delivery_commit option \<Rightarrow> ('db, reply) io" where
  "dlq_command W R rt flds delivery =
     (case delivery of
        None \<Rightarrow> queued_xadd R dlq_key flds
      | Some d \<Rightarrow>
          commit_delivery_script W R (inf_stream (commit_inflight d))
            (session_key (lease_agent_id (commit_lease d)) (lease_instance_id (commit_lease d)))
            dlq_key (inf_group (commit_inflight d)) (inf_entry (commit_inflight d))
            (inf_consumer (commit_inflight d)) (lease_owner (commit_lease d))
            (router_dlq_enabled rt) (dump_strings W (flatten_pairs flds)))"

definition write_dlq :: "wire \<Rightarrow> 'db redis \<Rightarrow> router \<Rightarrow> string \<Rightarrow> string \<Rightarrow> string \<Rightarrow> delivery_commit option \<Rightarrow> ('db, bool) io" where
  "write_dlq W R rt stamp envelope_json reason delivery =
     (if \<not> router_dlq_enabled rt \<and> delivery = None then ret True
      else catchio
        (bindio (durable_execute R (router_durability rt)
                   (one_command (dlq_command W R rt (dlq_fields W envelope_json reason stamp) delivery)))
          (\<lambda>replies.
           if delivery = None then ret True
           else (case replies of
               [] \<Rightarrow> raise IndexError
             | r # _ \<Rightarrow> (case int_of_reply r of
                 None \<Rightarrow> raise ValidationError
               | Some completed \<Rightarrow> ret (completed = 1)))))
        (\<lambda>e. if delivery \<noteq> None then raise e else ret False))"

section \<open>Histories of replies\<close>

text \<open>
  What brokers do to correlations: register the request of a correlation, route messages,
  commit and replay replies, or let time pass.
\<close>

datatype reply_op =
    RegisterRequest string string int
  | RouteMessage envelope
  | CommitReply envelope correlation_commit
  | ReplayReply string string string
  | PassTime nat

fun run_reply_op :: "wire \<Rightarrow> 'db redis \<Rightarrow> (nat \<Rightarrow> 'db \<Rightarrow> 'db) \<Rightarrow> router \<Rightarrow> reply_op \<Rightarrow> 'db \<Rightarrow> 'db" where
  "run_reply_op W R elapse rt (RegisterRequest cid v px) db = snd (SET_PX R (pending_request_key cid) v px db)"
| "run_reply_op W R elapse rt (RouteMessage m) db = snd (route_message W R rt m db)"
| "run_reply_op W R elapse rt (CommitReply m c) db = snd (commit_reply W R rt m c db)"
| "run_reply_op W R elapse rt (ReplayReply cid s f) db = snd (replay_reply W R rt cid s f db)"
| "run_reply_op W R elapse rt (PassTime d) db = elapse d db"

definition run_reply_ops :: "wire \<Rightarrow> 'db redis \<Rightarrow> (nat \<Rightarrow> 'db \<Rightarrow> 'db) \<Rightarrow> router \<Rightarrow> reply_op list \<Rightarrow> 'db \<Rightarrow> 'db" where
  "run_reply_ops W R elapse rt ops db = fold (run_reply_op W R elapse rt) ops db"

fun registers :: "string \<Rightarrow> reply_op \<Rightarrow> bool" where
  "registers cid (RegisterRequest c v px) = (c = cid)"
| "registers cid _ = False"

section \<open>On any server\<close>

lemma pairs_of_Cons2: "pairs_of (x # y # zs) = (x, y) # pairs_of zs"
proof -
  have "[0 ..< Suc (length zs div 2)] = 0 # map Suc [0 ..< length zs div 2]"
    by (simp add: upt_conv_Cons map_Suc_upt del: upt_Suc)
  then show ?thesis by (simp add: pairs_of_def del: upt_Suc)
qed

lemma pairs_of_flatten: "pairs_of (flatten_pairs ps) = ps"
proof (induction ps)
  case (Cons p ps)
  have "flatten_pairs (p # ps) = fst p # snd p # flatten_pairs ps" by (simp add: flatten_pairs_def)
  with Cons show ?case by (simp add: pairs_of_Cons2)
qed (simp add: flatten_pairs_def pairs_of_def)

lemma implements_let [implements_intros]:
  "implements view (f x) (F x) \<Longrightarrow> implements view (let y = x in f y) (let y = x in F y)"
  by simp

context redis_server
begin

lemma owns_delivery_impl [implements_intros]:
  "implements view (owns_delivery R s k g i c u) (owns_delivery ks_redis s k g i c u)"
  by (auto simp: owns_delivery_def intro!: implements_intros)

lemma commit_delivery_script_impl [implements_intros]:
  "implements view (commit_delivery_script W R s k q g i c u b f) (commit_delivery_script W ks_redis s k q g i c u b f)"
  by (auto simp: commit_delivery_script_def intro!: implements_intros)

lemma replay_receipt_impl [implements_intros]:
  "implements view (replay_receipt W R k t s f) (replay_receipt W ks_redis k t s f)"
  by (auto simp: replay_receipt_def intro!: implements_intros)

lemma commit_reply_script_impl [implements_intros]:
  "implements view (commit_reply_script W R p s r e j rj sd f d) (commit_reply_script W ks_redis p s r e j rj sd f d)"
  by (auto simp: commit_reply_script_def Let_def intro!: implements_intros)

lemma replay_reply_script_impl [implements_intros]:
  "implements view (replay_reply_script W R k s f) (replay_reply_script W ks_redis k s f)"
  by (auto simp: replay_reply_script_def intro!: implements_intros)

lemma commit_reply_impl [implements_intros]:
  "implements view (commit_reply W R rt m c) (commit_reply W ks_redis rt m c)"
  by (auto simp: commit_reply_def Let_def intro!: implements_intros)

lemma replay_reply_impl [implements_intros]:
  "implements view (replay_reply W R rt cid s f) (replay_reply W ks_redis rt cid s f)"
  by (auto simp: replay_reply_def intro!: implements_intros)

lemma queued_xadd_impl [implements_intros]:
  "implements view (queued_xadd R k fs) (queued_xadd ks_redis k fs)"
  by (auto simp: queued_xadd_def intro!: implements_intros)

lemma dlq_command_impl [implements_intros]:
  "implements view (dlq_command W R rt fs d) (dlq_command W ks_redis rt fs d)"
  by (auto simp: dlq_command_def intro!: implements_intros)

lemma durable_execute_impl:
  assumes "implements view cmd CMD"
  shows "implements view (durable_execute R s (one_command cmd)) (durable_execute ks_redis s (one_command CMD))"
proof -
  have "list_all2 (implements view) (cmd # (if durability_enabled s then [barrier R s] else []))
      (CMD # (if durability_enabled s then [barrier ks_redis s] else []))"
    using assms by (simp add: barrier_impl)
  then have "implements view (pipeline_execute R (cmd # (if durability_enabled s then [barrier R s] else [])))
      (pipeline_execute ks_redis (CMD # (if durability_enabled s then [barrier ks_redis s] else [])))"
    unfolding pipeline_execute_def ks_redis_sel by (intro implements_intros pipeline)
  then show ?thesis
    unfolding durable_execute_def one_command_def Let_def
    by (auto intro!: implements_intros)
qed

lemma route_message_impl [implements_intros]:
  "implements view (route_message W R rt m) (route_message W ks_redis rt m)"
  unfolding route_message_def by (intro implements_intros durable_execute_impl)

lemma write_dlq_impl [implements_intros]:
  "implements view (write_dlq W R rt st j r d) (write_dlq W ks_redis rt st j r d)"
  unfolding write_dlq_def
  by (auto intro!: implements_intros durable_execute_impl split: list.splits)

end

section \<open>Committing a reply\<close>

lemma routing_keys_apart [simp]:
  "pending_request_key c \<noteq> instance_stream a i" "instance_stream a i \<noteq> pending_request_key c"
  "pending_request_key c \<noteq> shared_stream a" "shared_stream a \<noteq> pending_request_key c"
  "pending_request_key c \<noteq> reply_receipt_key d" "reply_receipt_key d \<noteq> pending_request_key c"
  "reply_receipt_key d \<noteq> instance_stream a i" "instance_stream a i \<noteq> reply_receipt_key d"
  "reply_receipt_key d \<noteq> shared_stream a" "shared_stream a \<noteq> reply_receipt_key d"
  "pending_request_key c = pending_request_key d \<longleftrightarrow> c = d" "reply_receipt_key c = reply_receipt_key d \<longleftrightarrow> c = d"
  by (simp_all add: pending_request_key_def instance_stream_def shared_stream_def reply_receipt_key_def)

lemma ks_put_same [simp]: "ks_data ks k = Some v \<Longrightarrow> ks_put k v ks = ks"
  by (simp add: ks_put_def fun_upd_idem)

lemma replay_receipt_ks:
  assumes "ks_data ks k = Some (RString t)"
  shows "replay_receipt W ks_redis k t s f ks =
    (case load_receipt W t of
       None \<Rightarrow> Inl (RedisError ''invalid_reply_receipt'')
     | Some r \<Rightarrow> Inr (if receipt_sender r = s \<and> receipt_fingerprint r = f then Some (receipt_message r) else None), ks)"
  using assms by (auto simp: replay_receipt_def io_simps ks_set_keepttl_def split: option.splits)

text \<open>The state in which a new reply is committed, and the one it leaves.\<close>

definition committable :: "string \<Rightarrow> string \<Rightarrow> string \<Rightarrow> int \<Rightarrow> keyspace \<Rightarrow> int \<Rightarrow> bool" where
  "committable p r e dl ks remaining \<longleftrightarrow>
     ks_data ks r = None \<and> ks_data ks p = Some (RString e) \<and> 0 < remaining \<and>
     (\<exists>t. ks_ttl ks p = Some t \<and> remaining = min (int t - int (now_ms ks)) (dl - int (now_ms ks)))"

definition committed :: "string \<Rightarrow> string \<Rightarrow> string \<Rightarrow> string \<Rightarrow> string \<Rightarrow> int \<Rightarrow> stream \<Rightarrow> sid \<Rightarrow> keyspace \<Rightarrow> keyspace" where
  "committed p s r j rj remaining st i ks =
     ks_remove p (ks_deadline r (Some (now_ms ks + nat remaining)) (ks_put r (RString rj)
       (ks_put s (RStream (st\<lparr>st_entries := st_entries st @ [(i, [(''envelope'', j)])], st_last := i\<rparr>)) ks)))"

lemma script_now: "int (ks_now ks div 1000000) * 1000 + int (ks_now ks mod 1000000 div 1000) = int (now_ms ks)"
proof -
  have "ks_now ks div 1000 = (ks_now ks div 1000000 * 1000000 + ks_now ks mod 1000000) div 1000" by simp
  also have "\<dots> = ks_now ks div 1000000 * 1000 + ks_now ks mod 1000000 div 1000" by linarith
  finally have "int (now_ms ks) = int (ks_now ks div 1000000 * 1000 + ks_now ks mod 1000000 div 1000)"
    by (simp only: now_ms_def)
  then show ?thesis by (simp only: of_nat_add of_nat_mult of_nat_numeral)
qed

lemma commit_reply_script_cases:
  assumes run: "commit_reply_script W ks_redis p s r e j rj sd f dl ks = (out, ks')"
    and neq: "p \<noteq> s" "p \<noteq> r" "s \<noteq> r"
  obtains (idle) "ks' = ks" "\<forall>x. out \<noteq> Inr (Some x)"
    | (replay) t rc where "ks' = ks" "ks_data ks r = Some (RString t)" "load_receipt W t = Some rc"
        "receipt_sender rc = sd" "receipt_fingerprint rc = f" "out = Inr (Some (receipt_message rc))"
    | (new) rc st i remaining where "committable p r e dl ks remaining" "load_receipt W rj = Some rc"
        "out = Inr (Some (receipt_message rc))" "ks_stream s ks = Inr st" "next_id (now_ms ks) (st_last st) = Some i"
        "ks' = committed p s r j rj remaining st i ks"
proof (cases "ks_data ks r")
  case (Some v)
  then have "(ks' = ks \<and> (\<forall>x. out \<noteq> Inr (Some x))) \<or>
      (\<exists>t rc. ks' = ks \<and> ks_data ks r = Some (RString t) \<and> load_receipt W t = Some rc \<and>
        receipt_sender rc = sd \<and> receipt_fingerprint rc = f \<and> out = Inr (Some (receipt_message rc)))"
    using run
    by (cases v) (auto simp: commit_reply_script_def io_simps ks_read_defs string_typed_def replay_receipt_ks
        split: option.splits if_splits)
  then show ?thesis using idle replay by blast
next
  case rnone: None
  let ?ttl = "case ks_ttl ks p of None \<Rightarrow> - 1 | Some d \<Rightarrow> int d - int (now_ms ks)"
  define remaining where "remaining = min ?ttl (dl - int (now_ms ks))"
  show ?thesis
  proof (cases "ks_data ks p = Some (RString e) \<and> 0 < remaining \<and> (\<exists>st. ks_stream s ks = Inr st)")
    case False
    then show ?thesis
      using run idle rnone
      by (auto simp: commit_reply_script_def io_simps ks_read_defs string_typed_def script_now Let_def
          remaining_def ks_stream_def split: option.splits if_splits rvalue.splits)
  next
    case True
    then obtain st where st: "ks_stream s ks = Inr st" by blast
    have tp: "type_of_value (ks_data ks s) \<in> {TNone, TStream}"
      using st by (auto simp: ks_stream_def split: option.splits rvalue.splits)
    have rem: "committable p r e dl ks remaining"
      using True rnone by (auto simp: committable_def remaining_def split: option.splits)
    have tail: "(case load_receipt W rj of
             None \<Rightarrow> raise (RedisError ''invalid_reply_receipt'')
           | Some receipt \<Rightarrow>
               seqio (ks_xadd s [(''envelope'', j)])
               (seqio (ks_set_px r rj remaining)
               (seqio (ks_del [p]) (ret (Some (receipt_message receipt)))))) ks = (out, ks')"
      using run rnone True tp
      by (auto simp: commit_reply_script_def io_simps ks_read_defs string_typed_def script_now Let_def
          remaining_def split: option.splits if_splits)
    show ?thesis
    proof (cases "load_receipt W rj")
      case None
      with tail idle show ?thesis by auto
    next
      case (Some rc)
      show ?thesis
      proof (cases "next_id (now_ms ks) (st_last st)")
        case None
        with tail Some st idle show ?thesis by (auto simp: seqio_split ks_xadd_def)
      next
        case i: (Some i)
        with tail Some st True have "out = Inr (Some (receipt_message rc))"
            "ks' = committed p s r j rj remaining st i ks"
          by (auto simp: seqio_split ks_xadd_def ks_set_px_def ks_del_def committed_def)
        with new rem Some st i show ?thesis by blast
      qed
    qed
  qed
qed

lemma commit_reply_cases:
  assumes "commit_reply W ks_redis rt m c ks = (out, ks')"
  obtains (unchanged) "ks' = ks" "\<forall>x cid. out = Inr x \<longrightarrow> correlation_id (env_meta m) = Some cid \<longrightarrow>
        ks_data ks (reply_receipt_key cid) \<noteq> None"
    | (new) rc0 cid iid rc st i remaining where "correlation_id (env_meta m) = Some cid"
        "reply_to_instance_id (env_meta m) = Some iid"
        "committable (pending_request_key cid) (reply_receipt_key cid) (expected_value c)
           (truncate_real (commit_expires_at c * 1000)) ks remaining"
        "ks_stream (instance_stream (target_id m) iid) ks = Inr st"
        "next_id (now_ms ks) (st_last st) = Some i"
        "rc = \<lparr>receipt_sender = sender_id m, receipt_fingerprint = commit_fingerprint c, receipt_message = message_id m\<rparr>"
        "receipt_message rc \<noteq> []" "load_receipt W (dump_receipt W rc) = Some rc0"
        "out = (if acknowledged (router_durability rt) ks' then Inr (receipt_message rc0) else Inl unconfirmed)"
        "ks' = committed (pending_request_key cid) (instance_stream (target_id m) iid) (reply_receipt_key cid)
           (dump_envelope W m) (dump_receipt W rc) remaining st i ks"
proof -
  let ?cid = "or_empty (correlation_id (env_meta m))" and ?iid = "or_empty (reply_to_instance_id (env_meta m))"
  let ?rc = "\<lparr>receipt_sender = sender_id m, receipt_fingerprint = commit_fingerprint c, receipt_message = message_id m\<rparr>"
  let ?p = "pending_request_key ?cid" and ?s = "instance_stream (target_id m) ?iid" and ?r = "reply_receipt_key ?cid"
  let ?script = "commit_reply_script W ks_redis ?p ?s ?r (expected_value c) (dump_envelope W m) (dump_receipt W ?rc)
      (sender_id m) (commit_fingerprint c) (truncate_real (commit_expires_at c * 1000)) ks"
  show thesis
  proof (cases "\<not> is_reply (env_meta m) \<or> ?cid = [] \<or> ?iid = [] \<or> \<not> reply_receipt_ok ?rc")
    case True
    with assms unchanged show thesis by (auto simp: commit_reply_def Let_def split: if_splits)
  next
    case False
    obtain o1 ks1 where s: "?script = (o1, ks1)" by fastforce
    have ks1: "ks' = ks1" and o: "out = (case o1 of Inl e \<Rightarrow> Inl e
        | Inr None \<Rightarrow> Inl (InvalidArgumentError ''unknown_or_completed_correlation_id'')
        | Inr (Some x) \<Rightarrow> if acknowledged (router_durability rt) ks1 then Inr x else Inl unconfirmed)"
      using assms False s
      by (auto simp: commit_reply_def Let_def io_simps confirm_ks split: sum.splits option.splits if_splits)
    have opt: "correlation_id (env_meta m) = Some ?cid" "reply_to_instance_id (env_meta m) = Some ?iid"
      using False by (auto simp: or_empty_def split: option.splits)
    have neq: "?p \<noteq> ?s" "?p \<noteq> ?r" "?s \<noteq> ?r" by simp_all
    from s neq show thesis
    proof (cases rule: commit_reply_script_cases)
      case (new rc st i remaining)
      with ks1 opt o False show thesis
        by (intro that(2) [of ?cid ?iid remaining st i ?rc rc]) (auto simp: reply_receipt_ok_def)
    next
      case idle
      with ks1 o unchanged show thesis by (auto split: sum.splits option.splits)
    next
      case (replay t rc)
      then have "\<forall>cid. correlation_id (env_meta m) = Some cid \<longrightarrow> ks_data ks (reply_receipt_key cid) \<noteq> None"
        using opt(1) by (metis option.discI option.inject)
      with replay ks1 unchanged show thesis by blast
    qed
  qed
qed

lemma durable_execute_touches:
  "touches K cmd \<Longrightarrow> touches K (durable_execute ks_redis s (one_command cmd))"
  unfolding durable_execute_def one_command_def pipeline_execute_def barrier_def of_result_def Let_def
  by (auto intro!: touches_intros)

lemma queued_xadd_touches: "k \<in> K \<Longrightarrow> touches K (queued_xadd ks_redis k fs)"
  unfolding queued_xadd_def ks_redis_sel by (intro touches_intros)

lemma route_message_touches: "touches {k. \<exists>a i. k = shared_stream a \<or> k = instance_stream a i} (route_message W ks_redis rt m)"
  unfolding route_message_def of_result_def
  by (auto intro!: touches_intros durable_execute_touches queued_xadd_touches
      simp: prepare_stream_append_def make_stream_append_def Let_def split: sum.splits option.splits list.splits if_splits)

lemma replay_reply_touches: "touches {reply_receipt_key cid} (replay_reply W ks_redis rt cid s f)"
  unfolding replay_reply_def replay_reply_script_def replay_receipt_def confirm_def barrier_def of_result_def
  by (auto intro!: touches_intros)

context redis_clock
begin

lemma absent_elapse: "ks_data (view db) k = None \<Longrightarrow> ks_data (view (elapse d db)) k = None"
  using elapse_persist [of db k d] elapse_either [of db k _ d] by (cases "ks_ttl (view db) k") auto

lemma request_gone_step:
  assumes gone: "ks_data (view db) (pending_request_key cid) = None" and op: "\<not> registers cid op"
  shows "ks_data (view (run_reply_op W R elapse rt op db)) (pending_request_key cid) = None"
proof (cases op)
  case (RegisterRequest c v px)
  with op have "pending_request_key cid \<notin> {pending_request_key c}" by simp
  with gone RegisterRequest show ?thesis
    using touchesD(3) [OF touches_writes(2) [of "pending_request_key c" "{pending_request_key c}" v px]]
      implements_snd [OF set_px, of "pending_request_key c" v px db] by simp
next
  case (RouteMessage m)
  then show ?thesis
    using gone touchesD(3) [OF route_message_touches, of "pending_request_key cid"]
      implements_snd [OF route_message_impl, of W rt m db] by simp
next
  case (CommitReply m c)
  have view: "view (run_reply_op W R elapse rt op db) = snd (commit_reply W ks_redis rt m c (view db))"
    using CommitReply implements_snd [OF commit_reply_impl] by simp
  obtain out ks' where run: "commit_reply W ks_redis rt m c (view db) = (out, ks')" by fastforce
  then show ?thesis
  proof (cases rule: commit_reply_cases)
    case (new rc0 c' iid rc st i remaining)
    with gone have "c' \<noteq> cid" by (auto simp: committable_def)
    with new gone view run show ?thesis by (simp add: committed_def)
  qed (use gone view run in simp)
next
  case (ReplayReply c s f)
  then show ?thesis
    using gone touchesD(3) [OF replay_reply_touches, of "pending_request_key cid"]
      implements_snd [OF replay_reply_impl, of W rt c s f db] by simp
next
  case (PassTime d)
  with gone absent_elapse show ?thesis by simp
qed

lemma request_gone_run:
  assumes "ks_data (view db) (pending_request_key cid) = None" and "\<forall>op \<in> set ops. \<not> registers cid op"
  shows "ks_data (view (run_reply_ops W R elapse rt ops db)) (pending_request_key cid) = None"
  using assms
proof (induction ops arbitrary: db)
  case (Cons op ops)
  then show ?case using request_gone_step [of db cid op W rt] by (simp add: run_reply_ops_def)
qed (simp add: run_reply_ops_def)

lemma reply_once:
  assumes first: "commit_reply W R rt m c db = (Inr mid, db1)" and cid: "correlation_id (env_meta m) = Some cid"
    and fresh: "ks_data (view db) (reply_receipt_key cid) = None"
    and ops: "\<forall>op \<in> set ops. \<not> registers cid op" and again: "correlation_id (env_meta m') = Some cid"
  shows "view (snd (commit_reply W R rt m' c' (run_reply_ops W R elapse rt ops db1))) =
    view (run_reply_ops W R elapse rt ops db1)"
proof -
  let ?later = "run_reply_ops W R elapse rt ops db1"
  note run = implements_run [OF commit_reply_impl first]
  have "ks_data (view db1) (pending_request_key cid) = None"
    using run by (cases rule: commit_reply_cases) (use cid fresh in \<open>auto simp: committed_def\<close>)
  then have gone: "ks_data (view ?later) (pending_request_key cid) = None"
    using ops by (rule request_gone_run)
  obtain out ks' where second: "commit_reply W ks_redis rt m' c' (view ?later) = (out, ks')" by fastforce
  then have "ks' = view ?later"
    by (cases rule: commit_reply_cases) (use gone again in \<open>auto simp: committable_def\<close>)
  with second implements_snd [OF commit_reply_impl, of W rt m' c' ?later] show ?thesis by simp
qed

end

lemma replay_reply_ks:
  assumes "ks_data ks (reply_receipt_key cid) = Some (RString t)" and "load_receipt W t = Some rc"
  shows "replay_reply W ks_redis rt cid s f ks =
    (if receipt_sender rc = s \<and> receipt_fingerprint rc = f
     then (if acknowledged (router_durability rt) ks then Inr (Some (receipt_message rc)) else Inl unconfirmed)
     else Inr None, ks)"
  using assms replay_receipt_ks [OF assms(1), of W s f]
  by (auto simp: replay_reply_def replay_reply_script_def io_simps ks_read_defs string_typed_def confirm_ks)

section \<open>Routing a message\<close>

text \<open>The stream a message belongs to: the shared one of its target, or for a reply the one of
  the instance that asked; a reply that names no instance has none.\<close>

definition destination :: "envelope \<Rightarrow> string option" where
  "destination m =
     (if \<not> is_reply (env_meta m) then Some (shared_stream (target_id m))
      else if absent (reply_to_instance_id (env_meta m)) then None
      else Some (instance_stream (target_id m) (or_empty (reply_to_instance_id (env_meta m)))))"

lemma make_stream_append_ok:
  "k \<noteq> [] \<Longrightarrow> make_stream_append k [(''envelope'', j)] =
     Inr \<lparr>append_stream = k, append_fields = [(''envelope'', j)]\<rparr>"
  by (simp add: make_stream_append_def Let_def stream_append_post_init_def)

lemma prepare_destination:
  "prepare_stream_append W m =
     (case destination m of
        None \<Rightarrow> Inl (InvalidArgumentError ''missing_reply_to_instance_id'')
      | Some k \<Rightarrow> Inr \<lparr>append_stream = k, append_fields = [(''envelope'', dump_envelope W m)]\<rparr>)"
proof -
  have "shared_stream a \<noteq> []" "instance_stream a i \<noteq> []" for a i
    by (simp_all add: shared_stream_def instance_stream_def)
  then show ?thesis
    by (auto simp: prepare_stream_append_def destination_def absent_def or_empty_def make_stream_append_ok
        split: option.splits list.splits)
qed

lemma durable_execute_one:
  assumes "redis_server R view" and "implements view cmd CMD"
    and "durable_execute R s (one_command cmd) db = (Inr rs, db')"
  shows "\<exists>r. rs = [r] \<and> CMD (view db) = (Inr r, view db')"
proof -
  have "list_all2 (implements view) (command_stack (one_command cmd)) [CMD]"
    using assms(2) by (simp add: one_command_def)
  from redis_server.durable_execute_run [OF assms(1) this assms(3)] show ?thesis
    by (cases "CMD (view db)") (auto simp: Cons_eq_map_conv)
qed

section \<open>Properties\<close>

text \<open>
  C14. A request is answered once: after a reply has been committed for a correlation, no later
  commit for that correlation changes the storage at all, so no second reply is enqueued,
  whatever was routed, committed, replayed and registered (for other correlations) in between
  and however much time passed.
\<close>

theorem reply_committed_once:
  assumes "redis_clock R view elapse" and "commit_reply W R rt m c db = (Inr mid, db1)"
    and "correlation_id (env_meta m) = Some cid" and "ks_data (view db) (reply_receipt_key cid) = None"
    and "\<forall>op \<in> set ops. \<not> registers cid op" and "correlation_id (env_meta m') = Some cid"
  shows "view (snd (commit_reply W R rt m' c' (run_reply_ops W R elapse rt ops db1))) =
    view (run_reply_ops W R elapse rt ops db1)"
  using redis_clock.reply_once [OF assms] .

definition example_reply :: envelope where
  "example_reply = \<lparr>sender_id = ''b'', target_id = ''a'', message_type = ''t'', env_data = [],
     env_meta = default_meta\<lparr>correlation_id := Some ''c'', is_reply := True, reply_to_instance_id := Some ''i''\<rparr>,
     env_timestamp = 0, message_id = ''m''\<rparr>"

definition example_commit :: correlation_commit where
  "example_commit = \<lparr>expected_value = ''v'', commit_fingerprint = replicate 64 (CHR ''a''), commit_expires_at = 60\<rparr>"

definition example_router :: router where
  "example_router = \<lparr>router_dlq_enabled = True, router_durability = default_durability\<rparr>"

definition example_requests :: keyspace where
  "example_requests = snd (ks_set_px (pending_request_key ''c'') ''v'' 5000 (fresh_keyspace 0))"

lemma example_requests_sel:
  "ks_data example_requests = [pending_request_key ''c'' \<mapsto> RString ''v'']"
  "ks_ttl example_requests = [pending_request_key ''c'' \<mapsto> 5000]" "ks_now example_requests = 0" "now_ms example_requests = 0"
  by (simp_all add: example_requests_def ks_set_px_def)

lemma example_reply_commits:
  "\<exists>ks'. commit_reply json_wire ks_redis example_router example_reply example_commit example_requests = (Inr ''m'', ks') \<and>
     ks_ttl ks' (reply_receipt_key ''c'') = Some 5000 \<and> ks_now ks' = 0"
proof -
  have "load_receipt json_wire (dump_receipt json_wire \<lparr>receipt_sender = ''b'',
      receipt_fingerprint = replicate 64 (CHR ''a''), receipt_message = ''m''\<rparr>) = Some \<lparr>receipt_sender = ''b'',
      receipt_fingerprint = replicate 64 (CHR ''a''), receipt_message = ''m''\<rparr>"
    by (rule json_codec.receipt_roundtrip) simp
  moreover have "is_hex64 (replicate 64 (CHR ''a''))" by (simp add: is_hex64_def list_all_iff)
  ultimately show ?thesis
    by (simp add: commit_reply_def example_reply_def example_commit_def example_router_def default_meta_def
        or_empty_def reply_receipt_ok_def commit_reply_script_def io_simps ks_read_defs ks_write_defs
        string_typed_def Let_def example_requests_sel truncate_real_def ks_stream_def empty_stream_def
        next_id_def max_part_def confirm_def durability_enabled_def default_durability_def)
qed

theorem reply_committed_once_witness:
  "\<exists>ks1. snd (commit_reply json_wire ks_redis example_router example_reply example_commit (ks_elapse 100 ks1)) = ks_elapse 100 ks1"
proof -
  obtain ks1 where run: "commit_reply json_wire ks_redis example_router example_reply example_commit example_requests = (Inr ''m'', ks1)"
    using example_reply_commits by blast
  have cid: "correlation_id (env_meta example_reply) = Some ''c''" by (simp add: example_reply_def)
  have fresh: "ks_data example_requests (reply_receipt_key ''c'') = None" by (simp add: example_requests_sel)
  from reply_committed_once [OF ref_clock.redis_clock_axioms run cid fresh, of "[PassTime 100]" example_reply example_commit]
  show ?thesis using cid by (auto simp: run_reply_ops_def)
qed

text \<open>
  What committing a reply does: when no receipt exists yet and the commit is reported to its
  author, the request was still pending with the expected value and not past its deadline,
  the reply's own identifier is returned, exactly one entry with the reply is appended to
  the stream of the requesting instance, the request is gone, and a receipt that expires
  no later than the request names the author and the reply.
\<close>

theorem commit_reply_effect:
  assumes "redis_server R view" and "wire_codec W"
    and "commit_reply W R rt m c db = (Inr mid, db')" and "correlation_id (env_meta m) = Some cid"
    and "reply_to_instance_id (env_meta m) = Some iid" and "ks_data (view db) (reply_receipt_key cid) = None"
  shows "mid = message_id m \<and>
    ks_data (view db) (pending_request_key cid) = Some (RString (expected_value c)) \<and>
    int (now_ms (view db)) < truncate_real (commit_expires_at c * 1000) \<and>
    ks_data (view db') (pending_request_key cid) = None \<and>
    (\<exists>st i. ks_stream (instance_stream (target_id m) iid) (view db) = Inr st \<and>
       ks_data (view db') (instance_stream (target_id m) iid) =
         Some (RStream (st\<lparr>st_entries := st_entries st @ [(i, [(''envelope'', dump_envelope W m)])], st_last := i\<rparr>))) \<and>
    ks_data (view db') (reply_receipt_key cid) = Some (RString (dump_receipt W
      \<lparr>receipt_sender = sender_id m, receipt_fingerprint = commit_fingerprint c, receipt_message = message_id m\<rparr>)) \<and>
    (\<exists>t t'. ks_ttl (view db) (pending_request_key cid) = Some t \<and> ks_ttl (view db') (reply_receipt_key cid) = Some t' \<and> t' \<le> t)"
  using implements_run [OF redis_server.commit_reply_impl [OF assms(1)] assms(3)]
proof (cases rule: commit_reply_cases)
  case unchanged
  with assms(4,6) show ?thesis by auto
next
  case (new rc0 c' i' rc st i remaining)
  have "rc0 = rc" using new wire_codec.receipt_roundtrip [OF assms(2), of rc] by simp
  with new assms(4,5) show ?thesis
    by (auto simp: committable_def committed_def simp del: split_paired_Ex split: if_splits)
qed

theorem commit_reply_effect_witness:
  "\<exists>ks' :: keyspace. ks_data ks' (reply_receipt_key ''c'') \<noteq> None \<and> ks_data ks' (pending_request_key ''c'') = None"
proof -
  obtain ks1 where run: "commit_reply json_wire ks_redis example_router example_reply example_commit example_requests = (Inr ''m'', ks1)"
    using example_reply_commits by blast
  from commit_reply_effect [OF ref.redis_server_axioms json_codec.wire_codec_axioms run, of "''c''" "''i''"]
  have "ks_data ks1 (reply_receipt_key ''c'') \<noteq> None \<and> ks_data ks1 (pending_request_key ''c'') = None"
    by (simp add: example_reply_def example_requests_sel)
  then show ?thesis by blast
qed

text \<open>
  Retries are answered: until the receipt expires, a replay by the author with the same
  fingerprint returns the committed reply's identifier (or the durability error when it
  cannot be confirmed), and a replay by anyone else, or with another content, gets nothing;
  neither changes the storage.
\<close>

theorem replay_after_commit:
  assumes "redis_clock R view elapse" and "wire_codec W"
    and "commit_reply W R rt m c db = (Inr mid, db1)" and "correlation_id (env_meta m) = Some cid"
    and "ks_data (view db) (reply_receipt_key cid) = None"
    and "ks_ttl (view db1) (reply_receipt_key cid) = Some t" and "(ks_now (view db1) + d) div 1000 < t"
  shows "fst (replay_reply W R rt cid s f (elapse d db1)) =
      (if s = sender_id m \<and> f = commit_fingerprint c
       then (if acknowledged (router_durability rt) (view (elapse d db1)) then Inr (Some mid) else Inl unconfirmed)
       else Inr None) \<and>
    view (snd (replay_reply W R rt cid s f (elapse d db1))) = view (elapse d db1)"
proof -
  note srv = redis_clock.axioms(1) [OF assms(1)]
  let ?rc = "\<lparr>receipt_sender = sender_id m, receipt_fingerprint = commit_fingerprint c, receipt_message = message_id m\<rparr>"
  have "ks_data (view db1) (reply_receipt_key cid) = Some (RString (dump_receipt W ?rc)) \<and>
      load_receipt W (dump_receipt W ?rc) = Some ?rc \<and> mid = message_id m"
    using implements_run [OF redis_server.commit_reply_impl [OF srv] assms(3)]
  proof (cases rule: commit_reply_cases)
    case unchanged
    with assms(4,5) show ?thesis by auto
  next
    case (new rc0 c' i' rc st i remaining)
    then have "rc0 = rc" using wire_codec.receipt_roundtrip [OF assms(2), of rc] by simp
    with new assms(4) show ?thesis by (auto simp: committed_def split: if_splits)
  qed
  moreover have "ks_data (view (elapse d db1)) (reply_receipt_key cid) = ks_data (view db1) (reply_receipt_key cid)"
    using redis_clock.elapse_keep [OF assms(1,6,7)] by simp
  ultimately show ?thesis
    using replay_reply_ks [of "view (elapse d db1)" cid "dump_receipt W ?rc" W ?rc rt s f]
      implements_fst [OF redis_server.replay_reply_impl [OF srv], of W rt cid s f "elapse d db1"]
      implements_snd [OF redis_server.replay_reply_impl [OF srv], of W rt cid s f "elapse d db1"]
    by auto
qed

theorem replay_after_commit_witness:
  "\<exists>ks1. fst (replay_reply json_wire ks_redis example_router ''c'' ''other'' [] (ks_elapse 100 ks1)) = Inr None"
proof -
  obtain ks1 where run: "commit_reply json_wire ks_redis example_router example_reply example_commit example_requests = (Inr ''m'', ks1)"
    and ttl: "ks_ttl ks1 (reply_receipt_key ''c'') = Some 5000" "ks_now ks1 = 0"
    using example_reply_commits by blast
  from replay_after_commit [OF ref_clock.redis_clock_axioms json_codec.wire_codec_axioms run, of "''c''" 5000 100 "''other''" "[]"]
  show ?thesis using ttl by (auto simp: example_reply_def example_requests_sel)
qed

text \<open>
  Routing appends a message exactly once and only where it belongs: one entry with the
  message at the end of the stream of its destination, every other key as it was; a reply
  that names no instance is refused before anything is written.
\<close>

theorem route_message_effect:
  assumes "redis_server R view" and "route_message W R rt m db = (r, db')"
  shows "(destination m = None \<longrightarrow>
      r = Inl (InvalidArgumentError ''missing_reply_to_instance_id'') \<and> db' = db) \<and>
    (r = Inr () \<longrightarrow> (\<exists>k st i. destination m = Some k \<and> ks_stream k (view db) = Inr st \<and>
       view db' = ks_put k (RStream (st\<lparr>st_entries := st_entries st @ [(i, [(''envelope'', dump_envelope W m)])],
                                        st_last := i\<rparr>)) (view db)))"
proof (cases "destination m")
  case None
  with assms(2) show ?thesis by (auto simp: route_message_def prepare_destination bindio_split)
next
  case (Some k)
  let ?cmd = "queued_xadd R k [(''envelope'', dump_envelope W m)]"
  have "\<exists>st i. ks_stream k (view db) = Inr st \<and>
      view db' = ks_put k (RStream (st\<lparr>st_entries := st_entries st @ [(i, [(''envelope'', dump_envelope W m)])],
                                       st_last := i\<rparr>)) (view db)" if ok: "r = Inr ()"
  proof -
    obtain rs where "durable_execute R (router_durability rt) (one_command ?cmd) db = (Inr rs, db')"
      using assms(2) ok Some
      by (auto simp: route_message_def prepare_destination bindio_split seqio_split prod_eq_iff split: sum.splits)
    from durable_execute_one [OF assms(1) redis_server.queued_xadd_impl [OF assms(1)] this]
    show ?thesis
      by (auto simp: queued_xadd_def bindio_split ks_xadd_def simp del: split_paired_Ex
          split: sum.splits option.splits if_splits) metis
  qed
  with Some show ?thesis by auto
qed

theorem route_message_effect_witness:
  "\<exists>st i. snd (route_message json_wire ks_redis example_router
      (example_reply\<lparr>env_meta := default_meta\<rparr>) (fresh_keyspace 0)) =
    ks_put (shared_stream ''a'') (RStream (st\<lparr>st_entries := st_entries st @
      [(i, [(''envelope'', dump_envelope json_wire (example_reply\<lparr>env_meta := default_meta\<rparr>))])], st_last := i\<rparr>)) (fresh_keyspace 0)"
proof -
  let ?m = "example_reply\<lparr>env_meta := default_meta\<rparr>"
  have "destination ?m = Some (shared_stream ''a'')"
    by (simp add: destination_def example_reply_def default_meta_def)
  moreover have "route_message json_wire ks_redis example_router ?m (fresh_keyspace 0) =
      (Inr (), snd (route_message json_wire ks_redis example_router ?m (fresh_keyspace 0)))"
    using calculation
    by (simp add: prod_eq_iff route_message_def prepare_destination io_simps durable_execute_def one_command_def
        pipeline_execute_def queued_xadd_def ks_xadd_def ks_stream_def empty_stream_def next_id_def max_part_def
        example_router_def durability_enabled_def default_durability_def catchio_def)
  ultimately show ?thesis
    using route_message_effect [OF ref.redis_server_axioms] by fastforce
qed

end
