(* ===== verification/Sessions.thy ===== *)
theory Sessions
  imports Routing
begin

text \<open>
  \<open>packages/mas-server/src/mas_server/sessions.py\<close> and the data of \<open>types.py\<close>: the sessions of one
  broker. The world of a method is the shared server and the broker's own memory. Starting
  a delivery task is an argument of \<open>connect\<close>: the exception it raises, if it does.
\<close>

section \<open>Types\<close>

definition ident_char :: "char \<Rightarrow> bool" where
  "ident_char c \<longleftrightarrow>
     (let n = (of_char c :: nat) in (97 \<le> n \<and> n \<le> 122) \<or> (65 \<le> n \<and> n \<le> 90) \<or> (48 \<le> n \<and> n \<le> 57) \<or>
        c = CHR ''_'' \<or> c = CHR ''-'')"

definition valid_ident :: "nat \<Rightarrow> string \<Rightarrow> bool" where
  "valid_ident n s \<longleftrightarrow> 1 \<le> length s \<and> length s \<le> n \<and> list_all ident_char s"

record agent_definition =
  def_agent_id :: string
  def_capabilities :: "string list"
  def_metadata :: "(string \<times> json) list"

definition agent_definition_post_init :: "agent_definition \<Rightarrow> err + unit" where
  "agent_definition_post_init a =
     (if valid_ident 128 (def_agent_id a) then Inr ()
      else Inl (ValueError ''agent_id must contain 1-128 letters, digits, _ or -''))"

record server_settings =
  set_agents :: "(string \<times> agent_definition) list"
  reclaim_idle_ms :: int
  reclaim_batch_size :: int
  max_in_flight :: int
  max_delivery_attempts :: int
  set_session_lease :: lease_settings
  broker_id :: "string option"

definition server_settings_post_init :: "server_settings \<Rightarrow> err + unit" where
  "server_settings_post_init s =
     (if reclaim_idle_ms s \<le> 0 then Inl (ValueError ''reclaim_idle_ms must be positive'')
      else if reclaim_batch_size s \<le> 0 then Inl (ValueError ''reclaim_batch_size must be positive'')
      else if max_in_flight s \<le> 0 then Inl (ValueError ''max_in_flight must be positive'')
      else if max_delivery_attempts s \<le> 0 then Inl (ValueError ''max_delivery_attempts must be positive'')
      else if (case broker_id s of None \<Rightarrow> False | Some b \<Rightarrow> \<not> valid_ident 128 b)
      then Inl (ValueError ''broker_id must contain 1-128 letters, digits, _ or -'')
      else if \<exists>ka \<in> set (set_agents s). fst ka \<noteq> def_agent_id (snd ka)
      then Inl (ValueError ''agent allowlist keys must match their agent_id'')
      else Inr ())"

record outbound_delivery =
  out_delivery_id :: string
  out_envelope :: string
  out_message_id :: "string option"

text \<open>\<open>asyncio.Queue\<close>: a bound (none if it is not positive) and the items, oldest first.\<close>

record outbound_queue =
  q_maxsize :: int
  q_items :: "outbound_delivery list"

definition q_full :: "outbound_queue \<Rightarrow> bool" where
  "q_full q \<longleftrightarrow> 0 < q_maxsize q \<and> q_maxsize q \<le> int (length (q_items q))"

text \<open>The dictionary of deliveries in flight, in insertion order.\<close>

type_synonym inflight = "(string \<times> inflight_delivery) list"

record session =
  ses_agent_id :: string
  ses_instance_id :: string
  ses_outbound :: outbound_queue
  ses_inflight :: inflight
  ses_task_done :: bool
  ses_lease :: session_lease
  ses_capacity_changed :: bool

text \<open>A broker's memory; the table of sessions is a dictionary in insertion order.\<close>

type_synonym session_table = "((string \<times> string) \<times> session) list"

record broker =
  br_agents :: "string list"
  br_lease_settings :: lease_settings
  br_sessions :: session_table

type_synonym 'db world = "'db \<times> broker"

definition on_server :: "('db, 'a) io \<Rightarrow> ('db world, 'a) io" where
  "on_server m w = (case m (fst w) of (r, db) \<Rightarrow> (r, (db, snd w)))"

definition get_broker :: "('db world, broker) io" where
  "get_broker w = (Inr (snd w), w)"

definition set_sessions :: "session_table \<Rightarrow> ('db world, unit) io" where
  "set_sessions ss w = (Inr (), (fst w, (snd w)\<lparr>br_sessions := ss\<rparr>))"

section \<open>SessionManager\<close>

definition instance_already_connected :: err where
  "instance_already_connected = FailedPreconditionError ''instance_already_connected''"

definition session_not_connected :: err where
  "session_not_connected = FailedPreconditionError ''session_not_connected''"

definition session_lease_lost :: err where
  "session_lease_lost = RpcError UNAVAILABLE ''session_lease_lost''"

definition new_session :: "string \<Rightarrow> string \<Rightarrow> session_lease \<Rightarrow> session" where
  "new_session agent_id instance_id l =
     \<lparr>ses_agent_id = agent_id, ses_instance_id = instance_id,
      ses_outbound = \<lparr>q_maxsize = 500, q_items = []\<rparr>, ses_inflight = [],
      ses_task_done = False, ses_lease = l, ses_capacity_changed = False\<rparr>"

definition connect :: "'db redis \<Rightarrow> err option \<Rightarrow> real \<Rightarrow> real \<Rightarrow> string \<Rightarrow> string \<Rightarrow> string \<Rightarrow> ('db world, session) io" where
  "connect R factory_error requested confirmed uuid agent_id instance_id =
     bindio get_broker (\<lambda>b.
     if agent_id \<notin> set (br_agents b) then raise (UnauthenticatedError ''agent_not_allowlisted'')
     else if \<not> valid_ident 32 instance_id then raise (InvalidArgumentError ''invalid_instance_id'')
     else if map_of (br_sessions b) (agent_id, instance_id) \<noteq> None then raise instance_already_connected
     else bindio (catchio
         (on_server (lease_acquire R (br_lease_settings b) requested confirmed uuid agent_id instance_id))
         (\<lambda>e. case e of SessionLeaseConflict _ \<Rightarrow> raise instance_already_connected | _ \<Rightarrow> raise e)) (\<lambda>l.
     case factory_error of
       Some e \<Rightarrow> seqio (on_server (lease_release R l)) (raise e)
     | None \<Rightarrow>
         let s = new_session agent_id instance_id l in
         seqio (set_sessions (dict_put (agent_id, instance_id) s (br_sessions b))) (ret s)))"

text \<open>One round of \<open>renew\<close> inside \<open>_run_owned\<close>; it holds the lease it renewed last.\<close>

definition renew_session :: "'db redis \<Rightarrow> real \<Rightarrow> real \<Rightarrow> real \<Rightarrow> session_lease \<Rightarrow> ('db world, session_lease) io" where
  "renew_session R checked requested confirmed l =
     bindio get_broker (\<lambda>b.
     bindio (on_server (lease_renew R (br_lease_settings b) checked requested confirmed l)) (\<lambda>renewed.
     let key = (lease_agent_id l, lease_instance_id l) in
     case (renewed, map_of (br_sessions b) key) of
       (Some l', Some s) \<Rightarrow>
         seqio (set_sessions (dict_put key (s\<lparr>ses_lease := l'\<rparr>) (br_sessions b))) (ret l')
     | _ \<Rightarrow> raise session_lease_lost))"

text \<open>The \<open>finally\<close> of \<open>_run_owned\<close>: release, with a failure only logged.\<close>

definition finish_owned :: "'db redis \<Rightarrow> session_lease \<Rightarrow> ('db world, unit) io" where
  "finish_owned R l = catchio (on_server (lease_release R l)) (\<lambda>_. ret ())"

text \<open>
  \<open>_run_owned\<close>: rounds of renewal until one fails or the delivery worker ends, with an exception
  or without; the lease it releases is the one it renewed last.
\<close>

fun run_owned :: "'db redis \<Rightarrow> (real \<times> real \<times> real) list \<Rightarrow> err option \<Rightarrow> session_lease \<Rightarrow> ('db world, unit) io" where
  "run_owned R [] worker l =
     seqio (finish_owned R l) (case worker of None \<Rightarrow> ret () | Some e \<Rightarrow> raise e)"
| "run_owned R ((checked, requested, confirmed) # rounds) worker l = (\<lambda>w.
     case renew_session R checked requested confirmed l w of
       (Inr l', w') \<Rightarrow> run_owned R rounds worker l' w'
     | (Inl e, w') \<Rightarrow> seqio (finish_owned R l) (raise e) w')"

text \<open>Cancelling the session's task runs its \<open>finally\<close> before \<open>disconnect\<close> goes on.\<close>

definition disconnect :: "'db redis \<Rightarrow> string \<Rightarrow> string \<Rightarrow> ('db world, session option \<times> bool) io" where
  "disconnect R agent_id instance_id =
     bindio get_broker (\<lambda>b.
     let key = (agent_id, instance_id); found = map_of (br_sessions b) key; rest = dict_pop key (br_sessions b);
         remaining = list_ex (\<lambda>ks. fst (fst ks) = agent_id) rest in
     seqio (set_sessions rest)
     (case found of
        None \<Rightarrow> ret (None, remaining)
      | Some s \<Rightarrow> seqio (finish_owned R (ses_lease s))
                 (seqio (on_server (lease_release R (ses_lease s))) (ret (Some s, remaining)))))"

definition pop_inflight :: "string \<Rightarrow> string \<Rightarrow> string \<Rightarrow> ('db world, inflight_delivery option) io" where
  "pop_inflight agent_id instance_id delivery_id =
     (if delivery_id = [] then ret None
      else bindio get_broker (\<lambda>b.
      case map_of (br_sessions b) (agent_id, instance_id) of
        None \<Rightarrow> ret None
      | Some s \<Rightarrow>
          (case map_of (ses_inflight s) delivery_id of
             None \<Rightarrow> ret None
           | Some d \<Rightarrow>
               seqio (set_sessions (dict_put (agent_id, instance_id)
                        (s\<lparr>ses_inflight := dict_pop delivery_id (ses_inflight s), ses_capacity_changed := True\<rparr>)
                        (br_sessions b)))
                     (ret (Some d)))))"

definition ensure_connected :: "'db redis \<Rightarrow> real \<Rightarrow> string \<Rightarrow> string \<Rightarrow> ('db world, unit) io" where
  "ensure_connected R monotonic agent_id instance_id =
     (if \<not> valid_ident 32 instance_id then raise (InvalidArgumentError ''invalid_instance_id'')
      else bindio get_broker (\<lambda>b.
      if agent_id \<notin> set (br_agents b) then raise (UnauthenticatedError ''agent_not_allowlisted'')
      else (case map_of (br_sessions b) (agent_id, instance_id) of
          Some s \<Rightarrow> if lease_live monotonic (ses_lease s) \<and> \<not> ses_task_done s then ret ()
                    else raise session_not_connected
        | None \<Rightarrow> bindio (on_server (lease_owner_of R agent_id instance_id)) (\<lambda>owner.
                    if owner = None then raise session_not_connected else ret ()))))"

definition get_session :: "string \<Rightarrow> string \<Rightarrow> ('db world, session) io" where
  "get_session agent_id instance_id =
     bindio get_broker (\<lambda>b.
     case map_of (br_sessions b) (agent_id, instance_id) of
       None \<Rightarrow> raise session_not_connected
     | Some s \<Rightarrow> ret s)"

definition get_lease :: "string \<Rightarrow> string \<Rightarrow> ('db world, session_lease) io" where
  "get_lease agent_id instance_id = bindio (get_session agent_id instance_id) (\<lambda>s. ret (ses_lease s))"

definition sessions_snapshot :: "('db world, session list) io" where
  "sessions_snapshot = bindio get_broker (\<lambda>b. ret (map snd (br_sessions b)))"

definition snapshot_and_clear :: "('db world, session list) io" where
  "snapshot_and_clear = bindio get_broker (\<lambda>b. seqio (set_sessions []) (ret (map snd (br_sessions b))))"

text \<open>The loop drops the oldest item while the queue is full; every round shortens the queue.\<close>

function drop_loop :: "outbound_queue \<Rightarrow> inflight \<Rightarrow> nat \<Rightarrow> outbound_queue \<times> inflight \<times> nat" where
  "drop_loop q fl dropped =
     (if \<not> q_full q then (q, fl, dropped)
      else (case q_items q of
          [] \<Rightarrow> (q, fl, dropped)
        | e # es \<Rightarrow> drop_loop (q\<lparr>q_items := es\<rparr>) (dict_pop (out_delivery_id e) fl) (dropped + 1)))"
  by pat_completeness auto
termination
  by (relation "measure (\<lambda>(q, fl, n). length (q_items q))") auto

declare drop_loop.simps [simp del]

definition drop_oldest_outbound :: "outbound_queue \<Rightarrow> inflight \<Rightarrow> outbound_queue \<times> inflight \<times> nat" where
  "drop_oldest_outbound q fl =
     (if q_maxsize q \<le> 0 \<or> \<not> q_full q then (q, fl, 0) else drop_loop q fl 0)"

section \<open>Facts\<close>

lemma on_server_split [io_simps]: "on_server m w = (fst (m (fst w)), (snd (m (fst w)), snd w))"
  by (simp add: on_server_def split: prod.splits)

lemma get_broker_apply [simp]: "get_broker w = (Inr (snd w), w)"
  by (simp add: get_broker_def)

lemma set_sessions_apply [simp]: "set_sessions ss w = (Inr (), (fst w, (snd w)\<lparr>br_sessions := ss\<rparr>))"
  by (simp add: set_sessions_def)

lemma drop_loop_spec:
  assumes "drop_loop q fl n = (q', fl', n')" and "0 < q_maxsize q"
  shows "\<not> q_full q' \<and> q_maxsize q' = q_maxsize q \<and>
    (\<exists>gone. q_items q = gone @ q_items q' \<and> n' = n + length gone \<and>
       fl' = filter (\<lambda>kv. fst kv \<notin> out_delivery_id ` set gone) fl)"
  using assms
proof (induction q fl n rule: drop_loop.induct)
  case (1 q fl n)
  show ?case
  proof (cases "q_full q")
    case False
    with 1 show ?thesis by (auto simp: drop_loop.simps [of q] intro: exI [of _ "[]"])
  next
    case True
    then obtain e es where es: "q_items q = e # es"
      using 1 by (cases "q_items q") (auto simp: q_full_def)
    let ?q = "q\<lparr>q_items := es\<rparr>"
    from 1 True es have run: "drop_loop ?q (dict_pop (out_delivery_id e) fl) (n + 1) = (q', fl', n')"
      by (simp add: drop_loop.simps [of q])
    with 1 True es obtain gone where "\<not> q_full q' \<and> q_maxsize q' = q_maxsize ?q" "es = gone @ q_items q'"
      "n' = n + 1 + length gone" "fl' = filter (\<lambda>kv. fst kv \<notin> out_delivery_id ` set gone) (dict_pop (out_delivery_id e) fl)"
      by fastforce
    with es show ?thesis by (auto simp: dict_pop_def intro!: exI [of _ "e # gone"] filter_cong)
  qed
qed

lemma drop_oldest_spec:
  assumes "drop_oldest_outbound q fl = (q', fl', n)"
  shows "\<not> q_full q' \<and> q_maxsize q' = q_maxsize q \<and>
    (\<exists>gone. q_items q = gone @ q_items q' \<and> n = length gone \<and>
       fl' = filter (\<lambda>kv. fst kv \<notin> out_delivery_id ` set gone) fl) \<and> (\<not> q_full q \<longrightarrow> n = 0)"
  using assms drop_loop_spec [of q fl 0 q' fl' n]
  by (cases "q_full q") (auto simp: drop_oldest_outbound_def q_full_def)

lemma connect_failure_keeps_sessions:
  "fst (connect R fe t t' u a i w) = Inl e \<Longrightarrow> snd (snd (connect R fe t t' u a i w)) = snd w"
  by (auto simp: connect_def io_simps catchio_def Let_def split: sum.splits option.splits prod.splits err.splits if_splits)

lemma connect_success:
  assumes "connect R fe t t' u a i w = (Inr s, w')"
  shows "a \<in> set (br_agents (snd w)) \<and> valid_ident 32 i \<and> map_of (br_sessions (snd w)) (a, i) = None \<and> fe = None \<and>
    (\<exists>l. lease_acquire R (br_lease_settings (snd w)) t t' u a i (fst w) = (Inr l, fst w') \<and>
       s = new_session a i l \<and>
       snd w' = (snd w)\<lparr>br_sessions := dict_put (a, i) s (br_sessions (snd w))\<rparr>)"
  using assms
  by (auto simp: connect_def io_simps catchio_def Let_def split: sum.splits option.splits prod.splits err.splits if_splits)
     (metis prod.collapse)+

text \<open>The token of a lease never changes while it is renewed, and every way out of the task releases it.\<close>

lemma on_server_impl: "implements view m M \<Longrightarrow>
   fst (on_server m (db, b)) = fst (M (view db)) \<and> view (fst (snd (on_server m (db, b)))) = snd (M (view db)) \<and>
   snd (snd (on_server m (db, b))) = b"
  by (simp add: io_simps implements_fst implements_snd)

definition index_typed :: "string \<Rightarrow> keyspace \<Rightarrow> bool" where
  "index_typed a ks \<longleftrightarrow> type_of_value (ks_data ks (sessions_key a)) \<in> {TNone, TZset}"

lemma release_final:
  "index_typed (lease_agent_id l) ks \<Longrightarrow>
   ks_data (snd (lease_release ks_redis l ks)) (session_key (lease_agent_id l) (lease_instance_id l))
     \<noteq> Some (RString (lease_owner l))"
  by (auto simp: lease_release_def release_script_def validate_session_keys_def index_typed_def io_simps
      ks_read_defs ks_get_def ks_del_def ks_zrem_def
      split: sum.splits option.splits rvalue.splits if_splits)

lemma index_typed_deadline:
  "index_typed a ks \<Longrightarrow> index_typed a (snd (index_deadline ks_redis (sessions_key a) t i ks))"
  using index_deadline_ks(3) [of ks "sessions_key a" t i] by (auto simp: index_typed_def)

lemma renew_index_typed:
  "index_typed (lease_agent_id l) ks \<Longrightarrow> index_typed (lease_agent_id l) (snd (lease_renew ks_redis s c t t' l ks))"
proof -
  assume ok: "index_typed (lease_agent_id l) ks"
  let ?mid = "snd (ks_pexpire (session_key (lease_agent_id l) (lease_instance_id l)) (ttl_ms s) ks)"
  from ok have mid: "index_typed (lease_agent_id l) ?mid"
    by (auto simp: index_typed_def ks_pexpire_def split: option.splits)
  from ok mid index_typed_deadline [OF mid] show ?thesis
    by (auto simp: lease_renew_def renew_script_def io_simps ks_get_def Let_def
        split: sum.splits option.splits rvalue.splits if_splits)
qed

lemma acquire_index_typed:
  assumes "lease_acquire ks_redis s t t' u a i ks = (Inr l, ks')"
  shows "index_typed a ks'"
proof -
  let ?k = "session_key a i"
  let ?mid = "ks_deadline ?k (Some (now_ms ks + nat (ttl_ms s))) (ks_put ?k (RString u) ks)"
  have ok: "index_typed a ks"
    using assms validated_index [of ?k "sessions_key a" ks]
    by (auto simp: lease_acquire_def acquire_script_def index_typed_def io_simps Let_def split: sum.splits if_splits)
  then have "index_typed a ?mid" by (simp add: index_typed_def)
  from index_typed_deadline [OF this] assms show ?thesis
    by (auto simp: lease_acquire_def acquire_script_def io_simps ks_set_nx_px_def Let_def
        split: sum.splits if_splits)
qed

lemma finish_owned_db: "fst (snd (finish_owned R l w)) = snd (lease_release R l (fst w))"
  by (simp add: finish_owned_def catchio_def io_simps split: sum.splits)

lemma lease_renew_identity:
  "fst (lease_renew R s c t t' l db) = Inr (Some l') \<Longrightarrow>
   lease_agent_id l' = lease_agent_id l \<and> lease_instance_id l' = lease_instance_id l \<and> lease_owner l' = lease_owner l"
  by (auto simp: lease_renew_def io_simps Let_def split: sum.splits option.splits if_splits)

lemma renew_session_identity:
  "renew_session R c t t' l w = (Inr l', w') \<Longrightarrow>
   lease_agent_id l' = lease_agent_id l \<and> lease_instance_id l' = lease_instance_id l \<and> lease_owner l' = lease_owner l"
  by (auto simp: renew_session_def io_simps Let_def split: sum.splits option.splits dest: lease_renew_identity)

lemma renew_session_db:
  "fst (snd (renew_session R c t t' l w)) = snd (lease_renew R (br_lease_settings (snd w)) c t t' l (fst w))"
  by (auto simp: renew_session_def io_simps Let_def split: sum.splits option.splits)

context redis_server
begin

lemma finish_owned_gives_up:
  "index_typed (lease_agent_id l) (view (fst w)) \<Longrightarrow>
   ks_data (view (fst (snd (finish_owned R l w)))) (session_key (lease_agent_id l) (lease_instance_id l))
     \<noteq> Some (RString (lease_owner l))"
  by (simp add: finish_owned_db implements_snd [OF lease_release_impl] release_final)

lemma renew_session_index:
  "index_typed (lease_agent_id l) (view (fst w)) \<Longrightarrow>
   index_typed (lease_agent_id l) (view (fst (snd (renew_session R c t t' l w))))"
  by (simp add: renew_session_db implements_snd [OF lease_renew_impl] renew_index_typed)

lemma run_owned_gives_up:
  "index_typed (lease_agent_id l) (view (fst w)) \<Longrightarrow>
   ks_data (view (fst (snd (run_owned R rounds worker l w)))) (session_key (lease_agent_id l) (lease_instance_id l))
     \<noteq> Some (RString (lease_owner l))"
proof (induction rounds arbitrary: l w)
  case Nil
  then show ?case using finish_owned_gives_up [of l w] by (auto simp: seqio_split split: sum.splits option.splits)
next
  case (Cons r rounds)
  obtain c t t' where [simp]: "r = (c, t, t')" using prod_cases3 by blast
  obtain x w' where run: "renew_session R c t t' l w = (x, w')" by (metis surj_pair)
  with renew_session_index [OF Cons.prems, of c t t'] have ok: "index_typed (lease_agent_id l) (view (fst w'))" by simp
  show ?case
  proof (cases x)
    case (Inl e)
    with run show ?thesis using finish_owned_gives_up [OF ok] by (auto simp: seqio_split split: sum.splits)
  next
    case (Inr l')
    with run ok Cons.IH [of l' w'] renew_session_identity [of R c t t' l w l' w'] show ?thesis by simp
  qed
qed

end

section \<open>Properties\<close>

text \<open>
  At most one broker serves an instance: once a broker has connected an instance, no other
  broker connects it before the lease's time to live has passed, whatever acquisitions, renewals
  and releases under other tokens happen meanwhile; its sessions stay as they were.
\<close>

theorem one_broker_per_instance:
  assumes "redis_clock R view elapse" and "connect R fe t t' u a i (db, b1) = (Inr s, w1)"
    and "\<forall>op \<in> set ops. op_owner op \<noteq> Some u"
    and "(ks_now (view db) + sum_list (map op_time ops)) div 1000
           < now_ms (view db) + nat (ttl_ms (br_lease_settings b1))"
    and "br_lease_settings b2 = br_lease_settings b1"
  shows "\<exists>e. fst (connect R fe' c c' v a i (run_lease_ops R elapse (br_lease_settings b1) ops (fst w1), b2)) = Inl e \<and>
    snd (snd (connect R fe' c c' v a i (run_lease_ops R elapse (br_lease_settings b1) ops (fst w1), b2))) = b2"
proof -
  let ?w = "(run_lease_ops R elapse (br_lease_settings b1) ops (fst w1), b2)"
  obtain l where acq: "lease_acquire R (br_lease_settings b1) t t' u a i db = (Inr l, fst w1)"
    using connect_success [OF assms(2)] by auto
  obtain e where "fst (lease_acquire R (br_lease_settings b1) c c' v a i (fst ?w)) = Inl e"
    using redis_clock.lease_stays_exclusive [OF assms(1) acq assms(3,4)] by fastforce
  then have "\<forall>s w'. connect R fe' c c' v a i ?w \<noteq> (Inr s, w')"
    using connect_success [of R fe' c c' v a i ?w] assms(5) by fastforce
  then obtain x where "fst (connect R fe' c c' v a i ?w) = Inl x"
    by (cases "fst (connect R fe' c c' v a i ?w)") (metis prod.collapse)+
  with connect_failure_keeps_sessions [OF this] show ?thesis by simp
qed

definition example_broker :: broker where
  "example_broker = \<lparr>br_agents = [''a''], br_lease_settings = example_settings, br_sessions = []\<rparr>"

lemma example_connect:
  "\<exists>w. connect ks_redis None 0 0 ''u'' ''a'' ''i'' (fresh_keyspace 0, example_broker) = (Inr (new_session ''a'' ''i''
     \<lparr>lease_agent_id = ''a'', lease_instance_id = ''i'', lease_owner = ''u'', lease_expires_at = 6\<rparr>), w)"
proof -
  have "fst (lease_acquire ks_redis example_settings 0 0 ''u'' ''a'' ''i'' (fresh_keyspace 0))
      = Inr \<lparr>lease_agent_id = ''a'', lease_instance_id = ''i'', lease_owner = ''u'', lease_expires_at = 6\<rparr>"
    using example_acquire by (metis fst_conv)
  then show ?thesis
    by (simp add: connect_def io_simps catchio_def example_broker_def valid_ident_def ident_char_def Let_def)
qed

theorem one_broker_per_instance_witness:
  "\<exists>db e. fst (connect ks_redis None 1 1 ''v'' ''a'' ''i'' (db, example_broker)) = Inl e"
proof -
  obtain s w where run: "connect ks_redis None 0 0 ''u'' ''a'' ''i'' (fresh_keyspace 0, example_broker) = (Inr s, w)"
    using example_connect by blast
  from one_broker_per_instance [OF ref_clock.redis_clock_axioms run, of "[Elapse 1000]" example_broker None 1 1 "''v''"]
  show ?thesis by (auto simp: example_broker_def example_settings_def)
qed

text \<open>
  Connecting creates a session only for an allowlisted agent and a well-formed instance that
  this broker does not serve yet, with an empty queue and nothing in flight, under the lease
  that the server then records under the drawn token; and however the session's task ends (a
  refused renewal, a lease lost locally, the worker's failure, its end or cancellation), the
  token is no longer recorded.
\<close>

theorem session_lifecycle:
  assumes "redis_server R view" and "connect R fe t t' u a i (db, b) = (Inr s, (db', b'))"
  shows "a \<in> set (br_agents b) \<and> valid_ident 32 i \<and> map_of (br_sessions b) (a, i) = None \<and>
      b' = b\<lparr>br_sessions := dict_put (a, i) s (br_sessions b)\<rparr> \<and>
      q_items (ses_outbound s) = [] \<and> ses_inflight s = [] \<and>
      ks_data (view db') (session_key a i) = Some (RString u) \<and>
      ks_data (view (fst (snd (run_owned R rounds worker (ses_lease s) (db', b'))))) (session_key a i)
        \<noteq> Some (RString u)"
proof -
  obtain l where acq: "lease_acquire R (br_lease_settings b) t t' u a i db = (Inr l, db')" and s: "s = new_session a i l"
    using connect_success [OF assms(2)] by auto
  then have run: "lease_acquire ks_redis (br_lease_settings b) t t' u a i (view db) = (Inr l, view db')"
    using implements_run [OF redis_server.lease_acquire_impl [OF assms(1)]] by blast
  then have l: "lease_agent_id l = a" "lease_instance_id l = i" "lease_owner l = u"
    by (auto simp: lease_acquire_def io_simps Let_def split: sum.splits if_splits)
  have "index_typed (lease_agent_id l) (view (fst (db', b')))" using acquire_index_typed [OF run] l by simp
  from redis_server.run_owned_gives_up [OF assms(1) this, of rounds worker]
  show ?thesis
    using connect_success [OF assms(2)] lease_acquire_success [OF run] l s
    by (simp add: new_session_def owned_def)
qed

theorem session_lifecycle_witness:
  "\<exists>w. ks_data (fst (snd (run_owned ks_redis [(1, 1, 1)] None
     \<lparr>lease_agent_id = ''a'', lease_instance_id = ''i'', lease_owner = ''u'', lease_expires_at = 6\<rparr> w))) (session_key ''a'' ''i'')
     \<noteq> Some (RString ''u'')"
proof -
  obtain db b where "connect ks_redis None 0 0 ''u'' ''a'' ''i'' (fresh_keyspace 0, example_broker) = (Inr (new_session ''a'' ''i''
     \<lparr>lease_agent_id = ''a'', lease_instance_id = ''i'', lease_owner = ''u'', lease_expires_at = 6\<rparr>), (db, b))"
    using example_connect by (metis prod.collapse)
  from session_lifecycle [OF ref.redis_server_axioms this, of "[(1, 1, 1)]" None]
  show ?thesis by (auto simp: new_session_def simp del: split_paired_Ex)
qed

text \<open>
  Making room in a full queue removes the oldest deliveries only, as many as needed, and takes
  exactly these out of the deliveries in flight; a queue that is not full keeps everything.
\<close>

theorem drop_oldest_outbound_spec:
  assumes "drop_oldest_outbound q fl = (q', fl', n)"
  shows "\<not> q_full q' \<and> q_maxsize q' = q_maxsize q \<and>
    (\<exists>gone. q_items q = gone @ q_items q' \<and> n = length gone \<and>
       fl' = filter (\<lambda>kv. fst kv \<notin> out_delivery_id ` set gone) fl) \<and> (\<not> q_full q \<longrightarrow> n = 0)"
  by (rule drop_oldest_spec [OF assms])

theorem drop_oldest_outbound_spec_witness:
  "\<exists>q' fl' n. drop_oldest_outbound \<lparr>q_maxsize = 1, q_items =
     [\<lparr>out_delivery_id = ''d'', out_envelope = ''{}'', out_message_id = None\<rparr>]\<rparr> [] = (q', fl', n) \<and> \<not> q_full q'"
proof -
  let ?q = "\<lparr>q_maxsize = 1, q_items = [\<lparr>out_delivery_id = ''d'', out_envelope = ''{}'', out_message_id = None\<rparr>]\<rparr>"
  obtain q' fl' n where "drop_oldest_outbound ?q [] = (q', fl', n)" by (metis prod_cases3)
  with drop_oldest_outbound_spec [OF this] show ?thesis by auto
qed

end
