(* ===== verification/Text_Numbers.thy ===== *)
theory Text_Numbers
  imports Prelude
begin

text \<open>
  Numbers travel as text between Python, Redis and its Lua. The conversions are code outside
  the repository and so a parameter: the record \<open>text_numbers\<close>, with their documented laws as
  the locale \<open>numerals\<close>.
\<close>

record text_numbers =
  tonumber :: "string \<Rightarrow> real option"
  tostring :: "real \<Rightarrow> string"
  py_float :: "string \<Rightarrow> real option"
  py_int :: "string \<Rightarrow> int option"
  py_bool :: "string \<Rightarrow> bool option"
  py_repr :: "real \<Rightarrow> string"
  is_double :: "real \<Rightarrow> bool"

text \<open>
  Lua's \<open>tonumber\<close> and Python's \<open>int\<close> read a decimal exactly (up to \<open>2 ^ 53\<close> in Lua), Python
  reads every finite number that Lua prints, and Python's text of a finite double is not empty
  and reads back as the same double; what Python reads is a double.
\<close>

locale numerals =
  fixes N :: text_numbers
  assumes tonumber_show: "n \<le> 2 ^ 53 \<Longrightarrow> tonumber N (show_nat n) = Some (real n)"
    and py_int_show: "py_int N (show_nat n) = Some (int n)"
    and py_float_tostring: "\<exists>y. py_float N (tostring N x) = Some y"
    and py_float_repr: "is_double N x \<Longrightarrow> py_float N (py_repr N x) = Some x"
    and py_float_double: "py_float N t = Some x \<Longrightarrow> is_double N x"
    and py_repr_nonempty: "is_double N x \<Longrightarrow> py_repr N x \<noteq> []"

text \<open>Conversions of decimals without sign, fraction and exponent.\<close>

definition decimal_numbers :: text_numbers where
  "decimal_numbers = \<lparr>tonumber = (\<lambda>s. map_option real (read_nat s)),
     tostring = (\<lambda>x. show_nat (nat \<lfloor>x\<rfloor>)), py_float = (\<lambda>s. map_option real (read_nat s)),
     py_int = (\<lambda>s. map_option int (read_nat s)), py_bool = (\<lambda>s. Some (s = ''true'')),
     py_repr = (\<lambda>x. show_nat (nat \<lfloor>x\<rfloor>)), is_double = (\<lambda>x. x = real (nat \<lfloor>x\<rfloor>))\<rparr>"

interpretation dec: numerals decimal_numbers
  by unfold_locales (auto simp: decimal_numbers_def)

end
