(* ===== verification/Json_Text.thy ===== *)
theory Json_Text
  imports Wire_Text Text_Numbers
begin

text \<open>
  Python's \<open>json.dumps\<close> as the sources call it: separators, \<open>sort_keys\<close>, and the escapes of
  \<open>ensure_ascii\<close>. Text is Latin-1, one character per code point; the text of a float is the
  parameter \<open>py_repr\<close>.
\<close>

definition hex_digit :: "nat \<Rightarrow> char" where
  "hex_digit d = (if d < 10 then char_of (48 + d) else char_of (87 + d))"

definition json_escape :: "char \<Rightarrow> string" where
  "json_escape c =
     (let n = (of_char c :: nat); slash = CHR 0x5C in
      if n = 34 \<or> n = 92 then [slash, c]
      else if n = 10 then [slash, CHR ''n''] else if n = 13 then [slash, CHR ''r'']
      else if n = 9 then [slash, CHR ''t''] else if n = 12 then [slash, CHR ''f'']
      else if n = 8 then [slash, CHR ''b'']
      else if n < 32 \<or> 126 < n then [slash] @ ''u00'' @ [hex_digit (n div 16), hex_digit (n mod 16)]
      else [c])"

definition json_quote :: "string \<Rightarrow> string" where
  "json_quote s = [CHR 0x22] @ concat (map json_escape s) @ [CHR 0x22]"

fun join_with :: "string \<Rightarrow> string list \<Rightarrow> string" where
  "join_with sep [] = []"
| "join_with sep [x] = x"
| "join_with sep (x # y # zs) = x @ sep @ join_with sep (y # zs)"

definition bool_text :: "bool \<Rightarrow> string" where
  "bool_text b = (if b then ''true'' else ''false'')"

text \<open>Members keep their order, or are sorted by key.\<close>

fun dumps :: "text_numbers \<Rightarrow> string \<Rightarrow> string \<Rightarrow> bool \<Rightarrow> json \<Rightarrow> string" where
  "dumps N sep ksep sk JNull = ''null''"
| "dumps N sep ksep sk (JBool b) = bool_text b"
| "dumps N sep ksep sk (JInt i) = show_int i"
| "dumps N sep ksep sk (JFloat x) = py_repr N x"
| "dumps N sep ksep sk (JStr s) = json_quote s"
| "dumps N sep ksep sk (JList xs) = ''['' @ join_with sep (map (dumps N sep ksep sk) xs) @ '']''"
| "dumps N sep ksep sk (JObj kvs) =
     (let members = map (\<lambda>kv. (fst kv, json_quote (fst kv) @ ksep @ dumps N sep ksep sk (snd kv))) kvs in
      ''{'' @ join_with sep (map snd (if sk then sort_key fst members else members)) @ ''}'')"

text \<open>\<open>json.dumps(x)\<close>, and \<open>json.dumps(x, sort_keys=True, separators=(",", ":"))\<close>.\<close>

definition json_dumps :: "text_numbers \<Rightarrow> json \<Rightarrow> string" where
  "json_dumps N = dumps N '', '' '': '' False"

definition json_canonical :: "text_numbers \<Rightarrow> json \<Rightarrow> string" where
  "json_canonical N = dumps N '','' '':'' True"

lemma join_with_append:
  "xs \<noteq> [] \<Longrightarrow> ys \<noteq> [] \<Longrightarrow> join_with sep (xs @ ys) = join_with sep xs @ sep @ join_with sep ys"
proof (induction xs rule: join_with.induct [of _ sep, case_names Nil One More])
  case (One sep x)
  then show ?case by (cases ys) auto
qed auto

lemma json_quote_nonempty [simp]: "json_quote s \<noteq> []"
  by (simp add: json_quote_def)

end
