(* ===== verification/Json_Parse.thy ===== *)
theory Json_Parse
  imports Json_Text "HOL-Library.Multiset"
begin

text \<open>
  Python's \<open>json.loads\<close> as the sources call it, on Latin-1 text: escapes of code points beyond
  it, and the constants \<open>NaN\<close> and \<open>Infinity\<close>, which no caller accepts, are outside the model
  and refused. Reading what \<open>json.dumps\<close> wrote gives the value back, its members sorted when
  they were written sorted.
\<close>

section \<open>Scanner\<close>

definition json_space :: "char \<Rightarrow> bool" where
  "json_space c \<longleftrightarrow> c \<in> {CHR '' '', CHR 0x09, CHR 0x0A, CHR 0x0D}"

definition skip_space :: "string \<Rightarrow> string" where
  "skip_space t = dropWhile json_space t"

definition hex_val :: "char \<Rightarrow> nat option" where
  "hex_val c =
     (let n = of_char c in
      if 48 \<le> n \<and> n \<le> 57 then Some (n - 48) else if 97 \<le> n \<and> n \<le> 102 then Some (n - 87)
      else if 65 \<le> n \<and> n \<le> 70 then Some (n - 55) else None)"

definition unescape :: "char \<Rightarrow> char option" where
  "unescape c =
     (if c = CHR 0x22 \<or> c = CHR 0x5C \<or> c = CHR ''/'' then Some c
      else if c = CHR ''n'' then Some (CHR 0x0A) else if c = CHR ''r'' then Some (CHR 0x0D)
      else if c = CHR ''t'' then Some (CHR 0x09) else if c = CHR ''f'' then Some (CHR 0x0C)
      else if c = CHR ''b'' then Some (CHR 0x08) else None)"

definition code_unit :: "char \<Rightarrow> char \<Rightarrow> char \<Rightarrow> char \<Rightarrow> char option" where
  "code_unit a b c d =
     (case (hex_val a, hex_val b, hex_val c, hex_val d) of
        (Some 0, Some 0, Some h, Some l) \<Rightarrow> Some (char_of (16 * h + l))
      | _ \<Rightarrow> None)"

definition cons_char :: "char \<Rightarrow> (string \<times> string) option \<Rightarrow> (string \<times> string) option" where
  "cons_char c r = map_option (\<lambda>sr. (c # fst sr, snd sr)) r"

text \<open>The rest of a string literal, behind its opening quote.\<close>

fun read_literal :: "string \<Rightarrow> (string \<times> string) option" where
  "read_literal [] = None"
| "read_literal (c # cs) =
     (if c = CHR 0x22 then Some ([], cs)
      else if c = CHR 0x5C then
        (case cs of
           [] \<Rightarrow> None
         | e # es \<Rightarrow>
             if e = CHR ''u'' then
               (case es of
                  h1 # h2 # h3 # h4 # rest \<Rightarrow>
                    (case code_unit h1 h2 h3 h4 of None \<Rightarrow> None | Some d \<Rightarrow> cons_char d (read_literal rest))
                | _ \<Rightarrow> None)
             else (case unescape e of None \<Rightarrow> None | Some d \<Rightarrow> cons_char d (read_literal es)))
      else if (of_char c :: nat) < 32 then None
      else cons_char c (read_literal cs))"

text \<open>A numeral: its sign and integer part, its fraction, its exponent; each with what follows.\<close>

definition digits_of :: "string \<Rightarrow> string \<times> string" where
  "digits_of t = (takeWhile is_digit t, dropWhile is_digit t)"

definition int_part :: "string \<Rightarrow> (string \<times> string) option" where
  "int_part t =
     (let sign = (if take 1 t = ''-'' then ''-'' else []); r = drop (length sign) t in
      case r of
        [] \<Rightarrow> None
      | c # cs \<Rightarrow>
          if c = CHR ''0'' then Some (sign @ [c], cs)
          else if is_digit c then Some (sign @ fst (digits_of r), snd (digits_of r))
          else None)"

definition frac_part :: "string \<Rightarrow> string \<times> string" where
  "frac_part t =
     (if take 1 t = ''.'' \<and> fst (digits_of (drop 1 t)) \<noteq> []
      then (''.'' @ fst (digits_of (drop 1 t)), snd (digits_of (drop 1 t))) else ([], t))"

definition exp_part :: "string \<Rightarrow> string \<times> string" where
  "exp_part t =
     (if take 1 t = ''e'' \<or> take 1 t = ''E'' then
        (let r = drop 1 t; sign = (if take 1 r = ''+'' \<or> take 1 r = ''-'' then take 1 r else []);
             ds = digits_of (drop (length sign) r) in
         if fst ds \<noteq> [] then (take 1 t @ sign @ fst ds, snd ds) else ([], t))
      else ([], t))"

definition int_of_text :: "string \<Rightarrow> int" where
  "int_of_text t = (if take 1 t = ''-'' then - int (nat_of_digits (drop 1 t)) else int (nat_of_digits t))"

definition numeral_of :: "string \<Rightarrow> (string \<times> string \<times> string \<times> string) option" where
  "numeral_of t =
     (case int_part t of
        None \<Rightarrow> None
      | Some (i, r) \<Rightarrow>
          (let (f, r1) = frac_part r; (e, r2) = exp_part r1 in Some (i, f, e, r2)))"

definition read_number :: "text_numbers \<Rightarrow> string \<Rightarrow> (json \<times> string) option" where
  "read_number N t =
     (case numeral_of t of
        None \<Rightarrow> None
      | Some (i, f, e, r) \<Rightarrow>
          if f = [] \<and> e = [] then Some (JInt (int_of_text i), r)
          else map_option (\<lambda>x. (JFloat x, r)) (py_float N (i @ f @ e)))"

section \<open>Parser\<close>

text \<open>Members are entered into a dictionary, so the last of equal keys counts.\<close>

definition dict_of :: "(string \<times> 'a) list \<Rightarrow> (string \<times> 'a) list" where
  "dict_of kvs = fold (\<lambda>kv. dict_put (fst kv) (snd kv)) kvs []"

fun parse_value :: "text_numbers \<Rightarrow> nat \<Rightarrow> string \<Rightarrow> (json \<times> string) option"
and parse_items :: "text_numbers \<Rightarrow> nat \<Rightarrow> string \<Rightarrow> (json list \<times> string) option"
and parse_members :: "text_numbers \<Rightarrow> nat \<Rightarrow> string \<Rightarrow> ((string \<times> json) list \<times> string) option" where
  "parse_value N 0 t = None"
| "parse_value N (Suc n) t =
     (if take 1 t = [CHR 0x22] then map_option (\<lambda>sr. (JStr (fst sr), snd sr)) (read_literal (drop 1 t))
      else if take 1 t = ''['' then
        (let r = skip_space (drop 1 t) in
         if take 1 r = '']'' then Some (JList [], drop 1 r)
         else map_option (\<lambda>xr. (JList (fst xr), snd xr)) (parse_items N n r))
      else if take 1 t = ''{'' then
        (let r = skip_space (drop 1 t) in
         if take 1 r = ''}'' then Some (JObj [], drop 1 r)
         else map_option (\<lambda>xr. (JObj (dict_of (fst xr)), snd xr)) (parse_members N n r))
      else if has_prefix ''null'' t then Some (JNull, drop 4 t)
      else if has_prefix ''true'' t then Some (JBool True, drop 4 t)
      else if has_prefix ''false'' t then Some (JBool False, drop 5 t)
      else read_number N t)"
| "parse_items N 0 t = None"
| "parse_items N (Suc n) t =
     (case parse_value N n t of
        None \<Rightarrow> None
      | Some (x, r) \<Rightarrow>
          (let r = skip_space r in
           if take 1 r = '']'' then Some ([x], drop 1 r)
           else if take 1 r = '','' then
             map_option (\<lambda>xr. (x # fst xr, snd xr)) (parse_items N n (skip_space (drop 1 r)))
           else None))"
| "parse_members N 0 t = None"
| "parse_members N (Suc n) t =
     (if take 1 t \<noteq> [CHR 0x22] then None
      else case read_literal (drop 1 t) of
        None \<Rightarrow> None
      | Some (k, r) \<Rightarrow>
          (let r = skip_space r in
           if take 1 r \<noteq> '':'' then None
           else case parse_value N n (skip_space (drop 1 r)) of
             None \<Rightarrow> None
           | Some (x, r) \<Rightarrow>
               (let r = skip_space r in
                if take 1 r = ''}'' then Some ([(k, x)], drop 1 r)
                else if take 1 r = '','' then
                  map_option (\<lambda>xr. ((k, x) # fst xr, snd xr)) (parse_members N n (skip_space (drop 1 r)))
                else None)))"

text \<open>Every step takes a character, so two steps per character are enough.\<close>

definition json_loads :: "text_numbers \<Rightarrow> string \<Rightarrow> json option" where
  "json_loads N t =
     (case parse_value N (2 * length t) (skip_space t) of
        Some (v, r) \<Rightarrow> if skip_space r = [] then Some v else None
      | None \<Rightarrow> None)"

section \<open>Reading back\<close>

text \<open>The values \<open>json.dumps\<close> can write and what reading them gives.\<close>

fun json_ok :: "text_numbers \<Rightarrow> json \<Rightarrow> bool" where
  "json_ok N (JFloat x) = is_double N x"
| "json_ok N (JList xs) = list_all (json_ok N) xs"
| "json_ok N (JObj kvs) = (distinct (map fst kvs) \<and> list_all (\<lambda>kv. json_ok N (snd kv)) kvs)"
| "json_ok N v = True"

fun normal :: "bool \<Rightarrow> json \<Rightarrow> json" where
  "normal sk (JList xs) = JList (map (normal sk) xs)"
| "normal sk (JObj kvs) =
     (let ms = map (\<lambda>kv. (fst kv, normal sk (snd kv))) kvs in JObj (if sk then sort_key fst ms else ms))"
| "normal sk v = v"

text \<open>Python's text of a double is a numeral with a fraction or an exponent.\<close>

definition float_text :: "string \<Rightarrow> bool" where
  "float_text t \<longleftrightarrow> (\<exists>i f e. numeral_of t = Some (i, f, e, []) \<and> (f \<noteq> [] \<or> e \<noteq> []))"

locale json_numerals = numerals +
  assumes repr_text: "is_double N x \<Longrightarrow> float_text (py_repr N x)"

subsection \<open>Strings\<close>

lemma hex_val_digit [simp]: "d < 16 \<Longrightarrow> hex_val (hex_digit d) = Some d"
  by (auto simp: hex_val_def hex_digit_def)

lemma code_unit_escape [simp]:
  "code_unit (CHR ''0'') (CHR ''0'') (hex_digit (of_char c div 16)) (hex_digit (of_char c mod 16)) = Some c"
proof -
  have n: "(of_char c :: nat) div 16 < 16" using nat_of_char_less_256 [of c] by (simp add: less_mult_imp_div_less)
  have "16 * (of_char c div 16) + of_char c mod 16 = (of_char c :: nat)" by simp
  moreover have "hex_val (CHR ''0'') = Some 0" by (simp add: hex_val_def)
  ultimately show ?thesis using n by (simp add: code_unit_def)
qed

lemma read_literal_plain:
  "c \<noteq> CHR 0x22 \<Longrightarrow> c \<noteq> CHR 0x5C \<Longrightarrow> 32 \<le> (of_char c :: nat) \<Longrightarrow> read_literal (c # t) = cons_char c (read_literal t)"
  by simp

lemma read_literal_escape: "read_literal (json_escape c @ t) = cons_char c (read_literal t)"
proof -
  let ?n = "of_char c :: nat"
  consider "?n \<in> {34, 92, 10, 13, 9, 12, 8}" | "?n \<notin> {34, 92, 10, 13, 9, 12, 8}" "?n < 32 \<or> 126 < ?n"
    | "?n \<notin> {34, 92, 10, 13, 9, 12, 8}" "32 \<le> ?n" "?n \<le> 126" by linarith
  then show ?thesis
  proof cases
    case 1
    then have "c \<in> {CHR 0x22, CHR 0x5C, CHR 0x0A, CHR 0x0D, CHR 0x09, CHR 0x0C, CHR 0x08}"
      unfolding insert_iff empty_iff of_char_eq_iff [where ?'a = nat, symmetric] by simp
    then show ?thesis by (elim insertE emptyE) (simp_all add: json_escape_def unescape_def Let_def)
  next
    case 2
    then show ?thesis by (simp add: json_escape_def Let_def)
  next
    case 3
    then have "c \<noteq> CHR 0x22" "c \<noteq> CHR 0x5C" by auto
    then show ?thesis using 3 by (simp add: json_escape_def Let_def)
  qed
qed

lemma read_literal_quote: "read_literal (concat (map json_escape s) @ CHR 0x22 # r) = Some (s, r)"
  by (induction s) (simp_all add: read_literal_escape cons_char_def)

subsection \<open>Numbers\<close>

text \<open>A numeral read up to its end is read the same before a delimiter.\<close>

definition delimited :: "string \<Rightarrow> bool" where
  "delimited r \<longleftrightarrow> (\<forall>c cs. r = c # cs \<longrightarrow> \<not> is_digit c \<and> c \<notin> set ''.eE+-'')"

lemma digits_of_delimited: "delimited r \<Longrightarrow> digits_of (t @ r) = (fst (digits_of t), snd (digits_of t) @ r)"
proof (induction t)
  case Nil
  then show ?case by (cases r) (auto simp: digits_of_def delimited_def)
qed (auto simp: digits_of_def)

lemma take1_append: "take 1 (t @ r) = (if t = [] then take 1 r else take 1 t)"
  by (cases t) auto

lemma delimited_take1: "delimited r \<Longrightarrow> c \<in> set ''.eE+-'' \<Longrightarrow> take 1 r \<noteq> [c]"
  by (cases r) (auto simp: delimited_def)

lemma int_part_delimited:
  assumes "int_part t = Some (i, q)" and r: "delimited r"
  shows "int_part (t @ r) = Some (i, q @ r)"
proof -
  have "t \<noteq> []" using assms by (auto simp: int_part_def)
  then show ?thesis
    using assms digits_of_delimited [OF r, of t] digits_of_delimited [OF r, of "drop 1 t"]
    by (cases t) (auto simp: int_part_def Let_def split: list.splits if_splits)
qed

lemma frac_part_delimited:
  "frac_part q = (f, q1) \<Longrightarrow> delimited r \<Longrightarrow> frac_part (q @ r) = (f, q1 @ r)"
  using digits_of_delimited [of r "drop 1 q"] delimited_take1 [of r "CHR ''.''"]
  by (cases q) (auto simp: frac_part_def split: if_splits)

lemma exp_part_delimited:
  assumes "exp_part q = (e, [])" and r: "delimited r"
  shows "exp_part (q @ r) = (e, r)"
proof (cases q)
  case Nil
  then show ?thesis
    using assms delimited_take1 [OF r, of "CHR ''e''"] delimited_take1 [OF r, of "CHR ''E''"] by (auto simp: exp_part_def)
next
  case (Cons c cs)
  then have c: "c = CHR ''e'' \<or> c = CHR ''E''" using assms by (auto simp: exp_part_def split: if_splits)
  have "cs \<noteq> []" using Cons assms c by (auto simp: exp_part_def digits_of_def)
  then show ?thesis
    using assms Cons c digits_of_delimited [OF r, of cs] digits_of_delimited [OF r, of "drop 1 cs"]
    by (cases cs) (auto simp: exp_part_def Let_def split: if_splits)
qed

lemma numeral_of_delimited:
  "numeral_of t = Some (i, f, e, []) \<Longrightarrow> delimited r \<Longrightarrow> numeral_of (t @ r) = Some (i, f, e, r)"
  using int_part_delimited [of t] frac_part_delimited exp_part_delimited
  by (fastforce simp: numeral_of_def split: option.splits prod.splits)

lemma numeral_of_text: "numeral_of t = Some (i, f, e, r) \<Longrightarrow> t = i @ f @ e @ r"
proof -
  have i: "int_part t = Some (a, b) \<Longrightarrow> t = a @ b" for t a b
    by (cases t) (auto simp: int_part_def digits_of_def Let_def split: list.splits if_splits)
  have f: "t = fst (frac_part t) @ snd (frac_part t)" for t
    by (cases t) (auto simp: frac_part_def digits_of_def)
  have e: "t = fst (exp_part t) @ snd (exp_part t)" for t
  proof (cases t)
    case (Cons c cs)
    then show ?thesis by (cases cs) (auto simp: exp_part_def digits_of_def Let_def)
  qed (simp add: exp_part_def)
  assume t: "numeral_of t = Some (i, f, e, r)"
  obtain x where x: "int_part t = Some x" using t by (cases "int_part t") (simp_all add: numeral_of_def)
  define q where "q = snd x"
  have q: "int_part t = Some (i, q)" "f = fst (frac_part q)"
      "e = fst (exp_part (snd (frac_part q)))" "r = snd (exp_part (snd (frac_part q)))"
    using t x by (simp_all add: numeral_of_def case_prod_unfold Let_def prod_eq_iff q_def)
  have "e @ r = snd (frac_part q)" unfolding q(3,4) by (rule e [symmetric])
  then have "f @ e @ r = q" unfolding q(2) by (metis f)
  then show "t = i @ f @ e @ r" using i [OF q(1)] by simp
qed

lemma digit_char_0: "digit_char 0 = CHR ''0''"
  by code_simp

lemma show_nat_head: "n \<noteq> 0 \<Longrightarrow> \<exists>c cs. show_nat n = c # cs \<and> c \<noteq> CHR ''0'' \<and> is_digit c"
proof (induction n rule: show_nat.induct)
  case (1 n)
  show ?case
  proof (cases "n < 10")
    case True
    have "digit_char n \<noteq> digit_char 0" using 1(2) True digit_val_digit_char [of n] digit_val_digit_char [of 0] by fastforce
    with True show ?thesis by (subst show_nat.simps) (simp add: digit_char_0)
  next
    case False
    then obtain c cs where "show_nat (n div 10) = c # cs" "c \<noteq> CHR ''0''" "is_digit c" using 1 by fastforce
    with False show ?thesis by (subst show_nat.simps) simp
  qed
qed

lemma digit_not_minus [simp]: "is_digit c \<Longrightarrow> c \<noteq> CHR ''-''"
  by (auto simp: is_digit_def)

lemma numeral_of_nat:
  assumes "sign \<in> {[], ''-''}"
  shows "numeral_of (sign @ show_nat n) = Some (sign @ show_nat n, [], [], [])"
proof (cases "n = 0")
  case True
  then have "show_nat n = ''0''" by (subst show_nat.simps) (simp add: digit_char_0)
  then show ?thesis using assms by (auto simp: numeral_of_def int_part_def frac_part_def exp_part_def)
next
  case False
  then obtain c cs where c: "show_nat n = c # cs" "c \<noteq> CHR ''0''" "is_digit c" using show_nat_head by blast
  moreover have "digits_of (show_nat n) = (show_nat n, [])"
    using show_nat_digits [of n] by (simp add: digits_of_def list_all_iff takeWhile_eq_all_conv dropWhile_eq_Nil_conv)
  ultimately have "int_part (sign @ show_nat n) = Some (sign @ show_nat n, [])"
    using assms by (auto simp: int_part_def Let_def)
  then show ?thesis by (simp add: numeral_of_def frac_part_def exp_part_def)
qed

lemma int_of_show [simp]: "int_of_text (show_int i) = i"
proof -
  have "take 1 (show_nat (nat i)) \<noteq> ''-''"
    using show_nat_digits [of "nat i"] by (cases "show_nat (nat i)") auto
  then show ?thesis by (simp add: int_of_text_def show_int_def nat_of_digits_show)
qed

lemma read_number_int: "delimited r \<Longrightarrow> read_number N (show_int i @ r) = Some (JInt i, r)"
proof -
  have "numeral_of (show_int i) = Some (show_int i, [], [], [])"
    using numeral_of_nat [of "''-''"] numeral_of_nat [of "[]"] by (auto simp: show_int_def)
  then show "delimited r \<Longrightarrow> read_number N (show_int i @ r) = Some (JInt i, r)"
    using numeral_of_delimited by (auto simp: read_number_def)
qed

context json_numerals
begin

lemma read_number_float:
  assumes "is_double N x" and "delimited r"
  shows "read_number N (py_repr N x @ r) = Some (JFloat x, r)"
proof -
  obtain i f e where t: "numeral_of (py_repr N x) = Some (i, f, e, [])" "f \<noteq> [] \<or> e \<noteq> []"
    using repr_text [OF assms(1)] by (auto simp: float_text_def)
  then have "py_repr N x = i @ f @ e" using numeral_of_text by fastforce
  with t show ?thesis
    using numeral_of_delimited [OF t(1) assms(2)] py_float_repr [OF assms(1)] by (auto simp: read_number_def)
qed

end

subsection \<open>Values\<close>

lemma insort_key_map: "insort_key f (g x) (map g xs) = map g (insort_key (\<lambda>x. f (g x)) x xs)"
  by (induction xs) auto

lemma sort_key_map: "sort_key f (map g xs) = map g (sort_key (\<lambda>x. f (g x)) xs)"
  by (induction xs) (simp_all add: insort_key_map)

lemma dict_of_distinct: "distinct (map fst kvs) \<Longrightarrow> dict_of kvs = kvs"
proof -
  have "distinct (map fst (d @ kvs)) \<Longrightarrow> fold (\<lambda>kv. dict_put (fst kv) (snd kv)) kvs d = d @ kvs" for d
  proof (induction kvs arbitrary: d)
    case (Cons kv kvs)
    then have "map_of d (fst kv) = None" by (auto simp: map_of_eq_None_iff)
    then show ?case using Cons by (simp add: dict_put_def)
  qed simp
  from this [of "[]"] show "distinct (map fst kvs) \<Longrightarrow> dict_of kvs = kvs" by (simp add: dict_of_def)
qed

lemma join_with_Cons: "join_with sep (x # xs) = x @ (if xs = [] then [] else sep @ join_with sep xs)"
  by (cases xs) auto

text \<open>How many steps of the parser a value takes, in whatever order its members are written.\<close>

fun steps :: "json \<Rightarrow> nat" where
  "steps (JList xs) = Suc (sum_list (map (\<lambda>x. Suc (steps x)) xs))"
| "steps (JObj kvs) = Suc (sum_list (map (\<lambda>kv. Suc (steps (snd kv))) kvs))"
| "steps v = 1"

definition ordered :: "bool \<Rightarrow> (string \<times> 'a) list \<Rightarrow> (string \<times> 'a) list" where
  "ordered sk kvs = (if sk then sort_key fst kvs else kvs)"

lemma ordered_map: "ordered sk (map (\<lambda>kv. (fst kv, f kv)) kvs) = map (\<lambda>kv. (fst kv, f kv)) (ordered sk kvs)"
  by (simp add: ordered_def sort_key_map)

lemma mset_ordered [simp]: "mset (ordered sk kvs) = mset kvs"
  by (simp add: ordered_def)

lemma set_ordered [simp]: "set (ordered sk kvs) = set kvs"
  by (simp add: ordered_def)

lemma distinct_ordered [simp]: "distinct (map fst (ordered sk kvs)) = distinct (map fst kvs)"
  by (metis mset_map mset_ordered mset_eq_imp_distinct_iff)

lemma sum_ordered: "sum_list (map f (ordered sk kvs)) = sum_list (map f kvs)" for f :: "string \<times> 'a \<Rightarrow> nat"
  by (metis mset_map mset_ordered sum_mset_sum_list)

lemma steps_join:
  assumes "\<And>x. x \<in> set xs \<Longrightarrow> g x \<le> 2 * length (f x)"
  shows "sum_list (map (\<lambda>x. Suc (g x)) xs) \<le> 2 * length (join_with (c # w) (map f xs)) + 1"
  using assms
proof (induction xs)
  case (Cons x xs)
  then have "g x \<le> 2 * length (f x)" "sum_list (map (\<lambda>x. Suc (g x)) xs) \<le> 2 * length (join_with (c # w) (map f xs)) + 1"
    by auto
  then show ?case by (cases xs) (auto simp: join_with_Cons)
qed simp

definition member_text :: "text_numbers \<Rightarrow> string \<Rightarrow> string \<Rightarrow> bool \<Rightarrow> string \<times> json \<Rightarrow> string" where
  "member_text N sep ksep sk kv = json_quote (fst kv) @ ksep @ dumps N sep ksep sk (snd kv)"

lemma dumps_obj:
  "dumps N sep ksep sk (JObj kvs) = ''{'' @ join_with sep (map (member_text N sep ksep sk) (ordered sk kvs)) @ ''}''"
proof -
  have "ordered sk (map (\<lambda>kv. (fst kv, member_text N sep ksep sk kv)) kvs) =
      map (\<lambda>kv. (fst kv, member_text N sep ksep sk kv)) (ordered sk kvs)" by (rule ordered_map)
  moreover have "member_text N sep ksep sk = (\<lambda>kv. json_quote (fst kv) @ ksep @ dumps N sep ksep sk (snd kv))"
    by (simp add: fun_eq_iff member_text_def)
  ultimately show ?thesis by (simp add: ordered_def comp_def split: if_splits)
qed

lemma normal_obj: "normal sk (JObj kvs) = JObj (map (\<lambda>kv. (fst kv, normal sk (snd kv))) (ordered sk kvs))"
  using ordered_map [of sk "\<lambda>kv. normal sk (snd kv)" kvs] by (simp add: ordered_def split: if_splits)

text \<open>The separators of the sources: a comma and a colon, each followed by blanks or not.\<close>

definition blank :: "string \<Rightarrow> bool" where
  "blank w \<longleftrightarrow> list_all json_space w"

definition starts_value :: "string \<Rightarrow> bool" where
  "starts_value t \<longleftrightarrow> (\<exists>c cs. t = c # cs \<and> \<not> json_space c \<and> c \<notin> set '']},:'')"

lemma skip_space_value [simp]: "starts_value t \<Longrightarrow> skip_space (t @ r) = t @ r"
  by (auto simp: starts_value_def skip_space_def)

lemma starts_value_quote [simp]: "starts_value (json_quote s @ t)"
  by (simp add: starts_value_def json_quote_def json_space_def)

lemma skip_space_closed [simp]:
  "skip_space (CHR '']'' # r) = CHR '']'' # r" "skip_space (CHR ''}'' # r) = CHR ''}'' # r"
  "skip_space (CHR '','' # r) = CHR '','' # r" "skip_space (CHR '':'' # r) = CHR '':'' # r" "skip_space [] = []"
  by (simp_all add: skip_space_def json_space_def)

lemma digit_starts: "is_digit c \<Longrightarrow> \<not> json_space c \<and> c \<notin> set '']},:''"
  by (auto simp: is_digit_def json_space_def)

lemma numeral_starts: "numeral_of t = Some x \<Longrightarrow> starts_value t \<and> take 1 t \<notin> {[CHR 0x22], ''['', ''{''} \<and>
    \<not> has_prefix ''null'' (t @ r) \<and> \<not> has_prefix ''true'' (t @ r) \<and> \<not> has_prefix ''false'' (t @ r)"
proof -
  assume t: "numeral_of t = Some x"
  then obtain y where "int_part t = Some y" by (cases "int_part t") (simp_all add: numeral_of_def)
  moreover have "is_digit (CHR ''0'')" by (simp add: is_digit_def)
  ultimately obtain c cs where c: "t = c # cs" "is_digit c \<or> c = CHR ''-''"
    by (cases t) (auto simp: int_part_def Let_def split: if_splits)
  have "\<not> is_digit (CHR 0x22)" "\<not> is_digit (CHR ''['')" "\<not> is_digit (CHR ''{'')" "\<not> is_digit (CHR ''n'')"
      "\<not> is_digit (CHR ''t'')" "\<not> is_digit (CHR ''f'')" by (simp_all add: is_digit_def)
  then have "c \<noteq> CHR 0x22" "c \<noteq> CHR ''[''" "c \<noteq> CHR ''{''" "c \<noteq> CHR ''n''" "c \<noteq> CHR ''t''" "c \<noteq> CHR ''f''"
    using c(2) by auto
  moreover have "\<not> json_space c \<and> c \<notin> set '']},:''" using c(2) digit_starts [of c] by (auto simp: json_space_def)
  ultimately show ?thesis unfolding c(1) starts_value_def has_prefix_def by simp
qed

lemma parse_numeral:
  assumes "numeral_of t = Some y"
  shows "parse_value N (Suc n) (t @ r) = read_number N (t @ r)"
proof -
  obtain c cs where "t = c # cs" using numeral_starts [OF assms, of r] by (auto simp: starts_value_def)
  then show ?thesis using numeral_starts [OF assms, of r] by simp
qed

lemma skip_blank [simp]: "blank w \<Longrightarrow> skip_space (w @ t) = skip_space t"
  by (simp add: blank_def skip_space_def list_all_iff)

lemma delimited_closed [simp]:
  "delimited (CHR '']'' # r)" "delimited (CHR ''}'' # r)" "delimited (CHR '','' # r)" "delimited []"
  by (simp_all add: delimited_def is_digit_def)

context json_numerals
begin

lemma float_numeral: "is_double N x \<Longrightarrow> \<exists>y. numeral_of (py_repr N x) = Some y"
  using repr_text unfolding float_text_def by blast

lemma int_numeral: "\<exists>y. numeral_of (show_int i) = Some y"
  using numeral_of_nat [of "''-''"] numeral_of_nat [of "[]"] by (auto simp: show_int_def)

lemma dumps_starts: "json_ok N v \<Longrightarrow> starts_value (dumps N sep ksep sk v)"
proof (cases v)
  case (JInt i)
  then show ?thesis using int_numeral [of i] numeral_starts by fastforce
next
  case (JFloat x)
  then show "json_ok N v \<Longrightarrow> ?thesis" using float_numeral [of x] numeral_starts by fastforce
qed (auto simp: starts_value_def json_quote_def json_space_def bool_text_def dumps_obj simp del: dumps.simps(7))

lemma parse_list:
  assumes "blank w" "xs \<noteq> []" "list_all (json_ok N) xs" "sum_list (map (\<lambda>x. Suc (steps x)) xs) \<le> n"
    and "\<And>x m r. x \<in> set xs \<Longrightarrow> steps x \<le> m \<Longrightarrow> delimited r \<Longrightarrow>
      parse_value N m (f x @ r) = Some (normal sk x, r)"
    and start: "\<And>x. x \<in> set xs \<Longrightarrow> starts_value (f x)"
  shows "parse_items N n (join_with (CHR '','' # w) (map f xs) @ CHR '']'' # r) = Some (map (normal sk) xs, r)"
  using assms(2-)
proof (induction xs arbitrary: n)
  case (Cons x xs)
  obtain m where n: "n = Suc m" using Cons.prems(3) by (cases n) auto
  have x: "parse_value N m (f x @ q) = Some (normal sk x, q)" if "delimited q" for q
    using Cons.prems(3,4) that n by simp
  show ?case
  proof (cases "xs = []")
    case True
    then show ?thesis using x n by simp
  next
    case False
    then obtain y ys where "xs = y # ys" by (cases xs) auto
    then have "starts_value (join_with (CHR '','' # w) (map f xs))"
      using Cons.prems(5) [of y] by (auto simp: join_with_Cons starts_value_def)
    then show ?thesis
      using Cons False n x assms(1) by (simp add: join_with_Cons)
  qed
qed simp

lemma parse_object:
  assumes "blank w" "blank u" "kvs \<noteq> []" "sum_list (map (\<lambda>kv. Suc (steps (snd kv))) kvs) \<le> n"
    and "\<And>kv m r. kv \<in> set kvs \<Longrightarrow> steps (snd kv) \<le> m \<Longrightarrow> delimited r \<Longrightarrow>
      parse_value N m (f (snd kv) @ r) = Some (normal sk (snd kv), r)"
    and "\<And>kv. kv \<in> set kvs \<Longrightarrow> starts_value (f (snd kv))"
  shows "parse_members N n (join_with (CHR '','' # w) (map (\<lambda>kv. json_quote (fst kv) @ CHR '':'' # u @ f (snd kv)) kvs) @
      CHR ''}'' # r) = Some (map (\<lambda>kv. (fst kv, normal sk (snd kv))) kvs, r)"
  using assms(3-)
proof (induction kvs arbitrary: n)
  case (Cons kv kvs)
  obtain m where n: "n = Suc m" using Cons.prems(2) by (cases n) auto
  have x: "parse_value N m (f (snd kv) @ q) = Some (normal sk (snd kv), q)" if "delimited q" for q
    using Cons.prems(2,3) that n by simp
  have start: "starts_value (f (snd kv))" using Cons.prems(4) by simp
  have key: "json_quote k @ q = CHR 0x22 # concat (map json_escape k) @ CHR 0x22 # q" for k q
    by (simp add: json_quote_def)
  show ?case
  proof (cases "kvs = []")
    case True
    then show ?thesis using x n start assms(2) by (simp add: key read_literal_quote)
  next
    case False
    then obtain y ys where "kvs = y # ys" by (cases kvs) auto
    then have "starts_value (join_with (CHR '','' # w) (map (\<lambda>kv. json_quote (fst kv) @ CHR '':'' # u @ f (snd kv)) kvs))"
      using starts_value_quote [of "fst y"] by (simp add: join_with_Cons)
    moreover have "parse_members N m (join_with (CHR '','' # w) (map (\<lambda>kv. json_quote (fst kv) @ CHR '':'' # u @ f (snd kv)) kvs) @
        CHR ''}'' # r) = Some (map (\<lambda>kv. (fst kv, normal sk (snd kv))) kvs, r)"
      using Cons.IH [OF False] Cons.prems n by simp
    ultimately show ?thesis
      using False n x start assms(1,2) by (simp add: join_with_Cons key read_literal_quote)
  qed
qed simp

lemmas steps_induct = steps.induct [case_names 1 2 null bool int float string]

lemma parse_dumps:
  assumes "blank w" "blank u"
  shows "json_ok N v \<Longrightarrow> steps v \<le> n \<Longrightarrow> delimited r \<Longrightarrow>
    parse_value N n (dumps N (CHR '','' # w) (CHR '':'' # u) sk v @ r) = Some (normal sk v, r)"
proof (induction v arbitrary: n r rule: steps_induct)
  case (1 xs)
  obtain m where n: "n = Suc m" using 1(3) by (cases n) auto
  show ?case
  proof (cases "xs = []")
    case False
    let ?t = "join_with (CHR '','' # w) (map (dumps N (CHR '','' # w) (CHR '':'' # u) sk) xs)"
    obtain y ys where y: "xs = y # ys" using False by (cases xs) auto
    then have "starts_value ?t" using dumps_starts [of y "CHR '','' # w" "CHR '':'' # u" sk] 1(2)
      by (auto simp: join_with_Cons starts_value_def)
    then obtain c cs where c: "?t = c # cs" "\<not> json_space c" "c \<noteq> CHR '']''" by (auto simp: starts_value_def)
    have "parse_items N m (?t @ CHR '']'' # r) = Some (map (normal sk) xs, r)"
      using 1 n False dumps_starts by (intro parse_list [OF assms(1)]) (auto simp: list_all_iff)
    then show ?thesis using n c by (simp add: skip_space_def)
  qed (simp add: n)
next
  case (2 kvs)
  obtain m where n: "n = Suc m" using 2(3) by (cases n) auto
  let ?f = "dumps N (CHR '','' # w) (CHR '':'' # u) sk" and ?kvs = "ordered sk kvs"
  let ?t = "join_with (CHR '','' # w) (map (\<lambda>kv. json_quote (fst kv) @ CHR '':'' # u @ ?f (snd kv)) ?kvs)"
  have txt_obj: "?f (JObj kvs) = CHR ''{'' # ?t @ ''}''"
    unfolding dumps_obj by (simp add: member_text_def [abs_def])
  have sum: "sum_list (map (\<lambda>kv. Suc (steps (snd kv))) ?kvs) = sum_list (map (\<lambda>kv. Suc (steps (snd kv))) kvs)"
    by (rule sum_ordered)
  show ?case
  proof (cases "kvs = []")
    case False
    then have "?kvs \<noteq> []" by (metis mset_ordered mset_zero_iff)
    then obtain y ys where y: "?kvs = y # ys" by (cases ?kvs) auto
    then obtain cs where c: "?t = CHR 0x22 # cs" by (simp add: join_with_Cons json_quote_def)
    have "parse_members N m (?t @ CHR ''}'' # r) = Some (map (\<lambda>kv. (fst kv, normal sk (snd kv))) ?kvs, r)"
      using 2 n sum \<open>?kvs \<noteq> []\<close> dumps_starts by (intro parse_object [OF assms]) (auto simp: list_all_iff)
    moreover have "dict_of (map (\<lambda>kv. (fst kv, normal sk (snd kv))) ?kvs) = map (\<lambda>kv. (fst kv, normal sk (snd kv))) ?kvs"
      using 2(2) by (intro dict_of_distinct) (simp add: comp_def)
    ultimately show ?thesis using n c unfolding txt_obj normal_obj by (simp add: skip_space_def json_space_def)
  qed (simp add: n)
next
  case (float x)
  then obtain y where "numeral_of (py_repr N x) = Some y" using float_numeral by fastforce
  then show ?case
    using parse_numeral float read_number_float [of x r] by (cases n) (auto simp del: parse_value.simps)
next
  case (int i)
  obtain y where "numeral_of (show_int i) = Some y" using int_numeral by blast
  then show ?case
    using parse_numeral int read_number_int [of r N i] by (cases n) (auto simp del: parse_value.simps)
qed (auto simp: bool_text_def has_prefix_def json_quote_def read_literal_quote gr0_conv_Suc dest!: Suc_le_D)

lemma steps_le: "json_ok N v \<Longrightarrow> steps v \<le> 2 * length (dumps N (CHR '','' # w) ksep sk v)"
proof (induction v rule: steps_induct)
  case (1 xs)
  have "sum_list (map (\<lambda>x. Suc (steps x)) xs) \<le> 2 * length (join_with (CHR '','' # w) (map (dumps N (CHR '','' # w) ksep sk) xs)) + 1"
    using 1 by (intro steps_join) (auto simp: list_all_iff)
  then show ?case by simp
next
  case (2 kvs)
  let ?f = "member_text N (CHR '','' # w) ksep sk" and ?kvs = "ordered sk kvs"
  have "sum_list (map (\<lambda>kv. Suc (steps (snd kv))) kvs) = sum_list (map (\<lambda>kv. Suc (steps (snd kv))) ?kvs)"
    by (rule sum_ordered [symmetric])
  also have "\<dots> \<le> 2 * length (join_with (CHR '','' # w) (map ?f ?kvs)) + 1"
  proof (rule steps_join)
    fix kv assume "kv \<in> set ?kvs"
    then have "steps (snd kv) \<le> 2 * length (dumps N (CHR '','' # w) ksep sk (snd kv))" using 2 by (auto simp: list_all_iff)
    then show "steps (snd kv) \<le> 2 * length (?f kv)" by (simp add: member_text_def)
  qed
  finally show ?case unfolding dumps_obj by simp
next
  case (float x)
  then show ?case using py_repr_nonempty [of x] by (cases "py_repr N x") auto
next
  case (int i)
  then show ?case using int_numeral [of i] numeral_starts [of "show_int i"] by (cases "show_int i") (auto simp: starts_value_def)
qed (auto simp: json_quote_def bool_text_def)

lemma loads_dumps:
  assumes "blank w" "blank u" "json_ok N v"
  shows "json_loads N (dumps N (CHR '','' # w) (CHR '':'' # u) sk v) = Some (normal sk v)"
proof -
  let ?t = "dumps N (CHR '','' # w) (CHR '':'' # u) sk v"
  have "skip_space ?t = ?t" using skip_space_value [OF dumps_starts [OF assms(3)], of _ _ _ "[]"] by simp
  moreover have "parse_value N (2 * length ?t) ?t = Some (normal sk v, [])"
    using parse_dumps [OF assms(1,2,3) steps_le [OF assms(3)], of "[]" w "CHR '':'' # u" sk] by simp
  ultimately show ?thesis by (simp add: json_loads_def)
qed

lemma normal_False [simp]: "normal False v = v"
  by (induction v rule: steps.induct) (auto simp: map_idI)

lemma json_loads_dumps: "json_ok N v \<Longrightarrow> json_loads N (json_dumps N v) = Some v"
  using loads_dumps [of "'' ''" "'' ''" v False] by (simp add: json_dumps_def blank_def json_space_def)

lemma json_loads_canonical: "json_ok N v \<Longrightarrow> json_loads N (json_canonical N v) = Some (normal True v)"
  using loads_dumps [of "[]" "[]" v True] by (simp add: json_canonical_def blank_def)

text \<open>Equal canonical texts are texts of equal values, up to the order of members.\<close>

lemma json_canonical_inject:
  "json_ok N v \<Longrightarrow> json_ok N v' \<Longrightarrow> json_canonical N v = json_canonical N v' \<Longrightarrow> normal True v = normal True v'"
  using json_loads_canonical by (metis option.inject)

end

text \<open>Natural numbers written with a point.\<close>

definition point_numbers :: text_numbers where
  "point_numbers = decimal_numbers\<lparr>
     py_float := (\<lambda>s. map_option real (read_nat (if drop (length s - 2) s = ''.0'' then take (length s - 2) s else s))),
     py_repr := (\<lambda>x. show_nat (nat \<lfloor>x\<rfloor>) @ ''.0'')\<rparr>"

lemma show_nat_no_point: "drop (length (show_nat n) - 2) (show_nat n) \<noteq> ''.0''"
proof
  assume "drop (length (show_nat n) - 2) (show_nat n) = ''.0''"
  then have "CHR ''.'' \<in> set (show_nat n)" by (metis in_set_dropD list.set_intros(1))
  then show False using show_nat_digits [of n] by (auto simp: list_all_iff is_digit_def)
qed

lemma point_float_text: "float_text (show_nat n @ ''.0'')"
proof -
  have "int_part (show_nat n @ ''.0'') = Some (show_nat n, ''.0'')"
  proof (cases "n = 0")
    case True
    then have "show_nat n = ''0''" by (subst show_nat.simps) (simp add: digit_char_0)
    then show ?thesis by (simp add: int_part_def)
  next
    case False
    then obtain c cs where c: "show_nat n = c # cs" "c \<noteq> CHR ''0''" "is_digit c" using show_nat_head by blast
    have "\<not> is_digit (CHR ''.'')" by (simp add: is_digit_def)
    then have "digits_of (show_nat n @ ''.0'') = (show_nat n, ''.0'')"
      using show_nat_digits [of n] by (auto simp: digits_of_def list_all_iff takeWhile_append dropWhile_append)
    then show ?thesis using c by (auto simp: int_part_def Let_def)
  qed
  moreover have "frac_part ''.0'' = (''.0'', [])" by (simp add: frac_part_def digits_of_def is_digit_def)
  ultimately show ?thesis by (simp add: float_text_def numeral_of_def exp_part_def)
qed

interpretation point: json_numerals point_numbers
proof
  fix x t
  show "\<exists>y. py_float point_numbers (tostring point_numbers x) = Some y"
    by (simp add: point_numbers_def decimal_numbers_def show_nat_no_point)
  show "py_float point_numbers t = Some x \<Longrightarrow> is_double point_numbers x"
    by (auto simp: point_numbers_def decimal_numbers_def)
  show "is_double point_numbers x \<Longrightarrow> float_text (py_repr point_numbers x)"
    by (simp add: point_numbers_def point_float_text)
qed (auto simp: point_numbers_def decimal_numbers_def)

end
