(* ===== verification/Registry.thy ===== *)
theory Registry
  imports Authorization Sessions Json_Parse
begin

text \<open>
  \<open>packages/mas-server/src/mas_server/registry.py\<close>: the allowlist of agents, its copy in Redis, and
  the agents that an agent can discover. What happens while \<open>discover\<close> waits is an argument.
\<close>

section \<open>RegistryService\<close>

type_synonym agent_table = "(string \<times> agent_definition) list"

definition agent_record_key :: "string \<Rightarrow> string" where
  "agent_record_key agent_id = ''agent:'' @ agent_id"

definition agent_record :: "text_numbers \<Rightarrow> real \<Rightarrow> string \<Rightarrow> agent_definition \<Rightarrow> (string \<times> string) list" where
  "agent_record N now agent_id d =
     [(''id'', agent_id), (''capabilities'', json_dumps N (JList (map JStr (def_capabilities d)))),
      (''metadata'', json_dumps N (JObj (def_metadata d))), (''registered_at'', py_repr N now)]"

text \<open>The replies, how many fields were new, are not read.\<close>

definition register_command :: "text_numbers \<Rightarrow> 'db redis \<Rightarrow> real \<Rightarrow> string \<times> agent_definition \<Rightarrow> ('db, reply) io" where
  "register_command N R now agent =
     seqio (HSET R (agent_record_key (fst agent)) (agent_record N now (fst agent) (snd agent))) (ret (IntReply 0))"

definition bootstrap_registry :: "text_numbers \<Rightarrow> 'db redis \<Rightarrow> agent_table \<Rightarrow> real \<Rightarrow> ('db, unit) io" where
  "bootstrap_registry N R agents now =
     (if agents = [] then ret ()
      else seqio (pipeline_execute R (map (register_command N R now) agents)) (ret ()))"

record discovery_record =
  disc_id :: string
  disc_capabilities :: "string list"
  disc_metadata :: "(string \<times> json) list"
  disc_status :: string

definition discovery_of :: "agent_definition \<Rightarrow> discovery_record" where
  "discovery_of d = \<lparr>disc_id = def_agent_id d, disc_capabilities = def_capabilities d, disc_metadata = def_metadata d, disc_status = ''ACTIVE''\<rparr>"

definition offers :: "string list \<Rightarrow> agent_definition \<Rightarrow> bool" where
  "offers capabilities d \<longleftrightarrow> capabilities = [] \<or> (\<exists>c \<in> set capabilities. c \<in> set (def_capabilities d))"

text \<open>The members of a set come in an order of their own; the result is sorted.\<close>

definition candidates :: "agent_table \<Rightarrow> string list \<Rightarrow> string set \<Rightarrow> string set \<Rightarrow> string list" where
  "candidates agents capabilities allowed blocked =
     (let found = (if ''*'' \<in> allowed then map fst agents else filter (\<lambda>t. t \<noteq> []) (sorted_list_of_set allowed)) in
      sort (filter (\<lambda>t. t \<notin> blocked \<and> (case map_of agents t of None \<Rightarrow> False | Some d \<Rightarrow> offers capabilities d)) found))"

primrec discover_active :: "'db redis \<Rightarrow> (nat \<Rightarrow> ('db, unit) io) \<Rightarrow> agent_table \<Rightarrow> string list \<Rightarrow> ('db, discovery_record list) io" where
  "discover_active R gap agents [] = ret []"
| "discover_active R gap agents (t # ts) =
     seqio (gap (length ts + 1)) (bindio (lease_active R t) (\<lambda>active.
     bindio (discover_active R gap agents ts) (\<lambda>rest.
     ret (case map_of agents t of Some d \<Rightarrow> if active then discovery_of d # rest else rest | None \<Rightarrow> rest))))"

definition discover :: "'db redis \<Rightarrow> (nat \<Rightarrow> ('db, unit) io) \<Rightarrow> agent_table \<Rightarrow> string \<Rightarrow> string list \<Rightarrow> ('db, discovery_record list) io" where
  "discover R gap agents agent_id capabilities =
     bindio (SMEMBERS R (allowed_key agent_id)) (\<lambda>allowed.
     seqio (gap 0) (bindio (SMEMBERS R (blocked_key agent_id)) (\<lambda>blocked.
     discover_active R gap agents (candidates agents capabilities allowed blocked))))"

section \<open>Facts\<close>

lemma lease_active_ks:
  assumes "type_of_value (ks_data ks (sessions_key a)) \<in> {TNone, TZset}"
  shows "lease_active ks_redis a ks = (Inr (connected a ks), ks)"
proof -
  have "script_ms (ks_now ks div 1000000, ks_now ks mod 1000000) = real (now_ms ks)"
    using script_now [of ks] by (simp add: script_ms_def)
  then show ?thesis using assms
    by (cases "ks_data ks (sessions_key a)" rule: type_of_value.cases)
       (auto simp: lease_active_def active_script_def io_simps ks_read_defs connected_def filter_empty_conv)
qed

lemma discover_active_ks:
  assumes "\<forall>t \<in> set ts. type_of_value (ks_data ks (sessions_key t)) \<in> {TNone, TZset} \<and> t \<in> fst ` set agents"
  shows "discover_active ks_redis (\<lambda>_. ret ()) agents ts ks = (Inr (map (\<lambda>t. discovery_of (the (map_of agents t))) (filter (\<lambda>t. connected t ks) ts)), ks)"
  using assms
proof (induction ts)
  case (Cons t ts)
  have "map_of agents t \<noteq> None" using Cons.prems by (simp add: map_of_eq_None_iff)
  then obtain d where "map_of agents t = Some d" by blast
  then show ?case using Cons lease_active_ks [of ks t] by (simp add: io_simps)
qed simp

lemma candidates_spec:
  assumes "finite allowed" and "distinct (map fst agents)"
  shows "sorted (candidates agents capabilities allowed blocked)" "distinct (candidates agents capabilities allowed blocked)"
    "t \<in> set (candidates agents capabilities allowed blocked) \<longleftrightarrow>
       (''*'' \<in> allowed \<or> t \<in> allowed \<and> t \<noteq> []) \<and> t \<notin> blocked \<and> (\<exists>d. map_of agents t = Some d \<and> offers capabilities d)"
proof -
  have "t \<in> fst ` set agents" if "map_of agents t = Some d" for d using map_of_SomeD [OF that] by force
  then show "t \<in> set (candidates agents capabilities allowed blocked) \<longleftrightarrow>
       (''*'' \<in> allowed \<or> t \<in> allowed \<and> t \<noteq> []) \<and> t \<notin> blocked \<and> (\<exists>d. map_of agents t = Some d \<and> offers capabilities d)"
    using assms(1) by (cases "map_of agents t") (auto simp: candidates_def Let_def split: option.splits)
qed (use assms in \<open>simp_all add: candidates_def Let_def\<close>)

definition registry_readable :: "agent_table \<Rightarrow> string \<Rightarrow> keyspace \<Rightarrow> bool" where
  "registry_readable agents agent_id ks \<longleftrightarrow>
     (\<forall>k \<in> {allowed_key agent_id, blocked_key agent_id}. type_of_value (ks_data ks k) \<in> {TNone, TSet}) \<and> finite (set_at (allowed_key agent_id) ks) \<and>
     (\<forall>t \<in> fst ` set agents. type_of_value (ks_data ks (sessions_key t)) \<in> {TNone, TZset})"

lemma smembers_at: "type_of_value (ks_data ks k) \<in> {TNone, TSet} \<Longrightarrow> ks_smembers k ks = (Inr (set_at k ks), ks)"
  by (cases "ks_data ks k" rule: type_of_value.cases) (auto simp: ks_smembers_def set_at_def)

text \<open>The hash of an agent.\<close>

definition published :: "text_numbers \<Rightarrow> string \<Rightarrow> agent_definition \<Rightarrow> keyspace \<Rightarrow> bool" where
  "published N a d ks \<longleftrightarrow> (\<exists>h. ks_data ks (agent_record_key a) = Some (RHash h) \<and> h ''id'' = Some a \<and>
     h ''capabilities'' = Some (json_dumps N (JList (map JStr (def_capabilities d)))) \<and> h ''metadata'' = Some (json_dumps N (JObj (def_metadata d))))"

lemma agent_record_key_eq [simp]: "agent_record_key a = agent_record_key b \<longleftrightarrow> a = b"
  by (simp add: agent_record_key_def)

lemma register_run:
  "ks_data (snd (register_command N ks_redis now (a, d) ks)) k = ks_data ks k \<or> k = agent_record_key a"
  "fst (register_command N ks_redis now (a, d) ks) = Inr x \<Longrightarrow> published N a d (snd (register_command N ks_redis now (a, d) ks))"
  by (auto simp: register_command_def io_simps ks_hset_def agent_record_def published_def split: option.splits rvalue.splits)

lemma register_all:
  assumes "ks_pipeline (map (register_command N ks_redis now) agents) ks = (Inr rs, ks')" and "first_error rs = Inr xs" and "distinct (map fst agents)"
  shows "(\<forall>k. k \<notin> agent_record_key ` fst ` set agents \<longrightarrow> ks_data ks' k = ks_data ks k) \<and> (\<forall>(a, d) \<in> set agents. published N a d ks')"
  using assms
proof (induction agents arbitrary: ks rs xs)
  case (Cons p agents)
  obtain a d where p: "p = (a, d)" by fastforce
  let ?run = "register_command N ks_redis now (a, d) ks"
  obtain rs' where rest: "ks_pipeline (map (register_command N ks_redis now) agents) (snd ?run) = (Inr rs', ks')" "rs = fst ?run # rs'"
    using Cons.prems(1) by (auto simp: p split: prod.splits sum.splits)
  obtain x ys where ok: "fst ?run = Inr x" "first_error rs' = Inr ys" using Cons.prems(2) rest(2) by (cases "fst ?run") (auto split: sum.splits)
  have IH: "(\<forall>k. k \<notin> agent_record_key ` fst ` set agents \<longrightarrow> ks_data ks' k = ks_data (snd ?run) k) \<and> (\<forall>(a, d) \<in> set agents. published N a d ks')"
    using Cons.IH [OF rest(1) ok(2)] Cons.prems(3) by simp
  have "agent_record_key a \<notin> agent_record_key ` fst ` set agents" using Cons.prems(3) by (auto simp: p rev_image_eqI)
  then have "published N a d ks'" using IH register_run(2) [OF ok(1)] by (simp add: published_def)
  then show ?case using IH register_run(1) [of N now a d ks] by (auto simp: p)
qed simp

lemma image_of_known:
  assumes "\<And>t. t \<in> S \<longleftrightarrow> (\<exists>d. m t = Some d \<and> Q d) \<and> R t"
  shows "(\<lambda>t. f (the (m t))) ` S = {f d | t d. m t = Some d \<and> Q d \<and> R t}"
proof (intro equalityI subsetI)
  fix x assume "x \<in> {f d | t d. m t = Some d \<and> Q d \<and> R t}"
  then obtain t d where "x = f d" "m t = Some d" "Q d" "R t" by blast
  then show "x \<in> (\<lambda>t. f (the (m t))) ` S" using assms [of t] by (intro image_eqI [of _ _ t]) auto
qed (use assms in fastforce)

section \<open>Properties\<close>

text \<open>
  C33. Discovery lists exactly whom the agent may write to: on readable storage and without
  interference it returns one record for each agent of the allowlist that has a wanted
  capability and that the authorization of a message without roles would permit, with the
  capabilities and metadata of the allowlist, in the order of their identifiers, and changes
  nothing.
\<close>

theorem discover_lists_permitted:
  assumes "registry_readable agents agent_id ks" and "distinct (map fst agents)" and "\<forall>(k, d) \<in> set agents. k = def_agent_id d \<and> k \<noteq> []"
  shows "\<exists>rs. discover ks_redis (\<lambda>_. ret ()) agents agent_id capabilities ks = (Inr rs, ks) \<and>
    sorted (map disc_id rs) \<and> distinct (map disc_id rs) \<and>
    set rs = {discovery_of d | t d. map_of agents t = Some d \<and> offers capabilities d \<and> permitted False agent_id t ''send'' ks}"
proof -
  let ?A = "set_at (allowed_key agent_id) ks" and ?B = "set_at (blocked_key agent_id) ks"
  let ?c = "candidates agents capabilities ?A ?B"
  let ?ts = "filter (\<lambda>t. connected t ks) ?c"
  have fin: "finite ?A" using assms(1) by (simp add: registry_readable_def)
  note c = candidates_spec [OF fin assms(2), where capabilities = capabilities and blocked = ?B]
  have key: "def_agent_id d = t" "t \<noteq> []" if "map_of agents t = Some d" for t d using assms(3) map_of_SomeD [OF that] by auto
  have agent: "t \<in> fst ` set agents" if "t \<in> set ?c" for t using c(3) [of t] that by (auto dest: map_of_SomeD intro: rev_image_eqI)
  have run: "discover ks_redis (\<lambda>_. ret ()) agents agent_id capabilities ks = (Inr (map (\<lambda>t. discovery_of (the (map_of agents t))) ?ts), ks)"
  proof -
    have "\<forall>t \<in> set ?c. type_of_value (ks_data ks (sessions_key t)) \<in> {TNone, TZset} \<and> t \<in> fst ` set agents"
      using agent assms(1) unfolding registry_readable_def by blast
    from discover_active_ks [OF this] show ?thesis
      using assms(1) smembers_at [of ks "allowed_key agent_id"] smembers_at [of ks "blocked_key agent_id"]
      by (simp add: discover_def io_simps registry_readable_def)
  qed
  have "disc_id (discovery_of (the (map_of agents t))) = t" if "t \<in> set ?ts" for t
    using c(3) [of t] that key(1) by (auto simp: discovery_of_def)
  then have ids: "map disc_id (map (\<lambda>t. discovery_of (the (map_of agents t))) ?ts) = ?ts" unfolding map_map comp_def by (intro map_idI) blast
  have "set (map (\<lambda>t. discovery_of (the (map_of agents t))) ?ts) =
      {discovery_of d | t d. map_of agents t = Some d \<and> offers capabilities d \<and> permitted False agent_id t ''send'' ks}"
  proof -
    have "t \<in> set ?ts \<longleftrightarrow> (\<exists>d. map_of agents t = Some d \<and> offers capabilities d) \<and> permitted False agent_id t ''send'' ks" for t
      using c(3) [of t] key(2) [of t] by (auto simp: permitted_def)
    from image_of_known [OF this, of discovery_of] show ?thesis by (simp del: set_filter)
  qed
  then show ?thesis using run ids c(1,2) by (metis distinct_filter sorted_wrt_filter)
qed

definition example_agents :: agent_table where
  "example_agents = [(''b'', \<lparr>def_agent_id = ''b'', def_capabilities = [''chat''], def_metadata = []\<rparr>),
     (''c'', \<lparr>def_agent_id = ''c'', def_capabilities = [''chat''], def_metadata = []\<rparr>)]"

definition example_presence :: keyspace where
  "example_presence = (fresh_keyspace 0)\<lparr>ks_data := [sessions_key ''b'' \<mapsto> RZset [(5, ''i'')], allowed_key ''a'' \<mapsto> RSet {''b'', ''c''}]\<rparr>"

lemma example_presence_at:
  "ks_data example_presence k = (if k = allowed_key ''a'' then Some (RSet {''b'', ''c''}) else if k = sessions_key ''b'' then Some (RZset [(5, ''i'')]) else None)"
  "now_ms example_presence = 0"
  by (simp_all add: example_presence_def now_ms_def)

lemma presence_keys:
  "sessions_key x \<noteq> allowed_key y" "sessions_key x \<noteq> blocked_key y" "blocked_key ''a'' \<noteq> allowed_key ''a''" "sessions_key x = sessions_key y \<longleftrightarrow> x = y"
  by (simp_all add: sessions_key_def allowed_key_def blocked_key_def)

theorem discover_lists_permitted_witness:
  "\<exists>rs. discover ks_redis (\<lambda>_. ret ()) example_agents ''a'' [''chat''] example_presence = (Inr rs, example_presence) \<and> map disc_id rs = [''b'']"
proof -
  let ?ks = "example_presence" and ?d = "\<lambda>t. \<lparr>def_agent_id = t, def_capabilities = [''chat''], def_metadata = []\<rparr>"
  note at = example_presence_at presence_keys presence_keys(1,2) [symmetric] presence_keys(3) [symmetric]
  have "registry_readable example_agents ''a'' ?ks" by (auto simp: registry_readable_def set_at_def at example_agents_def)
  then obtain rs where rs: "discover ks_redis (\<lambda>_. ret ()) example_agents ''a'' [''chat''] ?ks = (Inr rs, ?ks)" "distinct (map disc_id rs)"
      "set rs = {discovery_of d | t d. map_of example_agents t = Some d \<and> offers [''chat''] d \<and> permitted False ''a'' t ''send'' ?ks}"
    using discover_lists_permitted [of example_agents "''a''" ?ks "[''chat'']"] by (auto simp: example_agents_def)
  have may: "permitted False ''a'' t ''send'' ?ks \<longleftrightarrow> t = ''b''" for t
    by (auto simp: permitted_def connected_def set_at_def at)
  have "set rs = {discovery_of (?d ''b'')}" unfolding rs(3) may by (auto simp: example_agents_def offers_def)
  moreover have "distinct rs" using rs(2) by (simp add: distinct_map)
  ultimately have "rs = [discovery_of (?d ''b'')]" by (cases rs; cases "tl rs") auto
  then show ?thesis using rs(1) by (simp add: discovery_of_def)
qed

text \<open>
  What the registry publishes can be read back: after a bootstrap that reports success, the
  hash of every agent of the allowlist holds its identifier and the JSON texts of its
  capabilities and of its metadata, which read as exactly these, and no key besides the
  hashes of these agents has changed.
\<close>

theorem bootstrap_publishes_agents:
  assumes "json_numerals N" and "distinct (map fst agents)" and "(a, d) \<in> set agents" and "json_ok N (JObj (def_metadata d))"
    and "bootstrap_registry N ks_redis agents now ks = (Inr (), ks')"
  shows "\<exists>h caps meta. ks_data ks' (agent_record_key a) = Some (RHash h) \<and> h ''id'' = Some a \<and>
    h ''capabilities'' = Some caps \<and> json_loads N caps = Some (JList (map JStr (def_capabilities d))) \<and>
    h ''metadata'' = Some meta \<and> json_loads N meta = Some (JObj (def_metadata d)) \<and>
    (\<forall>k. k \<notin> agent_record_key ` fst ` set agents \<longrightarrow> ks_data ks' k = ks_data ks k)"
proof -
  have "agents \<noteq> []" using assms(3) by auto
  then obtain rs xs where run: "ks_pipeline (map (register_command N ks_redis now) agents) ks = (Inr rs, ks')" "first_error rs = Inr xs"
    using assms(5) by (auto simp: bootstrap_registry_def io_simps pipeline_execute_def of_result_def prod_eq_iff split: sum.splits)
  have "json_loads N (json_dumps N (JList (map JStr (def_capabilities d)))) = Some (JList (map JStr (def_capabilities d)))"
    "json_loads N (json_dumps N (JObj (def_metadata d))) = Some (JObj (def_metadata d))"
    using json_numerals.json_loads_dumps [OF assms(1)] assms(4) by (simp_all add: list_all_iff)
  moreover have "published N a d ks'" "\<forall>k. k \<notin> agent_record_key ` fst ` set agents \<longrightarrow> ks_data ks' k = ks_data ks k"
    using register_all [OF run assms(2)] assms(3) by auto
  ultimately show ?thesis by (auto simp: published_def)
qed

theorem bootstrap_publishes_agents_witness:
  "\<exists>ks' h. bootstrap_registry point_numbers ks_redis example_agents 0 (fresh_keyspace 0) = (Inr (), ks') \<and>
     ks_data ks' (agent_record_key ''b'') = Some (RHash h) \<and> h ''id'' = Some ''b''"
proof -
  obtain ks' where run: "bootstrap_registry point_numbers ks_redis example_agents 0 (fresh_keyspace 0) = (Inr (), ks')"
    by (simp add: bootstrap_registry_def example_agents_def io_simps pipeline_execute_def register_command_def agent_record_def ks_hset_def of_result_def)
  have "(''b'', \<lparr>def_agent_id = ''b'', def_capabilities = [''chat''], def_metadata = []\<rparr>) \<in> set example_agents" "distinct (map fst example_agents)"
    by (simp_all add: example_agents_def)
  from bootstrap_publishes_agents [OF point.json_numerals_axioms this(2,1) _ run] run show ?thesis by auto
qed

end
