(* ===== verification/State_Store.thy ===== *)
theory State_Store
  imports Durability
begin

text \<open>
  \<open>packages/mas-server/src/mas_server/state.py\<close>: per-agent state under optimistic
  concurrency control. The scripts are \<open>validate_state\<close>, \<open>read_state\<close>, \<open>update_script\<close> and
  \<open>reset_script\<close>; \<open>snapshot\<close>, \<open>get_state\<close>, \<open>update_state\<close> and \<open>reset_state\<close> are the methods of \<open>StateStore\<close>.
\<close>

section \<open>Model\<close>

definition state_key :: "string \<Rightarrow> string" where
  "state_key agent_id = ''agent.state:'' @ agent_id"

definition revision_key :: "string \<Rightarrow> string" where
  "revision_key agent_id = ''agent.state.revision:'' @ agent_id"

definition max_revision :: nat where
  "max_revision = 9007199254740990"

definition validate_state :: "'db redis \<Rightarrow> string \<Rightarrow> string \<Rightarrow> ('db, int) io" where
  "validate_state R skey rkey =
     bindio (GET R rkey) (\<lambda>text.
     let revision_text = (case text of None \<Rightarrow> ''0'' | Some t \<Rightarrow> t) in
     case read_nat revision_text of
       None \<Rightarrow> raise (RedisError ''invalid_state_revision'')
     | Some revision \<Rightarrow>
         if revision > max_revision then raise (RedisError ''invalid_state_revision'')
         else bindio (TYPE_OF R skey) (\<lambda>state_type.
           if state_type \<noteq> TNone \<and> state_type \<noteq> THash
           then raise (RedisError ''invalid_state_storage_type'')
           else ret (int revision)))"

definition read_state :: "'db redis \<Rightarrow> string \<Rightarrow> string \<Rightarrow> ('db, int \<times> (string \<rightharpoonup> string)) io" where
  "read_state R skey rkey =
     bindio (validate_state R skey rkey) (\<lambda>revision.
     bindio (HGETALL R skey) (\<lambda>m. ret (revision, m)))"

definition update_script ::
  "'db redis \<Rightarrow> string \<Rightarrow> string \<Rightarrow> int \<Rightarrow> (string \<times> string) list \<Rightarrow> ('db, int) io" where
  "update_script R skey rkey expected pairs =
     bindio (validate_state R skey rkey) (\<lambda>revision.
     if revision \<noteq> expected then ret (- 1)
     else if pairs \<noteq> [] then seqio (HSET R skey pairs) (INCR R rkey)
     else ret revision)"

definition reset_script :: "'db redis \<Rightarrow> string \<Rightarrow> string \<Rightarrow> int \<Rightarrow> ('db, int) io" where
  "reset_script R skey rkey expected =
     bindio (validate_state R skey rkey) (\<lambda>revision.
     if revision \<noteq> expected then ret (- 1)
     else seqio (DEL R [skey]) (INCR R rkey))"

record state_snapshot =
  snapshot_fields :: "string \<rightharpoonup> string"
  snapshot_revision :: int

definition snapshot :: "'db redis \<Rightarrow> string \<Rightarrow> ('db, state_snapshot) io" where
  "snapshot R agent_id =
     bindio (read_state R (state_key agent_id) (revision_key agent_id)) (\<lambda>(revision, m).
     ret \<lparr>snapshot_fields = m, snapshot_revision = revision\<rparr>)"

definition get_state :: "'db redis \<Rightarrow> string \<Rightarrow> ('db, string \<rightharpoonup> string) io" where
  "get_state R agent_id = bindio (snapshot R agent_id) (\<lambda>s. ret (snapshot_fields s))"

definition revision_conflict :: err where
  "revision_conflict = RpcError ABORTED ''state_revision_conflict''"

definition update_state ::
  "'db redis \<Rightarrow> durability_settings \<Rightarrow> string \<Rightarrow> (string \<times> string) list \<Rightarrow> int \<Rightarrow> ('db, int) io" where
  "update_state R d agent_id updates expected =
     bindio (update_script R (state_key agent_id) (revision_key agent_id) expected updates)
       (\<lambda>revision. seqio (if revision \<ge> 0 then confirm R d else ret ())
         (if revision < 0 then raise revision_conflict else ret revision))"

definition reset_state :: "'db redis \<Rightarrow> durability_settings \<Rightarrow> string \<Rightarrow> int \<Rightarrow> ('db, int) io" where
  "reset_state R d agent_id expected =
     bindio (reset_script R (state_key agent_id) (revision_key agent_id) expected)
       (\<lambda>revision. seqio (if revision \<ge> 0 then confirm R d else ret ())
         (if revision < 0 then raise revision_conflict else ret revision))"

section \<open>What the store promises\<close>

text \<open>
  The abstract store of an agent is a revision and a finite map. A write names the revision
  it was computed from: it is refused unless that is the current one.
\<close>

datatype state_write = Update "(string \<times> string) list" | Reset

fun apply_write :: "state_write \<Rightarrow> nat \<times> (string \<rightharpoonup> string) \<Rightarrow> nat \<times> (string \<rightharpoonup> string)" where
  "apply_write (Update us) (r, m) = (if us = [] then (r, m) else (r + 1, m ++ map_of (rev us)))"
| "apply_write Reset (r, m) = (r + 1, Map.empty)"

definition write_state :: "'db redis \<Rightarrow> durability_settings \<Rightarrow> string \<Rightarrow> int \<Rightarrow> state_write \<Rightarrow> ('db, int) io" where
  "write_state R d agent_id expected w =
     (case w of Update us \<Rightarrow> update_state R d agent_id us expected
      | Reset \<Rightarrow> reset_state R d agent_id expected)"

definition effective :: "state_write \<Rightarrow> bool" where
  "effective w \<longleftrightarrow> w \<noteq> Update []"

text \<open>The abstract store in a keyspace, and the keyspaces in which it is well formed.\<close>

definition stored_revision :: "string \<Rightarrow> keyspace \<Rightarrow> nat" where
  "stored_revision a ks = (case ks_data ks (revision_key a) of
     Some (RString t) \<Rightarrow> nat_of_digits t | _ \<Rightarrow> 0)"

definition stored_fields :: "string \<Rightarrow> keyspace \<Rightarrow> string \<rightharpoonup> string" where
  "stored_fields a ks = (case ks_data ks (state_key a) of Some (RHash h) \<Rightarrow> h | _ \<Rightarrow> Map.empty)"

definition stored :: "string \<Rightarrow> keyspace \<Rightarrow> nat \<times> (string \<rightharpoonup> string)" where
  "stored a ks = (stored_revision a ks, stored_fields a ks)"

definition state_ok :: "string \<Rightarrow> keyspace \<Rightarrow> bool" where
  "state_ok a ks \<longleftrightarrow>
     (ks_data ks (revision_key a) = None \<or>
      (\<exists>n \<le> max_revision + 1. ks_data ks (revision_key a) = Some (RString (show_nat n)))) \<and>
     type_of_value (ks_data ks (state_key a)) \<in> {TNone, THash}"

text \<open>A history: writes of any agents, each with the revision its author had read.\<close>

type_synonym write_request = "string \<times> int \<times> state_write"

definition run_writes :: "'db redis \<Rightarrow> durability_settings \<Rightarrow> write_request list \<Rightarrow> 'db \<Rightarrow> 'db" where
  "run_writes R d ws db = fold (\<lambda>(a, e, w) s. snd (write_state R d a e w s)) ws db"

section \<open>On any server\<close>

context redis_server
begin

lemma validate_state_impl [implements_intros]:
  "implements view (validate_state R sk rk) (validate_state ks_redis sk rk)"
  by (auto simp: validate_state_def Let_def intro!: implements_intros)

lemma snapshot_impl [implements_intros]:
  "implements view (snapshot R a) (snapshot ks_redis a)"
  by (auto simp: snapshot_def read_state_def intro!: implements_intros)

lemma get_state_impl [implements_intros]:
  "implements view (get_state R a) (get_state ks_redis a)"
  by (auto simp: get_state_def intro!: implements_intros)

lemma update_state_impl [implements_intros]:
  "implements view (update_state R d a us e) (update_state ks_redis d a us e)"
  by (auto simp: update_state_def update_script_def intro!: implements_intros)

lemma reset_state_impl [implements_intros]:
  "implements view (reset_state R d a e) (reset_state ks_redis d a e)"
  by (auto simp: reset_state_def reset_script_def intro!: implements_intros)

lemma write_state_impl [implements_intros]:
  "implements view (write_state R d a e w) (write_state ks_redis d a e w)"
  by (cases w) (auto simp: write_state_def intro!: implements_intros)

end

section \<open>Refinement\<close>

lemma state_keys_apart [simp]:
  "state_key a \<noteq> revision_key b" "revision_key b \<noteq> state_key a"
  "state_key a = state_key b \<longleftrightarrow> a = b" "revision_key a = revision_key b \<longleftrightarrow> a = b"
  by (simp_all add: state_key_def revision_key_def)

lemma show_nat_hd: "show_nat n \<noteq> CHR ''-'' # cs"
  using show_nat_digits [of n] by (auto simp: is_digit_def)

lemma read_int64_show_nat: "n < 2 ^ 63 \<Longrightarrow> read_int64 (show_nat n) = Some (int n)"
  using show_nat_nonempty [of n] read_show_nat [of n] show_nat_hd [of n]
  by (cases "show_nat n") (auto simp: read_int64_def show_int_def Let_def)

lemma show_nat_small: "show_nat 0 = ''0''" "show_nat (Suc 0) = ''1''"
  by (simp_all add: show_nat.simps digit_char_def char_of_def bit_Suc_0_iff)

lemma ks_incr_revision:
  assumes "state_ok a ks" and "stored_revision a ks \<le> max_revision"
  shows "ks_incr (revision_key a) ks = (Inr (int (stored_revision a ks) + 1),
    ks_put (revision_key a) (RString (show_nat (stored_revision a ks + 1))) ks)"
proof (cases "ks_data ks (revision_key a)")
  case None
  then show ?thesis by (simp add: ks_incr_def stored_revision_def show_nat_small)
next
  case (Some v)
  with assms obtain n where n: "v = RString (show_nat n)" "n \<le> max_revision"
    by (auto simp: state_ok_def stored_revision_def nat_of_digits_show)
  then have "read_int64 (show_nat n) = Some (int n)"
    by (intro read_int64_show_nat) (simp add: max_revision_def)
  with n Some show ?thesis
    by (auto simp: ks_incr_def stored_revision_def nat_of_digits_show max_revision_def
        show_int_def nat_add_distrib)
qed

lemma validate_state_ks:
  assumes "state_ok a ks"
  shows "validate_state ks_redis (state_key a) (revision_key a) ks =
    (if stored_revision a ks \<le> max_revision then Inr (int (stored_revision a ks))
     else Inl (RedisError ''invalid_state_revision''), ks)"
  using assms read_show_nat [of 0]
  by (auto simp: validate_state_def Let_def io_simps ks_read_defs state_ok_def stored_revision_def
      nat_of_digits_show show_nat_small)

lemma ks_hset_state:
  assumes "state_ok a ks" and "us \<noteq> []"
  shows "ks_hset (state_key a) us ks =
    (Inr (), ks_put (state_key a) (RHash (stored_fields a ks ++ map_of (rev us))) ks)"
  using assms
  by (auto simp: ks_hset_def state_ok_def stored_fields_def split: option.splits rvalue.splits)

lemma stored_frame:
  "stored a (ks_put k v ks) = stored a ks"
  "state_ok a (ks_put k v ks) = state_ok a ks"
  if "k \<noteq> state_key a" "k \<noteq> revision_key a"
  using that by (simp_all add: stored_def stored_revision_def stored_fields_def state_ok_def)

text \<open>
  The heart of the refinement: one write against one keyspace, with the current revision and
  with another one.
\<close>

lemma write_state_ks:
  assumes ok: "state_ok a ks" and r: "stored_revision a ks \<le> max_revision"
  shows "int (stored_revision a ks) \<noteq> e \<Longrightarrow>
      write_state ks_redis d a e w ks = (Inl revision_conflict, ks)"
    and "int (stored_revision a ks) = e \<Longrightarrow> \<exists>ks'.
      write_state ks_redis d a e w ks =
        (if acknowledged d ks then Inr (int (fst (apply_write w (stored a ks)))) else Inl unconfirmed, ks') \<and>
      stored a ks' = apply_write w (stored a ks) \<and> state_ok a ks' \<and>
      (\<forall>b. b \<noteq> a \<longrightarrow> stored b ks' = stored b ks \<and> state_ok b ks' = state_ok b ks)"
proof -
  assume "int (stored_revision a ks) \<noteq> e"
  then show "write_state ks_redis d a e w ks = (Inl revision_conflict, ks)"
    using ok r
    by (cases w) (simp_all add: write_state_def update_state_def update_script_def reset_state_def
        reset_script_def io_simps validate_state_ks)
next
  assume e: "int (stored_revision a ks) = e"
  let ?n = "stored_revision a ks + 1"
  show "\<exists>ks'. write_state ks_redis d a e w ks =
        (if acknowledged d ks then Inr (int (fst (apply_write w (stored a ks)))) else Inl unconfirmed, ks') \<and>
      stored a ks' = apply_write w (stored a ks) \<and> state_ok a ks' \<and>
      (\<forall>b. b \<noteq> a \<longrightarrow> stored b ks' = stored b ks \<and> state_ok b ks' = state_ok b ks)"
  proof (cases w)
    case Reset
    define mid where "mid = ks_remove (state_key a) ks"
    have "state_ok a mid" "stored_revision a mid = stored_revision a ks"
      using ok by (simp_all add: mid_def state_ok_def stored_revision_def)
    then have incr: "ks_incr (revision_key a) mid =
        (Inr (int (stored_revision a ks) + 1), ks_put (revision_key a) (RString (show_nat ?n)) mid)"
      using r ks_incr_revision [of a mid] by simp
    show ?thesis
      using ok r e Reset
      by (intro exI [of _ "ks_put (revision_key a) (RString (show_nat ?n)) mid"])
         (simp add: write_state_def reset_state_def reset_script_def io_simps validate_state_ks
           ks_del_def incr confirm_ks mid_def [symmetric],
          auto simp: mid_def  stored_def stored_revision_def stored_fields_def state_ok_def
           nat_of_digits_show)
  next
    case (Update us)
    show ?thesis
    proof (cases "us = []")
      case True
      then show ?thesis
        using ok r e Update
        by (simp add: write_state_def update_state_def update_script_def io_simps validate_state_ks
            confirm_ks stored_def)
    next
      case False
      define mid where "mid = ks_put (state_key a) (RHash (stored_fields a ks ++ map_of (rev us))) ks"
      have "state_ok a mid" "stored_revision a mid = stored_revision a ks"
        using ok by (simp_all add: mid_def state_ok_def stored_revision_def)
      then have incr: "ks_incr (revision_key a) mid =
          (Inr (int (stored_revision a ks) + 1), ks_put (revision_key a) (RString (show_nat ?n)) mid)"
        using r ks_incr_revision [of a mid] by simp
      show ?thesis
        using ok r e Update False
        by (intro exI [of _ "ks_put (revision_key a) (RString (show_nat ?n)) mid"])
           (simp add: write_state_def update_state_def update_script_def io_simps validate_state_ks
             ks_hset_state incr confirm_ks mid_def [symmetric],
            auto simp: mid_def  stored_def stored_revision_def stored_fields_def state_ok_def
             nat_of_digits_show)
    qed
  qed
qed

lemma write_state_exhausted:
  assumes "state_ok a ks" and "max_revision < stored_revision a ks"
  shows "write_state ks_redis d a e w ks = (Inl (RedisError ''invalid_state_revision''), ks)"
  using assms
  by (cases w) (simp_all add: write_state_def update_state_def update_script_def reset_state_def
      reset_script_def io_simps validate_state_ks)

lemma apply_write_mono: "fst s \<le> fst (apply_write w s)"
  by (cases s; cases w) auto

lemma apply_write_effective: "effective w \<Longrightarrow> fst (apply_write w s) = fst s + 1"
  by (cases s; cases w) (auto simp: effective_def)

lemma validate_state_snd [simp]: "snd (validate_state ks_redis sk rk ks) = ks"
  by (auto simp: validate_state_def Let_def io_simps ks_read_defs split: option.splits rvalue.splits)

lemma incr_frame: "k \<noteq> j \<Longrightarrow> ks_data (snd (ks_incr j ks)) k = ks_data ks k"
  by (auto simp: ks_incr_def split: option.splits rvalue.splits)

lemma hset_frame: "k \<noteq> j \<Longrightarrow> ks_data (snd (ks_hset j us ks)) k = ks_data ks k"
  by (auto simp: ks_hset_def split: option.splits rvalue.splits)

lemma write_state_frame:
  "k \<noteq> state_key b \<Longrightarrow> k \<noteq> revision_key b \<Longrightarrow>
   ks_data (snd (write_state ks_redis d b e w ks)) k = ks_data ks k"
  by (cases w) (auto simp: write_state_def update_state_def update_script_def reset_state_def
      reset_script_def io_simps incr_frame hset_frame ks_del_def split: sum.splits)

lemma fst_stored [simp]: "fst (stored a ks) = stored_revision a ks"
  by (simp add: stored_def)

lemma stored_write_mono:
  assumes "state_ok a ks"
  shows "state_ok a (snd (write_state ks_redis d b e w ks)) \<and>
    stored_revision a ks \<le> stored_revision a (snd (write_state ks_redis d b e w ks))"
proof (cases "b = a")
  case False
  then show ?thesis
    using assms by (simp add: state_ok_def stored_revision_def write_state_frame)
next
  case True
  show ?thesis
  proof (cases "stored_revision a ks \<le> max_revision \<and> int (stored_revision a ks) = e")
    case True
    then obtain ks' where
      "snd (write_state ks_redis d a e w ks) = ks'" "stored a ks' = apply_write w (stored a ks)"
      "state_ok a ks'" using write_state_ks(2) [OF assms, of e d w] by auto
    with \<open>b = a\<close> apply_write_mono [of "stored a ks" w] show ?thesis
      by (metis fst_stored)
  next
    case False
    with \<open>b = a\<close> assms write_state_ks(1) [OF assms] write_state_exhausted [OF assms] show ?thesis
      by (cases "stored_revision a ks \<le> max_revision") auto
  qed
qed

section \<open>Optimistic concurrency\<close>

text \<open>
  The contract of the store towards its clients, and what it gives them: once a write has
  moved the revision on, no write computed from the old revision takes effect, whatever ran
  in between.
\<close>

locale optimistic_store =
  fixes ok :: "'s \<Rightarrow> bool" and rev_of :: "'s \<Rightarrow> nat" and run :: "'w \<Rightarrow> 's \<Rightarrow> 's"
    and stale :: "'w \<Rightarrow> 's \<Rightarrow> bool"
  assumes ok_run: "ok s \<Longrightarrow> ok (run w s)"
    and rev_run: "ok s \<Longrightarrow> rev_of s \<le> rev_of (run w s)"
    and stale_iff_less: "stale w s \<Longrightarrow> rev_of s \<le> rev_of t \<Longrightarrow> stale w t"
    and stale_run: "ok s \<Longrightarrow> stale w s \<Longrightarrow> run w s = s"
begin

lemma rev_runs: "ok s \<Longrightarrow> ok (fold run ws s) \<and> rev_of s \<le> rev_of (fold run ws s)"
proof (induction ws arbitrary: s)
  case (Cons w ws)
  have "ok (run w s)" and "rev_of s \<le> rev_of (run w s)"
    using Cons.prems by (simp_all add: ok_run rev_run)
  with Cons.IH [of "run w s"] show ?case by auto
qed simp

lemma stale_forever: "ok s \<Longrightarrow> stale w s \<Longrightarrow> run w (fold run ws s) = fold run ws s"
  using rev_runs [of s ws] stale_iff_less stale_run by blast

end

definition ks_run_write :: "durability_settings \<Rightarrow> write_request \<Rightarrow> keyspace \<Rightarrow> keyspace" where
  "ks_run_write d = (\<lambda>(a, e, w) ks. snd (write_state ks_redis d a e w ks))"

interpretation agent_state: optimistic_store "state_ok a" "stored_revision a" "ks_run_write d"
    "\<lambda>(b, e, w) ks. b = a \<and> e < int (stored_revision a ks)"
  for a d
proof
  fix s t and w :: write_request
  show "state_ok a s \<Longrightarrow> state_ok a (ks_run_write d w s)"
    and "state_ok a s \<Longrightarrow> stored_revision a s \<le> stored_revision a (ks_run_write d w s)"
    by (cases w, simp add: ks_run_write_def stored_write_mono)+
  show "(case w of (b, e, w) \<Rightarrow> \<lambda>ks. b = a \<and> e < int (stored_revision a ks)) s \<Longrightarrow>
      stored_revision a s \<le> stored_revision a t \<Longrightarrow>
      (case w of (b, e, w) \<Rightarrow> \<lambda>ks. b = a \<and> e < int (stored_revision a ks)) t"
    by (cases w) auto
  show "state_ok a s \<Longrightarrow> (case w of (b, e, w) \<Rightarrow> \<lambda>ks. b = a \<and> e < int (stored_revision a ks)) s \<Longrightarrow>
      ks_run_write d w s = s"
    by (cases w; cases "stored_revision a s \<le> max_revision")
       (auto simp: ks_run_write_def write_state_ks(1) write_state_exhausted)
qed

context redis_server
begin

lemma run_writes_view: "view (run_writes R d ws db) = fold (ks_run_write d) ws (view db)"
proof (induction ws arbitrary: db)
  case (Cons w ws)
  then show ?case
    by (cases w) (simp add: run_writes_def ks_run_write_def implements_snd [OF write_state_impl])
qed (simp add: run_writes_def)

lemma stale_write_refused:
  assumes ok: "state_ok a (view db)"
    and first: "fst (write_state R d a e w db) = Inr r" and w: "effective w"
  shows "(\<exists>x. fst (write_state R d a e w' (run_writes R d ws (snd (write_state R d a e w db)))) = Inl x) \<and>
    view (snd (write_state R d a e w' (run_writes R d ws (snd (write_state R d a e w db))))) =
    view (run_writes R d ws (snd (write_state R d a e w db)))"
proof -
  define later where "later = run_writes R d ws (snd (write_state R d a e w db))"
  let ?ks = "view db" and ?mid = "view (snd (write_state R d a e w db))"
  have ran: "fst (write_state ks_redis d a e w ?ks) = Inr r"
    using first implements_fst [OF write_state_impl, of d a e w db] by simp
  have r: "stored_revision a ?ks \<le> max_revision"
    using ran write_state_exhausted [OF ok, of d e w] by (rule_tac ccontr) simp
  have e: "int (stored_revision a ?ks) = e"
    using ran write_state_ks(1) [OF ok r, of e d w] by (rule_tac ccontr) simp
  obtain mid where mid: "?mid = mid" "state_ok a mid" "stored a mid = apply_write w (stored a ?ks)"
    using write_state_ks(2) [OF ok r e, of d w] implements_snd [OF write_state_impl, of d a e w db]
    by auto
  with w e have stale: "e < int (stored_revision a mid)"
    using apply_write_effective [OF w, of "stored a ?ks"] fst_stored [of a mid] by simp
  have "view later = fold (ks_run_write d) ws mid"
    by (simp add: later_def run_writes_view mid)
  moreover have "state_ok a (fold (ks_run_write d) ws mid) \<and>
      stored_revision a mid \<le> stored_revision a (fold (ks_run_write d) ws mid)"
    using agent_state.rev_runs [OF mid(2)] .
  ultimately have "\<exists>x. write_state ks_redis d a e w' (view later) = (Inl x, view later)"
    using stale write_state_ks(1) [of a "view later" e d w'] write_state_exhausted [of a "view later" d e w']
    by (cases "stored_revision a (view later) \<le> max_revision") auto
  then show ?thesis
    using implements_fst [OF write_state_impl, of d a e w' later]
      implements_snd [OF write_state_impl, of d a e w' later] by (auto simp: later_def)
qed

end

section \<open>Properties\<close>

text \<open>
  C36. Optimistic concurrency: after a write that took effect has been reported to its author, no
  write that was computed from the same revision takes effect, whatever other writes ran in
  between; it fails and leaves the storage as it is. Two authors who read the same revision
  cannot both overwrite it.
\<close>

theorem no_lost_update:
  assumes "redis_server R view" and "state_ok a (view db)"
    and "fst (write_state R d a e w db) = Inr r" and "effective w"
  shows "(\<exists>x. fst (write_state R d a e w' (run_writes R d ws (snd (write_state R d a e w db)))) = Inl x) \<and>
    view (snd (write_state R d a e w' (run_writes R d ws (snd (write_state R d a e w db))))) =
    view (run_writes R d ws (snd (write_state R d a e w db)))"
  using redis_server.stale_write_refused [OF assms] .

theorem no_lost_update_witness:
  "\<exists>x. fst (write_state ks_redis default_durability ''a'' 0 Reset
     (run_writes ks_redis default_durability [(''a'', 0, Reset)]
       (snd (write_state ks_redis default_durability ''a'' 0 (Update [(''k'', ''v'')]) (fresh_keyspace 0))))) = Inl x"
proof -
  have ok: "state_ok ''a'' (fresh_keyspace 0)" by (simp add: state_ok_def)
  have "fst (write_state ks_redis default_durability ''a'' 0 (Update [(''k'', ''v'')]) (fresh_keyspace 0)) = Inr 1"
    using write_state_ks(2) [OF ok, of 0 default_durability "Update [(''k'', ''v'')]"]
    by (auto simp: stored_def stored_revision_def acknowledged_def durability_enabled_def default_durability_def)
  from no_lost_update [OF ref.redis_server_axioms ok this] show ?thesis by (simp add: effective_def)
qed

text \<open>
  Refinement: on a well-formed store, a write with the current revision has on the agent's
  revision and fields exactly the effect of the abstract write, returns the new revision (or
  the durability error, when the acknowledgements are missing), and leaves every other
  agent's state alone; a write with any other revision is answered with
  \<open>state_revision_conflict\<close> and changes nothing.
\<close>

theorem write_state_refines:
  assumes "redis_server R view" and "state_ok a (view db)"
    and "stored_revision a (view db) \<le> max_revision"
  shows "if int (stored_revision a (view db)) = e
    then fst (write_state R d a e w db) =
           (if acknowledged d (view db) then Inr (int (fst (apply_write w (stored a (view db))))) else Inl unconfirmed) \<and>
         stored a (view (snd (write_state R d a e w db))) = apply_write w (stored a (view db)) \<and>
         (\<forall>b. b = a \<or> stored b (view (snd (write_state R d a e w db))) = stored b (view db))
    else fst (write_state R d a e w db) = Inl revision_conflict \<and>
         view (snd (write_state R d a e w db)) = view db"
proof -
  note impl = redis_server.write_state_impl [OF assms(1), of d a e w]
  show ?thesis
    using write_state_ks [OF assms(2,3), of e d w] implements_fst [OF impl, of db]
      implements_snd [OF impl, of db] by fastforce
qed

theorem write_state_refines_witness:
  "stored ''a'' (snd (write_state ks_redis default_durability ''a'' 0 Reset (fresh_keyspace 0))) = (1, Map.empty)"
  using write_state_refines [OF ref.redis_server_axioms, of "''a''" "fresh_keyspace 0" 0 default_durability Reset]
  by (simp add: state_ok_def stored_def stored_revision_def stored_fields_def)

text \<open>
  Round trip: after an update from the current revision that was confirmed, a snapshot
  returns the new revision, the updated fields with their new values (the later one of a
  repeated name) and every other field as it was.
\<close>

theorem snapshot_after_update:
  assumes "redis_server R view" and "state_ok a (view db)"
    and "update_state R d a us e db = (Inr r, db')" and "us \<noteq> []"
    and "stored_revision a (view db) < max_revision"
  shows "fst (snapshot R a db') =
    Inr \<lparr>snapshot_fields = stored_fields a (view db) ++ map_of (rev us), snapshot_revision = e + 1\<rparr>"
proof -
  let ?ks = "view db"
  note impl = redis_server.write_state_impl [OF assms(1), of d a e "Update us"]
  have run: "write_state ks_redis d a e (Update us) ?ks = (Inr r, view db')"
    using implements_run [OF impl] assms(3) by (simp add: write_state_def)
  have e: "int (stored_revision a ?ks) = e"
    using write_state_ks(1) [OF assms(2), of e d "Update us"] run assms(5) by fastforce
  have st: "stored a (view db') = apply_write (Update us) (stored a ?ks)" and ok: "state_ok a (view db')"
    using write_state_ks(2) [OF assms(2) _ e, of d "Update us"] run assms(5) by auto
  have h: "fst (ks_hgetall (state_key a) (view db')) = Inr (stored_fields a (view db'))"
    using ok by (auto simp: ks_hgetall_def state_ok_def stored_fields_def split: option.splits rvalue.splits)
  have "stored_revision a (view db') = stored_revision a ?ks + 1"
    and "stored_fields a (view db') = stored_fields a ?ks ++ map_of (rev us)"
    using st assms(4) by (simp_all add: stored_def)
  then show ?thesis
    using e ok h assms(5) implements_fst [OF redis_server.snapshot_impl [OF assms(1)], of a db']
    by (simp add: snapshot_def read_state_def io_simps validate_state_ks)
qed

theorem snapshot_after_update_witness:
  "\<exists>db'. fst (snapshot ks_redis ''a'' db') =
    Inr \<lparr>snapshot_fields = Map.empty ++ map_of [(''k'', ''v'')], snapshot_revision = 0 + 1\<rparr>"
proof -
  have ok: "state_ok ''a'' (fresh_keyspace 0)" by (simp add: state_ok_def)
  obtain db' where run: "update_state ks_redis default_durability ''a'' [(''k'', ''v'')] 0 (fresh_keyspace 0) = (Inr 1, db')"
    using write_state_ks(2) [OF ok, of 0 default_durability "Update [(''k'', ''v'')]"]
    by (auto simp: write_state_def stored_def stored_revision_def acknowledged_def durability_enabled_def default_durability_def)
  show ?thesis
    using snapshot_after_update [OF ref.redis_server_axioms ok run]
    by (auto simp: stored_revision_def stored_fields_def max_revision_def)
qed

end
