(* ===== verification/Delivery_Scripts.thy ===== *)
theory Delivery_Scripts
  imports Routing
begin

text \<open>
  The Lua scripts of \<open>packages/mas-server/src/mas_server/delivery.py\<close> and what they guarantee
  together with routing: a stream entry is settled at most once, and until then it is never lost.
\<close>

section \<open>Lua scripts\<close>

text \<open>\<open>None\<close> is the answer to a caller that does not hold the lease.\<close>

definition read_script :: "'db redis \<Rightarrow> string list \<Rightarrow> string \<Rightarrow> string \<Rightarrow> string \<Rightarrow> string \<Rightarrow> int \<Rightarrow>
    ('db, (string \<times> (sid \<times> (string \<times> string) list) list) list option) io" where
  "read_script R streams lease_key owner grp consumer count =
     bindio (GET R lease_key) (\<lambda>current.
     if current \<noteq> Some owner then ret None
     else bindio (XREADGROUP R streams grp consumer count) (\<lambda>batches. ret (Some batches)))"

definition claim_script :: "'db redis \<Rightarrow> string \<Rightarrow> string \<Rightarrow> string \<Rightarrow> string \<Rightarrow> string \<Rightarrow> int \<Rightarrow> sid \<Rightarrow> int \<Rightarrow>
    ('db, (sid \<times> (sid \<times> (string \<times> string) list) list) option) io" where
  "claim_script R stream lease_key owner grp consumer idle start count =
     bindio (GET R lease_key) (\<lambda>current.
     if current \<noteq> Some owner then ret None
     else bindio (XAUTOCLAIM R stream grp consumer idle start count) (\<lambda>claimed. ret (Some claimed)))"

definition ack_and_delete_script :: "'db redis \<Rightarrow> string \<Rightarrow> string \<Rightarrow> string \<Rightarrow> sid \<Rightarrow> string \<Rightarrow> string \<Rightarrow> ('db, nat) io" where
  "ack_and_delete_script R stream lease_key grp entry consumer owner =
     bindio (owns_delivery R stream lease_key grp entry consumer owner) (\<lambda>mine.
     if \<not> mine then ret 0
     else bindio (XACK R stream grp entry) (\<lambda>acknowledged.
       if 0 < acknowledged then seqio (XDEL R stream entry) (ret acknowledged) else ret acknowledged))"

definition requeue_and_ack_script :: "'db redis \<Rightarrow> string \<Rightarrow> string \<Rightarrow> string \<Rightarrow> sid \<Rightarrow> string \<Rightarrow> int \<Rightarrow> string \<Rightarrow> string \<Rightarrow>
    ('db, nat) io" where
  "requeue_and_ack_script R stream lease_key grp entry envelope_json attempt consumer owner =
     bindio (owns_delivery R stream lease_key grp entry consumer owner) (\<lambda>mine.
     if \<not> mine then ret 0
     else seqio (XADD R stream [(''envelope'', envelope_json), (''attempt'', show_int attempt)])
         (seqio (XACK R stream grp entry) (seqio (XDEL R stream entry) (ret 1))))"

section \<open>Histories\<close>

text \<open>
  What brokers do to the streams: publish, create a group, read, claim, settle in one of the three
  ways, or let time pass. An operation reports the entries it hands out and the one it settles.
\<close>

datatype delivery_op =
    Publish string "(string \<times> string) list"
  | CreateGroup string string
  | ReadNew "string list" string string string string int
  | ClaimIdle string string string string string int sid int
  | Acknowledge string string string sid string string
  | Requeue string string string sid string int string string
  | DeadLetter string string string sid string string bool string
  | Wait nat

datatype delivery_event =
    Published string sid "(string \<times> string) list"
  | Handed string string sid
  | Settled string string sid

definition publish_events :: "string \<Rightarrow> (string \<times> string) list \<Rightarrow> err + sid \<Rightarrow> delivery_event set" where
  "publish_events k fs r = (case r of Inr i \<Rightarrow> {Published k i fs} | Inl _ \<Rightarrow> {})"

definition read_events :: "string \<Rightarrow> err + (string \<times> (sid \<times> 'f) list) list option \<Rightarrow> delivery_event set" where
  "read_events g r = (case r of
      Inr (Some batches) \<Rightarrow> {Handed k g i | k es i f. (k, es) \<in> set batches \<and> (i, f) \<in> set es}
    | _ \<Rightarrow> {})"

definition claim_events :: "string \<Rightarrow> string \<Rightarrow> err + (sid \<times> (sid \<times> 'f) list) option \<Rightarrow> delivery_event set" where
  "claim_events k g r = (case r of
      Inr (Some claimed) \<Rightarrow> {Handed k g i | i f. (i, f) \<in> set (snd claimed)}
    | _ \<Rightarrow> {})"

definition settle_events :: "string \<Rightarrow> string \<Rightarrow> sid \<Rightarrow> bool \<Rightarrow> delivery_event set" where
  "settle_events k g i done = (if done then {Settled k g i} else {})"

fun run_delivery_op :: "wire \<Rightarrow> 'db redis \<Rightarrow> (nat \<Rightarrow> 'db \<Rightarrow> 'db) \<Rightarrow> delivery_op \<Rightarrow> 'db \<Rightarrow> delivery_event set \<times> 'db" where
  "run_delivery_op W R elapse (Publish k fs) db =
     (case XADD R k fs db of (r, db') \<Rightarrow> (publish_events k fs r, db'))"
| "run_delivery_op W R elapse (CreateGroup k g) db = ({}, snd (XGROUP_CREATE R k g db))"
| "run_delivery_op W R elapse (ReadNew ks lk u g c n) db =
     (case read_script R ks lk u g c n db of (r, db') \<Rightarrow> (read_events g r, db'))"
| "run_delivery_op W R elapse (ClaimIdle k lk u g c idle s n) db =
     (case claim_script R k lk u g c idle s n db of (r, db') \<Rightarrow> (claim_events k g r, db'))"
| "run_delivery_op W R elapse (Acknowledge k lk g i c u) db =
     (case ack_and_delete_script R k lk g i c u db of (r, db') \<Rightarrow> (settle_events k g i (r = Inr 1), db'))"
| "run_delivery_op W R elapse (Requeue k lk g i j n c u) db =
     (case requeue_and_ack_script R k lk g i j n c u db of (r, db') \<Rightarrow> (settle_events k g i (r = Inr 1), db'))"
| "run_delivery_op W R elapse (DeadLetter k lk g i c u b fj) db =
     (case commit_delivery_script W R k lk dlq_key g i c u b fj db of
        (r, db') \<Rightarrow> (settle_events k g i (r = Inr (IntReply 1)), db'))"
| "run_delivery_op W R elapse (Wait d) db = ({}, elapse d db)"

primrec delivery_trace :: "wire \<Rightarrow> 'db redis \<Rightarrow> (nat \<Rightarrow> 'db \<Rightarrow> 'db) \<Rightarrow> delivery_op list \<Rightarrow> 'db \<Rightarrow> delivery_event set list \<times> 'db" where
  "delivery_trace W R elapse [] db = ([], db)"
| "delivery_trace W R elapse (op # ops) db =
     (case run_delivery_op W R elapse op db of (ev, db') \<Rightarrow>
      (case delivery_trace W R elapse ops db' of (evs, db'') \<Rightarrow> (ev # evs, db'')))"

section \<open>On any server\<close>

context redis_server
begin

lemma read_script_impl [implements_intros]:
  "implements view (read_script R ks lk u g c n) (read_script ks_redis ks lk u g c n)"
  by (auto simp: read_script_def intro!: implements_intros)

lemma claim_script_impl [implements_intros]:
  "implements view (claim_script R k lk u g c d s n) (claim_script ks_redis k lk u g c d s n)"
  by (auto simp: claim_script_def intro!: implements_intros)

lemma ack_and_delete_script_impl [implements_intros]:
  "implements view (ack_and_delete_script R k lk g i c u) (ack_and_delete_script ks_redis k lk g i c u)"
  by (auto simp: ack_and_delete_script_def intro!: implements_intros)

lemma requeue_and_ack_script_impl [implements_intros]:
  "implements view (requeue_and_ack_script R k lk g i j n c u) (requeue_and_ack_script ks_redis k lk g i j n c u)"
  by (auto simp: requeue_and_ack_script_def intro!: implements_intros)

end

section \<open>The invariant of a stream\<close>

text \<open>
  Identifiers never exceed the last one given out, and an entry that its group has been
  handed stays pending until it is settled.
\<close>

definition group_wf :: "stream \<Rightarrow> group \<Rightarrow> bool" where
  "group_wf st gr \<longleftrightarrow> gr_last gr \<le> st_last st \<and>
     (\<forall>p \<in> set (gr_pending gr). fst p \<le> st_last st) \<and>
     (\<forall>e \<in> set (st_entries st). gr_last gr < fst e \<or> fst e \<in> fst ` set (gr_pending gr))"

definition stream_wf :: "stream \<Rightarrow> bool" where
  "stream_wf st \<longleftrightarrow>
     (\<forall>e \<in> set (st_entries st). (0, 0) < fst e \<and> fst e \<le> st_last st) \<and>
     sorted_wrt (<) (map fst (st_entries st)) \<and>
     (\<forall>g gr. st_groups st g = Some gr \<longrightarrow> group_wf st gr)"

text \<open>The key holds a well-formed stream that does not expire, or nothing.\<close>

definition mailbox_wf :: "string \<Rightarrow> keyspace \<Rightarrow> bool" where
  "mailbox_wf k ks \<longleftrightarrow> ks_ttl ks k = None \<and>
     (case ks_data ks k of None \<Rightarrow> True | Some (RStream st) \<Rightarrow> stream_wf st | Some _ \<Rightarrow> False)"

text \<open>Entry \<open>i\<close> of the stream is settled for good: it was given out, and is neither stored nor pending.\<close>

definition settled :: "string \<Rightarrow> string \<Rightarrow> sid \<Rightarrow> keyspace \<Rightarrow> bool" where
  "settled k g i ks \<longleftrightarrow> (\<exists>st gr. ks_data ks k = Some (RStream st) \<and> st_groups st g = Some gr \<and>
     i \<le> st_last st \<and> i \<notin> fst ` set (st_entries st) \<and> i \<notin> fst ` set (gr_pending gr))"

definition stored :: "string \<Rightarrow> sid \<Rightarrow> (string \<times> string) list \<Rightarrow> keyspace \<Rightarrow> bool" where
  "stored k i fs ks \<longleftrightarrow> (\<exists>st. ks_data ks k = Some (RStream st) \<and> (i, fs) \<in> set (st_entries st))"

text \<open>
  What a step keeps of stream \<open>k\<close>: the invariant, what is settled, and every stored entry
  outside \<open>S\<close>.
\<close>

definition mail_step :: "string \<Rightarrow> sid set \<Rightarrow> keyspace \<Rightarrow> keyspace \<Rightarrow> bool" where
  "mail_step k S ks ks' \<longleftrightarrow> (mailbox_wf k ks \<longrightarrow> mailbox_wf k ks' \<and>
     (\<forall>g i. settled k g i ks \<longrightarrow> settled k g i ks') \<and>
     (\<forall>i fs. stored k i fs ks \<and> i \<notin> S \<longrightarrow> stored k i fs ks'))"

section \<open>Commands and the invariant\<close>

lemma next_id_greater: "next_id now l = Some i \<Longrightarrow> l < i \<and> (0, 0) < i"
  by (cases l) (auto simp: next_id_def split: if_splits)

lemma mailbox_wf_stream:
  "mailbox_wf k ks \<Longrightarrow> ks_data ks k = Some (RStream st) \<Longrightarrow> stream_wf st"
  by (simp add: mailbox_wf_def)

lemma empty_stream_wf [simp]: "stream_wf empty_stream"
  by (simp add: stream_wf_def empty_stream_def)

lemma mailbox_ks_stream: "mailbox_wf k ks \<Longrightarrow> \<exists>st. ks_stream k ks = Inr st \<and> stream_wf st"
  by (auto simp: mailbox_wf_def ks_stream_def split: option.splits rvalue.splits)

lemma mailbox_wf_frame:
  "ks_data ks' k = ks_data ks k \<Longrightarrow> ks_ttl ks' k = ks_ttl ks k \<Longrightarrow> mailbox_wf k ks' = mailbox_wf k ks"
  by (simp add: mailbox_wf_def)

lemma settled_frame: "ks_data ks' k = ks_data ks k \<Longrightarrow> settled k g i ks' = settled k g i ks"
  by (simp add: settled_def)

lemma mailbox_wf_put: "mailbox_wf k ks \<Longrightarrow> (k' = k \<Longrightarrow> stream_wf st) \<Longrightarrow> mailbox_wf k (ks_put k' (RStream st) ks)"
  by (auto simp: mailbox_wf_def)

definition append_entry :: "sid \<Rightarrow> (string \<times> string) list \<Rightarrow> stream \<Rightarrow> stream" where
  "append_entry i fs st = st\<lparr>st_entries := st_entries st @ [(i, fs)], st_last := i\<rparr>"

lemma append_entry_wf:
  assumes "stream_wf st" and "st_last st < i" and "(0, 0) < i"
  shows "stream_wf (append_entry i fs st)"
  using assms
  by (fastforce simp: stream_wf_def group_wf_def append_entry_def sorted_wrt_append)


lemma mail_step_refl [simp]: "mail_step k S ks ks"
  by (simp add: mail_step_def)

lemma mail_step_trans: "mail_step k S ks ks1 \<Longrightarrow> mail_step k T ks1 ks2 \<Longrightarrow> mail_step k (S \<union> T) ks ks2"
  by (simp add: mail_step_def)

lemma mail_step_mono: "mail_step k S ks ks' \<Longrightarrow> S \<subseteq> T \<Longrightarrow> mail_step k T ks ks'"
  unfolding mail_step_def by blast

lemma mail_stepD:
  assumes "mail_step k S ks ks'" and "mailbox_wf k ks"
  shows "mailbox_wf k ks'" and "settled k g i ks \<Longrightarrow> settled k g i ks'"
    and "stored k i fs ks \<Longrightarrow> i \<notin> S \<Longrightarrow> stored k i fs ks'"
  using assms unfolding mail_step_def by blast+

lemma mail_step_frame:
  "ks_data ks' k = ks_data ks k \<Longrightarrow> ks_ttl ks' k = ks_ttl ks k \<Longrightarrow> mail_step k S ks ks'"
  by (simp add: mail_step_def mailbox_wf_def settled_def stored_def)

text \<open>A step that writes one stream need only be looked at on that stream.\<close>

definition stream_step :: "sid set \<Rightarrow> stream \<Rightarrow> stream \<Rightarrow> bool" where
  "stream_step S st st' \<longleftrightarrow> (stream_wf st \<longrightarrow> stream_wf st') \<and> st_last st \<le> st_last st' \<and>
     (\<forall>e \<in> set (st_entries st). fst e \<in> S \<or> e \<in> set (st_entries st')) \<and>
     (\<forall>i \<in> fst ` set (st_entries st'). i \<in> fst ` set (st_entries st) \<or> st_last st < i) \<and>
     (\<forall>g gr. st_groups st g = Some gr \<longrightarrow> (\<exists>gr'. st_groups st' g = Some gr' \<and>
        fst ` set (gr_pending gr') \<subseteq> fst ` set (gr_pending gr) \<union> fst ` set (st_entries st)))"

lemma mail_step_put:
  assumes "ks_stream k' ks = Inr st" and "stream_step S st st'"
  shows "mail_step k (if k' = k then S else {}) ks (ks_put k' (RStream st') ks)"
proof (cases "k' = k")
  case True
  show ?thesis
  proof (cases "ks_data ks k")
    case None
    with assms True show ?thesis
      by (auto simp: mail_step_def mailbox_wf_def settled_def stored_def stream_step_def ks_stream_def)
  next
    case (Some v)
    then have data: "ks_data ks k = Some (RStream st)"
      using assms(1) True by (auto simp: ks_stream_def split: option.splits rvalue.splits)
    have "settled k g i (ks_put k (RStream st') ks)" if s: "settled k g i ks" for g i
    proof -
      from s data obtain gr where gr: "st_groups st g = Some gr" "i \<le> st_last st"
          "i \<notin> fst ` set (st_entries st)" "i \<notin> fst ` set (gr_pending gr)"
        by (auto simp: settled_def)
      then obtain gr' where gr': "st_groups st' g = Some gr'"
          "fst ` set (gr_pending gr') \<subseteq> fst ` set (gr_pending gr) \<union> fst ` set (st_entries st)"
        using assms(2) unfolding stream_step_def by blast
      have last_le: "st_last st \<le> st_last st'"
        and new: "i \<in> fst ` set (st_entries st') \<Longrightarrow> i \<in> fst ` set (st_entries st) \<or> st_last st < i"
        using assms(2) unfolding stream_step_def by blast+
      have "i \<notin> fst ` set (st_entries st')" using new gr(2,3) leD by blast
      moreover have "i \<le> st_last st'" using last_le gr(2) by (rule order_trans [rotated])
      ultimately have "i \<notin> fst ` set (st_entries st')" "i \<le> st_last st'" by blast+
      with gr gr' show ?thesis by (auto simp: settled_def)
    qed
    moreover have "stored k i fs (ks_put k (RStream st') ks)" if "stored k i fs ks" "i \<notin> S" for i fs
      using that data assms(2) by (fastforce simp: stored_def stream_step_def)
    moreover have "mailbox_wf k (ks_put k (RStream st') ks)" if "mailbox_wf k ks"
      using that data assms(2) by (auto simp: mailbox_wf_def stream_step_def)
    ultimately show ?thesis using True by (simp add: mail_step_def)
  qed
qed (simp add: mail_step_frame)

lemma xadd_step: "mail_step k {} ks (snd (ks_xadd k' fs ks))"
proof (cases "\<exists>st i. ks_stream k' ks = Inr st \<and> next_id (now_ms ks) (st_last st) = Some i \<and> fs \<noteq> []")
  case True
  then obtain st i where st: "ks_stream k' ks = Inr st" "next_id (now_ms ks) (st_last st) = Some i" "fs \<noteq> []" by blast
  have "stream_step {} st (append_entry i fs st)"
    using append_entry_wf [of st i fs] next_id_greater [OF st(2)]
    by (auto simp: stream_step_def append_entry_def order.strict_implies_order)
  from mail_step_put [OF st(1) this, of k] st show ?thesis
    by (simp add: ks_xadd_def append_entry_def if_distrib [of "\<lambda>x. mail_step k x ks _"])
next
  case False
  then show ?thesis by (auto simp: ks_xadd_def split: sum.splits option.splits)
qed

lemma xgroup_create_step: "mail_step k {} ks (snd (ks_xgroup_create k' g ks))"
proof (cases "\<exists>st. ks_stream k' ks = Inr st \<and> st_groups st g = None")
  case True
  then obtain st where st: "ks_stream k' ks = Inr st" "st_groups st g = None" by blast
  let ?st = "st\<lparr>st_groups := (st_groups st)(g \<mapsto> \<lparr>gr_last = (0, 0), gr_pending = []\<rparr>)\<rparr>"
  have "stream_step {} st ?st"
    using st(2) by (auto simp: stream_step_def stream_wf_def group_wf_def less_eq_prod_def)
  from mail_step_put [OF st(1) this, of k] st show ?thesis
    by (simp add: ks_xgroup_create_def)
next
  case False
  then show ?thesis by (auto simp: ks_xgroup_create_def split: sum.splits option.splits)
qed

lemma sorted_take_closed:
  assumes "sorted_wrt (<) (map f xs)" and "x \<in> set xs" and "take n xs \<noteq> []" and "\<not> f (last (take n xs)) < f x"
  shows "x \<in> set (take n xs)"
proof (rule ccontr)
  assume "x \<notin> set (take n xs)"
  then have "x \<in> set (drop n xs)" using assms(2) by (metis Un_iff append_take_drop_id set_append)
  moreover have "sorted_wrt (<) (map f (take n xs) @ map f (drop n xs))"
    using assms(1) by (metis append_take_drop_id map_append)
  ultimately have "f (last (take n xs)) < f x"
    using assms(3) by (auto simp: sorted_wrt_append)
  with assms(4) show False ..
qed

lemma new_entries_closed:
  assumes "sorted_wrt (<) (map fst (st_entries st))" and "new_entries gr n st \<noteq> []"
    and "e \<in> set (st_entries st)" and "gr_last gr < fst e" and "\<not> fst (last (new_entries gr n st)) < fst e"
  shows "e \<in> set (new_entries gr n st)"
proof -
  let ?xs = "filter (\<lambda>x. gr_last gr < fst x) (st_entries st)"
  have "sorted_wrt (<) (map fst ?xs)" using assms(1) by (simp add: sorted_wrt_map sorted_wrt_filter)
  then show ?thesis
    using assms sorted_take_closed [of fst ?xs e "nat n"]
    by (auto simp: new_entries_def take_count_def)
qed

lemma new_entries_subset: "set (new_entries gr n st) \<subseteq> set (st_entries st)"
  by (auto simp: new_entries_def take_count_def dest: in_set_takeD)

lemma deliver_new_ids:
  "es \<noteq> [] \<Longrightarrow> fst ` set (gr_pending (deliver_new now c es gr)) = fst ` set (gr_pending gr) \<union> fst ` set es"
  by (force simp: deliver_new_def image_Un)

lemma deliver_new_wf:
  assumes wf: "stream_wf st" and g: "st_groups st g = Some gr" and es: "new_entries gr n st \<noteq> []"
  shows "group_wf st (deliver_new now c (new_entries gr n st) gr)"
proof -
  let ?es = "new_entries gr n st"
  have sub: "set ?es \<subseteq> set (st_entries st)" by (rule new_entries_subset)
  have ok: "group_wf st gr" "\<forall>e \<in> set (st_entries st). fst e \<le> st_last st" "sorted_wrt (<) (map fst (st_entries st))"
    using wf g by (auto simp: stream_wf_def)
  have lst: "last ?es \<in> set (st_entries st)" using sub es last_in_set by blast
  have "fst (last ?es) < fst e \<or> fst e \<in> fst ` set ?es \<or> fst e \<in> fst ` set (gr_pending gr)"
    if "e \<in> set (st_entries st)" for e
    using new_entries_closed [OF ok(3) es that] ok(1) that by (fastforce simp: group_wf_def)
  moreover have "fst ` set (gr_pending (deliver_new now c ?es gr)) = fst ` set (gr_pending gr) \<union> fst ` set ?es"
    using es by (rule deliver_new_ids)
  moreover have "\<forall>p \<in> fst ` set (gr_pending gr) \<union> fst ` set ?es. p \<le> st_last st"
    using ok(1,2) sub unfolding group_wf_def by blast
  moreover have "gr_last (deliver_new now c ?es gr) = fst (last ?es)" using es by (simp add: deliver_new_def)
  ultimately show ?thesis
    using ok(2) lst unfolding group_wf_def by (metis UnCI image_eqI)
qed

lemma group_update_step:
  assumes "st_groups st g = Some gr" and "stream_wf st \<Longrightarrow> group_wf st gr'"
    and "fst ` set (gr_pending gr') \<subseteq> fst ` set (gr_pending gr) \<union> fst ` set (st_entries st)"
  shows "stream_step {} st (st\<lparr>st_groups := (st_groups st)(g \<mapsto> gr')\<rparr>)"
  using assms by (auto simp: stream_step_def stream_wf_def group_wf_def)

lemma deliver_new_step:
  assumes "st_groups st g = Some gr" and "new_entries gr n st \<noteq> []"
  shows "stream_step {} st (st\<lparr>st_groups := (st_groups st)(g \<mapsto> deliver_new now c (new_entries gr n st) gr)\<rparr>)"
proof (rule group_update_step [OF assms(1)])
  show "fst ` set (gr_pending (deliver_new now c (new_entries gr n st) gr))
      \<subseteq> fst ` set (gr_pending gr) \<union> fst ` set (st_entries st)"
    unfolding deliver_new_ids [OF assms(2)] using new_entries_subset [of gr n st] by blast
qed (rule deliver_new_wf [OF _ assms])

lemma mail_step_put_keep:
  "ks_stream k' ks = Inr st \<Longrightarrow> stream_step {} st st' \<Longrightarrow> mail_step k {} ks (ks_put k' (RStream st') ks)"
  using mail_step_put [of k' ks st "{}" st' k] by simp

lemma settled_not_stored: "settled k g i ks \<Longrightarrow> ks_stream k ks = Inr st \<Longrightarrow> i \<notin> fst ` set (st_entries st)"
  by (auto simp: settled_def ks_stream_def)

lemma xreadgroup_step:
  "mail_step k {} ks (snd (ks_xreadgroup keys g c n ks)) \<and>
   (mailbox_wf k ks \<longrightarrow> (\<forall>i r es f. settled k g i ks \<longrightarrow> fst (ks_xreadgroup keys g c n ks) = Inr r \<longrightarrow>
      (k, es) \<in> set r \<longrightarrow> (i, f) \<notin> set es))"
proof (induction keys arbitrary: ks)
  case (Cons k' keys)
  show ?case
  proof (cases "\<exists>st gr. ks_stream k' ks = Inr st \<and> st_groups st g = Some gr")
    case False
    then show ?thesis by (auto split: sum.splits option.splits)
  next
    case True
    then obtain st gr where st: "ks_stream k' ks = Inr st" and gr: "st_groups st g = Some gr" by blast
    let ?es = "new_entries gr n st"
    define mid where "mid = (if ?es = [] then ks else ks_put k' (RStream (st\<lparr>st_groups :=
                             (st_groups st)(g \<mapsto> deliver_new (now_ms ks) c ?es gr)\<rparr>)) ks)"
    have run: "ks_xreadgroup (k' # keys) g c n ks
        = bindio (ks_xreadgroup keys g c n) (\<lambda>rest. ret (if ?es = [] then rest else (k', ?es) # rest)) mid"
      using st gr by (simp add: mid_def Let_def)
    have step: "mail_step k {} ks mid"
      using mail_step_put_keep [OF st deliver_new_step [OF gr]] by (simp add: mid_def)
    have "mail_step k {} ks (snd (ks_xreadgroup keys g c n mid))"
      using mail_step_trans [OF step] Cons.IH [of mid] by fastforce
    then have "mail_step k {} ks (snd (ks_xreadgroup (k' # keys) g c n ks))"
      unfolding run by (simp add: bindio_split split: sum.splits)
    moreover have "(i, f) \<notin> set es" if wf: "mailbox_wf k ks" and s: "settled k g i ks"
      and r: "fst (ks_xreadgroup (k' # keys) g c n ks) = Inr r" "(k, es) \<in> set r" for i r es f
    proof -
      obtain rest where rest: "fst (ks_xreadgroup keys g c n mid) = Inr rest"
          "r = (if ?es = [] then rest else (k', ?es) # rest)"
        using r(1) unfolding run by (auto simp: bindio_split split: sum.splits)
      have mid_ok: "mailbox_wf k mid" "settled k g i mid" using mail_stepD [OF step wf] s by blast+
      show ?thesis
      proof (cases "(k, es) \<in> set rest")
        case True
        with Cons.IH [of mid] rest(1) mid_ok show ?thesis by blast
      next
        case False
        with rest(2) r(2) have "k' = k" "es = ?es" by (auto split: if_splits)
        with settled_not_stored [OF s] st new_entries_subset [of gr n st] show ?thesis by force
      qed
    qed
    ultimately show ?thesis by blast
  qed
qed simp

lemma autoclaim_ids:
  "autoclaim a m now idle c st ps = (ps', es, nxt) \<Longrightarrow>
   fst ` set ps' \<subseteq> fst ` set ps \<and> fst ` set ps \<inter> fst ` set (st_entries st) \<subseteq> fst ` set ps' \<and>
   fst ` set es \<subseteq> fst ` set ps"
proof (induction a m now idle c st ps arbitrary: ps' es nxt rule: autoclaim.induct)
  case (4 a m now idle c st i p ps)
  show ?case
  proof (cases "map_of (st_entries st) i")
    case None
    then have "i \<notin> fst ` set (st_entries st)" by (simp add: map_of_eq_None_iff)
    with None 4(1) [OF None] 4(4) show ?thesis by auto
  next
    case (Some fs)
    show ?thesis
    proof (cases "int now - int (pe_time p) < idle")
      case True
      obtain qs ds x where q: "autoclaim a (Suc m) now idle c st ps = (qs, ds, x)" by (metis prod_cases3)
      then have "ps' = (i, p) # qs" "es = ds" using 4(4) Some True by auto
      with 4(2) [OF Some True q] show ?thesis by simp blast
    next
      case False
      obtain qs ds x where q: "autoclaim a m now idle c st ps = (qs, ds, x)" by (metis prod_cases3)
      then have "map fst ps' = i # map fst qs" "map fst es = i # map fst ds" using 4(4) Some False by auto
      then have "fst ` set ps' = insert i (fst ` set qs)" "fst ` set es = insert i (fst ` set ds)"
        by (metis list.set_map list.simps(15))+
      with 4(3) [OF Some False q] show ?thesis by simp blast
    qed
  qed
qed auto

lemma group_wf_shrink:
  assumes "group_wf st gr" and "gr_last gr' = gr_last gr"
    and "fst ` set (gr_pending gr') \<subseteq> fst ` set (gr_pending gr)"
    and "fst ` set (gr_pending gr) \<inter> fst ` set (st_entries st) \<subseteq> fst ` set (gr_pending gr')"
  shows "group_wf st gr'"
proof -
  have "fst p \<le> st_last st" if "p \<in> set (gr_pending gr')" for p
  proof -
    from that assms(3) obtain q where "q \<in> set (gr_pending gr)" "fst p = fst q" by (metis imageE imageI subsetD)
    with assms(1) show ?thesis by (simp add: group_wf_def)
  qed
  moreover have "gr_last gr' < fst e \<or> fst e \<in> fst ` set (gr_pending gr')" if "e \<in> set (st_entries st)" for e
  proof -
    have "fst e \<in> fst ` set (st_entries st)" using that by (rule imageI)
    then have "fst e \<in> fst ` set (gr_pending gr) \<Longrightarrow> fst e \<in> fst ` set (gr_pending gr')"
      by (intro subsetD [OF assms(4)] IntI)
    moreover have "gr_last gr < fst e \<or> fst e \<in> fst ` set (gr_pending gr)" using assms(1) that by (simp add: group_wf_def)
    ultimately show ?thesis unfolding assms(2) by blast
  qed
  ultimately show ?thesis using assms(1,2) by (simp add: group_wf_def)
qed

lemma xautoclaim_step:
  "mail_step k {} ks (snd (ks_xautoclaim k' g c idle start n ks)) \<and>
   (mailbox_wf k ks \<longrightarrow> (\<forall>i f nxt es. settled k g i ks \<longrightarrow> k' = k \<longrightarrow>
      fst (ks_xautoclaim k' g c idle start n ks) = Inr (nxt, es) \<longrightarrow> (i, f) \<notin> set es))"
proof (cases "\<exists>st gr. \<not> n < 1 \<and> ks_stream k' ks = Inr st \<and> st_groups st g = Some gr")
  case False
  then show ?thesis by (auto simp: ks_xautoclaim_def split: sum.splits option.splits)
next
  case True
  then obtain st gr where n: "\<not> n < 1" and st: "ks_stream k' ks = Inr st" and gr: "st_groups st g = Some gr" by blast
  let ?before = "takeWhile (\<lambda>p. fst p < start) (gr_pending gr)" and ?from = "dropWhile (\<lambda>p. fst p < start) (gr_pending gr)"
  obtain qs es nxt where claim: "autoclaim (10 * nat n) (nat n) (now_ms ks) idle c st ?from = (qs, es, nxt)"
    by (metis prod_cases3)
  let ?gr = "gr\<lparr>gr_pending := ?before @ qs\<rparr>"
  have run: "ks_xautoclaim k' g c idle start n ks
      = (Inr (nxt, es), ks_put k' (RStream (st\<lparr>st_groups := (st_groups st)(g \<mapsto> ?gr)\<rparr>)) ks)"
    using n st gr claim by (simp add: ks_xautoclaim_def Let_def)
  have split: "fst ` set (gr_pending gr) = fst ` set ?before \<union> fst ` set ?from"
    by (metis image_Un set_append takeWhile_dropWhile_id)
  note ids = autoclaim_ids [OF claim]
  have pend: "fst ` set (gr_pending ?gr) = fst ` set ?before \<union> fst ` set qs" by (simp add: image_Un)
  have i1: "fst ` set qs \<subseteq> fst ` set ?from" and i2: "fst ` set ?from \<inter> fst ` set (st_entries st) \<subseteq> fst ` set qs"
    using ids by simp_all
  have sub: "fst ` set (gr_pending ?gr) \<subseteq> fst ` set (gr_pending gr)"
    unfolding pend split by (rule Un_mono [OF subset_refl i1])
  have keep: "fst ` set (gr_pending gr) \<inter> fst ` set (st_entries st) \<subseteq> fst ` set (gr_pending ?gr)"
    unfolding pend split Int_Un_distrib2 by (rule Un_mono [OF Int_lower1 i2])
  have "group_wf st ?gr" if "stream_wf st"
  proof (rule group_wf_shrink)
    from that gr show "group_wf st gr" by (auto simp: stream_wf_def)
    show "gr_last ?gr = gr_last gr" by simp
  qed (rule sub, rule keep)
  then have "stream_step {} st (st\<lparr>st_groups := (st_groups st)(g \<mapsto> ?gr)\<rparr>)"
    using group_update_step [OF gr] sub by blast
  from mail_step_put_keep [OF st this, of k] have "mail_step k {} ks (snd (ks_xautoclaim k' g c idle start n ks))"
    by (simp add: run)
  moreover have "(i, f) \<notin> set es" if "settled k g i ks" "k' = k" for i f
  proof -
    from that st gr have "i \<notin> fst ` set (gr_pending gr)" by (auto simp: settled_def ks_stream_def)
    then have "i \<notin> fst ` set ?from" unfolding split by blast
    moreover have "fst ` set es \<subseteq> fst ` set ?from" using ids by (elim conjE)
    ultimately have "i \<notin> fst ` set es" by (rule contra_subsetD [rotated])
    then show ?thesis by (metis fst_conv imageI)
  qed
  ultimately show ?thesis unfolding run by (auto simp del: split_paired_All)
qed

text \<open>Acknowledging and deleting a pending entry, the last step of the three settling scripts.\<close>

definition settle_entry :: "string \<Rightarrow> string \<Rightarrow> sid \<Rightarrow> (keyspace, nat) io" where
  "settle_entry k g i = seqio (ks_xack k g i) (ks_xdel k i)"

definition is_pending :: "string \<Rightarrow> string \<Rightarrow> sid \<Rightarrow> keyspace \<Rightarrow> bool" where
  "is_pending k g i ks \<longleftrightarrow> (\<exists>st gr. ks_data ks k = Some (RStream st) \<and> st_groups st g = Some gr \<and>
     i \<in> fst ` set (gr_pending gr))"

definition without_entry :: "string \<Rightarrow> sid \<Rightarrow> group \<Rightarrow> stream \<Rightarrow> stream" where
  "without_entry g i gr st = st\<lparr>st_groups := (st_groups st)(g \<mapsto> gr\<lparr>gr_pending := filter (\<lambda>p. fst p \<noteq> i) (gr_pending gr)\<rparr>),
     st_entries := filter (\<lambda>x. fst x \<noteq> i) (st_entries st)\<rparr>"

lemma pending_not_settled: "is_pending k g i ks \<Longrightarrow> \<not> settled k g i ks"
  by (auto simp: is_pending_def settled_def)

lemma settle_entry_run:
  assumes "ks_data ks k = Some (RStream st)" and "st_groups st g = Some gr" and "i \<in> fst ` set (gr_pending gr)"
  shows "fst (ks_xack k g i ks) = Inr 1 \<and> (\<exists>n. fst (settle_entry k g i ks) = Inr n) \<and>
    snd (settle_entry k g i ks) = ks_put k (RStream (without_entry g i gr st)) ks"
proof -
  have "filter (\<lambda>x. fst x \<noteq> i) (st_entries st) = st_entries st" if "i \<notin> fst ` set (st_entries st)"
    using that by (auto intro: filter_True)
  with assms show ?thesis
    by (cases "i \<in> fst ` set (st_entries st)")
       (simp_all add: settle_entry_def io_simps ks_xack_def ks_xdel_def ks_stream_def without_entry_def ks_put_def)
qed

lemma without_entry_step:
  assumes "st_groups st g = Some gr"
  shows "stream_step {i} st (without_entry g i gr st)"
proof -
  have "stream_wf (without_entry g i gr st)" if "stream_wf st"
    unfolding stream_wf_def
  proof (intro conjI allI impI)
    fix h gr' assume h: "st_groups (without_entry g i gr st) h = Some gr'"
    have wf: "group_wf st gr" "h \<noteq> g \<Longrightarrow> group_wf st gr'"
      using that assms h by (auto simp: stream_wf_def without_entry_def)
    have pend: "fst ` {p \<in> set (gr_pending gr). fst p \<noteq> i} = fst ` set (gr_pending gr) - {i}" by auto
    show "group_wf (without_entry g i gr st) gr'"
    proof (cases "h = g")
      case True
      then have "gr' = gr\<lparr>gr_pending := filter (\<lambda>p. fst p \<noteq> i) (gr_pending gr)\<rparr>"
        using h by (simp add: without_entry_def)
      with wf(1) pend show ?thesis by (simp add: group_wf_def without_entry_def)
    next
      case False
      with wf(2) show ?thesis by (simp add: group_wf_def without_entry_def)
    qed
  qed (use that in \<open>auto simp: stream_wf_def without_entry_def sorted_wrt_map sorted_wrt_filter\<close>)
  then show ?thesis
    using assms by (auto simp: stream_step_def without_entry_def)
qed

lemma settle_entry_step:
  assumes "is_pending k' g i ks"
  shows "mail_step k (if k' = k then {i} else {}) ks (snd (settle_entry k' g i ks)) \<and>
    (mailbox_wf k ks \<longrightarrow> k' = k \<longrightarrow> settled k g i (snd (settle_entry k' g i ks)))"
proof -
  from assms obtain st gr where st: "ks_data ks k' = Some (RStream st)" "st_groups st g = Some gr"
    "i \<in> fst ` set (gr_pending gr)" by (auto simp: is_pending_def)
  have "ks_stream k' ks = Inr st" using st by (simp add: ks_stream_def)
  from mail_step_put [OF this without_entry_step [OF st(2)], of k i]
  have "mail_step k (if k' = k then {i} else {}) ks (snd (settle_entry k' g i ks))"
    using settle_entry_run [OF st] by simp
  moreover have "settled k g i (snd (settle_entry k' g i ks))" if "mailbox_wf k ks" "k' = k"
  proof -
    have "stream_wf st" using mailbox_wf_stream that st(1) by blast
    then have "i \<le> st_last st" using st(2,3) by (auto simp: stream_wf_def group_wf_def)
    then show ?thesis using that settle_entry_run [OF st] by (auto simp: settled_def without_entry_def)
  qed
  ultimately show ?thesis by blast
qed


section \<open>Scripts and the invariant\<close>

lemma owns_delivery_ks:
  "snd (owns_delivery ks_redis k lk g i c u ks) = ks \<and>
   (fst (owns_delivery ks_redis k lk g i c u ks) = Inr True \<longrightarrow>
      is_pending k g i ks \<and> ks_data ks lk = Some (RString u) \<and>
      (\<exists>st gr p. ks_data ks k = Some (RStream st) \<and> st_groups st g = Some gr \<and>
         map_of (gr_pending gr) i = Some p \<and> pe_consumer p = c))"
  by (force simp: owns_delivery_def io_simps ks_get_def ks_xpending1_def ks_stream_def is_pending_def empty_stream_def
      dest: map_of_SomeD split: sum.splits option.splits rvalue.splits if_splits)

lemma settle_results:
  assumes "is_pending k g i ks"
  shows "\<exists>m. fst (ks_xack k g i ks) = Inr 1 \<and> fst (ks_xdel k i (snd (ks_xack k g i ks))) = Inr m \<and>
    snd (ks_xdel k i (snd (ks_xack k g i ks))) = snd (settle_entry k g i ks)"
proof -
  from assms obtain st gr where "ks_data ks k = Some (RStream st)" "st_groups st g = Some gr" "i \<in> fst ` set (gr_pending gr)"
    by (auto simp: is_pending_def)
  from settle_entry_run [OF this] show ?thesis
    by (auto simp: settle_entry_def seqio_split split: sum.splits)
qed

lemma ack_script_cases:
  assumes "ack_and_delete_script ks_redis k lk g i c u ks = (r, ks')"
  obtains (refused) "r \<noteq> Inr 1" "ks' = ks"
    | (settled) "r = Inr 1" "fst (owns_delivery ks_redis k lk g i c u ks) = Inr True" "is_pending k g i ks"
        "ks' = snd (settle_entry k g i ks)"
proof (cases "fst (owns_delivery ks_redis k lk g i c u ks) = Inr True")
  case True
  then have pend: "is_pending k g i ks" using owns_delivery_ks by blast
  obtain m where "fst (ks_xack k g i ks) = Inr (Suc 0)" "fst (ks_xdel k i (snd (ks_xack k g i ks))) = Inr m"
    "snd (ks_xdel k i (snd (ks_xack k g i ks))) = snd (settle_entry k g i ks)"
    using settle_results [OF pend] by auto
  with assms True have "r = Inr 1 \<and> ks' = snd (settle_entry k g i ks)"
    using owns_delivery_ks [of k lk g i c u ks]
    by (auto simp: ack_and_delete_script_def io_simps)
  with True pend show ?thesis using settled by blast
next
  case False
  with assms refused show ?thesis
    using owns_delivery_ks [of k lk g i c u ks]
    by (auto simp: ack_and_delete_script_def io_simps split: sum.splits if_splits)
qed

lemma xadd_keeps_pending:
  "is_pending k g i ks \<Longrightarrow> is_pending k g i (snd (ks_xadd k' fs ks))"
  by (auto simp: is_pending_def ks_xadd_def ks_stream_def split: option.splits rvalue.splits sum.splits)

lemma requeue_script_cases:
  assumes "requeue_and_ack_script ks_redis k lk g i j n c u ks = (r, ks')"
  obtains (refused) "r \<noteq> Inr 1" "ks' = ks"
    | (settled) "r = Inr 1" "fst (owns_delivery ks_redis k lk g i c u ks) = Inr True" "is_pending k g i ks"
        "\<exists>x. fst (ks_xadd k [(''envelope'', j), (''attempt'', show_int n)] ks) = Inr x"
        "ks' = snd (settle_entry k g i (snd (ks_xadd k [(''envelope'', j), (''attempt'', show_int n)] ks)))"
proof (cases "fst (owns_delivery ks_redis k lk g i c u ks) = Inr True")
  case True
  let ?add = "ks_xadd k [(''envelope'', j), (''attempt'', show_int n)] ks"
  have pend: "is_pending k g i ks" "is_pending k g i (snd ?add)"
    using True owns_delivery_ks xadd_keeps_pending by blast+
  show ?thesis
  proof (cases "fst ?add")
    case (Inl e)
    then have "snd ?add = ks" by (auto simp: ks_xadd_def split: sum.splits option.splits if_splits)
    with Inl assms True have "r \<noteq> Inr 1 \<and> ks' = ks"
      using owns_delivery_ks [of k lk g i c u ks] by (auto simp: requeue_and_ack_script_def io_simps)
    then show ?thesis using refused by blast
  next
    case (Inr x)
    with settle_results [OF pend(2)] assms True settled pend(1) show ?thesis
      using owns_delivery_ks [of k lk g i c u ks] by (auto simp: requeue_and_ack_script_def io_simps)
  qed
next
  case False
  with assms refused show ?thesis
    using owns_delivery_ks [of k lk g i c u ks]
    by (auto simp: requeue_and_ack_script_def io_simps split: sum.splits if_splits)
qed

lemma commit_script_cases:
  assumes "commit_delivery_script W ks_redis k lk q g i c u b fj ks = (r, ks')"
  obtains (refused) "r \<noteq> Inr (IntReply 1)" "ks' = ks"
    | (settled) "r = Inr (IntReply 1)" "fst (owns_delivery ks_redis k lk g i c u ks) = Inr True" "is_pending k g i ks"
        "\<not> b" "ks' = snd (settle_entry k g i ks)"
    | (recorded) flds where "r = Inr (IntReply 1)" "fst (owns_delivery ks_redis k lk g i c u ks) = Inr True" "is_pending k g i ks"
        "b" "load_strings W fj = Some flds" "flds \<noteq> []" "even (length flds)" "\<exists>x. fst (ks_xadd q (pairs_of flds) ks) = Inr x"
        "ks' = snd (settle_entry k g i (snd (ks_xadd q (pairs_of flds) ks)))"
proof (cases "fst (owns_delivery ks_redis k lk g i c u ks) = Inr True")
  case True
  have pend: "is_pending k g i ks" using True owns_delivery_ks by blast
  note run = commit_delivery_script_def io_simps ks_read_defs
  show ?thesis
  proof (cases b)
    case False
    with settle_results [OF pend] assms True settled pend show ?thesis
      using owns_delivery_ks [of k lk g i c u ks] by (auto simp: run)
  next
    case b: True
    show ?thesis
    proof (cases "\<exists>flds x. type_of_value (ks_data ks q) \<in> {TNone, TStream} \<and> load_strings W fj = Some flds \<and>
        flds \<noteq> [] \<and> even (length flds) \<and> fst (ks_xadd q (pairs_of flds) ks) = Inr x")
      case False
      have keep: "fst (ks_xadd q fs ks) = Inl e \<Longrightarrow> snd (ks_xadd q fs ks) = ks" for fs e
        by (auto simp: ks_xadd_def split: sum.splits option.splits if_splits)
      from False b True assms refused show ?thesis
        using owns_delivery_ks [of k lk g i c u ks] keep
        by (auto simp: run split: sum.splits option.splits if_splits)
    next
      case ok: True
      then obtain flds x where f: "type_of_value (ks_data ks q) \<in> {TNone, TStream}" "load_strings W fj = Some flds"
        "flds \<noteq> []" "even (length flds)" "fst (ks_xadd q (pairs_of flds) ks) = Inr x" by blast
      have "is_pending k g i (snd (ks_xadd q (pairs_of flds) ks))" using pend by (rule xadd_keeps_pending)
      from settle_results [OF this] f b assms True recorded [of flds] pend show ?thesis
        using owns_delivery_ks [of k lk g i c u ks] by (auto simp: run)
    qed
  qed
next
  case False
  with assms refused show ?thesis
    using owns_delivery_ks [of k lk g i c u ks]
    by (auto simp: commit_delivery_script_def io_simps split: sum.splits if_splits)
qed

section \<open>Histories and the invariant\<close>

definition op_keeps :: "string \<Rightarrow> delivery_event set \<Rightarrow> keyspace \<Rightarrow> keyspace \<Rightarrow> bool" where
  "op_keeps k ev ks ks' \<longleftrightarrow> mail_step k {i. \<exists>g. Settled k g i \<in> ev} ks ks' \<and>
     (\<forall>g i. settled k g i ks \<longrightarrow> Handed k g i \<notin> ev \<and> Settled k g i \<notin> ev) \<and>
     (\<forall>g i. Settled k g i \<in> ev \<longrightarrow> settled k g i ks') \<and>
     (\<forall>i fs. Published k i fs \<in> ev \<longrightarrow> stored k i fs ks')"

lemma op_keeps_quiet: "mail_step k {} ks ks' \<Longrightarrow> op_keeps k {} ks ks'"
  by (simp add: op_keeps_def)

lemma op_keeps_settle:
  assumes wf: "mailbox_wf k ks" and pre: "\<And>j. mail_step j {} ks mid" and pend: "is_pending k' g i ks" "is_pending k' g i mid"
  shows "op_keeps k {Settled k' g i} ks (snd (settle_entry k' g i mid))"
proof -
  have "mailbox_wf k mid" using mail_stepD(1) [OF pre wf] .
  with settle_entry_step [OF pend(2), of k]
  have step: "mail_step k (if k' = k then {i} else {}) mid (snd (settle_entry k' g i mid))"
    and fin: "k' = k \<Longrightarrow> settled k g i (snd (settle_entry k' g i mid))" by blast+
  have "{x. \<exists>h. Settled k h x \<in> {Settled k' g i}} = (if k' = k then {i} else {})" by auto
  with mail_step_trans [OF pre step] fin pending_not_settled [OF pend(1)] show ?thesis
    by (auto simp: op_keeps_def)
qed

lemma publish_keeps:
  "mailbox_wf k ks \<Longrightarrow> op_keeps k (publish_events k' fs (fst (ks_xadd k' fs ks))) ks (snd (ks_xadd k' fs ks))"
  using xadd_step [of k ks k' fs]
  by (auto simp: op_keeps_def publish_events_def stored_def ks_xadd_def split: sum.splits option.splits if_splits)

lemma read_keeps:
  assumes "mailbox_wf k ks"
  shows "op_keeps k (read_events g (fst (read_script ks_redis keys lk u g c n ks))) ks
    (snd (read_script ks_redis keys lk u g c n ks))"
proof (cases "fst (ks_get lk ks) = Inr (Some u)")
  case True
  have get: "snd (ks_get lk ks) = ks" by (simp add: ks_get_def split: option.splits rvalue.splits)
  note step = xreadgroup_step [of k ks keys g c n]
  have "Handed k h i \<notin> read_events g (fst (read_script ks_redis keys lk u g c n ks))" if "settled k h i ks" for h i
    using step that assms True get
    by (auto simp: read_events_def read_script_def io_simps simp del: split_paired_All split: sum.splits option.splits)
  with step True get show ?thesis
    by (auto simp: op_keeps_def read_events_def read_script_def io_simps simp del: split_paired_All
        split: sum.splits option.splits)
next
  case False
  have get: "snd (ks_get lk ks) = ks" by (simp add: ks_get_def split: option.splits rvalue.splits)
  from False get show ?thesis
    by (auto simp: op_keeps_def read_events_def read_script_def io_simps split: sum.splits option.splits)
qed

lemma claim_keeps:
  assumes "mailbox_wf k ks"
  shows "op_keeps k (claim_events k' g (fst (claim_script ks_redis k' lk u g c idle start n ks))) ks
    (snd (claim_script ks_redis k' lk u g c idle start n ks))"
proof -
  have get: "snd (ks_get lk ks) = ks" by (simp add: ks_get_def split: option.splits rvalue.splits)
  note step = xautoclaim_step [of k ks k' g c idle start n]
  have "Handed k h i \<notin> claim_events k' g (fst (claim_script ks_redis k' lk u g c idle start n ks))"
    if "settled k h i ks" for h i
    using step that assms get
    by (auto simp: claim_events_def claim_script_def io_simps simp del: split_paired_All
        split: sum.splits option.splits if_splits)
  with step get show ?thesis
    by (auto simp: op_keeps_def claim_events_def claim_script_def io_simps simp del: split_paired_All
        split: sum.splits option.splits)
qed

lemma ack_keeps:
  assumes "mailbox_wf k ks" and "ack_and_delete_script ks_redis k' lk g i c u ks = (r, ks')"
  shows "op_keeps k (settle_events k' g i (r = Inr 1)) ks ks'"
  using assms(2)
proof (cases rule: ack_script_cases)
  case settled
  with op_keeps_settle [OF assms(1) mail_step_refl, of k' g i] show ?thesis by (simp add: settle_events_def)
qed (simp add: settle_events_def op_keeps_quiet)

lemma requeue_keeps:
  assumes "mailbox_wf k ks" and "requeue_and_ack_script ks_redis k' lk g i j n c u ks = (r, ks')"
  shows "op_keeps k (settle_events k' g i (r = Inr 1)) ks ks'"
  using assms(2)
proof (cases rule: requeue_script_cases)
  case settled
  with op_keeps_settle [OF assms(1) xadd_step, of k' g i] xadd_keeps_pending show ?thesis
    by (simp add: settle_events_def)
qed (simp add: settle_events_def op_keeps_quiet)

lemma commit_keeps:
  assumes "mailbox_wf k ks" and "commit_delivery_script W ks_redis k' lk q g i c u b fj ks = (r, ks')"
  shows "op_keeps k (settle_events k' g i (r = Inr (IntReply 1))) ks ks'"
  using assms(2)
proof (cases rule: commit_script_cases)
  case settled
  with op_keeps_settle [OF assms(1) mail_step_refl, of k' g i] show ?thesis by (simp add: settle_events_def)
next
  case (recorded flds)
  with op_keeps_settle [OF assms(1) xadd_step, of k' g i] xadd_keeps_pending show ?thesis
    by (simp add: settle_events_def)
qed (simp add: settle_events_def op_keeps_quiet)

context redis_clock
begin

lemma run_delivery_op_keeps:
  assumes "mailbox_wf k (view db)" and "run_delivery_op W R elapse op db = (ev, db')"
  shows "op_keeps k ev (view db) (view db')"
proof (cases op)
  case (Publish k' fs)
  with assms publish_keeps [of k "view db" k' fs] implements_run [OF xadd, of k' fs db] show ?thesis
    by (auto split: prod.splits)
next
  case (CreateGroup k' g)
  with assms xgroup_create_step [of k "view db" k' g] implements_snd [OF xgroup_create, of k' g db] show ?thesis
    by (auto intro: op_keeps_quiet)
next
  case (ReadNew keys lk u g c n)
  with assms read_keeps [of k "view db" g keys lk u c n] implements_run [OF read_script_impl, of keys lk u g c n db] show ?thesis
    by (auto split: prod.splits)
next
  case (ClaimIdle k' lk u g c idle start n)
  with assms claim_keeps [of k "view db" k' g lk u c idle start n]
    implements_run [OF claim_script_impl, of k' lk u g c idle start n db] show ?thesis
    by (auto split: prod.splits)
next
  case (Acknowledge k' lk g i c u)
  with assms ack_keeps [of k "view db" k' lk g i c u] implements_run [OF ack_and_delete_script_impl, of k' lk g i c u db]
  show ?thesis by (auto split: prod.splits)
next
  case (Requeue k' lk g i j n c u)
  with assms requeue_keeps [of k "view db" k' lk g i j n c u]
    implements_run [OF requeue_and_ack_script_impl, of k' lk g i j n c u db]
  show ?thesis by (auto split: prod.splits)
next
  case (DeadLetter k' lk g i c u b fj)
  with assms commit_keeps [of k "view db" W k' lk dlq_key g i c u b fj]
    implements_run [OF commit_delivery_script_impl, of W k' lk dlq_key g i c u b fj db]
  show ?thesis by (auto split: prod.splits)
next
  case (Wait d)
  then have "mail_step k {} (view db) (view db')"
    using assms elapse_persist [of db k d] by (auto simp: mailbox_wf_def intro!: mail_step_frame)
  with Wait assms show ?thesis by (auto intro: op_keeps_quiet)
qed

lemma delivery_trace_keeps:
  assumes "mailbox_wf k (view db)" and "delivery_trace W R elapse ops db = (evs, db')"
  shows "mailbox_wf k (view db') \<and>
    (\<forall>g i. settled k g i (view db) \<longrightarrow> (\<forall>ev \<in> set evs. Handed k g i \<notin> ev \<and> Settled k g i \<notin> ev)) \<and>
    (\<forall>i fs. stored k i fs (view db) \<longrightarrow> (\<forall>g. \<forall>ev \<in> set evs. Settled k g i \<notin> ev) \<longrightarrow> stored k i fs (view db'))"
  using assms
proof (induction ops arbitrary: db evs)
  case (Cons op ops)
  obtain ev mid where one: "run_delivery_op W R elapse op db = (ev, mid)" by (metis surj_pair)
  obtain evs' where evs: "delivery_trace W R elapse ops mid = (evs', db')" "evs = ev # evs'"
    using Cons.prems(2) one by (auto split: prod.splits)
  have keeps: "op_keeps k ev (view db) (view mid)" using run_delivery_op_keeps [OF Cons.prems(1) one] .
  then have step: "mail_step k {i. \<exists>g. Settled k g i \<in> ev} (view db) (view mid)"
    and gone: "\<And>g i. settled k g i (view db) \<Longrightarrow> Handed k g i \<notin> ev \<and> Settled k g i \<notin> ev"
    unfolding op_keeps_def by blast+
  note mid = mail_stepD [OF step Cons.prems(1)]
  note rest = Cons.IH [OF mid(1) evs(1)]
  have "\<forall>g i. settled k g i (view db) \<longrightarrow> (\<forall>e \<in> set evs. Handed k g i \<notin> e \<and> Settled k g i \<notin> e)"
    using rest mid(2) gone unfolding evs(2) by (simp del: split_paired_All)
  moreover have "\<forall>i fs. stored k i fs (view db) \<longrightarrow> (\<forall>g. \<forall>e \<in> set evs. Settled k g i \<notin> e) \<longrightarrow> stored k i fs (view db')"
    using rest mid(3) unfolding evs(2) by (simp del: split_paired_All)
  ultimately show ?case using rest by blast
qed simp

lemma delivery_trace_append:
  "delivery_trace W R elapse ops db = (xs @ ev # ys, db') \<Longrightarrow>
   \<exists>pre op post mid mid'. ops = pre @ op # post \<and> delivery_trace W R elapse pre db = (xs, mid) \<and>
     run_delivery_op W R elapse op mid = (ev, mid') \<and> delivery_trace W R elapse post mid' = (ys, db')"
proof (induction xs arbitrary: ops db)
  case Nil
  then obtain op post where ops: "ops = op # post" by (cases ops) auto
  moreover obtain e mid where "run_delivery_op W R elapse op db = (e, mid)" by (metis surj_pair)
  ultimately show ?case
    using Nil by (intro exI [of _ "[]"]) (auto split: prod.splits)
next
  case (Cons x xs)
  then obtain op rest where ops: "ops = op # rest" by (cases ops) auto
  obtain e mid where one: "run_delivery_op W R elapse op db = (e, mid)" by (metis surj_pair)
  with Cons.prems ops have "delivery_trace W R elapse rest mid = (xs @ ev # ys, db')" "e = x"
    by (auto split: prod.splits)
  from Cons.IH [OF this(1)] obtain pre op' post a b where
    "rest = pre @ op' # post" "delivery_trace W R elapse pre mid = (xs, a)"
    "run_delivery_op W R elapse op' a = (ev, b)" "delivery_trace W R elapse post b = (ys, db')" by blast
  with one ops \<open>e = x\<close> show ?case by (intro exI [of _ "op # pre"]) auto
qed

lemma settle_once:
  assumes "mailbox_wf k (view db)" and "delivery_trace W R elapse ops db = (xs @ ev # ys, db')"
    and "Settled k g i \<in> ev" and "later \<in> set ys"
  shows "Handed k g i \<notin> later \<and> Settled k g i \<notin> later"
proof -
  obtain pre op post mid mid' where run: "delivery_trace W R elapse pre db = (xs, mid)"
     "run_delivery_op W R elapse op mid = (ev, mid')" "delivery_trace W R elapse post mid' = (ys, db')"
    using delivery_trace_append [OF assms(2)] by blast
  have wf: "mailbox_wf k (view mid)" using delivery_trace_keeps [OF assms(1) run(1)] by blast
  have keeps: "op_keeps k ev (view mid) (view mid')" by (rule run_delivery_op_keeps [OF wf run(2)])
  then have "settled k g i (view mid')" and step: "mail_step k {j. \<exists>h. Settled k h j \<in> ev} (view mid) (view mid')"
    using assms(3) unfolding op_keeps_def by blast+
  with delivery_trace_keeps [OF mail_stepD(1) [OF step wf] run(3)] assms(4) show ?thesis by blast
qed

lemma published_kept:
  assumes "mailbox_wf k (view db)" and "delivery_trace W R elapse ops db = (xs @ ev # ys, db')"
    and "Published k i fs \<in> ev" and "\<forall>h. \<forall>e \<in> set ys. Settled k h i \<notin> e"
  shows "\<exists>st. ks_data (view db') k = Some (RStream st) \<and> (i, fs) \<in> set (st_entries st) \<and>
    (\<forall>g gr. st_groups st g = Some gr \<longrightarrow> gr_last gr < i \<or> i \<in> fst ` set (gr_pending gr))"
proof -
  obtain pre op post mid mid' where run: "delivery_trace W R elapse pre db = (xs, mid)"
     "run_delivery_op W R elapse op mid = (ev, mid')" "delivery_trace W R elapse post mid' = (ys, db')"
    using delivery_trace_append [OF assms(2)] by blast
  have wf: "mailbox_wf k (view mid)" using delivery_trace_keeps [OF assms(1) run(1)] by blast
  have keeps: "op_keeps k ev (view mid) (view mid')" by (rule run_delivery_op_keeps [OF wf run(2)])
  then have "stored k i fs (view mid')" and step: "mail_step k {j. \<exists>h. Settled k h j \<in> ev} (view mid) (view mid')"
    using assms(3) unfolding op_keeps_def by blast+
  with delivery_trace_keeps [OF mail_stepD(1) [OF step wf] run(3)] assms(4)
  have "stored k i fs (view db')" "mailbox_wf k (view db')" by blast+
  then obtain st where st: "ks_data (view db') k = Some (RStream st)" "(i, fs) \<in> set (st_entries st)" "stream_wf st"
    by (auto simp: stored_def mailbox_wf_def)
  have "gr_last gr < i \<or> i \<in> fst ` set (gr_pending gr)" if "st_groups st g = Some gr" for g gr
  proof -
    have "group_wf st gr" using st(3) that by (simp add: stream_wf_def)
    with st(2) show ?thesis unfolding group_wf_def by (metis fst_conv)
  qed
  with st show ?thesis by blast
qed

end

section \<open>Properties\<close>

text \<open>
  C18. A delivery is settled at most once: whatever brokers publish, read, claim, acknowledge, requeue
  or dead-letter, in any order and with any timing, an entry of a stream that was settled for a
  group (acknowledged, requeued or moved to the dead-letter queue) is never handed out nor
  settled for that group again.
\<close>

theorem settled_at_most_once:
  assumes "redis_clock R view elapse" and "mailbox_wf k (view db)"
    and "delivery_trace W R elapse ops db = (before @ now # after, db')"
    and "Settled k g i \<in> now" and "later \<in> set after"
  shows "Handed k g i \<notin> later \<and> Settled k g i \<notin> later"
  by (rule redis_clock.settle_once [OF assms])

definition example_delivery :: "delivery_op list" where
  "example_delivery = [CreateGroup ''s'' ''g'', Publish ''s'' [(''envelope'', ''m'')],
     ReadNew [''s''] ''l'' ''u'' ''g'' ''c'' 1, Acknowledge ''s'' ''l'' ''g'' (0, 1) ''c'' ''u'',
     ReadNew [''s''] ''l'' ''u'' ''g'' ''c'' 1]"

definition leased_keyspace :: keyspace where
  "leased_keyspace = ks_put ''l'' (RString ''u'') (fresh_keyspace 0)"

lemma example_delivery_run:
  "fst (delivery_trace W ks_redis ks_elapse example_delivery leased_keyspace)
     = [{}, {Published ''s'' (0, 1) [(''envelope'', ''m'')]}, {Handed ''s'' ''g'' (0, 1)}, {Settled ''s'' ''g'' (0, 1)}, {}]"
  by (simp add: example_delivery_def leased_keyspace_def fresh_keyspace_def io_simps read_script_def ack_and_delete_script_def
      owns_delivery_def ks_get_def ks_xgroup_create_def ks_xadd_def ks_xpending1_def ks_xack_def ks_xdel_def ks_stream_def
      empty_stream_def next_id_def max_part_def new_entries_def take_count_def deliver_new_def now_ms_def
      publish_events_def read_events_def settle_events_def Let_def split: prod.splits)

lemma leased_mailbox: "mailbox_wf ''s'' leased_keyspace"
  by (simp add: mailbox_wf_def leased_keyspace_def fresh_keyspace_def)

theorem settled_at_most_once_witness:
  "\<exists>before now after db'. delivery_trace json_wire ks_redis ks_elapse example_delivery leased_keyspace = (before @ now # after, db') \<and>
     Settled ''s'' ''g'' (0, 1) \<in> now \<and> (\<forall>later \<in> set after. Handed ''s'' ''g'' (0, 1) \<notin> later)"
proof -
  let ?before = "[{}, {Published ''s'' (0, 1) [(''envelope'', ''m'')]}, {Handed ''s'' ''g'' (0, 1)}]"
  let ?now = "{Settled ''s'' ''g'' (0, 1)}"
  obtain db' where run: "delivery_trace json_wire ks_redis ks_elapse example_delivery leased_keyspace = (?before @ ?now # [{}], db')"
    using example_delivery_run [of json_wire] by (metis append_Cons append_Nil prod.collapse)
  have "\<forall>later \<in> set [{}]. Handed ''s'' ''g'' (0, 1) \<notin> later"
    using settled_at_most_once [OF ref_clock.redis_clock_axioms leased_mailbox run, of "''g''" "(0, 1)"] by blast
  with run show ?thesis by blast
qed

text \<open>
  C22. No message is lost: an entry that was published and not settled since is still in its stream
  with its fields, and every group has it still to read or pending.
\<close>

theorem unsettled_is_kept:
  assumes "redis_clock R view elapse" and "mailbox_wf k (view db)"
    and "delivery_trace W R elapse ops db = (before @ now # after, db')"
    and "Published k i fs \<in> now" and "\<forall>g. \<forall>ev \<in> set after. Settled k g i \<notin> ev"
  shows "\<exists>st. ks_data (view db') k = Some (RStream st) \<and> (i, fs) \<in> set (st_entries st) \<and>
    (\<forall>g gr. st_groups st g = Some gr \<longrightarrow> gr_last gr < i \<or> i \<in> fst ` set (gr_pending gr))"
  by (rule redis_clock.published_kept [OF assms])

theorem unsettled_is_kept_witness:
  "\<exists>db'. delivery_trace json_wire ks_redis ks_elapse (take 3 example_delivery) leased_keyspace
       = ([{}, {Published ''s'' (0, 1) [(''envelope'', ''m'')]}, {Handed ''s'' ''g'' (0, 1)}], db') \<and>
     (\<exists>st. ks_data db' ''s'' = Some (RStream st) \<and> ((0, 1), [(''envelope'', ''m'')]) \<in> set (st_entries st))"
proof -
  have "fst (delivery_trace json_wire ks_redis ks_elapse (take 3 example_delivery) leased_keyspace)
      = [{}] @ {Published ''s'' (0, 1) [(''envelope'', ''m'')]} # [{Handed ''s'' ''g'' (0, 1)}]"
    by (simp add: example_delivery_def leased_keyspace_def fresh_keyspace_def io_simps read_script_def
      ks_get_def ks_xgroup_create_def ks_xadd_def ks_stream_def
      empty_stream_def next_id_def max_part_def new_entries_def take_count_def deliver_new_def now_ms_def
      publish_events_def read_events_def Let_def split: prod.splits)
  then obtain db' where run: "delivery_trace json_wire ks_redis ks_elapse (take 3 example_delivery) leased_keyspace
      = ([{}] @ {Published ''s'' (0, 1) [(''envelope'', ''m'')]} # [{Handed ''s'' ''g'' (0, 1)}], db')"
    by (metis prod.collapse)
  from unsettled_is_kept [OF ref_clock.redis_clock_axioms leased_mailbox run, of "(0, 1)" "[(''envelope'', ''m'')]"] run
  show ?thesis by (auto simp del: split_paired_Ex)
qed

text \<open>
  C23. Fencing: a caller whose token is not the one the server records for the instance reads
  nothing, claims nothing, settles nothing, and changes nothing on the server.
\<close>

theorem stale_owner_is_fenced:
  assumes "redis_server R view" and "ks_data (view db) lk \<noteq> Some (RString u)"
  shows "(\<forall>x. fst (read_script R keys lk u g c n db) \<noteq> Inr (Some x)) \<and> view (snd (read_script R keys lk u g c n db)) = view db \<and>
    (\<forall>x. fst (claim_script R k lk u g c idle start n db) \<noteq> Inr (Some x)) \<and>
    view (snd (claim_script R k lk u g c idle start n db)) = view db \<and>
    fst (ack_and_delete_script R k lk g i c u db) \<noteq> Inr 1 \<and> view (snd (ack_and_delete_script R k lk g i c u db)) = view db \<and>
    fst (requeue_and_ack_script R k lk g i j m c u db) \<noteq> Inr 1 \<and>
    view (snd (requeue_and_ack_script R k lk g i j m c u db)) = view db \<and>
    fst (commit_delivery_script W R k lk q g i c u b fj db) \<noteq> Inr (IntReply 1) \<and>
    view (snd (commit_delivery_script W R k lk q g i c u b fj db)) = view db"
proof -
  note impl = redis_server.read_script_impl [OF assms(1)] redis_server.claim_script_impl [OF assms(1)]
    redis_server.ack_and_delete_script_impl [OF assms(1)] redis_server.requeue_and_ack_script_impl [OF assms(1)]
    redis_server.commit_delivery_script_impl [OF assms(1)]
  have get: "fst (ks_get lk (view db)) \<noteq> Inr (Some u)" "snd (ks_get lk (view db)) = view db"
    using assms(2) by (auto simp: ks_get_def split: option.splits rvalue.splits)
  have mine: "fst (owns_delivery ks_redis k lk g i c u (view db)) \<noteq> Inr True"
    "snd (owns_delivery ks_redis k lk g i c u (view db)) = view db"
    using owns_delivery_ks [of k lk g i c u "view db"] assms(2) by blast+
  have "\<forall>x. fst (read_script ks_redis keys lk u g c n (view db)) \<noteq> Inr (Some x)"
    "snd (read_script ks_redis keys lk u g c n (view db)) = view db"
    "\<forall>x. fst (claim_script ks_redis k lk u g c idle start n (view db)) \<noteq> Inr (Some x)"
    "snd (claim_script ks_redis k lk u g c idle start n (view db)) = view db"
    using get by (auto simp: read_script_def claim_script_def io_simps split: sum.splits)
  moreover have "fst (ack_and_delete_script ks_redis k lk g i c u (view db)) \<noteq> Inr 1"
    "snd (ack_and_delete_script ks_redis k lk g i c u (view db)) = view db"
    using mine by (auto simp: ack_and_delete_script_def io_simps split: sum.splits if_splits)
  moreover have "fst (requeue_and_ack_script ks_redis k lk g i j m c u (view db)) \<noteq> Inr 1"
    "snd (requeue_and_ack_script ks_redis k lk g i j m c u (view db)) = view db"
    using mine by (auto simp: requeue_and_ack_script_def io_simps split: sum.splits if_splits)
  moreover have "fst (commit_delivery_script W ks_redis k lk q g i c u b fj (view db)) \<noteq> Inr (IntReply 1)"
    "snd (commit_delivery_script W ks_redis k lk q g i c u b fj (view db)) = view db"
    using mine by (auto simp: commit_delivery_script_def io_simps split: sum.splits if_splits)
  ultimately show ?thesis
    unfolding impl [THEN implements_fst] impl [THEN implements_snd] by blast
qed

theorem stale_owner_is_fenced_witness:
  "fst (ack_and_delete_script ks_redis ''s'' ''l'' ''g'' (0, 1) ''c'' ''v'' leased_keyspace) \<noteq> Inr 1"
  using stale_owner_is_fenced [OF ref.redis_server_axioms, of leased_keyspace "''l''" "''v''"]
  by (simp add: leased_keyspace_def)

text \<open>
  A requeued delivery is conserved: the script that reports success has taken exactly the settled
  entry out of the stream and appended exactly one, under a new identifier, with the same
  envelope and the given attempt; all other entries are as they were.
\<close>

theorem requeue_conserves_message:
  assumes "redis_server R view" and "mailbox_wf k (view db)"
    and "requeue_and_ack_script R k lk g i envelope_json attempt c u db = (Inr 1, db')"
  shows "\<exists>st st' x. ks_data (view db) k = Some (RStream st) \<and> ks_data (view db') k = Some (RStream st') \<and>
    st_last st < x \<and> i \<le> st_last st \<and>
    st_entries st' = filter (\<lambda>e. fst e \<noteq> i) (st_entries st) @
      [(x, [(''envelope'', envelope_json), (''attempt'', show_int attempt)])]"
proof -
  have run: "requeue_and_ack_script ks_redis k lk g i envelope_json attempt c u (view db) = (Inr 1, view db')"
    by (rule implements_run [OF redis_server.requeue_and_ack_script_impl [OF assms(1)] assms(3)])
  let ?fs = "[(''envelope'', envelope_json), (''attempt'', show_int attempt)]"
  let ?add = "ks_xadd k ?fs (view db)"
  from run show ?thesis
  proof (cases rule: requeue_script_cases)
    case settled
    then obtain st gr x where st: "ks_data (view db) k = Some (RStream st)" "st_groups st g = Some gr"
        "i \<in> fst ` set (gr_pending gr)" and x: "fst ?add = Inr x"
      unfolding is_pending_def by blast
    then have nx: "next_id (now_ms (view db)) (st_last st) = Some x"
      and add: "ks_data (snd ?add) k = Some (RStream (append_entry x ?fs st))"
      by (auto simp: ks_xadd_def ks_stream_def append_entry_def split: option.splits)
    have gr: "st_groups (append_entry x ?fs st) g = Some gr" using st(2) by (simp add: append_entry_def)
    have "stream_wf st" using mailbox_wf_stream [OF assms(2) st(1)] .
    then have le: "i \<le> st_last st" using st(2,3) by (auto simp: stream_wf_def group_wf_def)
    have lt: "st_last st < x" using next_id_greater [OF nx] ..
    have "ks_data (view db') k = Some (RStream (without_entry g i gr (append_entry x ?fs st)))"
      using settled(5) settle_entry_run [OF add gr st(3)] by simp
    moreover have "x \<noteq> i" using le lt by auto
    ultimately show ?thesis
      using st(1) le lt by (auto simp: without_entry_def append_entry_def simp del: split_paired_Ex)
  qed simp
qed

theorem requeue_conserves_message_witness:
  "\<exists>(db :: keyspace) (db' :: keyspace) (st' :: stream). requeue_and_ack_script ks_redis ''s'' ''l'' ''g'' (0, 1) ''m'' 2 ''c'' ''u'' db = (Inr 1, db') \<and>
     ks_data db' ''s'' = Some (RStream st') \<and> map snd (st_entries st') = [[(''envelope'', ''m''), (''attempt'', show_int 2)]]"
proof -
  define st where "st = \<lparr>st_entries = [((0, 1), [(''envelope'', ''m'')])], st_last = (0, 1),
    st_groups = [''g'' \<mapsto> \<lparr>gr_last = (0, 1), gr_pending = [((0, 1), \<lparr>pe_consumer = ''c'', pe_time = 0, pe_count = 1\<rparr>)]\<rparr>]\<rparr>"
  define db where "db = ks_put ''s'' (RStream st) leased_keyspace"
  have wf: "mailbox_wf ''s'' db"
    by (simp add: db_def st_def mailbox_wf_def leased_keyspace_def stream_wf_def group_wf_def)
  have "fst (requeue_and_ack_script ks_redis ''s'' ''l'' ''g'' (0, 1) ''m'' 2 ''c'' ''u'' db) = Inr 1"
    by (simp add: db_def st_def leased_keyspace_def requeue_and_ack_script_def owns_delivery_def io_simps ks_get_def
        ks_xpending1_def ks_xadd_def ks_xack_def ks_xdel_def ks_stream_def next_id_def max_part_def now_ms_def)
  then obtain db' where run: "requeue_and_ack_script ks_redis ''s'' ''l'' ''g'' (0, 1) ''m'' 2 ''c'' ''u'' db = (Inr 1, db')"
    by (metis prod.collapse)
  from requeue_conserves_message [OF ref.redis_server_axioms wf run] obtain st' x where
    "ks_data db' ''s'' = Some (RStream st')" "map snd (st_entries st') = [[(''envelope'', ''m''), (''attempt'', show_int 2)]]"
    by (auto simp: db_def st_def)
  with run show ?thesis by (intro exI [of _ db] exI [of _ db'] exI [of _ st'] conjI)
qed

end
