(* ===== verification/Circuit_Breaker.thy ===== *)
theory Circuit_Breaker
  imports Durability Text_Numbers
begin

text \<open>
  \<open>packages/mas-gateway/src/mas_gateway/circuit_breaker.py\<close>: the circuit of a target as a state
  machine (\<open>transition\<close>), and its storage under optimistic locking, shared by every broker
  (\<open>apply_event\<close>). Clock readings are arguments.
\<close>

section \<open>State\<close>

datatype circuit_state = CLOSED | OPEN | HALF_OPEN

record circuit_config =
  failure_threshold :: int
  success_threshold :: int
  timeout_seconds :: real
  window_seconds :: real

definition circuit_config_ok :: "circuit_config \<Rightarrow> bool" where
  "circuit_config_ok cfg \<longleftrightarrow> 1 \<le> failure_threshold cfg \<and> 1 \<le> success_threshold cfg \<and>
     0 < timeout_seconds cfg \<and> 0 < window_seconds cfg"

record circuit_status =
  cs_state :: circuit_state
  failure_count :: int
  success_count :: int
  last_failure_time :: "real option"
  opened_at :: "real option"
  cs_allowed :: bool

definition fresh_circuit :: circuit_status where
  "fresh_circuit = \<lparr>cs_state = CLOSED, failure_count = 0, success_count = 0,
     last_failure_time = None, opened_at = None, cs_allowed = True\<rparr>"

fun state_value :: "circuit_state \<Rightarrow> string" where
  "state_value CLOSED = ''closed''"
| "state_value OPEN = ''open''"
| "state_value HALF_OPEN = ''half_open''"

definition parse_state :: "string \<Rightarrow> circuit_state option" where
  "parse_state s = (if s = ''closed'' then Some CLOSED else if s = ''open'' then Some OPEN
     else if s = ''half_open'' then Some HALF_OPEN else None)"

text \<open>A field of the model: its default when missing, else its text converted and checked.\<close>

definition model_field :: "(string \<rightharpoonup> string) \<Rightarrow> string \<Rightarrow> 'a \<Rightarrow> (string \<Rightarrow> 'a option) \<Rightarrow> err + 'a" where
  "model_field raw name d conv = (case raw name of
     None \<Rightarrow> Inr d
   | Some t \<Rightarrow> (case conv t of None \<Rightarrow> Inl ValidationError | Some x \<Rightarrow> Inr x))"

definition nonneg_int :: "text_numbers \<Rightarrow> string \<Rightarrow> int option" where
  "nonneg_int N t = (case py_int N t of None \<Rightarrow> None | Some i \<Rightarrow> if 0 \<le> i then Some i else None)"

definition optional_time :: "text_numbers \<Rightarrow> string \<Rightarrow> real option option" where
  "optional_time N t = (if t = [] then Some None else map_option Some (py_float N t))"

definition bindr :: "err + 'a \<Rightarrow> ('a \<Rightarrow> err + 'b) \<Rightarrow> err + 'b" where
  "bindr r f = (case r of Inl e \<Rightarrow> Inl e | Inr x \<Rightarrow> f x)"

definition status_from_data :: "text_numbers \<Rightarrow> (string \<rightharpoonup> string) \<Rightarrow> err + circuit_status" where
  "status_from_data N raw =
     bindr (model_field raw ''state'' CLOSED parse_state) (\<lambda>state.
     bindr (model_field raw ''failure_count'' 0 (nonneg_int N)) (\<lambda>failures.
     bindr (model_field raw ''success_count'' 0 (nonneg_int N)) (\<lambda>successes.
     bindr (model_field raw ''last_failure_time'' None (optional_time N)) (\<lambda>failed.
     bindr (model_field raw ''opened_at'' None (optional_time N)) (\<lambda>opened.
     bindr (model_field raw ''allowed'' True (py_bool N)) (\<lambda>_.
     Inr \<lparr>cs_state = state, failure_count = failures, success_count = successes,
          last_failure_time = failed, opened_at = opened, cs_allowed = (state \<noteq> OPEN)\<rparr>))))))"

definition time_text :: "text_numbers \<Rightarrow> real option \<Rightarrow> string" where
  "time_text N t = (case t of None \<Rightarrow> [] | Some x \<Rightarrow> py_repr N x)"

definition status_data :: "text_numbers \<Rightarrow> circuit_status \<Rightarrow> (string \<times> string) list" where
  "status_data N s =
     [(''state'', state_value (cs_state s)),
      (''failure_count'', show_int (failure_count s)),
      (''success_count'', show_int (success_count s)),
      (''last_failure_time'', time_text N (last_failure_time s)),
      (''opened_at'', time_text N (opened_at s))]"

section \<open>Transitions\<close>

datatype circuit_event = CheckEvent | SuccessEvent | FailureEvent

definition check_timeout :: "circuit_config \<Rightarrow> real \<Rightarrow> circuit_status \<Rightarrow> circuit_status" where
  "check_timeout cfg now s =
     (case opened_at s of
        Some opened \<Rightarrow>
          if cs_state s = OPEN \<and> now - opened \<ge> timeout_seconds cfg
          then s\<lparr>cs_state := HALF_OPEN, success_count := 0, cs_allowed := True\<rparr> else s
      | None \<Rightarrow> s)"

definition on_success :: "circuit_config \<Rightarrow> circuit_status \<Rightarrow> circuit_status" where
  "on_success cfg s =
     (if cs_state s = HALF_OPEN then
        (let s' = s\<lparr>success_count := success_count s + 1\<rparr> in
         if success_count s' \<ge> success_threshold cfg
         then s'\<lparr>cs_state := CLOSED, failure_count := 0, success_count := 0,
                 last_failure_time := None, opened_at := None\<rparr>
         else s')
      else if failure_count s \<noteq> 0 then s\<lparr>failure_count := 0, last_failure_time := None\<rparr>
      else s)"

definition on_failure :: "circuit_config \<Rightarrow> real \<Rightarrow> circuit_status \<Rightarrow> circuit_status" where
  "on_failure cfg now s =
     (let expired = (case last_failure_time s of None \<Rightarrow> True | Some t \<Rightarrow> now - t > window_seconds cfg);
          n = (if expired then 0 else failure_count s) + 1;
          s' = s\<lparr>failure_count := n, last_failure_time := Some now\<rparr> in
      if cs_state s' = HALF_OPEN \<or> (cs_state s' = CLOSED \<and> n \<ge> failure_threshold cfg)
      then s'\<lparr>cs_state := OPEN, opened_at := Some now, success_count := 0\<rparr>
      else s')"

definition transition :: "circuit_config \<Rightarrow> real \<Rightarrow> circuit_status \<Rightarrow> circuit_event \<Rightarrow> circuit_status \<times> circuit_status" where
  "transition cfg now original event =
     (let checked = check_timeout cfg now original;
          recorded = (case event of
             SuccessEvent \<Rightarrow> if cs_allowed checked then on_success cfg checked else checked
           | FailureEvent \<Rightarrow> on_failure cfg now checked
           | CheckEvent \<Rightarrow> checked)
      in (checked, recorded\<lparr>cs_allowed := (cs_state recorded \<noteq> OPEN)\<rparr>))"

section \<open>Storage\<close>

definition circuit_key :: "string \<Rightarrow> string" where
  "circuit_key target_id = ''circuit:'' @ target_id"

definition circuit_ttl :: "circuit_config \<Rightarrow> int" where
  "circuit_ttl cfg = \<lceil>max (window_seconds cfg) (timeout_seconds cfg * 2)\<rceil>"

text \<open>
  One attempt of the optimistic loop, from \<open>WATCH\<close> to \<open>EXEC\<close>: the clock it reads, what other
  clients do before its \<open>WATCH\<close> and between its read and its \<open>EXEC\<close>, and whether the server
  saw the watched key touched in between, so that \<open>EXEC\<close> is refused (\<open>WatchError\<close>).
\<close>

record 'db attempt =
  att_clock :: real
  att_before :: "'db \<Rightarrow> 'db"
  att_between :: "'db \<Rightarrow> 'db"
  att_touched :: bool

definition store_status ::
  "text_numbers \<Rightarrow> 'db redis \<Rightarrow> circuit_config \<Rightarrow> string \<Rightarrow> circuit_status \<Rightarrow> ('db, unit) io" where
  "store_status N R cfg key recorded =
     seqio (HSET R key (status_data N recorded)) (EXPIRE R key (circuit_ttl cfg))"

definition read_status :: "text_numbers \<Rightarrow> 'db redis \<Rightarrow> string \<Rightarrow> ('db, circuit_status) io" where
  "read_status N R key = bindio (HGETALL R key) (\<lambda>raw. of_result (status_from_data N raw))"

text \<open>The loop \<open>while True\<close>, over the attempts it gets; \<open>None\<close> when they are used up.\<close>

primrec circuit_loop :: "text_numbers \<Rightarrow> 'db redis \<Rightarrow> circuit_config \<Rightarrow> string \<Rightarrow> circuit_event \<Rightarrow>
    'db attempt list \<Rightarrow> 'db \<Rightarrow> ((err + circuit_status \<times> circuit_status) \<times> 'db) option" where
  "circuit_loop N R cfg key event [] db = None"
| "circuit_loop N R cfg key event (att # atts) db =
     (case read_status N R key (att_before att db) of
        (Inl e, db') \<Rightarrow> Some (Inl e, db')
      | (Inr original, db') \<Rightarrow>
          (let (checked, recorded) = transition cfg (att_clock att) original event in
           if recorded = original then Some (Inr (checked, recorded), db')
           else let mid = att_between att db' in
             if att_touched att then circuit_loop N R cfg key event atts mid
             else (case store_status N R cfg key recorded mid of
                     (Inl e, db'') \<Rightarrow> Some (Inl e, db'')
                   | (Inr _, db'') \<Rightarrow> Some (Inr (checked, recorded), db''))))"

definition apply_event :: "text_numbers \<Rightarrow> 'db redis \<Rightarrow> circuit_config \<Rightarrow> string \<Rightarrow> circuit_event \<Rightarrow> real \<Rightarrow>
    'db attempt list \<Rightarrow> 'db \<Rightarrow> ((err + circuit_status \<times> circuit_status) \<times> 'db) option" where
  "apply_event N R cfg target_id event now atts db =
     (let key = circuit_key target_id in
      case read_status N R key db of
        (Inl e, db') \<Rightarrow> Some (Inl e, db')
      | (Inr original, db') \<Rightarrow>
          (let (checked, recorded) = transition cfg now original event in
           if recorded = original then Some (Inr (checked, recorded), db')
           else circuit_loop N R cfg key event atts db'))"

definition pick :: "('a \<Rightarrow> 'b) \<Rightarrow> ((err + 'a) \<times> 'db) option \<Rightarrow> ((err + 'b) \<times> 'db) option" where
  "pick f out = map_option (\<lambda>(r, db). (map_sum (\<lambda>e. e) f r, db)) out"

definition check_circuit where
  "check_circuit N R cfg target_id now atts db = pick fst (apply_event N R cfg target_id CheckEvent now atts db)"

definition record_success where
  "record_success N R cfg target_id now atts db = pick snd (apply_event N R cfg target_id SuccessEvent now atts db)"

definition record_failure where
  "record_failure N R cfg target_id now atts db = pick snd (apply_event N R cfg target_id FailureEvent now atts db)"

definition check_and_record_success where
  "check_and_record_success N R cfg target_id now atts db = apply_event N R cfg target_id SuccessEvent now atts db"

definition check_and_record_failure where
  "check_and_record_failure N R cfg target_id now atts db = apply_event N R cfg target_id FailureEvent now atts db"

text \<open>The read that takes part in the combined admission of a message.\<close>

definition circuit_queue_check :: "'db redis \<Rightarrow> string \<Rightarrow> 'db pipe \<Rightarrow> err + 'db pipe" where
  "circuit_queue_check R target_id pipeline =
     (if watching pipeline then Inl (ValueError ''admission checks require an unwatched pipeline'')
      else Inr (pipeline\<lparr>command_stack := command_stack pipeline @
        [bindio (HGETALL R (circuit_key target_id)) (\<lambda>m. ret (MapReply m))]\<rparr>))"

definition resolve_check :: "text_numbers \<Rightarrow> 'db redis \<Rightarrow> circuit_config \<Rightarrow> err + reply \<Rightarrow> string \<Rightarrow> real \<Rightarrow> real \<Rightarrow>
    'db attempt list \<Rightarrow> 'db \<Rightarrow> ((err + circuit_status) \<times> 'db) option" where
  "resolve_check N R cfg raw target_id now now' atts db =
     (case raw of
        Inl e \<Rightarrow> Some (Inl e, db)
      | Inr (MapReply m) \<Rightarrow>
          (case status_from_data N m of
             Inl e \<Rightarrow> Some (Inl e, db)
           | Inr original \<Rightarrow>
               (let (checked, recorded) = transition cfg now original CheckEvent in
                if recorded = original then Some (Inr checked, db)
                else check_circuit N R cfg target_id now' atts db))
      | Inr _ \<Rightarrow> Some (Inl ValidationError, db))"

definition reset_circuit :: "'db redis \<Rightarrow> string \<Rightarrow> ('db, unit) io" where
  "reset_circuit R target_id = DEL R [circuit_key target_id]"

text \<open>\<open>payload\<close> is the serialised payload, \<open>stamp\<close> the text of the clock.\<close>

definition add_to_dlq :: "'db redis \<Rightarrow> string \<Rightarrow> string \<Rightarrow> string \<Rightarrow> string \<Rightarrow> string \<Rightarrow> ('db, unit) io" where
  "add_to_dlq R target_id message_id payload reason stamp =
     seqio (XADD R ''dlq:messages'' [(''message_id'', message_id), (''target_id'', target_id),
              (''payload'', payload), (''reason'', reason), (''timestamp'', stamp)])
           (ret ())"

section \<open>Invariant of the state machine\<close>

definition circuit_inv :: "circuit_config \<Rightarrow> circuit_status \<Rightarrow> bool" where
  "circuit_inv cfg s \<longleftrightarrow>
     0 \<le> failure_count s \<and> 0 \<le> success_count s \<and>
     (cs_allowed s \<longleftrightarrow> cs_state s \<noteq> OPEN) \<and>
     (cs_state s = CLOSED \<longrightarrow> failure_count s < failure_threshold cfg \<and> success_count s = 0 \<and> opened_at s = None) \<and>
     (cs_state s \<noteq> CLOSED \<longrightarrow> opened_at s \<noteq> None \<and> 1 \<le> failure_count s) \<and>
     (cs_state s = HALF_OPEN \<longrightarrow> success_count s < success_threshold cfg) \<and>
     (cs_state s = OPEN \<longrightarrow> success_count s = 0) \<and>
     (failure_count s \<noteq> 0 \<longrightarrow> last_failure_time s \<noteq> None)"

lemmas transition_defs = transition_def check_timeout_def on_success_def on_failure_def Let_def

lemma circuit_inv_fresh: "circuit_config_ok cfg \<Longrightarrow> circuit_inv cfg fresh_circuit"
  by (simp add: circuit_inv_def fresh_circuit_def circuit_config_ok_def)

lemma circuit_inv_check: "circuit_config_ok cfg \<Longrightarrow> circuit_inv cfg s \<Longrightarrow> circuit_inv cfg (check_timeout cfg now s)"
  by (auto simp: circuit_inv_def circuit_config_ok_def check_timeout_def split: option.splits)

lemma circuit_inv_success:
  "circuit_config_ok cfg \<Longrightarrow> circuit_inv cfg s \<Longrightarrow> cs_allowed s \<Longrightarrow>
   circuit_inv cfg ((on_success cfg s)\<lparr>cs_allowed := cs_state (on_success cfg s) \<noteq> OPEN\<rparr>)"
  by (cases "cs_state s") (auto simp: circuit_inv_def circuit_config_ok_def on_success_def Let_def)

lemma circuit_inv_failure:
  "circuit_config_ok cfg \<Longrightarrow> circuit_inv cfg s \<Longrightarrow>
   circuit_inv cfg ((on_failure cfg now s)\<lparr>cs_allowed := cs_state (on_failure cfg now s) \<noteq> OPEN\<rparr>)"
  by (cases "cs_state s") (auto simp: circuit_inv_def circuit_config_ok_def on_failure_def Let_def split: option.splits)

lemma circuit_inv_same: "circuit_inv cfg s \<Longrightarrow> s\<lparr>cs_allowed := cs_state s \<noteq> OPEN\<rparr> = s"
  by (simp add: circuit_inv_def)

lemma circuit_inv_transition:
  assumes "circuit_config_ok cfg" and "circuit_inv cfg s" and "transition cfg now s e = (c, r)"
  shows "circuit_inv cfg c \<and> circuit_inv cfg r"
  using assms circuit_inv_check [OF assms(1,2), of now]
  by (cases e) (auto simp: transition_def Let_def circuit_inv_same circuit_inv_success circuit_inv_failure
      split: if_splits)

lemma circuit_inv_step:
  "circuit_config_ok cfg \<Longrightarrow> circuit_inv cfg s \<Longrightarrow> circuit_inv cfg (snd (transition cfg now s e))"
  using circuit_inv_transition by (metis prod.collapse)

section \<open>Runs of the state machine\<close>

definition run_events :: "circuit_config \<Rightarrow> (real \<times> circuit_event) list \<Rightarrow> circuit_status \<Rightarrow> circuit_status" where
  "run_events cfg es s = fold (\<lambda>(now, e) s. snd (transition cfg now s e)) es s"

definition failures_at :: "real list \<Rightarrow> (real \<times> circuit_event) list" where
  "failures_at ts = map (\<lambda>t. (t, FailureEvent)) ts"

definition successes_at :: "real list \<Rightarrow> (real \<times> circuit_event) list" where
  "successes_at ts = map (\<lambda>t. (t, SuccessEvent)) ts"

fun gaps_within :: "real \<Rightarrow> real list \<Rightarrow> bool" where
  "gaps_within w (s # t # ts) = (t - s \<le> w \<and> gaps_within w (t # ts))"
| "gaps_within w _ = True"

lemma gaps_within_snoc:
  "gaps_within w (ts @ [t]) \<longleftrightarrow> gaps_within w ts \<and> (ts = [] \<or> t - last ts \<le> w)"
  by (induction w ts rule: gaps_within.induct) auto

lemma failures_run:
  assumes "circuit_config_ok cfg" and "gaps_within (window_seconds cfg) ts"
  defines "s \<equiv> run_events cfg (failures_at ts) fresh_circuit"
  shows "if int (length ts) < failure_threshold cfg
    then cs_state s = CLOSED \<and> failure_count s = int (length ts) \<and>
         last_failure_time s = (if ts = [] then None else Some (last ts)) \<and> opened_at s = None
    else cs_state s = OPEN"
  using assms(2) unfolding s_def
proof (induction ts rule: rev_induct)
  case Nil
  with assms(1) show ?case
    by (simp add: run_events_def failures_at_def fresh_circuit_def circuit_config_ok_def)
next
  case (snoc t ts)
  let ?s = "run_events cfg (failures_at ts) fresh_circuit"
  have step: "run_events cfg (failures_at (ts @ [t])) fresh_circuit = snd (transition cfg t ?s FailureEvent)"
    by (simp add: run_events_def failures_at_def)
  have ih: "if int (length ts) < failure_threshold cfg
    then cs_state ?s = CLOSED \<and> failure_count ?s = int (length ts) \<and>
         last_failure_time ?s = (if ts = [] then None else Some (last ts)) \<and> opened_at ?s = None
    else cs_state ?s = OPEN" and gap: "ts = [] \<or> t - last ts \<le> window_seconds cfg"
    using snoc by (simp_all add: gaps_within_snoc)
  show ?case
  proof (cases "int (length ts) < failure_threshold cfg")
    case True
    with ih gap show ?thesis unfolding step by (auto simp: transition_defs)
  next
    case False
    with ih show ?thesis unfolding step by (auto simp: transition_defs split: option.splits)
  qed
qed

lemma successes_run:
  assumes cfg: "circuit_config_ok cfg" and s: "circuit_inv cfg s" "cs_state s = OPEN" "opened_at s = Some t0"
    and ts: "\<forall>t \<in> set ts. t0 + timeout_seconds cfg \<le> t" and ne: "ts \<noteq> []"
  defines "r \<equiv> run_events cfg (successes_at ts) s"
  shows "if int (length ts) < success_threshold cfg
    then cs_state r = HALF_OPEN \<and> success_count r = int (length ts) \<and> cs_allowed r
    else cs_state r = CLOSED \<and> failure_count r = 0 \<and> cs_allowed r"
  using ts ne unfolding r_def
proof (induction ts rule: rev_induct)
  case (snoc t ts)
  let ?r = "run_events cfg (successes_at ts) s"
  have step: "run_events cfg (successes_at (ts @ [t])) s = snd (transition cfg t ?r SuccessEvent)"
    by (simp add: run_events_def successes_at_def)
  show ?case
  proof (cases "ts = []")
    case True
    then have "?r = s" by (simp add: run_events_def successes_at_def)
    with s cfg snoc.prems True show ?thesis
      unfolding step by (auto simp: transition_defs circuit_config_ok_def)
  next
    case False
    with snoc have ih: "if int (length ts) < success_threshold cfg
      then cs_state ?r = HALF_OPEN \<and> success_count ?r = int (length ts) \<and> cs_allowed ?r
      else cs_state ?r = CLOSED \<and> failure_count ?r = 0 \<and> cs_allowed ?r" by simp
    then show ?thesis
      unfolding step
      by (cases "int (length ts) < success_threshold cfg")
         (auto simp: transition_defs split: option.splits)
  qed
qed simp

section \<open>Storage round trip\<close>

definition storable :: "text_numbers \<Rightarrow> circuit_status \<Rightarrow> bool" where
  "storable N s \<longleftrightarrow> 0 \<le> failure_count s \<and> 0 \<le> success_count s \<and>
     (\<forall>t. last_failure_time s = Some t \<longrightarrow> is_double N t) \<and> (\<forall>t. opened_at s = Some t \<longrightarrow> is_double N t) \<and>
     (cs_allowed s \<longleftrightarrow> cs_state s \<noteq> OPEN)"

lemma bindr_Inr: "bindr r f = Inr y \<longleftrightarrow> (\<exists>x. r = Inr x \<and> f x = Inr y)"
  by (auto simp: bindr_def split: sum.splits)

lemma storable_transition:
  assumes "storable N s" and "is_double N now" and "transition cfg now s e = (c, r)"
  shows "storable N r"
proof -
  have c: "storable N (check_timeout cfg now s)"
    using assms(1) by (auto simp: storable_def check_timeout_def split: option.splits)
  have "storable N ((on_success cfg x)\<lparr>cs_allowed := cs_state (on_success cfg x) \<noteq> OPEN\<rparr>)"
    "storable N ((on_failure cfg now x)\<lparr>cs_allowed := cs_state (on_failure cfg now x) \<noteq> OPEN\<rparr>)"
    "storable N (x\<lparr>cs_allowed := cs_state x \<noteq> OPEN\<rparr>)" if "storable N x" for x
    using that assms(2) by (auto simp: storable_def on_success_def on_failure_def Let_def split: option.splits)
  with c assms(3) show ?thesis by (cases e) (auto simp: transition_def Let_def split: if_splits)
qed

context numerals
begin

lemma count_field: "model_field raw n 0 (nonneg_int N) = Inr i \<Longrightarrow> 0 \<le> i"
  by (auto simp: model_field_def nonneg_int_def split: option.splits if_splits)

lemma time_field: "model_field raw n None (optional_time N) = Inr (Some x) \<Longrightarrow> is_double N x"
  by (auto simp: model_field_def optional_time_def dest: py_float_double split: option.splits if_splits)

lemma status_from_data_storable:
  assumes "status_from_data N raw = Inr s"
  shows "storable N s \<and> (\<exists>b. model_field raw ''allowed'' True (py_bool N) = Inr b)"
proof -
  obtain st f n l p b where "model_field raw ''failure_count'' 0 (nonneg_int N) = Inr f"
      "model_field raw ''success_count'' 0 (nonneg_int N) = Inr n"
      "model_field raw ''last_failure_time'' None (optional_time N) = Inr l"
      "model_field raw ''opened_at'' None (optional_time N) = Inr p"
      "model_field raw ''allowed'' True (py_bool N) = Inr b"
    and s: "s = \<lparr>cs_state = st, failure_count = f, success_count = n, last_failure_time = l,
                opened_at = p, cs_allowed = (st \<noteq> OPEN)\<rparr>"
    using assms unfolding status_from_data_def bindr_Inr by blast
  then show ?thesis unfolding s storable_def by (auto dest: count_field time_field)
qed

lemma parse_state_value: "parse_state (state_value st) = Some st"
  by (cases st) (simp_all add: parse_state_def)

lemma status_roundtrip:
  assumes s: "storable N s" and b: "model_field raw ''allowed'' True (py_bool N) = Inr b"
  shows "status_from_data N (raw ++ map_of (rev (status_data N s))) = Inr s"
proof -
  have int: "nonneg_int N (show_int i) = Some i" if "0 \<le> i" for i
    using that py_int_show [of "nat i"] by (simp add: nonneg_int_def show_int_def)
  have time: "optional_time N (time_text N t) = Some t" if "\<forall>x. t = Some x \<longrightarrow> is_double N x" for t
    using that py_float_repr py_repr_nonempty by (cases t) (auto simp: optional_time_def time_text_def)
  have "(raw ++ map_of (rev (status_data N s))) ''allowed'' = raw ''allowed''"
    by (simp add: status_data_def map_add_def)
  then have "model_field (raw ++ map_of (rev (status_data N s))) ''allowed'' True (py_bool N) = Inr b"
    using b by (simp add: model_field_def)
  then show ?thesis
    using s
    by (simp add: status_from_data_def bindr_def model_field_def status_data_def map_add_def
        parse_state_value int time storable_def)
qed

end

section \<open>Optimistic locking\<close>

definition status_at :: "text_numbers \<Rightarrow> string \<Rightarrow> keyspace \<Rightarrow> err + circuit_status" where
  "status_at N key ks = fst (read_status N ks_redis key ks)"

text \<open>What \<open>WATCH\<close> promises: if \<open>EXEC\<close> is not refused, nobody changed the key since.\<close>

definition watch_ok :: "('db \<Rightarrow> keyspace) \<Rightarrow> string \<Rightarrow> 'db attempt list \<Rightarrow> bool" where
  "watch_ok view key atts \<longleftrightarrow>
     (\<forall>att \<in> set atts. \<not> att_touched att \<longrightarrow>
        (\<forall>db. ks_data (view (att_between att db)) key = ks_data (view db) key))"

text \<open>
  From \<open>db\<close> to \<open>db'\<close> the stored circuit of \<open>key\<close> made exactly the step of \<open>event\<close> at time \<open>now\<close>,
  and nothing else was written.
\<close>

definition circuit_step :: "text_numbers \<Rightarrow> circuit_config \<Rightarrow> string \<Rightarrow> circuit_event \<Rightarrow> real \<Rightarrow>
    circuit_status \<times> circuit_status \<Rightarrow> keyspace \<Rightarrow> keyspace \<Rightarrow> bool" where
  "circuit_step N cfg key event now out ks ks' \<longleftrightarrow>
     (\<exists>original. status_at N key ks = Inr original \<and> transition cfg now original event = out) \<and>
     status_at N key ks' = Inr (snd out) \<and> (\<forall>k. k = key \<or> ks_data ks' k = ks_data ks k)"

text \<open>
  The storage that others have made of \<open>db\<close> when the attempts \<open>pre\<close> are over: each reads the
  circuit after what came before its \<open>WATCH\<close>, and writes nothing. The attempt that follows reads
  at \<open>watched_at\<close> and executes at \<open>executed_at\<close>.
\<close>

primrec interfered :: "text_numbers \<Rightarrow> 'db redis \<Rightarrow> string \<Rightarrow> 'db attempt list \<Rightarrow> 'db \<Rightarrow> 'db" where
  "interfered N R key [] db = db"
| "interfered N R key (att # pre) db = interfered N R key pre (att_between att (snd (read_status N R key (att_before att db))))"

definition watched_at :: "text_numbers \<Rightarrow> 'db redis \<Rightarrow> string \<Rightarrow> 'db attempt list \<Rightarrow> 'db attempt \<Rightarrow> 'db \<Rightarrow> 'db" where
  "watched_at N R key pre att db = att_before att (interfered N R key pre (snd (read_status N R key db)))"

definition executed_at :: "text_numbers \<Rightarrow> 'db redis \<Rightarrow> string \<Rightarrow> 'db attempt list \<Rightarrow> 'db attempt \<Rightarrow> 'db \<Rightarrow> 'db" where
  "executed_at N R key pre att db = att_between att (snd (read_status N R key (watched_at N R key pre att db)))"

text \<open>The event changes nothing in the circuit as it is stored, and nothing is written.\<close>

definition circuit_idle :: "text_numbers \<Rightarrow> circuit_config \<Rightarrow> string \<Rightarrow> circuit_event \<Rightarrow> real \<Rightarrow>
    circuit_status \<times> circuit_status \<Rightarrow> keyspace \<Rightarrow> keyspace \<Rightarrow> bool" where
  "circuit_idle N cfg key event now out ks ks' \<longleftrightarrow>
     status_at N key ks = Inr (snd out) \<and> transition cfg now (snd out) event = out \<and> ks' = ks"

lemma read_status_ks: "read_status N ks_redis key ks = (status_at N key ks, ks)"
  by (auto simp: status_at_def read_status_def bindio_split ks_hgetall_def split: option.splits rvalue.splits sum.splits)

lemma status_at_cong: "ks_data ks key = ks_data ks' key \<Longrightarrow> status_at N key ks = status_at N key ks'"
  by (auto simp: status_at_def read_status_def bindio_split ks_hgetall_def split: option.splits rvalue.splits sum.splits)

lemma status_at_hash:
  assumes "status_at N key ks = Inr s"
  shows "type_of_value (ks_data ks key) \<in> {TNone, THash}"
  using assms
  by (cases "ks_data ks key" rule: type_of_value.cases)
     (auto simp: status_at_def read_status_def bindio_split ks_hgetall_def)

lemma circuit_ttl_pos: "circuit_config_ok cfg \<Longrightarrow> 0 < circuit_ttl cfg"
  by (auto simp: circuit_config_ok_def circuit_ttl_def less_max_iff_disj)

locale circuit_storage = redis_server + numerals
begin

lemma read_status_impl: "implements view (read_status N R key) (read_status N ks_redis key)"
  by (auto simp: read_status_def intro!: implements_intros)

lemma store_status_impl: "implements view (store_status N R cfg key s) (store_status N ks_redis cfg key s)"
  by (auto simp: store_status_def intro!: implements_intros)

lemma read_status_run:
  "read_status N R key db = (r, db') \<Longrightarrow> r = status_at N key (view db) \<and> view db' = view db"
  using implements_run [OF read_status_impl, of key db r db'] by (auto simp: read_status_ks)

lemma store_status_run:
  assumes cfg: "circuit_config_ok cfg" and s: "storable N s" and was: "status_at N key (view db) = Inr old"
  shows "\<exists>db'. store_status N R cfg key s db = (Inr (), db') \<and> status_at N key (view db') = Inr s \<and>
    (\<forall>k. k = key \<or> ks_data (view db') k = ks_data (view db) k)"
proof -
  let ?raw = "case ks_data (view db) key of Some (RHash h) \<Rightarrow> h | _ \<Rightarrow> Map.empty"
  have old: "status_from_data N ?raw = Inr old"
    using was status_at_hash [OF was]
    by (cases "ks_data (view db) key" rule: type_of_value.cases)
       (auto simp: status_at_def read_status_def bindio_split ks_hgetall_def)
  obtain b where "model_field ?raw ''allowed'' True (py_bool N) = Inr b"
    using status_from_data_storable [OF old] by blast
  note new = status_roundtrip [OF s this]
  have hset: "ks_hset key (status_data N s) (view db) =
      (Inr (), ks_put key (RHash (?raw ++ map_of (rev (status_data N s)))) (view db))"
    using status_at_hash [OF was]
    by (cases "ks_data (view db) key" rule: type_of_value.cases) (auto simp: ks_hset_def status_data_def)
  obtain ks' where run: "store_status N ks_redis cfg key s (view db) = (Inr (), ks')"
    and data: "ks_data ks' = (ks_data (view db))(key \<mapsto> RHash (?raw ++ map_of (rev (status_data N s))))"
    using circuit_ttl_pos [OF cfg]
    by (auto simp: store_status_def seqio_split hset EXPIRE_def ks_pexpire_def)
  have "status_at N key ks' = Inr s"
    using new data by (simp add: status_at_def read_status_def bindio_split ks_hgetall_def)
  then show ?thesis
    using run data implements_fst [OF store_status_impl, of cfg key s db]
      implements_snd [OF store_status_impl, of cfg key s db]
    by (metis fst_conv snd_conv fun_upd_apply prod.collapse)
qed

lemma circuit_loop_atomic:
  assumes cfg: "circuit_config_ok cfg" and clocks: "\<forall>att \<in> set atts. is_double N (att_clock att)"
    and watch: "watch_ok view key atts"
    and run: "circuit_loop N R cfg key event atts db = Some (Inr out, db')"
  shows "\<exists>pre att post. atts = pre @ att # post \<and> (\<forall>p \<in> set pre. att_touched p) \<and>
    (let start = att_before att (interfered N R key pre db) in
      circuit_idle N cfg key event (att_clock att) out (view start) (view db') \<or>
      \<not> att_touched att \<and>
      circuit_step N cfg key event (att_clock att) out (view (att_between att (snd (read_status N R key start)))) (view db'))"
  using clocks watch run
proof (induction atts arbitrary: db)
  case (Cons att atts)
  obtain r db1 where read: "read_status N R key (att_before att db) = (r, db1)" by fastforce
  note r = read_status_run [OF read]
  from read Cons.prems(3) obtain original where o: "r = Inr original" by (cases r) auto
  obtain checked recorded where t: "transition cfg (att_clock att) original event = (checked, recorded)" by fastforce
  let ?mid = "att_between att db1"
  have st: "status_at N key (view db1) = Inr original" using r o by simp
  consider "recorded = original" | "recorded \<noteq> original" "att_touched att" | "recorded \<noteq> original" "\<not> att_touched att"
    by blast
  then show ?case
  proof cases
    case 1
    then have "out = (checked, recorded)" "db' = db1" using Cons.prems(3) read o t by auto
    with 1 st t r show ?thesis by (intro exI [of _ "[]"] exI [of _ att] exI [of _ atts]) (simp add: circuit_idle_def Let_def)
  next
    case 2
    then have "circuit_loop N R cfg key event atts ?mid = Some (Inr out, db')"
      using Cons.prems(3) read o t by simp
    from Cons.IH [OF _ _ this] Cons.prems(1,2) obtain pre a post where "atts = pre @ a # post" "\<forall>p \<in> set pre. att_touched p"
      "let start = att_before a (interfered N R key pre ?mid) in circuit_idle N cfg key event (att_clock a) out (view start) (view db') \<or>
        \<not> att_touched a \<and> circuit_step N cfg key event (att_clock a) out (view (att_between a (snd (read_status N R key start)))) (view db')"
      by (auto simp: watch_ok_def)
    with 2 read show ?thesis by (intro exI [of _ "att # pre"] exI [of _ a] exI [of _ post]) simp
  next
    case 3
    then have "ks_data (view ?mid) key = ks_data (view db1) key" using Cons.prems(2) by (simp add: watch_ok_def)
    then have mid: "status_at N key (view ?mid) = Inr original" using st status_at_cong by metis
    have "status_from_data N raw = Inr original \<Longrightarrow> storable N original" for raw
      using status_from_data_storable by blast
    then have "storable N original"
      using st by (auto simp: status_at_def read_status_def bindio_split split: sum.splits)
    then have "storable N recorded" using storable_transition [OF _ _ t] Cons.prems(1) by simp
    from store_status_run [OF cfg this mid] obtain db2 where "store_status N R cfg key recorded ?mid = (Inr (), db2)"
        "status_at N key (view db2) = Inr recorded" "\<forall>k. k = key \<or> ks_data (view db2) k = ks_data (view ?mid) k"
      by blast
    moreover from this have "out = (checked, recorded)" "db' = db2" using 3 Cons.prems(3) read o t by auto
    ultimately have "circuit_step N cfg key event (att_clock att) out (view ?mid) (view db')" using mid t unfolding circuit_step_def by auto
    with 3 read show ?thesis by (intro exI [of _ "[]"] exI [of _ att] exI [of _ atts]) (simp add: Let_def)
  qed
qed simp

lemma apply_event_atomic:
  assumes cfg: "circuit_config_ok cfg" and clocks: "\<forall>att \<in> set atts. is_double N (att_clock att)"
    and watch: "watch_ok view (circuit_key target) atts"
    and run: "apply_event N R cfg target event now atts db = Some (Inr out, db')"
  shows "circuit_idle N cfg (circuit_key target) event now out (view db) (view db') \<or>
    (\<exists>pre att post. atts = pre @ att # post \<and> (\<forall>p \<in> set pre. att_touched p) \<and>
      (circuit_idle N cfg (circuit_key target) event (att_clock att) out (view (watched_at N R (circuit_key target) pre att db)) (view db') \<or>
       \<not> att_touched att \<and>
       circuit_step N cfg (circuit_key target) event (att_clock att) out (view (executed_at N R (circuit_key target) pre att db)) (view db')))"
proof -
  obtain r db1 where read: "read_status N R (circuit_key target) db = (r, db1)" by fastforce
  note r = read_status_run [OF read]
  from read run obtain original where o: "r = Inr original" by (cases r) (auto simp: apply_event_def)
  obtain checked recorded where t: "transition cfg now original event = (checked, recorded)" by fastforce
  show ?thesis
  proof (cases "recorded = original")
    case True
    then have "out = (checked, recorded)" "db' = db1" using run read o t by (auto simp: apply_event_def)
    moreover have "status_at N (circuit_key target) (view db) = Inr original" "view db1 = view db"
      using r o by auto
    ultimately show ?thesis using True t by (simp add: circuit_idle_def)
  next
    case False
    then have "circuit_loop N R cfg (circuit_key target) event atts db1 = Some (Inr out, db')"
      using run read o t by (simp add: apply_event_def)
    then show ?thesis using circuit_loop_atomic [OF cfg clocks watch] read
      by (simp add: executed_at_def watched_at_def Let_def)
  qed
qed

end

interpretation ref_circuit: circuit_storage ks_redis "\<lambda>ks. ks" decimal_numbers
  by unfold_locales

section \<open>Properties\<close>

text \<open>
  C32. Concurrent brokers lose no event: whatever other clients do before and between the reads
  and writes of a recording, it takes effect at a single moment of the run. Either the event
  changes nothing in the circuit as the first read or the read of an attempt found it, and
  nothing is written; or an attempt that was not refused executed, all attempts before it
  having been refused, and from the storage as all the others had left it at that very
  \<open>EXEC\<close> the stored circuit made the step of the event at the time of that attempt, no other
  key being written. The pair of states that is returned is that step. What \<open>WATCH\<close> promises
  is the hypothesis on the attempts; they read times that are doubles.
\<close>

theorem circuit_events_atomic:
  assumes "redis_server R view" and "numerals N" and "circuit_config_ok cfg"
    and "\<forall>att \<in> set atts. is_double N (att_clock att)" and "watch_ok view (circuit_key target) atts"
    and "apply_event N R cfg target event now atts db = Some (Inr out, db')"
  shows "circuit_idle N cfg (circuit_key target) event now out (view db) (view db') \<or>
    (\<exists>pre att post. atts = pre @ att # post \<and> (\<forall>p \<in> set pre. att_touched p) \<and>
      (circuit_idle N cfg (circuit_key target) event (att_clock att) out (view (watched_at N R (circuit_key target) pre att db)) (view db') \<or>
       \<not> att_touched att \<and>
       circuit_step N cfg (circuit_key target) event (att_clock att) out (view (executed_at N R (circuit_key target) pre att db)) (view db')))"
  using circuit_storage.apply_event_atomic [OF circuit_storage.intro [OF assms(1,2)] assms(3-6)] .

definition example_config :: circuit_config where
  "example_config = \<lparr>failure_threshold = 2, success_threshold = 1, timeout_seconds = 60, window_seconds = 300\<rparr>"

definition example_attempt :: "keyspace attempt" where
  "example_attempt = \<lparr>att_clock = 7, att_before = (\<lambda>ks. ks), att_between = (\<lambda>ks. ks), att_touched = False\<rparr>"

definition one_failure :: circuit_status where
  "one_failure = \<lparr>cs_state = CLOSED, failure_count = 1, success_count = 0,
     last_failure_time = Some 7, opened_at = None, cs_allowed = True\<rparr>"

text \<open>A failure is recorded after another broker has come in between and recorded one of its own.\<close>

definition rival :: "keyspace \<Rightarrow> keyspace" where
  "rival ks = snd (store_status decimal_numbers ks_redis example_config (circuit_key ''t'') one_failure ks)"

definition rival_attempt :: "keyspace attempt" where
  "rival_attempt = \<lparr>att_clock = 7, att_before = (\<lambda>ks. ks), att_between = rival, att_touched = True\<rparr>"

definition two_failures :: circuit_status where
  "two_failures = one_failure\<lparr>cs_state := OPEN, failure_count := 2, opened_at := Some 7, cs_allowed := False\<rparr>"

lemma status_after_store:
  assumes "circuit_config_ok cfg" and "storable decimal_numbers s" and "status_at decimal_numbers key ks = Inr old"
  shows "fst (store_status decimal_numbers ks_redis cfg key s ks) = Inr () \<and>
    status_at decimal_numbers key (snd (store_status decimal_numbers ks_redis cfg key s ks)) = Inr s"
  using ref_circuit.store_status_run [OF assms] by auto

lemma rival_status:
  "status_at decimal_numbers (circuit_key ''t'') (fresh_keyspace 0) = Inr fresh_circuit"
  "status_at decimal_numbers (circuit_key ''t'') (rival (fresh_keyspace 0)) = Inr one_failure"
proof -
  show fresh: "status_at decimal_numbers (circuit_key ''t'') (fresh_keyspace 0) = Inr fresh_circuit"
    by (simp add: status_at_def read_status_def io_simps ks_hgetall_def status_from_data_def bindr_def model_field_def fresh_circuit_def)
  have "storable decimal_numbers one_failure" by (simp add: storable_def one_failure_def decimal_numbers_def)
  then show "status_at decimal_numbers (circuit_key ''t'') (rival (fresh_keyspace 0)) = Inr one_failure"
    unfolding rival_def using status_after_store [OF _ _ fresh] by (simp add: circuit_config_ok_def example_config_def)
qed

lemma example_rivals:
  "\<exists>ks'. apply_event decimal_numbers ks_redis example_config ''t'' FailureEvent 7 [rival_attempt, example_attempt] (fresh_keyspace 0) =
    Some (Inr (one_failure, two_failures), ks')"
proof -
  have steps: "transition example_config 7 fresh_circuit FailureEvent = (fresh_circuit, one_failure)"
      "transition example_config 7 one_failure FailureEvent = (one_failure, two_failures)"
    by (simp_all add: transition_defs example_config_def fresh_circuit_def one_failure_def two_failures_def)
  have diff: "one_failure \<noteq> fresh_circuit" "two_failures \<noteq> one_failure"
    by (simp_all add: fresh_circuit_def one_failure_def two_failures_def)
  have "storable decimal_numbers two_failures" by (simp add: storable_def two_failures_def one_failure_def decimal_numbers_def)
  then have "fst (store_status decimal_numbers ks_redis example_config (circuit_key ''t'') two_failures (rival (fresh_keyspace 0))) = Inr ()"
    using status_after_store [OF _ _ rival_status(2)] by (simp add: circuit_config_ok_def example_config_def)
  then show ?thesis
    by (auto simp: apply_event_def read_status_ks rival_status steps diff example_attempt_def rival_attempt_def split: prod.splits)
qed

theorem circuit_events_atomic_witness:
  "\<exists>ks'. apply_event decimal_numbers ks_redis example_config ''t'' FailureEvent 7 [rival_attempt, example_attempt] (fresh_keyspace 0) =
     Some (Inr (one_failure, two_failures), ks') \<and> status_at decimal_numbers (circuit_key ''t'') ks' = Inr two_failures"
proof -
  obtain ks' where run: "apply_event decimal_numbers ks_redis example_config ''t'' FailureEvent 7 [rival_attempt, example_attempt]
      (fresh_keyspace 0) = Some (Inr (one_failure, two_failures), ks')"
    using example_rivals by blast
  have cfg: "circuit_config_ok example_config" by (simp add: circuit_config_ok_def example_config_def)
  have atts: "\<forall>att \<in> set [rival_attempt, example_attempt]. is_double decimal_numbers (att_clock att)"
      "watch_ok (\<lambda>ks. ks) (circuit_key ''t'') [rival_attempt, example_attempt]"
    by (simp_all add: example_attempt_def rival_attempt_def decimal_numbers_def watch_ok_def)
  from circuit_events_atomic [OF ref.redis_server_axioms dec.numerals_axioms cfg atts run] run show ?thesis
    by (auto simp: circuit_step_def circuit_idle_def)
qed

text \<open>
  The recording loop ends: as soon as one of its attempts is not disturbed by another client,
  it returns.
\<close>

theorem circuit_events_return:
  assumes "\<exists>att \<in> set atts. \<not> att_touched att"
  shows "\<exists>r db'. apply_event N R cfg target event now atts db = Some (r, db')"
proof -
  have "\<exists>r db'. circuit_loop N R cfg key event as d = Some (r, db')" if "\<exists>att \<in> set as. \<not> att_touched att" for key as d
    using that by (induction as arbitrary: d) (auto simp: Let_def split: prod.splits sum.splits)
  with assms show ?thesis by (auto simp: apply_event_def Let_def split: prod.splits sum.splits)
qed

theorem circuit_events_return_witness:
  "\<exists>r db'. apply_event decimal_numbers ks_redis example_config ''t'' SuccessEvent 0
     [example_attempt\<lparr>att_touched := True\<rparr>, example_attempt] (fresh_keyspace 0) = Some (r, db')"
  by (rule circuit_events_return) (simp add: example_attempt_def)

text \<open>
  The invariant of the circuit: from a new circuit, every event at every time keeps counts
  nonnegative, a closed circuit below the failure threshold and without an opening time, an
  open or half-open one with an opening time, a half-open one below the success threshold,
  and requests allowed exactly when the circuit is not open.
\<close>

theorem circuit_invariant:
  assumes "circuit_config_ok cfg"
  shows "circuit_inv cfg (run_events cfg es fresh_circuit)"
proof (induction es rule: rev_induct)
  case Nil
  then show ?case by (simp add: run_events_def circuit_inv_fresh assms)
next
  case (snoc e es)
  then show ?case
    using circuit_inv_step [OF assms snoc] by (cases e) (simp add: run_events_def)
qed

theorem circuit_invariant_witness:
  "circuit_inv example_config (run_events example_config [(0, FailureEvent), (1, FailureEvent)] fresh_circuit)"
  by (rule circuit_invariant) (simp add: circuit_config_ok_def example_config_def)

text \<open>
  A circuit opens exactly at its threshold: after failures that follow each other within the
  window, it is closed and has counted them all as long as there are fewer than the
  threshold, and open from then on.
\<close>

theorem circuit_opens_at_threshold:
  assumes "circuit_config_ok cfg" and "gaps_within (window_seconds cfg) ts"
  shows "if int (length ts) < failure_threshold cfg
    then cs_state (run_events cfg (failures_at ts) fresh_circuit) = CLOSED \<and>
         failure_count (run_events cfg (failures_at ts) fresh_circuit) = int (length ts)
    else cs_state (run_events cfg (failures_at ts) fresh_circuit) = OPEN"
  using failures_run [OF assms] by (auto split: if_splits)

theorem circuit_opens_at_threshold_witness:
  "cs_state (run_events example_config (failures_at [0, 10]) fresh_circuit) = OPEN"
  using circuit_opens_at_threshold [of example_config "[0, 10]"]
  by (simp add: circuit_config_ok_def example_config_def)

text \<open>
  Recovery: an open circuit refuses everything until its timeout has passed (a check or a
  success changes nothing before that); after it, successes make it half-open and let
  requests through, and the configured number of them closes it and forgets the failures.
\<close>

theorem circuit_recovers:
  assumes "circuit_config_ok cfg" and "circuit_inv cfg s" and "cs_state s = OPEN" and "opened_at s = Some t0"
    and "\<forall>t \<in> set ts. t0 + timeout_seconds cfg \<le> t" and "ts \<noteq> []"
    and "now < t0 + timeout_seconds cfg"
  shows "transition cfg now s CheckEvent = (s, s) \<and> transition cfg now s SuccessEvent = (s, s) \<and> \<not> cs_allowed s \<and>
    (if int (length ts) < success_threshold cfg
     then cs_state (run_events cfg (successes_at ts) s) = HALF_OPEN \<and> cs_allowed (run_events cfg (successes_at ts) s)
     else cs_state (run_events cfg (successes_at ts) s) = CLOSED \<and> failure_count (run_events cfg (successes_at ts) s) = 0)"
proof -
  have "\<not> cs_allowed s" and "s\<lparr>cs_allowed := False\<rparr> = s" using assms(2,3) by (auto simp: circuit_inv_def)
  then have "transition cfg now s CheckEvent = (s, s)" "transition cfg now s SuccessEvent = (s, s)"
    using assms(3,4,7) by (simp_all add: transition_def check_timeout_def Let_def)
  with successes_run [OF assms(1-6)] \<open>\<not> cs_allowed s\<close> show ?thesis by (auto split: if_splits)
qed

theorem circuit_recovers_witness:
  "cs_state (run_events example_config (successes_at [70])
     (run_events example_config (failures_at [0, 10]) fresh_circuit)) = CLOSED"
proof -
  let ?s = "run_events example_config (failures_at [0, 10]) fresh_circuit"
  have cfg: "circuit_config_ok example_config" by (simp add: circuit_config_ok_def example_config_def)
  have s: "?s = \<lparr>cs_state = OPEN, failure_count = 2, success_count = 0, last_failure_time = Some 10,
      opened_at = Some 10, cs_allowed = False\<rparr>"
    by (simp add: run_events_def failures_at_def transition_defs example_config_def fresh_circuit_def)
  have "circuit_inv example_config ?s" unfolding s by (simp add: circuit_inv_def example_config_def)
  from circuit_recovers [OF cfg this, of 10 "[70]" 0] show ?thesis unfolding s by (simp add: example_config_def)
qed

end
