(* ===== verification/Delivery.thy ===== *)
theory Delivery
  imports Sessions Delivery_Scripts Circuit_Breaker
begin

text \<open>
  \<open>packages/mas-server/src/mas_server/delivery.py\<close>: the delivery loop of a session and the handling
  of acknowledgements. A handler works on the broker's world; the loop works on the server and
  its own session object. What other tasks and clients do while the loop waits, the clock
  readings and the drawn identifiers are arguments; logging and tracing have no part in it.
\<close>

section \<open>DeliveryService: finishing a delivery\<close>

definition agents_group :: string where
  "agents_group = ''agents''"

definition consumer_name :: "string \<Rightarrow> string \<Rightarrow> string \<Rightarrow> string" where
  "consumer_name agent_id instance_id owner = agent_id @ ''-'' @ instance_id @ ''-'' @ owner"

definition available_capacity :: "server_settings \<Rightarrow> outbound_queue \<Rightarrow> inflight \<Rightarrow> int" where
  "available_capacity settings q fl =
     (let capacity = max_in_flight settings - int (length fl) in
      if 0 < q_maxsize q then min capacity (q_maxsize q - int (length (q_items q))) else capacity)"

definition ack_inflight :: "'db redis \<Rightarrow> inflight_delivery \<Rightarrow> string \<Rightarrow> session_lease \<Rightarrow> ('db, bool) io" where
  "ack_inflight R d consumer l =
     bindio (ack_and_delete_script R (inf_stream d) (session_key (lease_agent_id l) (lease_instance_id l))
               (inf_group d) (inf_entry d) consumer (lease_owner l)) (\<lambda>acknowledged. ret (acknowledged = 1))"

text \<open>The circuit breaker of the service: its settings, and the attempts of its optimistic loop.\<close>

record 'db breaker =
  brk_numbers :: text_numbers
  brk_config :: circuit_config
  brk_now :: real
  brk_attempts :: "'db attempt list"

text \<open>\<open>None\<close> while the breaker's loop has not come to an end within its attempts.\<close>

definition then_circuit :: "'db redis \<Rightarrow> 'db breaker option \<Rightarrow> circuit_event \<Rightarrow> string \<Rightarrow> (err + bool) \<times> 'db world \<Rightarrow>
    ((err + unit) \<times> 'db world) option" where
  "then_circuit R breaker event agent_id out =
     (case (out, breaker) of
        ((Inr True, w), Some b) \<Rightarrow>
          map_option (\<lambda>(r, db). (map_sum (\<lambda>e. e) (\<lambda>_. ()) r, (db, snd w)))
            (case event of
               FailureEvent \<Rightarrow> record_failure (brk_numbers b) R (brk_config b) agent_id (brk_now b) (brk_attempts b) (fst w)
             | _ \<Rightarrow> record_success (brk_numbers b) R (brk_config b) agent_id (brk_now b) (brk_attempts b) (fst w))
      | ((r, w), _) \<Rightarrow> Some (map_sum (\<lambda>e. e) (\<lambda>_. ()) r, w))"

text \<open>The handlers up to the circuit breaker; the answer says whether the breaker is told.\<close>

definition settle_ack :: "'db redis \<Rightarrow> string \<Rightarrow> string \<Rightarrow> string \<Rightarrow> ('db world, bool) io" where
  "settle_ack R agent_id instance_id delivery_id =
     bindio (get_lease agent_id instance_id) (\<lambda>l.
     bindio (pop_inflight agent_id instance_id delivery_id) (\<lambda>found.
     case found of
       None \<Rightarrow> ret False
     | Some d \<Rightarrow> on_server (ack_inflight R d (inf_consumer d) l)))"

definition handle_ack :: "'db redis \<Rightarrow> 'db breaker option \<Rightarrow> string \<Rightarrow> string \<Rightarrow> string \<Rightarrow> 'db world \<Rightarrow>
    ((err + unit) \<times> 'db world) option" where
  "handle_ack R breaker agent_id instance_id delivery_id w =
     then_circuit R breaker SuccessEvent agent_id (settle_ack R agent_id instance_id delivery_id w)"

definition nack_reason :: "string \<Rightarrow> bool \<Rightarrow> string" where
  "nack_reason reason retryable = (if retryable then reason @ ''; retry_limit_exceeded'' else reason)"

definition settle_nack :: "wire \<Rightarrow> 'db redis \<Rightarrow> server_settings \<Rightarrow> router \<Rightarrow> string \<Rightarrow> string \<Rightarrow> string \<Rightarrow> string \<Rightarrow> string \<Rightarrow> bool \<Rightarrow>
    ('db world, bool) io" where
  "settle_nack W R settings rt stamp agent_id instance_id delivery_id reason retryable =
     bindio (get_lease agent_id instance_id) (\<lambda>l.
     bindio (on_server (lease_owner_of R agent_id instance_id)) (\<lambda>owner.
     if owner \<noteq> Some (lease_owner l) then ret False
     else bindio (pop_inflight agent_id instance_id delivery_id) (\<lambda>found.
     case found of
       None \<Rightarrow> ret False
     | Some d \<Rightarrow>
         if retryable \<and> inf_attempt d < max_delivery_attempts settings
         then seqio (on_server (requeue_and_ack_script R (inf_stream d) (session_key agent_id instance_id) (inf_group d)
                       (inf_entry d) (inf_envelope d) (inf_attempt d + 1) (inf_consumer d) (lease_owner l)))
                    (ret True)
         else on_server (write_dlq W R rt stamp (inf_envelope d) (nack_reason reason retryable)
                (Some \<lparr>commit_inflight = d, commit_lease = l\<rparr>)))))"

definition handle_nack :: "wire \<Rightarrow> 'db redis \<Rightarrow> server_settings \<Rightarrow> router \<Rightarrow> 'db breaker option \<Rightarrow> string \<Rightarrow> string \<Rightarrow> string \<Rightarrow>
    string \<Rightarrow> string \<Rightarrow> bool \<Rightarrow> 'db world \<Rightarrow> ((err + unit) \<times> 'db world) option" where
  "handle_nack W R settings rt breaker stamp agent_id instance_id delivery_id reason retryable w =
     then_circuit R breaker FailureEvent agent_id
       (settle_nack W R settings rt stamp agent_id instance_id delivery_id reason retryable w)"

section \<open>DeliveryService: the stream loop\<close>

text \<open>The loop's state: the server and the session object that it shares with the transport.\<close>

type_synonym 'db conn = "'db \<times> session"

definition on_db :: "('db, 'a) io \<Rightarrow> ('db conn, 'a) io" where
  "on_db m w = (case m (fst w) of (r, db) \<Rightarrow> (r, (db, snd w)))"

definition get_ses :: "('db conn, session) io" where
  "get_ses w = (Inr (snd w), w)"

definition put_ses :: "session \<Rightarrow> ('db conn, unit) io" where
  "put_ses s w = (Inr (), (fst w, s))"

text \<open>What an entry draws: the clock, its text, and a new delivery identifier.\<close>

record draw =
  draw_time :: real
  draw_stamp :: string
  draw_uuid :: string

text \<open>
  What happens around a turn of the loop: in phase \<open>p\<close>, before the entry that has \<open>n\<close> entries
  behind it, other tasks do \<open>others p n\<close> and the entry draws \<open>draws p n\<close>.
\<close>

record 'w schedule =
  others :: "nat \<Rightarrow> nat \<Rightarrow> 'w \<Rightarrow> 'w"
  draws :: "nat \<Rightarrow> nat \<Rightarrow> draw"
  live_time :: real
  loop_time :: real

definition attempt_number :: "text_numbers \<Rightarrow> string \<Rightarrow> int" where
  "attempt_number N text = (case py_int N text of Some n \<Rightarrow> n | None \<Rightarrow> 0)"

definition deliver_entry :: "wire \<Rightarrow> text_numbers \<Rightarrow> 'db redis \<Rightarrow> server_settings \<Rightarrow> router \<Rightarrow> draw \<Rightarrow> string \<Rightarrow> string \<Rightarrow> sid \<Rightarrow>
    string \<Rightarrow> string \<Rightarrow> ('db conn, unit) io" where
  "deliver_entry W N R settings rt dr stream grp entry envelope_json attempt_text =
     bindio get_ses (\<lambda>s.
     let l = ses_lease s; consumer = consumer_name (ses_agent_id s) (ses_instance_id s) (lease_owner l);
         attempt = attempt_number N attempt_text in
     if \<not> (1 \<le> attempt \<and> attempt \<le> max_delivery_attempts settings)
     then seqio (on_db (write_dlq W R rt (draw_stamp dr) envelope_json ''invalid_delivery_attempt''
             (Some \<lparr>commit_inflight = \<lparr>inf_stream = stream, inf_group = grp, inf_entry = entry,
                       inf_envelope = envelope_json, inf_received_at = draw_time dr, inf_attempt = 1,
                       inf_consumer = consumer\<rparr>, commit_lease = l\<rparr>))) (ret ())
     else
       let event = \<lparr>out_delivery_id = draw_uuid dr, out_envelope = envelope_json,
                    out_message_id = map_option message_id (load_envelope W envelope_json)\<rparr>;
           (q, fl, dropped) = drop_oldest_outbound (ses_outbound s) (ses_inflight s) in
       if q_full q then put_ses (s\<lparr>ses_outbound := q, ses_inflight := fl\<rparr>)
       else put_ses (s\<lparr>ses_outbound := q\<lparr>q_items := q_items q @ [event]\<rparr>,
              ses_inflight := dict_put (draw_uuid dr)
                \<lparr>inf_stream = stream, inf_group = grp, inf_entry = entry, inf_envelope = envelope_json,
                 inf_received_at = draw_time dr, inf_attempt = attempt, inf_consumer = consumer\<rparr> fl\<rparr>))"

text \<open>The fields of an entry as a dictionary (a repeated field keeps its last value), and \<open>get\<close> with a default.\<close>

definition field_get :: "(string \<times> string) list \<Rightarrow> string \<Rightarrow> string \<Rightarrow> string" where
  "field_get flds name d = (case map_of (rev flds) name of Some v \<Rightarrow> v | None \<Rightarrow> d)"

text \<open>An entry without an envelope is acknowledged and dropped, failures being only logged.\<close>

definition drop_malformed :: "'db redis \<Rightarrow> string \<Rightarrow> string \<Rightarrow> sid \<Rightarrow> ('db conn, unit) io" where
  "drop_malformed R stream grp entry =
     bindio get_ses (\<lambda>s.
     let owner = lease_owner (ses_lease s) in
     catchio (seqio (on_db (ack_and_delete_script R stream (session_key (ses_agent_id s) (ses_instance_id s)) grp entry
                (consumer_name (ses_agent_id s) (ses_instance_id s) owner) owner)) (ret ())) (\<lambda>_. ret ()))"

definition process_entry :: "wire \<Rightarrow> text_numbers \<Rightarrow> 'db redis \<Rightarrow> server_settings \<Rightarrow> router \<Rightarrow> draw \<Rightarrow> string \<Rightarrow> string \<Rightarrow>
    sid \<times> (string \<times> string) list \<Rightarrow> ('db conn, unit) io" where
  "process_entry W N R settings rt dr stream grp e =
     (let envelope_json = field_get (snd e) ''envelope'' [] in
      if envelope_json = [] then drop_malformed R stream grp (fst e)
      else deliver_entry W N R settings rt dr stream grp (fst e) envelope_json (field_get (snd e) ''attempt'' ''1''))"

definition already_inflight :: "string \<Rightarrow> string \<Rightarrow> sid \<Rightarrow> inflight \<Rightarrow> bool" where
  "already_inflight stream grp entry fl \<longleftrightarrow>
     list_ex (\<lambda>kd. inf_stream (snd kd) = stream \<and> inf_group (snd kd) = grp \<and> inf_entry (snd kd) = entry) fl"

primrec deliver_claimed :: "wire \<Rightarrow> text_numbers \<Rightarrow> 'db redis \<Rightarrow> server_settings \<Rightarrow> router \<Rightarrow> 'db conn schedule \<Rightarrow> nat \<Rightarrow>
    string \<Rightarrow> string \<Rightarrow> (sid \<times> (string \<times> string) list) list \<Rightarrow> ('db conn, unit) io" where
  "deliver_claimed W N R settings rt sch p stream grp [] = ret ()"
| "deliver_claimed W N R settings rt sch p stream grp (e # es) = (\<lambda>w.
     let w' = others sch p (length es) w in
     seqio (if already_inflight stream grp (fst e) (ses_inflight (snd w')) then ret ()
            else process_entry W N R settings rt (draws sch p (length es)) stream grp e)
           (deliver_claimed W N R settings rt sch p stream grp es) w')"

definition reclaim_pending :: "wire \<Rightarrow> text_numbers \<Rightarrow> 'db redis \<Rightarrow> server_settings \<Rightarrow> router \<Rightarrow> 'db conn schedule \<Rightarrow> nat \<Rightarrow>
    string \<Rightarrow> string \<Rightarrow> sid \<Rightarrow> ('db conn, sid) io" where
  "reclaim_pending W N R settings rt sch p stream grp start =
     bindio get_ses (\<lambda>s.
     let capacity = available_capacity settings (ses_outbound s) (ses_inflight s); owner = lease_owner (ses_lease s) in
     if capacity \<le> 0 then ret start
     else (\<lambda>w.
       case on_db (claim_script R stream (session_key (ses_agent_id s) (ses_instance_id s)) owner grp
              (consumer_name (ses_agent_id s) (ses_instance_id s) owner) (reclaim_idle_ms settings) start
              (min (reclaim_batch_size settings) capacity)) w of
         (Inr (Some (nxt, messages)), w') \<Rightarrow>
           seqio (deliver_claimed W N R settings rt sch p stream grp messages) (ret nxt) w'
       | (Inr None, w') \<Rightarrow> raise session_lease_lost w'
       | (Inl (RpcError c m), w') \<Rightarrow> raise (RpcError c m) w'
       | (Inl e, w') \<Rightarrow> ret start w'))"

primrec deliver_batch :: "wire \<Rightarrow> text_numbers \<Rightarrow> 'db redis \<Rightarrow> server_settings \<Rightarrow> router \<Rightarrow> 'db conn schedule \<Rightarrow> nat \<Rightarrow>
    string \<Rightarrow> string \<Rightarrow> (sid \<times> (string \<times> string) list) list \<Rightarrow> ('db conn, unit) io" where
  "deliver_batch W N R settings rt sch p stream grp [] = ret ()"
| "deliver_batch W N R settings rt sch p stream grp (e # es) = (\<lambda>w.
     let w' = others sch p (length es) w in
     if max_in_flight settings \<le> int (length (ses_inflight (snd w'))) then ret () w'
     else seqio (process_entry W N R settings rt (draws sch p (length es)) stream grp e)
                (deliver_batch W N R settings rt sch p stream grp es) w')"

primrec deliver_batches :: "wire \<Rightarrow> text_numbers \<Rightarrow> 'db redis \<Rightarrow> server_settings \<Rightarrow> router \<Rightarrow> 'db conn schedule \<Rightarrow> nat \<Rightarrow>
    string \<Rightarrow> (string \<times> (sid \<times> (string \<times> string) list) list) list \<Rightarrow> ('db conn, unit) io" where
  "deliver_batches W N R settings rt sch p grp [] = ret ()"
| "deliver_batches W N R settings rt sch p grp (b # bs) =
     seqio (deliver_batch W N R settings rt sch p (fst b) grp (snd b)) (deliver_batches W N R settings rt sch (p + 1) grp bs)"

definition ensure_group_exists :: "'db redis \<Rightarrow> string \<Rightarrow> string \<Rightarrow> ('db, unit) io" where
  "ensure_group_exists R stream grp =
     catchio (XGROUP_CREATE R stream grp)
       (\<lambda>e. case e of RedisError m \<Rightarrow> if has_prefix ''BUSYGROUP'' m then ret () else raise e | _ \<Rightarrow> raise e)"

text \<open>The local variables of \<open>_stream_loop\<close>.\<close>

record loop_vars =
  claim_shared :: sid
  claim_instance :: sid
  stream_names :: "string list"
  last_reclaim :: real
  idle_delay :: real

definition initial_vars :: "string \<Rightarrow> string \<Rightarrow> loop_vars" where
  "initial_vars agent_id instance_id =
     \<lparr>claim_shared = (0, 0), claim_instance = (0, 0),
      stream_names = [shared_stream agent_id, instance_stream agent_id instance_id],
      last_reclaim = 0, idle_delay = 1 / 100\<rparr>"

definition reclaim_interval :: "server_settings \<Rightarrow> real" where
  "reclaim_interval settings = max 1 (of_int (reclaim_idle_ms settings) / 1000)"

definition reclaim_streams :: "wire \<Rightarrow> text_numbers \<Rightarrow> 'db redis \<Rightarrow> server_settings \<Rightarrow> router \<Rightarrow> 'db conn schedule \<Rightarrow> loop_vars \<Rightarrow>
    ('db conn, loop_vars) io" where
  "reclaim_streams W N R settings rt sch v =
     (if loop_time sch - last_reclaim v \<ge> reclaim_interval settings then
        bindio get_ses (\<lambda>s.
        bindio (reclaim_pending W N R settings rt sch 0 (shared_stream (ses_agent_id s)) agents_group (claim_shared v)) (\<lambda>a.
        bindio (reclaim_pending W N R settings rt sch 1 (instance_stream (ses_agent_id s) (ses_instance_id s)) agents_group
                  (claim_instance v)) (\<lambda>b.
        ret (v\<lparr>claim_shared := a, claim_instance := b, last_reclaim := loop_time sch\<rparr>))))
      else ret v)"

text \<open>The read and the delivery of what it returned, with \<open>capacity\<close> positive.\<close>

definition read_and_deliver :: "wire \<Rightarrow> text_numbers \<Rightarrow> 'db redis \<Rightarrow> server_settings \<Rightarrow> router \<Rightarrow> 'db conn schedule \<Rightarrow> int \<Rightarrow>
    loop_vars \<Rightarrow> ('db conn, loop_vars) io" where
  "read_and_deliver W N R settings rt sch capacity v =
     bindio get_ses (\<lambda>s.
     let owner = lease_owner (ses_lease s);
         selected = take (nat (min (int (length (stream_names v))) capacity)) (stream_names v) in
     bindio (on_db (read_script R selected (session_key (ses_agent_id s) (ses_instance_id s)) owner agents_group
               (consumer_name (ses_agent_id s) (ses_instance_id s) owner)
               (min 50 (capacity div int (length selected))))) (\<lambda>owned.
     case owned of
       None \<Rightarrow> raise session_lease_lost
     | Some batches \<Rightarrow>
         let v' = v\<lparr>stream_names := [stream_names v ! 1, stream_names v ! 0]\<rparr> in
         if batches = [] then ret (v'\<lparr>idle_delay := min (5 / 100) (idle_delay v * 2)\<rparr>)
         else seqio (deliver_batches W N R settings rt sch 2 agents_group batches) (ret (v'\<lparr>idle_delay := 1 / 100\<rparr>))))"

text \<open>One turn of \<open>while self._running\<close>.\<close>

definition stream_turn :: "wire \<Rightarrow> text_numbers \<Rightarrow> 'db redis \<Rightarrow> server_settings \<Rightarrow> router \<Rightarrow> 'db conn schedule \<Rightarrow> loop_vars \<Rightarrow>
    ('db conn, loop_vars) io" where
  "stream_turn W N R settings rt sch v =
     bindio get_ses (\<lambda>s.
     if \<not> lease_live (live_time sch) (ses_lease s) then raise session_lease_lost
     else seqio (put_ses (s\<lparr>ses_capacity_changed := False\<rparr>))
     (if available_capacity settings (ses_outbound s) (ses_inflight s) \<le> 0 then ret v
      else bindio (reclaim_streams W N R settings rt sch v) (\<lambda>v'.
      bindio get_ses (\<lambda>s'.
      let capacity = available_capacity settings (ses_outbound s') (ses_inflight s') in
      if capacity \<le> 0 then ret v' else read_and_deliver W N R settings rt sch capacity v'))))"

text \<open>The turns that the loop makes until it is stopped or cancelled; between two of them the others go on.\<close>

primrec stream_turns :: "wire \<Rightarrow> text_numbers \<Rightarrow> 'db redis \<Rightarrow> server_settings \<Rightarrow> router \<Rightarrow> 'db conn schedule list \<Rightarrow> loop_vars \<Rightarrow>
    ('db conn, loop_vars) io" where
  "stream_turns W N R settings rt [] v = ret v"
| "stream_turns W N R settings rt (sch # schs) v =
     bindio (stream_turn W N R settings rt sch v)
       (\<lambda>v' w. stream_turns W N R settings rt schs v' (others sch 4 0 w))"

definition stream_loop :: "wire \<Rightarrow> text_numbers \<Rightarrow> 'db redis \<Rightarrow> server_settings \<Rightarrow> router \<Rightarrow> 'db conn schedule list \<Rightarrow>
    ('db conn, loop_vars) io" where
  "stream_loop W N R settings rt schs =
     bindio get_ses (\<lambda>s.
     seqio (on_db (ensure_group_exists R (shared_stream (ses_agent_id s)) agents_group))
     (seqio (on_db (ensure_group_exists R (instance_stream (ses_agent_id s) (ses_instance_id s)) agents_group))
     (stream_turns W N R settings rt schs (initial_vars (ses_agent_id s) (ses_instance_id s)))))"

section \<open>The invariant of a session\<close>

definition capacity_of :: "server_settings \<Rightarrow> session \<Rightarrow> int" where
  "capacity_of settings s = available_capacity settings (ses_outbound s) (ses_inflight s)"

text \<open>
  There is room for \<open>n\<close> more deliveries, every attempt is within its bounds, and the deliveries
  \<open>T\<close> are in flight.
\<close>

definition session_inv :: "server_settings \<Rightarrow> (string \<rightharpoonup> inflight_delivery) \<Rightarrow> int \<Rightarrow> session \<Rightarrow> bool" where
  "session_inv settings T n s \<longleftrightarrow> n \<le> capacity_of settings s \<and>
     (\<forall>kd \<in> set (ses_inflight s). 1 \<le> inf_attempt (snd kd) \<and> inf_attempt (snd kd) \<le> max_delivery_attempts settings) \<and>
     T \<subseteq>\<^sub>m map_of (ses_inflight s)"

text \<open>Other tasks only take deliveries out, and none of \<open>T\<close>; the drawn identifiers are not those of \<open>T\<close>.\<close>

definition well_behaved :: "(string \<rightharpoonup> inflight_delivery) \<Rightarrow> 'db conn schedule \<Rightarrow> bool" where
  "well_behaved T sch \<longleftrightarrow> (\<forall>p n. draw_uuid (draws sch p n) \<notin> dom T \<and>
     (\<forall>w. let s = snd w; s' = snd (others sch p n w) in
        set (ses_inflight s') \<subseteq> set (ses_inflight s) \<and> length (ses_inflight s') \<le> length (ses_inflight s) \<and>
        length (q_items (ses_outbound s')) \<le> length (q_items (ses_outbound s)) \<and>
        q_maxsize (ses_outbound s') = q_maxsize (ses_outbound s) \<and>
        (\<forall>k \<in> dom T. map_of (ses_inflight s') k = map_of (ses_inflight s) k)))"

lemma on_db_split [io_simps]: "on_db m w = (fst (m (fst w)), (snd (m (fst w)), snd w))"
  by (simp add: on_db_def split: prod.splits)

lemma get_ses_apply [simp]: "get_ses w = (Inr (snd w), w)"
  by (simp add: get_ses_def)

lemma put_ses_apply [simp]: "put_ses s w = (Inr (), (fst w, s))"
  by (simp add: put_ses_def)

lemma session_inv_mono: "session_inv settings T n s \<Longrightarrow> m \<le> n \<Longrightarrow> session_inv settings T m s"
  by (auto simp: session_inv_def)

lemma session_inv_others:
  assumes "session_inv settings T n (snd w)" and "well_behaved T sch"
  shows "session_inv settings T n (snd (others sch p i w))"
proof -
  let ?s = "snd w" and ?t = "snd (others sch p i w)"
  have sub: "set (ses_inflight ?t) \<subseteq> set (ses_inflight ?s)" and len: "length (ses_inflight ?t) \<le> length (ses_inflight ?s)"
      "length (q_items (ses_outbound ?t)) \<le> length (q_items (ses_outbound ?s))"
      "q_maxsize (ses_outbound ?t) = q_maxsize (ses_outbound ?s)"
    and keep: "\<forall>k \<in> dom T. map_of (ses_inflight ?t) k = map_of (ses_inflight ?s) k"
    using assms(2) unfolding well_behaved_def Let_def by blast+
  have "capacity_of settings ?s \<le> capacity_of settings ?t"
    using len by (auto simp: capacity_of_def available_capacity_def Let_def)
  moreover have "T \<subseteq>\<^sub>m map_of (ses_inflight ?t)"
    using assms(1) keep by (auto simp: session_inv_def map_le_def)
  ultimately show ?thesis using assms(1) sub by (auto simp: session_inv_def)
qed

lemma deliver_entry_inv:
  assumes inv: "session_inv settings T (n + 1) (snd w)" and n: "0 \<le> n" and uuid: "draw_uuid dr \<notin> dom T"
  shows "session_inv settings T n (snd (snd (deliver_entry W N R settings rt dr stream grp entry j a w)))"
proof (cases "1 \<le> attempt_number N a \<and> attempt_number N a \<le> max_delivery_attempts settings")
  case False
  then show ?thesis
    using session_inv_mono [OF inv, of n] by (auto simp: deliver_entry_def io_simps Let_def split: sum.splits)
next
  case True
  let ?s = "snd w"
  have "\<not> q_full (ses_outbound ?s)"
    using inv n by (auto simp: session_inv_def capacity_of_def available_capacity_def Let_def q_full_def split: if_splits)
  then have drop: "drop_oldest_outbound (ses_outbound ?s) (ses_inflight ?s) = (ses_outbound ?s, ses_inflight ?s, 0)"
    by (simp add: drop_oldest_outbound_def)
  define d where "d = \<lparr>inf_stream = stream, inf_group = grp, inf_entry = entry, inf_envelope = j,
    inf_received_at = draw_time dr, inf_attempt = attempt_number N a,
    inf_consumer = consumer_name (ses_agent_id ?s) (ses_instance_id ?s) (lease_owner (ses_lease ?s))\<rparr>"
  obtain ev where run: "snd (snd (deliver_entry W N R settings rt dr stream grp entry j a w)) =
      ?s\<lparr>ses_outbound := (ses_outbound ?s)\<lparr>q_items := q_items (ses_outbound ?s) @ [ev]\<rparr>,
         ses_inflight := dict_put (draw_uuid dr) d (ses_inflight ?s)\<rparr>"
    using True drop \<open>\<not> q_full (ses_outbound ?s)\<close>
    by (auto simp: deliver_entry_def io_simps Let_def d_def)
  have att: "1 \<le> inf_attempt d \<and> inf_attempt d \<le> max_delivery_attempts settings" using True by (simp add: d_def)
  have "T \<subseteq>\<^sub>m map_of (dict_put (draw_uuid dr) d (ses_inflight ?s))"
    using inv uuid by (auto simp: session_inv_def map_le_def map_of_dict_put)
  moreover have "\<forall>kd \<in> set (dict_put (draw_uuid dr) d (ses_inflight ?s)).
      1 \<le> inf_attempt (snd kd) \<and> inf_attempt (snd kd) \<le> max_delivery_attempts settings"
    using set_dict_put [of "draw_uuid dr" d "ses_inflight ?s"] inv att unfolding session_inv_def by fastforce
  ultimately show ?thesis
    using inv length_dict_put [of "draw_uuid dr" d "ses_inflight ?s"]
    by (auto simp: run session_inv_def capacity_of_def available_capacity_def Let_def split: if_splits)
qed

lemma process_entry_inv:
  assumes "session_inv settings T (n + 1) (snd w)" and "0 \<le> n" and "draw_uuid dr \<notin> dom T"
  shows "session_inv settings T n (snd (snd (process_entry W N R settings rt dr stream grp e w)))"
proof (cases "field_get (snd e) ''envelope'' [] = []")
  case True
  then show ?thesis
    using session_inv_mono [OF assms(1), of n]
    by (auto simp: process_entry_def drop_malformed_def io_simps catchio_def Let_def split: sum.splits)
next
  case False
  then show ?thesis using deliver_entry_inv [OF assms] by (simp add: process_entry_def Let_def)
qed

lemma deliver_claimed_inv:
  assumes "session_inv settings T (n + int (length es)) (snd w)" and "0 \<le> n" and "well_behaved T sch"
  shows "session_inv settings T n (snd (snd (deliver_claimed W N R settings rt sch p stream grp es w)))"
  using assms(1)
proof (induction es arbitrary: w)
  case (Cons e es)
  define w1 where "w1 = others sch p (length es) w"
  have inv1: "session_inv settings T (n + int (length es) + 1) (snd w1)"
    unfolding w1_def using session_inv_others [OF Cons.prems assms(3)] by (simp add: algebra_simps)
  let ?step = "if already_inflight stream grp (fst e) (ses_inflight (snd w1)) then ret ()
     else process_entry W N R settings rt (draws sch p (length es)) stream grp e"
  have uuid: "draw_uuid (draws sch p (length es)) \<notin> dom T" using assms(3) by (simp add: well_behaved_def)
  have inv2: "session_inv settings T (n + int (length es)) (snd (snd (?step w1)))"
    using process_entry_inv [OF inv1 _ uuid] assms(2) session_inv_mono [OF inv1] by simp
  have run: "deliver_claimed W N R settings rt sch p stream grp (e # es) w =
      seqio ?step (deliver_claimed W N R settings rt sch p stream grp es) w1"
    by (simp add: w1_def Let_def)
  show ?case
    unfolding run using Cons.IH [OF inv2] session_inv_mono [OF inv2, of n]
    by (auto simp: seqio_split split: sum.splits)
qed simp

lemma deliver_batch_inv:
  assumes "session_inv settings T (n + int (length es)) (snd w)" and "0 \<le> n" and "well_behaved T sch"
  shows "session_inv settings T n (snd (snd (deliver_batch W N R settings rt sch p stream grp es w)))"
  using assms(1)
proof (induction es arbitrary: w)
  case (Cons e es)
  define w1 where "w1 = others sch p (length es) w"
  have inv1: "session_inv settings T (n + int (length es) + 1) (snd w1)"
    unfolding w1_def using session_inv_others [OF Cons.prems assms(3)] by (simp add: algebra_simps)
  let ?step = "process_entry W N R settings rt (draws sch p (length es)) stream grp e"
  have uuid: "draw_uuid (draws sch p (length es)) \<notin> dom T" using assms(3) by (simp add: well_behaved_def)
  have inv2: "session_inv settings T (n + int (length es)) (snd (snd (?step w1)))"
    using process_entry_inv [OF inv1 _ uuid] assms(2) by simp
  have run: "deliver_batch W N R settings rt sch p stream grp (e # es) w =
      (if max_in_flight settings \<le> int (length (ses_inflight (snd w1))) then ret () w1
       else seqio ?step (deliver_batch W N R settings rt sch p stream grp es) w1)"
    by (simp add: w1_def Let_def)
  show ?case
    unfolding run using Cons.IH [OF inv2] session_inv_mono [OF inv2, of n] session_inv_mono [OF inv1, of n]
    by (auto simp: seqio_split split: sum.splits)
qed simp

lemma deliver_batches_inv:
  assumes "session_inv settings T (n + int (length (concat (map snd bs)))) (snd w)" and "0 \<le> n" and "well_behaved T sch"
  shows "session_inv settings T n (snd (snd (deliver_batches W N R settings rt sch p grp bs w)))"
  using assms(1)
proof (induction bs arbitrary: w p)
  case (Cons b bs)
  let ?m = "n + int (length (concat (map snd bs)))"
  have "session_inv settings T (?m + int (length (snd b))) (snd w)"
    using Cons.prems by (simp add: algebra_simps)
  from deliver_batch_inv [OF this _ assms(3)] assms(2)
  have inv: "session_inv settings T ?m (snd (snd (deliver_batch W N R settings rt sch p (fst b) grp (snd b) w)))" by simp
  from Cons.IH [OF this] session_inv_mono [OF inv, of n] show ?case
    by (auto simp: seqio_split split: sum.splits)
qed simp

section \<open>How much the server hands out\<close>

lemma autoclaim_length: "autoclaim a m now idle c st ps = (ps', es, nxt) \<Longrightarrow> length es \<le> m"
proof (induction a m now idle c st ps arbitrary: ps' es nxt rule: autoclaim.induct)
  case (4 a m now idle c st i p ps)
  show ?case
  proof (cases "map_of (st_entries st) i")
    case None
    with 4(1) [OF None] 4(4) show ?thesis by (auto intro: le_SucI)
  next
    case (Some fs)
    show ?thesis
    proof (cases "int now - int (pe_time p) < idle")
      case True
      obtain qs ds x where q: "autoclaim a (Suc m) now idle c st ps = (qs, ds, x)" by (metis prod_cases3)
      with 4(4) Some True have "es = ds" by auto
      with 4(2) [OF Some True q] show ?thesis by simp
    next
      case False
      obtain qs ds x where q: "autoclaim a m now idle c st ps = (qs, ds, x)" by (metis prod_cases3)
      with 4(4) Some False have "es = (i, fs) # ds" by auto
      with 4(3) [OF Some False q] show ?thesis by simp
    qed
  qed
qed auto

lemma xautoclaim_length: "fst (ks_xautoclaim k g c idle start n ks) = Inr (nxt, es) \<Longrightarrow> int (length es) \<le> n"
  using autoclaim_length [of "10 * nat n" "nat n" "now_ms ks" idle c]
  by (fastforce simp: ks_xautoclaim_def Let_def split: if_splits sum.splits option.splits prod.splits)

lemma xreadgroup_length:
  "fst (ks_xreadgroup keys g c n ks) = Inr bs \<Longrightarrow> 0 < n \<Longrightarrow>
   int (length (concat (map snd bs))) \<le> n * int (length keys)"
proof (induction keys arbitrary: ks bs)
  case (Cons k keys)
  then obtain st gr where st: "ks_stream k ks = Inr st" "st_groups st g = Some gr"
    by (auto split: sum.splits option.splits)
  let ?es = "new_entries gr n st"
  have es: "int (length ?es) \<le> n" using Cons.prems(2) by (auto simp: new_entries_def take_count_def)
  obtain mid rest where rest: "fst (ks_xreadgroup keys g c n mid) = Inr rest" "bs = (if ?es = [] then rest else (k, ?es) # rest)"
    using Cons.prems(1) st by (auto simp: Let_def bindio_split split: sum.splits if_splits)
  from Cons.IH [OF rest(1) Cons.prems(2)] es rest(2) show ?case
    by (auto simp: algebra_simps)
qed simp

context redis_server
begin

lemma claim_script_length:
  assumes "fst (claim_script R k lk u g c idle start n db) = Inr (Some (nxt, es))"
  shows "int (length es) \<le> n"
proof -
  have "fst (claim_script ks_redis k lk u g c idle start n (view db)) = Inr (Some (nxt, es))"
    using assms by (simp only: implements_fst [OF claim_script_impl])
  then show ?thesis
    using xautoclaim_length [of k g c idle start n _ nxt es]
    by (auto simp: claim_script_def io_simps split: sum.splits if_splits)
qed

lemma read_script_length:
  assumes "fst (read_script R keys lk u g c n db) = Inr (Some bs)" and "0 < n"
  shows "int (length (concat (map snd bs))) \<le> n * int (length keys)"
proof -
  have "fst (read_script ks_redis keys lk u g c n (view db)) = Inr (Some bs)"
    using assms(1) by (simp only: implements_fst [OF read_script_impl])
  then show ?thesis
    using assms(2) xreadgroup_length [of keys g c n _ bs]
    by (auto simp: read_script_def io_simps split: sum.splits if_splits)
qed

lemma reclaim_pending_inv:
  assumes inv: "session_inv settings T 0 (snd w)" and wb: "well_behaved T sch"
  shows "session_inv settings T 0 (snd (snd (reclaim_pending W N R settings rt sch p stream grp start w)))"
proof -
  let ?s = "snd w" and ?cap = "capacity_of settings (snd w)"
  let ?owner = "lease_owner (ses_lease ?s)"
  let ?claim = "claim_script R stream (session_key (ses_agent_id ?s) (ses_instance_id ?s)) ?owner grp
     (consumer_name (ses_agent_id ?s) (ses_instance_id ?s) ?owner) (reclaim_idle_ms settings) start
     (min (reclaim_batch_size settings) ?cap) (fst w)"
  show ?thesis
  proof (cases "?cap \<le> 0 \<or> (\<forall>x. fst ?claim \<noteq> Inr (Some x))")
    case True
    then show ?thesis
      using inv by (auto simp: reclaim_pending_def capacity_of_def io_simps Let_def
          split: sum.splits option.splits err.splits prod.splits)
  next
    case False
    then obtain nxt es where es: "fst ?claim = Inr (Some (nxt, es))" and cap: "0 < ?cap" by auto
    then have "int (length es) \<le> ?cap" using claim_script_length by fastforce
    then have "session_inv settings T (0 + int (length es)) (snd (snd ?claim, ?s))"
      using inv by (simp add: session_inv_def)
    from deliver_claimed_inv [OF this _ wb] have
      "session_inv settings T 0 (snd (snd (deliver_claimed W N R settings rt sch p stream grp es (snd ?claim, ?s))))" by simp
    with es cap show ?thesis
      by (auto simp: reclaim_pending_def capacity_of_def io_simps Let_def split: sum.splits)
  qed
qed

lemma reclaim_streams_inv:
  assumes inv: "session_inv settings T 0 (snd w)" and wb: "well_behaved T sch"
  shows "session_inv settings T 0 (snd (snd (reclaim_streams W N R settings rt sch v w)))"
  using reclaim_pending_inv [OF inv wb] reclaim_pending_inv [OF reclaim_pending_inv [OF inv wb] wb] inv
  by (auto simp: reclaim_streams_def io_simps split: sum.splits)

lemma read_and_deliver_inv:
  assumes inv: "session_inv settings T 0 (snd w)" and wb: "well_behaved T sch"
    and cap: "capacity = capacity_of settings (snd w)" "0 < capacity" and names: "stream_names v \<noteq> []"
  shows "session_inv settings T 0 (snd (snd (read_and_deliver W N R settings rt sch capacity v w)))"
proof -
  let ?s = "snd w" and ?sel = "take (nat (min (int (length (stream_names v))) capacity)) (stream_names v)"
  let ?owner = "lease_owner (ses_lease ?s)" and ?n = "min 50 (capacity div int (length ?sel))"
  let ?read = "read_script R ?sel (session_key (ses_agent_id ?s) (ses_instance_id ?s)) ?owner agents_group
     (consumer_name (ses_agent_id ?s) (ses_instance_id ?s) ?owner) ?n (fst w)"
  show ?thesis
  proof (cases "\<exists>bs. fst ?read = Inr (Some bs)")
    case False
    then show ?thesis using inv by (auto simp: read_and_deliver_def io_simps Let_def split: sum.splits option.splits)
  next
    case True
    then obtain bs where bs: "fst ?read = Inr (Some bs)" by blast
    have len: "int (length ?sel) = min (int (length (stream_names v))) capacity" "0 < length ?sel"
      using cap(2) names by (auto simp: min_def)
    then have n: "0 < ?n" using cap(2) by (simp add: pos_imp_zdiv_pos_iff)
    have "?n * int (length ?sel) \<le> (capacity div int (length ?sel)) * int (length ?sel)"
      by (intro mult_right_mono) auto
    moreover have "(capacity div int (length ?sel)) * int (length ?sel) \<le> capacity"
      using div_mult_mod_eq [of capacity "int (length ?sel)"] pos_mod_sign [of "int (length ?sel)" capacity] len(2) by linarith
    ultimately have "int (length (concat (map snd bs))) \<le> capacity"
      using read_script_length [OF bs n] by linarith
    then have "session_inv settings T (0 + int (length (concat (map snd bs)))) (snd (snd ?read, ?s))"
      using inv cap(1) by (simp add: session_inv_def)
    from deliver_batches_inv [OF this _ wb] have
      "session_inv settings T 0 (snd (snd (deliver_batches W N R settings rt sch 2 agents_group bs (snd ?read, ?s))))" by simp
    moreover have "session_inv settings T 0 ?s" using inv .
    ultimately show ?thesis
      using bs by (auto simp: read_and_deliver_def io_simps Let_def split: sum.splits)
  qed
qed

lemma capacity_flag [simp]:
  "session_inv settings T n (s\<lparr>ses_capacity_changed := b\<rparr>) = session_inv settings T n s"
  by (simp add: session_inv_def capacity_of_def)

lemma reclaim_streams_names:
  "fst (reclaim_streams W N R settings rt sch v w) = Inr v' \<Longrightarrow> stream_names v' = stream_names v"
  by (auto simp: reclaim_streams_def io_simps split: sum.splits if_splits)

lemma read_and_deliver_names:
  "fst (read_and_deliver W N R settings rt sch capacity v w) = Inr v' \<Longrightarrow> stream_names v' \<noteq> []"
  by (auto simp: read_and_deliver_def io_simps Let_def split: sum.splits option.splits if_splits)

lemma stream_turn_inv:
  assumes inv: "session_inv settings T 0 (snd w)" and wb: "well_behaved T sch" and names: "stream_names v \<noteq> []"
  shows "session_inv settings T 0 (snd (snd (stream_turn W N R settings rt sch v w))) \<and>
    (\<forall>v'. fst (stream_turn W N R settings rt sch v w) = Inr v' \<longrightarrow> stream_names v' \<noteq> [])"
proof -
  let ?w1 = "(fst w, (snd w)\<lparr>ses_capacity_changed := False\<rparr>)"
  let ?rec = "reclaim_streams W N R settings rt sch v ?w1"
  have rec: "session_inv settings T 0 (snd (snd ?rec))"
    using inv reclaim_streams_inv [OF _ wb, of settings ?w1] by simp
  have read: "session_inv settings T 0 (snd (snd (read_and_deliver W N R settings rt sch capacity v' (snd ?rec)))) \<and>
      (\<forall>v''. fst (read_and_deliver W N R settings rt sch capacity v' (snd ?rec)) = Inr v'' \<longrightarrow> stream_names v'' \<noteq> [])"
    if "fst ?rec = Inr v'" "capacity = capacity_of settings (snd (snd ?rec))" "0 < capacity" for v' capacity
    using read_and_deliver_inv [OF rec wb that(2,3)] reclaim_streams_names [OF that(1)] names read_and_deliver_names
    by (metis (no_types, lifting))
  let ?cap = "capacity_of settings (snd (snd ?rec))"
  have run: "stream_turn W N R settings rt sch v w =
      (if \<not> lease_live (live_time sch) (ses_lease (snd w)) then (Inl session_lease_lost, w)
       else if capacity_of settings (snd w) \<le> 0 then (Inr v, ?w1)
       else case fst ?rec of Inl e \<Rightarrow> (Inl e, snd ?rec)
         | Inr v' \<Rightarrow> if ?cap \<le> 0 then (Inr v', snd ?rec) else read_and_deliver W N R settings rt sch ?cap v' (snd ?rec))"
    by (simp add: stream_turn_def io_simps Let_def capacity_of_def split: sum.split)
  show ?thesis
  proof (cases "fst ?rec")
    case (Inl e)
    with inv rec names show ?thesis by (simp add: run)
  next
    case (Inr v')
    with inv rec names read [OF Inr refl] reclaim_streams_names [OF Inr] show ?thesis by (simp add: run)
  qed
qed

lemma stream_turns_inv:
  assumes "session_inv settings T 0 (snd w)" and "\<forall>sch \<in> set schs. well_behaved T sch" and "stream_names v \<noteq> []"
  shows "session_inv settings T 0 (snd (snd (stream_turns W N R settings rt schs v w)))"
  using assms
proof (induction schs arbitrary: v w)
  case (Cons sch schs)
  let ?t = "stream_turn W N R settings rt sch v w"
  have turn: "session_inv settings T 0 (snd (snd ?t))" "\<And>v'. fst ?t = Inr v' \<Longrightarrow> stream_names v' \<noteq> []"
    using stream_turn_inv [of settings T w sch v W N rt] Cons.prems by auto
  have "session_inv settings T 0 (snd (others sch 4 0 (snd ?t)))"
    using session_inv_others [OF turn(1)] Cons.prems(2) by simp
  then show ?case
    using turn Cons.IH [of "others sch 4 0 (snd ?t)"] Cons.prems(2) by (auto simp: bindio_split split: sum.splits)
qed simp

lemma stream_loop_inv:
  assumes "session_inv settings T 0 (snd w)" and "\<forall>sch \<in> set schs. well_behaved T sch"
  shows "session_inv settings T 0 (snd (snd (stream_loop W N R settings rt schs w)))"
  using assms stream_turns_inv [where v = "initial_vars (ses_agent_id (snd w)) (ses_instance_id (snd w))"]
  by (auto simp: stream_loop_def io_simps initial_vars_def split: sum.splits)

end

section \<open>Dead letters\<close>

lemma nack_dead_letter_run:
  assumes "redis_server R view" and "map_of (br_sessions b) (a, inst) = Some s" and "map_of (ses_inflight s) did = Some d"
    and "\<not> (retryable \<and> inf_attempt d < max_delivery_attempts settings)"
    and "settle_nack W R settings rt stamp a inst did reason retryable (db, b) = (Inr True, (db', b'))"
  shows "\<exists>db1. view db1 = view db \<and>
    write_dlq W R rt stamp (inf_envelope d) (nack_reason reason retryable) (Some \<lparr>commit_inflight = d, commit_lease = ses_lease s\<rparr>) db1
      = (Inr True, db') \<and>
    b' = b\<lparr>br_sessions := dict_put (a, inst)
      (s\<lparr>ses_inflight := dict_pop did (ses_inflight s), ses_capacity_changed := True\<rparr>) (br_sessions b)\<rparr>"
proof -
  let ?own = "lease_owner_of R a inst db"
  have "view (snd ?own) = view db"
    using implements_snd [OF redis_server.lease_owner_of_impl [OF assms(1)], of a inst db]
    by (simp add: lease_owner_of_def ks_get_def split: option.splits rvalue.splits)
  moreover have "write_dlq W R rt stamp (inf_envelope d) (nack_reason reason retryable)
      (Some \<lparr>commit_inflight = d, commit_lease = ses_lease s\<rparr>) (snd ?own) = (Inr True, db') \<and>
    b' = b\<lparr>br_sessions := dict_put (a, inst)
      (s\<lparr>ses_inflight := dict_pop did (ses_inflight s), ses_capacity_changed := True\<rparr>) (br_sessions b)\<rparr>"
    using assms(2-5)
    by (auto simp: settle_nack_def get_lease_def get_session_def pop_inflight_def io_simps Let_def prod_eq_iff
        split: sum.splits if_splits option.splits)
  ultimately show ?thesis by blast
qed

lemma commit_reply_is_int:
  "fst (commit_delivery_script W ks_redis k lk q g i c u b fj ks) = Inr r \<Longrightarrow> r = IntReply 0 \<or> r = IntReply 1"
  by (auto simp: commit_delivery_script_def io_simps split: sum.splits if_splits option.splits)

lemma write_dlq_done:
  assumes "redis_server R view" and "write_dlq W R rt stamp j reason (Some dl) db = (Inr True, db')"
  shows "dlq_command W ks_redis rt (dlq_fields W j reason stamp) (Some dl) (view db) = (Inr (IntReply 1), view db')"
proof -
  let ?cmd = "dlq_command W R rt (dlq_fields W j reason stamp) (Some dl)"
  obtain rs where rs: "durable_execute R (router_durability rt) (one_command ?cmd) db = (Inr rs, db')"
    and first: "\<exists>r rest. rs = r # rest \<and> int_of_reply r = Some 1"
    using assms(2)
    by (auto simp: write_dlq_def catchio_def bindio_split prod_eq_iff split: sum.splits list.splits option.splits prod.splits)
  from durable_execute_one [OF assms(1) redis_server.dlq_command_impl [OF assms(1)] rs]
  obtain r where r: "rs = [r]" "dlq_command W ks_redis rt (dlq_fields W j reason stamp) (Some dl) (view db) = (Inr r, view db')" by blast
  then have "r = IntReply 0 \<or> r = IntReply 1"
    using commit_reply_is_int by (simp add: dlq_command_def) (metis fst_conv)
  with r first show ?thesis by auto
qed

section \<open>Properties\<close>

text \<open>
  C31. The delivery loop respects its budgets: through any number of turns, whatever the server
  hands out and whatever other tasks take out meanwhile, the deliveries in flight never exceed
  \<open>max_in_flight\<close>, the transport queue never exceeds its size, every attempt in flight is
  between 1 and \<open>max_delivery_attempts\<close>, and a delivery in flight that no one else finishes is
  never forgotten.
\<close>

theorem stream_loop_budget:
  assumes "redis_server R view" and "\<forall>sch \<in> set schs. well_behaved T sch"
    and "int (length (ses_inflight s)) \<le> max_in_flight settings"
    and "0 < q_maxsize (ses_outbound s) \<Longrightarrow> int (length (q_items (ses_outbound s))) \<le> q_maxsize (ses_outbound s)"
    and "\<forall>kd \<in> set (ses_inflight s). 1 \<le> inf_attempt (snd kd) \<and> inf_attempt (snd kd) \<le> max_delivery_attempts settings"
    and "T \<subseteq>\<^sub>m map_of (ses_inflight s)"
    and "stream_loop W N R settings rt schs (db, s) = (out, (db', s'))"
  shows "int (length (ses_inflight s')) \<le> max_in_flight settings \<and>
    (0 < q_maxsize (ses_outbound s') \<longrightarrow> int (length (q_items (ses_outbound s'))) \<le> q_maxsize (ses_outbound s')) \<and>
    (\<forall>kd \<in> set (ses_inflight s'). 1 \<le> inf_attempt (snd kd) \<and> inf_attempt (snd kd) \<le> max_delivery_attempts settings) \<and>
    T \<subseteq>\<^sub>m map_of (ses_inflight s')"
proof -
  have "session_inv settings T 0 (snd (db, s))"
    using assms(3-6) by (simp add: session_inv_def capacity_of_def available_capacity_def Let_def)
  from redis_server.stream_loop_inv [OF assms(1) this assms(2), of W N rt]
  have "session_inv settings T 0 s'" by (simp add: assms(7))
  then show ?thesis
    by (auto simp: session_inv_def capacity_of_def available_capacity_def Let_def split: if_splits)
qed

definition quiet_schedule :: "'db conn schedule" where
  "quiet_schedule = \<lparr>others = (\<lambda>p n w. w), draws = (\<lambda>p n. \<lparr>draw_time = 0, draw_stamp = ''0'', draw_uuid = ''x''\<rparr>),
     live_time = 0, loop_time = 0\<rparr>"

definition example_server_settings :: server_settings where
  "example_server_settings = \<lparr>set_agents = [], reclaim_idle_ms = 30000, reclaim_batch_size = 50, max_in_flight = 200,
     max_delivery_attempts = 5, set_session_lease = example_settings, broker_id = None\<rparr>"

theorem stream_loop_budget_witness:
  "\<exists>out db' s'. stream_loop json_wire decimal_numbers ks_redis example_server_settings example_router [quiet_schedule]
       (fresh_keyspace 0, new_session ''a'' ''i'' \<lparr>lease_agent_id = ''a'', lease_instance_id = ''i'', lease_owner = ''u'', lease_expires_at = 6\<rparr>)
     = (out, (db', s')) \<and> int (length (ses_inflight s')) \<le> 200"
proof -
  let ?s = "new_session ''a'' ''i'' \<lparr>lease_agent_id = ''a'', lease_instance_id = ''i'', lease_owner = ''u'', lease_expires_at = 6\<rparr>"
  obtain out db' s' where run: "stream_loop json_wire decimal_numbers ks_redis example_server_settings example_router
      [quiet_schedule] (fresh_keyspace 0, ?s) = (out, (db', s'))" by (metis surj_pair)
  have wb: "\<forall>sch \<in> set [quiet_schedule]. well_behaved Map.empty sch"
    by (simp add: well_behaved_def quiet_schedule_def)
  have "int (length (ses_inflight s')) \<le> max_in_flight example_server_settings"
    using stream_loop_budget [OF ref.redis_server_axioms wb _ _ _ _ run]
    by (simp add: new_session_def example_server_settings_def)
  with run show ?thesis by (simp add: example_server_settings_def)
qed

text \<open>
  A delivery that is refused for good (not retryable, or at the last attempt) keeps its message:
  when the handler reports it finished, the dead-letter stream has gained exactly one entry with
  the envelope, its identity and the reason, and the delivery is neither in flight nor pending
  nor stored in its stream any more.
\<close>

theorem dead_letter_keeps_message:
  assumes "redis_server R view" and "wire_codec W" and "router_dlq_enabled rt"
    and "map_of (br_sessions b) (a, inst) = Some s" and "map_of (ses_inflight s) did = Some d"
    and "\<not> (retryable \<and> inf_attempt d < max_delivery_attempts settings)" and "inf_stream d \<noteq> dlq_key"
    and "settle_nack W R settings rt stamp a inst did reason retryable (db, b) = (Inr True, (db', b'))"
  shows "map_of (br_sessions b') (a, inst) = Some (s\<lparr>ses_inflight := dict_pop did (ses_inflight s), ses_capacity_changed := True\<rparr>) \<and>
    (\<exists>st x. ks_stream dlq_key (view db) = Inr st \<and> ks_data (view db') dlq_key = Some (RStream (append_entry x
        (dlq_fields W (inf_envelope d) (nack_reason reason retryable) stamp) st))) \<and>
    (\<exists>st' gr'. ks_data (view db') (inf_stream d) = Some (RStream st') \<and> st_groups st' (inf_group d) = Some gr' \<and>
        inf_entry d \<notin> fst ` set (st_entries st') \<and> inf_entry d \<notin> fst ` set (gr_pending gr'))"
proof -
  let ?l = "ses_lease s" and ?fs = "dlq_fields W (inf_envelope d) (nack_reason reason retryable) stamp"
  let ?dl = "\<lparr>commit_inflight = d, commit_lease = ?l\<rparr>"
  obtain db1 where db1: "view db1 = view db"
      "write_dlq W R rt stamp (inf_envelope d) (nack_reason reason retryable) (Some ?dl) db1 = (Inr True, db')"
    and b': "b' = b\<lparr>br_sessions := dict_put (a, inst)
        (s\<lparr>ses_inflight := dict_pop did (ses_inflight s), ses_capacity_changed := True\<rparr>) (br_sessions b)\<rparr>"
    using nack_dead_letter_run [OF assms(1,4,5,6,8)] by blast
  have run: "dlq_command W ks_redis rt ?fs (Some ?dl) (view db) = (Inr (IntReply 1), view db')"
    using write_dlq_done [OF assms(1) db1(2)] db1(1) by simp
  have load: "load_strings W (dump_strings W (flatten_pairs ?fs)) = Some (flatten_pairs ?fs)"
    by (rule wire_codec.strings_roundtrip [OF assms(2)])
  from run [unfolded dlq_command_def, simplified] show ?thesis
  proof (cases rule: commit_script_cases)
    case (recorded flds)
    let ?k = "inf_stream d" and ?g = "inf_group d" and ?i = "inf_entry d"
    let ?mid = "snd (ks_xadd dlq_key ?fs (view db))"
    have flds: "pairs_of flds = ?fs" using recorded(5) load pairs_of_flatten by (metis option.inject)
    have "is_pending ?k ?g ?i ?mid" using recorded(3) by (rule xadd_keeps_pending)
    then obtain st' gr' where st': "ks_data ?mid ?k = Some (RStream st')" "st_groups st' ?g = Some gr'"
      "?i \<in> fst ` set (gr_pending gr')" unfolding is_pending_def by blast
    have db': "view db' = ks_put ?k (RStream (without_entry ?g ?i gr' st')) ?mid"
      using recorded(9) settle_entry_run [OF st'] by (simp add: flds)
    obtain st x where st: "ks_stream dlq_key (view db) = Inr st" "?mid = ks_put dlq_key (RStream (append_entry x ?fs st)) (view db)"
      using recorded(8) by (auto simp: flds ks_xadd_def append_entry_def split: sum.splits option.splits if_splits)
    have "ks_data (view db') dlq_key = Some (RStream (append_entry x ?fs st))"
      using db' st(2) assms(7) by simp
    moreover have "ks_data (view db') ?k = Some (RStream (without_entry ?g ?i gr' st'))" using db' by simp
    moreover have "?i \<notin> fst ` set (st_entries (without_entry ?g ?i gr' st'))"
      "st_groups (without_entry ?g ?i gr' st') ?g = Some (gr'\<lparr>gr_pending := filter (\<lambda>p. fst p \<noteq> ?i) (gr_pending gr')\<rparr>)"
      "?i \<notin> fst ` set (gr_pending (gr'\<lparr>gr_pending := filter (\<lambda>p. fst p \<noteq> ?i) (gr_pending gr')\<rparr>))"
      by (auto simp: without_entry_def)
    moreover have "map_of (br_sessions b') (a, inst) = Some (s\<lparr>ses_inflight := dict_pop did (ses_inflight s), ses_capacity_changed := True\<rparr>)"
      by (simp add: b' map_of_dict_put)
    ultimately show ?thesis using st(1) by blast
  qed (use assms(3) in auto)
qed

definition pending_stream :: stream where
  "pending_stream = \<lparr>st_entries = [((0, 1), [(''envelope'', ''m'')])], st_last = (0, 1),
     st_groups = [''agents'' \<mapsto> \<lparr>gr_last = (0, 1), gr_pending = [((0, 1), \<lparr>pe_consumer = ''c'', pe_time = 0, pe_count = 1\<rparr>)]\<rparr>]\<rparr>"

definition example_inflight :: inflight_delivery where
  "example_inflight = \<lparr>inf_stream = ''s'', inf_group = ''agents'', inf_entry = (0, 1), inf_envelope = ''m'',
     inf_received_at = 0, inf_attempt = 1, inf_consumer = ''c''\<rparr>"

definition serving_session :: session where
  "serving_session = (new_session ''a'' ''i'' \<lparr>lease_agent_id = ''a'', lease_instance_id = ''i'', lease_owner = ''u'',
     lease_expires_at = 6\<rparr>)\<lparr>ses_inflight := [(''d'', example_inflight)]\<rparr>"

definition serving_broker :: broker where
  "serving_broker = example_broker\<lparr>br_sessions := [((''a'', ''i''), serving_session)]\<rparr>"

definition serving_keyspace :: keyspace where
  "serving_keyspace = ks_put ''s'' (RStream pending_stream) (ks_put (session_key ''a'' ''i'') (RString ''u'') (fresh_keyspace 0))"

lemma serving_keyspace_sel [simp]:
  "ks_data serving_keyspace (session_key ''a'' ''i'') = Some (RString ''u'')"
  "ks_data serving_keyspace ''s'' = Some (RStream pending_stream)" "ks_data serving_keyspace dlq_key = None"
  "now_ms serving_keyspace = 0"
  by (simp_all add: serving_keyspace_def session_key_def dlq_key_def now_ms_def)

lemma example_dead_letter:
  "fst (commit_delivery_script json_wire ks_redis ''s'' (session_key ''a'' ''i'') dlq_key ''agents'' (0, 1) ''c'' ''u'' True
     (dump_strings json_wire (flatten_pairs (dlq_fields json_wire j r st))) serving_keyspace) = Inr (IntReply 1)"
proof -
  have own: "fst (owns_delivery ks_redis ''s'' (session_key ''a'' ''i'') ''agents'' (0, 1) ''c'' ''u'' serving_keyspace) = Inr True"
    by (simp add: owns_delivery_def io_simps ks_get_def ks_xpending1_def ks_stream_def pending_stream_def)
  let ?fs = "dlq_fields json_wire j r st"
  have fs: "?fs \<noteq> []" "even (length (flatten_pairs ?fs))" "flatten_pairs ?fs \<noteq> []"
    by (cases "load_envelope json_wire j"; simp add: dlq_fields_def flatten_pairs_def Let_def)+
  have add: "ks_xadd dlq_key ?fs serving_keyspace =
      (Inr (0, 1), ks_put dlq_key (RStream (append_entry (0, 1) ?fs empty_stream)) serving_keyspace)"
    using fs(1) by (simp add: ks_xadd_def ks_stream_def empty_stream_def next_id_def max_part_def append_entry_def)
  have "is_pending ''s'' ''agents'' (0, 1) (snd (ks_xadd dlq_key ?fs serving_keyspace))"
    by (rule xadd_keeps_pending) (simp add: is_pending_def pending_stream_def)
  from settle_results [OF this] own fs add show ?thesis
    using owns_delivery_ks [of "''s''" "session_key ''a'' ''i''" "''agents''" "(0, 1)" "''c''" "''u''" serving_keyspace]
    by (auto simp: commit_delivery_script_def io_simps ks_read_defs json_codec.strings_roundtrip pairs_of_flatten)
qed

theorem dead_letter_keeps_message_witness:
  "\<exists>db' b' st x. settle_nack json_wire ks_redis example_server_settings example_router ''0'' ''a'' ''i'' ''d''
       ''bad'' False (serving_keyspace, serving_broker) = (Inr True, (db', b')) \<and>
     ks_data db' dlq_key = Some (RStream (append_entry x (dlq_fields json_wire ''m'' ''bad'' ''0'') st))"
proof -
  let ?rt = "example_router"
  have "fst (settle_nack json_wire ks_redis example_server_settings ?rt ''0'' ''a'' ''i'' ''d'' ''bad'' False
      (serving_keyspace, serving_broker)) = Inr True"
    using example_dead_letter [of "''m''" "''bad''" "''0''"]
    by (simp add: settle_nack_def get_lease_def get_session_def pop_inflight_def io_simps serving_broker_def serving_session_def
        new_session_def example_inflight_def lease_owner_of_def ks_get_def write_dlq_def catchio_def durable_execute_def
        one_command_def pipeline_execute_def dlq_command_def example_router_def durability_enabled_def default_durability_def
        nack_reason_def)
  then obtain db' b' where run: "settle_nack json_wire ks_redis example_server_settings ?rt ''0'' ''a'' ''i'' ''d'' ''bad'' False
      (serving_keyspace, serving_broker) = (Inr True, (db', b'))" by (metis prod.collapse)
  have "\<exists>st x. ks_stream dlq_key serving_keyspace = Inr st \<and>
      ks_data db' dlq_key = Some (RStream (append_entry x (dlq_fields json_wire ''m'' ''bad'' ''0'') st))"
    using dead_letter_keeps_message [OF ref.redis_server_axioms json_codec.wire_codec_axioms _ _ _ _ _ run,
        of serving_session example_inflight]
    by (simp add: serving_broker_def serving_session_def example_inflight_def nack_reason_def dlq_key_def example_router_def)
  with run show ?thesis by blast
qed

end
