(* ===== verification/Audit_Entry.thy ===== *)
theory Audit_Entry
  imports Json_Parse Routing "HOL-Library.Monad_Syntax"
begin

text \<open>
  The records of the audit trail (\<open>packages/mas-gateway/src/mas_gateway/audit.py\<close>): their
  fields in a Redis stream, their hash, the prepared form that leaves the link to the
  predecessor open, and the validation of stored fields. Pydantic's \<open>model_dump\<close> lists the
  fields of a model in the order of its class; \<open>model_validate\<close> forbids unknown fields and
  reads numbers from text.
\<close>

section \<open>Records\<close>

datatype audit_stream = Messages | Security_Events

primrec stream_key :: "audit_stream \<Rightarrow> string" where
  "stream_key Messages = ''audit:messages''"
| "stream_key Security_Events = ''audit:security_events''"

primrec head_key :: "audit_stream \<Rightarrow> string" where
  "head_key Messages = ''audit:last_hash''"
| "head_key Security_Events = ''audit:security_last_hash''"

record audit_entry =
  ae_message_id :: string
  ae_timestamp :: real
  ae_sender_id :: string
  ae_sender_instance_id :: "string option"
  ae_target_id :: string
  ae_message_type :: "string option"
  ae_correlation_id :: "string option"
  ae_decision :: string
  ae_latency_ms :: real
  ae_payload_hash :: string
  ae_violations :: "string list"
  ae_previous_hash :: "string option"
  ae_hash_version :: int

record security_event =
  se_timestamp :: real
  se_event_type :: string
  se_details :: "(string \<times> json) list"
  se_previous_hash :: "string option"
  se_hash_version :: int

datatype chain_record = MessageRecord audit_entry | EventRecord security_event

primrec record_previous :: "chain_record \<Rightarrow> string option" where
  "record_previous (MessageRecord e) = ae_previous_hash e"
| "record_previous (EventRecord e) = se_previous_hash e"

primrec record_version :: "chain_record \<Rightarrow> int" where
  "record_version (MessageRecord e) = ae_hash_version e"
| "record_version (EventRecord e) = se_hash_version e"

text \<open>\<open>model_copy(update={"previous_hash": h})\<close>\<close>

primrec with_link :: "string option \<Rightarrow> chain_record \<Rightarrow> chain_record" where
  "with_link h (MessageRecord e) = MessageRecord (e\<lparr>ae_previous_hash := h\<rparr>)"
| "with_link h (EventRecord e) = EventRecord (e\<lparr>se_previous_hash := h\<rparr>)"

definition opt_json :: "string option \<Rightarrow> json" where
  "opt_json s = (case s of None \<Rightarrow> JNull | Some t \<Rightarrow> JStr t)"

fun model_dump :: "chain_record \<Rightarrow> (string \<times> json) list" where
  "model_dump (MessageRecord e) =
     [(''message_id'', JStr (ae_message_id e)), (''timestamp'', JFloat (ae_timestamp e)),
      (''sender_id'', JStr (ae_sender_id e)), (''sender_instance_id'', opt_json (ae_sender_instance_id e)),
      (''target_id'', JStr (ae_target_id e)), (''message_type'', opt_json (ae_message_type e)),
      (''correlation_id'', opt_json (ae_correlation_id e)), (''decision'', JStr (ae_decision e)),
      (''latency_ms'', JFloat (ae_latency_ms e)), (''payload_hash'', JStr (ae_payload_hash e)),
      (''violations'', JList (map JStr (ae_violations e))), (''previous_hash'', opt_json (ae_previous_hash e)),
      (''hash_version'', JInt (ae_hash_version e))]"
| "model_dump (EventRecord e) =
     [(''timestamp'', JFloat (se_timestamp e)), (''event_type'', JStr (se_event_type e)),
      (''details'', JObj (se_details e)), (''previous_hash'', opt_json (se_previous_hash e)),
      (''hash_version'', JInt (se_hash_version e))]"

section \<open>Serialization\<close>

text \<open>\<open>json.dumps(value) if isinstance(value, (list, dict)) else str(value)\<close>\<close>

fun field_text :: "text_numbers \<Rightarrow> json \<Rightarrow> string" where
  "field_text N (JStr s) = s"
| "field_text N (JInt i) = show_int i"
| "field_text N (JFloat x) = py_repr N x"
| "field_text N (JBool b) = (if b then ''True'' else ''False'')"
| "field_text N JNull = ''None''"
| "field_text N (JList xs) = json_dumps N (JList xs)"
| "field_text N (JObj kvs) = json_dumps N (JObj kvs)"

definition entry_to_stream_fields :: "text_numbers \<Rightarrow> chain_record \<Rightarrow> (string \<times> string) list" where
  "entry_to_stream_fields N e =
     map (\<lambda>kv. (fst kv, field_text N (snd kv))) (filter (\<lambda>kv. snd kv \<noteq> JNull) (model_dump e))"

definition hash_entry :: "text_numbers \<Rightarrow> (string \<Rightarrow> string) \<Rightarrow> chain_record \<Rightarrow> string" where
  "hash_entry N sha e = sha (json_canonical N (JObj (model_dump e)))"

record prepared_entry =
  canonical_prefix :: string
  canonical_suffix :: string
  prepared_fields :: "(string \<times> string option) list"

definition from_entry :: "text_numbers \<Rightarrow> chain_record \<Rightarrow> prepared_entry" where
  "from_entry N e =
     (let data = model_dump e;
          items = sort_key fst data;
          before = takeWhile (\<lambda>kv. fst kv \<noteq> ''previous_hash'') items;
          after = tl (dropWhile (\<lambda>kv. fst kv \<noteq> ''previous_hash'') items) in
      \<lparr>canonical_prefix = butlast (json_canonical N (JObj before)) @ (if before \<noteq> [] then '','' else []) @
         CHR 0x22 # ''previous_hash'' @ CHR 0x22 # '':'',
       canonical_suffix = (if after \<noteq> [] then '','' else []) @ tl (json_canonical N (JObj after)),
       prepared_fields = map (\<lambda>kv. (fst kv, if fst kv = ''previous_hash'' then None else Some (field_text N (snd kv))))
         (filter (\<lambda>kv. fst kv = ''previous_hash'' \<or> snd kv \<noteq> JNull) data)\<rparr>)"

definition linked :: "text_numbers \<Rightarrow> (string \<Rightarrow> string) \<Rightarrow> prepared_entry \<Rightarrow> string option \<Rightarrow> (string \<times> string) list \<times> string" where
  "linked N sha p previous_hash =
     (concat (map (\<lambda>kv. case (if fst kv = ''previous_hash'' then previous_hash else snd kv) of
          None \<Rightarrow> [] | Some t \<Rightarrow> [(fst kv, t)]) (prepared_fields p)),
      sha (canonical_prefix p @ json_dumps N (opt_json previous_hash) @ canonical_suffix p))"

section \<open>Validation of stored fields\<close>

fun strings_of :: "json list \<Rightarrow> string list option" where
  "strings_of [] = Some []"
| "strings_of (JStr s # xs) = map_option (\<lambda>ss. s # ss) (strings_of xs)"
| "strings_of (x # xs) = None"

definition valid_hash :: "string option \<Rightarrow> bool" where
  "valid_hash h = (case h of None \<Rightarrow> True | Some t \<Rightarrow> is_hex64 t)"

definition audit_entry_ok :: "audit_entry \<Rightarrow> bool" where
  "audit_entry_ok e \<longleftrightarrow> 0 \<le> ae_latency_ms e \<and> valid_hash (ae_previous_hash e) \<and> ae_hash_version e \<in> {1, 2}"

definition security_event_ok :: "security_event \<Rightarrow> bool" where
  "security_event_ok e \<longleftrightarrow> valid_hash (se_previous_hash e) \<and> se_hash_version e \<in> {1, 2}"

text \<open>\<open>fields.setdefault("hash_version", 1)\<close>, then a number read from text.\<close>

definition version_field :: "text_numbers \<Rightarrow> (string \<times> string) list \<Rightarrow> int option" where
  "version_field N raw = (case map_of raw ''hash_version'' of None \<Rightarrow> Some 1 | Some t \<Rightarrow> py_int N t)"

definition audit_entry_fields :: "string list" where
  "audit_entry_fields = [''message_id'', ''timestamp'', ''sender_id'', ''sender_instance_id'', ''target_id'', ''message_type'',
     ''correlation_id'', ''decision'', ''latency_ms'', ''payload_hash'', ''violations'', ''previous_hash'', ''hash_version'']"

definition validate_audit_entry :: "text_numbers \<Rightarrow> (string \<times> string) list \<Rightarrow> string list \<Rightarrow> audit_entry option" where
  "validate_audit_entry N raw violations =
     (if \<not> set (map fst raw) \<subseteq> set audit_entry_fields then None
      else do {
        message_id \<leftarrow> map_of raw ''message_id'';
        timestamp \<leftarrow> Option.bind (map_of raw ''timestamp'') (py_float N);
        sender \<leftarrow> map_of raw ''sender_id'';
        target \<leftarrow> map_of raw ''target_id'';
        decision \<leftarrow> map_of raw ''decision'';
        latency \<leftarrow> Option.bind (map_of raw ''latency_ms'') (py_float N);
        payload_hash \<leftarrow> map_of raw ''payload_hash'';
        version \<leftarrow> version_field N raw;
        let e = \<lparr>ae_message_id = message_id, ae_timestamp = timestamp, ae_sender_id = sender,
          ae_sender_instance_id = map_of raw ''sender_instance_id'', ae_target_id = target,
          ae_message_type = map_of raw ''message_type'', ae_correlation_id = map_of raw ''correlation_id'',
          ae_decision = decision, ae_latency_ms = latency, ae_payload_hash = payload_hash, ae_violations = violations,
          ae_previous_hash = map_of raw ''previous_hash'', ae_hash_version = version\<rparr>;
        if audit_entry_ok e then Some e else None })"

definition record_to_entry :: "text_numbers \<Rightarrow> (string \<times> string) list \<Rightarrow> audit_entry option" where
  "record_to_entry N raw =
     (if map_of raw ''timestamp'' = None then None
      else case json_loads N (case map_of raw ''violations'' of None \<Rightarrow> ''[]'' | Some t \<Rightarrow> t) of
        Some (JList xs) \<Rightarrow> Option.bind (strings_of xs) (validate_audit_entry N raw)
      | _ \<Rightarrow> None)"

definition security_event_fields :: "string list" where
  "security_event_fields = [''timestamp'', ''event_type'', ''details'', ''previous_hash'', ''hash_version'']"

definition validate_security_event :: "text_numbers \<Rightarrow> (string \<times> string) list \<Rightarrow> json \<Rightarrow> security_event option" where
  "validate_security_event N raw details =
     (if \<not> set (map fst raw) \<subseteq> set security_event_fields then None
      else do {
        timestamp \<leftarrow> Option.bind (map_of raw ''timestamp'') (py_float N);
        event_type \<leftarrow> map_of raw ''event_type'';
        kvs \<leftarrow> (case details of JObj kvs \<Rightarrow> Some kvs | _ \<Rightarrow> None);
        version \<leftarrow> version_field N raw;
        let e = \<lparr>se_timestamp = timestamp, se_event_type = event_type, se_details = kvs,
          se_previous_hash = map_of raw ''previous_hash'', se_hash_version = version\<rparr>;
        if security_event_ok e then Some e else None })"

definition event_of_raw :: "text_numbers \<Rightarrow> (string \<times> string) list \<Rightarrow> security_event option" where
  "event_of_raw N raw = do {
     t \<leftarrow> map_of raw ''details'';
     v \<leftarrow> json_loads N t;
     validate_security_event N raw v }"

text \<open>The client library hands the fields of a stream entry over as a dictionary.\<close>

primrec chain_entry :: "text_numbers \<Rightarrow> audit_stream \<Rightarrow> (string \<times> string) list \<Rightarrow> err + chain_record" where
  "chain_entry N Messages raw =
     (case record_to_entry N raw of
        None \<Rightarrow> Inl (AuditArchiveError ''invalid_audit_message'') | Some e \<Rightarrow> Inr (MessageRecord e))"
| "chain_entry N Security_Events raw =
     (case event_of_raw N raw of
        None \<Rightarrow> Inl (AuditArchiveError ''invalid_audit_security_event'') | Some e \<Rightarrow> Inr (EventRecord e))"

definition sid_text :: "sid \<Rightarrow> string" where
  "sid_text i = show_nat (fst i) @ ''-'' @ show_nat (snd i)"

definition stream_entry_to_record :: "text_numbers \<Rightarrow> sid \<Rightarrow> (string \<times> string) list \<Rightarrow> err + (string \<times> json) list" where
  "stream_entry_to_record N i raw =
     (if ''event_type'' \<in> fst ` set raw then
        (case map_of raw ''details'' of
           None \<Rightarrow> Inl (KeyError ''details'')
         | Some t \<Rightarrow>
             (case json_loads N t of
                None \<Rightarrow> Inl (ValueError ''JSONDecodeError'')
              | Some v \<Rightarrow>
                  (case validate_security_event N raw v of
                     None \<Rightarrow> Inl ValidationError
                   | Some e \<Rightarrow> Inr (dict_put ''stream_id'' (JStr (sid_text i)) (model_dump (EventRecord e))))))
      else
        (case record_to_entry N raw of
           None \<Rightarrow> Inl (ValueError (''Malformed audit message at '' @ sid_text i))
         | Some e \<Rightarrow> Inr (dict_put ''stream_id'' (JStr (sid_text i))
             (filter (\<lambda>kv. snd kv \<noteq> JNull) (model_dump (MessageRecord e))))))"

section \<open>A prepared entry is the entry\<close>

lemma model_dump_keys [simp]: "distinct (map fst (model_dump e))" "''previous_hash'' \<in> fst ` set (model_dump e)"
  by (cases e; simp)+

definition relink :: "json \<Rightarrow> string \<times> json \<Rightarrow> string \<times> json" where
  "relink v kv = (if fst kv = ''previous_hash'' then (''previous_hash'', v) else kv)"

lemma fst_relink [simp]: "fst (relink v kv) = fst kv"
  by (simp add: relink_def)

lemma model_dump_link: "model_dump (with_link h e) = map (relink (opt_json h)) (model_dump e)"
  by (cases e) (simp_all add: relink_def)

lemma sorted_relink:
  assumes "distinct (map fst d)" and "''previous_hash'' \<in> fst ` set d"
  shows "sort_key fst (map (relink v) d) =
     takeWhile (\<lambda>kv. fst kv \<noteq> ''previous_hash'') (sort_key fst d) @ (''previous_hash'', v) #
     tl (dropWhile (\<lambda>kv. fst kv \<noteq> ''previous_hash'') (sort_key fst d))"
proof -
  let ?P = "\<lambda>kv :: string \<times> json. fst kv \<noteq> ''previous_hash''" and ?d = "sort_key fst d"
  have "\<exists>x \<in> set ?d. \<not> ?P x" using assms(2) by force
  then obtain y ys where y: "dropWhile ?P ?d = y # ys" "\<not> ?P y"
    using hd_dropWhile [of ?P ?d] by (cases "dropWhile ?P ?d") auto
  then have d: "?d = takeWhile ?P ?d @ y # ys" by (metis takeWhile_dropWhile_id)
  have "distinct (map fst ?d)" using assms(1) distinct_ordered [of True d] by (simp add: ordered_def)
  then have "distinct (map fst (takeWhile ?P ?d @ y # ys))" using d by simp
  then have "fst y \<notin> fst ` set ys" by simp
  then have "\<forall>x \<in> set ys. ?P x" using y(2) by (metis imageI)
  then have "map (relink v) ys = ys" by (intro map_idI) (simp add: relink_def)
  moreover have "map (relink v) (takeWhile ?P ?d) = takeWhile ?P ?d"
    by (intro map_idI) (auto simp: relink_def dest: set_takeWhileD)
  ultimately have "map (relink v) (takeWhile ?P ?d @ y # ys) = takeWhile ?P ?d @ (''previous_hash'', v) # ys"
    using y(2) by (simp add: relink_def)
  then have "map (relink v) ?d = takeWhile ?P ?d @ (''previous_hash'', v) # ys" using d by simp
  then show ?thesis using y(1) by (simp add: sort_key_map)
qed

lemma sorted_parts:
  assumes "sort_key fst d = xs @ ys"
  shows "ordered True xs = xs" "ordered True (tl ys) = tl ys"
proof -
  have "sorted (map fst (xs @ ys))" using assms sorted_sort_key [of fst d] by simp
  then have "sorted (map fst xs)" "sorted (map fst (tl ys))" by (simp_all add: sorted_append sorted_tl map_tl)
  then show "ordered True xs = xs" "ordered True (tl ys) = tl ys"
    by (simp_all add: ordered_def sort_key_id_if_sorted)
qed

lemma canonical_relink:
  assumes "distinct (map fst d)" and "''previous_hash'' \<in> fst ` set d"
    and "before = takeWhile (\<lambda>kv. fst kv \<noteq> ''previous_hash'') (sort_key fst d)"
    and "after = tl (dropWhile (\<lambda>kv. fst kv \<noteq> ''previous_hash'') (sort_key fst d))"
  shows "json_canonical N (JObj (map (relink v) d)) =
     butlast (json_canonical N (JObj before)) @ (if before \<noteq> [] then '','' else []) @
     json_quote ''previous_hash'' @ '':'' @ json_canonical N v @
     (if after \<noteq> [] then '','' else []) @ tl (json_canonical N (JObj after))"
proof -
  let ?t = "member_text N '','' '':'' True"
  have "sort_key fst d = before @ dropWhile (\<lambda>kv. fst kv \<noteq> ''previous_hash'') (sort_key fst d)"
    by (simp add: assms(3))
  from sorted_parts [OF this] have o: "ordered True before = before" "ordered True after = after"
    by (simp_all add: assms(4))
  have "ordered True (map (relink v) d) = before @ (''previous_hash'', v) # after"
    using sorted_relink [OF assms(1,2)] assms(3,4) by (simp add: ordered_def)
  then have "json_canonical N (JObj (map (relink v) d)) =
      ''{'' @ join_with '','' (map ?t before @ ?t (''previous_hash'', v) # map ?t after) @ ''}''"
    unfolding json_canonical_def dumps_obj by simp
  moreover have "join_with '','' (map ?t before @ ?t (''previous_hash'', v) # map ?t after) =
      (if before \<noteq> [] then join_with '','' (map ?t before) @ '','' else []) @ ?t (''previous_hash'', v) @
      (if after \<noteq> [] then '','' @ join_with '','' (map ?t after) else [])"
    by (simp add: join_with_append join_with_Cons)
  ultimately show ?thesis
    unfolding json_canonical_def dumps_obj o by (simp add: member_text_def butlast_append)
qed

lemma linked_fields:
  "concat (map (\<lambda>kv. case (if fst kv = ''previous_hash'' then h else snd kv) of None \<Rightarrow> [] | Some t \<Rightarrow> [(fst kv, t)])
     (map (\<lambda>kv. (fst kv, if fst kv = ''previous_hash'' then None else Some (field_text N (snd kv))))
       (filter (\<lambda>kv. fst kv = ''previous_hash'' \<or> snd kv \<noteq> JNull) d))) =
   map (\<lambda>kv. (fst kv, field_text N (snd kv))) (filter (\<lambda>kv. snd kv \<noteq> JNull) (map (relink (opt_json h)) d))"
  by (induction d) (auto simp: relink_def opt_json_def split: option.splits)

lemma linked_exact:
  "linked N sha (from_entry N e) h = (entry_to_stream_fields N (with_link h e), hash_entry N sha (with_link h e))"
proof -
  have "fst (linked N sha (from_entry N e) h) = entry_to_stream_fields N (with_link h e)"
    unfolding linked_def from_entry_def entry_to_stream_fields_def model_dump_link Let_def fst_conv prepared_entry.simps
    by (rule linked_fields)
  moreover have "json_dumps N (opt_json h) = json_canonical N (opt_json h)"
    by (simp add: opt_json_def json_dumps_def json_canonical_def split: option.splits)
  moreover have "json_quote ''previous_hash'' = CHR 0x22 # ''previous_hash'' @ [CHR 0x22]"
    by (simp add: json_quote_def json_escape_def Let_def)
  ultimately show ?thesis
    using canonical_relink [OF model_dump_keys [of e] refl refl, of N "opt_json h"]
    by (simp add: linked_def from_entry_def hash_entry_def model_dump_link Let_def)
qed

section \<open>Reading stored fields\<close>

text \<open>What the modules write: numbers that are doubles, details that are JSON.\<close>

fun writable :: "text_numbers \<Rightarrow> chain_record \<Rightarrow> bool" where
  "writable N (MessageRecord e) \<longleftrightarrow> is_double N (ae_timestamp e) \<and> is_double N (ae_latency_ms e) \<and> audit_entry_ok e"
| "writable N (EventRecord e) \<longleftrightarrow> is_double N (se_timestamp e) \<and> json_ok N (JObj (se_details e)) \<and> security_event_ok e"

primrec belongs :: "audit_stream \<Rightarrow> chain_record \<Rightarrow> bool" where
  "belongs Messages e = (\<exists>m. e = MessageRecord m)"
| "belongs Security_Events e = (\<exists>m. e = EventRecord m)"

lemma map_of_present:
  "distinct (map fst d) \<Longrightarrow> map_of (map (\<lambda>kv. (fst kv, g (snd kv))) (filter (\<lambda>kv. snd kv \<noteq> x) d)) k =
     (case map_of d k of None \<Rightarrow> None | Some v \<Rightarrow> if v = x then None else Some (g v))"
proof (induction d)
  case (Cons kv d)
  then have "k = fst kv \<Longrightarrow> map_of d k = None" by (auto simp: map_of_eq_None_iff)
  with Cons show ?case by (cases kv) (auto split: option.splits)
qed simp

lemma stream_field:
  "map_of (entry_to_stream_fields N e) k =
     (case map_of (model_dump e) k of None \<Rightarrow> None | Some v \<Rightarrow> if v = JNull then None else Some (field_text N v))"
  unfolding entry_to_stream_fields_def by (rule map_of_present) simp

lemma stream_field_names: "fst ` set (entry_to_stream_fields N e) \<subseteq> fst ` set (model_dump e)"
  by (force simp: entry_to_stream_fields_def)

lemma opt_json_eq [simp]: "opt_json h = JNull \<longleftrightarrow> h = None" "opt_json (Some t) = JStr t"
  by (simp_all add: opt_json_def split: option.splits)

lemma strings_of_map [simp]: "strings_of (map JStr vs) = Some vs"
  by (induction vs) auto

context json_numerals
begin

lemma chain_entry_message:
  assumes "writable N (MessageRecord e)"
  shows "chain_entry N Messages (entry_to_stream_fields N (MessageRecord e)) = Inr (MessageRecord e)"
proof -
  let ?raw = "entry_to_stream_fields N (MessageRecord e)"
  have v: "json_loads N (json_dumps N (JList (map JStr (ae_violations e)))) = Some (JList (map JStr (ae_violations e)))"
    by (rule json_loads_dumps) (simp add: list_all_iff)
  have f: "map_of ?raw ''message_id'' = Some (ae_message_id e)" "map_of ?raw ''timestamp'' = Some (py_repr N (ae_timestamp e))"
    "map_of ?raw ''sender_id'' = Some (ae_sender_id e)" "map_of ?raw ''target_id'' = Some (ae_target_id e)"
    "map_of ?raw ''decision'' = Some (ae_decision e)" "map_of ?raw ''latency_ms'' = Some (py_repr N (ae_latency_ms e))"
    "map_of ?raw ''payload_hash'' = Some (ae_payload_hash e)" "map_of ?raw ''hash_version'' = Some (show_int (ae_hash_version e))"
    "map_of ?raw ''violations'' = Some (json_dumps N (JList (map JStr (ae_violations e))))"
    unfolding stream_field by simp_all
  have g: "map_of ?raw ''previous_hash'' = ae_previous_hash e" "map_of ?raw ''sender_instance_id'' = ae_sender_instance_id e"
    "map_of ?raw ''message_type'' = ae_message_type e" "map_of ?raw ''correlation_id'' = ae_correlation_id e"
    unfolding stream_field by (auto simp: opt_json_def split: option.splits)
  have names: "fst ` set ?raw \<subseteq> set audit_entry_fields"
    using stream_field_names [of N "MessageRecord e"] by (simp add: audit_entry_fields_def)
  have "py_int N (show_int (ae_hash_version e)) = Some (ae_hash_version e)"
    using assms py_int_show [of "nat (ae_hash_version e)"] by (auto simp: audit_entry_ok_def show_int_def)
  then show ?thesis
    using assms py_float_repr unfolding chain_entry.simps record_to_entry_def validate_audit_entry_def version_field_def f g
    by (simp add: v names Let_def audit_entry_ok_def)
qed

lemma chain_entry_event:
  assumes "writable N (EventRecord e)"
  shows "chain_entry N Security_Events (entry_to_stream_fields N (EventRecord e)) = Inr (EventRecord e)"
proof -
  let ?raw = "entry_to_stream_fields N (EventRecord e)"
  have v: "json_loads N (json_dumps N (JObj (se_details e))) = Some (JObj (se_details e))"
    using assms by (intro json_loads_dumps) simp
  have f: "map_of ?raw ''timestamp'' = Some (py_repr N (se_timestamp e))" "map_of ?raw ''event_type'' = Some (se_event_type e)"
    "map_of ?raw ''details'' = Some (json_dumps N (JObj (se_details e)))" 
    "map_of ?raw ''hash_version'' = Some (show_int (se_hash_version e))"
    unfolding stream_field by simp_all
  have g: "map_of ?raw ''previous_hash'' = se_previous_hash e"
    unfolding stream_field by (auto simp: opt_json_def split: option.splits)
  have names: "fst ` set ?raw \<subseteq> set security_event_fields"
    using stream_field_names [of N "EventRecord e"] by (simp add: security_event_fields_def)
  have "py_int N (show_int (se_hash_version e)) = Some (se_hash_version e)"
    using assms py_int_show [of "nat (se_hash_version e)"] by (auto simp: security_event_ok_def show_int_def)
  then show ?thesis
    using assms py_float_repr unfolding chain_entry.simps event_of_raw_def validate_security_event_def version_field_def f g
    by (simp add: v names Let_def security_event_ok_def)
qed

lemma chain_entry_roundtrip:
  "belongs s e \<Longrightarrow> writable N e \<Longrightarrow> chain_entry N s (entry_to_stream_fields N e) = Inr e"
  using chain_entry_message chain_entry_event by (cases s) auto

end

section \<open>Properties\<close>

text \<open>
  A prepared entry is serialised once, before its place in the chain is known:
  filling in the hash of the predecessor later gives the stream fields and the hash that
  serialising the linked entry as a whole gives, whatever the entry and the link.
\<close>

theorem prepared_entry_exact:
  "linked N sha (from_entry N e) h = (entry_to_stream_fields N (with_link h e), hash_entry N sha (with_link h e))"
  by (rule linked_exact)

text \<open>
  What the module writes to a stream it reads back: the fields of a message record or a
  security event, optional and nested values included, validate to the same record.
\<close>

theorem stored_record_roundtrip:
  assumes "json_numerals N" and "belongs s e" and "writable N e"
  shows "chain_entry N s (entry_to_stream_fields N e) = Inr e"
  using assms by (rule json_numerals.chain_entry_roundtrip)

theorem stored_record_roundtrip_witness:
  "chain_entry point_numbers Messages (entry_to_stream_fields point_numbers (MessageRecord
     \<lparr>ae_message_id = ''m1'', ae_timestamp = 1, ae_sender_id = ''a'', ae_sender_instance_id = None, ae_target_id = ''b'',
      ae_message_type = Some ''t'', ae_correlation_id = None, ae_decision = ''ALERT'', ae_latency_ms = 0, ae_payload_hash = ''h'',
      ae_violations = [''x'', ''y''], ae_previous_hash = None, ae_hash_version = 2\<rparr>)) = Inr (MessageRecord
     \<lparr>ae_message_id = ''m1'', ae_timestamp = 1, ae_sender_id = ''a'', ae_sender_instance_id = None, ae_target_id = ''b'',
      ae_message_type = Some ''t'', ae_correlation_id = None, ae_decision = ''ALERT'', ae_latency_ms = 0, ae_payload_hash = ''h'',
      ae_violations = [''x'', ''y''], ae_previous_hash = None, ae_hash_version = 2\<rparr>)"
  by (rule stored_record_roundtrip [OF point.json_numerals_axioms])
     (simp_all add: point_numbers_def decimal_numbers_def audit_entry_ok_def valid_hash_def)

end
