(* ===== verification/Audit_Script.thy ===== *)
theory Audit_Script
  imports Audit_Entry
begin

text \<open>
  The Lua script that appends a batch to an audit stream (\<open>_APPEND_SCRIPT\<close> of \<open>audit.py\<close>): it
  compares the head of the chain, checks types, capacity, indexes and stream identifiers, and
  only then writes the records, their index entries, the stream appends that go with them and
  the new head. The batch arrives as JSON; \<open>cjson.decode\<close> is a parameter that reads back what
  Python wrote. Lua's comparisons of identifiers digit by digit are comparisons of numbers.
\<close>

section \<open>Batches\<close>

locale lua_json =
  fixes N :: text_numbers and cjson :: "string \<Rightarrow> json option"
  assumes cjson_dumps: "json_ok N v \<Longrightarrow> cjson (json_dumps N v) = Some v"

interpretation point_json: lua_json point_numbers "json_loads point_numbers"
  by unfold_locales (rule point.json_loads_dumps)

text \<open>One record of a batch: its fields, the positions of its indexes, and its stream append.\<close>

record batch_record =
  br_fields :: "string list"
  br_indexes :: "nat list"
  br_append :: "(nat \<times> string list) option"

definition batch_json :: "batch_record \<Rightarrow> json" where
  "batch_json r = JObj
     [(''fields'', JList (map JStr (br_fields r))), (''indexes'', JList (map (\<lambda>i. JInt (int i)) (br_indexes r))),
      (''append'', case br_append r of
         None \<Rightarrow> JNull
       | Some (k, flds) \<Rightarrow> JObj [(''key'', JInt (int k)), (''fields'', JList (map JStr flds))])]"

text \<open>A Lua number without fraction\<close>

definition lua_int :: "json \<Rightarrow> int option" where
  "lua_int v = (case v of JInt i \<Rightarrow> Some i | JFloat x \<Rightarrow> if x = of_int \<lfloor>x\<rfloor> then Some \<lfloor>x\<rfloor> else None | _ \<Rightarrow> None)"

definition lua_get :: "json \<Rightarrow> string \<Rightarrow> json" where
  "lua_get v k = (case v of JObj kvs \<Rightarrow> (case map_of kvs k of Some x \<Rightarrow> x | None \<Rightarrow> JNull) | _ \<Rightarrow> JNull)"

definition lua_fields :: "json \<Rightarrow> string list option" where
  "lua_fields v = (case v of
      JList xs \<Rightarrow> if xs = [] \<or> 2048 < length xs \<or> odd (length xs) then None else strings_of xs
    | _ \<Rightarrow> None)"

text \<open>The items of a Lua table that is an array; an object has none.\<close>

definition lua_items :: "json \<Rightarrow> json list option" where
  "lua_items v = (case v of JList xs \<Rightarrow> Some xs | JObj kvs \<Rightarrow> Some [] | _ \<Rightarrow> None)"

fun positions_in :: "int \<Rightarrow> int \<Rightarrow> json list \<Rightarrow> nat list option" where
  "positions_in a b [] = Some []"
| "positions_in a b (v # vs) =
     (case lua_int v of
        None \<Rightarrow> None
      | Some i \<Rightarrow> if a \<le> i \<and> i \<le> b then map_option (\<lambda>is. nat i # is) (positions_in a b vs) else None)"

definition invalid_fields :: err where "invalid_fields = RedisError ''invalid_audit_fields''"

definition invalid_indexes :: err where "invalid_indexes = RedisError ''invalid_audit_indexes''"

definition invalid_append :: err where "invalid_append = RedisError ''invalid_audit_stream_append''"

definition check_append :: "nat \<Rightarrow> nat \<Rightarrow> json \<Rightarrow> err + (nat \<times> string list) option" where
  "check_append index_count keys effect =
     (if effect = JNull then Inr None
      else case lua_int (lua_get effect ''key'') of
        None \<Rightarrow> Inl invalid_append
      | Some k \<Rightarrow>
          if k \<le> 2 + int index_count \<or> int keys < k then Inl invalid_append
          else case lua_fields (lua_get effect ''fields'') of
            None \<Rightarrow> Inl invalid_append
          | Some flds \<Rightarrow> Inr (Some (nat k, flds)))"

definition check_record :: "nat \<Rightarrow> nat \<Rightarrow> json \<Rightarrow> err + batch_record" where
  "check_record index_count keys v =
     (case lua_fields (lua_get v ''fields'') of
        None \<Rightarrow> Inl invalid_fields
      | Some flds \<Rightarrow>
          (case Option.bind (lua_items (lua_get v ''indexes'')) (positions_in 3 (2 + int index_count)) of
             None \<Rightarrow> Inl invalid_indexes
           | Some is \<Rightarrow>
               (case check_append index_count keys (lua_get v ''append'') of
                  Inl e \<Rightarrow> Inl e
                | Inr effect \<Rightarrow> Inr \<lparr>br_fields = flds, br_indexes = is, br_append = effect\<rparr>)))"

primrec check_records :: "nat \<Rightarrow> nat \<Rightarrow> json list \<Rightarrow> err + batch_record list" where
  "check_records index_count keys [] = Inr []"
| "check_records index_count keys (v # vs) =
     (case check_record index_count keys v of
        Inl e \<Rightarrow> Inl e
      | Inr r \<Rightarrow> (case check_records index_count keys vs of Inl e \<Rightarrow> Inl e | Inr rs \<Rightarrow> Inr (r # rs)))"

section \<open>The script\<close>

text \<open>\<open>KEYS[i]\<close>, counted from one.\<close>

definition lua_key :: "string list \<Rightarrow> nat \<Rightarrow> string" where
  "lua_key keys i = keys ! (i - 1)"

definition check_key :: "'db redis \<Rightarrow> nat \<times> string \<Rightarrow> ('db, unit) io" where
  "check_key R ik =
     bindio (TYPE_OF R (snd ik)) (\<lambda>kind.
     if kind \<noteq> TNone \<and> kind \<noteq> (if fst ik = 2 then TString else TStream)
     then raise (RedisError ''invalid_audit_key_type'') else ret ())"

definition last_id :: "'db redis \<Rightarrow> string \<Rightarrow> ('db, sid) io" where
  "last_id R key = bindio (TYPE_OF R key) (\<lambda>kind. if kind = TNone then ret (0, 0) else XLAST R key)"

definition check_position :: "'db redis \<Rightarrow> sid \<Rightarrow> string \<Rightarrow> ('db, unit) io" where
  "check_position R main_last key =
     bindio (last_id R key) (\<lambda>i. if main_last < i then raise (RedisError ''invalid_audit_index_position'') else ret ())"

text \<open>How often each key is appended to with a generated identifier.\<close>

definition append_count :: "batch_record list \<Rightarrow> nat \<Rightarrow> nat" where
  "append_count rs k = (if k = 1 then length rs else length (filter (\<lambda>r. map_option fst (br_append r) = Some k) rs))"

definition appended_keys :: "batch_record list \<Rightarrow> nat list" where
  "appended_keys rs = 1 # remdups (concat (map (\<lambda>r. case br_append r of None \<Rightarrow> [] | Some a \<Rightarrow> [fst a]) rs))"

definition check_exhausted :: "'db redis \<Rightarrow> string list \<Rightarrow> batch_record list \<Rightarrow> nat \<Rightarrow> ('db, unit) io" where
  "check_exhausted R keys rs k =
     bindio (last_id R (lua_key keys k)) (\<lambda>i.
     if fst i = max_part \<and> max_part < snd i + append_count rs k
     then raise (RedisError ''audit_stream_id_exhausted'') else ret ())"

definition append_record :: "'db redis \<Rightarrow> string list \<Rightarrow> batch_record \<Rightarrow> ('db, sid) io" where
  "append_record R keys r =
     bindio (XADD R (lua_key keys 1) (pairs_of (br_fields r))) (\<lambda>i.
     seqio (mapio (\<lambda>k. XADD_ID R (lua_key keys k) i (pairs_of (br_fields r))) (br_indexes r))
     (seqio (case br_append r of
          None \<Rightarrow> ret ()
        | Some (k, flds) \<Rightarrow> seqio (XADD R (lua_key keys k) (pairs_of flds)) (ret ()))
     (ret i)))"

text \<open>Behind the validation of the batch: the checks of positions and identifiers, then the writes.\<close>

definition write_records :: "'db redis \<Rightarrow> string list \<Rightarrow> string \<Rightarrow> nat \<Rightarrow> batch_record list \<Rightarrow> ('db, string list) io" where
  "write_records R keys final index_count rs =
     bindio (last_id R (lua_key keys 1)) (\<lambda>main_last.
     seqio (mapio (\<lambda>i. check_position R main_last (lua_key keys i)) [3 ..< index_count + 3])
     (seqio (mapio (check_exhausted R keys rs) (appended_keys rs))
     (bindio (mapio (append_record R keys) rs) (\<lambda>ids.
      seqio (SET R (lua_key keys 2) final) (ret (''ok'' # map sid_text ids))))))"

text \<open>
  \<open>previous\<close> is the head the writer saw (empty if none), \<open>final\<close> the head after the batch. The
  available capacity is printed as an integer.
\<close>

definition append_script :: "(string \<Rightarrow> json option) \<Rightarrow> 'db redis \<Rightarrow> string list \<Rightarrow> string \<Rightarrow> string \<Rightarrow> int \<Rightarrow> string \<Rightarrow> nat \<Rightarrow>
    ('db, string list) io" where
  "append_script cjson R keys previous final capacity records_json index_count =
     seqio (mapio (check_key R) (zip [1 ..< length keys + 1] keys))
     (bindio (GET R (lua_key keys 2)) (\<lambda>head.
      if or_empty head \<noteq> previous then ret [''retry'', or_empty head]
      else bindio (XLEN R (lua_key keys 1)) (\<lambda>length'.
      if 0 < length' \<and> previous = [] then raise (RedisError ''missing_audit_chain_head'')
      else case cjson records_json of
        Some (JList records) \<Rightarrow>
          if records = [] then raise (RedisError ''invalid_audit_batch'')
          else let available = capacity - int length' in
          if available < int (length records) then ret [''capacity'', show_int available]
          else if length keys < index_count + 2 then raise invalid_indexes
          else (case check_records index_count (length keys) records of
              Inl e \<Rightarrow> raise e
            | Inr rs \<Rightarrow> write_records R keys final index_count rs)
      | _ \<Rightarrow> raise (RedisError ''invalid_audit_batch''))))"

section \<open>On any server\<close>

context redis_server
begin

lemma last_id_impl [implements_intros]: "implements view (last_id R k) (last_id ks_redis k)"
  unfolding last_id_def ks_redis_sel by (intro implements_intros)

lemma append_record_impl [implements_intros]:
  "implements view (append_record R keys r) (append_record ks_redis keys r)"
  unfolding append_record_def ks_redis_sel by (intro implements_intros)

lemma append_script_impl [implements_intros]:
  "implements view (append_script D R keys p f c j n) (append_script D ks_redis keys p f c j n)"
  unfolding append_script_def write_records_def check_key_def check_position_def check_exhausted_def Let_def
  by (auto intro!: implements_intros split: json.splits)

end

section \<open>What a batch writes\<close>

definition stream_at :: "string \<Rightarrow> keyspace \<Rightarrow> stream" where
  "stream_at k ks = (case ks_data ks k of Some (RStream st) \<Rightarrow> st | _ \<Rightarrow> empty_stream)"

definition stream_typed :: "string \<Rightarrow> keyspace \<Rightarrow> bool" where
  "stream_typed k ks \<longleftrightarrow> type_of_value (ks_data ks k) \<in> {TNone, TStream}"

abbreviation entries_at :: "string \<Rightarrow> keyspace \<Rightarrow> (sid \<times> (string \<times> string) list) list" where
  "entries_at k ks \<equiv> st_entries (stream_at k ks)"

definition add_entry :: "string \<Rightarrow> sid \<Rightarrow> (string \<times> string) list \<Rightarrow> keyspace \<Rightarrow> keyspace" where
  "add_entry k i flds ks =
     ks_put k (RStream ((stream_at k ks)\<lparr>st_entries := entries_at k ks @ [(i, flds)], st_last := i\<rparr>)) ks"

lemma stream_typed_cases: "stream_typed k ks \<longleftrightarrow> ks_data ks k = None \<or> (\<exists>st. ks_data ks k = Some (RStream st))"
  unfolding stream_typed_def by (cases "ks_data ks k" rule: type_of_value.cases) auto

lemma ks_stream_typed: "stream_typed k ks \<Longrightarrow> ks_stream k ks = Inr (stream_at k ks)"
  by (auto simp: stream_typed_cases ks_stream_def stream_at_def)

lemma add_entry_sel [simp]:
  "ks_now (add_entry k i f ks) = ks_now ks" "now_ms (add_entry k i f ks) = now_ms ks" "ks_ttl (add_entry k i f ks) = ks_ttl ks"
  "ks_acks (add_entry k i f ks) = ks_acks ks"
  "stream_typed j (add_entry k i f ks) \<longleftrightarrow> j = k \<or> stream_typed j ks"
  "entries_at j (add_entry k i f ks) = entries_at j ks @ (if j = k then [(i, f)] else [])"
  "st_last (stream_at j (add_entry k i f ks)) = (if j = k then i else st_last (stream_at j ks))"
  "j \<noteq> k \<Longrightarrow> ks_data (add_entry k i f ks) j = ks_data ks j"
  by (auto simp: add_entry_def stream_typed_def stream_at_def)

lemma xadd_typed:
  "stream_typed k ks \<Longrightarrow> f \<noteq> [] \<Longrightarrow> next_id (now_ms ks) (st_last (stream_at k ks)) = Some i \<Longrightarrow>
   ks_xadd k f ks = (Inr i, add_entry k i f ks)"
  by (simp add: ks_xadd_def ks_stream_typed add_entry_def)

lemma xadd_id_typed:
  "stream_typed k ks \<Longrightarrow> f \<noteq> [] \<Longrightarrow> st_last (stream_at k ks) < i \<Longrightarrow> ks_xadd_id k i f ks = (Inr (), add_entry k i f ks)"
  by (simp add: ks_xadd_id_def ks_stream_typed add_entry_def)

lemma last_id_typed: "stream_typed k ks \<Longrightarrow> last_id ks_redis k ks = (Inr (st_last (stream_at k ks)), ks)"
  by (auto simp: last_id_def io_simps ks_type_def ks_xlast_def stream_typed_cases ks_stream_def stream_at_def empty_stream_def)

lemma last_id_snd [simp]: "snd (last_id ks_redis k ks) = ks"
  by (auto simp: last_id_def io_simps ks_type_def ks_xlast_def split: sum.splits)

text \<open>There is room for \<open>n\<close> generated identifiers after \<open>i\<close>.\<close>

definition room :: "nat \<Rightarrow> sid \<Rightarrow> bool" where
  "room n i \<longleftrightarrow> fst i \<le> max_part \<and> (fst i = max_part \<longrightarrow> snd i + n \<le> max_part)"

definition bounded_id :: "sid \<Rightarrow> bool" where
  "bounded_id i \<longleftrightarrow> fst i \<le> max_part \<and> snd i \<le> max_part"

lemma room_next:
  assumes "room (Suc n) i" and "now \<le> max_part" and "Suc n \<le> max_part"
  shows "\<exists>j. next_id now i = Some j \<and> i < j \<and> room n j \<and> bounded_id j"
  using assms by (cases i) (auto simp: room_def next_id_def less_prod_def bounded_id_def)

lemma mapio_add_entries:
  assumes "distinct (map (lua_key keys) ps)" and "f \<noteq> []"
    and "\<And>p. p \<in> set ps \<Longrightarrow> stream_typed (lua_key keys p) ks \<and> st_last (stream_at (lua_key keys p) ks) < i"
  shows "mapio (\<lambda>p. ks_xadd_id (lua_key keys p) i f) ps ks =
    (Inr (map (\<lambda>p. ()) ps), fold (\<lambda>p. add_entry (lua_key keys p) i f) ps ks)"
  using assms
proof (induction ps arbitrary: ks)
  case (Cons p ps)
  let ?ks = "add_entry (lua_key keys p) i f ks"
  have "lua_key keys p \<notin> lua_key keys ` set ps" using Cons.prems(1) by simp
  then have "lua_key keys q \<noteq> lua_key keys p" if "q \<in> set ps" for q using that by (metis imageI)
  then have "mapio (\<lambda>p. ks_xadd_id (lua_key keys p) i f) ps ?ks =
      (Inr (map (\<lambda>p. ()) ps), fold (\<lambda>p. add_entry (lua_key keys p) i f) ps ?ks)"
    using Cons.prems by (intro Cons.IH) auto
  moreover have "ks_xadd_id (lua_key keys p) i f ks = (Inr (), ?ks)"
    using Cons.prems by (intro xadd_id_typed) auto
  ultimately show ?case by (simp add: io_simps)
qed simp

lemma fold_add_entry:
  assumes "distinct (map (lua_key keys) ps)"
  shows "now_ms (fold (\<lambda>p. add_entry (lua_key keys p) i f) ps ks) = now_ms ks"
    "ks_now (fold (\<lambda>p. add_entry (lua_key keys p) i f) ps ks) = ks_now ks"
    "ks_ttl (fold (\<lambda>p. add_entry (lua_key keys p) i f) ps ks) = ks_ttl ks"
    "stream_typed j (fold (\<lambda>p. add_entry (lua_key keys p) i f) ps ks) \<longleftrightarrow> j \<in> lua_key keys ` set ps \<or> stream_typed j ks"
    "entries_at j (fold (\<lambda>p. add_entry (lua_key keys p) i f) ps ks) =
       entries_at j ks @ (if j \<in> lua_key keys ` set ps then [(i, f)] else [])"
    "st_last (stream_at j (fold (\<lambda>p. add_entry (lua_key keys p) i f) ps ks)) =
       (if j \<in> lua_key keys ` set ps then i else st_last (stream_at j ks))"
    "j \<notin> lua_key keys ` set ps \<Longrightarrow> ks_data (fold (\<lambda>p. add_entry (lua_key keys p) i f) ps ks) j = ks_data ks j"
    "ks_acks (fold (\<lambda>p. add_entry (lua_key keys p) i f) ps ks) = ks_acks ks"
  using assms by (induction ps arbitrary: ks) auto

text \<open>
  The batch can be written: its keys are distinct and hold streams, its positions are in their
  ranges, no index is ahead of the main stream, and every stream has room.
\<close>

definition record_ok :: "nat \<Rightarrow> nat \<Rightarrow> batch_record \<Rightarrow> bool" where
  "record_ok n keys r \<longleftrightarrow> pairs_of (br_fields r) \<noteq> [] \<and> set (br_indexes r) \<subseteq> {3 .. n + 2} \<and> distinct (br_indexes r) \<and>
     (case br_append r of None \<Rightarrow> True | Some (k, f) \<Rightarrow> n + 2 < k \<and> k \<le> keys \<and> pairs_of f \<noteq> [])"

definition ready :: "string list \<Rightarrow> nat \<Rightarrow> batch_record list \<Rightarrow> keyspace \<Rightarrow> bool" where
  "ready keys n rs ks \<longleftrightarrow>
     distinct keys \<and> n + 2 \<le> length keys \<and> list_all (record_ok n (length keys)) rs \<and> length rs \<le> max_part \<and> now_ms ks \<le> max_part \<and>
     (\<forall>k \<in> {1 .. length keys} - {2}. stream_typed (lua_key keys k) ks) \<and>
     (\<forall>k \<in> {3 .. n + 2}. st_last (stream_at (lua_key keys k) ks) \<le> st_last (stream_at (lua_key keys 1) ks)) \<and>
     (\<forall>k \<in> insert 1 {n + 3 .. length keys}. room (append_count rs k) (st_last (stream_at (lua_key keys k) ks)))"

definition index_entries :: "nat \<Rightarrow> batch_record list \<Rightarrow> sid list \<Rightarrow> (sid \<times> (string \<times> string) list) list" where
  "index_entries k rs ids =
     concat (map (\<lambda>(i, r). if k \<in> set (br_indexes r) then [(i, pairs_of (br_fields r))] else []) (zip ids rs))"

definition effects_on :: "nat \<Rightarrow> batch_record list \<Rightarrow> (string \<times> string) list list" where
  "effects_on k rs =
     concat (map (\<lambda>r. case br_append r of Some (k', f) \<Rightarrow> if k' = k then [pairs_of f] else [] | None \<Rightarrow> []) rs)"

definition wrote :: "string list \<Rightarrow> nat \<Rightarrow> batch_record list \<Rightarrow> sid list \<Rightarrow> keyspace \<Rightarrow> keyspace \<Rightarrow> bool" where
  "wrote keys n rs ids ks ks' \<longleftrightarrow>
     length ids = length rs \<and> list_all bounded_id ids \<and>
     sorted_wrt (<) (st_last (stream_at (lua_key keys 1) ks) # ids) \<and>
     st_last (stream_at (lua_key keys 1) ks') = last (st_last (stream_at (lua_key keys 1) ks) # ids) \<and>
     entries_at (lua_key keys 1) ks' = entries_at (lua_key keys 1) ks @ zip ids (map (\<lambda>r. pairs_of (br_fields r)) rs) \<and>
     (\<forall>k \<in> {3 .. n + 2}. entries_at (lua_key keys k) ks' = entries_at (lua_key keys k) ks @ index_entries k rs ids) \<and>
     (\<forall>k \<in> {n + 3 .. length keys}.
        map snd (entries_at (lua_key keys k) ks') = map snd (entries_at (lua_key keys k) ks) @ effects_on k rs) \<and>
     (\<forall>j. j \<notin> lua_key keys ` ({1 .. length keys} - {2}) \<longrightarrow> ks_data ks' j = ks_data ks j) \<and>
     (\<forall>k. st_last (stream_at k ks') = st_last (stream_at k ks) \<or> bounded_id (st_last (stream_at k ks'))) \<and>
     ks_ttl ks' = ks_ttl ks \<and> ks_now ks' = ks_now ks \<and> ks_acks ks' = ks_acks ks"

lemma wrote_Nil: "wrote keys n [] [] ks ks"
  by (simp add: wrote_def index_entries_def effects_on_def)

lemma wrote_Cons:
  assumes "wrote keys n [r] [i] ks mid" and "wrote keys n rs ids mid ks'"
  shows "wrote keys n (r # rs) (i # ids) ks ks'"
proof -
  have "st_last (stream_at k ks') = st_last (stream_at k ks) \<or> bounded_id (st_last (stream_at k ks'))" for k
    using assms unfolding wrote_def by metis
  then show ?thesis using assms by (auto simp: wrote_def index_entries_def effects_on_def intro: less_trans)
qed

lemma lua_key_eq:
  "distinct keys \<Longrightarrow> i \<in> {1 .. length keys} \<Longrightarrow> j \<in> {1 .. length keys} \<Longrightarrow> lua_key keys i = lua_key keys j \<longleftrightarrow> i = j"
  by (auto simp: lua_key_def nth_eq_iff_index_eq)

lemma lua_key_image:
  "distinct keys \<Longrightarrow> i \<in> {1 .. length keys} \<Longrightarrow> P \<subseteq> {1 .. length keys} \<Longrightarrow> lua_key keys i \<in> lua_key keys ` P \<longleftrightarrow> i \<in> P"
  using lua_key_eq by blast

lemma append_count_Cons:
  "append_count (r # rs) k = append_count rs k + (if k = 1 \<or> map_option fst (br_append r) = Some k then 1 else 0)"
  by (auto simp: append_count_def)

lemma room_mono: "room m i \<Longrightarrow> n \<le> m \<Longrightarrow> room n i"
  by (auto simp: room_def)

lemma readyD:
  assumes "ready keys n rs ks"
  shows "distinct keys" "n + 2 \<le> length keys" "list_all (record_ok n (length keys)) rs" "length rs \<le> max_part" "now_ms ks \<le> max_part"
    "\<And>k. k \<in> {1 .. length keys} - {2} \<Longrightarrow> stream_typed (lua_key keys k) ks"
    "\<And>k. k \<in> {3 .. n + 2} \<Longrightarrow> st_last (stream_at (lua_key keys k) ks) \<le> st_last (stream_at (lua_key keys 1) ks)"
    "\<And>k. k \<in> insert 1 {n + 3 .. length keys} \<Longrightarrow> room (append_count rs k) (st_last (stream_at (lua_key keys k) ks))"
  using assms by (auto simp: ready_def)

text \<open>After the main entry and the index entries of a record, and after its append as well.\<close>

definition untouched :: "string list \<Rightarrow> keyspace \<Rightarrow> keyspace \<Rightarrow> bool" where
  "untouched keys ks ks' \<longleftrightarrow>
     (\<forall>q. q \<notin> lua_key keys ` ({1 .. length keys} - {2}) \<longrightarrow> ks_data ks' q = ks_data ks q) \<and>
     ks_ttl ks' = ks_ttl ks \<and> ks_now ks' = ks_now ks \<and> ks_acks ks' = ks_acks ks"

definition indexed_state :: "string list \<Rightarrow> batch_record \<Rightarrow> sid \<Rightarrow> keyspace \<Rightarrow> keyspace \<Rightarrow> bool" where
  "indexed_state keys r i ks ks' \<longleftrightarrow> untouched keys ks ks' \<and>
     (\<forall>p \<in> {1 .. length keys} - {2}. stream_typed (lua_key keys p) ks' \<and>
        entries_at (lua_key keys p) ks' = entries_at (lua_key keys p) ks @
          (if p = 1 \<or> p \<in> set (br_indexes r) then [(i, pairs_of (br_fields r))] else []) \<and>
        st_last (stream_at (lua_key keys p) ks') =
          (if p = 1 \<or> p \<in> set (br_indexes r) then i else st_last (stream_at (lua_key keys p) ks)))"

definition appended_state :: "string list \<Rightarrow> batch_record \<Rightarrow> sid \<Rightarrow> sid \<Rightarrow> keyspace \<Rightarrow> keyspace \<Rightarrow> bool" where
  "appended_state keys r i j ks ks' \<longleftrightarrow> untouched keys ks ks' \<and>
     (\<forall>p \<in> {1 .. length keys} - {2}. stream_typed (lua_key keys p) ks' \<and>
        entries_at (lua_key keys p) ks' = entries_at (lua_key keys p) ks @
          (if p = 1 \<or> p \<in> set (br_indexes r) then [(i, pairs_of (br_fields r))]
           else case br_append r of Some (k, g) \<Rightarrow> if p = k then [(j, pairs_of g)] else [] | None \<Rightarrow> []) \<and>
        st_last (stream_at (lua_key keys p) ks') =
          (if p = 1 \<or> p \<in> set (br_indexes r) then i
           else if map_option fst (br_append r) = Some p then j else st_last (stream_at (lua_key keys p) ks)))"

lemma untouched_now: "untouched keys ks ks' \<Longrightarrow> now_ms ks' = now_ms ks"
  by (simp add: untouched_def now_ms_def)

lemma append_indexed_run:
  assumes ready: "ready keys n (r # rs) ks"
  obtains i ks1 ks2 where "ks_xadd (lua_key keys 1) (pairs_of (br_fields r)) ks = (Inr i, ks1)"
    "mapio (\<lambda>p. ks_xadd_id (lua_key keys p) i (pairs_of (br_fields r))) (br_indexes r) ks1 = (Inr (map (\<lambda>p. ()) (br_indexes r)), ks2)"
    "st_last (stream_at (lua_key keys 1) ks) < i" "room (length rs) i" "bounded_id i"
    "indexed_state keys r i ks ks2"
proof -
  let ?K = "lua_key keys" and ?f = "pairs_of (br_fields r)" and ?ps = "br_indexes r"
  let ?lst = "\<lambda>k ks. st_last (stream_at (lua_key keys k) ks)" and ?P = "{1 .. length keys} - {2}"
  note ready = readyD [OF ready]
  have ps: "set ?ps \<subseteq> {3 .. n + 2}" "distinct ?ps" "?f \<noteq> []" using ready(3) by (auto simp: record_ok_def)
  have psK: "set ?ps \<subseteq> ?P" "1 \<notin> set ?ps" "1 \<in> ?P" using ps(1) ready(2) by auto
  obtain i where i: "next_id (now_ms ks) (?lst 1 ks) = Some i" "?lst 1 ks < i" "room (length rs) i" "bounded_id i"
    using room_next [of "length rs" "?lst 1 ks" "now_ms ks"] ready(4,5) ready(8) [of 1] by (auto simp: append_count_def)
  define ks1 where "ks1 = add_entry (?K 1) i ?f ks"
  have run1: "ks_xadd (?K 1) ?f ks = (Inr i, ks1)"
    unfolding ks1_def by (rule xadd_typed [OF ready(6) [OF psK(3)] ps(3) i(1)])
  have "inj_on ?K (set ?ps)" by (rule inj_onI) (use psK(1) lua_key_eq [OF ready(1)] in blast)
  then have dist: "distinct (map ?K ?ps)" using ps(2) by (simp add: distinct_map)
  have ne1: "?K p \<noteq> ?K 1" if "p \<in> ?P" "p \<noteq> 1" for p using that psK(3) lua_key_eq [OF ready(1), of p 1] by blast
  define ks2 where "ks2 = fold (\<lambda>p. add_entry (?K p) i ?f) ?ps ks1"
  have run2: "mapio (\<lambda>p. ks_xadd_id (?K p) i ?f) ?ps ks1 = (Inr (map (\<lambda>p. ()) ?ps), ks2)"
    unfolding ks2_def
  proof (rule mapio_add_entries [OF dist ps(3)])
    fix p assume p: "p \<in> set ?ps"
    then have q: "p \<in> {3 .. n + 2}" "p \<in> ?P" "p \<noteq> 1" using ps(1) psK by auto
    then have "?lst p ks1 < i" using ready(7) [of p] i(2) ne1 [of p] by (auto simp: ks1_def)
    then show "stream_typed (?K p) ks1 \<and> ?lst p ks1 < i" using ready(6) [OF q(2)] by (simp add: ks1_def)
  qed
  have in_ps: "?K p \<in> ?K ` set ?ps \<longleftrightarrow> p \<in> set ?ps" if "p \<in> ?P" for p
    using lua_key_image [OF ready(1), of p "set ?ps"] psK that by auto
  have "untouched keys ks ks2"
    unfolding untouched_def
  proof (intro conjI allI impI)
    fix q assume "q \<notin> ?K ` ?P"
    then have "q \<notin> ?K ` set ?ps" "q \<noteq> ?K 1" using psK by blast+
    then show "ks_data ks2 q = ks_data ks q" using fold_add_entry(7) [OF dist] unfolding ks2_def by (simp add: ks1_def)
  qed (unfold ks2_def fold_add_entry [OF dist], simp_all add: ks1_def)
  moreover have "stream_typed (?K p) ks2 \<and>
      entries_at (?K p) ks2 = entries_at (?K p) ks @ (if p = 1 \<or> p \<in> set ?ps then [(i, ?f)] else []) \<and>
      ?lst p ks2 = (if p = 1 \<or> p \<in> set ?ps then i else ?lst p ks)" if p: "p \<in> ?P" for p
    using ready(6) [OF p] in_ps [OF p] ne1 [OF p] psK(2) unfolding ks2_def fold_add_entry [OF dist] by (auto simp: ks1_def)
  ultimately show ?thesis using that [OF run1 run2 i(2-)] unfolding indexed_state_def by blast
qed

lemma append_record_run:
  assumes ready: "ready keys n (r # rs) ks"
  obtains i j ks' where "append_record ks_redis keys r ks = (Inr i, ks')"
    "st_last (stream_at (lua_key keys 1) ks) < i" "room (length rs) i" "bounded_id i" "bounded_id j"
    "\<forall>k. map_option fst (br_append r) = Some k \<longrightarrow> room (append_count rs k) j" "appended_state keys r i j ks ks'"
proof -
  let ?K = "lua_key keys" and ?f = "pairs_of (br_fields r)" and ?ps = "br_indexes r"
  let ?lst = "\<lambda>k ks. st_last (stream_at (lua_key keys k) ks)" and ?P = "{1 .. length keys} - {2}"
  obtain i ks1 ks2 where run: "ks_xadd (?K 1) ?f ks = (Inr i, ks1)"
      "mapio (\<lambda>p. ks_xadd_id (?K p) i ?f) ?ps ks1 = (Inr (map (\<lambda>p. ()) ?ps), ks2)"
    and i: "?lst 1 ks < i" "room (length rs) i" "bounded_id i" and two: "indexed_state keys r i ks ks2"
    using append_indexed_run [OF ready] by blast
  note ready = readyD [OF ready]
  show ?thesis
  proof (cases "br_append r")
    case None
    then have "append_record ks_redis keys r ks = (Inr i, ks2)"
      unfolding append_record_def ks_redis_sel by (simp add: io_simps run del: One_nat_def)
    moreover have "appended_state keys r i i ks ks2" using None two by (simp add: appended_state_def indexed_state_def)
    ultimately show ?thesis using None i by (intro that [of i ks2 i]) auto
  next
    case (Some a)
    obtain k g where a: "a = (k, g)" by (cases a)
    have k: "k \<in> {n + 3 .. length keys}" "pairs_of g \<noteq> []" "set ?ps \<subseteq> {3 .. n + 2}"
      using ready(3) Some a by (auto simp: record_ok_def)
    have kin: "k \<in> ?P" "k \<noteq> 1" "k \<notin> set ?ps" using k by auto
    have "room (Suc (append_count rs k)) (?lst k ks)" using ready(8) [of k] k(1) Some a by (auto simp: append_count_Cons)
    moreover have "Suc (append_count rs k) \<le> max_part"
      using ready(4) le_trans [OF Suc_le_mono [THEN iffD2, OF length_filter_le]] kin(2) by (simp add: append_count_def)
    ultimately obtain j where j: "next_id (now_ms ks) (?lst k ks) = Some j" "room (append_count rs k) j" "bounded_id j"
      using room_next ready(5) by blast
    define ks3 where "ks3 = add_entry (?K k) j (pairs_of g) ks2"
    have at_k: "stream_typed (?K k) ks2" "?lst k ks2 = ?lst k ks" "now_ms ks2 = now_ms ks"
      using two kin untouched_now by (auto simp: indexed_state_def)
    have "ks_xadd (?K k) (pairs_of g) ks2 = (Inr j, ks3)"
      unfolding ks3_def using at_k j(1) k(2) by (intro xadd_typed) auto
    then have run3: "append_record ks_redis keys r ks = (Inr i, ks3)"
      unfolding append_record_def ks_redis_sel by (simp add: io_simps run Some a del: One_nat_def)
    have "?K p = ?K k \<longleftrightarrow> p = k" if "p \<in> ?P" for p
      using lua_key_eq [OF ready(1), of p k] kin(1) that by blast
    moreover have "\<forall>q. q \<notin> ?K ` ?P \<longrightarrow> q \<noteq> ?K k" using kin(1) by blast
    ultimately have "appended_state keys r i j ks ks3"
      using two kin Some a unfolding ks3_def appended_state_def indexed_state_def untouched_def by auto
    then show ?thesis using run3 Some a i j by (intro that [of i ks3 j]) auto
  qed
qed

lemma append_record_ready:
  assumes ready: "ready keys n (r # rs) ks"
  obtains i ks' where "append_record ks_redis keys r ks = (Inr i, ks')" "ready keys n rs ks'" "wrote keys n [r] [i] ks ks'"
proof -
  let ?K = "lua_key keys" and ?P = "{1 .. length keys} - {2}"
  obtain i j ks' where run: "append_record ks_redis keys r ks = (Inr i, ks')"
    and i: "st_last (stream_at (?K 1) ks) < i" "room (length rs) i" and b: "bounded_id i" "bounded_id j"
    and j: "\<forall>k. map_option fst (br_append r) = Some k \<longrightarrow> room (append_count rs k) j" and at': "appended_state keys r i j ks ks'"
    by (rule append_record_run [OF ready])
  have at: "stream_typed (?K p) ks'" "entries_at (?K p) ks' = entries_at (?K p) ks @
         (if p = 1 \<or> p \<in> set (br_indexes r) then [(i, pairs_of (br_fields r))]
          else case br_append r of Some (k, g) \<Rightarrow> if p = k then [(j, pairs_of g)] else [] | None \<Rightarrow> [])"
       "st_last (stream_at (?K p) ks') =
         (if p = 1 \<or> p \<in> set (br_indexes r) then i
          else if map_option fst (br_append r) = Some p then j else st_last (stream_at (?K p) ks))" if "p \<in> ?P" for p
    using at' that by (auto simp: appended_state_def)
  have keep: "untouched keys ks ks'" "now_ms ks' = now_ms ks" using at' untouched_now by (auto simp: appended_state_def)
  note ready' = readyD [OF ready]
  have rok: "set (br_indexes r) \<subseteq> {3 .. n + 2}" "\<And>k g. br_append r = Some (k, g) \<Longrightarrow> n + 2 < k \<and> k \<le> length keys"
    using ready'(3) by (auto simp: record_ok_def)
  have "ready keys n rs ks'"
    unfolding ready_def
  proof (intro conjI ballI)
    fix k assume "k \<in> {3 .. n + 2}"
    then show "st_last (stream_at (?K k) ks') \<le> st_last (stream_at (?K 1) ks')"
      using at [of k] at [of 1] ready'(2) ready'(7) [of k] i(1) rok by (cases "br_append r") auto
  next
    fix k assume k: "k \<in> insert 1 {n + 3 .. length keys}"
    then have "k \<notin> set (br_indexes r)" using rok(1) by auto
    then show "room (append_count rs k) (st_last (stream_at (?K k) ks'))"
      using at [of k] k ready'(2) i(2) j ready'(8) [of k] room_mono
      by (cases "k = 1") (auto simp: append_count_Cons append_count_def)
  qed (use ready' keep at in \<open>auto simp: list_all_iff\<close>)
  moreover have bound: "st_last (stream_at k ks') = st_last (stream_at k ks) \<or> bounded_id (st_last (stream_at k ks'))" for k
  proof (cases "k \<in> ?K ` ?P")
    case True
    then obtain p where "p \<in> ?P" "k = ?K p" by blast
    then show ?thesis using at(3) [of p] b by auto
  next
    case False
    then have "ks_data ks' k = ks_data ks k" using keep(1) by (simp add: untouched_def)
    then show ?thesis by (simp add: stream_at_def)
  qed
  then have "wrote keys n [r] [i] ks ks'"
    unfolding wrote_def
  proof (intro conjI ballI)
    fix k assume "k \<in> {3 .. n + 2}"
    then show "entries_at (?K k) ks' = entries_at (?K k) ks @ index_entries k [r] [i]"
      using at [of k] ready'(2) rok by (cases "br_append r") (auto simp: index_entries_def)
  next
    fix k assume "k \<in> {n + 3 .. length keys}"
    then show "map snd (entries_at (?K k) ks') = map snd (entries_at (?K k) ks) @ effects_on k [r]"
      using at [of k] rok by (cases "br_append r") (auto simp: effects_on_def)
  qed (use at [of 1] ready'(2) i keep bound b in \<open>auto simp: untouched_def\<close>)
  ultimately show ?thesis using that run by blast
qed

lemma append_records_run:
  "ready keys n rs ks \<Longrightarrow> \<exists>ids ks'. mapio (append_record ks_redis keys) rs ks = (Inr ids, ks') \<and> wrote keys n rs ids ks ks'"
proof (induction rs arbitrary: ks)
  case Nil
  then show ?case using wrote_Nil by auto
next
  case (Cons r rs)
  obtain i mid where run: "append_record ks_redis keys r ks = (Inr i, mid)" "ready keys n rs mid" "wrote keys n [r] [i] ks mid"
    using append_record_ready [OF Cons.prems] by blast
  then obtain ids ks' where "mapio (append_record ks_redis keys) rs mid = (Inr ids, ks')" "wrote keys n rs ids mid ks'"
    using Cons.IH by blast
  then show ?case using run wrote_Cons by (fastforce simp: io_simps)
qed

section \<open>The script writes all of a batch or nothing\<close>

lemma mapio_reads:
  assumes "\<And>x. x \<in> set xs \<Longrightarrow> snd (f x ks) = ks"
  shows "snd (mapio f xs ks) = ks" "(\<exists>ys. fst (mapio f xs ks) = Inr ys) \<longleftrightarrow> (\<forall>x \<in> set xs. \<exists>y. fst (f x ks) = Inr y)"
  using assms by (induction xs) (auto simp: io_simps split: sum.splits)

lemma check_key_run:
  "snd (check_key ks_redis ik ks) = ks"
  "(\<exists>u. fst (check_key ks_redis ik ks) = Inr u) \<longleftrightarrow>
     type_of_value (ks_data ks (snd ik)) \<in> {TNone, if fst ik = 2 then TString else TStream}"
  by (auto simp: check_key_def io_simps ks_type_def)

lemma numbered_keys:
  "(\<forall>ik \<in> set (zip [1 ..< length keys + 1] keys). P ik) \<longleftrightarrow> (\<forall>i \<in> {1 .. length keys}. P (i, lua_key keys i))"
proof -
  have "zip [1 ..< length keys + 1] keys = map (\<lambda>i. (i, lua_key keys i)) [1 ..< length keys + 1]"
    by (rule nth_equalityI) (auto simp: lua_key_def simp del: upt_Suc)
  then show ?thesis by (auto simp del: upt_Suc)
qed

definition string_at :: "string \<Rightarrow> keyspace \<Rightarrow> string option" where
  "string_at k ks = (case ks_data ks k of Some (RString t) \<Rightarrow> Some t | _ \<Rightarrow> None)"

definition keys_typed :: "string list \<Rightarrow> keyspace \<Rightarrow> bool" where
  "keys_typed keys ks \<longleftrightarrow> type_of_value (ks_data ks (lua_key keys 2)) \<in> {TNone, TString} \<and>
     (\<forall>k \<in> {1 .. length keys} - {2}. stream_typed (lua_key keys k) ks)"

lemma check_keys_run:
  assumes "2 \<le> length keys"
  shows "snd (mapio (check_key ks_redis) (zip [1 ..< length keys + 1] keys) ks) = ks"
    "(\<exists>us. fst (mapio (check_key ks_redis) (zip [1 ..< length keys + 1] keys) ks) = Inr us) \<longleftrightarrow> keys_typed keys ks"
proof -
  show "snd (mapio (check_key ks_redis) (zip [1 ..< length keys + 1] keys) ks) = ks"
    by (rule mapio_reads(1)) (rule check_key_run(1))
  have "(\<exists>us. fst (mapio (check_key ks_redis) (zip [1 ..< length keys + 1] keys) ks) = Inr us) \<longleftrightarrow>
      (\<forall>ik \<in> set (zip [1 ..< length keys + 1] keys). \<exists>u. fst (check_key ks_redis ik ks) = Inr u)"
    by (rule mapio_reads(2)) (rule check_key_run(1))
  also have "\<dots> \<longleftrightarrow> keys_typed keys ks"
    unfolding check_key_run(2) numbered_keys keys_typed_def stream_typed_def using assms by auto
  finally show "(\<exists>us. fst (mapio (check_key ks_redis) (zip [1 ..< length keys + 1] keys) ks) = Inr us) \<longleftrightarrow> keys_typed keys ks" .
qed

lemma get_string: "type_of_value (ks_data ks k) \<in> {TNone, TString} \<Longrightarrow> ks_get k ks = (Inr (string_at k ks), ks)"
  by (cases "ks_data ks k" rule: type_of_value.cases) (auto simp: ks_get_def string_at_def)

lemma xlen_typed: "stream_typed k ks \<Longrightarrow> ks_xlen k ks = (Inr (length (entries_at k ks)), ks)"
  by (simp add: ks_xlen_def ks_stream_typed)

subsection \<open>Batches from Python\<close>

definition fields_fit :: "string list \<Rightarrow> bool" where
  "fields_fit f \<longleftrightarrow> f \<noteq> [] \<and> length f \<le> 2048 \<and> even (length f)"

definition batch_fits :: "nat \<Rightarrow> nat \<Rightarrow> batch_record \<Rightarrow> bool" where
  "batch_fits n keys r \<longleftrightarrow> fields_fit (br_fields r) \<and> set (br_indexes r) \<subseteq> {3 .. n + 2} \<and> distinct (br_indexes r) \<and>
     (case br_append r of None \<Rightarrow> True | Some (k, f) \<Rightarrow> n + 2 < k \<and> k \<le> keys \<and> fields_fit f)"

lemma lua_fields_strings: "fields_fit f \<Longrightarrow> lua_fields (JList (map JStr f)) = Some f"
  by (simp add: lua_fields_def fields_fit_def)

lemma positions_in_ints: "set is \<subseteq> {a .. b} \<Longrightarrow> positions_in (int a) (int b) (map (\<lambda>i. JInt (int i)) is) = Some is"
  by (induction "is") (auto simp: lua_int_def)

lemma pairs_of_fit: "fields_fit f \<Longrightarrow> pairs_of f \<noteq> []"
  by (cases f rule: list.exhaust) (auto simp: fields_fit_def pairs_of_def elim!: evenE)

lemma check_append_json:
  assumes "case a of None \<Rightarrow> True | Some (k, f) \<Rightarrow> n + 2 < k \<and> k \<le> keys \<and> fields_fit f"
  shows "check_append n keys (case a of None \<Rightarrow> JNull | Some (k, f) \<Rightarrow>
     JObj [(''key'', JInt (int k)), (''fields'', JList (map JStr f))]) = Inr a"
  using assms lua_fields_strings by (auto simp: check_append_def lua_get_def lua_int_def split: option.splits)

lemma batch_fits_ok: "batch_fits n keys r \<Longrightarrow> record_ok n keys r \<and> check_record n keys (batch_json r) = Inr r"
  using positions_in_ints [of "br_indexes r" 3 "n + 2"] check_append_json [where a = "br_append r" and n = n and keys = keys] pairs_of_fit
  by (auto simp: batch_fits_def record_ok_def check_record_def batch_json_def lua_get_def lua_items_def lua_fields_strings
      algebra_simps split: option.splits)

lemma check_records_json: "list_all (batch_fits n keys) rs \<Longrightarrow> check_records n keys (map batch_json rs) = Inr rs"
  by (induction rs) (simp_all add: batch_fits_ok)

lemma batch_json_ok: "json_ok N (JList (map batch_json rs))"
  by (auto simp: list_all_iff batch_json_def split: option.splits)

subsection \<open>Outcomes\<close>

text \<open>Identifiers and the clock fit 64 bits.\<close>

definition ids_bounded :: "keyspace \<Rightarrow> bool" where
  "ids_bounded ks \<longleftrightarrow> now_ms ks \<le> max_part \<and>
     (\<forall>k. bounded_id (st_last (stream_at k ks)))"

lemma checks_read [simp]:
  "snd (check_position ks_redis m k ks) = ks" "snd (check_exhausted ks_redis keys rs p ks) = ks"
  by (auto simp: check_position_def check_exhausted_def io_simps split: sum.splits)

lemma append_count_0: "k \<noteq> 1 \<Longrightarrow> k \<notin> set (appended_keys rs) \<Longrightarrow> append_count rs k = 0"
  by (auto simp: append_count_def appended_keys_def filter_empty_conv split: option.splits)

lemma checks_make_ready:
  assumes typed: "keys_typed keys ks" and keys: "distinct keys" "n + 2 \<le> length keys"
    and fits: "list_all (batch_fits n (length keys)) rs" "length rs \<le> max_part" and ids: "ids_bounded ks"
    and pos: "\<exists>u. fst (mapio (\<lambda>i. check_position ks_redis (st_last (stream_at (lua_key keys 1) ks)) (lua_key keys i)) [3 ..< n + 3] ks) = Inr u"
    and exh: "\<exists>u. fst (mapio (check_exhausted ks_redis keys rs) (appended_keys rs) ks) = Inr u"
  shows "ready keys n rs ks"
proof -
  let ?K = "lua_key keys" and ?lst = "\<lambda>k. st_last (stream_at (lua_key keys k) ks)"
  have typed': "stream_typed (?K k) ks" if "k \<in> {1 .. length keys} - {2}" for k
    using typed that by (auto simp: keys_typed_def)
  have at: "last_id ks_redis (?K k) ks = (Inr (?lst k), ks)" if "k \<in> {1 .. length keys} - {2}" for k
    by (rule last_id_typed [OF typed' [OF that]])
  have app: "set (appended_keys rs) \<subseteq> insert 1 {n + 3 .. length keys}"
  proof -
    have "fst a \<in> {n + 3 .. length keys}" if "r \<in> set rs" "br_append r = Some a" for r a
      using fits(1) that by (fastforce simp: list_all_iff batch_fits_def)
    moreover have "k = 1 \<or> (\<exists>r \<in> set rs. \<exists>a. br_append r = Some a \<and> k = fst a)" if "k \<in> set (appended_keys rs)" for k
      using that by (auto simp: appended_keys_def split: option.splits) metis
    ultimately show ?thesis by blast
  qed
  have "?lst k \<le> ?lst 1" if k: "k \<in> {3 .. n + 2}" for k
  proof -
    have in_P: "\<And>k. k \<in> {3 ..< n + 3} \<Longrightarrow> k \<in> {1 .. length keys} - {2}" using keys(2) by auto
    have "\<forall>i \<in> set [3 ..< n + 3]. \<exists>y. fst (check_position ks_redis (?lst 1) (?K i) ks) = Inr y"
      using pos by (subst (asm) mapio_reads(2)) simp_all
    moreover have "k \<in> set [3 ..< n + 3]" using k by auto
    ultimately have "\<exists>y. fst (check_position ks_redis (?lst 1) (?K k) ks) = Inr y" by blast
    then show ?thesis using k at [OF in_P, of k] by (auto simp: check_position_def io_simps split: if_splits)
  qed
  moreover have "room (append_count rs k) (?lst k)" if k: "k \<in> insert 1 {n + 3 .. length keys}" for k
  proof (cases "k \<in> set (appended_keys rs)")
    case True
    have in_P: "\<And>k. k \<in> insert 1 {n + 3 .. length keys} \<Longrightarrow> k \<in> {1 .. length keys} - {2}" using keys(2) by auto
    have "\<forall>i \<in> set (appended_keys rs). \<exists>y. fst (check_exhausted ks_redis keys rs i ks) = Inr y"
      using exh by (subst (asm) mapio_reads(2)) simp_all
    then show ?thesis
      using True at [OF in_P [OF k]] ids by (auto simp: check_exhausted_def io_simps room_def ids_bounded_def bounded_id_def split: if_splits)
  next
    case False
    then have "append_count rs k = 0" by (intro append_count_0) (auto simp: appended_keys_def)
    then show ?thesis using ids by (simp add: room_def ids_bounded_def bounded_id_def)
  qed
  moreover have "list_all (record_ok n (length keys)) rs" using fits(1) batch_fits_ok by (auto simp: list_all_iff)
  ultimately show ?thesis using keys fits(2) ids typed' by (auto simp: ready_def ids_bounded_def)
qed

lemma write_records_cases:
  assumes run: "write_records ks_redis keys final n rs ks = (out, ks')"
    and typed: "keys_typed keys ks" and keys: "distinct keys" "n + 2 \<le> length keys"
    and fits: "list_all (batch_fits n (length keys)) rs" "length rs \<le> max_part" and ids: "ids_bounded ks"
  shows "(\<exists>e. ks' = ks \<and> out = Inl e) \<or> (\<exists>new mid. wrote keys n rs new ks mid \<and>
     ks' = snd (ks_set (lua_key keys 2) final mid) \<and> out = Inr (''ok'' # map sid_text new))"
proof -
  let ?main = "st_last (stream_at (lua_key keys 1) ks)"
  let ?pos = "mapio (\<lambda>i. check_position ks_redis ?main (lua_key keys i)) [3 ..< n + 3]"
  let ?exh = "mapio (check_exhausted ks_redis keys rs) (appended_keys rs)"
  have "stream_typed (lua_key keys 1) ks" using typed keys(2) by (auto simp: keys_typed_def)
  then have main: "last_id ks_redis (lua_key keys 1) ks = (Inr ?main, ks)" by (rule last_id_typed)
  have pos: "snd (?pos ks) = ks" by (rule mapio_reads(1)) simp
  have exh: "snd (?exh ks) = ks" by (rule mapio_reads(1)) simp
  note start = main pos exh
  show ?thesis
  proof (cases "(\<exists>u. fst (?pos ks) = Inr u) \<and> (\<exists>u. fst (?exh ks) = Inr u)")
    case False
    then obtain e where "fst (?pos ks) = Inl e \<or> (\<exists>u. fst (?pos ks) = Inr u) \<and> fst (?exh ks) = Inl e"
      by (metis sum.exhaust)
    then show ?thesis
      using run unfolding write_records_def by (auto simp: io_simps start simp del: One_nat_def ks_redis_sel upt_Suc)
  next
    case True
    then obtain new mid where new: "mapio (append_record ks_redis keys) rs ks = (Inr new, mid)" "wrote keys n rs new ks mid"
      using append_records_run [OF checks_make_ready [OF typed keys fits ids]] by blast
    have "ks' = snd (ks_set (lua_key keys 2) final mid) \<and> out = Inr (''ok'' # map sid_text new)"
      using True run new(1) unfolding write_records_def
      by (auto simp: io_simps start ks_set_def simp del: One_nat_def upt_Suc)
    then show ?thesis using new(2) by blast
  qed
qed

lemma append_script_cases:
  assumes run: "append_script D ks_redis keys prev final cap j n ks = (out, ks')"
    and keys: "distinct keys" "n + 2 \<le> length keys" and j: "D j = Some (JList (map batch_json rs))"
    and fits: "list_all (batch_fits n (length keys)) rs" "length rs \<le> max_part" and ids: "ids_bounded ks"
  obtains (refused) e where "ks' = ks" "out = Inl e"
    | (stale) "ks' = ks" "out = Inr [''retry'', or_empty (string_at (lua_key keys 2) ks)]"
        "or_empty (string_at (lua_key keys 2) ks) \<noteq> prev"
    | (full) "ks' = ks" "out = Inr [''capacity'', show_int (cap - int (length (entries_at (lua_key keys 1) ks)))]"
        "cap - int (length (entries_at (lua_key keys 1) ks)) < int (length rs)" "or_empty (string_at (lua_key keys 2) ks) = prev"
    | (ok) new mid where "wrote keys n rs new ks mid" "ks' = snd (ks_set (lua_key keys 2) final mid)" "out = Inr (''ok'' # map sid_text new)"
        "or_empty (string_at (lua_key keys 2) ks) = prev" "entries_at (lua_key keys 1) ks \<noteq> [] \<Longrightarrow> prev \<noteq> []"
        "int (length (entries_at (lua_key keys 1) ks)) + int (length rs) \<le> cap" "rs \<noteq> []"
proof -
  let ?K = "lua_key keys"
  have two: "2 \<le> length keys" using keys(2) by simp
  note types = check_keys_run [OF two, of ks]
  show ?thesis
  proof (cases "keys_typed keys ks")
    case False
    then obtain e where "fst (mapio (check_key ks_redis) (zip [1 ..< length keys + 1] keys) ks) = Inl e"
      using types(2) by (metis sum.exhaust)
    then show ?thesis using run types(1) refused unfolding append_script_def by (auto simp: io_simps simp del: upt_Suc)
  next
    case True
    then obtain us where us: "fst (mapio (check_key ks_redis) (zip [1 ..< length keys + 1] keys) ks) = Inr us"
      using types(2) by blast
    have t: "type_of_value (ks_data ks (?K 2)) \<in> {TNone, TString}" "stream_typed (?K 1) ks"
      using True two by (auto simp: keys_typed_def)
    have head: "GET ks_redis (?K 2) ks = (Inr (string_at (?K 2) ks), ks)" "XLEN ks_redis (?K 1) ks = (Inr (length (entries_at (?K 1) ks)), ks)"
      using get_string [OF t(1)] xlen_typed [OF t(2)] by simp_all
    note start = types(1) us head j check_records_json [OF fits(1)]
    let ?hd = "or_empty (string_at (?K 2) ks)" and ?len = "length (entries_at (?K 1) ks)"
    have script: "append_script D ks_redis keys prev final cap j n ks =
      (if ?hd \<noteq> prev then (Inr [''retry'', ?hd], ks)
       else if 0 < ?len \<and> prev = [] then (Inl (RedisError ''missing_audit_chain_head''), ks)
       else if rs = [] then (Inl (RedisError ''invalid_audit_batch''), ks)
       else if cap - int ?len < int (length rs) then (Inr [''capacity'', show_int (cap - int ?len)], ks)
       else write_records ks_redis keys final n rs ks)"
      unfolding append_script_def using keys(2)
      by (simp add: io_simps start Let_def del: One_nat_def ks_redis_sel upt_Suc)
    consider "?hd \<noteq> prev" | "?hd = prev" "0 < ?len \<and> prev = [] \<or> rs = []"
      | "?hd = prev" "\<not> (0 < ?len \<and> prev = [] \<or> rs = [])" "cap - int ?len < int (length rs)"
      | "?hd = prev" "\<not> (0 < ?len \<and> prev = [] \<or> rs = [])" "\<not> cap - int ?len < int (length rs)" by blast
    then show ?thesis
    proof cases
      case 1
      then show ?thesis using run stale unfolding script by auto
    next
      case 2
      then show ?thesis using run refused unfolding script by (auto split: if_splits)
    next
      case 3
      then show ?thesis using run full unfolding script by (auto split: if_splits)
    next
      case 4
      then have "write_records ks_redis keys final n rs ks = (out, ks')" using run unfolding script by auto
      then show ?thesis
        using write_records_cases [OF _ True keys fits ids] refused ok 4 by (metis length_greater_0_conv linorder_not_le diff_less_eq add.commute)
    qed
  qed
qed

end
