(* ===== verification/Audit_Archive.thy ===== *)
theory Audit_Archive
  imports Audit_Script
begin

text \<open>
  \<open>packages/mas-gateway/src/mas_gateway/audit_archive.py\<close>, the script and the method of
  \<open>audit.py\<close> that move the oldest records of a stream into it: content-addressed segments in
  a directory shared by the writers, and the checkpoint that anchors the live stream. The
  directory is a map from file names to contents; a fault of the disk is an argument. The
  JSON of segments and checkpoints is pydantic's and a parameter.
\<close>

section \<open>Data\<close>

record retention_settings =
  max_messages :: int
  max_security_events :: int
  batch_size :: int
  archive_directory :: "string option"

definition retention_post_init :: "retention_settings \<Rightarrow> err + unit" where
  "retention_post_init s =
     (if max_messages s \<le> 0 \<or> max_security_events s \<le> 0 \<or> batch_size s \<le> 0
      then Inl (ValueError ''Audit capacities and batch_size must be positive'')
      else if 10000 < batch_size s then Inl (ValueError ''Audit archive batch_size must not exceed 10000'')
      else case archive_directory s of
        None \<Rightarrow> Inr ()
      | Some d \<Rightarrow> if list_all (\<lambda>c. c \<in> set [CHR '' '', CHR 0x09, CHR 0x0A, CHR 0x0B, CHR 0x0C, CHR 0x0D, CHR 0x1C, CHR 0x1D,
            CHR 0x1E, CHR 0x1F, CHR 0x85, CHR 0xA0]) d
          then Inl (ValueError ''Audit archive_directory must not be empty'') else Inr ())"

record checkpoint =
  cp_stream :: audit_stream
  cp_last_stream_id :: sid
  cp_last_hash :: string
  cp_segment_digest :: string
  cp_total_entries :: int

type_synonym archived_row = "sid \<times> (string \<times> string) list"

record segment =
  seg_stream :: audit_stream
  seg_previous :: "checkpoint option"
  seg_rows :: "archived_row list"
  seg_last_hash :: string

text \<open>The constraints of the pydantic models; the fields of a row are a dictionary.\<close>

definition checkpoint_ok :: "checkpoint \<Rightarrow> bool" where
  "checkpoint_ok c \<longleftrightarrow> is_hex64 (cp_last_hash c) \<and> is_hex64 (cp_segment_digest c) \<and> 0 < cp_total_entries c"

definition segment_ok :: "segment \<Rightarrow> bool" where
  "segment_ok s \<longleftrightarrow> seg_rows s \<noteq> [] \<and> length (seg_rows s) \<le> 10000 \<and> is_hex64 (seg_last_hash s) \<and>
     list_all (\<lambda>r. distinct (map fst (snd r))) (seg_rows s) \<and>
     (case seg_previous s of None \<Rightarrow> True | Some c \<Rightarrow> checkpoint_ok c)"

record archive_codec =
  dump_segment :: "segment \<Rightarrow> string"
  load_segment :: "string \<Rightarrow> segment option"
  dump_checkpoint :: "checkpoint \<Rightarrow> string"
  load_checkpoint :: "string \<Rightarrow> checkpoint option"

locale archive_json =
  fixes C :: archive_codec
  assumes segment_roundtrip: "segment_ok s \<Longrightarrow> load_segment C (dump_segment C s) = Some s"
    and checkpoint_roundtrip: "checkpoint_ok c \<Longrightarrow> load_checkpoint C (dump_checkpoint C c) = Some c"
    and load_segment_ok: "load_segment C t = Some s \<Longrightarrow> segment_ok s"
    and load_checkpoint_ok: "load_checkpoint C t = Some c \<Longrightarrow> checkpoint_ok c"
    and load_checkpoint_empty: "load_checkpoint C [] = None"

section \<open>The directory of segments\<close>

type_synonym archive_files = "string \<rightharpoonup> string"

text \<open>A disk that works, fails before the segment is linked, or fails after it.\<close>

datatype disk = Healthy | FailsBefore | FailsAfter

definition max_segment_bytes :: nat where
  "max_segment_bytes = 64 * 1024 * 1024"

definition segment_file :: "string \<Rightarrow> string" where
  "segment_file digest = digest @ ''.json''"

definition segment_too_large :: err where
  "segment_too_large = AuditArchiveError ''audit_archive_segment_too_large''"

definition archive_write_failed :: err where
  "archive_write_failed = AuditArchiveError ''audit_archive_write_failed''"

definition archive_read_failed :: err where
  "archive_read_failed = AuditArchiveError ''audit_archive_read_failed''"

text \<open>\<open>_read\<close>: a missing file is an \<open>OSError\<close>, which both callers turn into their own error.\<close>

definition read_file :: "archive_files \<Rightarrow> string \<Rightarrow> err \<Rightarrow> err + string" where
  "read_file files digest os_error =
     (case files (segment_file digest) of
        None \<Rightarrow> Inl os_error
      | Some body \<Rightarrow> if max_segment_bytes < length body then Inl segment_too_large else Inr body)"

definition write_file :: "disk \<Rightarrow> string \<Rightarrow> string \<Rightarrow> (archive_files, unit) io" where
  "write_file disk digest body files =
     (if disk = FailsBefore then (Inl archive_write_failed, files)
      else case files (segment_file digest) of
        None \<Rightarrow> (if disk = FailsAfter then Inl archive_write_failed else Inr (), files(segment_file digest \<mapsto> body))
      | Some _ \<Rightarrow>
          (case read_file files digest archive_write_failed of
             Inl e \<Rightarrow> (Inl e, files)
           | Inr old \<Rightarrow>
               if old \<noteq> body then (Inl (AuditArchiveError ''audit_archive_digest_conflict''), files)
               else (if disk = FailsAfter then Inl archive_write_failed else Inr (), files)))"

definition archive_write :: "archive_codec \<Rightarrow> (string \<Rightarrow> string) \<Rightarrow> disk \<Rightarrow> segment \<Rightarrow> (archive_files, string) io" where
  "archive_write C sha disk seg =
     (let body = dump_segment C seg; digest = sha body in
      if max_segment_bytes < length body then raise segment_too_large
      else seqio (write_file disk digest body) (ret digest))"

definition archive_read :: "archive_codec \<Rightarrow> (string \<Rightarrow> string) \<Rightarrow> archive_files \<Rightarrow> string \<Rightarrow> err + segment" where
  "archive_read C sha files digest =
     (if \<not> is_hex64 digest then Inl (AuditArchiveError ''invalid_audit_archive_digest'')
      else case read_file files digest archive_read_failed of
        Inl e \<Rightarrow> Inl e
      | Inr body \<Rightarrow>
          if sha body \<noteq> digest then Inl (AuditArchiveError ''audit_archive_digest_mismatch'')
          else case load_segment C body of None \<Rightarrow> Inl archive_read_failed | Some s \<Rightarrow> Inr s)"

section \<open>Moving a prefix\<close>

definition checkpoint_key :: "audit_stream \<Rightarrow> string" where
  "checkpoint_key s = stream_key s @ '':checkpoint''"

definition row_json :: "archived_row \<Rightarrow> json" where
  "row_json r = JObj [(''stream_id'', JStr (sid_text (fst r))), (''fields'', JObj (map (\<lambda>kv. (fst kv, JStr (snd kv))) (snd r)))]"

text \<open>The fields of a live row are those of the expected one.\<close>

definition same_row :: "sid \<times> (string \<times> string) list \<Rightarrow> json \<Rightarrow> bool" where
  "same_row row v \<longleftrightarrow>
     lua_get v ''stream_id'' = JStr (sid_text (fst row)) \<and>
     (case lua_get v ''fields'' of
        JObj kvs \<Rightarrow> length (snd row) = length kvs \<and> list_all (\<lambda>kv. map_of kvs (fst kv) = Some (JStr (snd kv))) (snd row)
      | _ \<Rightarrow> False)"

definition trim_index :: "'db redis \<Rightarrow> sid \<Rightarrow> string \<Rightarrow> ('db, unit) io" where
  "trim_index R first_kept key =
     seqio (XTRIM_MINID R key first_kept) (bindio (XLEN R key) (\<lambda>n. if n = 0 then DEL R [key] else ret ()))"

definition archive_script :: "(string \<Rightarrow> json option) \<Rightarrow> 'db redis \<Rightarrow> string list \<Rightarrow> string \<Rightarrow> sid \<Rightarrow> sid \<Rightarrow> string \<Rightarrow> string \<Rightarrow> ('db, bool) io" where
  "archive_script cjson R keys old last_moved first_kept rows_json new =
     seqio (mapio (check_key R) (zip [1 ..< length keys + 1] keys))
     (bindio (GET R (lua_key keys 2)) (\<lambda>current_checkpoint.
      if or_empty current_checkpoint \<noteq> old then ret False
      else case cjson rows_json of
        Some (JList expected) \<Rightarrow>
          bindio (XRANGE R (lua_key keys 1) FromFirst (Some last_moved) (int (length expected) + 1)) (\<lambda>current.
          if \<not> list_all2 same_row current expected then ret False
          else
            seqio (SET R (lua_key keys 2) new)
            (seqio (XTRIM_MINID R (lua_key keys 1) first_kept)
            (seqio (mapio (\<lambda>i. trim_index R first_kept (lua_key keys i)) [3 ..< length keys + 1]) (ret True))))
      | _ \<Rightarrow> raise (RedisError ''invalid_audit_rows'')))"

definition successor_id :: "sid \<Rightarrow> err + sid" where
  "successor_id i =
     (if snd i < max_part then Inr (fst i, snd i + 1)
      else if fst i < max_part then Inr (fst i + 1, 0)
      else Inl (AuditArchiveError ''audit_stream_identity_exhausted''))"

definition record_indexes :: "chain_record \<Rightarrow> string list" where
  "record_indexes e = (case e of
      MessageRecord m \<Rightarrow> [''audit:by_sender:'' @ ae_sender_id m, ''audit:by_target:'' @ ae_target_id m]
    | EventRecord _ \<Rightarrow> [])"

text \<open>The chain of the rows from the expected hash on: the hash after them and the indexes they are in.\<close>

fun walk_rows :: "text_numbers \<Rightarrow> (string \<Rightarrow> string) \<Rightarrow> audit_stream \<Rightarrow> string option \<Rightarrow> archived_row list \<Rightarrow>
    err + string option \<times> string list" where
  "walk_rows N sha s expected [] = Inr (expected, [])"
| "walk_rows N sha s expected (row # rows) =
     (case chain_entry N s (snd row) of
        Inl e \<Rightarrow> Inl e
      | Inr entry \<Rightarrow>
          if record_version entry \<noteq> 2 \<or> record_previous entry \<noteq> expected
          then Inl (AuditArchiveError ''audit_archive_chain_invalid'')
          else (case walk_rows N sha s (Some (hash_entry N sha entry)) rows of
              Inl e \<Rightarrow> Inl e
            | Inr (final, indexes) \<Rightarrow> Inr (final, record_indexes entry @ indexes)))"

record 'db audit_world =
  aw_db :: 'db
  aw_files :: archive_files
  aw_heads :: "audit_stream \<Rightarrow> string option"

definition on_db :: "('db, 'a) io \<Rightarrow> ('db audit_world, 'a) io" where
  "on_db m w = (case m (aw_db w) of (r, db) \<Rightarrow> (r, w\<lparr>aw_db := db\<rparr>))"

definition on_files :: "(archive_files, 'a) io \<Rightarrow> ('db audit_world, 'a) io" where
  "on_files m w = (case m (aw_files w) of (r, files) \<Rightarrow> (r, w\<lparr>aw_files := files\<rparr>))"

text \<open>The fields of a stream entry as the dictionary of the client library.\<close>

definition dict_rows :: "(sid \<times> (string \<times> string) list) list \<Rightarrow> archived_row list" where
  "dict_rows rows = map (\<lambda>r. (fst r, dict_of (snd r))) rows"

definition optional_checkpoint :: "archive_codec \<Rightarrow> string option \<Rightarrow> err + checkpoint option" where
  "optional_checkpoint C t =
     (case t of
        None \<Rightarrow> Inr None
      | Some x \<Rightarrow> (case load_checkpoint C x of None \<Rightarrow> Inl ValidationError | Some c \<Rightarrow> Inr (Some c)))"

text \<open>\<open>others\<close> is what other writers do while the segment is written to disk.\<close>

definition archive_prefix :: "archive_codec \<Rightarrow> text_numbers \<Rightarrow> (string \<Rightarrow> json option) \<Rightarrow> (string \<Rightarrow> string) \<Rightarrow> 'db redis \<Rightarrow>
    retention_settings \<Rightarrow> durability_settings \<Rightarrow> disk \<Rightarrow> ('db audit_world \<Rightarrow> 'db audit_world) \<Rightarrow> audit_stream \<Rightarrow> ('db audit_world, unit) io" where
  "archive_prefix C N cjson sha R settings durability disk others s =
     bindio (on_db (GET R (checkpoint_key s))) (\<lambda>old.
     bindio (on_db (XRANGE R (stream_key s) FromFirst None (batch_size settings))) (\<lambda>raw_rows.
     bindio (of_result (optional_checkpoint C old)) (\<lambda>previous.
     let rows = dict_rows raw_rows in
     if rows = [] then ret ()
     else bindio (of_result (walk_rows N sha s (map_option cp_last_hash previous) rows)) (\<lambda>(expected, indexes).
     let last_moved = fst (last rows);
         seg = \<lparr>seg_stream = s, seg_previous = previous, seg_rows = rows, seg_last_hash = or_empty expected\<rparr> in
     if \<not> segment_ok seg then raise ValidationError
     else bindio (on_files (archive_write C sha disk seg)) (\<lambda>digest.
     bindio (of_result (successor_id last_moved)) (\<lambda>first_kept.
     let new = \<lparr>cp_stream = s, cp_last_stream_id = last_moved, cp_last_hash = or_empty expected, cp_segment_digest = digest,
           cp_total_entries = (case previous of None \<Rightarrow> 0 | Some c \<Rightarrow> cp_total_entries c) + int (length rows)\<rparr> in
     if \<not> checkpoint_ok new then raise ValidationError
     else seqio (\<lambda>w. (Inr (), others w))
     (bindio (on_db (archive_script cjson R ([stream_key s, checkpoint_key s] @ sort (remdups indexes)) (or_empty old)
         last_moved first_kept (json_dumps N (JList (map row_json rows))) (dump_checkpoint C new))) (\<lambda>committed.
      if committed then on_db (confirm R durability) else ret ()))))))))"

section \<open>What the script moves\<close>

text \<open>Identifiers ascend up to the last one of the stream; no entry has a field twice.\<close>

definition stream_wf :: "stream \<Rightarrow> bool" where
  "stream_wf st \<longleftrightarrow> sorted_wrt (<) (map fst (st_entries st)) \<and>
     list_all (\<lambda>x. fst x \<le> st_last st \<and> bounded_id (fst x) \<and> distinct (map fst (snd x))) (st_entries st)"

lemma trim_index_run:
  assumes "stream_typed k ks"
  obtains ks' where "trim_index ks_redis i k ks = (Inr (), ks')" "\<And>j. j \<noteq> k \<Longrightarrow> ks_data ks' j = ks_data ks j \<and> ks_ttl ks' j = ks_ttl ks j"
    "ks_now ks' = ks_now ks" "st_last (stream_at k ks') \<in> {st_last (stream_at k ks), (0, 0)}"
proof -
  show ?thesis
  proof (cases "ks_data ks k")
    case None
    then show ?thesis
      by (intro that [of "ks_remove k ks"])
         (auto simp: trim_index_def io_simps ks_xtrim_minid_def ks_xlen_def ks_stream_def ks_del_def empty_stream_def stream_at_def)
  next
    case (Some v)
    then obtain st where st: "ks_data ks k = Some (RStream st)" using assms by (auto simp: stream_typed_cases)
    let ?st = "st\<lparr>st_entries := filter (\<lambda>x. i \<le> fst x) (st_entries st)\<rparr>"
    let ?ks = "ks_put k (RStream ?st) ks"
    let ?ks' = "if st_entries ?st = [] then ks_remove k ?ks else ?ks"
    have "trim_index ks_redis i k ks = (Inr (), ?ks')"
      using st by (auto simp: trim_index_def io_simps ks_xtrim_minid_def ks_xlen_def ks_stream_def ks_del_def)
    then show ?thesis by (rule that) (use st in \<open>auto simp: stream_at_def empty_stream_def\<close>)
  qed
qed

lemma trim_indexes_run:
  assumes "distinct ps" and "\<And>p. p \<in> set ps \<Longrightarrow> stream_typed (lua_key keys p) ks" and "inj_on (lua_key keys) (set ps)"
  shows "\<exists>us ks'. mapio (\<lambda>p. trim_index ks_redis i (lua_key keys p)) ps ks = (Inr us, ks') \<and> ks_now ks' = ks_now ks \<and>
    (\<forall>j. j \<notin> lua_key keys ` set ps \<longrightarrow> ks_data ks' j = ks_data ks j \<and> ks_ttl ks' j = ks_ttl ks j) \<and>
    (\<forall>j. st_last (stream_at j ks') \<in> {st_last (stream_at j ks), (0, 0)})"
  using assms
proof (induction ps arbitrary: ks)
  case (Cons p ps)
  have "stream_typed (lua_key keys p) ks" using Cons.prems(2) by simp
  then obtain mid where mid: "trim_index ks_redis i (lua_key keys p) ks = (Inr (), mid)"
      "\<And>j. j \<noteq> lua_key keys p \<Longrightarrow> ks_data mid j = ks_data ks j \<and> ks_ttl mid j = ks_ttl ks j" "ks_now mid = ks_now ks"
      "st_last (stream_at (lua_key keys p) mid) \<in> {st_last (stream_at (lua_key keys p) ks), (0, 0)}"
    using trim_index_run by blast
  have other: "lua_key keys q \<noteq> lua_key keys p" if "q \<in> set ps" for q
    using Cons.prems(1,3) that by (auto simp: inj_on_def)
  have "stream_typed (lua_key keys q) mid" if "q \<in> set ps" for q
    using Cons.prems(2) [of q] mid(2) [OF other [OF that]] that by (simp add: stream_typed_def)
  then obtain us ks' where rest: "mapio (\<lambda>p. trim_index ks_redis i (lua_key keys p)) ps mid = (Inr us, ks')" "ks_now ks' = ks_now mid"
      "\<forall>j. j \<notin> lua_key keys ` set ps \<longrightarrow> ks_data ks' j = ks_data mid j \<and> ks_ttl ks' j = ks_ttl mid j"
      "\<forall>j. st_last (stream_at j ks') \<in> {st_last (stream_at j mid), (0, 0)}"
    using Cons.IH [of mid] Cons.prems(1,3) by (auto simp: inj_on_def)
  have "st_last (stream_at j ks') \<in> {st_last (stream_at j ks), (0, 0)}" for j
  proof (cases "j = lua_key keys p")
    case False
    then have "stream_at j mid = stream_at j ks" using mid(2) by (simp add: stream_at_def)
    then show ?thesis using rest(4) by metis
  next
    case True
    then show ?thesis using mid(4) rest(4) [THEN spec, of j] by auto
  qed
  then show ?case using mid rest by (auto simp: io_simps)
qed auto

lemma xtrim_typed:
  assumes "stream_typed k ks"
  obtains ks' where "ks_xtrim_minid k i ks = (Inr (), ks')" "entries_at k ks' = filter (\<lambda>x. i \<le> fst x) (entries_at k ks)"
    "st_last (stream_at k ks') = st_last (stream_at k ks)" "\<And>j. j \<noteq> k \<Longrightarrow> ks_data ks' j = ks_data ks j"
    "ks_ttl ks' = ks_ttl ks" "ks_now ks' = ks_now ks" "stream_typed k ks'"
  using assms
  by (cases "ks_data ks k")
     (auto simp: ks_xtrim_minid_def ks_stream_def stream_typed_cases stream_at_def empty_stream_def)

text \<open>After a move: the new checkpoint, the rest of the main stream, trimmed indexes.\<close>

definition moved_state :: "string list \<Rightarrow> sid \<Rightarrow> string \<Rightarrow> keyspace \<Rightarrow> keyspace \<Rightarrow> bool" where
  "moved_state keys first_kept new ks ks' \<longleftrightarrow>
     entries_at (lua_key keys 1) ks' = filter (\<lambda>x. first_kept \<le> fst x) (entries_at (lua_key keys 1) ks) \<and>
     st_last (stream_at (lua_key keys 1) ks') = st_last (stream_at (lua_key keys 1) ks) \<and>
     ks_data ks' (lua_key keys 2) = Some (RString new) \<and> ks_ttl ks' (lua_key keys 2) = None \<and> 
     ks_ttl ks' (lua_key keys 1) = ks_ttl ks (lua_key keys 1) \<and>
     (\<forall>j. j \<notin> set keys \<longrightarrow> ks_data ks' j = ks_data ks j \<and> ks_ttl ks' j = ks_ttl ks j) \<and>
     (\<forall>j. st_last (stream_at j ks') \<in> {st_last (stream_at j ks), (0, 0)}) \<and> ks_now ks' = ks_now ks"

lemma move_run:
  assumes typed: "keys_typed keys ks" and keys: "distinct keys" "2 \<le> length keys"
  shows "\<exists>ks'. seqio (ks_set (lua_key keys 2) new) (seqio (ks_xtrim_minid (lua_key keys 1) first_kept)
      (seqio (mapio (\<lambda>i. trim_index ks_redis first_kept (lua_key keys i)) [3 ..< length keys + 1]) (ret True))) ks = (Inr True, ks') \<and>
    moved_state keys first_kept new ks ks'"
proof -
  let ?K = "lua_key keys" and ?ps = "[3 ..< length keys + 1]"
  have one: "?K 1 \<noteq> ?K 2" using keys lua_key_eq [OF keys(1), of 1 2] by auto
  have ps: "p \<in> {1 .. length keys} - {2}" "?K p \<noteq> ?K 1" "?K p \<noteq> ?K 2" if "p \<in> set ?ps" for p
    using that keys lua_key_eq [OF keys(1), of p 1] lua_key_eq [OF keys(1), of p 2] by auto
  define ks1 where "ks1 = snd (ks_set (?K 2) new ks)"
  have ks1: "ks_data ks1 k = (if k = ?K 2 then Some (RString new) else ks_data ks k)" "ks_ttl ks1 k = (if k = ?K 2 then None else ks_ttl ks k)"
      "ks_now ks1 = ks_now ks" for k by (auto simp: ks1_def ks_set_def)
  have at1: "stream_at k ks1 = (if k = ?K 2 then empty_stream else stream_at k ks)" for k by (simp add: stream_at_def ks1)
  have "stream_typed (?K 1) ks1" using typed keys one by (auto simp: keys_typed_def stream_typed_def ks1)
  then obtain ks2 where ks2: "ks_xtrim_minid (?K 1) first_kept ks1 = (Inr (), ks2)"
      "entries_at (?K 1) ks2 = filter (\<lambda>x. first_kept \<le> fst x) (entries_at (?K 1) ks1)" "st_last (stream_at (?K 1) ks2) = st_last (stream_at (?K 1) ks1)"
      "\<And>j. j \<noteq> ?K 1 \<Longrightarrow> ks_data ks2 j = ks_data ks1 j" "ks_ttl ks2 = ks_ttl ks1" "ks_now ks2 = ks_now ks1"
    using xtrim_typed [of "?K 1" ks1 first_kept] by metis
  have "inj_on ?K (set ?ps)" by (rule inj_onI) (use ps(1) lua_key_eq [OF keys(1)] in blast)
  moreover have "stream_typed (?K p) ks2" if "p \<in> set ?ps" for p
    using typed ps [OF that] ks2(4) [of "?K p"] by (simp add: keys_typed_def stream_typed_def ks1)
  ultimately obtain us ks' where ks': "mapio (\<lambda>p. trim_index ks_redis first_kept (?K p)) ?ps ks2 = (Inr us, ks')" "ks_now ks' = ks_now ks2"
      "\<And>j. j \<notin> ?K ` set ?ps \<Longrightarrow> ks_data ks' j = ks_data ks2 j \<and> ks_ttl ks' j = ks_ttl ks2 j"
      "\<And>j. st_last (stream_at j ks') \<in> {st_last (stream_at j ks2), (0, 0)}"
    using trim_indexes_run [OF distinct_upt, of 3 "length keys + 1" keys ks2 first_kept] by metis
  have away: "?K 1 \<notin> ?K ` set ?ps" "?K 2 \<notin> ?K ` set ?ps" using ps by fastforce+
  have "stream_at (?K 1) ks' = stream_at (?K 1) ks2" using ks'(3) [OF away(1)] by (simp add: stream_at_def)
  moreover have in_keys: "?K p \<in> set keys" if "p \<in> {1 .. length keys}" for p using that by (auto simp: lua_key_def)
  have "j \<notin> ?K ` set ?ps" "j \<noteq> ?K 1" "j \<noteq> ?K 2" if "j \<notin> set keys" for j
    using that keys(2) ps(1) in_keys in_keys [of 1] in_keys [of 2] by auto
  moreover have "st_last (stream_at j ks') \<in> {st_last (stream_at j ks), (0, 0)}" for j
  proof -
    have "st_last (stream_at j ks2) \<in> {st_last (stream_at j ks), (0, 0)}"
    proof (cases "j = ?K 1")
      case False
      then show ?thesis using ks2(4) [OF False] at1 [of j] by (auto simp: stream_at_def empty_stream_def split: if_splits)
    qed (use ks2(3) at1 one in auto)
    then show ?thesis using ks'(4) [of j] by auto
  qed
  ultimately have "moved_state keys first_kept new ks ks'"
    unfolding moved_state_def using ks'(2) ks'(3) [OF away(1)] ks'(3) [OF away(2)] ks'(3) ks2 ks1 at1 one by auto
  moreover have "ks_set (?K 2) new ks = (Inr (), ks1)" by (simp add: ks1_def ks_set_def)
  ultimately show ?thesis using ks2(1) ks'(1) by (auto simp: io_simps simp del: upt_Suc One_nat_def)
qed

lemma archive_script_cases:
  assumes run: "archive_script cjson ks_redis keys old last_moved first_kept j new ks = (out, ks')"
    and keys: "distinct keys" "2 \<le> length keys" and j: "cjson j = Some (JList expected)"
  obtains (kept) "ks' = ks" "out \<noteq> Inr True"
    | (moved) "out = Inr True" "or_empty (string_at (lua_key keys 2) ks) = old"
        "list_all2 same_row (take (length expected + 1) (filter (\<lambda>x. fst x \<le> last_moved) (entries_at (lua_key keys 1) ks))) expected"
        "moved_state keys first_kept new ks ks'"
proof (cases "keys_typed keys ks")
  case False
  note types = check_keys_run [OF keys(2), of ks]
  obtain e where "fst (mapio (check_key ks_redis) (zip [1 ..< length keys + 1] keys) ks) = Inl e"
    using types(2) False by (metis sum.exhaust)
  then show ?thesis using run types(1) by (intro kept) (auto simp: archive_script_def io_simps simp del: upt_Suc)
next
  case True
  let ?K = "lua_key keys"
  note types = check_keys_run [OF keys(2), of ks]
  obtain us where us: "fst (mapio (check_key ks_redis) (zip [1 ..< length keys + 1] keys) ks) = Inr us" using types(2) True by blast
  have t: "type_of_value (ks_data ks (?K 2)) \<in> {TNone, TString}" "stream_typed (?K 1) ks" using True keys(2) by (auto simp: keys_typed_def)
  let ?current = "take (length expected + 1) (filter (\<lambda>x. fst x \<le> last_moved) (entries_at (?K 1) ks))"
  have reads: "ks_get (?K 2) ks = (Inr (string_at (?K 2) ks), ks)"
    "ks_xrange (?K 1) FromFirst (Some last_moved) (int (length expected) + 1) ks = (Inr ?current, ks)"
    using get_string [OF t(1)] ks_stream_typed [OF t(2)] by (simp_all add: ks_xrange_def in_range_def nat_add_distrib)
  note start = types(1) us reads j
  obtain ks2 where move: "seqio (ks_set (?K 2) new) (seqio (ks_xtrim_minid (?K 1) first_kept)
      (seqio (mapio (\<lambda>i. trim_index ks_redis first_kept (?K i)) [3 ..< length keys + 1]) (ret True))) ks = (Inr True, ks2)"
    "moved_state keys first_kept new ks ks2" using move_run [OF True keys] by blast
  have "archive_script cjson ks_redis keys old last_moved first_kept j new ks =
    (if or_empty (string_at (?K 2) ks) = old \<and> list_all2 same_row ?current expected then (Inr True, ks2) else (Inr False, ks))"
    unfolding archive_script_def ks_redis_sel seqio_split [of "mapio (check_key ks_redis) (zip [1 ..< length keys + 1] keys)"]
    by (simp add: bindio_split start move(1) del: upt_Suc One_nat_def)
  then show ?thesis using run kept moved move(2) by (auto split: if_splits)
qed

section \<open>A moved prefix is the archived one\<close>

lemma dict_of_keys: "distinct (map fst (dict_of kvs))"
proof -
  have put: "distinct (map fst (dict_put k v acc))" if "distinct (map fst acc)" for k :: string and v :: 'a and acc
  proof -
    have m: "map (fst \<circ> (\<lambda>kv. if fst kv = k then (k, v) else kv)) acc = map fst acc" by (induction acc) auto
    show ?thesis using that by (simp add: dict_put_def map_of_eq_None_iff m)
  qed
  have "distinct (map fst acc) \<Longrightarrow> distinct (map fst (fold (\<lambda>kv. dict_put (fst kv) (snd kv)) kvs acc))" for acc :: "(string \<times> 'a) list"
    by (induction kvs arbitrary: acc) (use put in auto)
  then show ?thesis by (simp add: dict_of_def)
qed

lemma sid_text_inject: "sid_text i = sid_text j \<longleftrightarrow> i = j"
proof
  assume "sid_text i = sid_text j"
  then have "show_nat (fst i) @ CHR ''-'' # show_nat (snd i) = show_nat (fst j) @ CHR ''-'' # show_nat (snd j)" by (simp add: sid_text_def)
  moreover have "CHR ''-'' \<notin> set (show_nat n)" for n using show_nat_digits [of n] by (auto simp: list_all_iff is_digit_def)
  ultimately have "show_nat (fst i) = show_nat (fst j) \<and> show_nat (snd i) = show_nat (snd j)" by (intro append_sep_inject) auto
  then show "i = j" by (simp add: prod_eq_iff)
qed simp

lemma successor_iff: "successor_id i = Inr j \<Longrightarrow> bounded_id x \<Longrightarrow> j \<le> x \<longleftrightarrow> \<not> x \<le> i"
  by (cases i; cases x) (auto simp: successor_id_def bounded_id_def less_eq_prod_def split: if_splits)

lemma chain_entry_cong: "map_of raw = map_of raw' \<Longrightarrow> chain_entry N s raw = chain_entry N s raw'"
proof -
  assume eq: "map_of raw = map_of raw'"
  then have "set (map fst raw) = set (map fst raw')" by (metis dom_map_of_conv_image_fst set_map)
  moreover have "version_field N raw = version_field N raw'" using eq by (simp add: version_field_def)
  ultimately have "validate_audit_entry N raw = validate_audit_entry N raw'" "validate_security_event N raw = validate_security_event N raw'"
    using eq by (simp_all only: fun_eq_iff validate_audit_entry_def validate_security_event_def HOL.simp_thms)
  then have "record_to_entry N raw = record_to_entry N raw'" "event_of_raw N raw = event_of_raw N raw'"
    using eq by (simp_all only: record_to_entry_def event_of_raw_def)
  then show ?thesis by (cases s) simp_all
qed

lemma walk_rows_cong:
  "list_all2 (\<lambda>x r. map_of (snd x) = map_of (snd r)) xs rs \<Longrightarrow> walk_rows N sha s h xs = walk_rows N sha s h rs"
proof (induction xs rs arbitrary: h rule: list_all2_induct)
  case (Cons x xs r rs)
  then show ?case using chain_entry_cong [of "snd x" "snd r" N s] by (cases "chain_entry N s (snd r)") (simp_all add: Cons.IH)
qed simp

lemma walk_indexes: "walk_rows N sha s h rows = Inr (final, ixs) \<Longrightarrow> k \<in> set ixs \<Longrightarrow> has_prefix ''audit:by_'' k"
proof (induction rows arbitrary: h ixs)
  case (Cons row rows)
  then show ?case
    by (auto simp: record_indexes_def has_prefix_def split: sum.splits if_splits prod.splits chain_record.splits)
qed simp

lemma walk_final: "walk_rows N sha s h rows = Inr (final, ixs) \<Longrightarrow> rows \<noteq> [] \<Longrightarrow> \<exists>t. final = Some (sha t)"
proof (induction rows arbitrary: h ixs)
  case (Cons row rows)
  then show ?case by (cases "rows = []") (auto simp: hash_entry_def split: sum.splits if_splits prod.splits)
qed simp

lemma same_rowD:
  assumes "same_row x (row_json r)" and "distinct (map fst (snd x))" and "distinct (map fst (snd r))"
  shows "fst x = fst r" "map_of (snd x) = map_of (snd r)"
proof -
  let ?f = "map (\<lambda>kv. (fst kv, JStr (snd kv))) (snd r)"
  have same: "sid_text (fst x) = sid_text (fst r)" "length (snd x) = length (snd r)" "\<forall>kv \<in> set (snd x). map_of ?f (fst kv) = Some (JStr (snd kv))"
    using assms(1) by (auto simp: same_row_def row_json_def lua_get_def list_all_iff)
  then show "fst x = fst r" by (simp add: sid_text_inject)
  have "map_of ?f k = map_option JStr (map_of (snd r) k)" for k using map_of_map [of JStr "snd r"] by (simp add: case_prod_unfold fun_eq_iff)
  then have "map_of (snd r) (fst kv) = Some (snd kv)" if "kv \<in> set (snd x)" for kv using same(3) that by simp
  then have "kv \<in> set (snd r)" if "kv \<in> set (snd x)" for kv using map_of_SomeD [of "snd r" "fst kv" "snd kv"] that by simp
  then have sub: "set (snd x) \<subseteq> set (snd r)" by (rule subsetI)
  moreover have "card (set (snd x)) = card (set (snd r))"
    using assms(2,3) same(2) by (metis distinct_card distinct_map)
  ultimately have "set (snd x) = set (snd r)" by (simp add: card_subset_eq)
  then show "map_of (snd x) = map_of (snd r)" using assms(2,3) by (metis map_of_inject_set)
qed

definition same_record :: "archived_row \<Rightarrow> archived_row \<Rightarrow> bool" where
  "same_record r r' \<longleftrightarrow> fst r = fst r' \<and> map_of (snd r) = map_of (snd r')"

lemma sorted_split:
  assumes "sorted_wrt (<) (map fst xs)" and "\<And>x. x \<in> set xs \<Longrightarrow> P (fst x) \<longleftrightarrow> \<not> fst x \<le> (i :: sid)"
  shows "xs = filter (\<lambda>x. fst x \<le> i) xs @ filter (\<lambda>x. P (fst x)) xs"
  using assms
proof (induction xs)
  case (Cons x xs)
  show ?case
  proof (cases "fst x \<le> i")
    case True
    then show ?thesis using Cons by (auto simp: filter_empty_conv)
  next
    case False
    then have "\<forall>y \<in> set xs. \<not> fst y \<le> i" using Cons.prems(1) by fastforce
    then show ?thesis using False Cons.prems(2) by (auto simp: filter_empty_conv intro!: filter_True [symmetric])
  qed
qed simp

end
