(* ===== verification/Audit_Writer.thy ===== *)
theory Audit_Writer
  imports Audit_Archive
begin

text \<open>
  \<open>AuditModule\<close> of \<open>packages/mas-gateway/src/mas_gateway/audit.py\<close>: queued records are split
  into batches, a batch is linked to the head of the chain that the module remembers and
  appended by the script, and a stale head, a full stream or an archive that moves a prefix
  away send it through another attempt. \<open>_verify_chain\<close> walks the archive and the live stream.
\<close>

section \<open>Queued writes\<close>

text \<open>\<open>PendingAuditWrite\<close>; its future is the result listed for it.\<close>

record pending_write =
  pw_number :: nat
  pw_entry :: chain_record
  pw_stream :: audit_stream
  pw_indexes :: "string list"
  pw_append :: "stream_append option"
  pw_prepared :: prepared_entry

record write_receipt =
  wr_stream_id :: string
  wr_previous_hash :: "string option"

definition stream_capacity :: "retention_settings \<Rightarrow> audit_stream \<Rightarrow> int" where
  "stream_capacity settings s = (case s of Messages \<Rightarrow> max_messages settings | Security_Events \<Rightarrow> max_security_events settings)"

text \<open>\<open>_run_writer\<close>: a turn takes up to \<open>batch_size\<close> writes, groups them by stream in order of appearance and slices each group by capacity.\<close>

function slices :: "nat \<Rightarrow> 'a list \<Rightarrow> 'a list list" where
  "slices n xs = (if xs = [] \<or> n = 0 then [] else take n xs # slices n (drop n xs))"
  by pat_completeness auto
termination
  by (relation "measure (\<lambda>(n, xs). length xs)") auto

declare slices.simps [simp del]

definition group_writes :: "pending_write list \<Rightarrow> (audit_stream \<times> pending_write list) list" where
  "group_writes ws = map (\<lambda>s. (s, filter (\<lambda>w. pw_stream w = s) ws)) (rev (remdups (rev (map pw_stream ws))))"

definition writer_turn :: "retention_settings \<Rightarrow> pending_write list \<Rightarrow> (audit_stream \<times> pending_write list) list \<times> pending_write list" where
  "writer_turn settings queue =
     (let n = nat (batch_size settings) in
      (concat (map (\<lambda>(s, ws). map (\<lambda>b. (s, b)) (slices (nat (stream_capacity settings s)) ws)) (group_writes (take n queue))),
       drop n queue))"

section \<open>Committing a batch\<close>

fun link_batch :: "text_numbers \<Rightarrow> (string \<Rightarrow> string) \<Rightarrow> string option \<Rightarrow> pending_write list \<Rightarrow>
    string option list \<times> (string \<times> string) list list \<times> string option" where
  "link_batch N sha previous [] = ([], [], previous)"
| "link_batch N sha previous (w # ws) =
     (let (flds, h) = linked N sha (pw_prepared w) previous; (links, fs, final) = link_batch N sha (Some h) ws in
      (previous # links, flds # fs, final))"

definition batch_indexes :: "pending_write list \<Rightarrow> string list" where
  "batch_indexes ws = sort (remdups (concat (map pw_indexes ws)))"

definition batch_effects :: "pending_write list \<Rightarrow> string list" where
  "batch_effects ws = sort (remdups (concat (map (\<lambda>w. case pw_append w of None \<Rightarrow> [] | Some a \<Rightarrow> [append_stream a]) ws)))"

text \<open>\<open>positions = {key: i + 3 for i, key in enumerate([*indexes, *effects])}\<close>\<close>

definition position_of :: "string list \<Rightarrow> string \<Rightarrow> nat" where
  "position_of ks k = (case map_of (rev (zip ks [3 ..< length ks + 3])) k of Some i \<Rightarrow> i | None \<Rightarrow> 0)"

definition batch_record_of :: "string list \<Rightarrow> pending_write \<Rightarrow> (string \<times> string) list \<Rightarrow> batch_record" where
  "batch_record_of ks w flds =
     \<lparr>br_fields = flatten_pairs flds, br_indexes = map (position_of ks) (pw_indexes w),
      br_append = map_option (\<lambda>a. (position_of ks (append_stream a), flatten_pairs (append_fields a))) (pw_append w)\<rparr>"

definition capacity_exceeded :: "audit_stream \<Rightarrow> err" where
  "capacity_exceeded s = AuditCapacityError (''audit_capacity_exceeded:'' @ stream_key s)"

datatype attempt_result =
    Retry
  | AtCapacity string
  | Committed "string list" "string option list"

text \<open>One attempt under the lock of the stream: link to the remembered head and run the script.\<close>

definition append_attempt :: "text_numbers \<Rightarrow> (string \<Rightarrow> json option) \<Rightarrow> (string \<Rightarrow> string) \<Rightarrow> 'db redis \<Rightarrow> retention_settings \<Rightarrow>
    audit_stream \<Rightarrow> pending_write list \<Rightarrow> ('db audit_world, attempt_result) io" where
  "append_attempt N cjson sha R settings s active w =
     (let indexes = batch_indexes active; effects = batch_effects active;
          previous = aw_heads w s;
          (links, fs, final) = link_batch N sha previous active;
          records = map2 (batch_record_of (indexes @ effects)) active fs in
      case append_script cjson R ([stream_key s, head_key s] @ indexes @ effects) (or_empty previous) (or_empty final)
             (stream_capacity settings s) (json_dumps N (JList (map batch_json records))) (length indexes) (aw_db w) of
        (Inl e, db) \<Rightarrow> (Inl e, w\<lparr>aw_db := db\<rparr>)
      | (Inr result, db) \<Rightarrow>
          (let w = w\<lparr>aw_db := db\<rparr> in
           if length result = 2 \<and> hd result = ''retry'' then
             (if result ! 1 = [] then (Inr Retry, w\<lparr>aw_heads := (aw_heads w)(s := None)\<rparr>)
              else if is_hex64 (result ! 1) then (Inr Retry, w\<lparr>aw_heads := (aw_heads w)(s := Some (result ! 1))\<rparr>)
              else (Inl (AuditArchiveError ''invalid_audit_chain_head''), w))
           else if length result = 2 \<and> hd result = ''capacity'' then (Inr (AtCapacity (result ! 1)), w)
           else if length result \<noteq> length active + 1 \<or> hd result \<noteq> ''ok''
           then (Inl (AuditArchiveError ''invalid_audit_append_result''), w)
           else (Inr (Committed (tl result) links), w\<lparr>aw_heads := (aw_heads w)(s := final)\<rparr>)))"

text \<open>
  The loops of \<open>_commit_batch\<close>: each turn is an attempt, before which others act; a schedule
  that ends before the batch does gives None. The writes that do not fit a full stream
  without archive are refused and listed.
\<close>

record 'db turn =
  turn_others :: "'db audit_world \<Rightarrow> 'db audit_world"
  turn_disk :: disk
  turn_meanwhile :: "'db audit_world \<Rightarrow> 'db audit_world"

primrec commit_loop :: "archive_codec \<Rightarrow> text_numbers \<Rightarrow> (string \<Rightarrow> json option) \<Rightarrow> (string \<Rightarrow> string) \<Rightarrow> 'db redis \<Rightarrow>
    retention_settings \<Rightarrow> durability_settings \<Rightarrow> audit_stream \<Rightarrow> 'db turn list \<Rightarrow> pending_write list \<Rightarrow> pending_write list \<Rightarrow>
    'db audit_world \<Rightarrow> (((err + (pending_write \<times> write_receipt) list) \<times> pending_write list \<times> pending_write list) \<times> 'db audit_world) option" where
  "commit_loop C N cjson sha R settings durability s [] active refused w = None"
| "commit_loop C N cjson sha R settings durability s (t # ts) active refused w =
     (case append_attempt N cjson sha R settings s active (turn_others t w) of
        (Inl e, w) \<Rightarrow> Some ((Inl e, active, refused), w)
      | (Inr Retry, w) \<Rightarrow> commit_loop C N cjson sha R settings durability s ts active refused w
      | (Inr (AtCapacity shown), w) \<Rightarrow>
          (if archive_directory settings = None then
             (case py_int N shown of
                None \<Rightarrow> Some ((Inl (ValueError ''invalid literal for int()''), active, refused), w)
              | Some available \<Rightarrow>
                  if available \<le> 0 then Some ((Inl (capacity_exceeded s), active, refused), w)
                  else if int (length active) \<le> available
                  then Some ((Inl (AuditArchiveError ''invalid_audit_capacity_result''), active, refused), w)
                  else commit_loop C N cjson sha R settings durability s ts (take (nat available) active)
                         (refused @ drop (nat available) active) w)
           else (case archive_prefix C N cjson sha R settings durability (turn_disk t) (turn_meanwhile t) s w of
                (Inl e, w) \<Rightarrow> Some ((Inl e, active, refused), w)
              | (Inr _, w) \<Rightarrow> commit_loop C N cjson sha R settings durability s ts active refused w))
      | (Inr (Committed ids links), w) \<Rightarrow>
          (case on_db (confirm R durability) w of
             (Inl e, w) \<Rightarrow> Some ((Inl e, active, refused), w)
           | (Inr _, w) \<Rightarrow>
               Some ((Inr (map2 (\<lambda>write (i, link). (write, \<lparr>wr_stream_id = i, wr_previous_hash = link\<rparr>)) active (zip ids links)),
                      active, refused), w)))"

definition commit_batch where
  "commit_batch C N cjson sha R settings durability s ts writes w =
     commit_loop C N cjson sha R settings durability s ts writes [] w"

text \<open>\<open>_complete_batch\<close>: the result of every write of the batch.\<close>

definition complete_batch :: "archive_codec \<Rightarrow> text_numbers \<Rightarrow> (string \<Rightarrow> json option) \<Rightarrow> (string \<Rightarrow> string) \<Rightarrow> 'db redis \<Rightarrow>
    retention_settings \<Rightarrow> durability_settings \<Rightarrow> audit_stream \<Rightarrow> 'db turn list \<Rightarrow> pending_write list \<Rightarrow> 'db audit_world \<Rightarrow>
    ((pending_write \<times> (err + write_receipt)) list \<times> 'db audit_world) option" where
  "complete_batch C N cjson sha R settings durability s ts writes w =
     map_option (\<lambda>((result, active, refused), w).
       ((case result of
           Inr receipts \<Rightarrow> map (\<lambda>(write, receipt). (write, Inr receipt)) receipts
         | Inl e \<Rightarrow> map (\<lambda>write. (write, Inl e)) active) @
        map (\<lambda>write. (write, Inl (capacity_exceeded s))) refused, w))
     (commit_batch C N cjson sha R settings durability s ts writes w)"

section \<open>Well-formed writes\<close>

text \<open>
  What \<open>log_message\<close> and \<open>log_security_event\<close> queue: a version 2 record of the stream, prepared,
  with its own index keys and, for a message, at most one append to a stream outside the
  audit keys.
\<close>

definition write_ok :: "text_numbers \<Rightarrow> audit_stream \<Rightarrow> pending_write \<Rightarrow> bool" where
  "write_ok N s w \<longleftrightarrow>
     pw_prepared w = from_entry N (pw_entry w) \<and> belongs s (pw_entry w) \<and> writable N (pw_entry w) \<and> record_version (pw_entry w) = 2 \<and>
     distinct (pw_indexes w) \<and> list_all (has_prefix ''audit:by_'') (pw_indexes w) \<and>
     (case pw_append w of None \<Rightarrow> True
      | Some a \<Rightarrow> stream_append_post_init a = Inr () \<and> \<not> has_prefix ''audit:'' (append_stream a))"

lemma write_okD:
  assumes "write_ok N s w"
  shows "pw_prepared w = from_entry N (pw_entry w)" "belongs s (pw_entry w)" "writable N (pw_entry w)" "record_version (pw_entry w) = 2"
  using assms by (auto simp: write_ok_def)

lemma with_link_sel [simp]:
  "record_previous (with_link h e) = h" "record_version (with_link h e) = record_version e"
  "belongs s (with_link h e) = belongs s e"
  by (cases e; cases s; auto)+

lemma writable_link: "writable N e \<Longrightarrow> valid_hash h \<Longrightarrow> writable N (with_link h e)"
  by (cases e) (auto simp: audit_entry_ok_def security_event_ok_def)

subsection \<open>The chain of a batch\<close>

lemma walk_append:
  "walk_rows N sha s h (xs @ ys) =
     (case walk_rows N sha s h xs of
        Inl e \<Rightarrow> Inl e
      | Inr (h1, i1) \<Rightarrow> (case walk_rows N sha s h1 ys of Inl e \<Rightarrow> Inl e | Inr (h2, i2) \<Rightarrow> Inr (h2, i1 @ i2)))"
  by (induction xs arbitrary: h) (auto split: sum.splits prod.splits)

lemma stream_fields_distinct: "distinct (map fst (entry_to_stream_fields N e))"
proof -
  have "map fst (entry_to_stream_fields N e) = map fst (filter (\<lambda>kv. snd kv \<noteq> JNull) (model_dump e))"
    by (simp add: entry_to_stream_fields_def comp_def)
  then show ?thesis using model_dump_keys(1) [of e] distinct_map_filter by metis
qed

lemma dict_of_stream_fields: "dict_of (entry_to_stream_fields N e) = entry_to_stream_fields N e"
  by (rule dict_of_distinct) (rule stream_fields_distinct)

lemma link_batch_Cons:
  assumes "write_ok N s w"
  shows "link_batch N sha h (w # ws) =
    (let e = with_link h (pw_entry w); (links, fs, final) = link_batch N sha (Some (hash_entry N sha e)) ws in
     (h # links, entry_to_stream_fields N e # fs, final))"
  by (simp add: linked_exact write_okD(1) [OF assms] Let_def)

lemma link_batch_shape:
  "list_all (write_ok N s) ws \<Longrightarrow> link_batch N sha h ws = (links, fs, final) \<Longrightarrow>
   length links = length ws \<and> length fs = length ws \<and> (\<forall>f \<in> set fs. \<exists>e. f = entry_to_stream_fields N e) \<and>
   (ws = [] \<longrightarrow> final = h) \<and> (ws \<noteq> [] \<longrightarrow> (\<exists>t. final = Some (sha t)))"
proof (induction ws arbitrary: h links fs)
  case (Cons w ws)
  define e where "e = with_link h (pw_entry w)"
  obtain links' fs' where rest: "link_batch N sha (Some (hash_entry N sha e)) ws = (links', fs', final)"
      "links = h # links'" "fs = entry_to_stream_fields N e # fs'"
    using Cons.prems by (auto simp: link_batch_Cons e_def Let_def simp del: link_batch.simps split: prod.splits)
  from Cons.IH [OF _ rest(1)] Cons.prems(1) show ?case by (auto simp: rest(2,3) hash_entry_def)
qed simp

context json_numerals
begin

lemma walk_linked:
  assumes hex: "\<And>t. is_hex64 (sha t)"
  shows "list_all (write_ok N s) ws \<Longrightarrow> valid_hash h \<Longrightarrow> link_batch N sha h ws = (links, fs, final) \<Longrightarrow> length ids = length ws \<Longrightarrow>
    \<exists>ixs. walk_rows N sha s h (dict_rows (zip ids fs)) = Inr (final, ixs)"
proof (induction ws arbitrary: h links fs ids)
  case (Cons w ws)
  define e where "e = with_link h (pw_entry w)"
  obtain links' fs' where rest: "link_batch N sha (Some (hash_entry N sha e)) ws = (links', fs', final)"
      "fs = entry_to_stream_fields N e # fs'"
    using Cons.prems by (auto simp: link_batch_Cons e_def Let_def simp del: link_batch.simps split: prod.splits)
  obtain i ids' where ids: "ids = i # ids'" "length ids' = length ws" using Cons.prems(4) by (cases ids) auto
  have ok: "write_ok N s w" using Cons.prems(1) by simp
  have "chain_entry N s (entry_to_stream_fields N e) = Inr e"
    using write_okD [OF ok] Cons.prems(2) unfolding e_def by (intro chain_entry_roundtrip writable_link) auto
  moreover have "valid_hash (Some (hash_entry N sha e))" using hex by (simp add: valid_hash_def hash_entry_def)
  then obtain ixs where "walk_rows N sha s (Some (hash_entry N sha e)) (dict_rows (zip ids' fs')) = Inr (final, ixs)"
    using Cons.IH [OF _ _ rest(1) ids(2)] Cons.prems(1) by auto
  ultimately show ?case
    using write_okD(4) [OF ok] by (simp add: ids rest(2) dict_rows_def dict_of_stream_fields e_def)
qed (simp add: dict_rows_def)

end

subsection \<open>The batch in the script\<close>

lemma position_of_nth: "distinct ks \<Longrightarrow> i < length ks \<Longrightarrow> position_of ks (ks ! i) = i + 3"
proof -
  assume d: "distinct ks" and i: "i < length ks"
  have "map_of (rev (zip ks [3 ..< length ks + 3])) (ks ! i) = Some (i + 3)"
    by (rule map_of_is_SomeI) (use d i in \<open>auto simp: set_zip rev_map [symmetric] map_fst_zip simp del: upt_Suc\<close>)
  then show ?thesis by (simp add: position_of_def)
qed

lemma position_of_key:
  assumes "distinct ks" and "k \<in> set ks"
  shows "lua_key ([a, b] @ ks) (position_of ks k) = k" "3 \<le> position_of ks k" "position_of ks k \<le> length ks + 2"
proof -
  obtain i where "i < length ks" "k = ks ! i" using assms(2) by (metis in_set_conv_nth)
  then show "lua_key ([a, b] @ ks) (position_of ks k) = k" "3 \<le> position_of ks k" "position_of ks k \<le> length ks + 2"
    using position_of_nth [OF assms(1)] by (auto simp: lua_key_def)
qed

definition batch_keys :: "audit_stream \<Rightarrow> pending_write list \<Rightarrow> string list" where
  "batch_keys s ws = [stream_key s, head_key s] @ batch_indexes ws @ batch_effects ws"

lemma index_key_apart:
  assumes "has_prefix ''audit:by_'' k"
  shows "k \<noteq> stream_key s" "k \<noteq> head_key s" "k \<noteq> checkpoint_key s" "has_prefix ''audit:'' k"
proof -
  obtain r where "k = ''audit:by_'' @ r" using assms by (metis append_take_drop_id has_prefix_def)
  then show "k \<noteq> stream_key s" "k \<noteq> head_key s" "k \<noteq> checkpoint_key s" "has_prefix ''audit:'' k"
    by (cases s; simp add: has_prefix_def checkpoint_key_def)+
qed

lemma audit_key_prefix: "has_prefix ''audit:'' (stream_key s)" "has_prefix ''audit:'' (head_key s)" "has_prefix ''audit:'' (checkpoint_key s)"
  by (cases s; simp add: has_prefix_def checkpoint_key_def)+

lemma audit_keys_apart [simp]:
  "stream_key s \<noteq> head_key t" "head_key t \<noteq> stream_key s" "stream_key s \<noteq> checkpoint_key t" "checkpoint_key t \<noteq> stream_key s"
  "head_key s \<noteq> checkpoint_key t" "checkpoint_key t \<noteq> head_key s"
  "stream_key s = stream_key t \<longleftrightarrow> s = t" "head_key s = head_key t \<longleftrightarrow> s = t" "checkpoint_key s = checkpoint_key t \<longleftrightarrow> s = t"
  by (cases s; cases t; simp add: checkpoint_key_def)+

lemma set_batch_keys:
  "set (batch_indexes ws) = (\<Union>w \<in> set ws. set (pw_indexes w))"
  "set (batch_effects ws) = {append_stream a |a. \<exists>w \<in> set ws. pw_append w = Some a}"
  by (force simp: batch_indexes_def batch_effects_def split: option.splits)+

lemma batch_keys_sets:
  assumes "list_all (write_ok N s) ws"
  shows "\<And>k. k \<in> set (batch_indexes ws) \<Longrightarrow> has_prefix ''audit:by_'' k" "\<And>k. k \<in> set (batch_effects ws) \<Longrightarrow> \<not> has_prefix ''audit:'' k"
    "distinct (batch_indexes ws @ batch_effects ws)" "distinct (batch_keys s ws)"
proof -
  show ix: "has_prefix ''audit:by_'' k" if "k \<in> set (batch_indexes ws)" for k
    using assms that by (auto simp: set_batch_keys write_ok_def list_all_iff)
  show ef: "\<not> has_prefix ''audit:'' k" if "k \<in> set (batch_effects ws)" for k
    using assms that by (fastforce simp: set_batch_keys write_ok_def list_all_iff)
  have "set (batch_indexes ws) \<inter> set (batch_effects ws) = {}" using ix ef index_key_apart(4) by blast
  then show d: "distinct (batch_indexes ws @ batch_effects ws)" by (simp add: batch_indexes_def batch_effects_def)
  have "stream_key s \<notin> set (batch_indexes ws @ batch_effects ws)" "head_key s \<notin> set (batch_indexes ws @ batch_effects ws)"
    using ix ef index_key_apart(1,2) audit_key_prefix by (metis Un_iff set_append)+
  with d show "distinct (batch_keys s ws)" by (simp add: batch_keys_def)
qed

lemma length_flatten_pairs [simp]: "length (flatten_pairs ps) = 2 * length ps"
  by (induction ps) (auto simp: flatten_pairs_def)

lemma flatten_fit: "ps \<noteq> [] \<Longrightarrow> length ps \<le> 1024 \<Longrightarrow> fields_fit (flatten_pairs ps)"
  by (cases ps) (auto simp: fields_fit_def flatten_pairs_def [of "[]"] simp flip: length_greater_0_conv)

lemma stream_fields_size: "entry_to_stream_fields N e \<noteq> []" "length (entry_to_stream_fields N e) \<le> 13"
proof -
  have "length (entry_to_stream_fields N e) \<le> length (model_dump e)" by (simp add: entry_to_stream_fields_def)
  also have "\<dots> \<le> 13" by (cases e) simp_all
  finally show "length (entry_to_stream_fields N e) \<le> 13" .
  have "map_of (entry_to_stream_fields N e) ''timestamp'' \<noteq> None" unfolding stream_field by (cases e) simp_all
  then show "entry_to_stream_fields N e \<noteq> []" by auto
qed

lemma batch_record_fits:
  assumes ws: "list_all (write_ok N s) ws" and w: "w \<in> set ws"
  shows "batch_fits (length (batch_indexes ws)) (length (batch_keys s ws))
    (batch_record_of (batch_indexes ws @ batch_effects ws) w (entry_to_stream_fields N e))"
proof -
  let ?I = "batch_indexes ws" and ?E = "batch_effects ws"
  note d = batch_keys_sets(3) [OF ws]
  have ok: "write_ok N s w" using ws w by (auto simp: list_all_iff)
  have pos: "position_of (?I @ ?E) k \<in> {3 .. length ?I + 2}" if "k \<in> set ?I" for k
  proof -
    obtain i where i: "i < length ?I" "k = ?I ! i" using \<open>k \<in> set ?I\<close> by (metis in_set_conv_nth)
    then show ?thesis using position_of_nth [OF d, of i] by (simp add: nth_append)
  qed
  have "inj_on (position_of (?I @ ?E)) (set (?I @ ?E))"
    by (rule inj_onI) (metis position_of_key(1) [OF d])
  moreover have sub: "set (pw_indexes w) \<subseteq> set ?I" using w by (auto simp: set_batch_keys)
  ultimately have "distinct (map (position_of (?I @ ?E)) (pw_indexes w))"
    using ok by (auto simp: distinct_map write_ok_def intro: inj_on_subset)
  moreover have "length ?I + 2 < position_of (?I @ ?E) (append_stream a) \<and>
      position_of (?I @ ?E) (append_stream a) \<le> length (batch_keys s ws) \<and> fields_fit (flatten_pairs (append_fields a))"
    if a: "pw_append w = Some a" for a
  proof -
    have "append_stream a \<in> set ?E" using w a by (auto simp: set_batch_keys)
    then obtain j where j: "j < length ?E" "append_stream a = ?E ! j" by (metis in_set_conv_nth)
    then have "position_of (?I @ ?E) (append_stream a) = length ?I + j + 3"
      using position_of_nth [OF d, of "length ?I + j"] by (simp add: nth_append)
    moreover have "fields_fit (flatten_pairs (append_fields a))"
      using ok a by (intro flatten_fit) (auto simp: write_ok_def stream_append_post_init_def split: if_splits)
    ultimately show ?thesis using j by (simp add: batch_keys_def)
  qed
  moreover have "fields_fit (flatten_pairs (entry_to_stream_fields N e))"
    using stream_fields_size [of N e] by (intro flatten_fit) auto
  ultimately show ?thesis using pos sub by (auto simp: batch_fits_def batch_record_of_def split: option.splits)
qed

section \<open>The chain\<close>

text \<open>
  The live records of a stream continue the chain of the checkpoint, if there is one, and end
  in the stored head; its keys do not expire.
\<close>

definition audit_chain :: "archive_codec \<Rightarrow> text_numbers \<Rightarrow> (string \<Rightarrow> string) \<Rightarrow> keyspace \<Rightarrow> audit_stream \<Rightarrow> bool" where
  "audit_chain C N sha ks s \<longleftrightarrow>
     (\<exists>cp ixs. optional_checkpoint C (string_at (checkpoint_key s) ks) = Inr cp \<and>
        walk_rows N sha s (map_option cp_last_hash cp) (dict_rows (entries_at (stream_key s) ks)) = Inr (string_at (head_key s) ks, ixs)) \<and>
     stream_wf (stream_at (stream_key s) ks) \<and>
     ks_ttl ks (stream_key s) = None \<and> ks_ttl ks (head_key s) = None \<and> ks_ttl ks (checkpoint_key s) = None"

lemma audit_chain_cong:
  assumes "\<And>k. k \<in> {stream_key s, head_key s, checkpoint_key s} \<Longrightarrow> ks_data ks' k = ks_data ks k \<and> ks_ttl ks' k = ks_ttl ks k"
  shows "audit_chain C N sha ks' s \<longleftrightarrow> audit_chain C N sha ks s"
  using assms [of "stream_key s"] assms [of "head_key s"] assms [of "checkpoint_key s"]
  by (simp add: audit_chain_def string_at_def stream_at_def)

definition audit_inv :: "archive_codec \<Rightarrow> text_numbers \<Rightarrow> (string \<Rightarrow> string) \<Rightarrow> keyspace \<Rightarrow> bool" where
  "audit_inv C N sha ks \<longleftrightarrow> (\<forall>s. audit_chain C N sha ks s) \<and> ids_bounded ks"

lemma ids_bounded_put: "bounded_id (st_last (stream_at k (ks_put h (RString v) ks))) \<longleftrightarrow> k = h \<or> bounded_id (st_last (stream_at k ks))"
    "stream_at k (ks_deadline h d ks) = stream_at k ks"
  by (auto simp: stream_at_def empty_stream_def bounded_id_def)

lemma stream_wf_extend:
  assumes "stream_wf st" and "sorted_wrt (<) (st_last st # new)" and "list_all bounded_id new" and "list_all (\<lambda>f. distinct (map fst f)) fs"
    and "st_entries st' = st_entries st @ zip new fs" and "st_last st' = last (st_last st # new)"
  shows "stream_wf st'"
proof -
  have le: "x \<le> last (st_last st # new)" if "x \<in> set (st_last st # new)" for x
    using assms(2) that by (induction new arbitrary: st rule: rev_induct) (auto simp: sorted_wrt_append)
  have zip: "fst x \<in> set new \<and> snd x \<in> set fs" if "x \<in> set (zip new fs)" for x
    using that set_zip_leftD [of "fst x" "snd x" new fs] set_zip_rightD [of "fst x" "snd x" new fs] by simp
  have "sorted_wrt (<) (map fst (zip new fs))"
  proof -
    have "map fst (zip new fs) = take (min (length new) (length fs)) new" by (simp add: map_fst_zip_take)
    then show ?thesis using assms(2) sorted_wrt_take by auto
  qed
  moreover have "fst x < fst y" if "x \<in> set (st_entries st)" "y \<in> set (zip new fs)" for x y
  proof -
    have "fst x \<le> st_last st" using assms(1) that(1) unfolding stream_wf_def list_all_iff by blast
    also have "st_last st < fst y" using assms(2) zip [OF that(2)] by simp
    finally show ?thesis .
  qed
  moreover have "fst x \<le> last (st_last st # new)" if "x \<in> set (st_entries st)" for x
  proof -
    have "fst x \<le> st_last st" using assms(1) that unfolding stream_wf_def list_all_iff by blast
    then show ?thesis using le [of "st_last st"] by (meson list.set_intros(1) order_trans)
  qed
  ultimately show ?thesis
    using assms le zip unfolding stream_wf_def by (auto simp: sorted_wrt_append list_all_iff)
qed

lemma batch_keys_away:
  assumes "list_all (write_ok N s) ws"
  shows "checkpoint_key t \<notin> set (batch_keys s ws)" "t \<noteq> s \<Longrightarrow> stream_key t \<notin> set (batch_keys s ws)" "t \<noteq> s \<Longrightarrow> head_key t \<notin> set (batch_keys s ws)"
  using batch_keys_sets(1,2) [OF assms] index_key_apart audit_key_prefix
  unfolding batch_keys_def by (auto, (metis index_key_apart(1-3))+)

lemma lua_key_away: "k \<notin> set keys \<Longrightarrow> k \<notin> lua_key keys ` ({1 .. length keys} - {2})"
  by (auto simp: lua_key_def)

locale audit_setting = json_numerals N + lua_json N cjson + archive_json C
  for N :: text_numbers and cjson :: "string \<Rightarrow> json option" and C :: archive_codec and sha :: "string \<Rightarrow> string" +
  assumes sha_hex: "is_hex64 (sha t)"
begin

lemma walk_head: "walk_rows N sha s h rows = Inr (final, ixs) \<Longrightarrow> valid_hash h \<Longrightarrow> valid_hash final"
proof (induction rows arbitrary: h ixs)
  case (Cons row rows)
  then show ?case using sha_hex
    by (auto simp: hash_entry_def valid_hash_def split: sum.splits if_splits)
qed simp

lemma audit_chain_head: "audit_chain C N sha ks s \<Longrightarrow> valid_hash (string_at (head_key s) ks)"
proof -
  assume "audit_chain C N sha ks s"
  then obtain cp ixs where cp: "optional_checkpoint C (string_at (checkpoint_key s) ks) = Inr cp"
      "walk_rows N sha s (map_option cp_last_hash cp) (dict_rows (entries_at (stream_key s) ks)) = Inr (string_at (head_key s) ks, ixs)"
    by (auto simp: audit_chain_def)
  have "valid_hash (map_option cp_last_hash cp)"
    using cp(1) load_checkpoint_ok
    by (auto simp: optional_checkpoint_def valid_hash_def checkpoint_ok_def split: option.splits)
  then show ?thesis using walk_head [OF cp(2)] by blast
qed

lemma batch_script:
  assumes ws: "list_all (write_ok N s) ws" and links: "link_batch N sha h ws = (links, fs, final)"
  defines "records \<equiv> map2 (batch_record_of (batch_indexes ws @ batch_effects ws)) ws fs"
  shows "list_all (batch_fits (length (batch_indexes ws)) (length (batch_keys s ws))) records" "length records = length ws"
    "map (\<lambda>r. pairs_of (br_fields r)) records = fs" "cjson (json_dumps N (JList (map batch_json records))) = Some (JList (map batch_json records))"
proof -
  note shape = link_batch_shape [OF ws links]
  show "length records = length ws" using shape by (simp add: records_def)
  show "map (\<lambda>r. pairs_of (br_fields r)) records = fs"
    using shape by (auto simp: records_def batch_record_of_def pairs_of_flatten intro: nth_equalityI)
  show "list_all (batch_fits (length (batch_indexes ws)) (length (batch_keys s ws))) records"
    unfolding list_all_iff
  proof
    fix r assume "r \<in> set records"
    then obtain w f where "(w, f) \<in> set (zip ws fs)" and r: "r = batch_record_of (batch_indexes ws @ batch_effects ws) w f"
      by (auto simp: records_def)
    then have "w \<in> set ws" "f \<in> set fs" by (auto dest: set_zip_leftD set_zip_rightD)
    then show "batch_fits (length (batch_indexes ws)) (length (batch_keys s ws)) r"
      using shape batch_record_fits [OF ws] unfolding r by metis
  qed
  show "cjson (json_dumps N (JList (map batch_json records))) = Some (JList (map batch_json records))"
    by (rule cjson_dumps) (rule batch_json_ok)
qed

lemma attempt_cases:
  assumes run: "append_attempt N cjson sha ks_redis settings s ws w = (out, w')"
    and ws: "list_all (write_ok N s) ws" "length ws \<le> max_part" and ids: "ids_bounded (aw_db w)"
    and heads: "valid_hash (aw_heads w s)" "valid_hash (string_at (head_key s) (aw_db w))"
  obtains (unchanged) "aw_db w' = aw_db w" "aw_files w' = aw_files w" "\<forall>ids links. out \<noteq> Inr (Committed ids links)" "valid_hash (aw_heads w' s)"
        "out = Inr Retry \<longrightarrow> string_at (head_key s) (aw_db w) \<noteq> aw_heads w s \<and> aw_heads w' s = string_at (head_key s) (aw_db w)"
        "\<forall>n. out = Inr (AtCapacity n) \<longrightarrow> stream_capacity settings s < int (length (entries_at (stream_key s) (aw_db w))) + int (length ws)"
    | (committed) new mid links fs final where "link_batch N sha (aw_heads w s) ws = (links, fs, final)"
        "string_at (head_key s) (aw_db w) = aw_heads w s"
        "wrote (batch_keys s ws) (length (batch_indexes ws)) (map2 (batch_record_of (batch_indexes ws @ batch_effects ws)) ws fs) new (aw_db w) mid"
        "aw_db w' = snd (ks_set (head_key s) (or_empty final) mid)" "aw_files w' = aw_files w"
        "out = Inr (Committed (map sid_text new) links)" "aw_heads w' = (aw_heads w)(s := final)"
        "int (length (entries_at (stream_key s) (aw_db w))) + int (length ws) \<le> stream_capacity settings s" "ws \<noteq> []"
proof -
  obtain links fs final where links: "link_batch N sha (aw_heads w s) ws = (links, fs, final)" by (metis prod_cases3)
  let ?keys = "batch_keys s ws" and ?n = "length (batch_indexes ws)"
  let ?records = "map2 (batch_record_of (batch_indexes ws @ batch_effects ws)) ws fs"
  note b = batch_script [OF ws(1) links]
  have k12: "lua_key ?keys 1 = stream_key s" "lua_key ?keys 2 = head_key s" by (simp_all add: batch_keys_def lua_key_def)
  obtain res db where script: "append_script cjson ks_redis ?keys (or_empty (aw_heads w s)) (or_empty final) (stream_capacity settings s)
      (json_dumps N (JList (map batch_json ?records))) ?n (aw_db w) = (res, db)" by fastforce
  have len: "?n + 2 \<le> length ?keys" by (simp add: batch_keys_def)
  have rs: "length ?records \<le> max_part" using b(2) ws(2) by simp
  from script batch_keys_sets(4) [OF ws(1)] len b(4) b(1) rs ids show ?thesis
  proof (cases rule: append_script_cases)
    case (refused e)
    then show ?thesis using run script links heads(1) by (intro unchanged) (auto simp: append_attempt_def batch_keys_def)
  next
    case stale
    have differ: "string_at (head_key s) (aw_db w) \<noteq> aw_heads w s" using stale(3) unfolding k12 by auto
    have "aw_db w' = aw_db w \<and> aw_files w' = aw_files w \<and> out = Inr Retry \<and> aw_heads w' s = string_at (head_key s) (aw_db w)"
      using stale(1) stale(2)[unfolded k12] run script links heads
      by (auto simp: append_attempt_def batch_keys_def Let_def valid_hash_def or_empty_def is_hex64_def
          split: option.splits if_splits)
    then show ?thesis using differ heads(2) by (intro unchanged) auto
  next
    case full
    have more: "stream_capacity settings s < int (length (entries_at (stream_key s) (aw_db w))) + int (length ws)" using full(3) b(2) unfolding k12 by simp
    have "w' = w \<and> (\<exists>n. out = Inr (AtCapacity n))"
      using full(1,2) run script links by (auto simp: append_attempt_def batch_keys_def Let_def)
    then show ?thesis using more heads(1) by (intro unchanged) auto
  next
    case (ok new mid)
    have "length new = length ws" using ok(1) b(2) by (simp add: wrote_def)
    then have "w' = w\<lparr>aw_db := db, aw_heads := (aw_heads w)(s := final)\<rparr> \<and> out = Inr (Committed (map sid_text new) links)"
      using run script links ok(3) by (auto simp: append_attempt_def batch_keys_def Let_def)
    moreover have "string_at (head_key s) (aw_db w) = aw_heads w s"
      using ok(4) heads unfolding k12 by (auto simp: or_empty_def valid_hash_def is_hex64_def split: option.splits)
    ultimately show ?thesis using committed [OF links _ ok(1)] ok b(2) unfolding k12 by auto
  qed
qed

lemma attempt_keeps:
  assumes run: "append_attempt N cjson sha ks_redis settings s ws w = (out, w')"
    and ws: "list_all (write_ok N s) ws" "length ws \<le> max_part"
    and heads: "valid_hash (aw_heads w s)" and inv: "audit_inv C N sha (aw_db w)"
  shows "audit_inv C N sha (aw_db w') \<and> ks_now (aw_db w') = ks_now (aw_db w)"
proof -
  have ids: "ids_bounded (aw_db w)" and chain: "\<And>t. audit_chain C N sha (aw_db w) t" using inv by (auto simp: audit_inv_def)
  from run ws ids heads audit_chain_head [OF chain] show ?thesis
  proof (cases rule: attempt_cases)
    case unchanged
    then show ?thesis using inv by simp
  next
    case (committed new mid links fs final)
    let ?keys = "batch_keys s ws"
    note w = committed(3)[unfolded wrote_def] and shape = link_batch_shape [OF ws(1) committed(1)]
    have k1: "lua_key ?keys 1 = stream_key s" by (simp add: batch_keys_def lua_key_def)
    obtain t where t: "final = Some (sha t)" using shape committed(9) by blast
    have frame: "ks_data mid k = ks_data (aw_db w) k" if "k \<notin> set ?keys" for k using w lua_key_away [OF that] by blast
    have live: "entries_at (stream_key s) mid = entries_at (stream_key s) (aw_db w) @ zip new fs"
      using w batch_script(3) [OF ws(1) committed(1)] unfolding k1 by simp
    have db': "aw_db w' = ks_deadline (head_key s) None (ks_put (head_key s) (RString (sha t)) mid)"
      using committed(4) by (simp add: t or_empty_def ks_set_def)
    have now: "ks_now (aw_db w') = ks_now (aw_db w)" "ks_ttl mid = ks_ttl (aw_db w)" using w by (auto simp: db')
    have wf: "stream_wf (stream_at (stream_key s) mid)"
    proof -
      have "stream_wf (stream_at (stream_key s) (aw_db w))" using chain [of s] by (simp add: audit_chain_def)
      moreover have "list_all (\<lambda>f. distinct (map fst f)) fs" unfolding list_all_iff using shape stream_fields_distinct by metis
      moreover have "sorted_wrt (<) (st_last (stream_at (stream_key s) (aw_db w)) # new)" "list_all bounded_id new"
        "st_last (stream_at (stream_key s) mid) = last (st_last (stream_at (stream_key s) (aw_db w)) # new)"
        using w unfolding k1 by blast+
      ultimately show ?thesis using live stream_wf_extend by blast
    qed
    have same: "audit_chain C N sha (aw_db w') s"
    proof -
      obtain cp ixs where cp: "optional_checkpoint C (string_at (checkpoint_key s) (aw_db w)) = Inr cp"
          "walk_rows N sha s (map_option cp_last_hash cp) (dict_rows (entries_at (stream_key s) (aw_db w))) = Inr (aw_heads w s, ixs)"
          "ks_ttl (aw_db w) (stream_key s) = None" "ks_ttl (aw_db w) (checkpoint_key s) = None"
        using chain [of s] committed(2) by (auto simp: audit_chain_def)
      have "length new = length ws" using w shape by simp
      then obtain ixs' where "walk_rows N sha s (aw_heads w s) (dict_rows (zip new fs)) = Inr (final, ixs')"
        using walk_linked [OF sha_hex ws(1) heads committed(1)] by blast
      then have "walk_rows N sha s (map_option cp_last_hash cp) (dict_rows (entries_at (stream_key s) mid)) = Inr (Some (sha t), ixs @ ixs')"
        by (simp add: live dict_rows_def walk_append cp(2)[unfolded dict_rows_def] t)
      moreover have "string_at (checkpoint_key s) (aw_db w') = string_at (checkpoint_key s) (aw_db w)"
        using frame [OF batch_keys_away(1) [OF ws(1)]] by (simp add: db' string_at_def)
      ultimately show ?thesis using cp wf by (simp add: audit_chain_def db' now(2)) (simp add: string_at_def stream_at_def)
    qed
    have other: "audit_chain C N sha (aw_db w') u" if "u \<noteq> s" for u
      using chain [of u] that frame batch_keys_away [OF ws(1)] now(2)
      by (subst audit_chain_cong [of _ _ "aw_db w"]) (auto simp: db')
    have "\<forall>k. bounded_id (st_last (stream_at k mid))"
      using ids w unfolding ids_bounded_def by metis
    then have "ids_bounded (aw_db w')"
      using ids w by (simp add: ids_bounded_def ids_bounded_put db' now_ms_def)
    moreover have "audit_chain C N sha (aw_db w') u" for u using same other by (cases "u = s") auto
    ultimately show ?thesis using now by (simp add: audit_inv_def)
  qed
qed

text \<open>A segment whose rows are the prefix of the live stream, and the checkpoint after it.\<close>

definition move_ok :: "audit_stream \<Rightarrow> string option \<Rightarrow> archived_row list \<Rightarrow> string option \<times> string list \<Rightarrow> sid \<Rightarrow> checkpoint \<Rightarrow> bool" where
  "move_ok s old rows walked first_kept new \<longleftrightarrow>
     rows \<noteq> [] \<and> (\<forall>r \<in> set rows. distinct (map fst (snd r))) \<and>
     (\<exists>previous. optional_checkpoint C old = Inr previous \<and> walk_rows N sha s (map_option cp_last_hash previous) rows = Inr walked) \<and>
     successor_id (fst (last rows)) = Inr first_kept \<and> checkpoint_ok new \<and> cp_last_hash new = or_empty (fst walked)"

text \<open>The state in which the script finds the expected checkpoint and rows.\<close>

definition move_found :: "keyspace \<Rightarrow> audit_stream \<Rightarrow> string option \<Rightarrow> archived_row list \<Rightarrow> bool" where
  "move_found ks s old rows \<longleftrightarrow> or_empty (string_at (checkpoint_key s) ks) = or_empty old \<and>
     list_all2 same_row (take (length rows + 1) (filter (\<lambda>x. fst x \<le> fst (last rows)) (entries_at (stream_key s) ks))) (map row_json rows)"

lemma move_checkpoint:
  assumes "audit_chain C N sha ks s" and "move_ok s old rows walked first_kept new" and "move_found ks s old rows"
  shows "string_at (checkpoint_key s) ks = old"
proof -
  obtain cp where "optional_checkpoint C (string_at (checkpoint_key s) ks) = Inr cp" using assms(1) by (auto simp: audit_chain_def)
  moreover obtain previous where "optional_checkpoint C old = Inr previous" using assms(2) by (auto simp: move_ok_def)
  ultimately show ?thesis
    using assms(3) load_checkpoint_empty by (auto simp: move_found_def or_empty_def optional_checkpoint_def split: option.splits)
qed

lemma moved_split:
  assumes chain: "audit_chain C N sha ks s" and move: "move_ok s old rows walked first_kept new" and found: "move_found ks s old rows"
  obtains moved kept where "entries_at (stream_key s) ks = moved @ kept" "list_all2 same_record moved rows" "dict_rows moved = moved"
    "kept = filter (\<lambda>x. first_kept \<le> fst x) (entries_at (stream_key s) ks)" "moved = filter (\<lambda>x. fst x \<le> fst (last rows)) (entries_at (stream_key s) ks)"
proof -
  let ?live = "entries_at (stream_key s) ks" and ?i = "fst (last rows)"
  let ?moved = "filter (\<lambda>x. fst x \<le> ?i) ?live" and ?kept = "filter (\<lambda>x. first_kept \<le> fst x) ?live"
  have wf: "stream_wf (stream_at (stream_key s) ks)" using chain by (auto simp: audit_chain_def)
  have same: "list_all2 same_row (take (length rows + 1) ?moved) (map row_json rows)" using found by (simp add: move_found_def)
  have "length (take (length rows + 1) ?moved) = length rows" using same by (auto dest: list_all2_lengthD)
  then have same': "list_all2 same_row ?moved (map row_json rows)" using same by auto
  have fieldwise: "distinct (map fst (snd x))" if "x \<in> set ?moved" for x using wf that unfolding stream_wf_def list_all_iff by fastforce
  have "list_all2 same_record ?moved rows"
    using same' unfolding list_all2_map2
    by (rule list.rel_mono_strong) (use fieldwise move same_rowD in \<open>auto simp: move_ok_def same_record_def\<close>)
  moreover have "dict_rows ?moved = ?moved" using fieldwise by (auto simp: dict_rows_def dict_of_distinct intro: map_idI)
  moreover have "?live = ?moved @ ?kept"
  proof (rule sorted_split)
    show "sorted_wrt (<) (map fst ?live)" using wf by (simp add: stream_wf_def)
    show "first_kept \<le> fst x \<longleftrightarrow> \<not> fst x \<le> ?i" if "x \<in> set ?live" for x
      using wf that move successor_iff unfolding stream_wf_def list_all_iff move_ok_def by blast
  qed
  ultimately show ?thesis using that by blast
qed

lemma move_hash:
  assumes "move_ok s old rows walked first_kept new"
  shows "fst walked = Some (cp_last_hash new)"
proof -
  obtain t where "fst walked = Some (sha t)" using walk_final assms by (metis move_ok_def prod.collapse)
  then show ?thesis using assms by (simp add: move_ok_def or_empty_def)
qed

lemma moved_chain:
  assumes chain: "audit_chain C N sha ks s" and move: "move_ok s old rows walked first_kept new" and found: "move_found ks s old rows"
  shows "\<exists>ixs. walk_rows N sha s (Some (cp_last_hash new)) (dict_rows (filter (\<lambda>x. first_kept \<le> fst x) (entries_at (stream_key s) ks))) =
    Inr (string_at (head_key s) ks, ixs)"
proof -
  obtain moved kept where split: "entries_at (stream_key s) ks = moved @ kept" "list_all2 same_record moved rows" "dict_rows moved = moved"
      "kept = filter (\<lambda>x. first_kept \<le> fst x) (entries_at (stream_key s) ks)"
    using moved_split [OF assms] by metis
  obtain previous ixs where prev: "optional_checkpoint C old = Inr previous" "walk_rows N sha s (map_option cp_last_hash previous) rows = Inr walked"
      "walk_rows N sha s (map_option cp_last_hash previous) (dict_rows (moved @ kept)) = Inr (string_at (head_key s) ks, ixs)"
    using chain move move_checkpoint [OF assms] split(1) by (auto simp: audit_chain_def move_ok_def)
  have "list_all2 (\<lambda>x r. map_of (snd x) = map_of (snd r)) moved rows"
    using split(2) by (rule list_all2_mono) (simp add: same_record_def)
  then have "walk_rows N sha s (map_option cp_last_hash previous) (dict_rows moved) = Inr walked"
    using walk_rows_cong prev(2) split(3) by metis
  moreover have "dict_rows (moved @ kept) = dict_rows moved @ dict_rows kept" by (simp add: dict_rows_def)
  ultimately show ?thesis
    using prev(3) move_hash [OF move] split(4) by (cases walked) (auto simp: walk_append split: sum.splits)
qed

abbreviation run_move where
  "run_move s old rows walked first_kept new \<equiv>
     archive_script cjson ks_redis ([stream_key s, checkpoint_key s] @ sort (remdups (snd walked))) (or_empty old)
       (fst (last rows)) first_kept (json_dumps N (JList (map row_json rows))) (dump_checkpoint C new)"

lemma run_move_cases:
  assumes run: "run_move s old rows walked first_kept new ks = (out, ks')" and move: "move_ok s old rows walked first_kept new"
  obtains (kept) "ks' = ks"
    | (moved) "move_found ks s old rows"
        "entries_at (stream_key s) ks' = filter (\<lambda>x. first_kept \<le> fst x) (entries_at (stream_key s) ks)"
        "st_last (stream_at (stream_key s) ks') = st_last (stream_at (stream_key s) ks)"
        "string_at (checkpoint_key s) ks' = Some (dump_checkpoint C new)"
        "ks_ttl ks' (checkpoint_key s) = None" "ks_ttl ks' (stream_key s) = ks_ttl ks (stream_key s)"
        "\<forall>t k. k \<in> {stream_key t, head_key t, checkpoint_key t} \<longrightarrow> k \<notin> {stream_key s, checkpoint_key s} \<longrightarrow> ks_data ks' k = ks_data ks k \<and> ks_ttl ks' k = ks_ttl ks k"
        "\<forall>k. st_last (stream_at k ks') \<in> {st_last (stream_at k ks), (0, 0)}" "ks_now ks' = ks_now ks"
        "\<forall>k. \<not> has_prefix ''audit:'' k \<longrightarrow> ks_data ks' k = ks_data ks k \<and> ks_ttl ks' k = ks_ttl ks k"
proof -
  let ?keys = "[stream_key s, checkpoint_key s] @ sort (remdups (snd walked))"
  have ix: "has_prefix ''audit:by_'' k" if "k \<in> set (snd walked)" for k
    using move walk_indexes that unfolding move_ok_def by (metis prod.collapse)
  have "stream_key s \<notin> set (snd walked)" "checkpoint_key s \<notin> set (snd walked)" using ix index_key_apart by blast+
  then have keys: "distinct ?keys" "2 \<le> length ?keys" by auto
  have json: "cjson (json_dumps N (JList (map row_json rows))) = Some (JList (map row_json rows))"
    by (rule cjson_dumps) (use move in \<open>auto simp: move_ok_def row_json_def list_all_iff comp_def\<close>)
  have k12: "lua_key ?keys 1 = stream_key s" "lua_key ?keys 2 = checkpoint_key s" by (simp_all add: lua_key_def)
  from run keys json show ?thesis
  proof (cases rule: archive_script_cases)
    case same: kept
    then show ?thesis using kept by blast
  next
    case found: moved
    note m = found(4)[unfolded moved_state_def k12]
    have away: "k \<notin> set ?keys" if "k \<in> {stream_key t, head_key t, checkpoint_key t}" "k \<notin> {stream_key s, checkpoint_key s}" for k t
      using that ix index_key_apart(1-3) by (auto, blast+)
    have outside: "k \<notin> set ?keys" if "\<not> has_prefix ''audit:'' k" for k
    proof -
      have "k \<notin> set (snd walked)" using that ix index_key_apart(4) by blast
      moreover have "k \<noteq> stream_key s" "k \<noteq> checkpoint_key s" using that audit_key_prefix by auto
      ultimately show ?thesis by simp
    qed
    have "move_found ks s old rows" using found(2,3) unfolding k12 length_map move_found_def by blast
    then show ?thesis using moved m away outside by (simp add: string_at_def)
  qed
qed

lemma archive_script_keeps:
  assumes run: "run_move s old rows walked first_kept new ks = (out, ks')"
    and move: "move_ok s old rows walked first_kept new" and inv: "audit_inv C N sha ks"
  shows "audit_inv C N sha ks' \<and> ks_now ks' = ks_now ks"
proof -
  have chain: "audit_chain C N sha ks t" for t using inv by (simp add: audit_inv_def)
  from run move show ?thesis
  proof (cases rule: run_move_cases)
    case kept
    then show ?thesis using inv by simp
  next
    case moved
    have frame: "ks_data ks' k = ks_data ks k \<and> ks_ttl ks' k = ks_ttl ks k"
      if "k \<in> {stream_key t, head_key t, checkpoint_key t}" "k \<notin> {stream_key s, checkpoint_key s}" for k t using moved(7) that by blast
    obtain ixs where walk: "walk_rows N sha s (Some (cp_last_hash new)) (dict_rows (filter (\<lambda>x. first_kept \<le> fst x) (entries_at (stream_key s) ks))) =
        Inr (string_at (head_key s) ks, ixs)"
      using moved_chain [OF chain move moved(1)] by blast
    have "stream_wf (stream_at (stream_key s) ks)" using chain [of s] by (simp add: audit_chain_def)
    then have "stream_wf (stream_at (stream_key s) ks')" using moved(2,3) by (auto simp: stream_wf_def sorted_wrt_map sorted_wrt_filter list_all_iff)
    moreover have "load_checkpoint C (dump_checkpoint C new) = Some new" using checkpoint_roundtrip move by (simp add: move_ok_def)
    moreover have "string_at (head_key s) ks' = string_at (head_key s) ks" "ks_ttl ks' (head_key s) = ks_ttl ks (head_key s)"
      using frame [of "head_key s" s] by (simp_all add: string_at_def)
    ultimately have "audit_chain C N sha ks' s"
      using walk moved(2-6) chain [of s] unfolding audit_chain_def by (simp add: optional_checkpoint_def)
    moreover have "audit_chain C N sha ks' t" if "t \<noteq> s" for t
    proof -
      have "ks_data ks' k = ks_data ks k \<and> ks_ttl ks' k = ks_ttl ks k" if "k \<in> {stream_key t, head_key t, checkpoint_key t}" for k
        by (rule frame [OF that]) (use that \<open>t \<noteq> s\<close> in auto)
      then have "audit_chain C N sha ks' t \<longleftrightarrow> audit_chain C N sha ks t" by (rule audit_chain_cong)
      then show ?thesis using chain by simp
    qed
    moreover have "bounded_id (st_last (stream_at k ks'))" for k
    proof -
      have "st_last (stream_at k ks') \<in> {st_last (stream_at k ks), (0, 0)}" using moved(8) by blast
      then show ?thesis using inv by (auto simp: audit_inv_def ids_bounded_def bounded_id_def)
    qed
    ultimately have "audit_chain C N sha ks' t" "bounded_id (st_last (stream_at k ks'))" for t k by (cases "t = s"; blast)+
    then show ?thesis using inv moved(9) by (simp add: audit_inv_def ids_bounded_def now_ms_def)
  qed
qed

end

end
