(* ===== verification/Audit_Codec.thy ===== *)
theory Audit_Codec
  imports Audit_Archive
begin

text \<open>
  A JSON codec for the checkpoints and segments of the audit archive: the members of the
  pydantic models by name, identifiers as text. It satisfies the laws that the archive
  relies on, so the parameter of the model can be filled.
\<close>

definition read_sid :: "string \<Rightarrow> sid option" where
  "read_sid t = Option.bind (read_nat (takeWhile (\<lambda>c. c \<noteq> CHR ''-'') t)) (\<lambda>m.
     map_option (Pair m) (read_nat (drop 1 (dropWhile (\<lambda>c. c \<noteq> CHR ''-'') t))))"

definition stream_named :: "string \<Rightarrow> audit_stream option" where
  "stream_named t = find (\<lambda>s. stream_key s = t) [Messages, Security_Events]"

definition member :: "json \<Rightarrow> string \<Rightarrow> json option" where
  "member v k = (case v of JObj kvs \<Rightarrow> map_of kvs k | _ \<Rightarrow> None)"

definition text_member :: "json \<Rightarrow> string \<Rightarrow> string option" where
  "text_member v k = (case member v k of Some (JStr t) \<Rightarrow> Some t | _ \<Rightarrow> None)"

definition checkpoint_json :: "checkpoint \<Rightarrow> json" where
  "checkpoint_json c = JObj [(''stream'', JStr (stream_key (cp_stream c))), (''last_stream_id'', JStr (sid_text (cp_last_stream_id c))),
     (''last_hash'', JStr (cp_last_hash c)), (''segment_digest'', JStr (cp_segment_digest c)), (''total_entries'', JInt (cp_total_entries c))]"

definition checkpoint_of :: "json \<Rightarrow> checkpoint option" where
  "checkpoint_of v =
     Option.bind (Option.bind (text_member v ''stream'') stream_named) (\<lambda>s.
     Option.bind (Option.bind (text_member v ''last_stream_id'') read_sid) (\<lambda>i.
     Option.bind (text_member v ''last_hash'') (\<lambda>h.
     Option.bind (text_member v ''segment_digest'') (\<lambda>d.
     case member v ''total_entries'' of
       Some (JInt n) \<Rightarrow>
         (let c = \<lparr>cp_stream = s, cp_last_stream_id = i, cp_last_hash = h, cp_segment_digest = d, cp_total_entries = n\<rparr> in
          if checkpoint_ok c then Some c else None)
     | _ \<Rightarrow> None))))"

definition text_pairs :: "json \<Rightarrow> (string \<times> string) list option" where
  "text_pairs v = (case v of JObj kvs \<Rightarrow> map_option (zip (map fst kvs)) (strings_of (map snd kvs)) | _ \<Rightarrow> None)"

definition row_of :: "json \<Rightarrow> archived_row option" where
  "row_of v = Option.bind (Option.bind (text_member v ''stream_id'') read_sid) (\<lambda>i.
     map_option (Pair i) (Option.bind (member v ''fields'') text_pairs))"

fun rows_of :: "json list \<Rightarrow> archived_row list option" where
  "rows_of [] = Some []"
| "rows_of (v # vs) = Option.bind (row_of v) (\<lambda>r. map_option ((#) r) (rows_of vs))"

definition segment_json :: "segment \<Rightarrow> json" where
  "segment_json s = JObj [(''stream'', JStr (stream_key (seg_stream s))),
     (''previous_checkpoint'', case seg_previous s of None \<Rightarrow> JNull | Some c \<Rightarrow> checkpoint_json c),
     (''rows'', JList (map row_json (seg_rows s))), (''last_hash'', JStr (seg_last_hash s))]"

definition segment_of :: "json \<Rightarrow> segment option" where
  "segment_of v =
     Option.bind (Option.bind (text_member v ''stream'') stream_named) (\<lambda>s.
     Option.bind (Option.bind (member v ''previous_checkpoint'') (\<lambda>p. if p = JNull then Some None else map_option Some (checkpoint_of p))) (\<lambda>p.
     Option.bind (case member v ''rows'' of Some (JList vs) \<Rightarrow> rows_of vs | _ \<Rightarrow> None) (\<lambda>rows.
     Option.bind (text_member v ''last_hash'') (\<lambda>h.
       let seg = \<lparr>seg_stream = s, seg_previous = p, seg_rows = rows, seg_last_hash = h\<rparr> in
       if segment_ok seg then Some seg else None))))"

definition json_codec :: "text_numbers \<Rightarrow> archive_codec" where
  "json_codec N = \<lparr>dump_segment = \<lambda>s. json_dumps N (segment_json s), load_segment = \<lambda>t. Option.bind (json_loads N t) segment_of,
     dump_checkpoint = \<lambda>c. json_dumps N (checkpoint_json c), load_checkpoint = \<lambda>t. Option.bind (json_loads N t) checkpoint_of\<rparr>"

section \<open>Round trips\<close>

lemma read_sid_text [simp]: "read_sid (sid_text i) = Some i"
proof -
  have "list_all (\<lambda>c. c \<noteq> CHR ''-'') (show_nat n)" for n using show_nat_digits [of n] by (auto simp: list_all_iff is_digit_def)
  then have "takeWhile (\<lambda>c. c \<noteq> CHR ''-'') (sid_text i) = show_nat (fst i)" "dropWhile (\<lambda>c. c \<noteq> CHR ''-'') (sid_text i) = CHR ''-'' # show_nat (snd i)"
    by (simp_all add: sid_text_def takeWhile_append dropWhile_append list_all_iff)
  then show ?thesis by (simp add: read_sid_def)
qed

lemma stream_named_key [simp]: "stream_named (stream_key s) = Some s"
  by (cases s) (simp_all add: stream_named_def)

lemma checkpoint_of_json [simp]: "checkpoint_of (checkpoint_json c) = (if checkpoint_ok c then Some c else None)"
  by (simp add: checkpoint_of_def checkpoint_json_def text_member_def member_def Let_def checkpoint_ok_def)

lemma checkpoint_json_object [simp]: "checkpoint_json c \<noteq> JNull"
  by (simp add: checkpoint_json_def)

lemma bind_SomeE: "Option.bind m f = Some y \<Longrightarrow> (\<And>x. f x = Some y \<Longrightarrow> P) \<Longrightarrow> P"
  by (cases m) auto

lemma checkpoint_of_ok: "checkpoint_of v = Some c \<Longrightarrow> checkpoint_ok c"
  unfolding checkpoint_of_def by (elim bind_SomeE) (auto simp: Let_def split: option.splits json.splits if_splits)

lemma row_of_json [simp]: "row_of (row_json r) = Some r"
proof -
  have "strings_of (map JStr ts) = Some ts" for ts by simp
  from this [of "map snd (snd r)"] show ?thesis
    by (simp add: row_of_def row_json_def text_member_def member_def text_pairs_def comp_def zip_map_fst_snd)
qed

lemma rows_of_json [simp]: "rows_of (map row_json rows) = Some rows"
  by (induction rows) auto

lemma segment_of_json [simp]: "segment_of (segment_json s) = (if segment_ok s then Some s else None)"
  by (cases "seg_previous s") (simp_all add: segment_of_def segment_json_def text_member_def member_def Let_def segment_ok_def)

lemma segment_of_ok: "segment_of v = Some s \<Longrightarrow> segment_ok s"
  unfolding segment_of_def by (elim bind_SomeE) (auto simp: Let_def split: if_splits)

lemma json_ok_checkpoint [simp]: "json_ok N (checkpoint_json c)"
  by (simp add: checkpoint_json_def)

lemma json_ok_segment: "segment_ok s \<Longrightarrow> json_ok N (segment_json s)"
  by (auto simp: segment_json_def segment_ok_def row_json_def list_all_iff comp_def split: option.splits)

context json_numerals
begin

lemma json_codec_laws: "archive_json (json_codec N)"
proof
  fix s c t
  show "segment_ok s \<Longrightarrow> load_segment (json_codec N) (dump_segment (json_codec N) s) = Some s"
    using json_loads_dumps [OF json_ok_segment] by (simp add: json_codec_def)
  show "checkpoint_ok c \<Longrightarrow> load_checkpoint (json_codec N) (dump_checkpoint (json_codec N) c) = Some c"
    using json_loads_dumps [OF json_ok_checkpoint] by (simp add: json_codec_def)
  show "load_segment (json_codec N) t = Some s \<Longrightarrow> segment_ok s" "load_checkpoint (json_codec N) t = Some c \<Longrightarrow> checkpoint_ok c"
    using segment_of_ok checkpoint_of_ok by (auto simp: json_codec_def bind_eq_Some_conv)
  show "load_checkpoint (json_codec N) [] = None"
    by (simp add: json_codec_def json_loads_def skip_space_def)
qed

end

interpretation point_codec: archive_json "json_codec point_numbers"
  by (rule point.json_codec_laws)

end
