(* ===== verification/Audit_Runs.thy ===== *)
theory Audit_Runs
  imports Audit_Writer Audit_Codec
begin

text \<open>
  The audit trail under any interleaving of writers and archivers. The trail of a stream is
  the chain of archived segments behind its checkpoint followed by the live records. Each
  step keeps the chain, keeps every record in its place, and leaves the live stream within
  its capacity.
\<close>

section \<open>The archived prefix\<close>

definition after :: "checkpoint option \<Rightarrow> sid" where
  "after cp = (case cp of None \<Rightarrow> (0, 0) | Some c \<Rightarrow> cp_last_stream_id c)"

definition total_before :: "checkpoint option \<Rightarrow> int" where
  "total_before cp = (case cp of None \<Rightarrow> 0 | Some c \<Rightarrow> cp_total_entries c)"

definition segment_fits :: "text_numbers \<Rightarrow> (string \<Rightarrow> string) \<Rightarrow> audit_stream \<Rightarrow> checkpoint \<Rightarrow> segment \<Rightarrow> bool" where
  "segment_fits N sha s cp seg \<longleftrightarrow>
     seg_stream seg = s \<and> cp_stream cp = s \<and> seg_last_hash seg = cp_last_hash cp \<and> seg_rows seg \<noteq> [] \<and>
     fst (last (seg_rows seg)) = cp_last_stream_id cp \<and>
     cp_total_entries cp = total_before (seg_previous seg) + int (length (seg_rows seg)) \<and>
     sorted_wrt (<) (after (seg_previous seg) # map fst (seg_rows seg)) \<and>
     (\<exists>ixs. walk_rows N sha s (map_option cp_last_hash (seg_previous seg)) (seg_rows seg) = Inr (Some (cp_last_hash cp), ixs))"

inductive archived :: "archive_codec \<Rightarrow> text_numbers \<Rightarrow> (string \<Rightarrow> string) \<Rightarrow> archive_files \<Rightarrow> audit_stream \<Rightarrow> checkpoint option \<Rightarrow>
    archived_row list \<Rightarrow> bool" for C N sha files s where
  no_checkpoint: "archived C N sha files s None []"
| checkpointed: "archive_read C sha files (cp_segment_digest cp) = Inr seg \<Longrightarrow> segment_fits N sha s cp seg \<Longrightarrow>
    archived C N sha files s (seg_previous seg) hist \<Longrightarrow> archived C N sha files s (Some cp) (hist @ seg_rows seg)"

inductive_cases archived_NoneE: "archived C N sha files s None hist"
inductive_cases archived_SomeE: "archived C N sha files s (Some cp) hist"

lemma archive_read_mono:
  assumes "archive_read C sha files digest = Inr seg" and "files \<subseteq>\<^sub>m files'"
  shows "archive_read C sha files' digest = Inr seg"
proof -
  obtain body where "files (segment_file digest) = Some body"
    using assms(1) by (auto simp: archive_read_def read_file_def split: if_splits option.splits)
  then have "files' (segment_file digest) = files (segment_file digest)" using assms(2) by (metis domI map_le_def)
  then have "read_file files' digest e = read_file files digest e" for e by (simp add: read_file_def)
  then have "archive_read C sha files' digest = archive_read C sha files digest" by (simp add: archive_read_def)
  then show ?thesis using assms(1) by simp
qed

lemma archived_mono: "archived C N sha files s cp hist \<Longrightarrow> files \<subseteq>\<^sub>m files' \<Longrightarrow> archived C N sha files' s cp hist"
proof (induction rule: archived.induct)
  case (checkpointed cp seg hist)
  then show ?case using archive_read_mono archived.checkpointed by blast
qed (rule archived.no_checkpoint)

lemma archived_unique: "archived C N sha files s cp hist \<Longrightarrow> archived C N sha files s cp hist' \<Longrightarrow> hist' = hist"
proof (induction arbitrary: hist' rule: archived.induct)
  case no_checkpoint
  then show ?case by (auto elim: archived_NoneE)
next
  case (checkpointed cp seg hist)
  from checkpointed.prems checkpointed.hyps(1) obtain h where "archived C N sha files s (seg_previous seg) h" "hist' = h @ seg_rows seg"
    by (auto elim!: archived_SomeE)
  then show ?case using checkpointed.IH by simp
qed

section \<open>The trail\<close>

definition trail :: "archive_codec \<Rightarrow> text_numbers \<Rightarrow> (string \<Rightarrow> string) \<Rightarrow> archive_files \<times> keyspace \<Rightarrow> audit_stream \<Rightarrow> archived_row list \<Rightarrow> bool" where
  "trail C N sha x s rows \<longleftrightarrow>
     (\<exists>cp hist. optional_checkpoint C (string_at (checkpoint_key s) (snd x)) = Inr cp \<and> archived C N sha (fst x) s cp hist \<and>
        rows = hist @ entries_at (stream_key s) (snd x) \<and> after cp \<le> st_last (stream_at (stream_key s) (snd x)) \<and>
        (\<forall>r \<in> set (entries_at (stream_key s) (snd x)). after cp < fst r))"

lemma trail_unique: "trail C N sha x s rows \<Longrightarrow> trail C N sha x s rows' \<longleftrightarrow> rows' = rows"
  unfolding trail_def using archived_unique by (metis sum.inject(2))

text \<open>The chain and the trail of both streams, and live streams within their capacity.\<close>

definition audit_good :: "archive_codec \<Rightarrow> text_numbers \<Rightarrow> (string \<Rightarrow> string) \<Rightarrow> retention_settings \<Rightarrow> archive_files \<times> keyspace \<Rightarrow> bool" where
  "audit_good C N sha settings x \<longleftrightarrow>
     audit_inv C N sha (snd x) \<and> (\<forall>s. \<exists>rows. trail C N sha x s rows) \<and>
     (\<forall>s. int (length (entries_at (stream_key s) (snd x))) \<le> stream_capacity settings s)"

definition continues :: "archived_row list \<Rightarrow> archived_row list \<Rightarrow> bool" where
  "continues rows rows' \<longleftrightarrow> (\<exists>same more. rows' = same @ more \<and> list_all2 same_record rows same)"

definition grows :: "archive_codec \<Rightarrow> text_numbers \<Rightarrow> (string \<Rightarrow> string) \<Rightarrow> archive_files \<times> keyspace \<Rightarrow> archive_files \<times> keyspace \<Rightarrow> bool" where
  "grows C N sha x y \<longleftrightarrow> fst x \<subseteq>\<^sub>m fst y \<and>
     (\<forall>s rows. trail C N sha x s rows \<longrightarrow> (\<exists>rows'. trail C N sha y s rows' \<and> continues rows rows'))"

lemma same_record_refl [simp]: "list_all2 same_record rows rows"
  by (simp add: list_all2_same same_record_def)

lemma same_records_trans: "list_all2 same_record xs ys \<Longrightarrow> list_all2 same_record ys zs \<Longrightarrow> list_all2 same_record xs zs"
  by (rule list_all2_trans [of same_record same_record same_record]) (auto simp: same_record_def)

lemma continues_refl [simp]: "continues rows rows"
  unfolding continues_def by (intro exI [of _ rows] exI [of _ "[]"]) simp

lemma continues_append [simp]: "continues rows (rows @ new)"
  unfolding continues_def by (intro exI [of _ rows] exI [of _ new]) simp

lemma continues_trans:
  assumes "continues xs ys" and "continues ys zs"
  shows "continues xs zs"
proof -
  obtain a m where a: "ys = a @ m" "list_all2 same_record xs a" using assms(1) by (auto simp: continues_def)
  obtain b n where b: "zs = b @ n" "list_all2 same_record ys b" using assms(2) by (auto simp: continues_def)
  obtain b1 b2 where "b = b1 @ b2" "list_all2 same_record a b1" using a(1) b(2) by (metis list_all2_append1)
  then show ?thesis using a b same_records_trans unfolding continues_def by (metis append.assoc)
qed

lemma grows_refl [simp]: "grows C N sha x x"
  unfolding grows_def by (meson continues_refl map_le_refl)

lemma grows_trans: "grows C N sha x y \<Longrightarrow> grows C N sha y z \<Longrightarrow> grows C N sha x z"
  unfolding grows_def by (meson continues_trans map_le_trans)

text \<open>A step that leaves the keys of both streams alone and only adds files.\<close>

lemma trail_frame:
  assumes "\<And>k. k \<in> {stream_key s, checkpoint_key s} \<Longrightarrow> ks_data ks' k = ks_data ks k" and "files \<subseteq>\<^sub>m files'"
    and "trail C N sha (files, ks) s rows"
  shows "trail C N sha (files', ks') s rows"
proof -
  have "stream_at (stream_key s) ks' = stream_at (stream_key s) ks" "string_at (checkpoint_key s) ks' = string_at (checkpoint_key s) ks"
    using assms(1) by (auto simp: stream_at_def string_at_def)
  then show ?thesis using assms(2,3) archived_mono unfolding trail_def fst_conv snd_conv by metis
qed

lemma frame_good:
  assumes "\<And>s k. k \<in> {stream_key s, head_key s, checkpoint_key s} \<Longrightarrow> ks_data ks' k = ks_data ks k \<and> ks_ttl ks' k = ks_ttl ks k"
    and "ids_bounded ks'" and "files \<subseteq>\<^sub>m files'" and good: "audit_good C N sha settings (files, ks)"
  shows "audit_good C N sha settings (files', ks') \<and> grows C N sha (files, ks) (files', ks')"
proof -
  have step: "trail C N sha (files', ks') s rows" if "trail C N sha (files, ks) s rows" for s rows
    using trail_frame [OF _ assms(3) that] assms(1) [of _ s] by blast
  moreover have "entries_at (stream_key s) ks' = entries_at (stream_key s) ks" for s using assms(1) [of "stream_key s" s] by (simp add: stream_at_def)
  moreover have "audit_chain C N sha ks' s" for s
    using good assms(1) by (subst audit_chain_cong [of s ks' ks]) (auto simp: audit_good_def audit_inv_def)
  ultimately show ?thesis
    using good assms(2,3) continues_refl unfolding audit_good_def audit_inv_def grows_def fst_conv snd_conv by metis
qed

section \<open>One step\<close>

lemma archive_write_cases:
  assumes "archive_write C sha disk seg files = (res, files')"
  shows "files \<subseteq>\<^sub>m files'"
    and "res = Inr digest \<Longrightarrow> digest = sha (dump_segment C seg) \<and> files' (segment_file digest) = Some (dump_segment C seg) \<and>
      length (dump_segment C seg) \<le> max_segment_bytes"
  using assms
  by (auto simp: archive_write_def write_file_def read_file_def io_simps map_le_def Let_def split: if_splits option.splits sum.splits)

context audit_setting
begin

lemma committed_effect:
  assumes ws: "list_all (write_ok N s) ws" and links: "link_batch N sha h ws = (links, fs, final)"
    and wrote: "wrote (batch_keys s ws) (length (batch_indexes ws)) (map2 (batch_record_of (batch_indexes ws @ batch_effects ws)) ws fs) new ks mid"
    and ks': "ks' = snd (ks_set (head_key s) t mid)"
  shows "entries_at (stream_key s) ks' = entries_at (stream_key s) ks @ zip new fs"
    "st_last (stream_at (stream_key s) ks') = last (st_last (stream_at (stream_key s) ks) # new)"
    "sorted_wrt (<) (st_last (stream_at (stream_key s) ks) # new)" "length new = length ws" "length fs = length ws"
    "\<And>k. k \<in> {stream_key u, checkpoint_key u} \<Longrightarrow> k \<noteq> stream_key s \<Longrightarrow> ks_data ks' k = ks_data ks k"
proof -
  let ?keys = "batch_keys s ws"
  note w = wrote [unfolded wrote_def] and shape = link_batch_shape [OF ws links]
  have k1: "lua_key ?keys 1 = stream_key s" by (simp add: batch_keys_def lua_key_def)
  have main: "stream_at (stream_key s) ks' = stream_at (stream_key s) mid" by (simp add: ks' ks_set_def stream_at_def)
  show "entries_at (stream_key s) ks' = entries_at (stream_key s) ks @ zip new fs"
    using w batch_script(3) [OF ws links] unfolding k1 main by simp
  show "st_last (stream_at (stream_key s) ks') = last (st_last (stream_at (stream_key s) ks) # new)"
    "sorted_wrt (<) (st_last (stream_at (stream_key s) ks) # new)"
    using w unfolding k1 main by blast+
  show "length new = length ws" "length fs = length ws" using w shape by simp_all
  show "ks_data ks' k = ks_data ks k" if "k \<in> {stream_key u, checkpoint_key u}" "k \<noteq> stream_key s" for k
  proof -
    have "k \<notin> set ?keys" using that batch_keys_away [OF ws] by auto
    then have "ks_data mid k = ks_data ks k" using w lua_key_away by blast
    then show ?thesis using that by (auto simp: ks' ks_set_def)
  qed
qed

lemma append_trail:
  assumes ws: "list_all (write_ok N s) ws" and links: "link_batch N sha h ws = (links, fs, final)"
    and wrote: "wrote (batch_keys s ws) (length (batch_indexes ws)) (map2 (batch_record_of (batch_indexes ws @ batch_effects ws)) ws fs) new ks mid"
    and ks': "ks' = snd (ks_set (head_key s) t mid)" and old: "trail C N sha (files, ks) u rows"
  shows "trail C N sha (files, ks') u (if u = s then rows @ zip new fs else rows)"
proof (cases "u = s")
  case False
  then have "trail C N sha (files, ks') u rows"
    using committed_effect(6) [OF ws links wrote ks', of _ u] by (intro trail_frame [OF _ _ old]) auto
  then show ?thesis using False by simp
next
  case True
  note eff = committed_effect [OF ws links wrote ks']
  let ?st = "stream_at (stream_key s) ks"
  have ck: "string_at (checkpoint_key s) ks' = string_at (checkpoint_key s) ks" using eff(6) [of "checkpoint_key s" s] by (simp add: string_at_def)
  obtain cp hist where cp: "optional_checkpoint C (string_at (checkpoint_key s) ks) = Inr cp" "archived C N sha files s cp hist"
      "rows = hist @ entries_at (stream_key s) ks" "after cp \<le> st_last ?st" "\<forall>r \<in> set (entries_at (stream_key s) ks). after cp < fst r"
    using old True by (auto simp: trail_def)
  have above: "st_last ?st < i" if "i \<in> set new" for i using eff(3) that by auto
  have "st_last ?st \<le> last (st_last ?st # new)" using above by (cases new rule: rev_cases) (auto simp: less_imp_le)
  then have "after cp \<le> st_last (stream_at (stream_key s) ks')" using cp(4) eff(2) by (metis order_trans)
  moreover have "after cp < fst r" if "r \<in> set (zip new fs)" for r
  proof -
    have "fst r \<in> set new" using set_zip_leftD [of "fst r" "snd r" new fs] that by simp
    then show ?thesis using cp(4) above by (metis le_less_trans)
  qed
  ultimately have "trail C N sha (files, ks') s (rows @ zip new fs)"
    unfolding trail_def fst_conv snd_conv ck eff(1) set_append using cp by (metis Un_iff append.assoc)
  then show ?thesis using True by simp
qed

lemma attempt_step:
  assumes run: "append_attempt N cjson sha ks_redis settings s ws w = (out, w')"
    and ws: "list_all (write_ok N s) ws" "length ws \<le> max_part" and heads: "valid_hash (aw_heads w s)"
    and good: "audit_good C N sha settings (aw_files w, aw_db w)"
  shows "audit_good C N sha settings (aw_files w', aw_db w') \<and> grows C N sha (aw_files w, aw_db w) (aw_files w', aw_db w')"
proof -
  have inv: "audit_inv C N sha (aw_db w)" using good by (simp add: audit_good_def)
  have inv': "audit_inv C N sha (aw_db w')" using attempt_keeps [OF run ws heads inv] by blast
  have "valid_hash (string_at (head_key s) (aw_db w))" "ids_bounded (aw_db w)" using inv audit_chain_head by (auto simp: audit_inv_def)
  from run ws this(2) heads this(1) show ?thesis
  proof (cases rule: attempt_cases)
    case unchanged
    then show ?thesis using good by simp
  next
    case (committed new mid links fs final)
    note eff = committed_effect [OF ws(1) committed(1,3,4)]
    have step: "\<exists>rows'. trail C N sha (aw_files w', aw_db w') u rows' \<and> continues rows rows'" if "trail C N sha (aw_files w, aw_db w) u rows" for u rows
    proof -
      have "trail C N sha (aw_files w', aw_db w') u (if u = s then rows @ zip new fs else rows)"
        using append_trail [OF ws(1) committed(1,3,4) that] committed(5) by simp
      moreover have "continues rows (if u = s then rows @ zip new fs else rows)" by simp
      ultimately show ?thesis by blast
    qed
    have "int (length (entries_at (stream_key u) (aw_db w'))) \<le> stream_capacity settings u" for u
    proof (cases "u = s")
      case True
      then show ?thesis using eff(1,4,5) committed(8) by simp
    next
      case False
      then have "entries_at (stream_key u) (aw_db w') = entries_at (stream_key u) (aw_db w)"
        using eff(6) [of "stream_key u" u] by (simp add: stream_at_def)
      then show ?thesis using good by (simp add: audit_good_def)
    qed
    then show ?thesis
      using inv' step good committed(5) unfolding audit_good_def grows_def fst_conv snd_conv by (metis map_le_refl)
  qed
qed

text \<open>The plan of an archiver: a readable segment, and the checkpoint for it.\<close>

definition archive_plan :: "archive_files \<Rightarrow> audit_stream \<Rightarrow> string option \<Rightarrow> archived_row list \<Rightarrow> string option \<times> string list \<Rightarrow> sid \<Rightarrow>
    checkpoint \<Rightarrow> segment \<Rightarrow> bool" where
  "archive_plan files s old rows walked first_kept new seg \<longleftrightarrow>
     move_ok s old rows walked first_kept new \<and> archive_read C sha files (cp_segment_digest new) = Inr seg \<and>
     seg_stream seg = s \<and> cp_stream new = s \<and> seg_rows seg = rows \<and> seg_last_hash seg = cp_last_hash new \<and>
     cp_last_stream_id new = fst (last rows) \<and> optional_checkpoint C old = Inr (seg_previous seg) \<and>
     cp_total_entries new = total_before (seg_previous seg) + int (length rows)"

lemma written_segment:
  assumes "archive_write C sha disk seg files = (Inr digest, files')" and "segment_ok seg"
  shows "archive_read C sha files' digest = Inr seg"
  using archive_write_cases(2) [OF assms(1) refl] sha_hex segment_roundtrip [OF assms(2)]
  by (auto simp: archive_read_def read_file_def)

lemma archive_prefix_cases:
  assumes run: "archive_prefix C N cjson sha ks_redis settings durability disk others s w = (out, w')"
  obtains (left) "aw_db w' = aw_db w" "aw_files w \<subseteq>\<^sub>m aw_files w'" "aw_heads w' = aw_heads w"
    | (reached) old rows walked first_kept new seg w1 r db where
        "aw_db w1 = aw_db w" "aw_files w \<subseteq>\<^sub>m aw_files w1" "aw_heads w1 = aw_heads w"
        "archive_plan (aw_files w1) s old rows walked first_kept new seg"
        "run_move s old rows walked first_kept new (aw_db (others w1)) = (r, db)" "w' = (others w1)\<lparr>aw_db := db\<rparr>"
proof -
  have reads: "on_db (ks_get k) w = (fst (ks_get k (aw_db w)), w)" "on_db (ks_xrange k a b c) w = (fst (ks_xrange k a b c (aw_db w)), w)" for k a b c
    by (auto simp: on_db_def ks_get_def ks_xrange_def split: prod.splits option.splits rvalue.splits sum.splits)
  show ?thesis
  proof (cases "fst (ks_get (checkpoint_key s) (aw_db w))")
    case (Inl e)
    then show ?thesis using run left by (auto simp: archive_prefix_def io_simps reads)
  next
    case old: (Inr old)
    show ?thesis
    proof (cases "fst (ks_xrange (stream_key s) FromFirst None (batch_size settings) (aw_db w))")
      case (Inl e)
      then show ?thesis using run left old by (auto simp: archive_prefix_def io_simps reads)
    next
      case raw: (Inr raw)
      let ?rows = "dict_rows raw"
      show ?thesis
      proof (cases "\<exists>previous walked. optional_checkpoint C old = Inr previous \<and> ?rows \<noteq> [] \<and>
          walk_rows N sha s (map_option cp_last_hash previous) ?rows = Inr walked")
        case False
        then have "w' = w" using run old raw
          by (auto simp: archive_prefix_def io_simps reads Let_def split: sum.splits if_splits)
        then show ?thesis using left by simp
      next
        case True
        then obtain previous walked where pw: "optional_checkpoint C old = Inr previous" "?rows \<noteq> []"
            "walk_rows N sha s (map_option cp_last_hash previous) ?rows = Inr walked" by blast
        define seg where "seg = \<lparr>seg_stream = s, seg_previous = previous, seg_rows = ?rows, seg_last_hash = or_empty (fst walked)\<rparr>"
        obtain res files where wr: "archive_write C sha disk seg (aw_files w) = (res, files)" by fastforce
        note grow = archive_write_cases(1) [OF wr]
        define new where "new digest = \<lparr>cp_stream = s, cp_last_stream_id = fst (last ?rows), cp_last_hash = or_empty (fst walked),
            cp_segment_digest = digest, cp_total_entries = total_before previous + int (length ?rows)\<rparr>" for digest
        show ?thesis
        proof (cases "segment_ok seg \<and> (\<exists>digest first_kept. res = Inr digest \<and> successor_id (fst (last ?rows)) = Inr first_kept \<and> checkpoint_ok (new digest))")
          case False
          then have "w' = w \<or> w' = w\<lparr>aw_files := files\<rparr>" using run old raw pw wr
            unfolding archive_prefix_def seg_def new_def total_before_def
            by (auto simp: io_simps reads Let_def on_files_def split: sum.splits if_splits prod.splits)
          then show ?thesis using left grow by auto
        next
          case True
          then obtain digest first_kept where ok: "segment_ok seg" "res = Inr digest" "successor_id (fst (last ?rows)) = Inr first_kept"
              "checkpoint_ok (new digest)" by blast
          let ?w1 = "w\<lparr>aw_files := files\<rparr>"
          obtain r db where mv: "run_move s old ?rows walked first_kept (new digest) (aw_db (others ?w1)) = (r, db)" by fastforce
          have "archive_plan files s old ?rows walked first_kept (new digest) seg"
            using written_segment wr ok pw dict_of_keys
            by (auto simp: archive_plan_def move_ok_def new_def seg_def total_before_def dict_rows_def)
          moreover have move: "on_db (run_move s old ?rows walked first_kept (new digest)) (others ?w1) = (r, (others ?w1)\<lparr>aw_db := db\<rparr>)"
            using mv by (simp add: on_db_def)
          have confirmed: "on_db (confirm ks_redis durability) v = (if acknowledged durability (aw_db v) then Inr () else Inl unconfirmed, v)"
            for v :: "keyspace audit_world" by (simp add: on_db_def confirm_ks)
          have "w' = (others ?w1)\<lparr>aw_db := db\<rparr>"
            using run old raw pw wr ok move confirmed unfolding archive_prefix_def seg_def new_def total_before_def
            by (cases walked) (auto simp: io_simps reads Let_def on_files_def split: sum.splits if_splits)
          ultimately show ?thesis using reached [of ?w1] grow mv by simp
        qed
      qed
    qed
  qed
qed

lemma planned_checkpoint:
  assumes plan: "archive_plan files s old rows walked first_kept new seg" and le: "files \<subseteq>\<^sub>m files'"
    and live: "sorted_wrt (<) (map fst (moved @ kept))" "\<forall>r \<in> set (moved @ kept). after (seg_previous seg) < fst r" "list_all2 same_record moved rows"
    and hist: "archived C N sha files' s (seg_previous seg) hist"
  shows "archived C N sha files' s (Some new) (hist @ rows)"
proof -
  have move: "move_ok s old rows walked first_kept new" using plan by (simp add: archive_plan_def)
  have ids: "map fst rows = map fst moved" using live(3) by (induction rule: list_all2_induct) (simp_all add: same_record_def)
  then have "sorted_wrt (<) (after (seg_previous seg) # map fst rows)" using live(1,2) by (auto simp: sorted_wrt_append)
  moreover have "\<exists>ixs. walk_rows N sha s (map_option cp_last_hash (seg_previous seg)) rows = Inr (Some (cp_last_hash new), ixs)"
    using move move_hash [OF move] plan by (cases walked) (auto simp: move_ok_def archive_plan_def)
  ultimately have "segment_fits N sha s new seg" using plan by (simp add: segment_fits_def archive_plan_def move_ok_def)
  moreover have "archive_read C sha files' (cp_segment_digest new) = Inr seg" "seg_rows seg = rows"
    using plan archive_read_mono [OF _ le] by (simp_all add: archive_plan_def)
  ultimately show ?thesis using archived.checkpointed [of C sha files' new seg N s hist] hist by simp
qed

lemma moved_trail:
  assumes chain: "audit_chain C N sha ks s" and plan: "archive_plan files s old rows walked first_kept new seg" and le: "files \<subseteq>\<^sub>m files'"
    and found: "move_found ks s old rows" and old: "trail C N sha (files', ks) s all"
    and ks': "entries_at (stream_key s) ks' = filter (\<lambda>x. first_kept \<le> fst x) (entries_at (stream_key s) ks)"
      "st_last (stream_at (stream_key s) ks') = st_last (stream_at (stream_key s) ks)" "string_at (checkpoint_key s) ks' = Some (dump_checkpoint C new)"
  shows "\<exists>all'. trail C N sha (files', ks') s all' \<and> list_all2 same_record all all'"
proof -
  have move: "move_ok s old rows walked first_kept new" using plan by (simp add: archive_plan_def)
  obtain moved kept where split: "entries_at (stream_key s) ks = moved @ kept" "list_all2 same_record moved rows"
      "kept = filter (\<lambda>x. first_kept \<le> fst x) (entries_at (stream_key s) ks)" "moved = filter (\<lambda>x. fst x \<le> fst (last rows)) (entries_at (stream_key s) ks)"
    using moved_split [OF chain move found] by metis
  have wf: "stream_wf (stream_at (stream_key s) ks)" using chain by (simp add: audit_chain_def)
  obtain cp hist where cp: "optional_checkpoint C (string_at (checkpoint_key s) ks) = Inr cp" "archived C N sha files' s cp hist"
      "all = hist @ moved @ kept" "\<forall>r \<in> set (moved @ kept). after cp < fst r"
    using old split(1) by (auto simp: trail_def)
  have prev: "seg_previous seg = cp" using cp(1) move_checkpoint [OF chain move found] plan by (simp add: archive_plan_def)
  have "archived C N sha files' s (Some new) (hist @ rows)"
    using planned_checkpoint [OF plan le _ _ split(2)] wf split(1) cp(2,4) by (auto simp: stream_wf_def prev)
  moreover have "optional_checkpoint C (string_at (checkpoint_key s) ks') = Inr (Some new)"
    using checkpoint_roundtrip move ks'(3) by (simp add: optional_checkpoint_def move_ok_def)
  moreover have last: "after (Some new) = fst (last rows)" using plan by (simp add: after_def archive_plan_def)
  have "rows \<noteq> []" using move by (simp add: move_ok_def)
  then have "moved \<noteq> []" using split(2) by auto
  have "fst (last rows) = fst (last moved)"
    using list_all2_nthD [OF split(2), of "length moved - 1"] \<open>moved \<noteq> []\<close> \<open>rows \<noteq> []\<close> list_all2_lengthD [OF split(2)]
    by (simp add: last_conv_nth same_record_def)
  then have "after (Some new) \<le> st_last (stream_at (stream_key s) ks')"
    using wf split(1) last_in_set [OF \<open>moved \<noteq> []\<close>] unfolding stream_wf_def list_all_iff last ks'(2) by (metis Un_iff set_append)
  moreover have "after (Some new) < fst r" if "r \<in> set kept" for r
  proof -
    have r: "r \<in> set (entries_at (stream_key s) ks)" "first_kept \<le> fst r" using that split(3) by auto
    have "bounded_id (fst r)" using wf r(1) unfolding stream_wf_def list_all_iff by blast
    then have "\<not> fst r \<le> fst (last rows)" using successor_iff move r(2) by (metis move_ok_def)
    then show ?thesis by (simp add: last)
  qed
  ultimately have "trail C N sha (files', ks') s ((hist @ rows) @ kept)"
    unfolding trail_def fst_conv snd_conv ks'(1) split(3) [symmetric] by blast
  moreover have "list_all2 same_record all ((hist @ rows) @ kept)"
    using split(2) unfolding cp(3) by (auto intro!: list_all2_appendI)
  ultimately show ?thesis by blast
qed

lemma move_keeps_records:
  assumes run: "run_move s old rows walked first_kept new ks = (r, ks')" and plan: "archive_plan files s old rows walked first_kept new seg"
    and le: "files \<subseteq>\<^sub>m files'" and good: "audit_good C N sha settings (files', ks)" and old: "trail C N sha (files', ks) u all"
  shows "\<exists>all'. trail C N sha (files', ks') u all' \<and> list_all2 same_record all all'"
proof -
  have move: "move_ok s old rows walked first_kept new" using plan by (simp add: archive_plan_def)
  from run move show ?thesis
  proof (cases rule: run_move_cases)
    case kept
    then show ?thesis using old by (intro exI [of _ all]) simp
  next
    case moved
    show ?thesis
    proof (cases "u = s")
      case True
      have "audit_chain C N sha ks s" using good by (simp add: audit_good_def audit_inv_def)
      then show ?thesis using True moved_trail [OF _ plan le moved(1) _ moved(2-4)] old by blast
    next
      case False
      have "ks_data ks' k = ks_data ks k" if "k \<in> {stream_key u, checkpoint_key u}" for k
        using moved(7) [THEN spec, THEN spec, of k u] that False by auto
      then have "trail C N sha (files', ks') u all" by (rule trail_frame [OF _ map_le_refl old])
      then show ?thesis by (intro exI [of _ all]) simp
    qed
  qed
qed

lemma move_step:
  assumes run: "run_move s old rows walked first_kept new ks = (r, ks')" and plan: "archive_plan files s old rows walked first_kept new seg"
    and le: "files \<subseteq>\<^sub>m files'" and good: "audit_good C N sha settings (files', ks)"
  shows "audit_good C N sha settings (files', ks') \<and> grows C N sha (files', ks) (files', ks')"
proof -
  have move: "move_ok s old rows walked first_kept new" using plan by (simp add: archive_plan_def)
  have inv: "audit_inv C N sha ks" "audit_chain C N sha ks s" using good by (simp_all add: audit_good_def audit_inv_def)
  have inv': "audit_inv C N sha ks'" using archive_script_keeps [OF run move inv(1)] by blast
  from run move show ?thesis
  proof (cases rule: run_move_cases)
    case kept
    then show ?thesis using good by simp
  next
    case moved
    have frame: "ks_data ks' k = ks_data ks k" if "k \<in> {stream_key u, checkpoint_key u}" "u \<noteq> s" for k u
      using moved(7) [THEN spec, THEN spec, of k u] that by auto
    have step: "\<exists>all'. trail C N sha (files', ks') u all' \<and> continues all all'" if "trail C N sha (files', ks) u all" for u all
      using move_keeps_records [OF run plan le good that] unfolding continues_def by (metis append_Nil2)
    have "int (length (entries_at (stream_key u) ks')) \<le> stream_capacity settings u" for u
    proof (cases "u = s")
      case True
      have "int (length (entries_at (stream_key s) ks)) \<le> stream_capacity settings s" using good by (simp add: audit_good_def)
      then show ?thesis unfolding True moved(2) by (meson length_filter_le of_nat_mono order_trans)
    next
      case False
      then have "entries_at (stream_key u) ks' = entries_at (stream_key u) ks" using frame [of "stream_key u" u] by (simp add: stream_at_def)
      then show ?thesis using good by (simp add: audit_good_def)
    qed
    then show ?thesis
      using inv' step good unfolding audit_good_def grows_def fst_conv snd_conv by (metis map_le_refl)
  qed
qed

end

section \<open>Runs\<close>

definition store_of :: "keyspace audit_world \<Rightarrow> archive_files \<times> keyspace" where
  "store_of w = (aw_files w, aw_db w)"

text \<open>
  What any number of gateways do to the shared store: attempts to append, archivers that
  other runs interrupt while they write their segment, and steps of the rest of the system,
  which leave the keys of the two streams alone.
\<close>

inductive audit_run :: "archive_codec \<Rightarrow> text_numbers \<Rightarrow> (string \<Rightarrow> json option) \<Rightarrow> (string \<Rightarrow> string) \<Rightarrow> retention_settings \<Rightarrow>
    archive_files \<times> keyspace \<Rightarrow> archive_files \<times> keyspace \<Rightarrow> bool" for C N cjson sha settings where
  idle: "audit_run C N cjson sha settings x x"
| followed: "audit_run C N cjson sha settings x y \<Longrightarrow> audit_run C N cjson sha settings y z \<Longrightarrow> audit_run C N cjson sha settings x z"
| appends: "list_all (write_ok N s) ws \<Longrightarrow> length ws \<le> max_part \<Longrightarrow> valid_hash (aw_heads w s) \<Longrightarrow>
    append_attempt N cjson sha ks_redis settings s ws w = (out, w') \<Longrightarrow> audit_run C N cjson sha settings (store_of w) (store_of w')"
| archives: "(\<And>v. audit_run C N cjson sha settings (store_of v) (store_of (others v))) \<Longrightarrow>
    archive_prefix C N cjson sha ks_redis settings durability disk others s w = (out, w') \<Longrightarrow>
    audit_run C N cjson sha settings (store_of w) (store_of w')"
| elsewhere: "(\<And>s k. k \<in> {stream_key s, head_key s, checkpoint_key s} \<Longrightarrow> ks_data ks' k = ks_data ks k \<and> ks_ttl ks' k = ks_ttl ks k) \<Longrightarrow>
    ids_bounded ks' \<Longrightarrow> audit_run C N cjson sha settings (files, ks) (files, ks')"

text \<open>A record stored with the identity and the link that its receipt names.\<close>

definition stored :: "archive_codec \<Rightarrow> text_numbers \<Rightarrow> (string \<Rightarrow> string) \<Rightarrow> audit_stream \<Rightarrow> archive_files \<times> keyspace \<Rightarrow> pending_write \<Rightarrow>
    write_receipt \<Rightarrow> bool" where
  "stored C N sha s x write receipt \<longleftrightarrow> (\<exists>rows r. trail C N sha x s rows \<and> r \<in> set rows \<and> sid_text (fst r) = wr_stream_id receipt \<and>
     chain_entry N s (snd r) = Inr (with_link (wr_previous_hash receipt) (pw_entry write)))"

text \<open>What other tasks and gateways may do between two steps of a batch: runs of their own that leave hashes or nothing as remembered heads.\<close>

definition peer :: "archive_codec \<Rightarrow> text_numbers \<Rightarrow> (string \<Rightarrow> json option) \<Rightarrow> (string \<Rightarrow> string) \<Rightarrow> retention_settings \<Rightarrow>
    (keyspace audit_world \<Rightarrow> keyspace audit_world) \<Rightarrow> bool" where
  "peer C N cjson sha settings f \<longleftrightarrow>
     (\<forall>v. audit_run C N cjson sha settings (store_of v) (store_of (f v)) \<and>
        ((\<forall>s. valid_hash (aw_heads v s)) \<longrightarrow> (\<forall>s. valid_hash (aw_heads (f v) s))))"

lemma peerD: "peer C N cjson sha settings f \<Longrightarrow> audit_run C N cjson sha settings (store_of v) (store_of (f v))"
  "peer C N cjson sha settings f \<Longrightarrow> \<forall>s. valid_hash (aw_heads v s) \<Longrightarrow> \<forall>s. valid_hash (aw_heads (f v) s)"
  by (auto simp: peer_def)

context audit_setting
begin

lemma archive_step:
  assumes others: "\<And>v. audit_good C N sha settings (store_of v) \<Longrightarrow>
      audit_good C N sha settings (store_of (others v)) \<and> grows C N sha (store_of v) (store_of (others v))"
    and run: "archive_prefix C N cjson sha ks_redis settings durability disk others s w = (out, w')"
    and good: "audit_good C N sha settings (store_of w)"
  shows "audit_good C N sha settings (store_of w') \<and> grows C N sha (store_of w) (store_of w')"
proof -
  have ids: "ids_bounded (aw_db w)" using good by (simp add: audit_good_def audit_inv_def store_of_def)
  from run show ?thesis
  proof (cases rule: archive_prefix_cases)
    case left
    then show ?thesis using frame_good [OF _ ids left(2)] good by (simp add: store_of_def)
  next
    case (reached old rows walked first_kept new seg w1 r db)
    have one: "audit_good C N sha settings (store_of w1) \<and> grows C N sha (store_of w) (store_of w1)"
      using frame_good [OF _ ids reached(2)] good reached(1) by (simp add: store_of_def)
    then have two: "audit_good C N sha settings (store_of (others w1))" "grows C N sha (store_of w1) (store_of (others w1))" using others by blast+
    then have "aw_files w1 \<subseteq>\<^sub>m aw_files (others w1)" by (simp add: grows_def store_of_def)
    then have "audit_good C N sha settings (store_of w') \<and> grows C N sha (store_of (others w1)) (store_of w')"
      using move_step [OF reached(5,4)] two(1) reached(6) by (simp add: store_of_def)
    then show ?thesis using one two(2) grows_trans by blast
  qed
qed

lemma run_good:
  "audit_run C N cjson sha settings x y \<Longrightarrow> audit_good C N sha settings x \<Longrightarrow> audit_good C N sha settings y \<and> grows C N sha x y"
proof (induction rule: audit_run.induct)
  case (followed x y z)
  then show ?case using grows_trans by blast
next
  case (appends s ws w out w')
  then show ?case using attempt_step [OF appends.hyps(4,1,2,3)] by (simp add: store_of_def)
next
  case (archives others durability disk s w out w')
  show ?case by (rule archive_step [OF archives.IH archives.hyps(2) archives.prems])
next
  case (elsewhere ks' ks files)
  show ?case by (rule frame_good [OF elsewhere.hyps(1,2) map_le_refl elsewhere.prems])
qed simp

text \<open>The links of a batch, one by one.\<close>

lemma link_batch_nth:
  "list_all (write_ok N s) ws \<Longrightarrow> valid_hash h \<Longrightarrow> link_batch N sha h ws = (links, fs, final) \<Longrightarrow> i < length ws \<Longrightarrow>
   fs ! i = entry_to_stream_fields N (with_link (links ! i) (pw_entry (ws ! i))) \<and> valid_hash (links ! i)"
proof (induction ws arbitrary: h links fs i)
  case (Cons w ws)
  define e where "e = with_link h (pw_entry w)"
  obtain links' fs' where rest: "link_batch N sha (Some (hash_entry N sha e)) ws = (links', fs', final)"
      "links = h # links'" "fs = entry_to_stream_fields N e # fs'"
    using Cons.prems by (auto simp: link_batch_Cons e_def Let_def simp del: link_batch.simps split: prod.splits)
  have "valid_hash (Some (hash_entry N sha e))" using sha_hex by (simp add: valid_hash_def hash_entry_def)
  then show ?case using Cons.IH [OF _ _ rest(1)] Cons.prems by (cases i) (auto simp: rest(2,3) e_def)
qed simp

lemma attempt_heads:
  assumes "append_attempt N cjson sha ks_redis settings s ws w = (out, w')" and "list_all (write_ok N s) ws" "length ws \<le> max_part"
    and heads: "\<forall>t. valid_hash (aw_heads w t)" and good: "audit_good C N sha settings (store_of w)"
  shows "\<forall>t. valid_hash (aw_heads w' t)"
proof -
  have others: "aw_heads w' t = aw_heads w t" if "t \<noteq> s" for t
    using assms(1) that by (auto simp: append_attempt_def Let_def split: prod.splits sum.splits if_splits)
  have "valid_hash (string_at (head_key s) (aw_db w))" "ids_bounded (aw_db w)"
    using good audit_chain_head by (auto simp: audit_good_def audit_inv_def store_of_def)
  from assms(1-3) this(2) heads [THEN spec, of s] this(1) have "valid_hash (aw_heads w' s)"
  proof (cases rule: attempt_cases)
    case (committed new mid links fs final)
    then show ?thesis using link_batch_shape [OF assms(2) committed(1)] sha_hex by (auto simp: valid_hash_def)
  qed
  then show ?thesis using others heads by metis
qed

lemma stored_grows:
  assumes "stored C N sha s x write receipt" and "grows C N sha x y"
  shows "stored C N sha s y write receipt"
proof -
  obtain rows r where r: "trail C N sha x s rows" "r \<in> set rows" "sid_text (fst r) = wr_stream_id receipt"
      "chain_entry N s (snd r) = Inr (with_link (wr_previous_hash receipt) (pw_entry write))" using assms(1) by (auto simp: stored_def)
  obtain same rest where y: "trail C N sha y s (same @ rest)" "list_all2 same_record rows same"
    using assms(2) r(1) unfolding grows_def continues_def by blast
  obtain i where i: "i < length rows" "rows ! i = r" using r(2) by (metis in_set_conv_nth)
  then have "same_record r (same ! i)" "same ! i \<in> set same" using y(2) by (auto simp: list_all2_conv_all_nth)
  then show ?thesis using r(3,4) y(1) chain_entry_cong [of "snd r" "snd (same ! i)" N s]
    unfolding stored_def same_record_def by (metis Un_iff set_append)
qed

lemma committed_stored:
  assumes run: "append_attempt N cjson sha ks_redis settings s ws w = (Inr (Committed ids links), w')"
    and ws: "list_all (write_ok N s) ws" "length ws \<le> max_part" and heads: "\<forall>t. valid_hash (aw_heads w t)"
    and good: "audit_good C N sha settings (store_of w)"
  shows "length ids = length ws \<and> length links = length ws \<and>
    (\<forall>i < length ws. stored C N sha s (store_of w') (ws ! i) \<lparr>wr_stream_id = ids ! i, wr_previous_hash = links ! i\<rparr>)"
proof -
  have "valid_hash (string_at (head_key s) (aw_db w))" "ids_bounded (aw_db w)"
    using good audit_chain_head by (auto simp: audit_good_def audit_inv_def store_of_def)
  from run ws this(2) heads [THEN spec, of s] this(1) show ?thesis
  proof (cases rule: attempt_cases)
    case unchanged
    then show ?thesis by blast
  next
    case (committed new mid links' fs final)
    note eff = committed_effect [OF ws(1) committed(1,3,4)] and shape = link_batch_shape [OF ws(1) committed(1)]
    have eq: "ids = map sid_text new" "links' = links" using committed(6) by simp_all
    obtain rows where "trail C N sha (store_of w) s rows" using good by (auto simp: audit_good_def)
    then have tr: "trail C N sha (store_of w') s (rows @ zip new fs)"
      using append_trail [OF ws(1) committed(1,3,4), of "aw_files w" s rows] committed(5) by (simp add: store_of_def)
    have "stored C N sha s (store_of w') (ws ! i) \<lparr>wr_stream_id = ids ! i, wr_previous_hash = links ! i\<rparr>" if i: "i < length ws" for i
    proof -
      have ok: "write_ok N s (ws ! i)" using ws(1) i by (simp add: list_all_length)
      note li = link_batch_nth [OF ws(1) heads [THEN spec] committed(1) i]
      have "chain_entry N s (fs ! i) = Inr (with_link (links ! i) (pw_entry (ws ! i)))"
        using li write_okD [OF ok] eq(2) by (auto intro!: chain_entry_roundtrip writable_link)
      moreover have "(new ! i, fs ! i) \<in> set (rows @ zip new fs)" using i eff(4,5) by (auto simp: set_zip)
      ultimately show ?thesis using tr i eff(4) eq(1) unfolding stored_def
        by (intro exI [of _ "rows @ zip new fs"] exI [of _ "(new ! i, fs ! i)"]) simp
    qed
    then show ?thesis using eff(4) shape eq by simp
  qed
qed

lemma archive_heads:
  assumes "archive_prefix C N cjson sha ks_redis settings durability disk others s w = (out, w')"
    and "peer C N cjson sha settings others" and "\<forall>t. valid_hash (aw_heads w t)"
  shows "\<forall>t. valid_hash (aw_heads w' t)"
  using assms(1)
proof (cases rule: archive_prefix_cases)
  case left
  then show ?thesis using assms(3) by simp
next
  case (reached old rows walked first_kept new seg w1 r db)
  then show ?thesis using peerD(2) [OF assms(2), of w1] assms(3) by simp
qed

definition loop_ok :: "audit_stream \<Rightarrow> pending_write list \<Rightarrow> retention_settings \<Rightarrow> keyspace audit_world \<Rightarrow> bool" where
  "loop_ok s active settings w \<longleftrightarrow> list_all (write_ok N s) active \<and> length active \<le> max_part \<and> (\<forall>t. valid_hash (aw_heads w t)) \<and>
     audit_good C N sha settings (store_of w)"

lemma attempt_loop_ok:
  assumes "append_attempt N cjson sha ks_redis settings s active w = (out, w')" and "loop_ok s active settings w"
  shows "audit_run C N cjson sha settings (store_of w) (store_of w')" "loop_ok s active settings w'"
proof -
  note ok = assms(2)[unfolded loop_ok_def]
  show run: "audit_run C N cjson sha settings (store_of w) (store_of w')" using assms(1) ok audit_run.appends by blast
  have "\<forall>t. valid_hash (aw_heads w' t)" using attempt_heads [OF assms(1)] ok by blast
  then show "loop_ok s active settings w'" using ok run_good [OF run] by (simp add: loop_ok_def)
qed

lemma peer_loop_ok:
  "peer C N cjson sha settings f \<Longrightarrow> loop_ok s active settings w \<Longrightarrow> loop_ok s active settings (f w)"
  using peerD(2) run_good [OF peerD(1)] by (simp add: loop_ok_def)

lemma archive_loop_ok:
  assumes "archive_prefix C N cjson sha ks_redis settings durability disk others s w = (out, w')"
    and "peer C N cjson sha settings others" and "loop_ok s active settings w"
  shows "audit_run C N cjson sha settings (store_of w) (store_of w')" "loop_ok s active settings w'"
proof -
  note ok = assms(3)[unfolded loop_ok_def]
  show run: "audit_run C N cjson sha settings (store_of w) (store_of w')" by (rule audit_run.archives [OF peerD(1) [OF assms(2)] assms(1)])
  have "\<forall>t. valid_hash (aw_heads w' t)" using archive_heads [OF assms(1,2)] ok by blast
  then show "loop_ok s active settings w'" using ok run_good [OF run] by (simp add: loop_ok_def)
qed

definition loop_result :: "retention_settings \<Rightarrow> audit_stream \<Rightarrow> pending_write list \<Rightarrow> keyspace audit_world \<Rightarrow>
    ((err + (pending_write \<times> write_receipt) list) \<times> pending_write list \<times> pending_write list) \<times> keyspace audit_world \<Rightarrow> bool" where
  "loop_result settings s writes w res \<longleftrightarrow> (case res of ((result, active, refused), w') \<Rightarrow>
     audit_run C N cjson sha settings (store_of w) (store_of w') \<and> mset (active @ refused) = mset writes \<and>
     (\<forall>receipts. result = Inr receipts \<longrightarrow> map fst receipts = active \<and>
        (\<forall>x \<in> set receipts. stored C N sha s (store_of w') (fst x) (snd x))))"

lemma loop_result_run:
  "audit_run C N cjson sha settings (store_of v) (store_of w) \<Longrightarrow> loop_result settings s writes w res \<Longrightarrow> loop_result settings s writes v res"
  by (cases res) (auto simp: loop_result_def intro: audit_run.followed)

lemma receipts_stored:
  assumes "append_attempt N cjson sha ks_redis settings s active w = (Inr (Committed ids links), w')" and "loop_ok s active settings w"
  shows "loop_result settings s (active @ refused) w
    ((Inr (map2 (\<lambda>write (i, link). (write, \<lparr>wr_stream_id = i, wr_previous_hash = link\<rparr>)) active (zip ids links)), active, refused), w')"
proof -
  note c = committed_stored [OF assms(1)] assms(2)[unfolded loop_ok_def]
  let ?r = "map2 (\<lambda>write (i, link). (write, \<lparr>wr_stream_id = i, wr_previous_hash = link\<rparr>)) active (zip ids links)"
  have len: "length ids = length active" "length links = length active" using c by blast+
  then have "map fst ?r = active" by (intro nth_equalityI) auto
  moreover have "stored C N sha s (store_of w') (fst x) (snd x)" if "x \<in> set ?r" for x
  proof -
    obtain i where "i < length ?r" "?r ! i = x" using \<open>x \<in> set ?r\<close> by (metis in_set_conv_nth)
    then have "i < length active" "x = (active ! i, \<lparr>wr_stream_id = ids ! i, wr_previous_hash = links ! i\<rparr>)" using len by auto
    then show ?thesis using c by auto
  qed
  ultimately show ?thesis using attempt_loop_ok(1) [OF assms] by (simp add: loop_result_def)
qed

lemma commit_loop_result:
  assumes "\<forall>t \<in> set ts. peer C N cjson sha settings (turn_others t) \<and> peer C N cjson sha settings (turn_meanwhile t)"
  shows "commit_loop C N cjson sha ks_redis settings durability s ts active refused w = Some res \<Longrightarrow> loop_ok s active settings w \<Longrightarrow>
    loop_result settings s (active @ refused) w res"
  using assms
proof (induction ts arbitrary: active refused w)
  case (Cons t ts)
  let ?w = "turn_others t w"
  have p: "peer C N cjson sha settings (turn_others t)" "peer C N cjson sha settings (turn_meanwhile t)" using Cons.prems(3) by auto
  note IH = Cons.IH [OF _ _ Cons.prems(3) [unfolded list.set ball_simps, THEN conjunct2]]
  obtain out w1 where att: "append_attempt N cjson sha ks_redis settings s active ?w = (out, w1)" by fastforce
  note ok = peer_loop_ok [OF p(1) Cons.prems(2)]
  note a = attempt_loop_ok [OF att ok]
  have start: "audit_run C N cjson sha settings (store_of w) (store_of w1)" using peerD(1) [OF p(1)] a(1) audit_run.followed by blast
  have stop: "loop_result settings s (active @ refused) w ((Inl e, active, refused), v)" if "store_of v = store_of w1" for e v
    using start that by (simp add: loop_result_def)
  show ?case
  proof (cases out)
    case (Inl e)
    then show ?thesis using Cons.prems(1) att stop by auto
  next
    case (Inr r)
    show ?thesis
    proof (cases r)
      case Retry
      then show ?thesis using Cons.prems(1) att Inr IH [OF _ a(2)] loop_result_run [OF start] by auto
    next
      case (Committed ids links)
      note finished = loop_result_run [OF peerD(1) [OF p(1)] receipts_stored [OF att [unfolded Inr Committed] ok]]
      have "on_db (confirm ks_redis durability) w1 = (if acknowledged durability (aw_db w1) then Inr () else Inl unconfirmed, w1)"
        by (simp add: on_db_def confirm_ks)
      then show ?thesis using Cons.prems(1) att Inr Committed finished stop [OF refl] by (auto split: if_splits)
    next
      case full: (AtCapacity shown)
      show ?thesis
      proof (cases "archive_directory settings")
        case None
        note body = Cons.prems(1)[unfolded commit_loop.simps att prod.case Inr sum.case full attempt_result.case None, simplified]
        show ?thesis
        proof (cases "py_int N shown")
          case None
          then show ?thesis using body stop [OF refl] by auto
        next
          case (Some n)
          have "loop_ok s (take (nat n) active) settings w1" using a(2) by (auto simp: loop_ok_def list_all_iff dest: in_set_takeD)
          from IH [OF _ this] loop_result_run [OF start] have
            "commit_loop C N cjson sha ks_redis settings durability s ts (take (nat n) active) (refused @ drop (nat n) active) w1 = Some res \<Longrightarrow>
             loop_result settings s (take (nat n) active @ refused @ drop (nat n) active) w res" by blast
          moreover have "mset (take (nat n) active @ refused @ drop (nat n) active) = mset (active @ refused)"
            by (metis (no_types) add.assoc add.commute append_take_drop_id mset_append)
          ultimately show ?thesis using body Some stop [OF refl] by (auto simp: loop_result_def split: if_splits)
        qed
      next
        case (Some d)
        obtain o' w2 where arch: "archive_prefix C N cjson sha ks_redis settings durability (turn_disk t) (turn_meanwhile t) s w1 = (o', w2)" by fastforce
        note b = archive_loop_ok [OF arch p(2) a(2)]
        have two: "audit_run C N cjson sha settings (store_of w) (store_of w2)" using start b(1) audit_run.followed by blast
        then have "loop_result settings s (active @ refused) w ((Inl e, active, refused), w2)" for e by (simp add: loop_result_def)
        then show ?thesis using Cons.prems(1) att Inr full Some arch IH [OF _ b(2)] loop_result_run [OF two] by (auto split: sum.splits)
      qed
    qed
  qed
qed simp

lemma complete_batch_result:
  assumes turns: "\<forall>t \<in> set ts. peer C N cjson sha settings (turn_others t) \<and> peer C N cjson sha settings (turn_meanwhile t)"
    and ok: "loop_ok s writes settings w" and run: "complete_batch C N cjson sha ks_redis settings durability s ts writes w = Some (results, w')"
  shows "mset (map fst results) = mset writes"
    "(write, Inr receipt) \<in> set results \<Longrightarrow> audit_run C N cjson sha settings (store_of w') y \<Longrightarrow> stored C N sha s y write receipt"
proof -
  obtain result active refused where loop: "commit_loop C N cjson sha ks_redis settings durability s ts writes [] w = Some ((result, active, refused), w')"
    and results: "results = (case result of Inr receipts \<Rightarrow> map (\<lambda>(write, receipt). (write, Inr receipt)) receipts
         | Inl e \<Rightarrow> map (\<lambda>write. (write, Inl e)) active) @ map (\<lambda>write. (write, Inl (capacity_exceeded s))) refused"
    using run by (auto simp: complete_batch_def commit_batch_def)
  note res = commit_loop_result [OF turns loop ok, unfolded loop_result_def prod.case append_Nil2]
  show "mset (map fst results) = mset writes"
    using res by (cases result) (auto simp: results comp_def case_prod_unfold)
  show "stored C N sha s y write receipt" if answer: "(write, Inr receipt) \<in> set results" and later: "audit_run C N cjson sha settings (store_of w') y"
  proof -
    obtain receipts where "result = Inr receipts" "(write, receipt) \<in> set receipts"
      using answer by (cases result) (auto simp: results)
    then have "stored C N sha s (store_of w') write receipt" using res by fastforce
    moreover have "audit_good C N sha settings (store_of w')" using run_good [OF res [THEN conjunct1]] ok by (simp add: loop_ok_def)
    ultimately show ?thesis using stored_grows run_good [OF later] by blast
  qed
qed

lemma attempt_settles:
  assumes run: "append_attempt N cjson sha ks_redis settings s active w = (out, w')" and ok: "loop_ok s active settings w"
    and fits: "int (length (entries_at (stream_key s) (aw_db w))) + int (length active) \<le> stream_capacity settings s"
  shows "(\<forall>n. out \<noteq> Inr (AtCapacity n)) \<and> (out = Inr Retry \<longrightarrow> aw_db w' = aw_db w \<and>
    aw_heads w s \<noteq> string_at (head_key s) (aw_db w) \<and> aw_heads w' s = string_at (head_key s) (aw_db w))"
proof -
  note o = ok[unfolded loop_ok_def]
  have "valid_hash (string_at (head_key s) (aw_db w))" "ids_bounded (aw_db w)" "list_all (write_ok N s) active" "length active \<le> max_part" "valid_hash (aw_heads w s)"
    using o audit_chain_head by (auto simp: audit_good_def audit_inv_def store_of_def)
  from run this(3,4,2,5,1) show ?thesis
  proof (cases rule: attempt_cases)
    case unchanged
    then show ?thesis using fits by fastforce
  qed simp
qed

text \<open>Two turns that nobody interrupts are enough when there is room: the first learns the head, the second appends.\<close>

lemma two_turns_answer:
  assumes ok: "loop_ok s writes settings w" and fits: "int (length (entries_at (stream_key s) (aw_db w))) + int (length writes) \<le> stream_capacity settings s"
    and quiet: "turn_others t = id" "turn_others u = id"
  shows "\<exists>results w'. complete_batch C N cjson sha ks_redis settings durability s (t # u # ts) writes w = Some (results, w')"
proof -
  obtain out w1 where one: "append_attempt N cjson sha ks_redis settings s writes w = (out, w1)" by fastforce
  note a = attempt_settles [OF one ok fits] and ok1 = attempt_loop_ok(2) [OF one ok]
  obtain out2 w2 where two: "append_attempt N cjson sha ks_redis settings s writes w1 = (out2, w2)" by fastforce
  show ?thesis
  proof (cases "out = Inr Retry")
    case True
    then have "(\<forall>n. out2 \<noteq> Inr (AtCapacity n)) \<and> out2 \<noteq> Inr Retry" using attempt_settles [OF two ok1] a fits by simp
    then show ?thesis using one two True quiet
      by (auto simp: complete_batch_def commit_batch_def split: sum.splits attempt_result.splits prod.splits)
  next
    case False
    then show ?thesis using one a quiet
      by (auto simp: complete_batch_def commit_batch_def split: sum.splits attempt_result.splits prod.splits)
  qed
qed

end

section \<open>An instance\<close>

definition letters_sha :: "string \<Rightarrow> string" where
  "letters_sha t = replicate 64 (CHR ''a'')"

interpretation point_audit: audit_setting point_numbers "json_loads point_numbers" "json_codec point_numbers" letters_sha
  by unfold_locales (simp add: letters_sha_def is_hex64_def list_all_iff)

lemma empty_store_good:
  assumes "retention_post_init settings = Inr ()" and "now div 1000 \<le> max_part"
  shows "audit_good C N sha settings (Map.empty, fresh_keyspace now)"
proof -
  have at: "stream_at k (fresh_keyspace now) = empty_stream" "string_at k (fresh_keyspace now) = None" for k
    by (simp_all add: stream_at_def string_at_def)
  have "trail C N sha (Map.empty, fresh_keyspace now) s []" for s
    unfolding trail_def fst_conv snd_conv at
    by (intro exI [of _ None] exI [of _ "[]"]) (auto simp: empty_stream_def optional_checkpoint_def after_def intro: archived.no_checkpoint)
  moreover have "audit_chain C N sha (fresh_keyspace now) s" for s
    by (simp add: audit_chain_def at optional_checkpoint_def empty_stream_def stream_wf_def dict_rows_def)
  moreover have "0 \<le> stream_capacity settings s" for s
    using assms(1) by (cases s) (auto simp: stream_capacity_def retention_post_init_def split: if_splits)
  ultimately show ?thesis
    using assms(2) by (auto simp: audit_good_def audit_inv_def ids_bounded_def bounded_id_def at empty_stream_def)
qed

definition example_retention :: retention_settings where
  "example_retention = \<lparr>max_messages = 2, max_security_events = 2, batch_size = 1, archive_directory = Some ''audit''\<rparr>"

definition example_entry :: audit_entry where
  "example_entry = \<lparr>ae_message_id = ''m1'', ae_timestamp = 1, ae_sender_id = ''a'', ae_sender_instance_id = None, ae_target_id = ''b'',
     ae_message_type = None, ae_correlation_id = None, ae_decision = ''ALLOWED'', ae_latency_ms = 0, ae_payload_hash = ''h'',
     ae_violations = [], ae_previous_hash = None, ae_hash_version = 2\<rparr>"

definition example_write :: pending_write where
  "example_write = \<lparr>pw_number = 0, pw_entry = MessageRecord example_entry, pw_stream = Messages,
     pw_indexes = [''audit:by_sender:a'', ''audit:by_target:b''], pw_append = None, pw_prepared = from_entry point_numbers (MessageRecord example_entry)\<rparr>"

definition example_world :: "keyspace audit_world" where
  "example_world = \<lparr>aw_db = fresh_keyspace 0, aw_files = Map.empty, aw_heads = \<lambda>_. None\<rparr>"

lemma example_write_ok: "write_ok point_numbers Messages example_write"
  by (simp add: write_ok_def example_write_def example_entry_def point_numbers_def decimal_numbers_def audit_entry_ok_def valid_hash_def has_prefix_def)

lemma example_append:
  "audit_run (json_codec point_numbers) point_numbers (json_loads point_numbers) letters_sha example_retention (Map.empty, fresh_keyspace 0)
     (store_of (snd (append_attempt point_numbers (json_loads point_numbers) letters_sha ks_redis example_retention Messages [example_write] example_world)))"
  using audit_run.appends [of point_numbers Messages "[example_write]" example_world "json_loads point_numbers" letters_sha example_retention
      "fst (append_attempt point_numbers (json_loads point_numbers) letters_sha ks_redis example_retention Messages [example_write] example_world)"
      "snd (append_attempt point_numbers (json_loads point_numbers) letters_sha ks_redis example_retention Messages [example_write] example_world)"]
    example_write_ok
  by (simp add: max_part_def example_world_def store_of_def valid_hash_def)

lemma example_store_good: "audit_good (json_codec point_numbers) point_numbers letters_sha example_retention (Map.empty, fresh_keyspace 0)"
  by (rule empty_store_good) (simp_all add: example_retention_def retention_post_init_def max_part_def)

section \<open>Properties\<close>

text \<open>
  C19. The hash chain of both audit streams survives any interleaving of gateways: after
  appends under stale or fresh heads, refused and retried batches, archivers interrupted by
  other writers, disk faults, and whatever the rest of the system does, the live records
  continue the chain of the checkpoint and end in the stored head, and a live stream never
  exceeds its configured capacity.
\<close>

theorem audit_chain_survives:
  assumes "audit_setting N cjson C sha" and "retention_post_init settings = Inr ()" and "now div 1000 \<le> max_part"
    and "audit_run C N cjson sha settings (Map.empty, fresh_keyspace now) y"
  shows "audit_chain C N sha (snd y) s \<and> int (length (entries_at (stream_key s) (snd y))) \<le> stream_capacity settings s"
proof -
  have "audit_good C N sha settings y" using audit_setting.run_good [OF assms(1,4)] empty_store_good [OF assms(2,3)] by blast
  then show ?thesis by (simp add: audit_good_def audit_inv_def)
qed

theorem audit_chain_survives_witness:
  "audit_chain (json_codec point_numbers) point_numbers letters_sha
     (snd (store_of (snd (append_attempt point_numbers (json_loads point_numbers) letters_sha ks_redis example_retention Messages [example_write] example_world)))) Messages"
  by (rule audit_chain_survives [OF point_audit.audit_setting_axioms _ _ example_append, THEN conjunct1])
     (simp_all add: example_retention_def retention_post_init_def max_part_def)

text \<open>
  C21. The audit trail is append-only: whatever runs, every record of a stream, live or
  archived, stays in its place with its identifier and its fields; moving a prefix into a
  segment changes where a record is stored and nothing else, and segments that were written
  are never altered.
\<close>

theorem audit_trail_append_only:
  assumes "audit_setting N cjson C sha" and "audit_good C N sha settings x" and "audit_run C N cjson sha settings x y"
    and "trail C N sha x s rows"
  shows "(\<exists>rows'. trail C N sha y s rows' \<and> continues rows rows') \<and> fst x \<subseteq>\<^sub>m fst y"
  using audit_setting.run_good [OF assms(1,3,2)] assms(4) by (auto simp: grows_def)

theorem audit_trail_append_only_witness:
  "\<exists>rows'. trail (json_codec point_numbers) point_numbers letters_sha
     (store_of (snd (append_attempt point_numbers (json_loads point_numbers) letters_sha ks_redis example_retention Messages [example_write] example_world)))
     Messages rows' \<and> continues [] rows'"
proof -
  have "trail (json_codec point_numbers) point_numbers letters_sha (Map.empty, fresh_keyspace 0) Messages []"
    unfolding trail_def by (intro exI [of _ None] exI [of _ "[]"])
      (auto simp: stream_at_def string_at_def empty_stream_def optional_checkpoint_def after_def intro: archived.no_checkpoint)
  then show ?thesis by (rule audit_trail_append_only [OF point_audit.audit_setting_axioms example_store_good example_append, THEN conjunct1])
qed

text \<open>
  A batch that finishes answers each of its writes exactly once, and a receipt is
  permanent: the record of the write is in the trail under the identifier and the link
  that the receipt names, at the end of the batch and after anything that runs later,
  whoever interfered with the attempts of the batch.
\<close>

theorem audit_receipts_permanent:
  assumes "audit_setting N cjson C sha" and "audit_good C N sha settings (store_of w)" and "\<forall>t. valid_hash (aw_heads w t)"
    and "list_all (write_ok N s) writes" and "length writes \<le> max_part"
    and "\<forall>t \<in> set ts. peer C N cjson sha settings (turn_others t) \<and> peer C N cjson sha settings (turn_meanwhile t)"
    and "complete_batch C N cjson sha ks_redis settings durability s ts writes w = Some (results, w')"
  shows "mset (map fst results) = mset writes \<and>
    (\<forall>write receipt y. (write, Inr receipt) \<in> set results \<longrightarrow> audit_run C N cjson sha settings (store_of w') y \<longrightarrow> stored C N sha s y write receipt)"
proof -
  have ok: "audit_setting.loop_ok N C sha s writes settings w" using assms(2-5) by (simp add: audit_setting.loop_ok_def [OF assms(1)])
  show ?thesis using audit_setting.complete_batch_result [OF assms(1) assms(6) ok assms(7)] by blast
qed

definition example_turn :: "keyspace turn" where
  "example_turn = \<lparr>turn_others = id, turn_disk = Healthy, turn_meanwhile = id\<rparr>"

lemma peer_id: "peer C N cjson sha settings id"
  by (simp add: peer_def audit_run.idle)

lemma example_loop_ok: "point_audit.loop_ok Messages [example_write] example_retention example_world"
  using example_store_good example_write_ok by (simp add: point_audit.loop_ok_def example_world_def store_of_def valid_hash_def max_part_def)

theorem audit_receipts_permanent_witness:
  "\<exists>results w'. complete_batch (json_codec point_numbers) point_numbers (json_loads point_numbers) letters_sha ks_redis example_retention
      default_durability Messages [example_turn, example_turn] [example_write] example_world = Some (results, w') \<and>
    mset (map fst results) = {#example_write#}"
proof -
  have "\<exists>results w'. complete_batch (json_codec point_numbers) point_numbers (json_loads point_numbers) letters_sha ks_redis example_retention
      default_durability Messages [example_turn, example_turn] [example_write] example_world = Some (results, w')"
    by (rule point_audit.two_turns_answer [OF example_loop_ok])
       (simp_all add: example_turn_def example_world_def stream_at_def empty_stream_def stream_capacity_def example_retention_def)
  then obtain results w' where run: "complete_batch (json_codec point_numbers) point_numbers (json_loads point_numbers) letters_sha ks_redis example_retention
      default_durability Messages [example_turn, example_turn] [example_write] example_world = Some (results, w')" by blast
  then have "mset (map fst results) = mset [example_write]"
    by (intro audit_receipts_permanent [OF point_audit.audit_setting_axioms _ _ _ _ _ run, THEN conjunct1])
       (use example_loop_ok peer_id in \<open>auto simp: point_audit.loop_ok_def example_turn_def\<close>)
  then show ?thesis using run by auto
qed

text \<open>
  A batch that fits does not starve: two turns that no other writer interrupts are
  enough for every write of it to be answered, whatever head of the chain the gateway
  remembered before.
\<close>

theorem audit_batch_answered:
  assumes "audit_setting N cjson C sha" and "audit_good C N sha settings (store_of w)" and "\<forall>t. valid_hash (aw_heads w t)"
    and "list_all (write_ok N s) writes" and "length writes \<le> max_part"
    and "int (length (entries_at (stream_key s) (aw_db w))) + int (length writes) \<le> stream_capacity settings s"
    and "turn_others t = id" and "turn_others u = id"
  shows "\<exists>results w'. complete_batch C N cjson sha ks_redis settings durability s (t # u # ts) writes w = Some (results, w')"
proof -
  have ok: "audit_setting.loop_ok N C sha s writes settings w" using assms(2-5) by (simp add: audit_setting.loop_ok_def [OF assms(1)])
  show ?thesis by (rule audit_setting.two_turns_answer [OF assms(1) ok assms(6-8)])
qed

theorem audit_batch_answered_witness:
  "\<exists>results w'. complete_batch (json_codec point_numbers) point_numbers (json_loads point_numbers) letters_sha ks_redis example_retention
      default_durability Messages [example_turn, example_turn] [example_write] example_world = Some (results, w')"
  by (rule audit_batch_answered [OF point_audit.audit_setting_axioms])
     (use example_loop_ok in \<open>auto simp: point_audit.loop_ok_def example_turn_def example_world_def stream_at_def empty_stream_def
        stream_capacity_def example_retention_def\<close>)

end
