(* ===== verification/Audit_Verify.thy ===== *)
theory Audit_Verify
  imports Audit_Runs
begin

text \<open>
  Reading the audit trail: \<open>_verify_chain\<close> walks the archived segments from the checkpoint
  back to the start and then the live stream page by page; \<open>get_stats\<close> counts both parts.
  Verification accepts every trail that the writers leave, and two stores that it accepts
  with the same head hold the same records, or show two texts with one SHA-256 digest.
\<close>

section \<open>Scanning\<close>

definition is_message :: "string option \<Rightarrow> chain_record \<Rightarrow> bool" where
  "is_message wanted e = (case e of MessageRecord m \<Rightarrow> Some (ae_message_id m) = wanted | EventRecord _ \<Rightarrow> False)"

record chain_scan =
  sc_scanned :: int
  sc_hash :: "string option"
  sc_id :: sid
  sc_found :: bool

text \<open>One pass over rows: an error, \<open>return False\<close> (None), or the variables after it.\<close>

fun scan_rows :: "text_numbers \<Rightarrow> (string \<Rightarrow> string) \<Rightarrow> audit_stream \<Rightarrow> string option \<Rightarrow> int \<Rightarrow> bool \<Rightarrow> archived_row list \<Rightarrow> chain_scan \<Rightarrow> err + chain_scan option" where
  "scan_rows N sha s wanted max_entries archive [] v = Inr (Some v)"
| "scan_rows N sha s wanted max_entries archive (row # rows) v =
     (if max_entries < sc_scanned v + 1 then Inl (AuditScanLimitError ''audit_integrity_scan_limit_exceeded'')
      else case chain_entry N s (snd row) of
        Inl e \<Rightarrow> Inl e
      | Inr entry \<Rightarrow>
          if record_version entry \<noteq> 2 \<or> record_previous entry \<noteq> sc_hash v \<or> (archive \<and> fst row \<le> sc_id v) then Inr None
          else scan_rows N sha s wanted max_entries archive rows
                 \<lparr>sc_scanned = sc_scanned v + 1, sc_hash = Some (hash_entry N sha entry), sc_id = fst row,
                  sc_found = (sc_found v \<or> is_message wanted entry)\<rparr>)"

lemma scan_rows_count:
  "scan_rows N sha s wanted max_entries archive rows v = Inr (Some v') \<Longrightarrow>
   sc_scanned v' = sc_scanned v + int (length rows) \<and> (rows \<noteq> [] \<longrightarrow> sc_scanned v' \<le> max_entries)"
proof (induction rows arbitrary: v)
  case (Cons row rows)
  then show ?case by (cases "rows = []") (fastforce split: if_splits sum.splits)+
qed simp

text \<open>\<open>others\<close> is what happens to the store before each read, by the number of records scanned so far.\<close>

function verify_archive :: "archive_codec \<Rightarrow> text_numbers \<Rightarrow> (string \<Rightarrow> string) \<Rightarrow> retention_settings \<Rightarrow> (int \<Rightarrow> 'db audit_world \<Rightarrow> 'db audit_world) \<Rightarrow>
    audit_stream \<Rightarrow> string option \<Rightarrow> int \<Rightarrow> checkpoint option \<Rightarrow> int \<times> bool \<Rightarrow> ('db audit_world, (int \<times> bool) option) io" where
  "verify_archive C N sha settings others s wanted max_entries None found w = (Inr (Some found), w)"
| "verify_archive C N sha settings others s wanted max_entries (Some cp) (scanned, found) w =
     (if archive_directory settings = None then (Inr None, w)
      else let w = others scanned w in
      case archive_read C sha (aw_files w) (cp_segment_digest cp) of
        Inl e \<Rightarrow> (Inl e, w)
      | Inr seg \<Rightarrow>
          if seg_rows seg = [] then (Inl IndexError, w)
          else if seg_stream seg \<noteq> s \<or> cp_stream cp \<noteq> s \<or> seg_last_hash seg \<noteq> cp_last_hash cp \<or>
             fst (last (seg_rows seg)) \<noteq> cp_last_stream_id cp \<or>
             cp_total_entries cp \<noteq> total_before (seg_previous seg) + int (length (seg_rows seg))
          then (Inr None, w)
          else case scan_rows N sha s wanted max_entries True (seg_rows seg)
              \<lparr>sc_scanned = scanned, sc_hash = map_option cp_last_hash (seg_previous seg),
               sc_id = after (seg_previous seg), sc_found = found\<rparr> of
            Inl e \<Rightarrow> (Inl e, w)
          | Inr None \<Rightarrow> (Inr None, w)
          | Inr (Some v) \<Rightarrow>
              if sc_hash v \<noteq> Some (cp_last_hash cp) then (Inr None, w)
              else verify_archive C N sha settings others s wanted max_entries (seg_previous seg) (sc_scanned v, sc_found v) w)"
  by pat_completeness auto
termination
  by (relation "measure (\<lambda>(C, N, sha, settings, others, s, m, n, cp, f, w). (case cp of None \<Rightarrow> 0 | Some _ \<Rightarrow> nat (n + 1 - fst f)))")
     (auto dest!: scan_rows_count split: option.splits)

function verify_live :: "text_numbers \<Rightarrow> (string \<Rightarrow> string) \<Rightarrow> 'db redis \<Rightarrow> retention_settings \<Rightarrow> (int \<Rightarrow> 'db audit_world \<Rightarrow> 'db audit_world) \<Rightarrow>
    audit_stream \<Rightarrow> string option \<Rightarrow> int \<Rightarrow> sid \<Rightarrow> range_start \<Rightarrow> chain_scan \<Rightarrow> ('db audit_world, chain_scan option) io" where
  "verify_live N sha R settings others s wanted max_entries upper cursor v w =
     (case on_db (XRANGE R (stream_key s) cursor (Some upper) (min (batch_size settings) (max_entries - sc_scanned v + 1))) (others (sc_scanned v) w) of
        (Inl e, w) \<Rightarrow> (Inl e, w)
      | (Inr raw, w) \<Rightarrow>
          if raw = [] then (Inr (Some v), w)
          else case scan_rows N sha s wanted max_entries False (dict_rows raw) v of
            Inl e \<Rightarrow> (Inl e, w)
          | Inr None \<Rightarrow> (Inr None, w)
          | Inr (Some v') \<Rightarrow> verify_live N sha R settings others s wanted max_entries upper (AfterId (sc_id v')) v' w)"
  by pat_completeness auto
termination
  by (relation "measure (\<lambda>(N, sha, R, settings, others, s, m, n, u, c, v, w). nat (n + 1 - sc_scanned v))")
     (auto dest!: scan_rows_count simp: dict_rows_def)

declare verify_archive.simps [simp del] verify_live.simps [simp del]

definition caught :: "err \<Rightarrow> bool" where
  "caught e = (case e of ValueError _ \<Rightarrow> True | ValidationError \<Rightarrow> True | KeyError _ \<Rightarrow> True | AuditArchiveError _ \<Rightarrow> True | _ \<Rightarrow> False)"

definition verify_chain :: "archive_codec \<Rightarrow> text_numbers \<Rightarrow> (string \<Rightarrow> string) \<Rightarrow> 'db redis \<Rightarrow> retention_settings \<Rightarrow>
    (int \<Rightarrow> 'db audit_world \<Rightarrow> 'db audit_world) \<Rightarrow> audit_stream \<Rightarrow> string option \<Rightarrow> int \<Rightarrow> ('db audit_world, bool) io" where
  "verify_chain C N sha R settings others s wanted max_entries =
     (if max_entries \<le> 0 then raise (ValueError ''max_entries must be positive'')
      else bindio (on_db (GET R (checkpoint_key s))) (\<lambda>checkpoint_value.
      bindio (on_db (GET R (head_key s))) (\<lambda>head.
      bindio (on_db (XREVRANGE R (stream_key s) 1)) (\<lambda>newest.
      catchio
        (bindio (of_result (optional_checkpoint C checkpoint_value)) (\<lambda>checkpoint.
         if head = None \<or> (newest = [] \<and> checkpoint = None) then ret False
         else bindio (verify_archive C N sha settings others s wanted max_entries checkpoint (0, wanted = None)) (\<lambda>verified.
         case verified of
           None \<Rightarrow> ret False
         | Some (scanned, found) \<Rightarrow>
             let last_id = after checkpoint;
                 upper = (if newest = [] then last_id else fst (hd newest));
                 cursor = (if checkpoint = None then FromFirst else AfterId last_id) in
             bindio (verify_live N sha R settings others s wanted max_entries upper cursor
                 \<lparr>sc_scanned = scanned, sc_hash = map_option cp_last_hash checkpoint, sc_id = last_id, sc_found = found\<rparr>) (\<lambda>live.
             case live of
               None \<Rightarrow> ret False
             | Some v \<Rightarrow> ret (sc_found v \<and> sc_hash v = head \<and> sc_id v = upper)))))
        (\<lambda>e. if caught e then ret False else raise e)))))"

definition verify_integrity where
  "verify_integrity C N sha R settings others wanted max_entries = verify_chain C N sha R settings others Messages (Some wanted) max_entries"

definition verify_security_integrity where
  "verify_security_integrity C N sha R settings others max_entries = verify_chain C N sha R settings others Security_Events None max_entries"

text \<open>\<open>get_stats\<close>: messages and security events, archived ones included.\<close>

definition archived_total :: "archive_codec \<Rightarrow> string option \<Rightarrow> err + int" where
  "archived_total C t = (case optional_checkpoint C t of Inl e \<Rightarrow> Inl e | Inr None \<Rightarrow> Inr 0 | Inr (Some c) \<Rightarrow> Inr (cp_total_entries c))"

definition get_stats :: "archive_codec \<Rightarrow> 'db redis \<Rightarrow> ('db, int \<times> int) io" where
  "get_stats C R =
     bindio (XLEN R (stream_key Messages)) (\<lambda>messages.
     bindio (XLEN R (stream_key Security_Events)) (\<lambda>security.
     bindio (GET R (checkpoint_key Messages)) (\<lambda>message_anchor.
     bindio (GET R (checkpoint_key Security_Events)) (\<lambda>security_anchor.
     bindio (of_result (archived_total C message_anchor)) (\<lambda>m.
     bindio (of_result (archived_total C security_anchor)) (\<lambda>e.
       ret (int messages + m, int security + e)))))))"

section \<open>A scan is a walk\<close>

definition mentions :: "text_numbers \<Rightarrow> audit_stream \<Rightarrow> string option \<Rightarrow> archived_row list \<Rightarrow> bool" where
  "mentions N s wanted rows \<longleftrightarrow> (\<exists>r \<in> set rows. \<exists>e. chain_entry N s (snd r) = Inr e \<and> is_message wanted e)"

lemma mentions_append [simp]: "mentions N s wanted (xs @ ys) \<longleftrightarrow> mentions N s wanted xs \<or> mentions N s wanted ys"
  by (auto simp: mentions_def)

lemma sorted_wrt_step: "sorted_wrt (<) (i # j # js) \<longleftrightarrow> i < j \<and> sorted_wrt (<) (j # js)" for i j :: sid
  by auto

text \<open>When a scan gets through, and with what.\<close>

definition scan_ok :: "text_numbers \<Rightarrow> (string \<Rightarrow> string) \<Rightarrow> audit_stream \<Rightarrow> string option \<Rightarrow> int \<Rightarrow> bool \<Rightarrow> archived_row list \<Rightarrow> chain_scan \<Rightarrow> chain_scan \<Rightarrow> bool" where
  "scan_ok N sha s wanted max_entries archive rows v v' \<longleftrightarrow>
     (\<exists>ixs. walk_rows N sha s (sc_hash v) rows = Inr (sc_hash v', ixs)) \<and> (rows = [] \<or> sc_scanned v + int (length rows) \<le> max_entries) \<and>
     (archive \<longrightarrow> sorted_wrt (<) (sc_id v # map fst rows)) \<and> sc_scanned v' = sc_scanned v + int (length rows) \<and>
     sc_id v' = (if rows = [] then sc_id v else fst (last rows)) \<and> (sc_found v' \<longleftrightarrow> sc_found v \<or> mentions N s wanted rows)"

lemma scan_rows_iff: "scan_rows N sha s wanted max_entries archive rows v = Inr (Some v') \<longleftrightarrow> scan_ok N sha s wanted max_entries archive rows v v'"
proof (induction rows arbitrary: v)
  case Nil
  then show ?case by (cases v; cases v') (auto simp: scan_ok_def mentions_def)
next
  case (Cons row rows)
  show ?case
  proof (cases "chain_entry N s (snd row)")
    case (Inl e)
    then show ?thesis by (simp add: scan_ok_def)
  next
    case (Inr entry)
    let ?v = "\<lparr>sc_scanned = sc_scanned v + 1, sc_hash = Some (hash_entry N sha entry), sc_id = fst row,
        sc_found = (sc_found v \<or> is_message wanted entry)\<rparr>"
    have m: "mentions N s wanted (row # rows) \<longleftrightarrow> is_message wanted entry \<or> mentions N s wanted rows" using Inr by (auto simp: mentions_def)
    have walk: "(\<exists>ixs. walk_rows N sha s (sc_hash v) (row # rows) = Inr (sc_hash v', ixs)) \<longleftrightarrow>
        record_version entry = 2 \<and> record_previous entry = sc_hash v \<and> (\<exists>ixs. walk_rows N sha s (sc_hash ?v) rows = Inr (sc_hash v', ixs))"
      using Inr by (auto split: sum.splits)
    have ids: "sorted_wrt (<) (sc_id v # map fst (row # rows)) \<longleftrightarrow> sc_id v < fst row \<and> sorted_wrt (<) (fst row # map fst rows)"
      unfolding list.map by (rule sorted_wrt_step)
    have "scan_ok N sha s wanted max_entries archive (row # rows) v v' \<longleftrightarrow>
        sc_scanned v + 1 \<le> max_entries \<and> record_version entry = 2 \<and> record_previous entry = sc_hash v \<and> (archive \<longrightarrow> sc_id v < fst row) \<and>
        scan_ok N sha s wanted max_entries archive rows ?v v'"
      unfolding scan_ok_def m walk ids by (cases "rows = []") auto
    then show ?thesis using Inr Cons.IH [of ?v] by (auto simp: not_le)
  qed
qed

lemma scan_rows_append:
  "scan_rows N sha s wanted max_entries archive (xs @ ys) v =
     (case scan_rows N sha s wanted max_entries archive xs v of
        Inl e \<Rightarrow> Inl e | Inr None \<Rightarrow> Inr None | Inr (Some v') \<Rightarrow> scan_rows N sha s wanted max_entries archive ys v')"
  by (induction xs arbitrary: v) (auto split: sum.splits)

section \<open>The archive\<close>

lemma archived_nonempty: "archived C N sha files s cp hist \<Longrightarrow> hist = [] \<longleftrightarrow> cp = None"
  by (induction rule: archived.induct) (auto simp: segment_fits_def)

lemma archived_walk: "archived C N sha files s cp hist \<Longrightarrow> \<exists>ixs. walk_rows N sha s None hist = Inr (map_option cp_last_hash cp, ixs)"
proof (induction rule: archived.induct)
  case (checkpointed cp seg hist)
  then show ?case by (auto simp: segment_fits_def walk_append)
qed simp

lemma archived_count: "archived C N sha files s cp hist \<Longrightarrow> total_before cp = int (length hist)"
proof (induction rule: archived.induct)
  case (checkpointed cp seg hist)
  then show ?case by (simp add: segment_fits_def total_before_def [of "Some cp"])
qed (simp add: total_before_def)

definition quiet :: "int \<Rightarrow> 'db audit_world \<Rightarrow> 'db audit_world" where
  "quiet n w = w"

lemma verify_archive_sound:
  "verify_archive C N sha settings quiet s wanted max_entries cp (scanned, found) w = (Inr (Some (scanned', found')), w') \<Longrightarrow>
   w' = w \<and> (scanned \<le> max_entries \<longrightarrow> scanned' \<le> max_entries) \<and>
   (\<exists>hist. archived C N sha (aw_files w) s cp hist \<and> scanned' = scanned + int (length hist) \<and>
     (found' \<longleftrightarrow> found \<or> mentions N s wanted hist))"
proof (induction C N sha settings "quiet :: int \<Rightarrow> 'a audit_world \<Rightarrow> 'a audit_world" s wanted max_entries cp "(scanned, found)" w
    arbitrary: scanned found rule: verify_archive.induct)
  case (1 C N sha settings s wanted max_entries w)
  then show ?case by (auto intro: archived.no_checkpoint simp: mentions_def verify_archive.simps)
next
  case (2 C N sha settings s wanted max_entries cp scanned found w)
  obtain seg v where seg: "archive_read C sha (aw_files w) (cp_segment_digest cp) = Inr seg" "seg_rows seg \<noteq> []" "seg_stream seg = s" "cp_stream cp = s"
      "seg_last_hash seg = cp_last_hash cp" "fst (last (seg_rows seg)) = cp_last_stream_id cp"
      "cp_total_entries cp = total_before (seg_previous seg) + int (length (seg_rows seg))"
    and scan: "scan_rows N sha s wanted max_entries True (seg_rows seg) \<lparr>sc_scanned = scanned, sc_hash = map_option cp_last_hash (seg_previous seg),
               sc_id = after (seg_previous seg), sc_found = found\<rparr> = Inr (Some v)" "sc_hash v = Some (cp_last_hash cp)"
    and rest: "verify_archive C N sha settings quiet s wanted max_entries (seg_previous seg) (sc_scanned v, sc_found v) w = (Inr (Some (scanned', found')), w')"
    using "2.prems" unfolding verify_archive.simps(2) quiet_def Let_def
    by (auto split: if_splits sum.splits option.splits)
  have on: "archive_directory settings \<noteq> None" using "2.prems" by (auto simp: verify_archive.simps split: if_splits)
  from "2.hyps" [OF on refl] seg scan rest have "w' = w \<and> (sc_scanned v \<le> max_entries \<longrightarrow> scanned' \<le> max_entries) \<and> (\<exists>hist. archived C N sha (aw_files w) s (seg_previous seg) hist \<and>
      scanned' = sc_scanned v + int (length hist) \<and> (found' \<longleftrightarrow> sc_found v \<or> mentions N s wanted hist))"
    by (simp add: quiet_def)
  then obtain hist where bound: "sc_scanned v \<le> max_entries \<longrightarrow> scanned' \<le> max_entries" and hist: "w' = w" "archived C N sha (aw_files w) s (seg_previous seg) hist"
      "scanned' = sc_scanned v + int (length hist)" "found' \<longleftrightarrow> sc_found v \<or> mentions N s wanted hist" by blast
  have ok: "scan_ok N sha s wanted max_entries True (seg_rows seg) \<lparr>sc_scanned = scanned, sc_hash = map_option cp_last_hash (seg_previous seg),
               sc_id = after (seg_previous seg), sc_found = found\<rparr> v" using scan(1) by (simp add: scan_rows_iff)
  then have "segment_fits N sha s cp seg" using seg scan(2) by (auto simp: segment_fits_def scan_ok_def)
  then have "archived C N sha (aw_files w) s (Some cp) (hist @ seg_rows seg)" using archived.checkpointed [OF seg(1)] hist(2) by blast
  moreover have "sc_scanned v \<le> max_entries" using ok seg(2) by (auto simp: scan_ok_def)
  ultimately show ?case using hist ok bound by (intro conjI exI [of _ "hist @ seg_rows seg"]) (auto simp: scan_ok_def)
qed

lemma verify_archive_complete:
  "archived C N sha (aw_files w) s cp hist \<Longrightarrow> cp = None \<or> archive_directory settings \<noteq> None \<Longrightarrow> scanned + int (length hist) \<le> max_entries \<Longrightarrow>
   verify_archive C N sha settings quiet s wanted max_entries cp (scanned, found) w =
     (Inr (Some (scanned + int (length hist), found \<or> mentions N s wanted hist)), w)"
proof (induction arbitrary: scanned found rule: archived.induct)
  case no_checkpoint
  then show ?case by (simp add: mentions_def verify_archive.simps)
next
  case (checkpointed cp seg hist)
  note fit = checkpointed.hyps(2)[unfolded segment_fits_def]
  let ?v = "\<lparr>sc_scanned = scanned, sc_hash = map_option cp_last_hash (seg_previous seg), sc_id = after (seg_previous seg), sc_found = found\<rparr>"
  let ?v' = "\<lparr>sc_scanned = scanned + int (length (seg_rows seg)), sc_hash = Some (cp_last_hash cp), sc_id = cp_last_stream_id cp,
      sc_found = (found \<or> mentions N s wanted (seg_rows seg))\<rparr>"
  have "scan_rows N sha s wanted max_entries True (seg_rows seg) ?v = Inr (Some ?v')"
    unfolding scan_rows_iff using fit checkpointed.prems by (auto simp: scan_ok_def)
  then have "verify_archive C N sha settings quiet s wanted max_entries (Some cp) (scanned, found) w =
      verify_archive C N sha settings quiet s wanted max_entries (seg_previous seg) (sc_scanned ?v', sc_found ?v') w"
    using checkpointed.hyps(1) checkpointed.prems(1) fit by (auto simp: verify_archive.simps(2) quiet_def)
  also have "\<dots> = (Inr (Some (scanned + int (length (seg_rows seg)) + int (length hist), (found \<or> mentions N s wanted (seg_rows seg)) \<or> mentions N s wanted hist)), w)"
    using checkpointed.IH [of "sc_scanned ?v'" "sc_found ?v'"] checkpointed.prems by (simp add: add.assoc)
  finally show ?case by (auto simp: ac_simps)
qed

section \<open>The live stream\<close>

text \<open>The pages of the loop put together: the records after the cursor up to the snapshot of the newest one.\<close>

definition page_rest :: "keyspace \<Rightarrow> audit_stream \<Rightarrow> range_start \<Rightarrow> sid \<Rightarrow> (sid \<times> (string \<times> string) list) list" where
  "page_rest ks s cursor upper = filter (\<lambda>x. in_range cursor (Some upper) (fst x)) (entries_at (stream_key s) ks)"

lemma sorted_after_take:
  fixes xs :: "(sid \<times> 'a) list"
  assumes "sorted_wrt (<) (map fst xs)" and "0 < n" and "xs \<noteq> []"
  shows "filter (\<lambda>x. fst (last (take n xs)) < fst x) xs = drop n xs"
proof -
  let ?p = "take n xs" and ?d = "drop n xs"
  have "sorted_wrt (<) (map fst (?p @ ?d))" using assms(1) by simp
  then have s: "\<forall>i \<in> set (map fst ?p). \<forall>j \<in> set (map fst ?d). i < j" unfolding map_append sorted_wrt_append by blast
  have "?p \<noteq> []" using assms(2,3) by simp
  have "\<not> fst (last ?p) < fst x" if "x \<in> set ?p" for x
  proof -
    have "sorted_wrt (<) (map fst (butlast ?p @ [last ?p]))" using assms(1) \<open>?p \<noteq> []\<close> by (simp add: sorted_wrt_take flip: take_map)
    moreover have "x \<in> set (butlast ?p @ [last ?p])" using that \<open>?p \<noteq> []\<close> by simp
    ultimately show ?thesis by (auto simp: sorted_wrt_append)
  qed
  moreover have "fst (last ?p) < fst x" if "x \<in> set ?d" for x
    using s that last_in_set [OF \<open>?p \<noteq> []\<close>] by (metis imageI set_map)
  ultimately have "filter (\<lambda>x. fst (last ?p) < fst x) (?p @ ?d) = ?d" unfolding filter_append by (simp add: filter_empty_conv filter_id_conv)
  then show ?thesis by simp
qed

lemma page_rest_after:
  assumes "from_start cursor i"
  shows "page_rest ks s (AfterId i) upper = filter (\<lambda>x. i < fst x) (page_rest ks s cursor upper)"
proof -
  have "from_start cursor j" if "i < j" for j using assms that by (cases cursor) auto
  then have "in_range (AfterId i) (Some upper) j \<longleftrightarrow> in_range cursor (Some upper) j \<and> i < j" for j unfolding in_range_def by (metis from_start.simps(3))
  then show ?thesis by (simp add: page_rest_def conj_commute)
qed

lemma page_rest_next:
  assumes "stream_wf (stream_at (stream_key s) ks)" and "0 < n" and "page_rest ks s cursor upper \<noteq> []"
  shows "page_rest ks s (AfterId (fst (last (take n (page_rest ks s cursor upper))))) upper = drop n (page_rest ks s cursor upper)"
proof -
  let ?r = "page_rest ks s cursor upper" and ?i = "fst (last (take n (page_rest ks s cursor upper)))"
  have sorted: "sorted_wrt (<) (map fst ?r)"
    using assms(1) by (auto simp: stream_wf_def page_rest_def sorted_wrt_map sorted_wrt_filter)
  have "last (take n ?r) \<in> set ?r" by (rule in_set_takeD [OF last_in_set]) (use assms(2,3) in simp)
  then have "from_start cursor ?i" by (auto simp: page_rest_def in_range_def)
  from page_rest_after [OF this] have "page_rest ks s (AfterId ?i) upper = filter (\<lambda>x. ?i < fst x) ?r" .
  then show ?thesis using sorted_after_take [OF sorted assms(2,3)] by simp
qed

lemma verify_live_quiet:
  "stream_typed (stream_key s) (aw_db w) \<Longrightarrow> stream_wf (stream_at (stream_key s) (aw_db w)) \<Longrightarrow> 0 < batch_size settings \<Longrightarrow> sc_scanned v \<le> max_entries \<Longrightarrow>
   verify_live N sha ks_redis settings quiet s wanted max_entries upper cursor v w =
     (scan_rows N sha s wanted max_entries False (dict_rows (page_rest (aw_db w) s cursor upper)) v, w)"
proof (induction N sha "ks_redis" settings "quiet :: int \<Rightarrow> keyspace audit_world \<Rightarrow> keyspace audit_world" s wanted max_entries upper cursor v w
    rule: verify_live.induct)
  case (1 N sha settings s wanted max_entries upper cursor v w)
  let ?n = "min (batch_size settings) (max_entries - sc_scanned v + 1)" and ?rest = "page_rest (aw_db w) s cursor upper"
  let ?page = "take (nat ?n) ?rest"
  have n: "0 < nat ?n" using "1.prems"(3,4) by simp
  have read: "on_db (ks_xrange (stream_key s) cursor (Some upper) ?n) w = (Inr ?page, w)"
    using ks_stream_typed [OF "1.prems"(1)] unfolding on_db_def ks_xrange_def page_rest_def by simp
  show ?case
  proof (cases "?rest = []")
    case True
    then show ?thesis using read by (subst verify_live.simps) (simp add: quiet_def dict_rows_def)
  next
    case False
    then have page: "?page \<noteq> []" using n by (metis take_eq_Nil not_less_zero)
    have split: "dict_rows ?rest = dict_rows ?page @ dict_rows (drop (nat ?n) ?rest)"
      unfolding dict_rows_def by (simp flip: map_append)
    show ?thesis
    proof (cases "scan_rows N sha s wanted max_entries False (dict_rows ?page) v")
      case (Inl e)
      then show ?thesis using read page split by (subst verify_live.simps) (simp add: quiet_def scan_rows_append)
    next
      case (Inr r)
      show ?thesis
      proof (cases r)
        case None
        then show ?thesis using Inr read page split by (subst verify_live.simps) (simp add: quiet_def scan_rows_append)
      next
        case (Some v')
        have ok: "scan_ok N sha s wanted max_entries False (dict_rows ?page) v v'" using Inr Some by (simp flip: scan_rows_iff)
        then have v': "sc_scanned v' \<le> max_entries" "sc_id v' = fst (last ?page)"
          using page by (auto simp: scan_ok_def dict_rows_def last_map)
        have following: "page_rest (aw_db w) s (AfterId (sc_id v')) upper = drop (nat ?n) ?rest"
          unfolding v'(2) by (rule page_rest_next [OF "1.prems"(2) n False])
        have "verify_live N sha ks_redis settings quiet s wanted max_entries upper (AfterId (sc_id v')) v' w =
            (scan_rows N sha s wanted max_entries False (dict_rows (drop (nat ?n) ?rest)) v', w)"
          using "1.hyps" [OF _ _ page Inr Some] read "1.prems" v'(1) following by (simp add: quiet_def)
        then show ?thesis using Inr Some read page split by (subst verify_live.simps) (simp add: quiet_def scan_rows_append)
      qed
    qed
  qed
qed

section \<open>What verification establishes\<close>

text \<open>The records a verification covers: those behind the checkpoint and the live ones after it.\<close>

definition covered :: "archive_codec \<Rightarrow> text_numbers \<Rightarrow> (string \<Rightarrow> string) \<Rightarrow> archive_files \<times> keyspace \<Rightarrow> audit_stream \<Rightarrow> archived_row list \<Rightarrow> bool" where
  "covered C N sha x s rows \<longleftrightarrow>
     (\<exists>cp hist. optional_checkpoint C (string_at (checkpoint_key s) (snd x)) = Inr cp \<and> archived C N sha (fst x) s cp hist \<and>
        rows = hist @ dict_rows (filter (\<lambda>r. cp = None \<or> after cp < fst r) (entries_at (stream_key s) (snd x))))"

lemma covered_unique: "covered C N sha x s rows \<Longrightarrow> covered C N sha x s rows' \<Longrightarrow> rows' = rows"
  unfolding covered_def by (metis archived_unique sum.inject(2))

definition store_typed :: "keyspace \<Rightarrow> audit_stream \<Rightarrow> bool" where
  "store_typed ks s \<longleftrightarrow> stream_typed (stream_key s) ks \<and> type_of_value (ks_data ks (head_key s)) \<in> {TNone, TString} \<and>
     type_of_value (ks_data ks (checkpoint_key s)) \<in> {TNone, TString}"

lemma xrevrange_one:
  "stream_typed k ks \<Longrightarrow> ks_xrevrange k 1 ks = (Inr (case rev (entries_at k ks) of [] \<Rightarrow> [] | x # _ \<Rightarrow> [x]), ks)"
  by (simp add: ks_xrevrange_def ks_stream_typed split: list.splits)

text \<open>The live records up to the newest one are all of them.\<close>

lemma page_rest_all:
  assumes "stream_wf (stream_at (stream_key s) ks)"
  shows "page_rest ks s (if cp = None then FromFirst else AfterId (after cp))
      (if entries_at (stream_key s) ks = [] then after cp else fst (last (entries_at (stream_key s) ks))) =
    filter (\<lambda>r. cp = None \<or> after cp < fst r) (entries_at (stream_key s) ks)"
proof (cases "entries_at (stream_key s) ks = []")
  case False
  let ?es = "entries_at (stream_key s) ks"
  have "sorted_wrt (<) (map fst (butlast ?es @ [last ?es]))" using assms False by (simp add: stream_wf_def)
  then have below: "\<forall>r \<in> set (butlast ?es). fst r < fst (last ?es)" by (simp add: sorted_wrt_append)
  have "fst r \<le> fst (last ?es)" if "r \<in> set ?es" for r
  proof -
    have "r \<in> set (butlast ?es @ [last ?es])" using that False by simp
    then have "r \<in> set (butlast ?es) \<or> r = last ?es" by auto
    then show ?thesis using below less_imp_le by blast
  qed
  then show ?thesis using False by (auto simp: page_rest_def in_range_def intro!: filter_cong)
qed (simp add: page_rest_def)

text \<open>A verification that nobody interrupts, in terms of the store.\<close>

definition live_after :: "keyspace \<Rightarrow> audit_stream \<Rightarrow> checkpoint option \<Rightarrow> archived_row list" where
  "live_after ks s cp = dict_rows (filter (\<lambda>r. cp = None \<or> after cp < fst r) (entries_at (stream_key s) ks))"

definition upper_id :: "keyspace \<Rightarrow> audit_stream \<Rightarrow> checkpoint option \<Rightarrow> sid" where
  "upper_id ks s cp = (if entries_at (stream_key s) ks = [] then after cp else fst (last (entries_at (stream_key s) ks)))"

text \<open>What a verification that succeeds went through.\<close>

definition verified :: "archive_codec \<Rightarrow> text_numbers \<Rightarrow> (string \<Rightarrow> string) \<Rightarrow> retention_settings \<Rightarrow> audit_stream \<Rightarrow> string option \<Rightarrow> int \<Rightarrow>
    keyspace audit_world \<Rightarrow> checkpoint option \<Rightarrow> int \<Rightarrow> bool \<Rightarrow> chain_scan \<Rightarrow> bool" where
  "verified C N sha settings s wanted max_entries w cp scanned found v \<longleftrightarrow>
     optional_checkpoint C (string_at (checkpoint_key s) (aw_db w)) = Inr cp \<and> string_at (head_key s) (aw_db w) \<noteq> None \<and>
     (entries_at (stream_key s) (aw_db w) \<noteq> [] \<or> cp \<noteq> None) \<and>
     verify_archive C N sha settings quiet s wanted max_entries cp (0, wanted = None) w = (Inr (Some (scanned, found)), w) \<and>
     scan_rows N sha s wanted max_entries False (live_after (aw_db w) s cp)
       \<lparr>sc_scanned = scanned, sc_hash = map_option cp_last_hash cp, sc_id = after cp, sc_found = found\<rparr> = Inr (Some v) \<and>
     sc_found v \<and> sc_hash v = string_at (head_key s) (aw_db w) \<and> sc_id v = upper_id (aw_db w) s cp"

text \<open>The two ways a verification that nobody interrupts goes on after its snapshot.\<close>

definition verify_start :: "keyspace audit_world \<Rightarrow> audit_stream \<Rightarrow> retention_settings \<Rightarrow> int \<Rightarrow> bool" where
  "verify_start w s settings max_entries \<longleftrightarrow> store_typed (aw_db w) s \<and> stream_wf (stream_at (stream_key s) (aw_db w)) \<and>
     0 < batch_size settings \<and> 0 < max_entries"

lemma verify_reads:
  assumes "store_typed (aw_db w) s"
  shows "on_db (ks_get (checkpoint_key s)) w = (Inr (string_at (checkpoint_key s) (aw_db w)), w)"
    "on_db (ks_get (head_key s)) w = (Inr (string_at (head_key s) (aw_db w)), w)"
    "on_db (ks_xrevrange (stream_key s) 1) w = (Inr (case rev (entries_at (stream_key s) (aw_db w)) of [] \<Rightarrow> [] | x # _ \<Rightarrow> [x]), w)"
  using assms get_string xrevrange_one by (simp_all add: store_typed_def on_db_def)

lemma newest_of: "(case rev es of [] \<Rightarrow> [] | x # _ \<Rightarrow> [x]) = [] \<longleftrightarrow> es = []"
    "es \<noteq> [] \<Longrightarrow> fst (hd (case rev es of [] \<Rightarrow> [] | x # _ \<Rightarrow> [x])) = fst (last es)"
  by (auto simp: hd_rev [symmetric] split: list.splits)

lemma verify_chain_closed:
  assumes "verify_start w s settings max_entries" and "optional_checkpoint C (string_at (checkpoint_key s) (aw_db w)) = Inr cp"
    and "string_at (head_key s) (aw_db w) = None \<or> (entries_at (stream_key s) (aw_db w) = [] \<and> cp = None)"
  shows "fst (verify_chain C N sha ks_redis settings others s wanted max_entries w) = Inr False"
proof -
  have t: "store_typed (aw_db w) s" "0 < max_entries" using assms(1) by (simp_all add: verify_start_def)
  then show ?thesis using assms(2,3) verify_reads [OF t(1)] newest_of(1) [of "entries_at (stream_key s) (aw_db w)"]
    by (auto simp: verify_chain_def io_simps catchio_def)
qed

lemma verify_chain_run:
  assumes start: "verify_start w s settings max_entries" and cp: "optional_checkpoint C (string_at (checkpoint_key s) (aw_db w)) = Inr cp"
    and some: "\<not> (string_at (head_key s) (aw_db w) = None \<or> (entries_at (stream_key s) (aw_db w) = [] \<and> cp = None))"
    and arch: "verify_archive C N sha settings quiet s wanted max_entries cp (0, wanted = None) w = (Inr (Some (scanned, found)), w)"
    and le: "scanned \<le> max_entries"
  shows "fst (verify_chain C N sha ks_redis settings quiet s wanted max_entries w) =
    (case scan_rows N sha s wanted max_entries False (live_after (aw_db w) s cp)
        \<lparr>sc_scanned = scanned, sc_hash = map_option cp_last_hash cp, sc_id = after cp, sc_found = found\<rparr> of
       Inl e \<Rightarrow> if caught e then Inr False else Inl e
     | Inr None \<Rightarrow> Inr False
     | Inr (Some v) \<Rightarrow> Inr (sc_found v \<and> sc_hash v = string_at (head_key s) (aw_db w) \<and> sc_id v = upper_id (aw_db w) s cp))"
proof -
  let ?ks = "aw_db w" and ?es = "entries_at (stream_key s) (aw_db w)"
  let ?newest = "case rev ?es of [] \<Rightarrow> [] | x # _ \<Rightarrow> [x]"
  let ?v = "\<lparr>sc_scanned = scanned, sc_hash = map_option cp_last_hash cp, sc_id = after cp, sc_found = found\<rparr>"
  have t: "store_typed ?ks s" "stream_typed (stream_key s) ?ks" "stream_wf (stream_at (stream_key s) ?ks)" "0 < batch_size settings" "0 < max_entries"
    using start by (simp_all add: verify_start_def store_typed_def)
  have live: "verify_live N sha ks_redis settings quiet s wanted max_entries (upper_id ?ks s cp) (if cp = None then FromFirst else AfterId (after cp)) ?v w =
      (scan_rows N sha s wanted max_entries False (live_after ?ks s cp) ?v, w)"
    using verify_live_quiet [OF t(2-4), of ?v max_entries] le page_rest_all [OF t(3), of cp]
    by (simp add: upper_id_def live_after_def)
  have upper: "(if ?newest = [] then after cp else fst (hd ?newest)) = upper_id ?ks s cp"
    using newest_of [of ?es] by (simp add: upper_id_def)
  have answers: "\<not> (string_at (head_key s) ?ks = None \<or> (?newest = [] \<and> cp = None))" using some newest_of(1) [of ?es] by simp
  obtain sr where sr: "scan_rows N sha s wanted max_entries False (live_after ?ks s cp) ?v = sr" by blast
  show ?thesis unfolding sr
    using verify_reads [OF t(1)] cp arch live [unfolded sr] upper t(5)
    by (auto simp: verify_chain_def io_simps catchio_def Let_def if_not_P [OF answers] split: sum.splits option.splits)
qed

lemma verify_chain_true:
  assumes start: "verify_start w s settings max_entries"
    and run: "fst (verify_chain C N sha ks_redis settings quiet s wanted max_entries w) = Inr True"
  shows "\<exists>cp scanned found v. verified C N sha settings s wanted max_entries w cp scanned found v"
proof (cases "optional_checkpoint C (string_at (checkpoint_key s) (aw_db w))")
  case (Inl e)
  then show ?thesis using start run verify_reads [of w s]
    by (auto simp: verify_start_def verify_chain_def io_simps catchio_def split: if_splits)
next
  case (Inr cp)
  have some: "\<not> (string_at (head_key s) (aw_db w) = None \<or> (entries_at (stream_key s) (aw_db w) = [] \<and> cp = None))"
  proof
    assume "string_at (head_key s) (aw_db w) = None \<or> (entries_at (stream_key s) (aw_db w) = [] \<and> cp = None)"
    from verify_chain_closed [OF start Inr this, of N sha quiet wanted] run show False by simp
  qed
  obtain ra wa where arch: "verify_archive C N sha settings quiet s wanted max_entries cp (0, wanted = None) w = (ra, wa)" by fastforce
  have "\<exists>scanned found. ra = Inr (Some (scanned, found))"
  proof (rule ccontr)
    assume "\<not> ?thesis"
    then show False
      using some start run verify_reads [of w s] Inr newest_of(1) [of "entries_at (stream_key s) (aw_db w)"] arch
      by (cases ra) (auto simp: verify_start_def verify_chain_def io_simps catchio_def split: option.splits if_splits)
  qed
  then obtain scanned found where ra: "ra = Inr (Some (scanned, found))" by blast
  have a: "wa = w" "scanned \<le> max_entries" using verify_archive_sound arch start unfolding ra verify_start_def by fastforce+
  show ?thesis using verify_chain_run [OF start Inr some _ a(2)] arch ra a(1) Inr some run
    by (auto simp: verified_def split: sum.splits option.splits if_splits)
qed

lemma verified_covered:
  assumes "verified C N sha settings s wanted max_entries w cp scanned found v"
  shows "\<exists>rows ixs. covered C N sha (store_of w) s rows \<and> walk_rows N sha s None rows = Inr (string_at (head_key s) (aw_db w), ixs) \<and>
    (wanted = None \<or> mentions N s wanted rows)"
proof -
  note v = assms[unfolded verified_def]
  obtain hist where hist: "archived C N sha (aw_files w) s cp hist" "found \<longleftrightarrow> wanted = None \<or> mentions N s wanted hist"
    using verify_archive_sound [of C N sha settings s wanted max_entries cp 0 "wanted = None" w scanned found w] v by blast
  obtain i1 where first: "walk_rows N sha s None hist = Inr (map_option cp_last_hash cp, i1)" using archived_walk [OF hist(1)] by blast
  have ok: "scan_ok N sha s wanted max_entries False (live_after (aw_db w) s cp)
      \<lparr>sc_scanned = scanned, sc_hash = map_option cp_last_hash cp, sc_id = after cp, sc_found = found\<rparr> v" using v by (simp flip: scan_rows_iff)
  then obtain i2 where "walk_rows N sha s (map_option cp_last_hash cp) (live_after (aw_db w) s cp) = Inr (string_at (head_key s) (aw_db w), i2)"
    using v by (auto simp: scan_ok_def)
  then have "walk_rows N sha s None (hist @ live_after (aw_db w) s cp) = Inr (string_at (head_key s) (aw_db w), i1 @ i2)" using first by (simp add: walk_append)
  moreover have "covered C N sha (store_of w) s (hist @ live_after (aw_db w) s cp)"
    using v hist(1) unfolding covered_def live_after_def store_of_def fst_conv snd_conv by blast
  moreover have "wanted = None \<or> mentions N s wanted (hist @ live_after (aw_db w) s cp)" using v ok hist(2) by (auto simp: scan_ok_def)
  ultimately show ?thesis by blast
qed

lemma verified_chain:
  assumes "verify_start w s settings max_entries" and "fst (verify_chain C N sha ks_redis settings quiet s wanted max_entries w) = Inr True"
    and "covered C N sha (store_of w) s rows"
  shows "\<exists>ixs. walk_rows N sha s None rows = Inr (string_at (head_key s) (aw_db w), ixs)"
proof -
  obtain cp scanned found v where "verified C N sha settings s wanted max_entries w cp scanned found v" using verify_chain_true [OF assms(1,2)] by blast
  from verified_covered [OF this] obtain rows' ixs where "covered C N sha (store_of w) s rows'"
      "walk_rows N sha s None rows' = Inr (string_at (head_key s) (aw_db w), ixs)" by blast
  then show ?thesis using covered_unique [OF assms(3)] by blast
qed

lemma genuine_answer:
  assumes good: "audit_good C N sha settings (store_of w)" and start: "verify_start w s settings max_entries" and tr: "trail C N sha (store_of w) s rows"
    and limit: "int (length rows) \<le> max_entries"
    and archive: "archive_directory settings = None \<longrightarrow> string_at (checkpoint_key s) (aw_db w) = None"
  shows "fst (verify_chain C N sha ks_redis settings quiet s wanted max_entries w) = Inr (rows \<noteq> [] \<and> (wanted = None \<or> mentions N s wanted rows))"
proof -
  let ?ks = "aw_db w" and ?es = "entries_at (stream_key s) (aw_db w)"
  obtain cp hist where cp: "optional_checkpoint C (string_at (checkpoint_key s) ?ks) = Inr cp" "archived C N sha (aw_files w) s cp hist"
      "rows = hist @ ?es" "\<forall>r \<in> set ?es. after cp < fst r"
    using tr by (auto simp: trail_def store_of_def)
  have chain: "audit_chain C N sha ?ks s" using good by (simp add: audit_good_def audit_inv_def store_of_def)
  obtain ixs where walk: "walk_rows N sha s (map_option cp_last_hash cp) (dict_rows ?es) = Inr (string_at (head_key s) ?ks, ixs)"
    using chain cp(1) by (auto simp: audit_chain_def)
  have none: "rows = [] \<longleftrightarrow> ?es = [] \<and> cp = None" "rows \<noteq> [] \<longrightarrow> string_at (head_key s) ?ks \<noteq> None"
  proof -
    show "rows = [] \<longleftrightarrow> ?es = [] \<and> cp = None" using archived_nonempty [OF cp(2)] cp(3) by auto
    moreover have "string_at (head_key s) ?ks \<noteq> None" if "?es \<noteq> []" using walk_final [OF walk] that by (auto simp: dict_rows_def)
    moreover have "string_at (head_key s) ?ks = map_option cp_last_hash cp" if "?es = []" using walk that by (simp add: dict_rows_def)
    ultimately show "rows \<noteq> [] \<longrightarrow> string_at (head_key s) ?ks \<noteq> None" by (cases cp) auto
  qed
  have plain: "dict_rows ?es = ?es"
    unfolding dict_rows_def by (rule map_idI) (use chain in \<open>auto simp: audit_chain_def stream_wf_def list_all_iff dict_of_distinct\<close>)
  have live: "live_after ?ks s cp = ?es" unfolding live_after_def using cp(4) plain by (simp add: filter_id_conv [THEN iffD2])
  have "cp = None \<or> archive_directory settings \<noteq> None" using archive cp(1) by (auto simp: optional_checkpoint_def split: option.splits)
  then have arch: "verify_archive C N sha settings quiet s wanted max_entries cp (0, wanted = None) w =
      (Inr (Some (int (length hist), wanted = None \<or> mentions N s wanted hist)), w)"
    using verify_archive_complete [OF cp(2)] limit cp(3) by simp
  let ?v = "\<lparr>sc_scanned = int (length rows), sc_hash = string_at (head_key s) ?ks, sc_id = upper_id ?ks s cp,
      sc_found = (wanted = None \<or> mentions N s wanted rows)\<rparr>"
  have scan: "scan_rows N sha s wanted max_entries False (live_after ?ks s cp)
      \<lparr>sc_scanned = int (length hist), sc_hash = map_option cp_last_hash cp, sc_id = after cp, sc_found = (wanted = None \<or> mentions N s wanted hist)\<rparr> = Inr (Some ?v)"
    unfolding scan_rows_iff live using walk plain limit cp(3) by (auto simp: scan_ok_def upper_id_def)
  show ?thesis
  proof (cases "rows = []")
    case True
    then show ?thesis using verify_chain_closed [OF start cp(1)] none by simp
  next
    case False
    then have some: "\<not> (string_at (head_key s) ?ks = None \<or> (?es = [] \<and> cp = None))" using none by simp
    have "int (length hist) \<le> max_entries" using limit cp(3) by simp
    from verify_chain_run [OF start cp(1) some arch this] show ?thesis unfolding scan using False by simp
  qed
qed

section \<open>Equal heads\<close>

text \<open>Two rows with the same record, as its canonical text tells.\<close>

definition same_content :: "text_numbers \<Rightarrow> audit_stream \<Rightarrow> archived_row \<Rightarrow> archived_row \<Rightarrow> bool" where
  "same_content N s r r' \<longleftrightarrow> (\<exists>e e'. chain_entry N s (snd r) = Inr e \<and> chain_entry N s (snd r') = Inr e' \<and>
     json_canonical N (JObj (model_dump e)) = json_canonical N (JObj (model_dump e')))"

text \<open>Two rows whose records have different canonical texts with the same digest.\<close>

definition digests_collide :: "text_numbers \<Rightarrow> (string \<Rightarrow> string) \<Rightarrow> audit_stream \<Rightarrow> archived_row \<Rightarrow> archived_row \<Rightarrow> bool" where
  "digests_collide N sha s r r' \<longleftrightarrow> (\<exists>e e'. chain_entry N s (snd r) = Inr e \<and> chain_entry N s (snd r') = Inr e' \<and>
     json_canonical N (JObj (model_dump e)) \<noteq> json_canonical N (JObj (model_dump e')) \<and>
     sha (json_canonical N (JObj (model_dump e))) = sha (json_canonical N (JObj (model_dump e'))))"

context json_numerals
begin

lemma read_number_ok: "read_number N t = Some (v, r) \<Longrightarrow> json_ok N v"
  using py_float_double by (auto simp: read_number_def split: option.splits if_splits)

lemma set_dict_of: "set (dict_of kvs) \<subseteq> set kvs"
proof -
  have "set (fold (\<lambda>kv. dict_put (fst kv) (snd kv)) kvs acc) \<subseteq> set acc \<union> set kvs" for acc :: "(string \<times> 'a) list"
  proof (induction kvs arbitrary: acc)
    case (Cons kv kvs)
    then show ?case using set_dict_put [of "fst kv" "snd kv" acc] by fastforce
  qed simp
  from this [of "[]"] show ?thesis by (simp add: dict_of_def)
qed

lemma parse_ok:
  "parse_value N n t = Some (v, r) \<Longrightarrow> json_ok N v"
  "parse_items N n t = Some (vs, r) \<Longrightarrow> list_all (json_ok N) vs"
  "parse_members N n t = Some (kvs, r) \<Longrightarrow> list_all (\<lambda>kv. json_ok N (snd kv)) kvs"
proof (induction n arbitrary: t v r vs kvs)
  case (Suc n)
  {
    case 1
    then show ?case
    proof (cases "take 1 t = ''{''")
      case True
      then show ?thesis
        using 1 Suc.IH(3) dict_of_keys set_dict_of
        by (fastforce simp: Let_def list_all_iff split: if_splits)
    next
      case False
      then show ?thesis using 1 Suc.IH(2) read_number_ok by (fastforce simp: Let_def split: if_splits)
    qed
  next
    case 2
    then show ?case using Suc.IH(1,2) by (fastforce simp: Let_def split: option.splits if_splits)
  next
    case 3
    then show ?case using Suc.IH(1,3) by (fastforce simp: Let_def split: option.splits if_splits)
  }
qed simp_all

lemma json_loads_ok: "json_loads N t = Some v \<Longrightarrow> json_ok N v"
  using parse_ok(1) by (auto simp: json_loads_def split: option.splits if_splits)

lemma json_ok_opt [simp]: "json_ok N (opt_json t)"
  by (simp add: opt_json_def split: option.splits)

lemma model_dump_ok:
  assumes "chain_entry N s raw = Inr e"
  shows "json_ok N (JObj (model_dump e))"
proof (cases s)
  case Messages
  then obtain m where "e = MessageRecord m" "record_to_entry N raw = Some m" using assms by (auto split: option.splits)
  then obtain vs where vs: "validate_audit_entry N raw vs = Some m"
    by (auto simp: record_to_entry_def bind_eq_Some_conv split: option.splits json.splits if_splits)
  have "is_double N (ae_timestamp m) \<and> is_double N (ae_latency_ms m)"
    using vs py_float_double by (auto simp: validate_audit_entry_def bind_eq_Some_conv Let_def split: if_splits)
  then show ?thesis using \<open>e = MessageRecord m\<close> by (simp add: json_ok_opt list_all_iff)
next
  case Security_Events
  then obtain m where m: "e = EventRecord m" "event_of_raw N raw = Some m" using assms by (auto split: option.splits)
  then obtain t v where v: "json_loads N t = Some v" "validate_security_event N raw v = Some m" by (auto simp: event_of_raw_def bind_eq_Some_conv)
  then have "is_double N (se_timestamp m) \<and> v = JObj (se_details m)"
    using py_float_double by (auto simp: validate_security_event_def bind_eq_Some_conv Let_def split: json.splits if_splits)
  then show ?thesis using m(1) json_loads_ok [OF v(1)] by (simp add: json_ok_opt)
qed

lemma canonical_previous:
  assumes "chain_entry N s raw = Inr e" and "chain_entry N s raw' = Inr e'"
    and "json_canonical N (JObj (model_dump e)) = json_canonical N (JObj (model_dump e'))"
  shows "record_previous e = record_previous e'"
proof -
  have look: "map_of (map (\<lambda>kv. (fst kv, normal True (snd kv))) (ordered True (model_dump e))) ''previous_hash'' = Some (opt_json (record_previous e))" for e
  proof (rule map_of_is_SomeI)
    show "distinct (map fst (map (\<lambda>kv. (fst kv, normal True (snd kv))) (ordered True (model_dump e))))" by (simp add: comp_def)
    have "(''previous_hash'', opt_json (record_previous e)) \<in> set (model_dump e)" by (cases e) simp_all
    moreover have "normal True (opt_json (record_previous e)) = opt_json (record_previous e)" by (simp add: opt_json_def split: option.splits)
    ultimately show "(''previous_hash'', opt_json (record_previous e)) \<in> set (map (\<lambda>kv. (fst kv, normal True (snd kv))) (ordered True (model_dump e)))" by force
  qed
  have "normal True (JObj (model_dump e)) = normal True (JObj (model_dump e'))"
    using json_canonical_inject [OF model_dump_ok model_dump_ok] assms by blast
  then have "opt_json (record_previous e) = opt_json (record_previous e')" using look [of e] look [of e'] unfolding normal_obj json.inject by simp
  then show ?thesis by (simp add: opt_json_def split: option.splits)
qed

lemma walk_snoc:
  assumes "walk_rows N sha s h (xs @ [x]) = Inr (final, ixs)"
  obtains h' e ixs' where "walk_rows N sha s h xs = Inr (h', ixs')" "chain_entry N s (snd x) = Inr e" "record_previous e = h'" "final = Some (hash_entry N sha e)"
  using assms by (auto simp: walk_append split: sum.splits if_splits)

lemma equal_heads:
  "walk_rows N sha s None xs = Inr (h, i) \<Longrightarrow> walk_rows N sha s None ys = Inr (h, j) \<Longrightarrow>
   list_all2 (same_content N s) xs ys \<or>
   (\<exists>xs1 x xs2 ys1 y ys2. xs = xs1 @ x # xs2 \<and> ys = ys1 @ y # ys2 \<and> digests_collide N sha s x y \<and> list_all2 (same_content N s) xs2 ys2)"
proof (induction xs arbitrary: ys h i j rule: rev_induct)
  case Nil
  then show ?case using walk_final [of N sha s None ys h j] by auto
next
  case (snoc x xs)
  obtain h1 e i1 where x: "walk_rows N sha s None xs = Inr (h1, i1)" "chain_entry N s (snd x) = Inr e" "record_previous e = h1" "h = Some (hash_entry N sha e)"
    using walk_snoc [OF snoc.prems(1)] by metis
  have "ys \<noteq> []" using snoc.prems(2) x(4) by auto
  then obtain zs y where ys: "ys = zs @ [y]" by (metis rev_exhaust)
  obtain h2 e2 j2 where y: "walk_rows N sha s None zs = Inr (h2, j2)" "chain_entry N s (snd y) = Inr e2" "record_previous e2 = h2" "h = Some (hash_entry N sha e2)"
    using walk_snoc [OF snoc.prems(2)[unfolded ys]] by metis
  let ?t = "\<lambda>e. json_canonical N (JObj (model_dump e))"
  have hash: "sha (?t e) = sha (?t e2)" using x(4) y(4) by (simp add: hash_entry_def)
  show ?case
  proof (cases "?t e = ?t e2")
    case True
    then have "h1 = h2" using canonical_previous x(2,3) y(2,3) by blast
    moreover have last: "list_all2 (same_content N s) [x] [y]" using x(2) y(2) True by (auto simp: same_content_def)
    ultimately consider "list_all2 (same_content N s) xs zs"
      | xs1 u xs2 ys1 v ys2 where "xs = xs1 @ u # xs2" "zs = ys1 @ v # ys2" "digests_collide N sha s u v" "list_all2 (same_content N s) xs2 ys2"
      using snoc.IH x(1) y(1) by blast
    then show ?thesis
    proof cases
      case 1
      then show ?thesis using list_all2_appendI [OF _ last] by (simp add: ys)
    next
      case 2
      then have "xs @ [x] = xs1 @ u # (xs2 @ [x])" "ys = ys1 @ v # (ys2 @ [y])" "list_all2 (same_content N s) (xs2 @ [x]) (ys2 @ [y])"
        using list_all2_appendI [OF _ last] by (simp_all add: ys)
      then show ?thesis using 2(3) by blast
    qed
  next
    case False
    then have "digests_collide N sha s x y" using hash x(2) y(2) by (auto simp: digests_collide_def)
    then have "xs @ [x] = xs @ x # [] \<and> ys = zs @ y # [] \<and> digests_collide N sha s x y \<and> list_all2 (same_content N s) [] []" by (simp add: ys)
    then show ?thesis by blast
  qed
qed

end

lemma example_empty_trail: "trail (json_codec point_numbers) point_numbers letters_sha (store_of example_world) s []"
  unfolding trail_def store_of_def example_world_def by (intro exI [of _ None] exI [of _ "[]"])
    (auto simp: stream_at_def string_at_def empty_stream_def optional_checkpoint_def after_def intro: archived.no_checkpoint)

lemma example_typed: "store_typed (aw_db example_world) s"
  by (simp add: store_typed_def example_world_def stream_typed_def)

text \<open>A digest of 64 digits that depends on its text.\<close>

definition length_sha :: "string \<Rightarrow> string" where
  "length_sha t = (let n = length t mod 65 in replicate n CHR ''a'' @ replicate (64 - n) CHR ''b'')"

text \<open>A store with one record, under the given identifier.\<close>

definition one_record :: "sid \<Rightarrow> keyspace audit_world" where
  "one_record i = \<lparr>aw_db = ks_put (head_key Messages) (RString (hash_entry point_numbers length_sha (MessageRecord example_entry)))
      (ks_put (stream_key Messages) (RStream (empty_stream\<lparr>st_entries := [(i, entry_to_stream_fields point_numbers (MessageRecord example_entry))], st_last := i\<rparr>))
        (fresh_keyspace 0)),
     aw_files = Map.empty, aw_heads = \<lambda>_. None\<rparr>"

lemma one_record_sel:
  "entries_at (stream_key Messages) (aw_db (one_record i)) = [(i, entry_to_stream_fields point_numbers (MessageRecord example_entry))]"
  "string_at (head_key Messages) (aw_db (one_record i)) = Some (hash_entry point_numbers length_sha (MessageRecord example_entry))" "string_at (checkpoint_key Messages) (aw_db (one_record i)) = None"
  "store_typed (aw_db (one_record i)) Messages" "bounded_id i \<Longrightarrow> stream_wf (stream_at (stream_key Messages) (aw_db (one_record i)))"
  using stream_fields_distinct [of point_numbers "MessageRecord example_entry"]
  by (auto simp: one_record_def stream_at_def string_at_def store_typed_def stream_typed_def stream_wf_def checkpoint_key_def)

lemma one_record_verifies:
  assumes "bounded_id i"
  shows "fst (verify_chain (json_codec point_numbers) point_numbers length_sha ks_redis example_retention quiet Messages (Some ''m1'') 10 (one_record i)) = Inr True"
proof -
  note sel = one_record_sel [of i]
  have start: "verify_start (one_record i) Messages example_retention 10" using sel(4,5) assms by (simp add: verify_start_def example_retention_def)
  have cp: "optional_checkpoint (json_codec point_numbers) (string_at (checkpoint_key Messages) (aw_db (one_record i))) = Inr None" by (simp add: sel optional_checkpoint_def)
  have arch: "verify_archive (json_codec point_numbers) point_numbers length_sha example_retention quiet Messages (Some ''m1'') 10 None (0, False) (one_record i) =
      (Inr (Some (0, False)), one_record i)" by (simp add: verify_archive.simps)
  have entry: "chain_entry point_numbers Messages (entry_to_stream_fields point_numbers (MessageRecord example_entry)) = Inr (MessageRecord example_entry)"
    by (rule point.chain_entry_roundtrip)
       (simp_all add: example_entry_def point_numbers_def decimal_numbers_def audit_entry_ok_def valid_hash_def)
  have live: "live_after (aw_db (one_record i)) Messages None = [(i, entry_to_stream_fields point_numbers (MessageRecord example_entry))]"
    by (simp add: live_after_def sel dict_rows_def dict_of_stream_fields del: stream_key.simps)
  have ex: "ae_message_id example_entry = ''m1''" "ae_previous_hash example_entry = None" "ae_hash_version example_entry = 2" by (simp_all add: example_entry_def)
  show ?thesis
    using verify_chain_run [OF start cp, of point_numbers length_sha "Some ''m1''" 0 False] arch
    by (simp add: sel live entry upper_id_def is_message_def ex del: stream_key.simps head_key.simps chain_entry.simps)
qed

lemma one_record_covered:
  "covered (json_codec point_numbers) point_numbers length_sha (store_of (one_record i)) Messages [(i, entry_to_stream_fields point_numbers (MessageRecord example_entry))]"
  unfolding covered_def store_of_def fst_conv snd_conv one_record_sel
  by (intro exI [of _ None] exI [of _ "[]"]) (auto simp: optional_checkpoint_def dict_rows_def dict_of_stream_fields intro: archived.no_checkpoint)

section \<open>Properties\<close>

text \<open>
  C25. Verification accepts what the gateways wrote, all of it and nothing else: on any store
  that a run of the gateways reached, if nobody interferes and the scan limit covers the
  trail, \<open>_verify_chain\<close> answers True exactly when the trail is not empty and holds the
  message that is asked for, through archived segments and live records.
\<close>

theorem genuine_trail_verifies:
  assumes "audit_setting N cjson C sha" and "retention_post_init settings = Inr ()" and "now div 1000 \<le> max_part"
    and "audit_run C N cjson sha settings (Map.empty, fresh_keyspace now) (store_of w)"
    and "store_typed (aw_db w) s" and "trail C N sha (store_of w) s rows" and "int (length rows) \<le> max_entries" and "0 < max_entries"
    and "archive_directory settings = None \<longrightarrow> string_at (checkpoint_key s) (aw_db w) = None"
  shows "fst (verify_chain C N sha ks_redis settings quiet s wanted max_entries w) =
    Inr (rows \<noteq> [] \<and> (wanted = None \<or> mentions N s wanted rows))"
proof -
  have good: "audit_good C N sha settings (store_of w)" using audit_setting.run_good [OF assms(1,4)] empty_store_good [OF assms(2,3)] by blast
  then have "stream_wf (stream_at (stream_key s) (aw_db w))" by (simp add: audit_good_def audit_inv_def audit_chain_def store_of_def)
  then have "verify_start w s settings max_entries"
    using assms(2,5,8) by (auto simp: verify_start_def retention_post_init_def split: if_splits)
  then show ?thesis using genuine_answer [OF good _ assms(6,7,9)] by blast
qed

theorem genuine_trail_verifies_witness:
  "fst (verify_chain (json_codec point_numbers) point_numbers letters_sha ks_redis example_retention quiet Messages (Some ''m1'') 10 example_world) = Inr False"
proof -
  have "audit_run (json_codec point_numbers) point_numbers (json_loads point_numbers) letters_sha example_retention (Map.empty, fresh_keyspace 0) (store_of example_world)"
    by (simp add: example_world_def store_of_def audit_run.idle)
  from genuine_trail_verifies [where max_entries = 10 and wanted = "Some ''m1''", OF point_audit.audit_setting_axioms _ _ this example_typed [of Messages] example_empty_trail]
  show ?thesis by (simp add: example_retention_def retention_post_init_def)
qed

text \<open>
  C24. Tampering is detected: whatever was done to the records and to the archive of two
  stores, if both verify and have the same head, then the records they cover are the same
  one by one, or whoever changed them has found a collision of the digest: a record of the one
  store and a record of the other have different canonical texts with the same digest, and
  after these two the records are the same one by one up to the end.
\<close>

theorem tampering_is_detected:
  assumes "json_numerals N" and "0 < batch_size settings" and "0 < max_entries"
    and "store_typed (aw_db x) s" and "stream_wf (stream_at (stream_key s) (aw_db x))"
    and "store_typed (aw_db y) s" and "stream_wf (stream_at (stream_key s) (aw_db y))"
    and "fst (verify_chain C N sha ks_redis settings quiet s wanted max_entries x) = Inr True"
    and "fst (verify_chain C N sha ks_redis settings quiet s wanted' max_entries y) = Inr True"
    and "string_at (head_key s) (aw_db x) = string_at (head_key s) (aw_db y)"
    and "covered C N sha (store_of x) s rows" and "covered C N sha (store_of y) s rows'"
  shows "list_all2 (same_content N s) rows rows' \<or>
    (\<exists>xs1 x xs2 ys1 y ys2. rows = xs1 @ x # xs2 \<and> rows' = ys1 @ y # ys2 \<and> digests_collide N sha s x y \<and> list_all2 (same_content N s) xs2 ys2)"
proof -
  have "verify_start x s settings max_entries" "verify_start y s settings max_entries" using assms(2-7) by (simp_all add: verify_start_def)
  from verified_chain [OF this(1) assms(8,11)] verified_chain [OF this(2) assms(9,12)]
  obtain i j where "walk_rows N sha s None rows = Inr (string_at (head_key s) (aw_db x), i)"
    "walk_rows N sha s None rows' = Inr (string_at (head_key s) (aw_db x), j)" using assms(10) by auto
  then show ?thesis by (rule json_numerals.equal_heads [OF assms(1)])
qed

theorem tampering_is_detected_witness:
  "list_all2 (same_content point_numbers Messages) [((1, 0), entry_to_stream_fields point_numbers (MessageRecord example_entry))]
     [((2, 0), entry_to_stream_fields point_numbers (MessageRecord example_entry))]"
proof -
  let ?f = "entry_to_stream_fields point_numbers (MessageRecord example_entry)"
  have "list_all2 (same_content point_numbers Messages) [((1, 0), ?f)] [((2, 0), ?f)] \<or>
    (\<exists>xs1 x xs2 ys1 y ys2. [((1, 0), ?f)] = xs1 @ x # xs2 \<and> [((2, 0), ?f)] = ys1 @ y # ys2 \<and> digests_collide point_numbers length_sha Messages x y \<and>
       list_all2 (same_content point_numbers Messages) xs2 ys2)"
    by (rule tampering_is_detected [where settings = example_retention and max_entries = 10 and x = "one_record (1, 0)" and y = "one_record (2, 0)",
        OF point.json_numerals_axioms _ _ _ _ _ _ one_record_verifies one_record_verifies _ one_record_covered one_record_covered])
       (simp_all add: one_record_sel bounded_id_def max_part_def example_retention_def del: stream_key.simps head_key.simps)
  moreover have "\<not> digests_collide point_numbers length_sha Messages (i, ?f) (j, ?f)" for i j by (auto simp: digests_collide_def)
  ultimately show ?thesis by (auto simp: Cons_eq_append_conv)
qed

text \<open>
  The counts of \<open>get_stats\<close> are the lengths of the two trails: archiving does not change them.
\<close>

theorem stats_count_the_trail:
  assumes "store_typed ks Messages" and "store_typed ks Security_Events"
    and "trail C N sha (files, ks) Messages messages" and "trail C N sha (files, ks) Security_Events events"
  shows "get_stats C ks_redis ks = (Inr (int (length messages), int (length events)), ks)"
proof -
  have reads: "ks_xlen (stream_key s) ks = (Inr (length (entries_at (stream_key s) ks)), ks)" "ks_get (checkpoint_key s) ks = (Inr (string_at (checkpoint_key s) ks), ks)" for s
    using assms(1,2) xlen_typed get_string by (cases s; auto simp: store_typed_def)+
  have count: "\<exists>n. archived_total C (string_at (checkpoint_key s) ks) = Inr n \<and> int (length (entries_at (stream_key s) ks)) + n = int (length rows)"
    if tr: "trail C N sha (files, ks) s rows" for s rows
  proof -
    obtain cp hist where "optional_checkpoint C (string_at (checkpoint_key s) ks) = Inr cp" "archived C N sha files s cp hist"
        "rows = hist @ entries_at (stream_key s) ks" using tr by (auto simp: trail_def)
    then show ?thesis using archived_count [of C N sha files s cp hist] by (auto simp: archived_total_def total_before_def split: option.splits)
  qed
  show ?thesis using reads [of Messages] reads [of Security_Events] count [OF assms(3)] count [OF assms(4)]
    by (auto simp: get_stats_def io_simps)
qed

theorem stats_count_the_trail_witness:
  "get_stats (json_codec point_numbers) ks_redis (fresh_keyspace 0) = (Inr (0, 0), fresh_keyspace 0)"
  using stats_count_the_trail [OF example_typed example_typed example_empty_trail [unfolded store_of_def] example_empty_trail [unfolded store_of_def]]
  by (simp add: example_world_def)

end
