(* ===== verification/Audit_Sink.thy ===== *)
theory Audit_Sink
  imports Audit_Entry
begin

text \<open>
  \<open>AuditFileSink\<close> of \<open>packages/mas-gateway/src/mas_gateway/audit.py\<close>: message records as JSON
  lines in a file that is rotated by size. The disk is a map from paths to contents, and
  any file operation may fail: the operations consume a list of faults, one per operation.
\<close>

section \<open>The disk\<close>

record sink_disk =
  sd_files :: "string \<rightharpoonup> string"
  sd_faults :: "bool list"

definition file_op :: "((string \<rightharpoonup> string) \<Rightarrow> (err + 'a) \<times> (string \<rightharpoonup> string)) \<Rightarrow> (sink_disk, 'a) io" where
  "file_op f d =
     (case sd_faults d of
        True # rest \<Rightarrow> (Inl (OSError ''file operation failed''), d\<lparr>sd_faults := rest\<rparr>)
      | _ \<Rightarrow> (case f (sd_files d) of (r, files) \<Rightarrow> (r, d\<lparr>sd_files := files, sd_faults := tl (sd_faults d)\<rparr>)))"

definition missing_file :: err where
  "missing_file = OSError ''No such file or directory''"

definition make_parent :: "(sink_disk, unit) io" where
  "make_parent = file_op (\<lambda>files. (Inr (), files))"

definition file_exists :: "string \<Rightarrow> (sink_disk, bool) io" where
  "file_exists p = file_op (\<lambda>files. (Inr (files p \<noteq> None), files))"

definition file_size :: "string \<Rightarrow> (sink_disk, nat) io" where
  "file_size p = file_op (\<lambda>files. (case files p of None \<Rightarrow> Inl missing_file | Some t \<Rightarrow> Inr (length t), files))"

definition file_unlink :: "string \<Rightarrow> (sink_disk, unit) io" where
  "file_unlink p = file_op (\<lambda>files. if files p = None then (Inl missing_file, files) else (Inr (), files(p := None)))"

definition file_replace :: "string \<Rightarrow> string \<Rightarrow> (sink_disk, unit) io" where
  "file_replace src dest = file_op (\<lambda>files. case files src of
       None \<Rightarrow> (Inl missing_file, files)
     | Some t \<Rightarrow> (Inr (), (files(src := None))(dest := Some t)))"

definition file_append :: "string \<Rightarrow> string \<Rightarrow> (sink_disk, unit) io" where
  "file_append p line = file_op (\<lambda>files. (Inr (), files(p \<mapsto> or_empty (files p) @ line)))"

section \<open>The sink\<close>

record file_sink =
  sink_path :: string
  max_bytes :: int
  backup_count :: int

text \<open>\<open>path.with_suffix(path.suffix + f".{i}")\<close>\<close>

definition backup_path :: "file_sink \<Rightarrow> nat \<Rightarrow> string" where
  "backup_path k i = sink_path k @ ''.'' @ show_nat i"

definition entry_line :: "text_numbers \<Rightarrow> audit_entry \<Rightarrow> string" where
  "entry_line N e = dumps N '', '' '': '' True (JObj (model_dump (MessageRecord e))) @ [CHR 0x0A]"

definition should_rotate :: "file_sink \<Rightarrow> string \<Rightarrow> (sink_disk, bool) io" where
  "should_rotate k line =
     (if max_bytes k \<le> 0 then ret False
      else bindio (file_exists (sink_path k)) (\<lambda>there.
        if \<not> there then ret False
        else bindio (file_size (sink_path k)) (\<lambda>n. ret (int n + int (length line) > max_bytes k))))"

primrec shift_backups :: "file_sink \<Rightarrow> nat \<Rightarrow> (sink_disk, unit) io" where
  "shift_backups k 0 = ret ()"
| "shift_backups k (Suc n) =
     bindio (file_exists (backup_path k (Suc n))) (\<lambda>there.
     seqio (if there then file_replace (backup_path k (Suc n)) (backup_path k (Suc (Suc n))) else ret ())
           (shift_backups k n))"

definition rotate_files :: "file_sink \<Rightarrow> (sink_disk, unit) io" where
  "rotate_files k =
     (if backup_count k \<le> 0
      then catchio (file_unlink (sink_path k)) (\<lambda>e. if e = missing_file then ret () else raise e)
      else seqio (shift_backups k (nat (backup_count k - 1)))
        (bindio (file_exists (sink_path k)) (\<lambda>there.
           if there then file_replace (sink_path k) (backup_path k 1) else ret ())))"

definition rotate_and_write :: "file_sink \<Rightarrow> string \<Rightarrow> (sink_disk, unit) io" where
  "rotate_and_write k line =
     seqio make_parent
     (bindio (should_rotate k line) (\<lambda>rotate.
      seqio (if rotate then rotate_files k else ret ()) (file_append (sink_path k) line)))"

definition write_entry :: "text_numbers \<Rightarrow> file_sink \<Rightarrow> audit_entry \<Rightarrow> (sink_disk, unit) io" where
  "write_entry N k e = rotate_and_write k (entry_line N e)"

section \<open>What rotation keeps\<close>

text \<open>The files of a sink by age: 0 is the current file. The log reads them oldest first.\<close>

definition sink_file :: "file_sink \<Rightarrow> nat \<Rightarrow> string" where
  "sink_file k i = (if i = 0 then sink_path k else backup_path k i)"

definition content_at :: "file_sink \<Rightarrow> sink_disk \<Rightarrow> nat \<Rightarrow> string" where
  "content_at k d i = or_empty (sd_files d (sink_file k i))"

primrec aged :: "(nat \<Rightarrow> string) \<Rightarrow> nat \<Rightarrow> string" where
  "aged F 0 = F 0"
| "aged F (Suc n) = F (Suc n) @ aged F n"

definition sink_log :: "file_sink \<Rightarrow> sink_disk \<Rightarrow> string" where
  "sink_log k d = aged (content_at k d) (nat (backup_count k))"

lemma sink_file_eq [simp]: "sink_file k i = sink_file k j \<longleftrightarrow> i = j"
  by (auto simp: sink_file_def backup_path_def)

lemma sink_file_names: "backup_path k (Suc i) = sink_file k (Suc i)" "sink_path k = sink_file k 0"
  by (simp_all add: sink_file_def)

lemma aged_cong: "(\<And>i. i \<le> n \<Longrightarrow> F i = G i) \<Longrightarrow> aged F n = aged G n"
  by (induction n) auto

text \<open>A file operation fails and changes no file, or does what it says.\<close>

lemma file_op_cases:
  assumes "file_op f d = (r, d')"
  obtains (fault) e where "r = Inl e" "sd_files d' = sd_files d" | (works) "f (sd_files d) = (r, sd_files d')"
proof (cases "f (sd_files d)")
  case (Pair a b)
  have "(\<exists>e. r = Inl e \<and> sd_files d' = sd_files d) \<or> f (sd_files d) = (r, sd_files d')"
    using assms Pair by (auto simp: file_op_def split: list.splits bool.splits)
  then show ?thesis using that by blast
qed

lemma file_reads:
  "file_exists p d = (r, d') \<Longrightarrow> sd_files d' = sd_files d \<and> (case r of Inl e \<Rightarrow> True | Inr b \<Rightarrow> b = (sd_files d p \<noteq> None))"
  "file_size p d = (r', d') \<Longrightarrow> sd_files d' = sd_files d \<and> (\<forall>n. r' = Inr n \<longrightarrow> (\<exists>t. sd_files d p = Some t \<and> n = length t))"
  "make_parent d = (r'', d') \<Longrightarrow> sd_files d' = sd_files d"
  by (auto simp: file_exists_def file_size_def make_parent_def elim!: file_op_cases split: option.splits)

lemma file_replace_cases:
  assumes "file_replace (sink_file k i) (sink_file k j) d = (r, d')" and "i \<noteq> j"
  obtains (same) e where "r = Inl e" "content_at k d' = content_at k d" "sd_files d' = sd_files d"
    | (replaced) "r = Inr ()" "content_at k d' = (content_at k d)(i := [], j := content_at k d i)" "sd_files d' (sink_file k i) = None"
  using assms(1) unfolding file_replace_def
proof (cases rule: file_op_cases)
  case fault
  then show ?thesis using same by (auto simp: content_at_def fun_eq_iff)
next
  case works
  show ?thesis
  proof (cases "sd_files d (sink_file k i)")
    case None
    then have "r = Inl missing_file" "sd_files d' = sd_files d" using works by simp_all
    then show ?thesis by (intro same) (simp_all add: content_at_def fun_eq_iff)
  next
    case (Some t)
    then have files: "r = Inr ()" "sd_files d' = (sd_files d)(sink_file k i := None, sink_file k j := Some t)" using works by simp_all
    then have "content_at k d' = (content_at k d)(i := [], j := content_at k d i)"
      using Some assms(2) by (intro ext) (simp add: content_at_def or_empty_def)
    then show ?thesis using files assms(2) by (intro replaced) simp_all
  qed
qed

definition drops_oldest :: "nat \<Rightarrow> (nat \<Rightarrow> string) \<Rightarrow> (nat \<Rightarrow> string) \<Rightarrow> bool" where
  "drops_oldest n F G \<longleftrightarrow> aged G n = aged F n \<or> F n @ aged G n = aged F n"

lemma shift_backups_cases:
  "shift_backups k n d = (r, d') \<Longrightarrow>
    drops_oldest (Suc n) (content_at k d) (content_at k d') \<and> content_at k d' 0 = content_at k d 0 \<and>
    (\<forall>i > Suc n. content_at k d' i = content_at k d i) \<and> (r = Inr () \<longrightarrow> 0 < n \<longrightarrow> content_at k d' 1 = [])"
proof (induction n arbitrary: d)
  case (Suc n)
  obtain b d1 where e: "file_exists (sink_file k (Suc n)) d = (b, d1)" by fastforce
  note same = file_reads(1) [OF e]
  have F1: "content_at k d1 = content_at k d" using same by (simp add: content_at_def fun_eq_iff)
  show ?case
  proof (cases b)
    case (Inl x)
    then have "r = Inl x" "d' = d1" using Suc.prems e by (simp_all add: sink_file_names io_simps)
    then show ?thesis using F1 by (simp add: drops_oldest_def)
  next
    case (Inr there)
    show ?thesis
    proof (cases there)
      case False
      have gone: "content_at k d (Suc n) = []" using same Inr False by (simp add: content_at_def or_empty_def)
      have "shift_backups k n d1 = (r, d')" using Suc.prems e Inr False by (simp add: sink_file_names io_simps)
      from Suc.IH [OF this] show ?thesis using gone F1 by (cases n) (auto simp: drops_oldest_def)
    next
      case True
      obtain b' d2 where rep: "file_replace (sink_file k (Suc n)) (sink_file k (Suc (Suc n))) d1 = (b', d2)" by fastforce
      have next_run: "b' = Inl x \<Longrightarrow> d' = d2 \<and> r = Inl x" "b' = Inr () \<Longrightarrow> shift_backups k n d2 = (r, d')" for x
        using Suc.prems e rep Inr True by (simp_all add: sink_file_names io_simps)
      have two: "aged (content_at k d2) n = aged (content_at k d) n" if "content_at k d2 = (content_at k d)(Suc n := [], Suc (Suc n) := x)" for x
        by (rule aged_cong) (simp add: that)
      from rep n_not_Suc_n show ?thesis
      proof (cases rule: file_replace_cases)
        case (same x)
        then show ?thesis using next_run(1) F1 by (simp add: drops_oldest_def)
      next
        case replaced
        note IH = Suc.IH [OF next_run(2) [OF replaced(1)]]
        have f2: "content_at k d2 = (content_at k d)(Suc n := [], Suc (Suc n) := content_at k d (Suc n))" using replaced(2) F1 by simp
        have empty: "content_at k d2 (Suc n) = []" by (simp add: f2)
        have "aged (content_at k d') (Suc n) = aged (content_at k d) n" using IH two [OF f2] empty by (auto simp: drops_oldest_def)
        moreover have "content_at k d' (Suc (Suc n)) = content_at k d (Suc n)" using IH by (simp add: f2)
        moreover have "r = Inr () \<longrightarrow> content_at k d' 1 = []" using IH by (cases n) (auto simp: drops_oldest_def f2)
        ultimately show ?thesis using IH by (simp add: drops_oldest_def f2)
      qed
    qed
  qed
qed (simp add: drops_oldest_def)

lemma aged_head:
  assumes "G 1 @ G 0 = F 1 @ F 0" and "\<And>i. 1 < i \<Longrightarrow> G i = F i"
  shows "aged G (Suc n) = aged F (Suc n)"
  using assms by (induction n) auto

lemma rotate_files_cases:
  assumes run: "rotate_files k d = (r, d')" and "1 \<le> backup_count k"
  shows "drops_oldest (nat (backup_count k)) (content_at k d) (content_at k d') \<and> (r = Inr () \<longrightarrow> content_at k d' 0 = [])"
proof -
  define n where "n = nat (backup_count k - 1)"
  have count: "nat (backup_count k) = Suc n" "\<not> backup_count k \<le> 0" using assms(2) by (auto simp: n_def)
  obtain b d1 where sh: "shift_backups k n d = (b, d1)" by fastforce
  note shift = shift_backups_cases [OF sh]
  have one: "backup_path k (Suc 0) = sink_file k (Suc 0)" by (simp add: sink_file_def)
  show ?thesis
  proof (cases b)
    case (Inl x)
    then have "r = Inl x \<and> d' = d1" using run sh count by (simp add: rotate_files_def io_simps flip: n_def)
    then show ?thesis using shift by (simp add: count)
  next
    case (Inr u)
    obtain b2 d2 where e: "file_exists (sink_file k 0) d1 = (b2, d2)" by fastforce
    note same = file_reads(1) [OF e]
    have F2: "content_at k d2 = content_at k d1" using same by (simp add: content_at_def fun_eq_iff)
    have rest: "b2 = Inl x \<Longrightarrow> r = Inl x \<and> d' = d2" "b2 = Inr False \<Longrightarrow> r = Inr () \<and> d' = d2"
        "b2 = Inr True \<Longrightarrow> file_replace (sink_file k 0) (sink_file k (Suc 0)) d2 = (r, d')" for x
      using run sh e Inr count by (simp_all add: rotate_files_def sink_file_names(2) one io_simps flip: n_def)
    show ?thesis
    proof (cases "b2 = Inr True")
      case False
      then consider x where "b2 = Inl x" | "b2 = Inr False" by (metis (full_types) sum.exhaust)
      then show ?thesis
        using rest(1,2) shift same F2 by cases (auto simp: count content_at_def or_empty_def)
    next
      case True
      from rest(3) [OF True] n_not_Suc_n show ?thesis
      proof (cases rule: file_replace_cases)
        case (same x)
        then show ?thesis using shift F2 by (simp add: count)
      next
        case replaced
        have f: "content_at k d' = (content_at k d1)(0 := [], Suc 0 := content_at k d1 0)" using replaced(2) F2 by simp
        show ?thesis
        proof (cases n)
          case 0
          then have "d1 = d" using sh by simp
          then show ?thesis using 0 f by (simp add: count drops_oldest_def)
        next
          case (Suc m)
          then have "content_at k d1 1 = []" using shift Inr by simp
          then have "aged (content_at k d') (Suc n) = aged (content_at k d1) (Suc n)"
            by (intro aged_head) (simp_all add: f)
          then show ?thesis using shift f by (simp add: count drops_oldest_def del: aged.simps)
        qed
      qed
    qed
  qed
qed

lemma aged_append:
  "(\<And>i. 0 < i \<Longrightarrow> G i = F i) \<Longrightarrow> G 0 = F 0 @ t \<Longrightarrow> aged G n = aged F n @ t"
  by (induction n) auto

lemma file_append_cases:
  assumes "file_append (sink_path k) line d = (r, d')"
  obtains (same) e where "r = Inl e" "content_at k d' = content_at k d"
    | (appended) "r = Inr ()" "content_at k d' = (content_at k d)(0 := content_at k d 0 @ line)"
  using assms unfolding file_append_def sink_file_names(2)
proof (cases rule: file_op_cases)
  case fault
  then show ?thesis using same by (simp add: content_at_def fun_eq_iff)
next
  case works
  then have files: "r = Inr ()" "sd_files d' = (sd_files d)(sink_file k 0 \<mapsto> or_empty (sd_files d (sink_file k 0)) @ line)" by simp_all
  then have "content_at k d' = (content_at k d)(0 := content_at k d 0 @ line)"
    by (intro ext) (simp add: content_at_def or_empty_def)
  then show ?thesis using files appended by blast
qed

lemma should_rotate_cases:
  assumes "should_rotate k line d = (r, d')"
  shows "content_at k d' = content_at k d"
    "r = Inr False \<Longrightarrow> 0 < max_bytes k \<Longrightarrow> content_at k d 0 = [] \<or> int (length (content_at k d 0)) + int (length line) \<le> max_bytes k"
proof -
  obtain b d1 where e: "file_exists (sink_path k) d = (b, d1)" by fastforce
  obtain b2 d2 where n: "file_size (sink_path k) d1 = (b2, d2)" by fastforce
  note f = file_reads(1) [OF e] file_reads(2) [OF n]
  have out: "(sd_files d' = sd_files d) \<and> (r = Inr False \<longrightarrow> 0 < max_bytes k \<longrightarrow>
      sd_files d (sink_path k) = None \<or> (\<exists>t. sd_files d (sink_path k) = Some t \<and> int (length t) + int (length line) \<le> max_bytes k))"
    using assms e n f by (auto simp: should_rotate_def io_simps split: if_splits sum.splits)
  then show "content_at k d' = content_at k d" by (simp add: content_at_def fun_eq_iff)
  show "content_at k d 0 = [] \<or> int (length (content_at k d 0)) + int (length line) \<le> max_bytes k" if "r = Inr False" "0 < max_bytes k"
    using out that by (auto simp: content_at_def or_empty_def sink_file_def)
qed

text \<open>Before the line is appended: the oldest backup may be gone, and the current file has room.\<close>

lemma before_append:
  assumes run: "rotate_and_write k line d = (r, d')" and count: "1 \<le> backup_count k"
  obtains (stopped) e where "r = Inl e" "drops_oldest (nat (backup_count k)) (content_at k d) (content_at k d')"
    | (writes) d2 where "drops_oldest (nat (backup_count k)) (content_at k d) (content_at k d2)" "file_append (sink_path k) line d2 = (r, d')"
        "0 < max_bytes k \<Longrightarrow> content_at k d2 0 = [] \<or> int (length (content_at k d2 0)) + int (length line) \<le> max_bytes k"
proof -
  obtain a d0 where p: "make_parent d = (a, d0)" by fastforce
  have F0: "content_at k d0 = content_at k d" using file_reads(3) [OF p] by (simp add: content_at_def fun_eq_iff)
  obtain b d1 where s: "should_rotate k line d0 = (b, d1)" by fastforce
  note F1 = should_rotate_cases(1) [OF s, unfolded F0] and room = should_rotate_cases(2) [OF s]
  obtain c d2 where rot: "rotate_files k d1 = (c, d2)" by fastforce
  note rotated = rotate_files_cases [OF rot count, unfolded F1]
  have id: "drops_oldest n F F" for n F by (simp add: drops_oldest_def)
  show ?thesis
  proof (cases "(\<exists>e. a = Inl e) \<or> (\<exists>e. b = Inl e)")
    case True
    then have "(\<exists>e. r = Inl e) \<and> content_at k d' = content_at k d"
      using run p s F0 F1 by (auto simp: rotate_and_write_def io_simps split: sum.splits)
    then show ?thesis using stopped id by auto
  next
    case False
    then obtain rotate where ok: "a = Inr ()" "b = Inr rotate" by (metis old.unit.exhaust sum.exhaust)
    show ?thesis
    proof (cases rotate)
      case False
      then have "file_append (sink_path k) line d1 = (r, d')" using run p s ok by (simp add: rotate_and_write_def io_simps)
      then show ?thesis using writes [of d1] id F1 F0 room ok False by auto
    next
      case True
      then have "(\<exists>e. c = Inl e \<and> r = Inl e \<and> d' = d2) \<or> (c = Inr () \<and> file_append (sink_path k) line d2 = (r, d'))"
        using run p s ok rot by (auto simp: rotate_and_write_def io_simps split: sum.splits)
      then show ?thesis using stopped writes [of d2] rotated by auto
    qed
  qed
qed

section \<open>Properties\<close>

text \<open>
  Rotation of the audit file neither loses nor reorders lines beyond its bound: reading
  the files of the sink from the oldest backup to the current one, a write adds its line at
  the end and drops at most the whole oldest backup; if any file operation fails, the same
  holds without the new line. With a positive size bound the current file never exceeds the
  bound except for a single line longer than it.
\<close>

theorem file_sink_rotation:
  assumes "1 \<le> backup_count k" and "write_entry N k e d = (r, d')"
  shows "\<exists>dropped added. dropped @ sink_log k d' = sink_log k d @ added \<and>
    dropped \<in> {[], content_at k d (nat (backup_count k))} \<and> added \<in> {[], entry_line N e} \<and>
    (r = Inr () \<longrightarrow> added = entry_line N e \<and>
       (0 < max_bytes k \<longrightarrow> int (length (content_at k d' 0)) \<le> max (max_bytes k) (int (length (entry_line N e)))))"
proof -
  let ?n = "nat (backup_count k)" and ?line = "entry_line N e" and ?F = "content_at k d"
  have drop: "\<exists>dropped. dropped @ aged G ?n = aged ?F ?n \<and> dropped \<in> {[], ?F ?n}" if "drops_oldest ?n ?F G" for G
    using that by (auto simp: drops_oldest_def)
  from assms(2) [unfolded write_entry_def] assms(1) show ?thesis
  proof (cases rule: before_append)
    case stopped
    then obtain dropped where "dropped @ sink_log k d' = sink_log k d @ []" "dropped \<in> {[], ?F ?n}" using drop by (auto simp: sink_log_def)
    then show ?thesis using stopped(1) by (intro exI [of _ dropped] exI [of _ "[]"]) simp
  next
    case (writes d2)
    obtain dropped where d: "dropped @ aged (content_at k d2) ?n = aged ?F ?n" "dropped \<in> {[], ?F ?n}" using drop writes(1) by blast
    from writes(2) show ?thesis
    proof (cases rule: file_append_cases)
      case same
      then show ?thesis using d by (intro exI [of _ dropped] exI [of _ "[]"]) (auto simp: sink_log_def)
    next
      case appended
      have "aged (content_at k d') ?n = aged (content_at k d2) ?n @ ?line" by (rule aged_append) (simp_all add: appended)
      then have "dropped @ sink_log k d' = sink_log k d @ ?line" using d(1) by (simp add: sink_log_def flip: append_assoc)
      moreover have "int (length (content_at k d' 0)) \<le> max (max_bytes k) (int (length ?line))" if "0 < max_bytes k"
        using writes(3) [OF that] by (auto simp: appended)
      ultimately show ?thesis using d(2) by (intro exI [of _ dropped] exI [of _ ?line]) simp
    qed
  qed
qed

definition first_entry :: audit_entry where
  "first_entry = \<lparr>ae_message_id = ''m1'', ae_timestamp = 1, ae_sender_id = ''a'', ae_sender_instance_id = None, ae_target_id = ''b'',
     ae_message_type = None, ae_correlation_id = None, ae_decision = ''ALLOWED'', ae_latency_ms = 0, ae_payload_hash = ''h'',
     ae_violations = [], ae_previous_hash = None, ae_hash_version = 2\<rparr>"

theorem file_sink_rotation_witness:
  "\<exists>dropped added. dropped @ sink_log \<lparr>sink_path = ''a'', max_bytes = 5, backup_count = 1\<rparr>
      (snd (write_entry point_numbers \<lparr>sink_path = ''a'', max_bytes = 5, backup_count = 1\<rparr> first_entry
        \<lparr>sd_files = [''a'' \<mapsto> ''new'', ''a.1'' \<mapsto> ''old''], sd_faults = [False, False, False, True]\<rparr>)) = ''oldnew'' @ added \<and>
    dropped \<in> {[], ''old''}"
proof -
  let ?k = "\<lparr>sink_path = ''a'', max_bytes = 5, backup_count = 1\<rparr>"
    and ?d = "\<lparr>sd_files = [''a'' \<mapsto> ''new'', ''a.1'' \<mapsto> ''old''], sd_faults = [False, False, False, True]\<rparr>"
  have one: "show_nat (Suc 0) = ''1''" by (simp add: show_nat.simps digit_char_def char_of_def bit_Suc_0_iff)
  have "sink_log ?k ?d = ''oldnew'' \<and> content_at ?k ?d (nat (backup_count ?k)) = ''old''"
    by (simp add: sink_log_def content_at_def sink_file_def backup_path_def one or_empty_def)
  then show ?thesis using file_sink_rotation [of ?k point_numbers first_entry ?d] by (metis (no_types, lifting) one_le_numeral prod.collapse file_sink.select_convs(3) order_refl)
qed

end
