(* ===== verification/Audit_Log.thy ===== *)
theory Audit_Log
  imports Audit_Verify Audit_Sink
begin

text \<open>
  The entry points of \<open>AuditModule\<close> (\<open>packages/mas-gateway/src/mas_gateway/audit.py\<close>): a call
  queues its record, the writer takes it in a batch with whatever other calls queued beside
  it, and the call resumes with the answer of the batch for its own record.
\<close>

section \<open>Data\<close>

record audit_module =
  am_codec :: archive_codec
  am_numbers :: text_numbers
  am_cjson :: "string \<Rightarrow> json option"
  am_sha :: "string \<Rightarrow> string"
  am_settings :: retention_settings
  am_durability :: durability_settings
  am_sink :: "file_sink option"
  am_target :: commit_target

record 'db audit_service =
  sv_world :: "'db audit_world"
  sv_closed :: bool
  sv_disk :: sink_disk

text \<open>
  What surrounds one call: the number of its future, the writes that share its batch, the
  turns of the writer, and the clock that stamps the record.
\<close>

record 'db audit_plan =
  plan_number :: nat
  plan_before :: "pending_write list"
  plan_after :: "pending_write list"
  plan_turns :: "'db turn list"
  plan_clock :: real

section \<open>Operations\<close>

definition answer_of :: "nat \<Rightarrow> (pending_write \<times> (err + write_receipt)) list \<Rightarrow> (err + write_receipt) option" where
  "answer_of n results = map_option snd (find (\<lambda>x. pw_number (fst x) = n) results)"

definition queued_write :: "audit_module \<Rightarrow> nat \<Rightarrow> chain_record \<Rightarrow> audit_stream \<Rightarrow> string list \<Rightarrow> stream_append option \<Rightarrow> pending_write" where
  "queued_write A n entry s indexes eff =
     \<lparr>pw_number = n, pw_entry = entry, pw_stream = s, pw_indexes = indexes, pw_append = eff,
      pw_prepared = from_entry (am_numbers A) entry\<rparr>"

definition run_batch :: "audit_module \<Rightarrow> 'db redis \<Rightarrow> audit_stream \<Rightarrow> 'db turn list \<Rightarrow> pending_write list \<Rightarrow> 'db audit_world \<Rightarrow>
    ((pending_write \<times> (err + write_receipt)) list \<times> 'db audit_world) option" where
  "run_batch A R = complete_batch (am_codec A) (am_numbers A) (am_cjson A) (am_sha A) R (am_settings A) (am_durability A)"

definition append_entry :: "audit_module \<Rightarrow> 'db redis \<Rightarrow> 'db audit_plan \<Rightarrow> chain_record \<Rightarrow> audit_stream \<Rightarrow> string list \<Rightarrow>
    stream_append option \<Rightarrow> ('db audit_service, string \<times> chain_record) task" where
  "append_entry A R plan entry s indexes eff sv =
     (if sv_closed sv then Some (Inl (AuditArchiveError ''audit_writer_closed''), sv)
      else case run_batch A R s (plan_turns plan)
          (plan_before plan @ [queued_write A (plan_number plan) entry s indexes eff] @ plan_after plan) (sv_world sv) of
        None \<Rightarrow> None
      | Some (results, world) \<Rightarrow>
          (case answer_of (plan_number plan) results of
             None \<Rightarrow> None
           | Some (Inl e) \<Rightarrow> Some (Inl e, sv\<lparr>sv_world := world\<rparr>)
           | Some (Inr receipt) \<Rightarrow>
               Some (Inr (wr_stream_id receipt, with_link (wr_previous_hash receipt) entry), sv\<lparr>sv_world := world\<rparr>)))"

definition routable_decisions :: "string set" where
  "routable_decisions = {''ALLOWED'', ''ALERT'', ''DLP_REDACTED''}"

text \<open>A failing file sink is reported to the logger only.\<close>

definition to_sink :: "audit_module \<Rightarrow> chain_record \<Rightarrow> ('db audit_service, unit) io" where
  "to_sink A entry sv =
     (case (am_sink A, entry) of
        (Some k, MessageRecord e) \<Rightarrow> (Inr (), sv\<lparr>sv_disk := snd (write_entry (am_numbers A) k e (sv_disk sv))\<rparr>)
      | _ \<Rightarrow> (Inr (), sv))"

definition message_entry :: "audit_module \<Rightarrow> real \<Rightarrow> string \<Rightarrow> string \<Rightarrow> string \<Rightarrow> string \<Rightarrow> real \<Rightarrow> (string \<times> json) list \<Rightarrow> string list \<Rightarrow>
    string option \<Rightarrow> string option \<Rightarrow> string option \<Rightarrow> audit_entry" where
  "message_entry A now mid sender target decision latency payload violations kind cid inst =
     \<lparr>ae_message_id = mid, ae_timestamp = now, ae_sender_id = sender, ae_sender_instance_id = inst, ae_target_id = target,
      ae_message_type = kind, ae_correlation_id = cid, ae_decision = decision, ae_latency_ms = latency,
      ae_payload_hash = am_sha A (dumps (am_numbers A) '', '' '': '' True (JObj payload)), ae_violations = violations,
      ae_previous_hash = None, ae_hash_version = 2\<rparr>"

definition log_message :: "audit_module \<Rightarrow> 'db redis \<Rightarrow> 'db audit_plan \<Rightarrow> string \<Rightarrow> string \<Rightarrow> string \<Rightarrow> string \<Rightarrow> real \<Rightarrow>
    (string \<times> json) list \<Rightarrow> string list \<Rightarrow> string option \<Rightarrow> string option \<Rightarrow> string option \<Rightarrow> stream_append option \<Rightarrow>
    ('db audit_service, string) task" where
  "log_message A R plan mid sender target decision latency payload violations kind cid inst eff =
     (let bad = (case eff of None \<Rightarrow> False
            | Some a \<Rightarrow> decision \<notin> routable_decisions \<or> has_prefix ''audit:'' (append_stream a));
          entry = message_entry A (plan_clock plan) mid sender target decision latency payload violations kind cid inst in
      if bad then liftt (raise (ValueError ''stream append requires a routable decision and non-audit stream''))
      else if \<not> audit_entry_ok entry then liftt (raise ValidationError)
      else bindt (append_entry A R plan (MessageRecord entry) Messages
               [''audit:by_sender:'' @ sender, ''audit:by_target:'' @ target] eff) (\<lambda>(stream_id, logged).
           bindt (liftt (to_sink A logged)) (\<lambda>_. liftt (ret stream_id))))"

definition log_security_event :: "audit_module \<Rightarrow> 'db redis \<Rightarrow> 'db audit_plan \<Rightarrow> string \<Rightarrow> (string \<times> json) list \<Rightarrow>
    ('db audit_service, string) task" where
  "log_security_event A R plan event_type details =
     bindt (append_entry A R plan
       (EventRecord \<lparr>se_timestamp = plan_clock plan, se_event_type = event_type, se_details = details,
          se_previous_hash = None, se_hash_version = 2\<rparr>) Security_Events [] None)
       (\<lambda>(stream_id, _). liftt (ret stream_id))"

text \<open>\<open>close\<close> refuses new work; the calls under way run their batches to the end.\<close>

definition audit_close :: "('db audit_service, unit) io" where
  "audit_close sv = (Inr (), sv\<lparr>sv_closed := True\<rparr>)"

section \<open>Calls among peers\<close>

definition audit_state_ok :: "audit_module \<Rightarrow> keyspace audit_world \<Rightarrow> bool" where
  "audit_state_ok A w \<longleftrightarrow>
     audit_good (am_codec A) (am_numbers A) (am_sha A) (am_settings A) (store_of w) \<and> (\<forall>t. valid_hash (aw_heads w t))"

abbreviation audit_peer :: "audit_module \<Rightarrow> (keyspace audit_world \<Rightarrow> keyspace audit_world) \<Rightarrow> bool" where
  "audit_peer A \<equiv> peer (am_codec A) (am_numbers A) (am_cjson A) (am_sha A) (am_settings A)"

abbreviation audit_ok :: "audit_module \<Rightarrow> bool" where
  "audit_ok A \<equiv> audit_setting (am_numbers A) (am_cjson A) (am_codec A) (am_sha A)"

definition plan_ok :: "audit_module \<Rightarrow> audit_stream \<Rightarrow> keyspace audit_plan \<Rightarrow> bool" where
  "plan_ok A s plan \<longleftrightarrow>
     list_all (write_ok (am_numbers A) s) (plan_before plan @ plan_after plan) \<and>
     (\<forall>w \<in> set (plan_before plan @ plan_after plan). pw_number w \<noteq> plan_number plan) \<and>
     length (plan_before plan) + length (plan_after plan) < max_part \<and> is_double (am_numbers A) (plan_clock plan) \<and>
     (\<forall>t \<in> set (plan_turns plan). audit_peer A (turn_others t) \<and> audit_peer A (turn_meanwhile t))"

text \<open>A record of the trail of a stream.\<close>

definition recorded :: "audit_module \<Rightarrow> audit_stream \<Rightarrow> archive_files \<times> keyspace \<Rightarrow> chain_record \<Rightarrow> bool" where
  "recorded A s x entry \<longleftrightarrow> (\<exists>rows r link. trail (am_codec A) (am_numbers A) (am_sha A) x s rows \<and> r \<in> set rows \<and>
     chain_entry (am_numbers A) s (snd r) = Inr (with_link link entry))"

section \<open>Records and the messages they release\<close>

text \<open>The bodies of the entries of a stream, and the ones that a batch appends to it.\<close>

definition mails :: "string \<Rightarrow> keyspace \<Rightarrow> (string \<times> string) list list" where
  "mails k ks = map snd (entries_at k ks)"

definition deliveries :: "pending_write list \<Rightarrow> string \<Rightarrow> (string \<times> string) list list" where
  "deliveries ws k =
     concat (map (\<lambda>w. case pw_append w of Some a \<Rightarrow> if append_stream a = k then [append_fields a] else [] | None \<Rightarrow> []) ws)"

definition apart_from_audit :: "keyspace \<Rightarrow> keyspace \<Rightarrow> bool" where
  "apart_from_audit ks ks' \<longleftrightarrow> (\<forall>k. \<not> has_prefix ''audit:'' k \<longrightarrow> ks_data ks' k = ks_data ks k)"

definition delivered :: "pending_write list \<Rightarrow> keyspace \<Rightarrow> keyspace \<Rightarrow> bool" where
  "delivered ws ks ks' \<longleftrightarrow> (\<forall>k. \<not> has_prefix ''audit:'' k \<longrightarrow> mails k ks' = mails k ks @ deliveries ws k \<and>
     (deliveries ws k = [] \<longrightarrow> ks_data ks' k = ks_data ks k))"

lemma apart_refl [simp]: "apart_from_audit ks ks"
  by (simp add: apart_from_audit_def)

lemma apart_trans: "apart_from_audit x y \<Longrightarrow> apart_from_audit y z \<Longrightarrow> apart_from_audit x z"
  by (simp add: apart_from_audit_def)

lemma mails_cong: "ks_data ks' k = ks_data ks k \<Longrightarrow> mails k ks' = mails k ks"
  by (simp add: mails_def stream_at_def)

lemma delivered_Nil: "delivered [] ks ks' \<longleftrightarrow> apart_from_audit ks ks'"
  by (auto simp: delivered_def deliveries_def apart_from_audit_def intro: mails_cong)

lemma delivered_after: "apart_from_audit x y \<Longrightarrow> delivered ws y z \<Longrightarrow> delivered ws x z"
  unfolding delivered_def apart_from_audit_def by (metis mails_cong)

text \<open>
  The trails of a store afterwards: the records of before, and in the stream of the batch one
  more for each of the writes, in their order, and no others.
\<close>

definition gains_records :: "archive_codec \<Rightarrow> text_numbers \<Rightarrow> (string \<Rightarrow> string) \<Rightarrow> audit_stream \<Rightarrow> pending_write list \<Rightarrow>
    archive_files \<times> keyspace \<Rightarrow> archive_files \<times> keyspace \<Rightarrow> bool" where
  "gains_records C N sha s ws x y \<longleftrightarrow> (\<forall>u rows. trail C N sha x u rows \<longrightarrow>
     (\<exists>same new. (\<forall>rows'. trail C N sha y u rows' \<longleftrightarrow> rows' = same @ new) \<and> list_all2 same_record rows same \<and>
        list_all2 (\<lambda>w r. \<exists>link. chain_entry N s (snd r) = Inr (with_link link (pw_entry w))) (if u = s then ws else []) new))"

lemma gains_nothing:
  assumes "\<And>u rows. trail C N sha x u rows \<Longrightarrow> \<exists>rows'. trail C N sha y u rows' \<and> list_all2 same_record rows rows'"
  shows "gains_records C N sha s [] x y"
  unfolding gains_records_def
proof (intro allI impI)
  fix u rows
  assume "trail C N sha x u rows"
  then obtain rows' where "trail C N sha y u rows'" "list_all2 same_record rows rows'" using assms by blast
  then show "\<exists>same new. (\<forall>rows'. trail C N sha y u rows' \<longleftrightarrow> rows' = same @ new) \<and> list_all2 same_record rows same \<and>
        list_all2 (\<lambda>w r. \<exists>link. chain_entry N s (snd r) = Inr (with_link link (pw_entry w))) (if u = s then [] else []) new"
    using trail_unique by (intro exI [of _ rows'] exI [of _ "[]"]) auto
qed

lemma gains_refl: "gains_records C N sha s [] x x"
  by (rule gains_nothing) auto

lemma gains_after:
  assumes one: "gains_records C N sha s [] x y" and two: "gains_records C N sha s ws y z"
  shows "gains_records C N sha s ws x z"
  unfolding gains_records_def
proof (intro allI impI)
  fix u rows
  assume "trail C N sha x u rows"
  with one obtain mid none where "\<forall>rows'. trail C N sha y u rows' \<longleftrightarrow> rows' = mid @ none" "list_all2 same_record rows mid"
      "list_all2 (\<lambda>w r. \<exists>link. chain_entry N s (snd r) = Inr (with_link link (pw_entry w))) [] none"
    unfolding gains_records_def if_cancel by blast
  then have mid: "trail C N sha y u mid" "list_all2 same_record rows mid" by simp_all
  then obtain same new where "\<forall>rows'. trail C N sha z u rows' \<longleftrightarrow> rows' = same @ new" "list_all2 same_record mid same"
      "list_all2 (\<lambda>w r. \<exists>link. chain_entry N s (snd r) = Inr (with_link link (pw_entry w))) (if u = s then ws else []) new"
    using two unfolding gains_records_def by blast
  then show "\<exists>same new. (\<forall>rows'. trail C N sha z u rows' \<longleftrightarrow> rows' = same @ new) \<and> list_all2 same_record rows same \<and>
        list_all2 (\<lambda>w r. \<exists>link. chain_entry N s (snd r) = Inr (with_link link (pw_entry w))) (if u = s then ws else []) new"
    using same_records_trans [OF mid(2)] by blast
qed

lemma deliveries_nonempty: "deliveries ws k \<noteq> [] \<longleftrightarrow> k \<in> set (batch_effects ws)"
  by (force simp: deliveries_def set_batch_keys split: option.splits if_splits)

lemma effects_are_deliveries:
  assumes "distinct ks" and "k \<in> set ks" and "\<forall>w \<in> set ws. \<forall>a. pw_append w = Some a \<longrightarrow> append_stream a \<in> set ks"
    and "length fs = length ws"
  shows "effects_on (position_of ks k) (map2 (batch_record_of ks) ws fs) = deliveries ws k"
  using assms(4,3)
proof (induction fs ws rule: list_induct2)
  case (Cons f fs w ws)
  have "position_of ks a = position_of ks k \<longleftrightarrow> a = k" if "a \<in> set ks" for a
    using position_of_key(1) [OF assms(1)] that assms(2) by metis
  with Cons show ?case
    by (auto simp: effects_on_def deliveries_def batch_record_of_def pairs_of_flatten split: option.splits)
qed (simp add: effects_on_def deliveries_def)

context audit_setting
begin

lemma committed_delivers:
  assumes ws: "list_all (write_ok N s) ws" and links: "link_batch N sha h ws = (links, fs, final)"
    and wrote: "wrote (batch_keys s ws) (length (batch_indexes ws)) (map2 (batch_record_of (batch_indexes ws @ batch_effects ws)) ws fs) new ks mid"
  shows "delivered ws ks (snd (ks_set (head_key s) t mid))"
  unfolding delivered_def
proof (intro allI impI)
  fix k assume k: "\<not> has_prefix ''audit:'' k"
  let ?I = "batch_indexes ws" and ?E = "batch_effects ws" and ?keys = "batch_keys s ws"
  note w = wrote [unfolded wrote_def] and d = batch_keys_sets(3) [OF ws]
  have apart: "k \<noteq> stream_key s" "k \<noteq> head_key s" "k \<notin> set ?I"
    using k audit_key_prefix batch_keys_sets(1) [OF ws] index_key_apart(4) by blast+
  have same: "ks_data (snd (ks_set (head_key s) t mid)) k = ks_data mid k" using apart(2) by (simp add: ks_set_def)
  then have mail: "mails k (snd (ks_set (head_key s) t mid)) = mails k mid" by (rule mails_cong)
  show "mails k (snd (ks_set (head_key s) t mid)) = mails k ks @ deliveries ws k \<and>
      (deliveries ws k = [] \<longrightarrow> ks_data (snd (ks_set (head_key s) t mid)) k = ks_data ks k)"
  proof (cases "k \<in> set ?E")
    case False
    then have "k \<notin> set ?keys" using apart by (simp add: batch_keys_def)
    moreover have "lua_key ?keys i \<in> set ?keys" if "i \<in> {1 .. length ?keys}" for i using that by (auto simp: lua_key_def)
    ultimately have "k \<notin> lua_key ?keys ` ({1 .. length ?keys} - {2})" by blast
    then have "ks_data mid k = ks_data ks k" using w by blast
    moreover from this have "mails k mid = mails k ks" by (rule mails_cong)
    moreover have "deliveries ws k = []" using False deliveries_nonempty by blast
    ultimately show ?thesis using mail same by simp
  next
    case True
    then obtain j where j: "j < length ?E" "k = ?E ! j" by (metis in_set_conv_nth)
    have pos: "position_of (?I @ ?E) k = length ?I + j + 3" "lua_key ?keys (position_of (?I @ ?E) k) = k"
      using position_of_nth [OF d, of "length ?I + j"] position_of_key(1) [OF d, of k] True j by (simp_all add: nth_append batch_keys_def)
    then have "position_of (?I @ ?E) k \<in> {length ?I + 3 .. length ?keys}" using j by (simp add: batch_keys_def)
    then have "map snd (entries_at k mid) = map snd (entries_at k ks) @
        effects_on (position_of (?I @ ?E) k) (map2 (batch_record_of (?I @ ?E)) ws fs)"
      using w pos(2) by metis
    also have "effects_on (position_of (?I @ ?E) k) (map2 (batch_record_of (?I @ ?E)) ws fs) = deliveries ws k"
      by (rule effects_are_deliveries [OF d]) (use True committed_effect(5) [OF ws links wrote refl] in \<open>auto simp: set_batch_keys\<close>)
    finally have "mails k mid = mails k ks @ deliveries ws k" by (simp add: mails_def)
    moreover have "deliveries ws k \<noteq> []" using True deliveries_nonempty by blast
    ultimately show ?thesis using mail by simp
  qed
qed

lemma archive_apart:
  assumes "archive_prefix C N cjson sha ks_redis settings durability disk id s w = (out, w')"
  shows "apart_from_audit (aw_db w) (aw_db w')"
  using assms
proof (cases rule: archive_prefix_cases)
  case left
  then show ?thesis by simp
next
  case (reached old rows walked first_kept new seg w1 r db)
  have "move_ok s old rows walked first_kept new" using reached(4) by (simp add: archive_plan_def)
  from reached(5) this show ?thesis
    by (cases rule: run_move_cases) (use reached(1,6) in \<open>auto simp: apart_from_audit_def\<close>)
qed

lemma archive_gains:
  assumes run: "archive_prefix C N cjson sha ks_redis settings durability disk id s w = (out, w')" and good: "audit_good C N sha settings (store_of w)"
  shows "gains_records C N sha s [] (store_of w) (store_of w')"
proof (rule gains_nothing)
  fix u rows
  assume old: "trail C N sha (store_of w) u rows"
  from run show "\<exists>rows'. trail C N sha (store_of w') u rows' \<and> list_all2 same_record rows rows'"
  proof (cases rule: archive_prefix_cases)
    case left
    then have "trail C N sha (store_of w') u rows" using old trail_frame [OF _ left(2)] by (simp add: store_of_def)
    then show ?thesis by (intro exI [of _ rows]) simp
  next
    case (reached old' rows' walked first_kept new seg w1 r db)
    have ids: "ids_bounded (aw_db w)" using good by (simp add: audit_good_def audit_inv_def store_of_def)
    have "audit_good C N sha settings (aw_files w1, aw_db w1)"
      using frame_good [OF _ ids reached(2)] good reached(1) by (simp add: store_of_def)
    moreover have "trail C N sha (aw_files w1, aw_db w1) u rows"
      using old trail_frame [OF _ reached(2)] reached(1) by (simp add: store_of_def)
    ultimately show ?thesis using move_keeps_records [OF reached(5) [unfolded id_apply] reached(4) map_le_refl] reached(6) by (simp add: store_of_def)
  qed
qed

lemma committed_gains:
  assumes ws: "list_all (write_ok N s) ws" and heads: "\<forall>t. valid_hash (aw_heads w t)"
    and links: "link_batch N sha (aw_heads w s) ws = (links, fs, final)"
    and wrote: "wrote (batch_keys s ws) (length (batch_indexes ws)) (map2 (batch_record_of (batch_indexes ws @ batch_effects ws)) ws fs) new (aw_db w) mid"
    and w': "aw_db w' = snd (ks_set (head_key s) (or_empty final) mid)" "aw_files w' = aw_files w"
  shows "gains_records C N sha s ws (store_of w) (store_of w')"
  unfolding gains_records_def
proof (intro allI impI)
  fix u rows
  assume old: "trail C N sha (store_of w) u rows"
  let ?new = "if u = s then zip new fs else []"
  have "trail C N sha (store_of w') u (rows @ ?new)"
    using append_trail [OF ws links wrote w'(1), of "aw_files w" u rows] old w'(2) by (auto simp: store_of_def)
  then have only: "\<forall>rows'. trail C N sha (store_of w') u rows' \<longleftrightarrow> rows' = rows @ ?new" using trail_unique by blast
  note eff = committed_effect [OF ws links wrote w'(1)]
  have "list_all2 (\<lambda>x r. \<exists>link. chain_entry N s (snd r) = Inr (with_link link (pw_entry x))) ws (zip new fs)"
  proof (rule list_all2_all_nthI)
    show "length ws = length (zip new fs)" using eff(4,5) by simp
    fix i assume i: "i < length ws"
    have ok: "write_ok N s (ws ! i)" using ws i by (simp add: list_all_length)
    have "chain_entry N s (fs ! i) = Inr (with_link (links ! i) (pw_entry (ws ! i)))"
      using link_batch_nth [OF ws heads [THEN spec] links i] write_okD [OF ok] by (auto intro!: chain_entry_roundtrip writable_link)
    then show "\<exists>link. chain_entry N s (snd (zip new fs ! i)) = Inr (with_link link (pw_entry (ws ! i)))" using i eff(4,5) by auto
  qed
  then show "\<exists>same more. (\<forall>rows'. trail C N sha (store_of w') u rows' \<longleftrightarrow> rows' = same @ more) \<and> list_all2 same_record rows same \<and>
        list_all2 (\<lambda>x r. \<exists>link. chain_entry N s (snd r) = Inr (with_link link (pw_entry x))) (if u = s then ws else []) more"
    using only by (intro exI [of _ rows] exI [of _ ?new]) simp
qed

text \<open>Without interference, a loop leaves the rest of the keys alone, or commits the writes that are active at the end.\<close>

lemma quiet_loop:
  assumes "\<forall>t \<in> set ts. turn_others t = id \<and> turn_meanwhile t = id"
  shows "commit_loop C N cjson sha ks_redis settings durability s ts active refused w = Some ((result, kept, refused'), w') \<Longrightarrow>
    loop_ok s active settings w \<Longrightarrow> (\<exists>n. kept = take n active) \<and>
    (apart_from_audit (aw_db w) (aw_db w') \<and> (\<forall>rs. result \<noteq> Inr rs) \<and> gains_records C N sha s [] (store_of w) (store_of w') \<or>
     delivered kept (aw_db w) (aw_db w') \<and> gains_records C N sha s kept (store_of w) (store_of w') \<and> (\<forall>x \<in> set kept. \<exists>receipt. stored C N sha s (store_of w') x receipt))"
  using assms
proof (induction ts arbitrary: active refused w)
  case (Cons t ts)
  have quiet: "turn_others t = id" "turn_meanwhile t = id" using Cons.prems(3) by auto
  note IH = Cons.IH [OF _ _ Cons.prems(3) [unfolded list.set ball_simps, THEN conjunct2]]
  obtain out w1 where att: "append_attempt N cjson sha ks_redis settings s active w = (out, w1)" by fastforce
  note o = Cons.prems(2)[unfolded loop_ok_def] and ok1 = attempt_loop_ok(2) [OF att Cons.prems(2)]
  have start: "valid_hash (string_at (head_key s) (aw_db w))" "ids_bounded (aw_db w)" "list_all (write_ok N s) active"
      "length active \<le> max_part" "valid_hash (aw_heads w s)"
    using o audit_chain_head by (auto simp: audit_good_def audit_inv_def store_of_def)
  have all: "\<exists>n. active = take n active" by (metis take_all_iff order_refl)
  note body = Cons.prems(1)[unfolded commit_loop.simps quiet id_apply att prod.case]
  from att start(3,4,2,5,1) show ?case
  proof (cases rule: attempt_cases)
    case (committed new mid links fs final)
    then have c: "append_attempt N cjson sha ks_redis settings s active w = (Inr (Committed (map sid_text new) links), w1)" using att by simp
    note eff = committed_delivers [OF start(3) committed(1,3), of "or_empty final"]
    have gains: "gains_records C N sha s active (store_of w) (store_of w1)"
      using committed_gains [OF start(3) _ committed(1,3,4,5)] o by blast
    have "\<forall>x \<in> set active. \<exists>receipt. stored C N sha s (store_of w1) x receipt"
      using committed_stored [OF c start(3,4)] o by (metis in_set_conv_nth)
    moreover have "on_db (confirm ks_redis durability) w1 = (if acknowledged durability (aw_db w1) then Inr () else Inl unconfirmed, w1)"
      by (simp add: on_db_def confirm_ks)
    ultimately show ?thesis using body committed(4,6) eff gains all by (auto split: if_splits)
  next
    case unchanged
    have more: "(\<exists>n. kept = take n active) \<and> (apart_from_audit (aw_db w) (aw_db w') \<and> (\<forall>rs. result \<noteq> Inr rs) \<and> gains_records C N sha s [] (store_of w) (store_of w') \<or>
        delivered kept (aw_db w) (aw_db w') \<and> gains_records C N sha s kept (store_of w) (store_of w') \<and> (\<forall>x \<in> set kept. \<exists>receipt. stored C N sha s (store_of w') x receipt))"
      if rec: "commit_loop C N cjson sha ks_redis settings durability s ts (take m active) r v = Some ((result, kept, refused'), w')"
        and v: "loop_ok s active settings v" "apart_from_audit (aw_db w) (aw_db v)" "gains_records C N sha s [] (store_of w) (store_of v)" for m r v
    proof -
      have "loop_ok s (take m active) settings v" using v(1) by (auto simp: loop_ok_def list_all_iff dest: in_set_takeD)
      from IH [OF rec this] obtain n where "kept = take n (take m active)"
        "apart_from_audit (aw_db v) (aw_db w') \<and> (\<forall>rs. result \<noteq> Inr rs) \<and> gains_records C N sha s [] (store_of v) (store_of w') \<or>
         delivered kept (aw_db v) (aw_db w') \<and> gains_records C N sha s kept (store_of v) (store_of w') \<and> (\<forall>x \<in> set kept. \<exists>receipt. stored C N sha s (store_of w') x receipt)" by blast
      then show ?thesis using apart_trans [OF v(2)] delivered_after [OF v(2)] gains_after [OF v(3)] by (metis take_take)
    qed
    have here: "apart_from_audit (aw_db w) (aw_db w1)" "gains_records C N sha s [] (store_of w) (store_of w1)"
      using unchanged gains_refl by (simp_all add: store_of_def)
    show ?thesis
    proof (cases out)
      case (Inl e)
      then show ?thesis using body all here by auto
    next
      case (Inr r)
      show ?thesis
      proof (cases r)
        case Retry
        then show ?thesis using body Inr more [of "length active"] ok1 here by simp
      next
        case (Committed ids links)
        then show ?thesis using unchanged(3) Inr by blast
      next
        case full: (AtCapacity shown)
        show ?thesis
        proof (cases "archive_directory settings")
          case None
          then show ?thesis using body Inr full all here more [OF _ ok1 here(1,2)]
            by (auto split: option.splits if_splits)
        next
          case (Some d)
          obtain o' w2 where arch: "archive_prefix C N cjson sha ks_redis settings durability (turn_disk t) id s w1 = (o', w2)" by fastforce
          have "audit_good C N sha settings (store_of w1)" using ok1 by (simp add: loop_ok_def)
          note two = apart_trans [OF here(1) archive_apart [OF arch]] gains_after [OF here(2) archive_gains [OF arch this]]
          have "loop_ok s active settings w2" using archive_loop_ok(2) [OF arch peer_id ok1] .
          moreover have "archive_prefix C N cjson sha ks_redis settings durability (turn_disk t) (\<lambda>x. x) s w1 = (o', w2)" using arch by (simp add: id_def)
          ultimately show ?thesis using body Inr full Some all two more [of "length active", OF _ _ two(1,2)] by (auto split: sum.splits)
        qed
      qed
    qed
  qed
qed simp

lemma quiet_batch:
  assumes quiet: "\<forall>t \<in> set ts. turn_others t = id \<and> turn_meanwhile t = id" and ok: "loop_ok s writes settings w"
    and run: "complete_batch C N cjson sha ks_redis settings durability s ts writes w = Some (results, w')"
  shows "\<exists>n. delivered (take n writes) (aw_db w) (aw_db w') \<and> gains_records C N sha s (take n writes) (store_of w) (store_of w') \<and>
    (\<forall>x \<in> set (take n writes). \<exists>receipt. stored C N sha s (store_of w') x receipt) \<and>
    (\<forall>x receipt. (x, Inr receipt) \<in> set results \<longrightarrow> x \<in> set (take n writes))"
proof -
  obtain result kept refused where loop: "commit_loop C N cjson sha ks_redis settings durability s ts writes [] w = Some ((result, kept, refused), w')"
    and results: "results = (case result of Inr receipts \<Rightarrow> map (\<lambda>(write, receipt). (write, Inr receipt)) receipts
         | Inl e \<Rightarrow> map (\<lambda>write. (write, Inl e)) kept) @ map (\<lambda>write. (write, Inl (capacity_exceeded s))) refused"
    using run by (auto simp: complete_batch_def commit_batch_def)
  have peers: "\<forall>t \<in> set ts. peer C N cjson sha settings (turn_others t) \<and> peer C N cjson sha settings (turn_meanwhile t)"
    using quiet peer_id by metis
  have kept: "\<forall>receipts. result = Inr receipts \<longrightarrow> map fst receipts = kept"
    using commit_loop_result [OF peers loop ok] by (simp add: loop_result_def)
  have answered: "x \<in> set kept \<and> (\<exists>rs. result = Inr rs)" if "(x, Inr receipt) \<in> set results" for x receipt
    using that kept by (cases result) (force simp: results)+
  note q = quiet_loop [OF quiet loop ok]
  show ?thesis
  proof (cases "apart_from_audit (aw_db w) (aw_db w') \<and> (\<forall>rs. result \<noteq> Inr rs) \<and> gains_records C N sha s [] (store_of w) (store_of w')")
    case True
    then show ?thesis using answered by (intro exI [of _ 0]) (auto simp: delivered_Nil)
  next
    case False
    then show ?thesis using q answered by metis
  qed
qed

end

section \<open>Properties\<close>

text \<open>
  C20. A message and its audit record are written together or not at all. Whatever attempts,
  refusals, archive runs and failures a batch goes through, in the end the first \<open>n\<close> of its
  writes are committed: the trail of the stream, live and archived, has kept its records and
  gained exactly one for each of these writes, in order, with no record of any other write,
  and the trail of the other stream has gained nothing; the streams outside the audit keys
  have gained exactly the messages attached to these writes, in order, and nothing else
  changed outside the audit keys; every write that got a receipt is among the \<open>n\<close>. The batch
  runs without interference of others.
\<close>

theorem enqueued_with_record:
  assumes "audit_setting N cjson C sha" and "audit_good C N sha settings (store_of w)" and "\<forall>t. valid_hash (aw_heads w t)"
    and "list_all (write_ok N s) writes" and "length writes \<le> max_part"
    and "\<forall>t \<in> set ts. turn_others t = id \<and> turn_meanwhile t = id"
    and "complete_batch C N cjson sha ks_redis settings durability s ts writes w = Some (results, w')"
  shows "\<exists>n. delivered (take n writes) (aw_db w) (aw_db w') \<and> gains_records C N sha s (take n writes) (store_of w) (store_of w') \<and>
    (\<forall>x \<in> set (take n writes). \<exists>receipt. stored C N sha s (store_of w') x receipt) \<and>
    (\<forall>x receipt. (x, Inr receipt) \<in> set results \<longrightarrow> x \<in> set (take n writes))"
proof -
  have ok: "audit_setting.loop_ok N C sha s writes settings w" using assms(2-5) by (simp add: audit_setting.loop_ok_def [OF assms(1)])
  show ?thesis by (rule audit_setting.quiet_batch [OF assms(1,6) ok assms(7)])
qed

definition example_release :: pending_write where
  "example_release = example_write\<lparr>pw_append := Some \<lparr>append_stream = ''agent.stream:b'', append_fields = [(''envelope'', ''m1'')]\<rparr>\<rparr>"

lemma example_release_ok: "point_audit.loop_ok Messages [example_release] example_retention example_world"
  using example_loop_ok by (simp add: point_audit.loop_ok_def example_release_def write_ok_def example_write_def
      stream_append_post_init_def has_prefix_def)

theorem enqueued_with_record_witness:
  "\<exists>results w' n. complete_batch (json_codec point_numbers) point_numbers (json_loads point_numbers) letters_sha ks_redis example_retention
      default_durability Messages [example_turn, example_turn] [example_release] example_world = Some (results, w') \<and>
    mails ''agent.stream:b'' (aw_db w') = deliveries (take n [example_release]) ''agent.stream:b''"
proof -
  have "\<exists>results w'. complete_batch (json_codec point_numbers) point_numbers (json_loads point_numbers) letters_sha ks_redis example_retention
      default_durability Messages [example_turn, example_turn] [example_release] example_world = Some (results, w')"
    by (rule point_audit.two_turns_answer [OF example_release_ok])
       (simp_all add: example_turn_def example_world_def stream_at_def empty_stream_def stream_capacity_def example_retention_def)
  then obtain results w' where run: "complete_batch (json_codec point_numbers) point_numbers (json_loads point_numbers) letters_sha ks_redis example_retention
      default_durability Messages [example_turn, example_turn] [example_release] example_world = Some (results, w')" by blast
  have "\<exists>n. delivered (take n [example_release]) (aw_db example_world) (aw_db w')"
    using enqueued_with_record [OF point_audit.audit_setting_axioms _ _ _ _ _ run] example_release_ok
    by (auto simp: point_audit.loop_ok_def example_turn_def)
  moreover have "mails k (aw_db example_world) = []" for k by (simp add: mails_def example_world_def stream_at_def empty_stream_def)
  ultimately show ?thesis using run by (fastforce simp: delivered_def has_prefix_def)
qed

end
