(* ===== verification/Rate_Limit.thy ===== *)
theory Rate_Limit
  imports Durability Text_Numbers
begin

text \<open>
  \<open>packages/mas-gateway/src/mas_gateway/rate_limit.py\<close>: admission under two sliding windows.
  The clock \<open>time.time()\<close> and the drawn identifiers are arguments; seconds are reals.
\<close>

section \<open>Model\<close>

definition rl_minute_key :: "string \<Rightarrow> string" where
  "rl_minute_key agent_id = ''ratelimit:'' @ agent_id @ '':minute''"

definition rl_hour_key :: "string \<Rightarrow> string" where
  "rl_hour_key agent_id = ''ratelimit:'' @ agent_id @ '':hour''"

definition rl_limits_key :: "string \<Rightarrow> string" where
  "rl_limits_key agent_id = ''ratelimit:'' @ agent_id @ '':limits''"

text \<open>The \<open>ipairs(KEYS)\<close> loop: the first key of an unexpected type fails.\<close>

primrec check_types :: "'db redis \<Rightarrow> (string \<times> rtype) list \<Rightarrow> ('db, unit) io" where
  "check_types R [] = ret ()"
| "check_types R (ke # kes) =
     bindio (TYPE_OF R (fst ke)) (\<lambda>kind.
     if kind \<noteq> TNone \<and> kind \<noteq> snd ke then raise (RedisError ''invalid_rate_limit_storage_type'')
     else check_types R kes)"

definition reset_time :: "text_numbers \<Rightarrow> 'db redis \<Rightarrow> real \<Rightarrow> string \<Rightarrow> real \<Rightarrow> ('db, string) io" where
  "reset_time N R now key window =
     bindio (ZFIRST R key) (\<lambda>oldest.
     case oldest of
       Some (score, member) \<Rightarrow> ret (tostring N (score + window))
     | None \<Rightarrow> ret (tostring N (now + window)))"

definition bad_limit :: "real option \<Rightarrow> bool" where
  "bad_limit limit = (case limit of None \<Rightarrow> True | Some x \<Rightarrow> x < 0 \<or> x \<noteq> of_int \<lfloor>x\<rfloor>)"

definition window_reply :: "int \<Rightarrow> real \<Rightarrow> real \<Rightarrow> string \<Rightarrow> string \<Rightarrow> reply" where
  "window_reply allowed limit remaining reset window =
     ArrayReply [IntReply allowed, IntReply \<lfloor>limit\<rfloor>, IntReply \<lfloor>remaining\<rfloor>, BulkReply reset, BulkReply window]"

definition rate_limit_script ::
  "text_numbers \<Rightarrow> 'db redis \<Rightarrow> string \<Rightarrow> string \<Rightarrow> string \<Rightarrow> string \<Rightarrow> real \<Rightarrow> string \<Rightarrow> string \<Rightarrow>
   ('db, reply) io" where
  "rate_limit_script N R minute_key hour_key limits_key request_id now default_minute default_hour =
     seqio (check_types R [(minute_key, TZset), (hour_key, TZset), (limits_key, THash)])
     (bindio (HGET R limits_key ''per_minute'') (\<lambda>minute_value.
      bindio (HGET R limits_key ''per_hour'') (\<lambda>hour_value.
      let minute_limit = tonumber N (case minute_value of None \<Rightarrow> default_minute | Some v \<Rightarrow> v);
          hour_limit = tonumber N (case hour_value of None \<Rightarrow> default_hour | Some v \<Rightarrow> v) in
      if bad_limit minute_limit \<or> bad_limit hour_limit
      then raise (RedisError ''Rate limits must be nonnegative integers'')
      else let per_minute = the minute_limit; per_hour = the hour_limit in
      seqio (ZREMRANGEBYSCORE R minute_key (now - 60))
      (seqio (ZREMRANGEBYSCORE R hour_key (now - 3600))
      (bindio (ZCARD R minute_key) (\<lambda>minute_count.
       bindio (ZCARD R hour_key) (\<lambda>hour_count.
       if real minute_count \<ge> per_minute
       then bindio (reset_time N R now minute_key 60)
              (\<lambda>t. ret (window_reply 0 per_minute 0 t ''minute''))
       else if real hour_count \<ge> per_hour
       then bindio (reset_time N R now hour_key 3600)
              (\<lambda>t. ret (window_reply 0 per_hour 0 t ''hour''))
       else
         seqio (ZADD R minute_key now request_id)
         (seqio (EXPIRE R minute_key 60)
         (seqio (ZADD R hour_key now request_id)
         (seqio (EXPIRE R hour_key 3600)
          (let minute_remaining = per_minute - real minute_count - 1;
               hour_remaining = per_hour - real hour_count - 1 in
           if hour_remaining < minute_remaining
           then bindio (reset_time N R now hour_key 3600)
                  (\<lambda>t. ret (window_reply 1 per_hour hour_remaining t ''hour''))
           else bindio (reset_time N R now minute_key 60)
                  (\<lambda>t. ret (window_reply 1 per_minute minute_remaining t ''minute'')))))))))))))"

record rate_limits =
  per_minute :: int
  per_hour :: int

record rate_limit_result =
  rl_allowed :: bool
  rl_limit :: int
  rl_remaining :: int
  rl_reset_time :: real
  rl_window :: string

text \<open>\<open>_LIMITS_ADAPTER\<close>: both limits are nonnegative.\<close>

definition validate_limits :: "rate_limits \<Rightarrow> err + rate_limits" where
  "validate_limits l = (if 0 \<le> per_minute l \<and> 0 \<le> per_hour l then Inr l else Inl ValidationError)"

text \<open>The module keeps the validated default limits.\<close>

definition rate_limit_module :: "int \<Rightarrow> int \<Rightarrow> err + rate_limits" where
  "rate_limit_module default_minute default_hour =
     validate_limits \<lparr>per_minute = default_minute, per_hour = default_hour\<rparr>"

text \<open>\<open>_SCRIPT_RESULT_ADAPTER\<close> and the field constraints of \<open>RateLimitResult\<close>.\<close>

fun parse_result :: "text_numbers \<Rightarrow> reply \<Rightarrow> err + rate_limit_result" where
  "parse_result N (ArrayReply [IntReply allowed, IntReply limit, IntReply remaining, BulkReply reset, BulkReply window]) =
     (case py_float N reset of
        None \<Rightarrow> Inl ValidationError
      | Some t \<Rightarrow>
          if (allowed = 0 \<or> allowed = 1) \<and> (window = ''minute'' \<or> window = ''hour'') \<and> 0 \<le> limit \<and> 0 \<le> remaining
          then Inr \<lparr>rl_allowed = (allowed = 1), rl_limit = limit, rl_remaining = remaining,
                    rl_reset_time = t, rl_window = window\<rparr>
          else Inl ValidationError)"
| "parse_result N _ = Inl ValidationError"

text \<open>\<open>uid\<close> is the drawn \<open>uuid4()\<close>.\<close>

definition queued_check ::
  "text_numbers \<Rightarrow> 'db redis \<Rightarrow> rate_limits \<Rightarrow> real \<Rightarrow> string \<Rightarrow> string \<Rightarrow> string \<Rightarrow> ('db, reply) io" where
  "queued_check N R defaults now uid agent_id message_id =
     rate_limit_script N R (rl_minute_key agent_id) (rl_hour_key agent_id) (rl_limits_key agent_id)
       (message_id @ '':'' @ uid) now (show_int (per_minute defaults)) (show_int (per_hour defaults))"

definition queue_check ::
  "text_numbers \<Rightarrow> 'db redis \<Rightarrow> rate_limits \<Rightarrow> real \<Rightarrow> string \<Rightarrow> string \<Rightarrow> string \<Rightarrow> 'db pipe \<Rightarrow> err + 'db pipe" where
  "queue_check N R defaults now uid agent_id message_id pipeline =
     (if watching pipeline then Inl (ValueError ''admission checks require an unwatched pipeline'')
      else Inr (pipeline\<lparr>command_stack :=
        command_stack pipeline @ [queued_check N R defaults now uid agent_id message_id]\<rparr>))"

definition plain_pipe :: "'db pipe" where
  "plain_pipe = \<lparr>is_transaction = False, explicit_transaction = False, watching = False, command_stack = []\<rparr>"

definition check_rate_limit ::
  "text_numbers \<Rightarrow> 'db redis \<Rightarrow> rate_limits \<Rightarrow> real \<Rightarrow> string \<Rightarrow> string \<Rightarrow> string \<Rightarrow> ('db, rate_limit_result) io" where
  "check_rate_limit N R defaults now uid agent_id message_id =
     bindio (of_result (queue_check N R defaults now uid agent_id message_id plain_pipe)) (\<lambda>pipeline.
     bindio (pipeline_execute R (command_stack pipeline)) (\<lambda>replies.
     case replies of
       [raw] \<Rightarrow> of_result (parse_result N raw)
     | _ \<Rightarrow> raise ValidationError))"

definition set_limits ::
  "'db redis \<Rightarrow> rate_limits \<Rightarrow> string \<Rightarrow> int option \<Rightarrow> int option \<Rightarrow> ('db, unit) io" where
  "set_limits R defaults agent_id minute hour =
     bindio (of_result (validate_limits
       \<lparr>per_minute = (case minute of None \<Rightarrow> per_minute defaults | Some m \<Rightarrow> m),
        per_hour = (case hour of None \<Rightarrow> per_hour defaults | Some h \<Rightarrow> h)\<rparr>)) (\<lambda>limits.
     let flds = (case minute of None \<Rightarrow> [] | Some _ \<Rightarrow> [(''per_minute'', show_int (per_minute limits))]) @
                (case hour of None \<Rightarrow> [] | Some _ \<Rightarrow> [(''per_hour'', show_int (per_hour limits))]) in
     if flds \<noteq> [] then HSET R (rl_limits_key agent_id) flds else ret ())"

definition limit_field :: "text_numbers \<Rightarrow> (string \<rightharpoonup> string) \<Rightarrow> string \<Rightarrow> int \<Rightarrow> err + int" where
  "limit_field N raw name fallback =
     (case raw name of
        None \<Rightarrow> Inr fallback
      | Some t \<Rightarrow> (case py_int N t of None \<Rightarrow> Inl ValidationError | Some i \<Rightarrow> Inr i))"

definition get_limits :: "text_numbers \<Rightarrow> 'db redis \<Rightarrow> rate_limits \<Rightarrow> string \<Rightarrow> ('db, rate_limits) io" where
  "get_limits N R defaults agent_id =
     bindio (HGETALL R (rl_limits_key agent_id)) (\<lambda>raw.
     bindio (of_result (limit_field N raw ''per_minute'' (per_minute defaults))) (\<lambda>m.
     bindio (of_result (limit_field N raw ''per_hour'' (per_hour defaults))) (\<lambda>h.
     of_result (validate_limits \<lparr>per_minute = m, per_hour = h\<rparr>))))"

definition reset_limits :: "'db redis \<Rightarrow> string \<Rightarrow> ('db, unit) io" where
  "reset_limits R agent_id = DEL R [rl_minute_key agent_id, rl_hour_key agent_id]"

definition queued_count :: "'db redis \<Rightarrow> string \<Rightarrow> real \<Rightarrow> ('db, reply) io" where
  "queued_count R key lo = bindio (ZCOUNT_ABOVE R key lo) (\<lambda>n. ret (IntReply (int n)))"

definition get_current_usage :: "'db redis \<Rightarrow> real \<Rightarrow> string \<Rightarrow> ('db, rate_limits) io" where
  "get_current_usage R now agent_id =
     bindio (pipeline_execute R [queued_count R (rl_minute_key agent_id) (now - 60),
                                 queued_count R (rl_hour_key agent_id) (now - 3600)]) (\<lambda>raw.
     case raw of
       [IntReply m, IntReply h] \<Rightarrow> ret \<lparr>per_minute = m, per_hour = h\<rparr>
     | _ \<Rightarrow> raise ValidationError)"

section \<open>Histories\<close>

text \<open>
  Requests and the passage of time. Each broker reads its own clock (\<open>time.time()\<close>), which is
  off the clock of the server by some skew when it checks. The log collects the admissions
  of one agent: the time of the server, the time of the broker, and the request identifier.
\<close>

datatype rl_op = Check real string string string | Pass nat

type_synonym admission = "real \<times> real \<times> string"

definition clock :: "keyspace \<Rightarrow> real" where
  "clock ks = real (ks_now ks) / 1000000"

definition admitted :: "err + rate_limit_result \<Rightarrow> bool" where
  "admitted r = (case r of Inl e \<Rightarrow> False | Inr x \<Rightarrow> rl_allowed x)"

fun run_rl_op :: "text_numbers \<Rightarrow> 'db redis \<Rightarrow> rate_limits \<Rightarrow> ('db \<Rightarrow> keyspace) \<Rightarrow> (nat \<Rightarrow> 'db \<Rightarrow> 'db) \<Rightarrow> string \<Rightarrow>
    rl_op \<Rightarrow> admission list \<times> 'db \<Rightarrow> admission list \<times> 'db" where
  "run_rl_op N R defaults view elapse a (Check skew uid agent_id message_id) (hist, db) =
     (let now = clock (view db) + skew;
          out = check_rate_limit N R defaults now uid agent_id message_id db in
      (if agent_id = a \<and> admitted (fst out) then (clock (view db), now, message_id @ '':'' @ uid) # hist else hist, snd out))"
| "run_rl_op N R defaults view elapse a (Pass d) (hist, db) = (hist, elapse d db)"

definition run_rl :: "text_numbers \<Rightarrow> 'db redis \<Rightarrow> rate_limits \<Rightarrow> ('db \<Rightarrow> keyspace) \<Rightarrow> (nat \<Rightarrow> 'db \<Rightarrow> 'db) \<Rightarrow> string \<Rightarrow>
    rl_op list \<Rightarrow> 'db \<Rightarrow> admission list \<times> 'db" where
  "run_rl N R defaults view elapse a ops db = fold (run_rl_op N R defaults view elapse a) ops ([], db)"

text \<open>The clocks of the brokers that check agree with that of the server up to \<open>e\<close> seconds.\<close>

fun skew_within :: "real \<Rightarrow> rl_op \<Rightarrow> bool" where
  "skew_within e (Check skew uid agent_id message_id) \<longleftrightarrow> \<bar>skew\<bar> \<le> e"
| "skew_within e (Pass d) \<longleftrightarrow> True"

text \<open>The request identifiers of an agent in a history.\<close>

fun request_ids :: "string \<Rightarrow> rl_op list \<Rightarrow> string list" where
  "request_ids a [] = []"
| "request_ids a (Check skew uid agent_id message_id # ops) =
     (if agent_id = a then [message_id @ '':'' @ uid] else []) @ request_ids a ops"
| "request_ids a (Pass d # ops) = request_ids a ops"

section \<open>On any server\<close>

context redis_server
begin

lemma check_types_impl [implements_intros]:
  "implements view (check_types R kes) (check_types ks_redis kes)"
proof (induction kes)
  case (Cons ke kes)
  then show ?case unfolding check_types.simps ks_redis_sel by (intro implements_intros)
qed (simp only: check_types.simps implements_ret)

lemma reset_time_impl [implements_intros]:
  "implements view (reset_time N R now k w) (reset_time N ks_redis now k w)"
  by (auto simp: reset_time_def intro!: implements_intros)

lemma rate_limit_script_impl [implements_intros]:
  "implements view (rate_limit_script N R mk hk lk i now dm dh) (rate_limit_script N ks_redis mk hk lk i now dm dh)"
  by (auto simp: rate_limit_script_def Let_def intro!: implements_intros)

lemma pipeline_execute1 [implements_intros]:
  "implements view c C \<Longrightarrow> implements view (pipeline_execute R [c]) (pipeline_execute ks_redis [C])"
  unfolding pipeline_execute_def by (intro implements_intros)

lemma pipeline_execute2 [implements_intros]:
  "implements view c C \<Longrightarrow> implements view d D \<Longrightarrow>
   implements view (pipeline_execute R [c, d]) (pipeline_execute ks_redis [C, D])"
  unfolding pipeline_execute_def by (intro implements_intros)

lemma queued_check_impl [implements_intros]:
  "implements view (queued_check N R df now u a i) (queued_check N ks_redis df now u a i)"
  by (auto simp: queued_check_def intro!: implements_intros)

lemma check_rate_limit_impl [implements_intros]:
  "implements view (check_rate_limit N R df now u a i) (check_rate_limit N ks_redis df now u a i)"
  by (auto simp: check_rate_limit_def queue_check_def plain_pipe_def of_result_def
      intro!: implements_intros split: list.splits)

lemma set_limits_impl [implements_intros]:
  "implements view (set_limits R df a m h) (set_limits ks_redis df a m h)"
  by (auto simp: set_limits_def Let_def intro!: implements_intros)

lemma get_limits_impl [implements_intros]:
  "implements view (get_limits N R df a) (get_limits N ks_redis df a)"
  by (auto simp: get_limits_def intro!: implements_intros)

lemma reset_limits_impl [implements_intros]:
  "implements view (reset_limits R a) (reset_limits ks_redis a)"
  by (auto simp: reset_limits_def intro!: implements_intros)

end

section \<open>One admission\<close>

definition zset_of :: "string \<Rightarrow> keyspace \<Rightarrow> zset" where
  "zset_of k ks = (case ks_data ks k of Some (RZset z) \<Rightarrow> z | _ \<Rightarrow> [])"

definition zset_typed :: "string \<Rightarrow> keyspace \<Rightarrow> bool" where
  "zset_typed k ks \<longleftrightarrow> type_of_value (ks_data ks k) \<in> {TNone, TZset}"

text \<open>The entries of a window at a time, and the two effects of the script on it.\<close>

definition live :: "string \<Rightarrow> real \<Rightarrow> real \<Rightarrow> keyspace \<Rightarrow> zset" where
  "live k w now ks = filter (\<lambda>x. now - w < fst x) (zset_of k ks)"

definition prune :: "string \<Rightarrow> real \<Rightarrow> real \<Rightarrow> keyspace \<Rightarrow> keyspace" where
  "prune k w now ks = snd (ks_zremrangebyscore k (now - w) ks)"

definition record_hit :: "string \<Rightarrow> int \<Rightarrow> string \<Rightarrow> real \<Rightarrow> keyspace \<Rightarrow> keyspace" where
  "record_hit k w rid now ks = snd (EXPIRE ks_redis k w (snd (ks_zadd k now rid ks)))"

lemma zset_typed_cases:
  assumes "zset_typed k ks"
  obtains (empty) "ks_data ks k = None" "zset_of k ks = []"
    | (zset) z where "ks_data ks k = Some (RZset z)" "zset_of k ks = z"
  using assms by (cases "ks_data ks k" rule: type_of_value.cases) (auto simp: zset_typed_def zset_of_def)

lemma zset_ops_ks:
  assumes "zset_typed k ks"
  shows "ks_zcard k ks = (Inr (length (zset_of k ks)), ks)"
    and "fst (ks_zremrangebyscore k hi ks) = Inr ()"
    and "fst (ks_zadd k s m ks) = Inr ()"
    and "ks_zcount_above k lo ks = (Inr (length (filter (\<lambda>x. lo < fst x) (zset_of k ks))), ks)"
    and "\<exists>x. ks_zfirst k ks = (Inr x, ks)"
  using assms
  by (cases rule: zset_typed_cases; simp add: ks_zcard_def ks_zremrangebyscore_def ks_zadd_def
      ks_zcount_above_def ks_zfirst_def)+

lemma zset_of_prune [simp]:
  assumes "zset_typed k ks"
  shows "zset_of k (prune k w now ks) = live k w now ks" "zset_typed k (prune k w now ks)"
  using assms
  by (cases rule: zset_typed_cases; simp add: prune_def live_def ks_zremrangebyscore_def zset_of_def
      zset_typed_def ks_put_zset_def)+

lemma prune_frame [simp]:
  "j \<noteq> k \<Longrightarrow> ks_data (prune k w now ks) j = ks_data ks j"
  "j \<noteq> k \<Longrightarrow> ks_ttl (prune k w now ks) j = ks_ttl ks j"
  "ks_now (prune k w now ks) = ks_now ks"
  by (auto simp: prune_def ks_zremrangebyscore_def split: option.splits rvalue.splits)

lemma prune_ttl:
  "zset_typed k ks \<Longrightarrow> live k w now ks \<noteq> [] \<Longrightarrow> ks_ttl (prune k w now ks) k = ks_ttl ks k"
  by (erule zset_typed_cases)
     (auto simp: prune_def live_def ks_zremrangebyscore_def ks_put_zset_def)

lemma zset_of_record_hit [simp]:
  assumes "zset_typed k ks" and "0 < w"
  shows "zset_of k (record_hit k w rid now ks) = zset_add now rid (zset_of k ks)"
    and "zset_typed k (record_hit k w rid now ks)"
    and "ks_ttl (record_hit k w rid now ks) k = Some (now_ms ks + nat (1000 * w))"
  using assms
  by (cases rule: zset_typed_cases; simp add: record_hit_def EXPIRE_def ks_pexpire_def ks_zadd_def
      zset_of_def zset_typed_def)+

lemma record_hit_frame [simp]:
  "j \<noteq> k \<Longrightarrow> ks_data (record_hit k w rid now ks) j = ks_data ks j"
  "j \<noteq> k \<Longrightarrow> ks_ttl (record_hit k w rid now ks) j = ks_ttl ks j"
  "ks_now (record_hit k w rid now ks) = ks_now ks"
  by (auto simp: record_hit_def EXPIRE_def ks_pexpire_def ks_zadd_def split: option.splits rvalue.splits)

lemma window_frame [simp]:
  assumes "j \<noteq> k"
  shows "zset_of j (prune k w now ks) = zset_of j ks" "zset_of j (record_hit k v rid now ks) = zset_of j ks"
    "zset_typed j (prune k w now ks) = zset_typed j ks" "zset_typed j (record_hit k v rid now ks) = zset_typed j ks"
    "live j u t (prune k w now ks) = live j u t ks"
  using assms by (simp_all add: zset_of_def zset_typed_def live_def)

lemma expire_ks [simp]: "fst (EXPIRE ks_redis k w ks) = Inr ()"
  by (simp add: EXPIRE_def ks_pexpire_def)

lemma reset_time_ks:
  assumes "zset_typed k ks"
  shows "\<exists>t. reset_time N ks_redis now k w ks = (Inr (tostring N t), ks)"
proof -
  obtain x where "ks_zfirst k ks = (Inr x, ks)" using zset_ops_ks(5) [OF assms] by blast
  then show ?thesis by (cases x) (auto simp: reset_time_def io_simps)
qed

text \<open>The configured limit of a window.\<close>

definition limit_text :: "string \<Rightarrow> string \<Rightarrow> string \<Rightarrow> keyspace \<Rightarrow> string" where
  "limit_text lk name fallback ks = (case ks_data ks lk of
     Some (RHash h) \<Rightarrow> (case h name of None \<Rightarrow> fallback | Some v \<Rightarrow> v) | _ \<Rightarrow> fallback)"

definition window_types :: "string \<Rightarrow> string \<Rightarrow> string \<Rightarrow> keyspace \<Rightarrow> bool" where
  "window_types mk hk lk ks \<longleftrightarrow> zset_typed mk ks \<and> zset_typed hk ks \<and>
     type_of_value (ks_data ks lk) \<in> {TNone, THash}"

lemma hget_limit:
  assumes "type_of_value (ks_data ks lk) \<in> {TNone, THash}"
  obtains v where "ks_hget lk name ks = (Inr v, ks)"
    "(case v of None \<Rightarrow> fallback | Some x \<Rightarrow> x) = limit_text lk name fallback ks"
  using assms
  by (cases "ks_data ks lk" rule: type_of_value.cases) (auto simp: ks_hget_def limit_text_def)

lemma check_types_ks:
  assumes "window_types mk hk lk ks"
  shows "check_types ks_redis [(mk, TZset), (hk, TZset), (lk, THash)] ks = (Inr (), ks)"
  using assms by (auto simp: window_types_def zset_typed_def io_simps ks_read_defs)

text \<open>What the script answers and leaves behind, for limits \<open>m\<close> and \<open>h\<close>.\<close>

definition script_outcome :: "string \<Rightarrow> string \<Rightarrow> string \<Rightarrow> real \<Rightarrow> nat \<Rightarrow> nat \<Rightarrow> string \<Rightarrow> keyspace \<Rightarrow> reply \<times> keyspace" where
  "script_outcome mk hk rid now m h t ks =
     (let pruned = prune hk 3600 now (prune mk 60 now ks);
          cm = length (live mk 60 now ks); ch = length (live hk 3600 now ks) in
      if m \<le> cm then (window_reply 0 (real m) 0 t ''minute'', pruned)
      else if h \<le> ch then (window_reply 0 (real h) 0 t ''hour'', pruned)
      else (if h - ch < m - cm then window_reply 1 (real h) (real (h - ch - 1)) t ''hour''
            else window_reply 1 (real m) (real (m - cm - 1)) t ''minute'',
            record_hit hk 3600 rid now (record_hit mk 60 rid now pruned)))"

lemma rate_limit_script_ks:
  assumes types: "window_types mk hk lk ks" and neq: "mk \<noteq> hk" "mk \<noteq> lk" "hk \<noteq> lk"
    and m: "tonumber N (limit_text lk ''per_minute'' dm ks) = Some (real m)"
    and h: "tonumber N (limit_text lk ''per_hour'' dh ks) = Some (real h)"
  shows "\<exists>t. rate_limit_script N ks_redis mk hk lk rid now dm dh ks =
    (case script_outcome mk hk rid now m h (tostring N t) ks of (r, ks') \<Rightarrow> (Inr r, ks'))"
proof -
  have lk: "type_of_value (ks_data ks lk) \<in> {TNone, THash}" using types by (simp add: window_types_def)
  obtain v where v: "ks_hget lk ''per_minute'' ks = (Inr v, ks)"
    "(case v of None \<Rightarrow> dm | Some x \<Rightarrow> x) = limit_text lk ''per_minute'' dm ks"
    using hget_limit [OF lk] by blast
  obtain v' where v': "ks_hget lk ''per_hour'' ks = (Inr v', ks)"
    "(case v' of None \<Rightarrow> dh | Some x \<Rightarrow> x) = limit_text lk ''per_hour'' dh ks"
    using hget_limit [OF lk] by blast
  define pm where "pm = prune mk 60 now ks"
  define pruned where "pruned = prune hk 3600 now pm"
  define hit where "hit = record_hit mk 60 rid now pruned"
  define final where "final = record_hit hk 3600 rid now hit"
  have typed: "zset_typed mk ks" "zset_typed hk pm" "zset_typed mk pruned" "zset_typed hk pruned"
      "zset_typed hk hit" "zset_typed mk final" "zset_typed hk final"
    using types neq by (simp_all add: window_types_def pm_def pruned_def hit_def final_def)
  have steps: "ks_zremrangebyscore mk (now - 60) ks = (Inr (), pm)"
      "ks_zremrangebyscore hk (now - 3600) pm = (Inr (), pruned)"
      "ks_zcard mk pruned = (Inr (length (live mk 60 now ks)), pruned)"
      "ks_zcard hk pruned = (Inr (length (live hk 3600 now ks)), pruned)"
    using typed neq types
    by (simp_all add: zset_ops_ks(1,2) prod_eq_iff pm_def pruned_def prune_def [symmetric] window_types_def)
  have hits: "fst (ks_zadd mk now rid pruned) = Inr ()" "fst (ks_zadd hk now rid hit) = Inr ()"
      "EXPIRE ks_redis mk 60 (snd (ks_zadd mk now rid pruned)) = (Inr (), hit)"
      "EXPIRE ks_redis hk 3600 (snd (ks_zadd hk now rid hit)) = (Inr (), final)"
    using typed by (simp_all add: zset_ops_ks(3) hit_def final_def record_hit_def prod_eq_iff)
  have bad: "\<not> bad_limit (Some (real m))" "\<not> bad_limit (Some (real h))"
    by (simp_all add: bad_limit_def)
  obtain a b c d where rs: "reset_time N ks_redis now mk 60 pruned = (Inr (tostring N a), pruned)"
      "reset_time N ks_redis now hk 3600 pruned = (Inr (tostring N b), pruned)"
      "reset_time N ks_redis now mk 60 final = (Inr (tostring N c), final)"
      "reset_time N ks_redis now hk 3600 final = (Inr (tostring N d), final)"
    using reset_time_ks [OF typed(3)] reset_time_ks [OF typed(4)] reset_time_ks [OF typed(6)]
      reset_time_ks [OF typed(7)] by meson
  let ?cm = "length (live mk 60 now ks)" and ?ch = "length (live hk 3600 now ks)"
  have rem: "real m - real ?cm - 1 = real (m - ?cm - 1)" if "?cm < m" using that by (simp add: of_nat_diff)
  have rem': "real h - real ?ch - 1 = real (h - ?ch - 1)" if "?ch < h" using that by (simp add: of_nat_diff)
  note run = rate_limit_script_def seqio_split bindio_split check_types_ks [OF types] v v' m h bad
    steps hits Let_def script_outcome_def pm_def [symmetric] pruned_def [symmetric]
    hit_def [symmetric] final_def [symmetric]
  consider "m \<le> ?cm" | "?cm < m" "h \<le> ?ch" | "?cm < m" "?ch < h" "h - ?ch < m - ?cm"
    | "?cm < m" "?ch < h" "\<not> h - ?ch < m - ?cm" by linarith
  then show ?thesis
  proof cases
    case 1
    then show ?thesis by (intro exI [of _ a]) (simp add: run rs del: check_types.simps)
  next
    case 2
    then show ?thesis by (intro exI [of _ b]) (simp add: run rs del: check_types.simps)
  next
    case 3
    then have "real h - real ?ch < real m - real ?cm" by linarith
    with 3 show ?thesis
      by (intro exI [of _ d]) (simp add: run rs rem rem' del: check_types.simps)
  next
    case 4
    then have "\<not> real h - real ?ch < real m - real ?cm" by linarith
    with 4 show ?thesis
      by (intro exI [of _ c]) (simp add: run rs rem rem' del: check_types.simps)
  qed
qed

lemma rl_keys_apart [simp]:
  "rl_minute_key a \<noteq> rl_hour_key b" "rl_hour_key a \<noteq> rl_minute_key b"
  "rl_minute_key a \<noteq> rl_limits_key b" "rl_limits_key a \<noteq> rl_minute_key b"
  "rl_hour_key a \<noteq> rl_limits_key b" "rl_limits_key a \<noteq> rl_hour_key b"
  "rl_minute_key a = rl_minute_key b \<longleftrightarrow> a = b" "rl_hour_key a = rl_hour_key b \<longleftrightarrow> a = b"
  "rl_limits_key a = rl_limits_key b \<longleftrightarrow> a = b"
  by (auto simp: rl_minute_key_def rl_hour_key_def rl_limits_key_def dest!: arg_cong [where f = rev])

definition limits_are :: "text_numbers \<Rightarrow> rate_limits \<Rightarrow> string \<Rightarrow> nat \<Rightarrow> nat \<Rightarrow> keyspace \<Rightarrow> bool" where
  "limits_are N df a m h ks \<longleftrightarrow>
     tonumber N (limit_text (rl_limits_key a) ''per_minute'' (show_int (per_minute df)) ks) = Some (real m) \<and>
     tonumber N (limit_text (rl_limits_key a) ''per_hour'' (show_int (per_hour df)) ks) = Some (real h)"

definition rl_typed :: "string \<Rightarrow> keyspace \<Rightarrow> bool" where
  "rl_typed a = window_types (rl_minute_key a) (rl_hour_key a) (rl_limits_key a)"

text \<open>The decision on a request, from the limits and the numbers of requests in the two windows.\<close>

definition rl_decision :: "nat \<Rightarrow> nat \<Rightarrow> nat \<Rightarrow> nat \<Rightarrow> real \<Rightarrow> rate_limit_result" where
  "rl_decision m h cm ch y =
     (if m \<le> cm then \<lparr>rl_allowed = False, rl_limit = int m, rl_remaining = 0, rl_reset_time = y, rl_window = ''minute''\<rparr>
      else if h \<le> ch then \<lparr>rl_allowed = False, rl_limit = int h, rl_remaining = 0, rl_reset_time = y, rl_window = ''hour''\<rparr>
      else if h - ch < m - cm
      then \<lparr>rl_allowed = True, rl_limit = int h, rl_remaining = int (h - ch - 1), rl_reset_time = y, rl_window = ''hour''\<rparr>
      else \<lparr>rl_allowed = True, rl_limit = int m, rl_remaining = int (m - cm - 1), rl_reset_time = y, rl_window = ''minute''\<rparr>)"

lemma rl_decision_allowed [simp]: "rl_allowed (rl_decision m h cm ch y) \<longleftrightarrow> cm < m \<and> ch < h"
  by (auto simp: rl_decision_def)

definition rl_after :: "string \<Rightarrow> string \<Rightarrow> real \<Rightarrow> nat \<Rightarrow> nat \<Rightarrow> keyspace \<Rightarrow> keyspace" where
  "rl_after a rid now m h ks =
     (let mk = rl_minute_key a; hk = rl_hour_key a; pruned = prune hk 3600 now (prune mk 60 now ks) in
      if length (live mk 60 now ks) < m \<and> length (live hk 3600 now ks) < h
      then record_hit hk 3600 rid now (record_hit mk 60 rid now pruned) else pruned)"

context numerals
begin

lemma check_rate_limit_ks:
  assumes "rl_typed a ks" and "limits_are N df a m h ks"
  shows "\<exists>y. check_rate_limit N ks_redis df now u a i ks =
    (Inr (rl_decision m h (length (live (rl_minute_key a) 60 now ks)) (length (live (rl_hour_key a) 3600 now ks)) y),
     rl_after a (i @ '':'' @ u) now m h ks)"
proof -
  obtain t where t: "queued_check N ks_redis df now u a i ks =
      (case script_outcome (rl_minute_key a) (rl_hour_key a) (i @ '':'' @ u) now m h (tostring N t) ks of
        (r, ks') \<Rightarrow> (Inr r, ks'))"
    using rate_limit_script_ks [of "rl_minute_key a" "rl_hour_key a" "rl_limits_key a" ks N] assms
    unfolding rl_typed_def limits_are_def queued_check_def by (metis rl_keys_apart(1,3,5))
  obtain y where y: "py_float N (tostring N t) = Some y" using py_float_tostring by blast
  show ?thesis
    by (intro exI [of _ y])
       (auto simp: check_rate_limit_def queue_check_def plain_pipe_def pipeline_execute_def io_simps t
         script_outcome_def window_reply_def rl_decision_def rl_after_def Let_def y
         floor_int_diff split: prod.splits)
qed

end

section \<open>The sliding-window bound\<close>

text \<open>
  What one window's sorted set keeps of the log. A broker whose clock is ahead by \<open>e\<close> drops
  requests that a broker behind by \<open>e\<close> has entered \<open>2 * e\<close> before the window ends, and Redis
  counts a key's deadline in whole milliseconds: the requests that are certainly there are
  those of the last \<open>w - 2 * e - 1/1000\<close> seconds.
\<close>

definition recent :: "real \<Rightarrow> nat \<Rightarrow> keyspace \<Rightarrow> admission \<Rightarrow> bool" where
  "recent e w ks x \<longleftrightarrow> clock ks - (real w - 2 * e - 1 / 1000) < fst x"

definition window_inv :: "real \<Rightarrow> string \<Rightarrow> nat \<Rightarrow> nat \<Rightarrow> admission list \<Rightarrow> keyspace \<Rightarrow> bool" where
  "window_inv e k w n hits ks \<longleftrightarrow>
     zset_typed k ks \<and> 0 < w \<and> 0 \<le> e \<and>
     (\<forall>x \<in> set hits. fst x \<le> clock ks \<and> \<bar>fst (snd x) - fst x\<bar> \<le> e) \<and>
     (\<forall>x \<in> set hits. recent e w ks x \<longrightarrow> snd x \<in> set (zset_of k ks)) \<and>
     length (filter (recent e w ks) hits) \<le> n \<and>
     (zset_of k ks \<noteq> [] \<longrightarrow> (\<exists>d. ks_ttl ks k = Some d \<and>
        (\<forall>x \<in> set hits. snd x \<in> set (zset_of k ks) \<longrightarrow> 1000 * fst x < real d - 1000 * real w + 1)))"

lemma set_zset_add': "set (zset_add s m z) = insert (s, m) {x \<in> set z. snd x \<noteq> m}"
  by (auto simp: zset_add_def set_insort_key)

lemma window_inv_cong:
  "ks_data ks' k = ks_data ks k \<Longrightarrow> ks_ttl ks' k = ks_ttl ks k \<Longrightarrow> ks_now ks' = ks_now ks \<Longrightarrow>
   window_inv e k w n hits ks' = window_inv e k w n hits ks"
  by (simp add: window_inv_def zset_typed_def zset_of_def recent_def [abs_def] clock_def)

text \<open>A broker whose clock agrees up to \<open>e\<close> finds all recent requests in its window.\<close>

lemma recent_live:
  assumes inv: "window_inv e k w n hits ks" and now: "\<bar>now - clock ks\<bar> \<le> e" and x: "x \<in> set hits" "recent e w ks x"
  shows "snd x \<in> set (live k (real w) now ks)"
proof -
  have "snd x \<in> set (zset_of k ks)" "\<bar>fst (snd x) - fst x\<bar> \<le> e" using inv x by (auto simp: window_inv_def)
  moreover from this now x(2) have "now - real w < fst (snd x)" by (simp add: recent_def)
  ultimately show ?thesis by (auto simp: live_def)
qed

lemma window_inv_prune:
  assumes inv: "window_inv e k w n hits ks" and now: "\<bar>now - clock ks\<bar> \<le> e"
  shows "window_inv e k w n hits (prune k (real w) now ks)"
proof -
  let ?p = "prune k (real w) now ks"
  have same: "clock ?p = clock ks" "recent e w ?p = recent e w ks" by (simp_all add: clock_def recent_def [abs_def])
  have ty: "zset_typed k ks" using inv by (simp add: window_inv_def)
  have "\<exists>d. ks_ttl ?p k = Some d \<and>
      (\<forall>x \<in> set hits. snd x \<in> set (live k (real w) now ks) \<longrightarrow> 1000 * fst x < real d - 1000 * real w + 1)"
    if ne: "live k (real w) now ks \<noteq> []"
  proof -
    have sub: "set (live k (real w) now ks) \<subseteq> set (zset_of k ks)" by (auto simp: live_def)
    from ne have "zset_of k ks \<noteq> []" by (auto simp: live_def)
    with inv obtain d where "ks_ttl ks k = Some d"
      "\<forall>x \<in> set hits. snd x \<in> set (zset_of k ks) \<longrightarrow> 1000 * fst x < real d - 1000 * real w + 1"
      by (auto simp: window_inv_def)
    with sub prune_ttl [OF ty ne] show ?thesis by (metis subsetD)
  qed
  then show ?thesis
    using inv ty recent_live [OF inv now] unfolding window_inv_def same zset_of_prune(1) [OF ty] by simp
qed

lemma clock_ms: "1000 * clock ks < real (now_ms ks) + 1"
proof -
  have "real (ks_now ks) = real (1000 * (ks_now ks div 1000) + ks_now ks mod 1000)"
    by (simp only: mult_div_mod_eq)
  moreover have "ks_now ks mod 1000 < 1000" by simp
  ultimately show ?thesis unfolding clock_def now_ms_def by linarith
qed

lemma window_inv_hit:
  assumes inv: "window_inv e k w n hits ks" and now: "\<bar>now - clock ks\<bar> \<le> e" and room: "length (live k (real w) now ks) < n"
    and dist: "distinct (map (snd \<circ> snd) hits)" and fresh: "rid \<notin> (snd \<circ> snd) ` set hits"
  shows "window_inv e k w n ((clock ks, now, rid) # hits) (record_hit k (int w) rid now (prune k (real w) now ks))"
    (is "window_inv e k w n _ ?ks'")
proof -
  let ?p = "prune k (real w) now ks" and ?l = "live k (real w) now ks" and ?hit = "(clock ks, now, rid)"
  have ty: "zset_typed k ks" "zset_typed k ?p" and w: "0 < int w" using inv by (auto simp: window_inv_def)
  have same: "clock ?ks' = clock ks" "now_ms ?p = now_ms ks" "recent e w ?ks' = recent e w ks" by (simp_all add: clock_def now_ms_def recent_def [abs_def])
  have z: "zset_of k ?ks' = zset_add now rid ?l" using ty w by simp
  have "distinct (map snd (filter (recent e w ks) hits))"
    using dist by (metis (no_types, lifting) distinct_map distinct_map_filter map_map)
  then have "length (filter (recent e w ks) hits) = card (set (map snd (filter (recent e w ks) hits)))" by (metis distinct_card length_map)
  also have "set (map snd (filter (recent e w ks) hits)) \<subseteq> set ?l" using recent_live [OF inv now] by auto
  then have "card (set (map snd (filter (recent e w ks) hits))) \<le> length ?l" by (meson List.finite_set card_length card_mono le_trans)
  finally have len: "length (filter (recent e w ks) (?hit # hits)) \<le> n" using room by simp
  have old: "\<forall>x \<in> set hits. fst x \<le> clock ks" using inv by (auto simp: window_inv_def)
  have "real (now_ms ks + nat (1000 * int w)) - 1000 * real w + 1 > 1000 * clock ks"
    using clock_ms [of ks] by (simp add: nat_mult_distrib)
  then have dl: "\<forall>x \<in> set (?hit # hits). 1000 * fst x < real (now_ms ks + nat (1000 * int w)) - 1000 * real w + 1"
    using old by force
  have "snd x \<in> set (zset_of k ?ks')" if "x \<in> set (?hit # hits)" "recent e w ks x" for x
  proof (cases "x = ?hit")
    case False
    with that have "x \<in> set hits" by simp
    then show ?thesis using recent_live [OF inv now _ that(2)] fresh unfolding z set_zset_add' by auto
  qed (simp add: z set_zset_add')
  moreover have "\<exists>d. ks_ttl ?ks' k = Some d \<and> (\<forall>x \<in> set (?hit # hits). 1000 * fst x < real d - 1000 * real w + 1)"
    using dl ty w by (intro exI [of _ "now_ms ks + nat (1000 * int w)"]) (simp add: same)
  moreover have "\<forall>x \<in> set (?hit # hits). fst x \<le> clock ks \<and> \<bar>fst (snd x) - fst x\<bar> \<le> e" using inv now by (auto simp: window_inv_def)
  moreover have "zset_typed k ?ks'" "0 < w" "0 \<le> e" using inv ty by (simp_all add: window_inv_def)
  ultimately show ?thesis unfolding window_inv_def same using len by blast
qed

context redis_clock
begin

lemma window_inv_elapse:
  assumes inv: "window_inv e k w n hits (view db)"
  shows "window_inv e k w n hits (view (elapse d db))" (is "window_inv e k w n hits ?ks'")
proof -
  let ?ks = "view db"
  have now: "clock ?ks \<le> clock ?ks'" by (simp add: clock_def elapse_now)
  then have recent: "recent e w ?ks' x \<Longrightarrow> recent e w ?ks x" for x by (simp add: recent_def)
  then have "length (filter (recent e w ?ks') hits) \<le> length (filter (recent e w ?ks) hits)" by (intro length_filter_mono) auto
  then have len: "length (filter (recent e w ?ks') hits) \<le> n" using inv by (simp add: window_inv_def)
  have old: "\<forall>x \<in> set hits. fst x \<le> clock ?ks' \<and> \<bar>fst (snd x) - fst x\<bar> \<le> e" "0 < w" "0 \<le> e"
    using inv now by (fastforce simp: window_inv_def)+
  consider "ks_data ?ks' k = ks_data ?ks k" "ks_ttl ?ks' k = ks_ttl ?ks k"
    | t where "ks_data ?ks' k = None" "ks_ttl ?ks k = Some t" "t \<le> now_ms ?ks'"
  proof (cases "ks_ttl ?ks k")
    case None
    then show ?thesis using that(1) elapse_persist by simp
  next
    case (Some t)
    then show ?thesis
      using that elapse_either [of db k t d] elapse_keep [of db k t d]
      by (cases "now_ms ?ks' < t") (auto simp: now_ms_def elapse_now)
  qed
  then show ?thesis
  proof cases
    case 1
    then have "zset_of k ?ks' = zset_of k ?ks" "zset_typed k ?ks' = zset_typed k ?ks"
      by (simp_all add: zset_of_def zset_typed_def)
    then show ?thesis using inv recent len old 1(2) unfolding window_inv_def by auto
  next
    case 2
    have "real (now_ms ?ks') \<le> 1000 * clock ?ks'" by (simp add: clock_def now_ms_def)
    then have late: "real t \<le> 1000 * clock ?ks'" using 2(3) by linarith
    have "\<not> recent e w ?ks' x" if x: "x \<in> set hits" for x
    proof
      assume r: "recent e w ?ks' x"
      then have "snd x \<in> set (zset_of k ?ks)" using inv x recent by (auto simp: window_inv_def)
      then have "1000 * fst x < real t - 1000 * real w + 1" using inv x 2(2) by (fastforce simp: window_inv_def)
      then show False using r late old(3) by (simp add: recent_def field_simps)
    qed
    then show ?thesis using 2 old len by (simp add: window_inv_def zset_of_def zset_typed_def)
  qed
qed

end

lemma check_types_touches [touches_intros]: "touches K (check_types ks_redis kes)"
proof (induction kes)
  case (Cons ke kes)
  then show ?case unfolding check_types.simps ks_redis_sel by (intro touches_intros)
qed (simp only: check_types.simps touches_ret)

lemma check_rate_limit_touches:
  "touches {rl_minute_key a, rl_hour_key a} (check_rate_limit N ks_redis df now u a i)"
  by (auto simp: check_rate_limit_def queue_check_def plain_pipe_def of_result_def pipeline_execute_def
      queued_check_def rate_limit_script_def reset_time_def Let_def intro!: touches_intros)

definition rl_inv :: "real \<Rightarrow> text_numbers \<Rightarrow> rate_limits \<Rightarrow> string \<Rightarrow> nat \<Rightarrow> nat \<Rightarrow> admission list \<Rightarrow> keyspace \<Rightarrow> bool" where
  "rl_inv e N df a m h hits ks \<longleftrightarrow>
     window_inv e (rl_minute_key a) 60 m hits ks \<and> window_inv e (rl_hour_key a) 3600 h hits ks \<and>
     limits_are N df a m h ks \<and> type_of_value (ks_data ks (rl_limits_key a)) \<in> {TNone, THash} \<and>
     ks_ttl ks (rl_limits_key a) = None"

lemma rl_inv_typed: "rl_inv e N df a m h hits ks \<Longrightarrow> rl_typed a ks"
  by (simp add: rl_inv_def rl_typed_def window_types_def window_inv_def)

lemma limits_frame:
  "ks_data ks' (rl_limits_key a) = ks_data ks (rl_limits_key a) \<Longrightarrow> limits_are N df a m h ks' = limits_are N df a m h ks"
  by (simp add: limits_are_def limit_text_def)

lemma rl_inv_other:
  assumes "rl_inv e N df a m h hits ks" and "b \<noteq> a"
  shows "rl_inv e N df a m h hits (snd (check_rate_limit N ks_redis df now u b i ks))" (is "rl_inv e N df a m h hits ?ks'")
proof -
  note t = touchesD [OF check_rate_limit_touches [of b N df now u i], where ks = ks]
  have same: "ks_data ?ks' k = ks_data ks k" "ks_ttl ?ks' k = ks_ttl ks k"
    if "k \<in> {rl_minute_key a, rl_hour_key a, rl_limits_key a}" for k
    using that assms(2) t(3,4) [of k] by auto
  then show ?thesis
    using assms(1) t(1) limits_frame [of ?ks' a ks] window_inv_cong [of ?ks' _ ks]
    unfolding rl_inv_def by simp
qed

lemma window_inv_prune_frame:
  "j \<noteq> k \<Longrightarrow> window_inv e k w n hits (prune j v now ks) = window_inv e k w n hits ks"
  "j \<noteq> k \<Longrightarrow> window_inv e k w n hits (record_hit j v' rid now ks) = window_inv e k w n hits ks"
  by ((rule window_inv_cong; simp)+)

lemma record_hit_cong:
  assumes "ks_data ks' k = ks_data ks k" and "ks_ttl ks' k = ks_ttl ks k" and "ks_now ks' = ks_now ks"
  shows "window_inv e k w n hits (record_hit k v rid now ks') = window_inv e k w n hits (record_hit k v rid now ks)"
  using assms
  by (intro window_inv_cong)
     (auto simp: record_hit_def EXPIRE_def ks_pexpire_def ks_zadd_def now_ms_def split: option.splits rvalue.splits)

lemma window_inv_hit_frame:
  "j \<noteq> k \<Longrightarrow> window_inv e k w n hits (record_hit k v rid now (prune j u now' ks)) =
    window_inv e k w n hits (record_hit k v rid now ks)"
  "j \<noteq> k \<Longrightarrow> window_inv e k w n hits (record_hit k v rid now (record_hit j u' rid' now' ks)) =
    window_inv e k w n hits (record_hit k v rid now ks)"
  by ((rule record_hit_cong; simp)+)

context numerals
begin

lemma rl_inv_mine:
  assumes inv: "rl_inv e N df a m h hits ks" and skew: "\<bar>now - clock ks\<bar> \<le> e"
    and dist: "distinct (map (snd \<circ> snd) hits)" and fresh: "i @ '':'' @ u \<notin> (snd \<circ> snd) ` set hits"
  shows "rl_inv e N df a m h
    (if admitted (fst (check_rate_limit N ks_redis df now u a i ks))
     then (clock ks, now, i @ '':'' @ u) # hits else hits)
    (snd (check_rate_limit N ks_redis df now u a i ks))"
proof -
  let ?mk = "rl_minute_key a" and ?hk = "rl_hour_key a" and ?rid = "i @ '':'' @ u" and ?now = "now"
  let ?room = "length (live ?mk 60 ?now ks) < m \<and> length (live ?hk 3600 ?now ks) < h"
  let ?pm = "prune ?mk 60 ?now ks"
  have w: "window_inv e ?mk 60 m hits ks" "window_inv e ?hk 3600 h hits ks" and lim: "limits_are N df a m h ks"
    using inv by (simp_all add: rl_inv_def)
  obtain y where run: "check_rate_limit N ks_redis df ?now u a i ks =
      (Inr (rl_decision m h (length (live ?mk 60 ?now ks)) (length (live ?hk 3600 ?now ks)) y),
       rl_after a ?rid ?now m h ks)"
    using check_rate_limit_ks [OF rl_inv_typed [OF inv] lim] by blast
  note t = touchesD [OF check_rate_limit_touches [of a N df ?now u i], where ks = ks]
  have lims: "ks_data (rl_after a ?rid ?now m h ks) (rl_limits_key a) = ks_data ks (rl_limits_key a)"
      "ks_ttl (rl_after a ?rid ?now m h ks) (rl_limits_key a) = ks_ttl ks (rl_limits_key a)"
    using t(3,4) [of "rl_limits_key a"] by (simp_all add: run)
  have clocks: "clock ?pm = clock ks" by (simp add: clock_def)
  then have skew': "\<bar>now - clock ?pm\<bar> \<le> e" using skew by simp
  have hour: "window_inv e ?hk 3600 h hits ?pm" using w(2) by (simp add: window_inv_prune_frame)
  have "window_inv e ?mk 60 m (if ?room then (clock ks, ?now, ?rid) # hits else hits) (rl_after a ?rid ?now m h ks) \<and>
      window_inv e ?hk 3600 h (if ?room then (clock ks, ?now, ?rid) # hits else hits) (rl_after a ?rid ?now m h ks)"
  proof (cases ?room)
    case False
    then show ?thesis
      using window_inv_prune [OF w(1) skew] window_inv_prune [OF hour skew']
      by (auto simp: rl_after_def Let_def window_inv_prune_frame clocks)
  next
    case True
    then show ?thesis
      using window_inv_hit [OF w(1) skew _ dist fresh] window_inv_hit [OF hour skew' _ dist fresh]
      by (simp add: rl_after_def Let_def window_inv_prune_frame clocks window_inv_hit_frame)
  qed
  then show ?thesis
    using inv lims limits_frame [OF lims(1)] by (auto simp: run admitted_def rl_inv_def split: if_splits)
qed

end

text \<open>A limiter on any server with a clock and any conversions of numbers.\<close>

locale rate_limiter = redis_clock + numerals
begin

lemma rl_inv_elapse: "rl_inv e N df a m h hits (view db) \<Longrightarrow> rl_inv e N df a m h hits (view (elapse d db))"
  using elapse_persist [of db "rl_limits_key a" d] limits_frame [of "view (elapse d db)" a "view db"]
  by (simp add: rl_inv_def window_inv_elapse)

lemma rl_inv_step:
  assumes "rl_inv e N df a m h hits (view db)" and "distinct (request_ids a (op # ops))" and skew: "skew_within e op"
    and "\<forall>x \<in> set hits. snd (snd x) \<notin> set (request_ids a (op # ops))" and "distinct (map (snd \<circ> snd) hits)"
    and "run_rl_op N R df view elapse a op (hits, db) = (hits', db')"
  shows "rl_inv e N df a m h hits' (view db') \<and> distinct (request_ids a ops) \<and>
    (\<forall>x \<in> set hits'. snd (snd x) \<notin> set (request_ids a ops)) \<and> distinct (map (snd \<circ> snd) hits')"
proof (cases op)
  case (Pass d)
  with assms rl_inv_elapse show ?thesis by auto
next
  case (Check skew u b i)
  let ?now = "clock (view db) + skew"
  have impl: "fst (check_rate_limit N R df ?now u b i db) = fst (check_rate_limit N ks_redis df ?now u b i (view db))"
      "view (snd (check_rate_limit N R df ?now u b i db)) = snd (check_rate_limit N ks_redis df ?now u b i (view db))"
    by (simp_all add: implements_fst [OF check_rate_limit_impl] implements_snd [OF check_rate_limit_impl])
  show ?thesis
  proof (cases "b = a")
    case True
    have near: "\<bar>?now - clock (view db)\<bar> \<le> e" using assms(3) Check by simp
    have "i @ '':'' @ u \<notin> (snd \<circ> snd) ` set hits" using assms(4) Check True by auto
    from rl_inv_mine [OF assms(1) near assms(5) this] show ?thesis
      using assms Check True impl by (auto simp: Let_def split: if_splits) (metis snd_conv)
  next
    case False
    with rl_inv_other [OF assms(1)] show ?thesis
      using assms Check impl by (auto simp: Let_def)
  qed
qed

lemma rl_inv_run:
  "rl_inv e N df a m h hits (view db) \<Longrightarrow> distinct (request_ids a ops) \<Longrightarrow> \<forall>op \<in> set ops. skew_within e op \<Longrightarrow>
   \<forall>x \<in> set hits. snd (snd x) \<notin> set (request_ids a ops) \<Longrightarrow> distinct (map (snd \<circ> snd) hits) \<Longrightarrow>
   fold (run_rl_op N R df view elapse a) ops (hits, db) = (hits', db') \<Longrightarrow> rl_inv e N df a m h hits' (view db')"
proof (induction ops arbitrary: hits db)
  case (Cons op ops)
  obtain mid_hits mid where mid: "run_rl_op N R df view elapse a op (hits, db) = (mid_hits, mid)"
    by fastforce
  have "skew_within e op" using Cons.prems(3) by simp
  from rl_inv_step [OF Cons.prems(1,2) this Cons.prems(4,5) mid] Cons.IH [of mid_hits mid] Cons.prems(3,6) mid show ?case by (simp add: comp_def)
qed simp

lemma admissions_bounded:
  assumes "rl_typed a (view db)" and "limits_are N df a m h (view db)"
    and "ks_ttl (view db) (rl_limits_key a) = None"
    and "ks_data (view db) (rl_minute_key a) = None" and "ks_data (view db) (rl_hour_key a) = None"
    and "distinct (request_ids a ops)" and "0 \<le> e" and "\<forall>op \<in> set ops. skew_within e op"
    and run: "run_rl N R df view elapse a ops db = (hits, db')"
  shows "length (filter (\<lambda>x. clock (view db') - (60 - 2 * e - 1 / 1000) < fst x) hits) \<le> m \<and>
    length (filter (\<lambda>x. clock (view db') - (3600 - 2 * e - 1 / 1000) < fst x) hits) \<le> h"
proof -
  have "rl_inv e N df a m h [] (view db)"
    using assms(1-5,7)
    by (simp add: rl_inv_def rl_typed_def window_types_def window_inv_def zset_of_def)
  from rl_inv_run [OF this assms(6,8) _ _ run [unfolded run_rl_def]]
  have "rl_inv e N df a m h hits (view db')" by simp
  then show ?thesis unfolding rl_inv_def window_inv_def recent_def by simp
qed

end

interpretation ref_limiter: rate_limiter ks_redis "\<lambda>ks. ks" ks_elapse decimal_numbers
  by unfold_locales

section \<open>Custom limits\<close>

definition limits_hash :: "string \<Rightarrow> keyspace \<Rightarrow> string \<rightharpoonup> string" where
  "limits_hash a ks = (case ks_data ks (rl_limits_key a) of Some (RHash x) \<Rightarrow> x | _ \<Rightarrow> Map.empty)"

definition limits_of :: "text_numbers \<Rightarrow> rate_limits \<Rightarrow> (string \<rightharpoonup> string) \<Rightarrow> err + rate_limits" where
  "limits_of N df raw =
     (case limit_field N raw ''per_minute'' (per_minute df) of Inl e \<Rightarrow> Inl e
      | Inr m \<Rightarrow> (case limit_field N raw ''per_hour'' (per_hour df) of Inl e \<Rightarrow> Inl e
        | Inr h \<Rightarrow> validate_limits \<lparr>per_minute = m, per_hour = h\<rparr>))"

lemma get_limits_ks:
  assumes "type_of_value (ks_data ks (rl_limits_key a)) \<in> {TNone, THash}"
  shows "fst (get_limits N ks_redis df a ks) = limits_of N df (limits_hash a ks)"
  using assms
  by (cases "ks_data ks (rl_limits_key a)" rule: type_of_value.cases)
     (auto simp: get_limits_def io_simps ks_hgetall_def limits_hash_def limits_of_def split: sum.splits)

lemma get_limits_typed:
  "fst (get_limits N ks_redis df a ks) = Inr l \<Longrightarrow>
   type_of_value (ks_data ks (rl_limits_key a)) \<in> {TNone, THash}"
  by (cases "ks_data ks (rl_limits_key a)" rule: type_of_value.cases)
     (auto simp: get_limits_def io_simps ks_hgetall_def)

lemma limits_of_Inr:
  "limits_of N df raw = Inr l \<longleftrightarrow>
     limit_field N raw ''per_minute'' (per_minute df) = Inr (per_minute l) \<and>
     limit_field N raw ''per_hour'' (per_hour df) = Inr (per_hour l) \<and> 0 \<le> per_minute l \<and> 0 \<le> per_hour l"
  by (cases l) (auto simp: limits_of_def validate_limits_def split: sum.splits)

lemma hset_limits:
  assumes "type_of_value (ks_data ks (rl_limits_key a)) \<in> {TNone, THash}" and "flds \<noteq> []"
  shows "\<exists>ks'. ks_hset (rl_limits_key a) flds ks = (Inr (), ks') \<and>
    limits_hash a ks' = limits_hash a ks ++ map_of (rev flds) \<and> type_of_value (ks_data ks' (rl_limits_key a)) = THash"
  using assms
  by (cases "ks_data ks (rl_limits_key a)" rule: type_of_value.cases) (auto simp: ks_hset_def limits_hash_def)

lemma set_limits_ks:
  assumes old: "fst (get_limits N ks_redis df a ks) = Inr old"
    and run: "set_limits ks_redis df a m h ks = (r, ks')"
    and parse: "\<And>x. 0 \<le> x \<Longrightarrow> py_int N (show_int x) = Some x"
    and df: "0 \<le> per_minute df" "0 \<le> per_hour df"
  shows "if (\<exists>x. m = Some x \<and> x < 0) \<or> (\<exists>x. h = Some x \<and> x < 0)
    then r = Inl ValidationError \<and> ks' = ks
    else r = Inr () \<and> fst (get_limits N ks_redis df a ks') =
      Inr \<lparr>per_minute = (case m of None \<Rightarrow> per_minute old | Some x \<Rightarrow> x),
           per_hour = (case h of None \<Rightarrow> per_hour old | Some x \<Rightarrow> x)\<rparr>"
proof -
  let ?bad = "(\<exists>x. m = Some x \<and> x < 0) \<or> (\<exists>x. h = Some x \<and> x < 0)"
  define flds where "flds = (case m of None \<Rightarrow> [] | Some x \<Rightarrow> [(''per_minute'', show_int x)]) @
    (case h of None \<Rightarrow> [] | Some x \<Rightarrow> [(''per_hour'', show_int x)])"
  note ty = get_limits_typed [OF old]
  have o: "limits_of N df (limits_hash a ks) = Inr old" using old get_limits_ks [OF ty] by simp
  have r: "(r, ks') = (if ?bad then (Inl ValidationError, ks)
      else if flds = [] then (Inr (), ks) else ks_hset (rl_limits_key a) flds ks)"
    using run df by (cases m; cases h) (auto simp: flds_def set_limits_def validate_limits_def io_simps)
  show ?thesis
  proof (cases "?bad \<or> flds = []")
    case True
    then show ?thesis using r old by (auto simp: flds_def split: option.splits)
  next
    case False
    then obtain x where x: "ks_hset (rl_limits_key a) flds ks = (Inr (), x)"
      "limits_hash a x = limits_hash a ks ++ map_of (rev flds)" "type_of_value (ks_data x (rl_limits_key a)) = THash"
      using hset_limits [OF ty] by blast
    moreover have "(r, ks') = ks_hset (rl_limits_key a) flds ks"
      using r False by (metis (no_types, lifting))
    ultimately have "x = ks'" "r = Inr ()" by simp_all
    with x have "fst (get_limits N ks_redis df a ks') = limits_of N df (limits_hash a ks ++ map_of (rev flds))"
      by (simp add: get_limits_ks)
    moreover have "limits_of N df (limits_hash a ks ++ map_of (rev flds)) =
        Inr \<lparr>per_minute = (case m of None \<Rightarrow> per_minute old | Some x \<Rightarrow> x),
             per_hour = (case h of None \<Rightarrow> per_hour old | Some x \<Rightarrow> x)\<rparr>"
      using o False parse unfolding limits_of_Inr
      by (cases m; cases h) (simp_all add: flds_def limit_field_def map_add_def)
    ultimately show ?thesis using False \<open>r = Inr ()\<close> by simp
  qed
qed

section \<open>Properties\<close>


definition example_limits :: rate_limits where
  "example_limits = \<lparr>per_minute = 1, per_hour = 5\<rparr>"

definition example_requests :: "rl_op list" where
  "example_requests = [Check (1 / 2) ''u'' ''a'' ''m'', Pass 1000000, Check (- 1) ''v'' ''a'' ''m'', Check 0 ''u'' ''b'' ''m'']"

lemma example_limits_are: "limits_are decimal_numbers example_limits ''a'' 1 5 (fresh_keyspace 0)"
  by (simp add: limits_are_def limit_text_def decimal_numbers_def example_limits_def show_int_def)


text \<open>
  One decision: with \<open>cm\<close> requests in the last minute and \<open>ch\<close> in the last hour, a request
  is admitted exactly when \<open>cm < m\<close> and \<open>ch < h\<close>; the result names the tighter window, its limit and
  what remains of it; an admitted request is added to both windows, a refused one to
  none, and no other key of the storage changes.
\<close>

theorem rate_limit_decision:
  assumes "redis_server R view" and "numerals N"
    and "rl_typed a (view db)" and "limits_are N df a m h (view db)"
    and "cm = length (live (rl_minute_key a) 60 now (view db))"
    and "ch = length (live (rl_hour_key a) 3600 now (view db))"
    and "check_rate_limit N R df now u a i db = (r, db')"
  shows "(\<exists>y. r = Inr (rl_decision m h cm ch y)) \<and>
    zset_of (rl_minute_key a) (view db') =
      (if cm < m \<and> ch < h then zset_add now (i @ '':'' @ u) (live (rl_minute_key a) 60 now (view db))
       else live (rl_minute_key a) 60 now (view db)) \<and>
    zset_of (rl_hour_key a) (view db') =
      (if cm < m \<and> ch < h then zset_add now (i @ '':'' @ u) (live (rl_hour_key a) 3600 now (view db))
       else live (rl_hour_key a) 3600 now (view db)) \<and>
    (\<forall>k. k = rl_minute_key a \<or> k = rl_hour_key a \<or> ks_data (view db') k = ks_data (view db) k)"
proof -
  note run = implements_run [OF redis_server.check_rate_limit_impl [OF assms(1)] assms(7)]
  obtain y where y: "check_rate_limit N ks_redis df now u a i (view db) =
      (Inr (rl_decision m h cm ch y), rl_after a (i @ '':'' @ u) now m h (view db))"
    using numerals.check_rate_limit_ks [OF assms(2-4)] assms(5,6) by blast
  have ty: "zset_typed (rl_minute_key a) (view db)" "zset_typed (rl_hour_key a) (view db)"
    using assms(3) by (simp_all add: rl_typed_def window_types_def)
  have frame: "k = rl_minute_key a \<or> k = rl_hour_key a \<or> ks_data (view db') k = ks_data (view db) k" for k
    using touchesD(3) [OF check_rate_limit_touches [of a N df now u i], of k "view db"] run by auto
  from y run have "r = Inr (rl_decision m h cm ch y)" "view db' = rl_after a (i @ '':'' @ u) now m h (view db)"
    by simp_all
  with ty frame assms(5,6) show ?thesis
    by (auto simp: rl_after_def Let_def)
qed

theorem rate_limit_decision_witness:
  "\<exists>y. fst (check_rate_limit decimal_numbers ks_redis example_limits 0 ''u'' ''a'' ''m'' (fresh_keyspace 0)) =
     Inr (rl_decision 1 5 0 0 y)"
  using rate_limit_decision [OF ref.redis_server_axioms dec.numerals_axioms _ example_limits_are refl refl
      prod.collapse [symmetric], of 0 "''u''" "''m''"]
  by (simp add: rl_typed_def window_types_def zset_typed_def live_def zset_of_def)

text \<open>
  Limits survive the round trip through storage: after custom limits are set for an agent,
  reading them returns them, with the value that was in force before for a limit that was
  not given; negative limits are refused before anything is written.
\<close>

theorem set_get_limits:
  assumes "redis_server R view" and "numerals N"
    and "get_limits N R df a db = (Inr old, db1)" and "0 \<le> per_minute df" and "0 \<le> per_hour df"
    and "set_limits R df a m h db = (r, db')"
  shows "if (\<exists>x. m = Some x \<and> x < 0) \<or> (\<exists>x. h = Some x \<and> x < 0)
    then r = Inl ValidationError \<and> view db' = view db
    else r = Inr () \<and> fst (get_limits N R df a db') =
      Inr \<lparr>per_minute = (case m of None \<Rightarrow> per_minute old | Some x \<Rightarrow> x),
           per_hour = (case h of None \<Rightarrow> per_hour old | Some x \<Rightarrow> x)\<rparr>"
proof -
  have run: "set_limits ks_redis df a m h (view db) = (r, view db')"
    using implements_run [OF redis_server.set_limits_impl [OF assms(1)] assms(6)] .
  have old: "fst (get_limits N ks_redis df a (view db)) = Inr old"
    using implements_fst [OF redis_server.get_limits_impl [OF assms(1)], of N df a db] assms(3) by simp
  have new: "fst (get_limits N R df a db') = fst (get_limits N ks_redis df a (view db'))"
    using implements_fst [OF redis_server.get_limits_impl [OF assms(1)]] .
  have parse: "py_int N (show_int x) = Some x" if "0 \<le> x" for x
    using numerals.py_int_show [OF assms(2), of "nat x"] that by (simp add: show_int_def)
  show ?thesis
    using set_limits_ks [OF old run parse] assms(4,5) unfolding new by simp
qed

theorem set_get_limits_witness:
  "fst (get_limits decimal_numbers ks_redis example_limits ''a''
     (snd (set_limits ks_redis example_limits ''a'' (Some 7) None (fresh_keyspace 0)))) =
   Inr \<lparr>per_minute = 7, per_hour = 5\<rparr>"
  using set_get_limits [OF ref.redis_server_axioms dec.numerals_axioms _ _ _ prod.collapse [symmetric],
      of example_limits "''a''" "fresh_keyspace 0" example_limits "fresh_keyspace 0" "Some 7" None]
  by (simp add: get_limits_def validate_limits_def limit_field_def io_simps ks_hgetall_def example_limits_def)

end
