(* ===== verification/Regex.thy ===== *)
theory Regex
  imports Prelude
begin

text \<open>
  Python's \<open>re\<close> as the sources use it, on Latin-1 text: a backtracking matcher with greedy
  repetition and ordered alternatives, given as the list of all ends of a match in the order in
  which the engine tries them, and \<open>finditer\<close>.
\<close>

section \<open>Character classes\<close>

definition code_in :: "nat \<Rightarrow> nat \<Rightarrow> char \<Rightarrow> bool" where
  "code_in a b c \<longleftrightarrow> a \<le> (of_char c :: nat) \<and> (of_char c :: nat) \<le> b"

definition ascii_upper :: "char \<Rightarrow> bool" where "ascii_upper c = code_in 65 90 c"

definition ascii_lower :: "char \<Rightarrow> bool" where "ascii_lower c = code_in 97 122 c"

definition ascii_alnum :: "char \<Rightarrow> bool" where
  "ascii_alnum c \<longleftrightarrow> ascii_upper c \<or> ascii_lower c \<or> is_digit c"

text \<open>\<open>\s\<close> and \<open>\w\<close> of a Unicode pattern, on Latin-1\<close>

definition space_char :: "char \<Rightarrow> bool" where
  "space_char c \<longleftrightarrow> code_in 9 13 c \<or> code_in 28 32 c \<or> code_in 133 133 c \<or> code_in 160 160 c"

definition word_char :: "char \<Rightarrow> bool" where
  "word_char c \<longleftrightarrow> ascii_alnum c \<or> c = CHR ''_'' \<or> code_in 170 170 c \<or> code_in 178 179 c \<or> code_in 181 181 c \<or>
     code_in 185 186 c \<or> code_in 188 190 c \<or> code_in 192 214 c \<or> code_in 216 246 c \<or> code_in 248 255 c"

definition swap_case :: "char \<Rightarrow> char" where
  "swap_case c = (if ascii_upper c then char_of (of_char c + 32 :: nat)
     else if ascii_lower c then char_of (of_char c - 32 :: nat) else c)"

section \<open>Patterns\<close>

datatype rx =
    Eps
  | Cls "char \<Rightarrow> bool"
  | Seq rx rx
  | Alt rx rx
  | Rep rx nat "nat option"
  | WordB

definition at_boundary :: "string \<Rightarrow> nat \<Rightarrow> bool" where
  "at_boundary t i \<longleftrightarrow> (0 < i \<and> i \<le> length t \<and> word_char (t ! (i - 1))) \<noteq> (i < length t \<and> word_char (t ! i))"

text \<open>
  \<open>r{lo,hi}\<close>, longest first. Beyond the required ones a repetition that does not advance is not
  tried; every other one uses up a required one or a character, so the fuel suffices.
\<close>

fun rep_ends :: "(nat \<Rightarrow> nat list) \<Rightarrow> nat \<Rightarrow> nat \<Rightarrow> nat option \<Rightarrow> nat \<Rightarrow> nat list" where
  "rep_ends body 0 lo hi i = (if lo = 0 then [i] else [])"
| "rep_ends body (Suc fuel) lo hi i =
     (if hi = Some 0 then []
      else concat (map (\<lambda>j. if j = i \<and> lo = 0 then [] else rep_ends body fuel (lo - 1) (map_option (\<lambda>h. h - 1) hi) j) (body i)))
     @ (if lo = 0 then [i] else [])"

primrec ends :: "rx \<Rightarrow> string \<Rightarrow> nat \<Rightarrow> nat list" where
  "ends Eps t i = [i]"
| "ends (Cls P) t i = (if i < length t \<and> P (t ! i) then [Suc i] else [])"
| "ends (Seq a b) t i = concat (map (ends b t) (ends a t i))"
| "ends (Alt a b) t i = ends a t i @ ends b t i"
| "ends (Rep r lo hi) t i = rep_ends (ends r t) (lo + length t + 1) lo hi i"
| "ends WordB t i = (if at_boundary t i then [i] else [])"

text \<open>\<open>re.IGNORECASE\<close>\<close>

primrec ignore_case :: "rx \<Rightarrow> rx" where
  "ignore_case Eps = Eps"
| "ignore_case (Cls P) = Cls (\<lambda>c. P c \<or> P (swap_case c))"
| "ignore_case (Seq a b) = Seq (ignore_case a) (ignore_case b)"
| "ignore_case (Alt a b) = Alt (ignore_case a) (ignore_case b)"
| "ignore_case (Rep r lo hi) = Rep (ignore_case r) lo hi"
| "ignore_case WordB = WordB"

definition one_of :: "string \<Rightarrow> rx" where "one_of s = Cls (\<lambda>c. c \<in> set s)"

definition lit :: "string \<Rightarrow> rx" where "lit s = foldr (\<lambda>c r. Seq (Cls (\<lambda>d. d = c)) r) s Eps"

definition digit :: rx where "digit = Cls is_digit"

definition opt :: "rx \<Rightarrow> rx" where "opt r = Rep r 0 (Some 1)"

definition plus1 :: "rx \<Rightarrow> rx" where "plus1 r = Rep r 1 None"

definition times :: "nat \<Rightarrow> rx \<Rightarrow> rx" where "times n r = Rep r n (Some n)"

definition seqs :: "rx list \<Rightarrow> rx" where "seqs rs = foldr Seq rs Eps"

definition alts :: "rx \<Rightarrow> rx list \<Rightarrow> rx" where "alts r rs = foldl Alt r rs"

section \<open>Scanning\<close>

text \<open>
  The matches of \<open>finditer\<close> from a position on: the first one at the leftmost place; after an
  empty match at a place, the next one there must advance.
\<close>

lemma rep_ends_mono:
  assumes "\<And>i j. j \<in> set (body i) \<Longrightarrow> i \<le> j \<and> (i \<le> n \<longrightarrow> j \<le> n)"
  shows "j \<in> set (rep_ends body fuel lo hi i) \<Longrightarrow> i \<le> j \<and> (i \<le> n \<longrightarrow> j \<le> n)"
proof (induction fuel arbitrary: lo hi i)
  case (Suc fuel)
  show ?case
  proof (cases "j = i")
    case False
    then obtain m lo' hi' where m: "m \<in> set (body i)" "j \<in> set (rep_ends body fuel lo' hi' m)"
      using Suc.prems by (auto split: if_splits)
    have "m \<le> j \<and> (m \<le> n \<longrightarrow> j \<le> n)" using Suc.IH [OF m(2)] .
    with assms [OF m(1)] show ?thesis by auto
  qed simp
qed (simp split: if_splits)

lemma ends_mono: "j \<in> set (ends r t i) \<Longrightarrow> i \<le> j \<and> (i \<le> length t \<longrightarrow> j \<le> length t)"
proof (induction r arbitrary: i j)
  case (Seq a b)
  then obtain m where "m \<in> set (ends a t i)" "j \<in> set (ends b t m)" by auto
  with Seq.IH(1) [of m i] Seq.IH(2) [of j m] show ?case by auto
next
  case (Alt a b)
  then show ?case by auto
next
  case (Rep r lo hi)
  have "j \<in> set (rep_ends (ends r t) (lo + length t + 1) lo hi i)" using Rep.prems by (simp del: rep_ends.simps)
  from rep_ends_mono [OF Rep.IH this] show ?case .
qed (auto split: if_splits)

function finditer_from :: "rx \<Rightarrow> string \<Rightarrow> nat \<Rightarrow> bool \<Rightarrow> (nat \<times> nat) list" where
  "finditer_from r t i adv =
     (if length t < i then []
      else case filter (\<lambda>e. adv \<longrightarrow> e \<noteq> i) (ends r t i) of
          e # _ \<Rightarrow> (i, e) # finditer_from r t e (e = i)
        | [] \<Rightarrow> finditer_from r t (i + 1) False)"
  by pat_completeness auto
termination
proof (relation "measure (\<lambda>(r, t, i, adv). 2 * (length t + 2 - i) - (if adv then 1 else 0))")
  fix r t i adv e and es :: "nat list"
  assume "\<not> length t < i" and f: "filter (\<lambda>e. adv \<longrightarrow> e \<noteq> i) (ends r t i) = e # es"
  have "e \<in> set (filter (\<lambda>e. adv \<longrightarrow> e \<noteq> i) (ends r t i))" using f by simp
  then have "i \<le> e" "e \<le> length t" "adv \<longrightarrow> e \<noteq> i" using ends_mono [of e r t i] \<open>\<not> length t < i\<close> by auto
  with \<open>\<not> length t < i\<close> show "((r, t, e, e = i), (r, t, i, adv)) \<in>
      measure (\<lambda>(r, t, i, adv). 2 * (length t + 2 - i) - (if adv then 1 else 0))" by auto
qed auto

declare finditer_from.simps [simp del]

definition finditer :: "rx \<Rightarrow> string \<Rightarrow> (nat \<times> nat) list" where
  "finditer r t = finditer_from r t 0 False"

section \<open>Facts\<close>

text \<open>Every reported span is a match, inside the text.\<close>

lemma finditer_from_sound:
  "(a, b) \<in> set (finditer_from r t i adv) \<Longrightarrow> i \<le> a \<and> a \<le> b \<and> b \<le> length t \<and> b \<in> set (ends r t a)"
proof (induction r t i adv rule: finditer_from.induct)
  case (1 r t i adv)
  show ?case
  proof (cases "length t < i")
    case True
    with 1(3) show ?thesis by (simp add: finditer_from.simps [of r t i])
  next
    case False
    show ?thesis
    proof (cases "filter (\<lambda>e. adv \<longrightarrow> e \<noteq> i) (ends r t i)")
      case Nil
      with 1(1) [OF False Nil] 1(3) False show ?thesis by (simp add: finditer_from.simps [of r t i])
    next
      case (Cons e es)
      then have "e \<in> set (filter (\<lambda>e. adv \<longrightarrow> e \<noteq> i) (ends r t i))" by simp
      then have "e \<in> set (ends r t i)" by simp
      then have e: "i \<le> e" "e \<le> length t" using ends_mono [of e r t i] False by auto
      from Cons 1(3) False have "(a, b) = (i, e) \<or> (a, b) \<in> set (finditer_from r t e (e = i))"
        by (simp add: finditer_from.simps [of r t i])
      with 1(2) [OF False Cons] e \<open>e \<in> set (ends r t i)\<close> show ?thesis by auto
    qed
  qed
qed

text \<open>The scan finds something exactly if the pattern matches somewhere.\<close>

lemma finditer_from_nonempty:
  assumes "i \<le> j" and "j \<le> length t" and "ends r t j \<noteq> []"
  shows "finditer_from r t i False \<noteq> []"
  using assms
proof (induction "j - i" arbitrary: i)
  case 0
  then have "i = j" by simp
  with 0 show ?case by (cases "ends r t j") (simp_all add: finditer_from.simps [of r t j])
next
  case (Suc n)
  then have "finditer_from r t (Suc i) False \<noteq> []" by simp
  with Suc.prems show ?case by (cases "ends r t i") (simp_all add: finditer_from.simps [of r t i False])
qed

lemma finditer_nonempty_iff: "finditer r t \<noteq> [] \<longleftrightarrow> (\<exists>j \<le> length t. ends r t j \<noteq> [])"
proof
  assume "finditer r t \<noteq> []"
  then obtain a b where "(a, b) \<in> set (finditer_from r t 0 False)"
    by (cases "finditer_from r t 0 False") (auto simp: finditer_def)
  from finditer_from_sound [OF this] show "\<exists>j \<le> length t. ends r t j \<noteq> []"
    by (metis empty_iff empty_set order_trans)
next
  assume "\<exists>j \<le> length t. ends r t j \<noteq> []"
  then show "finditer r t \<noteq> []" using finditer_from_nonempty [of 0] by (auto simp: finditer_def)
qed

text \<open>
  A match that no other match of the pattern overlaps, as far as it is not empty, is reported:
  the scan cannot pass it over for another one.
\<close>

definition isolated_match :: "rx \<Rightarrow> string \<Rightarrow> nat \<Rightarrow> nat \<Rightarrow> bool" where
  "isolated_match r t a b \<longleftrightarrow> a < b \<and> b \<le> length t \<and> b \<in> set (ends r t a) \<and>
     (\<forall>c \<le> length t. \<forall>d \<in> set (ends r t c). c < b \<and> a < d \<longrightarrow> c = a \<and> d = b)"

lemma finditer_from_isolated:
  assumes "isolated_match r t a b"
  shows "i \<le> a \<Longrightarrow> (a, b) \<in> set (finditer_from r t i adv)"
  using assms
proof (induction r t i adv rule: finditer_from.induct)
  case (1 r t i adv)
  note iso = 1(4)[unfolded isolated_match_def]
  have in_text: "\<not> length t < i" using 1(3) iso by simp
  show ?case
  proof (cases "filter (\<lambda>e. adv \<longrightarrow> e \<noteq> i) (ends r t i)")
    case Nil
    have "i \<noteq> a"
    proof
      assume "i = a"
      then have "b \<in> set (filter (\<lambda>e. adv \<longrightarrow> e \<noteq> i) (ends r t i))" using iso by auto
      then show False using Nil by simp
    qed
    then show ?thesis using 1(1) [OF in_text Nil] 1(3,4) Nil in_text by (simp add: finditer_from.simps [of r t i])
  next
    case (Cons e es)
    then have "e \<in> set (filter (\<lambda>e. adv \<longrightarrow> e \<noteq> i) (ends r t i))" by simp
    then have e: "e \<in> set (ends r t i)" by simp
    have step: "finditer_from r t i adv = (i, e) # finditer_from r t e (e = i)"
      using Cons in_text by (simp add: finditer_from.simps [of r t i])
    show ?thesis
    proof (cases "e \<le> a")
      case True
      then show ?thesis using 1(2) [OF in_text Cons _ 1(4)] step by simp
    next
      case False
      then have "i < b" "a < e" "i \<le> length t" using iso in_text 1(3) by auto
      then have "i = a \<and> e = b" using iso e by blast
      then show ?thesis using step by simp
    qed
  qed
qed

lemma finditer_isolated: "isolated_match r t a b \<Longrightarrow> (a, b) \<in> set (finditer r t)"
  by (simp add: finditer_def finditer_from_isolated)

end
