(* ===== verification/Dlp.thy ===== *)
theory Dlp
  imports Regex Json_Text
begin

text \<open>
  \<open>packages/mas-gateway/src/mas_gateway/dlp.py\<close>: detection of sensitive data in a payload, the
  action it leads to, and redaction. Violation types are ASCII text. The compilation of a custom
  pattern's text and SHA-256 are parameters.
\<close>

section \<open>Data\<close>

datatype action_policy = BLOCK | REDACT | ALERT

record violation =
  violation_type :: string
  description :: string
  matched_text :: string
  start_pos :: nat
  end_pos :: nat
  severity :: string

record scan_result =
  clean :: bool
  violations :: "violation list"
  scan_action :: action_policy
  redacted_payload :: "(string \<times> json) list option"
  scan_payload_hash :: string

record dlp_rule =
  rule_id :: string
  rule_violation_type :: string
  rule_pattern :: string
  rule_action :: action_policy
  rule_severity :: string
  rule_description :: string
  rule_enabled :: bool
  rule_case_insensitive :: bool

definition redaction_conflict :: err where
  "redaction_conflict = ValueError ''Redacted payload keys collide''"

record dlp_module =
  dlp_patterns :: "(string \<times> rx list) list"
  dlp_policies :: "(string \<times> action_policy) list"
  severity_levels :: "(string \<times> string) list"

section \<open>Defaults\<close>

definition dash_space :: rx where
  "dash_space = Cls (\<lambda>c. c = CHR ''-'' \<or> space_char c)"

definition colon_space :: rx where
  "colon_space = Cls (\<lambda>c. c = CHR '':'' \<or> space_char c)"

definition spaces1 :: rx where
  "spaces1 = plus1 (Cls space_char)"

definition quote_mark :: rx where
  "quote_mark = one_of [CHR 0x27, CHR 0x22]"

definition ssn_pattern :: rx where
  "ssn_pattern = seqs [WordB, times 3 digit, opt dash_space, times 2 digit, opt dash_space, times 4 digit, WordB]"

definition email_pattern :: rx where
  "email_pattern = seqs [WordB, plus1 (Cls (\<lambda>c. ascii_alnum c \<or> c \<in> set ''._%+-'')), lit ''@'',
     plus1 (Cls (\<lambda>c. ascii_alnum c \<or> c \<in> set ''.-'')), lit ''.'',
     Rep (Cls (\<lambda>c. ascii_upper c \<or> ascii_lower c \<or> c = CHR ''|'')) 2 None, WordB]"

definition phone_sep :: rx where
  "phone_sep = opt (Cls (\<lambda>c. c = CHR ''-'' \<or> c = CHR ''.'' \<or> space_char c))"

definition phone_pattern :: rx where
  "phone_pattern = seqs [WordB, opt (seqs [opt (lit ''+''), lit ''1'', phone_sep]), opt (lit ''(''), times 3 digit,
     opt (lit '')''), phone_sep, times 3 digit, phone_sep, times 4 digit, WordB]"

definition mrn_pattern :: rx where
  "mrn_pattern = ignore_case (seqs [WordB, Alt (lit ''MRN'') (seqs [lit ''Medical'', spaces1, lit ''Record'']),
     plus1 colon_space, Rep digit 6 (Some 10), WordB])"

definition health_insurance_pattern :: rx where
  "health_insurance_pattern = ignore_case (seqs [WordB, Alt (seqs [lit ''Health'', spaces1, lit ''Insurance'']) (lit ''Policy''),
     plus1 (Cls (\<lambda>c. c = CHR '':'' \<or> c = CHR ''#'' \<or> space_char c)), Rep digit 8 (Some 12), WordB])"

definition icd10_pattern :: rx where
  "icd10_pattern = seqs [WordB, Cls ascii_upper, times 2 digit, opt (seqs [lit ''.'', Rep digit 1 (Some 4)]), WordB]"

definition credit_card_pattern :: rx where
  "credit_card_pattern = seqs [WordB,
     alts (seqs [lit ''4'', times 3 digit])
       [seqs [lit ''5'', Cls (code_in 49 53), times 2 digit], seqs [lit ''3'', one_of ''47'', times 2 digit],
        seqs [lit ''6'', Alt (lit ''011'') (seqs [lit ''5'', times 2 digit])]],
     opt dash_space, times 2 (seqs [times 4 digit, opt dash_space]), Rep digit 3 (Some 4), WordB]"

definition cvv_pattern :: rx where
  "cvv_pattern = ignore_case (seqs [WordB, Alt (lit ''CVV'') (lit ''CVC''), plus1 colon_space, Rep digit 3 (Some 4), WordB])"

definition assign_space :: rx where
  "assign_space = Cls (\<lambda>c. c = CHR '':'' \<or> c = CHR ''='' \<or> space_char c)"

definition token_char :: "char \<Rightarrow> bool" where
  "token_char c \<longleftrightarrow> ascii_alnum c \<or> c = CHR ''_'' \<or> c = CHR ''-''"

definition api_key_pattern :: rx where
  "api_key_pattern = ignore_case (seqs [WordB, Alt (seqs [lit ''api'', opt (one_of ''_-''), lit ''key'']) (lit ''apikey''),
     plus1 assign_space, opt quote_mark, Rep (Cls token_char) 32 None, opt quote_mark])"

definition aws_key_pattern :: rx where
  "aws_key_pattern = seqs [WordB, Alt (lit ''AKIA'') (lit ''ASIA''), times 16 (Cls (\<lambda>c. is_digit c \<or> ascii_upper c)), WordB]"

definition private_key_pattern :: rx where
  "private_key_pattern = ignore_case (seqs [lit ''-----BEGIN '', opt (Alt (lit ''RSA '') (lit ''EC '')), lit ''PRIVATE KEY-----''])"

definition jwt_pattern :: rx where
  "jwt_pattern = seqs [WordB, lit ''eyJ'', plus1 (Cls token_char), lit ''.eyJ'', plus1 (Cls token_char), lit ''.'',
     plus1 (Cls token_char), WordB]"

definition password_pattern :: rx where
  "password_pattern = ignore_case (seqs [WordB, alts (lit ''password'') [lit ''passwd'', lit ''pwd''], plus1 assign_space,
     opt quote_mark, Rep (Cls (\<lambda>c. \<not> space_char c \<and> c \<noteq> CHR 0x27 \<and> c \<noteq> CHR 0x22)) 6 None, opt quote_mark])"

definition default_patterns :: "(string \<times> rx list) list" where
  "default_patterns = [(''ssn'', [ssn_pattern]), (''email'', [email_pattern]), (''phone'', [phone_pattern]),
     (''mrn'', [mrn_pattern]), (''health_insurance'', [health_insurance_pattern]), (''icd10'', [icd10_pattern]),
     (''credit_card'', [credit_card_pattern]), (''cvv'', [cvv_pattern]), (''api_key'', [api_key_pattern]),
     (''aws_key'', [aws_key_pattern]), (''private_key'', [private_key_pattern]), (''jwt'', [jwt_pattern]),
     (''password'', [password_pattern])]"

definition default_policies :: "(string \<times> action_policy) list" where
  "default_policies = [(''ssn'', REDACT), (''email'', ALERT), (''phone'', ALERT), (''address'', ALERT), (''mrn'', BLOCK),
     (''health_insurance'', BLOCK), (''icd10'', ALERT), (''credit_card'', BLOCK), (''cvv'', BLOCK), (''api_key'', BLOCK),
     (''aws_key'', BLOCK), (''private_key'', BLOCK), (''jwt'', BLOCK), (''password'', BLOCK)]"

definition default_severities :: "(string \<times> string) list" where
  "default_severities = [(''ssn'', ''high''), (''email'', ''low''), (''phone'', ''low''), (''address'', ''medium''),
     (''mrn'', ''critical''), (''health_insurance'', ''critical''), (''icd10'', ''medium''), (''credit_card'', ''critical''),
     (''cvv'', ''critical''), (''api_key'', ''critical''), (''aws_key'', ''critical''), (''private_key'', ''critical''),
     (''jwt'', ''high''), (''password'', ''critical'')]"

section \<open>DLPModule\<close>

text \<open>One custom rule; \<open>compile\<close> is \<open>_compile_pattern\<close>, which may raise.\<close>

definition add_rule :: "(string \<Rightarrow> bool \<Rightarrow> err + rx) \<Rightarrow> dlp_rule \<Rightarrow> dlp_module \<Rightarrow> err + dlp_module" where
  "add_rule compile rule m =
     (if \<not> rule_enabled rule then Inr m
      else case compile (rule_pattern rule) (rule_case_insensitive rule) of
        Inl e \<Rightarrow> Inl e
      | Inr p \<Rightarrow>
          let ty = rule_violation_type rule;
              old = (case map_of (dlp_patterns m) ty of Some ps \<Rightarrow> ps | None \<Rightarrow> []) in
          Inr (m\<lparr>dlp_patterns := dict_put ty (old @ [p]) (dlp_patterns m),
                 dlp_policies := dict_put ty (rule_action rule) (dlp_policies m),
                 severity_levels := dict_put ty (rule_severity rule) (severity_levels m)\<rparr>))"

primrec add_rules :: "(string \<Rightarrow> bool \<Rightarrow> err + rx) \<Rightarrow> dlp_rule list \<Rightarrow> dlp_module \<Rightarrow> err + dlp_module" where
  "add_rules compile [] m = Inr m"
| "add_rules compile (r # rs) m = (case add_rule compile r m of Inl e \<Rightarrow> Inl e | Inr m' \<Rightarrow> add_rules compile rs m')"

definition enabled_only :: "string list \<Rightarrow> (string \<times> 'a) list \<Rightarrow> (string \<times> 'a) list" where
  "enabled_only disabled d = filter (\<lambda>kv. fst kv \<notin> set disabled) d"

definition dlp_init :: "(string \<Rightarrow> bool \<Rightarrow> err + rx) \<Rightarrow> (string \<times> action_policy) list \<Rightarrow> dlp_rule list \<Rightarrow> string \<Rightarrow> string list \<Rightarrow>
    err + dlp_module" where
  "dlp_init compile custom_policies custom_rules merge_strategy disable_defaults =
     (if merge_strategy \<noteq> ''append'' \<and> merge_strategy \<noteq> ''replace''
      then Inl (ValueError ''merge_strategy must be append or replace'')
      else
        let base = (if merge_strategy = ''append''
              then \<lparr>dlp_patterns = enabled_only disable_defaults default_patterns, dlp_policies = enabled_only disable_defaults default_policies,
                    severity_levels = enabled_only disable_defaults default_severities\<rparr>
              else \<lparr>dlp_patterns = [], dlp_policies = [], severity_levels = []\<rparr>) in
        case add_rules compile custom_rules base of
          Inl e \<Rightarrow> Inl e
        | Inr m \<Rightarrow> Inr (m\<lparr>dlp_policies := fold (\<lambda>kv. dict_put (fst kv) (snd kv)) custom_policies (dlp_policies m)\<rparr>))"

text \<open>The Luhn checksum, right to left, every second digit doubled.\<close>

definition luhn_step :: "nat list \<Rightarrow> nat \<Rightarrow> nat \<Rightarrow> nat" where
  "luhn_step digits i checksum =
     (let d = digits ! i;
          d2 = (if (length digits - i) mod 2 = 0 then (if 2 * d > 9 then 2 * d - 9 else 2 * d) else d) in
      checksum + d2)"

definition validate_luhn :: "string \<Rightarrow> bool" where
  "validate_luhn card_number =
     (if card_number = [] \<or> \<not> list_all is_digit card_number then False
      else let digits = map digit_val card_number in
        fold (luhn_step digits) (rev [0 ..< length digits]) 0 mod 10 = 0)"

definition violation_descriptions :: "(string \<times> string) list" where
  "violation_descriptions = [(''ssn'', ''Social Security Number detected''), (''email'', ''Email address detected''),
     (''phone'', ''Phone number detected''), (''address'', ''Physical address detected''),
     (''mrn'', ''Medical Record Number detected''), (''health_insurance'', ''Health insurance number detected''),
     (''icd10'', ''ICD-10 diagnosis code detected''), (''credit_card'', ''Credit card number detected''),
     (''cvv'', ''CVV code detected''), (''api_key'', ''API key detected''), (''aws_key'', ''AWS access key detected''),
     (''private_key'', ''Private key detected''), (''jwt'', ''JWT token detected''), (''password'', ''Password detected'')]"

definition get_violation_description :: "string \<Rightarrow> string" where
  "get_violation_description ty = (case map_of violation_descriptions ty of Some d \<Rightarrow> d | None \<Rightarrow> ''Violation: '' @ ty)"

definition slice :: "nat \<Rightarrow> nat \<Rightarrow> string \<Rightarrow> string" where
  "slice a b t = drop a (take b t)"

definition strip_separators :: "string \<Rightarrow> string" where
  "strip_separators t = filter (\<lambda>c. c \<noteq> CHR ''-'' \<and> \<not> space_char c) t"

definition make_violation :: "dlp_module \<Rightarrow> string \<Rightarrow> string \<Rightarrow> nat \<times> nat \<Rightarrow> violation" where
  "make_violation m t ty sp =
     \<lparr>violation_type = ty, description = get_violation_description ty, matched_text = slice (fst sp) (snd sp) t,
      start_pos = fst sp, end_pos = snd sp,
      severity = (case map_of (severity_levels m) ty of Some s \<Rightarrow> s | None \<Rightarrow> ''medium'')\<rparr>"

definition counts_as :: "string \<Rightarrow> string \<Rightarrow> nat \<times> nat \<Rightarrow> bool" where
  "counts_as t ty sp \<longleftrightarrow> ty \<noteq> ''credit_card'' \<or> validate_luhn (strip_separators (slice (fst sp) (snd sp) t))"

definition detect_violations :: "dlp_module \<Rightarrow> string \<Rightarrow> violation list" where
  "detect_violations m t =
     concat (map (\<lambda>tp. concat (map (\<lambda>p.
       map (make_violation m t (fst tp)) (filter (counts_as t (fst tp)) (finditer p t))) (snd tp))) (dlp_patterns m))"

text \<open>A violation of the labelled text \<open>label: value\<close>, moved to the value; those inside the label are left out.\<close>

definition relocate :: "nat \<Rightarrow> string \<Rightarrow> violation \<Rightarrow> violation" where
  "relocate n t v =
     (let a = start_pos v - n; b = end_pos v - n in v\<lparr>matched_text := slice a b t, start_pos := a, end_pos := b\<rparr>)"

definition add_contextual :: "nat \<Rightarrow> string \<Rightarrow> violation list \<Rightarrow> violation list \<Rightarrow> violation list" where
  "add_contextual n t contextual vs =
     foldl (\<lambda>acc v. if end_pos v \<le> n then acc
        else let v' = relocate n t v in if v' \<in> set acc then acc else acc @ [v']) vs contextual"

definition scalar_text :: "text_numbers \<Rightarrow> json \<Rightarrow> string" where
  "scalar_text N v = (case v of JStr s \<Rightarrow> s | _ \<Rightarrow> json_dumps N v)"

definition detect_scalar :: "dlp_module \<Rightarrow> string \<Rightarrow> string option \<Rightarrow> violation list" where
  "detect_scalar m t label =
     (let vs = detect_violations m t in
      case label of
        None \<Rightarrow> vs
      | Some l \<Rightarrow>
          let prefix = l @ '': '' in
          add_contextual (length prefix) t (detect_violations m (prefix @ t)) vs)"

fun detect_payload_violations :: "text_numbers \<Rightarrow> dlp_module \<Rightarrow> json \<Rightarrow> string option \<Rightarrow> violation list" where
  "detect_payload_violations N m (JObj kvs) label =
     concat (map (\<lambda>kv. detect_violations m (fst kv) @ detect_payload_violations N m (snd kv) (Some (fst kv))) kvs)"
| "detect_payload_violations N m (JList xs) label = concat (map (\<lambda>x. detect_payload_violations N m x label) xs)"
| "detect_payload_violations N m JNull label = detect_scalar m (scalar_text N JNull) label"
| "detect_payload_violations N m (JBool b) label = detect_scalar m (scalar_text N (JBool b)) label"
| "detect_payload_violations N m (JInt i) label = detect_scalar m (scalar_text N (JInt i)) label"
| "detect_payload_violations N m (JFloat x) label = detect_scalar m (scalar_text N (JFloat x)) label"
| "detect_payload_violations N m (JStr s) label = detect_scalar m (scalar_text N (JStr s)) label"

definition has_policy :: "dlp_module \<Rightarrow> action_policy \<Rightarrow> violation \<Rightarrow> bool" where
  "has_policy m p v \<longleftrightarrow> map_of (dlp_policies m) (violation_type v) = Some p"

definition determine_action :: "dlp_module \<Rightarrow> violation list \<Rightarrow> action_policy" where
  "determine_action m vs =
     (if vs = [] then ALERT
      else case filter (\<lambda>p. list_ex (has_policy m p) vs) [BLOCK, REDACT, ALERT] of
        p # _ \<Rightarrow> p
      | [] \<Rightarrow> ALERT)"

section \<open>Redaction\<close>

definition last4 :: "string \<Rightarrow> string" where
  "last4 t = drop (length t - 4) t"

definition upper_text :: "string \<Rightarrow> string" where
  "upper_text t = map (\<lambda>c. if ascii_lower c then swap_case c else c) t"

text \<open>The part of the text before the first \<open>@\<close>, and the part after it\<close>

definition split_at :: "string \<Rightarrow> string \<times> string" where
  "split_at t = (takeWhile (\<lambda>c. c \<noteq> CHR ''@'') t, drop 1 (dropWhile (\<lambda>c. c \<noteq> CHR ''@'') t))"

definition get_redaction_mask :: "string \<Rightarrow> string \<Rightarrow> err + string" where
  "get_redaction_mask ty t =
     (if ty = ''ssn'' then Inr (if 4 \<le> length t then ''XXX-XX-'' @ last4 t else ''XXX-XX-XXXX'')
      else if ty = ''credit_card'' then
        (let ds = strip_separators t in
         Inr (if 4 \<le> length ds then ''**** **** **** '' @ last4 ds else ''**** **** **** ****''))
      else if ty = ''email'' then
        (if CHR ''@'' \<in> set t then
           (case split_at t of
              ([], domain) \<Rightarrow> Inl IndexError
            | (c # cs, domain) \<Rightarrow> Inr ([c] @ ''***@'' @ domain))
         else Inr ''[REDACTED EMAIL]'')
      else if ty = ''phone'' then
        (let ds = filter is_digit t in
         Inr (if 4 \<le> length ds then ''(XXX) XXX-'' @ last4 ds else ''(XXX) XXX-XXXX''))
      else Inr (''[REDACTED '' @ upper_text ty @ '']''))"

text \<open>\<open>str.replace\<close>: leftmost occurrences that do not overlap; an empty text is found between all characters.\<close>

function replace_all :: "string \<Rightarrow> string \<Rightarrow> string \<Rightarrow> string" where
  "replace_all old new t =
     (if old = [] then new @ concat (map (\<lambda>c. c # new) t)
      else case t of
        [] \<Rightarrow> []
      | c # cs \<Rightarrow> if has_prefix old t then new @ replace_all old new (drop (length old) t)
                  else c # replace_all old new cs)"
  by pat_completeness auto
termination
  by (relation "measure (\<lambda>(old, new, t). length t)") auto

declare replace_all.simps [simp del]

type_synonym replacements = "(string \<times> string) list"

definition redact_text :: "replacements \<Rightarrow> string \<Rightarrow> string" where
  "redact_text rs t = fold (\<lambda>r t. replace_all (fst r) (snd r) t) (sort_key (\<lambda>r. - int (length (fst r))) rs) t"

fun redact_recursive :: "text_numbers \<Rightarrow> replacements \<Rightarrow> json \<Rightarrow> err + json"
and redact_object :: "text_numbers \<Rightarrow> replacements \<Rightarrow> (string \<times> json) list \<Rightarrow> (string \<times> json) list \<Rightarrow> err + (string \<times> json) list"
and redact_list :: "text_numbers \<Rightarrow> replacements \<Rightarrow> json list \<Rightarrow> err + json list" where
  "redact_recursive N rs (JObj kvs) =
     (case redact_object N rs kvs [] of Inl e \<Rightarrow> Inl e | Inr kvs' \<Rightarrow> Inr (JObj kvs'))"
| "redact_recursive N rs (JList xs) =
     (case redact_list N rs xs of Inl e \<Rightarrow> Inl e | Inr xs' \<Rightarrow> Inr (JList xs'))"
| "redact_recursive N rs (JStr s) = Inr (JStr (redact_text rs s))"
| "redact_recursive N rs JNull =
     (let t = json_dumps N JNull; t' = redact_text rs t in Inr (if t = t' then JNull else JStr t'))"
| "redact_recursive N rs (JBool b) =
     (let t = json_dumps N (JBool b); t' = redact_text rs t in Inr (if t = t' then JBool b else JStr t'))"
| "redact_recursive N rs (JInt i) =
     (let t = json_dumps N (JInt i); t' = redact_text rs t in Inr (if t = t' then JInt i else JStr t'))"
| "redact_recursive N rs (JFloat x) =
     (let t = json_dumps N (JFloat x); t' = redact_text rs t in Inr (if t = t' then JFloat x else JStr t'))"
| "redact_object N rs [] acc = Inr acc"
| "redact_object N rs ((k, v) # kvs) acc =
     (let k' = redact_text rs k in
      if k' \<in> fst ` set acc then Inl redaction_conflict
      else case redact_recursive N rs v of
        Inl e \<Rightarrow> Inl e
      | Inr v' \<Rightarrow> redact_object N rs kvs (acc @ [(k', v')]))"
| "redact_list N rs [] = Inr []"
| "redact_list N rs (x # xs) =
     (case redact_recursive N rs x of
        Inl e \<Rightarrow> Inl e
      | Inr x' \<Rightarrow> (case redact_list N rs xs of Inl e \<Rightarrow> Inl e | Inr xs' \<Rightarrow> Inr (x' # xs')))"

primrec build_replacements :: "dlp_module \<Rightarrow> violation list \<Rightarrow> replacements \<Rightarrow> err + replacements" where
  "build_replacements m [] rs = Inr rs"
| "build_replacements m (v # vs) rs =
     (if has_policy m REDACT v then
        (case get_redaction_mask (violation_type v) (matched_text v) of
           Inl e \<Rightarrow> Inl e
         | Inr masked \<Rightarrow> build_replacements m vs (dict_put (matched_text v) masked rs))
      else build_replacements m vs rs)"

definition apply_redaction :: "text_numbers \<Rightarrow> dlp_module \<Rightarrow> (string \<times> json) list \<Rightarrow> violation list \<Rightarrow> err + (string \<times> json) list" where
  "apply_redaction N m payload vs =
     (case build_replacements m vs [] of Inl e \<Rightarrow> Inl e | Inr rs \<Rightarrow> redact_object N rs payload [])"

definition scan :: "text_numbers \<Rightarrow> (string \<Rightarrow> string) \<Rightarrow> dlp_module \<Rightarrow> (string \<times> json) list \<Rightarrow> err + scan_result" where
  "scan N sha m payload =
     (let h = sha (json_dumps N (JObj payload)); vs = detect_payload_violations N m (JObj payload) None in
      if vs = [] then Inr \<lparr>clean = True, violations = [], scan_action = ALERT, redacted_payload = None, scan_payload_hash = h\<rparr>
      else
        let action = determine_action m vs;
            found = (\<lambda>a p. \<lparr>clean = False, violations = vs, scan_action = a, redacted_payload = p, scan_payload_hash = h\<rparr>) in
        if action = REDACT then
          (case apply_redaction N m payload vs of
             Inr p \<Rightarrow> Inr (found REDACT (Some p))
           | Inl e \<Rightarrow> if e = redaction_conflict then Inr (found BLOCK None) else Inl e)
        else Inr (found action None))"

section \<open>Detection\<close>

text \<open>The texts of a payload: every key and every scalar, at any depth.\<close>

fun payload_texts :: "text_numbers \<Rightarrow> json \<Rightarrow> string list" where
  "payload_texts N (JObj kvs) = concat (map (\<lambda>kv. fst kv # payload_texts N (snd kv)) kvs)"
| "payload_texts N (JList xs) = concat (map (payload_texts N) xs)"
| "payload_texts N v = [scalar_text N v]"

text \<open>
  A configured pattern of type \<open>ty\<close> matches somewhere in the text. For a card number it is a match
  with a valid checksum that no other match of the pattern overlaps; in a longer run of digits
  the scanner may settle on another match.
\<close>

definition sensitive :: "dlp_module \<Rightarrow> string \<Rightarrow> string \<Rightarrow> bool" where
  "sensitive m ty t \<longleftrightarrow> (\<exists>ps p. (ty, ps) \<in> set (dlp_patterns m) \<and> p \<in> set ps \<and>
     (if ty = ''credit_card'' then \<exists>a b. isolated_match p t a b \<and> validate_luhn (strip_separators (slice a b t))
      else \<exists>j \<le> length t. ends p t j \<noteq> []))"

lemma sensitive_detected:
  assumes "sensitive m ty t"
  shows "\<exists>v \<in> set (detect_violations m t). violation_type v = ty"
proof -
  obtain ps p where p: "(ty, ps) \<in> set (dlp_patterns m)" "p \<in> set ps"
    and at: "if ty = ''credit_card'' then \<exists>a b. isolated_match p t a b \<and> validate_luhn (strip_separators (slice a b t)) else \<exists>j \<le> length t. ends p t j \<noteq> []"
    using assms by (auto simp: sensitive_def)
  have "\<exists>sp \<in> set (finditer p t). counts_as t ty sp"
  proof (cases "ty = ''credit_card''")
    case True
    then show ?thesis using at finditer_isolated by (force simp: counts_as_def)
  next
    case False
    then have "finditer p t \<noteq> []" using at by (simp add: finditer_nonempty_iff)
    then show ?thesis using False by (cases "finditer p t") (auto simp: counts_as_def)
  qed
  then show ?thesis using p by (force simp: detect_violations_def make_violation_def)
qed

lemma add_contextual_keeps: "set vs \<subseteq> set (add_contextual n t cs vs)"
proof -
  have "set vs \<subseteq> set (foldl (\<lambda>acc v. if end_pos v \<le> n then acc
      else let v' = relocate n t v in if v' \<in> set acc then acc else acc @ [v']) vs cs)"
    by (induction cs arbitrary: vs) (auto simp: Let_def, metis (no_types, lifting) Un_iff set_append subsetD)
  then show ?thesis by (simp only: add_contextual_def)
qed

lemma detect_scalar_keeps: "set (detect_violations m t) \<subseteq> set (detect_scalar m t label)"
  using add_contextual_keeps by (auto simp: detect_scalar_def Let_def split: option.splits)

lemma detect_covers:
  "t \<in> set (payload_texts N v) \<Longrightarrow> set (detect_violations m t) \<subseteq> set (detect_payload_violations N m v label)"
proof (induction N v arbitrary: label rule: payload_texts.induct)
  case (1 N kvs)
  then obtain kv where kv: "kv \<in> set kvs" "t = fst kv \<or> t \<in> set (payload_texts N (snd kv))" by auto
  then show ?case
  proof (cases "t = fst kv")
    case False
    with kv have "set (detect_violations m t) \<subseteq> set (detect_payload_violations N m (snd kv) (Some (fst kv)))"
      using 1(1) by blast
    with kv(1) show ?thesis by fastforce
  qed auto
next
  case (2 N xs)
  then obtain x where x: "x \<in> set xs" "t \<in> set (payload_texts N x)" by auto
  with 2(1) [OF this] show ?case by fastforce
qed (use detect_scalar_keeps in auto)

lemma detect_sensitive:
  assumes "t \<in> set (payload_texts N v)" and "sensitive m ty t"
  shows "\<exists>x \<in> set (detect_payload_violations N m v label). violation_type x = ty"
  using sensitive_detected [OF assms(2)] detect_covers [OF assms(1)] by (metis (no_types, lifting) subsetD)

lemma determine_action_block: "\<exists>v \<in> set vs. has_policy m BLOCK v \<Longrightarrow> determine_action m vs = BLOCK"
  by (auto simp: determine_action_def list_ex_iff)

lemma determine_action_redact: "\<exists>v \<in> set vs. has_policy m REDACT v \<Longrightarrow> determine_action m vs \<noteq> ALERT"
  by (auto simp: determine_action_def list_ex_iff)

section \<open>The Luhn checksum\<close>

definition luhn_weight :: "nat \<Rightarrow> nat \<Rightarrow> nat \<Rightarrow> nat" where
  "luhn_weight n i d = (if (n - i) mod 2 = 0 then (if 2 * d > 9 then 2 * d - 9 else 2 * d) else d)"

lemma luhn_fold:
  "fold (luhn_step ds) is c = c + sum_list (map (\<lambda>i. luhn_weight (length ds) i (ds ! i)) is)"
  by (induction "is" arbitrary: c) (simp_all add: luhn_step_def luhn_weight_def Let_def)

lemma luhn_sum:
  "fold (luhn_step ds) (rev [0 ..< length ds]) 0 = (\<Sum>i < length ds. luhn_weight (length ds) i (ds ! i))"
  by (simp add: luhn_fold rev_map [symmetric] sum_list_rev interv_sum_list_conv_sum_set_nat atLeast0LessThan)

lemma luhn_weight_inj:
  assumes "luhn_weight n i a mod 10 = luhn_weight n i b mod 10" and "a \<le> 9" and "b \<le> 9"
  shows "a = b"
proof -
  have lt: "luhn_weight n i x < 10" if "x \<le> 9" for x using that by (auto simp: luhn_weight_def)
  have "luhn_weight n i a = luhn_weight n i b"
    using assms(1) lt [OF assms(2)] lt [OF assms(3)] by simp
  then show ?thesis using assms(2,3) by (simp add: luhn_weight_def split: if_splits) presburger+
qed

lemma mod10_cancel: "(a + r) mod 10 = (b + r) mod 10 \<Longrightarrow> a mod 10 = (b mod 10 :: nat)"
proof -
  assume "(a + r) mod 10 = (b + r) mod 10"
  then have "(int a + int r) mod 10 = (int b + int r) mod 10" by (metis of_nat_add of_nat_numeral zmod_int)
  from mod_diff_cong [OF this refl, of "int r"] have "int a mod 10 = int b mod 10" by simp
  then show ?thesis by (metis of_nat_eq_iff of_nat_numeral zmod_int)
qed

lemma luhn_sum_update:
  assumes "i < length ds" and "ds ! i \<le> 9" and "d \<le> 9" and "d \<noteq> ds ! i"
  shows "(\<Sum>j < length ds. luhn_weight (length ds) j (ds[i := d] ! j)) mod 10
    \<noteq> (\<Sum>j < length ds. luhn_weight (length ds) j (ds ! j)) mod 10"
proof
  let ?n = "length ds"
  let ?rest = "\<Sum>j \<in> {..< ?n} - {i}. luhn_weight ?n j (ds ! j)"
  assume eq: "(\<Sum>j < ?n. luhn_weight ?n j (ds[i := d] ! j)) mod 10 = (\<Sum>j < ?n. luhn_weight ?n j (ds ! j)) mod 10"
  have "(\<Sum>j < ?n. luhn_weight ?n j (ds ! j)) = luhn_weight ?n i (ds ! i) + ?rest"
    using assms(1) by (simp add: sum.remove)
  moreover have "(\<Sum>j < ?n. luhn_weight ?n j (ds[i := d] ! j)) = luhn_weight ?n i d + ?rest"
  proof -
    have "(\<Sum>j < ?n. luhn_weight ?n j (ds[i := d] ! j)) =
        luhn_weight ?n i (ds[i := d] ! i) + (\<Sum>j \<in> {..< ?n} - {i}. luhn_weight ?n j (ds[i := d] ! j))"
      using assms(1) by (simp add: sum.remove)
    moreover have "(\<Sum>j \<in> {..< ?n} - {i}. luhn_weight ?n j (ds[i := d] ! j)) = ?rest"
      by (rule sum.cong) auto
    ultimately show ?thesis using assms(1) by simp
  qed
  ultimately have "luhn_weight ?n i d mod 10 = luhn_weight ?n i (ds ! i) mod 10"
    using eq mod10_cancel by metis
  with luhn_weight_inj assms show False by blast
qed

section \<open>Structure of a redacted payload\<close>

text \<open>
  Objects keep their fields in order, each under the redacted key, and lists their items; a
  string is redacted, and any other scalar stays as it is, unless its text holds something to
  redact: then the redacted text takes its place.
\<close>

fun same_shape :: "text_numbers \<Rightarrow> replacements \<Rightarrow> json \<Rightarrow> json \<Rightarrow> bool"
and same_fields :: "text_numbers \<Rightarrow> replacements \<Rightarrow> (string \<times> json) list \<Rightarrow> (string \<times> json) list \<Rightarrow> bool"
and same_items :: "text_numbers \<Rightarrow> replacements \<Rightarrow> json list \<Rightarrow> json list \<Rightarrow> bool" where
  "same_shape N rs (JObj kvs) w = (case w of JObj kvs' \<Rightarrow> distinct (map fst kvs') \<and> same_fields N rs kvs kvs' | _ \<Rightarrow> False)"
| "same_shape N rs (JList xs) w = (case w of JList ys \<Rightarrow> same_items N rs xs ys | _ \<Rightarrow> False)"
| "same_shape N rs (JStr s) w = (w = JStr (redact_text rs s))"
| "same_shape N rs v w = (if redact_text rs (json_dumps N v) = json_dumps N v then w = v else w = JStr (redact_text rs (json_dumps N v)))"
| "same_fields N rs [] ys = (ys = [])"
| "same_fields N rs (kv # kvs) ys =
     (case ys of y # ys' \<Rightarrow> fst y = redact_text rs (fst kv) \<and> same_shape N rs (snd kv) (snd y) \<and> same_fields N rs kvs ys' | [] \<Rightarrow> False)"
| "same_items N rs [] ys = (ys = [])"
| "same_items N rs (x # xs) ys = (case ys of y # ys' \<Rightarrow> same_shape N rs x y \<and> same_items N rs xs ys' | [] \<Rightarrow> False)"

lemma redact_shape:
  "redact_recursive N rs v = Inr w \<Longrightarrow> same_shape N rs v w"
  "redact_object N rs kvs acc = Inr out \<Longrightarrow> distinct (map fst acc) \<Longrightarrow>
     distinct (map fst out) \<and> (\<exists>new. out = acc @ new \<and> same_fields N rs kvs new)"
  "redact_list N rs xs = Inr ys \<Longrightarrow> same_items N rs xs ys"
proof (induction N rs v and N rs kvs acc and N rs xs arbitrary: w and out and ys
    rule: redact_recursive_redact_object_redact_list.induct)
  case (1 N rs kvs)
  then show ?case by (auto split: sum.splits)
next
  case (9 N rs k v kvs acc)
  obtain v' where v': "redact_recursive N rs v = Inr v'" and fresh: "redact_text rs k \<notin> fst ` set acc"
    and rest: "redact_object N rs kvs (acc @ [(redact_text rs k, v')]) = Inr out"
    using 9(3) by (auto simp: Let_def split: if_splits sum.splits)
  have "distinct (map fst (acc @ [(redact_text rs k, v')]))" using 9(4) fresh by simp
  from 9(2) [OF refl fresh v' rest this] obtain new where
    "distinct (map fst out)" "out = acc @ (redact_text rs k, v') # new" "same_fields N rs kvs new" by auto
  with 9(1) [OF refl fresh v'] show ?case by (auto intro!: exI [of _ "(redact_text rs k, v') # new"])
qed (auto simp: Let_def split: sum.splits if_splits)

text \<open>Some object of the value, at any depth, has two fields whose keys become the same.\<close>

fun key_collision :: "replacements \<Rightarrow> json \<Rightarrow> bool" where
  "key_collision rs (JObj kvs) \<longleftrightarrow> \<not> distinct (map (\<lambda>kv. redact_text rs (fst kv)) kvs) \<or> list_ex (\<lambda>kv. key_collision rs (snd kv)) kvs"
| "key_collision rs (JList xs) \<longleftrightarrow> list_ex (key_collision rs) xs"
| "key_collision rs v \<longleftrightarrow> False"

lemma redact_collides:
  "(\<exists>e. redact_recursive N rs v = Inl e) \<longleftrightarrow> key_collision rs v"
  "distinct (map fst acc) \<Longrightarrow> (\<exists>e. redact_object N rs kvs acc = Inl e) \<longleftrightarrow>
     \<not> distinct (map fst acc @ map (\<lambda>kv. redact_text rs (fst kv)) kvs) \<or> list_ex (\<lambda>kv. key_collision rs (snd kv)) kvs"
  "(\<exists>e. redact_list N rs xs = Inl e) \<longleftrightarrow> list_ex (key_collision rs) xs"
proof (induction N rs v and N rs kvs acc and N rs xs rule: redact_recursive_redact_object_redact_list.induct)
  case (9 N rs k v kvs acc)
  show ?case
  proof (cases "redact_text rs k \<in> fst ` set acc")
    case True
    then show ?thesis by (auto simp: Let_def)
  next
    case fresh: False
    show ?thesis
    proof (cases "redact_recursive N rs v")
      case (Inl e)
      then show ?thesis using 9(1) [OF refl fresh] fresh by (auto simp: Let_def)
    next
      case (Inr v')
      have "distinct (map fst (acc @ [(redact_text rs k, v')]))" using 9(3) fresh by simp
      from 9(2) [OF refl fresh Inr this] 9(1) [OF refl fresh] show ?thesis using Inr fresh by (auto simp: Let_def)
    qed
  qed
qed (auto simp: Let_def split: sum.splits)

lemma redact_errors:
  "redact_recursive N rs v = Inl e \<Longrightarrow> e = redaction_conflict"
  "redact_object N rs kvs acc = Inl e \<Longrightarrow> e = redaction_conflict"
  "redact_list N rs xs = Inl e \<Longrightarrow> e = redaction_conflict"
  by (induction N rs v and N rs kvs acc and N rs xs rule: redact_recursive_redact_object_redact_list.induct)
     (auto simp: Let_def split: sum.splits if_splits)

lemma build_replacements_error:
  "build_replacements m vs rs = Inl e \<Longrightarrow>
   e = IndexError \<and> (\<exists>v \<in> set vs. violation_type v = ''email'' \<and> has_policy m REDACT v \<and> (\<exists>t. matched_text v = CHR ''@'' # t))"
proof (induction vs arbitrary: rs)
  case (Cons v vs)
  have mask_err: "get_redaction_mask ty t = Inl e' \<Longrightarrow> e' = IndexError \<and> ty = ''email'' \<and> (\<exists>t'. t = CHR ''@'' # t')" for ty t e'
    by (cases t) (auto simp: get_redaction_mask_def split_at_def Let_def split: if_splits list.splits prod.splits)
  from Cons show ?case by (auto split: if_splits sum.splits dest!: mask_err)
qed simp

section \<open>Properties\<close>


definition default_dlp :: dlp_module where
  "default_dlp = \<lparr>dlp_patterns = default_patterns, dlp_policies = default_policies, severity_levels = default_severities\<rparr>"

definition example_payload :: "(string \<times> json) list" where
  "example_payload = [(''note'', JList [JStr ''cvv: 123''])]"


text \<open>
  The checksum test is the Luhn checksum's: it rejects every number that differs from a valid
  one in exactly one digit.
\<close>

theorem luhn_detects_single_error:
  assumes "validate_luhn s" and "i < length s" and "is_digit c" and "c \<noteq> s ! i"
  shows "\<not> validate_luhn (s[i := c])"
proof -
  have digits: "list_all is_digit s" using assms(1) by (simp add: validate_luhn_def split: if_splits)
  have dv: "is_digit x \<Longrightarrow> is_digit y \<Longrightarrow> digit_val x = digit_val y \<Longrightarrow> x = y" "is_digit x \<Longrightarrow> digit_val x \<le> 9" for x y
    by (auto simp: is_digit_def digit_val_def eq_diff_iff dest: of_char_eq_iff [THEN iffD1])
  let ?ds = "map digit_val s"
  have si: "is_digit (s ! i)" using digits assms(2) by (simp add: list_all_length)
  have "(\<Sum>j < length ?ds. luhn_weight (length ?ds) j (?ds[i := digit_val c] ! j)) mod 10
      \<noteq> (\<Sum>j < length ?ds. luhn_weight (length ?ds) j (?ds ! j)) mod 10"
    using assms dv si by (intro luhn_sum_update) auto
  moreover have "(\<Sum>j < length ?ds. luhn_weight (length ?ds) j (?ds ! j)) mod 10 = 0"
    using assms(1) luhn_sum [of ?ds] by (simp add: validate_luhn_def Let_def split: if_splits)
  ultimately show ?thesis
    using luhn_sum [of "map digit_val (s[i := c])"] by (simp add: validate_luhn_def Let_def map_update)
qed

theorem luhn_detects_single_error_witness: "\<not> validate_luhn ''4111111111111112''"
proof -
  have "validate_luhn ''4111111111111111''"
    by code_simp
  from luhn_detects_single_error [OF this, of 15 "CHR ''2''"] show ?thesis
    by (simp add: is_digit_def)
qed

text \<open>
  C38. Redaction loses no field: when the violations of a payload call for redaction, the scan
  passes on a payload with the fields and items of the original in the same places, every key
  and string redacted and every other scalar kept or, if its text holds something to redact,
  replaced by its redacted text, with distinct keys in every object; but if two keys of one
  object, at any depth, become the same, it blocks the message instead, and only then. The scan
  fails only on an email violation with policy REDACT whose text begins with an at sign.
\<close>

theorem redaction_keeps_structure:
  "let vs = detect_payload_violations N m (JObj payload) None in
   case scan N sha m payload of
      Inr r \<Rightarrow> (scan_action r = REDACT \<longleftrightarrow> redacted_payload r \<noteq> None) \<and>
        (determine_action m vs = REDACT \<longrightarrow> (\<exists>rs. build_replacements m vs [] = Inr rs \<and>
           (if key_collision rs (JObj payload) then scan_action r = BLOCK
            else scan_action r = REDACT \<and> (\<exists>p. redacted_payload r = Some p \<and> same_shape N rs (JObj payload) (JObj p))))) \<and>
        (determine_action m vs \<noteq> REDACT \<longrightarrow> scan_action r = determine_action m vs)
    | Inl e \<Rightarrow> e = IndexError \<and> (\<exists>v \<in> set vs. violation_type v = ''email'' \<and> has_policy m REDACT v \<and> (\<exists>t. matched_text v = CHR ''@'' # t))"
proof -
  let ?vs = "detect_payload_violations N m (JObj payload) None"
  note dels = detect_payload_violations.simps same_shape.simps key_collision.simps
  show ?thesis
  proof (cases "?vs = [] \<or> determine_action m ?vs \<noteq> REDACT")
    case True
    then show ?thesis by (auto simp: scan_def Let_def determine_action_def [of m "[]"] simp del: dels)
  next
    case False
    show ?thesis
    proof (cases "build_replacements m ?vs []")
      case (Inl e)
      then have "apply_redaction N m payload ?vs = Inl e" by (simp add: apply_redaction_def del: dels)
      then show ?thesis using False build_replacements_error [OF Inl]
        by (auto simp: scan_def Let_def redaction_conflict_def simp del: dels)
    next
      case (Inr rs)
      have redacts: "apply_redaction N m payload ?vs = redact_object N rs payload []" using Inr by (simp add: apply_redaction_def del: dels)
      have coll: "(\<exists>e. redact_object N rs payload [] = Inl e) \<longleftrightarrow> key_collision rs (JObj payload)"
        using redact_collides(2) [of "[]" N rs payload] by simp
      show ?thesis
      proof (cases "redact_object N rs payload []")
        case (Inl e)
        moreover from this have "e = redaction_conflict" by (rule redact_errors(2))
        ultimately show ?thesis using False Inr redacts coll by (auto simp: scan_def Let_def simp del: dels)
      next
        case p: (Inr p)
        then have "same_shape N rs (JObj payload) (JObj p)" using redact_shape(2) [OF p] by (auto simp del: dels(1))
        with p False Inr redacts coll show ?thesis by (auto simp: scan_def Let_def simp del: dels)
      qed
    qed
  qed
qed

definition tiny_dlp :: dlp_module where
  "tiny_dlp = \<lparr>dlp_patterns = [(''x'', [lit ''b''])], dlp_policies = [(''x'', REDACT)], severity_levels = []\<rparr>"

text \<open>One payload whose two keys stay apart under redaction, and one whose keys become the same.\<close>

theorem redaction_keeps_structure_witness:
  "(\<exists>r p. scan decimal_numbers (\<lambda>t. []) tiny_dlp [(''k'', JStr ''abc''), (''b'', JNull)] = Inr r \<and> redacted_payload r = Some p) \<and>
   (\<exists>r. scan decimal_numbers (\<lambda>t. []) tiny_dlp [(''[REDACTED X]'', JNull), (''b'', JNull)] = Inr r \<and> scan_action r = BLOCK)"
proof
  let ?p = "[(''k'', JStr ''abc''), (''b'', JNull)]" and ?q = "[(''[REDACTED X]'', JNull), (''b'', JNull)]"
  let ?scan = "scan decimal_numbers (\<lambda>t. []) tiny_dlp"
  have "(case ?scan ?p of Inr r \<Rightarrow> scan_action r = REDACT | Inl e \<Rightarrow> False)" by code_simp
  then obtain r where r: "?scan ?p = Inr r" "scan_action r = REDACT" by (cases "?scan ?p") auto
  from redaction_keeps_structure [where N = decimal_numbers and sha = "\<lambda>t. []" and m = tiny_dlp and payload = ?p] r
  show "\<exists>r p. ?scan ?p = Inr r \<and> redacted_payload r = Some p"
    by (auto simp: Let_def simp del: same_shape.simps detect_payload_violations.simps)
  have "(case ?scan ?q of Inr r \<Rightarrow> scan_action r = BLOCK | Inl e \<Rightarrow> False)" by code_simp
  then show "\<exists>r. ?scan ?q = Inr r \<and> scan_action r = BLOCK" by (cases "?scan ?q") auto
qed

text \<open>
  A card number that follows another group of digits is missed: the pattern takes the first
  four groups as a card, whose checksum is wrong, and the scan goes on behind them, although
  the last four groups are a card with a valid checksum.
\<close>

theorem overlapping_card_missed:
  "24 \<in> set (ends credit_card_pattern ''4000-4111-1111-1111-1111'' 5) \<and>
   validate_luhn (strip_separators (slice 5 24 ''4000-4111-1111-1111-1111'')) \<and>
   filter (\<lambda>v. violation_type v = ''credit_card'') (detect_violations default_dlp ''4000-4111-1111-1111-1111'') = []"
proof -
  have "24 \<in> set (ends credit_card_pattern ''4000-4111-1111-1111-1111'' 5)" by code_simp
  moreover have "validate_luhn (strip_separators (slice 5 24 ''4000-4111-1111-1111-1111''))" by code_simp
  moreover have "filter (counts_as ''4000-4111-1111-1111-1111'' ''credit_card'') (finditer credit_card_pattern ''4000-4111-1111-1111-1111'') = []"
    by code_simp
  then have "filter (\<lambda>v. violation_type v = ''credit_card'') (detect_violations default_dlp ''4000-4111-1111-1111-1111'') = []"
    by (simp add: detect_violations_def default_dlp_def default_patterns_def make_violation_def comp_def)
  ultimately show ?thesis by blast
qed

end
