(* ===== verification/Policy.thy ===== *)
theory Policy
  imports Audit_Log Authorization Rate_Limit Circuit_Breaker Dlp
begin

text \<open>
  \<open>packages/mas-server/src/mas_server/policy.py\<close>: the pipeline every message passes. It is
  authorized, counted against the limits of its sender, checked against the circuit of its
  target, scanned, audited and routed, and a refusal is audited before it is raised. What
  other clients do between the steps, clock readings and drawn identifiers are arguments.
\<close>

section \<open>Data\<close>

record policy_pipeline =
  po_rbac :: bool
  po_limits :: rate_limits
  po_circuit :: "circuit_config option"
  po_shared_pool :: bool
  po_dlp :: "dlp_module option"
  po_audit :: audit_module
  po_router :: router
  po_router_target :: commit_target

record 'db gateway =
  gw_service :: "'db audit_service"
  gw_hints :: role_hints

text \<open>
  What happens around one message. A gap is a point where the coroutine waits: others change
  the storage, the connection fails or the task is cancelled.
\<close>

record 'db ingest_env =
  ie_authz :: "nat \<Rightarrow> 'db \<Rightarrow> 'db"
  ie_gap :: "nat \<Rightarrow> ('db, unit) io"
  ie_rate_clock :: real
  ie_uid :: string
  ie_circuit_clock :: real
  ie_recheck_clock :: real
  ie_attempts :: "'db attempt list"
  ie_latency :: real
  ie_plan :: "'db audit_plan"

datatype verdict =
    Refused string "string list" err
  | Passed string "string list" envelope

abbreviation gw_db :: "'db gateway \<Rightarrow> 'db" where
  "gw_db g \<equiv> aw_db (sv_world (gw_service g))"

definition put_db :: "'db \<Rightarrow> 'db gateway \<Rightarrow> 'db gateway" where
  "put_db db g = g\<lparr>gw_service := (gw_service g)\<lparr>sv_world := (sv_world (gw_service g))\<lparr>aw_db := db\<rparr>\<rparr>\<rparr>"

definition on_store :: "('db, 'a) io \<Rightarrow> ('db gateway, 'a) task" where
  "on_store m g = (case m (gw_db g) of (r, db) \<Rightarrow> Some (r, put_db db g))"

definition on_store_task :: "('db, 'a) task \<Rightarrow> ('db gateway, 'a) task" where
  "on_store_task m g = map_option (\<lambda>(r, db). (r, put_db db g)) (m (gw_db g))"

definition on_service :: "('db audit_service, 'a) task \<Rightarrow> ('db gateway, 'a) task" where
  "on_service m g = map_option (\<lambda>(r, sv). (r, g\<lparr>gw_service := sv\<rparr>)) (m (gw_service g))"

abbreviation po_numbers :: "policy_pipeline \<Rightarrow> text_numbers" where
  "po_numbers P \<equiv> am_numbers (po_audit P)"

section \<open>The checks\<close>

definition check_authorized :: "policy_pipeline \<Rightarrow> 'db redis \<Rightarrow> 'db ingest_env \<Rightarrow> envelope \<Rightarrow> ('db gateway, bool) task" where
  "check_authorized P R env m g =
     (case authorize R (ie_authz env) (po_rbac P) (sender_id m) (target_id m) ''send'' (gw_hints g) (gw_db g) of
        (r, hints, db) \<Rightarrow> Some (r, put_db db (g\<lparr>gw_hints := hints\<rparr>)))"

text \<open>Both admission checks on one connection: the circuit is read in the same round trip.\<close>

definition admission_replies :: "policy_pipeline \<Rightarrow> 'db redis \<Rightarrow> 'db ingest_env \<Rightarrow> envelope \<Rightarrow> ('db, (err + reply) \<times> (err + reply)) io" where
  "admission_replies P R env m =
     bindio (of_result (queue_check (po_numbers P) R (po_limits P) (ie_rate_clock env) (ie_uid env) (sender_id m) (message_id m) plain_pipe)) (\<lambda>queued.
     bindio (of_result (circuit_queue_check R (target_id m) queued)) (\<lambda>pipeline.
     bindio (PIPELINE R (command_stack pipeline)) (\<lambda>replies.
     case replies of
       [raw_rate, raw_circuit] \<Rightarrow> ret (raw_rate, raw_circuit)
     | _ \<Rightarrow> raise ValidationError)))"

definition check_admission :: "policy_pipeline \<Rightarrow> 'db redis \<Rightarrow> 'db ingest_env \<Rightarrow> envelope \<Rightarrow>
    ('db, rate_limit_result \<times> circuit_status option) task" where
  "check_admission P R env m =
     (case (po_circuit P, po_shared_pool P) of
        (Some cfg, True) \<Rightarrow>
          bindt (liftt (admission_replies P R env m)) (\<lambda>(raw_rate, raw_circuit).
          bindt (liftt (of_result (case raw_rate of Inl e \<Rightarrow> Inl e | Inr raw \<Rightarrow> parse_result (po_numbers P) raw))) (\<lambda>rate.
          if rl_allowed rate
          then bindt (resolve_check (po_numbers P) R cfg raw_circuit (target_id m) (ie_circuit_clock env) (ie_recheck_clock env) (ie_attempts env))
                 (\<lambda>status. liftt (ret (rate, Some status)))
          else liftt (ret (rate, None))))
      | _ \<Rightarrow> bindt (liftt (check_rate_limit (po_numbers P) R (po_limits P) (ie_rate_clock env) (ie_uid env) (sender_id m) (message_id m)))
               (\<lambda>rate. liftt (ret (rate, None))))"

definition circuit_admits :: "policy_pipeline \<Rightarrow> 'db redis \<Rightarrow> 'db ingest_env \<Rightarrow> envelope \<Rightarrow> circuit_status option \<Rightarrow> ('db, bool) task" where
  "circuit_admits P R env m status =
     (case (po_circuit P, status) of
        (None, _) \<Rightarrow> liftt (ret True)
      | (Some cfg, Some st) \<Rightarrow> liftt (ret (cs_allowed st))
      | (Some cfg, None) \<Rightarrow>
          bindt (liftt (ie_gap env 1)) (\<lambda>_.
          bindt (check_circuit (po_numbers P) R cfg (target_id m) (ie_circuit_clock env) (ie_attempts env))
            (\<lambda>st. liftt (ret (cs_allowed st)))))"

definition inspect :: "policy_pipeline \<Rightarrow> envelope \<Rightarrow> err + verdict" where
  "inspect P m =
     (case po_dlp P of
        None \<Rightarrow> Inr (Passed ''ALLOWED'' [] m)
      | Some dlp \<Rightarrow>
          (case scan (po_numbers P) (am_sha (po_audit P)) dlp (env_data m) of
             Inl e \<Rightarrow> Inl e
           | Inr result \<Rightarrow>
               if clean result then Inr (Passed ''ALLOWED'' [] m)
               else let found = map violation_type (violations result) in
                 case scan_action result of
                   BLOCK \<Rightarrow> Inr (Refused ''DLP_BLOCKED'' found (PermissionDeniedError ''dlp_blocked''))
                 | ALERT \<Rightarrow> Inr (Passed ''ALERT'' found m)
                 | REDACT \<Rightarrow> Inr (Passed ''DLP_REDACTED'' found
                     (case redacted_payload result of None \<Rightarrow> m | Some p \<Rightarrow> m\<lparr>env_data := p\<rparr>))))"

definition policy_check :: "policy_pipeline \<Rightarrow> 'db redis \<Rightarrow> 'db ingest_env \<Rightarrow> envelope \<Rightarrow> ('db gateway, verdict) task" where
  "policy_check P R env m =
     bindt (check_authorized P R env m) (\<lambda>authorized.
     if \<not> authorized
     then liftt (ret (Refused ''AUTHZ_DENIED'' [''authorization_denied''] (PermissionDeniedError ''not_authorized'')))
     else bindt (on_store (ie_gap env 0)) (\<lambda>_.
     bindt (on_store_task (check_admission P R env m)) (\<lambda>(rate, status).
     if \<not> rl_allowed rate
     then liftt (ret (Refused ''RATE_LIMITED'' [''rate_limit_exceeded''] (ResourceExhaustedError ''rate_limited'')))
     else bindt (on_store_task (circuit_admits P R env m status)) (\<lambda>closed.
     if \<not> closed
     then liftt (ret (Refused ''CIRCUIT_OPEN'' [''circuit_open''] (FailedPreconditionError ''circuit_open'')))
     else liftt (of_result (inspect P m))))))"

section \<open>Audit and routing\<close>

definition atomic_enqueue :: "policy_pipeline \<Rightarrow> bool" where
  "atomic_enqueue P \<longleftrightarrow> compatible_with (am_target (po_audit P)) (po_router_target P)"

definition audit_decision :: "policy_pipeline \<Rightarrow> 'db redis \<Rightarrow> 'db ingest_env \<Rightarrow> envelope \<Rightarrow> string \<Rightarrow> string list \<Rightarrow> stream_append option \<Rightarrow>
    ('db audit_service, string) task" where
  "audit_decision P R env m decision found eff =
     log_message (po_audit P) R (ie_plan env) (message_id m) (sender_id m) (target_id m) decision (ie_latency env) (env_data m) found
       (Some (message_type m)) (correlation_id (env_meta m)) (sender_instance_id (env_meta m)) eff"

definition release :: "policy_pipeline \<Rightarrow> wire \<Rightarrow> envelope \<Rightarrow> correlation_commit option \<Rightarrow> err + stream_append option" where
  "release P W m correlation =
     (if atomic_enqueue P \<and> correlation = None \<and> \<not> is_reply (env_meta m)
      then map_sum id Some (prepare_stream_append W m) else Inr None)"

definition deliver_passed :: "policy_pipeline \<Rightarrow> wire \<Rightarrow> 'db redis \<Rightarrow> envelope \<Rightarrow> correlation_commit option \<Rightarrow> stream_append option \<Rightarrow>
    ('db, string) io" where
  "deliver_passed P W R m correlation eff =
     (case correlation of
        Some c \<Rightarrow> commit_reply W R (po_router P) m c
      | None \<Rightarrow> seqio (if eff = None then route_message W R (po_router P) m else ret ()) (ret (message_id m)))"

definition ingest_and_route :: "policy_pipeline \<Rightarrow> wire \<Rightarrow> 'db redis \<Rightarrow> 'db ingest_env \<Rightarrow> envelope \<Rightarrow> correlation_commit option \<Rightarrow>
    ('db gateway, string) task" where
  "ingest_and_route P W R env m correlation =
     bindt (policy_check P R env m) (\<lambda>v.
     case v of
       Refused decision found e \<Rightarrow>
         bindt (on_service (audit_decision P R env m decision found None)) (\<lambda>_. liftt (raise e))
     | Passed decision found m' \<Rightarrow>
         bindt (liftt (of_result (release P W m' correlation))) (\<lambda>eff.
         bindt (on_service (audit_decision P R env m' decision found eff)) (\<lambda>_.
         bindt (on_store (ie_gap env 2)) (\<lambda>_.
         on_store (deliver_passed P W R m' correlation eff)))))"

definition policy_replay_reply :: "policy_pipeline \<Rightarrow> wire \<Rightarrow> 'db redis \<Rightarrow> string \<Rightarrow> string \<Rightarrow> string \<Rightarrow> ('db gateway, string option) task" where
  "policy_replay_reply P W R cid sender fingerprint = on_store (replay_reply W R (po_router P) cid sender fingerprint)"

section \<open>The policy as a function of the storage\<close>

text \<open>
  Without interference, a verdict is a function of the storage at the start: the policy of
  the sender, the requests in its two windows, the circuit of the target, and the payload.
\<close>

definition under_limits :: "text_numbers \<Rightarrow> rate_limits \<Rightarrow> string \<Rightarrow> real \<Rightarrow> keyspace \<Rightarrow> bool" where
  "under_limits N df a now ks \<longleftrightarrow> (\<exists>m h. limits_are N df a m h ks \<and>
     length (live (rl_minute_key a) 60 now ks) < m \<and> length (live (rl_hour_key a) 3600 now ks) < h)"

definition circuit_allows :: "text_numbers \<Rightarrow> circuit_config option \<Rightarrow> string \<Rightarrow> real \<Rightarrow> keyspace \<Rightarrow> bool" where
  "circuit_allows N circuit t now ks \<longleftrightarrow> (case circuit of None \<Rightarrow> True
     | Some cfg \<Rightarrow> (\<exists>st. status_at N (circuit_key t) ks = Inr st \<and> cs_allowed (fst (transition cfg now st CheckEvent))))"

definition policy_spec :: "policy_pipeline \<Rightarrow> real \<Rightarrow> real \<Rightarrow> keyspace \<Rightarrow> envelope \<Rightarrow> err + verdict" where
  "policy_spec P rate_clock circuit_clock ks m =
     (if \<not> permitted (po_rbac P) (sender_id m) (target_id m) ''send'' ks
      then Inr (Refused ''AUTHZ_DENIED'' [''authorization_denied''] (PermissionDeniedError ''not_authorized''))
      else if \<not> under_limits (po_numbers P) (po_limits P) (sender_id m) rate_clock ks
      then Inr (Refused ''RATE_LIMITED'' [''rate_limit_exceeded''] (ResourceExhaustedError ''rate_limited''))
      else if \<not> circuit_allows (po_numbers P) (po_circuit P) (target_id m) circuit_clock ks
      then Inr (Refused ''CIRCUIT_OPEN'' [''circuit_open''] (FailedPreconditionError ''circuit_open''))
      else inspect P m)"

text \<open>Storage in which nothing that a check reads is malformed.\<close>

definition policy_readable :: "policy_pipeline \<Rightarrow> envelope \<Rightarrow> keyspace \<Rightarrow> bool" where
  "policy_readable P m ks \<longleftrightarrow>
     auth_readable (sender_id m) (target_id m) ks \<and> rl_typed (sender_id m) ks \<and>
     (\<exists>minute hour. limits_are (po_numbers P) (po_limits P) (sender_id m) minute hour ks) \<and>
     (\<exists>st. status_at (po_numbers P) (circuit_key (target_id m)) ks = Inr st)"

text \<open>Nobody interferes, and the clocks that the circuit reads do not run backwards.\<close>

definition quiet_attempts :: "real \<Rightarrow> keyspace attempt list \<Rightarrow> bool" where
  "quiet_attempts now atts \<longleftrightarrow> (\<exists>att rest. atts = att # rest \<and> now \<le> att_clock att \<and> att_before att = id \<and> att_between att = id \<and> \<not> att_touched att)"

definition quiet_env :: "keyspace ingest_env \<Rightarrow> bool" where
  "quiet_env env \<longleftrightarrow> ie_authz env = (\<lambda>_ ks. ks) \<and> ie_gap env = (\<lambda>_. ret ()) \<and>
     ie_circuit_clock env \<le> ie_recheck_clock env \<and> quiet_attempts (ie_recheck_clock env) (ie_attempts env)"

definition gate_keys :: "envelope \<Rightarrow> string set" where
  "gate_keys m = {rl_minute_key (sender_id m), rl_hour_key (sender_id m), circuit_key (target_id m)}"

text \<open>The checks write at most the windows of the sender and the circuit of the target, and no streams.\<close>

definition gated :: "string set \<Rightarrow> keyspace \<Rightarrow> keyspace \<Rightarrow> bool" where
  "gated K ks ks' \<longleftrightarrow> ks_now ks' = ks_now ks \<and> ks_acks ks' = ks_acks ks \<and>
     (\<forall>k. k \<notin> K \<longrightarrow> ks_data ks' k = ks_data ks k \<and> ks_ttl ks' k = ks_ttl ks k) \<and>
     (\<forall>k \<in> K. ks_data ks' k = ks_data ks k \<or> type_of_value (ks_data ks' k) \<in> {TNone, TZset, THash})"

lemma gated_refl [simp]: "gated K ks ks"
  by (simp add: gated_def)

lemma gated_trans: "gated K ks mid \<Longrightarrow> gated K mid ks' \<Longrightarrow> gated K ks ks'"
  unfolding gated_def by metis

lemma gated_mono: "gated K ks ks' \<Longrightarrow> K \<subseteq> L \<Longrightarrow> gated L ks ks'"
  unfolding gated_def by blast

lemma policy_keys_apart [simp]:
  "circuit_key t \<noteq> rl_minute_key a" "circuit_key t \<noteq> rl_hour_key a" "rl_minute_key a \<noteq> circuit_key t" "rl_hour_key a \<noteq> circuit_key t"
  "\<not> has_prefix ''audit:'' (circuit_key t)" "\<not> has_prefix ''audit:'' (rl_minute_key a)" "\<not> has_prefix ''audit:'' (rl_hour_key a)"
  by (simp_all add: circuit_key_def rl_minute_key_def rl_hour_key_def has_prefix_def)

subsection \<open>Authorization and limits\<close>

lemma quiet_authorize:
  assumes "auth_readable s t ks"
  shows "\<exists>hints'. authorize ks_redis (\<lambda>_ ks. ks) rbac s t act hints ks = (Inr (permitted rbac s t act ks), hints', ks)"
proof -
  obtain sn hints' ks' where run: "access_loop ks_redis (\<lambda>_ ks. ks) s t rbac 4 (role_hint hints s) hints ks = (Inr sn, hints', ks')" "ks' = ks"
    using ref.access_loop_settles [OF assms, of 4 rbac "role_hint hints s" hints] by auto
  then have "authorize ks_redis (\<lambda>_ ks. ks) rbac s t act hints ks = (Inr (grants (act @ '':'' @ t) sn), hints', ks)"
    by (simp add: authorize_def read_access_def)
  then show ?thesis using authorize_decides [OF ref.redis_server_axioms] by metis
qed

lemma rate_limit_split:
  "check_rate_limit N ks_redis df now u a i ks =
    (case fst (queued_check N ks_redis df now u a i ks) of Inl e \<Rightarrow> Inl e | Inr raw \<Rightarrow> parse_result N raw, snd (queued_check N ks_redis df now u a i ks))"
  by (auto simp: check_rate_limit_def queue_check_def plain_pipe_def pipeline_execute_def io_simps split: sum.splits prod.splits)

lemma admission_replies_ks:
  "admission_replies P ks_redis env m ks =
    (let (raw, ks') = queued_check (po_numbers P) ks_redis (po_limits P) (ie_rate_clock env) (ie_uid env) (sender_id m) (message_id m) ks in
     (Inr (raw, map_sum id MapReply (fst (ks_hgetall (circuit_key (target_id m)) ks'))), ks'))"
proof -
  have "snd (ks_hgetall k ks) = ks" for k ks by (auto simp: ks_hgetall_def split: option.splits rvalue.splits)
  then show ?thesis
    by (auto simp: admission_replies_def queue_check_def circuit_queue_check_def plain_pipe_def io_simps Let_def
        split: prod.splits sum.splits)
qed

lemma quiet_rate_limit:
  assumes "numerals N" and typed: "rl_typed a ks" and limits: "limits_are N df a m h ks"
  shows "\<exists>rate ks'. check_rate_limit N ks_redis df now u a i ks = (Inr rate, ks') \<and>
    (rl_allowed rate \<longleftrightarrow> under_limits N df a now ks) \<and> gated {rl_minute_key a, rl_hour_key a} ks ks'"
proof -
  obtain y where run: "check_rate_limit N ks_redis df now u a i ks =
      (Inr (rl_decision m h (length (live (rl_minute_key a) 60 now ks)) (length (live (rl_hour_key a) 3600 now ks)) y), rl_after a (i @ '':'' @ u) now m h ks)"
    using numerals.check_rate_limit_ks [OF assms] by blast
  have "limits_are N df a m' h' ks \<Longrightarrow> m' = m \<and> h' = h" for m' h' using limits by (auto simp: limits_are_def)
  then have "length (live (rl_minute_key a) 60 now ks) < m \<and> length (live (rl_hour_key a) 3600 now ks) < h \<longleftrightarrow> under_limits N df a now ks"
    using limits unfolding under_limits_def by blast
  moreover have "zset_typed (rl_minute_key a) ks" "zset_typed (rl_hour_key a) ks"
    using typed by (simp_all add: rl_typed_def window_types_def)
  then have "zset_typed (rl_minute_key a) (rl_after a r now m h ks)" "zset_typed (rl_hour_key a) (rl_after a r now m h ks)" for r
    by (simp_all add: rl_after_def Let_def)
  then have "gated {rl_minute_key a, rl_hour_key a} ks (rl_after a (i @ '':'' @ u) now m h ks)"
    unfolding gated_def
    using touchesD(1,3,4,5) [OF check_rate_limit_touches [of a N df now u i], where ks = ks, unfolded run snd_conv] by (auto simp: zset_typed_def)
  ultimately show ?thesis using run by auto
qed

subsection \<open>The circuit\<close>

lemma status_allowed: "status_at N key ks = Inr st \<Longrightarrow> cs_allowed st \<longleftrightarrow> cs_state st \<noteq> OPEN"
  by (auto simp: status_at_def read_status_def io_simps status_from_data_def bindr_def split: sum.splits)

lemma check_transition:
  "transition cfg now st CheckEvent = (check_timeout cfg now st, (check_timeout cfg now st)\<lparr>cs_allowed := cs_state (check_timeout cfg now st) \<noteq> OPEN\<rparr>)"
  by (simp add: transition_def Let_def)

text \<open>A check that would change the circuit lets the message through, then and at any later time.\<close>

lemma check_changes:
  assumes "cs_allowed st \<longleftrightarrow> cs_state st \<noteq> OPEN" and "snd (transition cfg now st CheckEvent) \<noteq> st" and "now \<le> later"
  shows "cs_allowed (fst (transition cfg later st CheckEvent)) \<and> snd (transition cfg later st CheckEvent) \<noteq> st"
  using assms by (auto simp: check_transition check_timeout_def split: option.splits if_splits)

lemma store_status_quiet:
  assumes "status_at N key ks = Inr st"
  shows "\<exists>ks'. store_status N ks_redis cfg key new ks = (Inr (), ks') \<and> gated {key} ks ks'"
proof -
  have "touches {key} (store_status N ks_redis cfg key new)"
    by (auto simp: store_status_def EXPIRE_def intro!: touches_intros)
  note frame = touchesD(1,3,4,5) [OF this, where ks = ks]
  from status_at_hash [OF assms] have "fst (store_status N ks_redis cfg key new ks) = Inr () \<and>
      type_of_value (ks_data (snd (store_status N ks_redis cfg key new ks)) key) \<in> {TNone, THash}"
    by (cases "ks_data ks key" rule: type_of_value.cases)
       (auto simp: store_status_def io_simps ks_hset_def status_data_def EXPIRE_def ks_pexpire_def)
  then show ?thesis using frame unfolding gated_def by (metis (no_types, lifting) insert_iff prod.collapse singletonD)
qed

lemma quiet_check_circuit:
  assumes st: "status_at N (circuit_key t) ks = Inr st" and atts: "quiet_attempts now atts"
  shows "\<exists>st' ks'. check_circuit N ks_redis cfg t now atts ks = Some (Inr st', ks') \<and>
    (cs_allowed st' \<longleftrightarrow> cs_allowed (fst (transition cfg now st CheckEvent))) \<and> gated {circuit_key t} ks ks'"
proof -
  obtain att rest where att: "atts = att # rest" "now \<le> att_clock att" "att_before att = id" "att_between att = id" "\<not> att_touched att"
    using atts by (auto simp: quiet_attempts_def)
  note allowed = status_allowed [OF st]
  show ?thesis
  proof (cases "snd (transition cfg now st CheckEvent) = st")
    case True
    then have "check_circuit N ks_redis cfg t now atts ks = Some (Inr (fst (transition cfg now st CheckEvent)), ks)"
      using st by (auto simp: check_circuit_def apply_event_def pick_def read_status_ks split: prod.splits)
    then show ?thesis by auto
  next
    case False
    note now_ok = check_changes [OF allowed False order_refl] and later = check_changes [OF allowed False att(2)]
    obtain ks' where store: "store_status N ks_redis cfg (circuit_key t) (snd (transition cfg (att_clock att) st CheckEvent)) ks = (Inr (), ks')"
        "gated {circuit_key t} ks ks'" using store_status_quiet [OF st] by blast
    then have "check_circuit N ks_redis cfg t now atts ks = Some (Inr (fst (transition cfg (att_clock att) st CheckEvent)), ks')"
      using st False later att
      by (auto simp: check_circuit_def apply_event_def pick_def read_status_ks split: prod.splits)
    then show ?thesis using store now_ok later by auto
  qed
qed

lemma circuit_reply:
  assumes "status_at N key ks = Inr st"
  obtains h where "fst (ks_hgetall key ks) = Inr h" "status_from_data N h = Inr st"
  using assms by (auto simp: status_at_def read_status_def io_simps split: sum.splits)

lemma quiet_resolve:
  assumes st: "status_at N (circuit_key t) ks = Inr st" and clocks: "now \<le> again" and atts: "quiet_attempts again atts"
  shows "\<exists>st' ks'. resolve_check N ks_redis cfg (map_sum id MapReply (fst (ks_hgetall (circuit_key t) ks))) t now again atts ks = Some (Inr st', ks') \<and>
    (cs_allowed st' \<longleftrightarrow> cs_allowed (fst (transition cfg now st CheckEvent))) \<and> gated {circuit_key t} ks ks'"
proof -
  obtain h where h: "fst (ks_hgetall (circuit_key t) ks) = Inr h" "status_from_data N h = Inr st" using circuit_reply [OF st] .
  show ?thesis
  proof (cases "snd (transition cfg now st CheckEvent) = st")
    case True
    then have "resolve_check N ks_redis cfg (map_sum id MapReply (fst (ks_hgetall (circuit_key t) ks))) t now again atts ks =
        Some (Inr (fst (transition cfg now st CheckEvent)), ks)"
      using h by (auto simp: resolve_check_def split: prod.splits)
    then show ?thesis by auto
  next
    case False
    then have "resolve_check N ks_redis cfg (map_sum id MapReply (fst (ks_hgetall (circuit_key t) ks))) t now again atts ks =
        check_circuit N ks_redis cfg t again atts ks"
      using h by (auto simp: resolve_check_def split: prod.splits)
    then show ?thesis
      using quiet_check_circuit [OF st atts, of cfg] check_changes [OF status_allowed [OF st] False order_refl]
        check_changes [OF status_allowed [OF st] False clocks] by auto
  qed
qed

lemma status_at_gated: "gated {rl_minute_key a, rl_hour_key a} ks ks' \<Longrightarrow> status_at N (circuit_key t) ks' = status_at N (circuit_key t) ks"
  by (rule status_at_cong) (simp add: gated_def)

lemma quiet_admission:
  assumes num: "numerals (po_numbers P)" and ok: "policy_readable P m ks" and quiet: "quiet_env env"
  shows "\<exists>rate status ks'. check_admission P ks_redis env m ks = Some (Inr (rate, status), ks') \<and>
    (rl_allowed rate \<longleftrightarrow> under_limits (po_numbers P) (po_limits P) (sender_id m) (ie_rate_clock env) ks) \<and> gated (gate_keys m) ks ks' \<and>
    (rl_allowed rate \<longrightarrow> (case status of
       None \<Rightarrow> status_at (po_numbers P) (circuit_key (target_id m)) ks' = status_at (po_numbers P) (circuit_key (target_id m)) ks
     | Some st \<Rightarrow> (cs_allowed st \<longleftrightarrow> circuit_allows (po_numbers P) (po_circuit P) (target_id m) (ie_circuit_clock env) ks)))"
proof -
  let ?N = "po_numbers P" and ?a = "sender_id m" and ?t = "target_id m"
  obtain minute hour st where typed: "rl_typed ?a ks" "limits_are ?N (po_limits P) ?a minute hour ks" "status_at ?N (circuit_key ?t) ks = Inr st"
    using ok by (auto simp: policy_readable_def)
  obtain rate mid where rate: "check_rate_limit ?N ks_redis (po_limits P) (ie_rate_clock env) (ie_uid env) ?a (message_id m) ks = (Inr rate, mid)"
      "rl_allowed rate \<longleftrightarrow> under_limits ?N (po_limits P) ?a (ie_rate_clock env) ks" "gated {rl_minute_key ?a, rl_hour_key ?a} ks mid"
    using quiet_rate_limit [OF num typed(1,2)] by blast
  have mid: "status_at ?N (circuit_key ?t) mid = Inr st" using status_at_gated [OF rate(3)] typed(3) by simp
  have K: "{rl_minute_key ?a, rl_hour_key ?a} \<subseteq> gate_keys m" "{circuit_key ?t} \<subseteq> gate_keys m" by (auto simp: gate_keys_def)
  note gate = gated_mono [OF rate(3) K(1)]
  show ?thesis
  proof (cases "\<exists>cfg. po_circuit P = Some cfg \<and> po_shared_pool P")
    case False
    then have "check_admission P ks_redis env m ks = Some (Inr (rate, None), mid)"
      using rate(1) by (auto simp: check_admission_def bindt_def split: option.splits bool.splits)
    then show ?thesis using rate(2) gate mid typed(3) by auto
  next
    case True
    then obtain cfg where cfg: "po_circuit P = Some cfg" "po_shared_pool P" by blast
    obtain raw where raw: "queued_check ?N ks_redis (po_limits P) (ie_rate_clock env) (ie_uid env) ?a (message_id m) ks = (raw, mid)"
        "(case raw of Inl e \<Rightarrow> Inl e | Inr r \<Rightarrow> parse_result ?N r) = Inr rate"
      using rate(1) unfolding rate_limit_split by (metis fst_conv prod.collapse prod.inject)
    obtain st' ks' where res: "resolve_check ?N ks_redis cfg (map_sum id MapReply (fst (ks_hgetall (circuit_key ?t) mid))) ?t
          (ie_circuit_clock env) (ie_recheck_clock env) (ie_attempts env) mid = Some (Inr st', ks')"
        "cs_allowed st' \<longleftrightarrow> cs_allowed (fst (transition cfg (ie_circuit_clock env) st CheckEvent))" "gated {circuit_key ?t} mid ks'"
      using quiet_resolve [OF mid, of "ie_circuit_clock env" "ie_recheck_clock env" "ie_attempts env" cfg] quiet by (auto simp: quiet_env_def)
    have adm: "check_admission P ks_redis env m ks = (if rl_allowed rate then Some (Inr (rate, Some st'), ks') else Some (Inr (rate, None), mid))"
      using cfg raw res(1) by (simp add: check_admission_def admission_replies_ks bindt_def)
    have allows: "cs_allowed st' \<longleftrightarrow> circuit_allows ?N (po_circuit P) ?t (ie_circuit_clock env) ks"
      using res(2) typed(3) cfg by (simp add: circuit_allows_def)
    show ?thesis
    proof (cases "rl_allowed rate")
      case True
      then show ?thesis using adm allows rate(2) gated_trans [OF gate gated_mono [OF res(3) K(2)]] by auto
    next
      case False
      then show ?thesis using adm rate(2) gate by auto
    qed
  qed
qed

lemma quiet_circuit_admits:
  assumes st: "status = None \<Longrightarrow> status_at (po_numbers P) (circuit_key (target_id m)) ks = Inr st" and quiet: "quiet_env env"
    and given: "\<And>s. status = Some s \<Longrightarrow> cs_allowed s \<longleftrightarrow> b"
    and read: "status = None \<Longrightarrow> b \<longleftrightarrow> circuit_allows (po_numbers P) (po_circuit P) (target_id m) (ie_circuit_clock env) ks"
    and none: "po_circuit P = None \<Longrightarrow> b"
  shows "\<exists>ks'. circuit_admits P ks_redis env m status ks = Some (Inr b, ks') \<and> gated (gate_keys m) ks ks'"
proof (cases "po_circuit P")
  case None
  then show ?thesis using none by (simp add: circuit_admits_def)
next
  case (Some cfg)
  show ?thesis
  proof (cases status)
    case None
    have atts: "quiet_attempts (ie_circuit_clock env) (ie_attempts env)" and gap: "ie_gap env 1 = ret ()"
      using quiet by (auto simp: quiet_env_def quiet_attempts_def)
    obtain st' ks' where run: "check_circuit (po_numbers P) ks_redis cfg (target_id m) (ie_circuit_clock env) (ie_attempts env) ks = Some (Inr st', ks')"
        "cs_allowed st' \<longleftrightarrow> cs_allowed (fst (transition cfg (ie_circuit_clock env) st CheckEvent))" "gated {circuit_key (target_id m)} ks ks'"
      using quiet_check_circuit [OF st [OF None] atts, of cfg] by blast
    have "cs_allowed st' \<longleftrightarrow> b" using run(2) read [OF None] st [OF None] Some by (simp add: circuit_allows_def)
    moreover have "gated (gate_keys m) ks ks'" using gated_mono [OF run(3)] by (auto simp: gate_keys_def)
    ultimately show ?thesis using run(1) Some None gap by (auto simp: circuit_admits_def bindt_def)
  next
    case (Some s)
    then show ?thesis using given \<open>po_circuit P = Some cfg\<close> by (simp add: circuit_admits_def)
  qed
qed

subsection \<open>The verdict\<close>

text \<open>The gateway after the checks: other hints, and storage that differs behind the gate only.\<close>

definition gate_passed :: "envelope \<Rightarrow> keyspace gateway \<Rightarrow> keyspace gateway \<Rightarrow> bool" where
  "gate_passed m g g' \<longleftrightarrow> gated (gate_keys m) (gw_db g) (gw_db g') \<and> g' = put_db (gw_db g') (g\<lparr>gw_hints := gw_hints g'\<rparr>)"

lemma put_db_sel [simp]:
  "gw_db (put_db db g) = db" "gw_hints (put_db db g) = gw_hints g" "put_db db (put_db db' g) = put_db db g"
  "put_db (gw_db g) g = g" "sv_closed (gw_service (put_db db g)) = sv_closed (gw_service g)"
  "aw_files (sv_world (gw_service (put_db db g))) = aw_files (sv_world (gw_service g))"
  "aw_heads (sv_world (gw_service (put_db db g))) = aw_heads (sv_world (gw_service g))"
  by (simp_all add: put_db_def)

lemma verdict_quiet:
  assumes num: "numerals (po_numbers P)" and ok: "policy_readable P m (gw_db g)" and quiet: "quiet_env env"
  shows "\<exists>g'. policy_check P ks_redis env m g = Some (policy_spec P (ie_rate_clock env) (ie_circuit_clock env) (gw_db g) m, g') \<and> gate_passed m g g'"
proof -
  let ?ks = "gw_db g"
  obtain hints where auth: "authorize ks_redis (\<lambda>_ ks. ks) (po_rbac P) (sender_id m) (target_id m) ''send'' (gw_hints g) ?ks =
      (Inr (permitted (po_rbac P) (sender_id m) (target_id m) ''send'' ?ks), hints, ?ks)"
    using quiet_authorize ok unfolding policy_readable_def by blast
  let ?g = "g\<lparr>gw_hints := hints\<rparr>"
  have first: "check_authorized P ks_redis env m g = Some (Inr (permitted (po_rbac P) (sender_id m) (target_id m) ''send'' ?ks), ?g)"
    using auth quiet by (simp add: check_authorized_def quiet_env_def put_db_def)
  have gap: "on_store (ie_gap env 0) h = Some (Inr (), h)" for h using quiet by (simp add: on_store_def quiet_env_def)
  have passed: "gate_passed m g (put_db ks' ?g)" if "gated (gate_keys m) ?ks ks'" for ks'
    using that by (simp add: gate_passed_def put_db_def)
  obtain rate status mid where adm: "check_admission P ks_redis env m ?ks = Some (Inr (rate, status), mid)"
      "rl_allowed rate \<longleftrightarrow> under_limits (po_numbers P) (po_limits P) (sender_id m) (ie_rate_clock env) ?ks" "gated (gate_keys m) ?ks mid"
      "rl_allowed rate \<longrightarrow> (case status of
         None \<Rightarrow> status_at (po_numbers P) (circuit_key (target_id m)) mid = status_at (po_numbers P) (circuit_key (target_id m)) ?ks
       | Some st \<Rightarrow> (cs_allowed st \<longleftrightarrow> circuit_allows (po_numbers P) (po_circuit P) (target_id m) (ie_circuit_clock env) ?ks))"
    using quiet_admission [OF num ok quiet] by blast
  let ?b = "circuit_allows (po_numbers P) (po_circuit P) (target_id m) (ie_circuit_clock env) ?ks"
  have store: "on_store_task (check_admission P ks_redis env m) ?g = Some (Inr (rate, status), put_db mid ?g)"
    using adm(1) by (simp add: on_store_task_def)
  show ?thesis
  proof (cases "permitted (po_rbac P) (sender_id m) (target_id m) ''send'' ?ks \<and> rl_allowed rate")
    case False
    then consider "\<not> permitted (po_rbac P) (sender_id m) (target_id m) ''send'' ?ks"
      | "permitted (po_rbac P) (sender_id m) (target_id m) ''send'' ?ks" "\<not> rl_allowed rate" by blast
    then show ?thesis
    proof cases
      case 1
      then have "policy_check P ks_redis env m g = Some (policy_spec P (ie_rate_clock env) (ie_circuit_clock env) ?ks m, ?g)"
        using first by (simp add: policy_check_def policy_spec_def bindt_def)
      then show ?thesis using passed [of ?ks] by (auto simp: put_db_def)
    next
      case 2
      then have "policy_check P ks_redis env m g = Some (policy_spec P (ie_rate_clock env) (ie_circuit_clock env) ?ks m, put_db mid ?g)"
        using first gap store adm(2) by (simp add: policy_check_def policy_spec_def bindt_def)
      then show ?thesis using passed adm(3) by blast
    qed
  next
    case True
    obtain st where st: "status_at (po_numbers P) (circuit_key (target_id m)) ?ks = Inr st" using ok by (auto simp: policy_readable_def)
    have "\<exists>ks'. circuit_admits P ks_redis env m status mid = Some (Inr ?b, ks') \<and> gated (gate_keys m) mid ks'"
      by (rule quiet_circuit_admits [OF _ quiet]) (use True adm(4) st in \<open>auto simp: circuit_allows_def split: option.splits\<close>)
    then obtain ks' where circ: "circuit_admits P ks_redis env m status mid = Some (Inr ?b, ks')" "gated (gate_keys m) mid ks'" by blast
    have "on_store_task (circuit_admits P ks_redis env m status) (put_db mid ?g) = Some (Inr ?b, put_db ks' ?g)"
      using circ(1) by (simp add: on_store_task_def)
    then have "policy_check P ks_redis env m g = Some (policy_spec P (ie_rate_clock env) (ie_circuit_clock env) ?ks m, put_db ks' ?g)"
      using True first gap store adm(2) by (simp add: policy_check_def policy_spec_def bindt_def)
    then show ?thesis using passed gated_trans [OF adm(3) circ(2)] by blast
  qed
qed

section \<open>Properties\<close>

text \<open>
  C4. The pipeline decides exactly the policy. On readable storage and without interference,
  its checks end, and their verdict is the one of the policy on the storage at the start:
  a sender that is not permitted is refused, then one that has used up its minute or its
  hour, then a target whose circuit is open, and only then does the content decide. This
  holds whether both admission checks share a connection and one round trip or not, and the
  checks write nothing but the windows of the sender and the circuit of the target.
\<close>

theorem policy_check_refines_spec:
  assumes "numerals (po_numbers P)" and "policy_readable P m (gw_db g)" and "quiet_env env"
  shows "\<exists>g'. policy_check P ks_redis env m g = Some (policy_spec P (ie_rate_clock env) (ie_circuit_clock env) (gw_db g) m, g') \<and>
    (\<forall>k. k \<notin> gate_keys m \<longrightarrow> ks_data (gw_db g') k = ks_data (gw_db g) k)"
  using verdict_quiet [OF assms] by (auto simp: gate_passed_def gated_def)

definition example_pipeline :: policy_pipeline where
  "example_pipeline = \<lparr>po_rbac = False, po_limits = \<lparr>per_minute = 1, per_hour = 5\<rparr>, po_circuit = None, po_shared_pool = False, po_dlp = None,
     po_audit = \<lparr>am_codec = json_codec point_numbers, am_numbers = point_numbers, am_cjson = json_loads point_numbers, am_sha = letters_sha,
       am_settings = example_retention, am_durability = default_durability, am_sink = None,
       am_target = \<lparr>target_pool = 0, target_durability = 0\<rparr>\<rparr>,
     po_router = \<lparr>router_dlq_enabled = True, router_durability = default_durability\<rparr>,
     po_router_target = \<lparr>target_pool = 0, target_durability = 0\<rparr>\<rparr>"

definition example_message :: envelope where
  "example_message = \<lparr>sender_id = ''a'', target_id = ''b'', message_type = ''t'', env_data = [], env_meta = default_meta, env_timestamp = 0, message_id = ''m1''\<rparr>"

definition example_plan :: "keyspace audit_plan" where
  "example_plan = \<lparr>plan_number = 0, plan_before = [], plan_after = [], plan_turns = [example_turn, example_turn], plan_clock = 1\<rparr>"

definition example_env :: "keyspace ingest_env" where
  "example_env = \<lparr>ie_authz = \<lambda>_ ks. ks, ie_gap = \<lambda>_. ret (), ie_rate_clock = 0, ie_uid = ''u'', ie_circuit_clock = 0, ie_recheck_clock = 0,
     ie_attempts = [\<lparr>att_clock = 0, att_before = id, att_between = id, att_touched = False\<rparr>], ie_latency = 0, ie_plan = example_plan\<rparr>"

definition example_storage :: keyspace where
  "example_storage = (fresh_keyspace 0)\<lparr>ks_data := [sessions_key ''b'' \<mapsto> RZset [(5, ''i'')], allowed_key ''a'' \<mapsto> RSet {''b''}]\<rparr>"

definition example_gateway :: "keyspace gateway" where
  "example_gateway = \<lparr>gw_service = \<lparr>sv_world = \<lparr>aw_db = example_storage, aw_files = Map.empty, aw_heads = \<lambda>_. None\<rparr>, sv_closed = False,
     sv_disk = \<lparr>sd_files = Map.empty, sd_faults = []\<rparr>\<rparr>, gw_hints = []\<rparr>"

lemma example_quiet: "quiet_env example_env"
  by (simp add: quiet_env_def example_env_def quiet_attempts_def)

lemma example_storage_at:
  "ks_data example_storage k = (if k = allowed_key ''a'' then Some (RSet {''b''}) else if k = sessions_key ''b'' then Some (RZset [(5, ''i'')]) else None)"
  "ks_ttl example_storage = Map.empty" "ks_now example_storage = 0"
  by (simp_all add: example_storage_def)

lemma example_keys:
  "sessions_key ''b'' \<noteq> allowed_key ''a''" "blocked_key ''a'' \<notin> {sessions_key ''b'', allowed_key ''a''}" "roles_key ''a'' \<notin> {sessions_key ''b'', allowed_key ''a''}"
  "circuit_key ''b'' \<notin> {sessions_key ''b'', allowed_key ''a''}" "rl_minute_key ''a'' \<notin> {sessions_key ''b'', allowed_key ''a''}"
  "rl_hour_key ''a'' \<notin> {sessions_key ''b'', allowed_key ''a''}" "rl_limits_key ''a'' \<notin> {sessions_key ''b'', allowed_key ''a''}"
  by (simp_all add: sessions_key_def roles_key_def blocked_key_def allowed_key_def circuit_key_def rl_minute_key_def rl_hour_key_def rl_limits_key_def)

lemma example_limits_hold: "limits_are point_numbers \<lparr>per_minute = 1, per_hour = 5\<rparr> ''a'' 1 5 example_storage"
  using example_keys by (simp add: limits_are_def limit_text_def point_numbers_def decimal_numbers_def show_int_def example_storage_at)

lemma example_readable: "policy_readable example_pipeline example_message example_storage"
proof -
  have "auth_readable ''a'' ''b'' example_storage"
    using example_keys by (auto simp: auth_readable_def example_storage_at set_at_def)
  moreover have "rl_typed ''a'' example_storage"
    using example_keys by (auto simp: rl_typed_def window_types_def zset_typed_def example_storage_at)
  moreover have "\<exists>st. status_at point_numbers (circuit_key ''b'') example_storage = Inr st"
    using example_keys by (simp add: status_at_def read_status_def io_simps ks_hgetall_def example_storage_at status_from_data_def model_field_def bindr_def)
  ultimately show ?thesis using example_limits_hold by (auto simp: policy_readable_def example_pipeline_def example_message_def)
qed

lemma example_passes: "policy_spec example_pipeline 0 0 example_storage example_message = Inr (Passed ''ALLOWED'' [] example_message)"
proof -
  have "permitted False ''a'' ''b'' ''send'' example_storage"
    using example_keys by (auto simp: permitted_def connected_def set_at_def example_storage_at now_ms_def)
  moreover have "under_limits point_numbers \<lparr>per_minute = 1, per_hour = 5\<rparr> ''a'' 0 example_storage"
    unfolding under_limits_def using example_limits_hold example_keys
    by (intro exI [of _ 1] exI [of _ 5]) (simp add: live_def zset_of_def example_storage_at)
  ultimately show ?thesis by (simp add: policy_spec_def example_pipeline_def example_message_def circuit_allows_def inspect_def)
qed

lemma example_numerals: "numerals (po_numbers example_pipeline)"
  using point.numerals_axioms by (simp add: example_pipeline_def)

theorem policy_check_refines_spec_witness:
  "\<exists>g'. policy_check example_pipeline ks_redis example_env example_message example_gateway = Some (Inr (Passed ''ALLOWED'' [] example_message), g')"
  using policy_check_refines_spec [OF example_numerals _ example_quiet, of example_message example_gateway] example_readable example_passes
  by (auto simp: example_gateway_def example_env_def)

end
