(* ===== verification/Policy_Audit.thy ===== *)
theory Policy_Audit
  imports Policy
begin

text \<open>
  What the pipeline leaves behind: a refusal is in the audit trail before the sender sees it
  and nothing of the message is stored anywhere else; a message that passes is in the trail
  before it is in a mailbox, with the content that the mailbox gets.
\<close>

section \<open>Refusals are not storage errors\<close>

text \<open>The audit module raises storage and validation errors, never an error of the RPC layer.\<close>

fun is_rpc :: "err \<Rightarrow> bool" where
  "is_rpc (RpcError _ _) = True"
| "is_rpc _ = False"

definition never_rpc :: "('s, 'a) io \<Rightarrow> bool" where
  "never_rpc m \<longleftrightarrow> (\<forall>s e. fst (m s) = Inl e \<longrightarrow> \<not> is_rpc e)"

named_theorems rpc_intros \<open>composition rules for never_rpc\<close>

lemma never_rpc_basic [rpc_intros]:
  "never_rpc (ret x)" "\<not> is_rpc e \<Longrightarrow> never_rpc (raise e)" "(\<And>e. r = Inl e \<Longrightarrow> \<not> is_rpc e) \<Longrightarrow> never_rpc (of_result r)"
  by (auto simp: never_rpc_def)

lemma never_rpc_bindio [rpc_intros]: "never_rpc m \<Longrightarrow> (\<And>x. never_rpc (f x)) \<Longrightarrow> never_rpc (bindio m f)"
  by (auto simp: never_rpc_def io_simps split: sum.splits)

lemma never_rpc_seqio [rpc_intros]: "never_rpc m \<Longrightarrow> never_rpc n \<Longrightarrow> never_rpc (seqio m n)"
  by (simp add: seqio_def never_rpc_bindio)

lemma never_rpc_mapio [rpc_intros]: "(\<And>x. never_rpc (f x)) \<Longrightarrow> never_rpc (mapio f xs)"
  by (induction xs) (auto intro!: rpc_intros)

lemma never_rpc_cases [rpc_intros]:
  "never_rpc m \<Longrightarrow> never_rpc n \<Longrightarrow> never_rpc (if b then m else n)"
  "never_rpc m \<Longrightarrow> (\<And>x. never_rpc (f x)) \<Longrightarrow> never_rpc (case y of None \<Rightarrow> m | Some x \<Rightarrow> f x)"
  "(\<And>x z. never_rpc (g x z)) \<Longrightarrow> never_rpc (case p of (x, z) \<Rightarrow> g x z)"
  by (auto split: option.splits prod.splits)

lemma never_rpc_commands [rpc_intros]:
  "never_rpc (ks_type k)" "never_rpc (ks_get k)" "never_rpc (ks_set k v)" "never_rpc (ks_del keys)" "never_rpc (ks_xlen k)" "never_rpc (ks_xlast k)"
  "never_rpc (ks_xadd k fs)" "never_rpc (ks_xadd_id k i fs)" "never_rpc (ks_xrange k a b n)" "never_rpc (ks_xtrim_minid k i)"
  by (auto simp: never_rpc_def ks_read_defs ks_stream_read_defs ks_set_def ks_del_def ks_xadd_def ks_xadd_id_def ks_xtrim_minid_def ks_stream_def
      wrongtype_def split: option.splits rvalue.splits sum.splits if_splits)

lemma never_rpc_confirm [rpc_intros]: "never_rpc (confirm ks_redis d)"
  by (auto simp: never_rpc_def confirm_ks unconfirmed_def)

lemma never_rpc_lift [rpc_intros]: "never_rpc m \<Longrightarrow> never_rpc (Audit_Archive.on_db m)" "never_rpc f \<Longrightarrow> never_rpc (on_files f)"
  by (auto simp: never_rpc_def Audit_Archive.on_db_def on_files_def split: prod.splits) (metis fst_conv)+

lemmas audit_error_defs = invalid_fields_def invalid_indexes_def invalid_append_def segment_too_large_def archive_write_failed_def
  archive_read_failed_def capacity_exceeded_def

lemma check_records_error: "check_records n k vs = Inl e \<Longrightarrow> \<not> is_rpc e"
  by (induction vs arbitrary: e)
     (auto simp: check_record_def check_append_def audit_error_defs split: sum.splits option.splits if_splits)

lemma never_rpc_append: "never_rpc (append_script cjson ks_redis keys p f c j n)"
  unfolding append_script_def write_records_def check_key_def check_position_def check_exhausted_def append_record_def last_id_def Let_def ks_redis_sel
  by (auto intro!: rpc_intros split: json.splits sum.splits simp: check_records_error audit_error_defs)

lemma walk_rows_error: "walk_rows N sha s h rows = Inl e \<Longrightarrow> \<not> is_rpc e"
  by (induction rows arbitrary: h e; cases s) (auto split: sum.splits option.splits if_splits)

lemma write_file_error: "never_rpc (write_file disk digest body)"
  by (auto simp: never_rpc_def write_file_def read_file_def audit_error_defs split: option.splits sum.splits if_splits)

lemma archive_write_error: "never_rpc (archive_write C sha disk seg)"
  unfolding archive_write_def Let_def by (intro rpc_intros write_file_error) (simp add: audit_error_defs)

lemma never_rpc_archive: "never_rpc (archive_prefix C N cjson sha ks_redis settings durability disk others s)"
  unfolding archive_prefix_def archive_script_def check_key_def trim_index_def Let_def ks_redis_sel
  by (auto intro!: rpc_intros archive_write_error split: json.splits
      simp: never_rpc_def [of "\<lambda>w. (Inr (), others w)"] walk_rows_error optional_checkpoint_def successor_id_def split: option.splits if_splits)

lemma attempt_error: "append_attempt N cjson sha ks_redis settings s ws w = (Inl e, w') \<Longrightarrow> \<not> is_rpc e"
  using never_rpc_append [unfolded never_rpc_def, rule_format]
  by (auto simp: append_attempt_def Let_def split: prod.splits sum.splits if_splits) (metis fst_conv)

lemma commit_loop_error:
  "commit_loop C N cjson sha ks_redis settings durability s ts active refused w = Some ((Inl e, kept, refused'), w') \<Longrightarrow> \<not> is_rpc e"
proof (induction ts arbitrary: active refused w)
  case (Cons t ts)
  have conf: "\<not> is_rpc e" if "Audit_Archive.on_db (confirm ks_redis durability) v = (Inl e, v')" for e v v'
    using that never_rpc_lift(1) [OF never_rpc_confirm] unfolding never_rpc_def by (metis fst_conv)
  have arch: "\<not> is_rpc e" if "archive_prefix C N cjson sha ks_redis settings durability disk others s v = (Inl e, v')" for e v v' disk others
    using that never_rpc_archive unfolding never_rpc_def by (metis fst_conv)
  from Cons.prems show ?case
    by (auto split: prod.splits sum.splits attempt_result.splits option.splits if_splits
        simp: audit_error_defs dest: Cons.IH attempt_error conf arch)
qed simp

lemma answer_ofD:
  assumes "answer_of n results = Some a"
  obtains v where "(v, a) \<in> set results" "pw_number v = n"
proof -
  obtain x where x: "find (\<lambda>x. pw_number (fst x) = n) results = Some x" "snd x = a" using assms by (auto simp: answer_of_def)
  then have "x \<in> set results" "pw_number (fst x) = n" by (auto simp: find_Some_iff)
  then show ?thesis using that [of "fst x"] x(2) by (metis prod.collapse)
qed

lemma answer_error:
  assumes "run_batch A ks_redis s ts writes w = Some (results, w')" and "answer_of n results = Some (Inl e)"
  shows "\<not> is_rpc e"
proof -
  obtain result kept refused where loop: "commit_loop (am_codec A) (am_numbers A) (am_cjson A) (am_sha A) ks_redis (am_settings A) (am_durability A)
      s ts writes [] w = Some ((result, kept, refused), w')"
    and results: "results = (case result of Inr receipts \<Rightarrow> map (\<lambda>(write, receipt). (write, Inr receipt)) receipts
         | Inl e \<Rightarrow> map (\<lambda>write. (write, Inl e)) kept) @ map (\<lambda>write. (write, Inl (capacity_exceeded s))) refused"
    using assms(1) by (auto simp: run_batch_def complete_batch_def commit_batch_def)
  obtain x where "(x, Inl e) \<in> set results" using answer_ofD [OF assms(2)] by blast
  then show ?thesis using commit_loop_error [of _ _ _ _ _ _ _ ts writes "[]" w] loop by (cases result) (auto simp: results audit_error_defs)
qed

lemma log_message_error:
  assumes "log_message A ks_redis plan mid sender target decision latency payload found kind cid inst eff sv = Some (Inl e, sv')"
  shows "\<not> is_rpc e"
  using assms answer_error [of A Messages]
  by (auto simp: log_message_def Let_def append_entry_def bindt_Some_iff to_sink_def split: if_splits option.splits prod.splits sum.splits)

section \<open>Recorded\<close>

definition decision_record :: "policy_pipeline \<Rightarrow> 'db ingest_env \<Rightarrow> envelope \<Rightarrow> string \<Rightarrow> string list \<Rightarrow> chain_record" where
  "decision_record P env m decision found =
     MessageRecord (message_entry (po_audit P) (plan_clock (ie_plan env)) (message_id m) (sender_id m) (target_id m) decision (ie_latency env)
       (env_data m) found (Some (message_type m)) (correlation_id (env_meta m)) (sender_instance_id (env_meta m)))"

abbreviation audit_store :: "keyspace gateway \<Rightarrow> archive_files \<times> keyspace" where
  "audit_store g \<equiv> store_of (sv_world (gw_service g))"

definition append_ok :: "stream_append option \<Rightarrow> bool" where
  "append_ok eff \<longleftrightarrow> (\<forall>a. eff = Some a \<longrightarrow> stream_append_post_init a = Inr ())"

definition message_write :: "audit_module \<Rightarrow> 'db audit_plan \<Rightarrow> audit_entry \<Rightarrow> stream_append option \<Rightarrow> pending_write" where
  "message_write A plan entry eff =
     queued_write A (plan_number plan) (MessageRecord entry) Messages
       [''audit:by_sender:'' @ ae_sender_id entry, ''audit:by_target:'' @ ae_target_id entry] eff"

text \<open>A call of \<open>log_message\<close> either never reaches the queue, or is a well-formed write.\<close>

lemma log_message_cases:
  assumes run: "log_message A ks_redis plan mid sender target decision latency payload found kind cid inst eff sv = Some (r, sv')"
    and eff: "append_ok eff" and clocks: "is_double (am_numbers A) (plan_clock plan)" "is_double (am_numbers A) latency"
  obtains (refused) e where "r = Inl e" "sv' = sv"
    | (queued) results world answer where
        "write_ok (am_numbers A) Messages (message_write A plan (message_entry A (plan_clock plan) mid sender target decision latency payload found kind cid inst) eff)"
        "run_batch A ks_redis Messages (plan_turns plan) (plan_before plan @
           [message_write A plan (message_entry A (plan_clock plan) mid sender target decision latency payload found kind cid inst) eff] @ plan_after plan)
           (sv_world sv) = Some (results, world)"
        "answer_of (plan_number plan) results = Some answer" "sv_world sv' = world" "(\<exists>x. r = Inr x) \<longleftrightarrow> (\<exists>x. answer = Inr x)"
proof -
  let ?e = "message_entry A (plan_clock plan) mid sender target decision latency payload found kind cid inst"
  let ?w = "message_write A plan ?e eff"
  have idx: "[''audit:by_sender:'' @ sender, ''audit:by_target:'' @ target] = [''audit:by_sender:'' @ ae_sender_id ?e, ''audit:by_target:'' @ ae_target_id ?e]"
    by (simp add: message_entry_def)
  show ?thesis
  proof (cases "(\<exists>a. eff = Some a \<and> (decision \<notin> routable_decisions \<or> has_prefix ''audit:'' (append_stream a))) \<or> \<not> audit_entry_ok ?e \<or> sv_closed sv")
    case True
    then have "sv' = sv \<and> (\<exists>e. r = Inl e)"
      using run by (auto simp: log_message_def Let_def append_entry_def bindt_def split: option.splits if_splits)
    then show ?thesis using refused by blast
  next
    case False
    have ok: "write_ok (am_numbers A) Messages ?w"
      using False eff clocks
      by (auto simp: write_ok_def message_write_def queued_write_def append_ok_def message_entry_def has_prefix_def split: option.splits)
    have step: "append_entry A ks_redis plan (MessageRecord ?e) Messages [''audit:by_sender:'' @ sender, ''audit:by_target:'' @ target] eff sv =
        (case run_batch A ks_redis Messages (plan_turns plan) (plan_before plan @ [?w] @ plan_after plan) (sv_world sv) of
          None \<Rightarrow> None
        | Some (results, world) \<Rightarrow>
            (case answer_of (plan_number plan) results of
               None \<Rightarrow> None
             | Some (Inl e) \<Rightarrow> Some (Inl e, sv\<lparr>sv_world := world\<rparr>)
             | Some (Inr receipt) \<Rightarrow> Some (Inr (wr_stream_id receipt, with_link (wr_previous_hash receipt) (MessageRecord ?e)), sv\<lparr>sv_world := world\<rparr>)))"
      unfolding message_write_def idx [symmetric] using False by (simp add: append_entry_def)
    have log: "bindt (append_entry A ks_redis plan (MessageRecord ?e) Messages [''audit:by_sender:'' @ sender, ''audit:by_target:'' @ target] eff)
        (\<lambda>(stream_id, logged). bindt (liftt (to_sink A logged)) (\<lambda>_. liftt (ret stream_id))) sv = Some (r, sv')"
      using run False by (auto simp: log_message_def Let_def split: option.splits)
    obtain results world where batch: "run_batch A ks_redis Messages (plan_turns plan) (plan_before plan @ [?w] @ plan_after plan) (sv_world sv) = Some (results, world)"
      using log step by (cases "run_batch A ks_redis Messages (plan_turns plan) (plan_before plan @ [?w] @ plan_after plan) (sv_world sv)") (auto simp: bindt_def)
    obtain answer where answer: "answer_of (plan_number plan) results = Some answer"
      using log step batch by (cases "answer_of (plan_number plan) results") (auto simp: bindt_def)
    have sink: "\<exists>sv2. to_sink A logged sv1 = (Inr (), sv2) \<and> sv_world sv2 = sv_world sv1" for logged and sv1 :: "keyspace audit_service"
      by (auto simp: to_sink_def split: option.splits chain_record.splits)
    have "sv_world sv' = world \<and> ((\<exists>x. r = Inr x) \<longleftrightarrow> (\<exists>x. answer = Inr x))"
    proof (cases answer)
      case (Inl e)
      then show ?thesis using log step batch answer by (auto simp: bindt_def)
    next
      case (Inr receipt)
      obtain sv2 where "to_sink A (with_link (wr_previous_hash receipt) (MessageRecord ?e)) (sv\<lparr>sv_world := world\<rparr>) = (Inr (), sv2)" "sv_world sv2 = world"
        using sink by (metis audit_service.select_convs(1) audit_service.surjective audit_service.update_convs(1))
      then show ?thesis using log step batch answer Inr by (auto simp: bindt_def)
    qed
    then show ?thesis using queued [OF ok batch answer] by blast
  qed
qed

lemma stored_recorded: "stored (am_codec A) (am_numbers A) (am_sha A) s x w receipt \<Longrightarrow> recorded A s x (pw_entry w)"
  unfolding stored_def recorded_def by blast

lemma log_message_recorded:
  assumes A: "audit_ok A" and good: "audit_state_ok A (sv_world sv)" and plan: "plan_ok A Messages plan" and lat: "is_double (am_numbers A) latency"
    and eff: "append_ok eff"
    and run: "log_message A ks_redis plan mid sender target decision latency payload found kind cid inst eff sv = Some (Inr x, sv')"
  shows "recorded A Messages (store_of (sv_world sv'))
    (MessageRecord (message_entry A (plan_clock plan) mid sender target decision latency payload found kind cid inst))"
proof -
  have clock: "is_double (am_numbers A) (plan_clock plan)" using plan by (simp add: plan_ok_def)
  from run eff clock lat show ?thesis
  proof (cases rule: log_message_cases)
    case (queued results world answer)
    define w where "w = message_write A plan (message_entry A (plan_clock plan) mid sender target decision latency payload found kind cid inst) eff"
    let ?ws = "plan_before plan @ [w] @ plan_after plan"
    note q = queued [folded w_def]
    have w: "pw_number w = plan_number plan" "pw_entry w = MessageRecord (message_entry A (plan_clock plan) mid sender target decision latency payload found kind cid inst)"
      by (simp_all add: w_def message_write_def queued_write_def)
    have ok: "audit_setting.loop_ok (am_numbers A) (am_codec A) (am_sha A) Messages ?ws (am_settings A) (sv_world sv)"
      using plan good q(1) by (simp add: audit_setting.loop_ok_def [OF A] plan_ok_def audit_state_ok_def)
    have turns: "\<forall>t \<in> set (plan_turns plan). audit_peer A (turn_others t) \<and> audit_peer A (turn_meanwhile t)" using plan by (simp add: plan_ok_def)
    note res = audit_setting.complete_batch_result [OF A turns ok q(2) [unfolded run_batch_def]]
    obtain receipt where "answer_of (plan_number plan) results = Some (Inr receipt)" using q(3,5) by auto
    then obtain v where v: "(v, Inr receipt) \<in> set results" "pw_number v = plan_number plan"
      by (rule answer_ofD)
    have "v \<in> set ?ws" using v(1) mset_eq_setD [OF res(1)] by force
    then have "v = w" using plan v(2) by (auto simp: plan_ok_def)
    then have "stored (am_codec A) (am_numbers A) (am_sha A) Messages (store_of world) w receipt" using res(2) [OF v(1) audit_run.idle] by simp
    then show ?thesis using stored_recorded w(2) q(4) by metis
  qed simp
qed

lemma recorded_frame:
  assumes "recorded A s (files, ks) entry" and "\<And>k. has_prefix ''audit:'' k \<Longrightarrow> ks_data ks' k = ks_data ks k"
  shows "recorded A s (files, ks') entry"
  using assms trail_frame [of s ks' ks files files] audit_key_prefix unfolding recorded_def by (metis empty_iff insert_iff map_le_refl)

lemma verdict_is_rpc:
  assumes "policy_check P R env m g = Some (Inr (Refused d found e), g')"
  shows "is_rpc e"
  using assms
  by (auto simp: policy_check_def bindt_Some_iff inspect_def rpc_error_defs Let_def
      split: if_splits option.splits sum.splits prod.splits action_policy.splits)

section \<open>Without interference\<close>

definition quiet_plan :: "audit_module \<Rightarrow> keyspace audit_plan \<Rightarrow> bool" where
  "quiet_plan A plan \<longleftrightarrow> plan_before plan = [] \<and> plan_after plan = [] \<and> is_double (am_numbers A) (plan_clock plan) \<and>
     (\<forall>t \<in> set (plan_turns plan). turn_others t = id \<and> turn_meanwhile t = id)"

definition released :: "stream_append option \<Rightarrow> string \<Rightarrow> (string \<times> string) list list" where
  "released eff k = (case eff of Some a \<Rightarrow> if append_stream a = k then [append_fields a] else [] | None \<Rightarrow> [])"

text \<open>Storage that gained what an append released, and is otherwise the same outside the audit keys.\<close>

definition gained :: "stream_append option \<Rightarrow> keyspace \<Rightarrow> keyspace \<Rightarrow> bool" where
  "gained eff ks ks' \<longleftrightarrow> (\<forall>k. \<not> has_prefix ''audit:'' k \<longrightarrow> mails k ks' = mails k ks @ released eff k \<and>
     (released eff k = [] \<longrightarrow> ks_data ks' k = ks_data ks k))"

lemma log_message_quiet:
  assumes A: "audit_ok A" and good: "audit_state_ok A (sv_world sv)" and plan: "quiet_plan A plan" and lat: "is_double (am_numbers A) latency"
    and eff: "append_ok eff"
    and run: "log_message A ks_redis plan mid sender target decision latency payload found kind cid inst eff sv = Some (r, sv')"
  shows "apart_from_audit (aw_db (sv_world sv)) (aw_db (sv_world sv')) \<and> (\<forall>x. r \<noteq> Inr x) \<or>
    gained eff (aw_db (sv_world sv)) (aw_db (sv_world sv')) \<and> recorded A Messages (store_of (sv_world sv'))
      (MessageRecord (message_entry A (plan_clock plan) mid sender target decision latency payload found kind cid inst))"
proof -
  have clock: "is_double (am_numbers A) (plan_clock plan)" using plan by (simp add: quiet_plan_def)
  from run eff clock lat show ?thesis
  proof (cases rule: log_message_cases)
    case refused
    then show ?thesis by simp
  next
    case (queued results world answer)
    define w where "w = message_write A plan (message_entry A (plan_clock plan) mid sender target decision latency payload found kind cid inst) eff"
    note q = queued [folded w_def]
    have w: "pw_entry w = MessageRecord (message_entry A (plan_clock plan) mid sender target decision latency payload found kind cid inst)" "pw_append w = eff"
      by (simp_all add: w_def message_write_def queued_write_def)
    have ok: "audit_setting.loop_ok (am_numbers A) (am_codec A) (am_sha A) Messages [w] (am_settings A) (sv_world sv)"
      using good q(1) by (simp add: audit_setting.loop_ok_def [OF A] audit_state_ok_def max_part_def)
    have turns: "\<forall>t \<in> set (plan_turns plan). turn_others t = id \<and> turn_meanwhile t = id" using plan by (simp add: quiet_plan_def)
    have batch: "complete_batch (am_codec A) (am_numbers A) (am_cjson A) (am_sha A) ks_redis (am_settings A) (am_durability A) Messages (plan_turns plan) [w]
        (sv_world sv) = Some (results, world)" using q(2) plan by (simp add: quiet_plan_def run_batch_def)
    obtain n where n: "delivered (take n [w]) (aw_db (sv_world sv)) (aw_db world)"
        "\<forall>x \<in> set (take n [w]). \<exists>receipt. stored (am_codec A) (am_numbers A) (am_sha A) Messages (store_of world) x receipt"
        "\<forall>x receipt. (x, Inr receipt) \<in> set results \<longrightarrow> x \<in> set (take n [w])"
      using audit_setting.quiet_batch [OF A turns ok batch] by blast
    show ?thesis
    proof (cases n)
      case 0
      then have "\<forall>x. r \<noteq> Inr x" using q(3,5) n(3) answer_ofD by (metis empty_iff set_empty2 take0)
      then show ?thesis using n(1) 0 q(4) by (simp add: delivered_Nil)
    next
      case (Suc i)
      then have all: "take n [w] = [w]" by simp
      have one: "deliveries [w] k = released eff k" for k by (simp add: deliveries_def released_def w(2) split: option.splits)
      have "gained eff (aw_db (sv_world sv)) (aw_db world)" using n(1) unfolding all delivered_def gained_def one .
      moreover have "recorded A Messages (store_of world) (pw_entry w)" using n(2) all stored_recorded by fastforce
      ultimately show ?thesis using q(4) w(1) by simp
    qed
  qed
qed

lemma gate_keeps_audit:
  assumes good: "audit_state_ok A (sv_world (gw_service g))" and gate: "gate_passed m g g'"
  shows "audit_state_ok A (sv_world (gw_service g'))"
proof -
  let ?w = "sv_world (gw_service g)" and ?w' = "sv_world (gw_service g')"
  have same: "aw_files ?w' = aw_files ?w" "aw_heads ?w' = aw_heads ?w" using gate unfolding gate_passed_def
    by (metis (no_types, lifting) gateway.ext_inject gateway.surjective gateway.update_convs(2) put_db_sel(6), metis (no_types, lifting) gateway.ext_inject gateway.surjective gateway.update_convs(2) put_db_sel(7))
  have gated: "gated (gate_keys m) (aw_db ?w) (aw_db ?w')" using gate by (simp add: gate_passed_def)
  have away: "k \<notin> gate_keys m" if "has_prefix ''audit:'' k" for k using that by (auto simp: gate_keys_def)
  have stream: "st_last (stream_at k (aw_db ?w')) = st_last (stream_at k (aw_db ?w)) \<or> st_last (stream_at k (aw_db ?w')) = (0, 0)" for k
  proof (cases "ks_data (aw_db ?w') k = ks_data (aw_db ?w) k")
    case False
    then have "type_of_value (ks_data (aw_db ?w') k) \<in> {TNone, TZset, THash}" using gated unfolding gated_def by blast
    then show ?thesis by (cases "ks_data (aw_db ?w') k" rule: type_of_value.cases) (auto simp: stream_at_def empty_stream_def)
  qed (simp add: stream_at_def)
  have old: "audit_good (am_codec A) (am_numbers A) (am_sha A) (am_settings A) (aw_files ?w, aw_db ?w)" and heads: "\<forall>t. valid_hash (aw_heads ?w t)"
    using good by (auto simp: audit_state_ok_def store_of_def)
  have ids: "ids_bounded (aw_db ?w)" using old by (simp add: audit_good_def audit_inv_def)
  have "bounded_id (st_last (stream_at k (aw_db ?w')))" for k
    using stream [of k] ids by (auto simp: ids_bounded_def bounded_id_def)
  then have "ids_bounded (aw_db ?w')" using ids gated by (simp add: ids_bounded_def gated_def now_ms_def)
  moreover have "ks_data (aw_db ?w') k = ks_data (aw_db ?w) k \<and> ks_ttl (aw_db ?w') k = ks_ttl (aw_db ?w) k"
    if "k \<in> {stream_key s, head_key s, checkpoint_key s}" for s k
    using that away audit_key_prefix gated unfolding gated_def by blast
  ultimately have "audit_good (am_codec A) (am_numbers A) (am_sha A) (am_settings A) (aw_files ?w, aw_db ?w')"
    using frame_good [OF _ _ map_le_refl old] by blast
  then show ?thesis using same heads by (simp add: audit_state_ok_def store_of_def)
qed

lemma barrier_reads: "snd (barrier ks_redis s ks) = ks"
  by (simp add: barrier_def io_simps ks_read_defs)

lemma durable_one:
  "snd (durable_execute ks_redis s (one_command cmd) ks) = snd (cmd ks) \<and>
   (\<forall>x. fst (durable_execute ks_redis s (one_command cmd) ks) = Inr x \<longrightarrow> (\<exists>y. fst (cmd ks) = Inr y))"
proof -
  have pipe: "snd (pipeline_execute ks_redis (cmd # (if durability_enabled s then [barrier ks_redis s] else [])) ks) = snd (cmd ks)"
    by (auto simp: pipeline_execute_def io_simps barrier_reads split: sum.splits prod.splits)
  have "snd (durable_execute ks_redis s (one_command cmd) ks) = snd (cmd ks)"
    using pipe by (auto simp: durable_execute_def one_command_def Let_def catchio_def io_simps split: sum.splits prod.splits if_splits)
  moreover have "\<exists>y. fst (cmd ks) = Inr y" if "fst (durable_execute ks_redis s (one_command cmd) ks) = Inr x" for x
    using durable_execute_one [OF ref.redis_server_axioms, of cmd cmd s ks x "snd (durable_execute ks_redis s (one_command cmd) ks)"] that
    by (auto simp: implements_def prod_eq_iff)
  ultimately show ?thesis by blast
qed

lemma route_mails:
  assumes run: "route_message W ks_redis rt m ks = (r, ks')" and "\<not> is_reply (env_meta m)"
  shows "ks_data ks' = ks_data ks \<and> (\<forall>x. r \<noteq> Inr x) \<or>
    gained (Some \<lparr>append_stream = shared_stream (target_id m), append_fields = [(''envelope'', dump_envelope W m)]\<rparr>) ks ks' \<and>
    (\<forall>k. k \<noteq> shared_stream (target_id m) \<longrightarrow> ks_data ks' k = ks_data ks k)"
proof -
  let ?box = "shared_stream (target_id m)" and ?f = "[(''envelope'', dump_envelope W m)]"
  let ?cmd = "queued_xadd ks_redis ?box ?f"
  have prep: "prepare_stream_append W m = Inr \<lparr>append_stream = ?box, append_fields = ?f\<rparr>"
    using assms(2) by (simp add: prepare_destination destination_def)
  note d = durable_one [of "router_durability rt" ?cmd ks]
  have out: "ks' = snd (?cmd ks)" "r = Inr x \<Longrightarrow> \<exists>y. fst (?cmd ks) = Inr y" for x
    using run d by (auto simp: route_message_def prep io_simps split: sum.splits)
  show ?thesis
  proof (cases "fst (?cmd ks)")
    case (Inl e)
    then have "snd (?cmd ks) = ks"
      by (auto simp: queued_xadd_def io_simps ks_xadd_def split: sum.splits option.splits if_splits)
    then show ?thesis using out Inl by auto
  next
    case (Inr y)
    then obtain st i where st: "ks_stream ?box ks = Inr st" "ks_data (snd (?cmd ks)) = (ks_data ks)(?box \<mapsto> RStream (st\<lparr>st_entries := st_entries st @ [(i, ?f)], st_last := i\<rparr>))"
      by (auto simp: queued_xadd_def io_simps ks_xadd_def split: sum.splits option.splits if_splits)
    have "stream_at ?box ks = st" using st(1) by (auto simp: ks_stream_def stream_at_def split: option.splits rvalue.splits)
    then have "gained (Some \<lparr>append_stream = ?box, append_fields = ?f\<rparr>) ks ks'"
      using out(1) st(2) by (auto simp: gained_def mails_def released_def stream_at_def)
    then show ?thesis using out(1) st(2) by simp
  qed
qed

section \<open>The pipeline without interference\<close>

lemma audit_numerals: "audit_ok A \<Longrightarrow> numerals (am_numbers A)"
  using audit_setting.axioms(1) json_numerals.axioms(1) by blast

lemma policy_spec_passed:
  assumes "policy_spec P rc cc ks m = Inr (Passed d found m')"
  shows "(\<exists>p. m' = m\<lparr>env_data := p\<rparr>) \<and> d \<in> routable_decisions"
proof -
  have "\<exists>p. n = n\<lparr>env_data := p\<rparr>" for n :: envelope by (intro exI [of _ "env_data n"]) simp
  then show ?thesis
    using assms by (auto simp: policy_spec_def inspect_def routable_decisions_def Let_def split: if_splits option.splits sum.splits action_policy.splits)
qed

definition quiet_call :: "policy_pipeline \<Rightarrow> keyspace ingest_env \<Rightarrow> envelope \<Rightarrow> keyspace gateway \<Rightarrow> bool" where
  "quiet_call P env m g \<longleftrightarrow> audit_ok (po_audit P) \<and> audit_state_ok (po_audit P) (sv_world (gw_service g)) \<and> policy_readable P m (gw_db g) \<and>
     quiet_env env \<and> quiet_plan (po_audit P) (ie_plan env) \<and> is_double (po_numbers P) (ie_latency env)"

lemma audit_stage:
  assumes quiet: "quiet_call P env m g" and gate: "gate_passed m g g1" and eff: "append_ok eff"
    and run: "on_service (audit_decision P ks_redis env m' d found eff) g1 = Some (r, g2)"
  shows "apart_from_audit (gw_db g1) (gw_db g2) \<and> (\<forall>x. r \<noteq> Inr x) \<or>
    gained eff (gw_db g1) (gw_db g2) \<and> recorded (po_audit P) Messages (audit_store g2) (decision_record P env m' d found)"
proof -
  obtain sv where sv: "audit_decision P ks_redis env m' d found eff (gw_service g1) = Some (r, sv)" "gw_service g2 = sv"
    using run by (auto simp: on_service_def)
  note q = quiet [unfolded quiet_call_def]
  have good: "audit_state_ok (po_audit P) (sv_world (gw_service g1))" using gate_keeps_audit gate q by blast
  show ?thesis
    using log_message_quiet [OF _ good _ _ eff sv(1) [unfolded audit_decision_def]] q sv(2) unfolding decision_record_def by blast
qed

text \<open>How a call goes when nobody interferes.\<close>

lemma ingest_cases:
  assumes quiet: "quiet_call P env m g" and run: "ingest_and_route P W ks_redis env m correlation g = Some (r, g')"
  obtains (failed) g1 e where "gate_passed m g g1" "policy_spec P (ie_rate_clock env) (ie_circuit_clock env) (gw_db g) m = Inl e" "r = Inl e" "g' = g1"
    | (refused) g1 d found e r1 where "gate_passed m g g1" "policy_spec P (ie_rate_clock env) (ie_circuit_clock env) (gw_db g) m = Inr (Refused d found e)"
        "on_service (audit_decision P ks_redis env m d found None) g1 = Some (r1, g')" "r = (case r1 of Inl e' \<Rightarrow> Inl e' | Inr _ \<Rightarrow> Inl e)"
    | (unprepared) g1 d found m' e where "gate_passed m g g1" "policy_spec P (ie_rate_clock env) (ie_circuit_clock env) (gw_db g) m = Inr (Passed d found m')"
        "release P W m' correlation = Inl e" "r = Inl e" "g' = g1"
    | (unlogged) g1 d found m' eff e where "gate_passed m g g1" "policy_spec P (ie_rate_clock env) (ie_circuit_clock env) (gw_db g) m = Inr (Passed d found m')"
        "release P W m' correlation = Inr eff" "on_service (audit_decision P ks_redis env m' d found eff) g1 = Some (Inl e, g')" "r = Inl e"
    | (passed) g1 d found m' eff x g2 where "gate_passed m g g1" "policy_spec P (ie_rate_clock env) (ie_circuit_clock env) (gw_db g) m = Inr (Passed d found m')"
        "release P W m' correlation = Inr eff" "on_service (audit_decision P ks_redis env m' d found eff) g1 = Some (Inr x, g2)"
        "deliver_passed P W ks_redis m' correlation eff (gw_db g2) = (r, gw_db g')" "g' = put_db (gw_db g') g2"
proof -
  have num: "numerals (po_numbers P)" and ok: "policy_readable P m (gw_db g)" "quiet_env env"
    using quiet audit_numerals by (auto simp: quiet_call_def)
  let ?v = "policy_spec P (ie_rate_clock env) (ie_circuit_clock env) (gw_db g) m"
  obtain g1 where g1: "policy_check P ks_redis env m g = Some (?v, g1)" "gate_passed m g g1" using verdict_quiet [OF num ok] by blast
  have gap: "on_store (ie_gap env 2) h = Some (Inr (), h)" for h using ok(2) by (simp add: on_store_def quiet_env_def)
  note body = run [unfolded ingest_and_route_def bindt_def g1(1) option.case prod.case]
  show ?thesis
  proof (cases ?v)
    case (Inl e)
    then show ?thesis using failed [OF g1(2) Inl] body by simp
  next
    case (Inr v)
    show ?thesis
    proof (cases v)
      case (Refused d found e)
      obtain r1 where "on_service (audit_decision P ks_redis env m d found None) g1 = Some (r1, g')" "r = (case r1 of Inl e' \<Rightarrow> Inl e' | Inr _ \<Rightarrow> Inl e)"
        using body Inr Refused by (auto simp: bindt_def split: option.splits prod.splits sum.splits)
      then show ?thesis using refused g1(2) Inr Refused by blast
    next
      case (Passed d found m')
      show ?thesis
      proof (cases "release P W m' correlation")
        case (Inl e)
        then show ?thesis using unprepared [OF g1(2) _ Inl] body Inr Passed by (simp add: bindt_def)
      next
        case eff: (Inr eff)
        obtain r1 g2 where log: "on_service (audit_decision P ks_redis env m' d found eff) g1 = Some (r1, g2)"
          using body Inr Passed eff by (auto simp: bindt_def split: option.splits)
        show ?thesis
        proof (cases r1)
          case (Inl e)
          then show ?thesis using unlogged [OF g1(2) _ eff, of d found e] log body Inr Passed eff by (simp add: bindt_def)
        next
          case r1: (Inr x)
          have "on_store (deliver_passed P W ks_redis m' correlation eff) g2 = Some (r, g')"
            using body Inr Passed eff log r1 gap by (simp add: bindt_def)
          then have "deliver_passed P W ks_redis m' correlation eff (gw_db g2) = (r, gw_db g')" "g' = put_db (gw_db g') g2"
            by (auto simp: on_store_def split: prod.splits)
          then show ?thesis using passed [OF g1(2) _ eff] log r1 Inr Passed by blast
        qed
      qed
    qed
  qed
qed

text \<open>Delivery leaves the audit keys alone.\<close>

lemma commit_reply_touches:
  "touches {k. \<not> has_prefix ''audit:'' k} (commit_reply W ks_redis rt m c)"
proof -
  have "\<not> has_prefix ''audit:'' (pending_request_key i)" "\<not> has_prefix ''audit:'' (reply_receipt_key i)" "\<not> has_prefix ''audit:'' (instance_stream a i)" for a i
    by (simp_all add: pending_request_key_def reply_receipt_key_def instance_stream_def has_prefix_def)
  then show ?thesis
    unfolding commit_reply_def commit_reply_script_def replay_receipt_def confirm_def barrier_def of_result_def Let_def ks_redis_sel
    by (auto intro!: touches_intros)
qed

lemma touches_mono: "touches K m \<Longrightarrow> K \<subseteq> L \<Longrightarrow> touches L m"
  by (auto simp: touches_def)

lemma deliver_passed_touches: "touches {k. \<not> has_prefix ''audit:'' k} (deliver_passed P W ks_redis m correlation eff)"
proof -
  have "\<not> has_prefix ''audit:'' (shared_stream a)" "\<not> has_prefix ''audit:'' (instance_stream a i)" for a i
    by (simp_all add: shared_stream_def instance_stream_def has_prefix_def)
  then have "touches {k. \<not> has_prefix ''audit:'' k} (route_message W ks_redis (po_router P) m)"
    by (intro touches_mono [OF route_message_touches]) auto
  then show ?thesis unfolding deliver_passed_def by (auto intro!: touches_intros commit_reply_touches)
qed

lemma release_ok: "release P W m c = Inr eff \<Longrightarrow> append_ok eff \<and> (\<forall>a. eff = Some a \<longrightarrow> c = None \<and> \<not> is_reply (env_meta m) \<and>
   a = \<lparr>append_stream = shared_stream (target_id m), append_fields = [(''envelope'', dump_envelope W m)]\<rparr>)"
  by (auto simp: release_def append_ok_def prepare_destination destination_def stream_append_post_init_def shared_stream_def split: if_splits option.splits)

lemma gained_None: "gained None ks ks' \<longleftrightarrow> apart_from_audit ks ks'"
  by (auto simp: gained_def released_def apart_from_audit_def intro: mails_cong)

text \<open>From the audit record on.\<close>

lemma recorded_after_delivery:
  assumes "recorded A s (audit_store g2) entry" and "deliver_passed P W ks_redis m correlation eff (gw_db g2) = (r, gw_db g')"
    and "g' = put_db (gw_db g') g2"
  shows "recorded A s (audit_store g') entry"
proof -
  have "ks_data (gw_db g') k = ks_data (gw_db g2) k" if "has_prefix ''audit:'' k" for k
    using touchesD(3) [OF deliver_passed_touches, of k P W m correlation eff "gw_db g2"] that assms(2) by simp
  moreover have "aw_files (sv_world (gw_service g')) = aw_files (sv_world (gw_service g2))" using assms(3) by (metis put_db_sel(6))
  ultimately show ?thesis using recorded_frame assms(1) unfolding store_of_def by metis
qed

text \<open>A mailbox gains new entries at its end; besides the audit keys and some keys \<open>K\<close>, nothing else changes.\<close>

definition mailbox_step :: "string set \<Rightarrow> string \<Rightarrow> (string \<times> string) list list \<Rightarrow> keyspace \<Rightarrow> keyspace \<Rightarrow> bool" where
  "mailbox_step K box new ks ks' \<longleftrightarrow> mails box ks' = mails box ks @ new \<and>
     (\<forall>k. \<not> has_prefix ''audit:'' k \<and> k \<notin> K \<and> k \<noteq> box \<longrightarrow> ks_data ks' k = ks_data ks k)"

lemma mailbox_step_trans: "mailbox_step K box xs ks mid \<Longrightarrow> mailbox_step K box ys mid ks' \<Longrightarrow> mailbox_step K box (xs @ ys) ks ks'"
  by (simp add: mailbox_step_def)

lemma mailbox_keys: "\<not> has_prefix ''audit:'' (shared_stream a)" "shared_stream a \<notin> gate_keys m"
  by (auto simp: shared_stream_def has_prefix_def gate_keys_def circuit_key_def rl_minute_key_def rl_hour_key_def)

lemma mailbox_steps:
  "gate_passed m g g1 \<Longrightarrow> mailbox_step (gate_keys m) (shared_stream a) [] (gw_db g) (gw_db g1)"
  "apart_from_audit ks ks' \<Longrightarrow> mailbox_step K (shared_stream a) [] ks ks'"
  "gained (Some \<lparr>append_stream = shared_stream a, append_fields = mail\<rparr>) ks ks' \<Longrightarrow> mailbox_step K (shared_stream a) [mail] ks ks'"
  using mailbox_keys
  by (auto simp: mailbox_step_def gate_passed_def gated_def apart_from_audit_def gained_def released_def intro!: mails_cong)

lemma route_step:
  assumes "route_message W ks_redis rt m ks = (r, ks')" and "\<not> is_reply (env_meta m)"
  shows "mailbox_step K (shared_stream (target_id m)) [] ks ks' \<and> (\<forall>x. r \<noteq> Inr x) \<or>
    mailbox_step K (shared_stream (target_id m)) [[(''envelope'', dump_envelope W m)]] ks ks'"
  using route_mails [OF assms] mailbox_steps(3)
  by (auto simp: mailbox_step_def intro: mails_cong)

lemma delivery_step:
  assumes deliver: "deliver_passed P W ks_redis m None eff ks = (r, ks')" and "\<not> is_reply (env_meta m)"
    and eff: "eff = None \<or> eff = Some \<lparr>append_stream = shared_stream (target_id m), append_fields = [(''envelope'', dump_envelope W m)]\<rparr>"
    and log: "gained eff before ks"
  shows "(\<forall>x. r = Inr x \<longrightarrow> x = message_id m) \<and> (mailbox_step K (shared_stream (target_id m)) [] before ks' \<and> (\<forall>x. r \<noteq> Inr x) \<or>
    mailbox_step K (shared_stream (target_id m)) [[(''envelope'', dump_envelope W m)]] before ks')"
proof (cases eff)
  case None
  obtain r1 where route: "route_message W ks_redis (po_router P) m ks = (r1, ks')" "r = (case r1 of Inl e \<Rightarrow> Inl e | Inr _ \<Rightarrow> Inr (message_id m))"
    using deliver None by (auto simp: deliver_passed_def io_simps prod_eq_iff split: sum.splits)
  have "mailbox_step K (shared_stream (target_id m)) [] before ks" using log None by (simp add: gained_None mailbox_steps(2))
  note first = mailbox_step_trans [OF this, unfolded append_Nil]
  from route_step [OF route(1) assms(2), of K] show ?thesis using first route(2) by (auto split: sum.splits)
next
  case (Some a)
  then have "r = Inr (message_id m)" "ks' = ks" using deliver by (simp_all add: deliver_passed_def io_simps)
  then show ?thesis using log eff Some mailbox_steps(3) by auto
qed

subsection \<open>Calls return\<close>

definition has_room :: "audit_module \<Rightarrow> keyspace audit_plan \<Rightarrow> keyspace \<Rightarrow> bool" where
  "has_room A plan ks \<longleftrightarrow> int (length (entries_at (stream_key Messages) ks)) < stream_capacity (am_settings A) Messages \<and> 2 \<le> length (plan_turns plan)"

lemma log_message_returns:
  assumes A: "audit_ok A" and good: "audit_state_ok A (sv_world sv)" and plan: "quiet_plan A plan" and room: "has_room A plan (aw_db (sv_world sv))"
    and lat: "is_double (am_numbers A) latency" and eff: "append_ok eff"
  shows "\<exists>r sv'. log_message A ks_redis plan mid sender target decision latency payload found kind cid inst eff sv = Some (r, sv')"
proof -
  let ?e = "message_entry A (plan_clock plan) mid sender target decision latency payload found kind cid inst"
  define w where "w = queued_write A (plan_number plan) (MessageRecord ?e) Messages [''audit:by_sender:'' @ sender, ''audit:by_target:'' @ target] eff"
  show ?thesis
  proof (cases "(\<exists>a. eff = Some a \<and> (decision \<notin> routable_decisions \<or> has_prefix ''audit:'' (append_stream a))) \<or> \<not> audit_entry_ok ?e \<or> sv_closed sv")
    case True
    then show ?thesis by (auto simp: log_message_def Let_def append_entry_def bindt_def split: option.splits)
  next
    case False
    have "write_ok (am_numbers A) Messages w"
      using False eff lat plan by (auto simp: w_def write_ok_def queued_write_def append_ok_def message_entry_def has_prefix_def quiet_plan_def split: option.splits)
    then have ok: "audit_setting.loop_ok (am_numbers A) (am_codec A) (am_sha A) Messages [w] (am_settings A) (sv_world sv)"
      using good by (simp add: audit_setting.loop_ok_def [OF A] audit_state_ok_def max_part_def)
    obtain t u ts where turns: "plan_turns plan = t # u # ts" using room by (cases "plan_turns plan"; cases "tl (plan_turns plan)") (auto simp: has_room_def)
    have two: "turn_others t = id" "turn_others u = id" using plan turns by (simp_all add: quiet_plan_def)
    have fits: "int (length (entries_at (stream_key Messages) (aw_db (sv_world sv)))) + int (length [w]) \<le> stream_capacity (am_settings A) Messages"
      using room by (simp add: has_room_def)
    obtain results world where run: "complete_batch (am_codec A) (am_numbers A) (am_cjson A) (am_sha A) ks_redis (am_settings A) (am_durability A)
        Messages (plan_turns plan) [w] (sv_world sv) = Some (results, world)"
      using audit_setting.two_turns_answer [OF A ok fits two] unfolding turns by blast
    have peers: "\<forall>t \<in> set (plan_turns plan). audit_peer A (turn_others t) \<and> audit_peer A (turn_meanwhile t)" using plan peer_id by (metis quiet_plan_def)
    obtain x where "results = [(w, x)]" using audit_setting.complete_batch_result(1) [OF A peers ok run] by (cases results) auto
    then have "answer_of (plan_number plan) results = Some x" by (simp add: answer_of_def w_def queued_write_def)
    moreover have "run_batch A ks_redis Messages (plan_turns plan) (plan_before plan @ [w] @ plan_after plan) (sv_world sv) = Some (results, world)"
      using run plan by (simp add: run_batch_def quiet_plan_def)
    ultimately obtain r1 sv1 where "append_entry A ks_redis plan (MessageRecord ?e) Messages [''audit:by_sender:'' @ sender, ''audit:by_target:'' @ target] eff sv = Some (r1, sv1)"
      using False by (cases x) (simp_all add: append_entry_def w_def)
    moreover have "log_message A ks_redis plan mid sender target decision latency payload found kind cid inst eff sv =
        bindt (append_entry A ks_redis plan (MessageRecord ?e) Messages [''audit:by_sender:'' @ sender, ''audit:by_target:'' @ target] eff)
          (\<lambda>(stream_id, logged). bindt (liftt (to_sink A logged)) (\<lambda>_. liftt (ret stream_id))) sv"
      using False by (auto simp: log_message_def Let_def split: option.splits)
    ultimately show ?thesis by (cases r1) (auto simp: bindt_def split: prod.splits sum.splits)
  qed
qed

lemma gate_keeps_room: "gate_passed m g g1 \<Longrightarrow> has_room A plan (gw_db g1) = has_room A plan (gw_db g)"
proof -
  assume "gate_passed m g g1"
  moreover have "stream_key Messages \<notin> gate_keys m" by (auto simp: gate_keys_def circuit_key_def rl_minute_key_def rl_hour_key_def)
  ultimately have "ks_data (gw_db g1) (stream_key Messages) = ks_data (gw_db g) (stream_key Messages)"
    unfolding gate_passed_def gated_def by blast
  then show ?thesis by (simp add: has_room_def stream_at_def)
qed

lemma audit_decision_returns:
  assumes quiet: "quiet_call P env m g" and gate: "gate_passed m g g1" and room: "has_room (po_audit P) (ie_plan env) (gw_db g)" and eff: "append_ok eff"
  shows "\<exists>r g2. on_service (audit_decision P ks_redis env m' d found eff) g1 = Some (r, g2)"
proof -
  have "audit_state_ok (po_audit P) (sv_world (gw_service g1))" using gate_keeps_audit gate quiet by (auto simp: quiet_call_def)
  then obtain r sv where "audit_decision P ks_redis env m' d found eff (gw_service g1) = Some (r, sv)"
    unfolding audit_decision_def using log_message_returns [OF _ _ _ _ _ eff] quiet room gate_keeps_room [OF gate] by (metis quiet_call_def)
  then show ?thesis by (simp add: on_service_def)
qed

lemma quiet_ingest_returns:
  assumes quiet: "quiet_call P env m g" and room: "has_room (po_audit P) (ie_plan env) (gw_db g)"
  shows "\<exists>r g'. ingest_and_route P W ks_redis env m correlation g = Some (r, g')"
proof -
  have num: "numerals (po_numbers P)" and ok: "policy_readable P m (gw_db g)" "quiet_env env"
    using quiet audit_numerals by (auto simp: quiet_call_def)
  obtain v g1 where g1: "policy_check P ks_redis env m g = Some (v, g1)" "gate_passed m g g1" using verdict_quiet [OF num ok] by blast
  have logs: "append_ok eff \<Longrightarrow> \<exists>r g2. on_service (audit_decision P ks_redis env m' d found eff) g1 = Some (r, g2)" for m' d found eff
    using audit_decision_returns [OF quiet g1(2) room] .
  show ?thesis
  proof (cases v)
    case (Inr x)
    show ?thesis
    proof (cases x)
      case (Refused d found e)
      obtain r g2 where "on_service (audit_decision P ks_redis env m d found None) g1 = Some (r, g2)" using logs [of None m d found] by (auto simp: append_ok_def)
      then show ?thesis using g1(1) Inr Refused by (cases r) (auto simp: ingest_and_route_def bindt_def)
    next
      case (Passed d found m')
      show ?thesis
      proof (cases "release P W m' correlation")
        case (Inr eff)
        obtain r g2 where "on_service (audit_decision P ks_redis env m' d found eff) g1 = Some (r, g2)" using logs release_ok [OF Inr] by blast
        then show ?thesis using g1(1) \<open>v = Inr x\<close> Passed Inr
          by (cases r) (auto simp: ingest_and_route_def bindt_def on_store_def split: prod.splits sum.splits)
      qed (use g1(1) Inr Passed in \<open>simp add: ingest_and_route_def bindt_def\<close>)
    qed
  qed (use g1(1) in \<open>simp add: ingest_and_route_def bindt_def\<close>)
qed

section \<open>Properties\<close>

text \<open>
  C7. Every refusal that a sender sees is in the audit trail: whatever other clients and other
  writers do meanwhile, a message that the checks refuse is not accepted, and when the sender
  gets the refusal itself (not an error of the audit storage), the record of the decision,
  with its violations and the hash of the payload, is in the trail.
\<close>

theorem refusals_are_audited:
  assumes "audit_ok (po_audit P)" and "policy_check P ks_redis env m g = Some (Inr (Refused d found e), g1)"
    and "audit_state_ok (po_audit P) (sv_world (gw_service g1))" and "plan_ok (po_audit P) Messages (ie_plan env)"
    and "is_double (po_numbers P) (ie_latency env)" and "ingest_and_route P W ks_redis env m correlation g = Some (r, g')"
  shows "(\<forall>x. r \<noteq> Inr x) \<and> (r = Inl e \<longrightarrow> recorded (po_audit P) Messages (audit_store g') (decision_record P env m d found))"
proof -
  obtain r1 where log: "on_service (audit_decision P ks_redis env m d found None) g1 = Some (r1, g')" "r = (case r1 of Inl e' \<Rightarrow> Inl e' | Inr _ \<Rightarrow> Inl e)"
    using assms(6) by (auto simp: ingest_and_route_def bindt_def assms(2) split: option.splits prod.splits sum.splits)
  obtain sv where sv: "audit_decision P ks_redis env m d found None (gw_service g1) = Some (r1, sv)" "gw_service g' = sv"
    using log(1) by (auto simp: on_service_def)
  note run = sv(1) [unfolded audit_decision_def]
  have "recorded (po_audit P) Messages (audit_store g') (decision_record P env m d found)" if "r = Inl e"
  proof (cases r1)
    case (Inl e')
    then show ?thesis using log(2) that verdict_is_rpc [OF assms(2)] log_message_error run by fastforce
  next
    case (Inr x)
    have "append_ok None" by (simp add: append_ok_def)
    from log_message_recorded [OF assms(1,3,4,5) this run [unfolded Inr]] show ?thesis unfolding decision_record_def sv(2) .
  qed
  then show ?thesis using log(2) by (auto split: sum.splits)
qed

lemma example_state_ok: "audit_state_ok (po_audit example_pipeline) (sv_world (gw_service example_gateway))"
proof -
  have away: "\<not> has_prefix ''audit:'' (allowed_key ''a'')" "\<not> has_prefix ''audit:'' (sessions_key ''b'')"
    by (simp_all add: allowed_key_def sessions_key_def has_prefix_def)
  have "ks_data example_storage k = None \<and> ks_ttl example_storage k = None" if "k \<in> {stream_key s, head_key s, checkpoint_key s}" for s k
  proof -
    have "has_prefix ''audit:'' k" using that audit_key_prefix by blast
    then have "k \<noteq> allowed_key ''a''" "k \<noteq> sessions_key ''b''" using away by blast+
    then show ?thesis by (simp add: example_storage_at)
  qed
  moreover have "ids_bounded example_storage"
    by (auto simp: ids_bounded_def bounded_id_def stream_at_def example_storage_at now_ms_def empty_stream_def)
  ultimately have "audit_good (json_codec point_numbers) point_numbers letters_sha example_retention (Map.empty, example_storage)"
    using frame_good [OF _ _ map_le_refl example_store_good] by simp
  then show ?thesis by (simp add: audit_state_ok_def example_pipeline_def example_gateway_def store_of_def valid_hash_def)
qed

lemma example_call: "quiet_call example_pipeline example_env example_message example_gateway"
proof -
  have "audit_ok (po_audit example_pipeline)" using point_audit.audit_setting_axioms by (simp add: example_pipeline_def)
  moreover have "quiet_plan (po_audit example_pipeline) (ie_plan example_env)" "is_double (po_numbers example_pipeline) (ie_latency example_env)"
    by (simp_all add: quiet_plan_def example_env_def example_plan_def example_turn_def example_pipeline_def point_numbers_def decimal_numbers_def)
  moreover have "policy_readable example_pipeline example_message (gw_db example_gateway)" using example_readable by (simp add: example_gateway_def)
  ultimately show ?thesis using example_state_ok example_quiet by (simp add: quiet_call_def)
qed

lemma example_room: "has_room (po_audit example_pipeline) (ie_plan example_env) (gw_db example_gateway)"
proof -
  have "ks_data example_storage ''audit:messages'' = None" by (simp add: example_storage_at allowed_key_def sessions_key_def)
  then show ?thesis
    by (simp add: has_room_def example_pipeline_def example_env_def example_plan_def example_gateway_def stream_at_def empty_stream_def stream_capacity_def example_retention_def)
qed

lemma example_verdict:
  "policy_spec example_pipeline (ie_rate_clock example_env) (ie_circuit_clock example_env) (gw_db example_gateway) example_message = Inr (Passed ''ALLOWED'' [] example_message)"
  using example_passes by (simp add: example_env_def example_gateway_def)

definition unknown_target :: envelope where
  "unknown_target = example_message\<lparr>target_id := ''c''\<rparr>"

lemma unknown_target_readable: "policy_readable example_pipeline unknown_target example_storage"
proof -
  have keys: "sessions_key ''c'' \<notin> {sessions_key ''b'', allowed_key ''a''}" "circuit_key ''c'' \<notin> {sessions_key ''b'', allowed_key ''a''}"
    by (simp_all add: sessions_key_def allowed_key_def circuit_key_def)
  have "auth_readable ''a'' ''c'' example_storage"
    using example_keys keys by (auto simp: auth_readable_def example_storage_at set_at_def)
  moreover have "\<exists>st. status_at point_numbers (circuit_key ''c'') example_storage = Inr st"
    using keys by (simp add: status_at_def read_status_def io_simps ks_hgetall_def example_storage_at status_from_data_def model_field_def bindr_def)
  ultimately show ?thesis using example_readable by (auto simp: policy_readable_def example_pipeline_def unknown_target_def example_message_def)
qed

lemma unknown_target_refused:
  "policy_spec example_pipeline x y example_storage unknown_target =
     Inr (Refused ''AUTHZ_DENIED'' [''authorization_denied''] (PermissionDeniedError ''not_authorized''))"
proof -
  have "\<not> connected ''c'' example_storage" by (auto simp: connected_def example_storage_at sessions_key_def allowed_key_def)
  then show ?thesis by (simp add: policy_spec_def permitted_def unknown_target_def)
qed

theorem refusals_are_audited_witness:
  "\<exists>r g'. ingest_and_route example_pipeline json_wire ks_redis example_env unknown_target None example_gateway = Some (r, g') \<and> (\<forall>x. r \<noteq> Inr x) \<and>
    (r = Inl (PermissionDeniedError ''not_authorized'') \<longrightarrow> recorded (po_audit example_pipeline) Messages (audit_store g')
      (decision_record example_pipeline example_env unknown_target ''AUTHZ_DENIED'' [''authorization_denied'']))"
proof -
  have read: "policy_readable example_pipeline unknown_target (gw_db example_gateway)" using unknown_target_readable by (simp add: example_gateway_def)
  obtain g1 where check: "policy_check example_pipeline ks_redis example_env unknown_target example_gateway =
      Some (Inr (Refused ''AUTHZ_DENIED'' [''authorization_denied''] (PermissionDeniedError ''not_authorized'')), g1)" "gate_passed unknown_target example_gateway g1"
    using verdict_quiet [OF example_numerals read example_quiet] unknown_target_refused by (auto simp: example_gateway_def)
  have call: "quiet_call example_pipeline example_env unknown_target example_gateway" using example_call read by (simp add: quiet_call_def)
  have "plan_ok (po_audit example_pipeline) Messages (ie_plan example_env)"
    by (simp add: plan_ok_def example_env_def example_plan_def example_turn_def example_pipeline_def point_numbers_def decimal_numbers_def max_part_def peer_id)
  note facts = gate_keeps_audit [OF example_state_ok check(2)] this
  obtain r g' where run: "ingest_and_route example_pipeline json_wire ks_redis example_env unknown_target None example_gateway = Some (r, g')"
    using quiet_ingest_returns [OF call example_room] by blast
  have "audit_ok (po_audit example_pipeline)" "is_double (po_numbers example_pipeline) (ie_latency example_env)" using example_call by (simp_all add: quiet_call_def)
  from refusals_are_audited [OF this(1) check(1) facts this(2) run] run show ?thesis by blast
qed

text \<open>
  C6. Nothing unaudited gets through. However a call ends, either the policy let the message
  pass and the record of that decision, on the content that was let through, is in the audit
  trail, or the call has changed nothing besides the audit keys, the windows of the sender
  and the circuit of the target. The call runs without interference on a healthy audit
  trail.
\<close>

theorem nothing_unaudited:
  assumes "quiet_call P env m g" and "ingest_and_route P W ks_redis env m correlation g = Some (r, g')"
  shows "(\<exists>d found m'. policy_spec P (ie_rate_clock env) (ie_circuit_clock env) (gw_db g) m = Inr (Passed d found m') \<and>
      recorded (po_audit P) Messages (audit_store g') (decision_record P env m' d found)) \<or>
    (\<forall>k. \<not> has_prefix ''audit:'' k \<and> k \<notin> gate_keys m \<longrightarrow> ks_data (gw_db g') k = ks_data (gw_db g) k)"
proof -
  have gate: "ks_data (gw_db g1) k = ks_data (gw_db g) k" if "gate_passed m g g1" "k \<notin> gate_keys m" for g1 k
    using that by (simp add: gate_passed_def gated_def)
  have none: "append_ok None" by (simp add: append_ok_def)
  from assms show ?thesis
  proof (cases rule: ingest_cases)
    case (refused g1 d found e r1)
    from audit_stage [OF assms(1) refused(1) none refused(3)] show ?thesis
      using gate [OF refused(1)] by (auto simp: gained_None apart_from_audit_def)
  next
    case (unlogged g1 d found m' eff e)
    from audit_stage [OF assms(1) unlogged(1) _ unlogged(4)] release_ok [OF unlogged(3)] show ?thesis
      using gate [OF unlogged(1)] unlogged(2) by (auto simp: apart_from_audit_def)
  next
    case (passed g1 d found m' eff x g2)
    from audit_stage [OF assms(1) passed(1) _ passed(4)] release_ok [OF passed(3)]
    have "recorded (po_audit P) Messages (audit_store g2) (decision_record P env m' d found)" by blast
    then show ?thesis using passed(2) recorded_after_delivery [OF _ passed(5,6)] by blast
  qed (use gate in metis)+
qed

theorem nothing_unaudited_witness:
  "\<exists>r g'. ingest_and_route example_pipeline json_wire ks_redis example_env example_message None example_gateway = Some (r, g') \<and>
    ((\<exists>d found m'. recorded (po_audit example_pipeline) Messages (audit_store g') (decision_record example_pipeline example_env m' d found)) \<or>
     (\<forall>k. \<not> has_prefix ''audit:'' k \<and> k \<notin> gate_keys example_message \<longrightarrow> ks_data (gw_db g') k = ks_data (gw_db example_gateway) k))"
proof -
  obtain r g' where run: "ingest_and_route example_pipeline json_wire ks_redis example_env example_message None example_gateway = Some (r, g')"
    using quiet_ingest_returns [OF example_call example_room] by blast
  from nothing_unaudited [OF example_call run] run show ?thesis by blast
qed

lemma passed_delivered:
  assumes "quiet_call P env m g" and "\<not> is_reply (env_meta m)"
    and "policy_spec P (ie_rate_clock env) (ie_circuit_clock env) (gw_db g) m = Inr (Passed d found m')"
    and "ingest_and_route P W ks_redis env m None g = Some (r, g')"
  shows "(\<forall>x. r = Inr x \<longrightarrow> x = message_id m) \<and>
    (mailbox_step (gate_keys m) (shared_stream (target_id m)) [] (gw_db g) (gw_db g') \<and> (\<forall>x. r \<noteq> Inr x) \<or>
     mailbox_step (gate_keys m) (shared_stream (target_id m)) [[(''envelope'', dump_envelope W m')]] (gw_db g) (gw_db g') \<and>
       recorded (po_audit P) Messages (audit_store g') (decision_record P env m' d found))"
proof -
  let ?box = "shared_stream (target_id m)" and ?mail = "[(''envelope'', dump_envelope W m')]"
  obtain p where m': "m' = m\<lparr>env_data := p\<rparr>" using policy_spec_passed [OF assms(3)] by blast
  have sel: "target_id m' = target_id m" "message_id m' = message_id m" "\<not> is_reply (env_meta m')" using assms(2) by (simp_all add: m')
  have release: "append_ok eff \<and> (eff = None \<or> eff = Some \<lparr>append_stream = ?box, append_fields = ?mail\<rparr>)" if "release P W m' None = Inr eff" for eff
    using release_ok [OF that] sel by (cases eff) auto
  from assms(1,4) show ?thesis
  proof (cases rule: ingest_cases)
    case (unlogged g1 d1 found1 m1 eff e)
    then have eq: "d1 = d" "found1 = found" "m1 = m'" using assms(3) by simp_all
    note rel = release [OF unlogged(3) [unfolded eq]] and first = mailbox_step_trans [OF mailbox_steps(1) [OF unlogged(1)], unfolded append_Nil]
    from audit_stage [OF assms(1) unlogged(1) rel [THEN conjunct1] unlogged(4), unfolded eq] show ?thesis
      using rel first mailbox_steps(2,3) unlogged(5) by (auto simp: gained_None)
  next
    case (passed g1 d1 found1 m1 eff x g2)
    then have eq: "d1 = d" "found1 = found" "m1 = m'" using assms(3) by simp_all
    note rel = release [OF passed(3) [unfolded eq]] and first = mailbox_step_trans [OF mailbox_steps(1) [OF passed(1)], unfolded append_Nil]
    from audit_stage [OF assms(1) passed(1) rel [THEN conjunct1] passed(4), unfolded eq]
    have logged: "gained eff (gw_db g1) (gw_db g2)" "recorded (po_audit P) Messages (audit_store g2) (decision_record P env m' d found)" by blast+
    from delivery_step [OF passed(5) [unfolded eq] sel(3) _ logged(1), of "gate_keys m", unfolded sel(1,2)] rel
    show ?thesis using first recorded_after_delivery [OF logged(2) passed(5,6)] by blast
  qed (use assms(3) sel in \<open>auto simp: release_def prepare_destination destination_def split: if_splits\<close>)
qed

text \<open>
  C9. A message that the policy lets pass is delivered once and as it was inspected. The call
  returns the identifier of the message or raises; the mailbox of the target has either
  gained nothing, and the call has raised, or exactly one entry, the message with the
  redacted payload where redaction applied, and then the record of the decision is in the
  trail; no other key changes besides the audit keys and those of the checks. This covers
  the combined write of record and message as well as the separate ones.
\<close>

theorem passed_message_delivered:
  assumes "quiet_call P env m g" and "\<not> is_reply (env_meta m)"
    and "policy_spec P (ie_rate_clock env) (ie_circuit_clock env) (gw_db g) m = Inr (Passed d found m')"
    and "ingest_and_route P W ks_redis env m None g = Some (r, g')"
  shows "(\<forall>x. r = Inr x \<longrightarrow> x = message_id m) \<and>
    (mailbox_step (gate_keys m) (shared_stream (target_id m)) [] (gw_db g) (gw_db g') \<and> (\<forall>x. r \<noteq> Inr x) \<or>
     mailbox_step (gate_keys m) (shared_stream (target_id m)) [[(''envelope'', dump_envelope W m')]] (gw_db g) (gw_db g') \<and>
       recorded (po_audit P) Messages (audit_store g') (decision_record P env m' d found))"
  using passed_delivered [OF assms] .

theorem passed_message_delivered_witness:
  "\<exists>r g'. ingest_and_route example_pipeline json_wire ks_redis example_env example_message None example_gateway = Some (r, g') \<and>
    (\<forall>x. r = Inr x \<longrightarrow> x = ''m1'' \<and> mails ''agent.stream:b'' (gw_db g') = [[(''envelope'', dump_envelope json_wire example_message)]])"
proof -
  obtain r g' where run: "ingest_and_route example_pipeline json_wire ks_redis example_env example_message None example_gateway = Some (r, g')"
    using quiet_ingest_returns [OF example_call example_room] by blast
  have box: "shared_stream (target_id example_message) = ''agent.stream:b''" "\<not> is_reply (env_meta example_message)" "message_id example_message = ''m1''"
    by (simp_all add: shared_stream_def example_message_def default_meta_def)
  have "mails ''agent.stream:b'' (gw_db example_gateway) = []"
    by (simp add: mails_def stream_at_def example_gateway_def example_storage_at allowed_key_def sessions_key_def empty_stream_def)
  with passed_message_delivered [OF example_call box(2) example_verdict run] run show ?thesis
    unfolding box mailbox_step_def by auto
qed

end
