(* ===== verification/Audit_Live.thy ===== *)
theory Audit_Live
  imports Audit_Log
begin

text \<open>
  When the audit trail accepts a record: on healthy storage with room, the writer that nobody
  disturbs stores a batch in at most two turns, and \<open>log_message\<close> returns.
\<close>

section \<open>The script accepts\<close>

lemma ready_checks:
  assumes ready: "ready keys n rs ks" and app: "set (appended_keys rs) \<subseteq> insert 1 {n + 3 .. length keys}"
  shows "\<exists>u. mapio (\<lambda>i. check_position ks_redis (st_last (stream_at (lua_key keys 1) ks)) (lua_key keys i)) [3 ..< n + 3] ks = (Inr u, ks)"
    "\<exists>u. mapio (check_exhausted ks_redis keys rs) (appended_keys rs) ks = (Inr u, ks)"
proof -
  note r = readyD [OF ready]
  let ?pos = "\<lambda>i. check_position ks_redis (st_last (stream_at (lua_key keys 1) ks)) (lua_key keys i)"
  have at: "last_id ks_redis (lua_key keys k) ks = (Inr (st_last (stream_at (lua_key keys k) ks)), ks)" if "k \<in> {1 .. length keys} - {2}" for k
    using that by (intro last_id_typed r(6))
  have "\<exists>u. fst (?pos i ks) = Inr u" if "i \<in> set [3 ..< n + 3]" for i
  proof -
    have i: "i \<in> {3 .. n + 2}" "i \<in> {1 .. length keys} - {2}" using that r(2) by auto
    then show ?thesis using at [OF i(2)] r(7) [OF i(1)] by (simp add: check_position_def io_simps)
  qed
  then have "\<exists>u. fst (mapio ?pos [3 ..< n + 3] ks) = Inr u" by (subst mapio_reads(2)) simp_all
  moreover have "snd (mapio ?pos [3 ..< n + 3] ks) = ks" by (rule mapio_reads(1)) simp
  ultimately show "\<exists>u. mapio ?pos [3 ..< n + 3] ks = (Inr u, ks)" by (metis prod.collapse)
  have "\<exists>u. fst (check_exhausted ks_redis keys rs k ks) = Inr u" if "k \<in> set (appended_keys rs)" for k
  proof -
    have k: "k \<in> insert 1 {n + 3 .. length keys}" "k \<in> {1 .. length keys} - {2}" using that app r(2) by auto
    then show ?thesis using at [OF k(2)] r(8) [OF k(1)] by (auto simp: check_exhausted_def io_simps room_def)
  qed
  then have "\<exists>u. fst (mapio (check_exhausted ks_redis keys rs) (appended_keys rs) ks) = Inr u" by (subst mapio_reads(2)) simp_all
  moreover have "snd (mapio (check_exhausted ks_redis keys rs) (appended_keys rs) ks) = ks" by (rule mapio_reads(1)) simp
  ultimately show "\<exists>u. mapio (check_exhausted ks_redis keys rs) (appended_keys rs) ks = (Inr u, ks)" by (metis prod.collapse)
qed

lemma appended_keys_range:
  assumes "list_all (batch_fits n l) rs"
  shows "set (appended_keys rs) \<subseteq> insert 1 {n + 3 .. l}"
proof -
  have "fst a \<in> {n + 3 .. l}" if "r \<in> set rs" "br_append r = Some a" for r a
    using assms that by (fastforce simp: list_all_iff batch_fits_def)
  moreover have "k = 1 \<or> (\<exists>r \<in> set rs. \<exists>a. br_append r = Some a \<and> k = fst a)" if "k \<in> set (appended_keys rs)" for k
    using that by (auto simp: appended_keys_def split: option.splits) metis
  ultimately show ?thesis by blast
qed

lemma write_records_accepts:
  assumes ready: "ready keys n rs ks" and fits: "list_all (batch_fits n (length keys)) rs"
  shows "\<exists>ids ks'. write_records ks_redis keys final n rs ks = (Inr (''ok'' # map sid_text ids), ks') \<and> length ids = length rs"
proof -
  have "stream_typed (lua_key keys 1) ks" using readyD(2,6) [OF ready] by auto
  then have main: "last_id ks_redis (lua_key keys 1) ks = (Inr (st_last (stream_at (lua_key keys 1) ks)), ks)" by (rule last_id_typed)
  obtain u v where checks: "mapio (\<lambda>i. check_position ks_redis (st_last (stream_at (lua_key keys 1) ks)) (lua_key keys i)) [3 ..< n + 3] ks = (Inr u, ks)"
      "mapio (check_exhausted ks_redis keys rs) (appended_keys rs) ks = (Inr v, ks)"
    using ready_checks [OF ready appended_keys_range [OF fits]] by blast
  obtain ids mid where "mapio (append_record ks_redis keys) rs ks = (Inr ids, mid)" "wrote keys n rs ids ks mid"
    using append_records_run [OF ready] by blast
  then show ?thesis unfolding write_records_def
    by (auto simp: io_simps main checks ks_set_def wrote_def simp del: One_nat_def upt_Suc)
qed

lemma append_script_accepts:
  assumes typed: "keys_typed keys ks" and ready: "ready keys n rs ks" and fits: "list_all (batch_fits n (length keys)) rs"
    and j: "D j = Some (JList (map batch_json rs))" and some: "rs \<noteq> []"
    and head: "entries_at (lua_key keys 1) ks \<noteq> [] \<Longrightarrow> string_at (lua_key keys 2) ks \<noteq> None" "string_at (lua_key keys 2) ks \<noteq> Some []"
    and cap: "int (length (entries_at (lua_key keys 1) ks)) + int (length rs) \<le> cap"
  shows "append_script D ks_redis keys prev final cap j n ks = (Inr [''retry'', or_empty (string_at (lua_key keys 2) ks)], ks) \<and>
      or_empty (string_at (lua_key keys 2) ks) \<noteq> prev \<or>
    (\<exists>ids ks'. append_script D ks_redis keys prev final cap j n ks = (Inr (''ok'' # map sid_text ids), ks') \<and> length ids = length rs)"
proof -
  have keys: "n + 2 \<le> length keys" "2 \<le> length keys" using readyD(2) [OF ready] by simp_all
  obtain us where us: "mapio (check_key ks_redis) (zip [1 ..< length keys + 1] keys) ks = (Inr us, ks)"
    using check_keys_run [OF keys(2), of ks] typed by (metis prod.collapse)
  have t: "type_of_value (ks_data ks (lua_key keys 2)) \<in> {TNone, TString}" "stream_typed (lua_key keys 1) ks"
    using typed keys(2) by (auto simp: keys_typed_def)
  have get: "GET ks_redis (lua_key keys 2) ks = (Inr (string_at (lua_key keys 2) ks), ks)"
    "XLEN ks_redis (lua_key keys 1) ks = (Inr (length (entries_at (lua_key keys 1) ks)), ks)"
    using get_string [OF t(1)] xlen_typed [OF t(2)] by simp_all
  note start = us get j check_records_json [OF fits]
  show ?thesis
  proof (cases "or_empty (string_at (lua_key keys 2) ks) = prev")
    case False
    then show ?thesis unfolding append_script_def by (simp add: io_simps start del: One_nat_def ks_redis_sel upt_Suc)
  next
    case True
    have "prev \<noteq> []" if "entries_at (lua_key keys 1) ks \<noteq> []" using True head that by (auto simp: or_empty_def split: option.splits)
    then have "append_script D ks_redis keys prev final cap j n ks = write_records ks_redis keys final n rs ks"
      unfolding append_script_def using True some cap keys by (auto simp: io_simps start Let_def simp del: One_nat_def ks_redis_sel upt_Suc)
    then show ?thesis using write_records_accepts [OF ready fits, of final] by simp
  qed
qed

section \<open>The writer accepts\<close>

text \<open>
  Storage on which a batch can be written: every key has its type, no index is ahead of the
  main stream, and the streams that draw identifiers have some left.
\<close>

definition accepts :: "audit_stream \<Rightarrow> pending_write list \<Rightarrow> keyspace \<Rightarrow> bool" where
  "accepts s ws ks \<longleftrightarrow> type_of_value (ks_data ks (head_key s)) \<in> {TNone, TString} \<and> stream_typed (stream_key s) ks \<and>
     room (length ws) (st_last (stream_at (stream_key s) ks)) \<and>
     (\<forall>k \<in> set (batch_indexes ws). stream_typed k ks \<and> st_last (stream_at k ks) \<le> st_last (stream_at (stream_key s) ks)) \<and>
     (\<forall>k \<in> set (batch_effects ws). stream_typed k ks \<and> room (length ws) (st_last (stream_at k ks)))"

lemma lua_key_append:
  "lua_key (a # b # ks @ es) (Suc 0) = a" "lua_key (a # b # ks @ es) 2 = b"
  "3 \<le> k \<Longrightarrow> k \<le> length ks + 2 \<Longrightarrow> lua_key (a # b # ks @ es) k \<in> set ks"
  "length ks + 3 \<le> k \<Longrightarrow> k \<le> length ks + length es + 2 \<Longrightarrow> lua_key (a # b # ks @ es) k \<in> set es"
proof -
  show "lua_key (a # b # ks @ es) k \<in> set ks" if "3 \<le> k" "k \<le> length ks + 2"
  proof -
    from that(1) obtain i where "k = 3 + i" by (blast dest: le_Suc_ex)
    then show ?thesis using that(2) by (simp add: lua_key_def nth_append numeral_3_eq_3)
  qed
  show "lua_key (a # b # ks @ es) k \<in> set es" if "length ks + 3 \<le> k" "k \<le> length ks + length es + 2"
  proof -
    from that(1) obtain i where "k = length ks + 3 + i" by (blast dest: le_Suc_ex)
    then show ?thesis using that(2) by (simp add: lua_key_def nth_append numeral_3_eq_3)
  qed
qed (simp_all add: lua_key_def)

lemma append_count_le: "append_count rs k \<le> length rs"
  by (simp add: append_count_def)

lemma accepts_ready:
  assumes acc: "accepts s ws ks" and keys: "distinct (batch_keys s ws)" and len: "length rs = length ws" "length rs \<le> max_part"
    and fits: "list_all (batch_fits (length (batch_indexes ws)) (length (batch_keys s ws))) rs" and ids: "ids_bounded ks"
  shows "keys_typed (batch_keys s ws) ks" "ready (batch_keys s ws) (length (batch_indexes ws)) rs ks"
proof -
  let ?keys = "batch_keys s ws" and ?n = "length (batch_indexes ws)"
  have at: "lua_key ?keys (Suc 0) = stream_key s" "lua_key ?keys 2 = head_key s"
    "3 \<le> k \<Longrightarrow> k \<le> ?n + 2 \<Longrightarrow> lua_key ?keys k \<in> set (batch_indexes ws)"
    "?n + 3 \<le> k \<Longrightarrow> k \<le> length ?keys \<Longrightarrow> lua_key ?keys k \<in> set (batch_effects ws)" for k
    using lua_key_append [where a = "stream_key s" and b = "head_key s" and ks = "batch_indexes ws" and es = "batch_effects ws"]
    by (simp_all add: batch_keys_def)
  have typed: "stream_typed (lua_key ?keys k) ks" if k: "k \<in> {1 .. length ?keys} - {2}" for k
  proof -
    consider "k = Suc 0" | "3 \<le> k" "k \<le> ?n + 2" | "?n + 3 \<le> k" "k \<le> length ?keys" using k by force
    then show ?thesis using acc at by cases (auto simp: accepts_def)
  qed
  then show "keys_typed ?keys ks" using acc at(2) by (simp add: keys_typed_def accepts_def)
  have "room (append_count rs k) (st_last (stream_at (lua_key ?keys k) ks))" if k: "k \<in> insert 1 {?n + 3 .. length ?keys}" for k
  proof -
    have "room (length ws) (st_last (stream_at (lua_key ?keys k) ks))" using k acc at by (auto simp: accepts_def)
    then show ?thesis using append_count_le [of rs k] len(1) by (auto intro: room_mono)
  qed
  moreover have "st_last (stream_at (lua_key ?keys k) ks) \<le> st_last (stream_at (lua_key ?keys 1) ks)" if "k \<in> {3 .. ?n + 2}" for k
    using that acc at by (auto simp: accepts_def)
  moreover have "list_all (record_ok ?n (length ?keys)) rs" using fits batch_fits_ok by (auto simp: list_all_iff)
  ultimately show "ready ?keys ?n rs ks"
    using keys len ids typed by (auto simp: ready_def ids_bounded_def batch_keys_def)
qed

lemma walk_rows_head: "walk_rows N sha s h rows = Inr (None, ixs) \<Longrightarrow> rows = []"
proof (induction rows arbitrary: h ixs)
  case (Cons row rows)
  then obtain h' ixs' where "walk_rows N sha s (Some h') rows = Inr (None, ixs')"
    by (auto split: sum.splits if_splits prod.splits)
  then show ?case using Cons.IH by force
qed simp

text \<open>Attempts take no time and leave the acknowledgements, and among the deadlines they touch at most the one of the head.\<close>

definition timeless :: "string \<Rightarrow> keyspace \<Rightarrow> keyspace \<Rightarrow> bool" where
  "timeless h ks ks' \<longleftrightarrow> ks_now ks' = ks_now ks \<and> ks_acks ks' = ks_acks ks \<and> (\<forall>k. k \<noteq> h \<longrightarrow> ks_ttl ks' k = ks_ttl ks k)"

lemma timeless_trans: "timeless h x y \<Longrightarrow> timeless h y z \<Longrightarrow> timeless h x z"
  by (simp add: timeless_def)

context audit_setting
begin

lemma attempt_accepts:
  assumes run: "append_attempt N cjson sha ks_redis settings s ws w = (out, w')" and ok: "loop_ok s ws settings w"
    and acc: "accepts s ws (aw_db w)" and some: "ws \<noteq> []"
    and fits: "int (length (entries_at (stream_key s) (aw_db w))) + int (length ws) \<le> stream_capacity settings s"
  shows "out = Inr Retry \<or> (\<exists>ids links. out = Inr (Committed ids links) \<and> length ids = length ws \<and> length links = length ws)"
proof -
  note o = ok[unfolded loop_ok_def]
  have inv: "audit_chain C N sha (aw_db w) s" "ids_bounded (aw_db w)" "list_all (write_ok N s) ws" "length ws \<le> max_part"
    using o by (auto simp: audit_good_def audit_inv_def store_of_def)
  have hash: "valid_hash (string_at (head_key s) (aw_db w))" using audit_chain_head inv(1) .
  obtain h ixs where walk: "walk_rows N sha s h (dict_rows (entries_at (stream_key s) (aw_db w))) = Inr (string_at (head_key s) (aw_db w), ixs)"
    using inv(1) by (auto simp: audit_chain_def)
  have head: "entries_at (stream_key s) (aw_db w) \<noteq> [] \<Longrightarrow> string_at (head_key s) (aw_db w) \<noteq> None" "string_at (head_key s) (aw_db w) \<noteq> Some []"
    using walk walk_rows_head [of N sha s h "dict_rows (entries_at (stream_key s) (aw_db w))"] hash
    by (auto simp: dict_rows_def valid_hash_def is_hex64_def)
  obtain links fs final where links: "link_batch N sha (aw_heads w s) ws = (links, fs, final)" by (metis prod_cases3)
  let ?keys = "batch_keys s ws" and ?n = "length (batch_indexes ws)"
  let ?records = "map2 (batch_record_of (batch_indexes ws @ batch_effects ws)) ws fs"
  note b = batch_script [OF inv(3) links]
  have k12: "lua_key ?keys 1 = stream_key s" "lua_key ?keys 2 = head_key s" by (simp_all add: batch_keys_def lua_key_def)
  note r = accepts_ready [OF acc batch_keys_sets(4) [OF inv(3)] b(2) _ b(1) inv(2)]
  have "?records \<noteq> []" "length ?records \<le> max_part" using b(2) some inv(4) by (metis length_0_conv, simp)
  note full = this
  let ?j = "json_dumps N (JList (map batch_json ?records))"
  let ?script = "append_script cjson ks_redis ?keys (or_empty (aw_heads w s)) (or_empty final) (stream_capacity settings s) ?j ?n (aw_db w)"
  have "?script = (Inr [''retry'', or_empty (string_at (lua_key ?keys 2) (aw_db w))], aw_db w) \<and> or_empty (string_at (lua_key ?keys 2) (aw_db w)) \<noteq> or_empty (aw_heads w s) \<or>
      (\<exists>ids ks'. ?script = (Inr (''ok'' # map sid_text ids), ks') \<and> length ids = length ?records)"
    by (rule append_script_accepts [where D = cjson and j = ?j, OF r(1) [OF full(2)] r(2) [OF full(2)] b(1) b(4) full(1)])
       (unfold k12 b(2), fact head, fact head, fact fits)
  then consider "?script = (Inr [''retry'', or_empty (string_at (head_key s) (aw_db w))], aw_db w)"
    | ids ks' where "?script = (Inr (''ok'' # map sid_text ids), ks')" "length ids = length ws" unfolding k12 b(2) by fast
  then show ?thesis
  proof cases
    case 1
    then show ?thesis using run links hash by (auto simp: append_attempt_def batch_keys_def Let_def or_empty_def valid_hash_def split: option.splits if_splits)
  next
    case (2 ids ks')
    have "length links = length ws" using link_batch_shape [OF inv(3) links] by simp
    then show ?thesis using run links 2 by (auto simp: append_attempt_def batch_keys_def Let_def)
  qed
qed

lemma attempt_timeless:
  assumes run: "append_attempt N cjson sha ks_redis settings s ws w = (out, w')" and ok: "loop_ok s ws settings w"
  shows "timeless (head_key s) (aw_db w) (aw_db w')"
proof -
  have "valid_hash (string_at (head_key s) (aw_db w))" "ids_bounded (aw_db w)" "list_all (write_ok N s) ws" "length ws \<le> max_part" "valid_hash (aw_heads w s)"
    using ok audit_chain_head by (auto simp: loop_ok_def audit_good_def audit_inv_def store_of_def)
  from run this(3,4,2,5,1) show ?thesis
    by (cases rule: attempt_cases) (simp_all add: timeless_def wrote_def ks_set_def)
qed

lemma two_turns_store:
  assumes ok: "loop_ok s ws settings w" and acc: "accepts s ws (aw_db w)" and some: "ws \<noteq> []"
    and fits: "int (length (entries_at (stream_key s) (aw_db w))) + int (length ws) \<le> stream_capacity settings s"
    and quiet: "turn_others t = id" "turn_others u = id" and durable: "acknowledged durability (aw_db w)"
  shows "\<exists>receipts w'. complete_batch C N cjson sha ks_redis settings durability s (t # u # ts) ws w = Some (map2 (\<lambda>x receipt. (x, Inr receipt)) ws receipts, w') \<and>
    length receipts = length ws \<and> timeless (head_key s) (aw_db w) (aw_db w')"
proof -
  have confirm: "on_db (confirm ks_redis durability) x = (Inr (), x)" if "timeless (head_key s) (aw_db w) (aw_db x)" for x
    using durable acknowledged_cong [of "aw_db w" "aw_db x" durability] that by (simp add: on_db_def confirm_ks timeless_def)
  define answers :: "string list \<Rightarrow> string option list \<Rightarrow> write_receipt list" where
    "answers = (\<lambda>ids links. map (\<lambda>(i, link). \<lparr>wr_stream_id = i, wr_previous_hash = link\<rparr>) (zip ids links))"
  have zipped: "map (\<lambda>(write, receipt). (write, Inr receipt)) (map2 (\<lambda>write (i, link). (write, \<lparr>wr_stream_id = i, wr_previous_hash = link\<rparr>)) ws (zip ids links)) =
      map2 (\<lambda>x receipt. (x, Inr receipt)) ws (answers ids links)" for ids links
    by (auto simp: answers_def zip_map2 map2_map_map case_prod_unfold intro!: nth_equalityI)
  have answered: "length (answers ids links) = length ws" if "length ids = length ws" "length links = length ws" for ids links
    using that by (simp add: answers_def)
  obtain out w1 where one: "append_attempt N cjson sha ks_redis settings s ws w = (out, w1)" by fastforce
  obtain out2 w2 where two: "append_attempt N cjson sha ks_redis settings s ws w1 = (out2, w2)" by fastforce
  note a = attempt_settles [OF one ok fits] and ok1 = attempt_loop_ok(2) [OF one ok]
  note time = attempt_timeless [OF one ok] timeless_trans [OF attempt_timeless [OF one ok] attempt_timeless [OF two ok1]]
  show ?thesis
  proof (cases "out = Inr Retry")
    case True
    then have same: "aw_db w1 = aw_db w" and settled: "out2 \<noteq> Inr Retry" using attempt_settles [OF two ok1] a fits by simp_all
    obtain ids links where "out2 = Inr (Committed ids links)" "length ids = length ws" "length links = length ws"
      using attempt_accepts [OF two ok1 _ some] acc fits settled unfolding same by blast
    then show ?thesis using one two True quiet confirm answered zipped [of ids links] time
      by (intro exI [of _ "answers ids links"] exI [of _ w2]) (simp add: complete_batch_def commit_batch_def)
  next
    case False
    obtain ids links where "out = Inr (Committed ids links)" "length ids = length ws" "length links = length ws"
      using attempt_accepts [OF one ok acc some fits] False by blast
    then show ?thesis using one quiet confirm answered zipped [of ids links] time
      by (intro exI [of _ "answers ids links"] exI [of _ w1]) (simp add: complete_batch_def commit_batch_def)
  qed
qed

end

section \<open>Logging returns\<close>

definition accepting :: "audit_module \<Rightarrow> string \<Rightarrow> string \<Rightarrow> stream_append option \<Rightarrow> keyspace \<Rightarrow> bool" where
  "accepting A sender target eff ks \<longleftrightarrow> acknowledged (am_durability A) ks \<and>
     type_of_value (ks_data ks (head_key Messages)) \<in> {TNone, TString} \<and> stream_typed (stream_key Messages) ks \<and>
     room 1 (st_last (stream_at (stream_key Messages) ks)) \<and>
     (\<forall>k \<in> {''audit:by_sender:'' @ sender, ''audit:by_target:'' @ target}.
        stream_typed k ks \<and> st_last (stream_at k ks) \<le> st_last (stream_at (stream_key Messages) ks)) \<and>
     (\<forall>a. eff = Some a \<longrightarrow> stream_typed (append_stream a) ks \<and> room 1 (st_last (stream_at (append_stream a) ks)))"

lemma log_message_succeeds:
  assumes A: "audit_ok A" and good: "audit_state_ok A (sv_world sv)" and clock: "is_double (am_numbers A) (plan_clock plan)"
    and alone: "plan_before plan = []" "plan_after plan = []" and turns: "plan_turns plan = t # u # ts" "turn_others t = id" "turn_others u = id"
    and fits: "int (length (entries_at (stream_key Messages) (aw_db (sv_world sv)))) < stream_capacity (am_settings A) Messages"
    and lat: "is_double (am_numbers A) latency" "0 \<le> latency" and opened: "\<not> sv_closed sv"
    and eff: "\<And>a. eff = Some a \<Longrightarrow> decision \<in> routable_decisions \<and> \<not> has_prefix ''audit:'' (append_stream a) \<and> stream_append_post_init a = Inr ()"
    and acc: "accepting A sender target eff (aw_db (sv_world sv))"
  shows "\<exists>i sv'. log_message A ks_redis plan mid sender target decision latency payload found kind cid inst eff sv = Some (Inr i, sv') \<and>
    timeless (head_key Messages) (aw_db (sv_world sv)) (aw_db (sv_world sv'))"
proof -
  let ?e = "message_entry A (plan_clock plan) mid sender target decision latency payload found kind cid inst"
  let ?ix = "[''audit:by_sender:'' @ sender, ''audit:by_target:'' @ target]"
  define w where "w = queued_write A (plan_number plan) (MessageRecord ?e) Messages ?ix eff"
  have good_entry: "audit_entry_ok ?e" using lat(2) by (simp add: audit_entry_ok_def message_entry_def valid_hash_def)
  have "write_ok (am_numbers A) Messages w"
    using good_entry eff lat clock by (auto simp: w_def write_ok_def queued_write_def message_entry_def has_prefix_def split: option.splits)
  then have ok: "audit_setting.loop_ok (am_numbers A) (am_codec A) (am_sha A) Messages [w] (am_settings A) (sv_world sv)"
    using good by (simp add: audit_setting.loop_ok_def [OF A] audit_state_ok_def max_part_def)
  have acc': "accepts Messages [w] (aw_db (sv_world sv))"
    using acc by (auto simp: accepts_def accepting_def set_batch_keys w_def queued_write_def)
  have room: "int (length (entries_at (stream_key Messages) (aw_db (sv_world sv)))) + int (length [w]) \<le> stream_capacity (am_settings A) Messages"
    using fits by simp
  have durable: "acknowledged (am_durability A) (aw_db (sv_world sv))" using acc by (simp add: accepting_def)
  obtain receipts world where run: "complete_batch (am_codec A) (am_numbers A) (am_cjson A) (am_sha A) ks_redis (am_settings A) (am_durability A)
      Messages (t # u # ts) [w] (sv_world sv) = Some (map2 (\<lambda>x receipt. (x, Inr receipt)) [w] receipts, world)" "length receipts = length [w]"
      "timeless (head_key Messages) (aw_db (sv_world sv)) (aw_db world)"
    using audit_setting.two_turns_store [OF A ok acc' _ room turns(2,3) durable, of ts] by blast
  obtain receipt where "receipts = [receipt]" using run(2) by (auto simp: length_Suc_conv)
  then have "run_batch A ks_redis Messages (plan_turns plan) (plan_before plan @ [w] @ plan_after plan) (sv_world sv) = Some ([(w, Inr receipt)], world)"
    using run(1) alone turns(1) by (simp add: run_batch_def)
  then have "append_entry A ks_redis plan (MessageRecord ?e) Messages ?ix eff sv =
      Some (Inr (wr_stream_id receipt, with_link (wr_previous_hash receipt) (MessageRecord ?e)), sv\<lparr>sv_world := world\<rparr>)"
    using opened by (simp add: append_entry_def w_def answer_of_def queued_write_def)
  moreover have "\<not> (case eff of None \<Rightarrow> False | Some a \<Rightarrow> decision \<notin> routable_decisions \<or> has_prefix ''audit:'' (append_stream a))"
    using eff by (auto split: option.splits)
  ultimately show ?thesis
    using good_entry run(3) by (auto simp: log_message_def Let_def bindt_def to_sink_def split: option.splits chain_record.splits)
qed

end
