(* ===== verification/Policy_Live.thy ===== *)
theory Policy_Live
  imports Policy_Audit Audit_Live
begin

text \<open>
  A healthy gateway answers: when nobody interferes, the trail has room and the keys that a
  message needs are in order, the pipeline returns what the policy says.
\<close>

section \<open>Health\<close>

definition mailbox_append :: "envelope \<Rightarrow> wire \<Rightarrow> stream_append" where
  "mailbox_append m W = \<lparr>append_stream = shared_stream (target_id m), append_fields = [(''envelope'', dump_envelope W m)]\<rparr>"

definition healthy :: "policy_pipeline \<Rightarrow> keyspace ingest_env \<Rightarrow> envelope \<Rightarrow> stream_append option \<Rightarrow> keyspace gateway \<Rightarrow> bool" where
  "healthy P env m eff g \<longleftrightarrow> quiet_call P env m g \<and> has_room (po_audit P) (ie_plan env) (gw_db g) \<and> 0 \<le> ie_latency env \<and> \<not> sv_closed (gw_service g) \<and>
     acknowledged (router_durability (po_router P)) (gw_db g) \<and>
     accepting (po_audit P) (sender_id m) (target_id m) eff (gw_db g)"

lemma accepting_cong:
  assumes "accepting A s t eff ks" and "ks_acks ks' = ks_acks ks" and "\<And>k. has_prefix ''audit:'' k \<Longrightarrow> ks_data ks' k = ks_data ks k"
    and "\<And>a. eff = Some a \<Longrightarrow> ks_data ks' (append_stream a) = ks_data ks (append_stream a)"
  shows "accepting A s t eff ks'"
proof -
  have "has_prefix ''audit:'' (''audit:by_sender:'' @ s)" "has_prefix ''audit:'' (''audit:by_target:'' @ t)" by (simp_all add: has_prefix_def)
  then show ?thesis using assms audit_key_prefix [of Messages] acknowledged_cong [OF assms(2)] by (simp add: accepting_def stream_typed_def stream_at_def)
qed

lemma gate_accepting:
  assumes "accepting A s t eff (gw_db g)" and "gate_passed n g g1" and "\<And>a. eff = Some a \<Longrightarrow> append_stream a \<notin> gate_keys n"
  shows "accepting A s t eff (gw_db g1)"
proof (rule accepting_cong [OF assms(1)])
  show "ks_acks (gw_db g1) = ks_acks (gw_db g)" using assms(2) by (simp add: gate_passed_def gated_def)
  fix k assume "has_prefix ''audit:'' k"
  then have "k \<notin> gate_keys n" by (auto simp: gate_keys_def)
  then show "ks_data (gw_db g1) k = ks_data (gw_db g) k" using assms(2) by (simp add: gate_passed_def gated_def)
qed (use assms(2,3) in \<open>auto simp: gate_passed_def gated_def\<close>)

lemma gate_open: "gate_passed m g g1 \<Longrightarrow> sv_closed (gw_service g1) = sv_closed (gw_service g)"
  unfolding gate_passed_def by (metis gateway.select_convs(1) gateway.surjective gateway.update_convs(2) put_db_sel(5))

lemma log_succeeds:
  assumes healthy: "healthy P env m eff g" and gate: "gate_passed m g g1" and m': "m' = m\<lparr>env_data := p\<rparr>"
    and eff: "\<And>a. eff = Some a \<Longrightarrow> d \<in> routable_decisions \<and> \<not> has_prefix ''audit:'' (append_stream a) \<and> stream_append_post_init a = Inr () \<and>
      append_stream a \<notin> gate_keys m"
  shows "\<exists>i g2. on_service (audit_decision P ks_redis env m' d found eff) g1 = Some (Inr i, g2) \<and> timeless (head_key Messages) (gw_db g1) (gw_db g2)"
proof -
  note h = healthy [unfolded healthy_def quiet_call_def]
  have good: "audit_state_ok (po_audit P) (sv_world (gw_service g1))" using gate_keeps_audit gate h by blast
  have "accepting (po_audit P) (sender_id m) (target_id m) eff (gw_db g1)" using gate_accepting [OF _ gate] h eff by blast
  then have acc: "accepting (po_audit P) (sender_id m') (target_id m') eff (gw_db g1)" by (simp add: m')
  obtain t u ts where turns: "plan_turns (ie_plan env) = t # u # ts"
    using h by (cases "plan_turns (ie_plan env)"; cases "tl (plan_turns (ie_plan env))") (auto simp: has_room_def)
  have quiet: "turn_others t = id" "turn_others u = id" "plan_before (ie_plan env) = []" "plan_after (ie_plan env) = []"
      "is_double (po_numbers P) (plan_clock (ie_plan env))"
    using h turns by (auto simp: quiet_plan_def)
  have fits: "int (length (entries_at (stream_key Messages) (gw_db g1))) < stream_capacity (am_settings (po_audit P)) Messages"
    using h gate_keeps_room [OF gate, of "po_audit P" "ie_plan env"] by (simp add: has_room_def)
  have opened: "\<not> sv_closed (gw_service g1)" using gate_open [OF gate] h by simp
  have ok: "d \<in> routable_decisions \<and> \<not> has_prefix ''audit:'' (append_stream a) \<and> stream_append_post_init a = Inr ()" if "eff = Some a" for a
    using eff [OF that] by blast
  from log_message_succeeds [OF _ good quiet(5,3,4) turns quiet(1,2) fits _ _ opened ok acc] h
  obtain i sv' where "audit_decision P ks_redis env m' d found eff (gw_service g1) = Some (Inr i, sv')"
      "timeless (head_key Messages) (gw_db g1) (aw_db (sv_world sv'))" unfolding audit_decision_def by blast
  then show ?thesis by (simp add: on_service_def)
qed

lemma audit_decision_succeeds:
  assumes healthy: "healthy P env m (Some (mailbox_append m W)) g" and gate: "gate_passed m g g1"
    and eff: "eff = None \<or> eff = Some (mailbox_append m' W) \<and> d \<in> routable_decisions" and m': "m' = m\<lparr>env_data := p\<rparr>"
  shows "\<exists>i g2. on_service (audit_decision P ks_redis env m' d found eff) g1 = Some (Inr i, g2) \<and> timeless (head_key Messages) (gw_db g1) (gw_db g2)"
proof -
  have "healthy P env m eff g" using healthy eff by (auto simp: healthy_def accepting_def m' mailbox_append_def)
  moreover have "d \<in> routable_decisions \<and> \<not> has_prefix ''audit:'' (append_stream a) \<and> stream_append_post_init a = Inr () \<and> append_stream a \<notin> gate_keys m"
    if "eff = Some a" for a
    using eff that mailbox_keys by (auto simp: mailbox_append_def stream_append_post_init_def shared_stream_def)
  ultimately show ?thesis using log_succeeds [OF _ gate m'] by blast
qed

lemma one_write_confirmed:
  assumes "cmd ks = (Inr x, ks')" and "acknowledged s ks'"
  shows "durable_execute ks_redis s (one_command cmd) ks = (Inr [x], ks')"
proof (cases "durability_enabled s")
  case True
  then show ?thesis using assms validate_barrier [OF True, of ks']
    by (auto simp: durable_execute_def one_command_def pipeline_execute_def catchio_def io_simps barrier_ks of_result_def)
qed (use assms(1) in \<open>simp add: durable_execute_def one_command_def pipeline_execute_def catchio_def io_simps of_result_def\<close>)

lemma route_succeeds:
  assumes "\<not> is_reply (env_meta m)" and "acknowledged (router_durability rt) ks"
    and typed: "stream_typed (shared_stream (target_id m)) ks" and room: "room 1 (st_last (stream_at (shared_stream (target_id m)) ks))"
  shows "\<exists>ks'. route_message W ks_redis rt m ks = (Inr (), ks')"
proof -
  let ?box = "shared_stream (target_id m)" and ?f = "[(''envelope'', dump_envelope W m)]"
  have prep: "prepare_stream_append W m = Inr \<lparr>append_stream = ?box, append_fields = ?f\<rparr>"
    using assms(1) by (simp add: prepare_destination destination_def)
  have "\<exists>i. next_id (now_ms ks) l = Some i" if "room 1 l" for l using that by (auto simp: next_id_def room_def)
  then obtain i where "next_id (now_ms ks) (st_last (stream_at ?box ks)) = Some i" using room by blast
  then obtain ks' where "queued_xadd ks_redis ?box ?f ks = (Inr (sid_reply i), ks')"
    using typed by (simp add: queued_xadd_def io_simps ks_xadd_def ks_stream_typed)
  moreover have "touches {?box} (queued_xadd ks_redis ?box ?f)" by (auto simp: queued_xadd_def intro!: touches_intros)
  ultimately have run: "queued_xadd ks_redis ?box ?f ks = (Inr (sid_reply i), ks')" "acknowledged (router_durability rt) ks'"
    using acknowledged_cong [OF touchesD(5) [of "{?box}" "queued_xadd ks_redis ?box ?f" ks]] assms(2) by (metis snd_conv)+
  from one_write_confirmed [of "queued_xadd ks_redis ?box ?f" ks, OF this] show ?thesis by (simp add: route_message_def prep io_simps)
qed

lemma delivery_succeeds:
  assumes healthy: "healthy P env m (Some (mailbox_append m W)) g" and gate: "gate_passed m g g1" and m': "m' = m\<lparr>env_data := p\<rparr>" and ask: "\<not> is_reply (env_meta m)"
    and release: "release P W m' None = Inr eff"
    and log: "on_service (audit_decision P ks_redis env m' d found eff) g1 = Some (Inr i, g2)"
  shows "\<exists>ks'. deliver_passed P W ks_redis m' None eff (gw_db g2) = (Inr (message_id m), ks')"
proof (cases eff)
  case None
  note h = healthy [unfolded healthy_def]
  have quiet: "quiet_call P env m g" "append_ok eff" using h None by (simp_all add: append_ok_def)
  have same: "ks_data (gw_db g2) (shared_stream (target_id m)) = ks_data (gw_db g) (shared_stream (target_id m))"
    using audit_stage [OF quiet(1) gate quiet(2) log] None gate mailbox_keys by (auto simp: gained_None apart_from_audit_def gate_passed_def gated_def)
  have "healthy P env m None g" using h by (simp add: healthy_def accepting_def)
  from log_succeeds [OF this gate m', of d found] log None have "timeless (head_key Messages) (gw_db g1) (gw_db g2)" by auto
  then have "ks_acks (gw_db g2) = ks_acks (gw_db g)" using gate by (simp add: timeless_def gate_passed_def gated_def)
  note acks = acknowledged_cong [OF this, of "router_durability (po_router P)"]
  have "stream_typed (shared_stream (target_id m)) (gw_db g2) \<and> room 1 (st_last (stream_at (shared_stream (target_id m)) (gw_db g2)))"
    using h same by (simp add: accepting_def mailbox_append_def stream_typed_def stream_at_def)
  then obtain ks' where "route_message W ks_redis (po_router P) m' (gw_db g2) = (Inr (), ks')"
    using route_succeeds [of m' "po_router P" "gw_db g2" W] ask h acks by (auto simp: m')
  then show ?thesis using None by (simp add: deliver_passed_def io_simps m')
qed (simp add: deliver_passed_def io_simps m')

text \<open>What passes leaves the clock and the deadlines of all other keys alone.\<close>

lemma healthy_deadlines:
  assumes healthy: "healthy P env m (Some (mailbox_append m W)) g" and run: "ingest_and_route P W ks_redis env m None g = Some (Inr x, g')"
    and k: "k \<notin> gate_keys m" "k \<noteq> head_key Messages" "\<And>a i. k \<noteq> shared_stream a \<and> k \<noteq> instance_stream a i"
  shows "ks_ttl (gw_db g') k = ks_ttl (gw_db g) k \<and> now_ms (gw_db g') = now_ms (gw_db g)"
proof -
  have quiet: "quiet_call P env m g" using healthy by (simp add: healthy_def)
  from quiet run show ?thesis
  proof (cases rule: ingest_cases)
    case (passed g1 d found m' eff y g2)
    obtain p where m': "m' = m\<lparr>env_data := p\<rparr>" "d \<in> routable_decisions" using policy_spec_passed [OF passed(2)] by blast
    have eff: "eff = None \<or> eff = Some (mailbox_append m' W) \<and> d \<in> routable_decisions"
      using release_ok [OF passed(3)] m'(2) by (cases eff) (auto simp: mailbox_append_def)
    have time: "timeless (head_key Messages) (gw_db g1) (gw_db g2)"
      using audit_decision_succeeds [OF healthy passed(1) eff m'(1), of found] passed(4) by auto
    have "ks_ttl (gw_db g') k = ks_ttl (gw_db g2) k \<and> now_ms (gw_db g') = now_ms (gw_db g2)"
    proof (cases eff)
      case None
      have "touches {k. \<exists>a i. k = shared_stream a \<or> k = instance_stream a i} (deliver_passed P W ks_redis m' None eff)"
        unfolding deliver_passed_def None using route_message_touches by (auto intro!: touches_intros)
      from touchesD(2,4) [OF this, where ks = "gw_db g2"] passed(5) k(3) show ?thesis by simp
    next
      case (Some a)
      then show ?thesis using passed(5) by (simp add: deliver_passed_def io_simps)
    qed
    then show ?thesis using time passed(1) k(1,2) by (simp add: timeless_def gate_passed_def gated_def now_ms_def)
  qed (auto split: sum.splits)
qed

section \<open>Property\<close>

definition policy_outcome :: "err + verdict \<Rightarrow> string \<Rightarrow> err + string" where
  "policy_outcome v mid =
     (case v of Inl e \<Rightarrow> Inl e | Inr (Refused _ _ e) \<Rightarrow> Inl e | Inr (Passed _ _ _) \<Rightarrow> Inr mid)"

lemma healthy_answers:
  assumes "healthy P env m (Some (mailbox_append m W)) g" and "\<not> is_reply (env_meta m)"
  shows "\<exists>g'. ingest_and_route P W ks_redis env m None g =
    Some (policy_outcome (policy_spec P (ie_rate_clock env) (ie_circuit_clock env) (gw_db g) m) (message_id m), g')"
proof -
  let ?v = "policy_spec P (ie_rate_clock env) (ie_circuit_clock env) (gw_db g) m"
  have quiet: "quiet_call P env m g" and room: "has_room (po_audit P) (ie_plan env) (gw_db g)" using assms(1) by (simp_all add: healthy_def)
  obtain r g' where run: "ingest_and_route P W ks_redis env m None g = Some (r, g')" using quiet_ingest_returns [OF quiet room] by blast
  have same: "\<exists>p. m = m\<lparr>env_data := p\<rparr>" by (intro exI [of _ "env_data m"]) simp
  from quiet run have "r = policy_outcome ?v (message_id m)"
  proof (cases rule: ingest_cases)
    case (refused g1 d found e r1)
    obtain p where "m = m\<lparr>env_data := p\<rparr>" using same by blast
    from audit_decision_succeeds [OF assms(1) refused(1) _ this, of None d found] refused(3) obtain i where "r1 = Inr i" by auto
    then show ?thesis using refused by (simp add: policy_outcome_def)
  next
    case (unprepared g1 d found m' e)
    obtain p where "m' = m\<lparr>env_data := p\<rparr>" using policy_spec_passed [OF unprepared(2)] by blast
    then show ?thesis using unprepared(3) assms(2) by (simp add: release_def prepare_destination destination_def split: if_splits)
  next
    case (unlogged g1 d found m' eff e)
    obtain p where m': "m' = m\<lparr>env_data := p\<rparr>" "d \<in> routable_decisions" using policy_spec_passed [OF unlogged(2)] by blast
    have "eff = None \<or> eff = Some (mailbox_append m' W) \<and> d \<in> routable_decisions"
      using release_ok [OF unlogged(3)] m'(2) by (cases eff) (auto simp: mailbox_append_def)
    from audit_decision_succeeds [OF assms(1) unlogged(1) this m'(1), of found] unlogged(4) show ?thesis by simp
  next
    case (passed g1 d found m' eff x g2)
    obtain p where m': "m' = m\<lparr>env_data := p\<rparr>" using policy_spec_passed [OF passed(2)] by blast
    from delivery_succeeds [OF assms(1) passed(1) m' assms(2) passed(3,4)] passed show ?thesis by (auto simp: policy_outcome_def)
  qed (simp add: policy_outcome_def)
  then show ?thesis using run by blast
qed


lemma example_healthy: "healthy example_pipeline example_env example_message (Some (mailbox_append example_message json_wire)) example_gateway"
proof -
  have at: "ks_data (gw_db example_gateway) k = None" if "k \<notin> {allowed_key ''a'', sessions_key ''b''}" for k
    using that by (simp add: example_gateway_def example_storage_at)
  have "ks_data (gw_db example_gateway) k = None"
    if "k \<in> {stream_key Messages, head_key Messages, ''audit:by_sender:a'', ''audit:by_target:b'', ''agent.stream:b''}" for k
    using that by (intro at) (auto simp: allowed_key_def sessions_key_def)
  then have "accepting (po_audit example_pipeline) ''a'' ''b'' (Some (mailbox_append example_message json_wire)) (gw_db example_gateway)"
    by (simp add: accepting_def example_pipeline_def acknowledged_def durability_enabled_def default_durability_def stream_typed_def stream_at_def empty_stream_def
        room_def max_part_def mailbox_append_def example_message_def shared_stream_def)
  then show ?thesis using example_call example_room
    by (simp add: healthy_def example_env_def example_gateway_def example_message_def example_pipeline_def acknowledged_def durability_enabled_def default_durability_def)
qed


end
