(* ===== verification/Ingress.thy ===== *)
theory Ingress
  imports Policy_Live Sessions
begin

text \<open>
  \<open>packages/mas-server/src/mas_server/ingress.py\<close>: sending a message, asking with a
  correlation, and answering a correlation. The world of a call is the gateway with its
  storage, and the memory of the broker. Clock readings, drawn identifiers, the trace context
  of the tracer and what happens while the coroutine waits are the argument \<open>ingress_call\<close>.
\<close>

section \<open>Calls\<close>

type_synonym 'db front = "'db gateway \<times> broker"

record 'db ingress_call =
  ic_monotonic :: real
  ic_clock :: real
  ic_stamp :: real
  ic_message_id :: string
  ic_correlation_id :: string
  ic_carrier :: "(string \<rightharpoonup> string) option"
  ic_gap :: "nat \<Rightarrow> ('db, unit) io"
  ic_ingest :: "'db ingest_env"

definition on_gateway :: "('db gateway, 'a) task \<Rightarrow> ('db front, 'a) task" where
  "on_gateway m w = map_option (\<lambda>(r, g). (r, (g, snd w))) (m (fst w))"

definition on_sessions :: "('db world, 'a) io \<Rightarrow> ('db front, 'a) task" where
  "on_sessions m w = (case m (gw_db (fst w), snd w) of (r, (db, b)) \<Rightarrow> Some (r, (put_db db (fst w), b)))"

abbreviation on_redis :: "('db, 'a) io \<Rightarrow> ('db front, 'a) task" where
  "on_redis m \<equiv> on_gateway (on_store m)"

text \<open>The tracer is switched off, or fills a carrier with the headers of the current span.\<close>

definition inject_message_meta :: "(string \<rightharpoonup> string) option \<Rightarrow> message_meta \<Rightarrow> message_meta" where
  "inject_message_meta carrier meta =
     (case carrier of
        None \<Rightarrow> meta
      | Some c \<Rightarrow> meta\<lparr>traceparent := c ''traceparent'', tracestate := c ''tracestate''\<rparr>)"

section \<open>IngressService\<close>

definition validate_json_object :: "json \<Rightarrow> err + (string \<times> json) list" where
  "validate_json_object v = (case v of JObj kvs \<Rightarrow> Inr kvs | _ \<Rightarrow> Inl ValidationError)"

definition parse_payload_json :: "text_numbers \<Rightarrow> string \<Rightarrow> err + (string \<times> json) list" where
  "parse_payload_json N data_json =
     (case if data_json = [] then Some (JObj []) else json_loads N data_json of
        None \<Rightarrow> Inl (InvalidArgumentError ''invalid_json'')
      | Some obj \<Rightarrow>
          (case validate_json_object obj of
             Inl _ \<Rightarrow> Inl (InvalidArgumentError ''payload_must_be_object'')
           | Inr payload \<Rightarrow> Inr payload))"

definition build_message :: "'db ingress_call \<Rightarrow> string \<Rightarrow> string \<Rightarrow> string \<Rightarrow> (string \<times> json) list \<Rightarrow> message_meta \<Rightarrow> envelope" where
  "build_message call sender target kind payload meta =
     \<lparr>sender_id = sender, target_id = target, message_type = kind, env_data = payload,
      env_meta = inject_message_meta (ic_carrier call) meta, env_timestamp = ic_stamp call, message_id = ic_message_id call\<rparr>"

definition delete_pending_request :: "'db redis \<Rightarrow> ('db, unit) io \<Rightarrow> string \<Rightarrow> ('db, unit) io" where
  "delete_pending_request R gap pending_key =
     catchio (seqio gap (DEL R [pending_key])) (\<lambda>e. if e = CancelledError then raise e else ret ())"

definition send_message :: "policy_pipeline \<Rightarrow> wire \<Rightarrow> 'db redis \<Rightarrow> 'db ingress_call \<Rightarrow> string \<Rightarrow> string \<Rightarrow> string \<Rightarrow> string \<Rightarrow> string \<Rightarrow>
    ('db front, string) task" where
  "send_message P W R call sender inst target kind data_json =
     bindt (on_sessions (ensure_connected R (ic_monotonic call) sender inst)) (\<lambda>_.
     bindt (liftt (of_result (parse_payload_json (po_numbers P) data_json))) (\<lambda>payload.
     let m = build_message call sender target kind payload (default_meta\<lparr>sender_instance_id := Some inst\<rparr>) in
     bindt (on_redis (ic_gap call 0)) (\<lambda>_.
     bindt (on_gateway (ingest_and_route P W R (ic_ingest call) m None)) (\<lambda>_.
     liftt (ret (message_id m))))))"

definition effective_timeout_ms :: "int \<Rightarrow> int" where
  "effective_timeout_ms timeout_ms = (if timeout_ms = 0 then 60000 else timeout_ms)"

definition pending_request :: "text_numbers \<Rightarrow> string \<Rightarrow> string \<Rightarrow> string \<Rightarrow> real \<Rightarrow> string" where
  "pending_request N sender inst target expires_at =
     json_dumps N (JObj [(''agent_id'', JStr sender), (''instance_id'', JStr inst), (''target_id'', JStr target), (''expires_at'', JFloat expires_at)])"

definition request_meta :: "string \<Rightarrow> string \<Rightarrow> message_meta" where
  "request_meta inst cid = default_meta\<lparr>sender_instance_id := Some inst, correlation_id := Some cid, expects_reply := True\<rparr>"

definition request_message :: "policy_pipeline \<Rightarrow> wire \<Rightarrow> 'db redis \<Rightarrow> 'db ingress_call \<Rightarrow> string \<Rightarrow> string \<Rightarrow> string \<Rightarrow> string \<Rightarrow> string \<Rightarrow> int \<Rightarrow>
    ('db front, string \<times> string) task" where
  "request_message P W R call sender inst target kind data_json timeout_ms =
     bindt (on_sessions (ensure_connected R (ic_monotonic call) sender inst)) (\<lambda>_.
     if timeout_ms < 0 then liftt (raise (InvalidArgumentError ''invalid_timeout_ms''))
     else
     bindt (liftt (of_result (parse_payload_json (po_numbers P) data_json))) (\<lambda>payload.
     let cid = ic_correlation_id call; timeout = effective_timeout_ms timeout_ms;
         expires_at = ic_clock call + real_of_int timeout / 1000; pending_key = pending_request_key cid;
         m = build_message call sender target kind payload (request_meta inst cid) in
     bindt (on_redis (ic_gap call 0)) (\<lambda>_.
     bindt (on_redis (SET_PX R pending_key (pending_request (po_numbers P) sender inst target expires_at) timeout)) (\<lambda>_.
     bindt (on_redis (ic_gap call 1)) (\<lambda>_.
     bindt (catcht (on_gateway (ingest_and_route P W R (ic_ingest call) m None)) (\<lambda>e.
       if e = CancelledError \<or> is_redis_error e then liftt (raise e)
       else bindt (on_redis (delete_pending_request R (ic_gap call 2) pending_key)) (\<lambda>_. liftt (raise e)))) (\<lambda>_.
     liftt (ret (message_id m, cid))))))))"

text \<open>The number of \<open>expires_at\<close>: an integer or a float, and not a boolean.\<close>

definition json_number :: "json \<Rightarrow> real option" where
  "json_number v = (case v of JInt i \<Rightarrow> Some (real_of_int i) | JFloat x \<Rightarrow> Some x | _ \<Rightarrow> None)"

definition json_text :: "json option \<Rightarrow> string option" where
  "json_text v = (case v of Some (JStr s) \<Rightarrow> if s = [] then None else Some s | _ \<Rightarrow> None)"

definition parse_origin :: "text_numbers \<Rightarrow> string \<Rightarrow> err + string \<times> string \<times> string \<times> real" where
  "parse_origin N origin_text =
     (case json_loads N origin_text of
        Some (JObj origin) \<Rightarrow>
          (case (json_text (map_of origin ''agent_id''), json_text (map_of origin ''instance_id''), json_text (map_of origin ''target_id''),
                 Option.bind (map_of origin ''expires_at'') json_number) of
             (Some agent, Some inst, Some target, Some expires_at) \<Rightarrow> Inr (agent, inst, target, expires_at)
           | _ \<Rightarrow> Inl (InvalidArgumentError ''unknown_correlation_id''))
      | _ \<Rightarrow> Inl (InvalidArgumentError ''unknown_correlation_id''))"

definition reply_fingerprint :: "text_numbers \<Rightarrow> wire \<Rightarrow> string \<Rightarrow> string \<Rightarrow> (string \<times> json) list \<Rightarrow> string" where
  "reply_fingerprint N W sender kind payload = sha256 W (json_canonical N (JList [JStr sender, JStr kind, JObj payload]))"

definition reply_meta :: "string \<Rightarrow> string \<Rightarrow> string \<Rightarrow> message_meta" where
  "reply_meta inst cid origin_inst = default_meta\<lparr>sender_instance_id := Some inst, correlation_id := Some cid, is_reply := True,
     expects_reply := False, reply_to_instance_id := Some origin_inst\<rparr>"

definition answer_again :: "policy_pipeline \<Rightarrow> wire \<Rightarrow> 'db redis \<Rightarrow> string \<Rightarrow> string \<Rightarrow> string \<Rightarrow> ('db gateway, string) task" where
  "answer_again P W R cid sender fingerprint =
     bindt (policy_replay_reply P W R cid sender fingerprint) (\<lambda>completed.
     case completed of
       Some mid \<Rightarrow> liftt (ret mid)
     | None \<Rightarrow> liftt (raise (InvalidArgumentError ''unknown_correlation_id'')))"

definition answer_origin :: "policy_pipeline \<Rightarrow> wire \<Rightarrow> 'db redis \<Rightarrow> 'db ingress_call \<Rightarrow> string \<Rightarrow> string \<Rightarrow> string \<Rightarrow> string \<Rightarrow>
    (string \<times> json) list \<Rightarrow> string \<Rightarrow> ('db gateway, string) task" where
  "answer_origin P W R call sender inst cid kind payload origin_text =
     bindt (liftt (of_result (parse_origin (po_numbers P) origin_text))) (\<lambda>(origin_agent, origin_inst, expected_sender, expires_at).
     if sender \<noteq> expected_sender then liftt (raise (PermissionDeniedError ''reply_sender_mismatch''))
     else if expires_at \<le> ic_clock call
     then bindt (on_store (delete_pending_request R (ic_gap call 2) (pending_request_key cid)))
            (\<lambda>_. liftt (raise (FailedPreconditionError ''correlation_id_expired'')))
     else ingest_and_route P W R (ic_ingest call)
            (build_message call sender origin_agent kind payload (reply_meta inst cid origin_inst))
            (Some \<lparr>expected_value = origin_text, commit_fingerprint = reply_fingerprint (po_numbers P) W sender kind payload,
                   commit_expires_at = expires_at\<rparr>))"

definition reply_message :: "policy_pipeline \<Rightarrow> wire \<Rightarrow> 'db redis \<Rightarrow> 'db ingress_call \<Rightarrow> string \<Rightarrow> string \<Rightarrow> string \<Rightarrow> string \<Rightarrow> string \<Rightarrow>
    ('db front, string) task" where
  "reply_message P W R call sender inst cid kind data_json =
     bindt (on_sessions (ensure_connected R (ic_monotonic call) sender inst)) (\<lambda>_.
     bindt (liftt (of_result (parse_payload_json (po_numbers P) data_json))) (\<lambda>payload.
     if cid = [] then liftt (raise (InvalidArgumentError ''missing_correlation_id''))
     else
     bindt (on_redis (ic_gap call 0)) (\<lambda>_.
     bindt (on_redis (GET R (pending_request_key cid))) (\<lambda>origin_raw.
     bindt (on_redis (ic_gap call 1)) (\<lambda>_.
     on_gateway (if absent origin_raw then answer_again P W R cid sender (reply_fingerprint (po_numbers P) W sender kind payload)
                 else answer_origin P W R call sender inst cid kind payload (or_empty origin_raw)))))))"

section \<open>Lifting\<close>

lemma on_sessions_apply: "on_sessions m (g, b) = Some (fst (m (gw_db g, b)), (put_db (fst (snd (m (gw_db g, b)))) g, snd (snd (m (gw_db g, b)))))"
  by (simp add: on_sessions_def split: prod.splits)

lemma on_redis_apply: "on_redis m (g, b) = Some (fst (m (gw_db g)), (put_db (snd (m (gw_db g))) g, b))"
  by (simp add: on_gateway_def on_store_def split: prod.splits)

lemma on_gateway_apply: "on_gateway m (g, b) = map_option (\<lambda>(r, g'). (r, (g', b))) (m g)"
  by (simp add: on_gateway_def)

lemma bindt_on_redis:
  "m (gw_db g) = (Inr x, db) \<Longrightarrow> bindt (on_redis m) f (g, b) = f x (put_db db g, b)"
  "m (gw_db g) = (Inl e, db) \<Longrightarrow> bindt (on_redis m) f (g, b) = Some (Inl e, (put_db db g, b))"
  by (simp_all add: bindt_def on_redis_apply)

lemma bindt_on_sessions:
  "m (gw_db g, b) = (Inr x, (db, b')) \<Longrightarrow> bindt (on_sessions m) f (g, b) = f x (put_db db g, b')"
  "m (gw_db g, b) = (Inl e, (db, b')) \<Longrightarrow> bindt (on_sessions m) f (g, b) = Some (Inl e, (put_db db g, b'))"
  by (simp_all add: bindt_def on_sessions_apply)

lemma bindt_of_result:
  "bindt (liftt (of_result (Inr x))) f = f x" "bindt (liftt (of_result (Inl e))) f = liftt (raise e)"
  by (simp_all add: of_result_def)

lemmas front_steps = bindt_on_redis bindt_on_sessions bindt_of_result

lemma ensure_connected_reads:
  assumes "redis_server R view" and "ensure_connected R t a i (db, b) = (r, (db', b'))"
  shows "view db' = view db \<and> b' = b"
proof -
  have "view (snd (lease_owner_of R a i db)) = view db"
    using implements_snd [OF redis_server.get [OF assms(1)], of "session_key a i" db] by (simp add: lease_owner_of_def ks_get_def split: option.splits rvalue.splits)
  then show ?thesis using assms(2)
    by (auto simp: ensure_connected_def io_simps session_not_connected_def split: if_splits option.splits sum.splits)
qed

section \<open>Failed requests\<close>

text \<open>
  What the coroutine may meet while it waits: a wait fails only by cancellation or with an
  error of Redis; nobody else uses the drawn correlation before it is registered; and the
  wait of the final deletion does not fail.
\<close>

definition orderly :: "('db \<Rightarrow> keyspace) \<Rightarrow> 'db ingress_call \<Rightarrow> bool" where
  "orderly view call \<longleftrightarrow>
     (\<forall>n db e db'. ic_gap call n db = (Inl e, db') \<longrightarrow> e = CancelledError \<or> is_redis_error e) \<and>
     (\<forall>db. ks_data (view db) (pending_request_key (ic_correlation_id call)) = None \<longrightarrow>
        ks_data (view (snd (ic_gap call 0 db))) (pending_request_key (ic_correlation_id call)) = None) \<and>
     (\<forall>db. \<exists>db'. ic_gap call 2 db = (Inr (), db'))"

lemma delete_pending_gone:
  assumes "redis_server R view" and "gap db = (Inr (), db')"
  shows "fst (delete_pending_request R gap k db) = Inr () \<and> ks_data (view (snd (delete_pending_request R gap k db))) k = None"
proof -
  have "fst (DEL R [k] db') = Inr ()" "view (snd (DEL R [k] db')) = ks_remove k (view db')"
    using implements_fst [OF redis_server.del [OF assms(1)], of "[k]" db'] implements_snd [OF redis_server.del [OF assms(1)], of "[k]" db']
    by (simp_all add: ks_del_def)
  then have "DEL R [k] db' = (Inr (), snd (DEL R [k] db'))" by (simp add: prod_eq_iff)
  then have "seqio gap (DEL R [k]) db = (Inr (), snd (DEL R [k] db'))" using assms(2) by (simp add: seqio_split)
  then show ?thesis using \<open>view (snd (DEL R [k] db')) = ks_remove k (view db')\<close> by (simp add: delete_pending_request_def catchio_def)
qed

text \<open>What a request does behind its checks, once the correlation is registered.\<close>

definition forward_request :: "policy_pipeline \<Rightarrow> wire \<Rightarrow> 'db redis \<Rightarrow> 'db ingress_call \<Rightarrow> envelope \<Rightarrow> ('db front, string \<times> string) task" where
  "forward_request P W R call m =
     bindt (catcht (on_gateway (ingest_and_route P W R (ic_ingest call) m None)) (\<lambda>e.
       if e = CancelledError \<or> is_redis_error e then liftt (raise e)
       else bindt (on_redis (delete_pending_request R (ic_gap call 2) (pending_request_key (ic_correlation_id call)))) (\<lambda>_. liftt (raise e)))) (\<lambda>_.
     liftt (ret (message_id m, ic_correlation_id call)))"

lemma request_run:
  assumes "ensure_connected R (ic_monotonic call) sender inst (gw_db g, b) = (Inr x, (db0, b0))" and "0 \<le> timeout_ms"
    and "parse_payload_json (po_numbers P) data_json = Inr payload" and "ic_gap call 0 db0 = (Inr y, db1)"
    and "SET_PX R (pending_request_key (ic_correlation_id call)) (pending_request (po_numbers P) sender inst target
       (ic_clock call + real_of_int (effective_timeout_ms timeout_ms) / 1000)) (effective_timeout_ms timeout_ms) db1 = (Inr z, db2)"
    and "ic_gap call 1 db2 = (Inr u, db3)"
  shows "request_message P W R call sender inst target kind data_json timeout_ms (g, b) =
    forward_request P W R call (build_message call sender target kind payload (request_meta inst (ic_correlation_id call))) (put_db db3 g, b0)"
  using assms by (simp add: request_message_def forward_request_def front_steps Let_def)

lemma forward_failed:
  assumes srv: "redis_server R view" and run: "forward_request P W R call m (g, b) = Some (Inl e, (g', b'))"
    and e: "e \<noteq> CancelledError" "\<not> is_redis_error e" and gap: "\<forall>db. \<exists>db'. ic_gap call 2 db = (Inr (), db')"
  shows "ks_data (view (gw_db g')) (pending_request_key (ic_correlation_id call)) = None"
proof -
  let ?del = "delete_pending_request R (ic_gap call 2) (pending_request_key (ic_correlation_id call))"
  obtain r4 g4 where ingest: "ingest_and_route P W R (ic_ingest call) m None g = Some (r4, g4)"
    using run by (auto simp: forward_request_def bindt_def catcht_def on_gateway_apply split: option.splits)
  obtain db5 where "ic_gap call 2 (gw_db g4) = (Inr (), db5)" using gap by blast
  from delete_pending_gone [where gap = "ic_gap call 2", OF srv this]
  obtain db6 where del: "?del (gw_db g4) = (Inr (), db6)" "ks_data (view db6) (pending_request_key (ic_correlation_id call)) = None" by (metis prod.collapse)
  show ?thesis
  proof (cases r4)
    case (Inl x)
    have "forward_request P W R call m (g, b) = (if x = CancelledError \<or> is_redis_error x then Some (Inl x, (g4, b))
        else Some (Inl x, (put_db db6 g4, b)))"
      using ingest Inl del(1) by (auto simp: forward_request_def bindt_def catcht_def on_gateway_apply on_store_def)
    then show ?thesis using run e del(2) by (auto split: if_splits)
  qed (use run ingest in \<open>auto simp: forward_request_def bindt_def catcht_def on_gateway_apply\<close>)
qed

lemma failed_request:
  assumes srv: "redis_server R view" and orderly: "orderly view call"
    and fresh: "ks_data (view (gw_db g)) (pending_request_key (ic_correlation_id call)) = None"
    and run: "request_message P W R call sender inst target kind data_json timeout_ms (g, b) = Some (Inl e, (g', b'))"
    and e: "e \<noteq> CancelledError" "\<not> is_redis_error e"
  shows "ks_data (view (gw_db g')) (pending_request_key (ic_correlation_id call)) = None"
proof -
  let ?k = "pending_request_key (ic_correlation_id call)"
  let ?text = "pending_request (po_numbers P) sender inst target (ic_clock call + real_of_int (effective_timeout_ms timeout_ms) / 1000)"
  obtain r0 db0 b0 where ens: "ensure_connected R (ic_monotonic call) sender inst (gw_db g, b) = (r0, (db0, b0))" by (metis prod_cases3)
  have db0: "ks_data (view db0) ?k = None" using ensure_connected_reads [OF srv ens] fresh by simp
  note gaps = orderly [unfolded orderly_def]
  note steps = request_message_def front_steps Let_def
  show ?thesis
  proof (cases "(\<exists>x. r0 = Inl x) \<or> timeout_ms < 0 \<or> (\<exists>x. parse_payload_json (po_numbers P) data_json = Inl x)")
    case True
    then have "g' = put_db db0 g" using run ens by (cases r0) (auto simp: steps split: if_splits)
    then show ?thesis using db0 by simp
  next
    case False
    then obtain x payload where ok: "r0 = Inr x" "parse_payload_json (po_numbers P) data_json = Inr payload" "0 \<le> timeout_ms"
      by (metis not_less sum.exhaust)
    obtain y db1 where gap0: "ic_gap call 0 db0 = (Inr y, db1)"
      using run ens ok gaps e by (cases "ic_gap call 0 db0"; cases "fst (ic_gap call 0 db0)") (auto simp: steps)
    have "fst (SET_PX R ?k ?text (effective_timeout_ms timeout_ms) db1) = Inr ()"
      using implements_fst [OF redis_server.set_px [OF srv], of ?k ?text "effective_timeout_ms timeout_ms" db1] ok(3)
      by (simp add: ks_set_px_def effective_timeout_ms_def)
    then obtain db2 where set: "SET_PX R ?k ?text (effective_timeout_ms timeout_ms) db1 = (Inr (), db2)" by (metis prod.collapse)
    obtain u db3 where gap1: "ic_gap call 1 db2 = (Inr u, db3)"
      using run ens ok gap0 set gaps e by (cases "ic_gap call 1 db2"; cases "fst (ic_gap call 1 db2)") (auto simp: steps)
    from run [unfolded request_run [OF ens [unfolded ok(1)] ok(3,2) gap0 set gap1]] show ?thesis
      using forward_failed [OF srv _ e] gaps by blast
  qed
qed

section \<open>Replies\<close>

lemma parse_origin_pending:
  assumes "json_numerals (po_numbers P)" and "is_double (po_numbers P) expires" and "a \<noteq> []" "i \<noteq> []" "t \<noteq> []"
  shows "parse_origin (po_numbers P) (pending_request (po_numbers P) a i t expires) = Inr (a, i, t, expires)"
  using json_numerals.json_loads_dumps [OF assms(1)] assms(2-)
  by (simp add: parse_origin_def pending_request_def json_text_def json_number_def)

lemma pending_request_nonempty [simp]: "pending_request N a i t e \<noteq> []"
  by (simp add: pending_request_def json_dumps_def)

text \<open>Nothing happens while the coroutine waits, and the session of the caller is connected.\<close>

definition undisturbed :: "keyspace ingress_call \<Rightarrow> string \<Rightarrow> string \<Rightarrow> keyspace front \<Rightarrow> bool" where
  "undisturbed call sender inst w \<longleftrightarrow> ic_gap call = (\<lambda>_. ret ()) \<and>
     fst (ensure_connected ks_redis (ic_monotonic call) sender inst (gw_db (fst w), snd w)) = Inr ()"

lemma undisturbed_session:
  assumes "undisturbed call sender inst (g, b)"
  shows "ensure_connected ks_redis (ic_monotonic call) sender inst (gw_db g, b) = (Inr (), (gw_db g, b))"
proof -
  obtain r db b' where run: "ensure_connected ks_redis (ic_monotonic call) sender inst (gw_db g, b) = (r, (db, b'))" by (metis prod_cases3)
  then show ?thesis using ensure_connected_reads [OF ref.redis_server_axioms run] assms by (simp add: undisturbed_def)
qed

lemma delete_quiet: "delete_pending_request ks_redis (ret ()) k ks = (Inr (), ks_remove k ks)"
  by (simp add: delete_pending_request_def catchio_def io_simps ks_del_def)

definition reply_envelope :: "'db ingress_call \<Rightarrow> string \<Rightarrow> string \<Rightarrow> string \<Rightarrow> string \<Rightarrow> (string \<times> json) list \<Rightarrow> string \<Rightarrow> string \<Rightarrow> envelope" where
  "reply_envelope call sender inst cid kind payload a i = build_message call sender a kind payload (reply_meta inst cid i)"

lemma reply_run:
  assumes quiet: "undisturbed call sender inst (g, b)" and payload: "parse_payload_json (po_numbers P) data_json = Inr payload" and "cid \<noteq> []"
    and get: "ks_get (pending_request_key cid) (gw_db g) = (Inr raw, gw_db g)"
  shows "reply_message P W ks_redis call sender inst cid kind data_json (g, b) =
    map_option (\<lambda>(r, g'). (r, (g', b)))
      ((if absent raw then answer_again P W ks_redis cid sender (reply_fingerprint (po_numbers P) W sender kind payload)
        else answer_origin P W ks_redis call sender inst cid kind payload (or_empty raw)) g)"
proof -
  have gap: "ic_gap call n ks = (Inr (), ks)" for n ks using quiet by (simp add: undisturbed_def)
  show ?thesis
    using undisturbed_session [OF quiet] payload assms(3) get
    by (simp add: reply_message_def bindt_on_sessions(1) bindt_of_result(1) bindt_on_redis(1) [OF gap] bindt_on_redis(1) on_gateway_apply)
qed

lemma reply_decision:
  assumes num: "json_numerals (po_numbers P)" and quiet: "undisturbed call sender inst (g, b)"
    and payload: "parse_payload_json (po_numbers P) data_json = Inr payload" and cid: "cid \<noteq> []"
    and pending: "ks_data (gw_db g) (pending_request_key cid) = Some (RString (pending_request (po_numbers P) a i t expires))"
    and origin: "is_double (po_numbers P) expires" "a \<noteq> []" "i \<noteq> []" "t \<noteq> []"
  shows "reply_message P W ks_redis call sender inst cid kind data_json (g, b) =
    (if sender \<noteq> t then Some (Inl (PermissionDeniedError ''reply_sender_mismatch''), (g, b))
     else if expires \<le> ic_clock call
     then Some (Inl (FailedPreconditionError ''correlation_id_expired''), (put_db (ks_remove (pending_request_key cid) (gw_db g)) g, b))
     else map_option (\<lambda>(r, g'). (r, (g', b)))
       (ingest_and_route P W ks_redis (ic_ingest call) (reply_envelope call sender inst cid kind payload a i)
         (Some \<lparr>expected_value = pending_request (po_numbers P) a i t expires, commit_fingerprint = reply_fingerprint (po_numbers P) W sender kind payload,
                commit_expires_at = expires\<rparr>) g))"
proof -
  let ?text = "pending_request (po_numbers P) a i t expires"
  have get: "ks_get (pending_request_key cid) (gw_db g) = (Inr (Some ?text), gw_db g)" using pending by (simp add: ks_get_def)
  have gap: "ic_gap call 2 = ret ()" using quiet by (simp add: undisturbed_def)
  have "answer_origin P W ks_redis call sender inst cid kind payload ?text g =
    (if sender \<noteq> t then Some (Inl (PermissionDeniedError ''reply_sender_mismatch''), g)
     else if expires \<le> ic_clock call
     then Some (Inl (FailedPreconditionError ''correlation_id_expired''), put_db (ks_remove (pending_request_key cid) (gw_db g)) g)
     else ingest_and_route P W ks_redis (ic_ingest call) (reply_envelope call sender inst cid kind payload a i)
         (Some \<lparr>expected_value = ?text, commit_fingerprint = reply_fingerprint (po_numbers P) W sender kind payload, commit_expires_at = expires\<rparr>) g)"
    using parse_origin_pending [OF num origin] gap
    by (simp add: answer_origin_def bindt_of_result reply_envelope_def bindt_def on_store_def delete_quiet)
  then show ?thesis using reply_run [OF quiet payload cid get, of W kind] by (simp add: absent_def or_empty_def)
qed

lemma reply_keys:
  "\<not> has_prefix ''audit:'' (pending_request_key c)" "\<not> has_prefix ''audit:'' (reply_receipt_key c)" "\<not> has_prefix ''audit:'' (instance_stream a i)"
  "pending_request_key c \<notin> gate_keys m" "reply_receipt_key c \<notin> gate_keys m" "instance_stream a i \<notin> gate_keys m"
  by (simp_all add: pending_request_key_def reply_receipt_key_def instance_stream_def has_prefix_def gate_keys_def circuit_key_def rl_minute_key_def rl_hour_key_def)

definition reply_receipt_of :: "text_numbers \<Rightarrow> wire \<Rightarrow> string \<Rightarrow> string \<Rightarrow> (string \<times> json) list \<Rightarrow> string \<Rightarrow> reply_receipt" where
  "reply_receipt_of N W sender kind payload mid = \<lparr>receipt_sender = sender, receipt_fingerprint = reply_fingerprint N W sender kind payload, receipt_message = mid\<rparr>"

lemma reply_commit:
  assumes "wire_codec W" and run: "commit_reply W ks_redis rt m c ks = (Inr x, ks')" and "correlation_id (env_meta m) = Some cid"
    and "reply_to_instance_id (env_meta m) = Some i" and fresh: "ks_data ks (reply_receipt_key cid) = None"
  defines "rc \<equiv> \<lparr>receipt_sender = sender_id m, receipt_fingerprint = commit_fingerprint c, receipt_message = message_id m\<rparr>"
  shows "x = message_id m \<and> mails (instance_stream (target_id m) i) ks' = mails (instance_stream (target_id m) i) ks @ [[(''envelope'', dump_envelope W m)]] \<and>
    ks_data ks' (pending_request_key cid) = None \<and> ks_data ks' (reply_receipt_key cid) = Some (RString (dump_receipt W rc)) \<and>
    load_receipt W (dump_receipt W rc) = Some rc \<and> acknowledged (router_durability rt) ks'"
  using run
proof (cases rule: commit_reply_cases)
  case unchanged
  then show ?thesis using assms(3) fresh by auto
next
  case (new rc0 cid' iid rc1 st sid remaining)
  have ids: "cid' = cid" "iid = i" "rc1 = rc" using new assms(3,4) by (simp_all add: rc_def)
  have "load_receipt W (dump_receipt W rc) = Some rc" using wire_codec.receipt_roundtrip [OF assms(1)] new(7) ids by simp
  moreover have "stream_at (instance_stream (target_id m) i) ks = st"
    using new(4) ids by (auto simp: ks_stream_def stream_at_def split: option.splits rvalue.splits)
  ultimately show ?thesis using new ids
    by (auto simp: committed_def mails_def stream_at_def rc_def split: if_splits)
qed

text \<open>Everything that a reply leaves behind.\<close>

definition answered :: "policy_pipeline \<Rightarrow> wire \<Rightarrow> keyspace ingest_env \<Rightarrow> envelope \<Rightarrow> string \<Rightarrow> string \<Rightarrow> reply_receipt \<Rightarrow> keyspace gateway \<Rightarrow> keyspace gateway \<Rightarrow> bool" where
  "answered P W env m cid box rc g g' \<longleftrightarrow>
     (\<exists>d found m'. policy_spec P (ie_rate_clock env) (ie_circuit_clock env) (gw_db g) m = Inr (Passed d found m') \<and>
        mails box (gw_db g') = mails box (gw_db g) @ [[(''envelope'', dump_envelope W m')]] \<and>
        recorded (po_audit P) Messages (audit_store g') (decision_record P env m' d found)) \<and>
     ks_data (gw_db g') (pending_request_key cid) = None \<and>
     ks_data (gw_db g') (reply_receipt_key cid) = Some (RString (dump_receipt W rc)) \<and> load_receipt W (dump_receipt W rc) = Some rc \<and>
     acknowledged (router_durability (po_router P)) (gw_db g')"

lemma reply_ingested:
  assumes codec: "wire_codec W" and quiet: "quiet_call P env m g" and fresh: "ks_data (gw_db g) (reply_receipt_key cid) = None"
    and meta: "correlation_id (env_meta m) = Some cid" "reply_to_instance_id (env_meta m) = Some i" "is_reply (env_meta m)"
    and run: "ingest_and_route P W ks_redis env m (Some c) g = Some (Inr x, g')"
  shows "x = message_id m \<and> answered P W env m cid (instance_stream (target_id m) i)
    \<lparr>receipt_sender = sender_id m, receipt_fingerprint = commit_fingerprint c, receipt_message = message_id m\<rparr> g g'"
  using quiet run
proof (cases rule: ingest_cases)
  case (passed g1 d found m' eff y g2)
  obtain p where m': "m' = m\<lparr>env_data := p\<rparr>" using policy_spec_passed [OF passed(2)] by blast
  have eff: "eff = None" using passed(3) by (simp add: release_def)
  have logged: "apart_from_audit (gw_db g1) (gw_db g2)" "recorded (po_audit P) Messages (audit_store g2) (decision_record P env m' d found)"
    using audit_stage [OF quiet passed(1) _ passed(4)] eff by (auto simp: append_ok_def gained_None)
  have same: "ks_data (gw_db g2) k = ks_data (gw_db g) k" if "\<not> has_prefix ''audit:'' k" "k \<notin> gate_keys m" for k
    using logged(1) passed(1) that by (simp add: apart_from_audit_def gate_passed_def gated_def)
  have commit: "commit_reply W ks_redis (po_router P) m' c (gw_db g2) = (Inr x, gw_db g')" using passed(5) by (simp add: deliver_passed_def)
  have "ks_data (gw_db g2) (reply_receipt_key cid) = None" using same [OF reply_keys(2,5)] fresh by simp
  from reply_commit [OF codec commit _ _ this, of i] meta
  have "x = message_id m' \<and> mails (instance_stream (target_id m') i) (gw_db g') = mails (instance_stream (target_id m') i) (gw_db g2) @ [[(''envelope'', dump_envelope W m')]] \<and>
      ks_data (gw_db g') (pending_request_key cid) = None \<and>
      ks_data (gw_db g') (reply_receipt_key cid) = Some (RString (dump_receipt W \<lparr>receipt_sender = sender_id m', receipt_fingerprint = commit_fingerprint c, receipt_message = message_id m'\<rparr>)) \<and>
      load_receipt W (dump_receipt W \<lparr>receipt_sender = sender_id m', receipt_fingerprint = commit_fingerprint c, receipt_message = message_id m'\<rparr>) =
        Some \<lparr>receipt_sender = sender_id m', receipt_fingerprint = commit_fingerprint c, receipt_message = message_id m'\<rparr> \<and>
      acknowledged (router_durability (po_router P)) (gw_db g')" by (simp add: m')
  moreover have "mails (instance_stream (target_id m) i) (gw_db g2) = mails (instance_stream (target_id m) i) (gw_db g)"
    using same [OF reply_keys(3,6)] by (intro mails_cong) simp
  ultimately show ?thesis
    using passed(2) recorded_after_delivery [OF logged(2) passed(5,6)] by (auto simp: answered_def m')
qed (auto split: sum.splits)

end
