(* ===== verification/Ingress_Live.thy ===== *)
theory Ingress_Live
  imports Ingress
begin

text \<open>
  Requests and replies on a healthy gateway: a request registers its correlation and reaches
  the mailbox of its target, and the reply of that target reaches the instance that asked.
\<close>

section \<open>Keys beside the policy\<close>

definition side_key :: "string \<Rightarrow> bool" where
  "side_key k \<longleftrightarrow> has_prefix ''mas.'' k \<and> \<not> has_prefix ''mas.sessions:'' k"

text \<open>Storage that differs at one key, which holds a string or nothing.\<close>

definition beside :: "string \<Rightarrow> keyspace \<Rightarrow> keyspace \<Rightarrow> bool" where
  "beside k ks ks' \<longleftrightarrow> ks_now ks' = ks_now ks \<and> ks_acks ks' = ks_acks ks \<and> (\<forall>j. j \<noteq> k \<longrightarrow> ks_data ks' j = ks_data ks j \<and> ks_ttl ks' j = ks_ttl ks j) \<and>
     type_of_value (ks_data ks' k) \<in> {TNone, TString}"

lemma side_keys [simp]: "side_key (pending_request_key c)" "side_key (session_key a i)" "side_key (reply_receipt_key c)"
  by (simp_all add: side_key_def has_prefix_def pending_request_key_def session_key_def reply_receipt_key_def)

lemma side_apart:
  assumes "side_key k"
  shows "sessions_key a \<noteq> k" "allowed_key a \<noteq> k" "blocked_key a \<noteq> k" "roles_key a \<noteq> k" "perms_key a \<noteq> k" "rl_minute_key a \<noteq> k"
    "rl_hour_key a \<noteq> k" "rl_limits_key a \<noteq> k" "circuit_key a \<noteq> k" "shared_stream a \<noteq> k" "instance_stream a i \<noteq> k"
    "has_prefix ''audit:'' j \<Longrightarrow> j \<noteq> k"
  using assms
  by (auto simp: side_key_def has_prefix_def sessions_key_def allowed_key_def blocked_key_def roles_key_def perms_key_def rl_minute_key_def
      rl_hour_key_def rl_limits_key_def circuit_key_def shared_stream_def instance_stream_def) (cases j; force)

lemma besideD:
  assumes "beside k ks ks'" and "side_key k"
  shows "now_ms ks' = now_ms ks" "ks_data ks' (sessions_key a) = ks_data ks (sessions_key a)" "ks_data ks' (allowed_key a) = ks_data ks (allowed_key a)"
    "ks_data ks' (blocked_key a) = ks_data ks (blocked_key a)" "ks_data ks' (roles_key a) = ks_data ks (roles_key a)"
    "ks_data ks' (perms_key a) = ks_data ks (perms_key a)" "ks_data ks' (rl_minute_key a) = ks_data ks (rl_minute_key a)"
    "ks_data ks' (rl_hour_key a) = ks_data ks (rl_hour_key a)" "ks_data ks' (rl_limits_key a) = ks_data ks (rl_limits_key a)"
    "ks_data ks' (circuit_key a) = ks_data ks (circuit_key a)" "ks_data ks' (shared_stream a) = ks_data ks (shared_stream a)"
  using assms side_apart [OF assms(2)] by (simp_all add: beside_def now_ms_def)

lemma beside_policy:
  assumes "beside k ks ks'" and "side_key k"
  shows "policy_readable P m ks' \<longleftrightarrow> policy_readable P m ks" "policy_spec P rc cc ks' m = policy_spec P rc cc ks m"
proof -
  note d = besideD [OF assms]
  have s: "set_at (roles_key a) ks' = set_at (roles_key a) ks" "set_at (perms_key a) ks' = set_at (perms_key a) ks"
    "set_at (blocked_key a) ks' = set_at (blocked_key a) ks" "set_at (allowed_key a) ks' = set_at (allowed_key a) ks" for a
    using d by (simp_all add: set_at_def)
  have limits: "limits_are N df a x y ks' \<longleftrightarrow> limits_are N df a x y ks" for N df a x y by (simp add: limits_are_def limit_text_def d)
  have status: "status_at N (circuit_key a) ks' = status_at N (circuit_key a) ks" for N a
    by (simp add: status_at_def read_status_def io_simps ks_hgetall_def d of_result_def split: option.splits rvalue.splits sum.splits)
  show "policy_readable P m ks' \<longleftrightarrow> policy_readable P m ks"
    by (simp add: policy_readable_def auth_readable_def rl_typed_def window_types_def zset_typed_def d s limits status)
  have "permitted b x y z ks' \<longleftrightarrow> permitted b x y z ks" for b x y z by (simp add: permitted_def connected_def role_grants_def d s)
  moreover have "under_limits N df a now ks' \<longleftrightarrow> under_limits N df a now ks" for N df a now
    by (simp add: under_limits_def live_def zset_of_def d limits)
  moreover have "circuit_allows N c t now ks' \<longleftrightarrow> circuit_allows N c t now ks" for N c t now
    by (simp add: circuit_allows_def status split: option.splits)
  ultimately show "policy_spec P rc cc ks' m = policy_spec P rc cc ks m" by (simp add: policy_spec_def)
qed

lemma beside_audit:
  assumes good: "audit_state_ok A (sv_world (gw_service g))" and side: "beside k (gw_db g) ks'" "side_key k"
  shows "audit_state_ok A (sv_world (gw_service (put_db ks' g)))"
proof -
  have old: "audit_good (am_codec A) (am_numbers A) (am_sha A) (am_settings A) (aw_files (sv_world (gw_service g)), gw_db g)"
    using good by (simp add: audit_state_ok_def store_of_def)
  have ids: "ids_bounded (gw_db g)" using old by (simp add: audit_good_def audit_inv_def)
  have "bounded_id (st_last (stream_at j ks'))" for j
  proof (cases "j = k")
    case True
    then have "type_of_value (ks_data ks' j) \<in> {TNone, TString}" using side(1) by (simp add: beside_def)
    then show ?thesis by (cases "ks_data ks' j" rule: type_of_value.cases) (auto simp: stream_at_def empty_stream_def bounded_id_def)
  next
    case False
    then show ?thesis using ids side(1) by (simp add: ids_bounded_def beside_def stream_at_def)
  qed
  then have "ids_bounded ks'" using ids besideD(1) [OF side] by (simp add: ids_bounded_def)
  moreover have "ks_data ks' j = ks_data (gw_db g) j \<and> ks_ttl ks' j = ks_ttl (gw_db g) j" if "j \<in> {stream_key s, head_key s, checkpoint_key s}" for s j
  proof -
    have "j \<noteq> k" using that audit_key_prefix side_apart(12) [OF side(2)] by blast
    then show ?thesis using side(1) by (simp add: beside_def)
  qed
  ultimately have "audit_good (am_codec A) (am_numbers A) (am_sha A) (am_settings A) (aw_files (sv_world (gw_service g)), ks')"
    using frame_good [OF _ _ map_le_refl old] by blast
  then show ?thesis using good by (simp add: audit_state_ok_def store_of_def)
qed

lemma beside_healthy:
  assumes healthy: "healthy P env m eff g" and side: "beside k (gw_db g) ks'" "side_key k" and eff: "\<And>a. eff = Some a \<Longrightarrow> append_stream a \<noteq> k"
  shows "healthy P env m eff (put_db ks' g)"
proof -
  note h = healthy [unfolded healthy_def quiet_call_def]
  have keep: "ks_data ks' j = ks_data (gw_db g) j" if "j \<noteq> k" for j using side(1) that by (simp add: beside_def)
  have "accepting (po_audit P) (sender_id m) (target_id m) eff ks'"
    by (rule accepting_cong [of _ _ _ _ "gw_db g"]) (use h keep eff side_apart(12) [OF side(2)] side(1) in \<open>auto simp: beside_def\<close>)
  moreover have "has_room (po_audit P) (ie_plan env) ks'"
    using h keep [OF side_apart(12) [OF side(2) audit_key_prefix(1) [of Messages]]] by (simp add: has_room_def stream_at_def)
  ultimately show ?thesis
    using h beside_policy(1) [OF side] beside_audit [OF _ side] side(1) acknowledged_cong [of "gw_db g" ks'] by (simp add: healthy_def quiet_call_def beside_def)
qed

section \<open>Requests\<close>

lemma inject_sel [simp]:
  "is_reply (inject_message_meta c meta) = is_reply meta" "correlation_id (inject_message_meta c meta) = correlation_id meta"
  "reply_to_instance_id (inject_message_meta c meta) = reply_to_instance_id meta"
  by (simp_all add: inject_message_meta_def split: option.splits)

definition request_envelope :: "'db ingress_call \<Rightarrow> string \<Rightarrow> string \<Rightarrow> string \<Rightarrow> string \<Rightarrow> (string \<times> json) list \<Rightarrow> envelope" where
  "request_envelope call sender inst target kind payload = build_message call sender target kind payload (request_meta inst (ic_correlation_id call))"

lemma request_envelope_sel:
  "\<not> is_reply (env_meta (request_envelope call sender inst target kind payload))" "sender_id (request_envelope call sender inst target kind payload) = sender"
  "target_id (request_envelope call sender inst target kind payload) = target" "message_id (request_envelope call sender inst target kind payload) = ic_message_id call"
  by (simp_all add: request_envelope_def build_message_def request_meta_def default_meta_def)

lemma request_forwarded:
  fixes target :: string
  assumes quiet: "undisturbed call sender inst (g, b)" and payload: "parse_payload_json (po_numbers P) data_json = Inr payload" and timeout: "0 \<le> timeout_ms"
  defines "registered \<equiv> pending_request (po_numbers P) sender inst target (ic_clock call + real_of_int (effective_timeout_ms timeout_ms) / 1000)"
  shows "\<exists>ks1. beside (pending_request_key (ic_correlation_id call)) (gw_db g) ks1 \<and>
    ks_data ks1 (pending_request_key (ic_correlation_id call)) = Some (RString registered) \<and>
    ks_ttl ks1 (pending_request_key (ic_correlation_id call)) = Some (now_ms (gw_db g) + nat (effective_timeout_ms timeout_ms)) \<and>
    request_message P W ks_redis call sender inst target kind data_json timeout_ms (g, b) =
      forward_request P W ks_redis call (request_envelope call sender inst target kind payload) (put_db ks1 g, b)"
proof -
  let ?k = "pending_request_key (ic_correlation_id call)"
  have gap: "ic_gap call n ks = (Inr (), ks)" for n ks using quiet by (simp add: undisturbed_def)
  obtain ks1 where set: "ks_set_px ?k registered (effective_timeout_ms timeout_ms) (gw_db g) = (Inr (), ks1)"
      "ks1 = ks_deadline ?k (Some (now_ms (gw_db g) + nat (effective_timeout_ms timeout_ms))) (ks_put ?k (RString registered) (gw_db g))"
    using timeout by (simp add: ks_set_px_def effective_timeout_ms_def)
  have set': "SET_PX ks_redis ?k (pending_request (po_numbers P) sender inst target (ic_clock call + real_of_int (effective_timeout_ms timeout_ms) / 1000))
      (effective_timeout_ms timeout_ms) (gw_db g) = (Inr (), ks1)" using set(1) by (simp add: registered_def)
  have "request_message P W ks_redis call sender inst target kind data_json timeout_ms (g, b) =
      forward_request P W ks_redis call (request_envelope call sender inst target kind payload) (put_db ks1 g, b)"
    unfolding request_envelope_def by (rule request_run [OF undisturbed_session [OF quiet] timeout payload gap set' gap])
  then show ?thesis by (intro exI [of _ ks1]) (simp add: set(2) beside_def)
qed

lemma request_delivered:
  assumes quiet: "undisturbed call sender inst (g, b)" and payload: "parse_payload_json (po_numbers P) data_json = Inr payload" and timeout: "0 \<le> timeout_ms"
    and healthy: "healthy P (ic_ingest call) m (Some (mailbox_append m W)) g" and m: "m = request_envelope call sender inst target kind payload"
    and passed: "policy_spec P (ie_rate_clock (ic_ingest call)) (ie_circuit_clock (ic_ingest call)) (gw_db g) m = Inr (Passed d found m')"
  shows "\<exists>g'. request_message P W ks_redis call sender inst target kind data_json timeout_ms (g, b) = Some (Inr (ic_message_id call, ic_correlation_id call), (g', b)) \<and>
    ks_data (gw_db g') (pending_request_key (ic_correlation_id call)) = Some (RString (pending_request (po_numbers P) sender inst target
      (ic_clock call + real_of_int (effective_timeout_ms timeout_ms) / 1000))) \<and>
    ks_ttl (gw_db g') (pending_request_key (ic_correlation_id call)) = Some (now_ms (gw_db g) + nat (effective_timeout_ms timeout_ms)) \<and>
    now_ms (gw_db g') = now_ms (gw_db g) \<and>
    mails (shared_stream target) (gw_db g') = mails (shared_stream target) (gw_db g) @ [[(''envelope'', dump_envelope W m')]] \<and>
    recorded (po_audit P) Messages (audit_store g') (decision_record P (ic_ingest call) m' d found)"
proof -
  let ?k = "pending_request_key (ic_correlation_id call)"
  obtain ks1 where ks1: "beside ?k (gw_db g) ks1" "ks_data ks1 ?k = Some (RString (pending_request (po_numbers P) sender inst target
      (ic_clock call + real_of_int (effective_timeout_ms timeout_ms) / 1000)))"
      "request_message P W ks_redis call sender inst target kind data_json timeout_ms (g, b) = forward_request P W ks_redis call m (put_db ks1 g, b)"
      "ks_ttl ks1 ?k = Some (now_ms (gw_db g) + nat (effective_timeout_ms timeout_ms))"
    using request_forwarded [OF quiet payload timeout, of target W kind] unfolding m by blast
  note sel = request_envelope_sel [of call sender inst target kind payload, folded m]
  have healthy1: "healthy P (ic_ingest call) m (Some (mailbox_append m W)) (put_db ks1 g)"
    by (rule beside_healthy [OF healthy ks1(1)]) (simp_all add: mailbox_append_def)
  have passed1: "policy_spec P (ie_rate_clock (ic_ingest call)) (ie_circuit_clock (ic_ingest call)) (gw_db (put_db ks1 g)) m = Inr (Passed d found m')"
    using passed beside_policy(2) [OF ks1(1)] by simp
  obtain g' where run: "ingest_and_route P W ks_redis (ic_ingest call) m None (put_db ks1 g) = Some (Inr (message_id m), g')"
    using healthy_answers [OF healthy1 sel(1)] unfolding passed1 by (auto simp: policy_outcome_def)
  have call: "quiet_call P (ic_ingest call) m (put_db ks1 g)" using healthy1 by (simp add: healthy_def)
  have step: "mailbox_step (gate_keys m) (shared_stream target) [[(''envelope'', dump_envelope W m')]] ks1 (gw_db g')"
    and rec: "recorded (po_audit P) Messages (audit_store g') (decision_record P (ic_ingest call) m' d found)"
    using passed_delivered [OF call sel(1) passed1 run] sel(3) by auto
  have "ks_data (gw_db g') ?k = ks_data ks1 ?k"
    using step reply_keys(1,4) by (simp add: mailbox_step_def)
  moreover have "?k \<noteq> head_key Messages" using reply_keys(1) audit_key_prefix(2) by metis
  then have "ks_ttl (gw_db g') ?k = ks_ttl ks1 ?k" "now_ms (gw_db g') = now_ms ks1"
    using healthy_deadlines [OF healthy1 run reply_keys(4)] side_apart(10,11) [OF side_keys(1)] by (metis put_db_sel(1))+
  moreover have "now_ms ks1 = now_ms (gw_db g)" using besideD(1) [OF ks1(1)] by simp
  moreover have "mails (shared_stream target) ks1 = mails (shared_stream target) (gw_db g)" using ks1(1) by (intro mails_cong) (simp add: beside_def)
  moreover have "forward_request P W ks_redis call m (put_db ks1 g, b) = Some (Inr (ic_message_id call, ic_correlation_id call), (g', b))"
    using run sel(4) by (simp add: forward_request_def bindt_def catcht_def on_gateway_apply)
  ultimately show ?thesis using ks1(2,3,4) step rec by (auto simp: mailbox_step_def)
qed

section \<open>Replies\<close>

lemma commit_reply_succeeds:
  assumes codec: "wire_codec W" and meta: "is_reply (env_meta m)" "correlation_id (env_meta m) = Some cid" "cid \<noteq> []"
      "reply_to_instance_id (env_meta m) = Some i" "i \<noteq> []"
    and receipt: "sender_id m \<noteq> []" "is_hex64 (commit_fingerprint c)" "message_id m \<noteq> []"
    and pending: "ks_data ks (pending_request_key cid) = Some (RString (expected_value c))" "ks_ttl ks (pending_request_key cid) = Some t" "now_ms ks < t"
    and time: "int (now_ms ks) < truncate_real (commit_expires_at c * 1000)" and fresh: "ks_data ks (reply_receipt_key cid) = None"
    and box: "stream_typed (instance_stream (target_id m) i) ks" "room 1 (st_last (stream_at (instance_stream (target_id m) i) ks))"
    and plain: "acknowledged (router_durability rt) ks"
  shows "\<exists>ks'. commit_reply W ks_redis rt m c ks = (Inr (message_id m), ks')"
proof -
  let ?rc = "\<lparr>receipt_sender = sender_id m, receipt_fingerprint = commit_fingerprint c, receipt_message = message_id m\<rparr>"
  have rc: "load_receipt W (dump_receipt W ?rc) = Some ?rc" using wire_codec.receipt_roundtrip [OF codec] receipt(3) by simp
  have "\<exists>j. next_id (now_ms ks) l = Some j" if "room 1 l" for l using that by (auto simp: next_id_def room_def)
  then obtain j where j: "next_id (now_ms ks) (st_last (stream_at (instance_stream (target_id m) i) ks)) = Some j" using box(2) by blast
  have kind: "type_of_value (ks_data ks (instance_stream (target_id m) i)) \<in> {TNone, TStream}" using box(1) by (simp add: stream_typed_def)
  have positive: "0 < min (int t - int (now_ms ks)) (truncate_real (commit_expires_at c * 1000) - int (now_ms ks))"
    using pending(3) time by simp
  show ?thesis
    using meta receipt rc pending fresh kind j ks_stream_typed [OF box(1)] positive plain
    by (auto simp: commit_reply_def Let_def or_empty_def reply_receipt_ok_def commit_reply_script_def io_simps ks_read_defs string_typed_def script_now
        ks_xadd_def ks_set_px_def ks_del_def confirm_ks)
qed

text \<open>A correlation that is still to be answered: who asked from which instance, whom, and until when.\<close>

definition awaits :: "text_numbers \<Rightarrow> keyspace \<Rightarrow> string \<Rightarrow> string \<Rightarrow> string \<Rightarrow> string \<Rightarrow> real \<Rightarrow> bool" where
  "awaits N ks cid a i t expires \<longleftrightarrow>
     ks_data ks (pending_request_key cid) = Some (RString (pending_request N a i t expires)) \<and>
     (\<exists>d. ks_ttl ks (pending_request_key cid) = Some d \<and> now_ms ks < d) \<and> int (now_ms ks) < truncate_real (expires * 1000) \<and>
     ks_data ks (reply_receipt_key cid) = None \<and> is_double N expires \<and> cid \<noteq> [] \<and> a \<noteq> [] \<and> i \<noteq> [] \<and> t \<noteq> []"

lemma reply_envelope_sel [simp]:
  "sender_id (reply_envelope call s inst cid kind payload a i) = s" "target_id (reply_envelope call s inst cid kind payload a i) = a"
  "message_id (reply_envelope call s inst cid kind payload a i) = ic_message_id call"
  "is_reply (env_meta (reply_envelope call s inst cid kind payload a i))"
  "correlation_id (env_meta (reply_envelope call s inst cid kind payload a i)) = Some cid"
  "reply_to_instance_id (env_meta (reply_envelope call s inst cid kind payload a i)) = Some i"
  by (simp_all add: reply_envelope_def build_message_def reply_meta_def default_meta_def)

lemma audit_json_numerals: "audit_ok A \<Longrightarrow> json_numerals (am_numbers A)"
  using audit_setting.axioms(1) by blast

lemma reply_forwarded:
  assumes "audit_ok (po_audit P)" and "undisturbed call t inst (g, b)" and "awaits (po_numbers P) (gw_db g) cid a i t expires"
    and "parse_payload_json (po_numbers P) data_json = Inr payload" and "ic_clock call < expires"
  shows "reply_message P W ks_redis call t inst cid kind data_json (g, b) = map_option (\<lambda>(r, g'). (r, (g', b)))
       (ingest_and_route P W ks_redis (ic_ingest call) (reply_envelope call t inst cid kind payload a i)
         (Some \<lparr>expected_value = pending_request (po_numbers P) a i t expires, commit_fingerprint = reply_fingerprint (po_numbers P) W t kind payload,
                commit_expires_at = expires\<rparr>) g)"
  using reply_decision [OF audit_json_numerals [OF assms(1)] assms(2,4)] assms(3,5) by (simp add: awaits_def)

lemma reply_ingest_succeeds:
  assumes codec: "wire_codec W" and healthy: "healthy P env m None g"
    and meta: "is_reply (env_meta m)" "correlation_id (env_meta m) = Some cid" "reply_to_instance_id (env_meta m) = Some i"
    and awaits: "awaits (po_numbers P) (gw_db g) cid (target_id m) i t expires"
    and c: "c = \<lparr>expected_value = pending_request (po_numbers P) (target_id m) i t expires, commit_fingerprint = fp, commit_expires_at = expires\<rparr>"
    and receipt: "sender_id m \<noteq> []" "is_hex64 fp" "message_id m \<noteq> []"
    and box: "stream_typed (instance_stream (target_id m) i) (gw_db g)" "room 1 (st_last (stream_at (instance_stream (target_id m) i) (gw_db g)))"
    and passed: "policy_spec P (ie_rate_clock env) (ie_circuit_clock env) (gw_db g) m = Inr (Passed d found m')"
  shows "\<exists>g'. ingest_and_route P W ks_redis env m (Some c) g = Some (Inr (message_id m), g')"
proof -
  note h = healthy [unfolded healthy_def]
  have quiet: "quiet_call P env m g" and num: "numerals (po_numbers P)" and ok: "policy_readable P m (gw_db g)" "quiet_env env"
    using h audit_numerals by (auto simp: quiet_call_def)
  obtain g1 where g1: "policy_check P ks_redis env m g = Some (Inr (Passed d found m'), g1)" "gate_passed m g g1"
    using verdict_quiet [OF num ok] unfolding passed by blast
  obtain p where m': "m' = m\<lparr>env_data := p\<rparr>" using policy_spec_passed [OF passed] by blast
  obtain x g2 where log: "on_service (audit_decision P ks_redis env m' d found None) g1 = Some (Inr x, g2)" "timeless (head_key Messages) (gw_db g1) (gw_db g2)"
    using log_succeeds [OF healthy g1(2) m', of d found] by auto
  have "append_ok None" by (simp add: append_ok_def)
  from audit_stage [OF quiet g1(2) this log(1)] have apart: "apart_from_audit (gw_db g1) (gw_db g2)" by (simp add: gained_None)
  have gate: "gated (gate_keys m) (gw_db g) (gw_db g1)" using g1(2) by (simp add: gate_passed_def)
  have data: "ks_data (gw_db g2) k = ks_data (gw_db g) k" if "\<not> has_prefix ''audit:'' k" "k \<notin> gate_keys m" for k
    using apart gate that by (simp add: apart_from_audit_def gated_def)
  have ttl: "ks_ttl (gw_db g2) (pending_request_key cid) = ks_ttl (gw_db g) (pending_request_key cid)"
  proof -
    have "pending_request_key cid \<noteq> head_key Messages" using reply_keys(1) audit_key_prefix(2) by metis
    then show ?thesis using log(2) gate reply_keys(4) by (simp add: timeless_def gated_def)
  qed
  have now: "now_ms (gw_db g2) = now_ms (gw_db g)" using log(2) gate by (simp add: timeless_def gated_def now_ms_def)
  obtain t' where t': "ks_ttl (gw_db g) (pending_request_key cid) = Some t'" "now_ms (gw_db g) < t'" using awaits by (auto simp: awaits_def)
  have "ks_acks (gw_db g2) = ks_acks (gw_db g)" using log(2) gate by (simp add: timeless_def gated_def)
  note acks = acknowledged_cong [OF this, of "router_durability (po_router P)"]
  note same = data [OF reply_keys(1,4), of cid] data [OF reply_keys(2,5), of cid] data [OF reply_keys(3,6), of "target_id m" i] ttl now
  have "\<exists>ks'. commit_reply W ks_redis (po_router P) m' c (gw_db g2) = (Inr (message_id m'), ks')"
    by (rule commit_reply_succeeds [OF codec, where cid = cid and i = i and t = t'])
       (use awaits meta receipt box same t' h acks in \<open>simp_all add: m' c awaits_def stream_typed_def stream_at_def\<close>)
  then obtain ks' where "commit_reply W ks_redis (po_router P) m' c (gw_db g2) = (Inr (message_id m), ks')" by (auto simp: m')
  moreover have "ie_gap env 2 = ret ()" using ok(2) by (simp add: quiet_env_def)
  ultimately show ?thesis
    using g1(1) log(1) by (simp add: ingest_and_route_def bindt_def release_def of_result_def on_store_def deliver_passed_def)
qed

lemma reply_commit_deadline:
  assumes run: "commit_reply W ks_redis rt m c ks = (Inr x, ks')" and "correlation_id (env_meta m) = Some cid"
    and fresh: "ks_data ks (reply_receipt_key cid) = None"
  shows "\<exists>t dl. ks_ttl ks (pending_request_key cid) = Some t \<and> ks_ttl ks' (reply_receipt_key cid) = Some dl \<and>
    int dl = min (int t) (truncate_real (commit_expires_at c * 1000))"
  using run
proof (cases rule: commit_reply_cases)
  case unchanged
  then show ?thesis using assms(2) fresh by auto
next
  case (new rc0 cid' iid rc1 st sid remaining)
  then have "cid' = cid" using assms(2) by simp
  with new show ?thesis by (auto simp: committable_def committed_def)
qed

text \<open>The receipt of an accepted reply lives as long as the correlation would have.\<close>

lemma reply_ingest_deadline:
  assumes healthy: "healthy P env m None g" and fresh: "ks_data (gw_db g) (reply_receipt_key cid) = None"
    and meta: "correlation_id (env_meta m) = Some cid" and run: "ingest_and_route P W ks_redis env m (Some c) g = Some (Inr x, g')"
  shows "\<exists>t dl. ks_ttl (gw_db g) (pending_request_key cid) = Some t \<and> ks_ttl (gw_db g') (reply_receipt_key cid) = Some dl \<and>
    int dl = min (int t) (truncate_real (commit_expires_at c * 1000)) \<and> ks_now (gw_db g') = ks_now (gw_db g)"
proof -
  have quiet: "quiet_call P env m g" using healthy by (simp add: healthy_def)
  from quiet run show ?thesis
  proof (cases rule: ingest_cases)
    case (passed g1 d found m' eff y g2)
    obtain p where m': "m' = m\<lparr>env_data := p\<rparr>" using policy_spec_passed [OF passed(2)] by blast
    have eff: "eff = None" using passed(3) by (simp add: release_def)
    have log: "timeless (head_key Messages) (gw_db g1) (gw_db g2)"
      using log_succeeds [OF healthy passed(1) m', of d found] passed(4) eff by auto
    have apart: "apart_from_audit (gw_db g1) (gw_db g2)"
      using audit_stage [OF quiet passed(1) _ passed(4)] eff by (auto simp: append_ok_def gained_None)
    have gate: "gated (gate_keys m) (gw_db g) (gw_db g1)" using passed(1) by (simp add: gate_passed_def)
    have "pending_request_key cid \<noteq> head_key Messages" using reply_keys(1) audit_key_prefix(2) by metis
    then have ttl: "ks_ttl (gw_db g2) (pending_request_key cid) = ks_ttl (gw_db g) (pending_request_key cid)"
      using log gate reply_keys(4) by (simp add: timeless_def gated_def)
    have none: "ks_data (gw_db g2) (reply_receipt_key cid) = None"
      using apart gate reply_keys(2,5) fresh by (simp add: apart_from_audit_def gated_def)
    have commit: "commit_reply W ks_redis (po_router P) m' c (gw_db g2) = (Inr x, gw_db g')" using passed(5) by (simp add: deliver_passed_def)
    have "correlation_id (env_meta m') = Some cid" using meta by (simp add: m')
    from reply_commit_deadline [OF commit this none] touchesD(1) [OF commit_reply_touches, of W "po_router P" m' c "gw_db g2"] commit
    show ?thesis using ttl log gate by (simp add: timeless_def gated_def)
  qed (auto split: sum.splits)
qed

lemma reply_repeated:
  assumes quiet: "undisturbed call s inst (g, b)" and payload: "parse_payload_json (po_numbers P) data_json = Inr payload" and "cid \<noteq> []"
    and told: "ks_data (gw_db g) (pending_request_key cid) = None"
      "ks_data (gw_db g) (reply_receipt_key cid) = Some (RString (dump_receipt W (reply_receipt_of (po_numbers P) W s kind payload mid)))"
      "load_receipt W (dump_receipt W (reply_receipt_of (po_numbers P) W s kind payload mid)) = Some (reply_receipt_of (po_numbers P) W s kind payload mid)"
      "acknowledged (router_durability (po_router P)) (gw_db g)"
  shows "reply_message P W ks_redis call s inst cid kind data_json (g, b) = Some (Inr mid, (g, b))"
proof -
  let ?rc = "reply_receipt_of (po_numbers P) W s kind payload mid"
  have get: "ks_get (pending_request_key cid) (gw_db g) = (Inr None, gw_db g)" using told(1) by (simp add: ks_get_def)
  from replay_reply_ks [OF told(2,3), of "po_router P" s "reply_fingerprint (po_numbers P) W s kind payload"]
  have "replay_reply W ks_redis (po_router P) cid s (reply_fingerprint (po_numbers P) W s kind payload) (gw_db g) = (Inr (Some mid), gw_db g)"
    using told(4) by (simp add: reply_receipt_of_def)
  then have "answer_again P W ks_redis cid s (reply_fingerprint (po_numbers P) W s kind payload) g = Some (Inr mid, g)"
    by (simp add: answer_again_def policy_replay_reply_def bindt_def on_store_def)
  then show ?thesis using reply_run [OF quiet payload assms(3) get, of W kind] by (simp add: absent_def)
qed

section \<open>Properties\<close>

text \<open>
  A request that fails leaves no correlation behind: whatever other clients and writers do
  meanwhile, a request that raises anything but a cancellation or an error of Redis has
  removed the entry of its correlation, so that nobody can answer a question that was never
  delivered. Waits fail only by cancellation or errors of Redis, nobody else registers the
  drawn correlation, and the deletion gets through.
\<close>

theorem failed_request_forgotten:
  assumes "redis_server R view" and "orderly view call"
    and "ks_data (view (gw_db g)) (pending_request_key (ic_correlation_id call)) = None"
    and "request_message P W R call sender inst target kind data_json timeout_ms (g, b) = Some (Inl e, (g', b'))"
    and "e \<noteq> CancelledError" and "\<not> is_redis_error e"
  shows "ks_data (view (gw_db g')) (pending_request_key (ic_correlation_id call)) = None"
  using failed_request [OF assms] .

definition example_ingress :: "keyspace ingress_call" where
  "example_ingress = \<lparr>ic_monotonic = 0, ic_clock = 0, ic_stamp = 0, ic_message_id = ''m1'', ic_correlation_id = ''c'', ic_carrier = None,
     ic_gap = (\<lambda>_. ret ()), ic_ingest = example_env\<rparr>"

definition asking_storage :: keyspace where
  "asking_storage = ks_put (session_key ''a'' ''i'') (RString ''o'') example_storage"

definition asking_gateway :: "keyspace gateway" where
  "asking_gateway = put_db asking_storage example_gateway"

lemma example_undisturbed:
  assumes "ks_data (gw_db g) (session_key ''a'' ''i'') = Some (RString ''o'')"
  shows "undisturbed example_ingress ''a'' ''i'' (g, example_broker)"
  using assms
  by (simp add: undisturbed_def example_ingress_def ensure_connected_def valid_ident_def ident_char_def Let_def example_broker_def io_simps
      lease_owner_of_def ks_get_def)

lemma asking_beside: "beside (session_key ''a'' ''i'') (gw_db example_gateway) asking_storage"
  by (simp add: beside_def asking_storage_def example_gateway_def)

lemma healthy_cong:
  "sender_id n = sender_id m \<Longrightarrow> target_id n = target_id m \<Longrightarrow> healthy P env m eff g \<Longrightarrow> healthy P env n eff g"
  by (simp add: healthy_def quiet_call_def policy_readable_def)

lemma asking_healthy:
  assumes "sender_id m = ''a''" "target_id m = ''b''"
  shows "healthy example_pipeline example_env m None asking_gateway"
    "healthy example_pipeline example_env m (Some (mailbox_append m W)) asking_gateway"
proof -
  have box: "accepting A s t (Some (mailbox_append m W)) ks \<longleftrightarrow> accepting A s t (Some (mailbox_append example_message json_wire)) ks" for A s t ks
    using assms(2) by (simp add: accepting_def mailbox_append_def example_message_def)
  have "healthy example_pipeline example_env m (Some (mailbox_append example_message json_wire)) example_gateway"
    by (rule healthy_cong [OF _ _ example_healthy]) (simp_all add: assms example_message_def)
  then have "healthy example_pipeline example_env m (Some (mailbox_append m W)) example_gateway" by (simp add: healthy_def box)
  then show both: "healthy example_pipeline example_env m (Some (mailbox_append m W)) asking_gateway"
    unfolding asking_gateway_def using asking_beside
    by (rule beside_healthy) (use side_apart(10) [OF side_keys(2)] in \<open>simp_all add: mailbox_append_def\<close>)
  then show "healthy example_pipeline example_env m None asking_gateway" by (simp add: healthy_def accepting_def)
qed

lemma asking_passes:
  assumes "sender_id m = ''a''" "target_id m = ''b''"
  shows "policy_spec example_pipeline 0 0 asking_storage m = Inr (Passed ''ALLOWED'' [] m)"
proof -
  have "policy_spec example_pipeline 0 0 example_storage m = Inr (Passed ''ALLOWED'' [] m)"
    using example_passes assms
    by (auto simp: policy_spec_def example_message_def inspect_def example_pipeline_def split: if_splits)
  then show ?thesis using beside_policy(2) [OF asking_beside] by (simp add: example_gateway_def)
qed

lemma refused_healthy: "healthy example_pipeline example_env unknown_target (Some (mailbox_append unknown_target json_wire)) example_gateway"
proof -
  have at: "ks_data (gw_db example_gateway) k = None" if "k \<notin> {allowed_key ''a'', sessions_key ''b''}" for k
    using that by (simp add: example_gateway_def example_storage_at)
  have "ks_data (gw_db example_gateway) k = None"
    if "k \<in> {stream_key Messages, head_key Messages, ''audit:by_sender:a'', ''audit:by_target:c'', ''agent.stream:c''}" for k
    using that by (intro at) (auto simp: allowed_key_def sessions_key_def)
  then have "accepting (po_audit example_pipeline) ''a'' ''c'' (Some (mailbox_append unknown_target json_wire)) (gw_db example_gateway)"
    by (simp add: accepting_def example_pipeline_def acknowledged_def durability_enabled_def default_durability_def stream_typed_def stream_at_def empty_stream_def
        room_def max_part_def mailbox_append_def unknown_target_def example_message_def shared_stream_def)
  moreover have "policy_readable example_pipeline unknown_target (gw_db example_gateway)" using unknown_target_readable by (simp add: example_gateway_def)
  ultimately show ?thesis using example_healthy by (simp add: healthy_def quiet_call_def unknown_target_def example_message_def)
qed

lemma refused_request:
  "\<exists>g'. request_message example_pipeline json_wire ks_redis example_ingress ''a'' ''i'' ''c'' ''t'' [] 0 (asking_gateway, example_broker) =
      Some (Inl (PermissionDeniedError ''not_authorized''), (g', example_broker))"
proof -
  define m where "m = request_envelope example_ingress ''a'' ''i'' ''c'' ''t'' []"
  note sel = request_envelope_sel [of example_ingress "''a''" "''i''" "''c''" "''t''" "[]", folded m_def]
  have und: "undisturbed example_ingress ''a'' ''i'' (asking_gateway, example_broker)"
    by (rule example_undisturbed) (simp add: asking_gateway_def asking_storage_def)
  have payload: "parse_payload_json (po_numbers example_pipeline) [] = Inr []" by (simp add: parse_payload_json_def validate_json_object_def)
  obtain ks1 where ks1: "beside (pending_request_key ''c'') asking_storage ks1"
      "request_message example_pipeline json_wire ks_redis example_ingress ''a'' ''i'' ''c'' ''t'' [] 0 (asking_gateway, example_broker) =
       forward_request example_pipeline json_wire ks_redis example_ingress m (put_db ks1 asking_gateway, example_broker)"
    using request_forwarded [OF und payload, of 0 "''c''" json_wire "''t''"] by (auto simp: m_def example_ingress_def asking_gateway_def)
  have "healthy example_pipeline example_env m (Some (mailbox_append unknown_target json_wire)) example_gateway"
    by (rule healthy_cong [OF _ _ refused_healthy]) (simp_all add: sel unknown_target_def example_message_def)
  then have "healthy example_pipeline example_env m (Some (mailbox_append m json_wire)) example_gateway"
    by (simp add: healthy_def accepting_def mailbox_append_def sel unknown_target_def)
  then have "healthy example_pipeline example_env m (Some (mailbox_append m json_wire)) asking_gateway"
    unfolding asking_gateway_def using asking_beside
    by (rule beside_healthy) (use side_apart(10) [OF side_keys(2)] in \<open>simp_all add: mailbox_append_def\<close>)
  then have healthy: "healthy example_pipeline example_env m (Some (mailbox_append m json_wire)) (put_db ks1 asking_gateway)"
    by (rule beside_healthy [where k = "pending_request_key ''c''"]) (use ks1(1) side_apart(10) [OF side_keys(1)] in \<open>simp_all add: mailbox_append_def asking_gateway_def\<close>)
  have "policy_spec example_pipeline 0 0 example_storage m = Inr (Refused ''AUTHZ_DENIED'' [''authorization_denied''] (PermissionDeniedError ''not_authorized''))"
    using unknown_target_refused [of 0 0] sel
    by (auto simp: policy_spec_def unknown_target_def example_message_def example_pipeline_def inspect_def rpc_error_defs split: if_splits)
  then have "policy_spec example_pipeline 0 0 ks1 m = Inr (Refused ''AUTHZ_DENIED'' [''authorization_denied''] (PermissionDeniedError ''not_authorized''))"
    using beside_policy(2) [OF asking_beside] beside_policy(2) [OF ks1(1)] by (simp add: example_gateway_def)
  then obtain g' where "ingest_and_route example_pipeline json_wire ks_redis example_env m None (put_db ks1 asking_gateway) =
      Some (Inl (PermissionDeniedError ''not_authorized''), g')"
    using healthy_answers [OF healthy sel(1)] by (auto simp: policy_outcome_def example_env_def)
  then show ?thesis unfolding ks1(2)
    by (simp add: forward_request_def bindt_def catcht_def on_gateway_apply on_store_def delete_quiet example_ingress_def PermissionDeniedError_def)
qed

theorem failed_request_forgotten_witness:
  "\<exists>g'. request_message example_pipeline json_wire ks_redis example_ingress ''a'' ''i'' ''c'' ''t'' [] 0 (asking_gateway, example_broker) =
      Some (Inl (PermissionDeniedError ''not_authorized''), (g', example_broker)) \<and>
    ks_data (gw_db g') (pending_request_key ''c'') = None"
proof -
  obtain g' where run: "request_message example_pipeline json_wire ks_redis example_ingress ''a'' ''i'' ''c'' ''t'' [] 0 (asking_gateway, example_broker) =
      Some (Inl (PermissionDeniedError ''not_authorized''), (g', example_broker))" using refused_request by blast
  have "orderly (\<lambda>ks. ks) example_ingress" by (simp add: orderly_def example_ingress_def)
  moreover have "redis_server ks_redis (\<lambda>ks. ks)" using ref.redis_server_axioms by simp
  moreover have "ks_data (gw_db asking_gateway) (pending_request_key (ic_correlation_id example_ingress)) = None"
    by (simp add: asking_gateway_def asking_storage_def example_storage_at example_ingress_def pending_request_key_def session_key_def allowed_key_def sessions_key_def)
  ultimately have "ks_data (gw_db g') (pending_request_key (ic_correlation_id example_ingress)) = None"
    using failed_request_forgotten [OF _ _ _ run] by (simp add: PermissionDeniedError_def)
  then show ?thesis using run by (simp add: example_ingress_def)
qed

text \<open>
  A request that the policy lets pass is registered and delivered: on a healthy gateway the
  call returns the identifiers of the message and of the correlation, the correlation names
  the agent and the instance that asked, the agent that was asked, and the deadline, its key
  expires in Redis after the timeout, the mailbox of the target has gained exactly the request as the policy released it, and the
  decision is in the audit trail.
\<close>

theorem request_registered_and_delivered:
  assumes "undisturbed call sender inst (g, b)" and "parse_payload_json (po_numbers P) data_json = Inr payload" and "0 \<le> timeout_ms"
    and "healthy P (ic_ingest call) m (Some (mailbox_append m W)) g" and "m = request_envelope call sender inst target kind payload"
    and "policy_spec P (ie_rate_clock (ic_ingest call)) (ie_circuit_clock (ic_ingest call)) (gw_db g) m = Inr (Passed d found m')"
  shows "\<exists>g'. request_message P W ks_redis call sender inst target kind data_json timeout_ms (g, b) = Some (Inr (ic_message_id call, ic_correlation_id call), (g', b)) \<and>
    ks_data (gw_db g') (pending_request_key (ic_correlation_id call)) = Some (RString (pending_request (po_numbers P) sender inst target
      (ic_clock call + real_of_int (effective_timeout_ms timeout_ms) / 1000))) \<and>
    ks_ttl (gw_db g') (pending_request_key (ic_correlation_id call)) = Some (now_ms (gw_db g) + nat (effective_timeout_ms timeout_ms)) \<and>
    now_ms (gw_db g') = now_ms (gw_db g) \<and>
    mails (shared_stream target) (gw_db g') = mails (shared_stream target) (gw_db g) @ [[(''envelope'', dump_envelope W m')]] \<and>
    recorded (po_audit P) Messages (audit_store g') (decision_record P (ic_ingest call) m' d found)"
  using request_delivered [OF assms] .

theorem request_registered_and_delivered_witness:
  "\<exists>g'. request_message example_pipeline json_wire ks_redis example_ingress ''a'' ''i'' ''b'' ''t'' [] 0 (asking_gateway, example_broker) =
      Some (Inr (''m1'', ''c''), (g', example_broker)) \<and> ks_data (gw_db g') (pending_request_key ''c'') \<noteq> None"
proof -
  let ?m = "request_envelope example_ingress ''a'' ''i'' ''b'' ''t'' []"
  have und: "undisturbed example_ingress ''a'' ''i'' (asking_gateway, example_broker)"
    by (rule example_undisturbed) (simp add: asking_gateway_def asking_storage_def)
  have payload: "parse_payload_json (po_numbers example_pipeline) [] = Inr []" by (simp add: parse_payload_json_def validate_json_object_def)
  have healthy: "healthy example_pipeline (ic_ingest example_ingress) ?m (Some (mailbox_append ?m json_wire)) asking_gateway"
    using asking_healthy(2) [OF request_envelope_sel(2,3)] by (simp add: example_ingress_def)
  have passed: "policy_spec example_pipeline (ie_rate_clock (ic_ingest example_ingress)) (ie_circuit_clock (ic_ingest example_ingress)) (gw_db asking_gateway) ?m =
      Inr (Passed ''ALLOWED'' [] ?m)"
    using asking_passes [OF request_envelope_sel(2,3)] by (simp add: example_ingress_def example_env_def asking_gateway_def)
  from request_registered_and_delivered [OF und payload _ healthy refl passed, of 0] show ?thesis
    by (auto simp: example_ingress_def)
qed

text \<open>
  C13. Only the agent that was asked can answer, and only in time. While a correlation is open,
  a reply by anybody else is refused and changes nothing; a reply past the deadline is
  refused and removes the correlation; any other reply goes through the policy as a message
  to the agent and the instance that asked, whatever the replier claims, and is to be
  committed against exactly this correlation.
\<close>

theorem reply_decided_by_correlation:
  assumes "json_numerals (po_numbers P)" and "undisturbed call sender inst (g, b)"
    and "parse_payload_json (po_numbers P) data_json = Inr payload" and "cid \<noteq> []"
    and "ks_data (gw_db g) (pending_request_key cid) = Some (RString (pending_request (po_numbers P) a i t expires))"
    and "is_double (po_numbers P) expires" and "a \<noteq> []" and "i \<noteq> []" and "t \<noteq> []"
  shows "reply_message P W ks_redis call sender inst cid kind data_json (g, b) =
    (if sender \<noteq> t then Some (Inl (PermissionDeniedError ''reply_sender_mismatch''), (g, b))
     else if expires \<le> ic_clock call
     then Some (Inl (FailedPreconditionError ''correlation_id_expired''), (put_db (ks_remove (pending_request_key cid) (gw_db g)) g, b))
     else map_option (\<lambda>(r, g'). (r, (g', b)))
       (ingest_and_route P W ks_redis (ic_ingest call) (reply_envelope call sender inst cid kind payload a i)
         (Some \<lparr>expected_value = pending_request (po_numbers P) a i t expires, commit_fingerprint = reply_fingerprint (po_numbers P) W sender kind payload,
                commit_expires_at = expires\<rparr>) g))"
  using reply_decision [OF assms] .

definition hex_wire :: wire where
  "hex_wire = json_wire\<lparr>sha256 := letters_sha\<rparr>"

lemma hex_wire_codec: "wire_codec hex_wire"
  using json_codec.receipt_roundtrip json_codec.strings_roundtrip by unfold_locales (simp_all add: hex_wire_def)

text \<open>Agent \<open>a\<close> was asked by the instance \<open>j\<close> of agent \<open>b\<close>.\<close>

definition asked_storage :: keyspace where
  "asked_storage = ks_deadline (pending_request_key ''c'') (Some 5) (ks_put (pending_request_key ''c'')
     (RString (pending_request point_numbers ''b'' ''j'' ''a'' 60)) asking_storage)"

definition asked_gateway :: "keyspace gateway" where
  "asked_gateway = put_db asked_storage asking_gateway"

lemma asked_undisturbed: "undisturbed example_ingress ''a'' ''i'' (asked_gateway, example_broker)"
  by (rule example_undisturbed) (simp add: asked_gateway_def asked_storage_def asking_storage_def pending_request_key_def session_key_def)

lemma asked_awaits: "awaits (po_numbers example_pipeline) (gw_db asked_gateway) ''c'' ''b'' ''j'' ''a'' 60"
proof -
  have "reply_receipt_key ''c'' \<notin> {allowed_key ''a'', sessions_key ''b'', session_key ''a'' ''i''}"
    by (simp add: reply_receipt_key_def allowed_key_def sessions_key_def session_key_def)
  then show ?thesis
    by (simp add: awaits_def asked_gateway_def asked_storage_def asking_storage_def example_storage_at example_pipeline_def now_ms_def truncate_real_def)
       (simp add: point_numbers_def decimal_numbers_def)
qed

lemma example_payload: "parse_payload_json (po_numbers example_pipeline) [] = Inr []"
  by (simp add: parse_payload_json_def validate_json_object_def)

theorem reply_decided_by_correlation_witness:
  "\<exists>g. reply_message example_pipeline hex_wire ks_redis (example_ingress\<lparr>ic_clock := 60\<rparr>) ''a'' ''i'' ''c'' ''t'' [] (g, example_broker) =
    Some (Inl (FailedPreconditionError ''correlation_id_expired''), (put_db (ks_remove (pending_request_key ''c'') (gw_db g)) g, example_broker))"
proof -
  have und: "undisturbed (example_ingress\<lparr>ic_clock := 60\<rparr>) ''a'' ''i'' (asked_gateway, example_broker)"
    using asked_undisturbed by (simp add: undisturbed_def)
  have num: "json_numerals (po_numbers example_pipeline)" using point.json_numerals_axioms by (simp add: example_pipeline_def)
  note aw = asked_awaits [unfolded awaits_def]
  show ?thesis
    using reply_decided_by_correlation [OF num und example_payload, of "''c''" "''b''" "''j''" "''a''" 60 hex_wire "''t''"] aw by (intro exI [of _ asked_gateway]) simp
qed

lemma reply_delivered:
  assumes "wire_codec W" and "undisturbed call t inst (g, b)" and "awaits (po_numbers P) (gw_db g) cid a i t expires"
    and "parse_payload_json (po_numbers P) data_json = Inr payload" and "ic_clock call < expires"
    and "m = reply_envelope call t inst cid kind payload a i" and "healthy P (ic_ingest call) m None g"
    and "is_hex64 (reply_fingerprint (po_numbers P) W t kind payload)" and "ic_message_id call \<noteq> []"
    and "stream_typed (instance_stream a i) (gw_db g)" and "room 1 (st_last (stream_at (instance_stream a i) (gw_db g)))"
    and "policy_spec P (ie_rate_clock (ic_ingest call)) (ie_circuit_clock (ic_ingest call)) (gw_db g) m = Inr (Passed d found m')"
  shows "\<exists>g'. reply_message P W ks_redis call t inst cid kind data_json (g, b) = Some (Inr (ic_message_id call), (g', b)) \<and>
    mails (instance_stream a i) (gw_db g') = mails (instance_stream a i) (gw_db g) @ [[(''envelope'', dump_envelope W m')]] \<and>
    recorded (po_audit P) Messages (audit_store g') (decision_record P (ic_ingest call) m' d found) \<and>
    ks_data (gw_db g') (pending_request_key cid) = None"
proof -
  have quiet: "quiet_call P (ic_ingest call) m g" "audit_ok (po_audit P)" using assms(7) by (auto simp: healthy_def quiet_call_def)
  have sel: "target_id m = a" "sender_id m = t" "message_id m = ic_message_id call" "is_reply (env_meta m)" "correlation_id (env_meta m) = Some cid"
    "reply_to_instance_id (env_meta m) = Some i" by (simp_all add: assms(6))
  have fresh: "ks_data (gw_db g) (reply_receipt_key cid) = None" "t \<noteq> []" using assms(3) by (simp_all add: awaits_def)
  let ?c = "\<lparr>expected_value = pending_request (po_numbers P) a i t expires, commit_fingerprint = reply_fingerprint (po_numbers P) W t kind payload, commit_expires_at = expires\<rparr>"
  obtain g' where run: "ingest_and_route P W ks_redis (ic_ingest call) m (Some ?c) g = Some (Inr (ic_message_id call), g')"
    using reply_ingest_succeeds [OF assms(1,7) sel(4,5,6) _ _ _ assms(8), unfolded sel, OF assms(3) _ fresh(2) assms(9,10,11,12)] by auto
  have told: "answered P W (ic_ingest call) m cid (instance_stream a i) \<lparr>receipt_sender = t, receipt_fingerprint = reply_fingerprint (po_numbers P) W t kind payload,
      receipt_message = ic_message_id call\<rparr> g g'"
    using reply_ingested [OF assms(1) quiet(1) fresh(1) sel(5,6,4) run] by (simp add: sel)
  have "reply_message P W ks_redis call t inst cid kind data_json (g, b) = Some (Inr (ic_message_id call), (g', b))"
    using reply_forwarded [OF quiet(2) assms(2-5), of W kind] run by (simp add: assms(6))
  then show ?thesis using told assms(12) by (auto simp: answered_def)
qed

text \<open>
  The answer reaches the one who asked: on a healthy gateway a reply in time by the agent
  that was asked returns, the stream of the instance that asked has gained exactly the reply
  as the policy released it, its decision is in the audit trail, and the correlation is
  closed.
\<close>

theorem reply_reaches_requester:
  assumes "wire_codec W" and "undisturbed call t inst (g, b)" and "awaits (po_numbers P) (gw_db g) cid a i t expires"
    and "parse_payload_json (po_numbers P) data_json = Inr payload" and "ic_clock call < expires"
    and "m = reply_envelope call t inst cid kind payload a i" and "healthy P (ic_ingest call) m None g"
    and "is_hex64 (reply_fingerprint (po_numbers P) W t kind payload)" and "ic_message_id call \<noteq> []"
    and "stream_typed (instance_stream a i) (gw_db g)" and "room 1 (st_last (stream_at (instance_stream a i) (gw_db g)))"
    and "policy_spec P (ie_rate_clock (ic_ingest call)) (ie_circuit_clock (ic_ingest call)) (gw_db g) m = Inr (Passed d found m')"
  shows "\<exists>g'. reply_message P W ks_redis call t inst cid kind data_json (g, b) = Some (Inr (ic_message_id call), (g', b)) \<and>
    mails (instance_stream a i) (gw_db g') = mails (instance_stream a i) (gw_db g) @ [[(''envelope'', dump_envelope W m')]] \<and>
    recorded (po_audit P) Messages (audit_store g') (decision_record P (ic_ingest call) m' d found) \<and>
    ks_data (gw_db g') (pending_request_key cid) = None"
  using assms by (rule reply_delivered)

lemma asked_beside: "beside (pending_request_key ''c'') asking_storage asked_storage"
  by (simp add: beside_def asked_storage_def)

lemma asked_reply:
  defines "m \<equiv> reply_envelope example_ingress ''a'' ''i'' ''c'' ''t'' [] ''b'' ''j''"
  shows "healthy example_pipeline (ic_ingest example_ingress) m None asked_gateway"
    "policy_spec example_pipeline (ie_rate_clock (ic_ingest example_ingress)) (ie_circuit_clock (ic_ingest example_ingress)) (gw_db asked_gateway) m =
       Inr (Passed ''ALLOWED'' [] m)"
    "is_hex64 (reply_fingerprint (po_numbers example_pipeline) hex_wire ''a'' ''t'' [])"
    "ks_data (gw_db asked_gateway) (instance_stream ''b'' ''j'') = None"
proof -
  have m: "sender_id m = ''a''" "target_id m = ''b''" by (simp_all add: m_def)
  have "healthy example_pipeline example_env m None asked_gateway" unfolding asked_gateway_def
    by (rule beside_healthy [where k = "pending_request_key ''c''", OF asking_healthy(1) [OF m]]) (use asked_beside in \<open>simp_all add: asking_gateway_def\<close>)
  then show "healthy example_pipeline (ic_ingest example_ingress) m None asked_gateway" by (simp add: example_ingress_def)
  show "policy_spec example_pipeline (ie_rate_clock (ic_ingest example_ingress)) (ie_circuit_clock (ic_ingest example_ingress)) (gw_db asked_gateway) m =
       Inr (Passed ''ALLOWED'' [] m)"
    using asking_passes [OF m] beside_policy(2) [OF asked_beside] by (simp add: example_ingress_def example_env_def asked_gateway_def)
  show "is_hex64 (reply_fingerprint (po_numbers example_pipeline) hex_wire ''a'' ''t'' [])"
    by (simp add: reply_fingerprint_def hex_wire_def letters_sha_def is_hex64_def list_all_iff)
  show "ks_data (gw_db asked_gateway) (instance_stream ''b'' ''j'') = None"
    by (simp add: asked_gateway_def asked_storage_def asking_storage_def example_storage_at instance_stream_def pending_request_key_def session_key_def
        allowed_key_def sessions_key_def)
qed

lemma asked_box: "stream_typed (instance_stream ''b'' ''j'') (gw_db asked_gateway)" "room 1 (st_last (stream_at (instance_stream ''b'' ''j'') (gw_db asked_gateway)))"
  using asked_reply(4) by (simp_all add: stream_typed_def stream_at_def empty_stream_def room_def max_part_def)

theorem reply_reaches_requester_witness:
  "\<exists>g'. reply_message example_pipeline hex_wire ks_redis example_ingress ''a'' ''i'' ''c'' ''t'' [] (asked_gateway, example_broker) = Some (Inr ''m1'', (g', example_broker)) \<and>
    length (mails (instance_stream ''b'' ''j'') (gw_db g')) = 1"
proof -
  have clock: "ic_clock example_ingress < 60" "ic_message_id example_ingress \<noteq> []" by (simp_all add: example_ingress_def)
  have "mails (instance_stream ''b'' ''j'') (gw_db asked_gateway) = []" using asked_reply(4) by (simp add: mails_def stream_at_def empty_stream_def)
  then show ?thesis
    using reply_reaches_requester [OF hex_wire_codec asked_undisturbed asked_awaits example_payload clock(1) refl asked_reply(1,3) clock(2) asked_box asked_reply(2)]
    by (auto simp: example_ingress_def)
qed



end
