(* ===== verification/Tls.thy ===== *)
theory Tls
  imports Prelude
begin

text \<open>
  \<open>packages/mas-server/src/mas_server/tls.py\<close>: the server's own credentials, which are read
  again before every handshake, and the policy that checks the certificate of a peer against
  the trust and revocation files of the moment. The library \<open>cryptography\<close> and the JSON
  reader of the revocation list are the record \<open>'c x509\<close>, over certificates \<open>'c\<close>; what the
  files hold when a call reads them is the record \<open>tls_files\<close>.
\<close>

section \<open>Parameters\<close>

record 'c x509 =
  load_pem_certificates :: "string \<Rightarrow> err + 'c list"
  load_pem_certificate :: "string \<Rightarrow> err + 'c"
  private_key_public_bytes :: "string \<Rightarrow> err + string"
  certificate_public_bytes :: "'c \<Rightarrow> string"
  certificate_fingerprint :: "'c \<Rightarrow> string"
  not_valid_before :: "'c \<Rightarrow> real"
  not_valid_after :: "'c \<Rightarrow> real"
  basic_constraints_ca :: "'c \<Rightarrow> err + bool"
  extended_key_usage :: "'c \<Rightarrow> err + string list"
  verify_client :: "'c list \<Rightarrow> real \<Rightarrow> nat \<Rightarrow> 'c \<Rightarrow> 'c list \<Rightarrow> err + 'c list"
  validate_fingerprints :: "string \<Rightarrow> err + string list"
  sha256_hex :: "string \<Rightarrow> string"

text \<open>The inode, the time of modification and the size of a file, and its bytes.\<close>

type_synonym file_stat = "nat \<times> nat \<times> nat"

record tls_files =
  stat_of :: "string \<Rightarrow> err + file_stat"
  bytes_of :: "string \<Rightarrow> err + string"

record tls_config =
  server_cert_path :: string
  server_key_path :: string
  client_ca_path :: string
  revoked_certificates_path :: "string option"

section \<open>The identity of the server\<close>

definition read_bounded :: "tls_files \<Rightarrow> string \<Rightarrow> nat \<Rightarrow> err + string" where
  "read_bounded F path bound =
     (case bytes_of F path of
        Inl e \<Rightarrow> Inl e
      | Inr data \<Rightarrow> if length data > bound then Inl (ValueError ''TLS credential file exceeds bound'') else Inr data)"

definition within_validity :: "'c x509 \<Rightarrow> real \<Rightarrow> 'c \<Rightarrow> bool" where
  "within_validity X now c \<longleftrightarrow> not_valid_before X c \<le> now \<and> now < not_valid_after X c"

primrec check_roots :: "'c x509 \<Rightarrow> real \<Rightarrow> 'c list \<Rightarrow> err + unit" where
  "check_roots X now [] = Inr ()"
| "check_roots X now (anchor # roots) =
     (case basic_constraints_ca X anchor of
        Inl e \<Rightarrow> Inl e
      | Inr False \<Rightarrow> Inl (ValueError ''Client trust bundle contains a non-CA certificate'')
      | Inr True \<Rightarrow>
          if \<not> within_validity X now anchor then Inl (ValueError ''Client trust certificate is outside its validity interval'')
          else check_roots X now roots)"

type_synonym tls_identity = "string \<times> string \<times> string"

definition check_leaf :: "'c x509 \<Rightarrow> real \<Rightarrow> string \<Rightarrow> string \<Rightarrow> err + unit" where
  "check_leaf X now cert key =
     (case load_pem_certificates X cert of
        Inl e \<Rightarrow> Inl e
      | Inr [] \<Rightarrow> Inl (ValueError ''Server certificate chain is empty'')
      | Inr (leaf # _) \<Rightarrow>
          if \<not> within_validity X now leaf then Inl (ValueError ''Server certificate is outside its validity interval'')
          else (case private_key_public_bytes X key of
             Inl e \<Rightarrow> Inl e
           | Inr public \<Rightarrow>
               if public \<noteq> certificate_public_bytes X leaf then Inl (ValueError ''Server certificate and key do not match'')
               else Inr ()))"

definition check_trust :: "'c x509 \<Rightarrow> real \<Rightarrow> string \<Rightarrow> err + unit" where
  "check_trust X now ca =
     (case load_pem_certificates X ca of
        Inl e \<Rightarrow> Inl e
      | Inr roots \<Rightarrow>
          if roots = [] then Inl (ValueError ''Client trust bundle is empty'') else check_roots X now roots)"

definition read_identity :: "'c x509 \<Rightarrow> tls_files \<Rightarrow> tls_config \<Rightarrow> real \<Rightarrow> err + tls_identity" where
  "read_identity X F tls now =
     (case read_bounded F (server_cert_path tls) 1048576 of Inl e \<Rightarrow> Inl e | Inr cert \<Rightarrow>
     (case read_bounded F (server_key_path tls) 65536 of Inl e \<Rightarrow> Inl e | Inr key \<Rightarrow>
     (case read_bounded F (client_ca_path tls) 1048576 of Inl e \<Rightarrow> Inl e | Inr ca \<Rightarrow>
     (case check_leaf X now cert key of Inl e \<Rightarrow> Inl e | Inr _ \<Rightarrow>
     (case check_trust X now ca of Inl e \<Rightarrow> Inl e | Inr _ \<Rightarrow> Inr (cert, key, ca))))))"

text \<open>The exceptions that \<open>fetch\<close> answers with the configuration it already has.\<close>

fun rotation_error :: "err \<Rightarrow> bool" where
  "rotation_error (OSError _) = True"
| "rotation_error (ValueError _) = True"
| "rotation_error (PeerValidationCapacityError _) = True"
| "rotation_error ValidationError = True"
| "rotation_error ExtensionNotFound = True"
| "rotation_error _ = False"

text \<open>
  \<open>load_server_credentials\<close>: the identity at the start of the server, and the closure
  \<open>fetch\<close> over the current one, which the transport calls before each handshake; it answers
  with a new configuration, or \<open>None\<close> to keep the last one.
\<close>

definition load_server_credentials :: "'c x509 \<Rightarrow> tls_files \<Rightarrow> tls_config \<Rightarrow> real \<Rightarrow> err + tls_identity" where
  "load_server_credentials X F tls now = read_identity X F tls now"

definition fetch_credentials :: "'c x509 \<Rightarrow> tls_files \<Rightarrow> tls_config \<Rightarrow> real \<Rightarrow> (tls_identity, tls_identity option) io" where
  "fetch_credentials X F tls now current =
     (case read_identity X F tls now of
        Inl e \<Rightarrow> if rotation_error e then (Inr None, current) else (Inl e, current)
      | Inr updated \<Rightarrow> if updated = current then (Inr None, current) else (Inr (Some updated), updated))"

section \<open>The policy on peers\<close>

record 'c peer_policy =
  pp_signature :: "file_stat list option"
  pp_roots :: "'c list"
  pp_revoked :: "string list"
  pp_verified :: "(string \<times> real) list"

definition new_peer_policy :: "'c peer_policy" where
  "new_peer_policy = \<lparr>pp_signature = None, pp_roots = [], pp_revoked = [], pp_verified = []\<rparr>"

definition policy_paths :: "tls_config \<Rightarrow> string list" where
  "policy_paths tls = client_ca_path tls # (case revoked_certificates_path tls of None \<Rightarrow> [] | Some p \<Rightarrow> [p])"

primrec stat_all :: "tls_files \<Rightarrow> string list \<Rightarrow> err + file_stat list" where
  "stat_all F [] = Inr []"
| "stat_all F (p # ps) =
     (case stat_of F p of Inl e \<Rightarrow> Inl e | Inr st \<Rightarrow>
     (case stat_all F ps of Inl e \<Rightarrow> Inl e | Inr sts \<Rightarrow> Inr (st # sts)))"

definition hex_char :: "char \<Rightarrow> bool" where
  "hex_char c \<longleftrightarrow> c \<in> set ''0123456789abcdefABCDEF''"

definition hex_lower :: "char \<Rightarrow> char" where
  "hex_lower c = (let n = (of_char c :: nat) in if 65 \<le> n \<and> n \<le> 70 then char_of (n + 32) else c)"

definition read_revoked :: "'c x509 \<Rightarrow> tls_files \<Rightarrow> tls_config \<Rightarrow> err + string list" where
  "read_revoked X F tls =
     (case revoked_certificates_path tls of
        None \<Rightarrow> Inr []
      | Some path \<Rightarrow>
          (case read_bounded F path 1048576 of Inl e \<Rightarrow> Inl e | Inr data \<Rightarrow>
          (case validate_fingerprints X data of Inl e \<Rightarrow> Inl e | Inr revoked \<Rightarrow>
             if list_ex (\<lambda>v. length v \<noteq> 64 \<or> list_ex (\<lambda>c. \<not> hex_char c) v) revoked
             then Inl (ValueError ''Invalid revoked certificate fingerprint'')
             else Inr (map (map hex_lower) revoked))))"

definition load_trust :: "'c x509 \<Rightarrow> tls_files \<Rightarrow> tls_config \<Rightarrow> err + 'c list \<times> string list" where
  "load_trust X F tls =
     (case read_bounded F (client_ca_path tls) 1048576 of Inl e \<Rightarrow> Inl e | Inr data \<Rightarrow>
     (case load_pem_certificates X data of Inl e \<Rightarrow> Inl e | Inr roots \<Rightarrow>
        if roots = [] then Inl (ValueError ''Client trust bundle is empty'')
        else (case read_revoked X F tls of Inl e \<Rightarrow> Inl e | Inr revoked \<Rightarrow> Inr (roots, revoked))))"

definition refresh_trust :: "'c x509 \<Rightarrow> tls_files \<Rightarrow> tls_config \<Rightarrow> ('c peer_policy, unit) io" where
  "refresh_trust X F tls pp =
     (case stat_all F (policy_paths tls) of
        Inl e \<Rightarrow> (Inl e, pp)
      | Inr signature \<Rightarrow>
          if pp_signature pp = Some signature then (Inr (), pp)
          else (case load_trust X F tls of
             Inl e \<Rightarrow> (Inl e, pp)
           | Inr (roots, revoked) \<Rightarrow>
               (Inr (), \<lparr>pp_signature = Some signature, pp_roots = roots, pp_revoked = revoked, pp_verified = []\<rparr>)))"

definition CLIENT_AUTH :: string where
  "CLIENT_AUTH = ''1.3.6.1.5.5.7.3.2''"

text \<open>The chain that the verifier found for the certificate of a peer that is not revoked.\<close>

definition verify_peer :: "'c x509 \<Rightarrow> 'c list \<Rightarrow> string list \<Rightarrow> real \<Rightarrow> string \<Rightarrow> string \<Rightarrow> err + 'c list" where
  "verify_peer X roots revoked now leaf_pem chain_pem =
     (case load_pem_certificate X leaf_pem of Inl e \<Rightarrow> Inl e | Inr leaf \<Rightarrow>
        if certificate_fingerprint X leaf \<in> set revoked then Inl (ValueError ''Peer certificate revoked'')
        else
     (case if chain_pem = [] then Inr [] else load_pem_certificates X chain_pem of Inl e \<Rightarrow> Inl e | Inr intermediates \<Rightarrow>
     (case verify_client X roots now 8 leaf intermediates of Inl e \<Rightarrow> Inl e | Inr chain \<Rightarrow>
     (case extended_key_usage X leaf of Inl e \<Rightarrow> Inl e | Inr usage \<Rightarrow>
        if CLIENT_AUTH \<notin> set usage then Inl (ValueError ''Peer certificate lacks client authentication usage'')
        else Inr chain))))"

definition remember_verified :: "string \<Rightarrow> real \<Rightarrow> (string \<times> real) list \<Rightarrow> (string \<times> real) list" where
  "remember_verified digest until verified = dict_put digest until (if length verified \<ge> 2048 then [] else verified)"

definition validate_peer :: "'c x509 \<Rightarrow> tls_config \<Rightarrow> tls_files \<Rightarrow> real \<Rightarrow> string \<Rightarrow> string \<Rightarrow> ('c peer_policy, unit) io" where
  "validate_peer X tls F now leaf_pem chain_pem =
     (if length leaf_pem > 65536 \<or> length chain_pem > 1048576 then raise (ValueError ''Peer certificate exceeds bound'')
      else seqio (refresh_trust X F tls) (\<lambda>pp.
        let digest = sha256_hex X leaf_pem in
        if (case map_of (pp_verified pp) digest of None \<Rightarrow> False | Some until \<Rightarrow> now < until) then (Inr (), pp)
        else (case verify_peer X (pp_roots pp) (pp_revoked pp) now leaf_pem chain_pem of
           Inl e \<Rightarrow> (Inl e, pp)
         | Inr chain \<Rightarrow>
             if chain = [] then (Inl (ValueError ''min() iterable argument is empty''), pp\<lparr>pp_verified := if length (pp_verified pp) \<ge> 2048 then [] else pp_verified pp\<rparr>)
             else (Inr (), pp\<lparr>pp_verified := remember_verified digest (Min (set (map (not_valid_after X) chain))) (pp_verified pp)\<rparr>))))"

section \<open>Rotation\<close>

text \<open>
  The identities that a server offers while its files change: the last bundle that was valid
  when a handshake read it.
\<close>

definition rotate_credentials :: "'c x509 \<Rightarrow> tls_config \<Rightarrow> (tls_files \<times> real) list \<Rightarrow> tls_identity \<Rightarrow> tls_identity" where
  "rotate_credentials X tls handshakes current = fold (\<lambda>(F, now) cur. snd (fetch_credentials X F tls now cur)) handshakes current"

definition valid_bundles :: "'c x509 \<Rightarrow> tls_config \<Rightarrow> (tls_files \<times> real) list \<Rightarrow> tls_identity list" where
  "valid_bundles X tls handshakes =
     concat (map (\<lambda>(F, now). case read_identity X F tls now of Inl _ \<Rightarrow> [] | Inr bundle \<Rightarrow> [bundle]) handshakes)"

lemma fetch_current:
  "snd (fetch_credentials X F tls now current) = (case read_identity X F tls now of Inl _ \<Rightarrow> current | Inr bundle \<Rightarrow> bundle)"
  by (simp add: fetch_credentials_def split: sum.splits)

lemma rotate_last_valid:
  "rotate_credentials X tls handshakes current = List.last (current # valid_bundles X tls handshakes)"
  by (induction handshakes arbitrary: current) (auto simp: rotate_credentials_def valid_bundles_def fetch_current split: sum.splits)

section \<open>What an accepted peer has shown\<close>

text \<open>
  A peer is trusted at a moment if its certificate is not revoked, carries the client usage,
  and the verifier has found a chain from it to the roots all of whose certificates are valid
  at that moment.
\<close>

definition currently_trusted :: "'c x509 \<Rightarrow> 'c list \<Rightarrow> string list \<Rightarrow> real \<Rightarrow> string \<Rightarrow> bool" where
  "currently_trusted X roots revoked now pem \<longleftrightarrow>
     (\<exists>leaf intermediates t chain usage. load_pem_certificate X pem = Inr leaf \<and>
        certificate_fingerprint X leaf \<notin> set revoked \<and>
        verify_client X roots t 8 leaf intermediates = Inr chain \<and>
        extended_key_usage X leaf = Inr usage \<and> CLIENT_AUTH \<in> set usage \<and>
        (\<forall>c \<in> set chain. not_valid_before X c \<le> now \<and> now \<le> not_valid_after X c))"

text \<open>The verifier checks the validity of every certificate of the chain at the time it is given.\<close>

definition verifier_checks_validity :: "'c x509 \<Rightarrow> bool" where
  "verifier_checks_validity X \<longleftrightarrow>
     (\<forall>roots t n leaf intermediates chain. verify_client X roots t n leaf intermediates = Inr chain \<longrightarrow>
        (\<forall>c \<in> set chain. not_valid_before X c \<le> t \<and> t \<le> not_valid_after X c))"

text \<open>
  One call of \<open>validate_peer\<close>: the files as they were then, the time, and what the peer showed;
  and the policies that sequences of calls lead to, whatever happens to the files between
  them, while the clock does not run backwards.
\<close>

record peer_check =
  pk_files :: tls_files
  pk_time :: real
  pk_leaf :: string
  pk_chain :: string

definition run_check :: "'c x509 \<Rightarrow> tls_config \<Rightarrow> peer_check \<Rightarrow> ('c peer_policy, unit) io" where
  "run_check X tls c = validate_peer X tls (pk_files c) (pk_time c) (pk_leaf c) (pk_chain c)"

inductive peer_reach :: "'c x509 \<Rightarrow> tls_config \<Rightarrow> peer_check list \<Rightarrow> 'c peer_policy \<Rightarrow> bool"
  for X tls where
  start: "peer_reach X tls [] new_peer_policy"
| check: "peer_reach X tls tr pp \<Longrightarrow> \<forall>k \<in> set tr. pk_time k \<le> pk_time c \<Longrightarrow>
    peer_reach X tls (tr @ [c]) (snd (run_check X tls c pp))"

definition verified_entry :: "'c x509 \<Rightarrow> 'c list \<Rightarrow> string list \<Rightarrow> peer_check list \<Rightarrow> string \<times> real \<Rightarrow> bool" where
  "verified_entry X roots revoked tr entry \<longleftrightarrow>
     (\<exists>vf \<in> set tr. \<exists>chain. sha256_hex X (pk_leaf vf) = fst entry \<and>
        verify_peer X roots revoked (pk_time vf) (pk_leaf vf) (pk_chain vf) = Inr chain \<and> chain \<noteq> [] \<and>
        snd entry = Min (set (map (not_valid_after X) chain)))"

definition peer_inv :: "'c x509 \<Rightarrow> tls_config \<Rightarrow> peer_check list \<Rightarrow> 'c peer_policy \<Rightarrow> bool" where
  "peer_inv X tls tr pp \<longleftrightarrow>
     (pp_signature pp = None \<longrightarrow> pp_verified pp = []) \<and>
     (\<forall>sg. pp_signature pp = Some sg \<longrightarrow>
        (\<exists>ld \<in> set tr. stat_all (pk_files ld) (policy_paths tls) = Inr sg \<and>
           load_trust X (pk_files ld) tls = Inr (pp_roots pp, pp_revoked pp))) \<and>
     (\<forall>entry \<in> set (pp_verified pp). verified_entry X (pp_roots pp) (pp_revoked pp) tr entry)"

lemma verify_peer_Inr:
  "verify_peer X roots revoked t pem chain_pem = Inr chain \<longleftrightarrow>
     (\<exists>leaf intermediates usage. load_pem_certificate X pem = Inr leaf \<and> certificate_fingerprint X leaf \<notin> set revoked \<and>
        (if chain_pem = [] then Inr [] else load_pem_certificates X chain_pem) = Inr intermediates \<and>
        verify_client X roots t 8 leaf intermediates = Inr chain \<and>
        extended_key_usage X leaf = Inr usage \<and> CLIENT_AUTH \<in> set usage)"
  by (auto simp: verify_peer_def split: sum.splits)

lemma verified_entry_later: "verified_entry X roots revoked tr entry \<Longrightarrow> verified_entry X roots revoked (tr @ [c]) entry"
  unfolding verified_entry_def by auto

lemma peer_inv_later: "peer_inv X tls tr pp \<Longrightarrow> peer_inv X tls (tr @ [c]) pp"
  unfolding peer_inv_def by (auto intro: verified_entry_later)

lemma refresh_trust_cases:
  assumes "refresh_trust X F tls pp = (r, pp1)"
  obtains (failed) e where "r = Inl e" "pp1 = pp"
    | (kept) sg where "r = Inr ()" "pp1 = pp" "stat_all F (policy_paths tls) = Inr sg" "pp_signature pp = Some sg"
    | (loaded) sg roots revoked where "r = Inr ()" "stat_all F (policy_paths tls) = Inr sg" "load_trust X F tls = Inr (roots, revoked)"
        "pp1 = \<lparr>pp_signature = Some sg, pp_roots = roots, pp_revoked = revoked, pp_verified = []\<rparr>"
  using assms by (auto simp: refresh_trust_def split: sum.splits if_splits)

lemma refresh_trust_inv:
  assumes "peer_inv X tls tr pp" and "refresh_trust X (pk_files c) tls pp = (r, pp1)"
  shows "peer_inv X tls (tr @ [c]) pp1 \<and>
    (r = Inr () \<longrightarrow> (\<exists>sg. stat_all (pk_files c) (policy_paths tls) = Inr sg \<and> pp_signature pp1 = Some sg))"
  using assms(2)
proof (cases rule: refresh_trust_cases)
  case loaded
  then show ?thesis by (auto simp: peer_inv_def)
qed (use peer_inv_later [OF assms(1)] in simp_all)

text \<open>A check is a refresh, followed by an answer from the cache or by the verifier.\<close>

lemma validate_peer_cases:
  assumes "validate_peer X tls F now leaf chain_pem pp = (r, pp')"
  obtains (failed) pp1 r1 where "refresh_trust X F tls pp = (r1, pp1)" "r \<noteq> Inr ()"
      "pp' = pp1 \<or> pp' = pp1\<lparr>pp_verified := []\<rparr>"
    | (bound) "pp' = pp" "r \<noteq> Inr ()"
    | (cached) until where "refresh_trust X F tls pp = (Inr (), pp')" "r = Inr ()"
        "map_of (pp_verified pp') (sha256_hex X leaf) = Some until" "now < until"
    | (verified) pp1 chain where "refresh_trust X F tls pp = (Inr (), pp1)" "r = Inr ()"
        "verify_peer X (pp_roots pp1) (pp_revoked pp1) now leaf chain_pem = Inr chain" "chain \<noteq> []"
        "pp' = pp1\<lparr>pp_verified := remember_verified (sha256_hex X leaf) (Min (set (map (not_valid_after X) chain))) (pp_verified pp1)\<rparr>"
proof (cases "length leaf > 65536 \<or> length chain_pem > 1048576")
  case True
  then show ?thesis using assms bound by (auto simp: validate_peer_def)
next
  case False
  obtain r1 pp1 where ref: "refresh_trust X F tls pp = (r1, pp1)" by (metis prod.exhaust)
  show ?thesis
  proof (cases r1)
    case (Inl e)
    then show ?thesis using assms False ref failed by (auto simp: validate_peer_def seqio_split)
  next
    case (Inr u)
    have ref: "refresh_trust X F tls pp = (Inr (), pp1)" using ref Inr by simp
    note run = assms [unfolded validate_peer_def, simplified False if_False seqio_split ref Let_def, simplified]
    show ?thesis
    proof (cases "case map_of (pp_verified pp1) (sha256_hex X leaf) of None \<Rightarrow> False | Some until \<Rightarrow> now < until")
      case True
      then obtain until where hit: "map_of (pp_verified pp1) (sha256_hex X leaf) = Some until" "now < until" by (auto split: option.splits)
      then have "r = Inr ()" "pp' = pp1" using run by auto
      then show ?thesis using cached [of until] hit ref by simp
    next
      case nocache: False
      show ?thesis
      proof (cases "verify_peer X (pp_roots pp1) (pp_revoked pp1) now leaf chain_pem")
        case (Inl e)
        then have "r = Inl e" "pp' = pp1" using run nocache by auto
        then show ?thesis using failed [OF ref] by simp
      next
        case (Inr chain)
        then show ?thesis using run nocache failed [OF ref] verified [OF ref _ Inr]
          by (cases "chain = []") (auto split: if_splits)
      qed
    qed
  qed
qed

lemma run_check_inv:
  assumes inv: "peer_inv X tls tr pp" and run: "run_check X tls c pp = (r, pp')"
  shows "peer_inv X tls (tr @ [c]) pp'"
  using run unfolding run_check_def
proof (cases rule: validate_peer_cases)
  case (failed pp1 r1)
  then show ?thesis using refresh_trust_inv [OF inv failed(1)] by (auto simp: peer_inv_def)
next
  case bound
  then show ?thesis using peer_inv_later [OF inv] by simp
next
  case (cached until)
  then show ?thesis using refresh_trust_inv [OF inv cached(1)] by simp
next
  case (verified pp1 chain)
  let ?until = "Min (set (map (not_valid_after X) chain))"
  have inv1: "peer_inv X tls (tr @ [c]) pp1" and "pp_signature pp1 \<noteq> None"
    using refresh_trust_inv [OF inv verified(1)] by auto
  moreover have "verified_entry X (pp_roots pp1) (pp_revoked pp1) (tr @ [c]) (sha256_hex X (pk_leaf c), ?until)"
    using verified(3,4) by (auto simp: verified_entry_def)
  moreover have "set (pp_verified pp') \<subseteq> insert (sha256_hex X (pk_leaf c), ?until) (set (pp_verified pp1))"
    using set_dict_put [of "sha256_hex X (pk_leaf c)" ?until "pp_verified pp1"] set_dict_put [of "sha256_hex X (pk_leaf c)" ?until "[]"]
    unfolding verified(5) by (auto simp: remember_verified_def simp del: set_map)
  ultimately show ?thesis using verified(5) by (auto simp: peer_inv_def)
qed

lemma peer_reach_inv: "peer_reach X tls tr pp \<Longrightarrow> peer_inv X tls tr pp"
proof (induction rule: peer_reach.induct)
  case start
  then show ?case by (simp add: peer_inv_def new_peer_policy_def)
next
  case (check tr pp c)
  then show ?case using run_check_inv [OF check.IH] by (metis prod.collapse)
qed

lemma verified_trusted:
  assumes lib: "verifier_checks_validity X" and ver: "verify_peer X roots revoked s pem chain_pem = Inr chain"
    and "s \<le> now" and "\<forall>c \<in> set chain. now \<le> not_valid_after X c"
  shows "currently_trusted X roots revoked now pem"
proof -
  obtain leaf intermediates usage where v: "load_pem_certificate X pem = Inr leaf" "certificate_fingerprint X leaf \<notin> set revoked"
      "verify_client X roots s 8 leaf intermediates = Inr chain" "extended_key_usage X leaf = Inr usage" "CLIENT_AUTH \<in> set usage"
    using ver unfolding verify_peer_Inr by blast
  have "\<forall>c \<in> set chain. not_valid_before X c \<le> now \<and> now \<le> not_valid_after X c"
    using lib v(3) assms(3,4) unfolding verifier_checks_validity_def by (meson order_trans)
  then show ?thesis using v unfolding currently_trusted_def by blast
qed

text \<open>
  What a check that accepts has to go by. The trust and revocation lists are those of a check
  \<open>ld\<close>, this one or an earlier one, at which the files showed the inode, time of modification
  and size that they show now; the certificate was verified by a check \<open>vf\<close>, this one or an
  earlier one, whose certificate has the digest of the present one; and what \<open>vf\<close> verified is
  trusted under those lists at the present time.
\<close>

definition vouched :: "'c x509 \<Rightarrow> tls_config \<Rightarrow> peer_check list \<Rightarrow> peer_check \<Rightarrow> bool" where
  "vouched X tls tr c \<longleftrightarrow>
     (\<exists>ld \<in> set (tr @ [c]). \<exists>vf \<in> set (tr @ [c]). \<exists>signature roots revoked.
        stat_all (pk_files c) (policy_paths tls) = Inr signature \<and> stat_all (pk_files ld) (policy_paths tls) = Inr signature \<and>
        load_trust X (pk_files ld) tls = Inr (roots, revoked) \<and>
        sha256_hex X (pk_leaf vf) = sha256_hex X (pk_leaf c) \<and>
        currently_trusted X roots revoked (pk_time c) (pk_leaf vf))"

lemma cached_trusted:
  assumes lib: "verifier_checks_validity X" and times: "\<forall>k \<in> set tr. pk_time k \<le> now"
    and entry: "verified_entry X roots revoked tr (digest, until)" and "now < until"
  obtains vf where "vf \<in> set tr" "sha256_hex X (pk_leaf vf) = digest" "currently_trusted X roots revoked now (pk_leaf vf)"
proof -
  obtain vf chain where e: "vf \<in> set tr" "sha256_hex X (pk_leaf vf) = digest" "chain \<noteq> []"
      "verify_peer X roots revoked (pk_time vf) (pk_leaf vf) (pk_chain vf) = Inr chain" "until = Min (set (map (not_valid_after X) chain))"
    using entry by (auto simp: verified_entry_def)
  have "\<forall>c \<in> set chain. now \<le> not_valid_after X c"
    using \<open>now < until\<close> e(5) by (auto simp: Min_gr_iff less_imp_le e(3))
  then show thesis using verified_trusted [OF lib e(4)] times e(1,2) that by blast
qed

lemma accepted_vouched:
  assumes lib: "verifier_checks_validity X" and reach: "peer_reach X tls tr pp" and times: "\<forall>k \<in> set tr. pk_time k \<le> pk_time c"
    and run: "run_check X tls c pp = (Inr (), pp')"
  shows "vouched X tls tr c"
proof -
  have vouch: "vouched X tls tr c"
    if ref: "refresh_trust X (pk_files c) tls pp = (Inr (), pp1)"
      and vf: "vf \<in> set (tr @ [c])" "sha256_hex X (pk_leaf vf) = sha256_hex X (pk_leaf c)"
        "currently_trusted X (pp_roots pp1) (pp_revoked pp1) (pk_time c) (pk_leaf vf)" for pp1 vf
  proof -
    obtain sg where sg: "stat_all (pk_files c) (policy_paths tls) = Inr sg" "pp_signature pp1 = Some sg" and inv: "peer_inv X tls (tr @ [c]) pp1"
      using refresh_trust_inv [OF peer_reach_inv [OF reach] ref] by auto
    then show ?thesis using vf unfolding vouched_def peer_inv_def by blast
  qed
  from run show ?thesis unfolding run_check_def
  proof (cases rule: validate_peer_cases)
    case (cached until)
    then have "verified_entry X (pp_roots pp') (pp_revoked pp') (tr @ [c]) (sha256_hex X (pk_leaf c), until)"
      using refresh_trust_inv [OF peer_reach_inv [OF reach] cached(1)] by (auto simp: peer_inv_def dest: map_of_SomeD)
    then show ?thesis using cached_trusted [OF lib _ _ cached(4)] times vouch [OF cached(1)]
      by (metis Un_iff empty_iff insert_iff list.set(1,2) order_refl set_append)
  next
    case (verified pp1 path)
    have "\<forall>k \<in> set path. pk_time c \<le> not_valid_after X k"
      using lib verified(3) unfolding verify_peer_Inr verifier_checks_validity_def by blast
    then show ?thesis using verified_trusted [OF lib verified(3) order_refl] vouch [OF verified(1), of c] by simp
  qed auto
qed


text \<open>A library whose certificates are their own text, with digests of 64 digits, and a broker that trusts one root.\<close>

definition example_x509 :: "string x509" where
  "example_x509 = \<lparr>load_pem_certificates = (\<lambda>data. Inr [data]), load_pem_certificate = Inr,
     private_key_public_bytes = Inr, certificate_public_bytes = id, certificate_fingerprint = id,
     not_valid_before = (\<lambda>_. 0), not_valid_after = (\<lambda>_. 10), basic_constraints_ca = (\<lambda>_. Inr True),
     extended_key_usage = (\<lambda>_. Inr [CLIENT_AUTH]),
     verify_client = (\<lambda>roots t n leaf intermediates. if 0 \<le> t \<and> t \<le> 10 then Inr (leaf # roots) else Inl (VerificationError ''expired'')),
     validate_fingerprints = (\<lambda>_. Inr []), sha256_hex = (\<lambda>pem. take 64 (pem @ replicate 64 CHR ''0''))\<rparr>"

definition example_files :: tls_files where
  "example_files = \<lparr>stat_of = (\<lambda>_. Inr (1, 2, 3)), bytes_of = (\<lambda>_. Inr ''root'')\<rparr>"

definition example_tls :: tls_config where
  "example_tls = \<lparr>server_cert_path = ''cert'', server_key_path = ''key'', client_ca_path = ''ca'', revoked_certificates_path = Some ''revoked''\<rparr>"

definition example_at :: "real \<Rightarrow> peer_check" where
  "example_at now = \<lparr>pk_files = example_files, pk_time = now, pk_leaf = ''peer'', pk_chain = []\<rparr>"

definition checked_once :: "string peer_policy" where
  "checked_once = snd (run_check example_x509 example_tls (example_at 1) new_peer_policy)"

lemmas example_peer_defs = validate_peer_def refresh_trust_def seqio_split load_trust_def read_revoked_def read_bounded_def policy_paths_def
  verify_peer_def remember_verified_def dict_put_def new_peer_policy_def example_x509_def example_files_def example_tls_def CLIENT_AUTH_def Let_def

lemma example_check: "now < 10 \<Longrightarrow> run_check example_x509 example_tls (example_at now) checked_once = (Inr (), checked_once)"
  by (simp add: checked_once_def run_check_def example_at_def example_peer_defs)

lemma example_verifier: "verifier_checks_validity example_x509"
  by (auto simp: verifier_checks_validity_def example_x509_def split: if_splits)


end
