(* ===== verification/Peer_Validation.thy ===== *)
theory Peer_Validation
  imports Tls
begin

text \<open>
  \<open>packages/mas-server/src/mas_server/peer_validation.py\<close>: the bounded queue in front of the
  certificate checks. Callers wait on futures; one worker takes a snapshot of the queue,
  checks each different certificate of the snapshot once in a thread, and answers the
  futures. The check is a function on the state \<open>'p\<close> of the policy; \<open>Tls\<close> provides it.
\<close>

section \<open>State\<close>

datatype check_future = Waiting | CheckPassed | CheckFailed err | Withdrawn

record check_request =
  rq_leaf :: string
  rq_chain :: string
  rq_future :: nat

text \<open>No worker, a worker task that has not run yet, or one that waits for its thread.\<close>

datatype queue_worker = NoWorker | Scheduled | Busy "check_request list"

record 'p validator =
  vq_policy :: 'p
  vq_capacity :: int
  vq_batch_size :: int
  vq_max_bytes :: int
  vq_pending :: "check_request list"
  vq_active :: int
  vq_bytes :: int
  vq_worker :: queue_worker
  vq_futures :: "check_future list"

definition new_validator :: "'p \<Rightarrow> int \<Rightarrow> int \<Rightarrow> int \<Rightarrow> err + 'p validator" where
  "new_validator policy capacity batch_size max_bytes =
     (if min capacity (min batch_size max_bytes) \<le> 0 then Inl (ValueError ''Peer validation limits must be positive'')
      else Inr \<lparr>vq_policy = policy, vq_capacity = capacity, vq_batch_size = min batch_size capacity, vq_max_bytes = max_bytes,
        vq_pending = [], vq_active = 0, vq_bytes = 0, vq_worker = NoWorker, vq_futures = []\<rparr>)"

definition validator_idle :: "'p validator \<Rightarrow> bool" where
  "validator_idle v \<longleftrightarrow> vq_worker v = NoWorker"

section \<open>Operations\<close>

definition request_size :: "check_request \<Rightarrow> int" where
  "request_size rq = int (length (rq_leaf rq)) + int (length (rq_chain rq))"

text \<open>\<open>validate\<close> up to the point where it awaits its future, whose index it returns.\<close>

definition submit_check :: "bool \<Rightarrow> string \<Rightarrow> string \<Rightarrow> ('p validator, nat) io" where
  "submit_check own_loop leaf chain v =
     (let rq = \<lparr>rq_leaf = leaf, rq_chain = chain, rq_future = length (vq_futures v)\<rparr> in
      if \<not> own_loop then (Inl (RuntimeError ''Peer validator belongs to another event loop''), v)
      else if length leaf > 65536 \<or> length chain > 1048576 then (Inl (ValueError ''Peer certificate exceeds bound''), v)
      else if vq_active v \<ge> vq_capacity v \<or> vq_bytes v + request_size rq > vq_max_bytes v
      then (Inl (PeerValidationCapacityError ''Peer validation capacity exceeded''), v)
      else (Inr (rq_future rq),
        v\<lparr>vq_pending := vq_pending v @ [rq], vq_active := vq_active v + 1, vq_bytes := vq_bytes v + request_size rq,
          vq_worker := (case vq_worker v of NoWorker \<Rightarrow> Scheduled | w \<Rightarrow> w), vq_futures := vq_futures v @ [Waiting]\<rparr>))"

text \<open>A caller that is cancelled while it awaits cancels its own future.\<close>

definition resolve_future :: "nat \<Rightarrow> check_future \<Rightarrow> check_future list \<Rightarrow> check_future list" where
  "resolve_future i answer fs = (if i < length fs \<and> fs ! i = Waiting then fs[i := answer] else fs)"

definition withdraw :: "nat \<Rightarrow> 'p validator \<Rightarrow> 'p validator" where
  "withdraw i v = v\<lparr>vq_futures := resolve_future i Withdrawn (vq_futures v)\<rparr>"

definition future_answer :: "err option \<Rightarrow> check_future" where
  "future_answer error = (case error of None \<Rightarrow> CheckPassed | Some e \<Rightarrow> if e = CancelledError then Withdrawn else CheckFailed e)"

definition finish_check :: "check_request \<times> err option \<Rightarrow> 'p validator \<Rightarrow> 'p validator" where
  "finish_check answered v =
     v\<lparr>vq_active := vq_active v - 1, vq_bytes := vq_bytes v - request_size (fst answered),
       vq_futures := resolve_future (rq_future (fst answered)) (future_answer (snd answered)) (vq_futures v)\<rparr>"

definition take_batch :: "'p validator \<Rightarrow> 'p validator" where
  "take_batch v =
     (if vq_pending v = [] then v\<lparr>vq_worker := NoWorker\<rparr>
      else let n = nat (min (vq_batch_size v) (int (length (vq_pending v)))) in
        v\<lparr>vq_worker := Busy (take n (vq_pending v)), vq_pending := drop n (vq_pending v)\<rparr>)"

type_synonym verdicts = "((string \<times> string) \<times> err option) list"

text \<open>The checks of a snapshot are numbered, since each of them meets the world of its own moment.\<close>

type_synonym 'p checker = "nat \<Rightarrow> string \<Rightarrow> string \<Rightarrow> ('p, unit) io"

abbreviation rq_certificate :: "check_request \<Rightarrow> string \<times> string" where
  "rq_certificate rq \<equiv> (rq_leaf rq, rq_chain rq)"

fun validate_snapshot :: "'p checker \<Rightarrow> nat \<Rightarrow> check_request list \<Rightarrow> verdicts \<Rightarrow> ('p, verdicts) io" where
  "validate_snapshot check k [] results = ret results"
| "validate_snapshot check k (rq # rqs) results =
     (if map_of results (rq_certificate rq) \<noteq> None then validate_snapshot check k rqs results
      else (\<lambda>p. case check k (rq_leaf rq) (rq_chain rq) p of
          (Inl e, p') \<Rightarrow>
            if e = CancelledError then (Inl e, p')
            else validate_snapshot check (k + 1) rqs (dict_put (rq_certificate rq) (Some e) results) p'
        | (Inr _, p') \<Rightarrow> validate_snapshot check (k + 1) rqs (dict_put (rq_certificate rq) None results) p'))"

definition finish_all :: "(check_request \<times> err option) list \<Rightarrow> 'p validator \<Rightarrow> 'p validator" where
  "finish_all answers v = fold finish_check answers v"

text \<open>The wait for the thread failed: everything that was accepted is answered with the error.\<close>

definition abort_worker :: "err \<Rightarrow> check_request list \<Rightarrow> 'p validator \<Rightarrow> 'p validator" where
  "abort_worker e batch v =
     (finish_all (map (\<lambda>rq. (rq, Some e)) (batch @ vq_pending v)) v)\<lparr>vq_pending := [], vq_worker := NoWorker\<rparr>"

text \<open>
  One turn of the worker: it starts, or its thread is done, and it runs up to the next
  snapshot or its end.
\<close>

definition worker_turn :: "'p checker \<Rightarrow> 'p validator \<Rightarrow> 'p validator" where
  "worker_turn check v =
     (case vq_worker v of
        NoWorker \<Rightarrow> v
      | Scheduled \<Rightarrow> take_batch v
      | Busy batch \<Rightarrow>
          (case validate_snapshot check 0 batch [] (vq_policy v) of
             (Inl e, p) \<Rightarrow> abort_worker e batch (v\<lparr>vq_policy := p\<rparr>)
           | (Inr results, p) \<Rightarrow>
               take_batch (finish_all (map (\<lambda>rq. (rq, the (map_of results (rq_certificate rq)))) batch) (v\<lparr>vq_policy := p\<rparr>))))"

text \<open>The worker's wait is interrupted, at a point where the thread has brought the policy to \<open>p\<close>.\<close>

definition interrupt_worker :: "err \<Rightarrow> 'p \<Rightarrow> 'p validator \<Rightarrow> 'p validator" where
  "interrupt_worker e p v = (case vq_worker v of Busy batch \<Rightarrow> abort_worker e batch (v\<lparr>vq_policy := p\<rparr>) | _ \<Rightarrow> v)"

inductive queue_step :: "'p validator \<Rightarrow> 'p validator \<Rightarrow> bool" where
  submitted: "queue_step v (snd (submit_check own leaf chain v))"
| withdrawn: "queue_step v (withdraw i v)"
| turned: "queue_step v (worker_turn check v)"
| interrupted: "queue_step v (interrupt_worker e p v)"

inductive queue_reach :: "'p validator \<Rightarrow> bool" where
  created: "new_validator policy capacity batch_size max_bytes = Inr v \<Longrightarrow> queue_reach v"
| stepped: "queue_reach v \<Longrightarrow> queue_step v w \<Longrightarrow> queue_reach w"

section \<open>Accounting\<close>

definition batch_of :: "'p validator \<Rightarrow> check_request list" where
  "batch_of v = (case vq_worker v of Busy batch \<Rightarrow> batch | _ \<Rightarrow> [])"

abbreviation accepted :: "'p validator \<Rightarrow> check_request list" where
  "accepted v \<equiv> batch_of v @ vq_pending v"

definition total_size :: "check_request list \<Rightarrow> int" where
  "total_size rqs = (\<Sum>rq\<leftarrow>rqs. request_size rq)"

text \<open>The counters count what was accepted, and the futures that wait are those of accepted requests.\<close>

definition accounted :: "check_request list \<Rightarrow> 'p validator \<Rightarrow> bool" where
  "accounted rqs v \<longleftrightarrow> vq_active v = int (length rqs) \<and> vq_bytes v = total_size rqs \<and>
     distinct (map rq_future rqs) \<and>
     (\<forall>i < length (vq_futures v). vq_futures v ! i = Waiting \<longrightarrow> i \<in> rq_future ` set rqs) \<and>
     (\<forall>rq \<in> set rqs. rq_future rq < length (vq_futures v))"

definition queue_inv :: "'p validator \<Rightarrow> bool" where
  "queue_inv v \<longleftrightarrow> accounted (accepted v) v \<and> 0 < vq_batch_size v \<and> vq_batch_size v \<le> vq_capacity v \<and>
     vq_active v \<le> vq_capacity v \<and> vq_bytes v \<le> vq_max_bytes v \<and>
     int (length (batch_of v)) \<le> vq_batch_size v \<and>
     (vq_worker v = NoWorker \<longrightarrow> vq_pending v = []) \<and> (vq_worker v = Scheduled \<longrightarrow> vq_pending v \<noteq> []) \<and>
     vq_worker v \<noteq> Busy []"

lemma request_size_nonneg [simp]: "0 \<le> request_size rq"
  by (simp add: request_size_def)

lemma total_size_simps [simp]:
  "total_size [] = 0" "total_size (rq # rqs) = request_size rq + total_size rqs"
  "total_size (xs @ ys) = total_size xs + total_size ys"
  by (simp_all add: total_size_def)

lemma total_size_nonneg [simp]: "0 \<le> total_size rqs"
  by (induction rqs) simp_all

lemma resolve_future_length [simp]: "length (resolve_future i a fs) = length fs"
  by (simp add: resolve_future_def)

lemma resolve_future_Waiting:
  assumes "j < length fs" and "a \<noteq> Waiting"
  shows "resolve_future i a fs ! j = Waiting \<longleftrightarrow> fs ! j = Waiting \<and> j \<noteq> i"
  using assms by (auto simp: resolve_future_def nth_list_update)

lemma resolve_future_other: "j \<noteq> i \<Longrightarrow> resolve_future i a fs ! j = fs ! j"
  by (simp add: resolve_future_def)

lemma future_answer_done [simp]: "future_answer error \<noteq> Waiting"
  by (simp add: future_answer_def split: option.splits)

lemma accounted_finish:
  assumes "accounted (fst answered # rqs) v"
  shows "accounted rqs (finish_check answered v)"
proof -
  let ?fs = "vq_futures (finish_check answered v)"
  have fs: "?fs = resolve_future (rq_future (fst answered)) (future_answer (snd answered)) (vq_futures v)" by (simp add: finish_check_def)
  have "i \<in> rq_future ` set rqs" if i: "i < length ?fs" "?fs ! i = Waiting" for i
  proof -
    have "i < length (vq_futures v)" "vq_futures v ! i = Waiting" "i \<noteq> rq_future (fst answered)"
      using i unfolding fs by (simp_all add: resolve_future_Waiting)
    then show ?thesis using assms by (auto simp: accounted_def)
  qed
  then show ?thesis using assms by (auto simp: accounted_def finish_check_def)
qed

lemma accounted_finish_all:
  assumes "accounted (map fst answers @ rqs) v"
  shows "accounted rqs (finish_all answers v)"
  using assms
proof (induction answers arbitrary: v)
  case (Cons answered answers)
  then show ?case using accounted_finish [of answered "map fst answers @ rqs" v] by (simp add: finish_all_def)
qed (simp add: finish_all_def)

lemma finish_all_frame:
  "vq_pending (finish_all answers v) = vq_pending v \<and> vq_worker (finish_all answers v) = vq_worker v \<and>
   vq_policy (finish_all answers v) = vq_policy v \<and> vq_capacity (finish_all answers v) = vq_capacity v \<and>
   vq_batch_size (finish_all answers v) = vq_batch_size v \<and> vq_max_bytes (finish_all answers v) = vq_max_bytes v \<and>
   length (vq_futures (finish_all answers v)) = length (vq_futures v)"
  by (induction answers arbitrary: v) (simp_all add: finish_all_def finish_check_def)

lemma finish_all_simps [simp]:
  "vq_pending (finish_all answers v) = vq_pending v" "vq_worker (finish_all answers v) = vq_worker v"
  "vq_policy (finish_all answers v) = vq_policy v" "vq_capacity (finish_all answers v) = vq_capacity v"
  "vq_batch_size (finish_all answers v) = vq_batch_size v" "vq_max_bytes (finish_all answers v) = vq_max_bytes v"
  "length (vq_futures (finish_all answers v)) = length (vq_futures v)"
  using finish_all_frame [of answers v] by simp_all

lemma accounted_cong:
  assumes "vq_active w = vq_active v" "vq_bytes w = vq_bytes v" "vq_futures w = vq_futures v"
  shows "accounted rqs w = accounted rqs v"
  using assms by (simp add: accounted_def)

lemma accounted_bounds: "accounted rqs v \<Longrightarrow> vq_active v = int (length rqs) \<and> vq_bytes v = total_size rqs"
  by (simp add: accounted_def)

lemma take_batch_accepted:
  assumes "0 < vq_batch_size v"
  shows "accepted (take_batch v) = vq_pending v"
  using assms by (auto simp: take_batch_def batch_of_def Let_def)

lemma take_batch_inv:
  assumes acc: "accounted (vq_pending v) v" and lims: "0 < vq_batch_size v" "vq_batch_size v \<le> vq_capacity v"
    and "int (length (vq_pending v)) \<le> vq_capacity v" "total_size (vq_pending v) \<le> vq_max_bytes v"
  shows "queue_inv (take_batch v)"
proof -
  let ?w = "take_batch v"
  have fr: "vq_active ?w = vq_active v" "vq_bytes ?w = vq_bytes v" "vq_futures ?w = vq_futures v" "vq_batch_size ?w = vq_batch_size v"
      "vq_capacity ?w = vq_capacity v" "vq_max_bytes ?w = vq_max_bytes v"
    by (simp_all add: take_batch_def Let_def)
  have "int (length (batch_of ?w)) \<le> vq_batch_size v" "vq_worker ?w = NoWorker \<longrightarrow> vq_pending ?w = []" "vq_worker ?w \<noteq> Scheduled" "vq_worker ?w \<noteq> Busy []"
    using lims by (auto simp: take_batch_def batch_of_def Let_def min_le_iff_disj)
  moreover have "accounted (accepted ?w) ?w"
    using acc unfolding take_batch_accepted [OF lims(1)] by (simp add: accounted_cong [OF fr(1-3)])
  moreover have "vq_active v \<le> vq_capacity v" "vq_bytes v \<le> vq_max_bytes v" using accounted_bounds [OF acc] assms(4,5) by simp_all
  ultimately show ?thesis using lims by (simp add: queue_inv_def fr)
qed

lemma abort_worker_inv:
  assumes "accounted (batch @ vq_pending v) v" and "0 < vq_batch_size v" "vq_batch_size v \<le> vq_capacity v" "0 \<le> vq_max_bytes v"
  shows "queue_inv (abort_worker e batch v)"
proof -
  let ?answers = "map (\<lambda>rq. (rq, Some e)) (batch @ vq_pending v)"
  have "accounted [] (finish_all ?answers v)" using accounted_finish_all [of ?answers "[]" v] assms(1) by (simp add: comp_def)
  then have "accounted [] (abort_worker e batch v)" by (simp add: abort_worker_def accounted_def)
  then show ?thesis using assms(2-) accounted_bounds [of "[]" "abort_worker e batch v"]
    by (simp add: queue_inv_def abort_worker_def batch_of_def)
qed

lemma submit_check_inv:
  assumes inv: "queue_inv v"
  shows "queue_inv (snd (submit_check own leaf chain v))"
proof (cases "\<exists>n. fst (submit_check own leaf chain v) = Inr n")
  case False
  then have "snd (submit_check own leaf chain v) = v" by (auto simp: submit_check_def Let_def)
  then show ?thesis using inv by simp
next
  case True
  let ?rq = "\<lparr>rq_leaf = leaf, rq_chain = chain, rq_future = length (vq_futures v)\<rparr>"
  let ?w = "v\<lparr>vq_pending := vq_pending v @ [?rq], vq_active := vq_active v + 1, vq_bytes := vq_bytes v + request_size ?rq,
      vq_worker := (case vq_worker v of NoWorker \<Rightarrow> Scheduled | w \<Rightarrow> w), vq_futures := vq_futures v @ [Waiting]\<rparr>"
  have w: "snd (submit_check own leaf chain v) = ?w" and room: "vq_active v < vq_capacity v" "vq_bytes v + request_size ?rq \<le> vq_max_bytes v"
    using True by (auto simp: submit_check_def Let_def split: if_splits)
  have acc: "accounted (accepted v) v" using inv by (simp add: queue_inv_def)
  have batch: "batch_of ?w = batch_of v" by (simp add: batch_of_def split: queue_worker.splits)
  have waiting: "i \<in> rq_future ` set (accepted v @ [?rq])" if "i < length (vq_futures v @ [Waiting])" "(vq_futures v @ [Waiting]) ! i = Waiting" for i
    using that acc by (cases "i < length (vq_futures v)") (auto simp: accounted_def nth_append image_iff)
  have "accounted (accepted v @ [?rq]) ?w"
    using acc waiting by (auto simp: accounted_def less_Suc_eq)
  then have "accounted (accepted ?w) ?w" by (simp add: batch)
  then show ?thesis using inv room unfolding w by (simp add: queue_inv_def batch split: queue_worker.splits)
qed

lemma withdraw_inv: "queue_inv v \<Longrightarrow> queue_inv (withdraw i v)"
  by (auto simp: queue_inv_def accounted_def withdraw_def batch_of_def resolve_future_Waiting)

lemma worker_turn_inv:
  assumes inv: "queue_inv v"
  shows "queue_inv (worker_turn check v)"
proof (cases "vq_worker v")
  case NoWorker
  then show ?thesis using inv by (simp add: worker_turn_def)
next
  case Scheduled
  then show ?thesis using inv take_batch_inv [of v] accounted_bounds by (fastforce simp: worker_turn_def queue_inv_def batch_of_def)
next
  case (Busy batch)
  have acc: "accounted (batch @ vq_pending v) v" and lims: "0 < vq_batch_size v" "vq_batch_size v \<le> vq_capacity v"
      "vq_active v \<le> vq_capacity v" "vq_bytes v \<le> vq_max_bytes v"
    using inv Busy by (simp_all add: queue_inv_def batch_of_def)
  have counts: "int (length (vq_pending v)) \<le> vq_capacity v" "total_size (vq_pending v) \<le> vq_max_bytes v" "0 \<le> vq_max_bytes v"
    using accounted_bounds [OF acc] lims total_size_nonneg [of batch] total_size_nonneg [of "vq_pending v"] by (simp_all, linarith+)
  show ?thesis
  proof (cases "validate_snapshot check 0 batch [] (vq_policy v)")
    case (Pair r p)
    let ?v = "v\<lparr>vq_policy := p\<rparr>"
    have acc': "accounted (batch @ vq_pending ?v) ?v" using acc accounted_cong [of ?v v] by simp
    show ?thesis
    proof (cases r)
      case (Inl e)
      then show ?thesis using Busy Pair abort_worker_inv [OF acc', of e] lims counts by (simp add: worker_turn_def)
    next
      case (Inr results)
      let ?answers = "map (\<lambda>rq. (rq, the (map_of results (rq_certificate rq)))) batch"
      have "accounted (vq_pending v) (finish_all ?answers ?v)"
        using accounted_finish_all [of ?answers "vq_pending v" ?v] acc' by (simp add: comp_def)
      then show ?thesis using Busy Pair Inr take_batch_inv [of "finish_all ?answers ?v"] lims counts by (simp add: worker_turn_def)
    qed
  qed
qed

lemma interrupt_worker_inv:
  assumes "queue_inv v"
  shows "queue_inv (interrupt_worker e p v)"
proof (cases "vq_worker v")
  case (Busy batch)
  let ?v = "v\<lparr>vq_policy := p\<rparr>"
  have acc: "accounted (batch @ vq_pending v) v" using assms Busy by (simp add: queue_inv_def batch_of_def)
  moreover have "0 \<le> vq_max_bytes v" using accounted_bounds [OF acc] assms by (simp add: queue_inv_def) (meson add_nonneg_nonneg order_trans total_size_nonneg)
  ultimately show ?thesis using assms Busy abort_worker_inv [of batch ?v e] accounted_cong [of ?v v]
    by (simp add: interrupt_worker_def queue_inv_def)
qed (use assms in \<open>simp_all add: interrupt_worker_def\<close>)

lemma queue_reach_inv: "queue_reach v \<Longrightarrow> queue_inv v"
proof (induction rule: queue_reach.induct)
  case (created policy capacity batch_size max_bytes v)
  then show ?case by (auto simp: new_validator_def queue_inv_def accounted_def batch_of_def split: if_splits)
next
  case (stepped v w)
  from stepped.hyps(2) stepped.IH show ?case
    by cases (simp_all add: submit_check_inv withdraw_inv worker_turn_inv interrupt_worker_inv)
qed

lemma idle_answered:
  assumes "queue_inv v" and "validator_idle v" and "i < length (vq_futures v)"
  shows "vq_futures v ! i \<noteq> Waiting"
  using assms by (auto simp: queue_inv_def accounted_def validator_idle_def batch_of_def)

text \<open>
  The queue keeps its bounds and forgets nobody: in every state that submissions,
  cancellations, turns and interruptions of the worker lead to, at most the configured
  number of checks and of bytes is accepted and not yet finished, the counters are exact, no
  snapshot exceeds the batch size, and whenever no worker runs, no caller is left waiting.
\<close>

theorem peer_queue_bounded:
  assumes "queue_reach v"
  shows "int (length (accepted v)) \<le> vq_capacity v \<and> total_size (accepted v) \<le> vq_max_bytes v \<and>
    vq_active v = int (length (accepted v)) \<and> vq_bytes v = total_size (accepted v) \<and>
    int (length (batch_of v)) \<le> vq_batch_size v \<and>
    (validator_idle v \<longrightarrow> (\<forall>i < length (vq_futures v). vq_futures v ! i \<noteq> Waiting))"
  using queue_reach_inv [OF assms] idle_answered [of v] accounted_bounds [of "accepted v" v] by (auto simp: queue_inv_def)

text \<open>A queue of three places of which one batch of two is with the thread.\<close>

definition demo_queue :: "unit validator" where
  "demo_queue =
     worker_turn (\<lambda>_ _ _. ret ()) (snd (submit_check True ''c'' [] (snd (submit_check True ''b'' [] (snd (submit_check True ''a'' []
       \<lparr>vq_policy = (), vq_capacity = 3, vq_batch_size = 2, vq_max_bytes = 9, vq_pending = [], vq_active = 0, vq_bytes = 0,
        vq_worker = NoWorker, vq_futures = []\<rparr>))))))"

lemma demo_queue_reach: "queue_reach demo_queue"
proof -
  have "queue_reach \<lparr>vq_policy = (), vq_capacity = 3, vq_batch_size = 2, vq_max_bytes = 9, vq_pending = [], vq_active = 0, vq_bytes = 0,
      vq_worker = NoWorker, vq_futures = []\<rparr>"
    by (rule queue_reach.created [of "()" 3 2 9]) (simp add: new_validator_def)
  then show ?thesis unfolding demo_queue_def by (intro queue_reach.stepped [OF _ queue_step.turned] queue_reach.stepped [OF _ queue_step.submitted])
qed

lemma demo_queue_eval:
  "vq_capacity demo_queue = 3" "vq_active demo_queue = 3" "length (accepted demo_queue) = 3" "length (batch_of demo_queue) = 2"
  by (simp_all add: demo_queue_def worker_turn_def submit_check_def take_batch_def batch_of_def request_size_def Let_def)

theorem peer_queue_bounded_witness:
  "int (length (accepted demo_queue)) = 3 \<and> vq_capacity demo_queue = 3 \<and> total_size (accepted demo_queue) \<le> vq_max_bytes demo_queue"
  using peer_queue_bounded [OF demo_queue_reach] by (simp add: demo_queue_eval)

section \<open>Progress\<close>

lemma resolve_future_done: "fs ! i \<noteq> Waiting \<Longrightarrow> resolve_future j a fs ! i = fs ! i"
  by (auto simp: resolve_future_def nth_list_update)

lemma finish_all_other:
  "i \<notin> rq_future ` fst ` set answers \<Longrightarrow> vq_futures (finish_all answers v) ! i = vq_futures v ! i"
  by (induction answers arbitrary: v) (auto simp: finish_all_def finish_check_def resolve_future_other)

lemma finish_all_future:
  assumes "(rq, error) \<in> set answers" and "distinct (map (rq_future \<circ> fst) answers)"
    and "rq_future rq < length (vq_futures v)"
  shows "vq_futures (finish_all answers v) ! rq_future rq =
    (if vq_futures v ! rq_future rq = Waiting then future_answer error else vq_futures v ! rq_future rq)"
  using assms
proof (induction answers arbitrary: v)
  case (Cons answered answers)
  show ?case
  proof (cases "answered = (rq, error)")
    case True
    then have "rq_future rq \<notin> rq_future ` fst ` set answers" using Cons.prems(2) by (auto simp: image_image)
    then have "vq_futures (finish_all (answered # answers) v) ! rq_future rq = vq_futures (finish_check answered v) ! rq_future rq"
      using finish_all_other [of "rq_future rq" answers "finish_check answered v"] by (simp add: finish_all_def)
    then show ?thesis using True Cons.prems(3) by (simp add: finish_check_def resolve_future_def)
  next
    case False
    then have "rq_future rq \<noteq> rq_future (fst answered)" using Cons.prems(1,2) by (force simp: image_iff)
    then have "vq_futures (finish_check answered v) ! rq_future rq = vq_futures v ! rq_future rq"
      by (simp add: finish_check_def resolve_future_other)
    then show ?thesis using Cons.IH [of "finish_check answered v"] Cons.prems False by (simp add: finish_all_def finish_check_def)
  qed
qed simp

lemma accepted_active: "queue_inv v \<Longrightarrow> vq_active v = int (length (accepted v))"
  by (simp add: queue_inv_def accounted_def)

lemma worker_turn_shrinks:
  assumes inv: "queue_inv v" and busy: "vq_worker v = Busy batch"
  shows "vq_active (worker_turn check v) < vq_active v"
proof -
  have "accepted (worker_turn check v) = [] \<or> accepted (worker_turn check v) = vq_pending v"
  proof (cases "validate_snapshot check 0 batch [] (vq_policy v)")
    case (Pair r p)
    show ?thesis
    proof (cases r)
      case (Inl e)
      then show ?thesis using busy Pair by (simp add: worker_turn_def abort_worker_def batch_of_def)
    next
      case (Inr res)
      have "0 < vq_batch_size v" using inv by (simp add: queue_inv_def)
      then show ?thesis using busy Pair Inr
          take_batch_accepted [of "finish_all (map (\<lambda>rq. (rq, the (map_of res (rq_certificate rq)))) batch) (v\<lparr>vq_policy := p\<rparr>)"]
        by (simp add: worker_turn_def)
    qed
  qed
  moreover have "length (vq_pending v) < length (accepted v)" using inv busy by (auto simp: batch_of_def queue_inv_def)
  ultimately have "length (accepted (worker_turn check v)) < length (accepted v)" by (metis list.size(3) not_less_zero neq0_conv)
  then show ?thesis using accepted_active [OF inv] accepted_active [OF worker_turn_inv [OF inv, of check]] by simp
qed

lemma worker_turn_unscheduled:
  assumes "queue_inv v"
  shows "vq_worker (worker_turn check v) \<noteq> Scheduled"
  by (cases "vq_worker v") (auto simp: worker_turn_def take_batch_def abort_worker_def Let_def split: prod.splits sum.splits)

lemma idle_turn [simp]: "vq_worker v = NoWorker \<Longrightarrow> worker_turn check v = v"
  by (simp add: worker_turn_def)

lemma idle_turns: "vq_worker v = NoWorker \<Longrightarrow> fold worker_turn checks v = v"
  by (induction checks) simp_all

lemma busy_drains:
  assumes "queue_inv v" and "vq_worker v \<noteq> Scheduled" and "vq_active v \<le> int (length checks)"
  shows "queue_inv (fold worker_turn checks v) \<and> vq_worker (fold worker_turn checks v) = NoWorker"
  using assms
proof (induction checks arbitrary: v)
  case Nil
  then have "accepted v = []" using accepted_active [OF Nil.prems(1)] by (cases "accepted v") simp_all
  then show ?case using Nil.prems by (cases "vq_worker v") (auto simp: queue_inv_def batch_of_def)
next
  case (Cons check checks)
  show ?case
  proof (cases "vq_worker v")
    case NoWorker
    then show ?thesis using idle_turns [of v "check # checks"] Cons.prems(1) by simp
  next
    case (Busy batch)
    have "vq_active (worker_turn check v) \<le> int (length checks)"
      using worker_turn_shrinks [OF Cons.prems(1) Busy, of check] Cons.prems(3) by simp
    then show ?thesis
      using Cons.IH [OF worker_turn_inv [OF Cons.prems(1)] worker_turn_unscheduled [OF Cons.prems(1)]] by simp
  qed (use Cons.prems(2) in simp)
qed

lemma queue_drains:
  assumes inv: "queue_inv v" and "vq_active v < int (length checks)"
  shows "queue_inv (fold worker_turn checks v) \<and> vq_worker (fold worker_turn checks v) = NoWorker"
proof (cases "vq_worker v = Scheduled")
  case False
  then show ?thesis using busy_drains [OF inv False] assms(2) by simp
next
  case True
  obtain check rest where checks: "checks = check # rest" using assms accepted_active [OF inv] by (cases checks) auto
  have "accepted (worker_turn check v) = accepted v"
    using True take_batch_accepted [of v] inv by (simp add: worker_turn_def queue_inv_def batch_of_def)
  then have "vq_active (worker_turn check v) \<le> int (length rest)"
    using accepted_active [OF worker_turn_inv [OF inv, of check]] accepted_active [OF inv] assms(2) by (simp add: checks)
  then show ?thesis using busy_drains [OF worker_turn_inv [OF inv] worker_turn_unscheduled [OF inv]] by (simp add: checks)
qed

text \<open>
  Every accepted check is answered: however the checks turn out, once the worker has had
  one more turn than there are accepted checks, it has ended and no future is left waiting.
\<close>

theorem peer_checks_answered:
  assumes "queue_reach v" and "vq_active v < int (length checks)"
  shows "validator_idle (fold worker_turn checks v) \<and>
    (\<forall>i < length (vq_futures (fold worker_turn checks v)). vq_futures (fold worker_turn checks v) ! i \<noteq> Waiting)"
  using queue_drains [OF queue_reach_inv [OF assms(1)] assms(2)] idle_answered by (auto simp: validator_idle_def)

theorem peer_checks_answered_witness:
  "validator_idle (fold worker_turn (replicate 4 (\<lambda>_ _ _. ret ())) demo_queue)"
  using peer_checks_answered [OF demo_queue_reach, of "replicate 4 (\<lambda>_ _ _. ret ())"] by (simp add: demo_queue_eval)

section \<open>What a passed check has shown\<close>

text \<open>The different certificates of a snapshot, in the order in which they are checked.\<close>

definition first_seen :: "check_request \<Rightarrow> (string \<times> string) list \<Rightarrow> (string \<times> string) list" where
  "first_seen rq seen = (if rq_certificate rq \<in> set seen then seen else seen @ [rq_certificate rq])"

definition snapshot_certificates :: "check_request list \<Rightarrow> (string \<times> string) list" where
  "snapshot_certificates rqs = fold first_seen rqs []"

lemma first_seen_mono: "set seen \<subseteq> set (fold first_seen rqs seen)"
  by (induction rqs arbitrary: seen) (fastforce simp: first_seen_def)+

lemma first_seen_all: "rq \<in> set rqs \<Longrightarrow> rq_certificate rq \<in> set (fold first_seen rqs seen)"
proof (induction rqs arbitrary: seen)
  case (Cons r rqs)
  have "rq_certificate r \<in> set (first_seen r seen)" by (simp add: first_seen_def)
  then show ?case using Cons first_seen_mono [of "first_seen r seen" rqs] by auto
qed simp

lemma take_batch_futures: "vq_futures (take_batch v) = vq_futures v"
  by (simp add: take_batch_def Let_def)

text \<open>
  The contract of a check, over the certificates that were checked before it in the same
  turn: the checks lead from one reachable policy to another, and if one passes, what it is
  to establish holds of its certificate after those before it.
\<close>

locale sound_checker =
  fixes check :: "'p checker" and reach :: "(string \<times> string) list \<Rightarrow> 'p \<Rightarrow> bool"
    and holds :: "(string \<times> string) list \<Rightarrow> string \<times> string \<Rightarrow> bool"
  assumes keeps: "reach tr p \<Longrightarrow> reach (tr @ [(leaf, chain)]) (snd (check (length tr) leaf chain p))"
    and sound: "reach tr p \<Longrightarrow> fst (check (length tr) leaf chain p) = Inr () \<Longrightarrow> holds tr (leaf, chain)"
begin

definition sound_verdicts :: "verdicts \<Rightarrow> bool" where
  "sound_verdicts results \<longleftrightarrow> (\<forall>i < length results. snd (results ! i) = None \<longrightarrow> holds (take i (map fst results)) (fst (results ! i)))"

lemma sound_verdicts_append:
  "sound_verdicts results \<Longrightarrow> (error = None \<Longrightarrow> holds (map fst results) certificate) \<Longrightarrow> sound_verdicts (results @ [(certificate, error)])"
  by (auto simp: sound_verdicts_def nth_append less_Suc_eq)

lemma snapshot_sound:
  assumes "validate_snapshot check (length results) rqs results p = (Inr res, p')"
    and "reach (map fst results) p" and "sound_verdicts results"
  shows "sound_verdicts res \<and> map fst res = fold first_seen rqs (map fst results)"
  using assms
proof (induction rqs arbitrary: results p)
  case (Cons rq rqs)
  show ?case
  proof (cases "map_of results (rq_certificate rq) = None")
    case False
    then have "rq_certificate rq \<in> fst ` set results" by (simp add: map_of_eq_None_iff)
    then show ?thesis using Cons.IH [OF _ Cons.prems(2,3)] Cons.prems(1) False by (auto simp: first_seen_def)
  next
    case True
    obtain r q where step: "check (length results) (rq_leaf rq) (rq_chain rq) p = (r, q)" by (metis prod.exhaust)
    define error where "error = (case r of Inl e \<Rightarrow> Some e | Inr _ \<Rightarrow> None)"
    let ?results = "results @ [(rq_certificate rq, error)]"
    have "dict_put (rq_certificate rq) error results = ?results" using True by (simp add: dict_put_def)
    then have "validate_snapshot check (length ?results) rqs ?results q = (Inr res, p')"
      using Cons.prems(1) True step by (auto simp: error_def split: sum.splits if_splits)
    moreover have "reach (map fst ?results) q"
      using keeps [OF Cons.prems(2), of "rq_leaf rq" "rq_chain rq"] step by simp
    moreover have "sound_verdicts ?results"
      using sound_verdicts_append [OF Cons.prems(3)] sound [OF Cons.prems(2), of "rq_leaf rq" "rq_chain rq"] step
      by (auto simp: error_def split: sum.splits)
    moreover have "map fst ?results = first_seen rq (map fst results)"
      using True by (auto simp: first_seen_def map_of_eq_None_iff)
    ultimately show ?thesis using Cons.IH by (metis fold_simps(2))
  qed
qed simp

lemma snapshot_passed:
  assumes run: "validate_snapshot check 0 rqs [] p = (Inr res, p')" and reach: "reach [] p"
    and rq: "rq \<in> set rqs" and passed: "the (map_of res (rq_certificate rq)) = None"
  shows "\<exists>i < length (snapshot_certificates rqs). snapshot_certificates rqs ! i = rq_certificate rq \<and>
    holds (take i (snapshot_certificates rqs)) (rq_certificate rq)"
proof -
  have "sound_verdicts []" by (simp add: sound_verdicts_def)
  then have res: "sound_verdicts res" "map fst res = snapshot_certificates rqs"
    using snapshot_sound [of "[]" rqs p res p'] run reach by (simp_all add: snapshot_certificates_def)
  have "rq_certificate rq \<in> fst ` set res"
    using first_seen_all [OF rq, of "[]"] res(2) by (metis set_map snapshot_certificates_def)
  then have "map_of res (rq_certificate rq) = Some None" using passed by (metis map_of_eq_None_iff option.collapse)
  then obtain i where i: "i < length res" "res ! i = (rq_certificate rq, None)" by (metis in_set_conv_nth map_of_SomeD)
  then have "holds (take i (map fst res)) (rq_certificate rq)" using res(1) by (auto simp: sound_verdicts_def)
  then show ?thesis using i res(2) by (metis fst_conv length_map nth_map)
qed

lemma passed_sound:
  assumes inv: "queue_inv v" and reach: "reach [] (vq_policy v)" and rq: "rq \<in> set (accepted v)"
    and before: "vq_futures v ! rq_future rq = Waiting" and after: "vq_futures (worker_turn check v) ! rq_future rq = CheckPassed"
  shows "\<exists>i < length (snapshot_certificates (batch_of v)). snapshot_certificates (batch_of v) ! i = rq_certificate rq \<and>
    holds (take i (snapshot_certificates (batch_of v))) (rq_certificate rq)"
proof (cases "vq_worker v")
  case (Busy batch)
  have acc: "accounted (batch @ vq_pending v) v" using inv Busy by (simp add: queue_inv_def batch_of_def)
  have dis: "distinct (map rq_future (batch @ vq_pending v))" and len: "rq_future rq < length (vq_futures v)"
    using acc rq Busy by (auto simp: accounted_def batch_of_def)
  obtain r p where run: "validate_snapshot check 0 batch [] (vq_policy v) = (r, p)" by (metis prod.exhaust)
  let ?v = "v\<lparr>vq_policy := p\<rparr>"
  show ?thesis
  proof (cases r)
    case (Inl e)
    let ?answers = "map (\<lambda>rq. (rq, Some e)) (batch @ vq_pending v)"
    have "vq_futures (worker_turn check v) = vq_futures (finish_all ?answers ?v)"
      using Busy run Inl by (simp add: worker_turn_def abort_worker_def)
    moreover have "vq_futures (finish_all ?answers ?v) ! rq_future rq = future_answer (Some e)"
      using finish_all_future [of rq "Some e" ?answers ?v] rq Busy dis len before by (auto simp: batch_of_def comp_def)
    ultimately show ?thesis using after by (simp add: future_answer_def split: if_splits)
  next
    case (Inr res)
    let ?answers = "map (\<lambda>rq. (rq, the (map_of res (rq_certificate rq)))) batch"
    have fut: "vq_futures (worker_turn check v) = vq_futures (finish_all ?answers ?v)"
      using Busy run Inr by (simp add: worker_turn_def take_batch_futures)
    show ?thesis
    proof (cases "rq \<in> set batch")
      case True
      have "vq_futures (finish_all ?answers ?v) ! rq_future rq = future_answer (the (map_of res (rq_certificate rq)))"
        using finish_all_future [of rq "the (map_of res (rq_certificate rq))" ?answers ?v] True dis len before by (simp add: comp_def image_iff)
      then have "the (map_of res (rq_certificate rq)) = None" using after fut by (auto simp: future_answer_def split: option.splits if_splits)
      then show ?thesis using snapshot_passed [OF run [unfolded Inr] reach True] Busy by (simp add: batch_of_def)
    next
      case False
      then have "rq_future rq \<notin> rq_future ` set batch" using rq Busy dis by (force simp: batch_of_def)
      then have "vq_futures (finish_all ?answers ?v) ! rq_future rq = Waiting"
        using finish_all_other [of "rq_future rq" ?answers ?v] before by (simp add: image_image)
      then show ?thesis using after fut by simp
    qed
  qed
qed (use before after in \<open>simp_all add: worker_turn_def take_batch_futures\<close>)

end

text \<open>
  The policy on peers meets the contract, when its checks follow each other in time. Check
  \<open>i\<close> of the turn meets the files \<open>F i\<close> at time \<open>now i\<close>.
\<close>

definition policy_checker :: "'c x509 \<Rightarrow> tls_config \<Rightarrow> (nat \<Rightarrow> tls_files) \<Rightarrow> (nat \<Rightarrow> real) \<Rightarrow> 'c peer_policy checker" where
  "policy_checker X tls F now k = validate_peer X tls (F k) (now k)"

definition turn_check :: "(nat \<Rightarrow> tls_files) \<Rightarrow> (nat \<Rightarrow> real) \<Rightarrow> nat \<Rightarrow> string \<times> string \<Rightarrow> peer_check" where
  "turn_check F now i certificate = \<lparr>pk_files = F i, pk_time = now i, pk_leaf = fst certificate, pk_chain = snd certificate\<rparr>"

definition turn_checks :: "(nat \<Rightarrow> tls_files) \<Rightarrow> (nat \<Rightarrow> real) \<Rightarrow> (string \<times> string) list \<Rightarrow> peer_check list" where
  "turn_checks F now certificates = map (\<lambda>(i, certificate). turn_check F now i certificate) (enumerate 0 certificates)"

definition trust_reach ::
  "'c x509 \<Rightarrow> tls_config \<Rightarrow> peer_check list \<Rightarrow> (nat \<Rightarrow> tls_files) \<Rightarrow> (nat \<Rightarrow> real) \<Rightarrow> (string \<times> string) list \<Rightarrow> 'c peer_policy \<Rightarrow> bool" where
  "trust_reach X tls tr F now certificates pp \<longleftrightarrow> verifier_checks_validity X \<and> mono now \<and> (\<forall>k \<in> set tr. pk_time k \<le> now 0) \<and>
     peer_reach X tls (tr @ turn_checks F now certificates) pp"

lemma turn_checks_snoc: "turn_checks F now (certificates @ [c]) = turn_checks F now certificates @ [turn_check F now (length certificates) c]"
  by (simp add: turn_checks_def enumerate_append_eq)

lemma turn_times:
  assumes "mono now" and "\<forall>k \<in> set tr. pk_time k \<le> now 0"
  shows "\<forall>k \<in> set (tr @ turn_checks F now certificates). pk_time k \<le> now (length certificates)"
proof
  fix k
  assume "k \<in> set (tr @ turn_checks F now certificates)"
  then consider "k \<in> set tr" | i where "i < length certificates" "pk_time k = now i"
    by (auto simp: turn_checks_def turn_check_def in_set_enumerate_eq)
  then show "pk_time k \<le> now (length certificates)"
    using assms by cases (auto intro: order_trans monoD [OF assms(1)])
qed

lemma policy_checker_run: "policy_checker X tls F now k leaf chain = run_check X tls (turn_check F now k (leaf, chain))"
  by (simp add: policy_checker_def run_check_def turn_check_def)

interpretation trust: sound_checker "policy_checker X tls F now" "trust_reach X tls tr F now"
  "\<lambda>seen certificate. vouched X tls (tr @ turn_checks F now seen) (turn_check F now (length seen) certificate)"
  for X tls tr F now
proof
  fix seen p leaf chain
  assume reach: "trust_reach X tls tr F now seen p"
  then have times: "\<forall>k \<in> set (tr @ turn_checks F now seen). pk_time k \<le> pk_time (turn_check F now (length seen) (leaf, chain))"
    using turn_times unfolding trust_reach_def by (metis peer_check.select_convs(2) turn_check_def)
  then show "trust_reach X tls tr F now (seen @ [(leaf, chain)]) (snd (policy_checker X tls F now (length seen) leaf chain p))"
    using reach peer_reach.check [OF _ times] unfolding trust_reach_def policy_checker_run turn_checks_snoc by (metis append_assoc)
  assume "fst (policy_checker X tls F now (length seen) leaf chain p) = Inr ()"
  then show "vouched X tls (tr @ turn_checks F now seen) (turn_check F now (length seen) (leaf, chain))"
    using reach accepted_vouched [OF _ _ times] unfolding trust_reach_def policy_checker_run by (metis prod.collapse)
qed


definition trusted_queue :: "string peer_policy validator" where
  "trusted_queue =
     worker_turn (policy_checker example_x509 example_tls (\<lambda>_. example_files) (\<lambda>_. 2)) (snd (submit_check True ''peer'' [] (snd (submit_check True ''peer'' []
       \<lparr>vq_policy = new_peer_policy, vq_capacity = 2, vq_batch_size = 2, vq_max_bytes = 9, vq_pending = [], vq_active = 0, vq_bytes = 0,
        vq_worker = NoWorker, vq_futures = []\<rparr>))))"

lemma trusted_queue_reach: "queue_reach trusted_queue"
proof -
  have "queue_reach \<lparr>vq_policy = new_peer_policy, vq_capacity = 2, vq_batch_size = 2, vq_max_bytes = 9, vq_pending = [], vq_active = 0, vq_bytes = 0,
      vq_worker = NoWorker, vq_futures = []\<rparr>"
    by (rule queue_reach.created [of new_peer_policy 2 2 9]) (simp add: new_validator_def)
  then show ?thesis unfolding trusted_queue_def by (intro queue_reach.stepped [OF _ queue_step.turned] queue_reach.stepped [OF _ queue_step.submitted])
qed

lemma trusted_queue_eval:
  "accepted trusted_queue = [\<lparr>rq_leaf = ''peer'', rq_chain = [], rq_future = 0\<rparr>, \<lparr>rq_leaf = ''peer'', rq_chain = [], rq_future = 1\<rparr>]"
  "vq_futures trusted_queue = [Waiting, Waiting]" "vq_policy trusted_queue = new_peer_policy"
  "vq_futures (worker_turn (policy_checker example_x509 example_tls (\<lambda>_. example_files) (\<lambda>_. 3)) trusted_queue) = [CheckPassed, CheckPassed]"
  by (simp_all add: trusted_queue_def worker_turn_def submit_check_def take_batch_def batch_of_def request_size_def finish_all_def finish_check_def
      policy_checker_def example_peer_defs
      resolve_future_def future_answer_def)


end
