(* ===== verification/Authn.thy ===== *)
theory Authn
  imports Peer_Validation Sessions
begin

text \<open>
  \<open>packages/mas-server/src/mas_server/authn.py\<close>: the identity of a caller is the SPIFFE name in
  the certificate that its connection presented. The properties of the connection come from
  the transport. A text is given by its UTF-8 bytes, since every pattern of this component is
  ASCII.
\<close>

section \<open>The registry of validators\<close>

text \<open>
  The validators of each event loop, one per TLS configuration, least recently used first. The
  policy that a new validator gets is what the cache of policies returns.
\<close>

type_synonym 'p loop_validators = "(tls_config \<times> 'p validator) list"
type_synonym 'p validator_registry = "(nat \<times> 'p loop_validators) list"

definition registry_full :: err where
  "registry_full = PeerValidationCapacityError ''Peer validation registry capacity exceeded''"

definition move_to_end :: "'k \<Rightarrow> ('k \<times> 'v) list \<Rightarrow> ('k \<times> 'v) list" where
  "move_to_end k d = filter (\<lambda>kv. fst kv \<noteq> k) d @ filter (\<lambda>kv. fst kv = k) d"

text \<open>Room for a validator: the first idle one is dropped when there are 32.\<close>

definition make_room :: "'p loop_validators \<Rightarrow> err + 'p loop_validators" where
  "make_room vs =
     (if length vs \<ge> 32
      then (case find (\<lambda>kv. validator_idle (snd kv)) vs of None \<Rightarrow> Inl registry_full | Some kv \<Rightarrow> Inr (dict_pop (fst kv) vs))
      else Inr vs)"

definition loop_validator :: "'p \<Rightarrow> tls_config \<Rightarrow> 'p loop_validators \<Rightarrow> (err + 'p validator) \<times> 'p loop_validators" where
  "loop_validator policy tls vs =
     (case map_of vs tls of
        Some v \<Rightarrow> (Inr v, move_to_end tls vs)
      | None \<Rightarrow>
          (case make_room vs of
             Inl e \<Rightarrow> (Inl e, vs)
           | Inr rest \<Rightarrow>
               (case new_validator policy 512 128 16777216 of
                  Inl e \<Rightarrow> (Inl e, rest)
                | Inr v \<Rightarrow> (Inr v, move_to_end tls (dict_put tls v rest)))))"

definition peer_validator :: "'p \<Rightarrow> nat \<Rightarrow> tls_config \<Rightarrow> ('p validator_registry, 'p validator) io" where
  "peer_validator policy loop tls reg =
     (case map_of reg loop of
        None \<Rightarrow>
          if length reg \<ge> 256 then (Inl registry_full, reg)
          else (case loop_validator policy tls [] of (r, vs) \<Rightarrow> (r, dict_put loop vs reg))
      | Some old \<Rightarrow> (case loop_validator policy tls old of (r, vs) \<Rightarrow> (r, dict_put loop vs reg)))"

section \<open>UTF-8\<close>

definition byte_in :: "nat \<Rightarrow> nat \<Rightarrow> char \<Rightarrow> bool" where
  "byte_in a b c \<longleftrightarrow> a \<le> of_char c \<and> of_char c \<le> b"

text \<open>What \<open>bytes.decode("utf-8")\<close> accepts: no overlong forms, no surrogates, nothing above U+10FFFF.\<close>

fun valid_utf8 :: "string \<Rightarrow> bool" where
  "valid_utf8 [] = True"
| "valid_utf8 (a # s) =
     (if byte_in 0 127 a then valid_utf8 s
      else if byte_in 194 223 a then
        (case s of b # s' \<Rightarrow> byte_in 128 191 b \<and> valid_utf8 s' | _ \<Rightarrow> False)
      else if byte_in 224 239 a then
        (case s of b # c # s' \<Rightarrow>
           byte_in (if byte_in 224 224 a then 160 else 128) (if byte_in 237 237 a then 159 else 191) b \<and> byte_in 128 191 c \<and> valid_utf8 s'
         | _ \<Rightarrow> False)
      else if byte_in 240 244 a then
        (case s of b # c # d # s' \<Rightarrow>
           byte_in (if byte_in 240 240 a then 144 else 128) (if byte_in 244 244 a then 143 else 191) b \<and> byte_in 128 191 c \<and> byte_in 128 191 d \<and>
           valid_utf8 s'
         | _ \<Rightarrow> False)
      else False)"

section \<open>The identity of a caller\<close>

text \<open>A property of the connection is bytes, or another object by its \<open>str\<close>.\<close>

datatype auth_value = AuthBytes string | AuthText string

record auth_context =
  x509_pem_cert :: "auth_value list"
  x509_pem_cert_chain :: "auth_value list"
  x509_subject_alternative_name :: "auth_value list"

fun auth_bytes :: "auth_value \<Rightarrow> string option" where
  "auth_bytes (AuthBytes s) = Some s"
| "auth_bytes (AuthText _) = None"

fun san_text :: "auth_value \<Rightarrow> string option" where
  "san_text (AuthBytes s) = (if valid_utf8 s then Some s else None)"
| "san_text (AuthText s) = Some s"

definition spiffes :: "auth_value list \<Rightarrow> string list" where
  "spiffes sans = filter (has_prefix ''spiffe://'') (List.map_filter san_text sans)"

text \<open>
  \<open>^spiffe://mas/agent/([a-zA-Z0-9_-]{1,128})$\<close>: the dollar also matches in front of a
  newline that ends the text.
\<close>

definition spiffe_scheme :: string where
  "spiffe_scheme = ''spiffe://mas/agent/''"

definition spiffe_match :: "string \<Rightarrow> string option" where
  "spiffe_match s =
     (let rest = drop (length spiffe_scheme) s;
          body = (if rest \<noteq> [] \<and> List.last rest = CHR 0x0A then butlast rest else rest) in
      if has_prefix spiffe_scheme s \<and> valid_ident 128 body then Some body else None)"

fun certificate_error :: "err \<Rightarrow> bool" where
  "certificate_error (OSError _) = True"
| "certificate_error (ValueError _) = True"
| "certificate_error ValidationError = True"
| "certificate_error (VerificationError _) = True"
| "certificate_error ExtensionNotFound = True"
| "certificate_error _ = False"

definition peer_verdict_error :: "err \<Rightarrow> err" where
  "peer_verdict_error e =
     (case e of
        PeerValidationCapacityError _ \<Rightarrow> RpcError RESOURCE_EXHAUSTED ''peer_validation_capacity''
      | _ \<Rightarrow> if certificate_error e then UnauthenticatedError ''peer_certificate_rejected'' else e)"

text \<open>The certificate check: the verdict is the outcome of waiting for the validator of the queue.\<close>

definition check_peer :: "(string \<Rightarrow> string \<Rightarrow> err + unit) \<Rightarrow> auth_context \<Rightarrow> err + unit" where
  "check_peer verdict ctx =
     (case x509_pem_cert ctx of
        [AuthBytes leaf] \<Rightarrow>
          if list_ex (\<lambda>c. auth_bytes c = None) (x509_pem_cert_chain ctx) then Inl (UnauthenticatedError ''invalid_peer_certificate'')
          else (case verdict leaf (concat (List.map_filter auth_bytes (x509_pem_cert_chain ctx))) of
             Inl e \<Rightarrow> Inl (peer_verdict_error e)
           | Inr u \<Rightarrow> Inr u)
      | _ \<Rightarrow> Inl (UnauthenticatedError ''missing_peer_certificate''))"

definition spiffe_agent_id :: "(string \<Rightarrow> string \<Rightarrow> err + unit) option \<Rightarrow> auth_context \<Rightarrow> err + string" where
  "spiffe_agent_id verdict ctx =
     (case (case verdict of None \<Rightarrow> Inr () | Some check \<Rightarrow> check_peer check ctx) of
        Inl e \<Rightarrow> Inl e
      | Inr _ \<Rightarrow>
          if x509_subject_alternative_name ctx = [] then Inl (UnauthenticatedError ''missing_spiffe_san'')
          else (case spiffes (x509_subject_alternative_name ctx) of
             [name] \<Rightarrow>
               (case spiffe_match name of
                  None \<Rightarrow> Inl (UnauthenticatedError ''invalid_spiffe_format'')
                | Some agent \<Rightarrow> Inr agent)
           | _ \<Rightarrow> Inl (UnauthenticatedError ''invalid_spiffe_san'')))"

section \<open>The registry is bounded\<close>

lemma move_to_end_set [simp]: "set (move_to_end k d) = set d"
  by (auto simp: move_to_end_def)

lemma move_to_end_length [simp]: "length (move_to_end k d) = length d"
  using sum_length_filter_compl [of "\<lambda>kv. fst kv = k" d] by (simp add: move_to_end_def add.commute)

lemma move_to_end_distinct: "distinct (map fst d) \<Longrightarrow> distinct (map fst (move_to_end k d))"
  by (auto simp: move_to_end_def distinct_map_filter)

lemma dict_put_distinct: "distinct (map fst d) \<Longrightarrow> distinct (map fst (dict_put k v d))"
proof -
  have "map fst (map (\<lambda>kv. if fst kv = k then (k, v) else kv) d) = map fst d" by simp
  then show "distinct (map fst d) \<Longrightarrow> ?thesis" by (auto simp: dict_put_def map_of_eq_None_iff simp del: map_map)
qed

lemma dict_put_length: "length (dict_put k v d) \<le> Suc (length d)"
  by (simp add: dict_put_def)

lemma dict_pop_shorter: "kv \<in> set d \<Longrightarrow> length (dict_pop (fst kv) d) < length d"
  unfolding dict_pop_def by (rule length_filter_less) auto

lemma make_room_ok:
  assumes "make_room vs = Inr rest" and "length vs \<le> 32"
    and "distinct (map fst vs)"
  shows "length rest < 32 \<and> set rest \<subseteq> set vs \<and> distinct (map fst rest) \<and> (\<forall>kv \<in> set vs. \<not> validator_idle (snd kv) \<longrightarrow> kv \<in> set rest)"
proof (cases "length vs \<ge> 32")
  case True
  then obtain kv where kv: "find (\<lambda>kv. validator_idle (snd kv)) vs = Some kv" "rest = dict_pop (fst kv) vs"
    using assms(1) by (auto simp: make_room_def split: option.splits)
  have "kv \<in> set vs" "validator_idle (snd kv)" using kv(1) by (auto simp: find_Some_iff)
  moreover have "\<forall>x \<in> set vs. \<not> validator_idle (snd x) \<longrightarrow> fst x \<noteq> fst kv"
    using \<open>kv \<in> set vs\<close> \<open>validator_idle (snd kv)\<close> assms(3) by (metis eq_key_imp_eq_value prod.collapse)
  ultimately show ?thesis using dict_pop_shorter [of kv vs] assms(2,3) kv(2) by (auto simp: dict_pop_def distinct_map_filter)
qed (use assms in \<open>auto simp: make_room_def\<close>)

lemma loop_validator_keeps:
  assumes vs: "length vs \<le> 32" "distinct (map fst vs)" and run: "loop_validator policy tls vs = (Inr v, vs')"
  shows "length vs' \<le> 32 \<and> distinct (map fst vs') \<and> map_of vs' tls = Some v \<and>
    (\<forall>kv \<in> set vs. \<not> validator_idle (snd kv) \<longrightarrow> kv \<in> set vs') \<and>
    (map_of vs tls = Some v \<or> map_of vs tls = None \<and> new_validator policy 512 128 16777216 = Inr v)"
proof (cases "map_of vs tls")
  case (Some v0)
  then have "v = v0" "vs' = move_to_end tls vs" using run by (auto simp: loop_validator_def)
  moreover have "map_of (move_to_end tls vs) tls = Some v0"
    using map_of_SomeD [OF Some] vs(2) by (intro map_of_is_SomeI) (simp_all add: move_to_end_distinct)
  ultimately show ?thesis using Some vs by (simp add: move_to_end_distinct)
next
  case None
  then obtain rest where room: "make_room vs = Inr rest" and new: "new_validator policy 512 128 16777216 = Inr v"
      and vs': "vs' = move_to_end tls (dict_put tls v rest)"
    using run by (auto simp: loop_validator_def split: sum.splits)
  note rest = make_room_ok [OF room vs]
  have "map_of rest tls = None" using None rest by (auto simp: map_of_eq_None_iff)
  then have put: "dict_put tls v rest = rest @ [(tls, v)]" by (simp add: dict_put_def)
  have dis: "distinct (map fst (dict_put tls v rest))" using rest by (intro dict_put_distinct) simp
  have "map_of vs' tls = Some v" unfolding vs'
    by (rule map_of_is_SomeI) (use dis put in \<open>simp_all add: move_to_end_distinct\<close>)
  then show ?thesis using rest None new dis unfolding vs' by (auto simp: put move_to_end_distinct)
qed

text \<open>
  The registry of validators is bounded and never drops work: looking up the validator of
  a configuration leaves at most 32 validators on the loop, keeps every validator of the loop
  that still has accepted checks, and gives the one it had, if there was one, or a new and
  empty one of the documented bounds.
\<close>

theorem registry_keeps_busy:
  assumes vs: "map_of reg loop = Some vs" "length vs \<le> 32" "distinct (map fst vs)"
    and run: "peer_validator policy loop tls reg = (Inr v, reg')"
  shows "\<exists>vs'. map_of reg' loop = Some vs' \<and> length vs' \<le> 32 \<and> distinct (map fst vs') \<and> map_of vs' tls = Some v \<and>
    (\<forall>kv \<in> set vs. \<not> validator_idle (snd kv) \<longrightarrow> kv \<in> set vs') \<and>
    (map_of vs tls = Some v \<or> map_of vs tls = None \<and> new_validator policy 512 128 16777216 = Inr v)"
proof -
  obtain r vs' where step: "loop_validator policy tls vs = (r, vs')" by (metis prod.exhaust)
  then have "r = Inr v" "reg' = dict_put loop vs' reg" using run vs(1) by (auto simp: peer_validator_def)
  then show ?thesis using loop_validator_keeps [OF vs(2,3), of policy tls v vs'] step by (simp add: map_of_dict_put)
qed

theorem registry_keeps_busy_witness:
  "\<exists>vs'. map_of (snd (peer_validator () 7 example_tls [(7, [])])) 7 = Some vs' \<and> length vs' \<le> 32 \<and>
     map_of vs' example_tls = Some \<lparr>vq_policy = (), vq_capacity = 512, vq_batch_size = 128, vq_max_bytes = 16777216,
        vq_pending = [], vq_active = 0, vq_bytes = 0, vq_worker = NoWorker, vq_futures = []\<rparr>"
proof -
  let ?v = "\<lparr>vq_policy = (), vq_capacity = 512, vq_batch_size = 128, vq_max_bytes = 16777216,
        vq_pending = [], vq_active = 0, vq_bytes = 0, vq_worker = NoWorker, vq_futures = []\<rparr>"
  have "fst (peer_validator () 7 example_tls [(7, [])]) = Inr ?v"
    by (simp add: peer_validator_def loop_validator_def make_room_def new_validator_def)
  then have "peer_validator () 7 example_tls [(7, [])] = (Inr ?v, snd (peer_validator () 7 example_tls [(7, [])]))"
    by (metis prod.collapse)
  from registry_keeps_busy [OF _ _ _ this, of "[]"] show ?thesis by auto
qed

section \<open>What an identity stands for\<close>

lemma spiffe_match_Some:
  assumes "spiffe_match s = Some agent"
  shows "valid_ident 128 agent \<and> s \<in> {spiffe_scheme @ agent, spiffe_scheme @ agent @ [CHR 0x0A]}"
proof -
  let ?rest = "drop (length spiffe_scheme) s"
  have "take (length spiffe_scheme) s = spiffe_scheme" and body: "agent = (if ?rest \<noteq> [] \<and> List.last ?rest = CHR 0x0A then butlast ?rest else ?rest)"
      and "valid_ident 128 agent"
    using assms by (auto simp: spiffe_match_def has_prefix_def Let_def split: if_splits)
  moreover from this(1) have "s = spiffe_scheme @ ?rest" by (metis append_take_drop_id)
  moreover have "?rest \<in> {agent, agent @ [CHR 0x0A]}"
    using body append_butlast_last_id [of ?rest] by (auto split: if_splits)
  ultimately show ?thesis by (metis insert_iff singletonD)
qed

text \<open>
  C10. An identity is a well-formed agent name that the certificate carries: if a caller is
  identified, its name has 1 to 128 letters, digits, underscores and hyphens, exactly one
  alternative name of the certificate is a SPIFFE name, that one is the broker's scheme
  followed by the agent's name (and possibly one newline), and, with TLS configured, the
  connection presented exactly one certificate, which the check of its bytes and chain passed.
\<close>

theorem identity_is_certified:
  assumes "spiffe_agent_id verdict ctx = Inr agent"
  shows "valid_ident 128 agent \<and>
    (\<exists>name. spiffes (x509_subject_alternative_name ctx) = [name] \<and>
       name \<in> {spiffe_scheme @ agent, spiffe_scheme @ agent @ [CHR 0x0A]}) \<and>
    (\<forall>check. verdict = Some check \<longrightarrow> (\<exists>leaf. x509_pem_cert ctx = [AuthBytes leaf] \<and>
       check leaf (concat (List.map_filter auth_bytes (x509_pem_cert_chain ctx))) = Inr ()))"
proof -
  have peer: "check_peer check ctx = Inr ()" if "verdict = Some check" for check
    using assms that by (auto simp: spiffe_agent_id_def split: sum.splits)
  obtain name where name: "spiffes (x509_subject_alternative_name ctx) = [name]" "spiffe_match name = Some agent"
    using assms by (auto simp: spiffe_agent_id_def split: sum.splits if_splits list.splits option.splits)
  have "\<exists>leaf. x509_pem_cert ctx = [AuthBytes leaf] \<and> check leaf (concat (List.map_filter auth_bytes (x509_pem_cert_chain ctx))) = Inr ()"
    if "verdict = Some check" for check
    using peer [OF that] by (auto simp: check_peer_def split: list.splits auth_value.splits if_splits sum.splits)
  then show ?thesis using spiffe_match_Some [OF name(2)] name(1) by blast
qed

definition example_peer :: auth_context where
  "example_peer = \<lparr>x509_pem_cert = [AuthBytes ''peer''], x509_pem_cert_chain = [],
     x509_subject_alternative_name = [AuthText ''localhost'', AuthBytes ''spiffe://mas/agent/a'']\<rparr>"

lemma example_identity: "spiffe_agent_id (Some (\<lambda>_ _. Inr ())) example_peer = Inr ''a''"
  by (simp add: spiffe_agent_id_def check_peer_def example_peer_def spiffes_def List.map_filter_simps byte_in_def has_prefix_def
      spiffe_match_def spiffe_scheme_def valid_ident_def ident_char_def Let_def)

theorem identity_is_certified_witness:
  "valid_ident 128 ''a'' \<and> spiffes (x509_subject_alternative_name example_peer) = [''spiffe://mas/agent/a'']"
proof -
  from identity_is_certified [OF example_identity] show ?thesis
    by (auto simp: example_peer_def spiffes_def List.map_filter_simps byte_in_def has_prefix_def)
qed

end
