(* ===== verification/Servicer.thy ===== *)
theory Servicer
  imports Registry State_Store Delivery Ingress_Live Authn
begin

text \<open>
  \<open>packages/mas-server/src/mas_server/servicer.py\<close> with the operations of
  \<open>packages/mas-server/src/mas_server/runtime.py\<close> that it calls: the remote procedures of the
  broker. Each of them authenticates its caller, runs one operation of a component under the
  identity of the certificate, and turns exceptions into a gRPC status. Spans and counters
  have no part in it.
\<close>

section \<open>Remote procedures\<close>

text \<open>
  A procedure answers, ends with a status (\<open>context.abort\<close> raises out of the handler), or
  lets another exception through, which the transport reports as an unknown failure.
\<close>

datatype 'a rpc_result = Answer 'a | Abort grpc_status string | Crash err

type_synonym ('w, 'a) rpc = "'w \<Rightarrow> ('a rpc_result \<times> 'w) option"

definition bind_rpc :: "('w, 'a) rpc \<Rightarrow> ('a \<Rightarrow> ('w, 'b) rpc) \<Rightarrow> ('w, 'b) rpc" where
  "bind_rpc m f w =
     (case m w of
        None \<Rightarrow> None
      | Some (Answer x, w') \<Rightarrow> f x w'
      | Some (Abort st msg, w') \<Rightarrow> Some (Abort st msg, w')
      | Some (Crash e, w') \<Rightarrow> Some (Crash e, w'))"

definition abort_rpc :: "grpc_status \<Rightarrow> string \<Rightarrow> ('w, 'a) rpc" where
  "abort_rpc st msg w = Some (Abort st msg, w)"

definition crashes :: "('w, 'a) task \<Rightarrow> ('w, 'a) rpc" where
  "crashes m w = map_option (\<lambda>(r, w'). (case r of Inl e \<Rightarrow> Crash e | Inr x \<Rightarrow> Answer x, w')) (m w)"

text \<open>\<open>try: m except RpcError as exc: await context.abort(exc.status, exc.message)\<close>\<close>

definition aborts :: "('w, 'a) task \<Rightarrow> ('w, 'a) rpc" where
  "aborts m w = map_option (\<lambda>(r, w').
     (case r of Inl (RpcError st msg) \<Rightarrow> Abort st msg | Inl e \<Rightarrow> Crash e | Inr x \<Rightarrow> Answer x, w')) (m w)"

definition abort_storage_error :: "'a rpc_result" where
  "abort_storage_error = Abort UNAVAILABLE ''storage_unavailable''"

definition storage_status :: "'a rpc_result \<Rightarrow> 'a rpc_result" where
  "storage_status r = (case r of Crash e \<Rightarrow> if is_redis_error e then abort_storage_error else r | _ \<Rightarrow> r)"

definition storage_error_boundary :: "('w, 'a) rpc \<Rightarrow> ('w, 'a) rpc" where
  "storage_error_boundary handler w = map_option (\<lambda>(r, w'). (storage_status r, w')) (handler w)"

text \<open>The components of a started server, and what surrounds one call.\<close>

record 'db mas_server =
  ms_redis :: "'db redis"
  ms_wire :: wire
  ms_policy :: policy_pipeline
  ms_agents :: agent_table
  ms_durability :: durability_settings

record 'db rpc_call =
  rc_auth :: auth_context
  rc_verdict :: "string \<Rightarrow> string \<Rightarrow> err + unit"
  rc_audit :: "'db audit_plan"
  rc_ingress :: "'db ingress_call"
  rc_gap :: "nat \<Rightarrow> ('db, unit) io"

definition audit_authentication_denied :: "'db mas_server \<Rightarrow> 'db rpc_call \<Rightarrow> string \<Rightarrow> ('db front, unit) task" where
  "audit_authentication_denied S call reason =
     bindt (on_gateway (on_service (log_security_event (po_audit (ms_policy S)) (ms_redis S) (rc_audit call)
       ''AUTHENTICATION_DENIED'' [(''reason'', JStr reason)]))) (\<lambda>_. liftt (ret ()))"

definition agent_id_or_abort :: "'db mas_server \<Rightarrow> 'db rpc_call \<Rightarrow> ('db front, string) rpc" where
  "agent_id_or_abort S call w =
     (case spiffe_agent_id (Some (rc_verdict call)) (rc_auth call) of
        Inr agent \<Rightarrow> Some (Answer agent, w)
      | Inl (RpcError st msg) \<Rightarrow>
          map_option (\<lambda>(r, w').
            (case r of Inl e \<Rightarrow> if is_redis_error e then abort_storage_error else Crash e | Inr _ \<Rightarrow> Abort st msg, w'))
            (audit_authentication_denied S call msg w)
      | Inl e \<Rightarrow> Some (Crash e, w))"

subsection \<open>Messages\<close>

definition Send :: "'db mas_server \<Rightarrow> 'db rpc_call \<Rightarrow> string \<Rightarrow> string \<Rightarrow> string \<Rightarrow> string \<Rightarrow> ('db front, string) rpc" where
  "Send S call inst target kind data_json =
     storage_error_boundary (bind_rpc (agent_id_or_abort S call) (\<lambda>sender.
       aborts (send_message (ms_policy S) (ms_wire S) (ms_redis S) (rc_ingress call) sender inst target kind data_json)))"

definition Request :: "'db mas_server \<Rightarrow> 'db rpc_call \<Rightarrow> string \<Rightarrow> string \<Rightarrow> string \<Rightarrow> string \<Rightarrow> int \<Rightarrow> ('db front, string \<times> string) rpc" where
  "Request S call inst target kind data_json timeout_ms =
     storage_error_boundary (bind_rpc (agent_id_or_abort S call) (\<lambda>sender.
       aborts (request_message (ms_policy S) (ms_wire S) (ms_redis S) (rc_ingress call) sender inst target kind data_json timeout_ms)))"

definition Reply :: "'db mas_server \<Rightarrow> 'db rpc_call \<Rightarrow> string \<Rightarrow> string \<Rightarrow> string \<Rightarrow> string \<Rightarrow> ('db front, string) rpc" where
  "Reply S call inst cid kind data_json =
     storage_error_boundary (bind_rpc (agent_id_or_abort S call) (\<lambda>sender.
       aborts (reply_message (ms_policy S) (ms_wire S) (ms_redis S) (rc_ingress call) sender inst cid kind data_json)))"

subsection \<open>Discovery\<close>

record agent_message =
  am_agent_id :: string
  am_capabilities :: "string list"
  am_metadata_json :: string
  am_status :: string

definition agent_message_of :: "text_numbers \<Rightarrow> discovery_record \<Rightarrow> agent_message" where
  "agent_message_of N d = \<lparr>am_agent_id = disc_id d, am_capabilities = disc_capabilities d,
     am_metadata_json = json_dumps N (JObj (disc_metadata d)), am_status = disc_status d\<rparr>"

definition answered_with :: "('a \<Rightarrow> 'b) \<Rightarrow> ('w, 'a) rpc \<Rightarrow> ('w, 'b) rpc" where
  "answered_with f m = bind_rpc m (\<lambda>x w. Some (Answer (f x), w))"

definition Discover :: "'db mas_server \<Rightarrow> 'db rpc_call \<Rightarrow> string list \<Rightarrow> ('db front, agent_message list) rpc" where
  "Discover S call capabilities =
     storage_error_boundary (bind_rpc (agent_id_or_abort S call) (\<lambda>agent_id.
       answered_with (map (agent_message_of (po_numbers (ms_policy S))))
         (aborts (on_redis (discover (ms_redis S) (rc_gap call) (ms_agents S) agent_id capabilities)))))"

subsection \<open>State\<close>

definition GetState :: "'db mas_server \<Rightarrow> 'db rpc_call \<Rightarrow> ('db front, state_snapshot) rpc" where
  "GetState S call =
     storage_error_boundary (bind_rpc (agent_id_or_abort S call) (\<lambda>agent_id.
       crashes (on_redis (snapshot (ms_redis S) agent_id))))"

definition UpdateState :: "'db mas_server \<Rightarrow> 'db rpc_call \<Rightarrow> (string \<times> string) list \<Rightarrow> int option \<Rightarrow> ('db front, int) rpc" where
  "UpdateState S call updates expected_revision =
     storage_error_boundary (bind_rpc (agent_id_or_abort S call) (\<lambda>agent_id.
       case expected_revision of
         None \<Rightarrow> abort_rpc FAILED_PRECONDITION ''state_revision_required''
       | Some expected \<Rightarrow> aborts (on_redis (update_state (ms_redis S) (ms_durability S) agent_id updates expected))))"

definition ResetState :: "'db mas_server \<Rightarrow> 'db rpc_call \<Rightarrow> int option \<Rightarrow> ('db front, int) rpc" where
  "ResetState S call expected_revision =
     storage_error_boundary (bind_rpc (agent_id_or_abort S call) (\<lambda>agent_id.
       case expected_revision of
         None \<Rightarrow> abort_rpc FAILED_PRECONDITION ''state_revision_required''
       | Some expected \<Rightarrow> aborts (on_redis (reset_state (ms_redis S) (ms_durability S) agent_id expected))))"

section \<open>The service\<close>

text \<open>The unary calls of the service by their method, with the answers they give.\<close>

datatype rpc_request =
    SendRequest string string string string
  | RequestRequest string string string string int
  | ReplyRequest string string string string
  | DiscoverRequest "string list"
  | GetStateRequest
  | UpdateStateRequest "(string \<times> string) list" "int option"
  | ResetStateRequest "int option"

datatype rpc_response =
    SendResponse string
  | RequestResponse string string
  | ReplyResponse string
  | DiscoverResponse "agent_message list"
  | GetStateResponse state_snapshot
  | UpdateStateResponse int
  | ResetStateResponse int

definition serve :: "'db mas_server \<Rightarrow> 'db rpc_call \<Rightarrow> rpc_request \<Rightarrow> ('db front, rpc_response) rpc" where
  "serve S call request =
     (case request of
        SendRequest i t k d \<Rightarrow> answered_with SendResponse (Send S call i t k d)
      | RequestRequest i t k d ms \<Rightarrow> answered_with (\<lambda>(m, c). RequestResponse m c) (Request S call i t k d ms)
      | ReplyRequest i c k d \<Rightarrow> answered_with ReplyResponse (Reply S call i c k d)
      | DiscoverRequest cs \<Rightarrow> answered_with DiscoverResponse (Discover S call cs)
      | GetStateRequest \<Rightarrow> answered_with GetStateResponse (GetState S call)
      | UpdateStateRequest us e \<Rightarrow> answered_with UpdateStateResponse (UpdateState S call us e)
      | ResetStateRequest e \<Rightarrow> answered_with ResetStateResponse (ResetState S call e))"

lemmas handler_defs = Send_def Request_def Reply_def Discover_def GetState_def UpdateState_def ResetState_def

definition handle :: "'db mas_server \<Rightarrow> 'db rpc_call \<Rightarrow> (string \<Rightarrow> ('db front, 'a) rpc) \<Rightarrow> ('db front, 'a) rpc" where
  "handle S call f = storage_error_boundary (bind_rpc (agent_id_or_abort S call) f)"

lemma bind_rpc_stop:
  "m w = None \<Longrightarrow> bind_rpc m f w = None"
  "m w = Some (Abort st msg, w') \<Longrightarrow> bind_rpc m f w = Some (Abort st msg, w')"
  "m w = Some (Crash e, w') \<Longrightarrow> bind_rpc m f w = Some (Crash e, w')"
  "m w = Some (Answer x, w') \<Longrightarrow> bind_rpc m f w = f x w'"
  by (simp_all add: bind_rpc_def)

text \<open>The record of a denial, and the outcome of a call whose certificate gives no identity.\<close>

definition denial_log :: "'db mas_server \<Rightarrow> 'db rpc_call \<Rightarrow> string \<Rightarrow> ('db audit_service, string) task" where
  "denial_log S call msg =
     log_security_event (po_audit (ms_policy S)) (ms_redis S) (rc_audit call) ''AUTHENTICATION_DENIED'' [(''reason'', JStr msg)]"

definition denied :: "'db mas_server \<Rightarrow> 'db rpc_call \<Rightarrow> grpc_status \<Rightarrow> string \<Rightarrow> ('db front, 'a) rpc" where
  "denied S call st msg w =
     (case denial_log S call msg (gw_service (fst w)) of
        None \<Rightarrow> None
      | Some (Inr _, sv) \<Rightarrow> Some (Abort st msg, ((fst w)\<lparr>gw_service := sv\<rparr>, snd w))
      | Some (Inl e, sv) \<Rightarrow>
          Some (if is_redis_error e then Abort UNAVAILABLE ''storage_unavailable'' else Crash e, ((fst w)\<lparr>gw_service := sv\<rparr>, snd w)))"

lemma agent_id_denied:
  assumes "spiffe_agent_id (Some (rc_verdict call)) (rc_auth call) = Inl (RpcError st msg)"
  shows "agent_id_or_abort S call w = denied S call st msg w"
  using assms
  by (auto simp: agent_id_or_abort_def denied_def denial_log_def audit_authentication_denied_def abort_storage_error_def bindt_def on_gateway_def
      on_service_def split: option.splits sum.splits)

lemma handle_denied:
  assumes "spiffe_agent_id (Some (rc_verdict call)) (rc_auth call) = Inl (RpcError st msg)"
  shows "handle S call f w = denied S call st msg w"
  using agent_id_denied [OF assms, of S w]
  by (auto simp: handle_def storage_error_boundary_def bind_rpc_def denied_def storage_status_def split: option.splits sum.splits)

lemma answered_denied: "m w = denied S call st msg w \<Longrightarrow> answered_with g m w = denied S call st msg w"
  by (auto simp: answered_with_def bind_rpc_def denied_def split: option.splits sum.splits)

lemmas handlers = handler_defs [folded handle_def]

lemma serve_denied:
  assumes "spiffe_agent_id (Some (rc_verdict call)) (rc_auth call) = Inl (RpcError st msg)"
  shows "serve S call request w = denied S call st msg w"
  by (cases request) (simp_all add: serve_def handlers answered_denied handle_denied [OF assms])

lemma handle_known:
  assumes "spiffe_agent_id (Some (rc_verdict call)) (rc_auth call) = Inr agent"
  shows "handle S call f w = storage_error_boundary (f agent) w"
  using assms by (simp add: handle_def storage_error_boundary_def bind_rpc_def agent_id_or_abort_def)

section \<open>Denials\<close>

definition denial_record :: "keyspace audit_plan \<Rightarrow> string \<Rightarrow> chain_record" where
  "denial_record plan msg = EventRecord \<lparr>se_timestamp = plan_clock plan, se_event_type = ''AUTHENTICATION_DENIED'',
     se_details = [(''reason'', JStr msg)], se_previous_hash = None, se_hash_version = 2\<rparr>"

lemma denial_write_ok:
  assumes "is_double (am_numbers A) (plan_clock plan)"
  shows "write_ok (am_numbers A) Security_Events (queued_write A n (denial_record plan msg) Security_Events [] None)"
  using assms by (simp add: write_ok_def queued_write_def denial_record_def security_event_ok_def valid_hash_def)

lemma denial_loop_ok:
  assumes A: "audit_ok A" and good: "audit_state_ok A w" and "is_double (am_numbers A) (plan_clock plan)"
  shows "audit_setting.loop_ok (am_numbers A) (am_codec A) (am_sha A) Security_Events
    [queued_write A n (denial_record plan msg) Security_Events [] None] (am_settings A) w"
  using good denial_write_ok [OF assms(3)] by (simp add: audit_setting.loop_ok_def [OF A] audit_state_ok_def max_part_def)

lemma denial_log_entry:
  "ms_redis S = ks_redis \<Longrightarrow> denial_log S call msg =
     bindt (append_entry (po_audit (ms_policy S)) ks_redis (rc_audit call) (denial_record (rc_audit call) msg) Security_Events [] None)
       (\<lambda>(stream_id, _). liftt (ret stream_id))"
  by (simp add: denial_log_def log_security_event_def denial_record_def)

lemma denial_log_quiet:
  assumes R: "ms_redis S = ks_redis" and A: "audit_ok (po_audit (ms_policy S))" and good: "audit_state_ok (po_audit (ms_policy S)) (sv_world sv)"
    and plan: "quiet_plan (po_audit (ms_policy S)) (rc_audit call)" and run: "denial_log S call msg sv = Some (r, sv')"
  shows "apart_from_audit (aw_db (sv_world sv)) (aw_db (sv_world sv')) \<and>
    ((\<exists>x. r = Inr x) \<longrightarrow> recorded (po_audit (ms_policy S)) Security_Events (store_of (sv_world sv')) (denial_record (rc_audit call) msg))"
proof (cases "sv_closed sv")
  case True
  then show ?thesis using run by (auto simp: denial_log_entry [OF R] append_entry_def bindt_def)
next
  case False
  let ?A = "po_audit (ms_policy S)"
  define w where "w = queued_write ?A (plan_number (rc_audit call)) (denial_record (rc_audit call) msg) Security_Events [] None"
  have ok: "audit_setting.loop_ok (am_numbers ?A) (am_codec ?A) (am_sha ?A) Security_Events [w] (am_settings ?A) (sv_world sv)"
    unfolding w_def using plan by (intro denial_loop_ok [OF A good]) (simp add: quiet_plan_def)
  have plan': "is_double (am_numbers ?A) (plan_clock (rc_audit call))" "plan_before (rc_audit call) = []" "plan_after (rc_audit call) = []"
      "\<forall>t \<in> set (plan_turns (rc_audit call)). turn_others t = id \<and> turn_meanwhile t = id"
    using plan by (auto simp: quiet_plan_def)
  obtain results world answer where q: "run_batch ?A ks_redis Security_Events (plan_turns (rc_audit call)) [w] (sv_world sv) = Some (results, world)"
      "answer_of (plan_number (rc_audit call)) results = Some answer" "sv_world sv' = world" "(\<exists>x. r = Inr x) \<longleftrightarrow> (\<exists>x. answer = Inr x)"
    using run False plan'(2,3)
    by (auto simp: denial_log_entry [OF R] append_entry_def bindt_Some_iff w_def split: option.splits sum.splits)
  obtain n where n: "delivered (take n [w]) (aw_db (sv_world sv)) (aw_db world)"
      "\<forall>x \<in> set (take n [w]). \<exists>receipt. stored (am_codec ?A) (am_numbers ?A) (am_sha ?A) Security_Events (store_of world) x receipt"
      "\<forall>x receipt. (x, Inr receipt) \<in> set results \<longrightarrow> x \<in> set (take n [w])"
    using audit_setting.quiet_batch [OF A plan'(4) ok] q(1) unfolding run_batch_def by blast
  have "deliveries (take n [w]) k = []" for k by (cases n) (simp_all add: deliveries_def w_def queued_write_def)
  then have "apart_from_audit (aw_db (sv_world sv)) (aw_db world)" using n(1) by (simp add: delivered_def apart_from_audit_def)
  moreover have "recorded ?A Security_Events (store_of world) (denial_record (rc_audit call) msg)" if logged: "\<exists>x. r = Inr x"
  proof -
    obtain x where "answer = Inr x" using logged q(4) by blast
    with q(2) obtain v where "(v, Inr x) \<in> set results" by (auto elim: answer_ofD)
    then have "w \<in> set (take n [w])" using n(3) by (cases n) auto
    then show ?thesis using n(2) stored_recorded [of ?A] by (fastforce simp: w_def queued_write_def)
  qed
  ultimately show ?thesis using q(3) by simp
qed

lemma denial_log_succeeds:
  assumes R: "ms_redis S = ks_redis" and A: "audit_ok (po_audit (ms_policy S))" and good: "audit_state_ok (po_audit (ms_policy S)) (sv_world sv)"
    and plan: "quiet_plan (po_audit (ms_policy S)) (rc_audit call)" and turns: "plan_turns (rc_audit call) = t # u # ts" and opened: "\<not> sv_closed sv"
    and acc: "\<And>w. pw_indexes w = [] \<Longrightarrow> pw_append w = None \<Longrightarrow> accepts Security_Events [w] (aw_db (sv_world sv))"
    and fits: "int (length (entries_at (stream_key Security_Events) (aw_db (sv_world sv)))) < stream_capacity (am_settings (po_audit (ms_policy S))) Security_Events"
    and durable: "acknowledged (am_durability (po_audit (ms_policy S))) (aw_db (sv_world sv))"
  shows "\<exists>i sv'. denial_log S call msg sv = Some (Inr i, sv')"
proof -
  let ?A = "po_audit (ms_policy S)"
  define w where "w = queued_write ?A (plan_number (rc_audit call)) (denial_record (rc_audit call) msg) Security_Events [] None"
  have ok: "audit_setting.loop_ok (am_numbers ?A) (am_codec ?A) (am_sha ?A) Security_Events [w] (am_settings ?A) (sv_world sv)"
    unfolding w_def using plan by (intro denial_loop_ok [OF A good]) (simp add: quiet_plan_def)
  have plan': "plan_before (rc_audit call) = []" "plan_after (rc_audit call) = []"
      "turn_others t = id" "turn_others u = id"
    using plan turns by (auto simp: quiet_plan_def)
  have "accepts Security_Events [w] (aw_db (sv_world sv))" by (rule acc) (simp_all add: w_def queued_write_def)
  from audit_setting.two_turns_store [OF A ok this _ _ plan'(3,4) durable, of ts] fits
  obtain receipts world where "complete_batch (am_codec ?A) (am_numbers ?A) (am_cjson ?A) (am_sha ?A) ks_redis (am_settings ?A) (am_durability ?A)
      Security_Events (t # u # ts) [w] (sv_world sv) = Some (map2 (\<lambda>x receipt. (x, Inr receipt)) [w] receipts, world)" "length receipts = length [w]"
    by auto
  moreover from this(2) obtain receipt where "receipts = [receipt]" by (auto simp: length_Suc_conv)
  ultimately have "run_batch ?A ks_redis Security_Events (plan_turns (rc_audit call)) [w] (sv_world sv) = Some ([(w, Inr receipt)], world)"
    by (simp add: run_batch_def turns)
  then have "denial_log S call msg sv = Some (Inr (wr_stream_id receipt), sv\<lparr>sv_world := world\<rparr>)"
    using opened plan'(1,2)
    by (simp add: denial_log_entry [OF R] append_entry_def bindt_def w_def answer_of_def queued_write_def)
  then show ?thesis by blast
qed

text \<open>
  C3. A caller without a valid certificate reaches nothing: whichever procedure it calls and
  whatever it asks, it gets no answer, the memory of the broker and all of the storage
  outside the audit trail stay as they were, and if it is told the reason of the failed
  authentication, that reason is in the audit trail.
\<close>

theorem unauthenticated_call_denied:
  assumes "spiffe_agent_id (Some (rc_verdict call)) (rc_auth call) = Inl (RpcError st msg)" and "ms_redis S = ks_redis"
    and "audit_ok (po_audit (ms_policy S))" and "audit_state_ok (po_audit (ms_policy S)) (sv_world (gw_service g))"
    and "quiet_plan (po_audit (ms_policy S)) (rc_audit call)" and "serve S call request (g, b) = Some (r, (g', b'))"
  shows "(\<forall>x. r \<noteq> Answer x) \<and> b' = b \<and> apart_from_audit (gw_db g) (gw_db g') \<and>
    (r = Abort st msg \<and> recorded (po_audit (ms_policy S)) Security_Events (audit_store g') (denial_record (rc_audit call) msg) \<or>
     r = Abort UNAVAILABLE ''storage_unavailable'' \<or> (\<exists>e. r = Crash e))"
proof -
  have run: "denied S call st msg (g, b) = Some (r, (g', b'))" using assms(6) unfolding serve_denied [OF assms(1)] .
  obtain r1 sv where "denial_log S call msg (gw_service g) = Some (r1, sv)" using run by (auto simp: denied_def split: option.splits)
  with denial_log_quiet [OF assms(2-5) this] run show ?thesis by (cases r1) (auto simp: denied_def split: if_splits)
qed

text \<open>A caller that presents no certificate.\<close>

definition example_server :: "keyspace mas_server" where
  "example_server = \<lparr>ms_redis = ks_redis, ms_wire = json_wire, ms_policy = example_pipeline, ms_agents = [], ms_durability = default_durability\<rparr>"

definition stranger :: "keyspace rpc_call" where
  "stranger = \<lparr>rc_auth = \<lparr>x509_pem_cert = [], x509_pem_cert_chain = [], x509_subject_alternative_name = []\<rparr>, rc_verdict = (\<lambda>_ _. Inr ()),
     rc_audit = example_plan, rc_ingress = example_ingress, rc_gap = (\<lambda>_. ret ())\<rparr>"

lemma stranger_unknown: "spiffe_agent_id (Some (rc_verdict stranger)) (rc_auth stranger) = Inl (RpcError UNAUTHENTICATED ''missing_peer_certificate'')"
  by (simp add: stranger_def spiffe_agent_id_def check_peer_def UnauthenticatedError_def)

lemma example_trail:
  "audit_ok (po_audit (ms_policy example_server))" "quiet_plan (po_audit (ms_policy example_server)) (rc_audit stranger)"
  "audit_state_ok (po_audit (ms_policy example_server)) (sv_world (gw_service example_gateway))"
  using example_call by (simp_all add: quiet_call_def example_server_def stranger_def example_env_def)

lemma stranger_denied:
  "\<exists>g'. serve example_server stranger GetStateRequest (example_gateway, example_broker) =
     Some (Abort UNAUTHENTICATED ''missing_peer_certificate'', (g', example_broker))"
proof -
  have at: "ks_data (gw_db example_gateway) k = None" if "k \<notin> {allowed_key ''a'', sessions_key ''b''}" for k
    using that by (simp add: example_gateway_def example_storage_at)
  have none: "ks_data (gw_db example_gateway) (stream_key Security_Events) = None" "ks_data (gw_db example_gateway) (head_key Security_Events) = None"
    by (rule at, simp add: allowed_key_def sessions_key_def stream_key_def head_key_def)+
  have acc: "accepts Security_Events [w] (gw_db example_gateway)" if "pw_indexes w = []" "pw_append w = None" for w
    using none that by (simp add: accepts_def stream_typed_def stream_at_def empty_stream_def room_def max_part_def set_batch_keys)
  have "\<exists>i sv'. denial_log example_server stranger ''missing_peer_certificate'' (gw_service example_gateway) = Some (Inr i, sv')"
  proof (rule denial_log_succeeds [where t = example_turn and u = example_turn and ts = "[]", OF _ example_trail(1,3,2)])
    show "int (length (entries_at (stream_key Security_Events) (gw_db example_gateway))) <
        stream_capacity (am_settings (po_audit (ms_policy example_server))) Security_Events"
      using none by (simp add: stream_at_def empty_stream_def example_server_def example_pipeline_def example_retention_def stream_capacity_def)
  qed (use acc in \<open>simp_all add: example_server_def stranger_def example_plan_def example_gateway_def example_pipeline_def
      acknowledged_def durability_enabled_def default_durability_def\<close>)
  then show ?thesis unfolding serve_denied [OF stranger_unknown] by (auto simp: denied_def)
qed

theorem unauthenticated_call_denied_witness:
  "\<exists>g'. serve example_server stranger GetStateRequest (example_gateway, example_broker) =
     Some (Abort UNAUTHENTICATED ''missing_peer_certificate'', (g', example_broker)) \<and>
   recorded (po_audit example_pipeline) Security_Events (audit_store g') (denial_record example_plan ''missing_peer_certificate'')"
proof -
  obtain g' where run: "serve example_server stranger GetStateRequest (example_gateway, example_broker) =
     Some (Abort UNAUTHENTICATED ''missing_peer_certificate'', (g', example_broker))" using stranger_denied by blast
  from unauthenticated_call_denied [OF stranger_unknown _ example_trail(1,3,2) run] run show ?thesis
    by (auto simp: example_server_def stranger_def)
qed

section \<open>Failures of the storage\<close>

lemma storage_status_hides: "storage_status r = Crash e \<Longrightarrow> \<not> is_redis_error e"
  by (cases r) (auto simp: storage_status_def abort_storage_error_def split: if_splits)

lemma boundary_hides:
  assumes "answered_with g (handle S call f) w = Some (Crash e, w')"
  shows "\<not> is_redis_error e"
proof -
  obtain r where "handle S call f w = Some (r, w')" "r = Crash e"
    using assms by (auto simp: answered_with_def bind_rpc_def split: option.splits rpc_result.splits)
  then show ?thesis using storage_status_hides by (auto simp: handle_def storage_error_boundary_def)
qed

text \<open>
  No failure of the storage escapes: an exception that leaves a procedure is never one of
  Redis, of its durability or of the audit trail; those reach the caller as the status
  \<open>UNAVAILABLE\<close>.
\<close>

theorem storage_failures_have_status:
  assumes "serve S call request w = Some (Crash e, w')"
  shows "\<not> is_redis_error e"
  using assms by (cases request) (auto simp: serve_def handlers dest: boundary_hides)

definition closing_gateway :: "keyspace gateway" where
  "closing_gateway = example_gateway\<lparr>gw_service := (gw_service example_gateway)\<lparr>sv_closed := True\<rparr>\<rparr>"

definition interrupted_caller :: "keyspace rpc_call" where
  "interrupted_caller = stranger\<lparr>rc_auth := example_peer, rc_verdict := (\<lambda>_ _. Inl CancelledError)\<rparr>"

theorem storage_failures_have_status_witness:
  "serve example_server interrupted_caller GetStateRequest (closing_gateway, example_broker) = Some (Crash CancelledError, (closing_gateway, example_broker)) \<and>
   \<not> is_redis_error CancelledError"
proof -
  have run: "serve example_server interrupted_caller GetStateRequest (closing_gateway, example_broker) = Some (Crash CancelledError, (closing_gateway, example_broker))"
    by (simp add: serve_def handlers handle_def answered_with_def storage_error_boundary_def bind_rpc_def agent_id_or_abort_def interrupted_caller_def
        spiffe_agent_id_def check_peer_def example_peer_def peer_verdict_error_def storage_status_def List.map_filter_simps)
  from storage_failures_have_status [OF run] run show ?thesis by blast
qed

section \<open>State\<close>

fun state_request :: "state_write \<Rightarrow> int \<Rightarrow> rpc_request" where
  "state_request (Update us) e = UpdateStateRequest us (Some e)"
| "state_request Reset e = ResetStateRequest (Some e)"

fun state_response :: "state_write \<Rightarrow> int \<Rightarrow> rpc_response" where
  "state_response (Update us) n = UpdateStateResponse n"
| "state_response Reset n = ResetStateResponse n"

definition write_outcome :: "state_write \<Rightarrow> err + int \<Rightarrow> rpc_response rpc_result" where
  "write_outcome w r =
     (case r of
        Inr n \<Rightarrow> Answer (state_response w n)
      | Inl (RpcError st msg) \<Rightarrow> Abort st msg
      | Inl e \<Rightarrow> if is_redis_error e then abort_storage_error else Crash e)"

lemma serve_write:
  assumes "spiffe_agent_id (Some (rc_verdict call)) (rc_auth call) = Inr agent"
    and "write_state (ms_redis S) (ms_durability S) agent e w (gw_db g) = (r, db)"
  shows "serve S call (state_request w e) (g, b) = Some (write_outcome w r, (put_db db g, b))"
proof (cases w)
  case (Update us)
  then show ?thesis using assms
    by (cases r rule: sum.exhaust; cases "projl r")
      (auto simp: serve_def handlers handle_known answered_with_def bind_rpc_def storage_error_boundary_def aborts_def on_redis_apply
        write_state_def write_outcome_def storage_status_def abort_storage_error_def)
next
  case Reset
  then show ?thesis using assms
    by (cases r rule: sum.exhaust; cases "projl r")
      (auto simp: serve_def handlers handle_known answered_with_def bind_rpc_def storage_error_boundary_def aborts_def on_redis_apply
        write_state_def write_outcome_def storage_status_def abort_storage_error_def)
qed

text \<open>
  C26. A caller writes its own state and nobody else's, from the revision it names: with a
  current revision the call has exactly the effect of the abstract write on the state of the
  agent in the certificate, and answers with the new revision, or with \<open>UNAVAILABLE\<close> when the
  durability of the write is not confirmed; with any other revision it ends with \<open>ABORTED\<close>
  and changes nothing; no other agent's state, and nothing of the broker's memory, changes.
\<close>

theorem state_written_as_certified:
  assumes "redis_server (ms_redis S) view" and "spiffe_agent_id (Some (rc_verdict call)) (rc_auth call) = Inr agent"
    and "state_ok agent (view (gw_db g))" and "stored_revision agent (view (gw_db g)) \<le> max_revision"
  shows "\<exists>g'. (\<forall>other. other = agent \<or> State_Store.stored other (view (gw_db g')) = State_Store.stored other (view (gw_db g))) \<and>
    (if int (stored_revision agent (view (gw_db g))) = e
     then serve S call (state_request w e) (g, b) =
            Some (if acknowledged (ms_durability S) (view (gw_db g))
                  then Answer (state_response w (int (fst (apply_write w (State_Store.stored agent (view (gw_db g)))))))
                  else Abort UNAVAILABLE ''storage_unavailable'', (g', b)) \<and>
          State_Store.stored agent (view (gw_db g')) = apply_write w (State_Store.stored agent (view (gw_db g)))
     else serve S call (state_request w e) (g, b) = Some (Abort ABORTED ''state_revision_conflict'', (g', b)) \<and>
          view (gw_db g') = view (gw_db g))"
proof -
  obtain r db where run: "write_state (ms_redis S) (ms_durability S) agent e w (gw_db g) = (r, db)" by (metis prod.exhaust)
  note ks = implements_run [OF redis_server.write_state_impl [OF assms(1)] run]
  have out: "serve S call (state_request w e) (g, b) = Some (write_outcome w r, (put_db db g, b))"
    using serve_write [OF assms(2) run] .
  show ?thesis
  proof (cases "int (stored_revision agent (view (gw_db g))) = e")
    case True
    from write_state_ks(2) [OF assms(3,4) True, of "ms_durability S" w] ks
    have "r = (if acknowledged (ms_durability S) (view (gw_db g)) then Inr (int (fst (apply_write w (State_Store.stored agent (view (gw_db g)))))) else Inl unconfirmed)"
        "State_Store.stored agent (view db) = apply_write w (State_Store.stored agent (view (gw_db g)))"
        "\<forall>other. other \<noteq> agent \<longrightarrow> State_Store.stored other (view db) = State_Store.stored other (view (gw_db g))"
      by auto
    then show ?thesis using out True
      by (intro exI [of _ "put_db db g"]) (auto simp: write_outcome_def unconfirmed_def abort_storage_error_def)
  next
    case False
    from write_state_ks(1) [OF assms(3,4) False, of "ms_durability S" w] ks
    have "r = Inl revision_conflict" "view db = view (gw_db g)" by auto
    then show ?thesis using out False
      by (intro exI [of _ "put_db db g"]) (simp add: write_outcome_def revision_conflict_def)
  qed
qed

definition known_caller :: "keyspace rpc_call" where
  "known_caller = stranger\<lparr>rc_auth := example_peer\<rparr>"

lemma known_identity: "spiffe_agent_id (Some (rc_verdict known_caller)) (rc_auth known_caller) = Inr ''a''"
  using example_identity by (simp add: known_caller_def stranger_def)

theorem state_written_as_certified_witness:
  "\<exists>g'. serve example_server known_caller (state_request Reset 3) (asking_gateway, example_broker) =
     Some (Abort ABORTED ''state_revision_conflict'', (g', example_broker))"
proof -
  have at: "ks_data (gw_db asking_gateway) (state_key ''a'') = None" "ks_data (gw_db asking_gateway) (revision_key ''a'') = None"
    by (simp_all add: asking_gateway_def asking_storage_def example_storage_at session_key_def state_key_def revision_key_def allowed_key_def sessions_key_def)
  have rev: "stored_revision ''a'' (gw_db asking_gateway) = 0" by (simp add: stored_revision_def at)
  have srv: "redis_server (ms_redis example_server) (\<lambda>ks. ks)" using ref.redis_server_axioms by (simp add: example_server_def)
  have "state_ok ''a'' (gw_db asking_gateway)" by (simp add: state_ok_def at)
  from state_written_as_certified [OF srv known_identity this, of 3 Reset example_broker] rev show ?thesis by auto
qed

section \<open>Messages\<close>

text \<open>
  A request travels under the name of its certificate: whatever the caller writes into its
  request, on a healthy gateway a request that the policy lets pass puts into the mailbox of
  the target a message whose sender is the agent in the certificate, its correlation is
  registered for that agent, and the caller gets the identifiers of both.
\<close>

theorem request_sent_as_certified:
  assumes "spiffe_agent_id (Some (rc_verdict call)) (rc_auth call) = Inr agent" and "ms_redis S = ks_redis" and "ms_policy S = P"
    and "undisturbed (rc_ingress call) agent inst (g, b)" and "parse_payload_json (po_numbers P) data_json = Inr payload" and "0 \<le> timeout_ms"
    and "m = request_envelope (rc_ingress call) agent inst target kind payload"
    and "healthy P (ic_ingest (rc_ingress call)) m (Some (mailbox_append m (ms_wire S))) g"
    and "policy_spec P (ie_rate_clock (ic_ingest (rc_ingress call))) (ie_circuit_clock (ic_ingest (rc_ingress call))) (gw_db g) m = Inr (Passed d found m')"
  shows "\<exists>g'. serve S call (RequestRequest inst target kind data_json timeout_ms) (g, b) =
      Some (Answer (RequestResponse (ic_message_id (rc_ingress call)) (ic_correlation_id (rc_ingress call))), (g', b)) \<and>
    sender_id m = agent \<and>
    mails (shared_stream target) (gw_db g') = mails (shared_stream target) (gw_db g) @ [[(''envelope'', dump_envelope (ms_wire S) m')]] \<and>
    ks_data (gw_db g') (pending_request_key (ic_correlation_id (rc_ingress call))) = Some (RString (pending_request (po_numbers P) agent inst target
      (ic_clock (rc_ingress call) + real_of_int (effective_timeout_ms timeout_ms) / 1000)))"
proof -
  obtain g' where run: "request_message P (ms_wire S) ks_redis (rc_ingress call) agent inst target kind data_json timeout_ms (g, b) =
      Some (Inr (ic_message_id (rc_ingress call), ic_correlation_id (rc_ingress call)), (g', b))"
    and rest: "mails (shared_stream target) (gw_db g') = mails (shared_stream target) (gw_db g) @ [[(''envelope'', dump_envelope (ms_wire S) m')]]"
      "ks_data (gw_db g') (pending_request_key (ic_correlation_id (rc_ingress call))) = Some (RString (pending_request (po_numbers P) agent inst target
        (ic_clock (rc_ingress call) + real_of_int (effective_timeout_ms timeout_ms) / 1000)))"
    using request_delivered [OF assms(4-6,8,7,9)] by blast
  have "serve S call (RequestRequest inst target kind data_json timeout_ms) (g, b) =
      Some (Answer (RequestResponse (ic_message_id (rc_ingress call)) (ic_correlation_id (rc_ingress call))), (g', b))"
    using run assms(1-3)
    by (simp add: serve_def handlers handle_known answered_with_def bind_rpc_def storage_error_boundary_def aborts_def storage_status_def)
  then show ?thesis using rest assms(7) request_envelope_sel(2) by (intro exI [of _ g']) simp
qed

theorem request_sent_as_certified_witness:
  "\<exists>g'. serve example_server known_caller (RequestRequest ''i'' ''b'' ''t'' [] 0) (asking_gateway, example_broker) =
     Some (Answer (RequestResponse ''m1'' ''c''), (g', example_broker))"
proof -
  let ?m = "request_envelope (rc_ingress known_caller) ''a'' ''i'' ''b'' ''t'' []"
  have call: "rc_ingress known_caller = example_ingress" by (simp add: known_caller_def stranger_def)
  have und: "undisturbed (rc_ingress known_caller) ''a'' ''i'' (asking_gateway, example_broker)"
    unfolding call by (rule example_undisturbed) (simp add: asking_gateway_def asking_storage_def)
  have payload: "parse_payload_json (po_numbers example_pipeline) [] = Inr []" by (simp add: parse_payload_json_def validate_json_object_def)
  have healthy: "healthy example_pipeline (ic_ingest (rc_ingress known_caller)) ?m (Some (mailbox_append ?m (ms_wire example_server))) asking_gateway"
    using asking_healthy(2) [OF request_envelope_sel(2,3)] by (simp add: call example_ingress_def)
  have passed: "policy_spec example_pipeline (ie_rate_clock (ic_ingest (rc_ingress known_caller))) (ie_circuit_clock (ic_ingest (rc_ingress known_caller)))
      (gw_db asking_gateway) ?m = Inr (Passed ''ALLOWED'' [] ?m)"
    using asking_passes [OF request_envelope_sel(2,3)] by (simp add: call example_ingress_def example_env_def asking_gateway_def)
  have S: "ms_redis example_server = ks_redis" "ms_policy example_server = example_pipeline" by (simp_all add: example_server_def)
  from request_sent_as_certified [OF known_identity S und payload _ refl healthy passed, of 0] show ?thesis
    by (auto simp: call example_ingress_def)
qed

end
