(* ===== verification/Agent_State.thy ===== *)
theory Agent_State
  imports Servicer
begin

text \<open>
  \<open>packages/mas-agent/src/mas_agent/agent.py\<close>: the typed state of an agent, which lives in the
  client and is persisted by the broker field by field. The pydantic model of the state is a
  parameter: its fields, its defaults, its validation and its JSON dump. The calls of the stub
  are the procedures of the broker.
\<close>

section \<open>Client\<close>

record 'm state_model =
  model_fields :: "string list"
  model_default :: "err + 'm"
  model_validate :: "(string \<rightharpoonup> json) \<Rightarrow> err + 'm"
  model_merge :: "'m \<Rightarrow> (string \<times> json) list \<Rightarrow> err + 'm"
  model_dump_json :: "'m \<Rightarrow> (string \<times> json) list"

record 'm agent_client =
  ac_started :: bool
  ac_model :: "'m state_model option"
  ac_state :: "'m option"
  ac_revision :: int

text \<open>Python's equality of decoded JSON: numbers and booleans compare by value, dictionaries without order.\<close>

definition number_value :: "json \<Rightarrow> real option" where
  "number_value v = (case v of JInt i \<Rightarrow> Some (real_of_int i) | JFloat x \<Rightarrow> Some x | JBool b \<Rightarrow> Some (if b then 1 else 0) | _ \<Rightarrow> None)"

function (sequential) py_equal :: "json \<Rightarrow> json \<Rightarrow> bool" where
  "py_equal (JList xs) (JList ys) \<longleftrightarrow> length xs = length ys \<and> (\<forall>p \<in> set (zip xs ys). py_equal (fst p) (snd p))"
| "py_equal (JObj xs) (JObj ys) \<longleftrightarrow> length xs = length ys \<and>
     (\<forall>p \<in> set xs. case map_of ys (fst p) of None \<Rightarrow> False | Some w \<Rightarrow> py_equal (snd p) w)"
| "py_equal v w \<longleftrightarrow> (case (number_value v, number_value w) of (Some x, Some y) \<Rightarrow> x = y | (None, None) \<Rightarrow> v = w | _ \<Rightarrow> False)"
  by pat_completeness auto
termination
proof (relation "measure (\<lambda>p. size (fst p))")
  have elem: "x \<in> set xs \<Longrightarrow> f x < Suc (size_list f xs)" for f and x :: 'b and xs by (induction xs) auto
  fix xs ys :: "json list" and p
  assume "p \<in> set (zip xs ys)"
  then have "fst p \<in> set xs" by (metis prod.collapse set_zip_leftD)
  then show "((fst p, snd p), JList xs, JList ys) \<in> measure (\<lambda>p. size (fst p))" using elem [of "fst p" xs size] by simp
next
  have elem: "x \<in> set xs \<Longrightarrow> f x < Suc (size_list f xs)" for f and x :: 'b and xs by (induction xs) auto
  fix xs ys :: "(string \<times> json) list" and p x2
  assume in_xs: "p \<in> set xs"
  obtain a v where "p = (a, v)" by (metis prod.exhaust)
  with in_xs show "((snd p, x2), JObj xs, JObj ys) \<in> measure (\<lambda>p. size (fst p))" using elem [of p xs "size_prod (\<lambda>x. 0) size"] by simp
qed simp

definition changed_fields :: "text_numbers \<Rightarrow> (string \<times> json) list \<Rightarrow> (string \<times> json) list \<Rightarrow> (string \<times> json) list \<Rightarrow> (string \<times> string) list" where
  "changed_fields N updates previous state_dict =
     map (\<lambda>(key, v). (key, json_dumps N v))
       (filter (\<lambda>(key, v). key \<in> fst ` set updates \<or>
          \<not> py_equal v (case map_of previous key of None \<Rightarrow> JNull | Some old \<Rightarrow> old)) state_dict)"

text \<open>The outcome of a client operation: a result, the status of the call, or a local exception.\<close>

type_synonym ('m, 'db) client_op = "'m agent_client \<times> 'db front \<Rightarrow> (unit rpc_result \<times> 'm agent_client \<times> 'db front) option"

definition local_error :: "err \<Rightarrow> ('m, 'db) client_op" where
  "local_error e w = Some (Crash e, w)"

definition after_call :: "('db front, 'a) rpc \<Rightarrow> ('a \<Rightarrow> 'm agent_client \<Rightarrow> unit rpc_result \<times> 'm agent_client) \<Rightarrow> ('m, 'db) client_op" where
  "after_call stub commit w =
     map_option (\<lambda>(r, front). case r of
         Answer x \<Rightarrow> (case commit x (fst w) of (out, c) \<Rightarrow> (out, (c, front)))
       | Abort st msg \<Rightarrow> (Abort st msg, (fst w, front))
       | Crash e \<Rightarrow> (Crash e, (fst w, front))) (stub (snd w))"

definition agent_update_state :: "text_numbers \<Rightarrow> 'db mas_server \<Rightarrow> 'db rpc_call \<Rightarrow> (string \<times> json) list \<Rightarrow> ('m, 'db) client_op" where
  "agent_update_state N S call updates w =
     (let c = fst w in
      if \<not> ac_started c then local_error (RuntimeError ''Agent not started'') w
      else (case ac_model c of
        None \<Rightarrow> local_error (RuntimeError ''Agent state updates require a Pydantic state_model.'') w
      | Some M \<Rightarrow>
          if \<not> fst ` set updates \<subseteq> set (model_fields M) then local_error (ValueError ''Unknown state field(s)'') w
          else (case ac_state c of
            None \<Rightarrow> local_error (RuntimeError ''Agent not started. State is only available after calling start().'') w
          | Some m \<Rightarrow>
              (case model_merge M m updates of
                 Inl e \<Rightarrow> local_error e w
               | Inr updated \<Rightarrow>
                   after_call (UpdateState S call (changed_fields N updates (model_dump_json M m) (model_dump_json M updated)) (Some (ac_revision c)))
                     (\<lambda>revision c. (Answer (), c\<lparr>ac_state := Some updated, ac_revision := revision\<rparr>)) w))))"

definition agent_reset_state :: "'db mas_server \<Rightarrow> 'db rpc_call \<Rightarrow> ('m, 'db) client_op" where
  "agent_reset_state S call w =
     (let c = fst w in
      if \<not> ac_started c then local_error (RuntimeError ''Agent not started'') w
      else (case (case ac_model c of None \<Rightarrow> Inr None | Some M \<Rightarrow> map_sum id Some (model_default M)) of
        Inl e \<Rightarrow> local_error e w
      | Inr defaults \<Rightarrow>
          after_call (ResetState S call (Some (ac_revision c))) (\<lambda>revision c. (Answer (), c\<lparr>ac_state := defaults, ac_revision := revision\<rparr>)) w))"

text \<open>\<open>{key: json.loads(raw) for key, raw in data.items()}\<close>, which fails if one field does not decode.\<close>

definition decode_fields :: "text_numbers \<Rightarrow> (string \<rightharpoonup> string) \<Rightarrow> (string \<rightharpoonup> json) option" where
  "decode_fields N data =
     (if \<exists>raw \<in> ran data. json_loads N raw = None then None else Some (\<lambda>k. Option.bind (data k) (json_loads N)))"

definition state_reload_error :: err where
  "state_reload_error = RuntimeError ''Could not decode persisted state''"

definition load_snapshot :: "text_numbers \<Rightarrow> state_snapshot \<Rightarrow> 'm agent_client \<Rightarrow> unit rpc_result \<times> 'm agent_client" where
  "load_snapshot N snap c =
     (let revised = c\<lparr>ac_revision := snapshot_revision snap\<rparr> in
      case ac_model c of
        None \<Rightarrow> (Answer (), revised)
      | Some M \<Rightarrow>
          if snapshot_fields snap = Map.empty
          then (case model_default M of Inl e \<Rightarrow> (Crash e, c) | Inr d \<Rightarrow> (Answer (), revised\<lparr>ac_state := Some d\<rparr>))
          else (case decode_fields N (snapshot_fields snap) of
             None \<Rightarrow> (Crash state_reload_error, c)
           | Some decoded \<Rightarrow>
               (case model_validate M decoded of
                  Inl _ \<Rightarrow> (Crash state_reload_error, c)
                | Inr m \<Rightarrow> (Answer (), revised\<lparr>ac_state := Some m\<rparr>))))"

definition agent_load_state :: "text_numbers \<Rightarrow> 'db mas_server \<Rightarrow> 'db rpc_call \<Rightarrow> ('m, 'db) client_op" where
  "agent_load_state N S call w =
     (if \<not> ac_started (fst w) then local_error (RuntimeError ''Agent not started'') w
      else after_call (GetState S call) (load_snapshot N) w)"

section \<open>What is persisted\<close>

text \<open>
  A map of fields stands for a state if it holds each field of its dump, or lacks one that has
  its default.
\<close>

definition covers :: "'m state_model \<Rightarrow> 'm \<Rightarrow> (string \<rightharpoonup> json) \<Rightarrow> 'm \<Rightarrow> bool" where
  "covers M d fs m \<longleftrightarrow>
     (\<forall>k. fs k = map_of (model_dump_json M m) k \<or> fs k = None \<and> map_of (model_dump_json M m) k = map_of (model_dump_json M d) k)"

text \<open>
  The documented behaviour of a model: its dump has one JSON value per field, and validating
  what stands for a state gives that state, since absent fields take their defaults.
\<close>

definition model_ok :: "text_numbers \<Rightarrow> 'm state_model \<Rightarrow> 'm \<Rightarrow> bool" where
  "model_ok N M d \<longleftrightarrow> model_default M = Inr d \<and> distinct (model_fields M) \<and>
     (\<forall>m. map fst (model_dump_json M m) = model_fields M \<and> (\<forall>kv \<in> set (model_dump_json M m). json_ok N (snd kv))) \<and>
     (\<forall>fs m. covers M d fs m \<longrightarrow> model_validate M fs = Inr m)"

definition persisted :: "text_numbers \<Rightarrow> 'm state_model \<Rightarrow> 'm \<Rightarrow> 'm \<Rightarrow> (string \<rightharpoonup> string) \<Rightarrow> bool" where
  "persisted N M d m data \<longleftrightarrow>
     (\<forall>k. data k = map_option (json_dumps N) (map_of (model_dump_json M m) k) \<or>
          data k = None \<and> map_of (model_dump_json M m) k = map_of (model_dump_json M d) k)"

text \<open>Fields that the update does not name differ in Python's sense whenever they differ.\<close>

definition distinguished :: "'m state_model \<Rightarrow> (string \<times> json) list \<Rightarrow> 'm \<Rightarrow> 'm \<Rightarrow> bool" where
  "distinguished M updates old new \<longleftrightarrow>
     (\<forall>k v w. k \<notin> fst ` set updates \<longrightarrow> map_of (model_dump_json M new) k = Some v \<longrightarrow> map_of (model_dump_json M old) k = Some w \<longrightarrow>
        py_equal v w \<longrightarrow> v = w)"

lemma decode_persisted:
  assumes N: "json_numerals N" and M: "model_ok N M d" and data: "persisted N M d m data"
  shows "\<exists>fs. decode_fields N data = Some fs \<and> model_validate M fs = Inr m"
proof -
  have ok: "json_loads N (json_dumps N v) = Some v" if "map_of (model_dump_json M m) k = Some v" for k v
    using json_numerals.json_loads_dumps [OF N] M map_of_SomeD [OF that] unfolding model_ok_def by (metis snd_conv)
  have dec: "Option.bind (data k) (json_loads N) = map_of (model_dump_json M m) k \<and> (\<forall>raw. data k = Some raw \<longrightarrow> json_loads N raw \<noteq> None) \<or>
      data k = None \<and> map_of (model_dump_json M m) k = map_of (model_dump_json M d) k" for k
  proof -
    from data [unfolded persisted_def, rule_format, of k] consider "data k = map_option (json_dumps N) (map_of (model_dump_json M m) k)"
      | "data k = None" "map_of (model_dump_json M m) k = map_of (model_dump_json M d) k" by metis
    then show ?thesis
    proof cases
      case 1
      then show ?thesis using ok [of k] by (cases "map_of (model_dump_json M m) k") simp_all
    qed simp
  qed
  have "\<not> (\<exists>raw \<in> ran data. json_loads N raw = None)" using dec by (force simp: ran_def)
  moreover have "covers M d (\<lambda>k. Option.bind (data k) (json_loads N)) m" using dec unfolding covers_def by fastforce
  ultimately show ?thesis using M by (auto simp: decode_fields_def model_ok_def)
qed

lemma persisted_empty:
  assumes "model_ok N M d" and "persisted N M d m Map.empty"
  shows "m = d"
proof -
  have "covers M d Map.empty m" "covers M d Map.empty d" using assms(2) unfolding covers_def persisted_def by (auto simp: eq_commute [of None])
  then have "model_validate M Map.empty = Inr m" "model_validate M Map.empty = Inr d" using assms(1) unfolding model_ok_def by blast+
  then show ?thesis by simp
qed

lemma load_persisted:
  assumes N: "json_numerals N" and M: "model_ok N M d" and data: "persisted N M d m (snapshot_fields snap)" and c: "ac_model c = Some M"
  shows "load_snapshot N snap c = (Answer (), c\<lparr>ac_state := Some m, ac_revision := snapshot_revision snap\<rparr>)"
proof (cases "snapshot_fields snap = Map.empty")
  case True
  then have "m = d" using persisted_empty [OF M] data by simp
  then show ?thesis using True M c by (simp add: load_snapshot_def model_ok_def Let_def)
next
  case False
  obtain fs where "decode_fields N (snapshot_fields snap) = Some fs" "model_validate M fs = Inr m" using decode_persisted [OF N M data] by blast
  then show ?thesis using False c by (simp add: load_snapshot_def Let_def)
qed

lemma changed_fields_distinct: "distinct (map fst new) \<Longrightarrow> distinct (map fst (changed_fields N updates old new))"
  unfolding changed_fields_def by (simp add: comp_def case_prod_unfold distinct_map_filter)

lemma map_of_filter_map:
  assumes "distinct (map fst xs)"
  shows "map_of (map (\<lambda>(k, v). (k, f v)) (filter (\<lambda>(k, v). P k v) xs)) k = Option.bind (map_of xs k) (\<lambda>v. if P k v then Some (f v) else None)"
  using assms
proof (induction xs)
  case (Cons x xs)
  obtain a v where x: "x = (a, v)" by (metis prod.exhaust)
  have "map_of xs a = None" using Cons.prems x by (simp add: map_of_eq_None_iff)
  then show ?case using Cons x by auto
qed simp

lemma map_of_changed:
  assumes "distinct (map fst new)"
  shows "map_of (changed_fields N updates old new) k = Option.bind (map_of new k) (\<lambda>v.
    if k \<in> fst ` set updates \<or> \<not> py_equal v (case map_of old k of None \<Rightarrow> JNull | Some w \<Rightarrow> w) then Some (json_dumps N v) else None)"
  unfolding changed_fields_def by (rule map_of_filter_map [OF assms])

lemma update_persists:
  assumes M: "model_ok N M d" and data: "persisted N M d m data" and dist: "distinguished M updates m new"
  shows "persisted N M d new (data ++ map_of (rev (changed_fields N updates (model_dump_json M m) (model_dump_json M new))))"
proof -
  have keys: "map fst (model_dump_json M x) = model_fields M" "distinct (map fst (model_dump_json M x))" for x
    using M unfolding model_ok_def by auto
  have dom: "map_of (model_dump_json M x) k = None \<longleftrightarrow> k \<notin> set (model_fields M)" for x k
    using keys(1) [of x] by (simp add: map_of_eq_None_iff flip: set_map)
  let ?us = "changed_fields N updates (model_dump_json M m) (model_dump_json M new)"
  have us: "map_of (rev ?us) = map_of ?us"
    using changed_fields_distinct [OF keys(2)] by (subst map_of_inject_set) (simp_all add: rev_map [symmetric])
  show ?thesis unfolding persisted_def us
  proof
    fix k
    show "(data ++ map_of ?us) k = map_option (json_dumps N) (map_of (model_dump_json M new) k) \<or>
        (data ++ map_of ?us) k = None \<and> map_of (model_dump_json M new) k = map_of (model_dump_json M d) k"
    proof (cases "map_of ?us k")
      case (Some raw)
      then show ?thesis by (auto simp: map_of_changed [OF keys(2)] bind_eq_Some_conv split: if_splits)
    next
      case None
      have "map_of (model_dump_json M new) k = map_of (model_dump_json M m) k"
      proof (cases "map_of (model_dump_json M new) k")
        case (Some v)
        then obtain w where w: "map_of (model_dump_json M m) k = Some w" using dom [of new k] dom [of m k] by (metis option.exhaust option.distinct(1))
        then have "k \<notin> fst ` set updates" "py_equal v w" using None Some by (auto simp: map_of_changed [OF keys(2)] split: if_splits)
        then show ?thesis using dist [unfolded distinguished_def, rule_format, of k v w] Some w by simp
      qed (use dom [of new k] dom [of m k] in auto)
      then show ?thesis using None data [unfolded persisted_def, rule_format, of k] by (simp add: map_add_def)
    qed
  qed
qed

section \<open>Writing and reloading\<close>

lemma snapshot_ok:
  assumes "state_ok a ks" and "stored_revision a ks \<le> max_revision"
  shows "snapshot ks_redis a ks = (Inr \<lparr>snapshot_fields = stored_fields a ks, snapshot_revision = int (stored_revision a ks)\<rparr>, ks)"
proof -
  have "ks_hgetall (state_key a) ks = (Inr (stored_fields a ks), ks)"
    using assms(1) by (cases "ks_data ks (state_key a)" rule: type_of_value.cases) (simp_all add: ks_hgetall_def state_ok_def stored_fields_def)
  moreover have "validate_state ks_redis (state_key a) (revision_key a) ks = (Inr (int (stored_revision a ks)), ks)"
    using validate_state_ks [OF assms(1)] assms(2) by simp
  ultimately show ?thesis by (simp add: snapshot_def read_state_def bindio_def)
qed

definition call_status :: "err + 'a \<Rightarrow> 'a rpc_result" where
  "call_status r =
     (case r of Inr x \<Rightarrow> Answer x | Inl (RpcError st msg) \<Rightarrow> Abort st msg | Inl e \<Rightarrow> if is_redis_error e then abort_storage_error else Crash e)"

lemma call_status_Answer: "call_status r = Answer x \<longleftrightarrow> r = Inr x"
  by (cases r; cases "projl r") (auto simp: call_status_def abort_storage_error_def)

lemma boundary_aborts: "storage_error_boundary (aborts m) w = map_option (\<lambda>(r, w'). (call_status r, w')) (m w)"
proof (cases "m w")
  case (Some out)
  obtain r w' where out: "out = (r, w')" by (metis prod.exhaust)
  show ?thesis
  proof (cases r)
    case (Inl e)
    then show ?thesis using Some out by (cases e) (simp_all add: storage_error_boundary_def aborts_def storage_status_def call_status_def abort_storage_error_def)
  qed (use Some out in \<open>simp add: storage_error_boundary_def aborts_def storage_status_def call_status_def\<close>)
qed (simp add: storage_error_boundary_def aborts_def)

lemma state_calls:
  assumes "spiffe_agent_id (Some (rc_verdict call)) (rc_auth call) = Inr a"
  shows "UpdateState S call us (Some e) (g, b) =
      (case write_state (ms_redis S) (ms_durability S) a e (Update us) (gw_db g) of (r, db) \<Rightarrow> Some (call_status r, (put_db db g, b)))"
    and "ResetState S call (Some e) (g, b) =
      (case write_state (ms_redis S) (ms_durability S) a e Reset (gw_db g) of (r, db) \<Rightarrow> Some (call_status r, (put_db db g, b)))"
  by (simp_all add: handlers handle_known [OF assms] boundary_aborts on_redis_apply write_state_def split: prod.splits)

lemma read_call:
  assumes "spiffe_agent_id (Some (rc_verdict call)) (rc_auth call) = Inr a" and "ms_redis S = ks_redis"
    and "state_ok a (gw_db g)" and "stored_revision a (gw_db g) \<le> max_revision"
  shows "GetState S call (g, b) = Some (Answer \<lparr>snapshot_fields = stored_fields a (gw_db g), snapshot_revision = int (stored_revision a (gw_db g))\<rparr>, (g, b))"
  using snapshot_ok [OF assms(3,4)] assms(2)
  by (simp add: handlers handle_known [OF assms(1)] storage_error_boundary_def crashes_def on_redis_apply storage_status_def put_db_def)

subsection \<open>The instances of an agent\<close>

text \<open>
  The instances of an agent share its persisted state. A step is an update, a reset or a
  reload by one of them, under the certificate of the agent, or a change of anything else.
\<close>

type_synonym ('m, 'db) fleet = "(nat \<Rightarrow> 'm agent_client) \<times> 'db front"

inductive fleet_step :: "text_numbers \<Rightarrow> keyspace mas_server \<Rightarrow> string \<Rightarrow> ('m, keyspace) fleet \<Rightarrow> ('m, keyspace) fleet \<Rightarrow> bool"
  for N S a where
  updated: "spiffe_agent_id (Some (rc_verdict call)) (rc_auth call) = Inr a \<Longrightarrow> agent_update_state N S call updates (cs i, w) = Some (r, c, w') \<Longrightarrow>
    fleet_step N S a (cs, w) (cs(i := c), w')"
| reset: "spiffe_agent_id (Some (rc_verdict call)) (rc_auth call) = Inr a \<Longrightarrow> agent_reset_state S call (cs i, w) = Some (r, c, w') \<Longrightarrow>
    fleet_step N S a (cs, w) (cs(i := c), w')"
| loaded: "spiffe_agent_id (Some (rc_verdict call)) (rc_auth call) = Inr a \<Longrightarrow> agent_load_state N S call (cs i, w) = Some (r, c, w') \<Longrightarrow>
    fleet_step N S a (cs, w) (cs(i := c), w')"
| elsewhere: "State_Store.stored a (gw_db (fst w')) = State_Store.stored a (gw_db (fst w)) \<Longrightarrow> state_ok a (gw_db (fst w')) \<Longrightarrow> fleet_step N S a (cs, w) (cs, w')"

definition in_sync :: "text_numbers \<Rightarrow> 'm state_model \<Rightarrow> 'm \<Rightarrow> string \<Rightarrow> keyspace \<Rightarrow> 'm agent_client \<Rightarrow> bool" where
  "in_sync N M d a ks c \<longleftrightarrow> ac_model c = Some M \<and> ac_revision c \<le> int (stored_revision a ks) \<and>
     (\<forall>m. ac_state c = Some m \<longrightarrow> ac_revision c = int (stored_revision a ks) \<longrightarrow> persisted N M d m (stored_fields a ks))"

definition fleet_ok :: "text_numbers \<Rightarrow> 'm state_model \<Rightarrow> 'm \<Rightarrow> string \<Rightarrow> ('m, keyspace) fleet \<Rightarrow> bool" where
  "fleet_ok N M d a fleet \<longleftrightarrow> state_ok a (gw_db (fst (snd fleet))) \<and>
     (\<exists>m. persisted N M d m (stored_fields a (gw_db (fst (snd fleet))))) \<and> (\<forall>i. in_sync N M d a (gw_db (fst (snd fleet))) (fst fleet i))"

lemma write_exact:
  assumes "state_ok a ks" and "write_state ks_redis dur a e w ks = (r, ks')"
  shows "state_ok a ks' \<and> (State_Store.stored a ks' = State_Store.stored a ks \<or> State_Store.stored a ks' = apply_write w (State_Store.stored a ks)) \<and>
    (\<forall>n. r = Inr n \<longrightarrow> int (stored_revision a ks) = e \<and> n = int (stored_revision a ks') \<and> State_Store.stored a ks' = apply_write w (State_Store.stored a ks))"
proof (cases "stored_revision a ks \<le> max_revision")
  case True
  show ?thesis
  proof (cases "int (stored_revision a ks) = e")
    case current: True
    from write_state_ks(2) [OF assms(1) True current, of dur w] assms(2)
    have "State_Store.stored a ks' = apply_write w (State_Store.stored a ks)" "state_ok a ks'"
        "r = (if acknowledged dur ks then Inr (int (fst (apply_write w (State_Store.stored a ks)))) else Inl unconfirmed)" by auto
    moreover from this(1) have "stored_revision a ks' = fst (apply_write w (State_Store.stored a ks))" by (metis fst_stored)
    ultimately show ?thesis using current by (auto split: if_splits)
  next
    case False
    then show ?thesis using write_state_ks(1) [OF assms(1) True False, of dur w] assms by auto
  qed
next
  case False
  then show ?thesis using write_state_exhausted [OF assms(1), of dur e w] assms by auto
qed

lemma stored_eqD: "State_Store.stored a ks' = State_Store.stored a ks \<Longrightarrow> stored_revision a ks' = stored_revision a ks \<and> stored_fields a ks' = stored_fields a ks"
  by (simp add: State_Store.stored_def)

lemma in_sync_same: "State_Store.stored a ks' = State_Store.stored a ks \<Longrightarrow> in_sync N M d a ks c \<Longrightarrow> in_sync N M d a ks' c"
  using stored_eqD [of a ks' ks] by (simp add: in_sync_def)

lemma in_sync_write:
  assumes "State_Store.stored a ks' = State_Store.stored a ks \<or> State_Store.stored a ks' = apply_write w (State_Store.stored a ks)" and "in_sync N M d a ks c"
  shows "in_sync N M d a ks' c"
proof (cases "State_Store.stored a ks' = State_Store.stored a ks")
  case True
  show ?thesis by (rule in_sync_same [OF True assms(2)])
next
  case False
  then have "State_Store.stored a ks' = apply_write w (State_Store.stored a ks)" "effective w"
    using assms(1) by (auto simp: effective_def State_Store.stored_def)
  then have "stored_revision a ks' = stored_revision a ks + 1" using apply_write_effective [of w "State_Store.stored a ks"] by (metis fst_stored)
  then show ?thesis using assms(2) by (simp add: in_sync_def)
qed

lemma update_cases:
  assumes "agent_update_state N S call updates (c, (g, b)) = Some (r, c', w')" and "ac_model c = Some M"
    and "spiffe_agent_id (Some (rc_verdict call)) (rc_auth call) = Inr a" and "ms_redis S = ks_redis"
  obtains (refused) e where "r = Crash e" "c' = c" "w' = (g, b)"
    | (called) m new out db where "ac_started c" "ac_state c = Some m" "model_merge M m updates = Inr new"
        "write_state ks_redis (ms_durability S) a (ac_revision c) (Update (changed_fields N updates (model_dump_json M m) (model_dump_json M new))) (gw_db g) = (out, db)"
        "w' = (put_db db g, b)"
        "(\<exists>n. out = Inr n \<and> r = Answer () \<and> c' = c\<lparr>ac_state := Some new, ac_revision := n\<rparr>) \<or> ((\<forall>n. out \<noteq> Inr n) \<and> (\<forall>x. r \<noteq> Answer x) \<and> c' = c)"
proof (cases "ac_started c \<and> fst ` set updates \<subseteq> set (model_fields M) \<and> (\<exists>m new. ac_state c = Some m \<and> model_merge M m updates = Inr new)")
  case False
  then have "\<exists>e. agent_update_state N S call updates (c, (g, b)) = Some (Crash e, c, (g, b))"
    using assms(2) by (auto simp: agent_update_state_def local_error_def Let_def split: option.splits sum.splits)
  then show ?thesis using assms(1) refused by auto
next
  case True
  then obtain m new where m: "ac_started c" "fst ` set updates \<subseteq> set (model_fields M)" "ac_state c = Some m" "model_merge M m updates = Inr new" by blast
  let ?us = "changed_fields N updates (model_dump_json M m) (model_dump_json M new)"
  obtain out db where out: "write_state ks_redis (ms_durability S) a (ac_revision c) (Update ?us) (gw_db g) = (out, db)" by (metis prod.exhaust)
  have "UpdateState S call ?us (Some (ac_revision c)) (g, b) = Some (call_status out, (put_db db g, b))"
    using state_calls(1) [OF assms(3), of S ?us "ac_revision c" g b] out assms(4) by simp
  then have run: "agent_update_state N S call updates (c, (g, b)) =
      Some (case call_status out of Answer n \<Rightarrow> (Answer (), (c\<lparr>ac_state := Some new, ac_revision := n\<rparr>, (put_db db g, b)))
        | Abort st msg \<Rightarrow> (Abort st msg, (c, (put_db db g, b))) | Crash e \<Rightarrow> (Crash e, (c, (put_db db g, b))))"
    using m assms(2) by (cases "call_status out") (simp_all add: agent_update_state_def after_call_def Let_def)
  show ?thesis
  proof (cases "\<exists>n. out = Inr n")
    case True
    then show ?thesis using run assms(1) called [OF m(1,3,4) out] by (auto simp: call_status_def)
  next
    case False
    then have "\<forall>n. call_status out \<noteq> Answer n" by (simp add: call_status_Answer)
    then show ?thesis using run assms(1) False called [OF m(1,3,4) out] by (cases "call_status out") auto
  qed
qed

lemma update_fields:
  assumes M: "model_ok N M d" and dist: "distinguished M updates m new" and data: "persisted N M d m (stored_fields a ks)"
    and st: "State_Store.stored a ks' = apply_write (Update (changed_fields N updates (model_dump_json M m) (model_dump_json M new))) (State_Store.stored a ks)"
  shows "persisted N M d new (stored_fields a ks')"
proof -
  let ?us = "changed_fields N updates (model_dump_json M m) (model_dump_json M new)"
  have "stored_fields a ks' = stored_fields a ks ++ map_of (rev ?us)"
    using st by (cases "?us = []") (simp_all add: State_Store.stored_def)
  then show ?thesis using update_persists [OF M data dist] by simp
qed

lemma updated_ok:
  assumes M: "model_ok N M d" and dist: "\<And>m new. model_merge M m updates = Inr new \<Longrightarrow> distinguished M updates m new"
    and ok: "fleet_ok N M d a (cs, (g, b))" and id: "spiffe_agent_id (Some (rc_verdict call)) (rc_auth call) = Inr a" and R: "ms_redis S = ks_redis"
    and run: "agent_update_state N S call updates (cs i, (g, b)) = Some (r, c, w')"
  shows "fleet_ok N M d a (cs(i := c), w') \<and> (r = Answer () \<longrightarrow> ac_started (cs i) \<and> (\<exists>m. ac_state c = Some m \<and> persisted N M d m (stored_fields a (gw_db (fst w')))) \<and>
    ac_revision c = int (stored_revision a (gw_db (fst w'))))"
proof -
  have sync: "in_sync N M d a (gw_db g) (cs j)" for j using ok by (simp add: fleet_ok_def)
  then have "ac_model (cs i) = Some M" by (simp add: in_sync_def)
  from run this id R show ?thesis
  proof (cases rule: update_cases)
    case (refused e)
    then show ?thesis using ok by (simp add: fleet_ok_def)
  next
    case (called m new out db)
    let ?w = "Update (changed_fields N updates (model_dump_json M m) (model_dump_json M new))"
    have "state_ok a (gw_db g)" using ok by (simp add: fleet_ok_def)
    note wr = write_exact [OF this called(4)]
    have others: "in_sync N M d a db (cs j)" for j using in_sync_write [OF _ sync] wr by blast
    have current: "persisted N M d new (stored_fields a db)" if "State_Store.stored a db = apply_write ?w (State_Store.stored a (gw_db g))" "ac_revision (cs i) = int (stored_revision a (gw_db g))"
      using update_fields [OF M dist [OF called(3)] _ that(1)] sync [of i] that(2) called(2) by (simp add: in_sync_def)
    have some: "\<exists>x. persisted N M d x (stored_fields a db)"
    proof (cases "State_Store.stored a db = State_Store.stored a (gw_db g)")
      case True
      then show ?thesis using ok stored_eqD [OF True] by (simp add: fleet_ok_def)
    next
      case False
      then have "int (stored_revision a (gw_db g)) = ac_revision (cs i)"
        using called(4) \<open>state_ok a (gw_db g)\<close> write_state_ks(1) write_state_exhausted by (metis not_le_imp_less snd_conv)
      then show ?thesis using current False wr by metis
    qed
    show ?thesis using called(6)
    proof (elim disjE exE conjE)
      fix n assume n: "out = Inr n" "r = Answer ()" "c = cs i\<lparr>ac_state := Some new, ac_revision := n\<rparr>"
      have "persisted N M d new (stored_fields a db)" "n = int (stored_revision a db)" using current wr n(1) by auto
      then show ?thesis using n called(1,5) wr some others by (auto simp: fleet_ok_def in_sync_def)
    next
      assume "c = cs i" "\<forall>x. r \<noteq> Answer x"
      then show ?thesis using called(5) wr some others by (simp add: fleet_ok_def)
    qed
  qed
qed

lemma reset_ok:
  assumes M: "model_ok N M d" and ok: "fleet_ok N M d a (cs, (g, b))" and id: "spiffe_agent_id (Some (rc_verdict call)) (rc_auth call) = Inr a"
    and R: "ms_redis S = ks_redis" and run: "agent_reset_state S call (cs i, (g, b)) = Some (r, c, w')"
  shows "fleet_ok N M d a (cs(i := c), w')"
proof (cases "ac_started (cs i)")
  case False
  then show ?thesis using ok run by (auto simp: agent_reset_state_def local_error_def fleet_ok_def)
next
  case True
  have sync: "in_sync N M d a (gw_db g) (cs j)" for j using ok by (simp add: fleet_ok_def)
  then have model: "ac_model (cs i) = Some M" and d: "model_default M = Inr d" using M by (auto simp: in_sync_def model_ok_def)
  obtain out db where out: "write_state ks_redis (ms_durability S) a (ac_revision (cs i)) Reset (gw_db g) = (out, db)" by (metis prod.exhaust)
  have "ResetState S call (Some (ac_revision (cs i))) (g, b) = Some (call_status out, (put_db db g, b))"
    using state_calls(2) [OF id, of S "ac_revision (cs i)" g b] out R by simp
  then have reset: "agent_reset_state S call (cs i, (g, b)) =
      Some (case call_status out of Answer n \<Rightarrow> (Answer (), (cs i\<lparr>ac_state := Some d, ac_revision := n\<rparr>, (put_db db g, b)))
        | Abort st msg \<Rightarrow> (Abort st msg, (cs i, (put_db db g, b))) | Crash e \<Rightarrow> (Crash e, (cs i, (put_db db g, b))))"
    using True model d by (cases "call_status out") (simp_all add: agent_reset_state_def after_call_def Let_def)
  then have w': "w' = (put_db db g, b)" using run by (simp split: rpc_result.splits)
  have c: "(\<exists>n. out = Inr n \<and> c = cs i\<lparr>ac_state := Some d, ac_revision := n\<rparr>) \<or> c = cs i"
  proof (cases "call_status out")
    case (Answer n)
    then have "out = Inr n" by (simp add: call_status_Answer)
    then show ?thesis using run reset Answer by auto
  qed (use run reset in simp_all)
  have "state_ok a (gw_db g)" using ok by (simp add: fleet_ok_def)
  note wr = write_exact [OF this out]
  have others: "in_sync N M d a db (cs j)" for j using in_sync_write [OF _ sync] wr by blast
  have empty: "persisted N M d d (stored_fields a db)" if "State_Store.stored a db = apply_write Reset (State_Store.stored a (gw_db g))"
    using that by (simp add: State_Store.stored_def persisted_def)
  have "\<exists>m. persisted N M d m (stored_fields a db)"
    using wr empty ok stored_eqD [of a db "gw_db g"] by (auto simp: fleet_ok_def)
  then show ?thesis using c others wr empty sync by (auto simp: fleet_ok_def w' in_sync_def)
qed

lemma load_ok:
  assumes N: "json_numerals N" and M: "model_ok N M d" and ok: "fleet_ok N M d a (cs, (g, b))"
    and id: "spiffe_agent_id (Some (rc_verdict call)) (rc_auth call) = Inr a" and R: "ms_redis S = ks_redis"
    and run: "agent_load_state N S call (cs i, (g, b)) = Some (r, c, w')"
  shows "fleet_ok N M d a (cs(i := c), w')"
proof (cases "ac_started (cs i) \<and> stored_revision a (gw_db g) \<le> max_revision")
  case True
  obtain m where m: "persisted N M d m (stored_fields a (gw_db g))" using ok by (auto simp: fleet_ok_def)
  have st: "state_ok a (gw_db g)" and model: "ac_model (cs i) = Some M" using ok by (auto simp: fleet_ok_def in_sync_def)
  let ?snap = "\<lparr>snapshot_fields = stored_fields a (gw_db g), snapshot_revision = int (stored_revision a (gw_db g))\<rparr>"
  have "c = cs i\<lparr>ac_state := Some m, ac_revision := int (stored_revision a (gw_db g))\<rparr>" "w' = (g, b)"
    using run True read_call [OF id R st, of b] load_persisted [OF N M, of m ?snap "cs i"] m model
    by (auto simp: agent_load_state_def after_call_def)
  then show ?thesis using ok m model by (auto simp: fleet_ok_def in_sync_def)
next
  case False
  have st: "state_ok a (gw_db g)" using ok by (simp add: fleet_ok_def)
  have "c = cs i \<and> w' = (g, b)"
  proof (cases "ac_started (cs i)")
    case started: True
    then have "max_revision < stored_revision a (gw_db g)" using False by simp
    then have "snapshot ks_redis a (gw_db g) = (Inl (RedisError ''invalid_state_revision''), gw_db g)"
      using validate_state_ks [OF st] by (simp add: snapshot_def read_state_def bindio_def)
    then have "GetState S call (g, b) = Some (abort_storage_error, (g, b))"
      using R by (simp add: handlers handle_known [OF id] storage_error_boundary_def crashes_def on_redis_apply storage_status_def put_db_def)
    then show ?thesis using run started by (simp add: agent_load_state_def after_call_def abort_storage_error_def)
  qed (use run in \<open>simp add: agent_load_state_def local_error_def\<close>)
  then show ?thesis using ok by (simp add: fleet_ok_def)
qed

inductive fleet_reach :: "text_numbers \<Rightarrow> keyspace mas_server \<Rightarrow> string \<Rightarrow> ('m, keyspace) fleet \<Rightarrow> ('m, keyspace) fleet \<Rightarrow> bool"
  for N S a start where
  here: "fleet_reach N S a start start"
| stepped: "fleet_reach N S a start x \<Longrightarrow> fleet_step N S a x y \<Longrightarrow> fleet_reach N S a start y"

text \<open>A new agent: nothing is persisted, and no instance has loaded.\<close>

definition new_fleet :: "'m state_model \<Rightarrow> string \<Rightarrow> ('m, keyspace) fleet \<Rightarrow> bool" where
  "new_fleet M a fleet \<longleftrightarrow> ks_data (gw_db (fst (snd fleet))) (state_key a) = None \<and> ks_data (gw_db (fst (snd fleet))) (revision_key a) = None \<and>
     (\<forall>i. ac_model (fst fleet i) = Some M \<and> ac_state (fst fleet i) = None \<and> ac_revision (fst fleet i) = 0)"

definition updates_distinguished :: "'m state_model \<Rightarrow> bool" where
  "updates_distinguished M \<longleftrightarrow> (\<forall>m updates new. model_merge M m updates = Inr new \<longrightarrow> distinguished M updates m new)"

lemma fleet_reach_ok:
  assumes "json_numerals N" and "model_ok N M d" and "updates_distinguished M" and "ms_redis S = ks_redis" and "new_fleet M a start"
  shows "fleet_reach N S a start fleet \<Longrightarrow> fleet_ok N M d a fleet"
proof (induction rule: fleet_reach.induct)
  case here
  have "stored_fields a (gw_db (fst (snd start))) = Map.empty" "stored_revision a (gw_db (fst (snd start))) = 0" "state_ok a (gw_db (fst (snd start)))"
    using assms(5) by (simp_all add: new_fleet_def stored_fields_def stored_revision_def state_ok_def)
  then show ?case using assms(5) by (auto simp: fleet_ok_def in_sync_def new_fleet_def persisted_def intro: exI [of _ d])
next
  case (stepped x y)
  from stepped.hyps(2) show ?case
  proof cases
    case (updated call updates cs i w r c w')
    have "fleet_ok N M d a (cs, (fst w, snd w))" using stepped.IH updated(1) by simp
    from updated_ok [OF assms(2) _ this updated(3) assms(4), of updates i r c w'] updated(4) assms(3)
    show ?thesis unfolding updated(2) updates_distinguished_def by simp
  next
    case (reset call cs i w r c w')
    have "fleet_ok N M d a (cs, (fst w, snd w))" using stepped.IH reset(1) by simp
    from reset_ok [OF assms(2) this reset(3) assms(4), of i r c w'] reset(4) show ?thesis unfolding reset(2) by simp
  next
    case (loaded call cs i w r c w')
    have "fleet_ok N M d a (cs, (fst w, snd w))" using stepped.IH loaded(1) by simp
    from load_ok [OF assms(1,2) this loaded(3) assms(4), of i r c w'] loaded(4) show ?thesis unfolding loaded(2) by simp
  next
    case (elsewhere w' w cs)
    then show ?thesis using stepped.IH stored_eqD [OF elsewhere(3)] by (auto simp: fleet_ok_def in_sync_def)
  qed
qed


definition counter_model :: "int state_model" where
  "counter_model = \<lparr>model_fields = [''n''], model_default = Inr 0,
     model_validate = (\<lambda>fs. case fs ''n'' of None \<Rightarrow> Inr 0 | Some (JInt i) \<Rightarrow> Inr i | _ \<Rightarrow> Inl (ValueError ''n'')),
     model_merge = (\<lambda>m updates. case map_of updates ''n'' of None \<Rightarrow> Inr m | Some (JInt i) \<Rightarrow> Inr i | _ \<Rightarrow> Inl (ValueError ''n'')),
     model_dump_json = (\<lambda>m. [(''n'', JInt m)])\<rparr>"

definition counter_agent :: "int agent_client" where
  "counter_agent = \<lparr>ac_started = True, ac_model = Some counter_model, ac_state = None, ac_revision = 0\<rparr>"

lemma counter_model_ok: "model_ok N counter_model 0" "updates_distinguished counter_model"
proof -
  have "model_validate counter_model fs = Inr m" if "covers counter_model 0 fs m" for fs m
    using that [unfolded covers_def, rule_format, of "''n''"] by (auto simp: counter_model_def)
  then show "model_ok N counter_model 0" by (simp add: model_ok_def) (simp add: counter_model_def)
  show "updates_distinguished counter_model"
    by (auto simp: updates_distinguished_def distinguished_def counter_model_def number_value_def split: if_splits)
qed


end
