(* ===== verification/Transport.thy ===== *)
theory Transport
  imports Servicer "HOL-Library.Multiset"
begin

text \<open>
  \<open>packages/mas-server/src/mas_server/servicer.py\<close>, the stream of a session: \<open>Transport\<close> connects
  the session, writes its outbound deliveries and disconnects it on every way out, while
  \<open>_consume_client_events\<close> settles the acknowledgements of the client. What the scheduler
  decides (which task is done, what other tasks do to the session meanwhile, when the call is
  cancelled) is a list of turns.
\<close>

section \<open>Writing deliveries\<close>

datatype server_event = WelcomeEvent string string | DeliveryEvent outbound_delivery

text \<open>How the loop ends: it returns, an exception leaves it, or it has ended the call with a status.\<close>

datatype loop_end = Returned | Raised err | Aborted grpc_status string

text \<open>
  One turn of the loop: what others did to the server and to the session before it, the states
  of the inbound task and of the delivery worker, the same after the wait for an empty queue,
  the properties of the connection when the caller is authenticated again, and the clock.
\<close>

record 'db transport_turn =
  tt_world :: "'db front \<Rightarrow> 'db front"
  tt_others :: "session \<Rightarrow> session"
  tt_inbound :: "(err + unit) option"
  tt_worker :: "(err + unit) option"
  tt_wait :: "session \<Rightarrow> session"
  tt_inbound_after :: "(err + unit) option"
  tt_worker_after :: "(err + unit) option"
  tt_call :: "'db rpc_call"
  tt_clock :: real

definition loop_stop :: "(err + unit) option \<Rightarrow> (err + unit) option \<Rightarrow> loop_end option" where
  "loop_stop inbound worker =
     (case inbound of
        Some (Inl e) \<Rightarrow> Some (Raised e)
      | Some (Inr _) \<Rightarrow> Some Returned
      | None \<Rightarrow>
          (case worker of
             Some (Inl e) \<Rightarrow> Some (Raised e)
           | Some (Inr _) \<Rightarrow> Some (Aborted UNAVAILABLE ''delivery_worker_stopped'')
           | None \<Rightarrow> None))"

definition pop_outbound :: "session \<Rightarrow> (outbound_delivery \<times> session) option" where
  "pop_outbound s =
     (case q_items (ses_outbound s) of
        [] \<Rightarrow> None
      | ev # rest \<Rightarrow> Some (ev, s\<lparr>ses_outbound := (ses_outbound s)\<lparr>q_items := rest\<rparr>\<rparr>))"

text \<open>The next delivery; a wait that neither task ends and that brings nothing is ended by cancellation only.\<close>

definition next_outbound :: "'db transport_turn \<Rightarrow> session \<Rightarrow> loop_end + outbound_delivery \<times> session" where
  "next_outbound t s =
     (case loop_stop (tt_inbound t) (tt_worker t) of
        Some out \<Rightarrow> Inl out
      | None \<Rightarrow>
          (case pop_outbound s of
             Some taken \<Rightarrow> Inr taken
           | None \<Rightarrow>
               (case loop_stop (tt_inbound_after t) (tt_worker_after t) of
                  Some out \<Rightarrow> Inl out
                | None \<Rightarrow> (case pop_outbound (tt_wait t s) of Some taken \<Rightarrow> Inr taken | None \<Rightarrow> Inl (Raised CancelledError)))))"

definition write_turn :: "'db mas_server \<Rightarrow> 'db transport_turn \<Rightarrow> session \<Rightarrow> 'db front \<Rightarrow>
    ((loop_end + outbound_delivery \<times> session) \<times> 'db front) option" where
  "write_turn S t s w =
     (case next_outbound t s of
        Inl out \<Rightarrow> Some (Inl out, w)
      | Inr (ev, s') \<Rightarrow>
          let s'' = s'\<lparr>ses_capacity_changed := True\<rparr> in
          (case agent_id_or_abort S (tt_call t) w of
             None \<Rightarrow> None
           | Some (Abort st msg, w') \<Rightarrow> Some (Inl (Aborted st msg), w')
           | Some (Crash e, w') \<Rightarrow> Some (Inl (Raised e), w')
           | Some (Answer _, w') \<Rightarrow>
               if \<not> lease_live (tt_clock t) (ses_lease s'') then Some (Inl (Aborted UNAVAILABLE ''session_lease_lost''), w')
               else Some (Inr (ev, s''), w')))"

fun write_loop :: "'db mas_server \<Rightarrow> 'db transport_turn list \<Rightarrow> session \<Rightarrow> 'db front \<Rightarrow> (loop_end \<times> server_event list \<times> 'db front) option" where
  "write_loop S [] s w = Some (Raised CancelledError, [], w)"
| "write_loop S (t # ts) s w =
     (case write_turn S t (tt_others t s) (tt_world t w) of
        None \<Rightarrow> None
      | Some (Inl out, w') \<Rightarrow> Some (out, [], w')
      | Some (Inr (ev, s'), w') \<Rightarrow>
          map_option (\<lambda>(out, evs, w''). (out, DeliveryEvent ev # evs, w'')) (write_loop S ts s' w'))"

section \<open>The stream of a session\<close>

text \<open>The exception clauses around the loop. A second \<open>abort\<close> of a call does not change its status.\<close>

definition loop_status :: "loop_end \<Rightarrow> unit rpc_result" where
  "loop_status out =
     (case out of
        Returned \<Rightarrow> Answer ()
      | Aborted st msg \<Rightarrow> Abort st msg
      | Raised e \<Rightarrow>
          (case e of
             RpcError st msg \<Rightarrow> Abort st msg
           | CancelledError \<Rightarrow> Answer ()
           | _ \<Rightarrow> if is_redis_error e then abort_storage_error else Abort UNAVAILABLE ''transport_failed''))"

text \<open>The \<open>finally\<close> clause: the status, once the session was disconnected.\<close>

definition final_status :: "bool \<Rightarrow> unit rpc_result \<Rightarrow> err + 'a \<Rightarrow> unit rpc_result" where
  "final_status context_done status disconnected =
     (case disconnected of
        Inr _ \<Rightarrow> status
      | Inl e \<Rightarrow>
          (case status of
             Answer () \<Rightarrow> if is_redis_error e then if context_done then status else abort_storage_error else Crash e
           | _ \<Rightarrow> status))"

text \<open>The first event of the client.\<close>

datatype client_event = HelloEvent string | AckEvent string | NackEvent string string bool | OtherEvent

record 'db stream_call =
  sc_call :: "'db rpc_call"
  sc_running :: bool
  sc_requested :: real
  sc_confirmed :: real
  sc_uuid :: string
  sc_factory_error :: "err option"
  sc_context_done :: bool

definition connect_session :: "'db mas_server \<Rightarrow> 'db stream_call \<Rightarrow> string \<Rightarrow> string \<Rightarrow> ('db front, session) task" where
  "connect_session S sc agent_id inst =
     (if \<not> sc_running sc then liftt (raise (RuntimeError ''Server not started''))
      else on_sessions (connect (ms_redis S) (sc_factory_error sc) (sc_requested sc) (sc_confirmed sc) (sc_uuid sc) agent_id inst))"

definition connect_status :: "err \<Rightarrow> unit rpc_result" where
  "connect_status e = (case e of RpcError st msg \<Rightarrow> Abort st msg | _ \<Rightarrow> if is_redis_error e then abort_storage_error else Crash e)"

definition run_stream :: "'db mas_server \<Rightarrow> 'db stream_call \<Rightarrow> 'db transport_turn list \<Rightarrow> string \<Rightarrow> string \<Rightarrow> session \<Rightarrow> 'db front \<Rightarrow>
    (unit rpc_result \<times> server_event list \<times> 'db front) option" where
  "run_stream S sc turns agent_id inst s w =
     (case write_loop S turns s w of
        None \<Rightarrow> None
      | Some (out, evs, w') \<Rightarrow>
          (case on_sessions (disconnect (ms_redis S) agent_id inst) w' of
             None \<Rightarrow> None
           | Some (r, w'') \<Rightarrow> Some (final_status (sc_context_done sc) (loop_status out) r, WelcomeEvent agent_id inst # evs, w'')))"

definition Transport :: "'db mas_server \<Rightarrow> 'db stream_call \<Rightarrow> 'db transport_turn list \<Rightarrow> client_event option \<Rightarrow> 'db front \<Rightarrow>
    (unit rpc_result \<times> server_event list \<times> 'db front) option" where
  "Transport S sc turns first w =
     (case agent_id_or_abort S (sc_call sc) w of
        None \<Rightarrow> None
      | Some (Abort st msg, w') \<Rightarrow> Some (Abort st msg, [], w')
      | Some (Crash e, w') \<Rightarrow> Some (Crash e, [], w')
      | Some (Answer agent_id, w') \<Rightarrow>
          (case first of
             None \<Rightarrow> Some (Abort INVALID_ARGUMENT ''missing_hello'', [], w')
           | Some (HelloEvent inst) \<Rightarrow>
               (case connect_session S sc agent_id inst w' of
                  None \<Rightarrow> None
                | Some (Inl e, w'') \<Rightarrow> Some (connect_status e, [], w'')
                | Some (Inr s, w'') \<Rightarrow> run_stream S sc turns agent_id inst s w'')
           | Some _ \<Rightarrow> Some (Abort INVALID_ARGUMENT ''expected_hello'', [], w')))"

section \<open>Settling acknowledgements\<close>

text \<open>
  \<open>_consume_client_events\<close>: the reader authenticates the caller again before each event, puts
  acknowledgements into a bounded queue for the workers, and waits until all of them are
  settled before it handles a refusal. The state: the events the client has still to send,
  the acknowledgements that are queued or with a worker, what was handled, in order, and the
  failures of the group of tasks.
\<close>

datatype handled = HandledAck string | HandledNack string

record 'db inbound =
  in_events :: "client_event list"
  in_queue :: "string list"
  in_handled :: "handled list"
  in_world :: "'db front"
  in_errors :: "err list"
  in_end :: "loop_end option"

record 'db inbound_env =
  ie_server :: "'db mas_server"
  ie_settings :: server_settings
  ie_router :: router
  ie_breaker :: "'db breaker option"
  ie_stamp :: string
  ie_agent :: string
  ie_instance :: string

definition on_broker :: "('db world \<Rightarrow> ((err + 'a) \<times> 'db world) option) \<Rightarrow> ('db front, 'a) task" where
  "on_broker m w = map_option (\<lambda>(r, db, b). (r, (put_db db (fst w), b))) (m (gw_db (fst w), snd w))"

definition ack_workers :: "server_settings \<Rightarrow> nat" where
  "ack_workers settings = nat (min 32 (max_in_flight settings))"

definition note_result :: "handled \<Rightarrow> (err + unit) \<times> 'db front \<Rightarrow> 'db inbound \<Rightarrow> 'db inbound" where
  "note_result h out st = st\<lparr>in_handled := in_handled st @ [h], in_world := snd out,
     in_errors := in_errors st @ (case fst out of Inl e \<Rightarrow> [e] | Inr _ \<Rightarrow> [])\<rparr>"

definition settle_queued :: "'db inbound_env \<Rightarrow> string \<Rightarrow> 'db inbound \<Rightarrow> 'db inbound option" where
  "settle_queued E d st =
     map_option (\<lambda>out. note_result (HandledAck d) out (st\<lparr>in_queue := remove1 d (in_queue st)\<rparr>))
       (on_broker (handle_ack (ms_redis (ie_server E)) (ie_breaker E) (ie_agent E) (ie_instance E) d) (in_world st))"

definition refuse_delivery :: "'db inbound_env \<Rightarrow> string \<Rightarrow> string \<Rightarrow> bool \<Rightarrow> 'db inbound \<Rightarrow> 'db inbound option" where
  "refuse_delivery E d reason retryable st =
     map_option (\<lambda>out. note_result (HandledNack d) out st)
       (on_broker (handle_nack (ms_wire (ie_server E)) (ms_redis (ie_server E)) (ie_settings E) (ie_router E) (ie_breaker E) (ie_stamp E)
          (ie_agent E) (ie_instance E) d reason retryable) (in_world st))"

fun is_rpc_error :: "err \<Rightarrow> bool" where
  "is_rpc_error (RpcError _ _) = True"
| "is_rpc_error _ = False"

text \<open>The failure of the group: of the storage, if one is; the RPC error that failed last; or the group itself.\<close>

definition group_error :: "err list \<Rightarrow> err" where
  "group_error errors =
     (if list_ex is_redis_error errors then RedisError ''storage_unavailable''
      else (case find is_rpc_error (rev errors) of Some e \<Rightarrow> e | None \<Rightarrow> OtherError ''ExceptionGroup''))"

text \<open>
  The steps of the reader and of the workers, in any interleaving. The queue holds
  \<open>ack_workers\<close> items besides the ones that the workers hold. Once a task has failed, the
  reader is cancelled, and the group fails when the workers have ended.
\<close>

inductive inbound_step :: "'db inbound_env \<Rightarrow> 'db inbound \<Rightarrow> 'db inbound \<Rightarrow> bool" for E where
  queued: "in_end st = None \<Longrightarrow> in_errors st = [] \<Longrightarrow> in_events st = AckEvent d # rest \<Longrightarrow>
    agent_id_or_abort (ie_server E) call (in_world st) = Some (Answer a, w) \<Longrightarrow> length (in_queue st) < 2 * ack_workers (ie_settings E) \<Longrightarrow>
    inbound_step E st (st\<lparr>in_events := rest, in_queue := in_queue st @ [d], in_world := w\<rparr>)"
| settled: "in_end st = None \<Longrightarrow> d \<in> set (in_queue st) \<Longrightarrow> settle_queued E d st = Some st' \<Longrightarrow> inbound_step E st st'"
| refused: "in_end st = None \<Longrightarrow> in_errors st = [] \<Longrightarrow> in_events st = NackEvent d reason retryable # rest \<Longrightarrow>
    agent_id_or_abort (ie_server E) call (in_world st) = Some (Answer a, w) \<Longrightarrow> in_queue st = [] \<Longrightarrow>
    refuse_delivery E d reason retryable (st\<lparr>in_events := rest, in_world := w\<rparr>) = Some st' \<Longrightarrow> inbound_step E st st'"
| unexpected: "in_end st = None \<Longrightarrow> in_errors st = [] \<Longrightarrow> in_events st = ev # rest \<Longrightarrow> ev = OtherEvent \<or> (\<exists>i. ev = HelloEvent i) \<Longrightarrow>
    agent_id_or_abort (ie_server E) call (in_world st) = Some (Answer a, w) \<Longrightarrow>
    inbound_step E st (st\<lparr>in_events := rest, in_world := w, in_errors := [RpcError INVALID_ARGUMENT ''expected_ack_or_nack'']\<rparr>)"
| denied: "in_end st = None \<Longrightarrow> in_errors st = [] \<Longrightarrow> in_events st \<noteq> [] \<Longrightarrow>
    agent_id_or_abort (ie_server E) call (in_world st) = Some (Abort status reason, w) \<Longrightarrow>
    inbound_step E st (st\<lparr>in_world := w, in_end := Some (Aborted status reason)\<rparr>)"
| crashed: "in_end st = None \<Longrightarrow> in_errors st = [] \<Longrightarrow> in_events st \<noteq> [] \<Longrightarrow>
    agent_id_or_abort (ie_server E) call (in_world st) = Some (Crash e, w) \<Longrightarrow>
    inbound_step E st (st\<lparr>in_world := w, in_errors := [e]\<rparr>)"
| failed: "in_end st = None \<Longrightarrow> in_errors st \<noteq> [] \<Longrightarrow> inbound_step E st (st\<lparr>in_end := Some (Raised (group_error (in_errors st)))\<rparr>)"
| finished: "in_end st = None \<Longrightarrow> in_errors st = [] \<Longrightarrow> in_events st = [] \<Longrightarrow> in_queue st = [] \<Longrightarrow>
    inbound_step E st (st\<lparr>in_end := Some Returned\<rparr>)"

inductive inbound_reach :: "'db inbound_env \<Rightarrow> client_event list \<Rightarrow> 'db front \<Rightarrow> 'db inbound \<Rightarrow> bool" for E events w where
  opened: "inbound_reach E events w \<lparr>in_events = events, in_queue = [], in_handled = [], in_world = w, in_errors = [], in_end = None\<rparr>"
| stepped: "inbound_reach E events w st \<Longrightarrow> inbound_step E st st' \<Longrightarrow> inbound_reach E events w st'"

inductive_cases inbound_stepE: "inbound_step E st st'"

section \<open>Refusals come after the acknowledgements before them\<close>

fun ack_of :: "client_event \<Rightarrow> string option" where
  "ack_of (AckEvent d) = Some d"
| "ack_of _ = None"

fun nack_of :: "client_event \<Rightarrow> string option" where
  "nack_of (NackEvent d _ _) = Some d"
| "nack_of _ = None"

fun handled_ack :: "handled \<Rightarrow> string option" where
  "handled_ack (HandledAck d) = Some d"
| "handled_ack (HandledNack d) = None"

fun handled_nack :: "handled \<Rightarrow> string option" where
  "handled_nack (HandledNack d) = Some d"
| "handled_nack (HandledAck d) = None"

text \<open>What was handled before a refusal: the acknowledgements and refusals that the client had sent before it.\<close>

definition settled_before :: "client_event list \<Rightarrow> handled list \<Rightarrow> string \<Rightarrow> bool" where
  "settled_before events done_before d \<longleftrightarrow>
     (\<exists>earlier reason retryable rest. events = earlier @ NackEvent d reason retryable # rest \<and>
        mset (List.map_filter handled_ack done_before) = mset (List.map_filter ack_of earlier) \<and>
        List.map_filter handled_nack done_before = List.map_filter nack_of earlier)"

definition in_order :: "client_event list \<Rightarrow> handled list \<Rightarrow> bool" where
  "in_order events log_list \<longleftrightarrow> (\<forall>n < length log_list. \<forall>d. log_list ! n = HandledNack d \<longrightarrow> settled_before events (take n log_list) d)"

definition inbound_inv :: "'db inbound_env \<Rightarrow> client_event list \<Rightarrow> 'db inbound \<Rightarrow> bool" where
  "inbound_inv E events st \<longleftrightarrow>
     (\<exists>taken. events = taken @ in_events st \<and>
        mset (List.map_filter handled_ack (in_handled st)) + mset (in_queue st) = mset (List.map_filter ack_of taken) \<and>
        List.map_filter handled_nack (in_handled st) = List.map_filter nack_of taken) \<and>
     in_order events (in_handled st) \<and> length (in_queue st) \<le> 2 * ack_workers (ie_settings E)"

lemma in_order_append:
  assumes "in_order events hs" and "\<And>d. h = HandledNack d \<Longrightarrow> settled_before events hs d"
  shows "in_order events (hs @ [h])"
  using assms by (auto simp: in_order_def nth_append less_Suc_eq)

lemma map_filter_append [simp]: "List.map_filter f (xs @ ys) = List.map_filter f xs @ List.map_filter f ys"
  by (simp add: List.map_filter_def)

lemma inbound_step_inv:
  assumes "inbound_step E st st'" and "inbound_inv E events st"
  shows "inbound_inv E events st'"
proof -
  obtain taken where taken: "events = taken @ in_events st"
      "mset (List.map_filter handled_ack (in_handled st)) + mset (in_queue st) = mset (List.map_filter ack_of taken)"
      "List.map_filter handled_nack (in_handled st) = List.map_filter nack_of taken"
    and order: "in_order events (in_handled st)" and bound: "length (in_queue st) \<le> 2 * ack_workers (ie_settings E)"
    using assms(2) by (auto simp: inbound_inv_def)
  from assms(1) show ?thesis
  proof cases
    case (queued d rest call a w)
    then show ?thesis using taken order unfolding inbound_inv_def
      by (intro conjI exI [of _ "taken @ [AckEvent d]"]) (auto simp: List.map_filter_simps)
  next
    case (settled d)
    then obtain out where st': "st' = note_result (HandledAck d) out (st\<lparr>in_queue := remove1 d (in_queue st)\<rparr>)"
      by (auto simp: settle_queued_def)
    have "in_order events (in_handled st @ [HandledAck d])" using order by (rule in_order_append) simp
    moreover have "mset (List.map_filter handled_ack (in_handled st @ [HandledAck d])) + mset (remove1 d (in_queue st)) = mset (List.map_filter ack_of taken)"
      unfolding taken(2) [symmetric] using settled(2) by (simp add: List.map_filter_simps)
    ultimately show ?thesis using taken(1,3) bound unfolding inbound_inv_def st' note_result_def
      by (intro conjI exI [of _ taken]) (auto simp: List.map_filter_simps length_remove1)
  next
    case (refused d reason retryable rest call a w)
    then obtain out where st': "st' = note_result (HandledNack d) out (st\<lparr>in_events := rest, in_world := w\<rparr>)"
      by (auto simp: refuse_delivery_def)
    have "settled_before events (in_handled st) d"
      using taken refused unfolding settled_before_def by fastforce
    then have "in_order events (in_handled st @ [HandledNack d])" using order by (intro in_order_append) simp_all
    then show ?thesis using taken bound refused unfolding inbound_inv_def st' note_result_def
      by (intro conjI exI [of _ "taken @ [NackEvent d reason retryable]"]) (auto simp: List.map_filter_simps)
  next
    case (unexpected ev rest call a w)
    then show ?thesis using taken order bound unfolding inbound_inv_def
      by (intro conjI exI [of _ "taken @ [ev]"]) (auto simp: List.map_filter_simps)
  qed (use assms(2) in \<open>simp_all add: inbound_inv_def\<close>)
qed

lemma inbound_reach_inv: "inbound_reach E events w st \<Longrightarrow> inbound_inv E events st"
proof (induction rule: inbound_reach.induct)
  case opened
  then show ?case by (simp add: inbound_inv_def in_order_def List.map_filter_simps)
next
  case (stepped st st')
  then show ?case using inbound_step_inv by blast
qed

text \<open>
  Acknowledgements are settled concurrently, but a refusal is handled in its place: in
  every interleaving of the reader and the workers, when a refusal was handled, exactly the
  acknowledgements and refusals that the client had sent before it had been handled, each of
  them once; and never more than 64 acknowledgements wait.
\<close>

theorem refusals_in_order:
  assumes "inbound_reach E events w st"
  shows "length (in_queue st) \<le> 64 \<and>
    (\<forall>n < length (in_handled st). \<forall>d. in_handled st ! n = HandledNack d \<longrightarrow> settled_before events (take n (in_handled st)) d)"
proof -
  have "ack_workers (ie_settings E) \<le> 32" by (simp add: ack_workers_def)
  then show ?thesis using inbound_reach_inv [OF assms] by (auto simp: inbound_inv_def in_order_def)
qed

text \<open>A client that sends an acknowledgement and a refusal, neither of which its session knows.\<close>

definition example_inbound :: "keyspace inbound_env" where
  "example_inbound = \<lparr>ie_server = example_server,
     ie_settings = \<lparr>set_agents = [], reclaim_idle_ms = 1, reclaim_batch_size = 1, max_in_flight = 4, max_delivery_attempts = 1,
       set_session_lease = example_settings, broker_id = None\<rparr>,
     ie_router = po_router example_pipeline, ie_breaker = None, ie_stamp = ''s'', ie_agent = ''a'', ie_instance = ''i''\<rparr>"

definition unsent :: "keyspace inbound" where
  "unsent = \<lparr>in_events = [NackEvent ''d'' ''r'' True], in_queue = [], in_handled = [], in_world = (asking_gateway, example_broker), in_errors = [], in_end = None\<rparr>"

lemma refused_once:
  "\<exists>st. inbound_reach example_inbound [NackEvent ''d'' ''r'' True] (asking_gateway, example_broker) st \<and> in_handled st = [HandledNack ''d'']"
proof -
  have call: "agent_id_or_abort (ie_server example_inbound) known_caller (in_world unsent) = Some (Answer ''a'', in_world unsent)"
    by (simp add: agent_id_or_abort_def known_identity)
  have "get_lease ''a'' ''i'' (asking_storage, example_broker) = (Inl session_not_connected, (asking_storage, example_broker))"
    by (simp add: get_lease_def get_session_def io_simps example_broker_def)
  then obtain st where st: "refuse_delivery example_inbound ''d'' ''r'' True (unsent\<lparr>in_events := [], in_world := in_world unsent\<rparr>) = Some st"
    by (simp add: refuse_delivery_def on_broker_def handle_nack_def settle_nack_def io_simps then_circuit_def unsent_def example_inbound_def asking_gateway_def)
  have "inbound_step example_inbound unsent st"
    by (rule inbound_step.refused [OF _ _ _ call _ st]) (simp_all add: unsent_def)
  moreover have "inbound_reach example_inbound [NackEvent ''d'' ''r'' True] (asking_gateway, example_broker) unsent"
    unfolding unsent_def by (rule inbound_reach.opened)
  moreover have "in_handled st = [HandledNack ''d'']" using st by (auto simp: refuse_delivery_def note_result_def unsent_def)
  ultimately show ?thesis using inbound_reach.stepped by blast
qed

theorem refusals_in_order_witness:
  "\<exists>st. inbound_reach example_inbound [NackEvent ''d'' ''r'' True] (asking_gateway, example_broker) st \<and>
     settled_before [NackEvent ''d'' ''r'' True] [] ''d''"
proof -
  obtain st where st: "inbound_reach example_inbound [NackEvent ''d'' ''r'' True] (asking_gateway, example_broker) st" "in_handled st = [HandledNack ''d'']"
    using refused_once by blast
  from refusals_in_order [OF st(1)] st show ?thesis by auto
qed

section \<open>No session outlives its stream\<close>

lemma disconnect_gone: "map_of (br_sessions (snd (snd (disconnect R a i w)))) (a, i) = None"
proof -
  have pop: "map_of (dict_pop (a, i) ss) (a, i) = None" for ss :: session_table
    by (auto simp: dict_pop_def map_of_eq_None_iff)
  have "snd (snd (finish_owned R l w)) = snd w" for l and w :: "'a world"
    by (simp add: finish_owned_def catchio_def on_server_def split: prod.splits sum.splits)
  moreover have "snd (snd (on_server m w)) = snd w" for m :: "('a, unit) io" and w :: "'a world"
    by (simp add: on_server_def split: prod.splits)
  ultimately show ?thesis using pop
    by (auto simp: disconnect_def Let_def io_simps get_broker_def set_sessions_def split: option.splits sum.splits)
qed

lemma agent_id_cases:
  assumes "agent_id_or_abort S call w = Some (r, w')"
  obtains (known) agent where "spiffe_agent_id (Some (rc_verdict call)) (rc_auth call) = Inr agent" "r = Answer agent" "w' = w"
    | (unknown) st msg where "denied S call st msg w = Some (r, w')"
    | (broken) e where "r = Crash e" "w' = w"
proof (cases "spiffe_agent_id (Some (rc_verdict call)) (rc_auth call)")
  case (Inl e)
  show ?thesis
  proof (cases "\<exists>st msg. e = RpcError st msg")
    case True
    then show ?thesis using assms Inl agent_id_denied [of call _ _ S w] unknown by metis
  next
    case False
    then show ?thesis using assms Inl broken [of e] by (cases e) (auto simp: agent_id_or_abort_def)
  qed
qed (use assms known in \<open>auto simp: agent_id_or_abort_def\<close>)

lemma denied_frame: "denied S call st msg (g, b) = Some (r, w') \<Longrightarrow> snd w' = b \<and> (\<forall>x. r \<noteq> Answer x)"
  by (auto simp: denied_def split: option.splits sum.splits prod.splits if_splits)

lemma agent_id_sessions: "agent_id_or_abort S call (g, b) = Some (r, w') \<Longrightarrow> snd w' = b"
  by (erule agent_id_cases) (auto dest: denied_frame)

lemma agent_id_Answer:
  assumes "agent_id_or_abort S call w = Some (Answer agent, w')"
  shows "spiffe_agent_id (Some (rc_verdict call)) (rc_auth call) = Inr agent \<and> w' = w"
  using assms
proof (cases rule: agent_id_cases)
  case unknown
  then show ?thesis using denied_frame [of S call _ _ "fst w" "snd w"] by fastforce
qed simp_all

lemma write_turn_authentic:
  assumes "write_turn S t s w = Some (Inr (ev, s'), w')"
  shows "(\<exists>agent. spiffe_agent_id (Some (rc_verdict (tt_call t))) (rc_auth (tt_call t)) = Inr agent) \<and> lease_live (tt_clock t) (ses_lease s')"
  using assms agent_id_Answer
  by (fastforce simp: write_turn_def Let_def split: sum.splits prod.splits option.splits rpc_result.splits if_splits)

definition authentic_turn :: "server_event \<Rightarrow> 'db transport_turn \<Rightarrow> bool" where
  "authentic_turn ev t \<longleftrightarrow> (\<exists>d agent. ev = DeliveryEvent d \<and> spiffe_agent_id (Some (rc_verdict (tt_call t))) (rc_auth (tt_call t)) = Inr agent)"

lemma write_loop_authentic:
  "write_loop S turns s w = Some (out, evs, w') \<Longrightarrow> length evs \<le> length turns \<and> list_all2 authentic_turn evs (take (length evs) turns)"
proof (induction turns arbitrary: s w evs)
  case (Cons t ts)
  obtain r w1 where turn: "write_turn S t (tt_others t s) (tt_world t w) = Some (r, w1)" using Cons.prems by (auto split: option.splits)
  show ?case
  proof (cases r)
    case (Inl out')
    then show ?thesis using Cons.prems turn by simp
  next
    case (Inr taken)
    obtain ev s' where taken: "taken = (ev, s')" by (metis prod.exhaust)
    obtain rest where rest: "write_loop S ts s' w1 = Some (out, rest, w')" "evs = DeliveryEvent ev # rest"
      using Cons.prems turn Inr taken by auto
    have "authentic_turn (DeliveryEvent ev) t" using write_turn_authentic turn Inr taken unfolding authentic_turn_def by blast
    then show ?thesis using Cons.IH [OF rest(1)] rest(2) by simp
  qed
qed simp

text \<open>
  C30. A stream cleans up after itself and writes to authenticated callers only: if it never
  welcomed the client, the sessions of the broker are the ones before it; if it did, then,
  however it ended, its session is no longer among them, and each delivery was written in a
  turn in which the certificate of the connection gave an identity again.
\<close>

theorem stream_leaves_no_session:
  assumes "Transport S sc turns first (g, b) = Some (r, evs, (g', b'))"
  shows "evs = [] \<and> br_sessions b' = br_sessions b \<or>
    (\<exists>agent inst deliveries. first = Some (HelloEvent inst) \<and> spiffe_agent_id (Some (rc_verdict (sc_call sc))) (rc_auth (sc_call sc)) = Inr agent \<and>
       evs = WelcomeEvent agent inst # deliveries \<and> map_of (br_sessions b') (agent, inst) = None \<and>
       length deliveries \<le> length turns \<and> list_all2 authentic_turn deliveries (take (length deliveries) turns))"
proof (cases evs)
  case Nil
  obtain r1 w1 where auth: "agent_id_or_abort S (sc_call sc) (g, b) = Some (r1, w1)" using assms by (auto simp: Transport_def split: option.splits)
  have b: "snd w1 = b" using agent_id_sessions [OF auth] .
  have "br_sessions b' = br_sessions b"
  proof (cases "\<exists>agent inst. r1 = Answer agent \<and> first = Some (HelloEvent inst)")
    case True
    then obtain agent inst where known: "r1 = Answer agent" "first = Some (HelloEvent inst)" by blast
    obtain e where failed: "connect_session S sc agent inst w1 = Some (Inl e, (g', b'))"
      using assms auth known Nil by (auto simp: Transport_def run_stream_def split: option.splits sum.splits prod.splits)
    show ?thesis
    proof (cases "sc_running sc")
      case True
      obtain w0 where "connect (ms_redis S) (sc_factory_error sc) (sc_requested sc) (sc_confirmed sc) (sc_uuid sc) agent inst (gw_db (fst w1), snd w1) = (Inl e, w0)"
          "snd w0 = b'"
        using failed True by (auto simp: connect_session_def on_sessions_def split: prod.splits)
      then show ?thesis using connect_failure_keeps_sessions [of "ms_redis S" "sc_factory_error sc" "sc_requested sc" "sc_confirmed sc" "sc_uuid sc" agent inst "(gw_db (fst w1), snd w1)" e] b
        by simp
    qed (use failed b in \<open>simp add: connect_session_def\<close>)
  next
    case False
    then have "w1 = (g', b')" using assms auth
      by (cases r1) (auto simp: Transport_def split: option.splits client_event.splits)
    then show ?thesis using b by simp
  qed
  then show ?thesis using Nil by simp
next
  case (Cons ev rest)
  obtain agent inst s w1 w2 where start: "agent_id_or_abort S (sc_call sc) (g, b) = Some (Answer agent, w1)" "first = Some (HelloEvent inst)"
      "run_stream S sc turns agent inst s w2 = Some (r, evs, (g', b'))"
    using assms Cons by (auto simp: Transport_def split: option.splits sum.splits prod.splits rpc_result.splits client_event.splits)
  obtain out ds w3 where loop: "write_loop S turns s w2 = Some (out, ds, w3)" "evs = WelcomeEvent agent inst # ds"
      "b' = snd (snd (disconnect (ms_redis S) agent inst (gw_db (fst w3), snd w3)))"
    using start(3) by (auto simp: run_stream_def on_sessions_def split: option.splits prod.splits)
  then show ?thesis using agent_id_Answer [OF start(1)] start(2) write_loop_authentic [OF loop(1)] disconnect_gone by metis
qed

definition example_stream :: "keyspace stream_call" where
  "example_stream = \<lparr>sc_call = known_caller, sc_running = True, sc_requested = 0, sc_confirmed = 0, sc_uuid = ''u'', sc_factory_error = None,
     sc_context_done = False\<rparr>"

theorem stream_leaves_no_session_witness:
  "\<exists>r g' b'. Transport example_server example_stream [] (Some (HelloEvent ''i'')) (put_db (fresh_keyspace 0) example_gateway, example_broker) =
     Some (r, [WelcomeEvent ''a'' ''i''], (g', b')) \<and> map_of (br_sessions b') (''a'', ''i'') = None"
proof -
  let ?w = "(put_db (fresh_keyspace 0) example_gateway, example_broker)"
  obtain s w1 where "connect ks_redis None 0 0 ''u'' ''a'' ''i'' (fresh_keyspace 0, example_broker) = (Inr s, w1)" using example_connect by blast
  then have con: "connect_session example_server example_stream ''a'' ''i'' ?w = Some (Inr s, (put_db (fst w1) (fst ?w), snd w1))"
    by (simp add: connect_session_def example_stream_def example_server_def on_sessions_apply)
  have auth: "agent_id_or_abort example_server (sc_call example_stream) ?w = Some (Answer ''a'', ?w)"
    by (simp add: agent_id_or_abort_def example_stream_def known_identity)
  obtain r g' b' where run: "Transport example_server example_stream [] (Some (HelloEvent ''i'')) ?w = Some (r, [WelcomeEvent ''a'' ''i''], (g', b'))"
    by (simp add: Transport_def auth con run_stream_def on_sessions_apply)
  from stream_leaves_no_session [OF run] run show ?thesis by auto
qed

end
