(* ===== verification/Agent_Handlers.thy ===== *)
theory Agent_Handlers
  imports Transport "HOL-Library.AList"
begin

text \<open>
  \<open>packages/mas-agent/src/mas_agent/handlers.py\<close>: the registry of the handlers of an agent
  class and the dispatch of a message. A function is a number; the registrations that the
  decorator attached to functions are a dictionary, and a class is given by the attributes of
  the classes of its method resolution order. The run of a handler and the validation of a
  payload are parameters.
\<close>

section \<open>Registration\<close>

record 'm handler_spec =
  hs_fn :: nat
  hs_model :: "'m option"

type_synonym 'm handlers = "(string \<times> 'm handler_spec) list"
type_synonym 'm decorated = "(nat \<times> (string \<times> 'm option) list) list"

text \<open>
  \<open>on\<close>: a method, whose qualified name has a dot, is remembered until its class is complete; any
  other callable goes into the registry at once.
\<close>

definition on_decorator :: "string \<Rightarrow> 'm option \<Rightarrow> nat \<Rightarrow> string option \<Rightarrow> 'm handlers \<times> 'm decorated \<Rightarrow> 'm handlers \<times> 'm decorated" where
  "on_decorator kind model fn qualname st =
     (case qualname of
        None \<Rightarrow> (AList.update kind \<lparr>hs_fn = fn, hs_model = model\<rparr> (fst st), snd st)
      | Some q \<Rightarrow>
          if CHR ''.'' \<in> set q
          then (fst st, AList.update fn ((case map_of (snd st) fn of None \<Rightarrow> [] | Some markers \<Rightarrow> markers) @ [(kind, model)]) (snd st))
          else (AList.update kind \<lparr>hs_fn = fn, hs_model = model\<rparr> (fst st), snd st))"

text \<open>An attribute is a function or something else; \<open>getattr\<close> finds it in the first class that has it.\<close>

type_synonym class_vars = "(string \<times> nat option) list"

definition get_attr :: "class_vars list \<Rightarrow> string \<Rightarrow> nat option" where
  "get_attr mro name = Option.bind (map_of (concat mro) name) id"

definition owner_markers :: "'m decorated \<Rightarrow> class_vars list \<Rightarrow> class_vars \<Rightarrow> (string \<times> 'm handler_spec) list" where
  "owner_markers dec mro owner =
     concat (map (\<lambda>(name, _). case get_attr mro name of
         None \<Rightarrow> []
       | Some fn \<Rightarrow> map (\<lambda>(kind, model). (kind, \<lparr>hs_fn = fn, hs_model = model\<rparr>)) (case map_of dec fn of None \<Rightarrow> [] | Some markers \<Rightarrow> markers)) owner)"

definition init_subclass :: "'m decorated \<Rightarrow> class_vars list \<Rightarrow> 'm handlers \<Rightarrow> 'm handlers" where
  "init_subclass dec mro inherited =
     fold (\<lambda>(kind, spec). AList.update kind spec) (concat (map (owner_markers dec mro) (rev mro)))
       (filter (\<lambda>(kind, spec). map_of dec (hs_fn spec) = None) inherited)"

lemma map_of_fold_update: "map_of (fold (\<lambda>(k, v). AList.update k v) us xs) k = (map_of xs ++ map_of (rev us)) k"
proof (induction us arbitrary: xs)
  case (Cons u us)
  then show ?case by (cases u) (simp add: update_conv' map_add_def split: option.split)
qed simp

lemma map_of_concat_first:
  "map_of (concat xss) k = (case find (\<lambda>xs. map_of xs k \<noteq> None) xss of None \<Rightarrow> None | Some xs \<Rightarrow> map_of xs k)"
  by (induction xss) (auto simp: map_add_def split: option.splits)

lemma find_map: "find P (map f xs) = map_option f (find (P \<circ> f) xs)"
  by (induction xs) simp_all

text \<open>
  The most derived class wins: the handler of a kind of message is the last one that the first
  class of the resolution order registers for it, whatever the names of the methods; only if
  no class registers one, a handler that was registered directly is inherited.
\<close>

theorem most_derived_handler:
  "map_of (init_subclass dec mro inherited) kind =
     (case find (\<lambda>owner. map_of (owner_markers dec mro owner) kind \<noteq> None) mro of
        None \<Rightarrow> map_of (filter (\<lambda>(kind, spec). map_of dec (hs_fn spec) = None) inherited) kind
      | Some owner \<Rightarrow> map_of (rev (owner_markers dec mro owner)) kind)"
proof -
  let ?F = "owner_markers dec mro"
  define found where "found = find (\<lambda>owner. map_of (?F owner) kind \<noteq> None) mro"
  have "rev (concat (map ?F (rev mro))) = concat (map (rev \<circ> ?F) mro)" by (simp add: rev_concat rev_map)
  moreover have "find (\<lambda>xs. map_of xs kind \<noteq> None) (map (rev \<circ> ?F) mro) = map_option (rev \<circ> ?F) found"
    unfolding found_def by (simp only: find_map comp_def map_of_eq_None_iff set_rev)
  ultimately have look: "map_of (init_subclass dec mro inherited) kind =
      (case (case map_option (rev \<circ> ?F) found of None \<Rightarrow> None | Some xs \<Rightarrow> map_of xs kind) of
         None \<Rightarrow> map_of (filter (\<lambda>(kind, spec). map_of dec (hs_fn spec) = None) inherited) kind | Some spec \<Rightarrow> Some spec)"
    by (simp only: init_subclass_def map_of_fold_update map_add_def map_of_concat_first)
  have "\<exists>spec. map_of (rev (?F owner)) kind = Some spec" if "found = Some owner" for owner
  proof -
    have "map_of (?F owner) kind \<noteq> None" using that unfolding found_def find_Some_iff by blast
    then show ?thesis by (metis map_of_eq_None_iff option.exhaust set_rev)
  qed
  then show ?thesis unfolding look found_def [symmetric] by (cases found) auto
qed

section \<open>Dispatch\<close>

text \<open>What a handler or a model may raise: the errors that the transport tells apart, or any other class.\<close>

datatype raised = InvalidPayloadError | PydanticError | Raised string

fun error_name :: "raised \<Rightarrow> string" where
  "error_name InvalidPayloadError = ''InvalidPayloadError''"
| "error_name PydanticError = ''ValidationError''"
| "error_name (Raised name) = name"

record ('m, 'p) handler_world =
  hw_validate :: "'m \<Rightarrow> (string \<times> json) list \<Rightarrow> raised + 'p"
  hw_call :: "nat \<Rightarrow> envelope \<Rightarrow> 'p option \<Rightarrow> raised + unit"
  hw_on_message :: "envelope \<Rightarrow> raised + unit"

definition dispatch_typed :: "('m, 'p) handler_world \<Rightarrow> 'm handlers \<Rightarrow> envelope \<Rightarrow> raised + bool" where
  "dispatch_typed H registry msg =
     (case map_of registry (message_type msg) of
        None \<Rightarrow> Inr False
      | Some spec \<Rightarrow>
          (case hs_model spec of
             None \<Rightarrow> map_sum id (\<lambda>_. True) (hw_call H (hs_fn spec) msg None)
           | Some model \<Rightarrow>
               (case hw_validate H model (env_data msg) of
                  Inl e \<Rightarrow> Inl (if e = PydanticError then InvalidPayloadError else e)
                | Inr payload \<Rightarrow> map_sum id (\<lambda>_. True) (hw_call H (hs_fn spec) msg (Some payload)))))"

end
