(* ===== verification/Agent_Replies.thy ===== *)
theory Agent_Replies
  imports Agent_Handlers
begin

text \<open>
  \<open>packages/mas-agent/src/mas_agent/_core.py\<close>, \<open>transport.py\<close> and \<open>messaging.py\<close>: the replies that an
  agent awaits. Requests and deliveries race, so a reply may come before its request is
  registered; the events of the client are the steps of a relation, and the clock, the
  correlations that the broker gives out and the handlers are arguments of the steps.
\<close>

section \<open>Early replies\<close>

record early_replies =
  er_max_entries :: nat
  er_ttl_seconds :: real
  er_items :: "(string \<times> envelope \<times> real) list"

definition new_early_replies :: early_replies where
  "new_early_replies = \<lparr>er_max_entries = 1024, er_ttl_seconds = 30, er_items = []\<rparr>"

fun er_prune :: "real \<Rightarrow> (string \<times> 'a \<times> real) list \<Rightarrow> (string \<times> 'a \<times> real) list" where
  "er_prune now [] = []"
| "er_prune now ((cid, msg, deadline) # items) = (if now \<le> deadline then (cid, msg, deadline) # items else er_prune now items)"

definition item_to_end :: "'k \<Rightarrow> ('k \<times> 'v) list \<Rightarrow> ('k \<times> 'v) list" where
  "item_to_end k items = (case map_of items k of None \<Rightarrow> items | Some v \<Rightarrow> AList.delete k items @ [(k, v)])"

fun pop_oldest :: "nat \<Rightarrow> 'a list \<Rightarrow> 'a list" where
  "pop_oldest n [] = []"
| "pop_oldest n (x # xs) = (if n < length (x # xs) then pop_oldest n xs else x # xs)"

definition er_put :: "string \<Rightarrow> envelope \<Rightarrow> real \<Rightarrow> early_replies \<Rightarrow> early_replies" where
  "er_put cid msg now er =
     er\<lparr>er_items := pop_oldest (er_max_entries er)
       (item_to_end cid (AList.update cid (msg, now + er_ttl_seconds er) (er_prune now (er_items er))))\<rparr>"

definition er_pop :: "string \<Rightarrow> real \<Rightarrow> bool \<Rightarrow> early_replies \<Rightarrow> envelope option \<times> early_replies" where
  "er_pop cid now expire er =
     (case map_of (er_items er) cid of
        None \<Rightarrow> (None, er)
      | Some (msg, deadline) \<Rightarrow> (if expire \<and> deadline < now then None else Some msg, er\<lparr>er_items := AList.delete cid (er_items er)\<rparr>))"

definition er_contains :: "string \<Rightarrow> real \<Rightarrow> early_replies \<Rightarrow> bool" where
  "er_contains cid now er \<longleftrightarrow> (case map_of (er_items er) cid of None \<Rightarrow> False | Some (msg, deadline) \<Rightarrow> now \<le> deadline)"

definition er_clear :: "early_replies \<Rightarrow> early_replies" where
  "er_clear er = er\<lparr>er_items := []\<rparr>"

text \<open>What the buffer relies on: one entry for each correlation, and deadlines in the order of insertion.\<close>

definition er_ok :: "real \<Rightarrow> early_replies \<Rightarrow> bool" where
  "er_ok now er \<longleftrightarrow> distinct (map fst (er_items er)) \<and> sorted_wrt (\<le>) (map (snd \<circ> snd) (er_items er)) \<and>
     (\<forall>item \<in> set (er_items er). snd (snd item) \<le> now + er_ttl_seconds er) \<and> length (er_items er) \<le> er_max_entries er"

lemma pop_oldest_drop: "pop_oldest n xs = drop (length xs - n) xs"
  by (induction xs) (auto simp: Suc_diff_le)

lemma er_prune_filter:
  "sorted_wrt (\<le>) (map (snd \<circ> snd) items) \<Longrightarrow> er_prune now items = filter (\<lambda>item. now \<le> snd (snd item)) items"
proof (induction now items rule: er_prune.induct)
  case (2 now cid msg deadline items)
  show ?case
  proof (cases "now \<le> deadline")
    case True
    have "\<forall>item \<in> set items. now \<le> snd (snd item)" using 2(2) True by force
    then show ?thesis using True by (simp add: filter_id_conv)
  qed (use 2 in simp)
qed simp

lemma move_updated: "distinct (map fst items) \<Longrightarrow> item_to_end k (AList.update k v items) = AList.delete k items @ [(k, v)]"
  by (simp add: item_to_end_def update_conv' delete_update_same)

lemma delete_filter: "AList.delete k items = filter (\<lambda>item. fst item \<noteq> k) items"
  by (induction items) simp_all

lemma er_put_items:
  assumes "er_ok before er"
  shows "er_items (er_put cid msg now er) = (let kept = filter (\<lambda>item. now \<le> snd (snd item) \<and> fst item \<noteq> cid) (er_items er) in
     drop (Suc (length kept) - er_max_entries er) (kept @ [(cid, msg, now + er_ttl_seconds er)]))"
proof -
  have pruned: "er_prune now (er_items er) = filter (\<lambda>item. now \<le> snd (snd item)) (er_items er)"
    using assms by (intro er_prune_filter) (simp add: er_ok_def)
  have "distinct (map fst (er_prune now (er_items er)))" using assms unfolding pruned by (simp add: er_ok_def distinct_map_filter)
  from move_updated [OF this, of cid "(msg, now + er_ttl_seconds er)"] show ?thesis
    by (simp add: er_put_def pruned pop_oldest_drop delete_filter conj_commute Let_def)
qed

lemma er_put_ok:
  assumes "er_ok before er" and "before \<le> now" and "0 \<le> er_ttl_seconds er"
  shows "er_ok now (er_put cid msg now er)"
proof -
  let ?kept = "filter (\<lambda>item. now \<le> snd (snd item) \<and> fst item \<noteq> cid) (er_items er)"
  let ?all = "?kept @ [(cid, msg, now + er_ttl_seconds er)]"
  have le: "\<forall>item \<in> set ?all. snd (snd item) \<le> now + er_ttl_seconds er" using assms by (force simp: er_ok_def)
  have ordered: "sorted_wrt (\<le>) (map (snd \<circ> snd) ?all)"
    using assms(1) le by (auto simp: er_ok_def sorted_wrt_append sorted_wrt_map sorted_wrt_filter)
  have keys: "distinct (map fst ?all)" using assms(1) by (auto simp: er_ok_def distinct_map_filter)
  define n where "n = Suc (length ?kept) - er_max_entries er"
  have items: "er_items (er_put cid msg now er) = drop n ?all" using er_put_items [OF assms(1)] by (simp add: Let_def n_def)
  have same: "er_ttl_seconds (er_put cid msg now er) = er_ttl_seconds er" "er_max_entries (er_put cid msg now er) = er_max_entries er"
    by (simp_all add: er_put_def)
  have "length (drop n ?all) \<le> er_max_entries er" by (simp add: n_def)
  moreover have "sorted_wrt (\<le>) (map (snd \<circ> snd) (drop n ?all))" using sorted_wrt_drop [OF ordered, of n] by (simp only: drop_map)
  moreover have "distinct (map fst (drop n ?all))" using distinct_drop [OF keys, of n] by (simp only: drop_map)
  moreover have "\<forall>item \<in> set (drop n ?all). snd (snd item) \<le> now + er_ttl_seconds er" using le in_set_dropD [of _ n ?all] by blast
  ultimately show ?thesis unfolding er_ok_def items same by blast
qed

lemma er_pop_ok: "er_ok now er \<Longrightarrow> er_ok now (snd (er_pop cid t expire er))"
  by (auto simp: er_ok_def er_pop_def delete_filter distinct_map_filter sorted_wrt_map sorted_wrt_filter le_trans [OF length_filter_le] split: option.splits)

section \<open>The client of a stream\<close>

text \<open>A future, with the request that made it.\<close>

datatype future_state = FutWaiting | FutResult envelope | FutError err | FutCancelled

record reply_future =
  rf_correlation :: string
  rf_target :: string
  rf_state :: future_state

record pending_reply =
  pr_future :: nat
  pr_target :: string

record agent_link =
  al_running :: bool
  al_ready :: bool
  al_retry_delay :: real
  al_pending :: "(string \<times> pending_reply) list"
  al_futures :: "nat \<rightharpoonup> reply_future"
  al_early :: early_replies
  al_outgoing :: "client_event list"
  al_putting :: "client_event list"
  al_handlers :: "(string \<times> envelope) list"

definition outgoing_bound :: nat where
  "outgoing_bound = 2000"

text \<open>\<open>set_result\<close>, \<open>set_exception\<close> and \<open>cancel\<close>, each guarded by \<open>not future.done()\<close>.\<close>

definition finish_future :: "nat \<Rightarrow> future_state \<Rightarrow> agent_link \<Rightarrow> agent_link" where
  "finish_future f outcome s =
     (case al_futures s f of
        Some fut \<Rightarrow> if rf_state fut = FutWaiting then s\<lparr>al_futures := (al_futures s)(f \<mapsto> fut\<lparr>rf_state := outcome\<rparr>)\<rparr> else s
      | None \<Rightarrow> s)"

definition fail_pending_requests :: "string \<Rightarrow> agent_link \<Rightarrow> agent_link" where
  "fail_pending_requests reason s =
     (fold (\<lambda>pending. finish_future (pr_future pending) (FutError (OSError reason))) (map snd (al_pending s)) s)\<lparr>al_pending := []\<rparr>"

definition reply_authorized :: "envelope \<Rightarrow> string \<Rightarrow> bool" where
  "reply_authorized reply expected_sender \<longleftrightarrow> sender_id reply = expected_sender"

text \<open>\<open>Queue.put\<close>: a full queue keeps the writer waiting, and a waiting writer goes on once there is room.\<close>

definition put_event :: "client_event \<Rightarrow> agent_link \<Rightarrow> agent_link" where
  "put_event ev s =
     (if length (al_outgoing s) < outgoing_bound then s\<lparr>al_outgoing := al_outgoing s @ [ev]\<rparr> else s\<lparr>al_putting := al_putting s @ [ev]\<rparr>)"

definition put_waiting :: "nat \<Rightarrow> agent_link \<Rightarrow> agent_link" where
  "put_waiting k s =
     (if length (al_outgoing s) < outgoing_bound \<and> k < length (al_putting s)
      then s\<lparr>al_outgoing := al_outgoing s @ [al_putting s ! k], al_putting := take k (al_putting s) @ drop (Suc k) (al_putting s)\<rparr> else s)"

definition send_ack :: "string \<Rightarrow> agent_link \<Rightarrow> agent_link" where
  "send_ack delivery_id = put_event (AckEvent delivery_id)"

definition send_nack :: "string \<Rightarrow> string \<Rightarrow> bool \<Rightarrow> agent_link \<Rightarrow> agent_link" where
  "send_nack delivery_id reason retryable = put_event (NackEvent delivery_id reason retryable)"

definition is_answer :: "envelope \<Rightarrow> bool" where
  "is_answer msg \<longleftrightarrow> is_reply (env_meta msg) \<and> \<not> absent (correlation_id (env_meta msg))"

definition accept_reply :: "real \<Rightarrow> envelope \<Rightarrow> agent_link \<Rightarrow> agent_link" where
  "accept_reply now msg s =
     (let cid = or_empty (correlation_id (env_meta msg)) in
      case map_of (al_pending s) cid of
        Some pending \<Rightarrow>
          if reply_authorized msg (pr_target pending)
          then finish_future (pr_future pending) (FutResult msg) (s\<lparr>al_pending := AList.delete cid (al_pending s)\<rparr>) else s
      | None \<Rightarrow> s\<lparr>al_early := er_put cid msg now (al_early s)\<rparr>)"

definition handle_delivery :: "wire \<Rightarrow> real \<Rightarrow> string \<Rightarrow> string \<Rightarrow> agent_link \<Rightarrow> agent_link" where
  "handle_delivery W now delivery_id envelope_json s =
     (case load_envelope W envelope_json of
        None \<Rightarrow> send_nack delivery_id ''invalid_envelope:ValidationError'' False s
      | Some msg \<Rightarrow>
          if is_answer msg then send_ack delivery_id (accept_reply now msg s)
          else s\<lparr>al_handlers := al_handlers s @ [(delivery_id, msg)]\<rparr>)"

text \<open>The task of a handler, at the end of the call.\<close>

definition handle_message :: "('m, 'p) handler_world \<Rightarrow> 'm handlers \<Rightarrow> envelope \<Rightarrow> raised + unit" where
  "handle_message H registry msg =
     (case dispatch_typed H registry msg of Inl e \<Rightarrow> Inl e | Inr dispatched \<Rightarrow> if dispatched then Inr () else hw_on_message H msg)"

definition settle_handler :: "string \<Rightarrow> envelope \<Rightarrow> raised + unit \<Rightarrow> agent_link \<Rightarrow> agent_link" where
  "settle_handler delivery_id msg outcome s =
     (let s' = s\<lparr>al_handlers := remove1 (delivery_id, msg) (al_handlers s)\<rparr> in
      case outcome of
        Inr _ \<Rightarrow> send_ack delivery_id s'
      | Inl e \<Rightarrow> send_nack delivery_id (''handler_error:'' @ error_name e) (e \<noteq> InvalidPayloadError) s')"

definition handle_message_and_ack :: "('m, 'p) handler_world \<Rightarrow> 'm handlers \<Rightarrow> string \<Rightarrow> envelope \<Rightarrow> agent_link \<Rightarrow> agent_link" where
  "handle_message_and_ack H registry delivery_id msg = settle_handler delivery_id msg (handle_message H registry msg)"

text \<open>
  \<open>request\<close>: the timeout (\<open>None\<close> if absent, \<open>Some None\<close> if not finite), what follows the answer of
  the broker, and the end of the wait. Its result is that of the future; a timeout cancels it.
\<close>

definition request_timeout :: "real option option \<Rightarrow> err + real \<times> int" where
  "request_timeout timeout =
     (let effective = (case timeout of None \<Rightarrow> Some 60 | Some t \<Rightarrow> t) in
      case effective of
        None \<Rightarrow> Inl (ValueError ''request timeout must be finite and greater than 0'')
      | Some t \<Rightarrow>
          if t \<le> 0 then Inl (ValueError ''request timeout must be finite and greater than 0'')
          else let timeout_ms = \<lceil>t * 1000\<rceil> in
            if timeout_ms > 2147483647 then Inl (ValueError ''request timeout exceeds the protocol limit'') else Inr (t, timeout_ms))"

definition register_request :: "string \<Rightarrow> string \<Rightarrow> nat \<Rightarrow> real \<Rightarrow> agent_link \<Rightarrow> agent_link" where
  "register_request cid target f now s =
     (case er_pop cid now False (al_early s) of (early, er) \<Rightarrow>
        let s' = s\<lparr>al_futures := (al_futures s)(f \<mapsto> \<lparr>rf_correlation = cid, rf_target = target, rf_state = FutWaiting\<rparr>),
                   al_pending := AList.update cid \<lparr>pr_future = f, pr_target = target\<rparr> (al_pending s), al_early := er\<rparr> in
        case early of Some msg \<Rightarrow> if reply_authorized msg target then finish_future f (FutResult msg) s' else s' | None \<Rightarrow> s')"

definition forget_request :: "string \<Rightarrow> nat \<Rightarrow> agent_link \<Rightarrow> agent_link" where
  "forget_request cid f s =
     (case map_of (al_pending s) cid of
        Some pending \<Rightarrow> if pr_future pending = f then s\<lparr>al_pending := AList.delete cid (al_pending s)\<rparr> else s
      | None \<Rightarrow> s)"

definition abandon_request :: "string \<Rightarrow> nat \<Rightarrow> agent_link \<Rightarrow> agent_link" where
  "abandon_request cid f s = forget_request cid f (finish_future f FutCancelled s)"

text \<open>The loop of the transport: a welcome, the end of a stream, and the shutdown in its two halves.\<close>

definition welcomed :: "agent_link \<Rightarrow> agent_link" where
  "welcomed s = s\<lparr>al_ready := True, al_retry_delay := 1 / 10\<rparr>"

definition drop_session_work :: "agent_link \<Rightarrow> agent_link" where
  "drop_session_work s = s\<lparr>al_handlers := [], al_putting := [], al_outgoing := []\<rparr>"

definition stream_ended :: "agent_link \<Rightarrow> agent_link" where
  "stream_ended s =
     (let s' = drop_session_work (fail_pending_requests ''Agent transport disconnected'' (s\<lparr>al_ready := False\<rparr>)) in
      if al_running s' then s'\<lparr>al_retry_delay := min (al_retry_delay s' * 2) 5\<rparr> else s')"

definition begin_shutdown :: "agent_link \<Rightarrow> agent_link" where
  "begin_shutdown s = fail_pending_requests ''Agent stopped'' (s\<lparr>al_running := False, al_ready := False\<rparr>)"

definition end_shutdown :: "agent_link \<Rightarrow> agent_link" where
  "end_shutdown s = drop_session_work (s\<lparr>al_early := er_clear (al_early s)\<rparr>)"

definition new_link :: agent_link where
  "new_link = \<lparr>al_running = True, al_ready = False, al_retry_delay = 1 / 10, al_pending = [], al_futures = Map.empty, al_early = new_early_replies,
     al_outgoing = [], al_putting = [], al_handlers = []\<rparr>"

section \<open>Runs of a client\<close>

datatype link_event =
    Delivered real string string
  | Handled string envelope "raised + unit"
  | Requested string string nat real
  | Returned string nat
  | Abandoned string nat
  | Sent
  | Proceeded nat
  | Welcomed
  | Disconnected
  | Stopping
  | Stopped

inductive link_step :: "wire \<Rightarrow> agent_link \<Rightarrow> link_event \<Rightarrow> agent_link \<Rightarrow> bool" for W where
  delivered: "link_step W s (Delivered now d text) (handle_delivery W now d text s)"
| handled: "(d, msg) \<in> set (al_handlers s) \<Longrightarrow> link_step W s (Handled d msg out) (settle_handler d msg out s)"
| requested: "al_futures s f = None \<Longrightarrow> link_step W s (Requested cid target f now) (register_request cid target f now s)"
| returned: "al_futures s f = Some fut \<Longrightarrow> rf_state fut \<noteq> FutWaiting \<Longrightarrow> link_step W s (Returned cid f) (forget_request cid f s)"
| abandoned: "link_step W s (Abandoned cid f) (abandon_request cid f s)"
| sent: "al_outgoing s = ev # rest \<Longrightarrow> link_step W s Sent (s\<lparr>al_outgoing := rest\<rparr>)"
| proceeded: "link_step W s (Proceeded k) (put_waiting k s)"
| greeted: "link_step W s Welcomed (welcomed s)"
| disconnected: "link_step W s Disconnected (stream_ended s)"
| stopping: "link_step W s Stopping (begin_shutdown s)"
| stopped: "link_step W s Stopped (end_shutdown s)"

inductive link_run :: "wire \<Rightarrow> link_event list \<Rightarrow> agent_link \<Rightarrow> bool" for W where
  start: "link_run W [] new_link"
| step: "link_run W tr s \<Longrightarrow> link_step W s ev s' \<Longrightarrow> link_run W (tr @ [ev]) s'"

lemma handled_by:
  "(d, msg) \<in> set (al_handlers s) \<Longrightarrow> link_step W s (Handled d msg (handle_message H registry msg)) (handle_message_and_ack H registry d msg s)"
  unfolding handle_message_and_ack_def by (rule link_step.handled)

subsection \<open>Futures\<close>

definition answers :: "reply_future \<Rightarrow> envelope \<Rightarrow> bool" where
  "answers fut msg \<longleftrightarrow> sender_id msg = rf_target fut \<and> is_reply (env_meta msg) \<and> correlation_id (env_meta msg) = Some (rf_correlation fut)"

definition link_ok :: "envelope set \<Rightarrow> (string \<times> string \<times> nat) set \<Rightarrow> agent_link \<Rightarrow> bool" where
  "link_ok X Y s \<longleftrightarrow>
     (\<forall>f fut msg. al_futures s f = Some fut \<longrightarrow> rf_state fut = FutResult msg \<longrightarrow> answers fut msg \<and> msg \<in> X) \<and>
     (\<forall>f fut. al_futures s f = Some fut \<longrightarrow> (rf_correlation fut, rf_target fut, f) \<in> Y) \<and>
     (\<forall>(cid, p) \<in> set (al_pending s). \<exists>fut. al_futures s (pr_future p) = Some fut \<and> rf_correlation fut = cid \<and> rf_target fut = pr_target p) \<and>
     (\<forall>(cid, msg, t) \<in> set (er_items (al_early s)). is_reply (env_meta msg) \<and> correlation_id (env_meta msg) = Some cid \<and> msg \<in> X) \<and>
     length (al_outgoing s) \<le> outgoing_bound \<and> length (er_items (al_early s)) \<le> er_max_entries (al_early s)"

lemma finish_future_sel [simp]:
  "al_pending (finish_future f x s) = al_pending s" "al_early (finish_future f x s) = al_early s" "al_outgoing (finish_future f x s) = al_outgoing s"
  "al_putting (finish_future f x s) = al_putting s" "al_handlers (finish_future f x s) = al_handlers s" "al_running (finish_future f x s) = al_running s"
  "al_retry_delay (finish_future f x s) = al_retry_delay s" "al_ready (finish_future f x s) = al_ready s"
  by (simp_all add: finish_future_def split: option.split)

lemma finish_future_ok:
  assumes "link_ok X Y s" and "\<And>fut msg. al_futures s f = Some fut \<Longrightarrow> x = FutResult msg \<Longrightarrow> answers fut msg \<and> msg \<in> X"
  shows "link_ok X Y (finish_future f x s)"
  using assms by (auto simp: link_ok_def finish_future_def answers_def split: option.splits)

lemma fold_finish_sel:
  fixes ps :: "pending_reply list" and x :: future_state
  defines "F s \<equiv> fold (\<lambda>p. finish_future (pr_future p) x) ps s"
  shows "al_pending (F s) = al_pending s" "al_early (F s) = al_early s" "al_outgoing (F s) = al_outgoing s" "al_putting (F s) = al_putting s"
    "al_handlers (F s) = al_handlers s" "al_running (F s) = al_running s" "al_retry_delay (F s) = al_retry_delay s" "al_ready (F s) = al_ready s"
  unfolding F_def by (induction ps arbitrary: s) simp_all

lemma fold_finish_ok: "link_ok X Y s \<Longrightarrow> (\<And>msg. x \<noteq> FutResult msg) \<Longrightarrow> link_ok X Y (fold (\<lambda>p. finish_future (pr_future p) x) ps s)"
proof (induction ps arbitrary: s)
  case (Cons p ps)
  have "link_ok X Y (finish_future (pr_future p) x s)" by (rule finish_future_ok) (use Cons.prems in auto)
  then show ?case using Cons by simp
qed simp

lemma link_ok_weaken:
  assumes "link_ok X Y s" and "al_futures s' = al_futures s" and "set (al_pending s') \<subseteq> set (al_pending s)" and "al_early s' = al_early s"
    and "length (al_outgoing s') \<le> outgoing_bound"
  shows "link_ok X Y s'"
  using assms(1,3,5) unfolding link_ok_def assms(2,4) by blast

lemma fail_pending_ok: "link_ok X Y s \<Longrightarrow> link_ok X Y (fail_pending_requests reason s)"
  unfolding fail_pending_requests_def
  by (rule link_ok_weaken [OF fold_finish_ok]) (auto simp: fold_finish_sel link_ok_def)

lemma put_event_ok:
  assumes "link_ok X Y s"
  shows "link_ok X Y (put_event ev s)"
  by (rule link_ok_weaken [OF assms]) (use assms in \<open>auto simp: put_event_def link_ok_def\<close>)

lemma put_waiting_ok:
  assumes "link_ok X Y s"
  shows "link_ok X Y (put_waiting k s)"
  by (rule link_ok_weaken [OF assms]) (use assms in \<open>auto simp: put_waiting_def link_ok_def\<close>)

lemma drop_work_ok: "link_ok X Y s \<Longrightarrow> link_ok X Y (drop_session_work s)"
  by (erule link_ok_weaken) (auto simp: drop_session_work_def)

lemma forget_ok:
  assumes "link_ok X Y s"
  shows "link_ok X Y (forget_request cid f s)"
  by (rule link_ok_weaken [OF assms]) (use assms in \<open>auto simp: forget_request_def link_ok_def delete_filter split: option.splits\<close>)

lemma er_put_set: "set (er_items (er_put cid msg now er)) \<subseteq> insert (cid, msg, now + er_ttl_seconds er) (set (er_items er))"
proof -
  have prune: "set (er_prune now items) \<subseteq> set items" for items :: "(string \<times> envelope \<times> real) list" by (induction now items rule: er_prune.induct) auto
  have move: "set (item_to_end k items) \<subseteq> set items" for k and items :: "(string \<times> envelope \<times> real) list"
    by (auto simp: item_to_end_def delete_filter dest: map_of_SomeD split: option.splits)
  have update: "set (AList.update k v items) \<subseteq> insert (k, v) (set items)" for k v and items :: "(string \<times> envelope \<times> real) list"
    by (induction items) auto
  have "set (er_items (er_put cid msg now er)) \<subseteq> set (AList.update cid (msg, now + er_ttl_seconds er) (er_prune now (er_items er)))"
    using move by (auto simp: er_put_def pop_oldest_drop dest: in_set_dropD)
  then show ?thesis using update prune by fastforce
qed

lemma er_put_length: "length (er_items (er_put cid msg now er)) \<le> er_max_entries (er_put cid msg now er)"
  by (simp add: er_put_def pop_oldest_drop)

lemma answer_correlation: "is_answer msg \<Longrightarrow> is_reply (env_meta msg) \<and> correlation_id (env_meta msg) = Some (or_empty (correlation_id (env_meta msg)))"
  by (auto simp: is_answer_def absent_def or_empty_def split: option.splits)

lemma accept_ok:
  assumes ok: "link_ok X Y s" and ans: "is_answer msg" and x: "msg \<in> X"
  shows "link_ok X Y (accept_reply now msg s)"
proof (cases "map_of (al_pending s) (or_empty (correlation_id (env_meta msg)))")
  case None
  then show ?thesis using ok er_put_set [of "or_empty (correlation_id (env_meta msg))" msg now "al_early s"] answer_correlation [OF ans] er_put_length x
    by (fastforce simp: link_ok_def accept_reply_def)
next
  case (Some p)
  let ?s = "s\<lparr>al_pending := AList.delete (or_empty (correlation_id (env_meta msg))) (al_pending s)\<rparr>"
  have ok': "link_ok X Y ?s" by (rule link_ok_weaken [OF ok]) (use ok in \<open>auto simp: delete_filter link_ok_def\<close>)
  have "link_ok X Y (finish_future (pr_future p) (FutResult msg) ?s)" if "reply_authorized msg (pr_target p)"
  proof (rule finish_future_ok [OF ok'])
    fix fut m assume "al_futures ?s (pr_future p) = Some fut" "FutResult msg = FutResult m"
    then show "answers fut m \<and> m \<in> X" using ok map_of_SomeD [OF Some] answer_correlation [OF ans] that x
      by (force simp: link_ok_def answers_def reply_authorized_def)
  qed
  then show ?thesis using Some ok by (simp add: accept_reply_def)
qed

lemma register_ok:
  assumes ok: "link_ok X Y s" and new: "al_futures s f = None" and y: "(cid, target, f) \<in> Y"
  shows "link_ok X Y (register_request cid target f now s)"
proof -
  obtain early er where pop: "er_pop cid now False (al_early s) = (early, er)" by (metis prod.exhaust)
  have er: "set (er_items er) \<subseteq> set (er_items (al_early s))" "er_max_entries er = er_max_entries (al_early s)" "length (er_items er) \<le> length (er_items (al_early s))"
    using pop by (auto simp: er_pop_def delete_filter split: option.splits)
  have early: "is_reply (env_meta msg) \<and> correlation_id (env_meta msg) = Some cid \<and> msg \<in> X" if "early = Some msg" for msg
    using pop that ok by (fastforce simp: er_pop_def link_ok_def dest: map_of_SomeD split: option.splits)
  let ?s = "s\<lparr>al_futures := (al_futures s)(f \<mapsto> \<lparr>rf_correlation = cid, rf_target = target, rf_state = FutWaiting\<rparr>),
     al_pending := AList.update cid \<lparr>pr_future = f, pr_target = target\<rparr> (al_pending s), al_early := er\<rparr>"
  have new_set: "set (AList.update k v ps) \<subseteq> insert (k, v) (set ps)" for k v and ps :: "(string \<times> pending_reply) list" by (induction ps) auto
  have pending: "\<exists>fut. al_futures ?s (pr_future p) = Some fut \<and> rf_correlation fut = k \<and> rf_target fut = pr_target p" if "(k, p) \<in> set (al_pending ?s)" for k p
  proof (cases "(k, p) \<in> set (al_pending s)")
    case True
    then obtain fut where "al_futures s (pr_future p) = Some fut" "rf_correlation fut = k" "rf_target fut = pr_target p" using ok by (auto simp: link_ok_def)
    then show ?thesis using new by auto
  next
    case False
    then have "k = cid" "p = \<lparr>pr_future = f, pr_target = target\<rparr>" using that new_set [of cid "\<lparr>pr_future = f, pr_target = target\<rparr>" "al_pending s"] by auto
    then show ?thesis by simp
  qed
  have futures: "\<forall>i fut msg. al_futures ?s i = Some fut \<longrightarrow> rf_state fut = FutResult msg \<longrightarrow> answers fut msg \<and> msg \<in> X" using ok by (simp add: link_ok_def)
  have "link_ok X Y ?s" unfolding link_ok_def
  proof (intro conjI)
    show "\<forall>(k, p) \<in> set (al_pending ?s). \<exists>fut. al_futures ?s (pr_future p) = Some fut \<and> rf_correlation fut = k \<and> rf_target fut = pr_target p"
      using pending by blast
  qed (use futures ok er y in \<open>auto simp: link_ok_def\<close>)
  then have "link_ok X Y (finish_future f (FutResult msg) ?s)" if "early = Some msg" "reply_authorized msg target" for msg
    using early that by (intro finish_future_ok) (auto simp: answers_def reply_authorized_def)
  then show ?thesis using \<open>link_ok X Y ?s\<close> by (simp add: register_request_def pop Let_def split: option.split)
qed

lemma handlers_ok: "link_ok X Y (s\<lparr>al_handlers := hs\<rparr>) = link_ok X Y s"
  by (simp add: link_ok_def)

lemma link_ok_mono: "link_ok X Y s \<Longrightarrow> X \<subseteq> X' \<Longrightarrow> Y \<subseteq> Y' \<Longrightarrow> link_ok X' Y' s"
  unfolding link_ok_def by fast

text \<open>What a run has delivered and requested.\<close>

definition received :: "wire \<Rightarrow> link_event list \<Rightarrow> envelope set" where
  "received W tr = {msg. \<exists>now d raw. Delivered now d raw \<in> set tr \<and> load_envelope W raw = Some msg}"

definition requests :: "link_event list \<Rightarrow> (string \<times> string \<times> nat) set" where
  "requests tr = {(cid, target, f). \<exists>now. Requested cid target f now \<in> set tr}"

lemma step_ok:
  "link_step W s ev s' \<Longrightarrow> link_ok X Y s \<Longrightarrow> received W [ev] \<subseteq> X \<Longrightarrow> requests [ev] \<subseteq> Y \<Longrightarrow> link_ok X Y s'"
proof (induction rule: link_step.induct)
  case (delivered s now d raw)
  then show ?case
    by (auto simp: handle_delivery_def send_ack_def send_nack_def put_event_ok accept_ok handlers_ok received_def split: option.split)
next
  case (handled d msg s out)
  then show ?case by (simp add: settle_handler_def send_ack_def send_nack_def put_event_ok handlers_ok Let_def split: sum.split)
next
  case (disconnected s)
  then have "link_ok X Y (drop_session_work (fail_pending_requests ''Agent transport disconnected'' (s\<lparr>al_ready := False\<rparr>)))"
    by (intro drop_work_ok fail_pending_ok) (simp add: link_ok_def)
  then show ?case by (simp add: stream_ended_def Let_def link_ok_def)
next
  case (stopping s)
  then show ?case unfolding begin_shutdown_def by (intro fail_pending_ok) (simp add: link_ok_def)
next
  case (stopped s)
  then show ?case unfolding end_shutdown_def by (intro drop_work_ok) (simp add: link_ok_def er_clear_def)
next
  case (abandoned s cid f)
  then show ?case unfolding abandon_request_def by (intro forget_ok finish_future_ok) simp_all
next
  case (sent s ev rest)
  then show ?case by (simp add: link_ok_def)
next
  case (greeted s)
  then show ?case by (simp add: link_ok_def welcomed_def)
qed (simp_all add: register_ok forget_ok put_waiting_ok requests_def)

lemma run_ok: "link_run W tr s \<Longrightarrow> link_ok (received W tr) (requests tr) s"
proof (induction rule: link_run.induct)
  case start
  show ?case by (simp add: link_ok_def new_link_def new_early_replies_def)
next
  case (step tr s ev s')
  have "link_ok (received W (tr @ [ev])) (requests (tr @ [ev])) s"
    by (rule link_ok_mono [OF step.IH]) (auto simp: received_def requests_def)
  then show ?case by (rule step_ok [OF step.hyps(2)]) (auto simp: received_def requests_def)
qed

text \<open>
  C16. A request is answered only by the agent it was sent to: in every run of a client, when the
  future of a request holds a message, that message was delivered in the run, is marked as a
  reply, carries the correlation that the broker gave to the request, and its sender is the
  target of the request, whether it came before or after the request was registered and
  whatever else was delivered; and the buffers of the client keep their bounds.
\<close>

theorem reply_comes_from_target:
  assumes "link_run W tr s"
  shows "(al_futures s f = Some fut \<and> rf_state fut = FutResult msg \<longrightarrow>
      (\<exists>cid target now t d raw. Requested cid target f now \<in> set tr \<and> Delivered t d raw \<in> set tr \<and> load_envelope W raw = Some msg \<and>
         sender_id msg = target \<and> is_reply (env_meta msg) \<and> correlation_id (env_meta msg) = Some cid)) \<and>
    length (al_outgoing s) \<le> outgoing_bound \<and> length (er_items (al_early s)) \<le> er_max_entries (al_early s)"
proof -
  note ok = run_ok [OF assms, unfolded link_ok_def]
  have "answers fut msg \<and> msg \<in> received W tr" "(rf_correlation fut, rf_target fut, f) \<in> requests tr" if "al_futures s f = Some fut" "rf_state fut = FutResult msg"
    using ok that by blast+
  then show ?thesis using ok unfolding answers_def received_def requests_def by blast
qed

subsection \<open>Acknowledgements\<close>

definition arrived :: "wire \<Rightarrow> link_event list \<Rightarrow> string \<Rightarrow> envelope option \<Rightarrow> bool" where
  "arrived W tr d m \<longleftrightarrow> (\<exists>now raw. Delivered now d raw \<in> set tr \<and> load_envelope W raw = m)"

fun justified :: "wire \<Rightarrow> link_event list \<Rightarrow> client_event \<Rightarrow> bool" where
  "justified W tr (AckEvent d) \<longleftrightarrow> (\<exists>msg. arrived W tr d (Some msg) \<and> (is_answer msg \<or> Handled d msg (Inr ()) \<in> set tr))"
| "justified W tr (NackEvent d reason retryable) \<longleftrightarrow>
     arrived W tr d None \<and> \<not> retryable \<or>
     (\<exists>msg e. arrived W tr d (Some msg) \<and> Handled d msg (Inl e) \<in> set tr \<and> retryable = (e \<noteq> InvalidPayloadError))"
| "justified W tr _ \<longleftrightarrow> False"

definition queued :: "agent_link \<Rightarrow> client_event set" where
  "queued s = set (al_outgoing s) \<union> set (al_putting s)"

definition acks_ok :: "wire \<Rightarrow> link_event list \<Rightarrow> agent_link \<Rightarrow> bool" where
  "acks_ok W tr s \<longleftrightarrow> (\<forall>ev \<in> queued s. justified W tr ev) \<and> (\<forall>(d, msg) \<in> set (al_handlers s). arrived W tr d (Some msg))"

lemma put_event_sel [simp]: "queued (put_event ev s) = insert ev (queued s)" "al_handlers (put_event ev s) = al_handlers s"
  "al_futures (put_event ev s) = al_futures s" "al_pending (put_event ev s) = al_pending s" "al_early (put_event ev s) = al_early s"
  by (auto simp: put_event_def queued_def)

lemma put_waiting_queued: "queued (put_waiting k s) \<subseteq> queued s" "al_handlers (put_waiting k s) = al_handlers s"
  by (auto simp: put_waiting_def queued_def dest: in_set_takeD in_set_dropD)

lemma queued_sel [simp]: "queued (finish_future f x s) = queued s" "queued (s\<lparr>al_pending := ps\<rparr>) = queued s" "queued (s\<lparr>al_early := er\<rparr>) = queued s"
  "queued (s\<lparr>al_handlers := hs\<rparr>) = queued s" "queued (s\<lparr>al_futures := fs\<rparr>) = queued s" "queued (s\<lparr>al_ready := r\<rparr>) = queued s"
  "queued (s\<lparr>al_retry_delay := dl\<rparr>) = queued s" "queued (s\<lparr>al_running := rn\<rparr>) = queued s"
  "queued (fold (\<lambda>p :: pending_reply. finish_future (pr_future p) x) qs s) = queued s" "queued (drop_session_work s) = {}" "al_handlers (drop_session_work s) = []"
  by (simp_all add: queued_def drop_session_work_def fold_finish_sel)

lemma replies_keep_queue [simp]:
  "queued (accept_reply now msg s) = queued s" "al_handlers (accept_reply now msg s) = al_handlers s"
  "queued (register_request cid target f now s) = queued s" "al_handlers (register_request cid target f now s) = al_handlers s"
  "queued (forget_request cid f s) = queued s" "al_handlers (forget_request cid f s) = al_handlers s"
  "queued (fail_pending_requests reason s) = queued s" "al_handlers (fail_pending_requests reason s) = al_handlers s"
  by (auto simp: accept_reply_def register_request_def forget_request_def fail_pending_requests_def Let_def fold_finish_sel split: option.splits prod.splits)

lemma arrived_mono: "arrived W tr d m \<Longrightarrow> arrived W (tr @ [x]) d m"
  by (auto simp: arrived_def)

lemma justified_mono: "justified W tr ev \<Longrightarrow> justified W (tr @ [x]) ev"
  by (cases "(W, tr, ev)" rule: justified.cases) (auto dest: arrived_mono [of _ _ _ _ x])

lemma acks_ok_mono: "acks_ok W tr s \<Longrightarrow> acks_ok W (tr @ [x]) s"
  unfolding acks_ok_def using justified_mono arrived_mono by fast

lemma acks_step:
  assumes "link_step W s ev s'" and "acks_ok W tr s"
  shows "acks_ok W (tr @ [ev]) s'"
  using assms(1) acks_ok_mono [OF assms(2), of ev]
proof (induction rule: link_step.induct)
  case (delivered s now d raw)
  have "arrived W (tr @ [Delivered now d raw]) d (load_envelope W raw)" by (auto simp: arrived_def)
  then show ?case using delivered
    by (cases "load_envelope W raw") (auto simp: handle_delivery_def send_ack_def send_nack_def acks_ok_def)
next
  case (handled d msg s out)
  have "Handled d msg out \<in> set (tr @ [Handled d msg out])" "arrived W (tr @ [Handled d msg out]) d (Some msg)"
    using handled by (auto simp: acks_ok_def)
  then show ?case using handled(2)
    by (cases out) (auto simp: settle_handler_def send_ack_def send_nack_def acks_ok_def Let_def dest: notin_set_remove1 set_remove1_subset [THEN subsetD])
next
  case (sent s ev rest)
  then show ?case by (auto simp: acks_ok_def queued_def)
next
  case (proceeded s k)
  then show ?case using put_waiting_queued [of k s] by (auto simp: acks_ok_def)
qed (auto simp: acks_ok_def welcomed_def stream_ended_def begin_shutdown_def end_shutdown_def abandon_request_def Let_def)

lemma acks_run: "link_run W tr s \<Longrightarrow> acks_ok W tr s"
proof (induction rule: link_run.induct)
  case start
  show ?case by (simp add: acks_ok_def new_link_def queued_def)
qed (rule acks_step)


subsection \<open>Waiting\<close>

fun requested_ids :: "link_event list \<Rightarrow> string list" where
  "requested_ids [] = []"
| "requested_ids (Requested cid target f now # tr) = cid # requested_ids tr"
| "requested_ids (_ # tr) = requested_ids tr"

lemma requested_ids_append: "requested_ids (xs @ ys) = requested_ids xs @ requested_ids ys"
  by (induction xs rule: requested_ids.induct) simp_all

text \<open>Every waiting future is registered under its correlation.\<close>

definition waits_ok :: "string set \<Rightarrow> agent_link \<Rightarrow> bool" where
  "waits_ok ids s \<longleftrightarrow> fst ` set (al_pending s) \<subseteq> ids \<and>
     (\<forall>f fut. al_futures s f = Some fut \<longrightarrow> rf_state fut = FutWaiting \<longrightarrow> (\<exists>p. map_of (al_pending s) (rf_correlation fut) = Some p \<and> pr_future p = f))"

definition finished :: "future_state \<Rightarrow> reply_future \<Rightarrow> reply_future" where
  "finished x fut = (if rf_state fut = FutWaiting then fut\<lparr>rf_state := x\<rparr> else fut)"

lemma finished_state [simp]: "rf_correlation (finished x fut) = rf_correlation fut" "x \<noteq> FutWaiting \<Longrightarrow> rf_state (finished x fut) \<noteq> FutWaiting"
  "x \<noteq> FutWaiting \<Longrightarrow> finished x (finished x fut) = finished x fut"
  by (simp_all add: finished_def)

lemma finish_futures: "al_futures (finish_future f x s) i = (if i = f then map_option (finished x) (al_futures s f) else al_futures s i)"
  by (auto simp: finish_future_def finished_def split: option.split)

lemma finish_waits_ok: "waits_ok ids s \<Longrightarrow> x \<noteq> FutWaiting \<Longrightarrow> waits_ok ids (finish_future f x s)"
  by (auto simp: waits_ok_def finish_futures split: if_splits)

lemma fold_finish_futures:
  fixes ps :: "pending_reply list"
  assumes "x \<noteq> FutWaiting"
  shows "al_futures (fold (\<lambda>p. finish_future (pr_future p) x) ps s) i = (if i \<in> pr_future ` set ps
    then map_option (finished x) (al_futures s i) else al_futures s i)"
  using assms by (induction ps arbitrary: s) (auto simp: finish_futures option.map_comp comp_def intro: map_option_cong)

lemma fail_releases:
  assumes "waits_ok ids s"
  shows "al_futures (fail_pending_requests reason s) f = Some fut \<Longrightarrow> rf_state fut \<noteq> FutWaiting" and "waits_ok ids (fail_pending_requests reason s)"
proof -
  have released: "rf_state fut \<noteq> FutWaiting" if "al_futures (fail_pending_requests reason s) f = Some fut" for f fut
  proof
    assume "rf_state fut = FutWaiting"
    with that have at: "al_futures s f = Some fut" "f \<notin> pr_future ` set (map snd (al_pending s))"
      by (auto simp: fail_pending_requests_def fold_finish_futures split: if_splits)
    then obtain p where "map_of (al_pending s) (rf_correlation fut) = Some p" "pr_future p = f"
      using assms \<open>rf_state fut = FutWaiting\<close> unfolding waits_ok_def by blast
    then show False using at(2) by (force dest: map_of_SomeD)
  qed
  then show "al_futures (fail_pending_requests reason s) f = Some fut \<Longrightarrow> rf_state fut \<noteq> FutWaiting" by simp
  show "waits_ok ids (fail_pending_requests reason s)" using released by (auto simp: waits_ok_def) (auto simp: fail_pending_requests_def)
qed

lemma delete_waits_ok:
  assumes "waits_ok ids s" and "map_of (al_pending s) cid = Some p" and "\<And>fut. al_futures s (pr_future p) = Some fut \<Longrightarrow> rf_state fut \<noteq> FutWaiting"
  shows "waits_ok ids (s\<lparr>al_pending := AList.delete cid (al_pending s)\<rparr>)"
proof -
  have "\<exists>q. map_of (AList.delete cid (al_pending s)) (rf_correlation fut) = Some q \<and> pr_future q = f"
    if w: "al_futures s f = Some fut" "rf_state fut = FutWaiting" for f fut
  proof -
    obtain q where q: "map_of (al_pending s) (rf_correlation fut) = Some q" "pr_future q = f" using assms(1) w unfolding waits_ok_def by blast
    then have "rf_correlation fut \<noteq> cid" using assms(2,3) w by auto
    then show ?thesis using q by (simp add: AList.delete_conv')
  qed
  moreover have "fst ` set (AList.delete cid (al_pending s)) \<subseteq> ids" using assms(1) by (auto simp: waits_ok_def delete_filter)
  ultimately show ?thesis by (simp add: waits_ok_def)
qed

lemma accept_waits_ok: "waits_ok ids s \<Longrightarrow> waits_ok ids (accept_reply now msg s)"
proof (cases "map_of (al_pending s) (or_empty (correlation_id (env_meta msg)))")
  case (Some p)
  assume ok: "waits_ok ids s"
  let ?s = "finish_future (pr_future p) (FutResult msg) s"
  have "waits_ok ids (?s\<lparr>al_pending := AList.delete (or_empty (correlation_id (env_meta msg))) (al_pending ?s)\<rparr>)"
    by (rule delete_waits_ok [OF finish_waits_ok [OF ok], of _ _ _ p]) (use Some in \<open>auto simp: finish_futures\<close>)
  moreover have "?s\<lparr>al_pending := ps\<rparr> = finish_future (pr_future p) (FutResult msg) (s\<lparr>al_pending := ps\<rparr>)" for ps
    by (simp add: finish_future_def split: option.split)
  ultimately show ?thesis using ok Some by (simp add: accept_reply_def)
qed (simp add: accept_reply_def waits_ok_def)

lemma forget_waits_ok:
  assumes "waits_ok ids s" and "\<And>fut. al_futures s f = Some fut \<Longrightarrow> rf_state fut \<noteq> FutWaiting"
  shows "waits_ok ids (forget_request cid f s)"
proof (cases "map_of (al_pending s) cid")
  case (Some p)
  then show ?thesis using assms delete_waits_ok [OF assms(1) Some] by (auto simp: forget_request_def)
qed (simp add: forget_request_def assms)

lemma register_waits_ok:
  assumes ok: "waits_ok ids s" and new: "cid \<notin> ids"
  shows "waits_ok (insert cid ids) (register_request cid target f now s)"
proof -
  let ?s = "\<lambda>er. s\<lparr>al_futures := (al_futures s)(f \<mapsto> \<lparr>rf_correlation = cid, rf_target = target, rf_state = FutWaiting\<rparr>),
     al_pending := AList.update cid \<lparr>pr_future = f, pr_target = target\<rparr> (al_pending s), al_early := er\<rparr>"
  have other: "rf_correlation fut \<noteq> cid" if w: "al_futures s i = Some fut" "rf_state fut = FutWaiting" for i fut
  proof -
    obtain p where "map_of (al_pending s) (rf_correlation fut) = Some p" using ok w unfolding waits_ok_def by blast
    then have "rf_correlation fut \<in> ids" using ok map_of_SomeD unfolding waits_ok_def by force
    then show ?thesis using new by blast
  qed
  have "fst ` set (AList.update cid v (al_pending s)) \<subseteq> insert cid ids" for v using ok by (auto simp: waits_ok_def dom_update)
  then have "waits_ok (insert cid ids) (?s er)" for er
    using ok other by (simp add: waits_ok_def update_conv')
  then show ?thesis by (auto simp: register_request_def Let_def finish_waits_ok split: option.split prod.split)
qed

lemma waits_same: "al_futures s' = al_futures s \<Longrightarrow> al_pending s' = al_pending s \<Longrightarrow> waits_ok ids s \<Longrightarrow> waits_ok ids s'"
  by (simp add: waits_ok_def)

lemma quiet_waits_ok [simp]:
  "waits_ok ids (put_event ev s) = waits_ok ids s" "waits_ok ids (put_waiting k s) = waits_ok ids s" "waits_ok ids (drop_session_work s) = waits_ok ids s"
  "waits_ok ids (s\<lparr>al_handlers := hs\<rparr>) = waits_ok ids s" "waits_ok ids (s\<lparr>al_ready := rd\<rparr>) = waits_ok ids s"
  "waits_ok ids (s\<lparr>al_running := rn\<rparr>) = waits_ok ids s" "waits_ok ids (s\<lparr>al_retry_delay := dl\<rparr>) = waits_ok ids s"
  "waits_ok ids (s\<lparr>al_early := er\<rparr>) = waits_ok ids s" "waits_ok ids (s\<lparr>al_outgoing := evs\<rparr>) = waits_ok ids s"
  by (auto simp: waits_ok_def put_event_def put_waiting_def drop_session_work_def)

lemma waits_step:
  "link_step W s ev s' \<Longrightarrow> waits_ok ids s \<Longrightarrow> set (requested_ids [ev]) \<inter> ids = {} \<Longrightarrow> waits_ok (ids \<union> set (requested_ids [ev])) s'"
proof (induction rule: link_step.induct)
  case (delivered s now d raw)
  then show ?case by (simp add: handle_delivery_def send_ack_def send_nack_def accept_waits_ok split: option.split)
next
  case (abandoned s cid f)
  then show ?case by (auto simp: abandon_request_def finish_futures intro!: forget_waits_ok finish_waits_ok)
next
  case (returned s f fut cid)
  then show ?case by (auto intro!: forget_waits_ok)
qed (simp_all add: settle_handler_def send_ack_def send_nack_def register_waits_ok welcomed_def stream_ended_def begin_shutdown_def end_shutdown_def
    fail_releases Let_def split: sum.split)

lemma waits_run: "link_run W tr s \<Longrightarrow> distinct (requested_ids tr) \<Longrightarrow> waits_ok (set (requested_ids tr)) s"
proof (induction rule: link_run.induct)
  case start
  show ?case by (simp add: waits_ok_def new_link_def)
next
  case (step tr s ev s')
  then show ?case using waits_step [OF step.hyps(2), of "set (requested_ids tr)"] by (auto simp: requested_ids_append)
qed

lemma waiting_registered:
  assumes "link_run W tr s" and "distinct (requested_ids tr)" and "al_futures s f = Some fut" and "rf_state fut = FutWaiting"
  shows "\<exists>p. map_of (al_pending s) (rf_correlation fut) = Some p \<and> pr_future p = f \<and> pr_target p = rf_target fut"
proof -
  obtain p where p: "map_of (al_pending s) (rf_correlation fut) = Some p" "pr_future p = f"
    using waits_run [OF assms(1,2)] assms(3,4) unfolding waits_ok_def by blast
  then show ?thesis using run_ok [OF assms(1)] map_of_SomeD [OF p(1)] assms(3) by (fastforce simp: link_ok_def)
qed

lemma waiting_resolved:
  assumes "link_run W tr s" and "distinct (requested_ids tr)" and "al_futures s f = Some fut" and "rf_state fut = FutWaiting"
    and "is_answer msg" and "correlation_id (env_meta msg) = Some (rf_correlation fut)" and "sender_id msg = rf_target fut" and "load_envelope W raw = Some msg"
  shows "al_futures (handle_delivery W now d raw s) f = Some (fut\<lparr>rf_state := FutResult msg\<rparr>)"
  using waiting_registered [OF assms(1-4)] assms(3-8)
  by (auto simp: handle_delivery_def accept_reply_def or_empty_def reply_authorized_def send_ack_def finish_futures finished_def)

text \<open>
  C28. No caller waits for a reply that cannot come: in every run of a client in which the broker
  gives out each correlation once, the end of the stream and the start of a shutdown leave no
  future waiting, so every request in progress returns; and until then a waiting future is
  the one that a reply to its correlation by its target would resolve.
\<close>

theorem waiters_are_released:
  assumes "link_run W tr s" and "distinct (requested_ids tr)" and "al_futures s f = Some fut" and "rf_state fut = FutWaiting"
  shows "map_option rf_state (al_futures (stream_ended s) f) = Some (FutError (OSError ''Agent transport disconnected'')) \<and>
    map_option rf_state (al_futures (begin_shutdown s) f) = Some (FutError (OSError ''Agent stopped'')) \<and>
    (is_answer msg \<and> correlation_id (env_meta msg) = Some (rf_correlation fut) \<and> sender_id msg = rf_target fut \<and> load_envelope W raw = Some msg \<longrightarrow>
      al_futures (handle_delivery W now d raw s) f = Some (fut\<lparr>rf_state := FutResult msg\<rparr>))"
proof -
  have "f \<in> pr_future ` set (map snd (al_pending s))" using waiting_registered [OF assms] by (force dest: map_of_SomeD)
  then have "map_option rf_state (al_futures (stream_ended s) f) = Some (FutError (OSError ''Agent transport disconnected''))"
    "map_option rf_state (al_futures (begin_shutdown s) f) = Some (FutError (OSError ''Agent stopped''))"
    using assms(3,4) by (auto simp: stream_ended_def begin_shutdown_def drop_session_work_def fail_pending_requests_def fold_finish_futures finished_def Let_def)
  then show ?thesis using waiting_resolved [OF assms] by blast
qed

section \<open>Races\<close>

lemma delete_update_fresh: "k \<notin> fst ` set xs \<Longrightarrow> AList.delete k (AList.update k v xs) = xs"
  by (induction xs) auto

lemma er_pop_put:
  assumes "er_ok before er" and "0 < er_max_entries er"
  shows "fst (er_pop cid t False (er_put cid msg now er)) = Some msg"
proof -
  let ?kept = "filter (\<lambda>item. now \<le> snd (snd item) \<and> fst item \<noteq> cid) (er_items er)"
  have "Suc (length ?kept) - er_max_entries er \<le> length ?kept" using assms(2) by simp
  then have rest: "er_items (er_put cid msg now er) = drop (Suc (length ?kept) - er_max_entries er) ?kept @ [(cid, msg, now + er_ttl_seconds er)]"
    using er_put_items [OF assms(1), of cid msg now] by (simp add: Let_def)
  have "fst item \<noteq> cid" if "item \<in> set (drop n ?kept)" for item n using in_set_dropD [OF that] by simp
  then have "map_of (drop n ?kept) cid = None" for n unfolding map_of_eq_None_iff by blast
  then show ?thesis by (simp add: er_pop_def rest map_add_def)
qed


text \<open>
  The broker keeps a correlation for as long as the client waits: an accepted timeout is
  rounded up to a positive number of milliseconds that fits the field of the protocol, the
  broker takes it as it is and not as a request for its default, and no more than one
  millisecond is added.
\<close>

theorem correlation_outlives_wait:
  assumes "request_timeout timeout = Inr (t, ms)"
  shows "0 < t \<and> 1 \<le> ms \<and> ms < 2 ^ 31 \<and> effective_timeout_ms ms = ms \<and> t \<le> real_of_int ms / 1000 \<and> real_of_int ms / 1000 < t + 1 / 1000 \<and>
    (timeout = None \<longrightarrow> ms = effective_timeout_ms 0)"
proof -
  have at: "0 < t" "ms = \<lceil>t * 1000\<rceil>" "ms \<le> 2147483647" "timeout = None \<longrightarrow> t = 60"
    using assms by (auto simp: request_timeout_def Let_def split: option.splits if_splits)
  have "1 \<le> ms" using at(1,2) by (simp add: less_le_not_le)
  moreover have "t * 1000 \<le> real_of_int ms" "real_of_int ms < t * 1000 + 1" unfolding at(2) by linarith+
  moreover have "timeout = None \<longrightarrow> ms = effective_timeout_ms 0" using at(2,4) by (simp add: effective_timeout_ms_def)
  moreover have "effective_timeout_ms ms = ms" using \<open>1 \<le> ms\<close> by (simp add: effective_timeout_ms_def)
  ultimately show ?thesis using at(1,3) by simp
qed

theorem correlation_outlives_wait_witness:
  "request_timeout (Some (Some (1 / 4))) = Inr (1 / 4, 250) \<and> effective_timeout_ms 250 = 250"
proof -
  have "request_timeout (Some (Some (1 / 4))) = Inr (1 / 4, 250)" by (simp add: request_timeout_def)
  with correlation_outlives_wait [OF this] show ?thesis by simp
qed

section \<open>An example run\<close>

text \<open>
  A reply by \<open>b\<close> overtakes the answer to its request, a second request to \<open>b\<close> is waiting, and a
  message is handled.
\<close>

definition example_note :: envelope where
  "example_note = example_reply\<lparr>env_meta := default_meta, message_id := ''n''\<rparr>"

definition note_wire :: wire where
  "note_wire = json_wire\<lparr>load_envelope := (\<lambda>raw. if raw = ''r'' then Some example_reply else if raw = ''n'' then Some example_note else None)\<rparr>"

definition example_events :: "link_event list" where
  "example_events = [Welcomed, Delivered 1 ''d'' ''r'', Requested ''c'' ''b'' 0 2, Requested ''k'' ''b'' 1 2, Delivered 3 ''e'' ''n'', Handled ''e'' example_note (Inr ())]"

definition example_link :: agent_link where
  "example_link = settle_handler ''e'' example_note (Inr ()) (handle_delivery note_wire 3 ''e'' ''n'' (register_request ''k'' ''b'' 1 2
     (register_request ''c'' ''b'' 0 2 (handle_delivery note_wire 1 ''d'' ''r'' (welcomed new_link)))))"

lemma note_messages: "is_answer example_reply" "\<not> is_answer example_note" "or_empty (correlation_id (env_meta example_reply)) = ''c''"
  "load_envelope note_wire ''r'' = Some example_reply" "load_envelope note_wire ''n'' = Some example_note"
  by (simp_all add: is_answer_def example_reply_def example_note_def absent_def or_empty_def default_meta_def note_wire_def)

lemmas link_eval = note_messages welcomed_def new_link_def new_early_replies_def handle_delivery_def accept_reply_def er_put_def er_pop_def item_to_end_def
  register_request_def reply_authorized_def settle_handler_def send_ack_def put_event_def outgoing_bound_def finish_future_def Let_def

lemma example_link_run: "link_run note_wire example_events example_link"
proof -
  note step = link_run.step
  have "link_run note_wire ([] @ [Welcomed]) (welcomed new_link)" by (rule step [OF link_run.start link_step.greeted])
  from step [OF this link_step.delivered, of 1 "''d''" "''r''"]
  have two: "link_run note_wire [Welcomed, Delivered 1 ''d'' ''r''] (handle_delivery note_wire 1 ''d'' ''r'' (welcomed new_link))" by simp
  have "link_run note_wire [Welcomed, Delivered 1 ''d'' ''r'', Requested ''c'' ''b'' 0 2]
      (register_request ''c'' ''b'' 0 2 (handle_delivery note_wire 1 ''d'' ''r'' (welcomed new_link)))"
    using step [OF two link_step.requested, of 0 "''c''" "''b''" 2] by (simp add: link_eval)
  from step [OF this link_step.requested, of 1 "''k''" "''b''" 2]
  have four: "link_run note_wire [Welcomed, Delivered 1 ''d'' ''r'', Requested ''c'' ''b'' 0 2, Requested ''k'' ''b'' 1 2]
      (register_request ''k'' ''b'' 1 2 (register_request ''c'' ''b'' 0 2 (handle_delivery note_wire 1 ''d'' ''r'' (welcomed new_link))))"
    by (simp add: link_eval example_reply_def)
  note five = step [OF four link_step.delivered, of 3 "''e''" "''n''"]
  have "(''e'', example_note) \<in> set (al_handlers (handle_delivery note_wire 3 ''e'' ''n'' (register_request ''k'' ''b'' 1 2
      (register_request ''c'' ''b'' 0 2 (handle_delivery note_wire 1 ''d'' ''r'' (welcomed new_link))))))"
    by (simp add: handle_delivery_def note_messages)
  from step [OF five link_step.handled [OF this], of "Inr ()"] show ?thesis by (simp add: example_events_def example_link_def)
qed

lemma example_link_at:
  "al_futures example_link 0 = Some \<lparr>rf_correlation = ''c'', rf_target = ''b'', rf_state = FutResult example_reply\<rparr>"
  "al_futures example_link 1 = Some \<lparr>rf_correlation = ''k'', rf_target = ''b'', rf_state = FutWaiting\<rparr>"
  "al_outgoing example_link = [AckEvent ''d'', AckEvent ''e'']"
  by (simp_all add: example_link_def link_eval) (simp_all add: example_reply_def)

theorem reply_comes_from_target_witness:
  "\<exists>cid target now t d raw. Requested cid target 0 now \<in> set example_events \<and> Delivered t d raw \<in> set example_events \<and>
     load_envelope note_wire raw = Some example_reply \<and> sender_id example_reply = target \<and> correlation_id (env_meta example_reply) = Some cid"
  using reply_comes_from_target [OF example_link_run, of 0] example_link_at(1) by fastforce


theorem waiters_are_released_witness:
  "map_option rf_state (al_futures (stream_ended example_link) 1) = Some (FutError (OSError ''Agent transport disconnected''))"
  using waiters_are_released [OF example_link_run _ example_link_at(2)] by (simp add: example_events_def)


end
