(* ===== verification/Agent_Messaging.thy ===== *)
theory Agent_Messaging
  imports Agent_Replies
begin

text \<open>
  \<open>packages/mas-agent/src/mas_agent/messaging.py\<close>: the calls of an agent. Each encodes its data,
  calls a procedure of the broker, and hands the result back; a request also registers the
  future of its reply.
\<close>

section \<open>Calls\<close>

record agent_side =
  as_started :: bool
  as_instance :: string
  as_link :: agent_link

type_synonym ('db, 'a) agent_call = "agent_side \<times> 'db front \<Rightarrow> ('a rpc_result \<times> agent_side \<times> 'db front) option"

definition raise_local :: "err \<Rightarrow> ('db, 'a) agent_call" where
  "raise_local e w = Some (Crash e, w)"

definition call_stub :: "('db front, 'a) rpc \<Rightarrow> ('a \<Rightarrow> agent_side \<Rightarrow> 'b rpc_result \<times> agent_side) \<Rightarrow> ('db, 'b) agent_call" where
  "call_stub stub go_on w =
     (if \<not> as_started (fst w) then raise_local (RuntimeError ''Agent not started'') w
      else map_option (\<lambda>(r, front). case r of
          Answer x \<Rightarrow> (case go_on x (fst w) of (out, c) \<Rightarrow> (out, (c, front)))
        | Abort st msg \<Rightarrow> (Abort st msg, (fst w, front))
        | Crash e \<Rightarrow> (Crash e, (fst w, front))) (stub (snd w)))"

definition agent_send :: "text_numbers \<Rightarrow> 'db mas_server \<Rightarrow> 'db rpc_call \<Rightarrow> string \<Rightarrow> string \<Rightarrow> (string \<times> json) list \<Rightarrow> ('db, unit) agent_call" where
  "agent_send N S call target kind data w =
     call_stub (Send S call (as_instance (fst w)) target kind (json_dumps N (JObj data))) (\<lambda>_ c. (Answer (), c)) w"

text \<open>
  \<open>request\<close> up to its wait: the answer of the call is the correlation under which it waits. If the
  timeout strikes during the call, the broker may have accepted the request although the
  client gives up.
\<close>

definition agent_request :: "text_numbers \<Rightarrow> 'db mas_server \<Rightarrow> 'db rpc_call \<Rightarrow> string \<Rightarrow> string \<Rightarrow> (string \<times> json) list \<Rightarrow> real option option \<Rightarrow>
    bool \<Rightarrow> nat \<Rightarrow> real \<Rightarrow> ('db, string) agent_call" where
  "agent_request N S call target kind data timeout in_time f now w =
     (if \<not> as_started (fst w) then raise_local (RuntimeError ''Agent not started'') w
      else case request_timeout timeout of
        Inl e \<Rightarrow> raise_local e w
      | Inr (_, timeout_ms) \<Rightarrow>
          call_stub (Request S call (as_instance (fst w)) target kind (json_dumps N (JObj data)) timeout_ms)
            (\<lambda>(_, cid) c. if in_time then (Answer cid, c\<lparr>as_link := register_request cid target f now (as_link c)\<rparr>)
                         else (Crash (OtherError ''TimeoutError''), c)) w)"

definition send_reply_envelope :: "text_numbers \<Rightarrow> 'db mas_server \<Rightarrow> 'db rpc_call \<Rightarrow> envelope \<Rightarrow> string \<Rightarrow> (string \<times> json) list \<Rightarrow> ('db, unit) agent_call" where
  "send_reply_envelope N S call original kind payload w =
     (if absent (correlation_id (env_meta original)) then raise_local (RuntimeError ''Cannot reply: missing correlation_id'') w
      else call_stub (Reply S call (as_instance (fst w)) (or_empty (correlation_id (env_meta original))) kind (json_dumps N (JObj payload)))
        (\<lambda>_ c. (Answer (), c)) w)"

record found_agent =
  fa_id :: string
  fa_capabilities :: "string list"
  fa_metadata :: "(string \<times> json) list"
  fa_status :: string

definition found_agent_of :: "text_numbers \<Rightarrow> agent_message \<Rightarrow> err + found_agent" where
  "found_agent_of N rec =
     (case if am_metadata_json rec = [] then Inr []
           else (case json_loads N (am_metadata_json rec) of None \<Rightarrow> Inl (ValueError ''JSONDecodeError'') | Some v \<Rightarrow> validate_json_object v) of
        Inl e \<Rightarrow> Inl e
      | Inr metadata \<Rightarrow> Inr \<lparr>fa_id = am_agent_id rec, fa_capabilities = am_capabilities rec, fa_metadata = metadata, fa_status = am_status rec\<rparr>)"

fun found_agents :: "text_numbers \<Rightarrow> agent_message list \<Rightarrow> err + found_agent list" where
  "found_agents N [] = Inr []"
| "found_agents N (rec # recs) =
     (case found_agent_of N rec of Inl e \<Rightarrow> Inl e | Inr x \<Rightarrow> (case found_agents N recs of Inl e \<Rightarrow> Inl e | Inr xs \<Rightarrow> Inr (x # xs)))"

definition agent_discover :: "text_numbers \<Rightarrow> 'db mas_server \<Rightarrow> 'db rpc_call \<Rightarrow> string list option \<Rightarrow> ('db, found_agent list) agent_call" where
  "agent_discover N S call capabilities w =
     call_stub (Discover S call (case capabilities of None \<Rightarrow> [] | Some cs \<Rightarrow> cs))
       (\<lambda>recs c. (case found_agents N recs of Inl e \<Rightarrow> Crash e | Inr found \<Rightarrow> Answer found, c)) w"

section \<open>Data arrives as it was sent\<close>

lemma payload_text:
  assumes "json_numerals N" and "json_ok N (JObj data)"
  shows "parse_payload_json N (json_dumps N (JObj data)) = Inr data"
proof -
  have "json_loads N (json_dumps N (JObj data)) = Some (JObj data)" by (rule json_numerals.json_loads_dumps [OF assms])
  moreover have "json_dumps N (JObj data) \<noteq> []" by (simp add: json_dumps_def)
  ultimately show ?thesis by (simp add: parse_payload_json_def validate_json_object_def)
qed

lemma found_agent_exact:
  assumes "json_numerals N" and "json_ok N (JObj (disc_metadata r))"
  shows "found_agent_of N (agent_message_of N r) =
    Inr \<lparr>fa_id = disc_id r, fa_capabilities = disc_capabilities r, fa_metadata = disc_metadata r, fa_status = disc_status r\<rparr>"
proof -
  have "json_loads N (json_dumps N (JObj (disc_metadata r))) = Some (JObj (disc_metadata r))" by (rule json_numerals.json_loads_dumps [OF assms])
  then show ?thesis by (simp add: found_agent_of_def agent_message_of_def validate_json_object_def json_dumps_def)
qed

lemma found_agents_exact:
  assumes "json_numerals N" and "\<forall>r \<in> set recs. json_ok N (JObj (disc_metadata r))"
  shows "found_agents N (map (agent_message_of N) recs) =
    Inr (map (\<lambda>r. \<lparr>fa_id = disc_id r, fa_capabilities = disc_capabilities r, fa_metadata = disc_metadata r, fa_status = disc_status r\<rparr>) recs)"
  using assms(2) by (induction recs) (simp_all add: found_agent_exact [OF assms(1)])

lemma Request_known:
  assumes "spiffe_agent_id (Some (rc_verdict call)) (rc_auth call) = Inr agent"
    and "request_message (ms_policy S) (ms_wire S) (ms_redis S) (rc_ingress call) agent inst target kind data_json timeout_ms w = Some (Inr x, w')"
  shows "Request S call inst target kind data_json timeout_ms w = Some (Answer x, w')"
  using assms by (simp add: handlers handle_known storage_error_boundary_def aborts_def storage_status_def)

text \<open>The bounds of an accepted timeout.\<close>

lemma request_timeout_ms:
  assumes "request_timeout timeout = Inr (t, ms)"
  shows "0 \<le> ms" and "t \<le> real_of_int (effective_timeout_ms ms) / 1000"
proof -
  have at: "0 < t" "ms = \<lceil>t * 1000\<rceil>" using assms by (auto simp: request_timeout_def Let_def split: option.splits if_splits)
  then have "0 < ms" "t * 1000 \<le> real_of_int ms" by simp_all
  moreover from this have "effective_timeout_ms ms = ms" by (simp add: effective_timeout_ms_def)
  ultimately show "0 \<le> ms" and "t \<le> real_of_int (effective_timeout_ms ms) / 1000" by simp_all
qed

text \<open>
  C12. A request reaches its target with its data: when a client asks an agent on a healthy gateway
  and the policy lets the request pass, the mailbox of the target gains one envelope, whose
  sender is the agent in the certificate of the client and whose data before redaction are
  the ones that the caller passed; the broker has stored the correlation for this instance
  and this target, with a deadline no earlier than the end of the caller's wait, under a key
  whose expiry in Redis is no earlier either; and the client waits for a reply of
  that target under that correlation.
\<close>

theorem request_reaches_target:
  assumes "spiffe_agent_id (Some (rc_verdict call)) (rc_auth call) = Inr agent" and "ms_redis S = ks_redis" and "ms_policy S = P" and "po_numbers P = N"
    and "as_started c" and "request_timeout timeout = Inr (t, ms)" and "json_numerals N" and "json_ok N (JObj data)"
    and "undisturbed (rc_ingress call) agent (as_instance c) (g, b)" and "cid = ic_correlation_id (rc_ingress call)"
    and "m = request_envelope (rc_ingress call) agent (as_instance c) target kind data"
    and "healthy P (ic_ingest (rc_ingress call)) m (Some (mailbox_append m (ms_wire S))) g"
    and "policy_spec P (ie_rate_clock (ic_ingest (rc_ingress call))) (ie_circuit_clock (ic_ingest (rc_ingress call))) (gw_db g) m = Inr (Passed d found m')"
    and "map_of (er_items (al_early (as_link c))) cid = None"
  shows "\<exists>g' c' expires dl. agent_request N S call target kind data timeout True f now (c, (g, b)) = Some (Answer cid, c', (g', b)) \<and>
    mails (shared_stream target) (gw_db g') = mails (shared_stream target) (gw_db g) @ [[(''envelope'', dump_envelope (ms_wire S) m')]] \<and>
    sender_id m' = agent \<and> target_id m' = target \<and> m' = m\<lparr>env_data := env_data m'\<rparr> \<and> env_data m = data \<and>
    ks_data (gw_db g') (pending_request_key cid) = Some (RString (pending_request N agent (as_instance c) target expires)) \<and>
    ic_clock (rc_ingress call) + t \<le> expires \<and>
    ks_ttl (gw_db g') (pending_request_key cid) = Some dl \<and> real (now_ms (gw_db g')) + t * 1000 \<le> real dl \<and>
    al_futures (as_link c') f = Some \<lparr>rf_correlation = cid, rf_target = target, rf_state = FutWaiting\<rparr>"
proof -
  let ?text = "json_dumps N (JObj data)" and ?expires = "ic_clock (rc_ingress call) + real_of_int (effective_timeout_ms ms) / 1000"
  have payload: "parse_payload_json (po_numbers P) ?text = Inr data" using payload_text [OF assms(7,8)] assms(4) by simp
  obtain g' where run: "request_message P (ms_wire S) ks_redis (rc_ingress call) agent (as_instance c) target kind ?text ms (g, b) =
      Some (Inr (ic_message_id (rc_ingress call), cid), (g', b))"
    and at: "mails (shared_stream target) (gw_db g') = mails (shared_stream target) (gw_db g) @ [[(''envelope'', dump_envelope (ms_wire S) m')]]"
      "ks_data (gw_db g') (pending_request_key cid) = Some (RString (pending_request N agent (as_instance c) target ?expires))"
      "ks_ttl (gw_db g') (pending_request_key cid) = Some (now_ms (gw_db g) + nat (effective_timeout_ms ms))" "now_ms (gw_db g') = now_ms (gw_db g)"
    using request_delivered [OF assms(9) payload request_timeout_ms(1) [OF assms(6)] assms(12,11,13)] assms(4,10) by blast
  have call: "Request S call (as_instance c) target kind ?text ms (g, b) = Some (Answer (ic_message_id (rc_ingress call), cid), (g', b))"
    by (rule Request_known [OF assms(1)]) (use run assms(2,3) in simp)
  let ?c = "c\<lparr>as_link := register_request cid target f now (as_link c)\<rparr>"
  have "agent_request N S call target kind data timeout True f now (c, (g, b)) = Some (Answer cid, ?c, (g', b))"
    using assms(5,6) call by (simp add: agent_request_def call_stub_def)
  moreover have "al_futures (as_link ?c) f = Some \<lparr>rf_correlation = cid, rf_target = target, rf_state = FutWaiting\<rparr>"
    using assms(14) by (simp add: register_request_def er_pop_def Let_def)
  moreover obtain p where "m' = m\<lparr>env_data := p\<rparr>" using policy_spec_passed [OF assms(13)] by blast
  then have "sender_id m' = agent" "target_id m' = target" "m' = m\<lparr>env_data := env_data m'\<rparr>" "env_data m = data"
    using request_envelope_sel assms(11) by (simp_all add: request_envelope_def build_message_def)
  moreover have "0 \<le> effective_timeout_ms ms" "t * 1000 \<le> real_of_int (effective_timeout_ms ms)"
    using request_timeout_ms [OF assms(6)] by (simp_all add: effective_timeout_ms_def)
  then have "real (now_ms (gw_db g')) + t * 1000 \<le> real (now_ms (gw_db g) + nat (effective_timeout_ms ms))" using at(4) by simp
  ultimately show ?thesis using at request_timeout_ms(2) [OF assms(6)]
    by (intro exI [of _ g'] exI [of _ ?c] exI [of _ ?expires] exI [of _ "now_ms (gw_db g) + nat (effective_timeout_ms ms)"]) auto
qed

theorem request_reaches_target_witness:
  "\<exists>g' c'. agent_request point_numbers example_server known_caller ''b'' ''t'' [] (Some (Some (1 / 4))) True 0 1
     (\<lparr>as_started = True, as_instance = ''i'', as_link = new_link\<rparr>, (asking_gateway, example_broker)) = Some (Answer ''c'', c', (g', example_broker)) \<and>
     al_futures (as_link c') 0 = Some \<lparr>rf_correlation = ''c'', rf_target = ''b'', rf_state = FutWaiting\<rparr>"
proof -
  let ?c = "\<lparr>as_started = True, as_instance = ''i'', as_link = new_link\<rparr>"
  let ?m = "request_envelope (rc_ingress known_caller) ''a'' (as_instance ?c) ''b'' ''t'' []"
  have call: "rc_ingress known_caller = example_ingress" by (simp add: known_caller_def stranger_def)
  have und: "undisturbed (rc_ingress known_caller) ''a'' (as_instance ?c) (asking_gateway, example_broker)"
    unfolding call agent_side.select_convs by (rule example_undisturbed) (simp add: asking_gateway_def asking_storage_def)
  have healthy: "healthy example_pipeline (ic_ingest (rc_ingress known_caller)) ?m (Some (mailbox_append ?m (ms_wire example_server))) asking_gateway"
    using asking_healthy(2) [OF request_envelope_sel(2,3)] by (simp add: call example_ingress_def)
  have passed: "policy_spec example_pipeline (ie_rate_clock (ic_ingest (rc_ingress known_caller))) (ie_circuit_clock (ic_ingest (rc_ingress known_caller)))
      (gw_db asking_gateway) ?m = Inr (Passed ''ALLOWED'' [] ?m)"
    using asking_passes [OF request_envelope_sel(2,3)] by (simp add: call example_ingress_def example_env_def asking_gateway_def)
  have S: "ms_redis example_server = ks_redis" "ms_policy example_server = example_pipeline" "po_numbers example_pipeline = point_numbers"
    by (simp_all add: example_server_def example_pipeline_def)
  have timeout: "request_timeout (Some (Some (1 / 4))) = Inr (1 / 4, 250)" by (simp add: request_timeout_def)
  have early: "map_of (er_items (al_early (as_link ?c))) cid = None" for cid by (simp add: new_link_def new_early_replies_def)
  have "as_started ?c" "json_ok point_numbers (JObj [])" by simp_all
  from request_reaches_target [OF known_identity S this(1) timeout point.json_numerals_axioms this(2) und refl refl healthy passed early, of 0 1]
  show ?thesis by (fastforce simp: call example_ingress_def)
qed

end
