(* ===== verification/Spec2Isabelle.thy ===== *)
theory Spec2Isabelle
  imports Agent_State Agent_Messaging
begin

text \<open>
  Verification of the MAS framework (work in progress header).
\<close>

section \<open>From the answer of an agent to the caller that waits for it\<close>

text \<open>
  C2. A request is answered end to end: when the agent that was asked, known by its certificate,
  replies in time to the broker on a healthy gateway and the policy lets the reply pass, the
  call succeeds, the stream of the instance that asked gains one entry, and the delivery of
  that entry to a client in which the request is still waiting resolves the future of that
  request with the reply, which carries the name in the certificate of the replier.
\<close>

theorem answer_resolves_request:
  assumes "spiffe_agent_id (Some (rc_verdict call)) (rc_auth call) = Inr t" and "ms_redis S = ks_redis" and "ms_policy S = P" and "wire_codec (ms_wire S)"
    and "undisturbed (rc_ingress call) t inst (g, b)" and "awaits (po_numbers P) (gw_db g) cid a i t expires"
    and "parse_payload_json (po_numbers P) data_json = Inr payload" and "ic_clock (rc_ingress call) < expires"
    and "m = reply_envelope (rc_ingress call) t inst cid kind payload a i" and "healthy P (ic_ingest (rc_ingress call)) m None g"
    and "is_hex64 (reply_fingerprint (po_numbers P) (ms_wire S) t kind payload)" and "ic_message_id (rc_ingress call) \<noteq> []"
    and "stream_typed (instance_stream a i) (gw_db g)" and "room 1 (st_last (stream_at (instance_stream a i) (gw_db g)))"
    and "policy_spec P (ie_rate_clock (ic_ingest (rc_ingress call))) (ie_circuit_clock (ic_ingest (rc_ingress call))) (gw_db g) m = Inr (Passed dec found m')"
    and "load_envelope (ms_wire S) (dump_envelope (ms_wire S) m') = Some m'"
    and "link_run (ms_wire S) tr s" and "distinct (requested_ids tr)"
    and "al_futures s f = Some \<lparr>rf_correlation = cid, rf_target = t, rf_state = FutWaiting\<rparr>"
  shows "\<exists>g' raw. serve S call (ReplyRequest inst cid kind data_json) (g, b) = Some (Answer (ReplyResponse (ic_message_id (rc_ingress call))), (g', b)) \<and>
    mails (instance_stream a i) (gw_db g') = mails (instance_stream a i) (gw_db g) @ [[(''envelope'', raw)]] \<and>
    al_futures (handle_delivery (ms_wire S) now d raw s) f = Some \<lparr>rf_correlation = cid, rf_target = t, rf_state = FutResult m'\<rparr> \<and>
    sender_id m' = t \<and> message_type m' = kind \<and> message_id m' = ic_message_id (rc_ingress call)"
proof -
  obtain g' where run: "reply_message P (ms_wire S) ks_redis (rc_ingress call) t inst cid kind data_json (g, b) = Some (Inr (ic_message_id (rc_ingress call)), (g', b))"
    and mail: "mails (instance_stream a i) (gw_db g') = mails (instance_stream a i) (gw_db g) @ [[(''envelope'', dump_envelope (ms_wire S) m')]]"
    using reply_delivered [OF assms(4-15)] by blast
  have served: "serve S call (ReplyRequest inst cid kind data_json) (g, b) = Some (Answer (ReplyResponse (ic_message_id (rc_ingress call))), (g', b))"
    using run assms(1-3)
    by (simp add: serve_def handlers handle_known answered_with_def bind_rpc_def storage_error_boundary_def aborts_def storage_status_def)
  obtain p where m': "m' = m\<lparr>env_data := p\<rparr>" using policy_spec_passed [OF assms(15)] by blast
  have "cid \<noteq> []" using assms(6) by (simp add: awaits_def)
  then have "is_answer m'" "correlation_id (env_meta m') = Some cid" "sender_id m' = t" "message_id m' = ic_message_id (rc_ingress call)"
    by (simp_all add: m' assms(9) is_answer_def absent_def)
  moreover have "message_type m' = kind" by (simp add: m' assms(9) reply_envelope_def build_message_def)
  ultimately show ?thesis using served mail waiting_resolved [OF assms(17-19), of m' "dump_envelope (ms_wire S) m'" now d] assms(16) by auto
qed

text \<open>Agent \<open>a\<close> answers the request of the instance \<open>j\<close> of agent \<open>b\<close>.\<close>

definition example_answer :: envelope where
  "example_answer = reply_envelope example_ingress ''a'' ''i'' ''c'' ''t'' [] ''b'' ''j''"

definition answer_wire :: wire where
  "answer_wire = hex_wire\<lparr>load_envelope := (\<lambda>raw. if raw = dump_envelope hex_wire example_answer then Some example_answer else None)\<rparr>"

definition answer_server :: "keyspace mas_server" where
  "answer_server = example_server\<lparr>ms_wire := answer_wire\<rparr>"

theorem answer_resolves_request_witness:
  "\<exists>g' raw. serve answer_server known_caller (ReplyRequest ''i'' ''c'' ''t'' []) (asked_gateway, example_broker) = Some (Answer (ReplyResponse ''m1''), (g', example_broker)) \<and>
     length (mails (instance_stream ''b'' ''j'') (gw_db g')) = 1 \<and>
     al_futures (handle_delivery answer_wire 1 ''d'' raw (register_request ''c'' ''a'' 0 0 new_link)) 0 =
       Some \<lparr>rf_correlation = ''c'', rf_target = ''a'', rf_state = FutResult example_answer\<rparr>"
proof -
  have S: "ms_redis answer_server = ks_redis" "ms_policy answer_server = example_pipeline" "ms_wire answer_server = answer_wire"
    by (simp_all add: answer_server_def example_server_def)
  have codec: "wire_codec answer_wire"
    using wire_codec.receipt_roundtrip [OF hex_wire_codec] wire_codec.strings_roundtrip [OF hex_wire_codec] by unfold_locales (simp_all add: answer_wire_def)
  have call: "rc_ingress known_caller = example_ingress" by (simp add: known_caller_def stranger_def)
  have hex: "is_hex64 (reply_fingerprint (po_numbers example_pipeline) answer_wire ''a'' ''t'' [])"
    using asked_reply(3) by (simp add: reply_fingerprint_def answer_wire_def)
  have clock: "ic_clock example_ingress < 60" "ic_message_id example_ingress \<noteq> []" by (simp_all add: example_ingress_def)
  have load: "load_envelope answer_wire (dump_envelope answer_wire example_answer) = Some example_answer" by (simp add: answer_wire_def)
  have run: "link_run answer_wire ([] @ [Requested ''c'' ''a'' 0 0]) (register_request ''c'' ''a'' 0 0 new_link)"
    by (rule link_run.step [OF link_run.start link_step.requested]) (simp add: new_link_def)
  have waiting: "al_futures (register_request ''c'' ''a'' 0 0 new_link) 0 = Some \<lparr>rf_correlation = ''c'', rf_target = ''a'', rf_state = FutWaiting\<rparr>"
    by (simp add: link_eval)
  have "mails (instance_stream ''b'' ''j'') (gw_db asked_gateway) = []" using asked_reply(4) by (simp add: mails_def stream_at_def empty_stream_def)
  with answer_resolves_request [OF known_identity S(1,2), unfolded S call, OF codec asked_undisturbed asked_awaits example_payload clock(1) refl asked_reply(1) hex clock(2)
      asked_box asked_reply(2) load [unfolded example_answer_def] run _ waiting, of 1 "''d''"]
  show ?thesis by (fastforce simp: example_answer_def example_ingress_def)
qed

end
